(* ===== verification/Prelude.thy ===== *)
theory Prelude
  imports Main "HOL-Library.AList"
begin

text \<open>
  Shared vocabulary of the development: Python values and strings, insertion-ordered
  dictionaries, list slices, the sliding window used by every bounded history, and the
  lemmas about them that the component theories share.

  Python strings are lists of characters, a character standing for a code point below 256.
  A \<open>dict\<close> is an association list in insertion order: \<open>d[k] = v\<close> is
  \<open>AList.update\<close> (in place when the key is there, at the end when it is not),
  \<open>del d[k]\<close> is \<open>AList.delete\<close>, and \<open>d.get(k)\<close> is \<open>map_of\<close>. Every dictionary of the
  model keeps its keys distinct, which \<open>wf_dict\<close> states.
\<close>

named_theorems dict_simps
named_theorems wf_intros

subsection \<open>Python values\<close>

text \<open>Values of type \<open>Any\<close>; \<open>PObj\<close> is a Python object the code only passes on.\<close>

datatype 'a pyval =
    PNone
  | PBool bool
  | PInt int
  | PStr string
  | PList "'a pyval list"
  | PDict "(string \<times> 'a pyval) list"
  | PObj 'a

type_synonym 'a payload = "(string \<times> 'a pyval) list"

subsection \<open>Strings\<close>

definition py_isspace :: "char \<Rightarrow> bool" where
  "py_isspace c \<longleftrightarrow>
     (of_char c :: nat) \<in> set [9, 10, 11, 12, 13, 28, 29, 30, 31, 32, 133, 160]"

definition py_lstrip :: "string \<Rightarrow> string" where
  "py_lstrip s = dropWhile py_isspace s"

definition py_strip :: "string \<Rightarrow> string" where
  "py_strip s = rev (py_lstrip (rev (py_lstrip s)))"

definition py_blank :: "string \<Rightarrow> bool" where
  "py_blank s \<longleftrightarrow> py_strip s = []"

lemma dropWhile_Nil_iff: "dropWhile P s = [] \<longleftrightarrow> (\<forall>c \<in> set s. P c)"
  by (induction s) auto

lemma py_blank_iff: "py_blank s \<longleftrightarrow> (\<forall>c \<in> set s. py_isspace c)"
proof -
  have "py_blank s \<longleftrightarrow> (\<forall>c \<in> set (dropWhile py_isspace s). py_isspace c)"
    by (simp add: py_blank_def py_strip_def py_lstrip_def dropWhile_Nil_iff)
  also have "\<dots> \<longleftrightarrow> (\<forall>c \<in> set s. py_isspace c)"
    by (induction s) auto
  finally show ?thesis .
qed

lemma py_blank_Nil [simp]: "py_blank []"
  by (simp add: py_blank_iff)

lemma py_strip_not_blank: "\<not> py_blank s \<Longrightarrow> \<not> py_blank (py_strip s)"
proof -
  assume "\<not> py_blank s"
  then have "py_strip s \<noteq> []" by (simp add: py_blank_def)
  then have "\<not> py_isspace (hd (rev (py_strip s)))"
    by (simp add: py_strip_def py_lstrip_def hd_dropWhile)
  moreover have "hd (rev (py_strip s)) \<in> set (py_strip s)"
    using \<open>py_strip s \<noteq> []\<close> by (metis hd_in_set rev_is_Nil_conv set_rev)
  ultimately show ?thesis by (auto simp: py_blank_iff)
qed

text \<open>Decimal notation of integers (\<open>str(n)\<close>).\<close>

definition digit_char :: "nat \<Rightarrow> char" where
  "digit_char d = char_of (48 + d mod 10)"

fun str_of_nat :: "nat \<Rightarrow> string" where
  "str_of_nat n = (if n < 10 then [digit_char n] else str_of_nat (n div 10) @ [digit_char n])"

declare str_of_nat.simps [simp del]

definition str_of_int :: "int \<Rightarrow> string" where
  "str_of_int i = (if i < 0 then CHR ''-'' # str_of_nat (nat (- i)) else str_of_nat (nat i))"

text \<open>Reading it back (\<open>int(s)\<close> on a string of digits).\<close>

definition digit_val :: "char \<Rightarrow> nat" where
  "digit_val c = of_char c - 48"

definition nat_of_str :: "string \<Rightarrow> nat" where
  "nat_of_str s = foldl (\<lambda>n c. 10 * n + digit_val c) 0 s"

lemma digit_val_char [simp]: "digit_val (digit_char n) = n mod 10"
proof -
  have "(48 + n mod 10) mod 256 = 48 + n mod 10" by (rule mod_less) (use mod_less_divisor[of 10 n] in arith)
  then show ?thesis by (simp add: digit_val_def digit_char_def)
qed

lemma nat_of_str_of_nat [simp]: "nat_of_str (str_of_nat n) = n"
proof (induction n rule: str_of_nat.induct)
  case (1 n)
  show ?case
  proof (cases "n < 10")
    case True
    then show ?thesis by (simp add: str_of_nat.simps [of n] nat_of_str_def)
  next
    case False
    with 1 have "nat_of_str (str_of_nat (n div 10)) = n div 10" by simp
    with False show ?thesis by (simp add: str_of_nat.simps [of n] nat_of_str_def)
  qed
qed

lemma str_of_nat_inj: "str_of_nat m = str_of_nat n \<longleftrightarrow> m = n"
  by (metis nat_of_str_of_nat)

subsection \<open>Dictionaries\<close>

definition wf_dict :: "('k \<times> 'v) list \<Rightarrow> bool" where
  "wf_dict d \<longleftrightarrow> distinct (map fst d)"

definition dict_values :: "('k \<times> 'v) list \<Rightarrow> 'v list" where
  "dict_values d = map snd d"

definition dict_get :: "('k \<times> 'v) list \<Rightarrow> 'k \<Rightarrow> 'v \<Rightarrow> 'v" where
  "dict_get d k v = (case map_of d k of None \<Rightarrow> v | Some w \<Rightarrow> w)"

lemma wf_dict_Nil [simp, wf_intros]: "wf_dict []"
  by (simp add: wf_dict_def)

lemma wf_dict_update [simp, wf_intros]: "wf_dict d \<Longrightarrow> wf_dict (AList.update k v d)"
  by (simp add: wf_dict_def distinct_update)

lemma wf_dict_delete [simp, wf_intros]: "wf_dict d \<Longrightarrow> wf_dict (AList.delete k d)"
  by (simp add: wf_dict_def distinct_delete)

lemma map_of_dict_update [simp, dict_simps]: "map_of (AList.update k v d) = (map_of d)(k \<mapsto> v)"
  by (rule update_conv')

lemma map_of_dict_delete [simp, dict_simps]: "map_of (AList.delete k d) = (map_of d)(k := None)"
  by (rule delete_conv')

lemma dict_keys_update [dict_simps]:
  "map fst (AList.update k v d) = (if k \<in> fst ` set d then map fst d else map fst d @ [k])"
  by (induction d) auto

lemma dict_update_fresh [dict_simps]: "map_of d k = None \<Longrightarrow> AList.update k v d = d @ [(k, v)]"
  by (induction d) auto

lemma length_dict_update:
  "length (AList.update k v d) = (if map_of d k = None then Suc (length d) else length d)"
  by (induction d) (auto split: if_splits)

lemma dict_delete_absent: "map_of d k = None \<Longrightarrow> AList.delete k d = d"
  by (simp add: delete_idem map_of_eq_None_iff)

lemma length_dict_delete:
  "wf_dict d \<Longrightarrow>
     length (AList.delete k d) = (if map_of d k = None then length d else length d - 1)"
proof (induction d)
  case Nil
  then show ?case by simp
next
  case (Cons p d)
  then have d: "wf_dict d" "map_of d (fst p) = None"
    by (auto simp: wf_dict_def map_of_eq_None_iff)
  show ?case
  proof (cases "k = fst p")
    case True
    with d show ?thesis by (cases p) (simp add: dict_delete_absent)
  next
    case False
    moreover have "map_of d k \<noteq> None \<Longrightarrow> d \<noteq> []" by auto
    ultimately show ?thesis using Cons.IH [OF d(1)] by (cases p; cases d) auto
  qed
qed

lemma wf_dict_get: "wf_dict d \<Longrightarrow> (k, v) \<in> set d \<longleftrightarrow> map_of d k = Some v"
  by (simp add: wf_dict_def)

lemma wf_dict_all:
  "wf_dict d \<Longrightarrow> (\<forall>(k, v) \<in> set d. P k v) \<longleftrightarrow> (\<forall>k v. map_of d k = Some v \<longrightarrow> P k v)"
  by (auto simp: wf_dict_get)

text \<open>\<open>d[k] = d.get(k, 0) + n\<close>\<close>

definition dict_add :: "('k \<times> nat) list \<Rightarrow> 'k \<Rightarrow> nat \<Rightarrow> ('k \<times> nat) list" where
  "dict_add d k n = AList.update k (dict_get d k 0 + n) d"

lemma wf_dict_add [simp, wf_intros]: "wf_dict d \<Longrightarrow> wf_dict (dict_add d k n)"
  by (simp add: dict_add_def)

lemma sum_dict_add: "sum_list (map snd (dict_add d k n)) = sum_list (map snd d) + n"
  by (induction d) (auto simp: dict_add_def dict_get_def)

lemma sum_dict_update:
  fixes f :: "'v \<Rightarrow> 'a::ab_group_add"
  shows "map_of d k = Some x \<Longrightarrow>
    sum_list (map (f \<circ> snd) (AList.update k y d)) = sum_list (map (f \<circ> snd) d) - f x + f y"
  by (induction d) (auto split: if_splits)

lemma sum_dict_fresh:
  fixes f :: "'v \<Rightarrow> 'a::ab_group_add"
  shows "map_of d k = None \<Longrightarrow>
    sum_list (map (f \<circ> snd) (AList.update k y d)) = sum_list (map (f \<circ> snd) d) + f y"
  by (induction d) (auto split: if_splits simp: add.assoc)

lemma dict_get_add: "dict_get (dict_add d k n) j 0 = dict_get d j 0 + (if j = k then n else 0)"
  by (auto simp: dict_add_def dict_get_def)

lemma dict_get_update [simp]: "dict_get (AList.update k v d) j w = (if j = k then v else dict_get d j w)"
  by (simp add: dict_get_def)

lemma dict_get_delete [simp]: "dict_get (AList.delete k d) j w = (if j = k then w else dict_get d j w)"
  by (simp add: dict_get_def)

lemma dict_delete_filter: "AList.delete k d = filter (\<lambda>p. fst p \<noteq> k) d"
  by (induction d) auto

lemma remove1_distinct: "distinct xs \<Longrightarrow> remove1 x xs = filter (\<lambda>y. y \<noteq> x) xs"
  by (induction xs) (auto intro: sym [OF filter_True])

lemma wf_dict_filter [wf_intros]: "wf_dict d \<Longrightarrow> wf_dict (filter P d)"
  by (simp add: wf_dict_def distinct_map_filter)

lemma map_of_filter_wf:
  assumes "wf_dict d"
  shows "map_of (filter P d) k =
           (case map_of d k of None \<Rightarrow> None | Some v \<Rightarrow> if P (k, v) then Some v else None)"
  using assms
proof (induction d)
  case (Cons p d)
  then have "wf_dict d" "map_of d (fst p) = None" "map_of (filter P d) (fst p) = None"
    by (auto simp: wf_dict_def map_of_eq_None_iff)
  with Cons.IH show ?case by (cases p) (simp split: option.split)
qed simp

subsection \<open>Slices and bounded histories\<close>

text \<open>\<open>xs[i:]\<close> for a literal integer bound: a negative one counts from the end.\<close>

definition py_slice_from :: "'a list \<Rightarrow> int \<Rightarrow> 'a list" where
  "py_slice_from xs i = (if 0 \<le> i then drop (nat i) xs else drop (length xs - nat (- i)) xs)"

text \<open>\<open>xs[:i]\<close>\<close>

definition py_slice_to :: "'a list \<Rightarrow> int \<Rightarrow> 'a list" where
  "py_slice_to xs i = (if 0 \<le> i then take (nat i) xs else take (length xs - nat (- i)) xs)"

text \<open>
  \<open>xs[-n:]\<close> is the last \<open>n\<close> elements, except that \<open>n = 0\<close> gives the whole list, since
  \<open>-0\<close> is not negative.
\<close>

definition last_n :: "nat \<Rightarrow> 'a list \<Rightarrow> 'a list" where
  "last_n n xs = drop (length xs - n) xs"

lemma py_slice_neg: "0 < n \<Longrightarrow> py_slice_from xs (- n) = last_n (nat n) xs"
  by (simp add: py_slice_from_def last_n_def)

lemma py_slice_neg_zero: "py_slice_from xs (- 0) = xs"
  by (simp add: py_slice_from_def)

lemma length_last_n [simp]: "length (last_n n xs) = min n (length xs)"
  by (simp add: last_n_def)

text \<open>\<open>history.append(x); if len(history) > n: history.pop(0)\<close>\<close>

definition push_bounded :: "nat \<Rightarrow> 'a list \<Rightarrow> 'a \<Rightarrow> 'a list" where
  "push_bounded n xs x = (let ys = xs @ [x] in if n < length ys then tl ys else ys)"

lemma push_bounded_length: "length xs \<le> n \<Longrightarrow> length (push_bounded n xs x) \<le> n"
  by (auto simp: push_bounded_def Let_def)

lemma last_n_append_single: "0 < n \<Longrightarrow> last_n n (xs @ [x]) = last_n (n - 1) xs @ [x]"
  by (simp add: last_n_def Suc_diff_le)

lemma push_bounded_last_n: "push_bounded n (last_n n xs) x = last_n n (xs @ [x])"
proof (cases "length xs < n")
  case True
  then show ?thesis by (simp add: push_bounded_def last_n_def)
next
  case False
  then have "Suc (length xs) - n = Suc (length xs - n)" by simp
  with False show ?thesis
    by (cases "n = 0") (auto simp: push_bounded_def last_n_def tl_drop drop_Suc tl_append2)
qed

lemma foldl_push_bounded: "foldl (push_bounded n) (last_n n xs) ys = last_n n (xs @ ys)"
  by (induction ys arbitrary: xs) (simp_all add: push_bounded_last_n)

lemma nth_update_same:
  "f e = f (xs ! a) \<Longrightarrow> f (xs[a := e] ! b) = f (xs ! b)"
  by (cases "a < length xs") (auto simp: nth_list_update list_update_beyond)

lemma dict_values_image:
  assumes "wf_dict d"
  shows "(\<lambda>k. the (map_of d k)) ` set (map fst d) = set (map snd d)"
proof -
  have "the (map_of d (fst p)) = snd p" if "p \<in> set d" for p
    using assms that by (cases p) (simp add: wf_dict_get)
  then show ?thesis by (auto simp: image_iff) force
qed

lemma set_dict_update:
  "wf_dict d \<Longrightarrow> set (AList.update k v d) = insert (k, v) {p \<in> set d. fst p \<noteq> k}"
  by (auto simp: wf_dict_get [OF wf_dict_update] wf_dict_get split: if_splits)

lemma dict_dom_update: "fst ` set (AList.update k v d) = insert k (fst ` set d)"
  by (induction d) auto

lemma dict_dom_delete: "fst ` set (AList.delete k d) = fst ` set d - {k}"
  by (induction d) auto

lemma dict_values_iff: "wf_dict d \<Longrightarrow> v \<in> set (dict_values d) \<longleftrightarrow> (\<exists>k. map_of d k = Some v)"
  by (force simp: dict_values_def wf_dict_get [symmetric])

lemma distinct_snd_update:
  "distinct (map snd d) \<Longrightarrow> v \<notin> snd ` set d \<Longrightarrow> distinct (map snd (AList.update k v d))"
proof (induction d)
  case (Cons p d)
  have "snd ` set (AList.update k v d) \<subseteq> insert v (snd ` set d)" by (induction d) auto
  with Cons show ?case by (cases p) (auto simp: image_iff)
qed simp

lemma fold_update_fresh:
  "distinct (map k es) \<Longrightarrow> set (map k es) \<inter> fst ` set d = {} \<Longrightarrow>
     fold (\<lambda>e. AList.update (k e) (v e)) es d = d @ map (\<lambda>e. (k e, v e)) es"
proof (induction es arbitrary: d)
  case (Cons e es)
  then have "map_of d (k e) = None" by (auto simp: map_of_eq_None_iff)
  with Cons show ?case by (auto simp: dict_update_fresh)
qed simp

subsection \<open>Association lists under a value-preserving change\<close>

lemma map_of_map_values:
  "map_of (map (\<lambda>(k, v). (k, f k v)) d) k = map_option (f k) (map_of d k)"
  by (induction d) auto

lemma fst_map_values: "map fst (map (\<lambda>(k, v). (k, f k v)) d) = map fst d"
  by (induction d) auto

end
