(* ===== verification/Contracts.thy ===== *)
theory Contracts
  imports Prelude
begin

text \<open>
  The interfaces between components, as locales: a bounded FIFO buffer (the kernel
  mailbox, the executor's admission queue), a sequence-numbering log (the event log), and a
  keep-first register (every operation of the code by which only the first caller for a key
  wins: durable claims and answers, the solved-problem ledger, the federated task store,
  the hook registry). Each locale states what a provider promises; the clients' lemmas are
  proved once inside it, over runs of operations, and each provider's theory interprets it.
\<close>

subsection \<open>Bounded FIFO buffer\<close>

datatype 'a fifo_op = FPut 'a | FGet

text \<open>Runs operations; gives the final buffer, the accepted and the delivered elements.\<close>

fun fifo_run ::
  "('q \<Rightarrow> 'a \<Rightarrow> 'q \<times> bool) \<Rightarrow> ('q \<Rightarrow> 'q \<times> 'a option) \<Rightarrow> 'q \<Rightarrow> 'a fifo_op list
    \<Rightarrow> 'q \<times> 'a list \<times> 'a list" where
  "fifo_run put get q [] = (q, [], [])"
| "fifo_run put get q (FPut x # ops) =
     (let (q1, ok) = put q x; (q2, acc, del) = fifo_run put get q1 ops
      in (q2, (if ok then x # acc else acc), del))"
| "fifo_run put get q (FGet # ops) =
     (let (q1, r) = get q; (q2, acc, del) = fifo_run put get q1 ops
      in (q2, acc, (case r of None \<Rightarrow> del | Some x \<Rightarrow> x # del)))"

locale bounded_fifo =
  fixes items :: "'q \<Rightarrow> 'a list"
    and capacity :: "'q \<Rightarrow> int"
    and put :: "'q \<Rightarrow> 'a \<Rightarrow> 'q \<times> bool"
    and get :: "'q \<Rightarrow> 'q \<times> 'a option"
  assumes put_room: "int (length (items q)) < capacity q \<Longrightarrow>
            snd (put q x) \<and> items (fst (put q x)) = items q @ [x]"
    and put_full: "\<not> int (length (items q)) < capacity q \<Longrightarrow>
            \<not> snd (put q x) \<and> items (fst (put q x)) = items q"
    and put_capacity: "capacity (fst (put q x)) = capacity q"
    and get_empty: "items q = [] \<Longrightarrow> snd (get q) = None \<and> items (fst (get q)) = []"
    and get_first: "items q = x # xs \<Longrightarrow> snd (get q) = Some x \<and> items (fst (get q)) = xs"
    and get_capacity: "capacity (fst (get q)) = capacity q"
begin

lemma fifo_get_cases:
  "items q = (case snd (get q) of None \<Rightarrow> [] | Some x \<Rightarrow> [x]) @ items (fst (get q))"
  using get_empty [of q] get_first [of q] by (cases "items q") auto

lemma fifo_put_cases:
  "items (fst (put q x)) = items q @ (if snd (put q x) then [x] else [])"
  using put_room [of q x] put_full [of q x] by (cases "int (length (items q)) < capacity q") auto

text \<open>No element is lost, duplicated or reordered.\<close>

lemma fifo_run_order:
  "fifo_run put get q ops = (q', acc, del) \<Longrightarrow> items q @ acc = del @ items q'"
proof (induction ops arbitrary: q q' acc del)
  case Nil
  then show ?case by simp
next
  case (Cons op ops)
  show ?case
  proof (cases op)
    case (FPut x)
    obtain acc' where run: "fifo_run put get (fst (put q x)) ops = (q', acc', del)"
      and acc: "acc = (if snd (put q x) then x # acc' else acc')"
      using Cons.prems FPut by (auto split: prod.splits)
    show ?thesis using Cons.IH [OF run] acc fifo_put_cases [of q x] by auto
  next
    case FGet
    obtain del' where run: "fifo_run put get (fst (get q)) ops = (q', acc, del')"
      and del: "del = (case snd (get q) of None \<Rightarrow> del' | Some x \<Rightarrow> x # del')"
      using Cons.prems FGet by (auto split: prod.splits)
    show ?thesis using Cons.IH [OF run] del fifo_get_cases [of q] by (auto split: option.splits)
  qed
qed

definition within_capacity :: "'q \<Rightarrow> bool" where
  "within_capacity q \<longleftrightarrow> int (length (items q)) \<le> capacity q"

lemma put_within: "within_capacity q \<Longrightarrow> within_capacity (fst (put q x))"
  using put_room [of q x] put_full [of q x]
  by (cases "int (length (items q)) < capacity q") (auto simp: within_capacity_def put_capacity)

lemma get_within: "within_capacity q \<Longrightarrow> within_capacity (fst (get q))"
  using get_empty [of q] get_first [of q]
  by (cases "items q") (auto simp: within_capacity_def get_capacity)

lemma fifo_run_within:
  "within_capacity q \<Longrightarrow> within_capacity (fst (fifo_run put get q ops))"
proof (induction ops arbitrary: q)
  case Nil
  then show ?case by simp
next
  case (Cons op ops)
  then show ?case
    by (cases op)
      (auto simp: Let_def split_beta dest: put_within get_within
        intro!: Cons.IH put_within [THEN Cons.IH] get_within [THEN Cons.IH])
qed

end

subsection \<open>Sequence-numbering log\<close>

fun seq_run :: "('s \<Rightarrow> 'x \<Rightarrow> 's \<times> int option) \<Rightarrow> 's \<Rightarrow> 'x list \<Rightarrow> 's \<times> int list" where
  "seq_run app s [] = (s, [])"
| "seq_run app s (x # xs) =
     (let (s1, r) = app s x; (s2, ns) = seq_run app s1 xs
      in (s2, (case r of None \<Rightarrow> ns | Some n \<Rightarrow> n # ns)))"

definition seqs_below :: "int list \<Rightarrow> int \<Rightarrow> bool" where
  "seqs_below ns b \<longleftrightarrow> sorted_wrt (<) ns \<and> (\<forall>n \<in> set ns. n < b)"

lemma seqs_below_append:
  "seqs_below (ns @ [n]) b \<longleftrightarrow> seqs_below ns n \<and> n < b \<and> (\<forall>m \<in> set ns. m < b)"
  by (auto simp: seqs_below_def sorted_wrt_append)

lemma seqs_below_suffix: "seqs_below (ms @ ns) b \<Longrightarrow> seqs_below ns b"
  by (auto simp: seqs_below_def sorted_wrt_append)

locale sequenced_log =
  fixes seqs :: "'s \<Rightarrow> int list"
    and nxt :: "'s \<Rightarrow> int"
    and app :: "'s \<Rightarrow> 'x \<Rightarrow> 's \<times> int option"
  assumes app_some: "snd (app s x) = Some n \<Longrightarrow>
            n = nxt s \<and> nxt (fst (app s x)) = n + 1 \<and>
            (\<exists>ms ns. seqs s = ms @ ns \<and> seqs (fst (app s x)) = ns @ [n])"
    and app_none: "snd (app s x) = None \<Longrightarrow>
            nxt (fst (app s x)) = nxt s \<and> (\<exists>ms. seqs s = ms @ seqs (fst (app s x)))"
begin

definition ordered :: "'s \<Rightarrow> bool" where
  "ordered s \<longleftrightarrow> seqs_below (seqs s) (nxt s)"

lemma app_ordered:
  assumes "ordered s"
  shows "ordered (fst (app s x))"
proof (cases "snd (app s x)")
  case None
  from app_none [OF None] assms show ?thesis
    by (auto simp: ordered_def dest: seqs_below_suffix)
next
  case (Some n)
  from app_some [OF Some] obtain ms ns where
    n: "n = nxt s" "nxt (fst (app s x)) = n + 1" "seqs s = ms @ ns" "seqs (fst (app s x)) = ns @ [n]"
    by blast
  from assms n(3) have "seqs_below ns (nxt s)"
    by (auto simp: ordered_def dest: seqs_below_suffix)
  then show ?thesis
    unfolding ordered_def n(2,4) n(1) seqs_below_append by (auto simp: seqs_below_def)
qed

lemma seq_run_ordered: "ordered s \<Longrightarrow> ordered (fst (seq_run app s xs))"
proof (induction xs arbitrary: s)
  case (Cons x xs)
  from Cons.IH [OF app_ordered [OF Cons.prems, of x]] show ?case
    by (simp add: Let_def split_beta)
qed simp

text \<open>The numbers handed out by a run are consecutive from the log's next number.\<close>

lemma seq_run_consecutive:
  "snd (seq_run app s xs) = map (\<lambda>i. nxt s + int i) [0..<length (snd (seq_run app s xs))] \<and>
   nxt (fst (seq_run app s xs)) = nxt s + int (length (snd (seq_run app s xs)))"
proof (induction xs arbitrary: s)
  case Nil
  then show ?case by simp
next
  case (Cons x xs)
  show ?case
  proof (cases "snd (app s x)")
    case None
    with app_none [OF None] Cons.IH [of "fst (app s x)"] show ?thesis
      by (simp add: Let_def split_beta)
  next
    case (Some n)
    let ?ns = "snd (seq_run app (fst (app s x)) xs)"
    have "n # ?ns = map (\<lambda>i. nxt s + int i) (0 # map Suc [0..<length ?ns])"
      using app_some [OF Some] Cons.IH [of "fst (app s x)"] by (simp add: o_def add.assoc)
    also have "0 # map Suc [0..<length ?ns] = [0..<Suc (length ?ns)]"
      by (simp add: map_Suc_upt upt_conv_Cons del: upt_Suc)
    finally show ?thesis
      using Some app_some [OF Some] Cons.IH [of "fst (app s x)"]
      by (simp add: Let_def split_beta del: upt_Suc)
  qed
qed

end

subsection \<open>Keep-first register\<close>

fun put_run :: "('s \<Rightarrow> 'k \<Rightarrow> 'v \<Rightarrow> 's \<times> bool) \<Rightarrow> 's \<Rightarrow> ('k \<times> 'v) list \<Rightarrow> 's \<times> bool list" where
  "put_run tp s [] = (s, [])"
| "put_run tp s ((k, v) # kvs) =
     (let (s1, w) = tp s k v; (s2, ws) = put_run tp s1 kvs in (s2, w # ws))"

text \<open>How often a run of puts won for a key.\<close>

definition wins_for :: "'k \<Rightarrow> ('k \<times> 'v) list \<Rightarrow> bool list \<Rightarrow> nat" where
  "wins_for k kvs ws = length (filter (\<lambda>(kv, w). fst kv = k \<and> w) (zip kvs ws))"

locale keep_first =
  fixes inv :: "'s \<Rightarrow> bool"
    and valid :: "'k \<Rightarrow> 'v \<Rightarrow> bool"
    and look :: "'s \<Rightarrow> 'k \<Rightarrow> 'v option"
    and try_put :: "'s \<Rightarrow> 'k \<Rightarrow> 'v \<Rightarrow> 's \<times> bool"
  assumes put_inv: "inv s \<Longrightarrow> valid k v \<Longrightarrow> inv (fst (try_put s k v))"
    and put_wins: "inv s \<Longrightarrow> valid k v \<Longrightarrow> snd (try_put s k v) \<longleftrightarrow> look s k = None"
    and put_look: "inv s \<Longrightarrow> valid k v \<Longrightarrow>
          look (fst (try_put s k v)) = (if look s k = None then (look s)(k \<mapsto> v) else look s)"
begin

lemma put_run_inv:
  "inv s \<Longrightarrow> \<forall>(k, v) \<in> set kvs. valid k v \<Longrightarrow> inv (fst (put_run try_put s kvs))"
  by (induction kvs arbitrary: s) (auto simp: Let_def split_beta put_inv)

text \<open>After a run every key holds the value it had, or the first value put for it.\<close>

lemma put_run_look:
  "inv s \<Longrightarrow> \<forall>(k, v) \<in> set kvs. valid k v \<Longrightarrow>
     look (fst (put_run try_put s kvs)) k =
       (case look s k of None \<Rightarrow> map_of kvs k | Some v \<Rightarrow> Some v)"
proof (induction kvs arbitrary: s)
  case Nil
  then show ?case by (simp split: option.split)
next
  case (Cons kv kvs)
  obtain a b where kv: "kv = (a, b)" by (cases kv)
  with Cons.prems have v: "valid a b" by auto
  from Cons.IH [OF put_inv [OF Cons.prems(1) v]] Cons.prems kv show ?case
    by (auto simp: Let_def split_beta put_look v split: option.splits)
qed

text \<open>And at most one put for a key won: none if the key was taken before.\<close>

lemma put_run_wins:
  "inv s \<Longrightarrow> \<forall>(k, v) \<in> set kvs. valid k v \<Longrightarrow>
     wins_for k kvs (snd (put_run try_put s kvs)) =
       (if look s k = None \<and> k \<in> fst ` set kvs then 1 else 0)"
proof (induction kvs arbitrary: s)
  case Nil
  then show ?case by (simp add: wins_for_def)
next
  case (Cons kv kvs)
  obtain a b where kv: "kv = (a, b)" by (cases kv)
  with Cons.prems have v: "valid a b" by auto
  from Cons.IH [OF put_inv [OF Cons.prems(1) v]] Cons.prems kv show ?case
    by (auto simp: wins_for_def Let_def split_beta put_look put_wins v)
qed

end

end
