(* ===== verification/Mailbox.thy ===== *)
theory Mailbox
  imports Contracts
begin

text \<open>
  The kernel's message envelope (harness/kernel/envelope.py) and its bounded mailbox
  (harness/kernel/mailbox.py). The lock of the mailbox makes each method atomic, so a
  method is one function on the state. An operation that can raise returns the state it
  leaves behind together with the exception or the result.
\<close>

text \<open>
  The exceptions of the kernel package; \<open>HandlerError\<close> is any exception raised by a
  registered handler, by class name and text.
\<close>

datatype kernel_error =
    KValueError string
  | MailboxFullError int
  | EventLogFullError int
  | UnregisteredKindError string int
  | HandlerError string string

subsection \<open>MessageEnvelope\<close>

record 'a envelope =
  env_seq :: int
  env_kind :: string
  env_payload :: "'a payload"
  env_trace :: string
  env_source :: string
  env_created :: string

text \<open>
  \<open>MessageEnvelope(...)\<close> with its \<open>__post_init__\<close>: a blank kind is a \<open>ValueError\<close>; the
  payload is a mapping by typing, and values are never mutated, which is what freezing it
  ensures. \<open>now\<close> is the reading of the clock by the \<open>created_at\<close> factory.
\<close>

definition mk_envelope ::
  "int \<Rightarrow> string \<Rightarrow> 'a payload \<Rightarrow> string \<Rightarrow> string \<Rightarrow> string \<Rightarrow> kernel_error + 'a envelope" where
  "mk_envelope sq kind payload trace source now =
     (if py_blank kind then Inl (KValueError kind)
      else Inr \<lparr>env_seq = sq, env_kind = kind, env_payload = payload, env_trace = trace,
                env_source = source, env_created = now\<rparr>)"

definition as_dict :: "'a envelope \<Rightarrow> (string \<times> 'a pyval) list" where
  "as_dict e =
     [(''seq'', PInt (env_seq e)), (''kind'', PStr (env_kind e)),
      (''payload'', PDict (env_payload e)), (''trace_id'', PStr (env_trace e)),
      (''source'', PStr (env_source e)), (''created_at'', PStr (env_created e))]"

lemma mk_envelope_Inr:
  "mk_envelope sq kind p t src now = Inr e \<Longrightarrow>
     env_seq e = sq \<and> env_kind e = kind \<and> env_payload e = p \<and> env_trace e = t \<and>
     env_source e = src \<and> \<not> py_blank kind"
  by (auto simp: mk_envelope_def split: if_splits)

subsection \<open>BoundedMailbox\<close>

record 'a mailbox =
  mb_capacity :: int
  mb_items :: "'a envelope list"
  mb_rejected :: nat

definition mailbox_new :: "int \<Rightarrow> kernel_error + 'a mailbox" where
  "mailbox_new cap =
     (if cap \<le> 0 then Inl (KValueError ''capacity'')
      else Inr \<lparr>mb_capacity = cap, mb_items = [], mb_rejected = 0\<rparr>)"

definition mailbox_len :: "'a mailbox \<Rightarrow> nat" where
  "mailbox_len q = length (mb_items q)"

definition mailbox_put :: "'a mailbox \<Rightarrow> 'a envelope \<Rightarrow> 'a mailbox \<times> (kernel_error + unit)" where
  "mailbox_put q e =
     (if int (length (mb_items q)) \<ge> mb_capacity q
      then (q\<lparr>mb_rejected := mb_rejected q + 1\<rparr>, Inl (MailboxFullError (mb_capacity q)))
      else (q\<lparr>mb_items := mb_items q @ [e]\<rparr>, Inr ()))"

definition mailbox_get :: "'a mailbox \<Rightarrow> 'a mailbox \<times> 'a envelope option" where
  "mailbox_get q =
     (case mb_items q of [] \<Rightarrow> (q, None) | e # es \<Rightarrow> (q\<lparr>mb_items := es\<rparr>, Some e))"

definition mailbox_drain :: "'a mailbox \<Rightarrow> 'a mailbox \<times> 'a envelope list" where
  "mailbox_drain q = (q\<lparr>mb_items := []\<rparr>, mb_items q)"

definition mailbox_clear :: "'a mailbox \<Rightarrow> 'a mailbox" where
  "mailbox_clear q = q\<lparr>mb_items := []\<rparr>"

text \<open>The mailbox is a bounded FIFO buffer.\<close>

definition mailbox_offer :: "'a mailbox \<Rightarrow> 'a envelope \<Rightarrow> 'a mailbox \<times> bool" where
  "mailbox_offer q e = (let (q', r) = mailbox_put q e in (q', r = Inr ()))"

interpretation mbox: bounded_fifo mb_items mb_capacity mailbox_offer mailbox_get
  by unfold_locales
    (auto simp: mailbox_offer_def mailbox_put_def mailbox_get_def split: list.splits)

lemma mailbox_put_ok:
  "mailbox_put q e = (q', Inr u) \<longleftrightarrow>
     int (length (mb_items q)) < mb_capacity q \<and> q' = q\<lparr>mb_items := mb_items q @ [e]\<rparr>"
  by (auto simp: mailbox_put_def)

lemma mailbox_put_error:
  "mailbox_put q e = (q', Inl x) \<longleftrightarrow>
     mb_capacity q \<le> int (length (mb_items q)) \<and> x = MailboxFullError (mb_capacity q) \<and>
     q' = q\<lparr>mb_rejected := mb_rejected q + 1\<rparr>"
  by (auto simp: mailbox_put_def)

lemma mailbox_get_Some:
  "mailbox_get q = (q', Some e) \<longleftrightarrow> (\<exists>es. mb_items q = e # es \<and> q' = q\<lparr>mb_items := es\<rparr>)"
  by (auto simp: mailbox_get_def split: list.splits)

lemma mailbox_get_None: "mailbox_get q = (q', None) \<longleftrightarrow> mb_items q = [] \<and> q' = q"
  by (auto simp: mailbox_get_def split: list.splits)

definition mailbox_wf :: "'a mailbox \<Rightarrow> bool" where
  "mailbox_wf q \<longleftrightarrow> 0 < mb_capacity q \<and> int (length (mb_items q)) \<le> mb_capacity q"

lemma mailbox_new_wf: "mailbox_new cap = Inr q \<Longrightarrow> mailbox_wf q"
  by (auto simp: mailbox_new_def mailbox_wf_def split: if_splits)

lemma mailbox_put_wf: "mailbox_wf q \<Longrightarrow> mailbox_wf (fst (mailbox_put q e))"
  by (auto simp: mailbox_wf_def mailbox_put_def)

lemma mailbox_get_wf: "mailbox_wf q \<Longrightarrow> mailbox_wf (fst (mailbox_get q))"
  by (auto simp: mailbox_wf_def mailbox_get_def split: list.splits)

text \<open>
  Backpressure without loss. Over any sequence of puts and gets on a mailbox, the
  messages delivered and then those still queued are exactly those queued at the start and
  then those accepted, in that order; a message is refused only when the mailbox is full,
  and the mailbox never holds more than its capacity.
\<close>

theorem mailbox_fifo_no_loss:
  assumes "mailbox_wf q"
    and "fifo_run mailbox_offer mailbox_get q ops = (q', accepted, delivered)"
  shows "mb_items q @ accepted = delivered @ mb_items q' \<and>
         int (length (mb_items q')) \<le> mb_capacity q'"
proof
  show "mb_items q @ accepted = delivered @ mb_items q'"
    by (rule mbox.fifo_run_order [OF assms(2)])
  have "mbox.within_capacity q"
    using assms(1) by (simp add: mbox.within_capacity_def mailbox_wf_def)
  from mbox.fifo_run_within [OF this, of ops] show "int (length (mb_items q')) \<le> mb_capacity q'"
    by (simp add: assms(2) mbox.within_capacity_def)
qed

definition demo_envelope :: "int \<Rightarrow> unit envelope" where
  "demo_envelope n =
     \<lparr>env_seq = n, env_kind = ''task'', env_payload = [], env_trace = '''', env_source = '''',
      env_created = ''''\<rparr>"

lemma mailbox_fifo_no_loss_witness:
  "\<exists>q' acc del.
     fifo_run mailbox_offer mailbox_get
       \<lparr>mb_capacity = 2, mb_items = [demo_envelope 1], mb_rejected = 0\<rparr>
       [FPut (demo_envelope 2), FPut (demo_envelope 3), FGet, FPut (demo_envelope 4)]
       = (q', acc, del) \<and>
     acc = [demo_envelope 2, demo_envelope 4] \<and> del = [demo_envelope 1] \<and>
     mb_items q' = [demo_envelope 2, demo_envelope 4]"
proof -
  let ?q = "\<lparr>mb_capacity = 2, mb_items = [demo_envelope 1], mb_rejected = 0\<rparr>"
  let ?ops = "[FPut (demo_envelope 2), FPut (demo_envelope 3), FGet, FPut (demo_envelope 4)]"
  obtain q' acc del where r: "fifo_run mailbox_offer mailbox_get ?q ?ops = (q', acc, del)"
    by (metis prod_cases3)
  have wf: "mailbox_wf ?q" by (simp add: mailbox_wf_def)
  have "acc = [demo_envelope 2, demo_envelope 4] \<and> del = [demo_envelope 1]"
    using r by (auto simp: mailbox_offer_def mailbox_put_def mailbox_get_def)
  with mailbox_fifo_no_loss [OF wf r] r show ?thesis by auto
qed

end
