(* ===== verification/EventLog.thy ===== *)
theory EventLog
  imports Mailbox
begin

text \<open>
  The kernel's append-only event log (harness/kernel/event_log.py): capacity, the two
  overflow policies, the numbering of envelopes and the explicit numbers of a replay.
\<close>

datatype overflow = Raise | DropOldest

record 'a event_log =
  el_max :: int
  el_overflow :: overflow
  el_entries :: "'a envelope list"
  el_next :: int

definition parse_overflow :: "string \<Rightarrow> overflow option" where
  "parse_overflow s =
     (if s = ''raise'' then Some Raise
      else if s = ''drop_oldest'' then Some DropOldest else None)"

definition event_log_new :: "int \<Rightarrow> string \<Rightarrow> kernel_error + 'a event_log" where
  "event_log_new mx ov =
     (if mx \<le> 0 then Inl (KValueError ''max_entries'')
      else case parse_overflow ov of
             None \<Rightarrow> Inl (KValueError ov)
           | Some p \<Rightarrow> Inr \<lparr>el_max = mx, el_overflow = p, el_entries = [], el_next = 1\<rparr>)"

text \<open>\<open>_reserve_slot\<close>: room, or the overflow policy.\<close>

definition reserve_slot :: "'a event_log \<Rightarrow> 'a event_log \<times> (kernel_error + unit)" where
  "reserve_slot l =
     (if int (length (el_entries l)) < el_max l then (l, Inr ())
      else if el_overflow l = Raise then (l, Inl (EventLogFullError (el_max l)))
      else (l\<lparr>el_entries := tl (el_entries l)\<rparr>, Inr ()))"

definition log_build ::
  "'a event_log \<Rightarrow> string \<Rightarrow> 'a payload \<Rightarrow> string \<Rightarrow> string \<Rightarrow> int option \<Rightarrow> string
    \<Rightarrow> kernel_error + 'a envelope" where
  "log_build l kind payload trace source sq now =
     mk_envelope (case sq of None \<Rightarrow> el_next l | Some n \<Rightarrow> n) kind payload trace source now"

text \<open>
  \<open>append\<close>: the slot is reserved before the envelope is built, so under \<open>drop_oldest\<close> a
  blank kind raises after the oldest entry has been dropped. The next number moves past an
  explicit one only when that is not below it.
\<close>

definition log_append ::
  "'a event_log \<Rightarrow> string \<Rightarrow> 'a payload \<Rightarrow> string \<Rightarrow> string \<Rightarrow> int option \<Rightarrow> string
    \<Rightarrow> 'a event_log \<times> (kernel_error + 'a envelope)" where
  "log_append l kind payload trace source sq now =
     (case reserve_slot l of
        (l1, Inl err) \<Rightarrow> (l1, Inl err)
      | (l1, Inr _) \<Rightarrow>
          (case log_build l1 kind payload trace source sq now of
             Inl err \<Rightarrow> (l1, Inl err)
           | Inr e \<Rightarrow>
               (let l2 = l1\<lparr>el_entries := el_entries l1 @ [e]\<rparr>
                in (if sq = None \<or> the sq \<ge> el_next l2
                    then l2\<lparr>el_next := env_seq e + 1\<rparr> else l2, Inr e))))"

definition log_entries :: "'a event_log \<Rightarrow> 'a envelope list" where
  "log_entries l = el_entries l"

definition log_replay :: "'a event_log \<Rightarrow> (string \<times> 'a pyval) list list" where
  "log_replay l = map as_dict (log_entries l)"

definition log_len :: "'a event_log \<Rightarrow> nat" where
  "log_len l = length (el_entries l)"

definition log_clear :: "'a event_log \<Rightarrow> 'a event_log" where
  "log_clear l = l\<lparr>el_entries := [], el_next := 1\<rparr>"

subsection \<open>Invariant\<close>

definition log_seqs :: "'a event_log \<Rightarrow> int list" where
  "log_seqs l = map env_seq (el_entries l)"

text \<open>Entries in strictly increasing order of number, all below the next, within capacity.\<close>

definition log_wf :: "'a event_log \<Rightarrow> bool" where
  "log_wf l \<longleftrightarrow> 0 < el_max l \<and> int (length (el_entries l)) \<le> el_max l \<and>
     seqs_below (log_seqs l) (el_next l)"

lemma event_log_new_wf: "event_log_new mx ov = Inr l \<Longrightarrow> log_wf l"
  by (auto simp: event_log_new_def log_wf_def log_seqs_def seqs_below_def
      split: if_splits option.splits)

lemma log_clear_wf: "log_wf l \<Longrightarrow> log_wf (log_clear l)"
  by (auto simp: log_clear_def log_wf_def log_seqs_def seqs_below_def)

lemma reserve_slot_cases:
  obtains (room) "int (length (el_entries l)) < el_max l" "reserve_slot l = (l, Inr ())"
  | (full) "el_max l \<le> int (length (el_entries l))" "el_overflow l = Raise"
      "reserve_slot l = (l, Inl (EventLogFullError (el_max l)))"
  | (drop) "el_max l \<le> int (length (el_entries l))" "el_overflow l = DropOldest"
      "reserve_slot l = (l\<lparr>el_entries := tl (el_entries l)\<rparr>, Inr ())"
  by (cases "el_overflow l"; cases "int (length (el_entries l)) < el_max l")
    (auto simp: reserve_slot_def)

lemma tl_suffix: "\<exists>ms. xs = ms @ tl xs"
  by (cases xs) (auto intro: exI [of _ "[]"] exI [of _ "[y]" for y])

text \<open>What a successful and a failed append do, whatever the policy.\<close>

lemma log_append_Inr:
  assumes "log_append l kind p t src sq now = (l', Inr e)"
  obtains ms es where "el_entries l = ms @ es" "el_entries l' = es @ [e]"
    "env_seq e = (case sq of None \<Rightarrow> el_next l | Some n \<Rightarrow> n)"
    "el_next l' = (if sq = None \<or> the sq \<ge> el_next l then env_seq e + 1 else el_next l)"
    "el_max l' = el_max l" "el_overflow l' = el_overflow l"
    "env_kind e = kind" "env_payload e = p" "env_trace e = t" "env_source e = src"
    "\<not> py_blank kind"
proof -
  obtain l1 where r: "reserve_slot l = (l1, Inr ())"
    using assms by (auto simp: log_append_def split: prod.splits sum.splits)
  then obtain ms where l1: "el_entries l = ms @ el_entries l1" "el_next l1 = el_next l"
      "el_max l1 = el_max l" "el_overflow l1 = el_overflow l"
    using tl_suffix [of "el_entries l"]
    by (cases l rule: reserve_slot_cases) auto
  show thesis
    using assms r l1 that [of ms "el_entries l1"]
    by (cases sq) (auto simp: log_append_def log_build_def Let_def split: sum.splits if_splits
        dest!: mk_envelope_Inr)
qed

lemma log_append_Inl:
  assumes "log_append l kind p t src sq now = (l', Inl err)"
  shows "el_next l' = el_next l \<and> el_max l' = el_max l \<and> el_overflow l' = el_overflow l \<and>
         (\<exists>ms. el_entries l = ms @ el_entries l')"
proof (cases l rule: reserve_slot_cases)
  case drop
  then show ?thesis using assms tl_suffix [of "el_entries l"]
    by (auto simp: log_append_def Let_def split: sum.splits)
qed (use assms in \<open>auto simp: log_append_def Let_def split: sum.splits\<close>)

text \<open>The numbering contract, for appends without an explicit number.\<close>

definition log_app_auto :: "'a event_log \<Rightarrow> (string \<times> 'a payload) \<Rightarrow> 'a event_log \<times> int option" where
  "log_app_auto l x =
     (case log_append l (fst x) (snd x) '''' '''' None '''' of
        (l', Inl err) \<Rightarrow> (l', None)
      | (l', Inr e) \<Rightarrow> (l', Some (env_seq e)))"

interpretation elog: sequenced_log log_seqs el_next log_app_auto
proof
  fix l :: "'a event_log" and x n
  assume "snd (log_app_auto l x) = Some n"
  then obtain l' e where a: "log_append l (fst x) (snd x) '''' '''' None '''' = (l', Inr e)"
      "n = env_seq e" "fst (log_app_auto l x) = l'"
    by (auto simp: log_app_auto_def split: prod.splits sum.splits)
  from a(1) show "n = el_next l \<and> el_next (fst (log_app_auto l x)) = n + 1 \<and>
      (\<exists>ms ns. log_seqs l = ms @ ns \<and> log_seqs (fst (log_app_auto l x)) = ns @ [n])"
    by (elim log_append_Inr) (auto simp: a(2,3) log_seqs_def)
next
  fix l :: "'a event_log" and x
  assume "snd (log_app_auto l x) = None"
  then obtain l' err where a: "log_append l (fst x) (snd x) '''' '''' None '''' = (l', Inl err)"
      "fst (log_app_auto l x) = l'"
    by (auto simp: log_app_auto_def split: prod.splits sum.splits)
  from log_append_Inl [OF a(1)] a(2) show "el_next (fst (log_app_auto l x)) = el_next l \<and>
      (\<exists>ms. log_seqs l = ms @ log_seqs (fst (log_app_auto l x)))"
    by (auto simp: log_seqs_def)
qed

lemma log_append_length:
  assumes "0 < el_max l" "int (length (el_entries l)) \<le> el_max l"
  shows "int (length (el_entries (fst (log_append l kind p t src sq now)))) \<le> el_max l"
proof (cases l rule: reserve_slot_cases)
  case drop
  with assms have "el_entries l \<noteq> []" by auto
  with drop assms show ?thesis
    by (auto simp: log_append_def Let_def split: sum.splits)
qed (use assms in \<open>auto simp: log_append_def Let_def split: sum.splits\<close>)

text \<open>
  The invariant survives an append without an explicit number, and one whose number is the
  next or later.
\<close>

lemma log_append_wf:
  assumes wf: "log_wf l" and sq: "\<forall>n. sq = Some n \<longrightarrow> el_next l \<le> n"
  shows "log_wf (fst (log_append l kind p t src sq now))"
proof -
  obtain l' r where a: "log_append l kind p t src sq now = (l', r)" by (cases "log_append l kind p t src sq now")
  have len: "int (length (el_entries l')) \<le> el_max l"
    using log_append_length [of l kind p t src sq now] wf a by (simp add: log_wf_def)
  show ?thesis
  proof (cases r)
    case (Inl err)
    with log_append_Inl [of l kind p t src sq now l' err] a wf len show ?thesis
      by (auto simp: log_wf_def log_seqs_def dest: seqs_below_suffix)
  next
    case (Inr e)
    with a obtain ms es where e: "el_entries l = ms @ es" "el_entries l' = es @ [e]"
      "env_seq e = (case sq of None \<Rightarrow> el_next l | Some n \<Rightarrow> n)"
      "el_next l' = (if sq = None \<or> the sq \<ge> el_next l then env_seq e + 1 else el_next l)"
      "el_max l' = el_max l"
      using log_append_Inr [of l kind p t src sq now l' e] by blast
    have "seqs_below (map env_seq es) (el_next l)"
      using wf e(1) by (auto simp: log_wf_def log_seqs_def dest: seqs_below_suffix)
    moreover have "el_next l \<le> env_seq e" "el_next l' = env_seq e + 1"
      using sq e(3,4) by (auto split: option.splits)
    ultimately have "seqs_below (log_seqs l') (el_next l')"
      by (auto simp: log_seqs_def e(2) seqs_below_append) (auto simp: seqs_below_def)
    with a wf len e(5) show ?thesis by (auto simp: log_wf_def)
  qed
qed

lemma log_app_auto_fst:
  "fst (log_app_auto l x) = fst (log_append l (fst x) (snd x) '''' '''' None '''')"
  by (simp add: log_app_auto_def split: prod.splits sum.splits)

lemma seq_run_log_wf: "log_wf l \<Longrightarrow> log_wf (fst (seq_run log_app_auto l xs))"
proof (induction xs arbitrary: l)
  case (Cons x xs)
  have "log_wf (fst (log_app_auto l x))"
    unfolding log_app_auto_fst by (rule log_append_wf) (use Cons.prems in auto)
  from Cons.IH [OF this] show ?case by (simp add: Let_def split_beta)
qed simp

text \<open>
  Canonical order. However many messages are appended without an explicit number,
  under either overflow policy and whether some of them are refused, the log stays within
  its capacity, its entries stay in strictly increasing order of number, and the numbers
  handed out are consecutive.
\<close>

theorem event_log_canonical_order:
  assumes "log_wf l"
    and "seq_run log_app_auto l xs = (l', ns)"
  shows "sorted_wrt (<) (map env_seq (log_entries l')) \<and>
         int (log_len l') \<le> el_max l' \<and>
         ns = map (\<lambda>i. el_next l + int i) [0..<length ns] \<and>
         el_next l' = el_next l + int (length ns)"
proof -
  have "elog.ordered l" using assms(1) by (simp add: elog.ordered_def log_wf_def)
  from elog.seq_run_ordered [OF this, of xs] have "sorted_wrt (<) (log_seqs l')"
    by (simp add: assms(2) elog.ordered_def seqs_below_def)
  moreover from seq_run_log_wf [OF assms(1), of xs] have "int (log_len l') \<le> el_max l'"
    by (simp add: assms(2) log_wf_def log_len_def)
  ultimately show ?thesis
    using elog.seq_run_consecutive [of l xs] by (simp add: assms(2) log_seqs_def log_entries_def)
qed

lemma event_log_canonical_order_witness:
  "\<exists>l' ns. seq_run log_app_auto
       \<lparr>el_max = 2, el_overflow = DropOldest, el_entries = [] :: unit envelope list, el_next = 1\<rparr>
       [(''a'', []), ('' '', []), (''b'', []), (''c'', [])] = (l', ns) \<and>
     ns = [1, 2, 3] \<and> map env_seq (log_entries l') = [2, 3]"
proof -
  let ?l = "\<lparr>el_max = 2, el_overflow = DropOldest, el_entries = [] :: unit envelope list, el_next = 1\<rparr>"
  let ?xs = "[(''a'', []), ('' '', []), (''b'', []), (''c'', [])]"
  obtain l' ns where r: "seq_run log_app_auto ?l ?xs = (l', ns)" by fastforce
  have wf: "log_wf ?l" by (simp add: log_wf_def log_seqs_def seqs_below_def)
  have "map env_seq (log_entries l') = [2, 3]" "length ns = 3"
    using r by (auto simp: log_app_auto_def log_append_def reserve_slot_def log_build_def
        mk_envelope_def py_blank_def py_strip_def py_lstrip_def py_isspace_def log_entries_def)
  moreover have "[0..<3::nat] = [0, 1, 2]" by (simp add: upt_rec)
  ultimately show ?thesis
    using event_log_canonical_order [OF wf r] r by auto
qed

end
