(* ===== verification/KernelLoop.thy ===== *)
theory KernelLoop
  imports EventLog
begin

text \<open>
  The kernel's dispatch loop (harness/kernel/loop.py). Handlers are client code: the
  registry holds handler names and the runtime record says what calling one does. A
  handler may do anything to the kernel it is called from, including submitting to it and
  running it again, so a call maps the whole kernel and the client's world to new ones and
  may end in an exception. The runtime also gives the text of an exception
  (\<open>f"{type(exc).__name__}: {exc}"\<close>) and the reading of the clock.
\<close>

record kernel_stats =
  ks_dispatched :: nat
  ks_errors :: nat
  ks_unregistered :: nat
  ks_by_kind :: "(string \<times> nat) list"

record ('a, 'h) kernel =
  k_mailbox :: "'a mailbox"
  k_log :: "'a event_log"
  k_fail_fast :: bool
  k_handlers :: "(string \<times> 'h) list"
  k_stats :: kernel_stats

record ('a, 'h, 'w) runtime =
  rt_call :: "'h \<Rightarrow> 'a payload \<Rightarrow> 'a envelope \<Rightarrow> ('a, 'h) kernel \<times> 'w
    \<Rightarrow> (('a, 'h) kernel \<times> 'w) \<times> kernel_error option"
  rt_text :: "kernel_error \<Rightarrow> string"
  rt_now :: "'w \<Rightarrow> string"

definition stats_zero :: kernel_stats where
  "stats_zero = \<lparr>ks_dispatched = 0, ks_errors = 0, ks_unregistered = 0, ks_by_kind = []\<rparr>"

definition kernel_new :: "'a mailbox \<Rightarrow> 'a event_log \<Rightarrow> bool \<Rightarrow> ('a, 'h) kernel" where
  "kernel_new mb l ff =
     \<lparr>k_mailbox = mb, k_log = l, k_fail_fast = ff, k_handlers = [], k_stats = stats_zero\<rparr>"

definition kernel_register ::
  "('a, 'h) kernel \<Rightarrow> string \<Rightarrow> 'h \<Rightarrow> ('a, 'h) kernel \<times> (kernel_error + unit)" where
  "kernel_register k kind h =
     (if py_blank kind then (k, Inl (KValueError kind))
      else (k\<lparr>k_handlers := AList.update kind h (k_handlers k)\<rparr>, Inr ()))"

definition build_envelope ::
  "('a, 'h) kernel \<Rightarrow> string \<Rightarrow> 'a payload \<Rightarrow> string \<Rightarrow> string \<Rightarrow> string
    \<Rightarrow> kernel_error + 'a envelope" where
  "build_envelope k kind payload trace source now =
     mk_envelope (el_next (k_log k)) kind payload trace source now"

text \<open>
  \<open>submit\<close>: build the envelope with the log's next number, queue it, then log it under
  that number. The two clock readings are those of the two envelopes built.
\<close>

definition kernel_submit ::
  "('a, 'h) kernel \<Rightarrow> string \<Rightarrow> 'a payload \<Rightarrow> string \<Rightarrow> string \<Rightarrow> string \<Rightarrow> string
    \<Rightarrow> ('a, 'h) kernel \<times> (kernel_error + 'a envelope)" where
  "kernel_submit k kind payload trace source now1 now2 =
     (case build_envelope k kind payload trace source now1 of
        Inl err \<Rightarrow> (k, Inl err)
      | Inr e \<Rightarrow>
          (case mailbox_put (k_mailbox k) e of
             (mb, Inl err) \<Rightarrow> (k\<lparr>k_mailbox := mb\<rparr>, Inl err)
           | (mb, Inr _) \<Rightarrow>
               (case log_append (k_log k) kind (env_payload e) trace source
                       (Some (env_seq e)) now2 of
                  (l, Inl err) \<Rightarrow> (k\<lparr>k_mailbox := mb, k_log := l\<rparr>, Inl err)
                | (l, Inr _) \<Rightarrow> (k\<lparr>k_mailbox := mb, k_log := l\<rparr>, Inr e))))"

definition on_unregistered ::
  "('a, 'h, 'w) runtime \<Rightarrow> 'a envelope \<Rightarrow> ('a, 'h) kernel \<times> 'w
    \<Rightarrow> (('a, 'h) kernel \<times> 'w) \<times> kernel_error option" where
  "on_unregistered rt e = (\<lambda>(k, w).
     let k1 = k\<lparr>k_stats := (k_stats k)\<lparr>ks_unregistered := ks_unregistered (k_stats k) + 1\<rparr>\<rparr>;
         (l, r) = log_append (k_log k1) ''kernel.unregistered''
                    [(''kind'', PStr (env_kind e)), (''seq'', PInt (env_seq e))]
                    (env_trace e) ''kernel'' None (rt_now rt w);
         k2 = k1\<lparr>k_log := l\<rparr>
     in case r of
          Inl err \<Rightarrow> ((k2, w), Some err)
        | Inr _ \<Rightarrow>
            ((k2, w), if k_fail_fast k2
                      then Some (UnregisteredKindError (env_kind e) (env_seq e)) else None))"

definition on_handler_error ::
  "('a, 'h, 'w) runtime \<Rightarrow> 'a envelope \<Rightarrow> kernel_error \<Rightarrow> ('a, 'h) kernel \<times> 'w
    \<Rightarrow> (('a, 'h) kernel \<times> 'w) \<times> kernel_error option" where
  "on_handler_error rt e exc = (\<lambda>(k, w).
     let k1 = k\<lparr>k_stats := (k_stats k)\<lparr>ks_errors := ks_errors (k_stats k) + 1\<rparr>\<rparr>;
         (l, r) = log_append (k_log k1) ''kernel.error''
                    [(''kind'', PStr (env_kind e)), (''seq'', PInt (env_seq e)),
                     (''error'', PStr (rt_text rt exc))]
                    (env_trace e) ''kernel'' None (rt_now rt w);
         k2 = k1\<lparr>k_log := l\<rparr>
     in case r of
          Inl err \<Rightarrow> ((k2, w), Some err)
        | Inr _ \<Rightarrow> ((k2, w), if k_fail_fast k2 then Some exc else None))"

definition count_dispatch :: "('a, 'h) kernel \<Rightarrow> string \<Rightarrow> ('a, 'h) kernel" where
  "count_dispatch k kind =
     k\<lparr>k_stats := (k_stats k)\<lparr>ks_dispatched := ks_dispatched (k_stats k) + 1,
                               ks_by_kind := dict_add (ks_by_kind (k_stats k)) kind 1\<rparr>\<rparr>"

definition dispatch ::
  "('a, 'h, 'w) runtime \<Rightarrow> 'a envelope \<Rightarrow> ('a, 'h) kernel \<times> 'w
    \<Rightarrow> (('a, 'h) kernel \<times> 'w) \<times> kernel_error option" where
  "dispatch rt e = (\<lambda>(k, w).
     let k1 = count_dispatch k (env_kind e)
     in case map_of (k_handlers k1) (env_kind e) of
          None \<Rightarrow> on_unregistered rt e (k1, w)
        | Some h \<Rightarrow>
            (case rt_call rt h (env_payload e) e (k1, w) of
               (s, None) \<Rightarrow> (s, None)
             | (s, Some exc) \<Rightarrow> on_handler_error rt e exc s))"

definition kernel_step ::
  "('a, 'h, 'w) runtime \<Rightarrow> ('a, 'h) kernel \<times> 'w
    \<Rightarrow> (('a, 'h) kernel \<times> 'w) \<times> (kernel_error + 'a envelope option)" where
  "kernel_step rt = (\<lambda>(k, w).
     case mailbox_get (k_mailbox k) of
       (mb, None) \<Rightarrow> ((k\<lparr>k_mailbox := mb\<rparr>, w), Inr None)
     | (mb, Some e) \<Rightarrow>
         (case dispatch rt e (k\<lparr>k_mailbox := mb\<rparr>, w) of
            (s, Some err) \<Rightarrow> (s, Inl err)
          | (s, None) \<Rightarrow> (s, Inr (Some e))))"

text \<open>
  \<open>run\<close>: the loop may not end, since handlers can submit; \<open>None\<close> is "does not return".
\<close>

partial_function (option) run_loop ::
  "('a, 'h, 'w) runtime \<Rightarrow> int option \<Rightarrow> nat \<Rightarrow> ('a, 'h) kernel \<times> 'w
    \<Rightarrow> ((('a, 'h) kernel \<times> 'w) \<times> (kernel_error + nat)) option" where
  "run_loop rt mx processed s =
     (if mx = None \<or> int processed < the mx then
        (case mailbox_get (k_mailbox (fst s)) of
           (mb, None) \<Rightarrow> Some (((fst s)\<lparr>k_mailbox := mb\<rparr>, snd s), Inr processed)
         | (mb, Some e) \<Rightarrow>
             (case dispatch rt e ((fst s)\<lparr>k_mailbox := mb\<rparr>, snd s) of
                (s', Some err) \<Rightarrow> Some (s', Inl err)
              | (s', None) \<Rightarrow> run_loop rt mx (Suc processed) s'))
      else Some (s, Inr processed))"

definition kernel_run ::
  "('a, 'h, 'w) runtime \<Rightarrow> int option \<Rightarrow> ('a, 'h) kernel \<times> 'w
    \<Rightarrow> ((('a, 'h) kernel \<times> 'w) \<times> (kernel_error + nat)) option" where
  "kernel_run rt mx s = run_loop rt mx 0 s"

definition kernel_stats_snapshot :: "('a, 'h) kernel \<Rightarrow> kernel_stats" where
  "kernel_stats_snapshot k = k_stats k"

subsection \<open>Invariant and guarantee\<close>

text \<open>
  The queued numbers never decrease and none is beyond the log's next one; the counter of
  dispatches is the sum of the counters by kind.
\<close>

definition kernel_wf :: "('a, 'h) kernel \<Rightarrow> bool" where
  "kernel_wf k \<longleftrightarrow>
     mailbox_wf (k_mailbox k) \<and> log_wf (k_log k) \<and>
     sorted (map env_seq (mb_items (k_mailbox k))) \<and>
     (\<forall>e \<in> set (mb_items (k_mailbox k)). env_seq e \<le> el_next (k_log k)) \<and>
     wf_dict (ks_by_kind (k_stats k)) \<and>
     ks_dispatched (k_stats k) = sum_list (map snd (ks_by_kind (k_stats k)))"

text \<open>Dispatches that neither failed nor lacked a handler.\<close>

definition kernel_slack :: "('a, 'h) kernel \<Rightarrow> int" where
  "kernel_slack k = int (ks_dispatched (k_stats k)) - int (ks_errors (k_stats k))
     - int (ks_unregistered (k_stats k))"

text \<open>
  What every operation of the kernel guarantees, and what is asked of a handler: it keeps
  the invariant, does not take back successful dispatches and does not rewind the log.
\<close>

definition kernel_guar :: "('a, 'h) kernel \<Rightarrow> ('a, 'h) kernel \<Rightarrow> bool" where
  "kernel_guar k k' \<longleftrightarrow>
     (kernel_wf k \<longrightarrow> kernel_wf k' \<and> kernel_slack k \<le> kernel_slack k' \<and>
        el_next (k_log k) \<le> el_next (k_log k'))"

definition well_behaved :: "('a, 'h, 'w) runtime \<Rightarrow> bool" where
  "well_behaved rt \<longleftrightarrow>
     (\<forall>h p e s. kernel_guar (fst s) (fst (fst (rt_call rt h p e s))))"

named_theorems kernel_simps

lemmas [kernel_simps] = kernel_wf_def kernel_slack_def

lemma kernel_guar_refl [simp]: "kernel_guar k k"
  by (simp add: kernel_guar_def)

lemma kernel_guar_trans: "kernel_guar a b \<Longrightarrow> kernel_guar b c \<Longrightarrow> kernel_guar a c"
  by (fastforce simp: kernel_guar_def)

lemma well_behavedD:
  "well_behaved rt \<Longrightarrow> rt_call rt h p e s = (s', r) \<Longrightarrow> kernel_guar (fst s) (fst s')"
  unfolding well_behaved_def by (metis fst_conv)

lemma kernel_new_wf:
  "mailbox_wf mb \<Longrightarrow> mb_items mb = [] \<Longrightarrow> log_wf l \<Longrightarrow> kernel_wf (kernel_new mb l ff)"
  by (simp add: kernel_wf_def kernel_new_def stats_zero_def)

lemma kernel_register_guar: "kernel_guar k (fst (kernel_register k kind h))"
  by (simp add: kernel_guar_def kernel_register_def kernel_simps)

text \<open>Appending to the log without an explicit number, as the kernel's own events are.\<close>

lemma kernel_log_append_wf:
  assumes "kernel_wf k" and "log_append (k_log k) kind p t src None now = (l, r)"
  shows "kernel_wf (k\<lparr>k_log := l\<rparr>) \<and> el_next (k_log k) \<le> el_next l"
proof -
  have "log_wf l" using assms log_append_wf [of "k_log k" None kind p t src now]
    by (simp add: kernel_wf_def)
  moreover have "el_next (k_log k) \<le> el_next l"
    using assms(2) by (cases r) (auto dest: log_append_Inl elim!: log_append_Inr)
  ultimately show ?thesis using assms(1) by (force simp: kernel_wf_def)
qed

lemma kernel_submit_guar: "kernel_guar k (fst (kernel_submit k kind p t src n1 n2))"
  unfolding kernel_guar_def
proof
  assume wf: "kernel_wf k"
  let ?k' = "fst (kernel_submit k kind p t src n1 n2)"
  show "kernel_wf ?k' \<and> kernel_slack k \<le> kernel_slack ?k' \<and> el_next (k_log k) \<le> el_next (k_log ?k')"
  proof (cases "build_envelope k kind p t src n1")
    case (Inl err)
    then show ?thesis using wf by (simp add: kernel_submit_def)
  next
    case (Inr e)
    then have seq: "env_seq e = el_next (k_log k)"
      by (auto simp: build_envelope_def dest: mk_envelope_Inr)
    obtain mb r where put: "mailbox_put (k_mailbox k) e = (mb, r)" by fastforce
    have mbwf: "mailbox_wf mb"
      using mailbox_put_wf [of "k_mailbox k" e] wf put by (simp add: kernel_wf_def)
    show ?thesis
    proof (cases r)
      case (Inl err)
      with put Inr have k': "?k' = k\<lparr>k_mailbox := mb\<rparr>" by (simp add: kernel_submit_def)
      have "mb_items mb = mb_items (k_mailbox k)"
        using put Inl by (simp add: mailbox_put_error)
      with wf mbwf show ?thesis unfolding k' by (simp add: kernel_simps)
    next
      case (Inr u)
      obtain l r' where app: "log_append (k_log k) kind (env_payload e) t src (Some (env_seq e)) n2 = (l, r')"
        by fastforce
      have lwf: "log_wf l"
        using log_append_wf [of "k_log k" "Some (env_seq e)" kind "env_payload e" t src n2] wf app seq
        by (simp add: kernel_wf_def)
      have next_le: "el_next (k_log k) \<le> el_next l"
        using app seq by (cases r') (auto dest: log_append_Inl elim!: log_append_Inr)
      have k': "?k' = k\<lparr>k_mailbox := mb, k_log := l\<rparr>"
        using \<open>build_envelope k kind p t src n1 = Inr e\<close> put Inr app
        by (cases r') (simp_all add: kernel_submit_def)
      have "mb = (k_mailbox k)\<lparr>mb_items := mb_items (k_mailbox k) @ [e]\<rparr>"
        using put Inr by (simp add: mailbox_put_ok)
      then show ?thesis
        using wf mbwf lwf next_le seq unfolding k'
        by (auto simp: kernel_simps sorted_append) (force+)?
    qed
  qed
qed

lemma count_dispatch_wf: "kernel_wf k \<Longrightarrow> kernel_wf (count_dispatch k kind)"
  by (simp add: kernel_wf_def count_dispatch_def sum_dict_add)

lemma count_dispatch_frame [simp]:
  "k_log (count_dispatch k kind) = k_log k"
  "k_mailbox (count_dispatch k kind) = k_mailbox k"
  "k_handlers (count_dispatch k kind) = k_handlers k"
  "k_fail_fast (count_dispatch k kind) = k_fail_fast k"
  by (simp_all add: count_dispatch_def)

lemma count_dispatch_slack: "kernel_slack (count_dispatch k kind) = kernel_slack k + 1"
  by (simp add: kernel_slack_def count_dispatch_def)

text \<open>The two error paths keep the invariant and take back one dispatch.\<close>

lemma on_unregistered_wf:
  assumes "kernel_wf k"
  shows "kernel_wf (fst (fst (on_unregistered rt e (k, w)))) \<and>
         kernel_slack (fst (fst (on_unregistered rt e (k, w)))) = kernel_slack k - 1 \<and>
         el_next (k_log k) \<le> el_next (k_log (fst (fst (on_unregistered rt e (k, w)))))"
proof -
  let ?k1 = "k\<lparr>k_stats := (k_stats k)\<lparr>ks_unregistered := ks_unregistered (k_stats k) + 1\<rparr>\<rparr>"
  have wf1: "kernel_wf ?k1" using assms by (simp add: kernel_wf_def)
  obtain l r where app: "log_append (k_log ?k1) ''kernel.unregistered''
      [(''kind'', PStr (env_kind e)), (''seq'', PInt (env_seq e))] (env_trace e) ''kernel'' None
      (rt_now rt w) = (l, r)" by fastforce
  have "fst (fst (on_unregistered rt e (k, w))) = ?k1\<lparr>k_log := l\<rparr>"
    using app by (auto simp: on_unregistered_def Let_def split: sum.splits)
  with kernel_log_append_wf [OF wf1 app] show ?thesis by (simp add: kernel_slack_def)
qed

lemma on_handler_error_wf:
  assumes "kernel_wf k"
  shows "kernel_wf (fst (fst (on_handler_error rt e exc (k, w)))) \<and>
         kernel_slack (fst (fst (on_handler_error rt e exc (k, w)))) = kernel_slack k - 1 \<and>
         el_next (k_log k) \<le> el_next (k_log (fst (fst (on_handler_error rt e exc (k, w)))))"
proof -
  let ?k1 = "k\<lparr>k_stats := (k_stats k)\<lparr>ks_errors := ks_errors (k_stats k) + 1\<rparr>\<rparr>"
  have wf1: "kernel_wf ?k1" using assms by (simp add: kernel_wf_def)
  obtain l r where app: "log_append (k_log ?k1) ''kernel.error''
      [(''kind'', PStr (env_kind e)), (''seq'', PInt (env_seq e)), (''error'', PStr (rt_text rt exc))]
      (env_trace e) ''kernel'' None (rt_now rt w) = (l, r)" by fastforce
  have "fst (fst (on_handler_error rt e exc (k, w))) = ?k1\<lparr>k_log := l\<rparr>"
    using app by (auto simp: on_handler_error_def Let_def split: sum.splits)
  with kernel_log_append_wf [OF wf1 app] show ?thesis by (simp add: kernel_slack_def)
qed

lemma dispatch_guar:
  assumes "well_behaved rt"
  shows "kernel_guar (fst s) (fst (fst (dispatch rt e s)))"
  unfolding kernel_guar_def
proof
  obtain k w where s: "s = (k, w)" by (cases s)
  assume "kernel_wf (fst s)"
  with s have wf1: "kernel_wf (count_dispatch k (env_kind e))" by (simp add: count_dispatch_wf)
  note slack1 = count_dispatch_slack [of k "env_kind e"]
  show "kernel_wf (fst (fst (dispatch rt e s))) \<and>
        kernel_slack (fst s) \<le> kernel_slack (fst (fst (dispatch rt e s))) \<and>
        el_next (k_log (fst s)) \<le> el_next (k_log (fst (fst (dispatch rt e s))))"
  proof (cases "map_of (k_handlers k) (env_kind e)")
    case None
    with on_unregistered_wf [OF wf1, of rt e w] slack1 s show ?thesis
      by (simp add: dispatch_def Let_def)
  next
    case (Some h)
    obtain k2 w2 r where call: "rt_call rt h (env_payload e) e (count_dispatch k (env_kind e), w) = ((k2, w2), r)"
      by (metis prod.collapse)
    with assms wf1 have g: "kernel_wf k2" "kernel_slack (count_dispatch k (env_kind e)) \<le> kernel_slack k2"
        "el_next (k_log k) \<le> el_next (k_log k2)"
      using well_behavedD [OF assms call] by (simp_all add: kernel_guar_def)
    show ?thesis
    proof (cases r)
      case None
      with g slack1 call Some s show ?thesis by (simp add: dispatch_def Let_def)
    next
      case (Some exc)
      with on_handler_error_wf [OF g(1), of rt e exc w2] g slack1 call \<open>map_of _ _ = Some h\<close> s
      show ?thesis by (simp add: dispatch_def Let_def)
    qed
  qed
qed

lemma mailbox_get_guar:
  assumes "mailbox_get (k_mailbox k) = (mb, r)"
  shows "kernel_guar k (k\<lparr>k_mailbox := mb\<rparr>)"
proof -
  have "mailbox_wf (k_mailbox k) \<Longrightarrow> mailbox_wf mb"
    using mailbox_get_wf [of "k_mailbox k"] assms by simp
  then show ?thesis using assms
    by (cases r) (auto simp: kernel_guar_def kernel_simps mailbox_get_None mailbox_get_Some)
qed

lemma run_loop_guar:
  assumes wb: "well_behaved rt" and ret: "run_loop rt mx n s = Some sr"
  shows "kernel_guar (fst s) (fst (fst sr))"
proof -
  have "well_behaved rt \<longrightarrow> kernel_guar (fst s) (fst (fst sr))"
  proof (rule run_loop.raw_induct
      [where P = "\<lambda>rt mx n s sr. well_behaved rt \<longrightarrow> kernel_guar (fst s) (fst (fst sr))", OF _ ret], rule impI)
    fix f :: "('a, 'h, 'w) runtime \<Rightarrow> int option \<Rightarrow> nat \<Rightarrow> ('a, 'h) kernel \<times> 'w
      \<Rightarrow> ((('a, 'h) kernel \<times> 'w) \<times> (kernel_error + nat)) option"
      and rt :: "('a, 'h, 'w) runtime" and mx n s sr
    assume IH: "\<And>rt mx n s sr. f rt mx n s = Some sr \<Longrightarrow>
        well_behaved rt \<longrightarrow> kernel_guar (fst s) (fst (fst sr))"
      and eq: "(if mx = None \<or> int n < the mx then
        (case mailbox_get (k_mailbox (fst s)) of
           (mb, None) \<Rightarrow> Some (((fst s)\<lparr>k_mailbox := mb\<rparr>, snd s), Inr n)
         | (mb, Some e) \<Rightarrow>
             (case dispatch rt e ((fst s)\<lparr>k_mailbox := mb\<rparr>, snd s) of
                (s', Some err) \<Rightarrow> Some (s', Inl err)
              | (s', None) \<Rightarrow> f rt mx (Suc n) s'))
      else Some (s, Inr n)) = Some sr"
      and wb: "well_behaved rt"
    obtain mb r where get: "mailbox_get (k_mailbox (fst s)) = (mb, r)" by fastforce
    note g1 = mailbox_get_guar [OF get]
    show "kernel_guar (fst s) (fst (fst sr))"
    proof (cases "(mx = None \<or> int n < the mx) \<and> r \<noteq> None")
      case False
      with eq get g1 show ?thesis by (auto split: if_splits)
    next
      case True
      then obtain e where e: "r = Some e" by blast
      obtain s' x where d: "dispatch rt e ((fst s)\<lparr>k_mailbox := mb\<rparr>, snd s) = (s', x)" by fastforce
      have g2: "kernel_guar (fst s) (fst s')"
        using kernel_guar_trans [OF g1 dispatch_guar [OF wb, of "((fst s)\<lparr>k_mailbox := mb\<rparr>, snd s)" e, simplified]] d
        by simp
      show ?thesis
      proof (cases x)
        case None
        with True eq get e d have "f rt mx (Suc n) s' = Some sr" by auto
        with IH wb have "kernel_guar (fst s') (fst (fst sr))" by blast
        with g2 show ?thesis by (rule kernel_guar_trans)
      next
        case (Some err)
        with True eq get e d g2 show ?thesis by auto
      qed
    qed
  qed
  with wb show ?thesis by blast
qed

subsection \<open>Runs over handlers that leave the mailbox alone\<close>

text \<open>
  The specification of an unlimited run over handlers that leave the mailbox alone: the
  queued messages in order, each dispatched with the later ones still queued.
\<close>

fun dispatch_list ::
  "('a, 'h, 'w) runtime \<Rightarrow> 'a envelope list \<Rightarrow> ('a, 'h) kernel \<times> 'w \<Rightarrow> nat
    \<Rightarrow> (('a, 'h) kernel \<times> 'w) \<times> (kernel_error + nat)" where
  "dispatch_list rt [] s n = (s, Inr n)"
| "dispatch_list rt (e # es) s n =
     (case dispatch rt e
             ((fst s)\<lparr>k_mailbox := (k_mailbox (fst s))\<lparr>mb_items := es\<rparr>\<rparr>, snd s) of
        (s', Some err) \<Rightarrow> (s', Inl err)
      | (s', None) \<Rightarrow> dispatch_list rt es s' (Suc n))"

definition quiet :: "('a, 'h, 'w) runtime \<Rightarrow> bool" where
  "quiet rt \<longleftrightarrow>
     (\<forall>h p e s. mb_items (k_mailbox (fst (fst (rt_call rt h p e s)))) = mb_items (k_mailbox (fst s)))"

lemma quietD:
  "quiet rt \<Longrightarrow> rt_call rt h p e s = (s', r) \<Longrightarrow>
     mb_items (k_mailbox (fst s')) = mb_items (k_mailbox (fst s))"
  unfolding quiet_def by (metis fst_conv)

lemma on_unregistered_mailbox: "k_mailbox (fst (fst (on_unregistered rt e s))) = k_mailbox (fst s)"
  by (cases s) (simp add: on_unregistered_def Let_def split: prod.split sum.split)

lemma on_handler_error_mailbox:
  "k_mailbox (fst (fst (on_handler_error rt e x s))) = k_mailbox (fst s)"
  by (cases s) (simp add: on_handler_error_def Let_def split: prod.split sum.split)

lemma dispatch_quiet:
  assumes "quiet rt"
  shows "mb_items (k_mailbox (fst (fst (dispatch rt e s)))) = mb_items (k_mailbox (fst s))"
proof -
  obtain k w where s: "s = (k, w)" by (cases s)
  show ?thesis
  proof (cases "map_of (k_handlers k) (env_kind e)")
    case None
    with s show ?thesis by (simp add: dispatch_def Let_def on_unregistered_mailbox)
  next
    case (Some h)
    obtain s1 r where call: "rt_call rt h (env_payload e) e (count_dispatch k (env_kind e), w) = (s1, r)"
      by fastforce
    with quietD [OF assms call] Some s show ?thesis
      by (cases r) (simp_all add: dispatch_def Let_def on_handler_error_mailbox)
  qed
qed

lemma run_loop_quiet:
  assumes "quiet rt"
  shows "run_loop rt None p s = Some (dispatch_list rt (mb_items (k_mailbox (fst s))) s p)"
proof (induction "mb_items (k_mailbox (fst s))" arbitrary: p s)
    case Nil
    then show ?case by (subst run_loop.simps) (simp add: mailbox_get_def)
  next
    case (Cons e es)
    let ?s = "((fst s)\<lparr>k_mailbox := (k_mailbox (fst s))\<lparr>mb_items := es\<rparr>\<rparr>, snd s)"
    obtain s1 x where d: "dispatch rt e ?s = (s1, x)" by fastforce
    have items: "mb_items (k_mailbox (fst s1)) = es"
      using dispatch_quiet [OF assms, of e ?s] d by simp
    have get: "mailbox_get (k_mailbox (fst s)) = ((k_mailbox (fst s))\<lparr>mb_items := es\<rparr>, Some e)"
      unfolding mailbox_get_def Cons.hyps(2) [symmetric] by simp
    show ?case
    proof (cases x)
      case None
      with Cons.hyps(1) [of s1 "Suc p"] items d get Cons.hyps(2) [symmetric] show ?thesis
        by (subst run_loop.simps) simp
    next
      case (Some err)
      with d get Cons.hyps(2) [symmetric] show ?thesis by (subst run_loop.simps) simp
    qed
  qed

subsection \<open>Properties\<close>

text \<open>
  C1: counters and order survive any dispatch. If the handlers only do to the kernel what
  its own operations guarantee, then whatever a run returns, with or without a limit and
  with or without an exception, the mailbox and the log stay within capacity, the log stays
  in canonical order, and failed and unhandled dispatches together never exceed the
  dispatches counted, which are the sum of the counts by kind.
\<close>

theorem kernel_run_invariant:
  assumes "well_behaved rt" and "kernel_wf k" and "0 \<le> kernel_slack k"
    and "kernel_run rt mx (k, w) = Some ((k', w'), r)"
  shows "kernel_wf k' \<and>
         ks_errors (k_stats k') + ks_unregistered (k_stats k') \<le> ks_dispatched (k_stats k') \<and>
         ks_dispatched (k_stats k') = sum_list (map snd (ks_by_kind (k_stats k')))"
proof -
  have "kernel_guar k k'"
    using run_loop_guar [OF assms(1) assms(4) [unfolded kernel_run_def]] by simp
  with assms(2,3) have "kernel_wf k'" "0 \<le> kernel_slack k'"
    by (auto simp: kernel_guar_def)
  then show ?thesis by (simp add: kernel_wf_def kernel_slack_def)
qed

text \<open>A kernel whose only handler fails on every message.\<close>

definition failing_runtime :: "(unit, unit, unit) runtime" where
  "failing_runtime =
     \<lparr>rt_call = (\<lambda>_ _ _ s. (s, Some (HandlerError ''ValueError'' ''x''))),
      rt_text = (\<lambda>_. ''ValueError: x''), rt_now = (\<lambda>_. '''')\<rparr>"

definition demo_kernel :: "int \<Rightarrow> unit envelope list \<Rightarrow> (unit, unit) kernel" where
  "demo_kernel nxt es =
     \<lparr>k_mailbox = \<lparr>mb_capacity = 4, mb_items = es, mb_rejected = 0\<rparr>,
      k_log = \<lparr>el_max = 2, el_overflow = DropOldest, el_entries = [], el_next = nxt\<rparr>,
      k_fail_fast = False, k_handlers = [(''task'', ())], k_stats = stats_zero\<rparr>"

lemma failing_well_behaved: "well_behaved failing_runtime"
  by (simp add: well_behaved_def failing_runtime_def)

lemma failing_quiet: "quiet failing_runtime"
  by (simp add: quiet_def failing_runtime_def)

lemma kernel_error_not_blank: "\<not> py_blank ''kernel.error''"
  by (simp add: py_blank_iff py_isspace_def)

lemma kernel_run_invariant_witness:
  "\<exists>k' w' r. kernel_run failing_runtime None (demo_kernel 3 [demo_envelope 1, demo_envelope 2], ())
       = Some ((k', w'), r) \<and>
     r = Inr 2 \<and> kernel_wf k' \<and>
     ks_errors (k_stats k') + ks_unregistered (k_stats k') \<le> ks_dispatched (k_stats k') \<and>
     ks_errors (k_stats k') = 2"
proof -
  let ?k = "demo_kernel 3 [demo_envelope 1, demo_envelope 2]"
  have wf: "kernel_wf ?k"
    by (simp add: kernel_wf_def demo_kernel_def mailbox_wf_def log_wf_def log_seqs_def
        seqs_below_def stats_zero_def demo_envelope_def)
  have sl: "0 \<le> kernel_slack ?k" by (simp add: kernel_slack_def demo_kernel_def stats_zero_def)
  have "\<exists>k' w'. kernel_run failing_runtime None (?k, ()) = Some ((k', w'), Inr 2) \<and>
      ks_errors (k_stats k') = 2"
    unfolding kernel_run_def run_loop_quiet [OF failing_quiet]
    by (simp add: demo_kernel_def dispatch_def failing_runtime_def count_dispatch_def
        on_handler_error_def log_append_def reserve_slot_def log_build_def mk_envelope_def
        kernel_error_not_blank stats_zero_def demo_envelope_def Let_def dict_add_def dict_get_def)
  then obtain k' w' where r: "kernel_run failing_runtime None (?k, ()) = Some ((k', w'), Inr 2)"
    and "ks_errors (k_stats k') = 2" by blast
  with kernel_run_invariant [OF failing_well_behaved wf sl r] show ?thesis by blast
qed

lemma run_loop_bounded:
  "\<exists>s' r. run_loop rt (Some n) p s = Some (s', r) \<and>
     (case r of Inl _ \<Rightarrow> True | Inr m \<Rightarrow> p \<le> m \<and> int m \<le> max n (int p))"
proof (induction "nat (n - int p)" arbitrary: p s)
  case 0
  then have "\<not> int p < n" by simp
  then show ?case by (subst run_loop.simps) simp
next
  case (Suc d)
  then have lt: "int p < n" and d: "d = nat (n - int (Suc p))" by auto
  obtain mb g where get: "mailbox_get (k_mailbox (fst s)) = (mb, g)" by fastforce
  show ?case
  proof (cases g)
    case None
    with lt get show ?thesis by (subst run_loop.simps) simp
  next
    case (Some e)
    obtain s1 x where di: "dispatch rt e ((fst s)\<lparr>k_mailbox := mb\<rparr>, snd s) = (s1, x)" by fastforce
    show ?thesis
    proof (cases x)
      case None
      with lt get Some di have "run_loop rt (Some n) p s = run_loop rt (Some n) (Suc p) s1"
        by (subst run_loop.simps) simp
      with Suc.hyps(1) [OF d, of s1] lt show ?thesis by (force split: sum.splits)
    next
      case (Some err)
      with lt get \<open>g = Some e\<close> di show ?thesis by (subst run_loop.simps) simp
    qed
  qed
qed

text \<open>
  C2: a limited run always returns. Whatever the handlers do, \<open>run(max_messages=n)\<close>
  returns, and a run that ends without an exception dispatched at most \<open>n\<close> messages.
\<close>

theorem kernel_run_bounded_returns:
  "\<exists>s' r. kernel_run rt (Some n) s = Some (s', r) \<and>
     (case r of Inl _ \<Rightarrow> True | Inr m \<Rightarrow> int m \<le> max n 0)"
proof -
  obtain s' r where "run_loop rt (Some n) 0 s = Some (s', r)"
    and "case r of Inl _ \<Rightarrow> True | Inr m \<Rightarrow> 0 \<le> m \<and> int m \<le> max n (int 0)"
    using run_loop_bounded [of rt n 0 s] by blast
  then show ?thesis unfolding kernel_run_def by (cases r) auto
qed

text \<open>
  First in, first out, and it ends. When no handler touches the mailbox, \<open>run()\<close>
  without a limit returns, having dispatched exactly the messages that were queued, in the
  order they were queued, up to the first that raises.
\<close>

theorem kernel_run_fifo:
  assumes "quiet rt"
  shows "kernel_run rt None s = Some (dispatch_list rt (mb_items (k_mailbox (fst s))) s 0)"
  using run_loop_quiet [OF assms] by (simp add: kernel_run_def)

lemma kernel_run_fifo_witness:
  "kernel_run failing_runtime None (demo_kernel 3 [demo_envelope 1, demo_envelope 2], ())
     = Some (dispatch_list failing_runtime [demo_envelope 1, demo_envelope 2]
               (demo_kernel 3 [demo_envelope 1, demo_envelope 2], ()) 0)"
proof -
  show ?thesis
    using kernel_run_fifo [OF failing_quiet, of "(demo_kernel 3 [demo_envelope 1, demo_envelope 2], ())"]
    by (simp add: demo_kernel_def)
qed

definition log_refuses :: "'a event_log \<Rightarrow> bool" where
  "log_refuses l \<longleftrightarrow> el_overflow l = Raise \<and> el_max l \<le> int (length (el_entries l))"

text \<open>
  Submission is atomic while the log has room. Unless the log is full under the
  \<open>raise\<close> policy, a submission that raises leaves queue and log as they were, and one that
  returns an envelope has queued it last and logged it last, under the log's next number.
\<close>

theorem kernel_submit_atomic:
  assumes "\<not> log_refuses (k_log k)"
    and "kernel_submit k kind p t src n1 n2 = (k', r)"
  shows "case r of
           Inl err \<Rightarrow> mb_items (k_mailbox k') = mb_items (k_mailbox k) \<and> k_log k' = k_log k
         | Inr e \<Rightarrow> mb_items (k_mailbox k') = mb_items (k_mailbox k) @ [e] \<and>
             env_seq e = el_next (k_log k) \<and> el_next (k_log k') = env_seq e + 1 \<and>
             (\<exists>es e'. el_entries (k_log k') = es @ [e'] \<and> env_seq e' = env_seq e \<and>
                env_kind e' = env_kind e \<and> env_payload e' = env_payload e)"
proof (cases "build_envelope k kind p t src n1")
  case (Inl err)
  then have "k' = k \<and> r = Inl err" using assms(2) by (simp add: kernel_submit_def)
  then show ?thesis by simp
next
  case (Inr e)
  then have e: "env_seq e = el_next (k_log k)" "env_kind e = kind" "\<not> py_blank kind"
    by (auto simp: build_envelope_def dest: mk_envelope_Inr)
  obtain mb x where put: "mailbox_put (k_mailbox k) e = (mb, x)" by fastforce
  show ?thesis
  proof (cases x)
    case (Inl err)
    with put have "mb_items mb = mb_items (k_mailbox k)" by (simp add: mailbox_put_error)
    moreover have "k' = k\<lparr>k_mailbox := mb\<rparr> \<and> r = Inl err"
      using Inl put Inr assms(2) by (simp add: kernel_submit_def)
    ultimately show ?thesis by simp
  next
    case x: (Inr u)
    obtain l y where app:
      "log_append (k_log k) kind (env_payload e) t src (Some (env_seq e)) n2 = (l, y)" by fastforce
    have "\<exists>e'. y = Inr e'"
    proof (cases "k_log k" rule: reserve_slot_cases)
      case full
      with assms(1) show ?thesis by (simp add: log_refuses_def)
    qed (use app e in \<open>auto simp: log_append_def log_build_def mk_envelope_def Let_def\<close>)
    then obtain e' where y: "y = Inr e'" ..
    from put x have "mb_items mb = mb_items (k_mailbox k) @ [e]" by (simp add: mailbox_put_ok)
    moreover have "k' = k\<lparr>k_mailbox := mb, k_log := l\<rparr> \<and> r = Inr e"
      using app y Inr put x assms(2) by (simp add: kernel_submit_def)
    ultimately show ?thesis
      using app [unfolded y] e by (elim log_append_Inr) auto
  qed
qed

lemma kernel_submit_atomic_witness:
  "\<exists>k' e. kernel_submit (demo_kernel 1 []) ''task'' [] '''' '''' '''' '''' = (k', Inr e) \<and>
     mb_items (k_mailbox k') = [e] \<and> el_next (k_log k') = 2"
proof -
  have h: "\<not> log_refuses (k_log (demo_kernel 1 []))" by (simp add: log_refuses_def demo_kernel_def)
  have "\<exists>k' e. kernel_submit (demo_kernel 1 []) ''task'' [] '''' '''' '''' '''' = (k', Inr e)"
    by (simp add: kernel_submit_def build_envelope_def mk_envelope_def mailbox_put_def
        log_append_def reserve_slot_def log_build_def demo_kernel_def py_blank_iff py_isspace_def)
  then obtain k' e where r: "kernel_submit (demo_kernel 1 []) ''task'' [] '''' '''' '''' '''' = (k', Inr e)"
    by blast
  from kernel_submit_atomic [OF h r] r show ?thesis by (auto simp: demo_kernel_def)
qed

text \<open>
  And not when it is full. With the log full under the \<open>raise\<close> policy and room in the
  mailbox, \<open>submit\<close> raises \<open>EventLogFullError\<close> although the message has been queued and
  will be dispatched, without a log entry; the number it carries stays the log's next, so
  the next submission queues a second message under the same number.
\<close>

theorem kernel_submit_orphan:
  assumes "log_refuses (k_log k)" and "\<not> py_blank kind"
    and "int (length (mb_items (k_mailbox k))) < mb_capacity (k_mailbox k)"
  shows "\<exists>k' e. kernel_submit k kind p t src n1 n2 =
             (k', Inl (EventLogFullError (el_max (k_log k)))) \<and>
           mb_items (k_mailbox k') = mb_items (k_mailbox k) @ [e] \<and>
           k_log k' = k_log k \<and> env_seq e = el_next (k_log k')"
  using assms
  by (simp add: kernel_submit_def build_envelope_def mk_envelope_def mailbox_put_def
      log_append_def reserve_slot_def log_refuses_def)

lemma kernel_submit_orphan_witness:
  "\<exists>k' e. kernel_submit
         ((demo_kernel 3 [])\<lparr>k_log := \<lparr>el_max = 1, el_overflow = Raise,
            el_entries = [demo_envelope 1], el_next = 2\<rparr>\<rparr>)
         ''task'' [] '''' '''' '''' '''' = (k', Inl (EventLogFullError 1)) \<and>
     mb_items (k_mailbox k') = [e] \<and> env_seq e = 2"
proof -
  let ?k = "(demo_kernel 3 [])\<lparr>k_log := \<lparr>el_max = 1, el_overflow = Raise,
            el_entries = [demo_envelope 1], el_next = 2\<rparr>\<rparr>"
  have h: "log_refuses (k_log ?k)" "\<not> py_blank ''task''"
      "int (length (mb_items (k_mailbox ?k))) < mb_capacity (k_mailbox ?k)"
    by (simp_all add: log_refuses_def demo_kernel_def py_blank_iff py_isspace_def)
  from kernel_submit_orphan [OF h, of "[]" "[]" "[]" "[]" "[]"] show ?thesis
    by (auto simp: demo_kernel_def)
qed

end
