(* ===== verification/KernelBus.thy ===== *)
theory KernelBus
  imports KernelLoop
begin

text \<open>
  The deterministic bus over the kernel (harness/orchestrator/agent_bus/kernel_bus.py) and
  the request/reply correlation over any bus (harness/orchestrator/request_tracker.py).
\<close>

text \<open>
  \<open>KernelBusError\<close> wraps the kernel's exception; \<open>BusRaised\<close> is one that passes
  through unwrapped (a \<open>ValueError\<close> of \<open>submit\<close>, which only \<open>RuntimeError\<close>s are
  re-typed by).
\<close>

datatype bus_error = KernelBusError kernel_error | BusRaised kernel_error

definition bus_new :: "int \<Rightarrow> int \<Rightarrow> bool \<Rightarrow> kernel_error + ('a, 'h) kernel" where
  "bus_new cap entries ff =
     (case mailbox_new cap of
        Inl err \<Rightarrow> Inl err
      | Inr mb \<Rightarrow>
          (case event_log_new entries ''raise'' of
             Inl err \<Rightarrow> Inl err
           | Inr l \<Rightarrow> Inr (kernel_new mb l ff)))"

definition bus_subscribe ::
  "('a, 'h) kernel \<Rightarrow> string \<Rightarrow> 'h \<Rightarrow> ('a, 'h) kernel \<times> (bus_error + unit)" where
  "bus_subscribe k kind h =
     (case kernel_register k kind h of
        (k', Inl err) \<Rightarrow> (k', Inl (KernelBusError err))
      | (k', Inr u) \<Rightarrow> (k', Inr u))"

definition is_runtime_error :: "kernel_error \<Rightarrow> bool" where
  "is_runtime_error err =
     (case err of MailboxFullError _ \<Rightarrow> True | EventLogFullError _ \<Rightarrow> True | _ \<Rightarrow> False)"

definition bus_submit ::
  "('a, 'h) kernel \<Rightarrow> string \<Rightarrow> 'a payload \<Rightarrow> string \<Rightarrow> string \<Rightarrow> string \<Rightarrow> string
    \<Rightarrow> ('a, 'h) kernel \<times> (bus_error + 'a envelope)" where
  "bus_submit k kind p trace source n1 n2 =
     (case kernel_submit k kind p trace source n1 n2 of
        (k', Inl err) \<Rightarrow>
          (k', Inl (if is_runtime_error err then KernelBusError err else BusRaised err))
      | (k', Inr e) \<Rightarrow> (k', Inr e))"

definition bus_drain ::
  "('a, 'h, 'w) runtime \<Rightarrow> ('a, 'h) kernel \<times> 'w
    \<Rightarrow> ((('a, 'h) kernel \<times> 'w) \<times> (bus_error + nat)) option" where
  "bus_drain rt s =
     (case kernel_run rt None s of
        None \<Rightarrow> None
      | Some (s', Inl err) \<Rightarrow> Some (s', Inl (KernelBusError err))
      | Some (s', Inr n) \<Rightarrow> Some (s', Inr n))"

definition bus_publish ::
  "('a, 'h, 'w) runtime \<Rightarrow> bool \<Rightarrow> ('a, 'h) kernel \<times> 'w
    \<Rightarrow> string \<Rightarrow> 'a payload \<Rightarrow> string \<Rightarrow> string \<Rightarrow> string \<Rightarrow> string
    \<Rightarrow> ((('a, 'h) kernel \<times> 'w) \<times> (bus_error + 'a envelope)) option" where
  "bus_publish rt drain s kind p trace source n1 n2 =
     (case bus_submit (fst s) kind p trace source n1 n2 of
        (k', Inl err) \<Rightarrow> Some ((k', snd s), Inl err)
      | (k', Inr e) \<Rightarrow>
          if drain then
            (case bus_drain rt (k', snd s) of
               None \<Rightarrow> None
             | Some (s', Inl err) \<Rightarrow> Some (s', Inl err)
             | Some (s', Inr _) \<Rightarrow> Some (s', Inr e))
          else Some ((k', snd s), Inr e))"

definition bus_replay :: "('a, 'h) kernel \<Rightarrow> (string \<times> 'a pyval) list list" where
  "bus_replay k = log_replay (k_log k)"

definition bus_pending :: "('a, 'h) kernel \<Rightarrow> nat" where
  "bus_pending k = mailbox_len (k_mailbox k)"

lemma bus_new_wf: "bus_new cap entries ff = Inr k \<Longrightarrow> kernel_wf k"
  by (auto simp: bus_new_def mailbox_new_def split: sum.splits if_splits
      intro!: kernel_new_wf dest: event_log_new_wf) (simp add: mailbox_wf_def)

subsection \<open>Draining\<close>

text \<open>An unlimited run that returns normally leaves the mailbox empty.\<close>

lemma run_loop_empty:
  assumes ret: "run_loop rt mx n s = Some sr"
  shows "mx = None \<Longrightarrow> (case snd sr of Inl _ \<Rightarrow> True
           | Inr _ \<Rightarrow> mb_items (k_mailbox (fst (fst sr))) = [])"
proof (rule mp, rule run_loop.raw_induct [where
    P = "\<lambda>rt mx n s sr. mx = None \<longrightarrow> (case snd sr of Inl _ \<Rightarrow> True
           | Inr _ \<Rightarrow> mb_items (k_mailbox (fst (fst sr))) = [])", OF _ ret], rule impI)
  fix f :: "('a, 'b, 'c) runtime \<Rightarrow> int option \<Rightarrow> nat \<Rightarrow> ('a, 'b) kernel \<times> 'c
      \<Rightarrow> ((('a, 'b) kernel \<times> 'c) \<times> (kernel_error + nat)) option"
    and rt :: "('a, 'b, 'c) runtime" and mx :: "int option" and n s
    and sr :: "(('a, 'b) kernel \<times> 'c) \<times> (kernel_error + nat)"
  assume IH: "\<And>rt mx n s sr. f rt mx n s = Some sr \<Longrightarrow> mx = None \<longrightarrow>
        (case snd sr of Inl _ \<Rightarrow> True | Inr _ \<Rightarrow> mb_items (k_mailbox (fst (fst sr))) = [])"
    and eq: "(if mx = None \<or> int n < the mx then
        (case mailbox_get (k_mailbox (fst s)) of
           (mb, None) \<Rightarrow> Some (((fst s)\<lparr>k_mailbox := mb\<rparr>, snd s), Inr n)
         | (mb, Some e) \<Rightarrow>
             (case dispatch rt e ((fst s)\<lparr>k_mailbox := mb\<rparr>, snd s) of
                (s', Some err) \<Rightarrow> Some (s', Inl err)
              | (s', None) \<Rightarrow> f rt mx (Suc n) s'))
      else Some (s, Inr n)) = Some sr"
    and mx: "mx = None"
  obtain mb r where get: "mailbox_get (k_mailbox (fst s)) = (mb, r)" by fastforce
  show "case snd sr of Inl _ \<Rightarrow> True | Inr _ \<Rightarrow> mb_items (k_mailbox (fst (fst sr))) = []"
  proof (cases r)
    case None
    with get have "mb_items mb = []" by (simp add: mailbox_get_None)
    with eq get None mx show ?thesis by auto
  next
    case (Some e)
    obtain s' x where d: "dispatch rt e ((fst s)\<lparr>k_mailbox := mb\<rparr>, snd s) = (s', x)" by fastforce
    show ?thesis
    proof (cases x)
      case None
      with eq get Some d mx have "f rt mx (Suc n) s' = Some sr" by simp
      with IH mx show ?thesis by blast
    next
      case (Some err)
      with eq get \<open>r = Some e\<close> d mx show ?thesis by auto
    qed
  qed
qed

text \<open>
  Publish means delivered. Whatever the handlers do, a draining \<open>publish\<close> that returns
  an envelope leaves no message pending, its own and those its handlers published included.
\<close>

theorem bus_publish_drained:
  assumes "bus_publish rt True s kind p trace source n1 n2 = Some ((k', w'), Inr e)"
  shows "bus_pending k' = 0 \<and> \<not> py_blank kind \<and> env_kind e = kind"
proof -
  obtain k1 where sub: "bus_submit (fst s) kind p trace source n1 n2 = (k1, Inr e)"
    and dr: "\<exists>n. bus_drain rt (k1, snd s) = Some ((k', w'), Inr n)"
    using assms by (auto simp: bus_publish_def split: prod.splits sum.splits option.splits)
  from dr obtain n where "run_loop rt None 0 (k1, snd s) = Some ((k', w'), Inr n)"
    by (auto simp: bus_drain_def kernel_run_def split: option.splits sum.splits)
  from run_loop_empty [OF this] have "mb_items (k_mailbox k') = []" by simp
  moreover from sub have "\<not> py_blank kind \<and> env_kind e = kind"
    by (auto simp: bus_submit_def kernel_submit_def build_envelope_def
        split: prod.splits sum.splits dest!: mk_envelope_Inr)
  ultimately show ?thesis by (simp add: bus_pending_def mailbox_len_def)
qed

lemma bus_publish_drained_witness:
  "\<exists>k' w' e. bus_publish failing_runtime True (demo_kernel 3 [], ()) ''task'' [] '''' '''' '''' ''''
       = Some ((k', w'), Inr e) \<and> bus_pending k' = 0"
proof -
  have nb: "\<not> py_blank ''task''" by (simp add: py_blank_iff py_isspace_def)
  have "\<exists>k' w' e. bus_publish failing_runtime True (demo_kernel 3 [], ()) ''task'' [] '''' '''' '''' ''''
       = Some ((k', w'), Inr e)"
    unfolding bus_publish_def bus_drain_def kernel_run_def run_loop_quiet [OF failing_quiet]
    by (simp add: bus_submit_def kernel_submit_def build_envelope_def mk_envelope_def nb
        mailbox_put_def demo_kernel_def dispatch_def failing_runtime_def count_dispatch_def
        on_handler_error_def log_append_def reserve_slot_def log_build_def
        kernel_error_not_blank stats_zero_def Let_def)
  then obtain k' w' e where r: "bus_publish failing_runtime True (demo_kernel 3 [], ()) ''task'' []
       '''' '''' '''' '''' = Some ((k', w'), Inr e)" by blast
  from bus_publish_drained [OF r] r show ?thesis by blast
qed

text \<open>
  A full log wedges the bus for good. The bus builds its log with the \<open>raise\<close> policy
  and never clears it: once the log is full, no publication of any kind succeeds, the log
  stays full, and each one still takes a place in the mailbox until that is full as well.
\<close>

theorem bus_wedged_when_log_full:
  assumes "log_refuses (k_log k)"
    and "bus_publish rt drain (k, w) kind p trace source n1 n2 = Some ((k', w'), r)"
  shows "(case r of Inl _ \<Rightarrow> True | Inr _ \<Rightarrow> False) \<and> log_refuses (k_log k') \<and>
         bus_pending k' =
           bus_pending k +
             (if py_blank kind \<or> mb_capacity (k_mailbox k) \<le> int (bus_pending k) then 0 else 1)"
proof -
  have "\<exists>k1 err. bus_submit k kind p trace source n1 n2 = (k1, Inl err)"
    using assms(1)
    by (auto simp: bus_submit_def kernel_submit_def build_envelope_def
        mk_envelope_def mailbox_put_def log_append_def reserve_slot_def log_refuses_def)
  with assms(2) obtain err where
    s: "bus_submit k kind p trace source n1 n2 = (k', Inl err)" "r = Inl err"
    by (auto simp: bus_publish_def)
  with assms(1) show ?thesis
    by (auto simp: bus_submit_def kernel_submit_def build_envelope_def mk_envelope_def
        mailbox_put_def log_append_def reserve_slot_def log_refuses_def bus_pending_def
        mailbox_len_def split: if_splits)
qed

lemma bus_wedged_when_log_full_witness:
  "\<exists>k' w' r. bus_publish failing_runtime True
       ((demo_kernel 3 [])\<lparr>k_log := \<lparr>el_max = 1, el_overflow = Raise,
          el_entries = [demo_envelope 1], el_next = 2\<rparr>\<rparr>, ())
       ''task'' [] '''' '''' '''' '''' = Some ((k', w'), r) \<and>
     log_refuses (k_log k') \<and> bus_pending k' = 1"
proof -
  let ?k = "(demo_kernel 3 [])\<lparr>k_log := \<lparr>el_max = 1, el_overflow = Raise,
            el_entries = [demo_envelope 1], el_next = 2\<rparr>\<rparr> :: (unit, unit) kernel"
  have nb: "\<not> py_blank ''task''" by (simp add: py_blank_iff py_isspace_def)
  have h: "log_refuses (k_log ?k)" by (simp add: log_refuses_def)
  have "\<exists>k' w' r. bus_publish failing_runtime True (?k, ()) ''task'' [] '''' '''' '''' ''''
       = Some ((k', w'), r)"
    by (simp add: bus_publish_def bus_submit_def kernel_submit_def build_envelope_def
        mk_envelope_def nb mailbox_put_def log_append_def reserve_slot_def demo_kernel_def)
  then obtain k' w' r where r: "bus_publish failing_runtime True (?k, ()) ''task'' [] '''' '''' '''' ''''
       = Some ((k', w'), r)" by blast
  from bus_wedged_when_log_full [OF h r] r nb show ?thesis
    by (auto simp: bus_pending_def mailbox_len_def demo_kernel_def)
qed

subsection \<open>RequestTracker\<close>

text \<open>
  The tracker knows its bus by the port's two operations. Its \<open>_capture\<close> method is the
  handler it subscribes, so the replies are part of the state a publication runs over; the
  rest of that state is the bus's own.
\<close>

record ('b, 'a, 'e) bus_port =
  bp_subscribe :: "string \<Rightarrow> 'b \<Rightarrow> 'b \<times> 'e option"
  bp_publish :: "string \<Rightarrow> 'a payload \<Rightarrow> string \<Rightarrow> string
    \<Rightarrow> 'b \<times> (string \<times> 'a payload) list \<Rightarrow> ('b \<times> (string \<times> 'a payload) list) \<times> 'e option"

datatype 'e request_error =
    RequestValueError
  | NoReply string
  | ReplyTooLate string
  | BusFailed 'e

definition tracker_capture ::
  "'a payload \<Rightarrow> 'a envelope \<Rightarrow> (string \<times> 'a payload) list \<Rightarrow> (string \<times> 'a payload) list" where
  "tracker_capture p e replies = AList.update (env_trace e) p replies"

definition tracker_consume ::
  "string \<Rightarrow> 't::linordered_idom \<Rightarrow> 't \<Rightarrow> 't \<Rightarrow> (string \<times> 'a payload) list
    \<Rightarrow> (string \<times> 'a payload) list \<times> ('e request_error + 'a payload)" where
  "tracker_consume trace started timeout now replies =
     (let replies' = AList.delete trace replies
      in case map_of replies trace of
           None \<Rightarrow> (replies', Inl (NoReply trace))
         | Some reply \<Rightarrow>
             (replies', if now - started > timeout then Inl (ReplyTooLate trace) else Inr reply))"

text \<open>\<open>fresh\<close> is the generated correlation id, used when no trace is given.\<close>

definition tracker_request ::
  "('b, 'a, 'e) bus_port \<Rightarrow> string \<Rightarrow> 'a payload \<Rightarrow> string \<Rightarrow> 't::linordered_idom
    \<Rightarrow> string option \<Rightarrow> string \<Rightarrow> string \<Rightarrow> 't \<Rightarrow> 't \<Rightarrow> 'b \<times> (string \<times> 'a payload) list
    \<Rightarrow> ('b \<times> (string \<times> 'a payload) list) \<times> ('e request_error + 'a payload)" where
  "tracker_request bp kind p reply_kind timeout trace_id source fresh started now s =
     (if timeout \<le> 0 then (s, Inl RequestValueError)
      else
        let trace = (case trace_id of Some t \<Rightarrow> if t = [] then fresh else t | None \<Rightarrow> fresh)
        in case bp_subscribe bp reply_kind (fst s) of
             (b, Some err) \<Rightarrow> ((b, snd s), Inl (BusFailed err))
           | (b, None) \<Rightarrow>
               (case bp_publish bp kind p trace source (b, snd s) of
                  (s1, Some err) \<Rightarrow> (s1, Inl (BusFailed err))
                | (s1, None) \<Rightarrow>
                    (let (replies, r) = tracker_consume trace started timeout now (snd s1)
                     in ((fst s1, replies), r))))"

text \<open>
  A reply is consumed once. Whatever the bus did, unless it raised or the budget was
  not positive, a request leaves no reply under its trace; it returns a reply only if one
  had been captured under that trace and the budget was not exceeded, and the replies of
  other traces stay as the publication left them.
\<close>

theorem tracker_request_consumes:
  assumes "0 < timeout" and "bp_subscribe bp reply_kind (fst s) = (b, None)"
    and "t \<noteq> []" and "bp_publish bp kind p t source (b, snd s) = (s1, None)"
    and "tracker_request bp kind p reply_kind timeout (Some t) source fresh started now s = (s2, r)"
  shows "map_of (snd s2) = (map_of (snd s1))(t := None) \<and> fst s2 = fst s1 \<and>
         r = (case map_of (snd s1) t of
                None \<Rightarrow> Inl (NoReply t)
              | Some reply \<Rightarrow> if now - started \<le> timeout then Inr reply else Inl (ReplyTooLate t))"
  using assms
  by (auto simp: tracker_request_def tracker_consume_def Let_def not_less split: option.splits)

definition echo_port :: "(unit, unit, unit) bus_port" where
  "echo_port =
     \<lparr>bp_subscribe = (\<lambda>_ b. (b, None)),
      bp_publish = (\<lambda>kind p t src s. ((fst s, tracker_capture p
        \<lparr>env_seq = 1, env_kind = kind, env_payload = p, env_trace = t, env_source = src,
         env_created = ''''\<rparr> (snd s)), None))\<rparr>"

lemma tracker_request_consumes_witness:
  "tracker_request echo_port ''q'' [] ''r'' (5 :: int) (Some ''t1'') '''' ''f'' 10 12
     ((), [(''t0'', [])]) = (((), [(''t0'', [])]), Inr [])"
proof -
  obtain s2 r where q: "tracker_request echo_port ''q'' [] ''r'' (5 :: int) (Some ''t1'') '''' ''f'' 10 12
     ((), [(''t0'', [])]) = (s2, r)" by fastforce
  have "r = Inr []"
    using tracker_request_consumes [OF _ _ _ _ q, of "()" "((), [(''t0'', []), (''t1'', [])])"]
    by (simp add: echo_port_def tracker_capture_def)
  with q show ?thesis
    by (auto simp: tracker_request_def tracker_consume_def echo_port_def tracker_capture_def Let_def)
qed

end
