(* ===== verification/PyText.thy ===== *)
theory PyText
  imports Prelude "HOL-Library.Char_ord" "HOL-Library.List_Lexorder"
begin

text \<open>
  Python's text operations on the strings of the prelude (str, repr, join, split,
  splitlines), iteration over a value, and JSON documents. Strings are ordered as Python
  orders them: lexicographically by code point.
\<close>

text \<open>A JSON document without floating-point numbers; \<open>PObj\<close> does not occur in one.\<close>

type_synonym json = "unit pyval"
type_synonym json_object = "(string \<times> json) list"

subsection \<open>str and repr\<close>

definition hex_digit :: "nat \<Rightarrow> char" where
  "hex_digit d = (if d < 10 then char_of (48 + d) else char_of (87 + d))"

definition repr_char :: "char \<Rightarrow> char \<Rightarrow> string" where
  "repr_char q c =
     (let n = (of_char c :: nat); bs = (char_of (92 :: nat) :: char)
      in if c = q \<or> n = 92 then [bs, c]
         else if n = 9 then [bs, CHR ''t'']
         else if n = 10 then [bs, CHR ''n'']
         else if n = 13 then [bs, CHR ''r'']
         else if n < 32 \<or> (127 \<le> n \<and> n \<le> 160) \<or> n = 173
           then [bs, CHR ''x'', hex_digit (n div 16), hex_digit (n mod 16)]
         else [c])"

definition repr_str :: "string \<Rightarrow> string" where
  "repr_str s =
     (let sq = (char_of (39 :: nat) :: char); dq = (char_of (34 :: nat) :: char);
          q = (if sq \<in> set s \<and> dq \<notin> set s then dq else sq)
      in [q] @ concat (map (repr_char q) s) @ [q])"

fun py_join :: "string \<Rightarrow> string list \<Rightarrow> string" where
  "py_join sep [] = []"
| "py_join sep [s] = s"
| "py_join sep (s # t # ss) = s @ sep @ py_join sep (t # ss)"

fun py_repr :: "'a pyval \<Rightarrow> string" where
  "py_repr PNone = ''None''"
| "py_repr (PBool b) = (if b then ''True'' else ''False'')"
| "py_repr (PInt i) = str_of_int i"
| "py_repr (PStr s) = repr_str s"
| "py_repr (PList vs) = ''['' @ py_join '', '' (map py_repr vs) @ '']''"
| "py_repr (PDict kvs) =
     ''{'' @ py_join '', '' (map (\<lambda>(k, v). repr_str k @ '': '' @ py_repr v) kvs) @ ''}''"
| "py_repr (PObj _) = ''<object>''"

fun py_str :: "'a pyval \<Rightarrow> string" where
  "py_str (PStr s) = s"
| "py_str v = py_repr v"

subsection \<open>Truth and iteration\<close>

fun py_truthy :: "'a pyval \<Rightarrow> bool" where
  "py_truthy PNone = False"
| "py_truthy (PBool b) = b"
| "py_truthy (PInt i) = (i \<noteq> 0)"
| "py_truthy (PStr s) = (s \<noteq> [])"
| "py_truthy (PList vs) = (vs \<noteq> [])"
| "py_truthy (PDict kvs) = (kvs \<noteq> [])"
| "py_truthy (PObj _) = True"

text \<open>The values a \<open>for\<close> runs over, \<open>None\<close> when the value is not iterable.\<close>

fun py_iter :: "'a pyval \<Rightarrow> 'a pyval list option" where
  "py_iter (PList vs) = Some vs"
| "py_iter (PDict kvs) = Some (map (PStr \<circ> fst) kvs)"
| "py_iter (PStr s) = Some (map (\<lambda>c. PStr [c]) s)"
| "py_iter _ = None"

definition py_strs :: "'a pyval \<Rightarrow> string list option" where
  "py_strs v = map_option (map py_str) (py_iter v)"

lemma py_strs_list [simp]: "py_strs (PList (map PStr xs)) = Some xs"
  by (simp add: py_strs_def comp_def)

subsection \<open>Splitting\<close>

lemma length_dropWhile_less: "P (hd s) \<Longrightarrow> s \<noteq> [] \<Longrightarrow> length (dropWhile P s) < length s"
  by (cases s) (auto simp: length_dropWhile_le less_Suc_eq_le)

text \<open>\<open>s.split()\<close>\<close>

function py_split :: "string \<Rightarrow> string list" where
  "py_split s =
     (let t = dropWhile py_isspace s
      in if t = [] then []
         else takeWhile (\<lambda>c. \<not> py_isspace c) t # py_split (dropWhile (\<lambda>c. \<not> py_isspace c) t))"
  by pat_completeness auto
termination
proof (relation "measure length")
  fix s x
  assume x: "x = dropWhile py_isspace s" and ne: "x \<noteq> []"
  then have "\<not> py_isspace (hd x)" by (simp add: hd_dropWhile)
  with ne have "length (dropWhile (\<lambda>c. \<not> py_isspace c) x) < length x"
    by (simp add: length_dropWhile_less)
  also have "length x \<le> length s" by (simp add: x length_dropWhile_le)
  finally show "(dropWhile (\<lambda>c. \<not> py_isspace c) x, s) \<in> measure length" by simp
qed simp

text \<open>\<open>s.splitlines()\<close>, on the line boundaries below code point 256\<close>

definition py_linebreak :: "char \<Rightarrow> bool" where
  "py_linebreak c \<longleftrightarrow> (of_char c :: nat) \<in> set [10, 11, 12, 13, 28, 29, 30, 133]"

function py_splitlines :: "string \<Rightarrow> string list" where
  "py_splitlines s =
     (if s = [] then []
      else takeWhile (\<lambda>c. \<not> py_linebreak c) s #
        (case dropWhile (\<lambda>c. \<not> py_linebreak c) s of
           [] \<Rightarrow> []
         | c # r \<Rightarrow>
             py_splitlines (if c = char_of (13 :: nat) \<and> r \<noteq> [] \<and> hd r = char_of (10 :: nat)
                            then tl r else r)))"
  by pat_completeness auto
termination
proof (relation "measure length")
  fix s c r
  assume "dropWhile (\<lambda>c. \<not> py_linebreak c) s = c # r"
  then have "length (c # r) \<le> length s" by (metis length_dropWhile_le)
  then show "(if c = char_of (13 :: nat) \<and> r \<noteq> [] \<and> hd r = char_of (10 :: nat) then tl r else r, s)
      \<in> measure length"
    by auto
qed simp

declare py_split.simps [simp del] py_splitlines.simps [simp del]

text \<open>\<open>s.split(c)\<close> for a one-character separator\<close>

fun split_on :: "char \<Rightarrow> string \<Rightarrow> string list" where
  "split_on c [] = [[]]"
| "split_on c (x # xs) =
     (if x = c then [] # split_on c xs
      else (x # hd (split_on c xs)) # tl (split_on c xs))"

text \<open>\<open>s.endswith(suffix)\<close>, \<open>s.startswith(prefix)\<close>\<close>

definition py_endswith :: "string \<Rightarrow> string \<Rightarrow> bool" where
  "py_endswith s suf \<longleftrightarrow> length suf \<le> length s \<and> drop (length s - length suf) s = suf"

definition py_startswith :: "string \<Rightarrow> string \<Rightarrow> bool" where
  "py_startswith s pre \<longleftrightarrow> take (length pre) s = pre"

text \<open>\<open>old in s\<close> for strings\<close>

fun py_contains :: "string \<Rightarrow> string \<Rightarrow> bool" where
  "py_contains s sub \<longleftrightarrow>
     py_startswith s sub \<or> (case s of [] \<Rightarrow> False | _ # r \<Rightarrow> py_contains r sub)"

declare py_contains.simps [simp del]


subsection \<open>Lower case\<close>

text \<open>\<open>str.lower\<close> on the characters of the model (code points below 256).\<close>

definition lower_char :: "char \<Rightarrow> char" where
  "lower_char c =
     (let n = of_char c :: nat
      in if (65 \<le> n \<and> n \<le> 90) \<or> (192 \<le> n \<and> n \<le> 222 \<and> n \<noteq> 215) then char_of (n + 32) else c)"

definition py_lower :: "string \<Rightarrow> string" where
  "py_lower s = map lower_char s"

lemma lower_char_idem [simp]: "lower_char (lower_char c) = lower_char c"
proof -
  have "of_char (char_of (n + 32) :: char) = n + 32" if "n \<le> 222" for n :: nat
    using that by (simp add: of_char_of)
  then show ?thesis by (auto simp: lower_char_def Let_def)
qed

lemma py_lower_idem [simp]: "py_lower (py_lower s) = py_lower s"
  by (simp add: py_lower_def)

lemma length_py_lower [simp]: "length (py_lower s) = length s"
  by (simp add: py_lower_def)

subsection \<open>Integers\<close>

definition int_space :: "char \<Rightarrow> bool" where
  "int_space c \<longleftrightarrow> (of_char c :: nat) \<in> set [9, 10, 11, 12, 13, 32, 133, 160]"

definition is_digit :: "char \<Rightarrow> bool" where
  "is_digit c \<longleftrightarrow> 48 \<le> (of_char c :: nat) \<and> (of_char c :: nat) \<le> 57"

text \<open>
  \<open>int(s)\<close>: blanks around it, an optional sign, digits with single underscores between them,
  at most 4300 of them. The last argument of \<open>py_digits\<close> tells whether a digit came just before.
\<close>

fun py_digits :: "string \<Rightarrow> nat \<Rightarrow> bool \<Rightarrow> nat option" where
  "py_digits [] n d = (if d then Some n else None)"
| "py_digits (c # cs) n d =
     (if is_digit c then py_digits cs (10 * n + digit_val c) True
      else if c = CHR ''_'' \<and> d then py_digits cs n False
      else None)"

definition py_int :: "string \<Rightarrow> int option" where
  "py_int s =
     (let t = rev (dropWhile int_space (rev (dropWhile int_space s)))
      in if 4300 < length (filter is_digit t) then None
         else case t of
                [] \<Rightarrow> None
              | c # cs \<Rightarrow> if c = CHR ''-'' then map_option (\<lambda>n. - int n) (py_digits cs 0 False)
                          else if c = CHR ''+'' then map_option int (py_digits cs 0 False)
                          else map_option int (py_digits t 0 False))"

end
