(* ===== verification/TaskProtocol.thy ===== *)
theory TaskProtocol
  imports PyText Contracts
begin

text \<open>
  The life cycle of a federated task and its store, one JSON file per task
  (harness/federation/task_protocol.py). The store is its directory: file names with the
  document each holds. Timestamps and generated ids are arguments.
\<close>

datatype task_state = Submitted | Working | InputRequired | Completed | Failed | Canceled

definition state_value :: "task_state \<Rightarrow> string" where
  "state_value s =
     (case s of Submitted \<Rightarrow> ''submitted'' | Working \<Rightarrow> ''working''
      | InputRequired \<Rightarrow> ''input-required'' | Completed \<Rightarrow> ''completed''
      | Failed \<Rightarrow> ''failed'' | Canceled \<Rightarrow> ''canceled'')"

text \<open>\<open>TaskState(value)\<close>; \<open>None\<close> is its \<open>ValueError\<close>.\<close>

definition parse_state :: "string \<Rightarrow> task_state option" where
  "parse_state v =
     map_of (map (\<lambda>s. (state_value s, s))
       [Submitted, Working, InputRequired, Completed, Failed, Canceled]) v"

definition is_terminal :: "task_state \<Rightarrow> bool" where
  "is_terminal s \<longleftrightarrow> s \<in> {Completed, Failed, Canceled}"

fun allowed_transitions :: "task_state \<Rightarrow> task_state list" where
  "allowed_transitions Submitted = [Working, Canceled]"
| "allowed_transitions Working = [Completed, Failed, InputRequired, Canceled]"
| "allowed_transitions InputRequired = [Working, Canceled]"
| "allowed_transitions Completed = []"
| "allowed_transitions Failed = []"
| "allowed_transitions Canceled = []"

record federated_task =
  ft_id :: string
  ft_origin :: string
  ft_target :: string
  ft_skill :: string
  ft_prompt :: string
  ft_state :: task_state
  ft_created :: string
  ft_updated :: string
  ft_artifacts :: "string list"
  ft_error :: string

text \<open>Each \<open>raise\<close> of the module, with what its message names.\<close>

datatype task_error =
    EmptyField string
  | TerminalTransition task_state task_state
  | IllegalTransition task_state task_state
  | TaskExists string
  | TaskNotFound string
  | UnknownState string
  | MissingKey string
  | NotIterable string

subsection \<open>FederatedTask\<close>

definition task_create ::
  "string \<Rightarrow> string \<Rightarrow> string \<Rightarrow> string \<Rightarrow> string \<Rightarrow> string \<Rightarrow> task_error + federated_task" where
  "task_create origin target skill prompt fresh now =
     (case filter (\<lambda>(_, v). py_blank v)
             [(''origin_project'', origin), (''target_project'', target),
              (''skill_id'', skill), (''prompt'', prompt)] of
        (arg, _) # _ \<Rightarrow> Inl (EmptyField arg)
      | [] \<Rightarrow>
          Inr \<lparr>ft_id = fresh, ft_origin = py_strip origin, ft_target = py_strip target,
               ft_skill = py_strip skill, ft_prompt = py_strip prompt, ft_state = Submitted,
               ft_created = now, ft_updated = now, ft_artifacts = [], ft_error = ''''\<rparr>)"

definition transition :: "federated_task \<Rightarrow> task_state \<Rightarrow> string \<Rightarrow> task_error + federated_task" where
  "transition t new now =
     (if is_terminal (ft_state t) then Inl (TerminalTransition (ft_state t) new)
      else if new \<notin> set (allowed_transitions (ft_state t))
        then Inl (IllegalTransition (ft_state t) new)
      else Inr (t\<lparr>ft_state := new, ft_updated := now\<rparr>))"

subsection \<open>Serialisation\<close>

definition serialize_task :: "federated_task \<Rightarrow> json_object" where
  "serialize_task t =
     [(''task_id'', PStr (ft_id t)),
      (''origin_project'', PStr (ft_origin t)),
      (''target_project'', PStr (ft_target t)),
      (''skill_id'', PStr (ft_skill t)),
      (''prompt'', PStr (ft_prompt t)),
      (''state'', PStr (state_value (ft_state t))),
      (''created_at'', PStr (ft_created t)),
      (''updated_at'', PStr (ft_updated t)),
      (''artifacts'', PList (map PStr (ft_artifacts t))),
      (''error'', PStr (ft_error t))]"

text \<open>\<open>str(data[key])\<close>\<close>

definition str_field :: "json_object \<Rightarrow> string \<Rightarrow> task_error + string" where
  "str_field d k = (case map_of d k of None \<Rightarrow> Inl (MissingKey k) | Some v \<Rightarrow> Inr (py_str v))"

fun str_fields :: "json_object \<Rightarrow> string list \<Rightarrow> task_error + string list" where
  "str_fields d [] = Inr []"
| "str_fields d (k # ks) =
     (case str_field d k of
        Inl err \<Rightarrow> Inl err
      | Inr v \<Rightarrow> (case str_fields d ks of Inl err \<Rightarrow> Inl err | Inr vs \<Rightarrow> Inr (v # vs)))"

definition deserialize_task :: "json_object \<Rightarrow> task_error + federated_task" where
  "deserialize_task d =
     (case parse_state (py_str (dict_get d ''state'' PNone)) of
        None \<Rightarrow> Inl (UnknownState (py_str (dict_get d ''state'' PNone)))
      | Some st \<Rightarrow>
          (case str_fields d [''task_id'', ''origin_project'', ''target_project'', ''skill_id'',
                              ''prompt'', ''created_at'', ''updated_at''] of
             Inl err \<Rightarrow> Inl err
           | Inr vs \<Rightarrow>
               (case py_strs (dict_get d ''artifacts'' (PList [])) of
                  None \<Rightarrow> Inl (NotIterable ''artifacts'')
                | Some arts \<Rightarrow>
                    Inr \<lparr>ft_id = vs ! 0, ft_origin = vs ! 1, ft_target = vs ! 2, ft_skill = vs ! 3,
                         ft_prompt = vs ! 4, ft_state = st, ft_created = vs ! 5,
                         ft_updated = vs ! 6, ft_artifacts = arts,
                         ft_error = py_str (dict_get d ''error'' (PStr ''''))\<rparr>)))"

subsection \<open>TaskStore\<close>

type_synonym task_files = "(string \<times> json_object) list"

definition task_path :: "string \<Rightarrow> string" where
  "task_path i = i @ ''.json''"

definition store_save :: "task_files \<Rightarrow> federated_task \<Rightarrow> task_files \<times> (task_error + string)" where
  "store_save fs t =
     (case map_of fs (task_path (ft_id t)) of
        Some _ \<Rightarrow> (fs, Inl (TaskExists (ft_id t)))
      | None \<Rightarrow> (AList.update (task_path (ft_id t)) (serialize_task t) fs, Inr (task_path (ft_id t))))"

definition store_load :: "task_files \<Rightarrow> string \<Rightarrow> task_error + federated_task" where
  "store_load fs i =
     (case map_of fs (task_path i) of
        None \<Rightarrow> Inl (TaskNotFound i)
      | Some d \<Rightarrow> deserialize_task d)"

definition store_update ::
  "task_files \<Rightarrow> string \<Rightarrow> task_state \<Rightarrow> string \<Rightarrow> task_files \<times> (task_error + federated_task)" where
  "store_update fs i new now =
     (case store_load fs i of
        Inl err \<Rightarrow> (fs, Inl err)
      | Inr cur \<Rightarrow>
          (case transition cur new now of
             Inl err \<Rightarrow> (fs, Inl err)
           | Inr t \<Rightarrow> (AList.update (task_path i) (serialize_task t) fs, Inr t)))"

fun deserialize_all :: "json_object list \<Rightarrow> task_error + federated_task list" where
  "deserialize_all [] = Inr []"
| "deserialize_all (d # ds) =
     (case deserialize_task d of
        Inl err \<Rightarrow> Inl err
      | Inr t \<Rightarrow> (case deserialize_all ds of Inl err \<Rightarrow> Inl err | Inr ts \<Rightarrow> Inr (t # ts)))"

definition list_tasks :: "task_files \<Rightarrow> string option \<Rightarrow> task_error + federated_task list" where
  "list_tasks fs target =
     (case deserialize_all
             (map snd (sort_key fst (filter (\<lambda>(n, _). py_endswith n ''.json'') fs))) of
        Inl err \<Rightarrow> Inl err
      | Inr ts \<Rightarrow>
          Inr (sort_key ft_created
            (case target of None \<Rightarrow> ts | Some p \<Rightarrow> filter (\<lambda>t. ft_target t = p) ts)))"

subsection \<open>Lemmas of the life cycle\<close>

lemma parse_state_value [simp]: "parse_state (state_value s) = Some s"
  by (cases s) (simp_all add: parse_state_def state_value_def)

lemma terminal_no_transitions: "is_terminal s \<Longrightarrow> allowed_transitions s = []"
  by (cases s) (auto simp: is_terminal_def)

lemma transition_Inr:
  "transition t new now = Inr t' \<longleftrightarrow>
     new \<in> set (allowed_transitions (ft_state t)) \<and> t' = t\<lparr>ft_state := new, ft_updated := now\<rparr>"
  using terminal_no_transitions [of "ft_state t"] by (auto simp: transition_def)

text \<open>One step of the life cycle, and the states a created task can reach.\<close>

inductive task_step :: "federated_task \<Rightarrow> federated_task \<Rightarrow> bool" where
  step: "transition t new now = Inr t' \<Longrightarrow> task_step t t'"

inductive_cases task_stepE: "task_step t t'"

lemma task_step_frozen:
  "task_step t t' \<Longrightarrow>
     t' = t\<lparr>ft_state := ft_state t', ft_updated := ft_updated t'\<rparr> \<and>
     ft_state t' \<in> set (allowed_transitions (ft_state t))"
  by (erule task_stepE) (auto simp: transition_Inr)

text \<open>A sequence of transitions, each of which must succeed.\<close>

fun transitions :: "federated_task \<Rightarrow> (task_state \<times> string) list \<Rightarrow> task_error + federated_task" where
  "transitions t [] = Inr t"
| "transitions t ((new, now) # rest) =
     (case transition t new now of Inl err \<Rightarrow> Inl err | Inr t' \<Rightarrow> transitions t' rest)"

lemma transitions_reach: "transitions t rs = Inr t' \<Longrightarrow> task_step\<^sup>*\<^sup>* t t'"
  by (induction t rs rule: transitions.induct)
     (auto split: sum.splits intro: converse_rtranclp_into_rtranclp task_step.intros)

lemma task_step_identity:
  "task_step\<^sup>*\<^sup>* t t' \<Longrightarrow>
     t' = t\<lparr>ft_state := ft_state t', ft_updated := ft_updated t'\<rparr>"
proof (induction rule: rtranclp_induct)
  case base
  then show ?case by simp
next
  case (step y z)
  from task_step_frozen [OF step(2)] step(3) show ?case
    by (cases y; cases z; cases t) simp
qed

lemma transitions_terminal_last:
  "transitions t rs = Inr t' \<Longrightarrow> i < length rs \<Longrightarrow> is_terminal (fst (rs ! i)) \<Longrightarrow> i = length rs - 1"
proof (induction t rs arbitrary: i rule: transitions.induct)
  case (2 t new now rest)
  from 2(2) obtain t1 where t1: "transition t new now = Inr t1" "transitions t1 rest = Inr t'"
    by (auto split: sum.splits)
  show ?case
  proof (cases i)
    case 0
    with 2 t1 have "is_terminal (ft_state t1)" by (simp add: transition_Inr)
    with t1(2) have "rest = []" by (cases rest) (auto simp: transition_def)
    with 0 show ?thesis by simp
  next
    case (Suc j)
    with 2 t1 have "j = length rest - 1" by simp
    with Suc 2(3) show ?thesis by auto
  qed
qed simp

lemma transitions_state:
  "transitions t rs = Inr t' \<Longrightarrow> ft_state t' = (if rs = [] then ft_state t else fst (last rs))"
  by (induction t rs rule: transitions.induct) (auto simp: transition_Inr split: sum.splits)

lemma transitions_before:
  "transitions t rs = Inr t' \<Longrightarrow> ft_state t' \<in> {Completed, Failed} \<Longrightarrow>
     ft_state t \<in> {Submitted, InputRequired} \<Longrightarrow> Working \<in> fst ` set rs"
proof (induction t rs rule: transitions.induct)
  case (2 t new now rest)
  from 2(2) obtain t1 where t1: "transition t new now = Inr t1" "transitions t1 rest = Inr t'"
    by (auto split: sum.splits)
  show ?case
  proof (cases "new = Working")
    case False
    with 2(4) t1(1) have "new = Canceled" by (auto simp: transition_Inr)
    with t1(1) have c: "ft_state t1 = Canceled" by (auto simp: transition_Inr)
    with t1(2) have "rest = []" by (cases rest) (auto simp: transition_def is_terminal_def)
    with t1(2) c 2(3) show ?thesis by simp
  qed simp
qed auto

text \<open>
  C19: the A2A life cycle. Along every sequence of transitions that succeeds from a newly
  created task: the task keeps its identity, target, prompt, artifacts and creation time;
  at most the last state is terminal; and a task that ends completed or failed was working
  before.
\<close>

theorem task_lifecycle:
  assumes "task_create origin target skill prompt fresh created = Inr t"
    and "transitions t rs = Inr t'"
  shows "t' = t\<lparr>ft_state := ft_state t', ft_updated := ft_updated t'\<rparr>
       \<and> filter is_terminal (map fst (butlast rs)) = []
       \<and> (if ft_state t' \<in> {Completed, Failed} then Working \<in> set (map fst (butlast rs))
          else ft_state t' = (if rs = [] then Submitted else fst (last rs)))"
proof (intro conjI)
  from assms(1) have sub: "ft_state t = Submitted"
    by (auto simp: task_create_def split: list.splits)
  show "t' = t\<lparr>ft_state := ft_state t', ft_updated := ft_updated t'\<rparr>"
    by (rule task_step_identity [OF transitions_reach [OF assms(2)]])
  show "filter is_terminal (map fst (butlast rs)) = []"
  proof (rule ccontr)
    assume "filter is_terminal (map fst (butlast rs)) \<noteq> []"
    then obtain s where "s \<in> set (map fst (butlast rs))" "is_terminal s"
      by (auto simp: filter_empty_conv)
    then obtain i where i: "i < length rs - 1" "is_terminal (fst (rs ! i))"
      by (auto simp: in_set_conv_nth nth_butlast)
    with transitions_terminal_last [OF assms(2), of i] show False by linarith
  qed
  have st: "ft_state t' = (if rs = [] then Submitted else fst (last rs))"
    using transitions_state [OF assms(2)] sub by simp
  show "if ft_state t' \<in> {Completed, Failed} then Working \<in> set (map fst (butlast rs))
          else ft_state t' = (if rs = [] then Submitted else fst (last rs))"
  proof (cases "ft_state t' \<in> {Completed, Failed}")
    case True
    with transitions_before [OF assms(2)] sub have w: "Working \<in> fst ` set rs" by simp
    with st True have "rs \<noteq> []" "fst (last rs) \<noteq> Working" by (auto split: if_splits)
    with w have "Working \<in> fst ` set (butlast rs)"
      by (cases rs rule: rev_cases) auto
    with True show ?thesis by simp
  qed (use st in simp)
qed

definition demo_task :: federated_task where
  "demo_task = \<lparr>ft_id = ''a1'', ft_origin = ''client'', ft_target = ''lib'', ft_skill = ''s'',
     ft_prompt = ''p'', ft_state = Submitted, ft_created = ''t0'', ft_updated = ''t0'',
     ft_artifacts = [], ft_error = ''''\<rparr>"

lemma demo_task_created: "task_create ''client'' ''lib'' ''s'' ''p'' ''a1'' ''t0'' = Inr demo_task"
  by (simp add: task_create_def demo_task_def py_blank_iff py_isspace_def py_strip_def py_lstrip_def)

lemma task_lifecycle_witness:
  "transitions demo_task [(Working, ''t1''), (Completed, ''t2'')]
     = Inr (demo_task\<lparr>ft_state := Completed, ft_updated := ''t2''\<rparr>) \<and>
   filter is_terminal (map fst (butlast [(Working, ''t1''), (Completed, ''t2'')])) = []"
proof -
  have r: "transitions demo_task [(Working, ''t1''), (Completed, ''t2'')]
     = Inr (demo_task\<lparr>ft_state := Completed, ft_updated := ''t2''\<rparr>)"
    by (simp add: transition_def is_terminal_def demo_task_def)
  from task_lifecycle [OF demo_task_created r] r show ?thesis by blast
qed

subsection \<open>Lemmas of the store\<close>

lemma deserialize_serialize: "deserialize_task (serialize_task t) = Inr t"
  by (cases t) (simp add: deserialize_task_def serialize_task_def dict_get_def str_field_def)

lemma task_path_inj [simp]: "task_path i = task_path j \<longleftrightarrow> i = j"
  by (simp add: task_path_def)

text \<open>A store written by the store itself: distinct names, each file a task under its id.\<close>

definition store_wf :: "task_files \<Rightarrow> bool" where
  "store_wf fs \<longleftrightarrow> wf_dict fs \<and>
     (\<forall>(n, d) \<in> set fs. \<exists>t. n = task_path (ft_id t) \<and> d = serialize_task t)"

definition store_look :: "task_files \<Rightarrow> string \<Rightarrow> federated_task option" where
  "store_look fs i = (case store_load fs i of Inl _ \<Rightarrow> None | Inr t \<Rightarrow> Some t)"

lemma store_wf_iff:
  "store_wf fs \<longleftrightarrow> wf_dict fs \<and>
     (\<forall>n d. map_of fs n = Some d \<longrightarrow> (\<exists>t. n = task_path (ft_id t) \<and> d = serialize_task t))"
  by (auto simp: store_wf_def wf_dict_get [symmetric])

lemma store_wf_Nil [simp]: "store_wf []"
  by (simp add: store_wf_def)

lemma store_wf_update:
  "store_wf fs \<Longrightarrow> store_wf (AList.update (task_path (ft_id t)) (serialize_task t) fs)"
  by (auto simp: store_wf_iff)

lemma store_wf_map_of:
  assumes "store_wf fs" shows "map_of fs (task_path i) = None \<longleftrightarrow> store_look fs i = None"
proof (cases "map_of fs (task_path i)")
  case (Some d)
  with assms have "(task_path i, d) \<in> set fs" by (simp add: store_wf_def wf_dict_get)
  with assms obtain t where "d = serialize_task t" by (fastforce simp: store_wf_def)
  with Some show ?thesis by (simp add: store_look_def store_load_def deserialize_serialize)
qed (simp add: store_look_def store_load_def)

lemma store_look_update:
  "store_look (AList.update (task_path i) (serialize_task t) fs) = (store_look fs)(i \<mapsto> t)"
  by (rule ext) (simp add: store_look_def store_load_def deserialize_serialize)

lemma store_look_id: "store_wf fs \<Longrightarrow> store_look fs i = Some t \<Longrightarrow> ft_id t = i"
  by (fastforce simp: store_look_def store_load_def store_wf_def deserialize_serialize
      split: option.splits sum.splits dest: map_of_SomeD)

definition store_try_save :: "task_files \<Rightarrow> string \<Rightarrow> federated_task \<Rightarrow> task_files \<times> bool" where
  "store_try_save fs i t =
     (case store_save fs t of (fs', r) \<Rightarrow> (fs', case r of Inl _ \<Rightarrow> False | Inr _ \<Rightarrow> True))"

interpretation tstore: keep_first store_wf "\<lambda>i t. ft_id t = i" store_look store_try_save
proof
  fix fs i and t :: federated_task assume "store_wf fs" and "ft_id t = i"
  note wf = store_wf_map_of [OF \<open>store_wf fs\<close>]
  show "store_wf (fst (store_try_save fs i t))"
    using \<open>store_wf fs\<close>
    by (auto simp: store_try_save_def store_save_def store_wf_update split: option.splits)
  show "snd (store_try_save fs i t) \<longleftrightarrow> store_look fs i = None"
    using wf [of i] \<open>ft_id t = i\<close>
    by (auto simp: store_try_save_def store_save_def split: option.splits)
  show "store_look (fst (store_try_save fs i t)) =
          (if store_look fs i = None then (store_look fs)(i \<mapsto> t) else store_look fs)"
    using wf [of i] \<open>ft_id t = i\<close>
    by (auto simp: store_try_save_def store_save_def store_look_update split: option.splits)
qed

text \<open>
  Keep-first store. Whatever tasks are saved one after the other, ids repeated or not,
  each id afterwards loads the task it held before or else the first one saved under it, and
  exactly the first of those saves succeeded.
\<close>

theorem store_save_keep_first:
  assumes "store_wf fs"
  shows "let kvs = map (\<lambda>t. (ft_id t, t)) ts; (fs', oks) = put_run store_try_save fs kvs
         in store_wf fs' \<and>
            store_look fs' i = (case store_look fs i of Some t \<Rightarrow> Some t | None \<Rightarrow> map_of kvs i) \<and>
            wins_for i kvs oks =
              (if store_look fs i = None \<and> i \<in> set (map ft_id ts) then 1 else 0)"
proof -
  let ?kvs = "map (\<lambda>t. (ft_id t, t)) ts :: (string \<times> federated_task) list"
  have v: "\<forall>(k, t) \<in> set ?kvs. ft_id t = k" by auto
  have k: "fst ` set ?kvs = set (map ft_id ts)" by (force simp: image_iff)
  from tstore.put_run_inv [OF assms v] tstore.put_run_look [OF assms v, of i]
    tstore.put_run_wins [OF assms v, of i]
  show ?thesis unfolding k by (auto simp: Let_def split_beta split: option.splits)
qed

lemma store_save_keep_first_witness:
  "store_look (fst (put_run store_try_save []
       [(''a1'', demo_task), (''a1'', demo_task\<lparr>ft_prompt := ''q''\<rparr>)])) ''a1'' = Some demo_task"
  using store_save_keep_first [OF store_wf_Nil, of "[demo_task, demo_task\<lparr>ft_prompt := ''q''\<rparr>]" "''a1''"]
  by (simp add: demo_task_def store_look_def store_load_def Let_def split_beta)

lemma store_update_look:
  assumes "store_wf fs"
  shows "store_update fs i new now =
    (case store_look fs i of
       None \<Rightarrow> (fs, Inl (TaskNotFound i))
     | Some t \<Rightarrow>
         (case transition t new now of
            Inl err \<Rightarrow> (fs, Inl err)
          | Inr t' \<Rightarrow> (AList.update (task_path i) (serialize_task t') fs, Inr t')))"
proof (cases "map_of fs (task_path i)")
  case None
  then show ?thesis by (simp add: store_update_def store_look_def store_load_def)
next
  case (Some d)
  with assms obtain t where "d = serialize_task t" by (auto simp: store_wf_iff)
  with Some show ?thesis
    by (simp add: store_update_def store_look_def store_load_def deserialize_serialize)
qed

text \<open>The operations that write a store, in any order.\<close>

datatype store_op = Save federated_task | Update string task_state string

definition store_exec :: "task_files \<Rightarrow> store_op \<Rightarrow> task_files" where
  "store_exec fs x =
     (case x of Save t \<Rightarrow> fst (store_save fs t) | Update i new now \<Rightarrow> fst (store_update fs i new now))"

lemma store_exec_inv:
  assumes "store_wf fs"
  shows "store_wf (store_exec fs x) \<and>
    (\<forall>i. store_look (store_exec fs x) i = store_look fs i
       \<or> (store_look fs i = None \<and> (\<exists>t. x = Save t))
       \<or> (\<exists>t t'. store_look fs i = Some t \<and> store_look (store_exec fs x) i = Some t' \<and> task_step t t'))"
proof (cases x)
  case (Save t)
  then show ?thesis
    using assms store_wf_map_of [OF assms, of "ft_id t"]
    by (auto simp: store_exec_def store_save_def store_wf_update store_look_update
        split: option.splits)
next
  case (Update i new now)
  show ?thesis
  proof (cases "store_look fs i")
    case None
    with Update assms show ?thesis by (simp add: store_exec_def store_update_look)
  next
    case (Some t)
    show ?thesis
    proof (cases "transition t new now")
      case (Inr t')
      with store_look_id [OF assms Some] have "ft_id t' = i" by (auto simp: transition_Inr)
      with store_wf_update [OF assms, of t'] Inr Some Update assms show ?thesis
        by (auto simp: store_exec_def store_update_look store_look_update intro: task_step.step)
    qed (use Update Some assms in \<open>simp add: store_exec_def store_update_look\<close>)
  qed
qed

lemma store_exec_terminal:
  "store_wf fs \<Longrightarrow> store_look fs i = Some t \<Longrightarrow> is_terminal (ft_state t) \<Longrightarrow>
     store_wf (foldl store_exec fs xs) \<and> store_look (foldl store_exec fs xs) i = Some t"
proof (induction xs arbitrary: fs)
  case (Cons x xs)
  note inv = store_exec_inv [OF Cons.prems(1), of x]
  have "\<not> task_step t t'" for t'
    using Cons.prems(3) by (auto elim!: task_stepE simp: transition_def)
  with inv Cons.prems(2) have "store_look (store_exec fs x) i = Some t"
    by (metis option.distinct(1) option.inject)
  with Cons.IH inv Cons.prems(3) show ?case by simp
qed simp

lemma store_exec_steps:
  "store_wf fs \<Longrightarrow> store_look fs i = Some t \<Longrightarrow>
     \<exists>t'. store_look (foldl store_exec fs xs) i = Some t' \<and> task_step\<^sup>*\<^sup>* t t'"
proof (induction xs arbitrary: fs t)
  case (Cons x xs)
  note inv = store_exec_inv [OF Cons.prems(1), of x]
  then obtain t1 where t1: "store_look (store_exec fs x) i = Some t1" "t1 = t \<or> task_step t t1"
    using Cons.prems(2) by (metis option.distinct(1) option.inject)
  with Cons.IH [OF conjunct1 [OF inv] t1(1)] show ?case
    by (auto intro: converse_rtranclp_into_rtranclp)
qed simp

text \<open>
  Stored tasks only move along the life cycle. Whatever is saved and updated afterwards,
  a stored task keeps its id, origin, target, skill and prompt, and a terminal one does not
  change at all.
\<close>

theorem store_terminal_final:
  assumes "store_wf fs" and "store_look fs i = Some t"
  shows "\<exists>t'. store_look (foldl store_exec fs xs) i = Some t' \<and>
           t' = t\<lparr>ft_state := ft_state t', ft_updated := ft_updated t'\<rparr> \<and>
           (if is_terminal (ft_state t) then t' = t else True)"
proof -
  from store_exec_steps [OF assms] obtain t' where
    t': "store_look (foldl store_exec fs xs) i = Some t'" "task_step\<^sup>*\<^sup>* t t'" by blast
  moreover have "if is_terminal (ft_state t) then t' = t else True"
    using store_exec_terminal [OF assms, of xs] t'(1) by simp
  ultimately show ?thesis using task_step_identity by blast
qed

lemma store_terminal_final_witness:
  "store_look (foldl store_exec (fst (store_save [] (demo_task\<lparr>ft_state := Failed\<rparr>)))
       [Update ''a1'' Working ''t9'', Save demo_task]) ''a1'' = Some (demo_task\<lparr>ft_state := Failed\<rparr>)"
proof -
  let ?t = "demo_task\<lparr>ft_state := Failed\<rparr>"
  let ?fs = "fst (store_save [] ?t)"
  have fs: "?fs = AList.update (task_path (ft_id ?t)) (serialize_task ?t) []"
    by (simp add: store_save_def)
  have "store_wf ?fs" unfolding fs by (rule store_wf_update) simp
  moreover have "store_look ?fs ''a1'' = Some ?t"
    unfolding fs store_look_update by (simp add: demo_task_def)
  ultimately show ?thesis
    using store_terminal_final [of ?fs "''a1''" ?t "[Update ''a1'' Working ''t9'', Save demo_task]"]
    by (auto simp: is_terminal_def)
qed

lemma deserialize_all_serialize: "deserialize_all (map serialize_task ts) = Inr ts"
  by (induction ts) (simp_all add: deserialize_serialize)

lemma store_wf_files:
  assumes "store_wf fs"
  obtains ts where "fs = map (\<lambda>t. (task_path (ft_id t), serialize_task t)) ts"
proof -
  from assms have "\<forall>p \<in> set fs. \<exists>t. p = (task_path (ft_id t), serialize_task t)"
    by (fastforce simp: store_wf_def)
  then have "\<exists>ts. fs = map (\<lambda>t. (task_path (ft_id t), serialize_task t)) ts"
  proof (induction fs)
    case (Cons p fs)
    then obtain t ts where "p = (task_path (ft_id t), serialize_task t)"
      "fs = map (\<lambda>t. (task_path (ft_id t), serialize_task t)) ts" by auto
    then show ?case by (intro exI [of _ "t # ts"]) simp
  qed simp
  with that show thesis by blast
qed

lemma task_path_json [simp]: "py_endswith (task_path i) ''.json''"
  by (simp add: py_endswith_def task_path_def)

text \<open>
  Listing is complete. On a store the store itself wrote, \<open>list_tasks\<close> never fails; it
  returns exactly the stored tasks for the target, each once, by creation time.
\<close>

theorem list_tasks_complete:
  assumes "store_wf fs"
  shows "\<exists>ts. list_tasks fs target = Inr ts \<and> sorted (map ft_created ts) \<and>
           distinct (map ft_id ts) \<and>
           (\<forall>t. t \<in> set ts \<longleftrightarrow> store_look fs (ft_id t) = Some t \<and>
                  (case target of None \<Rightarrow> True | Some p \<Rightarrow> ft_target t = p))"
proof -
  let ?f = "\<lambda>t. (task_path (ft_id t), serialize_task t)"
  let ?p = "\<lambda>t. case target of None \<Rightarrow> True | Some p \<Rightarrow> ft_target t = p"
  let ?k = "\<lambda>t. task_path (ft_id t)"
  from store_wf_files [OF assms] obtain us where us: "fs = map ?f us" by blast
  have dist: "distinct (map ft_id us)"
    using assms us by (simp add: store_wf_def wf_dict_def comp_def distinct_map inj_on_def)
  have sk: "sort_key fst (map ?f vs) = map ?f (sort_key ?k vs)" for vs
  proof -
    have "map ?f (insort_key ?k v vs) = insort_key fst (?f v) (map ?f vs)" for v vs
      by (induction vs) auto
    then show ?thesis by (induction vs) auto
  qed
  have fl: "filter (\<lambda>(n, _). py_endswith n ''.json'') fs = fs" by (simp add: us filter_id_conv)
  let ?ts = "sort_key ft_created (filter ?p (sort_key ?k us))"
  have "list_tasks fs target = Inr ?ts"
    unfolding list_tasks_def fl
    by (simp add: us sk comp_def deserialize_all_serialize split: option.split)
  moreover have "t \<in> set ?ts \<longleftrightarrow> store_look fs (ft_id t) = Some t \<and> ?p t" for t
  proof -
    have "t \<in> set us \<longleftrightarrow> store_look fs (ft_id t) = Some t"
    proof
      assume "t \<in> set us"
      then have "?f t \<in> set fs" by (simp add: us)
      with assms have "map_of fs (task_path (ft_id t)) = Some (serialize_task t)"
        by (simp add: store_wf_def wf_dict_get)
      then show "store_look fs (ft_id t) = Some t"
        by (simp add: store_look_def store_load_def deserialize_serialize)
    next
      assume "store_look fs (ft_id t) = Some t"
      then show "t \<in> set us"
        by (auto simp: us store_look_def store_load_def deserialize_serialize
            split: option.splits sum.splits dest!: map_of_SomeD)
    qed
    then show ?thesis by auto
  qed
  moreover have "distinct (map ft_id ?ts)"
    using dist by (auto simp: distinct_map intro: inj_on_subset)
  ultimately show ?thesis by (intro exI [of _ ?ts]) (simp add: sorted_sort_key)
qed

lemma list_tasks_complete_witness:
  "\<exists>ts. list_tasks (fst (store_save [] demo_task)) (Some ''lib'') = Inr ts \<and> demo_task \<in> set ts"
proof -
  let ?fs = "fst (store_save [] demo_task)"
  have fs: "?fs = AList.update (task_path (ft_id demo_task)) (serialize_task demo_task) []"
    by (simp add: store_save_def)
  have wf: "store_wf ?fs" unfolding fs by (rule store_wf_update) simp
  have "store_look ?fs (ft_id demo_task) = Some demo_task"
    unfolding fs store_look_update by simp
  moreover have "ft_target demo_task = ''lib''" by (simp add: demo_task_def)
  ultimately show ?thesis using list_tasks_complete [OF wf, of "Some ''lib''"] by auto
qed

end
