(* ===== verification/FederationBus.thy ===== *)
theory FederationBus
  imports TaskProtocol
begin

text \<open>
  Agent cards and their discovery (harness/federation/agent_card.py) and the governed
  delegation of tasks between projects (harness/federation/federation_bus.py). The file
  system is the dictionary from project names to the card file each publishes; the remote
  process is a function of its directory and its input.
\<close>

subsection \<open>Agent cards\<close>

record agent_skill =
  as_id :: string
  as_name :: string
  as_description :: string
  as_tags :: "string list"

record agent_card =
  ac_name :: string
  ac_description :: string
  ac_version :: string
  ac_root :: string
  ac_skills :: "agent_skill list"
  ac_capabilities :: "string list"
  ac_input_modes :: "string list"
  ac_output_modes :: "string list"

text \<open>What the bytes of a card file parse to.\<close>

datatype card_file = BadJson | Json json_object

datatype card_error =
    CardNotFound
  | CardBadJson
  | CardMissingFields "string list"
  | CardTypeError string

definition required_card_fields :: "string list" where
  "required_card_fields =
     [''name'', ''description'', ''version'', ''capabilities'', ''default_input_modes'',
      ''default_output_modes'']"

definition has_skill :: "agent_card \<Rightarrow> string \<Rightarrow> bool" where
  "has_skill c i = list_ex (\<lambda>s. as_id s = i) (ac_skills c)"

definition skill_to_dict :: "agent_skill \<Rightarrow> json" where
  "skill_to_dict s =
     PDict [(''id'', PStr (as_id s)), (''name'', PStr (as_name s)),
            (''description'', PStr (as_description s)), (''tags'', PList (map PStr (as_tags s)))]"

definition card_to_dict :: "agent_card \<Rightarrow> json_object" where
  "card_to_dict c =
     [(''name'', PStr (ac_name c)),
      (''description'', PStr (ac_description c)),
      (''version'', PStr (ac_version c)),
      (''project_root'', PStr (ac_root c)),
      (''skills'', PList (map skill_to_dict (ac_skills c))),
      (''capabilities'', PList (map PStr (ac_capabilities c))),
      (''default_input_modes'', PList (map PStr (ac_input_modes c))),
      (''default_output_modes'', PList (map PStr (ac_output_modes c)))]"

text \<open>\<open>str(s.get(key, ""))\<close>\<close>

definition str_get :: "json_object \<Rightarrow> string \<Rightarrow> string" where
  "str_get d k = py_str (dict_get d k (PStr ''''))"

text \<open>The skills of a card; entries that are not objects are skipped.\<close>

fun parse_skills :: "json list \<Rightarrow> card_error + agent_skill list" where
  "parse_skills [] = Inr []"
| "parse_skills (PDict s # vs) =
     (case py_strs (dict_get s ''tags'' (PList [])) of
        None \<Rightarrow> Inl (CardTypeError ''tags'')
      | Some tags \<Rightarrow>
          (case parse_skills vs of
             Inl err \<Rightarrow> Inl err
           | Inr ss \<Rightarrow>
               Inr (\<lparr>as_id = str_get s ''id'', as_name = str_get s ''name'',
                     as_description = str_get s ''description'', as_tags = tags\<rparr> # ss)))"
| "parse_skills (_ # vs) = parse_skills vs"

definition parse_card :: "string \<Rightarrow> json_object \<Rightarrow> card_error + agent_card" where
  "parse_card root d =
     (let missing = filter (\<lambda>f. map_of d f = None) required_card_fields;
          got = dict_get d ''skills'' PNone;
          raw = (if py_truthy got then got else PList [])
      in if missing \<noteq> [] then Inl (CardMissingFields missing)
         else case raw of
             PList vs \<Rightarrow>
               (case parse_skills vs of
                  Inl err \<Rightarrow> Inl err
                | Inr skills \<Rightarrow>
                    (case (py_strs (dict_get d ''capabilities'' (PList [])),
                           py_strs (dict_get d ''default_input_modes'' PNone),
                           py_strs (dict_get d ''default_output_modes'' PNone)) of
                       (Some caps, Some ins, Some outs) \<Rightarrow>
                         Inr \<lparr>ac_name = py_str (dict_get d ''name'' PNone),
                              ac_description = py_str (dict_get d ''description'' PNone),
                              ac_version = py_str (dict_get d ''version'' PNone),
                              ac_root = py_str (dict_get d ''project_root'' (PStr root)),
                              ac_skills = skills, ac_capabilities = caps,
                              ac_input_modes = ins, ac_output_modes = outs\<rparr>
                     | _ \<Rightarrow> Inl (CardTypeError ''modes'')))
           | _ \<Rightarrow> Inl (CardTypeError ''skills''))"

type_synonym card_files = "(string \<times> card_file) list"

definition load_agent_card :: "card_files \<Rightarrow> string \<Rightarrow> card_error + agent_card" where
  "load_agent_card fs root =
     (case map_of fs root of
        None \<Rightarrow> Inl CardNotFound
      | Some BadJson \<Rightarrow> Inl CardBadJson
      | Some (Json d) \<Rightarrow> parse_card root d)"

definition write_agent_card :: "card_files \<Rightarrow> agent_card \<Rightarrow> string \<Rightarrow> card_files" where
  "write_agent_card fs c root =
     AList.update root (Json (AList.update ''project_root'' (PStr root) (card_to_dict c))) fs"

text \<open>Only \<open>ValueError\<close> and \<open>OSError\<close> are caught: a \<open>TypeError\<close> ends the discovery.\<close>

fun discover_from :: "card_files \<Rightarrow> string list \<Rightarrow> card_error + agent_card list" where
  "discover_from fs [] = Inr []"
| "discover_from fs (p # ps) =
     (if map_of fs p = None then discover_from fs ps
      else case load_agent_card fs p of
          Inl (CardTypeError w) \<Rightarrow> Inl (CardTypeError w)
        | Inl _ \<Rightarrow> discover_from fs ps
        | Inr c \<Rightarrow>
            (case discover_from fs ps of Inl err \<Rightarrow> Inl err | Inr cs \<Rightarrow> Inr (c # cs)))"

definition discover_cards :: "card_files \<Rightarrow> string list option \<Rightarrow> card_error + agent_card list" where
  "discover_cards fs entries =
     (case entries of None \<Rightarrow> Inr [] | Some ps \<Rightarrow> discover_from fs (sort ps))"

lemma parse_skills_dict: "parse_skills (map skill_to_dict ss) = Inr ss"
  by (induction ss) (simp_all add: skill_to_dict_def dict_get_def str_get_def)

lemma has_skill_iff: "has_skill c i \<longleftrightarrow> i \<in> as_id ` set (ac_skills c)"
  by (auto simp: has_skill_def list_ex_iff)

lemma load_write_card:
  "load_agent_card (write_agent_card fs c root) p =
     (if p = root then Inr (c\<lparr>ac_root := root\<rparr>) else load_agent_card fs p)"
proof (cases "p = root")
  case True
  have "py_truthy (PList (map skill_to_dict (ac_skills c))) \<or> ac_skills c = []" by simp
  then have "parse_card root (AList.update ''project_root'' (PStr root) (card_to_dict c))
      = Inr (c\<lparr>ac_root := root\<rparr>)"
    by (elim disjE) (simp_all add: parse_card_def card_to_dict_def required_card_fields_def
        dict_get_def parse_skills_dict Let_def)
  with True show ?thesis by (simp add: load_agent_card_def write_agent_card_def)
next
  case False
  then show ?thesis by (simp add: load_agent_card_def write_agent_card_def)
qed

text \<open>
  A published card is read back. Writing a card for a project and loading it gives the
  same card with the project's root, and leaves every other project's card as it was.
\<close>

theorem agent_card_roundtrip:
  "load_agent_card (write_agent_card fs c root) p =
     (if p = root then Inr (c\<lparr>ac_root := root\<rparr>) else load_agent_card fs p)"
  by (rule load_write_card)

definition card_type_error :: "card_files \<Rightarrow> string \<Rightarrow> bool" where
  "card_type_error fs p =
     (case load_agent_card fs p of Inl (CardTypeError _) \<Rightarrow> True | _ \<Rightarrow> False)"

lemma discover_from_result:
  "case discover_from fs ps of
     Inl err \<Rightarrow> list_ex (card_type_error fs) ps \<and> (\<exists>w. err = CardTypeError w)
   | Inr cs \<Rightarrow> \<not> list_ex (card_type_error fs) ps \<and>
       map Inr cs = filter (\<lambda>r. \<not> isl r) (map (load_agent_card fs) ps)"
proof (induction ps)
  case (Cons p ps)
  show ?case
  proof (cases "load_agent_card fs p")
    case (Inl err)
    then have "card_type_error fs p = (case err of CardTypeError _ \<Rightarrow> True | _ \<Rightarrow> False)"
      "map_of fs p = None \<longrightarrow> err = CardNotFound"
      by (auto simp: card_type_error_def load_agent_card_def)
    with Inl Cons show ?thesis by (cases err) (auto split: sum.splits)
  next
    case (Inr c)
    then have "map_of fs p \<noteq> None" "\<not> card_type_error fs p"
      by (auto simp: load_agent_card_def card_type_error_def split: option.splits)
    with Inr Cons show ?thesis by (auto split: sum.splits)
  qed
qed simp

text \<open>
  Discovery returns the valid cards or dies. Over the projects found, \<open>discover_cards\<close>
  returns the valid cards in name order, skipping missing and malformed ones, unless some
  card has a field of the wrong shape: then the \<open>TypeError\<close> that \<open>_parse_card\<close> raises is
  not among the caught exceptions and no card at all is returned.
\<close>

theorem discover_cards_outcome:
  "case discover_cards fs (Some ps) of
     Inl err \<Rightarrow> list_ex (card_type_error fs) ps \<and> (\<exists>w. err = CardTypeError w)
   | Inr cs \<Rightarrow> \<not> list_ex (card_type_error fs) ps \<and>
       map Inr cs =
         filter (\<lambda>r. \<not> isl r) (map (load_agent_card fs) (sort ps))"
proof -
  have "list_ex (card_type_error fs) (sort ps) = list_ex (card_type_error fs) ps"
    by (simp add: list_ex_iff)
  with discover_from_result [of fs "sort ps"] show ?thesis
    by (simp add: discover_cards_def split: sum.splits)
qed

subsection \<open>The federation bus\<close>

record governance_policy =
  gp_allowlist :: "(string \<times> string list) list"
  gp_max_concurrent :: int

record audit_entry =
  ae_task :: string
  ae_origin :: string
  ae_target :: string
  ae_action :: string
  ae_detail :: string

record send_result =
  sr_task :: federated_task
  sr_stdout :: string
  sr_exit :: int

record federation_bus =
  fb_policy :: governance_policy
  fb_store :: task_files
  fb_timeout :: int
  fb_audit :: "audit_entry list"

datatype federation_error =
    NotSubmitted task_state
  | DelegationDenied string string
  | TargetMissing string
  | BadCard card_error
  | SkillUndeclared string string
  | TaskFailed task_error

text \<open>What \<open>subprocess.run\<close> does: exit code, stdout and stderr, or \<open>TimeoutExpired\<close>.\<close>

datatype remote_outcome = Exited int string string | TimedOut

definition can_delegate :: "governance_policy \<Rightarrow> string \<Rightarrow> string \<Rightarrow> bool" where
  "can_delegate p origin target \<longleftrightarrow> target \<in> set (dict_get (gp_allowlist p) origin [])"

definition mask_prompt :: "string \<Rightarrow> string" where
  "mask_prompt prompt =
     (let flat = py_join '' '' (py_split prompt)
      in if length flat \<le> 80 then flat else take 80 flat @ ''...'')"

definition fed_bus_new :: "governance_policy option \<Rightarrow> task_files \<Rightarrow> int \<Rightarrow> federation_bus" where
  "fed_bus_new policy files timeout =
     \<lparr>fb_policy = (case policy of Some p \<Rightarrow> p | None \<Rightarrow> \<lparr>gp_allowlist = [], gp_max_concurrent = 3\<rparr>),
      fb_store = files, fb_timeout = timeout, fb_audit = []\<rparr>"

definition audit_log ::
  "federation_bus \<Rightarrow> federated_task \<Rightarrow> string \<Rightarrow> string \<Rightarrow> federation_bus" where
  "audit_log b t action detail =
     b\<lparr>fb_audit := fb_audit b @ [\<lparr>ae_task = ft_id t, ae_origin = ft_origin t,
         ae_target = ft_target t, ae_action = action, ae_detail = detail\<rparr>]\<rparr>"

text \<open>The texts written to the audit trail and to a task's \<open>error\<close>; \<open>->\<close> stands for the arrow.\<close>

definition o_acute :: string where
  "o_acute = [char_of (243 :: nat)]"

definition quoted :: "string \<Rightarrow> string" where
  "quoted s = [char_of (39 :: nat)] @ s @ [char_of (39 :: nat)]"

definition deny_reason :: "federated_task \<Rightarrow> string" where
  "deny_reason t =
     ''PermissionError: delegaci'' @ o_acute @ ''n '' @ quoted (ft_origin t) @ ''->''
       @ quoted (ft_target t) @ '' denegada. WHY: la matriz de gobernanza es deny-by-default y ''
       @ ''no existe entrada expl'' @ [char_of (237 :: nat)] @ ''cita. WHERE: GovernancePolicy.can_delegate.''"

definition timeout_text :: "int \<Rightarrow> federated_task \<Rightarrow> string" where
  "timeout_text secs t =
     ''FederationBus: timeout de '' @ str_of_int secs @ ''s ejecutando la tarea '' @ ft_id t
       @ '' en '' @ quoted (ft_target t) @ ''. WHY: el agente destino excedi'' @ o_acute
       @ '' el presupuesto de tiempo. WHERE: FederationBus.send_task.''"

definition exit_text :: "int \<Rightarrow> string \<Rightarrow> federated_task \<Rightarrow> string" where
  "exit_text code stderr t =
     (let ls = py_splitlines (py_strip stderr);
          detail = (if ls \<noteq> [] then last ls else ''sin stderr'')
      in ''FederationBus: el agente destino termin'' @ o_acute @ '' con exit code ''
           @ str_of_int code @ ''. WHY: '' @ take 200 detail @ ''. WHERE: subprocess en ''
           @ quoted (ft_target t) @ ''.'')"

definition authorize ::
  "federation_bus \<Rightarrow> federated_task \<Rightarrow> federation_bus \<times> (federation_error + unit)" where
  "authorize b t =
     (if ft_state t \<noteq> Submitted then (b, Inl (NotSubmitted (ft_state t)))
      else if \<not> can_delegate (fb_policy b) (ft_origin t) (ft_target t)
        then (audit_log b t ''authorize-deny'' (deny_reason t),
              Inl (DelegationDenied (ft_origin t) (ft_target t)))
      else (b, Inr ()))"

definition validate_target ::
  "string list \<Rightarrow> card_files \<Rightarrow> federated_task \<Rightarrow> federation_error + unit" where
  "validate_target dirs cards t =
     (if ft_target t \<notin> set dirs then Inl (TargetMissing (ft_target t))
      else case load_agent_card cards (ft_target t) of
          Inl err \<Rightarrow> Inl (BadCard err)
        | Inr c \<Rightarrow>
            if has_skill c (ft_skill t) then Inr ()
            else Inl (SkillUndeclared (ft_target t) (ft_skill t)))"

definition finalize_timeout ::
  "federation_bus \<Rightarrow> federated_task \<Rightarrow> string \<Rightarrow> federation_bus \<times> (federation_error + send_result)" where
  "finalize_timeout b working now =
     (case transition working Failed now of
        Inl err \<Rightarrow> (b, Inl (TaskFailed err))
      | Inr t \<Rightarrow>
          (let failed = t\<lparr>ft_error := timeout_text (fb_timeout b) working\<rparr>
           in case store_save (fb_store b) failed of
                (fs, Inl err) \<Rightarrow> (b\<lparr>fb_store := fs\<rparr>, Inl (TaskFailed err))
              | (fs, Inr _) \<Rightarrow>
                  (audit_log (b\<lparr>fb_store := fs\<rparr>) failed ''fail'' ''timeout'',
                   Inr \<lparr>sr_task = failed, sr_stdout = '''', sr_exit = - 1\<rparr>)))"

definition finalize ::
  "federation_bus \<Rightarrow> federated_task \<Rightarrow> int \<Rightarrow> string \<Rightarrow> string \<Rightarrow> string
    \<Rightarrow> federation_bus \<times> (federation_error + send_result)" where
  "finalize b working code stdout stderr now =
     (case transition working (if code = 0 then Completed else Failed) now of
        Inl err \<Rightarrow> (b, Inl (TaskFailed err))
      | Inr t \<Rightarrow>
          (let t1 = (if code = 0 then t else t\<lparr>ft_error := exit_text code stderr t\<rparr>);
               final = t1\<lparr>ft_artifacts := [''exit_code='' @ str_of_int code]\<rparr>
           in case store_save (fb_store b) final of
                (fs, Inl err) \<Rightarrow> (b\<lparr>fb_store := fs\<rparr>, Inl (TaskFailed err))
              | (fs, Inr _) \<Rightarrow>
                  (audit_log (b\<lparr>fb_store := fs\<rparr>) final
                     (if code = 0 then ''complete'' else ''fail'') (''exit='' @ str_of_int code),
                   Inr \<lparr>sr_task = final, sr_stdout = take 200 stdout, sr_exit = code\<rparr>)))"

definition send_task ::
  "string list \<Rightarrow> card_files \<Rightarrow> (string \<Rightarrow> string \<Rightarrow> remote_outcome) \<Rightarrow> federation_bus
    \<Rightarrow> federated_task \<Rightarrow> string \<Rightarrow> string \<Rightarrow> federation_bus \<times> (federation_error + send_result)" where
  "send_task dirs cards remote b t now1 now2 =
     (case authorize b t of
        (b1, Inl err) \<Rightarrow> (b1, Inl err)
      | (b1, Inr _) \<Rightarrow>
          (case validate_target dirs cards t of
             Inl err \<Rightarrow> (b1, Inl err)
           | Inr _ \<Rightarrow>
               (case transition t Working now1 of
                  Inl err \<Rightarrow> (b1, Inl (TaskFailed err))
                | Inr w \<Rightarrow>
                    (let b2 = audit_log b1 w ''send''
                                (''skill='' @ ft_skill w @ '' prompt='' @ mask_prompt (ft_prompt w))
                     in case remote (ft_target w) (ft_prompt w) of
                          TimedOut \<Rightarrow> finalize_timeout b2 w now2
                        | Exited code out err \<Rightarrow> finalize b2 w code out err now2))))"

subsection \<open>Governance\<close>

definition permitted :: "string list \<Rightarrow> card_files \<Rightarrow> federation_bus \<Rightarrow> federated_task \<Rightarrow> bool" where
  "permitted dirs cards b t \<longleftrightarrow>
     ft_state t = Submitted \<and> can_delegate (fb_policy b) (ft_origin t) (ft_target t) \<and>
     \<not> isl (validate_target dirs cards t)"

definition working_of :: "federated_task \<Rightarrow> string \<Rightarrow> federated_task" where
  "working_of t now = t\<lparr>ft_state := Working, ft_updated := now\<rparr>"

text \<open>The bus after the \<open>send\<close> entry, which is where the remote process starts.\<close>

definition sent :: "federation_bus \<Rightarrow> federated_task \<Rightarrow> federation_bus" where
  "sent b w =
     audit_log b w ''send'' (''skill='' @ ft_skill w @ '' prompt='' @ mask_prompt (ft_prompt w))"

lemma send_task_permitted:
  assumes "permitted dirs cards b t"
  shows "send_task dirs cards remote b t now1 now2 =
    (let w = working_of t now1
     in case remote (ft_target t) (ft_prompt t) of
          TimedOut \<Rightarrow> finalize_timeout (sent b w) w now2
        | Exited code out err \<Rightarrow> finalize (sent b w) w code out err now2)"
proof -
  from assms obtain u where "validate_target dirs cards t = Inr u"
    by (cases "validate_target dirs cards t") (auto simp: permitted_def)
  with assms show ?thesis
    by (auto simp: send_task_def permitted_def authorize_def transition_def is_terminal_def
        working_of_def sent_def Let_def split: remote_outcome.splits)
qed

lemma send_task_refused:
  assumes "\<not> permitted dirs cards b t"
  shows "\<exists>err. send_task dirs cards remote b t now1 now2 = (fst (authorize b t), Inl err)"
proof (cases "isl (snd (authorize b t))")
  case True
  then show ?thesis by (cases "authorize b t") (auto simp: send_task_def split: sum.splits)
next
  case False
  with assms have "isl (validate_target dirs cards t)"
    by (auto simp: permitted_def authorize_def split: if_splits)
  with False show ?thesis
    by (cases "authorize b t") (auto simp: send_task_def split: sum.splits)
qed

text \<open>
  Deny by default. A task that is not new, whose pair of projects the allowlist does not
  name, or whose skill the target's card does not declare, is refused: the remote process
  is never started (the outcome does not depend on it), no task is stored, and the audit
  trail gains at most the one \<open>authorize-deny\<close> entry.
\<close>

theorem send_task_denied:
  assumes "\<not> permitted dirs cards b t"
  shows "send_task dirs cards remote b t now1 now2 = send_task dirs cards remote' b t now1' now2' \<and>
         isl (snd (send_task dirs cards remote b t now1 now2)) \<and>
         fb_store (fst (send_task dirs cards remote b t now1 now2)) = fb_store b \<and>
         map ae_action (fb_audit (fst (send_task dirs cards remote b t now1 now2))) =
           map ae_action (fb_audit b) @
           (if ft_state t = Submitted \<and> \<not> can_delegate (fb_policy b) (ft_origin t) (ft_target t)
            then [''authorize-deny''] else [])"
proof -
  have "send_task dirs cards remote b t now1 now2 = send_task dirs cards remote' b t now1' now2'"
  proof (cases "isl (snd (authorize b t))")
    case True
    then show ?thesis by (cases "authorize b t") (auto simp: send_task_def split: sum.splits)
  next
    case False
    with assms have "isl (validate_target dirs cards t)"
      by (auto simp: permitted_def authorize_def split: if_splits)
    then show ?thesis
      by (cases "authorize b t") (auto simp: send_task_def split: sum.splits)
  qed
  with send_task_refused [OF assms, of remote now1 now2] show ?thesis
    by (auto simp: authorize_def audit_log_def)
qed

definition demo_policy :: governance_policy where
  "demo_policy = \<lparr>gp_allowlist = [(''client'', [''lib''])], gp_max_concurrent = 3\<rparr>"

definition demo_bus :: "task_files \<Rightarrow> federation_bus" where
  "demo_bus files = fed_bus_new (Some demo_policy) files 600"

definition demo_cards :: card_files where
  "demo_cards = write_agent_card []
     \<lparr>ac_name = ''lib'', ac_description = '''', ac_version = ''1'', ac_root = '''',
      ac_skills = [\<lparr>as_id = ''s'', as_name = '''', as_description = '''', as_tags = []\<rparr>],
      ac_capabilities = [], ac_input_modes = [], ac_output_modes = []\<rparr> ''lib''"

lemma demo_valid: "\<not> isl (validate_target [''lib''] demo_cards demo_task)"
  by (simp add: validate_target_def demo_cards_def load_write_card has_skill_def demo_task_def)

lemma demo_permitted: "permitted [''lib''] demo_cards (demo_bus files) demo_task"
  using demo_valid
  by (simp add: permitted_def demo_task_def can_delegate_def demo_bus_def fed_bus_new_def
      demo_policy_def dict_get_def)

lemma send_task_denied_witness:
  "isl (snd (send_task [''lib''] demo_cards (\<lambda>_ _. TimedOut) (demo_bus [])
      (demo_task\<lparr>ft_origin := ''rogue''\<rparr>) ''t1'' ''t2''))"
proof -
  have "\<not> permitted [''lib''] demo_cards (demo_bus []) (demo_task\<lparr>ft_origin := ''rogue''\<rparr>)"
    by (simp add: permitted_def can_delegate_def demo_bus_def fed_bus_new_def demo_policy_def
        dict_get_def)
  from send_task_denied [OF this] show ?thesis by blast
qed

text \<open>The state in which a run ends, and the one task it stores.\<close>

lemma sent_fields [simp]:
  "fb_policy (sent b w) = fb_policy b" "fb_store (sent b w) = fb_store b"
  "fb_timeout (sent b w) = fb_timeout b"
  by (simp_all add: sent_def audit_log_def)

text \<open>
  A delegation ends in a terminal task. When a permitted task whose id the store does not
  hold is sent, the result is completed exactly when the remote process exited with 0 and
  failed otherwise (a timeout included); the stored task is the one returned, no other task
  of the store changes, and the trail gains a \<open>send\<close> and one closing entry.
\<close>

theorem send_task_terminal:
  assumes "permitted dirs cards b t" and "store_wf (fb_store b)"
    and "store_look (fb_store b) (ft_id t) = None"
  shows "\<exists>b' r. send_task dirs cards remote b t now1 now2 = (b', Inr r) \<and>
           is_terminal (ft_state (sr_task r)) \<and>
           ft_state (sr_task r) =
             (case remote (ft_target t) (ft_prompt t) of
                Exited code _ _ \<Rightarrow> if code = 0 then Completed else Failed | TimedOut \<Rightarrow> Failed) \<and>
           store_wf (fb_store b') \<and>
           store_look (fb_store b') = (store_look (fb_store b))(ft_id t \<mapsto> sr_task r) \<and>
           map ae_action (fb_audit b') = map ae_action (fb_audit b) @
             [''send'', if ft_state (sr_task r) = Completed then ''complete'' else ''fail'']"
proof -
  have free: "map_of (fb_store b) (task_path (ft_id t)) = None"
    using store_wf_map_of [OF assms(2)] assms(3) by simp
  have wf: "store_wf (AList.update (task_path (ft_id t)) (serialize_task u) (fb_store b))"
    if "ft_id u = ft_id t" for u using store_wf_update [OF assms(2), of u] that by simp
  show ?thesis
  proof (cases "remote (ft_target t) (ft_prompt t)")
    case (Exited code out err)
    then show ?thesis
      unfolding send_task_permitted [OF assms(1)]
      by (cases "code = 0")
        (simp_all add: finalize_def working_of_def transition_def is_terminal_def store_save_def
          free wf Let_def audit_log_def sent_def store_look_update)
  next
    case TimedOut
    then show ?thesis
      unfolding send_task_permitted [OF assms(1)]
      by (simp add: finalize_timeout_def working_of_def transition_def is_terminal_def
          store_save_def free wf Let_def audit_log_def sent_def store_look_update)
  qed
qed

lemma send_task_terminal_witness:
  "\<exists>b' r. send_task [''lib''] demo_cards (\<lambda>_ _. Exited 0 ''ok'' '''') (demo_bus []) demo_task
      ''t1'' ''t2'' = (b', Inr r) \<and> ft_state (sr_task r) = Completed"
proof -
  have "store_wf (fb_store (demo_bus []))" "store_look (fb_store (demo_bus [])) (ft_id demo_task) = None"
    by (simp_all add: demo_bus_def fed_bus_new_def store_look_def store_load_def)
  from send_task_terminal [OF demo_permitted this, of "\<lambda>_ _. Exited 0 ''ok'' ''''" "''t1''" "''t2''"]
  show ?thesis by auto
qed

text \<open>
  A task registered beforehand loses its result. \<open>send_task\<close> asks for a task registered
  in the bus's store, but the keep-first \<open>save\<close> that ends it rejects an id the store already
  holds: the remote process has run, the caller gets the \<open>ValueError\<close> of \<open>save\<close>, the store
  still shows the task as it was registered, and the trail shows a \<open>send\<close> with no outcome.
\<close>

theorem send_task_registered_lost:
  assumes "permitted dirs cards b t" and "store_look (fb_store b) (ft_id t) = Some t0"
  shows "\<exists>b'. send_task dirs cards remote b t now1 now2 = (b', Inl (TaskFailed (TaskExists (ft_id t)))) \<and>
           fb_store b' = fb_store b \<and>
           map ae_action (fb_audit b') = map ae_action (fb_audit b) @ [''send'']"
proof -
  from assms(2) obtain d where d: "map_of (fb_store b) (task_path (ft_id t)) = Some d"
    by (auto simp: store_look_def store_load_def split: option.splits)
  show ?thesis
  proof (cases "remote (ft_target t) (ft_prompt t)")
    case (Exited code out err)
    then show ?thesis
      unfolding send_task_permitted [OF assms(1)]
      by (cases "code = 0")
        (simp_all add: finalize_def working_of_def transition_def is_terminal_def store_save_def d
          Let_def sent_def audit_log_def)
  next
    case TimedOut
    then show ?thesis
      unfolding send_task_permitted [OF assms(1)]
      by (simp add: finalize_timeout_def working_of_def transition_def is_terminal_def
          store_save_def d Let_def sent_def audit_log_def)
  qed
qed

lemma send_task_registered_lost_witness:
  "\<exists>b'. send_task [''lib''] demo_cards (\<lambda>_ _. Exited 0 ''ok'' '''')
      (demo_bus (fst (store_save [] demo_task))) demo_task ''t1'' ''t2''
      = (b', Inl (TaskFailed (TaskExists ''a1'')))"
proof -
  have "fst (store_save [] demo_task)
      = AList.update (task_path (ft_id demo_task)) (serialize_task demo_task) []"
    by (simp add: store_save_def)
  then have "store_look (fb_store (demo_bus (fst (store_save [] demo_task)))) (ft_id demo_task)
      = Some demo_task"
    by (simp only: demo_bus_def fed_bus_new_def federation_bus.simps store_look_update fun_upd_same)
  moreover have "ft_id demo_task = ''a1''" by (simp add: demo_task_def)
  ultimately show ?thesis using send_task_registered_lost [OF demo_permitted] by metis
qed

text \<open>Every entry but a denial names a pair the allowlist holds.\<close>

definition audit_ok :: "federation_bus \<Rightarrow> bool" where
  "audit_ok b \<longleftrightarrow>
     (\<forall>a \<in> set (fb_audit b).
        ae_action a = ''authorize-deny'' \<or> can_delegate (fb_policy b) (ae_origin a) (ae_target a))"

lemma finalize_audit:
  assumes "audit_ok b" and "can_delegate (fb_policy b) (ft_origin w) (ft_target w)"
  shows "audit_ok (fst (finalize b w code out err now)) \<and>
         audit_ok (fst (finalize_timeout b w now)) \<and>
         fb_policy (fst (finalize b w code out err now)) = fb_policy b \<and>
         fb_policy (fst (finalize_timeout b w now)) = fb_policy b"
  using assms
  by (auto simp: finalize_def finalize_timeout_def audit_ok_def audit_log_def transition_def Let_def
      split: sum.splits prod.splits)

lemma send_task_audit:
  assumes "audit_ok b"
  shows "audit_ok (fst (send_task dirs cards remote b t now1 now2)) \<and>
         fb_policy (fst (send_task dirs cards remote b t now1 now2)) = fb_policy b"
proof (cases "permitted dirs cards b t")
  case True
  let ?w = "working_of t now1"
  have "audit_ok (sent b ?w)" "can_delegate (fb_policy (sent b ?w)) (ft_origin ?w) (ft_target ?w)"
    using assms True by (auto simp: audit_ok_def sent_def audit_log_def permitted_def working_of_def)
  from finalize_audit [OF this] show ?thesis
    unfolding send_task_permitted [OF True]
    by (simp add: Let_def split: remote_outcome.split)
next
  case False
  have "audit_ok (fst (authorize b t)) \<and> fb_policy (fst (authorize b t)) = fb_policy b"
    using assms by (auto simp: authorize_def audit_ok_def audit_log_def)
  with send_task_refused [OF False, of remote now1 now2] show ?thesis by auto
qed

text \<open>
  The trail shows only allowed delegations. However many tasks are sent, in any states of
  the projects, every audit entry that is not a denial names an origin and a target that the
  policy, which never changes, allows.
\<close>

theorem federation_audit_allowed:
  "let b = foldl (\<lambda>b (dirs, cards, remote, t, now1, now2).
             fst (send_task dirs cards remote b t now1 now2)) (fed_bus_new policy files timeout) sends
   in audit_ok b \<and> fb_policy b = fb_policy (fed_bus_new policy files timeout)"
proof -
  have "audit_ok (foldl f b sends) \<and> fb_policy (foldl f b sends) = fb_policy b"
    if "audit_ok b" and f: "f = (\<lambda>b (dirs, cards, remote, t, now1, now2).
             fst (send_task dirs cards remote b t now1 now2))" for b f
    using that(1) by (induction sends arbitrary: b) (auto simp: f send_task_audit split_beta)
  moreover have "audit_ok (fed_bus_new policy files timeout)"
    by (simp add: audit_ok_def fed_bus_new_def)
  ultimately show ?thesis by (simp add: Let_def)
qed

end
