(* ===== verification/DurableRun.thy ===== *)
theory DurableRun
  imports PyText Contracts
begin

text \<open>
  The durable journal of runs with its resume contract
  (harness/orchestrator/durable_run.py). A store is the journal an object holds in memory
  and the file it was loaded from; a crash is a new object opened on the same file.
\<close>

record step_record =
  sp_status :: string
  sp_result :: "json option"

record run_record =
  rr_steps :: "(string \<times> step_record) list"
  rr_events :: "(string \<times> json) list"

type_synonym journal = "(string \<times> run_record) list"

text \<open>The file: absent, unreadable or not JSON, JSON of another shape, or a journal.\<close>

datatype journal_file = NoFile | BadFile | BadShape | JournalFile journal

record durable_store =
  dr_mem :: journal
  dr_disk :: journal_file

record resume_plan =
  rp_run :: string
  rp_reexecute :: "string list"
  rp_indeterminate :: "string list"
  rp_completed :: "string list"

datatype durable_error =
    RunExists string
  | RunUnknown string
  | StepUnknown string string
  | NotRunning string string
  | StatusKeyError string
  | JournalCorrupt
  | JournalShape

definition pending :: string where "pending = ''pending''"
definition running :: string where "running = ''running''"
definition completed :: string where "completed = ''completed''"

definition load_journal :: "journal_file \<Rightarrow> durable_error + journal" where
  "load_journal f =
     (case f of NoFile \<Rightarrow> Inr [] | BadFile \<Rightarrow> Inl JournalCorrupt
      | BadShape \<Rightarrow> Inl JournalShape | JournalFile j \<Rightarrow> Inr j)"

definition open_store :: "journal_file \<Rightarrow> durable_error + durable_store" where
  "open_store f =
     (case load_journal f of
        Inl err \<Rightarrow> Inl err
      | Inr j \<Rightarrow> Inr \<lparr>dr_mem = j, dr_disk = f\<rparr>)"

text \<open>\<open>_persist\<close>: the file is replaced by the journal in memory.\<close>

definition persist :: "durable_store \<Rightarrow> durable_store" where
  "persist s = s\<lparr>dr_disk := JournalFile (dr_mem s)\<rparr>"

definition get_run :: "durable_store \<Rightarrow> string \<Rightarrow> durable_error + run_record" where
  "get_run s r = (case map_of (dr_mem s) r of None \<Rightarrow> Inl (RunUnknown r) | Some x \<Rightarrow> Inr x)"

definition get_step :: "durable_store \<Rightarrow> string \<Rightarrow> string \<Rightarrow> durable_error + step_record" where
  "get_step s r i =
     (case get_run s r of
        Inl err \<Rightarrow> Inl err
      | Inr x \<Rightarrow> (case map_of (rr_steps x) i of None \<Rightarrow> Inl (StepUnknown r i) | Some p \<Rightarrow> Inr p))"

text \<open>The records are mutated in place, inside the journal.\<close>

definition write_run :: "durable_store \<Rightarrow> string \<Rightarrow> run_record \<Rightarrow> durable_store" where
  "write_run s r x = s\<lparr>dr_mem := AList.update r x (dr_mem s)\<rparr>"

definition put_step :: "durable_store \<Rightarrow> string \<Rightarrow> string \<Rightarrow> step_record \<Rightarrow> durable_store" where
  "put_step s r i p =
     (case get_run s r of
        Inl _ \<Rightarrow> s
      | Inr x \<Rightarrow> write_run s r (x\<lparr>rr_steps := AList.update i p (rr_steps x)\<rparr>))"

definition start_run ::
  "durable_store \<Rightarrow> string \<Rightarrow> string list \<Rightarrow> durable_store \<times> (durable_error + unit)" where
  "start_run s r steps =
     (case map_of (dr_mem s) r of
        Some _ \<Rightarrow> (s, Inl (RunExists r))
      | None \<Rightarrow>
          (persist (write_run s r
             \<lparr>rr_steps = fold (\<lambda>i. AList.update i \<lparr>sp_status = pending, sp_result = None\<rparr>) steps [],
              rr_events = []\<rparr>), Inr ()))"

definition claim_step ::
  "durable_store \<Rightarrow> string \<Rightarrow> string \<Rightarrow> durable_store \<times> (durable_error + bool)" where
  "claim_step s r i =
     (case get_step s r i of
        Inl err \<Rightarrow> (s, Inl err)
      | Inr p \<Rightarrow>
          if sp_status p \<noteq> pending then (s, Inr False)
          else (persist (put_step s r i (p\<lparr>sp_status := running\<rparr>)), Inr True))"

definition complete_step ::
  "durable_store \<Rightarrow> string \<Rightarrow> string \<Rightarrow> json \<Rightarrow> durable_store \<times> (durable_error + unit)" where
  "complete_step s r i result =
     (case get_step s r i of
        Inl err \<Rightarrow> (s, Inl err)
      | Inr p \<Rightarrow>
          if sp_status p \<noteq> running then (s, Inl (NotRunning i (sp_status p)))
          else
            (persist (put_step s r i
               (let q = p\<lparr>sp_status := completed\<rparr>
                in if result \<noteq> PNone then q\<lparr>sp_result := Some result\<rparr> else q)), Inr ()))"

definition steps_with :: "string \<Rightarrow> (string \<times> step_record) list \<Rightarrow> string list" where
  "steps_with st steps = map fst (filter (\<lambda>(_, p). sp_status p = st) steps)"

definition resume :: "durable_store \<Rightarrow> string \<Rightarrow> durable_error + resume_plan" where
  "resume s r =
     (case get_run s r of
        Inl err \<Rightarrow> Inl err
      | Inr x \<Rightarrow>
          (case filter (\<lambda>(_, p). sp_status p \<notin> {pending, running, completed}) (rr_steps x) of
             (_, p) # _ \<Rightarrow> Inl (StatusKeyError (sp_status p))
           | [] \<Rightarrow>
               Inr \<lparr>rp_run = r, rp_reexecute = steps_with pending (rr_steps x),
                    rp_indeterminate = steps_with running (rr_steps x),
                    rp_completed = steps_with completed (rr_steps x)\<rparr>))"

definition consume_event ::
  "durable_store \<Rightarrow> string \<Rightarrow> string \<Rightarrow> json \<Rightarrow> durable_store \<times> (durable_error + bool)" where
  "consume_event s r ev answer =
     (case get_run s r of
        Inl err \<Rightarrow> (s, Inl err)
      | Inr x \<Rightarrow>
          if map_of (rr_events x) ev \<noteq> None then (s, Inr False)
          else (persist (write_run s r (x\<lparr>rr_events := AList.update ev answer (rr_events x)\<rparr>)), Inr True))"

definition event_answer :: "durable_store \<Rightarrow> string \<Rightarrow> string \<Rightarrow> durable_error + json" where
  "event_answer s r ev =
     (case get_run s r of Inl err \<Rightarrow> Inl err | Inr x \<Rightarrow> Inr (dict_get (rr_events x) ev PNone))"

subsection \<open>What the journal says of a step and of an event\<close>

definition status_of :: "durable_store \<Rightarrow> string \<Rightarrow> string \<Rightarrow> string option" where
  "status_of s r i =
     Option.bind (map_of (dr_mem s) r) (\<lambda>x. map_option sp_status (map_of (rr_steps x) i))"

definition answer_of :: "durable_store \<Rightarrow> string \<Rightarrow> string \<Rightarrow> json option" where
  "answer_of s r ev = Option.bind (map_of (dr_mem s) r) (\<lambda>x. map_of (rr_events x) ev)"

text \<open>
  A store whose memory is what reopening the file gives, whose statuses are the three of the
  enumeration, and whose dictionaries have distinct keys.
\<close>

definition run_wf :: "run_record \<Rightarrow> bool" where
  "run_wf x \<longleftrightarrow> wf_dict (rr_steps x) \<and> wf_dict (rr_events x) \<and>
     (\<forall>(i, p) \<in> set (rr_steps x). sp_status p \<in> {pending, running, completed})"

definition durable_wf :: "durable_store \<Rightarrow> bool" where
  "durable_wf s \<longleftrightarrow>
     open_store (dr_disk s) = Inr s \<and> wf_dict (dr_mem s) \<and> (\<forall>(r, x) \<in> set (dr_mem s). run_wf x)"

lemma status_distinct [simp]:
  "pending \<noteq> running" "running \<noteq> pending" "pending \<noteq> completed" "completed \<noteq> pending"
  "running \<noteq> completed" "completed \<noteq> running"
  by (simp_all add: pending_def running_def completed_def)

lemma run_wf_iff:
  "run_wf x \<longleftrightarrow> wf_dict (rr_steps x) \<and> wf_dict (rr_events x) \<and>
     (\<forall>i p. map_of (rr_steps x) i = Some p \<longrightarrow> sp_status p \<in> {pending, running, completed})"
  unfolding run_wf_def by (simp add: wf_dict_all cong: conj_cong)

lemma durable_wf_iff:
  "durable_wf s \<longleftrightarrow>
     open_store (dr_disk s) = Inr s \<and> wf_dict (dr_mem s) \<and>
     (\<forall>r x. map_of (dr_mem s) r = Some x \<longrightarrow> run_wf x)"
  unfolding durable_wf_def by (simp add: wf_dict_all cong: conj_cong)

lemma open_persist [simp]: "open_store (dr_disk (persist s)) = Inr (persist s)"
  by (simp add: open_store_def load_journal_def persist_def)

lemma persist_mem [simp]: "dr_mem (persist s) = dr_mem s"
  by (simp add: persist_def)

lemma write_run_mem [simp]: "dr_mem (write_run s r x) = AList.update r x (dr_mem s)"
  by (simp add: write_run_def)

lemma durable_wf_put:
  "durable_wf s \<Longrightarrow> run_wf x \<Longrightarrow> durable_wf (persist (write_run s r x))"
  by (auto simp: durable_wf_iff)

lemma status_put:
  "map_of (dr_mem s) r = Some x \<Longrightarrow>
     status_of (persist (write_run s r (x\<lparr>rr_steps := AList.update i p (rr_steps x)\<rparr>))) r' j =
       (if r' = r \<and> j = i then Some (sp_status p) else status_of s r' j)"
  by (auto simp: status_of_def)

lemma pending_steps:
  "map_of (fold (\<lambda>i. AList.update i \<lparr>sp_status = pending, sp_result = None\<rparr>) steps d) j =
     (if j \<in> set steps then Some \<lparr>sp_status = pending, sp_result = None\<rparr> else map_of d j)"
  by (induction steps arbitrary: d) auto

lemma pending_steps_wf:
  "wf_dict d \<Longrightarrow> wf_dict (fold (\<lambda>i. AList.update i \<lparr>sp_status = pending, sp_result = None\<rparr>) steps d)"
  by (induction steps arbitrary: d) auto

subsection \<open>Sequences of operations and crashes\<close>

datatype durable_op =
    Start string "string list"
  | Claim string string
  | Complete string string json
  | Consume string string json
  | Crash

text \<open>One operation, and whether it was a claim or an answer that won.\<close>

definition durable_exec :: "durable_store \<Rightarrow> durable_op \<Rightarrow> durable_store \<times> bool" where
  "durable_exec s x =
     (case x of
        Start r steps \<Rightarrow> (fst (start_run s r steps), False)
      | Claim r i \<Rightarrow> (let (s', res) = claim_step s r i in (s', res = Inr True))
      | Complete r i result \<Rightarrow> (fst (complete_step s r i result), False)
      | Consume r ev a \<Rightarrow> (let (s', res) = consume_event s r ev a in (s', res = Inr True))
      | Crash \<Rightarrow> (case open_store (dr_disk s) of Inl _ \<Rightarrow> (s, False) | Inr s' \<Rightarrow> (s', False)))"

fun durable_run :: "durable_store \<Rightarrow> durable_op list \<Rightarrow> durable_store \<times> durable_op list" where
  "durable_run s [] = (s, [])"
| "durable_run s (x # xs) =
     (let (s1, won) = durable_exec s x; (s2, ws) = durable_run s1 xs
      in (s2, if won then x # ws else ws))"

definition claimed :: "durable_store \<Rightarrow> string \<Rightarrow> string \<Rightarrow> nat" where
  "claimed s r i = (case status_of s r i of None \<Rightarrow> 0 | Some st \<Rightarrow> if st = pending then 0 else 1)"

lemma get_step_Inr:
  "get_step s r i = Inr p \<longleftrightarrow>
     (\<exists>x. map_of (dr_mem s) r = Some x \<and> map_of (rr_steps x) i = Some p)"
  by (auto simp: get_step_def get_run_def split: option.splits)

lemma put_step_eq:
  "map_of (dr_mem s) r = Some x \<Longrightarrow>
     put_step s r i p = write_run s r (x\<lparr>rr_steps := AList.update i p (rr_steps x)\<rparr>)"
  by (simp add: put_step_def get_run_def)

lemma run_wf_step:
  "run_wf x \<Longrightarrow> sp_status p \<in> {pending, running, completed} \<Longrightarrow>
     run_wf (x\<lparr>rr_steps := AList.update i p (rr_steps x)\<rparr>)"
  by (auto simp: run_wf_iff)

lemma claim_step_wins:
  assumes "durable_wf s" and "claim_step s r i = (s', res)"
  shows "durable_wf s' \<and>
    (\<forall>r' j. claimed s' r' j = claimed s r' j + (if res = Inr True \<and> r' = r \<and> j = i then 1 else 0))"
proof (cases "get_step s r i")
  case (Inl err)
  with assms show ?thesis by (auto simp: claim_step_def)
next
  case (Inr p)
  then obtain x where x: "map_of (dr_mem s) r = Some x" "map_of (rr_steps x) i = Some p"
    by (auto simp: get_step_Inr)
  show ?thesis
  proof (cases "sp_status p = pending")
    case False
    with Inr assms show ?thesis by (auto simp: claim_step_def)
  next
    case True
    let ?x = "x\<lparr>rr_steps := AList.update i (p\<lparr>sp_status := running\<rparr>) (rr_steps x)\<rparr>"
    from True Inr assms(2) x have s': "s' = persist (write_run s r ?x)" "res = Inr True"
      by (auto simp: claim_step_def put_step_eq)
    have "run_wf x" using assms(1) x(1) by (auto simp: durable_wf_iff)
    then have "run_wf ?x" by (rule run_wf_step) simp
    with assms(1) have "durable_wf s'" by (simp add: s' durable_wf_put)
    moreover have "claimed s' r' j = claimed s r' j + (if r' = r \<and> j = i then 1 else 0)" for r' j
      using x True by (simp add: s' claimed_def status_put) (simp add: status_of_def)
    ultimately show ?thesis using s'(2) by simp
  qed
qed

lemma complete_step_keeps:
  assumes "durable_wf s"
  shows "durable_wf (fst (complete_step s r i res)) \<and>
    claimed (fst (complete_step s r i res)) r' j = claimed s r' j"
proof (cases "get_step s r i")
  case (Inl err)
  with assms show ?thesis by (auto simp: complete_step_def)
next
  case (Inr p)
  then obtain x where x: "map_of (dr_mem s) r = Some x" "map_of (rr_steps x) i = Some p"
    by (auto simp: get_step_Inr)
  show ?thesis
  proof (cases "sp_status p = running")
    case False
    with Inr assms show ?thesis by (auto simp: complete_step_def)
  next
    case True
    let ?p = "let q = p\<lparr>sp_status := completed\<rparr>
              in if res \<noteq> PNone then q\<lparr>sp_result := Some res\<rparr> else q"
    have c: "sp_status ?p = completed" by (simp add: Let_def)
    let ?x = "x\<lparr>rr_steps := AList.update i ?p (rr_steps x)\<rparr>"
    have s': "fst (complete_step s r i res) = persist (write_run s r ?x)"
      using True Inr x by (simp add: complete_step_def put_step_eq)
    have "run_wf x" using assms x(1) by (auto simp: durable_wf_iff)
    then have "run_wf ?x" by (rule run_wf_step) (simp add: c)
    moreover have "claimed (persist (write_run s r ?x)) r' j = claimed s r' j"
      unfolding claimed_def status_put [OF x(1)] c
      using x True by (auto simp: status_of_def)
    ultimately show ?thesis using assms by (simp add: s' durable_wf_put)
  qed
qed

lemma start_run_keeps:
  assumes "durable_wf s"
  shows "durable_wf (fst (start_run s r steps)) \<and>
    claimed (fst (start_run s r steps)) r' j = claimed s r' j"
proof (cases "map_of (dr_mem s) r")
  case None
  then show ?thesis using assms
    by (auto simp: start_run_def claimed_def status_of_def run_wf_iff pending_steps pending_steps_wf
        intro!: durable_wf_put)
next
  case (Some x)
  with assms show ?thesis by (simp add: start_run_def)
qed

lemma consume_event_keeps:
  assumes "durable_wf s"
  shows "durable_wf (fst (consume_event s r ev a)) \<and>
    status_of (fst (consume_event s r ev a)) r' j = status_of s r' j"
proof (cases "map_of (dr_mem s) r")
  case None
  with assms show ?thesis by (simp add: consume_event_def get_run_def)
next
  case (Some x)
  with assms have "run_wf x" by (auto simp: durable_wf_iff)
  with Some assms show ?thesis
    by (auto simp: consume_event_def get_run_def status_of_def run_wf_iff intro!: durable_wf_put)
qed

text \<open>Memory and file agree after every operation, so a crash changes nothing.\<close>

lemma durable_exec_crash: "durable_wf s \<Longrightarrow> durable_exec s Crash = (s, False)"
  by (simp add: durable_exec_def durable_wf_iff)

lemma durable_exec_claimed:
  assumes "durable_wf s" and "durable_exec s x = (s', won)"
  shows "durable_wf s' \<and>
    claimed s' r i = claimed s r i + (if won \<and> x = Claim r i then 1 else 0)"
proof (cases x)
  case (Start r' steps)
  with assms start_run_keeps [OF assms(1), of r' steps] show ?thesis
    by (auto simp: durable_exec_def)
next
  case (Claim r' j)
  obtain s1 res where c: "claim_step s r' j = (s1, res)" by fastforce
  with Claim assms(2) have "s' = s1" "won = (res = Inr True)" by (auto simp: durable_exec_def)
  with claim_step_wins [OF assms(1) c] Claim show ?thesis by auto
next
  case (Complete r' j res)
  with assms complete_step_keeps [OF assms(1), of r' j res] show ?thesis
    by (auto simp: durable_exec_def)
next
  case (Consume r' ev a)
  obtain s1 res where c: "consume_event s r' ev a = (s1, res)" by fastforce
  with Consume assms(2) have "s' = s1" by (auto simp: durable_exec_def)
  with consume_event_keeps [OF assms(1), of r' ev a] c Consume show ?thesis
    by (simp add: claimed_def)
next
  case Crash
  with assms durable_exec_crash [OF assms(1)] show ?thesis by auto
qed

lemma durable_run_claimed:
  "durable_wf s \<Longrightarrow> durable_run s xs = (s', ws) \<Longrightarrow>
     durable_wf s' \<and> claimed s' r i = claimed s r i + count_list ws (Claim r i)"
proof (induction xs arbitrary: s ws)
  case (Cons x xs)
  obtain s1 won where x: "durable_exec s x = (s1, won)" by fastforce
  obtain s2 ws2 where r: "durable_run s1 xs = (s2, ws2)" by fastforce
  from Cons.prems x r have "s' = s2" "ws = (if won then x # ws2 else ws2)" by auto
  with Cons.IH [of s1 ws2] durable_exec_claimed [OF Cons.prems(1) x, of r i] r show ?case by auto
qed simp

subsection \<open>The resume contract\<close>

lemma steps_with_iff:
  "wf_dict d \<Longrightarrow> i \<in> set (steps_with st d) \<longleftrightarrow> (\<exists>p. map_of d i = Some p \<and> sp_status p = st)"
  by (force simp: steps_with_def wf_dict_get)

lemma steps_with_distinct: "wf_dict d \<Longrightarrow> distinct (steps_with st d)"
  by (simp add: steps_with_def wf_dict_def distinct_map_filter)

lemma resume_wf:
  assumes "durable_wf s"
  shows "resume s r =
    (case map_of (dr_mem s) r of
       None \<Rightarrow> Inl (RunUnknown r)
     | Some x \<Rightarrow> Inr \<lparr>rp_run = r, rp_reexecute = steps_with pending (rr_steps x),
                   rp_indeterminate = steps_with running (rr_steps x),
                   rp_completed = steps_with completed (rr_steps x)\<rparr>)"
proof (cases "map_of (dr_mem s) r")
  case None
  then show ?thesis by (simp add: resume_def get_run_def)
next
  case (Some x)
  with assms have "run_wf x" by (auto simp: durable_wf_iff)
  then have "filter (\<lambda>(_, p). sp_status p \<notin> {pending, running, completed}) (rr_steps x) = []"
    by (auto simp: run_wf_def filter_empty_conv)
  with Some show ?thesis by (simp add: resume_def get_run_def)
qed

lemma resume_steps:
  assumes "durable_wf s" and "resume s r = Inr p"
  shows "i \<in> set (rp_reexecute p) \<longleftrightarrow> status_of s r i = Some pending"
    and "i \<in> set (rp_indeterminate p) \<longleftrightarrow> status_of s r i = Some running"
    and "i \<in> set (rp_completed p) \<longleftrightarrow> status_of s r i = Some completed"
    and "distinct (rp_reexecute p @ rp_indeterminate p @ rp_completed p)"
proof -
  from assms obtain x where x: "map_of (dr_mem s) r = Some x"
    and p: "p = \<lparr>rp_run = r, rp_reexecute = steps_with pending (rr_steps x),
                 rp_indeterminate = steps_with running (rr_steps x),
                 rp_completed = steps_with completed (rr_steps x)\<rparr>"
    by (auto simp: resume_wf split: option.splits)
  with assms(1) have wf: "wf_dict (rr_steps x)" by (auto simp: durable_wf_iff run_wf_iff)
  then show "i \<in> set (rp_reexecute p) \<longleftrightarrow> status_of s r i = Some pending"
    and "i \<in> set (rp_indeterminate p) \<longleftrightarrow> status_of s r i = Some running"
    and "i \<in> set (rp_completed p) \<longleftrightarrow> status_of s r i = Some completed"
    by (auto simp: p status_of_def x steps_with_iff)
  show "distinct (rp_reexecute p @ rp_indeterminate p @ rp_completed p)"
    using wf by (auto simp: p steps_with_distinct steps_with_iff)
qed

lemma durable_status:
  assumes "durable_wf s"
  shows "status_of s r i \<in> {None, Some pending, Some running, Some completed}"
proof (cases "map_of (dr_mem s) r")
  case (Some x)
  with assms have "run_wf x" by (simp add: durable_wf_iff)
  with Some show ?thesis
    by (cases "map_of (rr_steps x) i") (auto simp: run_wf_iff status_of_def)
qed (simp add: status_of_def)

lemma open_NoFile: "open_store NoFile = Inr s \<Longrightarrow> durable_wf s \<and> claimed s r i = 0"
  by (auto simp: open_store_def load_journal_def durable_wf_def claimed_def status_of_def)

text \<open>
  C3: effects fire at most once across crashes. Start from no journal and run any sequence of
  starts, claims, completions, answers and crashes: every step's claim is won at most once;
  the plan of a run is a partition of its steps in which a step is to be re-executed exactly
  when its claim was never won; and the file alone gives back the whole state.
\<close>

theorem durable_resume_contract:
  assumes "open_store NoFile = Inr s0" and "durable_run s0 xs = (s, ws)" and "resume s r = Inr p"
  shows "count_list ws (Claim r i) \<le> 1 \<and>
         (status_of s r i \<noteq> None) = (i \<in> set (rp_reexecute p @ rp_indeterminate p @ rp_completed p)) \<and>
         (count_list ws (Claim r i) = 1) = (i \<in> set (rp_indeterminate p @ rp_completed p)) \<and>
         distinct (rp_reexecute p @ rp_indeterminate p @ rp_completed p) \<and>
         open_store (dr_disk s) = Inr s"
proof -
  from durable_run_claimed [OF conjunct1 [OF open_NoFile [OF assms(1)]] assms(2)]
    open_NoFile [OF assms(1)]
  have wf: "durable_wf s" and n: "claimed s r i = count_list ws (Claim r i)"
    by (simp_all add: durable_run_claimed)
  have st: "status_of s r i \<in> {None, Some pending, Some running, Some completed}"
    using durable_status [OF wf] .
  have "open_store (dr_disk s) = Inr s" using wf by (simp add: durable_wf_def)
  with resume_steps(4) [OF wf assms(3)] st show ?thesis
    unfolding n [symmetric] set_append Un_iff resume_steps(1-3) [OF wf assms(3)]
    by (elim insertE emptyE) (simp_all add: claimed_def)
qed

definition demo_store :: durable_store where
  "demo_store = fst (start_run \<lparr>dr_mem = [], dr_disk = NoFile\<rparr> ''r'' [''a'', ''b''])"

lemma durable_resume_contract_witness:
  "\<exists>s ws p. durable_run \<lparr>dr_mem = [], dr_disk = NoFile\<rparr>
       [Start ''r'' [''a'', ''b''], Claim ''r'' ''a'', Crash, Claim ''r'' ''a''] = (s, ws) \<and>
     resume s ''r'' = Inr p \<and> rp_reexecute p = [''b''] \<and> count_list ws (Claim ''r'' ''a'') \<le> 1"
proof -
  have o: "open_store NoFile = Inr \<lparr>dr_mem = [], dr_disk = NoFile\<rparr>"
    by (simp add: open_store_def load_journal_def)
  obtain s ws where r: "durable_run \<lparr>dr_mem = [], dr_disk = NoFile\<rparr>
       [Start ''r'' [''a'', ''b''], Claim ''r'' ''a'', Crash, Claim ''r'' ''a''] = (s, ws)"
    by fastforce
  then have s: "dr_mem s = [(''r'', \<lparr>rr_steps = [(''a'', \<lparr>sp_status = running, sp_result = None\<rparr>),
      (''b'', \<lparr>sp_status = pending, sp_result = None\<rparr>)], rr_events = []\<rparr>)]"
    by (auto simp: durable_exec_def start_run_def claim_step_def get_step_def get_run_def put_step_def
        write_run_def persist_def open_store_def load_journal_def Let_def)
  then obtain p where p: "resume s ''r'' = Inr p" "rp_reexecute p = [''b'']"
    by (simp add: resume_def get_run_def steps_with_def)
  from durable_resume_contract [OF o r p(1), of "''a''"] r p show ?thesis by blast
qed

subsection \<open>Answers are consumed once\<close>

definition try_answer :: "string \<Rightarrow> durable_store \<Rightarrow> string \<Rightarrow> json \<Rightarrow> durable_store \<times> bool" where
  "try_answer r s ev a = (case consume_event s r ev a of (s', res) \<Rightarrow> (s', res = Inr True))"

lemma answer_put:
  "answer_of (persist (write_run s r x)) r' =
     (if r' = r then map_of (rr_events x) else answer_of s r')"
  by (auto simp: answer_of_def)

interpretation answers: keep_first
  "\<lambda>s. durable_wf s \<and> map_of (dr_mem s) r \<noteq> None" "\<lambda>_ _. True" "\<lambda>s. answer_of s r" "try_answer r"
  for r
proof
  fix s k v assume inv: "durable_wf s \<and> map_of (dr_mem s) r \<noteq> None"
  then obtain x where x: "map_of (dr_mem s) r = Some x" by auto
  have t: "try_answer r s k v =
      (if map_of (rr_events x) k = None
       then (persist (write_run s r (x\<lparr>rr_events := AList.update k v (rr_events x)\<rparr>)), True)
       else (s, False))"
    using x by (simp add: try_answer_def consume_event_def get_run_def)
  have look: "answer_of s r = map_of (rr_events x)" using x by (simp add: answer_of_def fun_eq_iff)
  have "run_wf x" using inv x by (auto simp: durable_wf_iff)
  then have "run_wf (x\<lparr>rr_events := AList.update k v (rr_events x)\<rparr>)" by (simp add: run_wf_iff)
  with inv show "durable_wf (fst (try_answer r s k v)) \<and>
      map_of (dr_mem (fst (try_answer r s k v))) r \<noteq> None"
    by (simp add: t durable_wf_put)
  show "snd (try_answer r s k v) = (answer_of s r k = None)"
    by (simp add: t look)
  show "answer_of (fst (try_answer r s k v)) r =
      (if answer_of s r k = None then (answer_of s r)(k \<mapsto> v) else answer_of s r)"
    by (simp add: t look answer_put)
qed

text \<open>
  The first answer stands. Among any answers given to the events of a run, in any order,
  the first for an event is the only one accepted, and it is what \<open>event_answer\<close> returns
  afterwards, also from a store reopened on the file.
\<close>

theorem durable_answers_once:
  assumes "durable_wf s" and "map_of (dr_mem s) r \<noteq> None"
    and "put_run (try_answer r) s answers = (s1, accepted)"
    and "open_store (dr_disk s1) = Inr s2"
  shows "event_answer s2 r ev =
           Inr (case answer_of s r ev of
                  Some a \<Rightarrow> a
                | None \<Rightarrow> (case map_of answers ev of Some a \<Rightarrow> a | None \<Rightarrow> PNone)) \<and>
         wins_for ev answers accepted =
           (if answer_of s r ev = None \<and> ev \<in> set (map fst answers) then 1 else 0)"
proof -
  have inv: "durable_wf s \<and> map_of (dr_mem s) r \<noteq> None" using assms(1,2) ..
  have v: "\<forall>(k, v) \<in> set answers. True" by auto
  from answers.put_run_inv [OF inv v] assms(3)
  have s1: "durable_wf s1" "map_of (dr_mem s1) r \<noteq> None" by simp_all
  with assms(4) have "s2 = s1" by (simp add: durable_wf_def)
  moreover from s1(2) have "event_answer s1 r ev =
      Inr (case answer_of s1 r ev of Some a \<Rightarrow> a | None \<Rightarrow> PNone)"
    by (auto simp: event_answer_def get_run_def answer_of_def dict_get_def)
  ultimately show ?thesis
    using answers.put_run_look [OF inv v, of ev] answers.put_run_wins [OF inv v, of ev] assms(3)
    by (auto split: option.splits)
qed

lemma demo_store_wf: "durable_wf demo_store \<and> map_of (dr_mem demo_store) ''r'' \<noteq> None"
proof -
  have "durable_wf \<lparr>dr_mem = [], dr_disk = NoFile\<rparr>"
    by (simp add: durable_wf_def open_store_def load_journal_def)
  from start_run_keeps [OF this] show ?thesis
    by (simp add: demo_store_def) (simp add: start_run_def)
qed

lemma durable_answers_once_witness:
  "\<exists>s1 ok s2. put_run (try_answer ''r'') demo_store [(''ev'', PStr ''yes''), (''ev'', PStr ''no'')]
      = (s1, ok) \<and> open_store (dr_disk s1) = Inr s2 \<and>
     event_answer s2 ''r'' ''ev'' = Inr (PStr ''yes'')"
proof -
  let ?as = "[(''ev'', PStr ''yes''), (''ev'', PStr ''no'')] :: (string \<times> json) list"
  obtain s1 ok where r: "put_run (try_answer ''r'') demo_store ?as = (s1, ok)" by fastforce
  from answers.put_run_inv [OF demo_store_wf, of ?as] r have "durable_wf s1" by simp
  then have o: "open_store (dr_disk s1) = Inr s1" by (simp add: durable_wf_def)
  have "answer_of demo_store ''r'' ''ev'' = None"
    by (simp add: demo_store_def start_run_def answer_of_def)
  with durable_answers_once [OF conjunct1 [OF demo_store_wf] conjunct2 [OF demo_store_wf] r o, of "''ev''"]
    r o show ?thesis by auto
qed

subsection \<open>Two processes on one journal\<close>

text \<open>The object a second process holds: opened earlier, on a file that has changed since.\<close>

definition stale :: "durable_store \<Rightarrow> journal_file \<Rightarrow> durable_store" where
  "stale s f = s\<lparr>dr_disk := f\<rparr>"

text \<open>
  The gate lives in memory. Let two processes open the same journal and one of them claim
  a pending step and complete it. The second, whose memory was loaded before, wins the
  claim of the same step as well, and its journal replaces the other's on the file: the
  completed step is recorded as running again.
\<close>

theorem durable_claim_not_cross_process:
  assumes "durable_wf s" and "status_of s r i = Some pending"
    and "claim_step s r i = (s1, res1)" and "complete_step s1 r i a = (s2, res2)"
    and "claim_step (stale s (dr_disk s2)) r i = (s3, res3)"
  shows "res1 = Inr True \<and> res2 = Inr () \<and> res3 = Inr True \<and>
         status_of s2 r i = Some completed \<and>
         (case open_store (dr_disk s3) of
            Inl _ \<Rightarrow> False | Inr s4 \<Rightarrow> status_of s4 r i = Some running)"
proof -
  from assms(2) obtain x p where x: "map_of (dr_mem s) r = Some x"
    "map_of (rr_steps x) i = Some p" "sp_status p = pending"
    by (auto simp: status_of_def bind_eq_Some_conv)
  let ?x = "x\<lparr>rr_steps := AList.update i (p\<lparr>sp_status := running\<rparr>) (rr_steps x)\<rparr>"
  from x assms(3) have s1: "s1 = persist (write_run s r ?x)" "res1 = Inr True"
    by (auto simp: claim_step_def get_step_def get_run_def put_step_def)
  from x assms(4) s1 have s2: "res2 = Inr ()" "status_of s2 r i = Some completed"
    by (auto simp: complete_step_def get_step_def get_run_def put_step_def status_of_def Let_def)
  from x assms(5) have s3: "s3 = persist (write_run (stale s (dr_disk s2)) r ?x)" "res3 = Inr True"
    by (auto simp: claim_step_def get_step_def get_run_def put_step_def stale_def)
  then show ?thesis
    using s1 s2 x by (simp add: status_of_def stale_def)
qed

lemma durable_claim_not_cross_process_witness:
  "snd (claim_step (stale demo_store
      (dr_disk (fst (complete_step (fst (claim_step demo_store ''r'' ''a'')) ''r'' ''a'' PNone))))
    ''r'' ''a'') = Inr True"
proof -
  have p: "status_of demo_store ''r'' ''a'' = Some pending"
    by (simp add: demo_store_def start_run_def status_of_def)
  from durable_claim_not_cross_process [OF conjunct1 [OF demo_store_wf] p
      surjective_pairing surjective_pairing surjective_pairing]
  show ?thesis by blast
qed

end
