(* ===== verification/WriteAheadLog.thy ===== *)
theory WriteAheadLog
  imports PyText
begin

text \<open>
  The write-ahead log with retries, cancellation and recovery
  (harness/orchestrator/write_ahead_log.py). Entries are objects the caller of \<open>begin\<close> holds
  on to, so the log has a heap: an entry is an address, and the log's dictionary maps
  operation ids to addresses. The file holds one document per entry.
\<close>

datatype wal_status = WPending | WCommitted | WFailed | WCancelled

definition wal_status_value :: "wal_status \<Rightarrow> string" where
  "wal_status_value s =
     (case s of WPending \<Rightarrow> ''pending'' | WCommitted \<Rightarrow> ''committed'' | WFailed \<Rightarrow> ''failed''
      | WCancelled \<Rightarrow> ''cancelled'')"

definition parse_wal_status :: "string \<Rightarrow> wal_status option" where
  "parse_wal_status v =
     map_of (map (\<lambda>s. (wal_status_value s, s)) [WPending, WCommitted, WFailed, WCancelled]) v"

record wal_entry =
  we_id :: string
  we_type :: string
  we_payload :: json_object
  we_status :: wal_status
  we_created :: string
  we_retries :: int
  we_max :: int
  we_error :: "string option"

text \<open>An entry's document; a field of it may be absent in a file written by hand.\<close>

record wal_doc =
  wd_id :: "string option"
  wd_type :: "string option"
  wd_payload :: "json_object option"
  wd_status :: "string option"
  wd_created :: "string option"
  wd_retries :: "int option"
  wd_max :: "int option"
  wd_error :: "string option option"

record wal =
  wl_heap :: "wal_entry list"
  wl_entries :: "(string \<times> nat) list"
  wl_dir :: bool
  wl_disk :: "(string \<times> wal_doc) list option"

datatype wal_error = RetriesExhausted string int "string option"

definition mk_entry :: "string \<Rightarrow> string \<Rightarrow> json_object \<Rightarrow> int \<Rightarrow> string \<Rightarrow> wal_entry" where
  "mk_entry i ty payload mx now =
     \<lparr>we_id = i, we_type = ty, we_payload = payload, we_status = WPending, we_created = now,
      we_retries = 0, we_max = mx, we_error = None\<rparr>"

definition entry_doc :: "wal_entry \<Rightarrow> wal_doc" where
  "entry_doc e =
     \<lparr>wd_id = Some (we_id e), wd_type = Some (we_type e), wd_payload = Some (we_payload e),
      wd_status = Some (wal_status_value (we_status e)), wd_created = Some (we_created e),
      wd_retries = Some (we_retries e), wd_max = Some (we_max e), wd_error = Some (we_error e)\<rparr>"

definition wal_new :: "bool \<Rightarrow> (string \<times> wal_doc) list option \<Rightarrow> wal" where
  "wal_new dir disk = \<lparr>wl_heap = [], wl_entries = [], wl_dir = dir, wl_disk = disk\<rparr>"

definition wal_objects :: "wal \<Rightarrow> wal_entry list" where
  "wal_objects w = map (\<lambda>(_, a). wl_heap w ! a) (wl_entries w)"

text \<open>\<open>_persist\<close>: a dictionary by the entries' own ids.\<close>

definition wal_persist :: "wal \<Rightarrow> wal" where
  "wal_persist w =
     (if wl_dir w
      then w\<lparr>wl_disk := Some (fold (\<lambda>e. AList.update (we_id e) (entry_doc e)) (wal_objects w) [])\<rparr>
      else w)"

definition wal_begin ::
  "wal \<Rightarrow> string \<Rightarrow> json_object \<Rightarrow> int \<Rightarrow> string \<Rightarrow> string \<Rightarrow> wal \<times> nat" where
  "wal_begin w ty payload mx fresh now =
     (let a = length (wl_heap w)
      in (wal_persist (w\<lparr>wl_heap := wl_heap w @ [mk_entry fresh ty payload mx now],
                         wl_entries := AList.update fresh a (wl_entries w)\<rparr>), a))"

definition set_entry :: "wal \<Rightarrow> nat \<Rightarrow> wal_entry \<Rightarrow> wal" where
  "set_entry w a e = w\<lparr>wl_heap := (wl_heap w)[a := e]\<rparr>"

text \<open>
  The loop of \<open>execute\<close>. The call to the client's function changes the client's state \<open>'w\<close>
  and gives its result or the text of its exception; the prev component lists the sleeps, in
  tenths of a second.
\<close>

fun wal_loop ::
  "('w \<Rightarrow> 'w \<times> (string + 'r)) \<Rightarrow> nat \<Rightarrow> nat \<Rightarrow> nat \<Rightarrow> string option \<Rightarrow> wal \<Rightarrow> 'w
    \<Rightarrow> wal \<times> 'w \<times> (wal_error + 'r) \<times> nat list" where
  "wal_loop fn a 0 attempt prev w x =
     (w, x, Inl (RetriesExhausted (we_id (wl_heap w ! a)) (we_max (wl_heap w ! a) + 1) prev), [])"
| "wal_loop fn a (Suc left) attempt prev w x =
     (case fn x of
        (x', Inr result) \<Rightarrow>
          (wal_persist (set_entry w a ((wl_heap w ! a)\<lparr>we_status := WCommitted\<rparr>)), x', Inr result, [])
      | (x', Inl exc) \<Rightarrow>
          (let e = (wl_heap w ! a)\<lparr>we_retries := int attempt + 1, we_error := Some exc,
                                   we_status := WFailed\<rparr>;
               w' = wal_persist (set_entry w a e);
               (w2, x2, r, sleeps) = wal_loop fn a left (Suc attempt) (Some exc) w' x'
           in (w2, x2, r, if int attempt < we_max e then 2 ^ attempt # sleeps else sleeps)))"

definition wal_execute ::
  "('w \<Rightarrow> 'w \<times> (string + 'r)) \<Rightarrow> nat \<Rightarrow> wal \<Rightarrow> 'w \<Rightarrow> wal \<times> 'w \<times> (wal_error + 'r) \<times> nat list" where
  "wal_execute fn a w x = wal_loop fn a (nat (we_max (wl_heap w ! a) + 1)) 0 None w x"

definition wal_cancel :: "wal \<Rightarrow> string \<Rightarrow> wal \<times> bool" where
  "wal_cancel w i =
     (case map_of (wl_entries w) i of
        None \<Rightarrow> (w, False)
      | Some a \<Rightarrow>
          if we_status (wl_heap w ! a) = WPending
          then (wal_persist (set_entry w a ((wl_heap w ! a)\<lparr>we_status := WCancelled\<rparr>)), True)
          else (w, False))"

definition wal_recover_pending :: "wal \<Rightarrow> wal_entry list" where
  "wal_recover_pending w = filter (\<lambda>e. we_status e = WPending) (wal_objects w)"

definition wal_get_status :: "wal \<Rightarrow> string \<Rightarrow> wal_status option" where
  "wal_get_status w i =
     map_option (\<lambda>a. we_status (wl_heap w ! a)) (map_of (wl_entries w) i)"

text \<open>One document read back; \<open>None\<close> is a \<open>KeyError\<close> or the \<open>ValueError\<close> of the enumeration.\<close>

definition doc_entry :: "wal_doc \<Rightarrow> string \<Rightarrow> wal_entry option" where
  "doc_entry d now =
     (case (wd_id d, wd_type d, wd_payload d, Option.bind (wd_status d) parse_wal_status) of
        (Some i, Some ty, Some payload, Some st) \<Rightarrow>
          Some ((mk_entry i ty payload (case wd_max d of Some m \<Rightarrow> m | None \<Rightarrow> 3) now)
            \<lparr>we_status := st, we_retries := (case wd_retries d of Some n \<Rightarrow> n | None \<Rightarrow> 0),
             we_error := (case wd_error d of Some err \<Rightarrow> err | None \<Rightarrow> None)\<rparr>)
      | _ \<Rightarrow> None)"

fun wal_load_docs :: "wal \<Rightarrow> (string \<times> wal_doc) list \<Rightarrow> string \<Rightarrow> wal \<times> bool" where
  "wal_load_docs w [] now = (w, True)"
| "wal_load_docs w ((i, d) # ds) now =
     (case doc_entry d now of
        None \<Rightarrow> (w, False)
      | Some e \<Rightarrow>
          wal_load_docs (w\<lparr>wl_heap := wl_heap w @ [e],
                           wl_entries := AList.update i (length (wl_heap w)) (wl_entries w)\<rparr>) ds now)"

definition wal_load :: "wal \<Rightarrow> string \<Rightarrow> wal \<times> nat" where
  "wal_load w now =
     (if \<not> wl_dir w then (w, 0)
      else case wl_disk w of
          None \<Rightarrow> (w, 0)
        | Some ds \<Rightarrow>
            (case wal_load_docs w ds now of (w', ok) \<Rightarrow> (w', if ok then length ds else 0)))"

subsection \<open>Invariant\<close>

text \<open>Every id is registered under an address that holds an entry of that id, none twice.\<close>

definition wal_wf :: "wal \<Rightarrow> bool" where
  "wal_wf w \<longleftrightarrow> wf_dict (wl_entries w) \<and> distinct (map snd (wl_entries w)) \<and>
     (\<forall>(i, a) \<in> set (wl_entries w). a < length (wl_heap w) \<and> we_id (wl_heap w ! a) = i)"

lemma parse_wal_status_value [simp]: "parse_wal_status (wal_status_value s) = Some s"
  by (cases s) (simp_all add: parse_wal_status_def wal_status_value_def)

lemma wal_persist_simps [simp]:
  "wl_heap (wal_persist w) = wl_heap w" "wl_entries (wal_persist w) = wl_entries w"
  "wl_dir (wal_persist w) = wl_dir w" "wal_wf (wal_persist w) = wal_wf w"
  "wal_objects (wal_persist w) = wal_objects w"
  by (simp_all add: wal_persist_def wal_wf_def wal_objects_def)

lemma set_entry_simps [simp]:
  "wl_entries (set_entry w a e) = wl_entries w" "wl_dir (set_entry w a e) = wl_dir w"
  "wl_heap (set_entry w a e) = (wl_heap w)[a := e]"
  by (simp_all add: set_entry_def)

lemma wal_wf_set_entry:
  "wal_wf w \<Longrightarrow> we_id e = we_id (wl_heap w ! a) \<Longrightarrow> wal_wf (set_entry w a e)"
  unfolding wal_wf_def by (auto simp: nth_update_same [of we_id])

subsection \<open>Retries\<close>

text \<open>The index of the first call that succeeds, among the first \<open>n\<close> calls.\<close>

fun first_ok :: "('w \<Rightarrow> 'w \<times> (string + 'r)) \<Rightarrow> nat \<Rightarrow> 'w \<Rightarrow> nat option" where
  "first_ok fn 0 x = None"
| "first_ok fn (Suc n) x =
     (if isl (snd (fn x)) then map_option Suc (first_ok fn n (fst (fn x))) else Some 0)"

definition calls :: "('w \<Rightarrow> 'w \<times> (string + 'r)) \<Rightarrow> nat \<Rightarrow> 'w \<Rightarrow> 'w" where
  "calls fn n = (fst \<circ> fn) ^^ n"

lemma first_ok_less: "first_ok fn n x = Some k \<Longrightarrow> k < n"
  by (induction n arbitrary: x k) (auto split: if_splits)

lemma calls_simps [simp]: "calls fn 0 x = x" "calls fn (Suc n) x = calls fn n (fst (fn x))"
  by (simp_all add: calls_def funpow_swap1)

lemma wal_loop_outcome:
  assumes "a < length (wl_heap w)" and "we_max (wl_heap w ! a) + 1 = int (attempt + left)"
    and "wal_loop fn a left attempt prev w x = (w', x', r, sleeps)"
  shows "case first_ok fn left x of
      Some k \<Rightarrow> x' = calls fn (Suc k) x \<and> r = Inr (projr (snd (fn (calls fn k x)))) \<and>
        we_status (wl_heap w' ! a) = WCommitted \<and>
        we_retries (wl_heap w' ! a) = (if k = 0 then we_retries (wl_heap w ! a) else int (attempt + k)) \<and>
        sleeps = map (\<lambda>i. 2 ^ i) [attempt..<attempt + k]
    | None \<Rightarrow> x' = calls fn left x \<and> isl r \<and>
        (0 < left \<longrightarrow> we_status (wl_heap w' ! a) = WFailed \<and>
           we_retries (wl_heap w' ! a) = int (attempt + left)) \<and>
        sleeps = map (\<lambda>i. 2 ^ i) [attempt..<attempt + left - 1]"
  using assms
proof (induction left arbitrary: attempt prev w x w' x' r sleeps)
  case (Suc left)
  show ?case
  proof (cases "snd (fn x)")
    case (Inr v)
    then have "fn x = (fst (fn x), Inr v)" by (metis prod.collapse)
    with Suc.prems show ?thesis by (auto split: prod.splits sum.splits)
  next
    case (Inl exc)
    then have f: "fn x = (fst (fn x), Inl exc)" by (metis prod.collapse)
    let ?e = "(wl_heap w ! a)\<lparr>we_retries := int attempt + 1, we_error := Some exc, we_status := WFailed\<rparr>"
    let ?w = "wal_persist (set_entry w a ?e)"
    obtain w2 x2 r2 sl where l: "wal_loop fn a left (Suc attempt) (Some exc) ?w (fst (fn x))
        = (w2, x2, r2, sl)" by (metis prod_cases4)
    with Suc.prems(3) f Inl have eq: "w' = w2" "x' = x2" "r = r2"
      "sleeps = (if int attempt < we_max ?e then 2 ^ attempt # sl else sl)"
      by (auto simp: Let_def split: prod.splits)
    have mx: "we_max (wl_heap w ! a) = int (attempt + left)" using Suc.prems(2) by simp
    have "we_max (wl_heap ?w ! a) + 1 = int (Suc attempt + left)" "a < length (wl_heap ?w)"
      using Suc.prems by simp_all
    note IH = Suc.IH [OF this(2,1) l]
    show ?thesis
    proof (cases "first_ok fn left (fst (fn x))")
      case (Some k)
      then have k: "k < left" by (rule first_ok_less)
      with IH Some Inl eq mx Suc.prems(1) show ?thesis
        by (auto simp: upt_rec [of attempt])
    next
      case None
      with IH Inl eq mx l Suc.prems(1) show ?thesis
        by (cases left) (auto simp: upt_rec [of attempt])
    qed
  qed
qed simp

text \<open>
  Bounded retries. \<open>execute\<close> calls the function until it succeeds, at most
  \<open>max_retries + 1\<close> times, sleeping 0.1, 0.2, 0.4 seconds and so on between two calls and
  never after the last: on the first success, at call \<open>k + 1\<close>, it returns that result and the
  entry is committed with \<open>k\<close> retries counted; if every call fails the entry is failed, with
  all of them counted, and \<open>execute\<close> raises.
\<close>

theorem wal_execute_retries:
  assumes "a < length (wl_heap w)" and "we_max (wl_heap w ! a) = int m"
    and "wal_execute fn a w x = (w', x', r, sleeps)"
  shows "case first_ok fn (Suc m) x of
      Some k \<Rightarrow> x' = calls fn (Suc k) x \<and> r = Inr (projr (snd (fn (calls fn k x)))) \<and>
        we_status (wl_heap w' ! a) = WCommitted \<and>
        we_retries (wl_heap w' ! a) = (if k = 0 then we_retries (wl_heap w ! a) else int k) \<and>
        sleeps = map (\<lambda>i. 2 ^ i) [0..<k]
    | None \<Rightarrow> x' = calls fn (Suc m) x \<and> isl r \<and>
        we_status (wl_heap w' ! a) = WFailed \<and> we_retries (wl_heap w' ! a) = int m + 1 \<and>
        sleeps = map (\<lambda>i. 2 ^ i) [0..<m]"
proof -
  have n: "nat (we_max (wl_heap w ! a) + 1) = Suc m" using assms(2) by simp
  have "wal_loop fn a (Suc m) 0 None w x = (w', x', r, sleeps)"
    using assms(3) by (simp add: wal_execute_def n del: wal_loop.simps)
  from wal_loop_outcome [OF assms(1) _ this] assms(2) show ?thesis
    by (simp del: first_ok.simps wal_loop.simps calls_simps(2) upt_Suc split: option.splits)
qed

text \<open>A client that follows a script of outcomes.\<close>

definition scripted :: "(string + unit) list \<Rightarrow> (string + unit) list \<times> (string + unit)" where
  "scripted xs = (case xs of [] \<Rightarrow> ([], Inl ''StopIteration'') | y # ys \<Rightarrow> (ys, y))"

definition demo_wal :: wal where
  "demo_wal = fst (wal_begin (wal_new True None) ''llm_call'' [] 3 ''op1'' ''t0'')"

lemma demo_wal_entry:
  "wl_heap demo_wal = [mk_entry ''op1'' ''llm_call'' [] 3 ''t0'']" "wl_entries demo_wal = [(''op1'', 0)]"
  "wl_dir demo_wal"
  by (simp_all add: demo_wal_def wal_begin_def wal_new_def Let_def)

lemma wal_execute_retries_witness:
  "\<exists>w' x' r. wal_execute scripted 0 demo_wal [Inl ''boom'', Inl ''boom'', Inr (), Inl ''boom'']
      = (w', x', r, [1, 2]) \<and> x' = [Inl ''boom''] \<and> we_status (wl_heap w' ! 0) = WCommitted"
proof -
  let ?x = "[Inl ''boom'', Inl ''boom'', Inr (), Inl ''boom''] :: (string + unit) list"
  obtain w' x' r sl where e: "wal_execute scripted 0 demo_wal ?x = (w', x', r, sl)"
    by (metis prod_cases4)
  from wal_execute_retries [OF _ _ e, of 3] e show ?thesis
    by (simp add: demo_wal_entry mk_entry_def scripted_def numeral_3_eq_3)
qed

subsection \<open>Recovery after a crash\<close>

lemma wal_objects_ids:
  "wal_wf w \<Longrightarrow> map we_id (wal_objects w) = map fst (wl_entries w)"
  by (auto simp: wal_wf_def wal_objects_def)

definition wal_synced :: "wal \<Rightarrow> bool" where
  "wal_synced w \<longleftrightarrow> wal_wf w \<and> wl_dir w \<and>
     (if wl_entries w = [] then wl_heap w = [] \<and> wl_disk w = None
      else wl_disk w = Some (map (\<lambda>e. (we_id e, entry_doc e)) (wal_objects w)))"

lemma wal_persist_synced:
  assumes "wal_wf w" and "wl_dir w" and "wl_entries w \<noteq> []"
  shows "wal_synced (wal_persist w)"
proof -
  have "distinct (map we_id (wal_objects w))"
    using assms(1) by (simp add: wal_objects_ids) (simp add: wal_wf_def wf_dict_def)
  with assms show ?thesis
    by (auto simp: wal_synced_def) (simp add: wal_persist_def fold_update_fresh)
qed

text \<open>An update of an object outside the dictionary may leave the file without a write.\<close>

lemma wal_persist_set_synced:
  assumes "wal_synced w" and "we_id e = we_id (wl_heap w ! a)" and "wl_entries w \<noteq> []"
  shows "wal_synced (wal_persist (set_entry w a e))"
  using assms by (intro wal_persist_synced) (auto simp: wal_synced_def intro: wal_wf_set_entry)

lemma wal_loop_synced:
  "wal_synced w \<Longrightarrow> wl_entries w \<noteq> [] \<Longrightarrow>
     wal_synced (fst (wal_loop fn a left attempt prev w x)) \<and>
     wl_entries (fst (wal_loop fn a left attempt prev w x)) \<noteq> []"
proof (induction left arbitrary: attempt prev w x)
  case (Suc left)
  show ?case
  proof (cases "snd (fn x)")
    case (Inr v)
    then have "fn x = (fst (fn x), Inr v)" by (metis prod.collapse)
    with Suc.prems show ?thesis by (auto simp: wal_persist_set_synced split: prod.splits)
  next
    case (Inl exc)
    then have f: "fn x = (fst (fn x), Inl exc)" by (metis prod.collapse)
    let ?e = "(wl_heap w ! a)\<lparr>we_retries := int attempt + 1, we_error := Some exc, we_status := WFailed\<rparr>"
    have "wal_synced (wal_persist (set_entry w a ?e))"
      using Suc.prems by (simp add: wal_persist_set_synced)
    from Suc.IH [OF this, of "Suc attempt" "Some exc" "fst (fn x)"] f Suc.prems(2) show ?thesis
      by (auto simp: Let_def split: prod.splits)
  qed
qed simp

lemma wal_begin_synced:
  assumes "wal_synced w"
  shows "wal_synced (fst (wal_begin w ty payload mx fresh now))"
proof -
  let ?n = "length (wl_heap w)"
  let ?w = "w\<lparr>wl_heap := wl_heap w @ [mk_entry fresh ty payload mx now],
              wl_entries := AList.update fresh ?n (wl_entries w)\<rparr>"
  have wf: "wal_wf w" using assms by (simp add: wal_synced_def)
  then have b: "\<forall>(i, a) \<in> set (wl_entries w). a < ?n \<and> we_id (wl_heap w ! a) = i"
    by (simp add: wal_wf_def)
  have "distinct (map snd (wl_entries w))" using wf by (simp add: wal_wf_def)
  moreover have "?n \<notin> snd ` set (wl_entries w)" using b by fastforce
  ultimately have "distinct (map snd (wl_entries ?w))" by (simp add: distinct_snd_update)
  moreover have "a < length (wl_heap ?w) \<and> we_id (wl_heap ?w ! a) = i"
    if "(i, a) \<in> set (wl_entries ?w)" for i a
    using that b wf by (auto simp: nth_append mk_entry_def wal_wf_def set_dict_update)
  ultimately have "wal_wf ?w" using wf by (auto simp: wal_wf_def)
  moreover have "wl_entries ?w \<noteq> []" by (cases "wl_entries w") auto
  moreover have "wl_dir ?w" using assms by (simp add: wal_synced_def)
  ultimately have "wal_synced (wal_persist ?w)" by (intro wal_persist_synced)
  then show ?thesis by (simp add: wal_begin_def Let_def)
qed

text \<open>The operations a client performs on a log with a directory.\<close>

datatype wal_op =
    Begin string json_object int string string
  | Execute nat "(string + unit) list"
  | Cancel string

definition wal_exec :: "wal \<Rightarrow> wal_op \<Rightarrow> wal" where
  "wal_exec w x =
     (case x of
        Begin ty payload mx fresh now \<Rightarrow> fst (wal_begin w ty payload mx fresh now)
      | Execute a outcomes \<Rightarrow>
          if a < length (wl_heap w) then fst (wal_execute scripted a w outcomes) else w
      | Cancel i \<Rightarrow> fst (wal_cancel w i))"

lemma wal_exec_synced:
  assumes "wal_synced w" shows "wal_synced (wal_exec w x)"
proof (cases x)
  case (Begin ty payload mx fresh now)
  with assms show ?thesis by (simp add: wal_exec_def wal_begin_synced)
next
  case (Execute a outcomes)
  show ?thesis
  proof (cases "a < length (wl_heap w)")
    case True
    with assms have "wl_entries w \<noteq> []" by (auto simp: wal_synced_def)
    with assms Execute True show ?thesis by (simp add: wal_exec_def wal_execute_def wal_loop_synced)
  qed (use assms Execute in \<open>simp add: wal_exec_def\<close>)
next
  case (Cancel i)
  show ?thesis
  proof (cases "map_of (wl_entries w) i")
    case (Some a)
    then have "wl_entries w \<noteq> []" by auto
    with Some Cancel assms show ?thesis
      by (simp add: wal_exec_def wal_cancel_def wal_persist_set_synced)
  qed (use assms Cancel in \<open>simp add: wal_exec_def wal_cancel_def\<close>)
qed

lemma doc_entry_doc: "doc_entry (entry_doc e) now = Some (e\<lparr>we_created := now\<rparr>)"
  by (cases e) (simp add: doc_entry_def entry_doc_def mk_entry_def)

text \<open>Loading the documents of distinct entries into a log appends the entries in order.\<close>

lemma wal_load_docs_append:
  "distinct (map fst (wl_entries w) @ map we_id es) \<Longrightarrow>
   wal_load_docs w (map (\<lambda>e. (we_id e, entry_doc e)) es) now =
     (w\<lparr>wl_heap := wl_heap w @ map (\<lambda>e. e\<lparr>we_created := now\<rparr>) es,
        wl_entries := wl_entries w @
          zip (map we_id es) [length (wl_heap w)..<length (wl_heap w) + length es]\<rparr>, True)"
proof (induction es arbitrary: w)
  case (Cons e es)
  then have "map_of (wl_entries w) (we_id e) = None"
    by (auto simp: map_of_eq_None_iff)
  moreover have "[n..<n + length (e # es)] = n # [Suc n..<Suc n + length es]" for n
    by (simp add: upt_conv_Cons del: upt_Suc)
  ultimately show ?case using Cons by (simp add: doc_entry_doc dict_update_fresh del: upt_Suc)
qed simp

lemma wal_objects_fresh:
  "wal_objects \<lparr>wl_heap = es, wl_entries = zip ks [0..<length es], wl_dir = d, wl_disk = f\<rparr>
     = take (length ks) es"
  by (rule nth_equalityI) (auto simp: wal_objects_def)



text \<open>
  C18: what a crash leaves. After any sequence of \<open>begin\<close>, \<open>execute\<close> and \<open>cancel\<close> on a log with a
  directory, a fresh log loads every entry from the file in the same order, with its identifier, type, payload,
  status, retries and error, so the same operations are found pending. The creation time is not kept: the file
  has it, but every entry loaded carries the time of loading.
\<close>

theorem wal_crash_recovery:
  "let w = foldl wal_exec (wal_new True None) ops;
       (w', n) = wal_load (wal_new True (wl_disk w)) now
   in n = length (wl_entries w) \<and>
      wal_objects w' = map (\<lambda>e. e\<lparr>we_created := now\<rparr>) (wal_objects w) \<and>
      map fst (wl_entries w') = map fst (wl_entries w) \<and>
      map we_id (wal_recover_pending w') = map we_id (wal_recover_pending w)"
proof -
  let ?w = "foldl wal_exec (wal_new True None) ops"
  have "wal_synced (foldl wal_exec w ops)" if "wal_synced w" for w
    using that by (induction ops arbitrary: w) (auto simp: wal_exec_synced)
  moreover have "wal_synced (wal_new True None)"
    by (simp add: wal_synced_def wal_new_def wal_wf_def)
  ultimately have s: "wal_synced ?w" by blast
  then have wf: "wal_wf ?w" by (simp add: wal_synced_def)
  let ?es = "wal_objects ?w"
  have ids: "map we_id ?es = map fst (wl_entries ?w)" by (rule wal_objects_ids [OF wf])
  have d: "distinct (map we_id ?es)" unfolding ids using wf by (simp add: wal_wf_def wf_dict_def)
  have len: "length ?es = length (wl_entries ?w)" by (simp add: wal_objects_def)
  show ?thesis
  proof (cases "wl_entries ?w = []")
    case True
    with s show ?thesis
      by (simp add: wal_synced_def wal_load_def wal_new_def Let_def wal_objects_def
          wal_recover_pending_def)
  next
    case False
    with s have disk: "wl_disk ?w = Some (map (\<lambda>e. (we_id e, entry_doc e)) ?es)"
      by (simp add: wal_synced_def)
    let ?w' = "(wal_new True (wl_disk ?w))\<lparr>wl_heap := map (\<lambda>e. e\<lparr>we_created := now\<rparr>) ?es,
                 wl_entries := zip (map we_id ?es) [0..<length ?es]\<rparr>"
    from wal_load_docs_append [of "wal_new True (wl_disk ?w)" ?es now] d
    have load: "wal_load (wal_new True (wl_disk ?w)) now = (?w', length ?es)"
      by (simp add: wal_load_def disk) (simp add: wal_new_def)
    have "wal_objects ?w' = map (\<lambda>e. e\<lparr>we_created := now\<rparr>) ?es"
      using wal_objects_fresh [of "map (\<lambda>e. e\<lparr>we_created := now\<rparr>) ?es" "map we_id ?es"]
      by (simp add: wal_new_def)
    then show ?thesis
      unfolding load Let_def
      by (simp add: len ids wal_recover_pending_def filter_map comp_def)
  qed
qed

subsection \<open>Cancellation and failures\<close>

text \<open>
  A cancelled operation still runs. \<open>execute\<close> does not look at the status: when it is
  called for an operation \<open>cancel\<close> has just reported as cancelled and the function succeeds,
  the function runs and the entry ends committed.
\<close>

theorem wal_cancelled_still_runs:
  assumes "wal_wf w" and "wal_cancel w i = (w1, True)" and "map_of (wl_entries w) i = Some a"
    and "0 \<le> we_max (wl_heap w ! a)" and "fn x = (x', Inr v)"
  shows "wal_get_status w1 i = Some WCancelled \<and>
         (\<exists>w2. wal_execute fn a w1 x = (w2, x', Inr v, []) \<and> wal_get_status w2 i = Some WCommitted)"
proof -
  have a: "a < length (wl_heap w)" using assms(1,3) by (auto simp: wal_wf_def dest: map_of_SomeD)
  from assms(2,3) have w1: "w1 = wal_persist (set_entry w a ((wl_heap w ! a)\<lparr>we_status := WCancelled\<rparr>))"
    by (auto simp: wal_cancel_def split: if_splits)
  have "nat (we_max (wl_heap w ! a) + 1) = Suc (nat (we_max (wl_heap w ! a)))"
    using assms(4) by (simp add: nat_add_distrib)
  with a assms(3,5) show ?thesis by (simp add: w1 wal_execute_def wal_get_status_def)
qed

lemma wal_cancelled_still_runs_witness:
  "\<exists>w2. wal_execute scripted 0 (fst (wal_cancel demo_wal ''op1'')) [Inr ()] = (w2, [], Inr (), [])
     \<and> wal_get_status w2 ''op1'' = Some WCommitted"
proof -
  have wf: "wal_wf demo_wal" by (simp add: wal_wf_def demo_wal_entry mk_entry_def wf_dict_def)
  have c: "wal_cancel demo_wal ''op1'' = (fst (wal_cancel demo_wal ''op1''), True)"
    by (simp add: wal_cancel_def demo_wal_entry mk_entry_def)
  from wal_cancelled_still_runs [OF wf c, of 0 scripted "[Inr ()]"] show ?thesis
    by (simp add: demo_wal_entry mk_entry_def scripted_def)
qed

text \<open>
  Failures are not recovered. Once \<open>execute\<close> has made a call for an entry, even if it
  has failed or the process dies between two retries, \<open>recover_pending\<close> no longer lists it.
\<close>

theorem wal_failed_not_recovered:
  assumes "wal_wf w" and "map_of (wl_entries w) i = Some a" and "0 < left"
    and "wal_loop fn a left attempt prev w x = (w', x', r, sleeps)"
  shows "i \<notin> set (map we_id (wal_recover_pending w')) \<and> wal_get_status w' i \<in> {Some WCommitted, Some WFailed}"
proof -
  have a: "a < length (wl_heap w)" and id: "we_id (wl_heap w ! a) = i"
    using assms(1,2) by (auto simp: wal_wf_def dest: map_of_SomeD)
  have st: "we_status (wl_heap w' ! a) \<in> {WCommitted, WFailed} \<and> wl_entries w' = wl_entries w \<and> wal_wf w'"
    if "wal_loop fn a left attempt prev w x = (w', x', r, sleeps)" "a < length (wl_heap w)" "wal_wf w"
      "0 < left \<or> we_status (wl_heap w ! a) = WFailed" for left attempt prev w x sleeps
    using that
  proof (induction left arbitrary: attempt prev w x sleeps)
    case (Suc left)
    show ?case
    proof (cases "snd (fn x)")
      case (Inr v)
      then have "fn x = (fst (fn x), Inr v)" by (metis prod.collapse)
      with Suc.prems show ?thesis by (auto simp: wal_wf_set_entry split: prod.splits)
    next
      case (Inl exc)
      then have f: "fn x = (fst (fn x), Inl exc)" by (metis prod.collapse)
      let ?e = "(wl_heap w ! a)\<lparr>we_retries := int attempt + 1, we_error := Some exc, we_status := WFailed\<rparr>"
      let ?w = "wal_persist (set_entry w a ?e)"
      obtain w2 x2 r2 sl where l: "wal_loop fn a left (Suc attempt) (Some exc) ?w (fst (fn x))
          = (w2, x2, r2, sl)" by (metis prod_cases4)
      with Suc.prems(1) f have "w' = w2" "x' = x2" "r = r2" by (auto simp: Let_def split: prod.splits)
      with Suc.IH l Suc.prems(2,3) show ?thesis by (simp add: wal_wf_set_entry)
    qed
  qed simp
  from st [OF assms(4) a assms(1)] assms(3)
  have w': "we_status (wl_heap w' ! a) \<in> {WCommitted, WFailed}" "wl_entries w' = wl_entries w" "wal_wf w'"
    by auto
  have "wal_get_status w' i \<in> {Some WCommitted, Some WFailed}"
    using w'(1) assms(2) by (auto simp: wal_get_status_def w'(2))
  moreover have "i \<notin> set (map we_id (wal_recover_pending w'))"
  proof
    assume "i \<in> set (map we_id (wal_recover_pending w'))"
    then obtain j b where jb: "(j, b) \<in> set (wl_entries w')" "we_status (wl_heap w' ! b) = WPending"
      "we_id (wl_heap w' ! b) = i" by (auto simp: wal_recover_pending_def wal_objects_def)
    with w'(3) have "j = i" "wf_dict (wl_entries w')" by (auto simp: wal_wf_def)
    with jb w'(2) assms(2) have "b = a" by (simp add: wf_dict_get)
    with jb w'(1) show False by auto
  qed
  ultimately show ?thesis by blast
qed

lemma wal_failed_not_recovered_witness:
  "''op1'' \<notin> set (map we_id (wal_recover_pending
      (fst (wal_loop scripted 0 1 0 None demo_wal [Inl ''boom'']))))"
proof -
  have wf: "wal_wf demo_wal" by (simp add: wal_wf_def demo_wal_entry mk_entry_def wf_dict_def)
  obtain w' x' r sl where l: "wal_loop scripted 0 1 0 None demo_wal [Inl ''boom''] = (w', x', r, sl)"
    by (metis prod_cases4)
  from wal_failed_not_recovered [OF wf _ _ l, of "''op1''"] l show ?thesis
    by (simp add: demo_wal_entry)
qed

end
