(* ===== verification/IdempotencyGuard.thy ===== *)
theory IdempotencyGuard
  imports Prelude Contracts
begin

text \<open>
  Deduplication of effects by idempotency key (harness/orchestrator/idempotency_guard.py).
  The truncated SHA-256 of a payload is the parameter \<open>digest\<close>; the effect is a function that
  changes the client's world and returns its output or raises.
\<close>

record 'o idem_guard =
  ig_cache :: "(string \<times> (string \<times> 'o)) list"
  ig_replays :: nat

record 'o guarded_result =
  gr_output :: 'o
  gr_replayed :: bool

datatype idem_error = EmptyKey | KeyPayloadMismatch string | EffectRaised string

definition guard_new :: "'o idem_guard" where
  "guard_new = \<lparr>ig_cache = [], ig_replays = 0\<rparr>"

definition guard_run ::
  "(string \<Rightarrow> string) \<Rightarrow> (string \<Rightarrow> 'w \<Rightarrow> 'w \<times> (string + 'o)) \<Rightarrow> string \<Rightarrow> string
    \<Rightarrow> 'o idem_guard \<times> 'w \<Rightarrow> ('o idem_guard \<times> 'w) \<times> (idem_error + 'o guarded_result)" where
  "guard_run digest fn key payload s =
     (if py_blank key then (s, Inl EmptyKey)
      else case map_of (ig_cache (fst s)) key of
          Some (h, out) \<Rightarrow>
            if h \<noteq> digest payload then (s, Inl (KeyPayloadMismatch key))
            else (((fst s)\<lparr>ig_replays := ig_replays (fst s) + 1\<rparr>, snd s),
                  Inr \<lparr>gr_output = out, gr_replayed = True\<rparr>)
        | None \<Rightarrow>
            (case fn payload (snd s) of
               (w, Inl exc) \<Rightarrow> ((fst s, w), Inl (EffectRaised exc))
             | (w, Inr out) \<Rightarrow>
                 (((fst s)\<lparr>ig_cache := AList.update key (digest payload, out) (ig_cache (fst s))\<rparr>, w),
                  Inr \<lparr>gr_output = out, gr_replayed = False\<rparr>)))"

text \<open>A run of requests, with the results in order.\<close>

fun guard_runs ::
  "(string \<Rightarrow> string) \<Rightarrow> (string \<Rightarrow> 'w \<Rightarrow> 'w \<times> (string + 'o)) \<Rightarrow> (string \<times> string) list
    \<Rightarrow> 'o idem_guard \<times> 'w \<Rightarrow> ('o idem_guard \<times> 'w) \<times> (idem_error + 'o guarded_result) list" where
  "guard_runs digest fn [] s = (s, [])"
| "guard_runs digest fn ((k, p) # reqs) s =
     (let (s1, r) = guard_run digest fn k p s; (s2, rs) = guard_runs digest fn reqs s1
      in (s2, r # rs))"

text \<open>The cache as a keep-first register: the effect's output is what is put.\<close>

definition guard_put ::
  "'o idem_guard \<Rightarrow> string \<Rightarrow> string \<times> 'o \<Rightarrow> 'o idem_guard \<times> bool" where
  "guard_put g k ho =
     (case guard_run (\<lambda>_. fst ho) (\<lambda>_ w. (w, Inr (snd ho))) k '''' (g, ()) of
        ((g', _), Inr r) \<Rightarrow> (g', \<not> gr_replayed r)
      | ((g', _), Inl _) \<Rightarrow> (g', False))"

interpretation guard_cache: keep_first
  "\<lambda>g. wf_dict (ig_cache g)" "\<lambda>k _. \<not> py_blank k" "\<lambda>g. map_of (ig_cache g)" guard_put
  by standard (auto simp: guard_put_def guard_run_def split: option.splits prod.splits)

definition executed :: "idem_error + 'o guarded_result \<Rightarrow> bool" where
  "executed r = (case r of Inl _ \<Rightarrow> False | Inr g \<Rightarrow> \<not> gr_replayed g)"

definition served :: "idem_error + 'o guarded_result \<Rightarrow> bool" where
  "served r = (\<not> isl r)"

lemma guard_run_cases:
  assumes "guard_run digest fn k p s = (s', r)"
  shows "(\<forall>j. map_of (ig_cache (fst s')) j =
            (if j = k \<and> executed r then Some (digest p, gr_output (projr r))
             else map_of (ig_cache (fst s)) j)) \<and>
         (executed r \<longrightarrow> map_of (ig_cache (fst s)) k = None) \<and>
         (served r \<longrightarrow> map_of (ig_cache (fst s')) k = Some (digest p, gr_output (projr r))) \<and>
         (served r \<and> \<not> executed r \<longrightarrow> map_of (ig_cache (fst s)) k \<noteq> None \<and> snd s' = snd s)"
  using assms
  by (auto simp: guard_run_def executed_def served_def split: if_splits option.splits prod.splits sum.splits)

lemma guard_runs_length: "length (snd (guard_runs digest fn reqs s)) = length reqs"
  by (induction digest fn reqs s rule: guard_runs.induct) (auto simp: Let_def split: prod.splits)

lemma guard_runs_cached:
  "guard_runs digest fn reqs s = (s', rs) \<Longrightarrow> map_of (ig_cache (fst s)) k = Some ho \<Longrightarrow>
     map_of (ig_cache (fst s')) k = Some ho \<and>
     filter (\<lambda>(q, r). fst q = k \<and> executed r) (zip reqs rs) = []"
proof (induction reqs arbitrary: s rs)
  case (Cons q reqs)
  obtain j p where q: "q = (j, p)" by fastforce
  obtain s1 r where r: "guard_run digest fn j p s = (s1, r)" by fastforce
  obtain s2 rs2 where rs: "guard_runs digest fn reqs s1 = (s2, rs2)" by fastforce
  from Cons.prems q r rs have eq: "s' = s2" "rs = r # rs2" by auto
  note c = guard_run_cases [OF r]
  with Cons.prems(2) have k: "map_of (ig_cache (fst s1)) k = Some ho" "j = k \<longrightarrow> \<not> executed r"
    by auto
  from Cons.IH [OF _ k(1), of rs2] rs eq k(2) q show ?case by auto
qed simp

text \<open>The results of a run for one key, read off the cache it leaves.\<close>

lemma guard_runs_key:
  "guard_runs digest fn reqs s = (s', rs) \<Longrightarrow>
     length (filter (\<lambda>(q, r). fst q = k \<and> executed r) (zip reqs rs)) =
       (if map_of (ig_cache (fst s)) k = None \<and> map_of (ig_cache (fst s')) k \<noteq> None then 1 else 0) \<and>
     (\<forall>(q, r) \<in> set (zip reqs rs). fst q = k \<and> served r \<longrightarrow>
        map_of (ig_cache (fst s')) k = Some (digest (snd q), gr_output (projr r)))"
proof (induction reqs arbitrary: s rs)
  case (Cons q reqs)
  obtain j p where q: "q = (j, p)" by fastforce
  obtain s1 r where r: "guard_run digest fn j p s = (s1, r)" by fastforce
  obtain s2 rs2 where rs: "guard_runs digest fn reqs s1 = (s2, rs2)" by fastforce
  from Cons.prems q r rs have eq: "s' = s2" "rs = r # rs2" by auto
  note c = guard_run_cases [OF r]
  note IH = Cons.IH [of s1 rs2, unfolded eq(1) [symmetric]]
  have sv: "map_of (ig_cache (fst s')) k = Some (digest p, gr_output (projr r))"
    if "served r" "j = k" using guard_runs_cached [OF rs] c that eq by auto
  show ?case
  proof (cases "j = k \<and> executed r")
    case True
    then have "map_of (ig_cache (fst s1)) k = Some (digest p, gr_output (projr r))"
      "map_of (ig_cache (fst s)) k = None" using c by auto
    with guard_runs_cached [OF rs this(1)] IH rs eq q True sv show ?thesis by auto
  next
    case False
    with c have "map_of (ig_cache (fst s1)) k = map_of (ig_cache (fst s)) k" by auto
    with IH rs eq q False sv show ?thesis by auto
  qed
qed auto

text \<open>
  C38: one effect per key. In any run of requests on a new guard, whatever the effects return
  or raise, the effect of a key is executed successfully at most once; every result served
  for the key, replayed or not, carries the output of that one execution; and a payload with
  another digest is never served under it.
\<close>

theorem guard_single_effect:
  assumes "guard_runs digest fn reqs (guard_new, w) = (s', rs)"
  shows "length (filter (\<lambda>(q, r). fst q = k \<and> executed r) (zip reqs rs)) \<le> 1 \<and>
         length rs = length reqs \<and>
         (case map_of (ig_cache (fst s')) k of
            None \<Rightarrow> filter (\<lambda>(q, r). fst q = k \<and> served r) (zip reqs rs) = []
          | Some (h, out) \<Rightarrow>
              list_all (\<lambda>(q, r). digest (snd q) = h \<and> gr_output (projr r) = out)
                (filter (\<lambda>(q, r). fst q = k \<and> served r) (zip reqs rs)))"
  using guard_runs_key [OF assms, of k] guard_runs_length [of digest fn reqs "(guard_new, w)"] assms
  by (auto simp: filter_empty_conv list_all_iff split: option.splits)

lemma guard_single_effect_witness:
  "\<exists>s' rs. guard_runs (\<lambda>p. p) (\<lambda>p n. (Suc n, Inr p)) [(''k'', ''a''), (''k'', ''a''), (''k'', ''b'')]
      (guard_new, 0 :: nat) = (s', rs) \<and> snd s' = 1 \<and>
     length (filter (\<lambda>(q, r). fst q = ''k'' \<and> executed r)
       (zip [(''k'', ''a''), (''k'', ''a''), (''k'', ''b'')] rs)) \<le> 1"
proof -
  let ?qs = "[(''k'', ''a''), (''k'', ''a''), (''k'', ''b'')]"
  obtain s' rs where r: "guard_runs (\<lambda>p. p) (\<lambda>p n. (Suc n, Inr p)) ?qs (guard_new, 0 :: nat) = (s', rs)"
    by fastforce
  moreover from r have "snd s' = 1"
    by (auto simp: guard_run_def guard_new_def py_blank_iff py_isspace_def Let_def)
  ultimately show ?thesis using guard_single_effect [OF r, of "''k''"] by blast
qed

end
