(* ===== verification/DeltaChannel.thy ===== *)
theory DeltaChannel
  imports PyText
begin

text \<open>
  The durable channel of incremental checkpoints (harness/orchestrator/delta_channel.py).
  The directory is two dictionaries: delta files by step id and snapshot files by sequence
  number. Writing a file is atomic (temporary file and \<open>os.replace\<close>). Sizes and timestamps
  of files are left out.
\<close>

record snapshot_doc =
  sd_included :: "string list"
  sd_state :: json_object

record delta_channel =
  dc_every :: nat
  dc_state :: json_object
  dc_applied :: "string list"
  dc_pending :: nat
  dc_deltas :: "(string \<times> json_object) list"
  dc_snaps :: "(nat \<times> snapshot_doc) list"

datatype delta_error = BadSnapshotEvery int | StepIdEmpty | StepIdUnsafe string

definition channel_new ::
  "int \<Rightarrow> (string \<times> json_object) list \<Rightarrow> (nat \<times> snapshot_doc) list \<Rightarrow> delta_error + delta_channel" where
  "channel_new every deltas snaps =
     (if every < 1 then Inl (BadSnapshotEvery every)
      else Inr \<lparr>dc_every = nat every, dc_state = [], dc_applied = [], dc_pending = 0,
                dc_deltas = deltas, dc_snaps = snaps\<rparr>)"

text \<open>The pattern \<open>[A-Za-z0-9._-]+\<close>, matched in full.\<close>

definition step_char :: "char \<Rightarrow> bool" where
  "step_char c \<longleftrightarrow>
     (let n = (of_char c :: nat)
      in (65 \<le> n \<and> n \<le> 90) \<or> (97 \<le> n \<and> n \<le> 122) \<or> (48 \<le> n \<and> n \<le> 57)
         \<or> n = 46 \<or> n = 95 \<or> n = 45)"

definition validate_step_id :: "string \<Rightarrow> delta_error option" where
  "validate_step_id i =
     (if py_blank i then Some StepIdEmpty
      else if \<not> list_all step_char i then Some (StepIdUnsafe i)
      else None)"

definition delta_file :: "string \<Rightarrow> string" where
  "delta_file i = ''delta_'' @ i @ ''.json''"

text \<open>\<open>state.update(delta)\<close>\<close>

definition dict_merge :: "('k \<times> 'v) list \<Rightarrow> ('k \<times> 'v) list \<Rightarrow> ('k \<times> 'v) list" where
  "dict_merge d e = fold (\<lambda>(k, v). AList.update k v) e d"

definition is_applied :: "delta_channel \<Rightarrow> string \<Rightarrow> bool" where
  "is_applied c i \<longleftrightarrow> i \<in> set (dc_applied c) \<or> map_of (dc_deltas c) i \<noteq> None"

definition write_delta :: "delta_channel \<Rightarrow> string \<Rightarrow> json_object \<Rightarrow> delta_channel" where
  "write_delta c i d = c\<lparr>dc_deltas := AList.update i d (dc_deltas c)\<rparr>"

definition persist_snapshot :: "delta_channel \<Rightarrow> delta_channel" where
  "persist_snapshot c =
     c\<lparr>dc_snaps := AList.update (length (dc_snaps c) + 1)
         \<lparr>sd_included = dc_applied c, sd_state = dc_state c\<rparr> (dc_snaps c),
       dc_pending := 0\<rparr>"

definition apply_step ::
  "delta_channel \<Rightarrow> string \<Rightarrow> json_object \<Rightarrow> delta_channel \<times> (delta_error + unit)" where
  "apply_step c i d =
     (case validate_step_id i of
        Some err \<Rightarrow> (c, Inl err)
      | None \<Rightarrow>
          if is_applied c i then (c, Inr ())
          else
            (let c1 = write_delta c i d;
                 c2 = c1\<lparr>dc_state := dict_merge (dc_state c1) d, dc_applied := dc_applied c1 @ [i],
                         dc_pending := dc_pending c1 + 1\<rparr>
             in (if dc_every c2 \<le> dc_pending c2 then persist_snapshot c2 else c2, Inr ())))"

definition snapshot :: "delta_channel \<Rightarrow> delta_channel \<times> json_object" where
  "snapshot c = (persist_snapshot c, dc_state c)"

text \<open>\<open>max(snapshots, key=_snapshot_seq)\<close>\<close>

definition latest_snapshot :: "(nat \<times> snapshot_doc) list \<Rightarrow> snapshot_doc option" where
  "latest_snapshot snaps =
     (if snaps = [] then None else map_of snaps (Max (set (map fst snaps))))"

text \<open>One delta of the replay, in file-name order.\<close>

definition replay_delta :: "string list \<Rightarrow> delta_channel \<Rightarrow> string \<times> json_object \<Rightarrow> delta_channel" where
  "replay_delta included c p =
     (if fst p \<in> set included then c
      else c\<lparr>dc_state := dict_merge (dc_state c) (snd p), dc_applied := dc_applied c @ [fst p],
             dc_pending := dc_pending c + 1\<rparr>)"

definition channel_resume :: "delta_channel \<Rightarrow> delta_channel \<times> json_object option" where
  "channel_resume c =
     (if dc_snaps c = [] \<and> dc_deltas c = [] then (c, None)
      else
        let base = (case latest_snapshot (dc_snaps c) of
                      None \<Rightarrow> \<lparr>sd_included = [], sd_state = []\<rparr> | Some s \<Rightarrow> s);
            c0 = c\<lparr>dc_state := sd_state base, dc_applied := sd_included base, dc_pending := 0\<rparr>;
            c1 = foldl (replay_delta (sd_included base)) c0
                   (sort_key (\<lambda>(i, _). delta_file i) (dc_deltas c))
        in (c1, Some (dc_state c1)))"

definition channel_reset :: "delta_channel \<Rightarrow> delta_channel" where
  "channel_reset c =
     c\<lparr>dc_deltas := [], dc_snaps := [], dc_state := [], dc_applied := [], dc_pending := 0\<rparr>"

text \<open>\<open>stats\<close>: steps applied, pending deltas and snapshots.\<close>

definition channel_stats :: "delta_channel \<Rightarrow> nat \<times> nat \<times> nat" where
  "channel_stats c = (length (dc_applied c), dc_pending c, length (dc_snaps c))"

subsection \<open>Merging\<close>

lemma dict_merge_simps [simp]:
  "dict_merge d [] = d" "dict_merge d ((k, v) # e) = dict_merge (AList.update k v d) e"
  by (simp_all add: dict_merge_def)

lemma map_of_merge: "wf_dict e \<Longrightarrow> map_of (dict_merge d e) = map_of d ++ map_of e"
proof (induction e arbitrary: d)
  case (Cons p e)
  obtain k v where p: "p = (k, v)" by fastforce
  with Cons.prems have e: "wf_dict e" "map_of e k = None" by (auto simp: wf_dict_def map_of_eq_None_iff)
  from Cons.IH [OF e(1)] e(2) p show ?case
    by (auto simp: fun_eq_iff map_add_def split: option.splits)
qed simp

lemma wf_dict_merge [wf_intros]: "wf_dict d \<Longrightarrow> wf_dict (dict_merge d e)"
  by (induction e arbitrary: d) auto

text \<open>The effect of a list of deltas, as a map.\<close>

fun merged :: "json_object list \<Rightarrow> string \<Rightarrow> json option" where
  "merged [] = Map.empty"
| "merged (d # ds) = map_of d ++ merged ds"

lemma merged_append: "merged (xs @ ys) = merged xs ++ merged ys"
  by (induction xs) (simp_all add: map_add_assoc)

text \<open>The constraint of the module: deltas that write the same key write the same value.\<close>

definition compatible :: "json_object list \<Rightarrow> bool" where
  "compatible ds \<longleftrightarrow>
     (\<forall>d \<in> set ds. \<forall>e \<in> set ds. \<forall>(k, v) \<in> set d. \<forall>(j, w) \<in> set e. j = k \<longrightarrow> w = v)"

lemma merged_in: "merged ds k = Some v \<Longrightarrow> \<exists>d \<in> set ds. map_of d k = Some v"
  by (induction ds) (auto simp: map_add_def split: option.splits)

lemma merged_some: "d \<in> set ds \<Longrightarrow> map_of d k = Some v \<Longrightarrow> merged ds k \<noteq> None"
  by (induction ds) (auto simp: map_add_def split: option.splits)

text \<open>Under the constraint the order and the multiplicity of the deltas do not matter.\<close>

lemma merged_compatible:
  assumes "compatible ds" and "set es = set ds"
  shows "merged es = merged ds"
proof (rule ext)
  fix k
  show "merged es k = merged ds k"
  proof (cases "merged ds k")
    case None
    then show ?thesis using merged_in [of es k] merged_some [of _ ds k] assms(2)
      by (metis not_None_eq)
  next
    case (Some v)
    then obtain d where d: "d \<in> set ds" "map_of d k = Some v" by (blast dest: merged_in)
    then obtain w where w: "merged es k = Some w" using merged_some assms(2) by fastforce
    then obtain e where e: "e \<in> set ds" "map_of e k = Some w" using assms(2) by (blast dest: merged_in)
    have "w = v"
      using assms(1) d(1) e(1) map_of_SomeD [OF d(2)] map_of_SomeD [OF e(2)]
      by (force simp: compatible_def)
    with Some w show ?thesis by simp
  qed
qed

subsection \<open>Invariant\<close>

definition deltas_of :: "delta_channel \<Rightarrow> string list \<Rightarrow> json_object list" where
  "deltas_of c is = map (\<lambda>i. the (map_of (dc_deltas c) i)) is"

text \<open>
  The directory: delta files of distinct steps; snapshots numbered from 1, each holding the
  merge of the steps it includes, which all have a delta file.
\<close>

definition disk_wf :: "delta_channel \<Rightarrow> bool" where
  "disk_wf c \<longleftrightarrow> 0 < dc_every c \<and> wf_dict (dc_deltas c) \<and>
     (\<forall>(i, d) \<in> set (dc_deltas c). wf_dict d) \<and>
     map fst (dc_snaps c) = [1..<Suc (length (dc_snaps c))] \<and>
     (\<forall>(n, s) \<in> set (dc_snaps c).
        distinct (sd_included s) \<and> set (sd_included s) \<subseteq> set (map fst (dc_deltas c)) \<and>
        map_of (sd_state s) = merged (deltas_of c (sd_included s)))"

text \<open>An object in use: what it holds in memory is the merge of every delta on disk.\<close>

definition channel_wf :: "delta_channel \<Rightarrow> bool" where
  "channel_wf c \<longleftrightarrow> disk_wf c \<and> distinct (dc_applied c) \<and>
     set (dc_applied c) = set (map fst (dc_deltas c)) \<and>
     map_of (dc_state c) = merged (deltas_of c (dc_applied c))"

lemma deltas_of_mem [simp]:
  "deltas_of (c\<lparr>dc_state := s\<rparr>) = deltas_of c" "deltas_of (c\<lparr>dc_applied := a\<rparr>) = deltas_of c"
  "deltas_of (c\<lparr>dc_pending := n\<rparr>) = deltas_of c"
  by (simp_all add: deltas_of_def fun_eq_iff)

lemma disk_wf_mem [simp]:
  "disk_wf (c\<lparr>dc_state := s\<rparr>) = disk_wf c" "disk_wf (c\<lparr>dc_applied := a\<rparr>) = disk_wf c"
  "disk_wf (c\<lparr>dc_pending := n\<rparr>) = disk_wf c"
  by (simp_all add: disk_wf_def)

lemma deltas_of_cong:
  "\<forall>i \<in> set is. map_of (dc_deltas c) i = map_of (dc_deltas c') i \<Longrightarrow> deltas_of c is = deltas_of c' is"
  by (simp add: deltas_of_def)

lemma snapshots_update:
  assumes "map fst snaps = [1..<Suc (length snaps)]"
  shows "AList.update (length snaps + 1) s snaps = snaps @ [(length snaps + 1, s)]"
proof (rule dict_update_fresh)
  have "length snaps + 1 \<notin> set (map fst snaps)" unfolding assms by simp
  then show "map_of snaps (length snaps + 1) = None" by (simp add: map_of_eq_None_iff)
qed

lemma persist_snapshot_wf: "channel_wf c \<Longrightarrow> channel_wf (persist_snapshot c)"
proof -
  assume c: "channel_wf c"
  let ?s = "\<lparr>sd_included = dc_applied c, sd_state = dc_state c\<rparr>"
  have m: "map fst (dc_snaps c) = [1..<Suc (length (dc_snaps c))]"
    using c by (simp add: channel_wf_def disk_wf_def)
  have "dc_snaps (persist_snapshot c) = dc_snaps c @ [(length (dc_snaps c) + 1, ?s)]"
    using snapshots_update [OF m] by (simp add: persist_snapshot_def)
  moreover have "deltas_of (persist_snapshot c) = deltas_of c"
    by (simp add: persist_snapshot_def deltas_of_def fun_eq_iff)
  moreover have "dc_deltas (persist_snapshot c) = dc_deltas c" "dc_applied (persist_snapshot c) = dc_applied c"
    "dc_state (persist_snapshot c) = dc_state c" "dc_every (persist_snapshot c) = dc_every c"
    by (simp_all add: persist_snapshot_def)
  ultimately show ?thesis using c m by (auto simp: channel_wf_def disk_wf_def)
qed

lemma write_delta_disk:
  assumes "disk_wf c" and "map_of (dc_deltas c) i = None" and "wf_dict d"
  shows "disk_wf (write_delta c i d)"
    and "set is \<subseteq> set (map fst (dc_deltas c)) \<Longrightarrow> deltas_of (write_delta c i d) is = deltas_of c is"
proof -
  have i: "i \<notin> set (map fst (dc_deltas c))" using assms(2) by (simp add: map_of_eq_None_iff)
  show eq: "deltas_of (write_delta c i d) is = deltas_of c is" if "set is \<subseteq> set (map fst (dc_deltas c))" for "is"
    using that i by (intro deltas_of_cong) (auto simp: write_delta_def)
  have "dc_deltas (write_delta c i d) = dc_deltas c @ [(i, d)]"
    using assms(2) by (simp add: write_delta_def dict_update_fresh)
  moreover have "dc_snaps (write_delta c i d) = dc_snaps c" "dc_every (write_delta c i d) = dc_every c"
    by (simp_all add: write_delta_def)
  ultimately show "disk_wf (write_delta c i d)"
    using assms eq i by (fastforce simp: disk_wf_def wf_dict_def)
qed

lemma apply_step_wf:
  assumes "channel_wf c" and "wf_dict d"
  shows "channel_wf (fst (apply_step c i d))"
proof (cases "validate_step_id i = None \<and> \<not> is_applied c i")
  case False
  with assms show ?thesis by (auto simp: apply_step_def split: option.splits)
next
  case True
  then have i: "i \<notin> set (dc_applied c)" "map_of (dc_deltas c) i = None"
    by (auto simp: is_applied_def)
  let ?c1 = "write_delta c i d"
  let ?c2 = "?c1\<lparr>dc_state := dict_merge (dc_state ?c1) d, dc_applied := dc_applied ?c1 @ [i],
                 dc_pending := dc_pending ?c1 + 1\<rparr>"
  have disk: "disk_wf c" using assms(1) by (simp add: channel_wf_def)
  note w = write_delta_disk [OF disk i(2) assms(2)]
  have d2: "deltas_of ?c2 = deltas_of ?c1" by simp
  have "disk_wf ?c2" using w(1) by simp
  moreover have "set (dc_applied c) \<subseteq> set (map fst (dc_deltas c))"
    using assms(1) by (simp add: channel_wf_def)
  then have "deltas_of ?c2 (dc_applied c @ [i]) = deltas_of c (dc_applied c) @ [d]"
    using w(2) by (simp add: d2) (simp add: deltas_of_def write_delta_def)
  ultimately have "channel_wf ?c2"
    using assms i by (auto simp: channel_wf_def write_delta_def map_of_merge merged_append
        dict_update_fresh)
  with True show ?thesis
    by (auto simp: apply_step_def Let_def persist_snapshot_wf)
qed

subsection \<open>Resuming\<close>

lemma replay_deltas:
  assumes "wf_dict ds" and "\<forall>(i, d) \<in> set ds. wf_dict d"
    and "set (dc_applied c) \<inter> set (map fst ds) \<subseteq> set inc" and "distinct (dc_applied c)"
  shows "let c' = foldl (replay_delta inc) c ds; new = filter (\<lambda>p. fst p \<notin> set inc) ds
         in dc_applied c' = dc_applied c @ map fst new \<and>
            map_of (dc_state c') = map_of (dc_state c) ++ merged (map snd new) \<and>
            dc_deltas c' = dc_deltas c \<and> dc_snaps c' = dc_snaps c \<and> dc_every c' = dc_every c \<and>
            dc_pending c' = dc_pending c + length new"
  using assms
proof (induction ds arbitrary: c)
  case (Cons p ds)
  have d: "wf_dict ds" using Cons.prems(1) by (simp add: wf_dict_def)
  show ?case
  proof (cases "fst p \<in> set inc")
    case True
    with Cons.IH [OF d, of c] Cons.prems show ?thesis by (auto simp: replay_delta_def Let_def)
  next
    case False
    let ?c = "replay_delta inc c p"
    have "fst p \<notin> set (map fst ds)" "fst p \<notin> set (dc_applied c)"
      using Cons.prems False by (auto simp: wf_dict_def)
    then have "set (dc_applied ?c) \<inter> set (map fst ds) \<subseteq> set inc" "distinct (dc_applied ?c)"
      using Cons.prems(3,4) False by (auto simp: replay_delta_def)
    from Cons.IH [OF d _ this] Cons.prems(2) False show ?thesis
      by (auto simp: replay_delta_def Let_def map_of_merge map_add_assoc split_beta)
  qed
qed (simp add: Let_def)

lemma latest_snapshot_in:
  "snaps \<noteq> [] \<Longrightarrow> \<exists>n s. latest_snapshot snaps = Some s \<and> (n, s) \<in> set snaps"
proof -
  assume ne: "snaps \<noteq> []"
  then have "Max (set (map fst snaps)) \<in> set (map fst snaps)" by (intro Max_in) auto
  then obtain s where "map_of snaps (Max (set (map fst snaps))) = Some s"
    by (metis map_of_eq_None_iff option.exhaust set_map)
  with ne show ?thesis by (auto simp: latest_snapshot_def dest: map_of_SomeD)
qed

text \<open>
  What \<open>resume\<close> rebuilds, from any object whose directory is well formed: the snapshot's
  steps, then the other deltas in file-name order.
\<close>

lemma channel_resume_state:
  assumes "disk_wf c" and "compatible (map snd (dc_deltas c))"
  shows "channel_wf (fst (channel_resume (c\<lparr>dc_state := [], dc_applied := [], dc_pending := 0\<rparr>)))
       \<and> map_of (dc_state (fst (channel_resume (c\<lparr>dc_state := [], dc_applied := [], dc_pending := 0\<rparr>))))
           = merged (map snd (dc_deltas c))
       \<and> dc_deltas (fst (channel_resume (c\<lparr>dc_state := [], dc_applied := [], dc_pending := 0\<rparr>))) = dc_deltas c"
    (is "channel_wf ?r \<and> ?m \<and> ?d")
proof (cases "dc_snaps c = [] \<and> dc_deltas c = []")
  case True
  with assms(1) show ?thesis by (simp add: channel_resume_def channel_wf_def deltas_of_def)
next
  case False
  define base where "base = (case latest_snapshot (dc_snaps c) of
      None \<Rightarrow> \<lparr>sd_included = [], sd_state = []\<rparr> | Some s \<Rightarrow> s)"
  define ds where "ds = sort_key (\<lambda>(i, _). delta_file i) (dc_deltas c)"
  define c0 where "c0 = c\<lparr>dc_state := sd_state base, dc_applied := sd_included base, dc_pending := 0\<rparr>"
  let ?inc = "sd_included base"
  have re: "?r = foldl (replay_delta ?inc) c0 ds"
    using False by (auto simp: channel_resume_def Let_def base_def ds_def c0_def)
  have base: "distinct ?inc \<and> set ?inc \<subseteq> set (map fst (dc_deltas c)) \<and>
      map_of (sd_state base) = merged (deltas_of c ?inc)"
  proof (cases "dc_snaps c = []")
    case True
    then show ?thesis by (simp add: base_def latest_snapshot_def deltas_of_def)
  next
    case False
    from latest_snapshot_in [OF this] assms(1) show ?thesis
      unfolding disk_wf_def base_def by fastforce
  qed
  have wf: "wf_dict ds" "\<forall>(i, d) \<in> set ds. wf_dict d" and sd: "set ds = set (dc_deltas c)"
    using assms(1) by (auto simp: ds_def disk_wf_def wf_dict_def distinct_map)
  let ?new = "filter (\<lambda>p. fst p \<notin> set ?inc) ds"
  have c0: "dc_applied c0 = ?inc" "dc_state c0 = sd_state base" "dc_deltas c0 = dc_deltas c"
    "dc_snaps c0 = dc_snaps c" "dc_every c0 = dc_every c"
    by (simp_all add: c0_def)
  have "set (dc_applied c0) \<inter> set (map fst ds) \<subseteq> set ?inc" "distinct (dc_applied c0)"
    using base by (auto simp: c0)
  from replay_deltas [OF wf this] base
  have r: "dc_applied ?r = ?inc @ map fst ?new"
    "map_of (dc_state ?r) = merged (deltas_of c ?inc) ++ merged (map snd ?new)"
    "dc_deltas ?r = dc_deltas c" "dc_snaps ?r = dc_snaps c" "dc_every ?r = dc_every c"
    unfolding re by (simp_all add: c0 Let_def)
  have get: "map snd ?new = deltas_of c (map fst ?new)"
    using assms(1) by (auto simp: deltas_of_def disk_wf_def sd wf_dict_get)
  have app: "deltas_of c (dc_applied ?r) = deltas_of c ?inc @ map snd ?new"
    unfolding r(1) get by (simp add: deltas_of_def)
  have dom: "set (dc_applied ?r) = set (map fst (dc_deltas c))"
    using base unfolding r(1) by (auto simp: sd)
  have st: "map_of (dc_state ?r) = merged (deltas_of c (dc_applied ?r))"
    unfolding r(2) app by (simp add: merged_append)
  have "distinct (dc_applied ?r)"
    using base wf(1) unfolding r(1) by (auto simp: wf_dict_def distinct_map_filter)
  moreover have same: "deltas_of ?r = deltas_of c" "disk_wf ?r = disk_wf c"
    using r(3-5) by (simp_all add: disk_wf_def deltas_of_def fun_eq_iff)
  ultimately have "channel_wf ?r"
    using assms(1) dom st r(3) by (simp add: channel_wf_def)
  moreover have "set (deltas_of c (dc_applied ?r)) = set (map snd (dc_deltas c))"
  proof -
    have "set (deltas_of c (dc_applied ?r)) = (\<lambda>i. the (map_of (dc_deltas c) i)) ` set (map fst (dc_deltas c))"
      unfolding deltas_of_def set_map dom ..
    also have "\<dots> = set (map snd (dc_deltas c))"
      using assms(1) by (intro dict_values_image) (simp add: disk_wf_def)
    finally show ?thesis .
  qed
  with merged_compatible [OF assms(2) this] st r(3) show ?thesis using calculation by simp
qed

lemma channel_state_merged:
  assumes "channel_wf c" and "compatible (map snd (dc_deltas c))"
  shows "map_of (dc_state c) = merged (map snd (dc_deltas c))"
proof -
  have "set (deltas_of c (dc_applied c)) = (\<lambda>i. the (map_of (dc_deltas c) i)) ` set (map fst (dc_deltas c))"
    using assms(1) by (simp add: deltas_of_def channel_wf_def)
  also have "\<dots> = set (map snd (dc_deltas c))"
    using assms(1) by (intro dict_values_image) (simp add: channel_wf_def disk_wf_def)
  finally have "merged (deltas_of c (dc_applied c)) = merged (map snd (dc_deltas c))"
    by (rule merged_compatible [OF assms(2)])
  then show ?thesis using assms(1) by (simp add: channel_wf_def)
qed

subsection \<open>Histories with crashes\<close>

text \<open>
  \<open>Resume\<close> is a crash between two operations followed by a new object that resumes;
  \<open>CrashIn\<close> a crash inside \<open>apply_step\<close>, after the delta file was written.
\<close>

datatype channel_op = Apply string json_object | Snap | Resume | CrashIn string json_object

definition reopen :: "delta_channel \<Rightarrow> delta_channel" where
  "reopen c = fst (channel_resume (c\<lparr>dc_state := [], dc_applied := [], dc_pending := 0\<rparr>))"

definition channel_exec :: "delta_channel \<Rightarrow> channel_op \<Rightarrow> delta_channel" where
  "channel_exec c x =
     (case x of
        Apply i d \<Rightarrow> fst (apply_step c i d)
      | Snap \<Rightarrow> fst (snapshot c)
      | Resume \<Rightarrow> reopen c
      | CrashIn i d \<Rightarrow>
          reopen (if validate_step_id i = None \<and> \<not> is_applied c i then write_delta c i d else c))"

text \<open>The deltas the history has made durable, the first of each step id counting.\<close>

fun durable_deltas :: "channel_op list \<Rightarrow> (string \<times> json_object) list \<Rightarrow> (string \<times> json_object) list" where
  "durable_deltas [] acc = acc"
| "durable_deltas (x # xs) acc =
     durable_deltas xs
       (case x of
          Apply i d \<Rightarrow> if validate_step_id i = None \<and> map_of acc i = None then acc @ [(i, d)] else acc
        | CrashIn i d \<Rightarrow> if validate_step_id i = None \<and> map_of acc i = None then acc @ [(i, d)] else acc
        | _ \<Rightarrow> acc)"

definition op_delta :: "channel_op \<Rightarrow> json_object" where
  "op_delta x = (case x of Apply _ d \<Rightarrow> d | CrashIn _ d \<Rightarrow> d | _ \<Rightarrow> [])"

lemma durable_deltas_subset:
  "set (map snd acc) \<subseteq> set (map snd (durable_deltas xs acc))"
  by (induction xs acc rule: durable_deltas.induct) (auto split: channel_op.splits if_splits)

lemma is_applied_disk: "channel_wf c \<Longrightarrow> is_applied c i \<longleftrightarrow> map_of (dc_deltas c) i \<noteq> None"
  by (auto simp: is_applied_def channel_wf_def map_of_eq_None_iff)

lemma channel_exec_deltas:
  assumes "channel_wf c" and "wf_dict (op_delta x)"
    and "compatible (map snd (durable_deltas [x] (dc_deltas c)))"
  shows "channel_wf (channel_exec c x) \<and> dc_deltas (channel_exec c x) = durable_deltas [x] (dc_deltas c)"
proof (cases x)
  case (Apply i d)
  with assms apply_step_wf [OF assms(1), of d i] show ?thesis
    by (auto simp: channel_exec_def op_delta_def apply_step_def is_applied_disk write_delta_def
        persist_snapshot_def dict_update_fresh Let_def split: option.splits)
next
  case Snap
  with assms show ?thesis
    by (simp add: channel_exec_def snapshot_def persist_snapshot_wf) (simp add: persist_snapshot_def)
next
  case Resume
  with assms channel_resume_state [of c] show ?thesis
    by (simp add: channel_exec_def reopen_def channel_wf_def [of c])
next
  case (CrashIn i d)
  let ?c = "if validate_step_id i = None \<and> \<not> is_applied c i then write_delta c i d else c"
  have "disk_wf c" using assms(1) by (simp add: channel_wf_def)
  then have "disk_wf ?c" using write_delta_disk(1) [of c i d] assms CrashIn
    by (auto simp: is_applied_disk op_delta_def)
  moreover have "dc_deltas ?c = durable_deltas [x] (dc_deltas c)"
    using CrashIn assms(1) by (simp add: is_applied_disk write_delta_def dict_update_fresh)
  ultimately show ?thesis
    using channel_resume_state [of ?c] assms(3) CrashIn by (simp add: channel_exec_def reopen_def)
qed

lemma compatible_subset: "compatible es \<Longrightarrow> set ds \<subseteq> set es \<Longrightarrow> compatible ds"
  unfolding compatible_def by blast

lemma channel_history:
  assumes "channel_wf c" and "\<forall>x \<in> set xs. wf_dict (op_delta x)"
    and "compatible (map snd (durable_deltas xs (dc_deltas c)))"
  shows "channel_wf (foldl channel_exec c xs) \<and>
         dc_deltas (foldl channel_exec c xs) = durable_deltas xs (dc_deltas c)"
  using assms
proof (induction xs arbitrary: c)
  case (Cons x xs)
  have e: "durable_deltas (x # xs) (dc_deltas c) = durable_deltas xs (durable_deltas [x] (dc_deltas c))"
    by simp
  have "compatible (map snd (durable_deltas [x] (dc_deltas c)))"
    using compatible_subset [OF Cons.prems(3)] durable_deltas_subset
    unfolding e by (metis set_map)
  from channel_exec_deltas [OF Cons.prems(1) _ this] Cons.prems
  have x: "channel_wf (channel_exec c x)" "dc_deltas (channel_exec c x) = durable_deltas [x] (dc_deltas c)"
    by simp_all
  show ?case using Cons.IH [OF x(1)] x(2) Cons.prems(2,3) e by simp
qed simp

text \<open>
  C39: resume rebuilds the state. Take any history on an empty directory: steps, repeated ones
  included, snapshots at any point, crashes between operations and inside \<open>apply_step\<close> after
  its write. If the durable deltas agree on the keys they share (the module's constraint),
  the object's state is always the merge of exactly the durable deltas, first write of a
  step winning, every durable step is applied exactly once, and reopening gives the same.
\<close>

theorem delta_resume_exact:
  assumes "channel_new every [] [] = Inr c" and "list_all (wf_dict \<circ> op_delta) xs"
    and "compatible (map snd (durable_deltas xs []))"
  shows "let c' = foldl channel_exec c xs; ds = durable_deltas xs []
         in map_of (dc_state c') = merged (map snd ds) \<and>
            map_of (dc_state (reopen c')) = merged (map snd ds) \<and>
            distinct (dc_applied c') \<and> set (dc_applied c') = set (map fst ds)"
proof -
  from assms(1) have c: "channel_wf c" "dc_deltas c = []"
    by (auto simp: channel_new_def channel_wf_def disk_wf_def deltas_of_def split: if_splits)
  from channel_history [OF c(1)] assms(2,3) c(2)
  have h: "channel_wf (foldl channel_exec c xs)"
    "dc_deltas (foldl channel_exec c xs) = durable_deltas xs []"
    by (auto simp: list_all_iff)
  have disk: "disk_wf (foldl channel_exec c xs)" using h(1) by (simp add: channel_wf_def)
  have "distinct (dc_applied (foldl channel_exec c xs))"
    "set (dc_applied (foldl channel_exec c xs)) = set (map fst (durable_deltas xs []))"
    using h by (simp_all add: channel_wf_def)
  moreover have "map_of (dc_state (reopen (foldl channel_exec c xs))) = merged (map snd (durable_deltas xs []))"
    using channel_resume_state [OF disk] h(2) assms(3) by (simp add: reopen_def)
  moreover have "map_of (dc_state (foldl channel_exec c xs)) = merged (map snd (durable_deltas xs []))"
    using channel_state_merged [OF h(1)] h(2) assms(3) by simp
  ultimately show ?thesis by (simp add: Let_def)
qed

lemma delta_resume_exact_witness:
  "\<exists>c. channel_new 2 [] [] = Inr c \<and>
     map_of (dc_state (foldl channel_exec c
       [Apply ''s10'' [(''a'', PInt 1)], CrashIn ''s2'' [(''b'', PInt 2)], Apply ''s10'' [(''a'', PInt 9)]]))
       = [''a'' \<mapsto> PInt 1, ''b'' \<mapsto> PInt 2]"
proof -
  let ?xs = "[Apply ''s10'' [(''a'', PInt 1)], CrashIn ''s2'' [(''b'', PInt 2)],
              Apply ''s10'' [(''a'', PInt 9)]] :: channel_op list"
  have v: "validate_step_id ''s10'' = None" "validate_step_id ''s2'' = None"
    by (simp_all add: validate_step_id_def py_blank_iff py_isspace_def step_char_def Let_def)
  have d: "durable_deltas ?xs [] = [(''s10'', [(''a'', PInt 1)]), (''s2'', [(''b'', PInt 2)])]"
    by (simp add: v)
  obtain c where c: "channel_new 2 [] [] = Inr c" by (simp add: channel_new_def)
  from delta_resume_exact [OF c, of ?xs] d
  have "map_of (dc_state (foldl channel_exec c ?xs)) = merged [[(''a'', PInt 1)], [(''b'', PInt 2)]]"
    by (simp add: op_delta_def wf_dict_def compatible_def Let_def)
  then show ?thesis using c by (auto simp: fun_eq_iff map_add_def)
qed

text \<open>
  Bounded replay. Whatever the state, a step that \<open>apply_step\<close> newly records leaves fewer
  than \<open>snapshot_every\<close> deltas after the last snapshot, and a repeated step changes nothing.
\<close>

theorem delta_apply_bounded:
  assumes "channel_wf c" and "apply_step c i d = (c', Inr ())"
  shows "(if map_of (dc_deltas c) i = None
          then dc_pending c' < dc_every c \<and> map_of (dc_deltas c') = (map_of (dc_deltas c))(i \<mapsto> d)
          else c' = c) \<and>
         apply_step c' i e = (c', Inr ())"
proof -
  have ev: "0 < dc_every c" using assms(1) by (simp add: channel_wf_def disk_wf_def)
  from assms(2) have v: "validate_step_id i = None" by (auto simp: apply_step_def split: option.splits)
  show ?thesis
  proof (cases "is_applied c i")
    case True
    with assms v have "c' = c" by (simp add: apply_step_def)
    moreover obtain d0 where "map_of (dc_deltas c) i = Some d0"
      using True is_applied_disk [OF assms(1), of i] by auto
    ultimately show ?thesis using True v by (simp add: apply_step_def)
  next
    case False
    with assms v is_applied_disk [OF assms(1), of i] ev show ?thesis
      by (auto simp: apply_step_def write_delta_def persist_snapshot_def is_applied_def Let_def
          split: if_splits)
  qed
qed

lemma delta_apply_bounded_witness:
  "\<exists>c c'. channel_new 1 [] [] = Inr c \<and> apply_step c ''s1'' [(''a'', PInt 1)] = (c', Inr ()) \<and>
     dc_pending c' < 1"
proof -
  obtain c where c: "channel_new 1 [] [] = Inr c" by (simp add: channel_new_def)
  then have wf: "channel_wf c" and n: "dc_deltas c = []" "dc_every c = 1"
    by (auto simp: channel_new_def channel_wf_def disk_wf_def deltas_of_def)
  have v: "validate_step_id ''s1'' = None"
    by (simp add: validate_step_id_def py_blank_iff py_isspace_def step_char_def Let_def)
  then have "snd (apply_step c ''s1'' [(''a'', PInt 1)]) = Inr ()"
    by (simp add: apply_step_def Let_def)
  then obtain c' where s: "apply_step c ''s1'' [(''a'', PInt 1)] = (c', Inr ())"
    by (cases "apply_step c ''s1'' [(''a'', PInt 1)]") auto
  from delta_apply_bounded [OF wf s] n have "dc_pending c' < 1" by simp
  with c s show ?thesis by blast
qed

end
