(* ===== verification/Hooks.thy ===== *)
theory Hooks
  imports PyText Contracts "HOL-Library.Multiset"
begin

text \<open>
  The hook registry and its manager (harness/hooks/hook_registry.py and hook_manager.py).
  Registrations are mutable objects shared by the registry's two indexes and the manager's
  cache, so they live in a heap and are referred to by address. A hook's function is an
  opaque value \<open>'f\<close>; calling it changes the shared context and the client's world \<open>'c\<close>.
  Durations of hooks are left out.
\<close>

datatype hook_type = PreTool | PostTool | OnEdit | OnNotification

datatype hook_priority = CriticalP | HighP | NormalP | LowP

definition priority_value :: "hook_priority \<Rightarrow> nat" where
  "priority_value p = (case p of CriticalP \<Rightarrow> 0 | HighP \<Rightarrow> 1 | NormalP \<Rightarrow> 2 | LowP \<Rightarrow> 3)"

record 'f hook_registration =
  hk_name :: string
  hk_type :: hook_type
  hk_priority :: hook_priority
  hk_func :: 'f
  hk_description :: string
  hk_enabled :: bool

record 'f hook_registry =
  hr_heap :: "'f hook_registration list"
  hr_hooks :: "(string \<times> nat) list"
  hr_by_type :: "hook_type \<Rightarrow> nat list"

definition registry_new :: "'f hook_registry" where
  "registry_new = \<lparr>hr_heap = [], hr_hooks = [], hr_by_type = (\<lambda>_. [])\<rparr>"

definition prio_at :: "'f hook_registry \<Rightarrow> nat \<Rightarrow> nat" where
  "prio_at r a = priority_value (hk_priority (hr_heap r ! a))"

definition register ::
  "'f hook_registry \<Rightarrow> string \<Rightarrow> hook_type \<Rightarrow> hook_priority \<Rightarrow> 'f \<Rightarrow> string \<Rightarrow> 'f hook_registry \<times> bool" where
  "register r name ty prio f desc =
     (case map_of (hr_hooks r) name of
        Some _ \<Rightarrow> (r, False)
      | None \<Rightarrow>
          (let a = length (hr_heap r);
               r1 = r\<lparr>hr_heap := hr_heap r @ [\<lparr>hk_name = name, hk_type = ty, hk_priority = prio,
                        hk_func = f, hk_description = desc, hk_enabled = True\<rparr>],
                      hr_hooks := AList.update name a (hr_hooks r)\<rparr>
           in (r1\<lparr>hr_by_type := (hr_by_type r1)(ty := sort_key (prio_at r1) (hr_by_type r1 ty @ [a]))\<rparr>,
               True)))"

definition unregister :: "'f hook_registry \<Rightarrow> string \<Rightarrow> 'f hook_registry \<times> bool" where
  "unregister r name =
     (case map_of (hr_hooks r) name of
        None \<Rightarrow> (r, False)
      | Some a \<Rightarrow>
          (let ty = hk_type (hr_heap r ! a)
           in (r\<lparr>hr_hooks := AList.delete name (hr_hooks r),
                 hr_by_type := (hr_by_type r)(ty :=
                   filter (\<lambda>b. hk_name (hr_heap r ! b) \<noteq> name) (hr_by_type r ty))\<rparr>, True)))"

definition get_hooks :: "'f hook_registry \<Rightarrow> hook_type \<Rightarrow> nat list" where
  "get_hooks r ty = hr_by_type r ty"

definition get_hook :: "'f hook_registry \<Rightarrow> string \<Rightarrow> 'f hook_registration option" where
  "get_hook r name = map_option (\<lambda>a. hr_heap r ! a) (map_of (hr_hooks r) name)"

definition set_enabled :: "'f hook_registry \<Rightarrow> string \<Rightarrow> bool \<Rightarrow> 'f hook_registry \<times> bool" where
  "set_enabled r name b =
     (case map_of (hr_hooks r) name of
        None \<Rightarrow> (r, False)
      | Some a \<Rightarrow> (r\<lparr>hr_heap := (hr_heap r)[a := (hr_heap r ! a)\<lparr>hk_enabled := b\<rparr>]\<rparr>, True))"

definition hook_enable :: "'f hook_registry \<Rightarrow> string \<Rightarrow> 'f hook_registry \<times> bool" where
  "hook_enable r name = set_enabled r name True"

definition hook_disable :: "'f hook_registry \<Rightarrow> string \<Rightarrow> 'f hook_registry \<times> bool" where
  "hook_disable r name = set_enabled r name False"

definition list_hooks :: "'f hook_registry \<Rightarrow> 'f hook_registration list" where
  "list_hooks r = map (\<lambda>(_, a). hr_heap r ! a) (hr_hooks r)"

definition hook_count :: "'f hook_registry \<Rightarrow> nat" where
  "hook_count r = length (hr_hooks r)"

definition registry_clear :: "'f hook_registry \<Rightarrow> 'f hook_registry" where
  "registry_clear r = r\<lparr>hr_hooks := [], hr_by_type := (\<lambda>_. [])\<rparr>"

subsection \<open>HookManager\<close>

datatype hook_status = Success | Blocked | HookError | Skipped

record 'a hook_result =
  hs_name :: string
  hs_status :: hook_status
  hs_message :: string
  hs_data :: "'a payload option"

text \<open>A hook returns a value or raises; \<open>call f c\<close> is the call of \<open>f\<close>.\<close>

datatype 'a hook_outcome = Returned "'a pyval" | RaisedExc string

definition or_default :: "string \<Rightarrow> string \<Rightarrow> string" where
  "or_default s d = (if s = [] then d else s)"

fun run_hooks ::
  "('f \<Rightarrow> 'c \<Rightarrow> 'c \<times> 'a hook_outcome) \<Rightarrow> 'f hook_registration list \<Rightarrow> 'c \<Rightarrow> 'c \<times> 'a hook_result list" where
  "run_hooks call [] c = (c, [])"
| "run_hooks call (h # hs) c =
     (if \<not> hk_enabled h then
        (let (c', rs) = run_hooks call hs c
         in (c', \<lparr>hs_name = hk_name h, hs_status = Skipped, hs_message = ''Hook deshabilitado'',
                  hs_data = None\<rparr> # rs))
      else
        case call (hk_func h) c of
          (c1, Returned v) \<Rightarrow>
            (case v of
               PBool False \<Rightarrow>
                 (let r = \<lparr>hs_name = hk_name h, hs_status = Blocked,
                           hs_message = or_default (hk_description h) ''Hook rechazo la operacion'',
                           hs_data = None\<rparr>
                  in if hk_priority h = CriticalP then (c1, [r])
                     else (let (c', rs) = run_hooks call hs c1 in (c', r # rs)))
             | _ \<Rightarrow>
                 (let (c', rs) = run_hooks call hs c1
                  in (c', \<lparr>hs_name = hk_name h, hs_status = Success,
                           hs_message = or_default (hk_description h) ''Ejecutado exitosamente'',
                           hs_data = (case v of PDict d \<Rightarrow> Some d | _ \<Rightarrow> None)\<rparr> # rs)))
        | (c1, RaisedExc exc) \<Rightarrow>
            (let r = \<lparr>hs_name = hk_name h, hs_status = HookError, hs_message = ''Error: '' @ exc,
                      hs_data = None\<rparr>
             in if hk_priority h = CriticalP then (c1, [r])
                else (let (c', rs) = run_hooks call hs c1 in (c', r # rs))))"

text \<open>The manager's cache of hook lists, by type.\<close>

type_synonym hook_cache = "(hook_type \<times> nat list) list"

definition cached_hooks :: "hook_cache \<Rightarrow> 'f hook_registry \<Rightarrow> hook_type \<Rightarrow> hook_cache \<times> nat list" where
  "cached_hooks cache r ty =
     (case map_of cache ty of
        Some as \<Rightarrow> (cache, as)
      | None \<Rightarrow> (AList.update ty (get_hooks r ty) cache, get_hooks r ty))"

definition execute_hooks ::
  "('f \<Rightarrow> 'c \<Rightarrow> 'c \<times> 'a hook_outcome) \<Rightarrow> hook_type \<Rightarrow> 'f hook_registry \<Rightarrow> hook_cache \<Rightarrow> 'c
    \<Rightarrow> hook_cache \<times> 'c \<times> 'a hook_result list" where
  "execute_hooks call ty r cache c =
     (let (cache', as) = cached_hooks cache r ty
      in (cache', run_hooks call (map (\<lambda>a. hr_heap r ! a) as) c))"

definition has_blocked :: "'a hook_result list \<Rightarrow> bool" where
  "has_blocked rs = list_ex (\<lambda>r. hs_status r = Blocked) rs"

definition has_errors :: "'a hook_result list \<Rightarrow> bool" where
  "has_errors rs = list_ex (\<lambda>r. hs_status r = HookError) rs"

text \<open>The context each entry point builds.\<close>

record 'a hook_context =
  hx_type :: hook_type
  hx_tool :: string
  hx_args :: "'a payload"
  hx_result :: "'a pyval"
  hx_file :: string
  hx_metadata :: "'a payload"

definition pre_tool_context :: "string \<Rightarrow> 'a payload option \<Rightarrow> 'a hook_context" where
  "pre_tool_context tool args =
     \<lparr>hx_type = PreTool, hx_tool = tool, hx_args = (case args of Some d \<Rightarrow> d | None \<Rightarrow> []),
      hx_result = PNone, hx_file = '''', hx_metadata = []\<rparr>"

definition post_tool_context :: "string \<Rightarrow> 'a pyval \<Rightarrow> 'a payload option \<Rightarrow> 'a hook_context" where
  "post_tool_context tool result args =
     \<lparr>hx_type = PostTool, hx_tool = tool, hx_args = (case args of Some d \<Rightarrow> d | None \<Rightarrow> []),
      hx_result = result, hx_file = '''', hx_metadata = []\<rparr>"

definition on_edit_context :: "string \<Rightarrow> 'a payload option \<Rightarrow> 'a hook_context" where
  "on_edit_context path meta =
     \<lparr>hx_type = OnEdit, hx_tool = '''', hx_args = [], hx_result = PNone, hx_file = path,
      hx_metadata = (case meta of Some d \<Rightarrow> d | None \<Rightarrow> [])\<rparr>"

definition on_notification_context :: "string \<Rightarrow> 'a payload option \<Rightarrow> 'a hook_context" where
  "on_notification_context kind data =
     \<lparr>hx_type = OnNotification, hx_tool = kind, hx_args = [], hx_result = PNone, hx_file = '''',
      hx_metadata = (case data of Some d \<Rightarrow> d | None \<Rightarrow> [])\<rparr>"

definition execute_pre_tool ::
  "('f \<Rightarrow> 'a hook_context \<times> 'w \<Rightarrow> ('a hook_context \<times> 'w) \<times> 'a hook_outcome) \<Rightarrow> 'f hook_registry
    \<Rightarrow> hook_cache \<Rightarrow> 'w \<Rightarrow> string \<Rightarrow> 'a payload option
    \<Rightarrow> hook_cache \<times> ('a hook_context \<times> 'w) \<times> 'a hook_result list" where
  "execute_pre_tool call r cache w tool args =
     execute_hooks call PreTool r cache (pre_tool_context tool args, w)"

definition execute_post_tool ::
  "('f \<Rightarrow> 'a hook_context \<times> 'w \<Rightarrow> ('a hook_context \<times> 'w) \<times> 'a hook_outcome) \<Rightarrow> 'f hook_registry
    \<Rightarrow> hook_cache \<Rightarrow> 'w \<Rightarrow> string \<Rightarrow> 'a pyval \<Rightarrow> 'a payload option
    \<Rightarrow> hook_cache \<times> ('a hook_context \<times> 'w) \<times> 'a hook_result list" where
  "execute_post_tool call r cache w tool result args =
     execute_hooks call PostTool r cache (post_tool_context tool result args, w)"

definition execute_on_edit ::
  "('f \<Rightarrow> 'a hook_context \<times> 'w \<Rightarrow> ('a hook_context \<times> 'w) \<times> 'a hook_outcome) \<Rightarrow> 'f hook_registry
    \<Rightarrow> hook_cache \<Rightarrow> 'w \<Rightarrow> string \<Rightarrow> 'a payload option
    \<Rightarrow> hook_cache \<times> ('a hook_context \<times> 'w) \<times> 'a hook_result list" where
  "execute_on_edit call r cache w path meta =
     execute_hooks call OnEdit r cache (on_edit_context path meta, w)"

definition execute_on_notification ::
  "('f \<Rightarrow> 'a hook_context \<times> 'w \<Rightarrow> ('a hook_context \<times> 'w) \<times> 'a hook_outcome) \<Rightarrow> 'f hook_registry
    \<Rightarrow> hook_cache \<Rightarrow> 'w \<Rightarrow> string \<Rightarrow> 'a payload option
    \<Rightarrow> hook_cache \<times> ('a hook_context \<times> 'w) \<times> 'a hook_result list" where
  "execute_on_notification call r cache w kind data =
     execute_hooks call OnNotification r cache (on_notification_context kind data, w)"

subsection \<open>Invariant of the registry\<close>

text \<open>
  Each type's list is the stable sort by priority of that type's hooks in registration order.
\<close>

definition hook_addrs :: "'f hook_registry \<Rightarrow> hook_type \<Rightarrow> nat list" where
  "hook_addrs r ty = filter (\<lambda>a. hk_type (hr_heap r ! a) = ty) (map snd (hr_hooks r))"

definition registry_wf :: "'f hook_registry \<Rightarrow> bool" where
  "registry_wf r \<longleftrightarrow> wf_dict (hr_hooks r) \<and>
     (\<forall>(n, a) \<in> set (hr_hooks r). a < length (hr_heap r) \<and> hk_name (hr_heap r ! a) = n) \<and>
     (\<forall>ty. hr_by_type r ty = sort_key (prio_at r) (hook_addrs r ty))"

lemma registry_wf_new [simp]: "registry_wf registry_new"
  by (simp add: registry_wf_def registry_new_def hook_addrs_def)

lemma sort_key_append_single:
  "sort_key f (sort_key f xs @ [x]) = sort_key f (xs @ [x])"
proof (rule properties_for_sort_key)
  fix k
  have e: "(\<lambda>y. f k = f y) = (\<lambda>y. f y = f k)" by auto
  show "filter (\<lambda>y. f k = f y) (sort_key f (xs @ [x]))
      = filter (\<lambda>y. f k = f y) (sort_key f xs @ [x])"
    unfolding e filter_append sort_key_stable ..
qed simp_all

lemma sort_key_cong: "\<forall>x \<in> set xs. f x = g x \<Longrightarrow> sort_key f xs = sort_key g xs"
proof (induction xs)
  case (Cons x xs)
  have "insort_key f x ys = insort_key g x ys" if "\<forall>y \<in> set ys. f y = g y" "f x = g x" for ys
    using that by (induction ys) auto
  with Cons show ?case by simp
qed simp

lemma register_wf:
  assumes "registry_wf r" shows "registry_wf (fst (register r name ty prio f desc))"
proof (cases "map_of (hr_hooks r) name")
  case None
  let ?a = "length (hr_heap r)"
  let ?h = "\<lparr>hk_name = name, hk_type = ty, hk_priority = prio, hk_func = f,
             hk_description = desc, hk_enabled = True\<rparr>"
  let ?r = "fst (register r name ty prio f desc)"
  have fields: "hr_heap ?r = hr_heap r @ [?h]" "hr_hooks ?r = hr_hooks r @ [(name, ?a)]"
    using None by (simp_all add: register_def Let_def dict_update_fresh)
  have b: "a < ?a \<and> hk_name (hr_heap r ! a) = n" if "(n, a) \<in> set (hr_hooks r)" for n a
    using assms that by (auto simp: registry_wf_def)
  have p: "prio_at ?r a = prio_at r a" if "a < ?a" for a
    using that by (simp add: prio_at_def fields nth_append)
  have "map snd (hr_hooks ?r) = map snd (hr_hooks r) @ [?a]" by (simp add: fields)
  moreover have "filter (\<lambda>a. hk_type ((hr_heap r @ [?h]) ! a) = t) (map snd (hr_hooks r)) = hook_addrs r t" for t
    unfolding hook_addrs_def by (rule filter_cong) (auto simp: nth_append dest: b)
  ultimately have addrs: "hook_addrs ?r t = hook_addrs r t @ (if t = ty then [?a] else [])" for t
    unfolding hook_addrs_def [of ?r] fields(1) by (simp add: nth_append)
  have lt: "\<forall>a \<in> set (hook_addrs r t). a < ?a" for t
    by (auto simp: hook_addrs_def dest: b)
  have old: "hr_by_type r t = sort_key (prio_at ?r) (hook_addrs r t)" for t
    using assms sort_key_cong [of "hook_addrs r t" "prio_at r" "prio_at ?r"] lt p
    by (simp add: registry_wf_def)
  have pr: "prio_at ?r = prio_at (r\<lparr>hr_heap := hr_heap r @ [?h], hr_hooks := AList.update name ?a (hr_hooks r)\<rparr>)"
    by (simp add: prio_at_def fields fun_eq_iff)
  have "hr_by_type ?r t = (if t = ty then sort_key (prio_at ?r) (hr_by_type r ty @ [?a]) else hr_by_type r t)" for t
    unfolding pr using None by (simp add: register_def Let_def)
  then have "hr_by_type ?r t = sort_key (prio_at ?r) (hook_addrs ?r t)" for t
    by (simp add: old addrs sort_key_append_single)
  moreover have "a < length (hr_heap ?r) \<and> hk_name (hr_heap ?r ! a) = n" if "(n, a) \<in> set (hr_hooks ?r)" for n a
    using that by (auto simp: fields nth_append dest: b)
  moreover have "wf_dict (hr_hooks ?r)"
    using assms None by (auto simp: fields registry_wf_def wf_dict_def map_of_eq_None_iff)
  ultimately show ?thesis by (auto simp: registry_wf_def)
next
  case (Some a)
  with assms show ?thesis by (simp add: register_def)
qed

lemma unregister_wf:
  assumes "registry_wf r" shows "registry_wf (fst (unregister r name))"
proof (cases "map_of (hr_hooks r) name")
  case None
  with assms show ?thesis by (simp add: unregister_def)
next
  case (Some a0)
  let ?r = "fst (unregister r name)"
  let ?ty = "hk_type (hr_heap r ! a0)"
  let ?keep = "\<lambda>b. hk_name (hr_heap r ! b) \<noteq> name"
  have fields: "hr_heap ?r = hr_heap r" "hr_hooks ?r = filter (\<lambda>p. fst p \<noteq> name) (hr_hooks r)"
    using Some by (auto simp: unregister_def Let_def AList.delete_eq split_beta intro!: filter_cong)
  have b: "a < length (hr_heap r) \<and> hk_name (hr_heap r ! a) = n" if "(n, a) \<in> set (hr_hooks r)" for n a
    using assms that by (auto simp: registry_wf_def)
  have pr: "prio_at ?r = prio_at r" by (simp add: prio_at_def fields fun_eq_iff)
  have "map snd (hr_hooks ?r) = filter ?keep (map snd (hr_hooks r))"
    unfolding fields filter_map comp_def
    by (rule arg_cong [where f = "map snd"], rule filter_cong) (auto dest: b)
  then have addrs: "hook_addrs ?r t = filter ?keep (hook_addrs r t)" for t
    unfolding hook_addrs_def fields by (simp add: conj_commute)
  have other: "filter ?keep (hook_addrs r t) = hook_addrs r t" if "t \<noteq> ?ty" for t
  proof (rule filter_True, rule ballI)
    fix a assume a: "a \<in> set (hook_addrs r t)"
    then obtain n where n: "(n, a) \<in> set (hr_hooks r)" "hk_type (hr_heap r ! a) = t"
      by (auto simp: hook_addrs_def)
    show "?keep a"
    proof
      assume "hk_name (hr_heap r ! a) = name"
      with b [OF n(1)] n(1) have "map_of (hr_hooks r) name = Some a"
        using assms by (simp add: registry_wf_def wf_dict_get)
      with Some n(2) that show False by simp
    qed
  qed
  have "hr_by_type ?r t = (if t = ?ty then filter ?keep (hr_by_type r ?ty) else hr_by_type r t)" for t
    using Some by (simp add: unregister_def Let_def)
  then have "hr_by_type ?r t = sort_key (prio_at ?r) (hook_addrs ?r t)" for t
    using assms by (auto simp: registry_wf_def addrs other pr filter_sort)
  moreover have "wf_dict (hr_hooks ?r)"
    using assms unfolding fields by (simp add: registry_wf_def wf_dict_def distinct_map_filter)
  ultimately show ?thesis using b by (auto simp: registry_wf_def fields)
qed

lemma set_enabled_wf:
  assumes "registry_wf r" shows "registry_wf (fst (set_enabled r name x))"
proof (cases "map_of (hr_hooks r) name")
  case None
  with assms show ?thesis by (simp add: set_enabled_def)
next
  case (Some a)
  let ?e = "(hr_heap r ! a)\<lparr>hk_enabled := x\<rparr>"
  have same: "hk_type ((hr_heap r)[a := ?e] ! b) = hk_type (hr_heap r ! b)"
    "hk_name ((hr_heap r)[a := ?e] ! b) = hk_name (hr_heap r ! b)"
    "hk_priority ((hr_heap r)[a := ?e] ! b) = hk_priority (hr_heap r ! b)" for b
    by (simp_all add: nth_update_same [of hk_type] nth_update_same [of hk_name]
        nth_update_same [of hk_priority])
  have "prio_at (r\<lparr>hr_heap := (hr_heap r)[a := ?e]\<rparr>) = prio_at r"
    "hook_addrs (r\<lparr>hr_heap := (hr_heap r)[a := ?e]\<rparr>) = hook_addrs r"
    by (simp_all add: prio_at_def hook_addrs_def same fun_eq_iff)
  with Some assms show ?thesis by (auto simp: set_enabled_def registry_wf_def same)
qed

subsection \<open>Sequences of registry operations\<close>

datatype 'f registry_op =
    Register string hook_type hook_priority 'f string
  | Unregister string
  | Enable string
  | Disable string
  | Clear

definition registry_exec :: "'f hook_registry \<Rightarrow> 'f registry_op \<Rightarrow> 'f hook_registry" where
  "registry_exec r x =
     (case x of
        Register name ty prio f desc \<Rightarrow> fst (register r name ty prio f desc)
      | Unregister name \<Rightarrow> fst (unregister r name)
      | Enable name \<Rightarrow> fst (hook_enable r name)
      | Disable name \<Rightarrow> fst (hook_disable r name)
      | Clear \<Rightarrow> registry_clear r)"

lemma registry_exec_wf: "registry_wf r \<Longrightarrow> registry_wf (registry_exec r x)"
proof (cases x)
  case Clear
  then show ?thesis by (simp add: registry_exec_def registry_clear_def registry_wf_def hook_addrs_def)
qed (simp_all add: registry_exec_def register_wf unregister_wf hook_enable_def hook_disable_def set_enabled_wf)

text \<open>
  Hooks are kept in priority order. After any sequence of registrations, removals,
  switches and clears, the hooks of a type are exactly the registered hooks of that type,
  ordered by priority and, within a priority, by time of registration.
\<close>

theorem registry_priority_order:
  "let r = foldl registry_exec registry_new ops;
       hooks = map (\<lambda>a. hr_heap r ! a) (get_hooks r ty)
   in hooks = sort_key (priority_value \<circ> hk_priority) (filter (\<lambda>h. hk_type h = ty) (list_hooks r)) \<and>
      wf_dict (hr_hooks r) \<and> map hk_name (list_hooks r) = map fst (hr_hooks r)"
proof -
  have "registry_wf (foldl registry_exec r ops)" if "registry_wf r" for r :: "'a hook_registry"
    using that by (induction ops arbitrary: r) (auto simp: registry_exec_wf)
  then have wf: "registry_wf (foldl registry_exec registry_new ops)" by simp
  let ?r = "foldl registry_exec registry_new ops"
  let ?p = "\<lambda>h. priority_value (hk_priority h)"
  have ins: "map (\<lambda>a. hr_heap ?r ! a) (insort_key (prio_at ?r) x xs)
      = insort_key ?p (hr_heap ?r ! x) (map (\<lambda>a. hr_heap ?r ! a) xs)" for x xs
    by (induction xs) (auto simp: prio_at_def)
  have "map (\<lambda>a. hr_heap ?r ! a) (sort_key (prio_at ?r) xs) = sort_key ?p (map (\<lambda>a. hr_heap ?r ! a) xs)" for xs
    by (induction xs) (auto simp: ins)
  then have "map (\<lambda>a. hr_heap ?r ! a) (get_hooks ?r ty)
      = sort_key ?p (filter (\<lambda>h. hk_type h = ty) (list_hooks ?r))"
    using wf by (simp add: get_hooks_def registry_wf_def hook_addrs_def list_hooks_def filter_map comp_def split_beta')
  moreover have "map hk_name (list_hooks ?r) = map fst (hr_hooks ?r)"
    using wf by (auto simp: list_hooks_def registry_wf_def)
  ultimately show ?thesis using wf by (simp add: Let_def registry_wf_def comp_def)
qed

interpretation hookreg: keep_first registry_wf
  "\<lambda>k h. hk_name h = k \<and> hk_enabled h" get_hook
  "\<lambda>r k h. register r k (hk_type h) (hk_priority h) (hk_func h) (hk_description h)"
proof
  fix r :: "'f hook_registry" and k and h :: "'f hook_registration"
  assume wf: "registry_wf r" and h: "hk_name h = k \<and> hk_enabled h"
  let ?res = "register r k (hk_type h) (hk_priority h) (hk_func h) (hk_description h)"
  show "registry_wf (fst ?res)" using wf by (rule register_wf)
  show "snd ?res \<longleftrightarrow> get_hook r k = None"
    by (auto simp: register_def get_hook_def Let_def split: option.splits)
  show "get_hook (fst ?res) = (if get_hook r k = None then (get_hook r)(k \<mapsto> h) else get_hook r)"
  proof (cases "map_of (hr_hooks r) k")
    case None
    have "a < length (hr_heap r)" if "map_of (hr_hooks r) j = Some a" for j a
      using wf map_of_SomeD [OF that] by (auto simp: registry_wf_def)
    moreover have "\<lparr>hk_name = k, hk_type = hk_type h, hk_priority = hk_priority h, hk_func = hk_func h,
        hk_description = hk_description h, hk_enabled = True\<rparr> = h"
      using h by (cases h) simp
    ultimately have "get_hook (fst ?res) j = (if j = k then Some h else get_hook r j)" for j
      using None by (cases "map_of (hr_hooks r) j")
        (auto simp: register_def get_hook_def Let_def nth_append)
    with None show ?thesis by (auto simp: get_hook_def)
  qed (simp add: register_def get_hook_def)
qed

subsection \<open>Fail-fast execution\<close>

text \<open>Whether calling a hook stops the run: an enabled critical one that rejects or raises.\<close>

definition stops :: "'f hook_registration \<Rightarrow> 'a hook_outcome \<Rightarrow> bool" where
  "stops h out = (hk_enabled h \<and> hk_priority h = CriticalP \<and>
     (case out of Returned v \<Rightarrow> v = PBool False | RaisedExc _ \<Rightarrow> True))"

text \<open>The hooks a run goes through: up to and including the first that stops it.\<close>

fun ran ::
  "('f \<Rightarrow> 'c \<Rightarrow> 'c \<times> 'a hook_outcome) \<Rightarrow> 'f hook_registration list \<Rightarrow> 'c \<Rightarrow> 'f hook_registration list" where
  "ran call [] c = []"
| "ran call (h # hs) c =
     h # (if \<not> hk_enabled h then ran call hs c
          else if stops h (snd (call (hk_func h) c)) then []
          else ran call hs (fst (call (hk_func h) c)))"

definition result_status :: "'f hook_registration \<Rightarrow> 'a hook_outcome \<Rightarrow> hook_status" where
  "result_status h out =
     (if \<not> hk_enabled h then Skipped
      else case out of RaisedExc _ \<Rightarrow> HookError
                     | Returned v \<Rightarrow> if v = PBool False then Blocked else Success)"

lemma run_hooks_step:
  "run_hooks call (h # hs) c =
     (if \<not> hk_enabled h then
        (fst (run_hooks call hs c),
         \<lparr>hs_name = hk_name h, hs_status = Skipped, hs_message = ''Hook deshabilitado'', hs_data = None\<rparr>
           # snd (run_hooks call hs c))
      else
        let (c1, out) = call (hk_func h) c;
            r = \<lparr>hs_name = hk_name h, hs_status = result_status h out,
                 hs_message =
                   (case out of
                      RaisedExc exc \<Rightarrow> ''Error: '' @ exc
                    | Returned v \<Rightarrow> or_default (hk_description h)
                        (if v = PBool False then ''Hook rechazo la operacion''
                         else ''Ejecutado exitosamente'')),
                 hs_data = (case out of Returned (PDict d) \<Rightarrow> Some d | _ \<Rightarrow> None)\<rparr>
        in if stops h out then (c1, [r])
           else (fst (run_hooks call hs c1), r # snd (run_hooks call hs c1)))"
  by (auto simp: stops_def result_status_def Let_def split_beta
      split: prod.splits hook_outcome.splits pyval.splits bool.splits)

lemma run_hooks_ran:
  "map hs_name (snd (run_hooks call hs c)) = map hk_name (ran call hs c)"
  by (induction call hs c rule: ran.induct)
     (auto simp: run_hooks_step Let_def split_beta simp del: run_hooks.simps(2))

lemma ran_prefix: "\<exists>n. ran call hs c = take n hs"
proof (induction call hs c rule: ran.induct)
  case (2 call h hs c)
  then have "\<exists>n. (if \<not> hk_enabled h then ran call hs c
          else if stops h (snd (call (hk_func h) c)) then []
          else ran call hs (fst (call (hk_func h) c))) = take n hs"
    by (auto intro: exI [of _ 0])
  then obtain n where n: "(if \<not> hk_enabled h then ran call hs c
          else if stops h (snd (call (hk_func h) c)) then []
          else ran call hs (fst (call (hk_func h) c))) = take n hs" ..
  show ?case by (rule exI [of _ "Suc n"]) (simp only: ran.simps n take_Suc_Cons)
qed simp

lemma run_hooks_blocked:
  "list_all (\<lambda>h. hk_priority h \<noteq> CriticalP) hs \<Longrightarrow> ran call hs c = hs"
  by (induction call hs c rule: ran.induct) (auto simp: stops_def)

text \<open>The last hook of a run that was cut short rejected or raised, and was critical.\<close>

lemma ran_cut:
  "ran call hs c \<noteq> hs \<Longrightarrow>
     ran call hs c \<noteq> [] \<and> hk_priority (last (ran call hs c)) = CriticalP \<and>
     hs_status (last (snd (run_hooks call hs c))) \<in> {Blocked, HookError} \<and>
     snd (run_hooks call hs c) \<noteq> []"
  by (induction call hs c rule: ran.induct)
     (auto simp: run_hooks_step stops_def result_status_def Let_def split_beta
       simp del: run_hooks.simps(2) split: hook_outcome.splits if_splits)

text \<open>
  Fail-fast. Running the hooks of a type calls them in order and reports one result for
  each hook gone through, by name. The run ends early only at an enabled critical hook that
  rejects or raises, whose result is the last one reported; no hook after it is reported. A
  list without critical hooks is always run to its end.
\<close>

theorem hooks_fail_fast:
  "let hs = map (\<lambda>a. hr_heap r ! a) (snd (cached_hooks cache r ty));
       (cache', c', rs) = execute_hooks call ty r cache c
   in (\<exists>n. map hs_name rs = take n (map hk_name hs)) \<and>
      (if length rs < length hs
       then hk_priority (hs ! (length rs - 1)) = CriticalP \<and>
            rs \<noteq> [] \<and> hs_status (last rs) \<in> {Blocked, HookError} \<and>
            list_ex (\<lambda>h. hk_priority h = CriticalP) hs
       else map hs_name rs = map hk_name hs)"
proof -
  define hs where "hs = map (\<lambda>a. hr_heap r ! a) (snd (cached_hooks cache r ty))"
  define rs where "rs = snd (run_hooks call hs c)"
  have ex: "execute_hooks call ty r cache c = (fst (cached_hooks cache r ty), fst (run_hooks call hs c), rs)"
    by (simp add: execute_hooks_def hs_def rs_def Let_def split_beta)
  have names: "map hs_name rs = map hk_name (ran call hs c)" by (simp add: rs_def run_hooks_ran)
  then have len: "length rs = length (ran call hs c)" by (metis length_map)
  obtain n where n: "ran call hs c = take n hs" using ran_prefix [of call hs c] by (elim exE)
  show ?thesis
  proof (cases "ran call hs c = hs")
    case True
    then show ?thesis unfolding hs_def [symmetric] ex Let_def split_conv names
      using len by (auto intro: exI [of _ "length hs"])
  next
    case False
    with n len have lt: "length rs < length hs" by (cases "n < length hs") auto
    from ran_cut [OF False] have cut: "ran call hs c \<noteq> []" "hk_priority (last (ran call hs c)) = CriticalP"
      "hs_status (last rs) \<in> {Blocked, HookError}" "rs \<noteq> []" by (auto simp: rs_def)
    have "last (ran call hs c) = hs ! (length rs - 1)"
      using cut(1) lt len n by (simp add: last_conv_nth nth_take)
    moreover have "list_ex (\<lambda>h. hk_priority h = CriticalP) hs"
      using False run_hooks_blocked [of hs call c] by (auto simp: list_ex_iff list_all_iff)
    moreover have "\<exists>n. map hs_name rs = take n (map hk_name hs)"
      unfolding names n by (auto simp: take_map)
    ultimately show ?thesis unfolding hs_def [symmetric] ex Let_def split_conv
      using cut lt by auto
  qed
qed

text \<open>
  The manager keeps the first list it sees. Once a type's hooks have been executed, a
  hook registered afterwards is in the registry's list but is never called by the manager:
  executing the type gives exactly what it gave without it, critical hooks included.
\<close>

theorem hook_cache_stale:
  assumes "registry_wf r" and "execute_hooks call ty r cache c = (cache', c', rs)"
    and "register r name ty prio f desc = (r', True)"
    and "list_all (\<lambda>as. list_all (\<lambda>a. a < length (hr_heap r)) as) (map snd cache)"
  shows "length (hr_heap r) \<in> set (get_hooks r' ty) \<and>
         hr_heap r' ! length (hr_heap r) = \<lparr>hk_name = name, hk_type = ty, hk_priority = prio,
           hk_func = f, hk_description = desc, hk_enabled = True\<rparr> \<and>
         execute_hooks call ty r' cache' c2 = execute_hooks call ty r cache' c2"
proof -
  let ?a = "length (hr_heap r)"
  from assms(3) have none: "map_of (hr_hooks r) name = None"
    by (auto simp: register_def Let_def split: option.splits)
  with assms(3) have r': "?a \<in> set (get_hooks r' ty)" "hr_heap r' = hr_heap r @
      [\<lparr>hk_name = name, hk_type = ty, hk_priority = prio, hk_func = f, hk_description = desc,
        hk_enabled = True\<rparr>]"
    by (auto simp: register_def get_hooks_def Let_def)
  have reg: "a < ?a" if "a \<in> set (hr_by_type r ty)" for a
    using assms(1) that by (fastforce simp: registry_wf_def hook_addrs_def)
  obtain as where as: "map_of cache' ty = Some as" "\<forall>a \<in> set as. a < ?a"
  proof (cases "map_of cache ty")
    case None
    with assms(2) have "map_of cache' ty = Some (get_hooks r ty)"
      by (auto simp: execute_hooks_def cached_hooks_def Let_def)
    with that reg show ?thesis by (simp add: get_hooks_def)
  next
    case (Some as)
    with assms(2) have "map_of cache' ty = Some as"
      by (auto simp: execute_hooks_def cached_hooks_def Let_def split_beta)
    moreover have "as \<in> set (map snd cache)" using map_of_SomeD [OF Some] by force
    ultimately show ?thesis using that assms(4) by (auto simp: list_all_iff)
  qed
  then have "map (\<lambda>a. hr_heap r' ! a) as = map (\<lambda>a. hr_heap r ! a) as"
    by (simp add: r'(2) nth_append)
  then have "execute_hooks call ty r' cache' c2 = execute_hooks call ty r cache' c2"
    by (simp only: execute_hooks_def cached_hooks_def as(1) Let_def option.case split_conv)
  with r' show ?thesis by simp
qed

definition demo_registry :: "nat hook_registry" where
  "demo_registry = fst (register registry_new ''audit'' PreTool NormalP 0 '''')"

text \<open>Function 1 rejects, the others accept; the world counts the calls.\<close>

definition demo_call :: "nat \<Rightarrow> nat \<Rightarrow> nat \<times> unit hook_outcome" where
  "demo_call f n = (Suc n, Returned (PBool (f \<noteq> 1)))"

lemma hook_cache_stale_witness:
  "\<exists>r'. register demo_registry ''firewall'' PreTool CriticalP 1 '''' = (r', True) \<and>
     has_blocked (snd (snd (execute_hooks demo_call PreTool r' [] 0))) \<and>
     \<not> has_blocked (snd (snd (execute_hooks demo_call PreTool r' [(PreTool, [0])] 0)))"
proof -
  have wf: "registry_wf demo_registry" unfolding demo_registry_def by (rule register_wf) simp
  have d: "demo_registry = \<lparr>hr_heap = [\<lparr>hk_name = ''audit'', hk_type = PreTool, hk_priority = NormalP,
        hk_func = 0, hk_description = '''', hk_enabled = True\<rparr>], hr_hooks = [(''audit'', 0)],
        hr_by_type = (\<lambda>_. [])(PreTool := [0])\<rparr>"
    by (simp add: demo_registry_def register_def registry_new_def Let_def)
  obtain r' where r: "register demo_registry ''firewall'' PreTool CriticalP 1 '''' = (r', True)"
    by (simp add: register_def d Let_def)
  have e: "execute_hooks demo_call PreTool demo_registry [] 0 = ([(PreTool, [0])], 1,
      [\<lparr>hs_name = ''audit'', hs_status = Success, hs_message = ''Ejecutado exitosamente'', hs_data = None\<rparr>])"
    by (simp add: execute_hooks_def cached_hooks_def get_hooks_def d demo_call_def or_default_def)
  from hook_cache_stale [OF wf e r, of 0]
  have "execute_hooks demo_call PreTool r' [(PreTool, [0])] 0
      = execute_hooks demo_call PreTool demo_registry [(PreTool, [0])] 0" by simp
  moreover have "has_blocked (snd (snd (execute_hooks demo_call PreTool r' [] 0)))"
    using r by (auto simp: register_def d Let_def execute_hooks_def cached_hooks_def get_hooks_def
        prio_at_def priority_value_def demo_call_def has_blocked_def)
  ultimately show ?thesis using r
    by (simp add: execute_hooks_def cached_hooks_def d demo_call_def has_blocked_def)
qed

end
