(* ===== verification/ZeroTrust.thy ===== *)
theory ZeroTrust
  imports Complex_Main PyText
begin

text \<open>
  Agent tokens and the access policy engine (harness/security/zero_trust.py). The keyed hash
  (\<open>hmac\<close> with SHA-256) is the parameter \<open>mac\<close> and the text of a timestamp the parameter
  \<open>fmt\<close>. Times are rationals; clock readings, new keys and token ids are arguments.
\<close>

datatype agent_role =
  Coordinator | Builder | Scientist | Guardian | Evolve | Explorer | Specialist | SystemRole

record agent_identity =
  ai_id :: string
  ai_role :: agent_role
  ai_key_hash :: string
  ai_permissions :: "string list"
  ai_issued :: rat
  ai_expires :: rat

definition identity_expired :: "agent_identity \<Rightarrow> rat \<Rightarrow> bool" where
  "identity_expired a now = (if ai_expires a = 0 then False else now > ai_expires a)"

definition has_permission :: "agent_identity \<Rightarrow> string \<Rightarrow> bool" where
  "has_permission a p = (p \<in> set (ai_permissions a))"

record agent_token =
  at_id :: string
  at_agent :: string
  at_signature :: string
  at_issued :: rat
  at_expires :: rat
  at_scopes :: "string list"

record zt_config =
  zc_key :: string
  zc_ttl :: int
  zc_max_agents :: int
  zc_strict :: bool

record token_manager =
  tm_config :: zt_config
  tm_active :: "(string \<times> agent_token) list"
  tm_revoked :: "string list"
  tm_cache :: "string list"

datatype token_error = EmptyAgentId | MaxAgents int

definition compute_signature ::
  "(string \<Rightarrow> string \<Rightarrow> string) \<Rightarrow> (rat \<Rightarrow> string) \<Rightarrow> string \<Rightarrow> string \<Rightarrow> rat \<Rightarrow> rat \<Rightarrow> string \<Rightarrow> string" where
  "compute_signature mac fmt tid agent issued expires key =
     mac key (tid @ '':'' @ agent @ '':'' @ fmt issued @ '':'' @ fmt expires)"

definition token_is_valid ::
  "(string \<Rightarrow> string \<Rightarrow> string) \<Rightarrow> (rat \<Rightarrow> string) \<Rightarrow> agent_token \<Rightarrow> string \<Rightarrow> rat \<Rightarrow> bool" where
  "token_is_valid mac fmt t key now =
     (if now > at_expires t then False
      else at_signature t =
             compute_signature mac fmt (at_id t) (at_agent t) (at_issued t) (at_expires t) key)"

definition token_manager_new :: "zt_config \<Rightarrow> token_manager" where
  "token_manager_new cfg = \<lparr>tm_config = cfg, tm_active = [], tm_revoked = [], tm_cache = []\<rparr>"

text \<open>\<open>ttl or self._config.token_ttl\<close>: a ttl of 0 counts as none.\<close>

definition effective_ttl :: "token_manager \<Rightarrow> int option \<Rightarrow> int" where
  "effective_ttl m ttl =
     (case ttl of None \<Rightarrow> zc_ttl (tm_config m) | Some n \<Rightarrow> if n = 0 then zc_ttl (tm_config m) else n)"

definition create_token ::
  "(string \<Rightarrow> string \<Rightarrow> string) \<Rightarrow> (rat \<Rightarrow> string) \<Rightarrow> token_manager \<Rightarrow> string \<Rightarrow> string list option
    \<Rightarrow> int option \<Rightarrow> string \<Rightarrow> rat \<Rightarrow> token_manager \<times> (token_error + agent_token)" where
  "create_token mac fmt m agent scopes ttl fresh now =
     (if py_blank agent then (m, Inl EmptyAgentId)
      else if zc_max_agents (tm_config m) \<le> int (length (tm_active m))
        then (m, Inl (MaxAgents (zc_max_agents (tm_config m))))
      else
        let expires = now + of_int (effective_ttl m ttl);
            t = \<lparr>at_id = fresh, at_agent = agent,
                 at_signature = compute_signature mac fmt fresh agent now expires (zc_key (tm_config m)),
                 at_issued = now, at_expires = expires,
                 at_scopes = (case scopes of Some s \<Rightarrow> s | None \<Rightarrow> [])\<rparr>
        in (m\<lparr>tm_active := AList.update fresh t (tm_active m)\<rparr>, Inr t))"

definition revoke_internal :: "token_manager \<Rightarrow> string \<Rightarrow> token_manager \<times> bool" where
  "revoke_internal m i =
     (if map_of (tm_active m) i \<noteq> None
      then (m\<lparr>tm_active := AList.delete i (tm_active m), tm_revoked := List.insert i (tm_revoked m),
              tm_cache := List.insert i (tm_cache m)\<rparr>, True)
      else (m, False))"

definition revoke_token :: "token_manager \<Rightarrow> string \<Rightarrow> token_manager \<times> bool" where
  "revoke_token m i = revoke_internal m i"

definition verify_token ::
  "(string \<Rightarrow> string \<Rightarrow> string) \<Rightarrow> (rat \<Rightarrow> string) \<Rightarrow> token_manager \<Rightarrow> string \<Rightarrow> rat \<Rightarrow> rat
    \<Rightarrow> token_manager \<times> agent_token option" where
  "verify_token mac fmt m i now1 now2 =
     (if i \<in> set (tm_cache m) then (m, None)
      else if i \<in> set (tm_revoked m) then (m, None)
      else case map_of (tm_active m) i of
          None \<Rightarrow> (m, None)
        | Some t \<Rightarrow>
            if now1 > at_expires t then (fst (revoke_internal m i), None)
            else if zc_strict (tm_config m) \<and> \<not> token_is_valid mac fmt t (zc_key (tm_config m)) now2
              then (fst (revoke_internal m i), None)
            else (m, Some t))"

text \<open>Returns the old key.\<close>

definition rotate_secret_key :: "token_manager \<Rightarrow> string \<Rightarrow> token_manager \<times> string" where
  "rotate_secret_key m new =
     (m\<lparr>tm_config := (tm_config m)\<lparr>zc_key := new\<rparr>, tm_active := []\<rparr>, zc_key (tm_config m))"

definition cleanup_expired :: "token_manager \<Rightarrow> rat \<Rightarrow> token_manager \<times> nat" where
  "cleanup_expired m now =
     (let expired = map fst (filter (\<lambda>(_, t). now > at_expires t) (tm_active m))
      in (fold (\<lambda>i m. fst (revoke_internal m i)) expired m, length expired))"

definition active_count :: "token_manager \<Rightarrow> nat" where
  "active_count m = length (tm_active m)"

definition verify_agent_identity ::
  "(string \<Rightarrow> string \<Rightarrow> string) \<Rightarrow> (rat \<Rightarrow> string) \<Rightarrow> token_manager \<Rightarrow> string \<Rightarrow> string
    \<Rightarrow> string option \<Rightarrow> rat \<Rightarrow> rat \<Rightarrow> token_manager \<times> bool" where
  "verify_agent_identity mac fmt m agent i perm now1 now2 =
     (case verify_token mac fmt m i now1 now2 of
        (m', None) \<Rightarrow> (m', False)
      | (m', Some t) \<Rightarrow>
          if at_agent t \<noteq> agent then (m', False)
          else (case perm of
                  None \<Rightarrow> (m', True)
                | Some p \<Rightarrow> (m', p = [] \<or> p \<in> set (at_scopes t))))"

subsection \<open>PolicyEngine\<close>

record policy_engine =
  pe_policies :: "(string \<times> (string \<times> bool) list) list"
  pe_roles :: "(agent_role \<times> string list) list"

definition policy_new :: policy_engine where
  "policy_new = \<lparr>pe_policies = [], pe_roles = []\<rparr>"

definition add_policy :: "policy_engine \<Rightarrow> string \<Rightarrow> string \<Rightarrow> bool \<Rightarrow> policy_engine" where
  "add_policy p r a b =
     p\<lparr>pe_policies := AList.update r (AList.update a b (dict_get (pe_policies p) r [])) (pe_policies p)\<rparr>"

definition rule_for :: "policy_engine \<Rightarrow> string \<Rightarrow> string \<Rightarrow> bool option" where
  "rule_for p r a = Option.bind (map_of (pe_policies p) r) (\<lambda>d. map_of d a)"

definition remove_policy :: "policy_engine \<Rightarrow> string \<Rightarrow> string \<Rightarrow> policy_engine \<times> bool" where
  "remove_policy p r a =
     (case rule_for p r a of
        None \<Rightarrow> (p, False)
      | Some _ \<Rightarrow>
          (let d = AList.delete a (dict_get (pe_policies p) r [])
           in (p\<lparr>pe_policies :=
                  (if d = [] then AList.delete r (pe_policies p)
                   else AList.update r d (pe_policies p))\<rparr>, True)))"

text \<open>The loop over the prefixes of the resource, longest first.\<close>

fun wildcard_rule :: "policy_engine \<Rightarrow> string list \<Rightarrow> nat \<Rightarrow> string \<Rightarrow> bool option" where
  "wildcard_rule p parts 0 a = None"
| "wildcard_rule p parts (Suc i) a =
     (case rule_for p (py_join ''/'' (take (Suc i) parts) @ ''/*'') a of
        Some b \<Rightarrow> Some b
      | None \<Rightarrow> wildcard_rule p parts i a)"

definition check_access :: "policy_engine \<Rightarrow> string \<Rightarrow> string \<Rightarrow> agent_role option \<Rightarrow> bool" where
  "check_access p r a role =
     (case rule_for p r a of
        Some b \<Rightarrow> b
      | None \<Rightarrow>
          (let parts = split_on (CHR ''/'') r
           in case wildcard_rule p parts (length parts) a of
                Some b \<Rightarrow> b
              | None \<Rightarrow>
                  (case rule_for p ''*'' a of
                     Some b \<Rightarrow> b
                   | None \<Rightarrow>
                       (case role of
                          None \<Rightarrow> False
                        | Some ro \<Rightarrow> (r @ '':'' @ a) \<in> set (dict_get (pe_roles p) ro [])))))"

definition set_role_permissions :: "policy_engine \<Rightarrow> agent_role \<Rightarrow> string list \<Rightarrow> policy_engine" where
  "set_role_permissions p ro perms = p\<lparr>pe_roles := AList.update ro perms (pe_roles p)\<rparr>"

definition get_role_permissions :: "policy_engine \<Rightarrow> agent_role \<Rightarrow> string list" where
  "get_role_permissions p ro = dict_get (pe_roles p) ro []"

subsection \<open>Policy decisions\<close>

text \<open>The resources whose rules can decide about \<open>r\<close>, in order of precedence.\<close>

definition candidates :: "string \<Rightarrow> string list" where
  "candidates r =
     (let parts = split_on (CHR ''/'') r
      in r # map (\<lambda>i. py_join ''/'' (take i parts) @ ''/*'') (rev [1..<Suc (length parts)]) @ [''*''])"

fun first_rule :: "policy_engine \<Rightarrow> string list \<Rightarrow> string \<Rightarrow> bool option" where
  "first_rule p [] a = None"
| "first_rule p (r # rs) a = (case rule_for p r a of Some b \<Rightarrow> Some b | None \<Rightarrow> first_rule p rs a)"

lemma first_rule_append:
  "first_rule p (rs @ ss) a = (case first_rule p rs a of Some b \<Rightarrow> Some b | None \<Rightarrow> first_rule p ss a)"
  by (induction rs) (auto split: option.split)

lemma wildcard_first_rule:
  "wildcard_rule p parts n a =
     first_rule p (map (\<lambda>i. py_join ''/'' (take i parts) @ ''/*'') (rev [1..<Suc n])) a"
  by (induction n) (auto split: option.split)

lemma check_access_candidates:
  "check_access p r a role =
     (case first_rule p (candidates r) a of
        Some b \<Rightarrow> b
      | None \<Rightarrow> (case role of None \<Rightarrow> False
                  | Some ro \<Rightarrow> (r @ '':'' @ a) \<in> set (get_role_permissions p ro)))"
  by (simp add: check_access_def candidates_def wildcard_first_rule first_rule_append
      get_role_permissions_def Let_def split: option.split)

lemma rule_for_add:
  "rule_for (add_policy p r a b) r' a' = (if r' = r \<and> a' = a then Some b else rule_for p r' a')"
  by (auto simp: rule_for_def add_policy_def dict_get_def split: option.splits)

lemma first_rule_add:
  "first_rule (add_policy p r a b) rs a' =
     (if a' = a \<and> r \<in> set rs \<and> first_rule p (takeWhile (\<lambda>x. x \<noteq> r) rs) a = None
      then Some b else first_rule p rs a')"
  by (induction rs) (auto simp: rule_for_add split: option.splits)

text \<open>
  What a rule decides. Adding a rule for a resource and an action changes exactly the
  decisions on that action for the resources it is a candidate of (itself, its wildcard
  prefixes, \<open>*\<close>) and only where no candidate of higher precedence has a rule: there the rule
  decides, whatever the role; every other decision stays.
\<close>

theorem policy_add_decides:
  "check_access (add_policy p res a b) r a' role =
     (if a' = a \<and> res \<in> set (candidates r) \<and>
         first_rule p (takeWhile (\<lambda>x. x \<noteq> res) (candidates r)) a = None
      then b else check_access p r a' role)"
proof -
  have "get_role_permissions (add_policy p res a b) = get_role_permissions p"
    by (simp add: get_role_permissions_def add_policy_def fun_eq_iff)
  then show ?thesis unfolding check_access_candidates first_rule_add by (simp split: option.split)
qed

lemma rule_for_remove:
  "rule_for (fst (remove_policy p r a)) r' a' = (if r' = r \<and> a' = a then None else rule_for p r' a')"
proof (cases "rule_for p r a")
  case None
  then show ?thesis by (auto simp: remove_policy_def)
next
  case (Some b)
  then obtain d where d: "map_of (pe_policies p) r = Some d" "map_of d a = Some b"
    by (auto simp: rule_for_def bind_eq_Some_conv)
  have "map_of (AList.delete a d) a' = map_of d a'" if "a' \<noteq> a" for a' using that by simp
  then have "AList.delete a d = [] \<Longrightarrow> a' \<noteq> a \<Longrightarrow> map_of d a' = None" by (metis map_of.simps(1))
  with Some d show ?thesis
    by (auto simp: remove_policy_def rule_for_def dict_get_def Let_def)
qed

lemma roles_remove: "pe_roles (fst (remove_policy p r a)) = pe_roles p"
  by (simp add: remove_policy_def Let_def split: option.split)

text \<open>
  Deny by default. With every rule for an action removed, one resource after the other,
  access is left to the role's explicit permissions; with no role it is denied.
\<close>

theorem policy_deny_default:
  "check_access (fold (\<lambda>r p. fst (remove_policy p r a)) (map fst (pe_policies p)) p) r a role =
     (case role of None \<Rightarrow> False
      | Some ro \<Rightarrow> (r @ '':'' @ a) \<in> set (get_role_permissions p ro))"
proof -
  have f: "rule_for (fold (\<lambda>r p. fst (remove_policy p r a)) rs p) r' a =
      (if r' \<in> set rs then None else rule_for p r' a) \<and>
      pe_roles (fold (\<lambda>r p. fst (remove_policy p r a)) rs p) = pe_roles p" for rs r' p
    by (induction rs arbitrary: p) (auto simp: rule_for_remove roles_remove)
  let ?p = "fold (\<lambda>r p. fst (remove_policy p r a)) (map fst (pe_policies p)) p"
  have "rule_for ?p r' a = None" for r'
  proof (cases "r' \<in> set (map fst (pe_policies p))")
    case False
    then have "map_of (pe_policies p) r' = None" by (simp add: map_of_eq_None_iff)
    with False f [of "map fst (pe_policies p)" p r'] show ?thesis by (simp add: rule_for_def [of p])
  qed (use f [of "map fst (pe_policies p)" p r'] in simp)
  then have "first_rule ?p rs a = None" for rs by (induction rs) simp_all
  then show ?thesis
    using f [of "map fst (pe_policies p)" p]
    by (simp add: check_access_candidates get_role_permissions_def split: option.split)
qed

subsection \<open>Token life cycle\<close>

text \<open>
  The operations on a manager. \<open>Tamper\<close> is a client writing to the object \<open>create_token\<close>
  handed out, which is the one the manager keeps.
\<close>

datatype token_op =
    Create string "string list option" "int option" string rat
  | Verify string rat rat
  | Revoke string
  | Rotate string
  | Cleanup rat
  | Tamper string string rat "string list"

definition tamper :: "token_manager \<Rightarrow> string \<Rightarrow> string \<Rightarrow> rat \<Rightarrow> string list \<Rightarrow> token_manager" where
  "tamper m i agent expires scopes =
     (case map_of (tm_active m) i of
        None \<Rightarrow> m
      | Some t \<Rightarrow>
          m\<lparr>tm_active := AList.update i
              (t\<lparr>at_agent := agent, at_expires := expires, at_scopes := scopes\<rparr>) (tm_active m)\<rparr>)"

definition token_exec ::
  "(string \<Rightarrow> string \<Rightarrow> string) \<Rightarrow> (rat \<Rightarrow> string) \<Rightarrow> token_manager \<Rightarrow> token_op \<Rightarrow> token_manager" where
  "token_exec mac fmt m x =
     (case x of
        Create agent scopes ttl fresh now \<Rightarrow> fst (create_token mac fmt m agent scopes ttl fresh now)
      | Verify i now1 now2 \<Rightarrow> fst (verify_token mac fmt m i now1 now2)
      | Revoke i \<Rightarrow> fst (revoke_token m i)
      | Rotate key \<Rightarrow> fst (rotate_secret_key m key)
      | Cleanup now \<Rightarrow> fst (cleanup_expired m now)
      | Tamper i agent expires scopes \<Rightarrow> tamper m i agent expires scopes)"

definition creates :: "string \<Rightarrow> token_op \<Rightarrow> bool" where
  "creates i x = (case x of Create _ _ _ fresh _ \<Rightarrow> fresh = i | _ \<Rightarrow> False)"

text \<open>A token that cannot be verified any more.\<close>

definition dead :: "token_manager \<Rightarrow> string \<Rightarrow> bool" where
  "dead m i \<longleftrightarrow> map_of (tm_active m) i = None \<or> i \<in> set (tm_cache m) \<or> i \<in> set (tm_revoked m)"

lemma revoke_internal_simps [simp]:
  "map_of (tm_active (fst (revoke_internal m i))) = (map_of (tm_active m))(i := None)"
  "set (tm_revoked (fst (revoke_internal m i))) =
     (if map_of (tm_active m) i = None then {} else {i}) \<union> set (tm_revoked m)"
  "set (tm_cache (fst (revoke_internal m i))) =
     (if map_of (tm_active m) i = None then {} else {i}) \<union> set (tm_cache m)"
  "tm_config (fst (revoke_internal m i)) = tm_config m"
  by (auto simp: revoke_internal_def)

lemma fold_revoke:
  "map_of (tm_active (fold (\<lambda>i m. fst (revoke_internal m i)) is m)) j =
     (if j \<in> set is then None else map_of (tm_active m) j) \<and>
   set (tm_revoked m) \<subseteq> set (tm_revoked (fold (\<lambda>i m. fst (revoke_internal m i)) is m)) \<and>
   set (tm_cache m) \<subseteq> set (tm_cache (fold (\<lambda>i m. fst (revoke_internal m i)) is m)) \<and>
   set (tm_revoked (fold (\<lambda>i m. fst (revoke_internal m i)) is m)) \<subseteq> set is \<union> set (tm_revoked m) \<and>
   set (tm_cache (fold (\<lambda>i m. fst (revoke_internal m i)) is m)) \<subseteq> set is \<union> set (tm_cache m) \<and>
   tm_config (fold (\<lambda>i m. fst (revoke_internal m i)) is m) = tm_config m"
proof (induction "is" arbitrary: m)
  case (Cons i js)
  from Cons.IH [of "fst (revoke_internal m i)"] show ?case by (auto split: if_splits)
qed simp

lemma dead_exec:
  assumes "dead m i" and "\<not> creates i x" shows "dead (token_exec mac fmt m x) i"
proof (cases x)
  case (Cleanup now)
  with assms show ?thesis
    using fold_revoke [where j = i and m = m]
    by (simp add: token_exec_def cleanup_expired_def dead_def Let_def) blast
next
  case (Verify j now1 now2)
  with assms show ?thesis
    by (auto simp: token_exec_def verify_token_def dead_def split: option.splits)
qed (use assms in \<open>auto simp: token_exec_def dead_def creates_def create_token_def revoke_token_def
      rotate_secret_key_def tamper_def Let_def split: option.splits\<close>)



lemma dead_not_verified: "dead m i \<Longrightarrow> snd (verify_token mac fmt m i now1 now2) = None"
  by (auto simp: dead_def verify_token_def split: option.splits)

text \<open>What puts an end to a token: a failed verification, a revocation, a rotation, a cleanup.\<close>

definition ends ::
  "(string \<Rightarrow> string \<Rightarrow> string) \<Rightarrow> (rat \<Rightarrow> string) \<Rightarrow> token_manager \<Rightarrow> string \<Rightarrow> token_op \<Rightarrow> bool" where
  "ends mac fmt m i x =
     (case x of
        Verify j now1 now2 \<Rightarrow> j = i \<and> snd (verify_token mac fmt m i now1 now2) = None
      | Revoke j \<Rightarrow> j = i
      | Rotate _ \<Rightarrow> True
      | Cleanup now \<Rightarrow> (case map_of (tm_active m) i of None \<Rightarrow> True | Some t \<Rightarrow> now > at_expires t)
      | _ \<Rightarrow> False)"

lemma ends_dead:
  assumes "ends mac fmt m i x" shows "dead (token_exec mac fmt m x) i"
proof (cases x)
  case (Cleanup now)
  let ?is = "map fst (filter (\<lambda>(_, t). now > at_expires t) (tm_active m))"
  have "i \<in> set ?is \<or> map_of (tm_active m) i = None"
    using assms Cleanup by (force simp: ends_def split: option.splits dest: map_of_SomeD)
  then show ?thesis
    using fold_revoke [of ?is m i] Cleanup
    by (auto simp: token_exec_def cleanup_expired_def dead_def Let_def)
next
  case (Verify j now1 now2)
  with assms show ?thesis
    by (auto simp: ends_def token_exec_def verify_token_def dead_def split: option.splits if_splits)
qed (use assms in \<open>auto simp: ends_def token_exec_def revoke_token_def rotate_secret_key_def dead_def\<close>)

text \<open>
  C40: a token that ended stays invalid. Once a token has failed a verification, been revoked,
  been cleaned up as expired, or the key has been rotated, no later verification accepts its
  id, whatever happens in between, unless a new token is created under that very id.
\<close>

theorem token_end_is_final:
  assumes "ends mac fmt m i x" and "list_all (\<lambda>y. \<not> creates i y) ys"
  shows "snd (verify_token mac fmt (foldl (token_exec mac fmt) m (x # ys)) i now1 now2) = None"
proof -
  have "dead (foldl (token_exec mac fmt) m ys) i" if "dead m i" for m
    using that assms(2) by (induction ys arbitrary: m) (auto simp: dead_exec)
  with ends_dead [OF assms(1)] show ?thesis by (simp add: dead_not_verified)
qed

definition demo_manager :: token_manager where
  "demo_manager = fst (create_token (\<lambda>k s. k @ s) (\<lambda>_. ''t'')
     (token_manager_new \<lparr>zc_key = ''k'', zc_ttl = 3600, zc_max_agents = 50, zc_strict = True\<rparr>)
     ''agent'' (Some [''read'']) None ''tok1'' 0)"

lemma demo_manager_fields:
  "tm_active demo_manager = [(''tok1'', \<lparr>at_id = ''tok1'', at_agent = ''agent'',
     at_signature = ''ktok1:agent:t:t'', at_issued = 0, at_expires = 3600, at_scopes = [''read'']\<rparr>)]"
  "tm_revoked demo_manager = []" "tm_cache demo_manager = []"
  "tm_config demo_manager = \<lparr>zc_key = ''k'', zc_ttl = 3600, zc_max_agents = 50, zc_strict = True\<rparr>"
  by (simp_all add: demo_manager_def create_token_def token_manager_new_def compute_signature_def
      effective_ttl_def py_blank_iff py_isspace_def Let_def)

lemma token_end_is_final_witness:
  "snd (verify_token (\<lambda>k s. k @ s) (\<lambda>_. ''t'')
     (foldl (token_exec (\<lambda>k s. k @ s) (\<lambda>_. ''t'')) demo_manager
        [Revoke ''tok1'', Tamper ''tok1'' ''agent'' 9999 []]) ''tok1'' 1 1) = None"
  using token_end_is_final [of "\<lambda>k s. k @ s" "\<lambda>_. ''t''" demo_manager "''tok1''" "Revoke ''tok1''"
      "[Tamper ''tok1'' ''agent'' 9999 []]" 1 1]
  by (simp add: ends_def creates_def)

text \<open>An operation that leaves the token \<open>i\<close> and the key alone, up to time \<open>e\<close>.\<close>

definition harmless :: "string \<Rightarrow> rat \<Rightarrow> token_op \<Rightarrow> bool" where
  "harmless i e x =
     (case x of
        Create _ _ _ fresh _ \<Rightarrow> fresh \<noteq> i
      | Verify _ now1 now2 \<Rightarrow> now1 \<le> e \<and> now2 \<le> e
      | Revoke j \<Rightarrow> j \<noteq> i
      | Rotate _ \<Rightarrow> False
      | Cleanup now \<Rightarrow> now \<le> e
      | Tamper j _ _ _ \<Rightarrow> j \<noteq> i)"

definition holds_token ::
  "(string \<Rightarrow> string \<Rightarrow> string) \<Rightarrow> (rat \<Rightarrow> string) \<Rightarrow> token_manager \<Rightarrow> agent_token \<Rightarrow> bool" where
  "holds_token mac fmt m t \<longleftrightarrow>
     wf_dict (tm_active m) \<and> map_of (tm_active m) (at_id t) = Some t \<and>
     at_id t \<notin> set (tm_cache m) \<and> at_id t \<notin> set (tm_revoked m) \<and>
     at_signature t =
       compute_signature mac fmt (at_id t) (at_agent t) (at_issued t) (at_expires t) (zc_key (tm_config m))"

lemma revoke_internal_wf [simp]:
  "wf_dict (tm_active m) \<Longrightarrow> wf_dict (tm_active (fst (revoke_internal m i)))"
  by (simp add: revoke_internal_def)

lemma fold_revoke_wf:
  "wf_dict (tm_active m) \<Longrightarrow> wf_dict (tm_active (fold (\<lambda>i m. fst (revoke_internal m i)) is m))"
  by (induction "is" arbitrary: m) auto

lemma holds_verify:
  "holds_token mac fmt m t \<Longrightarrow> now1 \<le> at_expires t \<Longrightarrow> now2 \<le> at_expires t \<Longrightarrow>
     verify_token mac fmt m (at_id t) now1 now2 = (m, Some t)"
  by (auto simp: holds_token_def verify_token_def token_is_valid_def)

lemma holds_exec:
  assumes t: "holds_token mac fmt m t" and x: "harmless (at_id t) (at_expires t) x"
  shows "holds_token mac fmt (token_exec mac fmt m x) t"
proof (cases x)
  case (Cleanup now)
  let ?is = "map fst (filter (\<lambda>(_, t). now > at_expires t) (tm_active m))"
  have "at_id t \<notin> set ?is"
    using x Cleanup t by (auto simp: harmless_def holds_token_def wf_dict_get)
  with fold_revoke [of ?is m "at_id t"] fold_revoke_wf [of m ?is] t show ?thesis
    by (auto simp: Cleanup token_exec_def cleanup_expired_def holds_token_def Let_def)
next
  case (Verify j now1 now2)
  show ?thesis
  proof (cases "j = at_id t")
    case True
    with Verify x t holds_verify [OF t] show ?thesis by (simp add: token_exec_def harmless_def)
  next
    case False
    with Verify t show ?thesis
      by (auto simp: token_exec_def verify_token_def holds_token_def split: option.splits)
  qed
next
  case (Create agent scopes ttl fresh now)
  with t x show ?thesis
    by (auto simp: token_exec_def create_token_def holds_token_def harmless_def Let_def)
next
  case (Revoke j)
  with t x show ?thesis
    by (auto simp: token_exec_def revoke_token_def holds_token_def harmless_def)
next
  case (Tamper j agent expires scopes)
  with t x show ?thesis
    by (auto simp: token_exec_def tamper_def holds_token_def harmless_def split: option.splits)
qed (use x in \<open>simp add: harmless_def\<close>)

text \<open>
  A token is good until it expires. The token \<open>create_token\<close> returns is accepted by every
  verification up to its expiry, strict mode or not, as long as it is not revoked or written
  to, the key is not rotated and its id is not reused.
\<close>

theorem token_valid_until_expiry:
  assumes "wf_dict (tm_active m)" and "fresh \<notin> set (tm_cache m)" and "fresh \<notin> set (tm_revoked m)"
    and "create_token mac fmt m agent scopes ttl fresh now = (m1, Inr t)"
    and "list_all (harmless fresh (at_expires t)) xs"
    and "now1 \<le> at_expires t" and "now2 \<le> at_expires t"
  shows "at_expires t = now + of_int (effective_ttl m ttl) \<and>
         snd (verify_token mac fmt (foldl (token_exec mac fmt) m1 xs) fresh now1 now2) = Some t"
proof -
  from assms(4) have id: "at_id t = fresh" and ex: "at_expires t = now + of_int (effective_ttl m ttl)"
    by (auto simp: create_token_def Let_def split: if_splits)
  have h: "holds_token mac fmt m1 t"
    using assms(1-4) by (auto simp: create_token_def holds_token_def Let_def split: if_splits)
  have "holds_token mac fmt (foldl (token_exec mac fmt) m xs) t" if "holds_token mac fmt m t" for m
    using that assms(5) id by (induction xs arbitrary: m) (auto simp: holds_exec)
  from holds_verify [OF this [OF h] assms(6,7)] ex id show ?thesis by simp
qed

lemma token_valid_until_expiry_witness:
  "\<exists>t. snd (verify_token (\<lambda>k s. k @ s) (\<lambda>_. ''t'') demo_manager ''tok1'' 3600 3600) = Some t"
proof -
  let ?m = "token_manager_new \<lparr>zc_key = ''k'', zc_ttl = 3600, zc_max_agents = 50, zc_strict = True\<rparr>"
  obtain m1 t where c: "create_token (\<lambda>k s. k @ s) (\<lambda>_. ''t'') ?m ''agent'' (Some [''read'']) None ''tok1'' 0
      = (m1, Inr t)"
    by (simp add: create_token_def token_manager_new_def py_blank_iff py_isspace_def Let_def)
  then have "m1 = demo_manager" "at_expires t = 3600"
    by (auto simp: demo_manager_def create_token_def token_manager_new_def effective_ttl_def Let_def
        split: if_splits)
  with token_valid_until_expiry [OF _ _ _ c, of "[]" 3600 3600] show ?thesis
    by (simp add: token_manager_new_def)
qed

text \<open>
  The scopes are not signed. A client that adds a scope to the token object it was given
  keeps a token that passes strict verification, and passes the identity check for the
  permission it gave itself.
\<close>

theorem token_scopes_unsigned:
  assumes "wf_dict (tm_active m)" and "fresh \<notin> set (tm_cache m)" and "fresh \<notin> set (tm_revoked m)"
    and "create_token mac fmt m agent scopes ttl fresh now = (m1, Inr t)"
    and "now1 \<le> at_expires t" and "now2 \<le> at_expires t"
  shows "snd (verify_agent_identity mac fmt
           (tamper m1 fresh agent (at_expires t) (at_scopes t @ [perm])) agent fresh (Some perm) now1 now2)"
  using assms
  by (auto simp: create_token_def tamper_def verify_agent_identity_def verify_token_def
      token_is_valid_def Let_def split: if_splits)

lemma token_scopes_unsigned_witness:
  "snd (verify_agent_identity (\<lambda>k s. k @ s) (\<lambda>_. ''t'')
     (tamper demo_manager ''tok1'' ''agent'' 3600 [''read'', ''admin'']) ''agent'' ''tok1'' (Some ''admin'') 1 1)"
proof -
  let ?m = "token_manager_new \<lparr>zc_key = ''k'', zc_ttl = 3600, zc_max_agents = 50, zc_strict = True\<rparr>"
  obtain m1 t where c: "create_token (\<lambda>k s. k @ s) (\<lambda>_. ''t'') ?m ''agent'' (Some [''read'']) None ''tok1'' 0
      = (m1, Inr t)"
    by (simp add: create_token_def token_manager_new_def py_blank_iff py_isspace_def Let_def)
  then have "m1 = demo_manager" "at_expires t = 3600" "at_scopes t = [''read'']"
    by (auto simp: demo_manager_def create_token_def token_manager_new_def effective_ttl_def Let_def
        split: if_splits)
  with token_scopes_unsigned [OF _ _ _ c, of 1 1 "''admin''"] show ?thesis
    by (simp add: token_manager_new_def)
qed

end
