(* ===== verification/EventBus.thy ===== *)
theory EventBus
  imports PyText
begin

text \<open>
  The publish/subscribe bus with wildcard channels (harness/orchestrator/event_bus.py).
  Callbacks and filters are opaque values of types \<open>'c\<close> and \<open>'f\<close>: \<open>call c e w\<close> runs a
  callback on the client's world and tells whether it returned, \<open>test f e\<close> is a filter's
  verdict, \<open>None\<close> when it raises. Sets of subscription ids are lists without repetition. The
  asynchronous variant of \<open>publish\<close> is left out; callbacks do not call the bus back.
\<close>

datatype event_priority = EvCritical | EvHigh | EvNormal | EvLow

record 'a event =
  ev_id :: string
  ev_channel :: string
  ev_data :: "'a payload"
  ev_source :: string
  ev_priority :: event_priority
  ev_time :: int
  ev_correlation :: string

record ('c, 'f) subscription =
  sb_id :: string
  sb_channel :: string
  sb_callback :: 'c
  sb_agent :: string
  sb_filter :: "'f option"
  sb_max :: int
  sb_count :: nat

record ('a, 'c, 'f) event_bus =
  eb_max_queue :: int
  eb_subs :: "(string \<times> ('c, 'f) subscription) list"
  eb_channels :: "(string \<times> string list) list"
  eb_agents :: "(string \<times> string list) list"
  eb_history :: "'a event list"
  eb_max_history :: nat

definition event_bus_new :: "int \<Rightarrow> ('a, 'c, 'f) event_bus" where
  "event_bus_new max_queue =
     \<lparr>eb_max_queue = max max_queue 100, eb_subs = [], eb_channels = [], eb_agents = [],
      eb_history = [], eb_max_history = 1000\<rparr>"

definition match_channel :: "string \<Rightarrow> string \<Rightarrow> bool" where
  "match_channel pattern channel =
     (if pattern = ''*'' then True
      else if py_endswith pattern ''*'' then py_startswith channel (py_slice_to pattern (- 1))
      else pattern = channel)"

text \<open>\<open>index.setdefault(k, set()).add(i)\<close>, and its removal, which drops an emptied set.\<close>

definition index_add :: "(string \<times> string list) list \<Rightarrow> string \<Rightarrow> string \<Rightarrow> (string \<times> string list) list" where
  "index_add ix k i = AList.update k (List.insert i (dict_get ix k [])) ix"

definition index_discard :: "(string \<times> string list) list \<Rightarrow> string \<Rightarrow> string \<Rightarrow> (string \<times> string list) list" where
  "index_discard ix k i =
     (case map_of ix k of
        None \<Rightarrow> ix
      | Some is \<Rightarrow>
          if removeAll i is = [] then AList.delete k ix else AList.update k (removeAll i is) ix)"

definition subscribe ::
  "('a, 'c, 'f) event_bus \<Rightarrow> string \<Rightarrow> 'c \<Rightarrow> string \<Rightarrow> 'f option \<Rightarrow> int \<Rightarrow> string
    \<Rightarrow> ('a, 'c, 'f) event_bus \<times> string option" where
  "subscribe b channel cb agent flt mx fresh =
     (if channel = [] then (b, None)
      else
        let sub = \<lparr>sb_id = fresh, sb_channel = channel, sb_callback = cb, sb_agent = agent,
                   sb_filter = flt, sb_max = mx, sb_count = 0\<rparr>
        in (b\<lparr>eb_subs := AList.update fresh sub (eb_subs b),
              eb_channels := index_add (eb_channels b) channel fresh,
              eb_agents := (if agent \<noteq> [] then index_add (eb_agents b) agent fresh else eb_agents b)\<rparr>,
            Some fresh))"

definition unsubscribe :: "('a, 'c, 'f) event_bus \<Rightarrow> string \<Rightarrow> ('a, 'c, 'f) event_bus \<times> bool" where
  "unsubscribe b i =
     (case map_of (eb_subs b) i of
        None \<Rightarrow> (b, False)
      | Some sub \<Rightarrow>
          (b\<lparr>eb_subs := AList.delete i (eb_subs b),
             eb_channels := index_discard (eb_channels b) (sb_channel sub) i,
             eb_agents := (if sb_agent sub \<noteq> [] then index_discard (eb_agents b) (sb_agent sub) i
                           else eb_agents b)\<rparr>, True))"

text \<open>The ids of the subscriptions that match, \<open>None\<close> when a filter raises.\<close>

fun matching ::
  "('f \<Rightarrow> 'a event \<Rightarrow> bool option) \<Rightarrow> 'a event \<Rightarrow> (string \<times> ('c, 'f) subscription) list \<Rightarrow> string list option" where
  "matching test e [] = Some []"
| "matching test e ((i, sub) # rest) =
     (if \<not> match_channel (sb_channel sub) (ev_channel e) then matching test e rest
      else case (case sb_filter sub of None \<Rightarrow> Some True | Some f \<Rightarrow> test f e) of
          None \<Rightarrow> None
        | Some False \<Rightarrow> matching test e rest
        | Some True \<Rightarrow>
            if 0 < sb_max sub \<and> sb_max sub \<le> int (sb_count sub) then matching test e rest
            else map_option (\<lambda>is. i # is) (matching test e rest))"

definition bump :: "string \<Rightarrow> (string \<times> ('c, 'f) subscription) list \<Rightarrow> (string \<times> ('c, 'f) subscription) list" where
  "bump i subs = map (\<lambda>(j, s). (j, if j = i then s\<lparr>sb_count := sb_count s + 1\<rparr> else s)) subs"

fun notify ::
  "('c \<Rightarrow> 'a event \<Rightarrow> 'w \<Rightarrow> 'w \<times> bool) \<Rightarrow> 'a event \<Rightarrow> string list
    \<Rightarrow> (string \<times> ('c, 'f) subscription) list \<Rightarrow> 'w \<Rightarrow> (string \<times> ('c, 'f) subscription) list \<times> 'w \<times> nat" where
  "notify call e [] subs w = (subs, w, 0)"
| "notify call e (i # is) subs w =
     (case map_of subs i of
        None \<Rightarrow> notify call e is subs w
      | Some sub \<Rightarrow>
          (let (w1, ok) = call (sb_callback sub) e w;
               (subs', w', n) = notify call e is (bump i subs) w1
           in (subs', w', if ok then n + 1 else n)))"

definition publish ::
  "('f \<Rightarrow> 'a event \<Rightarrow> bool option) \<Rightarrow> ('c \<Rightarrow> 'a event \<Rightarrow> 'w \<Rightarrow> 'w \<times> bool)
    \<Rightarrow> ('a, 'c, 'f) event_bus \<Rightarrow> 'w \<Rightarrow> 'a event \<Rightarrow> ('a, 'c, 'f) event_bus \<times> 'w \<times> nat option" where
  "publish test call b w e =
     (let b1 = b\<lparr>eb_history := push_bounded (eb_max_history b) (eb_history b) e\<rparr>
      in case matching test e (eb_subs b1) of
           None \<Rightarrow> (b1, w, None)
         | Some is \<Rightarrow>
             (let (subs, w', n) = notify call e is (eb_subs b1) w
              in (b1\<lparr>eb_subs := subs\<rparr>, w', Some n)))"

definition get_subscriptions :: "('a, 'c, 'f) event_bus \<Rightarrow> string \<Rightarrow> ('c, 'f) subscription list" where
  "get_subscriptions b agent =
     (if agent \<noteq> []
      then map (\<lambda>i. the (map_of (eb_subs b) i))
             (filter (\<lambda>i. map_of (eb_subs b) i \<noteq> None) (dict_get (eb_agents b) agent []))
      else dict_values (eb_subs b))"

definition get_history :: "('a, 'c, 'f) event_bus \<Rightarrow> string \<Rightarrow> int \<Rightarrow> 'a event list" where
  "get_history b channel limit =
     (if channel \<noteq> []
      then py_slice_from (filter (\<lambda>e. ev_channel e = channel) (eb_history b)) (- limit)
      else py_slice_from (eb_history b) (- limit))"

text \<open>\<open>get_stats\<close>: subscriptions, channels, agents, history size and the channel names.\<close>

definition event_bus_stats :: "('a, 'c, 'f) event_bus \<Rightarrow> nat \<times> nat \<times> nat \<times> nat \<times> string list" where
  "event_bus_stats b =
     (length (eb_subs b), length (eb_channels b), length (eb_agents b), length (eb_history b),
      map fst (eb_channels b))"

definition event_bus_clear :: "('a, 'c, 'f) event_bus \<Rightarrow> ('a, 'c, 'f) event_bus \<times> nat" where
  "event_bus_clear b =
     (b\<lparr>eb_subs := [], eb_channels := [], eb_agents := [], eb_history := []\<rparr>, length (eb_subs b))"

subsection \<open>Indexes\<close>

text \<open>An index maps a key to exactly the ids that have it, and holds no empty set.\<close>

definition index_of :: "(string \<times> string list) list \<Rightarrow> (string \<Rightarrow> string option) \<Rightarrow> bool" where
  "index_of ix key \<longleftrightarrow> wf_dict ix \<and> (\<forall>k. map_of ix k \<noteq> Some []) \<and>
     (\<forall>k. distinct (dict_get ix k [])) \<and>
     (\<forall>k i. i \<in> set (dict_get ix k []) \<longleftrightarrow> key i = Some k)"

definition channel_key :: "('a, 'c, 'f) event_bus \<Rightarrow> string \<Rightarrow> string option" where
  "channel_key b i = map_option sb_channel (map_of (eb_subs b) i)"

definition agent_key :: "('a, 'c, 'f) event_bus \<Rightarrow> string \<Rightarrow> string option" where
  "agent_key b i =
     (case map_of (eb_subs b) i of
        None \<Rightarrow> None | Some s \<Rightarrow> if sb_agent s = [] then None else Some (sb_agent s))"

definition sub_ok :: "string \<Rightarrow> ('c, 'f) subscription \<Rightarrow> bool" where
  "sub_ok i s \<longleftrightarrow> sb_id s = i \<and> (0 < sb_max s \<longrightarrow> int (sb_count s) \<le> sb_max s)"

definition event_bus_wf :: "('a, 'c, 'f) event_bus \<Rightarrow> bool" where
  "event_bus_wf b \<longleftrightarrow> wf_dict (eb_subs b) \<and>
     index_of (eb_channels b) (channel_key b) \<and> index_of (eb_agents b) (agent_key b) \<and>
     (\<forall>(i, s) \<in> set (eb_subs b). sub_ok i s)"

lemma index_of_get:
  "index_of ix key \<Longrightarrow> i \<in> set (dict_get ix k []) \<longleftrightarrow> key i = Some k"
  by (simp add: index_of_def)

lemma index_of_distinct: "index_of ix key \<Longrightarrow> distinct (dict_get ix k [])"
  by (simp add: index_of_def)

lemma dict_get_add_index:
  "dict_get (index_add ix k i) j [] = (if j = k then List.insert i (dict_get ix k []) else dict_get ix j [])"
  by (simp add: index_add_def dict_get_def)

lemma dict_get_discard_index:
  "dict_get (index_discard ix k i) j [] = (if j = k then removeAll i (dict_get ix k []) else dict_get ix j [])"
  by (auto simp: index_discard_def dict_get_def split: option.split)

lemma index_add_fresh:
  assumes ix: "index_of ix key" and fresh: "key i = None"
  shows "index_of (index_add ix k i) (key(i \<mapsto> k))"
proof -
  have "List.insert i xs \<noteq> []" for xs by (simp add: List.insert_def) (metis empty_iff list.set(1))
  then have "wf_dict (index_add ix k i)" "\<forall>j. map_of (index_add ix k i) j \<noteq> Some []"
    using ix by (auto simp: index_of_def index_add_def)
  with ix fresh show ?thesis by (auto simp: index_of_def dict_get_add_index)
qed

lemma index_discard_key:
  assumes ix: "index_of ix key" and k: "key i = Some k"
  shows "index_of (index_discard ix k i) (key(i := None))"
proof -
  have "wf_dict (index_discard ix k i)" "\<forall>j. map_of (index_discard ix k i) j \<noteq> Some []"
    using ix by (auto simp: index_of_def index_discard_def split: option.splits)
  with ix k show ?thesis by (auto simp: index_of_def dict_get_discard_index distinct_removeAll)
qed

subsection \<open>Operations keep the invariant\<close>

lemma event_bus_new_wf: "event_bus_wf (event_bus_new n)"
  by (simp add: event_bus_wf_def event_bus_new_def index_of_def channel_key_def agent_key_def dict_get_def)

lemma event_bus_wf_iff:
  "event_bus_wf b \<longleftrightarrow> wf_dict (eb_subs b) \<and>
     index_of (eb_channels b) (channel_key b) \<and> index_of (eb_agents b) (agent_key b) \<and>
     (\<forall>i s. map_of (eb_subs b) i = Some s \<longrightarrow> sub_ok i s)"
  unfolding event_bus_wf_def by (simp add: wf_dict_all cong: conj_cong)

lemma subscribe_wf:
  assumes "event_bus_wf b" and "map_of (eb_subs b) i = None"
  shows "event_bus_wf (fst (subscribe b channel cb agent flt mx i))"
proof (cases "channel = []")
  case False
  let ?b = "fst (subscribe b channel cb agent flt mx i)"
  have c: "channel_key ?b = (channel_key b)(i \<mapsto> channel)"
    using False by (auto simp: subscribe_def channel_key_def Let_def fun_eq_iff)
  have a: "agent_key ?b = (if agent = [] then agent_key b else (agent_key b)(i \<mapsto> agent))"
    using False assms(2) by (auto simp: subscribe_def agent_key_def Let_def fun_eq_iff)
  have k: "channel_key b i = None" "agent_key b i = None"
    using assms(2) by (simp_all add: channel_key_def agent_key_def)
  have "index_of (eb_channels ?b) (channel_key ?b)" "index_of (eb_agents ?b) (agent_key ?b)"
    unfolding c a using assms(1) False k
    by (auto simp: subscribe_def Let_def event_bus_wf_def intro!: index_add_fresh)
  with assms(1) False show ?thesis
    by (auto simp: event_bus_wf_iff) (auto simp: subscribe_def sub_ok_def Let_def split: if_splits)
qed (use assms in \<open>simp add: subscribe_def\<close>)

lemma unsubscribe_wf:
  assumes "event_bus_wf b" shows "event_bus_wf (fst (unsubscribe b i))"
proof (cases "map_of (eb_subs b) i")
  case (Some s)
  let ?b = "fst (unsubscribe b i)"
  have c: "channel_key ?b = (channel_key b)(i := None)"
    using Some by (auto simp: unsubscribe_def channel_key_def fun_eq_iff)
  have a: "agent_key ?b = (agent_key b)(i := None)"
    using Some by (auto simp: unsubscribe_def agent_key_def fun_eq_iff)
  have none: "(agent_key b)(i := None) = agent_key b" if "sb_agent s = []"
    using that Some by (auto simp: agent_key_def fun_eq_iff)
  have "index_of (eb_channels ?b) (channel_key ?b)" "index_of (eb_agents ?b) (agent_key ?b)"
    unfolding c a using assms Some none
    by (auto simp: unsubscribe_def event_bus_wf_def channel_key_def agent_key_def
        intro!: index_discard_key)
  with assms Some show ?thesis
    by (auto simp: event_bus_wf_iff) (auto simp: unsubscribe_def split: if_splits)
qed (use assms in \<open>simp add: unsubscribe_def\<close>)

lemma map_of_bump:
  "map_of (bump i subs) j =
     map_option (\<lambda>s. if j = i then s\<lparr>sb_count := sb_count s + 1\<rparr> else s) (map_of subs j)"
  unfolding bump_def by (rule map_of_map_values)

lemma fst_bump [simp]: "map fst (bump i subs) = map fst subs"
  unfolding bump_def by (rule fst_map_values)

lemma map_of_notify:
  "distinct ids \<Longrightarrow> map_of (fst (notify call e ids subs w)) j =
     map_option (\<lambda>s. if j \<in> set ids then s\<lparr>sb_count := sb_count s + 1\<rparr> else s) (map_of subs j)"
proof (induction ids arbitrary: subs w)
  case (Cons i ids)
  show ?case
  proof (cases "map_of subs i")
    case None
    with Cons show ?thesis by (cases "map_of subs j") auto
  next
    case (Some s)
    with Cons show ?thesis
      by (cases "map_of subs j")
        (auto simp: Let_def split_beta map_of_bump option.map_comp comp_def)
  qed
qed (simp add: option.map_ident)

lemma fst_notify: "map fst (fst (notify call e ids subs w)) = map fst subs"
  by (induction ids arbitrary: subs w) (auto simp: Let_def split_beta split: option.split)

text \<open>A subscription an event is delivered to.\<close>

definition accepts :: "('f \<Rightarrow> 'a event \<Rightarrow> bool option) \<Rightarrow> 'a event \<Rightarrow> ('c, 'f) subscription \<Rightarrow> bool" where
  "accepts test e s \<longleftrightarrow> match_channel (sb_channel s) (ev_channel e) \<and>
     (case sb_filter s of None \<Rightarrow> True | Some f \<Rightarrow> test f e = Some True) \<and>
     \<not> (0 < sb_max s \<and> sb_max s \<le> int (sb_count s))"

lemma matching_filter:
  "matching test e subs = Some ids \<Longrightarrow> ids = map fst (filter (\<lambda>(i, s). accepts test e s) subs)"
proof (induction subs arbitrary: ids)
  case (Cons p subs)
  obtain i s where p: "p = (i, s)" by fastforce
  let ?v = "case sb_filter s of None \<Rightarrow> Some True | Some f \<Rightarrow> test f e"
  have v: "accepts test e s \<longleftrightarrow> match_channel (sb_channel s) (ev_channel e) \<and> ?v = Some True \<and>
      \<not> (0 < sb_max s \<and> sb_max s \<le> int (sb_count s))"
    by (simp add: accepts_def split: option.split)
  show ?case
  proof (cases "match_channel (sb_channel s) (ev_channel e)")
    case True
    with Cons p v show ?thesis
      by (cases ?v; cases "the ?v") (auto split: if_splits)
  qed (use Cons p v in simp)
qed simp

lemma matching_props:
  assumes "matching test e subs = Some ids" and "wf_dict subs"
  shows "distinct ids"
    and "i \<in> set ids \<Longrightarrow> map_of subs i = Some s \<Longrightarrow> 0 < sb_max s \<Longrightarrow> int (sb_count s) < sb_max s"
proof -
  show "distinct ids"
    using assms(2) unfolding matching_filter [OF assms(1)] by (simp add: wf_dict_def distinct_map_filter)
  show "int (sb_count s) < sb_max s" if "i \<in> set ids" "map_of subs i = Some s" "0 < sb_max s"
    using that assms(2) unfolding matching_filter [OF assms(1)]
    by (auto simp: wf_dict_get accepts_def)
qed

lemma event_bus_wf_counts:
  assumes "event_bus_wf b" and "map fst subs = map fst (eb_subs b)"
    and "\<And>i. map_of subs i = map_option (\<lambda>s. s\<lparr>sb_count := n i s\<rparr>) (map_of (eb_subs b) i)"
    and "\<And>i s. map_of (eb_subs b) i = Some s \<Longrightarrow> 0 < sb_max s \<Longrightarrow> int (n i s) \<le> sb_max s"
  shows "event_bus_wf (b\<lparr>eb_history := h, eb_subs := subs\<rparr>)"
proof -
  have "channel_key (b\<lparr>eb_history := h, eb_subs := subs\<rparr>) = channel_key b"
    by (simp add: channel_key_def assms(3) fun_eq_iff option.map_comp comp_def)
  moreover have "agent_key (b\<lparr>eb_history := h, eb_subs := subs\<rparr>) = agent_key b"
    by (simp add: agent_key_def assms(3) fun_eq_iff split: option.split)
  moreover have "wf_dict subs" using assms(1,2) by (simp add: event_bus_wf_def wf_dict_def)
  ultimately show ?thesis using assms(1,3,4) by (auto simp: event_bus_wf_iff sub_ok_def)
qed

lemma publish_wf:
  assumes "event_bus_wf b" shows "event_bus_wf (fst (publish test call b w e))"
proof (cases "matching test e (eb_subs b)")
  case None
  with event_bus_wf_counts [OF assms, of "eb_subs b" "\<lambda>_ s. sb_count s"] assms show ?thesis
    by (auto simp: publish_def Let_def event_bus_wf_iff sub_ok_def option.map_ident)
next
  case (Some ids)
  have wf: "wf_dict (eb_subs b)" using assms by (simp add: event_bus_wf_def)
  note m = matching_props [OF Some wf]
  let ?n = "\<lambda>i s. if i \<in> set ids then sb_count s + 1 else sb_count s"
  have "event_bus_wf (b\<lparr>eb_history := push_bounded (eb_max_history b) (eb_history b) e,
      eb_subs := fst (notify call e ids (eb_subs b) w)\<rparr>)"
  proof (rule event_bus_wf_counts [OF assms, of _ ?n])
    show "map fst (fst (notify call e ids (eb_subs b) w)) = map fst (eb_subs b)" by (rule fst_notify)
    show "map_of (fst (notify call e ids (eb_subs b) w)) i =
        map_option (\<lambda>s. s\<lparr>sb_count := ?n i s\<rparr>) (map_of (eb_subs b) i)" for i
      unfolding map_of_notify [OF m(1)] by (cases "map_of (eb_subs b) i") auto
    show "int (?n i s) \<le> sb_max s" if "map_of (eb_subs b) i = Some s" "0 < sb_max s" for i s
      using m(2) [OF _ that] that assms by (fastforce simp: event_bus_wf_iff sub_ok_def)
  qed
  with Some show ?thesis by (simp add: publish_def Let_def split_beta)
qed

subsection \<open>Histories of the bus\<close>

datatype ('a, 'c, 'f) bus_op =
    Subscribe string 'c string "'f option" int string
  | Unsubscribe string
  | Publish "'a event"
  | ClearBus

definition bus_exec ::
  "('f \<Rightarrow> 'a event \<Rightarrow> bool option) \<Rightarrow> ('c \<Rightarrow> 'a event \<Rightarrow> 'w \<Rightarrow> 'w \<times> bool)
    \<Rightarrow> ('a, 'c, 'f) event_bus \<times> 'w \<Rightarrow> ('a, 'c, 'f) bus_op \<Rightarrow> ('a, 'c, 'f) event_bus \<times> 'w" where
  "bus_exec test call s x =
     (case x of
        Subscribe channel cb agent flt mx i \<Rightarrow> (fst (subscribe (fst s) channel cb agent flt mx i), snd s)
      | Unsubscribe i \<Rightarrow> (fst (unsubscribe (fst s) i), snd s)
      | Publish e \<Rightarrow> (case publish test call (fst s) (snd s) e of (b, w, _) \<Rightarrow> (b, w))
      | ClearBus \<Rightarrow> (fst (event_bus_clear (fst s)), snd s))"

definition sub_ids :: "('a, 'c, 'f) bus_op list \<Rightarrow> string list" where
  "sub_ids xs = concat (map (\<lambda>x. case x of Subscribe _ _ _ _ _ i \<Rightarrow> [i] | _ \<Rightarrow> []) xs)"

text \<open>The events published since the last clear.\<close>

fun events_since :: "'a event list \<Rightarrow> ('a, 'c, 'f) bus_op list \<Rightarrow> 'a event list" where
  "events_since es [] = es"
| "events_since es (Publish e # xs) = events_since (es @ [e]) xs"
| "events_since es (ClearBus # xs) = events_since [] xs"
| "events_since es (_ # xs) = events_since es xs"

lemma bus_exec_subs:
  assumes "event_bus_wf (fst s)"
  shows "set (map fst (eb_subs (fst (bus_exec test call s x)))) \<subseteq>
     set (map fst (eb_subs (fst s))) \<union> set (sub_ids [x])"
proof (cases x)
  case (Publish e)
  then show ?thesis
    by (auto simp: bus_exec_def publish_def Let_def split_beta split: option.splits)
      (metis fst_notify image_eqI set_map fst_conv)
qed (simp_all add: bus_exec_def sub_ids_def subscribe_def unsubscribe_def event_bus_clear_def Let_def
      dict_dom_update dict_dom_delete Diff_subset subset_insertI split: option.split)

lemma bus_exec_step:
  assumes "event_bus_wf (fst s)" and "set (sub_ids [x]) \<inter> set (map fst (eb_subs (fst s))) = {}"
    and "eb_history (fst s) = last_n 1000 es" and "eb_max_history (fst s) = 1000"
  shows "event_bus_wf (fst (bus_exec test call s x)) \<and>
     eb_history (fst (bus_exec test call s x)) = last_n 1000 (events_since es [x]) \<and>
     eb_max_history (fst (bus_exec test call s x)) = 1000"
proof (cases x)
  case (Subscribe channel cb agent flt mx i)
  with assms have "map_of (eb_subs (fst s)) i = None"
    by (auto simp: sub_ids_def map_of_eq_None_iff)
  from subscribe_wf [OF assms(1) this] assms Subscribe show ?thesis
    by (simp add: bus_exec_def) (simp add: subscribe_def Let_def)
next
  case (Unsubscribe i)
  with unsubscribe_wf [OF assms(1), of i] assms show ?thesis
    by (simp add: bus_exec_def) (simp add: unsubscribe_def split: option.split)
next
  case (Publish e)
  with publish_wf [OF assms(1), of test call "snd s" e] assms push_bounded_last_n [of 1000 es e] show ?thesis
    by (auto simp: bus_exec_def publish_def Let_def split_beta split: option.splits)
next
  case ClearBus
  have "event_bus_wf (fst (event_bus_clear (fst s)))"
    by (simp add: event_bus_wf_def event_bus_clear_def index_of_def channel_key_def agent_key_def dict_get_def)
  with assms ClearBus show ?thesis
    by (simp add: bus_exec_def) (simp add: event_bus_clear_def last_n_def)
qed

lemma events_since_step: "events_since es (x # xs) = events_since (events_since es [x]) xs"
  by (cases x) simp_all

lemma bus_exec_run:
  assumes "event_bus_wf (fst s)" and "distinct (sub_ids xs)"
    and "set (sub_ids xs) \<inter> set (map fst (eb_subs (fst s))) = {}"
    and "eb_history (fst s) = last_n 1000 es" and "eb_max_history (fst s) = 1000"
  shows "event_bus_wf (fst (foldl (bus_exec test call) s xs)) \<and>
     eb_history (fst (foldl (bus_exec test call) s xs)) = last_n 1000 (events_since es xs)"
  using assms
proof (induction xs arbitrary: s es)
  case (Cons x xs)
  have ids: "sub_ids (x # xs) = sub_ids [x] @ sub_ids xs" by (simp add: sub_ids_def)
  from bus_exec_step [OF Cons.prems(1) _ Cons.prems(4,5), of x test call] Cons.prems(3)
  have step: "event_bus_wf (fst (bus_exec test call s x))"
    "eb_history (fst (bus_exec test call s x)) = last_n 1000 (events_since es [x])"
    "eb_max_history (fst (bus_exec test call s x)) = 1000" by (auto simp: ids)
  have "set (sub_ids xs) \<inter> set (map fst (eb_subs (fst (bus_exec test call s x)))) = {}"
    using bus_exec_subs [OF Cons.prems(1), of test call x] Cons.prems(2,3) by (auto simp: ids)
  from Cons.IH [OF step(1) _ this step(2,3)] Cons.prems(2) events_since_step [of es x xs] ids
  show ?case by simp
qed simp

lemma get_subscriptions_agent:
  assumes "event_bus_wf b" and "agent \<noteq> []"
  shows "set (get_subscriptions b agent) = {s \<in> set (dict_values (eb_subs b)). sb_agent s = agent}"
    and "distinct (map sb_id (get_subscriptions b agent))"
proof -
  have ix: "index_of (eb_agents b) (agent_key b)" and wf: "wf_dict (eb_subs b)"
    using assms(1) by (auto simp: event_bus_wf_def)
  let ?ids = "dict_get (eb_agents b) agent []"
  have k: "i \<in> set ?ids \<longleftrightarrow> (\<exists>s. map_of (eb_subs b) i = Some s \<and> sb_agent s = agent)" for i
    using index_of_get [OF ix, of i agent] assms(2)
    by (auto simp: agent_key_def split: option.splits if_splits)
  then have all: "filter (\<lambda>i. map_of (eb_subs b) i \<noteq> None) ?ids = ?ids"
    by (auto simp: filter_id_conv)
  have subs: "get_subscriptions b agent = map (\<lambda>i. the (map_of (eb_subs b) i)) ?ids"
    using assms(2) all by (simp add: get_subscriptions_def)
  show "set (get_subscriptions b agent) = {s \<in> set (dict_values (eb_subs b)). sb_agent s = agent}"
    unfolding subs set_map
  proof (intro set_eqI iffI)
    fix s assume "s \<in> (\<lambda>i. the (map_of (eb_subs b) i)) ` set ?ids"
    then show "s \<in> {s \<in> set (dict_values (eb_subs b)). sb_agent s = agent}"
      using k by (auto simp: dict_values_iff [OF wf]) blast
  next
    fix s assume "s \<in> {s \<in> set (dict_values (eb_subs b)). sb_agent s = agent}"
    then obtain i where "map_of (eb_subs b) i = Some s" "sb_agent s = agent"
      by (auto simp: dict_values_iff [OF wf])
    then show "s \<in> (\<lambda>i. the (map_of (eb_subs b) i)) ` set ?ids"
      using k by (intro image_eqI [of _ _ i]) auto
  qed
  have "map sb_id (get_subscriptions b agent) = ?ids"
    unfolding subs using k assms(1)
    by (auto simp: event_bus_wf_iff sub_ok_def intro!: map_idI)
  then show "distinct (map sb_id (get_subscriptions b agent))"
    using index_of_distinct [OF ix] by simp
qed

text \<open>
  The bus stays consistent. After any sequence of subscriptions (with the fresh ids the
  bus generates), cancellations, publications and clears, whatever filters and callbacks do:
  the subscriptions reported for an agent are exactly its live ones, each once; no
  subscription with a positive limit has been notified more often than its limit; and the
  history holds the last 1000 events published since the last clear.
\<close>

theorem event_bus_consistent:
  assumes "distinct (sub_ids xs)"
  shows "let b = fst (foldl (bus_exec test call) (event_bus_new n, w) xs)
         in set (get_subscriptions b agent) =
              {s \<in> set (dict_values (eb_subs b)). agent = [] \<or> sb_agent s = agent} \<and>
            distinct (map sb_id (get_subscriptions b agent)) \<and>
            list_all (\<lambda>s. sb_max s \<le> 0 \<or> int (sb_count s) \<le> sb_max s) (dict_values (eb_subs b)) \<and>
            eb_history b = last_n 1000 (events_since [] xs)"
proof -
  let ?b = "fst (foldl (bus_exec test call) (event_bus_new n, w) xs)"
  from bus_exec_run [where s = "(event_bus_new n, w)" and xs = xs and es = "[]", OF _ assms]
  have b: "event_bus_wf ?b" "eb_history ?b = last_n 1000 (events_since [] xs)"
    by (simp_all add: event_bus_new_wf) (simp_all add: event_bus_new_def last_n_def)
  then have wf: "wf_dict (eb_subs ?b)" by (simp add: event_bus_wf_def)
  have "list_all (\<lambda>s. sb_max s \<le> 0 \<or> int (sb_count s) \<le> sb_max s) (dict_values (eb_subs ?b))"
    using b(1) by (fastforce simp: event_bus_wf_iff sub_ok_def list_all_iff dict_values_iff)
  moreover have "map sb_id (dict_values (eb_subs ?b)) = map fst (eb_subs ?b)"
    using b(1) by (auto simp: event_bus_wf_def sub_ok_def dict_values_def)
  then have "agent = [] \<Longrightarrow> distinct (map sb_id (get_subscriptions ?b agent))"
    using wf by (simp add: get_subscriptions_def wf_dict_def)
  ultimately show ?thesis
    using b get_subscriptions_agent [OF b(1), of agent]
    by (cases "agent = []") (simp_all add: Let_def get_subscriptions_def)
qed

definition demo_bus_ops :: "(unit, unit, unit) bus_op list" where
  "demo_bus_ops = [Subscribe ''task:*'' () ''a'' None 1 ''s1'', Unsubscribe ''s2'']"

lemma event_bus_consistent_witness:
  "let b = fst (foldl (bus_exec (\<lambda>f e. Some True) (\<lambda>c e w. (Suc w, True))) (event_bus_new 0, 0 :: nat)
         demo_bus_ops)
   in set (get_subscriptions b ''a'') = {s \<in> set (dict_values (eb_subs b)). sb_agent s = ''a''}"
proof -
  have "distinct (sub_ids demo_bus_ops)" by (simp add: demo_bus_ops_def sub_ids_def)
  from event_bus_consistent [OF this, of "\<lambda>f e. Some True" "\<lambda>c e w. (Suc w, True)" 0 "0 :: nat" "''a''"]
  show ?thesis by (simp add: Let_def)
qed

lemma notify_calls:
  "distinct ids \<Longrightarrow> set ids \<subseteq> fst ` set subs \<Longrightarrow>
     (let cbs = map (\<lambda>i. sb_callback (the (map_of subs i))) ids
      in fst (snd (notify call e ids subs w)) = foldl (\<lambda>w c. fst (call c e w)) w cbs \<and>
         snd (snd (notify call e ids subs w)) \<le> length ids)"
proof (induction ids arbitrary: subs w)
  case (Cons i ids)
  then obtain s where s: "map_of subs i = Some s" by (metis insert_subset list.simps(15) map_of_eq_None_iff not_None_eq)
  have keep: "sb_callback (the (map_of (bump i subs) j)) = sb_callback (the (map_of subs j))"
    if "j \<in> set ids" for j
  proof -
    from that Cons.prems(2) obtain t where "map_of subs j = Some t"
      by (metis insert_subset list.simps(15) map_of_eq_None_iff not_None_eq subsetD)
    then show ?thesis by (simp add: map_of_bump)
  qed
  have "fst ` set (bump i subs) = fst ` set subs" by (metis fst_bump set_map)
  with Cons.prems have "distinct ids" "set ids \<subseteq> fst ` set (bump i subs)" by auto
  from Cons.IH [OF this, of "fst (call (sb_callback s) e w)"] s keep show ?case
    by (simp add: Let_def split_beta cong: map_cong)
qed simp

text \<open>
  A publication reaches exactly the matching subscriptions. A publication that returns
  has run, in subscription order, the callback of every subscription whose pattern covers
  the channel, whose filter accepts the event and whose limit is not used up, has counted
  one more event for exactly those, and has left all the others alone.
\<close>

theorem publish_delivers:
  assumes "wf_dict (eb_subs b)" and "publish test call b w e = (b', w', Some n)"
  shows "let hit = filter (accepts test e) (dict_values (eb_subs b))
         in w' = foldl (\<lambda>w s. fst (call (sb_callback s) e w)) w hit \<and> n \<le> length hit \<and>
            map_of (eb_subs b') i =
              map_option (\<lambda>s. if accepts test e s then s\<lparr>sb_count := sb_count s + 1\<rparr> else s)
                (map_of (eb_subs b) i)"
proof -
  from assms(2) obtain ids where m: "matching test e (eb_subs b) = Some ids"
    and r: "eb_subs b' = fst (notify call e ids (eb_subs b) w)"
      "w' = fst (snd (notify call e ids (eb_subs b) w))"
      "n = snd (snd (notify call e ids (eb_subs b) w))"
    by (auto simp: publish_def Let_def split_beta split: option.splits)
  let ?acc = "\<lambda>p. accepts test e (snd p)"
  have ids: "ids = map fst (filter ?acc (eb_subs b))"
    using matching_filter [OF m] by (simp add: split_beta')
  have dist: "distinct ids" using matching_props(1) [OF m assms(1)] .
  have sub: "set ids \<subseteq> fst ` set (eb_subs b)" by (auto simp: ids)
  have "map (\<lambda>i. sb_callback (the (map_of (eb_subs b) i))) ids
      = map sb_callback (filter (accepts test e) (dict_values (eb_subs b)))"
    using assms(1) by (auto simp: ids dict_values_def filter_map comp_def wf_dict_get)
  with notify_calls [OF dist sub, of call e w]
  have "w' = foldl (\<lambda>w c. fst (call c e w)) w (map sb_callback (filter (accepts test e) (dict_values (eb_subs b))))"
    "n \<le> length ids" by (simp_all add: r Let_def)
  then have "w' = foldl (\<lambda>w s. fst (call (sb_callback s) e w)) w (filter (accepts test e) (dict_values (eb_subs b)))"
    "n \<le> length (filter (accepts test e) (dict_values (eb_subs b)))"
    by (simp_all add: foldl_map ids dict_values_def filter_map comp_def)
  moreover have "i \<in> set ids \<longleftrightarrow> accepts test e s" if "map_of (eb_subs b) i = Some s" for s
  proof -
    from that assms(1) have "(i, t) \<in> set (eb_subs b) \<longleftrightarrow> t = s" for t
      by (auto simp: wf_dict_get)
    then show ?thesis by (auto simp: ids image_iff)
  qed
  then have "map_of (eb_subs b') i =
      map_option (\<lambda>s. if accepts test e s then s\<lparr>sb_count := sb_count s + 1\<rparr> else s) (map_of (eb_subs b) i)"
    unfolding r map_of_notify [OF dist] by (cases "map_of (eb_subs b) i") auto
  ultimately show ?thesis by (simp add: Let_def)
qed

definition demo_event :: "unit event" where
  "demo_event = \<lparr>ev_id = ''e'', ev_channel = ''task:done'', ev_data = [], ev_source = '''',
     ev_priority = EvNormal, ev_time = 0, ev_correlation = ''''\<rparr>"

definition demo_event_bus :: "(unit, unit, unit) event_bus" where
  "demo_event_bus = fst (subscribe (event_bus_new 0) ''task:*'' () '''' None 1 ''s1'')"

lemma publish_delivers_witness:
  "\<exists>b' w'. publish (\<lambda>f e. Some True) (\<lambda>c e w. (Suc w, True)) demo_event_bus 0 demo_event = (b', w', Some 1) \<and>
     w' = 1"
proof -
  have d: "eb_subs demo_event_bus = [(''s1'', \<lparr>sb_id = ''s1'', sb_channel = ''task:*'', sb_callback = (),
      sb_agent = '''', sb_filter = None, sb_max = 1, sb_count = 0\<rparr>)]"
    by (simp add: demo_event_bus_def subscribe_def event_bus_new_def Let_def)
  have acc: "match_channel ''task:*'' ''task:done''"
    by (simp add: match_channel_def py_endswith_def py_startswith_def py_slice_to_def)
  obtain b' w' where p: "publish (\<lambda>f e. Some True) (\<lambda>c e w. (Suc w, True)) demo_event_bus (0 :: nat) demo_event
      = (b', w', Some 1)"
    by (simp add: publish_def d acc demo_event_def Let_def)
  have "wf_dict (eb_subs demo_event_bus)" by (simp add: d wf_dict_def)
  from publish_delivers [OF this p] acc have "w' = 1"
    by (simp add: d dict_values_def accepts_def demo_event_def Let_def)
  with p show ?thesis by blast
qed

text \<open>
  Limits of the history query: for a positive limit \<open>get_history\<close> returns the last
  events of the channel, at most that many; for a limit of zero it returns all of them.
\<close>

theorem get_history_limit:
  "get_history b channel limit =
     (let es = (if channel = [] then eb_history b
                else filter (\<lambda>e. ev_channel e = channel) (eb_history b))
      in if 0 < limit then last_n (nat limit) es else if limit = 0 then es else drop (nat (- limit)) es)"
  by (auto simp: get_history_def Let_def py_slice_neg py_slice_neg_zero [simplified])
    (simp_all add: py_slice_from_def)

end
