(* ===== verification/RequestGovernor.thy ===== *)
theory RequestGovernor
  imports Complex_Main PyText
begin

text \<open>
  The governor of local inference (harness/model_router/request_governor.py) and the part of
  the model manager that relies on it, \<open>warm\<close> (harness/model_router/llama_swap_manager.py):
  the circuit breaker per model, the budget check, the inference slot. Times in seconds are
  rationals; clock readings, the environment variables and the replies of the backend are
  arguments. Each breaker operation runs under its lock, so it is one atomic step.
\<close>

subsection \<open>Settings read from the environment\<close>

definition env_int :: "(string \<Rightarrow> string option) \<Rightarrow> string \<Rightarrow> int \<Rightarrow> int" where
  "env_int env name dflt =
     (case env name of
        None \<Rightarrow> dflt
      | Some raw \<Rightarrow> if py_blank raw then dflt
                    else (case py_int raw of None \<Rightarrow> dflt | Some n \<Rightarrow> n))"

text \<open>\<open>float(s)\<close> is the parameter \<open>to_float\<close>.\<close>

definition env_float ::
  "(string \<Rightarrow> rat option) \<Rightarrow> (string \<Rightarrow> string option) \<Rightarrow> string \<Rightarrow> rat \<Rightarrow> rat" where
  "env_float to_float env name dflt =
     (case env name of
        None \<Rightarrow> dflt
      | Some raw \<Rightarrow> if py_blank raw then dflt
                    else (case to_float raw of None \<Rightarrow> dflt | Some x \<Rightarrow> x))"

definition env_margin :: "(string \<Rightarrow> string option) \<Rightarrow> int" where
  "env_margin env = env_int env ''SWARMIND_VRAM_SAFETY_MARGIN_MB'' 1500"

definition safety_margin_mb :: "(string \<Rightarrow> string option) \<Rightarrow> int" where
  "safety_margin_mb env = max 0 (env_margin env)"

text \<open>A character below 128 is one byte of UTF-8, the others are two.\<close>

definition utf8_length :: "string \<Rightarrow> nat" where
  "utf8_length s = sum_list (map (\<lambda>c. if (of_char c :: nat) < 128 then 1 else 2) s)"

definition estimate_prompt_tokens :: "string \<Rightarrow> nat" where
  "estimate_prompt_tokens s = (if s = [] then 0 else (utf8_length s + 3) div 4)"

subsection \<open>The circuit breaker\<close>

record breaker =
  cb_max :: int
  cb_cooldown :: rat
  cb_failures :: "(string \<times> int) list"
  cb_opened :: "(string \<times> rat) list"
  cb_probing :: "string list"

definition breaker_new ::
  "(string \<Rightarrow> rat option) \<Rightarrow> (string \<Rightarrow> string option) \<Rightarrow> int option \<Rightarrow> rat option \<Rightarrow> breaker" where
  "breaker_new to_float env mx cool =
     \<lparr>cb_max = (case mx of Some n \<Rightarrow> n | None \<Rightarrow> env_int env ''SWARMIND_CB_MAX_FAILURES'' 3),
      cb_cooldown = (case cool of Some x \<Rightarrow> x
                     | None \<Rightarrow> env_float to_float env ''SWARMIND_CB_COOLDOWN_S'' 60),
      cb_failures = [], cb_opened = [], cb_probing = []\<rparr>"

definition cb_limit :: "breaker \<Rightarrow> int" where
  "cb_limit b = max 1 (cb_max b)"

definition breaker_allow :: "breaker \<Rightarrow> string \<Rightarrow> rat \<Rightarrow> breaker \<times> bool" where
  "breaker_allow b m now =
     (if dict_get (cb_failures b) m 0 < cb_limit b then (b, True)
      else case map_of (cb_opened b) m of
             None \<Rightarrow> (b, True)
           | Some opened \<Rightarrow>
               if now - opened < max 0 (cb_cooldown b) then (b, False)
               else if m \<in> set (cb_probing b) then (b, False)
               else (b\<lparr>cb_probing := m # cb_probing b\<rparr>, True))"

definition breaker_is_open :: "breaker \<Rightarrow> string \<Rightarrow> rat \<Rightarrow> bool" where
  "breaker_is_open b m now =
     (if dict_get (cb_failures b) m 0 < cb_limit b then False
      else case map_of (cb_opened b) m of
             None \<Rightarrow> False
           | Some opened \<Rightarrow> now - opened < max 0 (cb_cooldown b))"

definition record_success :: "breaker \<Rightarrow> string \<Rightarrow> breaker" where
  "record_success b m =
     b\<lparr>cb_failures := AList.delete m (cb_failures b),
       cb_opened := AList.delete m (cb_opened b),
       cb_probing := removeAll m (cb_probing b)\<rparr>"

definition record_failure :: "breaker \<Rightarrow> string \<Rightarrow> rat \<Rightarrow> breaker" where
  "record_failure b m now =
     (let count = dict_get (cb_failures b) m 0 + 1;
          b1 = b\<lparr>cb_failures := AList.update m count (cb_failures b),
                 cb_probing := removeAll m (cb_probing b)\<rparr>
      in if cb_limit b \<le> count then b1\<lparr>cb_opened := AList.update m now (cb_opened b1)\<rparr> else b1)"

subsection \<open>What the breaker promises: one small machine per model\<close>

text \<open>
  \<open>Closed n\<close> after \<open>n\<close> consecutive failures, \<open>Opened t n\<close> since the failure at time \<open>t\<close>,
  \<open>HalfOpen t n\<close> once the single probe after the cooldown has been granted.
\<close>

datatype circuit = Closed int | Opened rat int | HalfOpen rat int

fun circuit_allow :: "rat \<Rightarrow> rat \<Rightarrow> circuit \<Rightarrow> circuit \<times> bool" where
  "circuit_allow cool now (Closed n) = (Closed n, True)"
| "circuit_allow cool now (Opened t n) =
     (if now - t < max 0 cool then (Opened t n, False) else (HalfOpen t n, True))"
| "circuit_allow cool now (HalfOpen t n) = (HalfOpen t n, False)"

fun circuit_failures :: "circuit \<Rightarrow> int" where
  "circuit_failures (Closed n) = n"
| "circuit_failures (Opened t n) = n"
| "circuit_failures (HalfOpen t n) = n"

definition circuit_fail :: "int \<Rightarrow> rat \<Rightarrow> circuit \<Rightarrow> circuit" where
  "circuit_fail mx now c =
     (if mx \<le> circuit_failures c + 1 then Opened now (circuit_failures c + 1)
      else Closed (circuit_failures c + 1))"

definition circuit_of :: "breaker \<Rightarrow> string \<Rightarrow> circuit" where
  "circuit_of b m =
     (let n = dict_get (cb_failures b) m 0
      in case map_of (cb_opened b) m of
           None \<Rightarrow> Closed n
         | Some t \<Rightarrow> if m \<in> set (cb_probing b) then HalfOpen t n else Opened t n)"

definition breaker_ok :: "breaker \<Rightarrow> bool" where
  "breaker_ok b \<longleftrightarrow>
     (\<forall>m. (map_of (cb_opened b) m \<noteq> None \<longleftrightarrow> cb_limit b \<le> dict_get (cb_failures b) m 0) \<and>
          (m \<in> set (cb_probing b) \<longrightarrow> map_of (cb_opened b) m \<noteq> None))"

lemma cb_limit_simps [simp]:
  "cb_limit (b\<lparr>cb_failures := f\<rparr>) = cb_limit b" "cb_limit (b\<lparr>cb_opened := q\<rparr>) = cb_limit b"
  "cb_limit (b\<lparr>cb_probing := p\<rparr>) = cb_limit b"
  by (simp_all add: cb_limit_def)

lemma cb_limit_pos [simp]: "0 < cb_limit b"
  by (simp add: cb_limit_def)

lemma breaker_ok_new [simp]: "breaker_ok (breaker_new f env mx cool)"
  by (simp add: breaker_ok_def breaker_new_def dict_get_def cb_limit_def)

lemma breaker_ok_allow: "breaker_ok b \<Longrightarrow> breaker_ok (fst (breaker_allow b m now))"
  by (auto simp: breaker_ok_def breaker_allow_def split: option.split)

lemma breaker_ok_success: "breaker_ok b \<Longrightarrow> breaker_ok (record_success b m)"
  by (auto simp: breaker_ok_def record_success_def not_le cb_limit_def)

lemma breaker_ok_failure: "breaker_ok b \<Longrightarrow> breaker_ok (record_failure b m now)"
  by (auto simp: breaker_ok_def record_failure_def Let_def)

lemma circuit_of_new [simp]: "circuit_of (breaker_new f env mx cool) m = Closed 0"
  by (simp add: circuit_of_def breaker_new_def dict_get_def)

lemma circuit_of_allow:
  assumes "breaker_ok b"
  shows "circuit_of (fst (breaker_allow b m now)) m' =
           (if m' = m then fst (circuit_allow (cb_cooldown b) now (circuit_of b m)) else circuit_of b m')"
    and "snd (breaker_allow b m now) = snd (circuit_allow (cb_cooldown b) now (circuit_of b m))"
proof -
  have o: "map_of (cb_opened b) m \<noteq> None \<longleftrightarrow> cb_limit b \<le> dict_get (cb_failures b) m 0"
    using assms by (simp add: breaker_ok_def)
  show "snd (breaker_allow b m now) = snd (circuit_allow (cb_cooldown b) now (circuit_of b m))"
    using o by (auto simp: breaker_allow_def circuit_of_def Let_def)
  show "circuit_of (fst (breaker_allow b m now)) m' =
          (if m' = m then fst (circuit_allow (cb_cooldown b) now (circuit_of b m)) else circuit_of b m')"
    using o by (auto simp: breaker_allow_def circuit_of_def Let_def split: option.split)
qed

lemma circuit_of_success:
  "circuit_of (record_success b m) m' = (if m' = m then Closed 0 else circuit_of b m')"
  by (simp add: circuit_of_def record_success_def Let_def split: option.split)

lemma circuit_failures_of [simp]: "circuit_failures (circuit_of b m) = dict_get (cb_failures b) m 0"
  by (simp add: circuit_of_def Let_def split: option.split)

lemma circuit_of_failure:
  assumes "breaker_ok b"
  shows "circuit_of (record_failure b m now) m' =
           (if m' = m then circuit_fail (cb_limit b) now (circuit_of b m) else circuit_of b m')"
proof -
  have "map_of (cb_opened b) m \<noteq> None \<longleftrightarrow> cb_limit b \<le> dict_get (cb_failures b) m 0"
    using assms by (simp add: breaker_ok_def)
  then show ?thesis
    by (auto simp: circuit_fail_def record_failure_def circuit_of_def Let_def split: option.split)
qed

lemma breaker_frame [simp]:
  "cb_cooldown (fst (breaker_allow b m now)) = cb_cooldown b"
  "cb_cooldown (record_success b m) = cb_cooldown b"
  "cb_cooldown (record_failure b m now) = cb_cooldown b"
  "cb_limit (fst (breaker_allow b m now)) = cb_limit b"
  "cb_limit (record_success b m) = cb_limit b"
  "cb_limit (record_failure b m now) = cb_limit b"
  by (auto simp: breaker_allow_def record_success_def record_failure_def Let_def cb_limit_def
      split: option.split)

text \<open>A sequence of calls on the breaker, with the answers of \<open>allow\<close> in order.\<close>

datatype breaker_op = AllowOp string rat | SuccessOp string | FailureOp string rat

fun breaker_run :: "breaker \<Rightarrow> breaker_op list \<Rightarrow> breaker \<times> (string \<times> bool) list" where
  "breaker_run b [] = (b, [])"
| "breaker_run b (AllowOp m now # ops) =
     (let (b1, ok) = breaker_allow b m now; (b2, answers) = breaker_run b1 ops
      in (b2, (m, ok) # answers))"
| "breaker_run b (SuccessOp m # ops) = breaker_run (record_success b m) ops"
| "breaker_run b (FailureOp m now # ops) = breaker_run (record_failure b m now) ops"

text \<open>What the machine of one model does on the calls that are about it.\<close>

fun circuit_run :: "int \<Rightarrow> rat \<Rightarrow> string \<Rightarrow> circuit \<Rightarrow> breaker_op list \<Rightarrow> circuit \<times> bool list" where
  "circuit_run mx cool m c [] = (c, [])"
| "circuit_run mx cool m c (AllowOp k now # ops) =
     (if k = m then
        let (c1, ok) = circuit_allow cool now c; (c2, answers) = circuit_run mx cool m c1 ops
        in (c2, ok # answers)
      else circuit_run mx cool m c ops)"
| "circuit_run mx cool m c (SuccessOp k # ops) =
     circuit_run mx cool m (if k = m then Closed 0 else c) ops"
| "circuit_run mx cool m c (FailureOp k now # ops) =
     circuit_run mx cool m (if k = m then circuit_fail mx now c else c) ops"

definition answers_for :: "string \<Rightarrow> (string \<times> bool) list \<Rightarrow> bool list" where
  "answers_for m answers = map snd (filter (\<lambda>a. fst a = m) answers)"

lemma breaker_run_simulation:
  assumes "breaker_ok b"
  shows "breaker_ok (fst (breaker_run b ops)) \<and>
         circuit_of (fst (breaker_run b ops)) m =
           fst (circuit_run (cb_limit b) (cb_cooldown b) m (circuit_of b m) ops) \<and>
         answers_for m (snd (breaker_run b ops)) =
           snd (circuit_run (cb_limit b) (cb_cooldown b) m (circuit_of b m) ops)"
  using assms
proof (induction ops arbitrary: b)
  case Nil
  then show ?case by (simp add: answers_for_def)
next
  case (Cons op ops)
  show ?case
  proof (cases op)
    case (AllowOp k now)
    obtain b1 ok where b1: "breaker_allow b k now = (b1, ok)" by fastforce
    have "breaker_ok b1" "cb_limit b1 = cb_limit b" "cb_cooldown b1 = cb_cooldown b"
      using breaker_ok_allow [OF Cons.prems, of k now] b1
        breaker_frame(1,4) [of b k now] by simp_all
    with Cons.IH [of b1] circuit_of_allow [OF Cons.prems, of k now] b1 show ?thesis
      by (auto simp: AllowOp answers_for_def split: prod.split)
  next
    case (SuccessOp k)
    with Cons.IH [OF breaker_ok_success [OF Cons.prems, of k]] show ?thesis
      by (simp add: circuit_of_success)
  next
    case (FailureOp k now)
    with Cons.IH [OF breaker_ok_failure [OF Cons.prems, of k now]]
      circuit_of_failure [OF Cons.prems, of k now m] show ?thesis
      by simp
  qed
qed

text \<open>
  C4: whatever calls are made on a breaker, in whatever order and at whatever times, it behaves
  towards each model as a three-state circuit of its own: closed until the configured number of
  consecutive failures, refusing for the cooldown after the last of them, then granting a single
  probe until its result is recorded. Calls about one model never influence another.
\<close>

theorem breaker_refines_circuit:
  "case breaker_run (breaker_new to_float env mx cool) ops of
     (b, answers) \<Rightarrow>
       (circuit_of b m, answers_for m answers) =
         circuit_run (cb_limit (breaker_new to_float env mx cool))
           (cb_cooldown (breaker_new to_float env mx cool)) m (Closed 0) ops"
  using breaker_run_simulation [OF breaker_ok_new, of to_float env mx cool ops m]
  by (auto simp: prod_eq_iff split: prod.split)

lemma breaker_okD:
  "breaker_ok b \<Longrightarrow> map_of (cb_opened b) m \<noteq> None \<longleftrightarrow> cb_limit b \<le> dict_get (cb_failures b) m 0"
  by (simp add: breaker_ok_def)

lemma breaker_is_open_circuit:
  "breaker_ok b \<Longrightarrow>
     breaker_is_open b m now =
       (case circuit_of b m of Closed n \<Rightarrow> False
        | Opened t n \<Rightarrow> now - t < max 0 (cb_cooldown b)
        | HalfOpen t n \<Rightarrow> now - t < max 0 (cb_cooldown b))"
  using breaker_okD [of b m]
  by (auto simp: breaker_is_open_def circuit_of_def Let_def split: option.split)

subsection \<open>The governor: budget and slot\<close>

record governor =
  gv_margin :: int
  gv_timeout :: rat
  gv_breaker :: breaker

definition governor_new ::
  "(string \<Rightarrow> rat option) \<Rightarrow> (string \<Rightarrow> string option) \<Rightarrow> int option \<Rightarrow> rat option \<Rightarrow> breaker option \<Rightarrow> governor" where
  "governor_new to_float env margin timeout br =
     \<lparr>gv_margin = (case margin of Some n \<Rightarrow> n | None \<Rightarrow> env_margin env),
      gv_timeout = (case timeout of Some x \<Rightarrow> x
                    | None \<Rightarrow> env_float to_float env ''SWARMIND_GOVERNOR_ACQUIRE_TIMEOUT_S'' 120),
      gv_breaker = (case br of Some b \<Rightarrow> b | None \<Rightarrow> breaker_new to_float env None None)\<rparr>"

text \<open>
  The reasons of \<open>admit\<close> carry the numbers of their messages. The semaphore is shared by all
  governors, so it is a state of its own, the number of free permits.
\<close>

datatype admit_reason =
  InvalidBudget int int int | PromptTooLong int int int | NoVram int int int |
  AdmittedBlind | AdmittedWithin int int int int

fun admitted :: "admit_reason \<Rightarrow> bool" where
  "admitted AdmittedBlind = True"
| "admitted (AdmittedWithin p u a n) = True"
| "admitted _ = False"

definition admit ::
  "governor \<Rightarrow> int \<Rightarrow> int \<Rightarrow> int option \<Rightarrow> int \<Rightarrow> int \<Rightarrow> int \<Rightarrow> bool \<times> admit_reason" where
  "admit g prompt ctx free footprint reserved unloadable =
     (if prompt < 0 \<or> ctx \<le> 0 \<or> footprint \<le> 0 then (False, InvalidBudget prompt ctx footprint)
      else let usable = ctx - max 0 reserved in
        if prompt > usable then (False, PromptTooLong prompt ctx usable)
        else case free of
               None \<Rightarrow> (True, AdmittedBlind)
             | Some f \<Rightarrow>
                 let need = footprint + max 0 (gv_margin g); avail = f + max 0 unloadable in
                 if avail < need then (False, NoVram f unloadable need)
                 else (True, AdmittedWithin prompt usable avail need))"

definition default_reserved :: int where
  "default_reserved = 1024"

text \<open>
  The moment \<open>acquire\<close> returns: with a permit if one is free, without one if the wait expired
  while none was.
\<close>

definition slot_acquire :: "nat \<Rightarrow> nat \<times> bool" where
  "slot_acquire sem = (if 0 < sem then (sem - 1, True) else (sem, False))"

definition slot_release :: "nat \<Rightarrow> nat" where
  "slot_release sem = sem + 1"

text \<open>
  An admitted request fits: its prompt lies within the window less the reserve for the answer
  and, when the free memory is known, model and safety margin fit in what is free or can be
  unloaded. Every request that is refused violates one of these, and the reason says which.
\<close>

theorem admit_exact:
  "(case admit g prompt ctx free footprint reserved unloadable of
      (ok, reason) \<Rightarrow>
        ok = admitted reason \<and>
        ok = (0 \<le> prompt \<and> 0 < ctx \<and> 0 < footprint \<and> prompt + max 0 reserved \<le> ctx \<and>
              (case free of None \<Rightarrow> True
               | Some f \<Rightarrow> footprint + max 0 (gv_margin g) \<le> f + max 0 unloadable)) \<and>
        (case reason of
           InvalidBudget p c fp \<Rightarrow> p < 0 \<or> c \<le> 0 \<or> fp \<le> 0
         | PromptTooLong p c u \<Rightarrow> p = prompt \<and> c = ctx \<and> u < p
         | NoVram f u need \<Rightarrow> free = Some f \<and> f + max 0 u < need
         | AdmittedBlind \<Rightarrow> free = None
         | AdmittedWithin p u a n \<Rightarrow> p \<le> u \<and> n \<le> a))"
  by (auto simp: admit_def Let_def split: option.split)

subsection \<open>Requests to the backend\<close>

datatype http_reply = Status int | NoConnection

text \<open>\<open>random.uniform(0, ceiling)\<close> of a retry is the parameter \<open>jitter\<close>.\<close>

definition backoff_delay :: "(nat \<Rightarrow> rat \<Rightarrow> rat) \<Rightarrow> rat \<Rightarrow> nat \<Rightarrow> rat" where
  "backoff_delay jitter backoff attempt =
     (let ceiling = backoff * 2 ^ attempt in if ceiling \<le> 0 then 0 else jitter attempt ceiling)"

text \<open>
  The reply to attempt \<open>i\<close> is \<open>reply i\<close>. The result carries the last failure or the success,
  the attempts made and the pauses taken.
\<close>

fun request_attempts ::
  "(nat \<Rightarrow> http_reply) \<Rightarrow> (nat \<Rightarrow> rat) \<Rightarrow> int \<Rightarrow> nat list \<Rightarrow> http_reply option \<Rightarrow>
     (http_reply option + unit) \<times> nat list \<times> rat list" where
  "request_attempts reply delay n [] err = (Inl err, [], [])"
| "request_attempts reply delay n (a # as) err =
     (if reply a = Status 200 then (Inr (), [a], [])
      else let (r, made, slept) = request_attempts reply delay n as (Some (reply a))
           in (r, a # made, (if int a < n - 1 then [delay a] else []) @ slept))"

definition request_with_retry ::
  "(nat \<Rightarrow> http_reply) \<Rightarrow> (nat \<Rightarrow> rat) \<Rightarrow> int \<Rightarrow> (http_reply option + unit) \<times> nat list \<times> rat list" where
  "request_with_retry reply delay n = request_attempts reply delay n [0..<nat n] None"

lemma request_attempts_ok:
  "isl (fst (request_attempts reply delay n as err)) = list_all (\<lambda>a. reply a \<noteq> Status 200) as"
  by (induction as arbitrary: err) (auto simp: case_prod_beta)

lemma request_attempts_made:
  "fst (snd (request_attempts reply delay n as err)) =
     takeWhile (\<lambda>a. reply a \<noteq> Status 200) as @
     take 1 (dropWhile (\<lambda>a. reply a \<noteq> Status 200) as)"
  by (induction as arbitrary: err) (auto simp: case_prod_beta)

subsection \<open>Warming a model\<close>

record warm_config =
  wm_attempts :: int
  wm_backoff :: rat

text \<open>
  A call of \<open>warm\<close>: its arguments, and what it will observe: the clock when the breaker is asked
  and when a failure is recorded, and the replies of the backend.
\<close>

record warm_call =
  wc_model :: string
  wc_prompt :: "int option"
  wc_ctx :: "int option"
  wc_free :: "int option"
  wc_footprint :: "int option"
  wc_unloadable :: int
  wc_asked :: rat
  wc_failed :: rat
  wc_reply :: "nat \<Rightarrow> http_reply"
  wc_jitter :: "nat \<Rightarrow> rat \<Rightarrow> rat"

definition admit_or_reject :: "governor \<Rightarrow> warm_call \<Rightarrow> bool" where
  "admit_or_reject g c =
     (case (wc_prompt c, wc_ctx c, wc_footprint c) of
        (Some p, Some x, Some f) \<Rightarrow> fst (admit g p x (wc_free c) f default_reserved (wc_unloadable c))
      | _ \<Rightarrow> True)"

definition governor_allow :: "governor \<Rightarrow> string \<Rightarrow> rat \<Rightarrow> governor \<times> bool" where
  "governor_allow g m now =
     (let (b, ok) = breaker_allow (gv_breaker g) m now in (g\<lparr>gv_breaker := b\<rparr>, ok))"

text \<open>The request itself: the governor afterwards, the attempts made, the result.\<close>

definition warm_request :: "warm_config \<Rightarrow> governor \<Rightarrow> warm_call \<Rightarrow> governor \<times> nat list \<times> bool" where
  "warm_request cfg g c =
     (case request_with_retry (wc_reply c) (backoff_delay (wc_jitter c) (wm_backoff cfg)) (wm_attempts cfg) of
        (Inl err, made, slept) \<Rightarrow>
          (g\<lparr>gv_breaker := record_failure (gv_breaker g) (wc_model c) (wc_failed c)\<rparr>, made, False)
      | (Inr u, made, slept) \<Rightarrow>
          (g\<lparr>gv_breaker := record_success (gv_breaker g) (wc_model c)\<rparr>, made, True))"

datatype warm_error = EmptyModel

definition warm ::
  "warm_config \<Rightarrow> governor \<Rightarrow> nat \<Rightarrow> warm_call \<Rightarrow>
     (governor \<times> nat) \<times> nat list \<times> (warm_error + bool)" where
  "warm cfg g sem c =
     (if py_blank (wc_model c) then ((g, sem), [], Inl EmptyModel)
      else let (g1, ok) = governor_allow g (wc_model c) (wc_asked c) in
        if \<not> ok then ((g1, sem), [], Inr False)
        else if \<not> admit_or_reject g1 c then ((g1, sem), [], Inr False)
        else let (sem1, held) = slot_acquire sem in
          if \<not> held then ((g1, sem1), [], Inr False)
          else let (g2, made, ok) = warm_request cfg g1 c
               in ((g2, slot_release sem1), made, Inr ok))"

lemma slot_release_acquire: "snd (slot_acquire sem) \<Longrightarrow> slot_release (fst (slot_acquire sem)) = sem"
  by (auto simp: slot_acquire_def slot_release_def split: if_splits)

lemma slot_acquire_failed: "\<not> snd (slot_acquire sem) \<Longrightarrow> fst (slot_acquire sem) = sem"
  by (auto simp: slot_acquire_def split: if_splits)

lemma warm_request_made:
  "fst (snd (warm_request cfg g c)) =
           (let as = [0..<nat (wm_attempts cfg)]
            in takeWhile (\<lambda>a. wc_reply c a \<noteq> Status 200) as @
               take 1 (dropWhile (\<lambda>a. wc_reply c a \<noteq> Status 200) as))"
  "snd (snd (warm_request cfg g c)) =
           list_ex (\<lambda>a. wc_reply c a = Status 200) [0..<nat (wm_attempts cfg)]"
proof -
  let ?as = "[0..<nat (wm_attempts cfg)]"
  obtain r made slept where r: "request_with_retry (wc_reply c)
      (backoff_delay (wc_jitter c) (wm_backoff cfg)) (wm_attempts cfg) = (r, made, slept)"
    by (cases "request_with_retry (wc_reply c)
      (backoff_delay (wc_jitter c) (wm_backoff cfg)) (wm_attempts cfg)")
  have ok: "isl r = list_all (\<lambda>a. wc_reply c a \<noteq> Status 200) ?as"
    using request_attempts_ok [of "wc_reply c" "backoff_delay (wc_jitter c) (wm_backoff cfg)"
        "wm_attempts cfg" ?as None] r by (simp add: request_with_retry_def)
  have made: "made = takeWhile (\<lambda>a. wc_reply c a \<noteq> Status 200) ?as @
       take 1 (dropWhile (\<lambda>a. wc_reply c a \<noteq> Status 200) ?as)"
    using request_attempts_made [of "wc_reply c" "backoff_delay (wc_jitter c) (wm_backoff cfg)"
        "wm_attempts cfg" ?as None] r
    by (simp add: request_with_retry_def)
  have w: "fst (snd (warm_request cfg g c)) = made" "snd (snd (warm_request cfg g c)) = (\<not> isl r)"
    by (cases r; simp add: warm_request_def r)+
  show "fst (snd (warm_request cfg g c)) =
           (let as = ?as in takeWhile (\<lambda>a. wc_reply c a \<noteq> Status 200) as @
               take 1 (dropWhile (\<lambda>a. wc_reply c a \<noteq> Status 200) as))"
    by (simp only: w made Let_def)
  show "snd (snd (warm_request cfg g c)) = list_ex (\<lambda>a. wc_reply c a = Status 200) ?as"
    by (simp only: w ok list_ex_iff list_all_iff) blast
qed

text \<open>The first attempt is always made.\<close>

lemma take_drop_While_nonempty: "as \<noteq> [] \<Longrightarrow> takeWhile P as @ take 1 (dropWhile P as) \<noteq> []"
  by (cases as) auto

lemma warm_request_nonempty:
  "1 \<le> wm_attempts cfg \<Longrightarrow> fst (snd (warm_request cfg g c)) \<noteq> []"
  unfolding warm_request_made Let_def by (rule take_drop_While_nonempty) simp

lemma warm_request_breaker:
  "gv_breaker (fst (warm_request cfg g c)) =
     (if snd (snd (warm_request cfg g c)) then record_success (gv_breaker g) (wc_model c)
      else record_failure (gv_breaker g) (wc_model c) (wc_failed c))"
  by (auto simp: warm_request_def split: prod.split sum.split)

lemma governor_allow_eq:
  "governor_allow g m now =
     (g\<lparr>gv_breaker := fst (breaker_allow (gv_breaker g) m now)\<rparr>, snd (breaker_allow (gv_breaker g) m now))"
  by (simp add: governor_allow_def split: prod.split)

text \<open>The three ways a call ends: refused before the backend, or decided by the backend.\<close>

lemma warm_cases:
  obtains (blank) "py_blank (wc_model c)" "warm cfg g sem c = ((g, sem), [], Inl EmptyModel)"
  | (refused) g1 where "\<not> py_blank (wc_model c)"
      "g1 = g\<lparr>gv_breaker := fst (breaker_allow (gv_breaker g) (wc_model c) (wc_asked c))\<rparr>"
      "\<not> (snd (breaker_allow (gv_breaker g) (wc_model c) (wc_asked c)) \<and> admit_or_reject g1 c \<and> 0 < sem)"
      "warm cfg g sem c = ((g1, sem), [], Inr False)"
  | (called) g1 where "\<not> py_blank (wc_model c)"
      "g1 = g\<lparr>gv_breaker := fst (breaker_allow (gv_breaker g) (wc_model c) (wc_asked c))\<rparr>"
      "snd (breaker_allow (gv_breaker g) (wc_model c) (wc_asked c))" "admit_or_reject g1 c" "0 < sem"
      "warm cfg g sem c =
         ((fst (warm_request cfg g1 c), sem), fst (snd (warm_request cfg g1 c)),
          Inr (snd (snd (warm_request cfg g1 c))))"
proof -
  define g1 where
    "g1 = g\<lparr>gv_breaker := fst (breaker_allow (gv_breaker g) (wc_model c) (wc_asked c))\<rparr>"
  have a: "governor_allow g (wc_model c) (wc_asked c) =
      (g1, snd (breaker_allow (gv_breaker g) (wc_model c) (wc_asked c)))"
    by (simp add: governor_allow_eq g1_def)
  show thesis
  proof (cases "py_blank (wc_model c)")
    case True
    then show thesis by (intro blank) (simp_all add: warm_def)
  next
    case False
    note nb = this
    show thesis
    proof (cases "snd (breaker_allow (gv_breaker g) (wc_model c) (wc_asked c)) \<and>
        admit_or_reject g1 c \<and> 0 < sem")
      case True
      then show thesis
        by (intro called [OF nb g1_def])
          (auto simp: warm_def nb a slot_acquire_def slot_release_def split: prod.split)
    next
      case False
      then show thesis
        by (intro refused [OF nb g1_def])
          (auto simp: warm_def nb a slot_acquire_def)
    qed
  qed
qed

lemma admit_or_reject_breaker [simp]: "admit_or_reject (g\<lparr>gv_breaker := b\<rparr>) c = admit_or_reject g c"
  by (auto simp: admit_or_reject_def admit_def Let_def split: option.split)

lemma circuit_fail_allow [simp]:
  "circuit_fail mx now (fst (circuit_allow cool asked c)) = circuit_fail mx now c"
  by (cases c) (simp_all add: circuit_fail_def)

lemma circuit_failures_allow [simp]:
  "circuit_failures (fst (circuit_allow cool asked c)) = circuit_failures c"
  by (cases c) simp_all

definition warm_breaker :: "breaker \<Rightarrow> warm_call \<Rightarrow> bool \<Rightarrow> breaker" where
  "warm_breaker b c ok =
     (if ok then record_success b (wc_model c) else record_failure b (wc_model c) (wc_failed c))"

lemma circuit_of_warm_breaker:
  "breaker_ok b \<Longrightarrow>
     breaker_ok (warm_breaker b c ok) \<and>
     circuit_of (warm_breaker b c ok) m =
       (if m = wc_model c then
          if ok then Closed 0 else circuit_fail (cb_limit b) (wc_failed c) (circuit_of b m)
        else circuit_of b m)"
  by (simp add: warm_breaker_def circuit_of_success circuit_of_failure breaker_ok_success
      breaker_ok_failure)

lemma warm_circuits:
  assumes ok: "breaker_ok (gv_breaker g)"
    and w: "warm cfg g sem c = ((g', sem'), made, r)"
  shows "sem' = sem" "breaker_ok (gv_breaker g')"
    and "m \<noteq> wc_model c \<Longrightarrow> circuit_of (gv_breaker g') m = circuit_of (gv_breaker g) m"
proof -
  note [simp] = breaker_ok_allow [OF ok, of "wc_model c" "wc_asked c"]
    circuit_of_allow(1) [OF ok, of "wc_model c" "wc_asked c"]
  have b: "gv_breaker (fst (warm_request cfg g1 c)) =
      warm_breaker (gv_breaker g1) c (snd (snd (warm_request cfg g1 c)))" for g1
    by (simp add: warm_request_breaker warm_breaker_def)
  show "sem' = sem"
    using w by (cases rule: warm_cases [of c cfg g sem]) auto
  show "breaker_ok (gv_breaker g')"
    using w ok by (cases rule: warm_cases [of c cfg g sem]) (auto simp: b circuit_of_warm_breaker)
  show "circuit_of (gv_breaker g') m = circuit_of (gv_breaker g) m" if "m \<noteq> wc_model c"
    using w that by (cases rule: warm_cases [of c cfg g sem]) (auto simp: b circuit_of_warm_breaker)
qed

lemma length_take_drop_While: "length (takeWhile P as @ take 1 (dropWhile P as)) \<le> length as"
  by (induction as) auto

lemma last_take_drop_While:
  "as \<noteq> [] \<Longrightarrow> list_ex Q as = Q (last (takeWhile (\<lambda>a. \<not> Q a) as @ take 1 (dropWhile (\<lambda>a. \<not> Q a) as)))"
proof (induction as)
  case (Cons a as)
  show ?case
  proof (cases "Q a \<or> as = []")
    case True
    then show ?thesis by auto
  next
    case False
    then show ?thesis
      using Cons.IH take_drop_While_nonempty [of as "\<lambda>a. \<not> Q a"]
      by (simp del: append_is_Nil_conv last_append)
  qed
qed simp

lemma warm_request_attempts:
  assumes "1 \<le> wm_attempts cfg" "warm_request cfg g c = (g', made, ok)"
  shows "made \<noteq> []" "int (length made) \<le> wm_attempts cfg" "ok = (wc_reply c (last made) = Status 200)"
proof -
  let ?as = "[0..<nat (wm_attempts cfg)]"
  let ?P = "\<lambda>a. wc_reply c a \<noteq> Status 200"
  have m: "made = takeWhile ?P ?as @ take 1 (dropWhile ?P ?as)"
    using warm_request_made(1) [of cfg g c] assms(2) by (simp add: Let_def)
  have ne: "?as \<noteq> []" using assms(1) by simp
  show "made \<noteq> []" unfolding m by (rule take_drop_While_nonempty [OF ne])
  show "int (length made) \<le> wm_attempts cfg"
    using length_take_drop_While [of ?P ?as] assms(1) unfolding m length_upt by linarith
  show "ok = (wc_reply c (last made) = Status 200)"
    using warm_request_made(2) [of cfg g c] assms(2)
      last_take_drop_While [OF ne, of "\<lambda>a. wc_reply c a = Status 200"]
    by (simp only: m snd_conv)
qed

text \<open>
  \<open>warm\<close> reaches the backend only when circuit, budget and slot allow it, makes at most the
  configured number of attempts, stops at the first that succeeds, and hands the slot back on
  every path. Success closes the circuit of the model, exhausted attempts count as one failure,
  and a call refused before the backend counts as none; other models are not affected.
\<close>

theorem warm_outcome:
  assumes "breaker_ok (gv_breaker g)" "1 \<le> wm_attempts cfg"
  shows "case warm cfg g sem c of ((g', sem'), made, r) \<Rightarrow>
    sem' = sem \<and>
    (if m = wc_model c then True
     else circuit_of (gv_breaker g') m = circuit_of (gv_breaker g) m) \<and>
    (case r of
       Inl e \<Rightarrow> py_blank (wc_model c) \<and> made = [] \<and> g' = g
     | Inr ok \<Rightarrow>
         if made = [] then
           \<not> ok \<and> circuit_failures (circuit_of (gv_breaker g') (wc_model c)) =
                    circuit_failures (circuit_of (gv_breaker g) (wc_model c))
         else
           0 < sem \<and> admit_or_reject g c \<and>
           snd (circuit_allow (cb_cooldown (gv_breaker g)) (wc_asked c)
                  (circuit_of (gv_breaker g) (wc_model c))) \<and>
           int (length made) \<le> wm_attempts cfg \<and>
           ok = (wc_reply c (last made) = Status 200) \<and>
           circuit_of (gv_breaker g') (wc_model c) =
             (if ok then Closed 0
              else circuit_fail (cb_limit (gv_breaker g)) (wc_failed c)
                     (circuit_of (gv_breaker g) (wc_model c))))"
proof (cases rule: warm_cases [of c cfg g sem])
  case blank
  then show ?thesis by simp
next
  case (refused g1)
  then show ?thesis
    using circuit_of_allow [OF assms(1), of "wc_model c" "wc_asked c"]
    by (auto simp del: circuit_failures_of)
next
  case (called g1)
  obtain g' made ok where r: "warm_request cfg g1 c = (g', made, ok)"
    by (cases "warm_request cfg g1 c")
  have b: "gv_breaker g' = warm_breaker (gv_breaker g1) c ok"
    using warm_request_breaker [of cfg g1 c] r by (simp add: warm_breaker_def)
  have ok1: "breaker_ok (gv_breaker g1)"
    by (simp add: called(2) breaker_ok_allow [OF assms(1)])
  have cw: "circuit_of (gv_breaker g') m' =
      (if m' = wc_model c then
         if ok then Closed 0
         else circuit_fail (cb_limit (gv_breaker g)) (wc_failed c) (circuit_of (gv_breaker g) m')
       else circuit_of (gv_breaker g) m')" for m'
    using circuit_of_warm_breaker [OF ok1, of c ok m']
    by (simp add: b called(2) circuit_of_allow(1) [OF assms(1)])
  have w: "warm cfg g sem c = ((g', sem), made, Inr ok)"
    using called(6) r by simp
  have a: "snd (circuit_allow (cb_cooldown (gv_breaker g)) (wc_asked c)
      (circuit_of (gv_breaker g) (wc_model c)))" "admit_or_reject g c"
    using called(2-4) circuit_of_allow(2) [OF assms(1), of "wc_model c" "wc_asked c"] by simp_all
  note at = warm_request_attempts [OF assms(2) r]
  show ?thesis
    using called(5) a at(1,2) by (simp add: w cw at(3))
qed

subsection \<open>A lost probe\<close>

text \<open>Successive calls on one governor, each with the permits free at its time.\<close>

fun warm_run ::
  "warm_config \<Rightarrow> governor \<Rightarrow> (nat \<times> warm_call) list \<Rightarrow> (string \<times> nat list \<times> (warm_error + bool)) list" where
  "warm_run cfg g [] = []"
| "warm_run cfg g ((sem, c) # cs) =
     (case warm cfg g sem c of ((g', sem'), made, r) \<Rightarrow> (wc_model c, made, r) # warm_run cfg g' cs)"

lemma warm_half_open:
  assumes "breaker_ok (gv_breaker g)" "circuit_of (gv_breaker g) m = HalfOpen t n" "\<not> py_blank m"
    "warm cfg g sem c = ((g', sem'), made, r)"
  shows "circuit_of (gv_breaker g') m = HalfOpen t n"
    and "wc_model c = m \<Longrightarrow> made = [] \<and> r = Inr False"
proof -
  note al = circuit_of_allow [OF assms(1), of "wc_model c" "wc_asked c"]
  show "circuit_of (gv_breaker g') m = HalfOpen t n"
  proof (cases "wc_model c = m")
    case True
    then show ?thesis
      using assms(2-4) al
      by (cases rule: warm_cases [of c cfg g sem]) (auto simp del: circuit_failures_of)
  next
    case False
    then show ?thesis using warm_circuits(3) [OF assms(1,4)] assms(2) by simp
  qed
  show "made = [] \<and> r = Inr False" if "wc_model c = m"
    using that assms(2-4) al by (cases rule: warm_cases [of c cfg g sem]) auto
qed

lemma warm_run_half_open:
  assumes "breaker_ok (gv_breaker g)" "circuit_of (gv_breaker g) m = HalfOpen t n" "\<not> py_blank m"
  shows "list_all (\<lambda>(k, made, r). if k = m then made = [] \<and> r = Inr False else True) (warm_run cfg g cs)"
  using assms
proof (induction cs arbitrary: g)
  case Nil
  then show ?case by simp
next
  case (Cons p cs)
  obtain sem c where p: "p = (sem, c)" by (cases p)
  obtain g' sem' made r where w: "warm cfg g sem c = ((g', sem'), made, r)"
    by (metis prod.collapse)
  have "breaker_ok (gv_breaker g')" by (rule warm_circuits(2) [OF Cons.prems(1) w])
  with Cons.IH [of g'] warm_half_open [OF Cons.prems w] Cons.prems(3) show ?case
    by (simp add: p w)
qed

text \<open>
  When the probe of an open circuit is granted to a call that the budget refuses, or that
  finds no slot, the probe is never given back: that call and every later call for the model
  return \<open>False\<close> without reaching the backend, at whatever time and with whatever budget.
\<close>

theorem warm_probe_lost:
  assumes "breaker_ok (gv_breaker g)" "\<not> py_blank (wc_model c)"
    and "circuit_of (gv_breaker g) (wc_model c) = Opened t n"
    and "max 0 (cb_cooldown (gv_breaker g)) \<le> wc_asked c - t"
    and "\<not> (admit_or_reject g c \<and> 0 < sem)"
  shows "list_all (\<lambda>(k, made, r). if k = wc_model c then made = [] \<and> r = Inr False else True)
           (warm_run cfg g ((sem, c) # cs))"
proof (cases rule: warm_cases [of c cfg g sem])
  case (refused g1)
  have "\<not> wc_asked c - t < max 0 (cb_cooldown (gv_breaker g))"
    using assms(4) by (simp only: not_less)
  then have "circuit_of (gv_breaker g1) (wc_model c) = HalfOpen t n"
    by (simp add: refused(2) circuit_of_allow [OF assms(1)] assms(3))
  moreover have "breaker_ok (gv_breaker g1)"
    by (simp add: refused(2) breaker_ok_allow [OF assms(1)])
  ultimately show ?thesis
    using warm_run_half_open [of g1 "wc_model c" t n cfg cs] assms(2) by (simp add: refused(4))
qed (use assms in auto)

subsection \<open>Several callers\<close>

text \<open>
  Callers of \<open>warm\<close> on several managers, each with its governor, all sharing the semaphore. A step
  of a caller is its next atomic action: asking the breaker, checking the budget, taking the
  slot, running its request and recording the result, giving the slot back.
\<close>

datatype warm_pc = Asking | Admitting | Waiting | Posting | Releasing bool | Ended bool

record caller =
  cl_governor :: nat
  cl_call :: warm_call
  cl_pc :: warm_pc

record router =
  rt_sem :: nat
  rt_governors :: "governor list"
  rt_callers :: "caller list"

definition move_caller :: "router \<Rightarrow> nat \<Rightarrow> warm_pc \<Rightarrow> router" where
  "move_caller s i pc =
     s\<lparr>rt_callers := (rt_callers s)[i := (rt_callers s ! i)\<lparr>cl_pc := pc\<rparr>]\<rparr>"

definition put_governor :: "router \<Rightarrow> nat \<Rightarrow> governor \<Rightarrow> router" where
  "put_governor s j g = s\<lparr>rt_governors := (rt_governors s)[j := g]\<rparr>"

definition caller_step :: "warm_config \<Rightarrow> router \<Rightarrow> nat \<Rightarrow> router" where
  "caller_step cfg s i =
     (let j = cl_governor (rt_callers s ! i); c = cl_call (rt_callers s ! i); g = rt_governors s ! j
      in case cl_pc (rt_callers s ! i) of
           Asking \<Rightarrow>
             (case governor_allow g (wc_model c) (wc_asked c) of
                (g', ok) \<Rightarrow> move_caller (put_governor s j g') i (if ok then Admitting else Ended False))
         | Admitting \<Rightarrow> move_caller s i (if admit_or_reject g c then Waiting else Ended False)
         | Waiting \<Rightarrow>
             (case slot_acquire (rt_sem s) of
                (sem, held) \<Rightarrow> move_caller (s\<lparr>rt_sem := sem\<rparr>) i (if held then Posting else Ended False))
         | Posting \<Rightarrow>
             (case warm_request cfg g c of
                (g', made, ok) \<Rightarrow> move_caller (put_governor s j g') i (Releasing ok))
         | Releasing ok \<Rightarrow> move_caller (s\<lparr>rt_sem := slot_release (rt_sem s)\<rparr>) i (Ended ok)
         | Ended ok \<Rightarrow> s)"

inductive reachable_router :: "warm_config \<Rightarrow> router \<Rightarrow> bool" for cfg where
  start: "list_all (\<lambda>g. breaker_ok (gv_breaker g)) gs \<Longrightarrow>
            reachable_router cfg \<lparr>rt_sem = 1, rt_governors = gs, rt_callers = []\<rparr>"
| spawn: "reachable_router cfg s \<Longrightarrow> j < length (rt_governors s) \<Longrightarrow> \<not> py_blank (wc_model c) \<Longrightarrow>
            reachable_router cfg
              (s\<lparr>rt_callers := rt_callers s @ [\<lparr>cl_governor = j, cl_call = c, cl_pc = Asking\<rparr>]\<rparr>)"
| act: "reachable_router cfg s \<Longrightarrow> i < length (rt_callers s) \<Longrightarrow> reachable_router cfg (caller_step cfg s i)"

fun holds_slot :: "warm_pc \<Rightarrow> bool" where
  "holds_slot Posting = True"
| "holds_slot (Releasing ok) = True"
| "holds_slot _ = False"

definition slot_holders :: "router \<Rightarrow> nat" where
  "slot_holders s = length (filter (\<lambda>w. holds_slot (cl_pc w)) (rt_callers s))"

lemma length_filter_update:
  "i < length xs \<Longrightarrow>
     length (filter P (xs[i := x])) + (if P (xs ! i) then 1 else 0) =
     length (filter P xs) + (if P x then 1 else 0)"
proof (induction xs arbitrary: i)
  case (Cons y xs)
  then show ?case using Cons.IH [of "i - 1"] by (cases i) (auto split: if_splits)
qed simp

lemma slot_holders_move:
  "i < length (rt_callers s) \<Longrightarrow>
     slot_holders (move_caller s i pc) + (if holds_slot (cl_pc (rt_callers s ! i)) then 1 else 0) =
     slot_holders s + (if holds_slot pc then 1 else 0)"
  using length_filter_update [of i "rt_callers s" "\<lambda>w. holds_slot (cl_pc w)"
      "(rt_callers s ! i)\<lparr>cl_pc := pc\<rparr>"]
  by (simp add: slot_holders_def move_caller_def)

lemma router_simps [simp]:
  "rt_sem (move_caller s i pc) = rt_sem s" "rt_sem (put_governor s j g) = rt_sem s"
  "rt_governors (move_caller s i pc) = rt_governors s"
  "rt_callers (put_governor s j g) = rt_callers s"
  "slot_holders (put_governor s j g) = slot_holders s"
  "slot_holders (s\<lparr>rt_sem := k\<rparr>) = slot_holders s"
  "slot_holders (move_caller (s\<lparr>rt_sem := k\<rparr>) i pc) = slot_holders (move_caller s i pc)"
  "slot_holders (move_caller (put_governor s j g) i pc) = slot_holders (move_caller s i pc)"
  by (simp_all add: move_caller_def put_governor_def slot_holders_def)

lemma move_governor_comm: "rt_governors (put_governor s j g) = (rt_governors s)[j := g]"
  by (simp add: put_governor_def)

lemma caller_step_slot:
  assumes "i < length (rt_callers s)" "rt_sem s + slot_holders s = 1"
  shows "rt_sem (caller_step cfg s i) + slot_holders (caller_step cfg s i) = 1"
proof -
  note mv = slot_holders_move [of i]
  show ?thesis
  proof (cases "cl_pc (rt_callers s ! i)")
    case Asking
    then show ?thesis
      using assms mv [of s "Releasing b" for b] mv [of s "Ended b" for b] mv [of s Admitting]
      by (auto simp: caller_step_def Let_def split: prod.split)
  next
    case Admitting
    then show ?thesis
      using assms mv [of s] by (simp add: caller_step_def Let_def)
  next
    case Waiting
    then show ?thesis
      using assms mv [of s]
      by (auto simp: caller_step_def Let_def slot_acquire_def)
  next
    case Posting
    then show ?thesis
      using assms mv [of s "Releasing b" for b] mv [of s "Ended b" for b] mv [of s Admitting]
      by (auto simp: caller_step_def Let_def split: prod.split)
  next
    case (Releasing ok)
    then show ?thesis
      using assms mv [of s "Ended ok"]
      by (simp add: caller_step_def Let_def slot_release_def)
  next
    case (Ended ok)
    then show ?thesis using assms by (simp add: caller_step_def Let_def)
  qed
qed

lemma reachable_slot:
  "reachable_router cfg s \<Longrightarrow> rt_sem s + slot_holders s = 1"
  by (induction rule: reachable_router.induct)
    (auto simp: caller_step_slot, simp_all add: slot_holders_def)

text \<open>
  C5: however the calls of any number of managers interleave, at most one of them runs an
  inference at any moment, and the shared slot is free exactly when none does: no path, refusals
  and failures included, leaks or duplicates it.
\<close>

theorem inference_slot_exclusive:
  assumes "reachable_router cfg s"
  shows "length (filter (\<lambda>w. cl_pc w = Posting) (rt_callers s)) \<le> 1 \<and>
         slot_holders s \<le> 1 \<and> rt_sem s = 1 - slot_holders s"
proof -
  have "filter (\<lambda>w. cl_pc w = Posting) (filter (\<lambda>w. holds_slot (cl_pc w)) ws) =
      filter (\<lambda>w. cl_pc w = Posting) ws" for ws :: "caller list"
    by (induction ws) auto
  then have "length (filter (\<lambda>w. cl_pc w = Posting) (rt_callers s)) \<le> slot_holders s"
    by (metis slot_holders_def length_filter_le)
  with reachable_slot [OF assms] show ?thesis by linarith
qed

lemma inference_slot_exclusive_witness:
  "\<exists>c g s. reachable_router \<lparr>wm_attempts = 1, wm_backoff = 0\<rparr> s \<and>
     s = \<lparr>rt_sem = 1, rt_governors = [g], rt_callers = [\<lparr>cl_governor = 0, cl_call = c, cl_pc = Asking\<rparr>]\<rparr> \<and>
     slot_holders s \<le> 1"
proof -
  let ?c = "\<lparr>wc_model = ''m'', wc_prompt = None, wc_ctx = None, wc_free = None, wc_footprint = None,
    wc_unloadable = 0, wc_asked = 0, wc_failed = 0, wc_reply = \<lambda>i. Status 200, wc_jitter = \<lambda>i x. x\<rparr>"
  let ?g = "governor_new (\<lambda>s. None) (\<lambda>s. None) None None None"
  let ?s = "\<lparr>rt_sem = 1, rt_governors = [?g], rt_callers = [\<lparr>cl_governor = 0, cl_call = ?c, cl_pc = Asking\<rparr>]\<rparr>"
  have "\<not> py_blank ''m''" by (simp add: py_blank_iff py_isspace_def)
  then have "reachable_router \<lparr>wm_attempts = 1, wm_backoff = 0\<rparr> ?s"
    using reachable_router.spawn [of "\<lparr>wm_attempts = 1, wm_backoff = 0\<rparr>"
        "\<lparr>rt_sem = 1, rt_governors = [?g], rt_callers = []\<rparr>" 0 ?c] reachable_router.start [of "[?g]"]
    by (simp add: governor_new_def)
  with inference_slot_exclusive [OF this] show ?thesis by blast
qed

text \<open>A caller left alone does what \<open>warm\<close> does.\<close>

definition caller_at :: "router \<Rightarrow> nat \<Rightarrow> nat \<Rightarrow> nat \<Rightarrow> governor \<Rightarrow> warm_call \<Rightarrow> warm_pc \<Rightarrow> router" where
  "caller_at s i j sem g c pc =
     s\<lparr>rt_sem := sem, rt_governors := (rt_governors s)[j := g],
       rt_callers := (rt_callers s)[i := \<lparr>cl_governor = j, cl_call = c, cl_pc = pc\<rparr>]\<rparr>"

lemma caller_step_at:
  assumes "i < length (rt_callers s)" "j < length (rt_governors s)"
  shows "caller_step cfg (caller_at s i j sem g c pc) i =
    (case pc of
       Asking \<Rightarrow> caller_at s i j sem (fst (governor_allow g (wc_model c) (wc_asked c))) c
                   (if snd (governor_allow g (wc_model c) (wc_asked c)) then Admitting else Ended False)
     | Admitting \<Rightarrow> caller_at s i j sem g c (if admit_or_reject g c then Waiting else Ended False)
     | Waiting \<Rightarrow> caller_at s i j (fst (slot_acquire sem)) g c
                    (if snd (slot_acquire sem) then Posting else Ended False)
     | Posting \<Rightarrow> caller_at s i j sem (fst (warm_request cfg g c)) c
                    (Releasing (snd (snd (warm_request cfg g c))))
     | Releasing ok \<Rightarrow> caller_at s i j (slot_release sem) g c (Ended ok)
     | Ended ok \<Rightarrow> caller_at s i j sem g c pc)"
  using assms
  by (cases pc) (simp_all add: caller_step_def caller_at_def move_caller_def put_governor_def
      case_prod_beta)

lemma caller_alone:
  assumes "i < length (rt_callers s)" "j < length (rt_governors s)" "\<not> py_blank (wc_model c)"
  shows "case warm cfg g sem c of
    ((g', sem'), made, r) \<Rightarrow>
      ((\<lambda>s. caller_step cfg s i) ^^ 5) (caller_at s i j sem g c Asking) =
      caller_at s i j sem' g' c (Ended (projr r))"
  using assms(3)
  by (simp add: numeral_eq_Suc caller_step_at [OF assms(1,2)] warm_def case_prod_beta Let_def
      slot_acquire_def slot_release_def)

subsection \<open>Concrete runs\<close>

definition sample_call :: "int \<Rightarrow> rat \<Rightarrow> (nat \<Rightarrow> http_reply) \<Rightarrow> warm_call" where
  "sample_call prompt now reply =
     \<lparr>wc_model = ''m'', wc_prompt = Some prompt, wc_ctx = Some 8192, wc_free = None,
      wc_footprint = Some 5000, wc_unloadable = 0, wc_asked = now, wc_failed = now,
      wc_reply = reply, wc_jitter = (\<lambda>i x. x)\<rparr>"

definition sample_governor :: governor where
  "sample_governor =
     \<lparr>gv_margin = 1500, gv_timeout = 120,
      gv_breaker = record_failure (breaker_new (\<lambda>s. None) (\<lambda>s. None) (Some 1) (Some 60)) ''m'' 0\<rparr>"

lemma sample_breaker_ok: "breaker_ok (gv_breaker sample_governor)"
  by (simp add: sample_governor_def breaker_ok_failure)

lemma warm_outcome_witness:
  "case warm \<lparr>wm_attempts = 2, wm_backoff = 1\<rparr> sample_governor 1
          (sample_call 100 60 (\<lambda>i. if i = 0 then NoConnection else Status 200)) of
     ((g', sem'), made, r) \<Rightarrow>
       sem' = 1 \<and> made = [0, 1] \<and> r = Inr True \<and> circuit_of (gv_breaker g') ''m'' = Closed 0"
  using warm_outcome [OF sample_breaker_ok, where cfg = "\<lparr>wm_attempts = 2, wm_backoff = 1\<rparr>" and sem = 1
      and c = "sample_call 100 60 (\<lambda>i. if i = 0 then NoConnection else Status 200)" and m = "''m''"]
  by (simp add: warm_def sample_call_def sample_governor_def py_blank_iff py_isspace_def governor_allow_def
      breaker_allow_def record_failure_def breaker_new_def cb_limit_def dict_get_def admit_or_reject_def
      admit_def default_reserved_def slot_acquire_def slot_release_def warm_request_def
      request_with_retry_def backoff_delay_def record_success_def circuit_of_def upt_rec Let_def)

lemma warm_probe_lost_witness:
  "list_all (\<lambda>(k, made, r). if k = ''m'' then made = [] \<and> r = Inr False else True)
     (warm_run \<lparr>wm_attempts = 3, wm_backoff = 1\<rparr> sample_governor
        [(1, sample_call 9000 60 (\<lambda>i. Status 200)), (1, sample_call 10 (10 ^ 9) (\<lambda>i. Status 200))])"
proof -
  have "\<not> admit_or_reject sample_governor (sample_call 9000 60 (\<lambda>i. Status 200))"
    by (simp add: admit_or_reject_def sample_call_def admit_def default_reserved_def sample_governor_def)
  moreover have "circuit_of (gv_breaker sample_governor) ''m'' = Opened 0 1"
    by (simp add: circuit_of_def sample_governor_def record_failure_def breaker_new_def cb_limit_def
        dict_get_def)
  moreover have "\<not> py_blank ''m''" "cb_cooldown (gv_breaker sample_governor) = 60"
    by (simp_all add: py_blank_iff py_isspace_def sample_governor_def breaker_new_def)
  ultimately show ?thesis
    using warm_probe_lost [OF sample_breaker_ok, of "sample_call 9000 60 (\<lambda>i. Status 200)" 0 1 1
        "\<lparr>wm_attempts = 3, wm_backoff = 1\<rparr>" "[(1, sample_call 10 (10 ^ 9) (\<lambda>i. Status 200))]"]
    by (simp add: sample_call_def)
qed

end
