(* ===== verification/SessionAffinity.thy ===== *)
theory SessionAffinity
  imports Complex_Main Prelude
begin

text \<open>
  Sticky routing of sessions to model tiers (harness/model_router/session_affinity.py). The
  classifier is the parameter \<open>decide\<close>; clock readings are arguments, times are rationals.
\<close>

definition valid_tiers :: "string list" where
  "valid_tiers = [''small'', ''frontier'']"

definition should_switch :: "rat \<Rightarrow> rat \<Rightarrow> bool" where
  "should_switch hit_rate min_rate = (hit_rate < min_rate)"

record session_entry =
  se_tier :: string
  se_last :: rat

record affinity =
  af_ttl :: rat
  af_max :: int
  af_sessions :: "(string \<times> session_entry) list"
  af_avoided :: nat

definition affinity_new :: "rat \<Rightarrow> int \<Rightarrow> affinity" where
  "affinity_new ttl mx = \<lparr>af_ttl = ttl, af_max = mx, af_sessions = [], af_avoided = 0\<rparr>"

text \<open>\<open>NoOldest\<close> is the \<open>ValueError\<close> of \<open>min\<close> on an empty dictionary.\<close>

datatype affinity_error = EmptySession | EmptyTask | UnknownTier string | NoOldest

definition remember_session :: "affinity \<Rightarrow> string \<Rightarrow> string \<Rightarrow> rat \<Rightarrow> (affinity_error + affinity)" where
  "remember_session a s tier now =
     (if af_max a \<le> int (length (af_sessions a)) \<and> map_of (af_sessions a) s = None then
        if af_sessions a = [] then Inl NoOldest
        else let oldest = fst (arg_min_list (\<lambda>kv. se_last (snd kv)) (af_sessions a))
             in Inr (a\<lparr>af_sessions := AList.update s \<lparr>se_tier = tier, se_last = now\<rparr>
                         (AList.delete oldest (af_sessions a))\<rparr>)
      else Inr (a\<lparr>af_sessions := AList.update s \<lparr>se_tier = tier, se_last = now\<rparr> (af_sessions a)\<rparr>))"

definition route_decide ::
  "(string \<Rightarrow> string) \<Rightarrow> affinity \<Rightarrow> string \<Rightarrow> string \<Rightarrow> rat \<Rightarrow> affinity \<times> (affinity_error + string \<times> bool)" where
  "route_decide decide a s task now =
     (let tier = decide task
      in if tier \<notin> set valid_tiers then (a, Inl (UnknownTier tier))
         else case remember_session a s tier now of
                Inl e \<Rightarrow> (a, Inl e)
              | Inr a' \<Rightarrow> (a', Inr (tier, False)))"

definition affinity_route ::
  "(string \<Rightarrow> string) \<Rightarrow> affinity \<Rightarrow> string \<Rightarrow> string \<Rightarrow> rat \<Rightarrow> affinity \<times> (affinity_error + string \<times> bool)" where
  "affinity_route decide a s task now =
     (if py_blank s then (a, Inl EmptySession)
      else if py_blank task then (a, Inl EmptyTask)
      else case map_of (af_sessions a) s of
             None \<Rightarrow> route_decide decide a s task now
           | Some e \<Rightarrow>
               if now - se_last e \<le> af_ttl a
               then (a\<lparr>af_sessions := AList.update s (e\<lparr>se_last := now\<rparr>) (af_sessions a),
                       af_avoided := af_avoided a + 1\<rparr>, Inr (se_tier e, True))
               else route_decide decide a s task now)"

fun affinity_run ::
  "(string \<Rightarrow> string) \<Rightarrow> affinity \<Rightarrow> (string \<times> string \<times> rat) list \<Rightarrow>
     affinity \<times> (string \<times> (affinity_error + string \<times> bool)) list" where
  "affinity_run decide a [] = (a, [])"
| "affinity_run decide a ((s, task, now) # calls) =
     (case affinity_route decide a s task now of
        (a1, r) \<Rightarrow> case affinity_run decide a1 calls of (a2, rs) \<Rightarrow> (a2, (s, r) # rs))"

definition affinity_inv :: "affinity \<Rightarrow> bool" where
  "affinity_inv a \<longleftrightarrow>
     wf_dict (af_sessions a) \<and> int (length (af_sessions a)) \<le> max 0 (af_max a) \<and>
     (\<forall>s e. map_of (af_sessions a) s = Some e \<longrightarrow> se_tier e \<in> set valid_tiers)"

text \<open>The tier a session was last served, along a sequence of results.\<close>

fun cached_ok :: "(string \<Rightarrow> string option) \<Rightarrow> (string \<times> (affinity_error + string \<times> bool)) list \<Rightarrow> bool" where
  "cached_ok served [] = True"
| "cached_ok served ((s, Inl e) # rs) = cached_ok served rs"
| "cached_ok served ((s, Inr (tier, cached)) # rs) =
     (tier \<in> set valid_tiers \<and> (if cached then served s = Some tier else True) \<and>
      cached_ok (served(s \<mapsto> tier)) rs)"

definition cache_hits :: "(string \<times> (affinity_error + string \<times> bool)) list \<Rightarrow> nat" where
  "cache_hits rs = length (filter (\<lambda>(s, r). case r of Inl e \<Rightarrow> False | Inr (tier, cached) \<Rightarrow> cached) rs)"

lemma arg_min_key:
  "xs \<noteq> [] \<Longrightarrow> map_of xs (fst (arg_min_list (f :: 'a \<times> 'b \<Rightarrow> 'c::linorder) xs)) \<noteq> None"
  using arg_min_list_in [of xs f] by (metis map_of_eq_None_iff image_eqI image_set)

text \<open>What a decided route leaves: a smaller or equal dictionary but for the session itself.\<close>

lemma remember_session_inv:
  assumes "affinity_inv a" "tier \<in> set valid_tiers" "remember_session a s tier now = Inr a'"
  shows "affinity_inv a'" "af_avoided a' = af_avoided a" "af_ttl a' = af_ttl a"
    and "map_of (af_sessions a') s = Some \<lparr>se_tier = tier, se_last = now\<rparr>"
    and "k \<noteq> s \<Longrightarrow> map_of (af_sessions a') k \<in> {None, map_of (af_sessions a) k}"
proof -
  let ?old = "fst (arg_min_list (\<lambda>kv. se_last (snd kv)) (af_sessions a))"
  have d: "wf_dict (af_sessions a)" using assms(1) by (simp add: affinity_inv_def)
  have len: "length (AList.delete ?old (af_sessions a)) = length (af_sessions a) - 1"
    if "af_sessions a \<noteq> []"
    using length_dict_delete [OF d, of ?old] arg_min_key [OF that, of "\<lambda>kv. se_last (snd kv)"] by simp
  show "affinity_inv a'"
    using assms len
    by (auto simp: affinity_inv_def remember_session_def Let_def length_dict_update split: if_splits)
  show "af_avoided a' = af_avoided a" "af_ttl a' = af_ttl a"
    "map_of (af_sessions a') s = Some \<lparr>se_tier = tier, se_last = now\<rparr>"
    "k \<noteq> s \<Longrightarrow> map_of (af_sessions a') k \<in> {None, map_of (af_sessions a) k}"
    using assms(3) by (auto simp: remember_session_def Let_def split: if_splits)
qed

lemma affinity_route_cases:
  assumes "affinity_inv a" "affinity_route decide a s task now = (a', r)"
  obtains (err) e where "a' = a" "r = Inl e"
  | (hit) e where "map_of (af_sessions a) s = Some e" "now - se_last e \<le> af_ttl a"
      "r = Inr (se_tier e, True)" "affinity_inv a'" "af_avoided a' = af_avoided a + 1"
      "map_of (af_sessions a') = (map_of (af_sessions a))(s \<mapsto> e\<lparr>se_last := now\<rparr>)"
  | (decided) "r = Inr (decide task, False)" "decide task \<in> set valid_tiers"
      "remember_session a s (decide task) now = Inr a'"
proof -
  have hit_inv: "affinity_inv (a\<lparr>af_sessions := AList.update s (e\<lparr>se_last := now\<rparr>) (af_sessions a),
      af_avoided := n\<rparr>)" if "map_of (af_sessions a) s = Some e" for e n
    using assms(1) that by (auto simp: affinity_inv_def length_dict_update)
  show thesis
    using assms(2) hit_inv
    by (auto simp: affinity_route_def route_decide_def Let_def intro: err hit decided
        split: if_splits option.splits sum.splits)
qed

lemma affinity_run_sticky:
  assumes "affinity_inv a"
    and "\<And>s e. map_of (af_sessions a) s = Some e \<Longrightarrow> served s = Some (se_tier e)"
  shows "case affinity_run decide a calls of
    (a', rs) \<Rightarrow> affinity_inv a' \<and> cached_ok served rs \<and> af_avoided a' = af_avoided a + cache_hits rs"
  using assms
proof (induction calls arbitrary: a served)
  case Nil
  then show ?case by (simp add: cache_hits_def)
next
  case (Cons call calls)
  obtain s task now where c: "call = (s, task, now)" by (cases call)
  obtain a1 r where r: "affinity_route decide a s task now = (a1, r)" by fastforce
  obtain a2 rs where rs: "affinity_run decide a1 calls = (a2, rs)" by fastforce
  show ?case
    using Cons.prems(1) r
  proof (cases rule: affinity_route_cases)
    case (err e)
    then show ?thesis using Cons.IH [OF Cons.prems] rs by (simp add: c r cache_hits_def)
  next
    case (hit e)
    have "served s = Some (se_tier e)" by (rule Cons.prems(2) [OF hit(1)])
    moreover have "se_tier e \<in> set valid_tiers"
      using Cons.prems(1) hit(1) by (simp add: affinity_inv_def)
    moreover have sv: "(served(s \<mapsto> se_tier e)) k = Some (se_tier e')"
      if "map_of (af_sessions a1) k = Some e'" for k e'
      using that Cons.prems(2) hit(6) by (auto split: if_splits)
    ultimately show ?thesis
      using hit rs Cons.IH [OF hit(4), of "served(s \<mapsto> se_tier e)", OF sv]
      by (simp add: c r cache_hits_def fun_upd_def)
  next
    case decided
    note m = remember_session_inv [OF Cons.prems(1) decided(2,3)]
    have "(served(s \<mapsto> decide task)) k = Some (se_tier e')"
      if "map_of (af_sessions a1) k = Some e'" for k e'
      using that m(4) m(5) [of k] Cons.prems(2) [of k e'] by (cases "k = s") auto
    then show ?thesis
      using Cons.IH [OF m(1), of "served(s \<mapsto> decide task)"] decided rs m(2)
      by (simp add: c r cache_hits_def fun_upd_def)
  qed
qed

text \<open>
  Over any sequence of calls a session is served only valid tiers, a result taken from the
  affinity repeats the tier the session was last served, the counter of avoided switches is the
  number of such results, and never more than the configured number of sessions is remembered.
\<close>

theorem affinity_sticky:
  "case affinity_run decide (affinity_new ttl mx) calls of
     (a, rs) \<Rightarrow> cached_ok (\<lambda>s. None) rs \<and> af_avoided a = cache_hits rs \<and>
                int (length (af_sessions a)) \<le> max 0 mx"
proof -
  have t: "af_max (fst (affinity_run decide a calls)) = af_max a" for a
  proof (induction calls arbitrary: a)
    case (Cons call calls)
    have "af_max (fst (affinity_route decide a s task now)) = af_max a" for s task now
      by (auto simp: affinity_route_def route_decide_def remember_session_def Let_def
          split: option.split sum.split)
    with Cons show ?case by (cases call) (auto split: prod.split, metis fst_conv)
  qed simp
  show ?thesis
    using affinity_run_sticky [of "affinity_new ttl mx" "\<lambda>s. None" decide calls]
      t [of "affinity_new ttl mx"]
    by (auto simp: affinity_new_def affinity_inv_def split: prod.splits)
qed

end
