(* ===== verification/TaskPlan.thy ===== *)
theory TaskPlan
  imports Complex_Main Prelude "HOL-Library.Product_Lexorder" "HOL-Library.Multiset"
begin

text \<open>
  Execution plans (harness/orchestrator/task_planner/models.py) and the latency-aware ordering of
  their subtasks (harness/orchestrator/latency_aware.py): the levels of a plan, the critical path,
  the topological reordering and the search for independent pairs. Latencies are rationals.
\<close>

subsection \<open>Subtasks and plans\<close>

record subtask =
  st_id :: string
  st_agent :: string
  st_description :: string
  st_deps :: "string list"
  st_expected :: string
  st_hint :: string
  st_completed :: bool
  st_result :: string
  st_impact :: string
  st_latency :: "rat option"

record task_plan =
  tp_session :: string
  tp_message :: string
  tp_subtasks :: "subtask list"
  tp_template :: string

datatype plan_error = MissingKey string | NoProgress

definition subtask_to_dict :: "subtask \<Rightarrow> 'a payload" where
  "subtask_to_dict s =
     [(''id'', PStr (st_id s)), (''agent'', PStr (st_agent s)),
      (''description'', PStr (st_description s)),
      (''dependencies'', PList (map PStr (st_deps s))),
      (''expected_output'', PStr (st_expected s)), (''context_hint'', PStr (st_hint s)),
      (''completed'', PBool (st_completed s)), (''result'', PStr (st_result s)),
      (''confidence_impact'', PStr (st_impact s))]"

definition plan_to_dict :: "task_plan \<Rightarrow> 'a payload" where
  "plan_to_dict p =
     [(''session_id'', PStr (tp_session p)), (''original_message'', PStr (tp_message p)),
      (''subtasks'', PList (map (\<lambda>s. PDict (subtask_to_dict s)) (tp_subtasks p))),
      (''template_name'', PStr (tp_template p))]"

definition completed_ids :: "task_plan \<Rightarrow> string list" where
  "completed_ids p = map st_id (filter st_completed (tp_subtasks p))"

definition get_pending :: "task_plan \<Rightarrow> subtask list" where
  "get_pending p =
     filter (\<lambda>s. \<not> st_completed s \<and> list_all (\<lambda>d. d \<in> set (completed_ids p)) (st_deps s))
       (tp_subtasks p)"

definition get_next_level :: "task_plan \<Rightarrow> subtask list" where
  "get_next_level p =
     (let pending = get_pending p
      in if pending = [] then []
         else let min_deps = Min (set (map (\<lambda>s. length (st_deps s)) pending))
              in filter (\<lambda>s. length (st_deps s) = min_deps) pending)"

fun complete_first :: "string \<Rightarrow> string \<Rightarrow> subtask list \<Rightarrow> subtask list" where
  "complete_first i r [] = []"
| "complete_first i r (s # ss) =
     (if st_id s = i then s\<lparr>st_completed := True, st_result := r\<rparr> # ss
      else s # complete_first i r ss)"

definition mark_completed :: "task_plan \<Rightarrow> string \<Rightarrow> string \<Rightarrow> task_plan" where
  "mark_completed p i r = p\<lparr>tp_subtasks := complete_first i r (tp_subtasks p)\<rparr>"

definition plan_is_complete :: "task_plan \<Rightarrow> bool" where
  "plan_is_complete p = list_all st_completed (tp_subtasks p)"

subsection \<open>The critical path\<close>

definition by_id :: "subtask list \<Rightarrow> (string \<times> subtask) list" where
  "by_id ts = fold (\<lambda>s. AList.update (st_id s) s) ts []"

definition weight :: "subtask \<Rightarrow> rat" where
  "weight s = (case st_latency s of Some x \<Rightarrow> x | None \<Rightarrow> 1)"

text \<open>Dependencies within the list; those outside count as done.\<close>

definition inner_deps :: "subtask list \<Rightarrow> (string \<times> string list) list" where
  "inner_deps ts =
     fold (\<lambda>s. AList.update (st_id s) (filter (\<lambda>d. map_of (by_id ts) d \<noteq> None) (st_deps s))) ts []"

text \<open>\<open>adj[dep].append(id)\<close> on a \<open>defaultdict(list)\<close>\<close>

definition add_edges :: "string list \<Rightarrow> string \<Rightarrow> (string \<times> string list) list \<Rightarrow> (string \<times> string list) list" where
  "add_edges ds i adj = fold (\<lambda>d a. AList.update d (dict_get a d [] @ [i]) a) ds adj"

definition adjacency :: "(subtask \<Rightarrow> string list) \<Rightarrow> subtask list \<Rightarrow> (string \<times> string list) list" where
  "adjacency deps ts = fold (\<lambda>s. add_edges (deps s) (st_id s)) ts []"

definition degrees :: "(subtask \<Rightarrow> string list) \<Rightarrow> subtask list \<Rightarrow> (string \<times> int) list" where
  "degrees deps ts = fold (\<lambda>s. AList.update (st_id s) (int (length (deps s)))) ts []"

text \<open>
  One pass over the successors of a finished node: each loses one from its degree, those that
  reach zero become ready, in order. All successors are keys of the degrees.
\<close>

fun relax :: "string list \<Rightarrow> (string \<times> int) list \<Rightarrow> (string \<times> int) list \<times> string list" where
  "relax [] ind = (ind, [])"
| "relax (x # xs) ind =
     (let n = dict_get ind x 0 - 1; (ind', rs) = relax xs (AList.update x n ind)
      in (ind', if n = 0 then x # rs else rs))"

definition open_nodes :: "(string \<times> int) list \<Rightarrow> nat" where
  "open_nodes ind = length (filter (\<lambda>p. 0 < snd p) ind)"

lemma open_nodes_update:
  "open_nodes (AList.update x (dict_get ind x 0 - 1) ind) + (if dict_get ind x 0 = 1 then 1 else 0) \<le>
     open_nodes ind"
  by (induction ind) (auto simp: open_nodes_def dict_get_def)

lemma relax_open_nodes:
  "relax xs ind = (ind', rs) \<Longrightarrow> open_nodes ind' + length rs \<le> open_nodes ind"
proof (induction xs arbitrary: ind ind' rs)
  case (Cons x xs)
  obtain i r where ir: "relax xs (AList.update x (dict_get ind x 0 - 1) ind) = (i, r)" by fastforce
  show ?case
    using Cons.IH [OF ir] open_nodes_update [of x ind] Cons.prems ir by (auto simp: Let_def split: if_splits)
qed simp

text \<open>
  Kahn's algorithm: with \<open>None\<close> the ready nodes are a first-in first-out queue, with
  \<open>Some key\<close> they are sorted by the key each time (stably, as \<open>list.sort\<close> is).
\<close>

definition arrange :: "(string \<Rightarrow> nat \<times> nat) option \<Rightarrow> string list \<Rightarrow> string list" where
  "arrange key xs = (case key of None \<Rightarrow> xs | Some f \<Rightarrow> sort_key f xs)"

lemma arrange_simps [simp]:
  "length (arrange key xs) = length xs" "set (arrange key xs) = set xs" "mset (arrange key xs) = mset xs"
  "distinct (arrange key xs) = distinct xs"
  by (simp_all add: arrange_def split: option.split)

function kahn ::
  "(string \<Rightarrow> nat \<times> nat) option \<Rightarrow> (string \<times> string list) list \<Rightarrow> (string \<times> int) list \<Rightarrow>
     string list \<Rightarrow> string list" where
  "kahn key adj ind [] = []"
| "kahn key adj ind (x # q) =
     (let (ind', rs) = relax (dict_get adj x []) ind in x # kahn key adj ind' (arrange key (q @ rs)))"
  by pat_completeness auto
termination
  by (relation "measure (\<lambda>(key, adj, ind, q). length q + open_nodes ind)")
    (auto dest!: relax_open_nodes [OF sym])

definition ready_nodes :: "subtask list \<Rightarrow> (string \<times> int) list \<Rightarrow> string list" where
  "ready_nodes ts ind = filter (\<lambda>i. dict_get ind i 0 = 0) (map st_id ts)"

definition inner :: "subtask list \<Rightarrow> subtask \<Rightarrow> string list" where
  "inner ts s = dict_get (inner_deps ts) (st_id s) []"

text \<open>The order in which the longest paths are computed: Kahn's, then what a cycle left over.\<close>

definition path_order :: "subtask list \<Rightarrow> string list" where
  "path_order ts =
     (let ind = degrees (inner ts) ts;
          topo = kahn None (adjacency (inner ts) ts) ind (ready_nodes ts ind)
      in if length topo < length ts
         then foldl (\<lambda>t s. if st_id s \<in> set t then t else t @ [st_id s]) topo ts
         else topo)"

text \<open>\<open>dst[dep]\<close> raises \<open>KeyError\<close> for a dependency that has not been reached yet.\<close>

fun best_dep ::
  "rat \<Rightarrow> (string \<times> rat) list \<Rightarrow> string list \<Rightarrow> rat \<Rightarrow> string option \<Rightarrow> plan_error + rat \<times> string option" where
  "best_dep w dst [] best p = Inr (best, p)"
| "best_dep w dst (d # ds) best p =
     (case map_of dst d of
        None \<Rightarrow> Inl (MissingKey d)
      | Some x \<Rightarrow> if x + w > best then best_dep w dst ds (x + w) (Some d)
                  else best_dep w dst ds best p)"

fun path_dp ::
  "(string \<times> subtask) list \<Rightarrow> (string \<times> string list) list \<Rightarrow> string list \<Rightarrow>
     (string \<times> rat) list \<Rightarrow> (string \<times> string option) list \<Rightarrow>
     plan_error + (string \<times> rat) list \<times> (string \<times> string option) list" where
  "path_dp tasks deps [] dst parent = Inr (dst, parent)"
| "path_dp tasks deps (n # ns) dst parent =
     (case map_of tasks n of
        None \<Rightarrow> Inl (MissingKey n)
      | Some s \<Rightarrow>
          (case best_dep (weight s) dst (dict_get deps n []) (weight s) None of
             Inl e \<Rightarrow> Inl e
           | Inr (b, p) \<Rightarrow>
               path_dp tasks deps ns (AList.update n b dst) (AList.update n p parent)))"

text \<open>
  Following the parents from the end of the path; the fuel is one more than the number of
  subtasks, and \<open>longest_path_fuel\<close> shows it is never used up.
\<close>

fun walk_parents ::
  "nat \<Rightarrow> (string \<times> string option) list \<Rightarrow> string option \<Rightarrow> string list \<Rightarrow> plan_error + string list" where
  "walk_parents n parent None path = Inr path"
| "walk_parents 0 parent (Some c) path = Inl NoProgress"
| "walk_parents (Suc n) parent (Some c) path =
     walk_parents n parent (dict_get parent c None) (c # path)"

definition longest_path :: "subtask list \<Rightarrow> plan_error + string list \<times> rat" where
  "longest_path ts =
     (if ts = [] then Inr ([], 0)
      else case path_dp (by_id ts) (inner_deps ts) (path_order ts) []
                  (fold (\<lambda>s. AList.update (st_id s) None) ts []) of
             Inl e \<Rightarrow> Inl e
           | Inr (dst, parent) \<Rightarrow>
               let end_id = st_id (arg_min_list (\<lambda>s. - dict_get dst (st_id s) 0) ts)
               in case walk_parents (Suc (length ts)) parent (Some end_id) [] of
                    Inl e \<Rightarrow> Inl e
                  | Inr path \<Rightarrow> Inr (path, dict_get dst end_id 0))"

subsection \<open>Reordering by the critical path\<close>

definition priority :: "subtask list \<Rightarrow> string list \<Rightarrow> string \<Rightarrow> nat \<times> nat" where
  "priority ts critical i =
     (if i \<in> set critical then 0 else 1,
      dict_get (fold (\<lambda>(n, s). AList.update (st_id s) n) (enumerate 0 ts) []) i 0)"

definition optimize :: "subtask list \<Rightarrow> plan_error + subtask list" where
  "optimize ts =
     (if ts = [] then Inr []
      else case longest_path ts of
             Inl e \<Rightarrow> Inl e
           | Inr (critical, len) \<Rightarrow>
               let ind = degrees st_deps ts; key = Some (priority ts critical);
                   ordered = map (\<lambda>i. the (map_of (by_id ts) i))
                     (kahn key (adjacency st_deps ts) ind (arrange key (ready_nodes ts ind)))
               in Inr (ordered @ filter (\<lambda>s. st_id s \<notin> set (map st_id ordered)) ts))"

subsection \<open>Independent pairs\<close>

text \<open>The stack of the depth-first search grows and shrinks at its end.\<close>

function depends_loop ::
  "(string \<times> subtask) list \<Rightarrow> string \<Rightarrow> string list \<Rightarrow> string list \<Rightarrow> plan_error + bool" where
  "depends_loop tasks b seen stack =
     (if stack = [] then Inr False
      else let dep = last stack; rest = butlast stack
           in if dep = b then Inr True
              else if dep \<in> set seen then depends_loop tasks b seen rest
              else case map_of tasks dep of
                     None \<Rightarrow> Inl (MissingKey dep)
                   | Some s \<Rightarrow> depends_loop tasks b (dep # seen) (rest @ st_deps s))"
  by pat_completeness auto
termination
proof (relation "measures [\<lambda>(tasks, b, seen, stack). card (fst ` set tasks - set seen),
    \<lambda>(tasks, b, seen, stack). length stack]", goal_cases)
  case 1
  then show ?case by simp
next
  case (2 tasks b seen stack dep rest)
  then show ?case by simp
next
  case (3 tasks b seen stack dep rest s)
  have "dep \<in> fst ` set tasks" using 3(6) by (force dest: map_of_SomeD)
  with 3(5) have "card (fst ` set tasks - set (dep # seen)) < card (fst ` set tasks - set seen)"
    by (intro psubset_card_mono) auto
  then show ?case by simp
qed

declare depends_loop.simps [simp del]

definition depends_on :: "(string \<times> subtask) list \<Rightarrow> string \<Rightarrow> string \<Rightarrow> plan_error + bool" where
  "depends_on tasks a b =
     (case map_of tasks a of
        None \<Rightarrow> Inl (MissingKey a)
      | Some s \<Rightarrow> depends_loop tasks b [] (st_deps s))"

fun pairs_with ::
  "(string \<times> subtask) list \<Rightarrow> string \<Rightarrow> string list \<Rightarrow> plan_error + (string \<times> string) list" where
  "pairs_with tasks a [] = Inr []"
| "pairs_with tasks a (b # bs) =
     (case depends_on tasks a b of
        Inl e \<Rightarrow> Inl e
      | Inr ab \<Rightarrow>
          (case (if ab then Inr True else depends_on tasks b a) of
             Inl e \<Rightarrow> Inl e
           | Inr dep \<Rightarrow>
               (case pairs_with tasks a bs of
                  Inl e \<Rightarrow> Inl e
                | Inr ps \<Rightarrow> Inr (if dep then ps else (a, b) # ps))))"

fun pairs_from :: "(string \<times> subtask) list \<Rightarrow> string list \<Rightarrow> plan_error + (string \<times> string) list" where
  "pairs_from tasks [] = Inr []"
| "pairs_from tasks (a # as) =
     (case pairs_with tasks a as of
        Inl e \<Rightarrow> Inl e
      | Inr ps \<Rightarrow> (case pairs_from tasks as of Inl e \<Rightarrow> Inl e | Inr qs \<Rightarrow> Inr (ps @ qs)))"

definition parallelizable_pairs :: "subtask list \<Rightarrow> plan_error + (string \<times> string) list" where
  "parallelizable_pairs ts = pairs_from (by_id ts) (map st_id ts)"

subsection \<open>The levels of a plan\<close>

definition order_level :: "subtask list \<Rightarrow> plan_error + subtask list" where
  "order_level level = (if length level \<le> 1 then Inr level else optimize level)"

text \<open>\<open>del remaining[s.id]\<close> for each subtask of a level\<close>

fun del_level :: "subtask list \<Rightarrow> (string \<times> subtask) list \<Rightarrow> plan_error + (string \<times> subtask) list" where
  "del_level [] rem = Inr rem"
| "del_level (s # ss) rem =
     (case map_of rem (st_id s) of
        None \<Rightarrow> Inl (MissingKey (st_id s))
      | Some t \<Rightarrow> del_level ss (AList.delete (st_id s) rem))"

definition next_level :: "(string \<times> subtask) list \<Rightarrow> string list \<Rightarrow> subtask list" where
  "next_level rem done =
     (let level = filter (\<lambda>s. list_all (\<lambda>d. d \<in> set done) (st_deps s)) (dict_values rem)
      in if level = [] then dict_values rem else level)"

lemma length_delete_present: "map_of d k = Some v \<Longrightarrow> length (AList.delete k d) < length d"
proof (induction d)
  case (Cons p d)
  have "length (AList.delete k d) \<le> length d" by (rule length_delete_le)
  with Cons show ?case by (cases p) (auto split: if_splits)
qed simp

lemma del_level_length: "del_level ss rem = Inr rem' \<Longrightarrow> length rem' + (if ss = [] then 0 else 1) \<le> length rem"
proof (induction ss arbitrary: rem)
  case (Cons s ss)
  then obtain t where "map_of rem (st_id s) = Some t" "del_level ss (AList.delete (st_id s) rem) = Inr rem'"
    by (auto split: option.splits)
  with Cons.IH length_delete_present [of rem "st_id s" t] show ?case by fastforce
qed simp

function levels_loop ::
  "(string \<times> subtask) list \<Rightarrow> string list \<Rightarrow> plan_error + subtask list list" where
  "levels_loop rem done =
     (if rem = [] then Inr []
      else let level = next_level rem done
           in case order_level level of
                Inl e \<Rightarrow> Inl e
              | Inr ordered \<Rightarrow>
                  (case del_level level rem of
                     Inl e \<Rightarrow> Inl e
                   | Inr rem' \<Rightarrow>
                       (case levels_loop rem' (done @ map st_id level) of
                          Inl e \<Rightarrow> Inl e
                        | Inr ls \<Rightarrow> Inr (ordered # ls))))"
  by pat_completeness auto
termination
proof (relation "measure (\<lambda>(rem, done). length rem)", goal_cases)
  case 1
  then show ?case by simp
next
  case (2 rem don level ordered rem')
  then have "level \<noteq> []" by (auto simp: next_level_def dict_values_def Let_def)
  with del_level_length [of level rem rem'] 2 show ?case by simp
qed

declare levels_loop.simps [simp del]

definition get_levels :: "task_plan \<Rightarrow> plan_error + subtask list list" where
  "get_levels p = levels_loop (by_id (tp_subtasks p)) []"

fun first_open :: "nat \<Rightarrow> string list \<Rightarrow> subtask list list \<Rightarrow> nat option" where
  "first_open i done [] = None"
| "first_open i done (l # ls) =
     (if list_ex (\<lambda>s. st_id s \<notin> set done) l then Some i else first_open (Suc i) done ls)"

definition get_current_level_num :: "task_plan \<Rightarrow> plan_error + nat" where
  "get_current_level_num p =
     (case get_levels p of
        Inl e \<Rightarrow> Inl e
      | Inr ls \<Rightarrow> Inr (case first_open 0 (completed_ids p) ls of Some i \<Rightarrow> i | None \<Rightarrow> length ls))"

end
