(* ===== verification/PlanOrder.thy ===== *)
theory PlanOrder
  imports TaskPlan
begin

text \<open>
  What the ordering of subtasks guarantees: Kahn's algorithm with any arrangement of the ready
  nodes, the critical path as the heaviest chain of dependencies, the reordering by it, the
  search for dependencies, and the levels of a plan.
\<close>

subsection \<open>The dictionaries of a list of subtasks with distinct ids\<close>

definition ids_of :: "subtask list \<Rightarrow> string list" where
  "ids_of ts = map st_id ts"

lemma dict_of_subtasks:
  "distinct (ids_of ts) \<Longrightarrow>
     fold (\<lambda>s. AList.update (st_id s) (f s)) ts [] = map (\<lambda>s. (st_id s, f s)) ts"
  using fold_update_fresh [of st_id ts "[]" f] by (simp add: ids_of_def)

lemma map_of_subtasks:
  "distinct (ids_of ts) \<Longrightarrow> s \<in> set ts \<Longrightarrow> map_of (map (\<lambda>s. (st_id s, f s)) ts) (st_id s) = Some (f s)"
  by (rule map_of_is_SomeI) (auto simp: ids_of_def comp_def)

lemma map_of_subtasks_None [simp]:
  "map_of (map (\<lambda>s. (st_id s, f s)) ts) i = None \<longleftrightarrow> i \<notin> set (ids_of ts)"
  by (simp add: map_of_eq_None_iff ids_of_def image_image)

lemma by_id_distinct: "distinct (ids_of ts) \<Longrightarrow> by_id ts = map (\<lambda>s. (st_id s, s)) ts"
  unfolding by_id_def by (rule dict_of_subtasks)

lemma by_id_get: "distinct (ids_of ts) \<Longrightarrow> s \<in> set ts \<Longrightarrow> map_of (by_id ts) (st_id s) = Some s"
  using map_of_subtasks [of ts s "\<lambda>s. s"] by (simp add: by_id_distinct)

lemma by_id_None: "distinct (ids_of ts) \<Longrightarrow> map_of (by_id ts) i = None \<longleftrightarrow> i \<notin> set (ids_of ts)"
  by (simp add: by_id_distinct)

lemma inner_deps_distinct:
  "distinct (ids_of ts) \<Longrightarrow>
     inner_deps ts = map (\<lambda>s. (st_id s, filter (\<lambda>d. d \<in> set (ids_of ts)) (st_deps s))) ts"
  by (simp add: inner_deps_def dict_of_subtasks by_id_None)

lemma inner_eq:
  "distinct (ids_of ts) \<Longrightarrow> s \<in> set ts \<Longrightarrow> inner ts s = filter (\<lambda>d. d \<in> set (ids_of ts)) (st_deps s)"
  by (simp add: inner_def dict_get_def inner_deps_distinct map_of_subtasks)

lemma degrees_get:
  "distinct (ids_of ts) \<Longrightarrow> s \<in> set ts \<Longrightarrow> dict_get (degrees deps ts) (st_id s) 0 = int (length (deps s))"
  by (simp add: degrees_def dict_of_subtasks dict_get_def map_of_subtasks)

lemma add_edges_get:
  "dict_get (add_edges ds i adj) d [] = dict_get adj d [] @ replicate (count_list ds d) i"
  by (induction ds arbitrary: adj) (auto simp: add_edges_def replicate_app_Cons_same)

lemma adjacency_get_gen:
  "dict_get (fold (\<lambda>s. add_edges (deps s) (st_id s)) ts adj) d [] =
     dict_get adj d [] @ concat (map (\<lambda>s. replicate (count_list (deps s) d) (st_id s)) ts)"
  by (induction ts arbitrary: adj) (auto simp: add_edges_get)

lemma adjacency_get:
  "dict_get (adjacency deps ts) d [] = concat (map (\<lambda>s. replicate (count_list (deps s) d) (st_id s)) ts)"
  using adjacency_get_gen [of deps ts "[]" d] by (simp add: adjacency_def dict_get_def)

lemma count_replicate: "count_list (replicate n x) y = (if x = y then n else 0)"
  by (induction n) auto

lemma count_adjacency_absent:
  "x \<notin> set (ids_of ts) \<Longrightarrow> count_list (dict_get (adjacency deps ts) d []) x = 0"
  unfolding adjacency_get by (induction ts) (auto simp: ids_of_def count_replicate)

lemma count_adjacency:
  assumes "distinct (ids_of ts)" "s \<in> set ts"
  shows "count_list (dict_get (adjacency deps ts) d []) (st_id s) = count_list (deps s) d"
  using assms
proof (induction ts)
  case (Cons t ts)
  have "count_list (dict_get (adjacency deps ts) d []) (st_id t) = 0"
    using Cons.prems(1) by (intro count_adjacency_absent) (simp add: ids_of_def)
  with Cons show ?case
    by (auto simp: adjacency_get count_replicate ids_of_def)
qed simp

subsection \<open>Kahn's algorithm\<close>

lemma relax_spec:
  assumes "relax xs ind = (ind', rs)" "\<And>x. x \<in> set xs \<Longrightarrow> int (count_list xs x) \<le> dict_get ind x 0"
  shows "dict_get ind' x 0 = dict_get ind x 0 - int (count_list xs x) \<and>
         distinct rs \<and> set rs = {x \<in> set xs. dict_get ind x 0 = int (count_list xs x)}"
  using assms
proof (induction xs arbitrary: ind ind' rs x)
  case Nil
  then show ?case by simp
next
  case (Cons y ys)
  let ?i = "AList.update y (dict_get ind y 0 - 1) ind"
  obtain i r where ir: "relax ys ?i = (i, r)" by fastforce
  have pre: "int (count_list ys z) \<le> dict_get ?i z 0" if "z \<in> set ys" for z
    using Cons.prems(2) [of z] Cons.prems(2) [of y] that by (auto split: if_splits)
  note IH = Cons.IH [OF ir pre]
  have out: "ind' = i" "rs = (if dict_get ind y 0 = 1 then y # r else r)"
    using Cons.prems(1) ir by (auto simp: Let_def)
  have y: "int (count_list ys y) + 1 \<le> dict_get ind y 0" using Cons.prems(2) [of y] by simp
  have r: "distinct r" "set r = {x \<in> set ys. dict_get ?i x 0 = int (count_list ys x)}"
    using IH by simp_all
  have "z \<in> set rs \<longleftrightarrow> z \<in> set (y # ys) \<and> dict_get ind z 0 = int (count_list (y # ys) z)" for z
  proof (cases "z = y")
    case True
    have "y \<in> set ys \<longleftrightarrow> count_list ys y \<noteq> 0" by (simp add: count_list_0_iff)
    with y show ?thesis by (auto simp: True out r(2))
  next
    case False
    then show ?thesis by (auto simp: out r(2))
  qed
  then have "set rs = {x \<in> set (y # ys). dict_get ind x 0 = int (count_list (y # ys) x)}" by blast
  moreover have "distinct rs" using r y by (auto simp: out count_list_0_iff)
  ultimately show ?case using IH out(1) by simp
qed

text \<open>
  The state of the algorithm: \<open>D\<close> are the dependencies of a node, \<open>done\<close> the nodes put out so
  far, the degree of a node is the number of its open dependencies, and the queue holds exactly
  the nodes without any.
\<close>

definition edges_match :: "string set \<Rightarrow> (string \<Rightarrow> string list) \<Rightarrow> (string \<times> string list) list \<Rightarrow> bool" where
  "edges_match N D adj \<longleftrightarrow>
     (\<forall>d x. count_list (dict_get adj d []) x = (if x \<in> N then count_list (D x) d else 0))"

definition open_deps :: "(string \<Rightarrow> string list) \<Rightarrow> string set \<Rightarrow> string \<Rightarrow> string list" where
  "open_deps D don x = filter (\<lambda>d. d \<notin> don) (D x)"

definition kahn_inv ::
  "string set \<Rightarrow> (string \<Rightarrow> string list) \<Rightarrow> string set \<Rightarrow> (string \<times> int) list \<Rightarrow> string list \<Rightarrow> bool" where
  "kahn_inv N D don ind q \<longleftrightarrow>
     (\<forall>x \<in> N. dict_get ind x 0 = int (length (open_deps D don x))) \<and>
     (\<forall>x \<in> don \<inter> N. open_deps D don x = []) \<and>
     distinct q \<and> set q = {x \<in> N. x \<notin> don \<and> open_deps D don x = []}"

lemma open_deps_insert:
  "x \<notin> don \<Longrightarrow> length (open_deps D (insert x don) y) + count_list (D y) x = length (open_deps D don y)"
proof -
  have "length (filter (\<lambda>d. d \<noteq> x \<and> d \<notin> don) ds) + count_list ds x = length (filter (\<lambda>d. d \<notin> don) ds)"
    if "x \<notin> don" for ds
    using that by (induction ds) auto
  then show "x \<notin> don \<Longrightarrow> ?thesis" by (simp add: open_deps_def)
qed

lemma count_open_deps: "x \<notin> don \<Longrightarrow> count_list (D y) x \<le> length (open_deps D don y)"
  using open_deps_insert [of x don D y] by simp

lemma kahn_inv_step:
  assumes inv: "kahn_inv N D don ind (x # q)" and em: "edges_match N D adj"
    and r: "relax (dict_get adj x []) ind = (ind', rs)"
  shows "kahn_inv N D (insert x don) ind' (arrange key (q @ rs))"
proof -
  let ?xs = "dict_get adj x []"
  have x: "x \<in> N" "x \<notin> don" "open_deps D don x = []" and q: "distinct (x # q)"
    "set (x # q) = {y \<in> N. y \<notin> don \<and> open_deps D don y = []}"
    and deg: "\<And>y. y \<in> N \<Longrightarrow> dict_get ind y 0 = int (length (open_deps D don y))"
    and closed: "\<And>y. y \<in> don \<Longrightarrow> y \<in> N \<Longrightarrow> open_deps D don y = []"
    using inv by (auto simp: kahn_inv_def)
  have cnt: "count_list ?xs y = (if y \<in> N then count_list (D y) x else 0)" for y
    using em by (simp add: edges_match_def)
  have xsN: "set ?xs \<subseteq> N"
  proof
    fix y assume "y \<in> set ?xs"
    then have "count_list ?xs y \<noteq> 0" by (simp add: count_list_0_iff)
    with cnt [of y] show "y \<in> N" by (simp split: if_splits)
  qed
  have "int (count_list ?xs y) \<le> dict_get ind y 0" if "y \<in> set ?xs" for y
    using that xsN count_open_deps [OF x(2)] by (auto simp: cnt deg)
  note rel = relax_spec [OF r this]
  have deg': "dict_get ind' y 0 = int (length (open_deps D (insert x don) y))" if "y \<in> N" for y
    using rel open_deps_insert [OF x(2), of D y] deg [OF that] cnt [of y] that by simp
  have sub: "open_deps D (insert x don) y = filter (\<lambda>d. d \<noteq> x) (open_deps D don y)" for y
    by (auto simp: open_deps_def conj_commute)
  have closed': "open_deps D (insert x don) y = []" if "y \<in> insert x don" "y \<in> N" for y
    using that x closed by (auto simp: sub)
  have mem: "y \<in> set ?xs \<longleftrightarrow> y \<in> N \<and> count_list (D y) x \<noteq> 0" for y
    using count_list_0_iff [of ?xs y] cnt [of y] by (auto split: if_splits)
  have rs: "y \<in> set rs \<longleftrightarrow> y \<in> N \<and> open_deps D don y \<noteq> [] \<and> open_deps D (insert x don) y = []" for y
  proof -
    have "y \<in> set rs \<longleftrightarrow> y \<in> N \<and> count_list (D y) x \<noteq> 0 \<and> length (open_deps D don y) = count_list (D y) x"
      using rel xsN mem [of y] by (auto simp: deg cnt)
    with open_deps_insert [OF x(2), of D y] show ?thesis by auto
  qed
  have new: "y \<notin> insert x don" if "y \<in> set rs" for y
    using that x(3) closed [of y] by (auto simp: rs)
  have "set (q @ rs) = {y \<in> N. y \<notin> insert x don \<and> open_deps D (insert x don) y = []}"
  proof -
    have "y \<in> set q \<longleftrightarrow> y \<in> N \<and> y \<notin> insert x don \<and> open_deps D don y = []" for y
      using q by auto
    moreover have "open_deps D don y = [] \<Longrightarrow> open_deps D (insert x don) y = []" for y by (simp add: sub)
    ultimately show ?thesis using new x(3) by (auto simp: rs)
  qed
  moreover have "distinct (q @ rs)"
  proof -
    have "distinct rs" using rel by blast
    moreover have "y \<notin> set q" if "y \<in> set rs" for y using that q rs [of y] by auto
    ultimately show ?thesis using q(1) by auto
  qed
  ultimately show ?thesis using deg' closed' by (simp add: kahn_inv_def)
qed

definition in_order :: "(string \<Rightarrow> string list) \<Rightarrow> string set \<Rightarrow> string list \<Rightarrow> bool" where
  "in_order D don out \<longleftrightarrow> (\<forall>i < length out. set (D (out ! i)) \<subseteq> don \<union> set (take i out))"

lemma in_order_Nil [simp]: "in_order D don []"
  by (simp add: in_order_def)

lemma in_order_Cons: "in_order D don (x # out) \<longleftrightarrow> set (D x) \<subseteq> don \<and> in_order D (insert x don) out"
  by (auto simp: in_order_def All_less_Suc2)

lemma kahn_correct:
  assumes "kahn_inv N D don ind q" "edges_match N D adj"
  shows "distinct (kahn key adj ind q) \<and> set (kahn key adj ind q) \<subseteq> N - don \<and>
         in_order D don (kahn key adj ind q) \<and>
         (\<forall>x \<in> N - don - set (kahn key adj ind q).
            \<exists>d \<in> set (D x). d \<notin> don \<union> set (kahn key adj ind q))"
  using assms
proof (induction key adj ind q arbitrary: don rule: kahn.induct)
  case (1 key adj ind)
  then show ?case by (auto simp: kahn_inv_def open_deps_def filter_empty_conv)
next
  case (2 key adj ind x q)
  obtain ind' rs where r: "relax (dict_get adj x []) ind = (ind', rs)" by fastforce
  have "x \<in> N" "x \<notin> don" "set (D x) \<subseteq> don"
    using "2.prems"(1) by (auto simp: kahn_inv_def open_deps_def filter_empty_conv)
  with "2.IH" [OF r [symmetric] refl kahn_inv_step [OF "2.prems" r] "2.prems"(2)] show ?case
    by (auto simp: r in_order_Cons)
qed

definition task_deps :: "(subtask \<Rightarrow> string list) \<Rightarrow> subtask list \<Rightarrow> string \<Rightarrow> string list" where
  "task_deps deps ts i = (case map_of (by_id ts) i of Some s \<Rightarrow> deps s | None \<Rightarrow> [])"

lemma task_deps_in: "distinct (ids_of ts) \<Longrightarrow> s \<in> set ts \<Longrightarrow> task_deps deps ts (st_id s) = deps s"
  by (simp add: task_deps_def by_id_get)

lemma ids_of_iff: "i \<in> set (ids_of ts) \<longleftrightarrow> (\<exists>s \<in> set ts. st_id s = i)"
  by (auto simp: ids_of_def)

lemma kahn_start:
  assumes "distinct (ids_of ts)"
  shows "edges_match (set (ids_of ts)) (task_deps deps ts) (adjacency deps ts)"
    and "kahn_inv (set (ids_of ts)) (task_deps deps ts) {} (degrees deps ts)
           (arrange key (ready_nodes ts (degrees deps ts)))"
proof -
  show "edges_match (set (ids_of ts)) (task_deps deps ts) (adjacency deps ts)"
    using assms
    by (auto simp: edges_match_def ids_of_iff count_adjacency task_deps_in count_adjacency_absent)
  have "distinct (ready_nodes ts (degrees deps ts))"
    using assms by (simp add: ready_nodes_def ids_of_def)
  moreover have "set (ready_nodes ts (degrees deps ts)) =
      {x \<in> set (ids_of ts). open_deps (task_deps deps ts) {} x = []}"
    using assms by (auto simp: ready_nodes_def ids_of_def open_deps_def degrees_get task_deps_in)
  moreover have "\<forall>x \<in> set (ids_of ts). dict_get (degrees deps ts) x 0 =
      int (length (open_deps (task_deps deps ts) {} x))"
    using assms by (auto simp: ids_of_iff degrees_get open_deps_def task_deps_in)
  ultimately show "kahn_inv (set (ids_of ts)) (task_deps deps ts) {} (degrees deps ts)
           (arrange key (ready_nodes ts (degrees deps ts)))"
    by (simp add: kahn_inv_def)
qed

text \<open>
  A ranking witnesses that the dependencies are acyclic: every dependency ranks below the subtask
  that has it.
\<close>

definition ranked :: "(string \<Rightarrow> nat) \<Rightarrow> subtask list \<Rightarrow> bool" where
  "ranked rank ts = list_all (\<lambda>s. list_all (\<lambda>d. rank d < rank (st_id s)) (st_deps s)) ts"

definition closed_plan :: "subtask list \<Rightarrow> bool" where
  "closed_plan ts = list_all (\<lambda>s. list_all (\<lambda>d. d \<in> set (ids_of ts)) (st_deps s)) ts"

lemma rankedD: "ranked rank ts \<Longrightarrow> s \<in> set ts \<Longrightarrow> d \<in> set (st_deps s) \<Longrightarrow> rank d < rank (st_id s)"
  by (auto simp: ranked_def list_all_iff)

lemma no_stuck_set:
  assumes "U \<noteq> {}" "\<And>x. x \<in> U \<Longrightarrow> \<exists>d \<in> U. rank d < (rank x :: nat)"
  shows False
proof -
  obtain x where "x \<in> U" using assms(1) by blast
  then show False using assms(2) by (induction x rule: measure_induct_rule [of rank]) blast
qed

lemma kahn_complete:
  fixes key :: "(string \<Rightarrow> nat \<times> nat) option"
  assumes "distinct (ids_of ts)"
    and sub: "\<And>s d. s \<in> set ts \<Longrightarrow> d \<in> set (deps s) \<Longrightarrow> d \<in> set (ids_of ts) \<and> rank d < (rank (st_id s) :: nat)"
  defines "out \<equiv> kahn key (adjacency deps ts) (degrees deps ts)
                   (arrange key (ready_nodes ts (degrees deps ts)))"
  shows "distinct out \<and> set out = set (ids_of ts) \<and> in_order (task_deps deps ts) {} out"
proof -
  note k = kahn_correct [OF kahn_start(2) [OF assms(1)] kahn_start(1) [OF assms(1)], of key deps key,
      folded out_def]
  let ?U = "set (ids_of ts) - set out"
  have "\<exists>d \<in> ?U. rank d < rank x" if x: "x \<in> ?U" for x
  proof -
    from k x obtain d where "d \<in> set (task_deps deps ts x)" "d \<notin> set out" by auto
    moreover obtain s where "s \<in> set ts" "st_id s = x" using x by (auto simp: ids_of_iff)
    ultimately show ?thesis using sub [of s d] task_deps_in [OF assms(1), of s deps] by auto
  qed
  then have "?U = {}" using no_stuck_set [of ?U rank] by blast
  with k show ?thesis by auto
qed

subsection \<open>The critical path\<close>

lemma best_dep_spec:
  assumes "best_dep w dst ds b0 p0 = Inr (b, p)"
  shows "b0 \<le> b" "\<forall>d \<in> set ds. \<exists>x. map_of dst d = Some x \<and> x + w \<le> b"
    and "(b, p) = (b0, p0) \<or> (\<exists>d \<in> set ds. p = Some d \<and> map_of dst d = Some (b - w))"
  using assms
proof (induction ds arbitrary: b0 p0)
  case (Cons d ds)
  {
    case 1 with Cons.IH(1) show ?case by (fastforce split: option.splits if_splits)
  next
    case 2 with Cons.IH(1,2) show ?case by (fastforce split: option.splits if_splits)
  next
    case 3
    obtain x where x: "map_of dst d = Some x" using 3 by (auto split: option.splits)
    show ?case
    proof (cases "x + w > b0")
      case True
      with 3 x Cons.IH(3) [of "x + w" "Some d"] show ?thesis by auto
    next
      case False
      with 3 x Cons.IH(3) [of b0 p0] show ?thesis by auto
    qed
  }
qed auto

lemma best_dep_error:
  "best_dep w dst ds b p = Inl e \<Longrightarrow> \<exists>d \<in> set ds. e = MissingKey d \<and> map_of dst d = None"
  by (induction ds arbitrary: b p) (auto split: option.splits if_splits)

text \<open>
  What the table of distances says of each node: it dominates the node alone and the node after
  any of its dependencies, and the recorded parent attains it.
\<close>

definition node_weight :: "(string \<times> subtask) list \<Rightarrow> string \<Rightarrow> rat" where
  "node_weight tasks k = weight (the (map_of tasks k))"

definition dp_node ::
  "(string \<times> subtask) list \<Rightarrow> (string \<times> string list) list \<Rightarrow> (string \<times> rat) list \<Rightarrow>
     (string \<times> string option) list \<Rightarrow> string \<Rightarrow> bool" where
  "dp_node tasks deps dst parent k \<longleftrightarrow>
     node_weight tasks k \<le> dict_get dst k 0 \<and>
     (\<forall>d \<in> set (dict_get deps k []). dict_get dst d 0 + node_weight tasks k \<le> dict_get dst k 0) \<and>
     (dict_get parent k None = None \<and> dict_get dst k 0 = node_weight tasks k \<or>
      (\<exists>p \<in> set (dict_get deps k []).
         dict_get parent k None = Some p \<and> dict_get dst k 0 = dict_get dst p 0 + node_weight tasks k))"

definition dp_ok ::
  "(string \<times> subtask) list \<Rightarrow> (string \<times> string list) list \<Rightarrow> string list \<Rightarrow> (string \<times> rat) list \<Rightarrow>
     (string \<times> string option) list \<Rightarrow> bool" where
  "dp_ok tasks deps pre dst parent \<longleftrightarrow>
     fst ` set dst = set pre \<and> in_order (\<lambda>k. dict_get deps k []) {} pre \<and>
     (\<forall>k \<in> set pre. dp_node tasks deps dst parent k)"

lemma in_order_snoc:
  "in_order D don (out @ [x]) \<longleftrightarrow> in_order D don out \<and> set (D x) \<subseteq> don \<union> set out"
  by (auto simp: in_order_def nth_append less_Suc_eq)

lemma in_orderD: "in_order D don out \<Longrightarrow> k \<in> set out \<Longrightarrow> set (D k) \<subseteq> don \<union> set out"
proof -
  assume "in_order D don out" "k \<in> set out"
  then obtain i where "i < length out" "out ! i = k" "set (D k) \<subseteq> don \<union> set (take i out)"
    by (auto simp: in_order_def in_set_conv_nth)
  then show ?thesis using set_take_subset [of i out] by blast
qed

lemma dp_ok_step:
  assumes ok: "dp_ok tasks deps pre dst parent" and n: "n \<notin> set pre" and s: "map_of tasks n = Some s"
    and b: "best_dep (weight s) dst (dict_get deps n []) (weight s) None = Inr (b, p)"
  shows "dp_ok tasks deps (pre @ [n]) (AList.update n b dst) (AList.update n p parent)"
proof -
  let ?D = "dict_get deps n []"
  have w: "node_weight tasks n = weight s" by (simp add: node_weight_def s)
  note bd = best_dep_spec [OF b]
  have sub: "set ?D \<subseteq> set pre"
    using bd(2) ok by (force simp: dp_ok_def dest: map_of_SomeD)
  then have nD: "n \<notin> set ?D" using n by blast
  have get: "dict_get (AList.update n b dst) d 0 = dict_get dst d 0" if "d \<in> set ?D" for d
    using that nD by auto
  have "dp_node tasks deps (AList.update n b dst) (AList.update n p parent) n"
    unfolding dp_node_def
  proof (intro conjI)
    show "node_weight tasks n \<le> dict_get (AList.update n b dst) n 0"
      using bd(1) by (simp add: w)
    show "\<forall>d \<in> set ?D. dict_get (AList.update n b dst) d 0 + node_weight tasks n
        \<le> dict_get (AList.update n b dst) n 0"
    proof
      fix d assume d: "d \<in> set ?D"
      then obtain x where "map_of dst d = Some x" "x + weight s \<le> b" using bd(2) by blast
      with get [OF d] show "dict_get (AList.update n b dst) d 0 + node_weight tasks n
          \<le> dict_get (AList.update n b dst) n 0"
        by (simp add: w) (simp add: dict_get_def)
    qed
    show "dict_get (AList.update n p parent) n None = None \<and>
          dict_get (AList.update n b dst) n 0 = node_weight tasks n \<or>
        (\<exists>q \<in> set ?D. dict_get (AList.update n p parent) n None = Some q \<and>
          dict_get (AList.update n b dst) n 0 = dict_get (AList.update n b dst) q 0 + node_weight tasks n)"
      using bd(3)
    proof
      assume "(b, p) = (weight s, None)"
      then show ?thesis by (simp add: w)
    next
      assume "\<exists>d \<in> set ?D. p = Some d \<and> map_of dst d = Some (b - weight s)"
      then obtain d where d: "d \<in> set ?D" "p = Some d" "map_of dst d = Some (b - weight s)" by blast
      have "dict_get (AList.update n b dst) d 0 = b - weight s"
        using get [OF d(1)] d(3) by (simp add: dict_get_def)
      with d(1,2) show ?thesis by (intro disjI2 bexI [of _ d]) (simp_all add: w)
    qed
  qed
  moreover have "dp_node tasks deps (AList.update n b dst) (AList.update n p parent) k" if k: "k \<in> set pre" for k
  proof -
    have "set (dict_get deps k []) \<subseteq> set pre"
      using ok k in_orderD [of "\<lambda>k. dict_get deps k []" "{}" pre k] by (simp add: dp_ok_def)
    then have "n \<notin> set (dict_get deps k [])" "k \<noteq> n" using n k by auto
    moreover have "dp_node tasks deps dst parent k" using ok k by (simp add: dp_ok_def)
    ultimately show ?thesis by (auto simp: dp_node_def)
  qed
  ultimately show ?thesis
    using ok sub by (auto simp: dp_ok_def in_order_snoc dict_dom_update)
qed

lemma path_dp_ok:
  assumes "path_dp tasks deps ns dst parent = Inr (dst', parent')" "dp_ok tasks deps pre dst parent"
    and "distinct (pre @ ns)"
  shows "dp_ok tasks deps (pre @ ns) dst' parent'"
  using assms
proof (induction ns arbitrary: pre dst parent)
  case (Cons n ns)
  obtain s b p where s: "map_of tasks n = Some s"
    and b: "best_dep (weight s) dst (dict_get deps n []) (weight s) None = Inr (b, p)"
    and r: "path_dp tasks deps ns (AList.update n b dst) (AList.update n p parent) = Inr (dst', parent')"
    using Cons.prems(1) by (auto split: option.splits sum.splits)
  have "dp_ok tasks deps (pre @ [n]) (AList.update n b dst) (AList.update n p parent)"
    using dp_ok_step [OF Cons.prems(2) _ s b] Cons.prems(3) by simp
  from Cons.IH [OF r this] Cons.prems(3) show ?case by simp
qed simp

lemma path_dp_total:
  assumes "in_order (\<lambda>k. dict_get deps k []) (fst ` set dst) ns" "set ns \<subseteq> fst ` set tasks"
  shows "\<not> isl (path_dp tasks deps ns dst parent)"
  using assms
proof (induction ns arbitrary: dst parent)
  case (Cons n ns)
  obtain s where s: "map_of tasks n = Some s"
    using Cons.prems(2) by (auto simp: map_of_eq_None_iff [symmetric] dest!: weak_map_of_SomeI) 
  have "map_of dst d \<noteq> None" if "d \<in> set (dict_get deps n [])" for d
    using Cons.prems(1) that by (auto simp: in_order_Cons map_of_eq_None_iff)
  then obtain b p where b: "best_dep (weight s) dst (dict_get deps n []) (weight s) None = Inr (b, p)"
    using best_dep_error [of "weight s" dst "dict_get deps n []" "weight s" None]
    by (cases "best_dep (weight s) dst (dict_get deps n []) (weight s) None") fastforce+
  have "in_order (\<lambda>k. dict_get deps k []) (fst ` set (AList.update n b dst)) ns"
    using Cons.prems(1) by (simp add: in_order_Cons dict_dom_update)
  from Cons.IH [OF this] Cons.prems(2) show ?case by (simp add: s b)
qed simp

lemma path_dp_error:
  assumes "path_dp tasks deps ns dst parent = Inl e" "set ns \<subseteq> fst ` set tasks"
  shows "\<exists>k. e = MissingKey k"
  using assms
proof (induction ns arbitrary: dst parent)
  case (Cons n ns)
  then show ?case
    by (auto split: option.splits sum.splits dest!: best_dep_error)
qed simp

lemma foldl_missing_ids:
  "set (foldl (\<lambda>t s. if st_id s \<in> set t then t else t @ [st_id s]) topo ts) = set topo \<union> set (ids_of ts)"
  "distinct topo \<Longrightarrow> distinct (foldl (\<lambda>t s. if st_id s \<in> set t then t else t @ [st_id s]) topo ts)"
  by (induction ts arbitrary: topo) (auto simp: ids_of_def)

lemma path_order_nodes:
  assumes "distinct (ids_of ts)"
  shows "distinct (path_order ts)" "set (path_order ts) = set (ids_of ts)"
proof -
  define topo where "topo = kahn None (adjacency (inner ts) ts) (degrees (inner ts) ts)
    (ready_nodes ts (degrees (inner ts) ts))"
  have k: "distinct topo" "set topo \<subseteq> set (ids_of ts)"
    using kahn_correct [OF kahn_start(2) [OF assms] kahn_start(1) [OF assms],
        of None "inner ts" None] by (simp_all add: topo_def arrange_def)
  have po: "path_order ts = (if length topo < length ts
      then foldl (\<lambda>t s. if st_id s \<in> set t then t else t @ [st_id s]) topo ts else topo)"
    by (simp add: path_order_def topo_def Let_def)
  have "set topo = set (ids_of ts)" if "\<not> length topo < length ts"
  proof (rule card_subset_eq [OF _ k(2)])
    have "card (set (ids_of ts)) = length ts" "card (set topo) = length topo"
      using assms k(1) by (simp_all add: distinct_card) (simp add: ids_of_def)
    with that k(2) card_mono [of "set (ids_of ts)" "set topo"]
    show "card (set topo) = card (set (ids_of ts))" by simp
  qed simp
  with k foldl_missing_ids [of topo ts]
  show "distinct (path_order ts)" "set (path_order ts) = set (ids_of ts)"
    by (auto simp: po)
qed

lemma inner_deps_get:
  "distinct (ids_of ts) \<Longrightarrow> s \<in> set ts \<Longrightarrow>
     dict_get (inner_deps ts) (st_id s) [] = filter (\<lambda>d. d \<in> set (ids_of ts)) (st_deps s)"
  using inner_eq by (simp add: inner_def)

lemma inner_deps_outside: "distinct (ids_of ts) \<Longrightarrow> i \<notin> set (ids_of ts) \<Longrightarrow> dict_get (inner_deps ts) i [] = []"
  by (simp add: inner_deps_distinct dict_get_def map_of_subtasks_None [THEN iffD2])

lemma task_deps_out: "distinct (ids_of ts) \<Longrightarrow> i \<notin> set (ids_of ts) \<Longrightarrow> task_deps deps ts i = []"
  by (simp add: task_deps_def by_id_None [THEN iffD2])

lemma ids_of_cases:
  obtains (subtask) s where "s \<in> set ts" "i = st_id s" | (outside) "i \<notin> set (ids_of ts)"
  by (auto simp: ids_of_iff)

lemma inner_deps_task_deps:
  "distinct (ids_of ts) \<Longrightarrow> dict_get (inner_deps ts) i [] = task_deps (inner ts) ts i"
  by (cases rule: ids_of_cases [of ts i])
    (simp_all add: task_deps_in inner_def inner_deps_outside task_deps_out)

lemma path_order_ranked:
  assumes "distinct (ids_of ts)" "ranked rank ts"
  shows "in_order (\<lambda>k. dict_get (inner_deps ts) k []) {} (path_order ts)"
proof -
  define topo where "topo = kahn None (adjacency (inner ts) ts) (degrees (inner ts) ts)
    (arrange None (ready_nodes ts (degrees (inner ts) ts)))"
  have "d \<in> set (ids_of ts) \<and> rank d < rank (st_id s)" if "s \<in> set ts" "d \<in> set (inner ts s)" for s d
    using that rankedD [OF assms(2)] by (auto simp: inner_eq [OF assms(1)])
  note k = kahn_complete [of ts "inner ts" rank None, OF assms(1) this, folded topo_def]
  have "length topo = length ts"
    using k assms(1) by (metis distinct_card ids_of_def length_map)
  then have "path_order ts = topo"
    by (simp add: path_order_def topo_def arrange_def Let_def)
  with k show ?thesis by (simp add: inner_deps_task_deps [OF assms(1)])
qed

text \<open>A chain of subtasks, each a dependency of the next.\<close>

definition dep_chain :: "subtask list \<Rightarrow> string list \<Rightarrow> bool" where
  "dep_chain ts p \<longleftrightarrow>
     p \<noteq> [] \<and> set p \<subseteq> set (ids_of ts) \<and> successively (\<lambda>x y. x \<in> set (task_deps st_deps ts y)) p"

definition chain_weight :: "subtask list \<Rightarrow> string list \<Rightarrow> rat" where
  "chain_weight ts p = sum_list (map (node_weight (by_id ts)) p)"

lemma dep_chain_snoc:
  "dep_chain ts (p @ [y]) \<longleftrightarrow>
     y \<in> set (ids_of ts) \<and> (p = [] \<or> dep_chain ts p \<and> List.last p \<in> set (task_deps st_deps ts y))"
  by (auto simp: dep_chain_def successively_append_iff)

lemma inner_task_deps:
  "distinct (ids_of ts) \<Longrightarrow>
     set (dict_get (inner_deps ts) k []) = set (task_deps st_deps ts k) \<inter> set (ids_of ts)"
  by (cases rule: ids_of_cases [of ts k])
    (auto simp: inner_deps_get task_deps_in inner_deps_outside task_deps_out)

lemma chain_bound:
  assumes "distinct (ids_of ts)" "dp_ok (by_id ts) (inner_deps ts) pre dst parent"
    and "set pre = set (ids_of ts)" "dep_chain ts (p @ [k])"
  shows "chain_weight ts (p @ [k]) \<le> dict_get dst k 0"
  using assms(4)
proof (induction p arbitrary: k rule: rev_induct)
  case Nil
  then have "k \<in> set pre" using assms(3) by (simp add: dep_chain_def)
  then show ?case using assms(2) by (simp add: chain_weight_def dp_ok_def dp_node_def)
next
  case (snoc d p)
  have c: "dep_chain ts (p @ [d])" "d \<in> set (task_deps st_deps ts k)" "k \<in> set (ids_of ts)"
    using snoc.prems [unfolded dep_chain_snoc [of ts "p @ [d]" k]] by simp_all
  then have "d \<in> set (ids_of ts)" by (simp add: dep_chain_def)
  with c have "d \<in> set (dict_get (inner_deps ts) k [])" by (simp add: inner_task_deps [OF assms(1)])
  with assms(2,3) c(3) have "dict_get dst d 0 + node_weight (by_id ts) k \<le> dict_get dst k 0"
    by (auto simp: dp_ok_def dp_node_def)
  with snoc.IH [OF c(1)] show ?case by (simp add: chain_weight_def)
qed

lemma walk_chain:
  assumes d: "distinct (ids_of ts)" and ok: "dp_ok (by_id ts) (inner_deps ts) pre dst parent"
    and pre: "set pre = set (ids_of ts)"
    and "i < length pre" "i < n"
  shows "\<exists>p. walk_parents n parent (Some (pre ! i)) acc = Inr (p @ pre ! i # acc) \<and>
             dep_chain ts (p @ [pre ! i]) \<and> chain_weight ts (p @ [pre ! i]) = dict_get dst (pre ! i) 0"
  using assms(4,5)
proof (induction i arbitrary: n acc rule: less_induct)
  case (less i)
  let ?k = "pre ! i"
  obtain m where n: "n = Suc m" using less.prems(2) by (cases n) auto
  have k: "?k \<in> set (ids_of ts)" using nth_mem [OF less.prems(1)] by (simp only: pre)
  have "dp_node (by_id ts) (inner_deps ts) dst parent ?k" using ok less.prems(1) by (simp add: dp_ok_def)
  note node = this [unfolded dp_node_def, THEN conjunct2, THEN conjunct2]
  consider "dict_get parent ?k None = None" "dict_get dst ?k 0 = node_weight (by_id ts) ?k"
    | q where "q \<in> set (dict_get (inner_deps ts) ?k [])" "dict_get parent ?k None = Some q"
        "dict_get dst ?k 0 = dict_get dst q 0 + node_weight (by_id ts) ?k"
    using node by (elim disjE conjE bexE) assumption+
  then show ?case
  proof cases
    case 1
    then show ?thesis using k by (intro exI [of _ "[]"]) (simp add: n dep_chain_def chain_weight_def)
  next
    case (2 q)
    have "set (dict_get (inner_deps ts) ?k []) \<subseteq> set (take i pre)"
      using ok less.prems(1) by (auto simp: dp_ok_def in_order_def)
    with 2(1) obtain j where j: "j < i" "pre ! j = q"
      by (auto simp: in_set_conv_nth dest!: subsetD)
    have "j < length pre" "j < m" using j(1) less.prems n by auto
    from less.IH [OF j(1) this, of "?k # acc"] obtain p where p:
      "walk_parents m parent (Some q) (?k # acc) = Inr (p @ q # ?k # acc)"
      "dep_chain ts (p @ [q])" "chain_weight ts (p @ [q]) = dict_get dst q 0"
      by (auto simp: j(2))
    have "dep_chain ts ((p @ [q]) @ [?k])"
      using p(2) 2(1) k by (subst dep_chain_snoc) (simp add: inner_task_deps [OF d])
    with p 2 show ?thesis
      by (intro exI [of _ "p @ [q]"]) (simp add: n chain_weight_def)
  qed
qed

lemma longest_path_ok:
  assumes d: "distinct (ids_of ts)" and ne: "ts \<noteq> []"
    and dp: "path_dp (by_id ts) (inner_deps ts) (path_order ts) []
               (fold (\<lambda>s. AList.update (st_id s) None) ts []) = Inr (dst, parent)"
  shows "\<exists>path len. longest_path ts = Inr (path, len) \<and> dep_chain ts path \<and> chain_weight ts path = len \<and>
           (\<forall>c. dep_chain ts c \<longrightarrow> chain_weight ts c \<le> len)"
proof -
  let ?e = "st_id (arg_min_list (\<lambda>s. - dict_get dst (st_id s) 0) ts)"
  note po = path_order_nodes [OF d]
  have ok: "dp_ok (by_id ts) (inner_deps ts) (path_order ts) dst parent"
    using path_dp_ok [OF dp, of "[]"] po(1) by (simp add: dp_ok_def)
  have "?e \<in> set (path_order ts)"
    unfolding po(2) ids_of_def using arg_min_list_in [OF ne, of "\<lambda>s. - dict_get dst (st_id s) 0"] by simp
  then obtain i where i: "i < length (path_order ts)" "path_order ts ! i = ?e"
    by (auto simp: in_set_conv_nth)
  have "length (path_order ts) = length ts"
    using distinct_card [OF po(1)] distinct_card [OF d] unfolding po(2) by (simp add: ids_of_def)
  then have "i < Suc (length ts)" using i(1) by simp
  from walk_chain [OF d ok po(2) i(1) this, of "[]"] obtain p where
    p: "walk_parents (Suc (length ts)) parent (Some ?e) [] = Inr (p @ [?e])"
      "dep_chain ts (p @ [?e])" "chain_weight ts (p @ [?e]) = dict_get dst ?e 0"
    unfolding i(2) by blast
  have le: "dict_get dst (st_id s) 0 \<le> dict_get dst ?e 0" if "s \<in> set ts" for s
  proof -
    have "- dict_get dst ?e 0 = Min ((\<lambda>s. - dict_get dst (st_id s) 0) ` set ts)"
      by (rule f_arg_min_list_f [OF ne])
    also have "\<dots> \<le> - dict_get dst (st_id s) 0" using that by (intro Min_le) auto
    finally show ?thesis by simp
  qed
  have "chain_weight ts c \<le> dict_get dst ?e 0" if c: "dep_chain ts c" for c
  proof -
    obtain q k where q: "c = q @ [k]" using c by (cases c rule: rev_cases) (auto simp: dep_chain_def)
    then obtain s where "s \<in> set ts" "k = st_id s" using c by (auto simp: dep_chain_def ids_of_iff)
    with le have "dict_get dst k 0 \<le> dict_get dst ?e 0" by simp
    with chain_bound [OF d ok po(2)] c q show ?thesis by fastforce
  qed
  moreover have "longest_path ts = Inr (p @ [?e], dict_get dst ?e 0)"
    using p(1) by (simp add: longest_path_def ne dp Let_def del: walk_parents.simps)
  ultimately show ?thesis using p by blast
qed

lemma by_id_keys: "distinct (ids_of ts) \<Longrightarrow> fst ` set (by_id ts) = set (ids_of ts)"
  by (auto simp: by_id_distinct ids_of_def image_image)

lemma path_dp_ranked:
  assumes "distinct (ids_of ts)" "ranked rank ts"
  obtains dst parent where "path_dp (by_id ts) (inner_deps ts) (path_order ts) []
               (fold (\<lambda>s. AList.update (st_id s) None) ts []) = Inr (dst, parent)"
proof -
  have "\<not> isl (path_dp (by_id ts) (inner_deps ts) (path_order ts) [] (fold (\<lambda>s. AList.update (st_id s) None) ts []))"
    using path_order_ranked [OF assms] path_order_nodes(2) [OF assms(1)] by_id_keys [OF assms(1)]
    by (intro path_dp_total) simp_all
  then show thesis using that by (metis isl_def old.sum.exhaust surj_pair)
qed

text \<open>
  C16: for subtasks whose dependencies are acyclic, \<open>longest_path\<close> returns a chain of dependencies
  together with its total latency, and no chain among the subtasks takes longer.
\<close>

theorem longest_path_exact:
  assumes "distinct (ids_of ts)" "ranked rank ts" "ts \<noteq> []"
  shows "case longest_path ts of
           Inl e \<Rightarrow> False
         | Inr (path, len) \<Rightarrow> dep_chain ts path \<and> chain_weight ts path = len \<and>
             (if dep_chain ts c then chain_weight ts c \<le> len else True)"
proof -
  obtain dst parent where "path_dp (by_id ts) (inner_deps ts) (path_order ts) []
               (fold (\<lambda>s. AList.update (st_id s) None) ts []) = Inr (dst, parent)"
    by (rule path_dp_ranked [OF assms(1,2)])
  from longest_path_ok [OF assms(1,3) this] show ?thesis by auto
qed

text \<open>
  A set of subtasks each of which waits for another one of the set: the order of the nodes cannot
  respect it, so the table of distances is read before it is filled.
\<close>

definition waits_in :: "subtask list \<Rightarrow> string set \<Rightarrow> bool" where
  "waits_in ts C \<longleftrightarrow>
     C \<noteq> {} \<and> C \<subseteq> set (ids_of ts) \<and> (\<forall>c \<in> C. \<exists>d \<in> C. d \<in> set (task_deps st_deps ts c))"

lemma in_order_rank:
  assumes "in_order D {} out" "x \<in> set out" "d \<in> set (D x)" "distinct out"
  shows "length (takeWhile (\<lambda>y. y \<noteq> d) out) < length (takeWhile (\<lambda>y. y \<noteq> x) out)"
proof -
  have idx: "length (takeWhile (\<lambda>y. y \<noteq> out ! i) out) = i" if "i < length out" for i
    using takeWhile_eq_take_P_nth [of i out "\<lambda>y. y \<noteq> out ! i"] that assms(4)
    by (simp add: nth_eq_iff_index_eq)
  obtain i where i: "i < length out" "out ! i = x" using assms(2) by (auto simp: in_set_conv_nth)
  with assms(1,3) have "d \<in> set (take i out)" by (auto simp: in_order_def)
  then obtain j where j: "j < i" "out ! j = d" by (auto simp: in_set_conv_nth)
  with i idx [of i] idx [of j] show ?thesis by simp
qed

lemma longest_path_cycle:
  assumes d: "distinct (ids_of ts)" and C: "waits_in ts C"
  shows "\<exists>k. longest_path ts = Inl (MissingKey k)"
proof -
  have ne: "ts \<noteq> []" using C by (auto simp: waits_in_def ids_of_def)
  note po = path_order_nodes [OF d]
  let ?dp = "path_dp (by_id ts) (inner_deps ts) (path_order ts) []
    (fold (\<lambda>s. AList.update (st_id s) None) ts [])"
  show ?thesis
  proof (cases ?dp)
    case (Inl e)
    then show ?thesis
      using path_dp_error [OF Inl] po(2) by_id_keys [OF d] by (auto simp: longest_path_def ne)
  next
    case (Inr r)
    obtain dst parent where r: "r = (dst, parent)" by fastforce
    have "dp_ok (by_id ts) (inner_deps ts) (path_order ts) dst parent"
      using path_dp_ok [OF Inr [unfolded r], of "[]"] po(1) by (simp add: dp_ok_def)
    then have io: "in_order (\<lambda>k. dict_get (inner_deps ts) k []) {} (path_order ts)"
      by (simp add: dp_ok_def)
    have "\<exists>e \<in> C. length (takeWhile (\<lambda>y. y \<noteq> e) (path_order ts)) < length (takeWhile (\<lambda>y. y \<noteq> c) (path_order ts))"
      if c: "c \<in> C" for c
    proof -
      obtain e where e: "e \<in> C" "e \<in> set (task_deps st_deps ts c)" using C c by (auto simp: waits_in_def)
      then have "e \<in> set (dict_get (inner_deps ts) c [])"
        using C by (auto simp: waits_in_def inner_task_deps [OF d])
      from in_order_rank [OF io _ this po(1)] c e(1) C show ?thesis by (auto simp: waits_in_def po(2))
    qed
    with C no_stuck_set [of C "\<lambda>c. length (takeWhile (\<lambda>y. y \<noteq> c) (path_order ts))"]
    have False by (simp add: waits_in_def)
    then show ?thesis ..
  qed
qed

subsection \<open>Reordering\<close>

fun deps_first :: "string set \<Rightarrow> subtask list \<Rightarrow> bool" where
  "deps_first seen [] = True"
| "deps_first seen (s # ss) = (list_all (\<lambda>d. d \<in> seen) (st_deps s) \<and> deps_first (insert (st_id s) seen) ss)"

definition kahn_out :: "subtask list \<Rightarrow> string list \<Rightarrow> string list" where
  "kahn_out ts critical =
     kahn (Some (priority ts critical)) (adjacency st_deps ts) (degrees st_deps ts)
       (arrange (Some (priority ts critical)) (ready_nodes ts (degrees st_deps ts)))"

definition subtask_of :: "subtask list \<Rightarrow> string \<Rightarrow> subtask" where
  "subtask_of ts i = the (map_of (by_id ts) i)"

lemma subtask_of: "distinct (ids_of ts) \<Longrightarrow> s \<in> set ts \<Longrightarrow> subtask_of ts (st_id s) = s"
  by (simp add: subtask_of_def by_id_get)

lemma st_id_subtask_of: "distinct (ids_of ts) \<Longrightarrow> i \<in> set (ids_of ts) \<Longrightarrow> st_id (subtask_of ts i) = i"
  using subtask_of by (auto simp: ids_of_iff)

lemma optimize_eq:
  assumes "distinct (ids_of ts)" "longest_path ts = Inr (critical, len)" "ts \<noteq> []"
  shows "optimize ts =
    Inr (map (subtask_of ts) (kahn_out ts critical) @ filter (\<lambda>s. st_id s \<notin> set (kahn_out ts critical)) ts)"
    and "set (kahn_out ts critical) \<subseteq> set (ids_of ts)" "distinct (kahn_out ts critical)"
proof -
  note k = kahn_correct [OF kahn_start(2) [OF assms(1)] kahn_start(1) [OF assms(1)],
      of "Some (priority ts critical)" st_deps "Some (priority ts critical)", folded kahn_out_def]
  then show sub: "set (kahn_out ts critical) \<subseteq> set (ids_of ts)" and "distinct (kahn_out ts critical)"
    by auto
  have "map st_id (map (subtask_of ts) (kahn_out ts critical)) = kahn_out ts critical"
    using sub by (auto simp: st_id_subtask_of [OF assms(1)] subset_iff intro!: map_idI)
  then have im: "set (map st_id (map (subtask_of ts) (kahn_out ts critical))) = set (kahn_out ts critical)"
    by (simp only:)
  have "optimize ts = Inr (map (subtask_of ts) (kahn_out ts critical) @
      filter (\<lambda>s. st_id s \<notin> set (map st_id (map (subtask_of ts) (kahn_out ts critical)))) ts)"
    using assms(2,3) by (simp add: optimize_def kahn_out_def subtask_of_def [abs_def] Let_def image_image)
  then show "optimize ts =
    Inr (map (subtask_of ts) (kahn_out ts critical) @ filter (\<lambda>s. st_id s \<notin> set (kahn_out ts critical)) ts)"
    unfolding im .
qed

lemma optimize_permutes:
  assumes d: "distinct (ids_of ts)" and o: "optimize ts = Inr os"
  shows "mset os = mset ts"
proof (cases "ts = []")
  case True
  with o show ?thesis by (simp add: optimize_def)
next
  case False
  then obtain critical len where "longest_path ts = Inr (critical, len)"
    using o by (auto simp: optimize_def split: sum.splits)
  note e = optimize_eq [OF d this False]
  have dts: "distinct ts" using d by (simp add: ids_of_def distinct_map)
  have inj: "inj_on (subtask_of ts) (set (kahn_out ts critical))"
    using e(2) by (intro inj_onI) (metis d ids_of_iff subsetD subtask_of)
  have im: "subtask_of ts ` set (kahn_out ts critical) = {s \<in> set ts. st_id s \<in> set (kahn_out ts critical)}"
    using e(2) subtask_of [OF d] by (force simp: ids_of_iff image_iff subset_iff)
  have "os = map (subtask_of ts) (kahn_out ts critical) @ filter (\<lambda>s. st_id s \<notin> set (kahn_out ts critical)) ts"
    using e(1) o by simp
  then have "distinct os" "set os = set ts"
    using e(3) inj dts im by (auto simp: distinct_map)
  with dts show ?thesis by (simp add: set_eq_iff_mset_eq_distinct)
qed

lemma deps_first_map:
  assumes "distinct (ids_of ts)"
  shows "set out \<subseteq> set (ids_of ts) \<Longrightarrow> in_order (task_deps st_deps ts) seen out \<Longrightarrow>
           deps_first seen (map (subtask_of ts) out)"
proof (induction out arbitrary: seen)
  case (Cons x out)
  then obtain s where "s \<in> set ts" "st_id s = x" by (auto simp: ids_of_iff)
  with Cons show ?case
    using subtask_of [OF assms, of s] task_deps_in [OF assms, of s st_deps]
    by (auto simp: in_order_Cons list_all_iff)
qed simp

lemma ranked_longest_path:
  assumes "distinct (ids_of ts)" "ranked rank ts" "ts \<noteq> []"
  obtains critical len where "longest_path ts = Inr (critical, len)"
  using longest_path_ok [OF assms(1,3)] path_dp_ranked [OF assms(1,2)] by metis

text \<open>
  For subtasks whose dependencies are acyclic and among themselves, \<open>optimize\<close> returns the
  same subtasks, each after all of its dependencies.
\<close>

theorem optimize_topological:
  assumes "distinct (ids_of ts)" "ranked rank ts" "closed_plan ts"
  shows "case optimize ts of Inl e \<Rightarrow> False | Inr os \<Rightarrow> mset os = mset ts \<and> deps_first {} os"
proof (cases "ts = []")
  case True
  then show ?thesis by (simp add: optimize_def)
next
  case False
  obtain critical len where "longest_path ts = Inr (critical, len)"
    by (rule ranked_longest_path [OF assms(1,2) False])
  note e = optimize_eq [OF assms(1) this False]
  have "d \<in> set (ids_of ts) \<and> rank d < rank (st_id s)" if "s \<in> set ts" "d \<in> set (st_deps s)" for s d
    using that rankedD [OF assms(2)] assms(3) by (auto simp: closed_plan_def list_all_iff)
  note k = kahn_complete [of ts st_deps rank "Some (priority ts critical)", OF assms(1) this,
      folded kahn_out_def]
  have "filter (\<lambda>s. st_id s \<notin> set (kahn_out ts critical)) ts = []"
    using k by (auto simp: filter_empty_conv ids_of_def)
  with e(1) have "optimize ts = Inr (map (subtask_of ts) (kahn_out ts critical))" by simp
  with optimize_permutes [OF assms(1) this] deps_first_map [OF assms(1)] k show ?thesis by auto
qed

text \<open>
  With a dependency outside the list the degree of a subtask never reaches zero: if every subtask
  has a dependency outside, the reordering changes nothing.
\<close>

lemma optimize_waiting:
  assumes d: "distinct (ids_of ts)" and r: "ranked rank ts"
    and out: "\<And>s. s \<in> set ts \<Longrightarrow> st_deps s \<noteq> []"
  shows "optimize ts = Inr ts"
proof (cases "ts = []")
  case True
  then show ?thesis by (simp add: optimize_def)
next
  case False
  obtain critical len where lp: "longest_path ts = Inr (critical, len)"
    by (rule ranked_longest_path [OF d r False])
  have "ready_nodes ts (degrees st_deps ts) = []"
    using out by (auto simp: ready_nodes_def filter_empty_conv degrees_get [OF d])
  then have "kahn_out ts critical = []" by (simp add: kahn_out_def arrange_def)
  with optimize_eq(1) [OF d lp False] show ?thesis by simp
qed

subsection \<open>Levels\<close>

definition pairs_of :: "subtask list \<Rightarrow> (string \<times> subtask) list" where
  "pairs_of R = map (\<lambda>s. (st_id s, s)) R"

lemma pairs_of_simps [simp]:
  "dict_values (pairs_of R) = R" "pairs_of R = [] \<longleftrightarrow> R = []"
  by (simp_all add: pairs_of_def dict_values_def comp_def)

lemma delete_pairs_of: "AList.delete k (pairs_of R) = pairs_of (filter (\<lambda>s. st_id s \<noteq> k) R)"
  by (induction R) (auto simp: pairs_of_def)

lemma del_level_pairs:
  assumes "distinct (ids_of ss)" "set ss \<subseteq> set R"
  shows "del_level ss (pairs_of R) = Inr (pairs_of (filter (\<lambda>s. st_id s \<notin> set (ids_of ss)) R))"
  using assms
proof (induction ss arbitrary: R)
  case Nil
  then show ?case by (simp add: ids_of_def)
next
  case (Cons s ss)
  have "map_of (pairs_of R) (st_id s) \<noteq> None"
    using Cons.prems(2) map_of_subtasks_None [of "\<lambda>s. s" R "st_id s"]
    by (auto simp: pairs_of_def ids_of_iff)
  moreover have "set ss \<subseteq> set (filter (\<lambda>t. st_id t \<noteq> st_id s) R)"
    using Cons.prems by (auto simp: ids_of_def) (metis image_eqI)
  ultimately show ?case
    using Cons.IH [of "filter (\<lambda>t. st_id t \<noteq> st_id s) R"] Cons.prems(1)
    by (auto simp: delete_pairs_of ids_of_def filter_filter conj_commute)
qed

definition level_of :: "subtask list \<Rightarrow> string list \<Rightarrow> subtask list" where
  "level_of R don = next_level (pairs_of R) don"

lemma level_of_eq:
  "level_of R don =
     (let l = filter (\<lambda>s. set (st_deps s) \<subseteq> set don) R in if l = [] then R else l)"
  by (simp add: level_of_def next_level_def list_all_iff subset_eq Let_def)

lemma level_of_filter:
  obtains P where "level_of R don = filter P R"
  by (cases "filter (\<lambda>s. set (st_deps s) \<subseteq> set don) R = []")
    (auto simp: level_of_eq intro: that [of "\<lambda>s. True"] that)

lemma distinct_ids_filter: "distinct (ids_of R) \<Longrightarrow> distinct (ids_of (filter P R))"
  by (simp add: ids_of_def distinct_map_filter)

lemma levels_loop_step:
  assumes "distinct (ids_of R)" "R \<noteq> []"
  shows "levels_loop (pairs_of R) don =
    (case order_level (level_of R don) of
       Inl e \<Rightarrow> Inl e
     | Inr l \<Rightarrow>
         (case levels_loop (pairs_of (filter (\<lambda>s. s \<notin> set (level_of R don)) R))
                 (don @ ids_of (level_of R don)) of
            Inl e \<Rightarrow> Inl e | Inr ls \<Rightarrow> Inr (l # ls)))"
proof -
  obtain P where P: "level_of R don = filter P R" by (rule level_of_filter)
  have "filter (\<lambda>s. st_id s \<notin> set (ids_of (filter P R))) R = filter (\<lambda>s. s \<notin> set (filter P R)) R"
    using assms(1) by (intro filter_cong) (auto simp: ids_of_def distinct_map inj_on_def)
  with del_level_pairs [of "filter P R" R] distinct_ids_filter [OF assms(1), of P]
  have "del_level (level_of R don) (pairs_of R) =
      Inr (pairs_of (filter (\<lambda>s. s \<notin> set (level_of R don)) R))"
    by (simp add: P)
  then show ?thesis
    using assms(2) by (subst levels_loop.simps) (simp add: level_of_def ids_of_def Let_def split: sum.split)
qed

fun layered :: "string set \<Rightarrow> subtask list list \<Rightarrow> bool" where
  "layered don [] = True"
| "layered don (l # ls) =
     (l \<noteq> [] \<and> list_all (\<lambda>s. set (st_deps s) \<subseteq> don) l \<and>
      list_all (\<lambda>s. \<not> set (st_deps s) \<subseteq> don) (concat ls) \<and> layered (don \<union> st_id ` set l) ls)"

lemma order_level_ranked:
  assumes "distinct (ids_of l)" "ranked rank l"
  obtains os where "order_level l = Inr os" "mset os = mset l"
proof (cases "length l \<le> 1 \<or> l = []")
  case True
  then show thesis using that [of l] by (auto simp: order_level_def)
next
  case False
  then obtain critical len where "longest_path l = Inr (critical, len)"
    using ranked_longest_path [OF assms] by blast
  with optimize_eq(1) [OF assms(1) this] False obtain os where "optimize l = Inr os" by blast
  with optimize_permutes [OF assms(1) this] that False show thesis by (simp add: order_level_def)
qed

lemma order_level_waiting:
  "distinct (ids_of l) \<Longrightarrow> ranked rank l \<Longrightarrow> (\<And>s. s \<in> set l \<Longrightarrow> st_deps s \<noteq> []) \<Longrightarrow> order_level l = Inr l"
  by (simp add: order_level_def optimize_waiting)

lemma ranked_filter: "ranked rank R \<Longrightarrow> ranked rank (filter P R)"
  by (auto simp: ranked_def list_all_iff)

lemma level_nonempty:
  assumes "ranked rank R" "R \<noteq> []" "\<And>s. s \<in> set R \<Longrightarrow> set (st_deps s) \<subseteq> set don \<union> set (ids_of R)"
  shows "level_of R don = filter (\<lambda>s. set (st_deps s) \<subseteq> set don) R"
    and "level_of R don \<noteq> []"
proof -
  have "filter (\<lambda>s. set (st_deps s) \<subseteq> set don) R \<noteq> []"
  proof
    assume e: "filter (\<lambda>s. set (st_deps s) \<subseteq> set don) R = []"
    have "\<exists>d \<in> set (ids_of R). rank d < rank x" if x: "x \<in> set (ids_of R)" for x
    proof -
      obtain s where s: "s \<in> set R" "st_id s = x" using x by (auto simp: ids_of_iff)
      then obtain d where "d \<in> set (st_deps s)" "d \<notin> set don" using e by (auto simp: filter_empty_conv)
      with s assms(3) [OF s(1)] rankedD [OF assms(1) s(1)] show ?thesis by blast
    qed
    with no_stuck_set [of "set (ids_of R)" rank] assms(2) show False by (auto simp: ids_of_def)
  qed
  then show "level_of R don = filter (\<lambda>s. set (st_deps s) \<subseteq> set don) R" "level_of R don \<noteq> []"
    by (simp_all add: level_of_eq Let_def)
qed

lemma ids_split:
  "st_id ` set R \<subseteq> st_id ` set (filter P R) \<union> st_id ` set (filter (\<lambda>s. s \<notin> set (filter P R)) R)"
  by auto

lemma mset_split: "distinct R \<Longrightarrow> mset (filter P R) + mset (filter (\<lambda>s. s \<notin> set (filter P R)) R) = mset R"
proof -
  have "filter (\<lambda>s. s \<notin> set (filter P R)) R = filter (\<lambda>s. \<not> P s) R" by (intro filter_cong) auto
  then show ?thesis using multiset_partition [of "mset R" P] by simp
qed

lemma distinct_ids_distinct: "distinct (ids_of R) \<Longrightarrow> distinct R"
  by (simp add: ids_of_def distinct_map)

text \<open>
  A round on the subtasks still open: \<open>R\<close> is what remains, \<open>rest\<close> what remains afterwards.
\<close>

lemma levels_loop_round:
  assumes "distinct (ids_of R)" "ranked rank R" "R \<noteq> []"
    and "\<And>s. s \<in> set R \<Longrightarrow> set (st_deps s) \<subseteq> set don \<union> set (ids_of R)"
  defines "l \<equiv> filter (\<lambda>s. set (st_deps s) \<subseteq> set don) R"
  defines "rest \<equiv> filter (\<lambda>s. s \<notin> set l) R"
  shows "l \<noteq> []" "length rest < length R" "distinct (ids_of rest)" "ranked rank rest"
    and "\<And>s. s \<in> set rest \<Longrightarrow> set (st_deps s) \<subseteq> set (don @ ids_of l) \<union> set (ids_of rest)"
    and "\<And>s. s \<in> set rest \<Longrightarrow> \<not> set (st_deps s) \<subseteq> set don"
    and "mset l + mset rest = mset R"
    and "levels_loop (pairs_of R) don =
      (case order_level l of
         Inl e \<Rightarrow> Inl e
       | Inr os \<Rightarrow> (case levels_loop (pairs_of rest) (don @ ids_of l) of
                      Inl e \<Rightarrow> Inl e | Inr ls \<Rightarrow> Inr (os # ls)))"
proof -
  note lv = level_nonempty [OF assms(2-4), folded l_def]
  show "l \<noteq> []" using lv(2) by (simp add: lv(1))
  show "mset l + mset rest = mset R"
    unfolding rest_def l_def by (rule mset_split [OF distinct_ids_distinct [OF assms(1)]])
  with \<open>l \<noteq> []\<close> show "length rest < length R"
    by (metis length_greater_0_conv less_add_same_cancel2 size_mset size_union)
  show "distinct (ids_of rest)" "ranked rank rest"
    by (simp_all add: rest_def distinct_ids_filter [OF assms(1)] ranked_filter [OF assms(2)])
  show "set (st_deps s) \<subseteq> set (don @ ids_of l) \<union> set (ids_of rest)" if "s \<in> set rest" for s
  proof -
    have "set (ids_of R) \<subseteq> set (ids_of l) \<union> set (ids_of rest)"
      unfolding ids_of_def set_map rest_def l_def by (rule ids_split)
    moreover have "s \<in> set R" using that by (simp add: rest_def)
    ultimately show ?thesis using assms(4) [of s] by auto
  qed
  show "\<not> set (st_deps s) \<subseteq> set don" if "s \<in> set rest" for s
    using that by (auto simp: rest_def l_def)
  show "levels_loop (pairs_of R) don =
      (case order_level l of
         Inl e \<Rightarrow> Inl e
       | Inr os \<Rightarrow> (case levels_loop (pairs_of rest) (don @ ids_of l) of
                      Inl e \<Rightarrow> Inl e | Inr ls \<Rightarrow> Inr (os # ls)))"
    unfolding levels_loop_step [OF assms(1,3), of don] rest_def by (simp only: lv(1))
qed

lemma levels_loop_ranked:
  assumes "distinct (ids_of R)" "ranked rank R"
    and "\<And>s. s \<in> set R \<Longrightarrow> set (st_deps s) \<subseteq> set don \<union> set (ids_of R)"
  shows "\<exists>ls. levels_loop (pairs_of R) don = Inr ls \<and> mset (concat ls) = mset R \<and> layered (set don) ls \<and>
           ((\<forall>s \<in> set R. st_deps s \<noteq> []) \<longrightarrow> (\<forall>l \<in> set ls. l = filter (\<lambda>s. s \<in> set l) R))"
  using assms
proof (induction R arbitrary: don rule: length_induct)
  case (1 R)
  show ?case
  proof (cases "R = []")
    case True
    then show ?thesis by (subst levels_loop.simps) simp
  next
    case False
    define l where "l = filter (\<lambda>s. set (st_deps s) \<subseteq> set don) R"
    define rest where "rest = filter (\<lambda>s. s \<notin> set l) R"
    note rd = levels_loop_round [OF "1.prems"(1,2) False "1.prems"(3), folded l_def, folded rest_def]
    have dl: "distinct (ids_of l)" "ranked rank l"
      by (simp_all add: l_def distinct_ids_filter ranked_filter "1.prems")
    obtain os where os: "order_level l = Inr os" "mset os = mset l"
      by (rule order_level_ranked [OF dl])
    have "set os = set l" using os(2) by (rule mset_eq_setD)
    obtain ls where ls: "levels_loop (pairs_of rest) (don @ ids_of l) = Inr ls"
      "mset (concat ls) = mset rest" "layered (set (don @ ids_of l)) ls"
      "(\<forall>s \<in> set rest. st_deps s \<noteq> []) \<longrightarrow> (\<forall>k \<in> set ls. k = filter (\<lambda>s. s \<in> set k) rest)"
      using "1.IH" [rule_format, OF rd(2,3,4,5)] by blast
    have sc: "set (concat ls) = set rest" using ls(2) by (rule mset_eq_setD)
    have "layered (set don) (os # ls)"
      using ls(3) rd(1,6) sc \<open>set os = set l\<close>
      by (auto simp: list_all_iff ids_of_def l_def simp del: set_concat)
    moreover have "k = filter (\<lambda>s. s \<in> set k) R"
      if ne: "\<forall>s \<in> set R. st_deps s \<noteq> []" and k: "k \<in> set (os # ls)" for k
    proof (cases "k = os")
      case True
      have "os = l" using order_level_waiting [OF dl] ne os(1) by (auto simp: l_def)
      then show ?thesis by (auto simp: True l_def intro: filter_cong)
    next
      case False
      with k have k: "k \<in> set ls" by simp
      have "k = filter (\<lambda>s. s \<in> set k) rest" using ls(4) ne k by (auto simp: rest_def)
      moreover have "filter (\<lambda>s. s \<in> set k) rest = filter (\<lambda>s. s \<in> set k) R"
        using k sc unfolding rest_def filter_filter by (intro filter_cong) auto
      ultimately show ?thesis by simp
    qed
    moreover have "mset (concat (os # ls)) = mset R" using ls(2) os(2) rd(7) by simp
    ultimately show ?thesis by (simp add: rd(8) os(1) ls(1))
  qed
qed

lemma get_levels_eq: "distinct (ids_of (tp_subtasks p)) \<Longrightarrow> get_levels p = levels_loop (pairs_of (tp_subtasks p)) []"
  by (simp add: get_levels_def by_id_distinct pairs_of_def)

lemma closed_planD: "closed_plan R \<Longrightarrow> s \<in> set R \<Longrightarrow> set (st_deps s) \<subseteq> set [] \<union> set (ids_of R)"
  by (auto simp: closed_plan_def list_all_iff)

text \<open>
  A plan whose dependencies are acyclic and within the plan is split into levels that hold
  every subtask exactly once, each level nonempty, its subtasks depending only on earlier levels,
  and no later subtask being ready any sooner.
\<close>

theorem get_levels_layered:
  assumes "distinct (ids_of (tp_subtasks p))" "ranked rank (tp_subtasks p)" "closed_plan (tp_subtasks p)"
  shows "case get_levels p of
           Inl e \<Rightarrow> False
         | Inr ls \<Rightarrow> mset (concat ls) = mset (tp_subtasks p) \<and> layered {} ls"
  using levels_loop_ranked [OF assms(1,2) closed_planD [OF assms(3)]] get_levels_eq [OF assms(1)]
  by auto

text \<open>
  The critical path has no influence after the first level: there every subtask has a
  dependency, which the reordering takes to be open, so each level stays in plan order whatever
  the latencies.
\<close>

theorem levels_ignore_latency:
  assumes "distinct (ids_of (tp_subtasks p))" "ranked rank (tp_subtasks p)" "closed_plan (tp_subtasks p)"
  shows "case get_levels p of
           Inl e \<Rightarrow> False
         | Inr ls \<Rightarrow> list_all (\<lambda>l. l = filter (\<lambda>s. s \<in> set l) (tp_subtasks p)) (tl ls)"
proof (cases "tp_subtasks p = []")
  case True
  then show ?thesis
    using get_levels_eq [OF assms(1)] by (simp add: levels_loop.simps [of "[]"] pairs_of_def)
next
  case False
  let ?R = "tp_subtasks p"
  define l where "l = filter (\<lambda>s. set (st_deps s) \<subseteq> set []) ?R"
  define rest where "rest = filter (\<lambda>s. s \<notin> set l) ?R"
  note rd = levels_loop_round [OF assms(1,2) False closed_planD [OF assms(3)], folded l_def, folded rest_def]
  obtain os where os: "order_level l = Inr os"
    using order_level_ranked [of l rank] assms(1,2)
    by (auto simp: l_def distinct_ids_filter ranked_filter)
  obtain ls where ls: "levels_loop (pairs_of rest) ([] @ ids_of l) = Inr ls" "mset (concat ls) = mset rest"
      "(\<forall>s \<in> set rest. st_deps s \<noteq> []) \<longrightarrow> (\<forall>k \<in> set ls. k = filter (\<lambda>s. s \<in> set k) rest)"
    using levels_loop_ranked [OF rd(3,4,5)] by blast
  have "k = filter (\<lambda>s. s \<in> set k) ?R" if k: "k \<in> set ls" for k
  proof -
    have "set k \<subseteq> set rest" using k mset_eq_setD [OF ls(2)] by auto
    then have "filter (\<lambda>s. s \<in> set k) rest = filter (\<lambda>s. s \<in> set k) ?R"
      unfolding rest_def filter_filter by (intro filter_cong) auto
    moreover have "k = filter (\<lambda>s. s \<in> set k) rest" using ls(3) k rd(6) by force
    ultimately show ?thesis by simp
  qed
  moreover have "get_levels p = Inr (os # ls)"
    using rd(8) ls(1) os get_levels_eq [OF assms(1)] by simp
  ultimately show ?thesis by (simp add: list_all_iff)
qed

lemma longest_path_error:
  assumes "distinct (ids_of ts)" "longest_path ts = Inl e"
  shows "\<exists>k. e = MissingKey k"
proof (cases "ts = []")
  case False
  let ?dp = "path_dp (by_id ts) (inner_deps ts) (path_order ts) []
    (fold (\<lambda>s. AList.update (st_id s) None) ts [])"
  show ?thesis
  proof (cases ?dp)
    case (Inl d)
    with assms(2) False have "e = d" by (simp add: longest_path_def)
    with path_dp_error [OF Inl] path_order_nodes(2) [OF assms(1)] by_id_keys [OF assms(1)]
    show ?thesis by simp
  next
    case (Inr r)
    then show ?thesis
      using longest_path_ok [OF assms(1) False] assms(2) by (cases r) auto
  qed
qed (use assms in \<open>simp add: longest_path_def\<close>)

lemma order_level_error:
  assumes "distinct (ids_of l)" "order_level l = Inl e"
  shows "\<exists>k. e = MissingKey k"
  using assms longest_path_error [OF assms(1)]
  by (auto simp: order_level_def optimize_def Let_def split: if_splits sum.splits)

lemma task_deps_filter:
  "distinct (ids_of R) \<Longrightarrow> s \<in> set R \<Longrightarrow> P s \<Longrightarrow>
     task_deps deps (filter P R) (st_id s) = task_deps deps R (st_id s)"
  by (simp add: task_deps_in distinct_ids_filter)

text \<open>A waiting set stays in the list until nothing else is ready.\<close>

lemma waits_in_round:
  assumes d: "distinct (ids_of R)" and C: "waits_in R C" and don: "C \<inter> set don = {}"
    and l: "l = filter (\<lambda>s. set (st_deps s) \<subseteq> set don) R"
  shows "C \<inter> set (ids_of l) = {}" "waits_in (filter (\<lambda>s. s \<notin> set l) R) C"
proof -
  have nr: "s \<notin> set l" if s: "s \<in> set R" "st_id s \<in> C" for s
  proof -
    obtain e where "e \<in> C" "e \<in> set (task_deps st_deps R (st_id s))" using C s by (auto simp: waits_in_def)
    with don s show ?thesis by (auto simp: l task_deps_in [OF d])
  qed
  then show "C \<inter> set (ids_of l) = {}" by (auto simp: l ids_of_def)
  have "C \<subseteq> set (ids_of (filter (\<lambda>s. s \<notin> set l) R))"
    using C nr by (force simp: waits_in_def ids_of_def)
  moreover have "\<exists>e \<in> C. e \<in> set (task_deps st_deps (filter (\<lambda>s. s \<notin> set l) R) c)" if c: "c \<in> C" for c
  proof -
    have "c \<in> set (ids_of R)" using C c by (auto simp: waits_in_def)
    then obtain s where s: "s \<in> set R" "st_id s = c" by (auto simp: ids_of_iff)
    then have "task_deps st_deps (filter (\<lambda>s. s \<notin> set l) R) c = task_deps st_deps R c"
      using task_deps_filter [OF d s(1), of "\<lambda>s. s \<notin> set l"] nr [OF s(1)] c by simp
    with C c show ?thesis by (auto simp: waits_in_def)
  qed
  ultimately show "waits_in (filter (\<lambda>s. s \<notin> set l) R) C" using C by (simp add: waits_in_def)
qed

lemma levels_loop_cycle:
  assumes "distinct (ids_of R)" "waits_in R C" "C \<inter> set don = {}" "a \<in> C" "b \<in> C" "a \<noteq> b"
  shows "\<exists>k. levels_loop (pairs_of R) don = Inl (MissingKey k)"
  using assms
proof (induction R arbitrary: don rule: length_induct)
  case (1 R)
  let ?P = "\<lambda>s. set (st_deps s) \<subseteq> set don"
  have ne: "R \<noteq> []" using "1.prems"(2,4) by (auto simp: waits_in_def ids_of_def)
  note step = levels_loop_step [OF "1.prems"(1) ne, of don]
  show ?case
  proof (cases "filter ?P R = []")
    case True
    then have lv: "level_of R don = R" by (simp add: level_of_eq)
    have "{a, b} \<subseteq> set (ids_of R)" using "1.prems" by (auto simp: waits_in_def)
    then have "\<not> length R \<le> 1"
      using "1.prems"(6) by (cases R; cases "tl R") (auto simp: ids_of_def)
    then show ?thesis
      using step longest_path_cycle [OF "1.prems"(1,2)] ne by (auto simp: lv order_level_def optimize_def)
  next
    case False
    then have lv: "level_of R don = filter ?P R" by (simp add: level_of_eq)
    note w = waits_in_round [OF "1.prems"(1,2,3) refl]
    have "length (filter (\<lambda>s. s \<notin> set (filter ?P R)) R) < length R"
      using False by (auto simp: filter_empty_conv intro: length_filter_less)
    then have "\<exists>k. levels_loop (pairs_of (filter (\<lambda>s. s \<notin> set (filter ?P R)) R)) (don @ ids_of (filter ?P R))
        = Inl (MissingKey k)"
      using "1.IH" w "1.prems" distinct_ids_filter by (simp add: Int_Un_distrib)
    then show ?thesis
      using step order_level_error [of "filter ?P R"] distinct_ids_filter [OF "1.prems"(1), of ?P]
      by (cases "order_level (filter ?P R)") (auto simp: lv)
  qed
qed

text \<open>
  For a plan with a cycle through two subtasks \<open>get_levels\<close> raises \<open>KeyError\<close> instead of
  breaking the cycle.
\<close>

theorem get_levels_cycle_raises:
  assumes "distinct (ids_of (tp_subtasks p))" "waits_in (tp_subtasks p) C" "a \<in> C" "b \<in> C" "a \<noteq> b"
  shows "case get_levels p of Inl (MissingKey k) \<Rightarrow> True | _ \<Rightarrow> False"
  using levels_loop_cycle [OF assms(1,2) _ assms(3-5), of "[]"] get_levels_eq [OF assms(1)] by auto

subsection \<open>Independent pairs\<close>

definition dep_edges :: "subtask list \<Rightarrow> (string \<times> string) set" where
  "dep_edges ts = {(st_id s, d) | s d. s \<in> set ts \<and> d \<in> set (st_deps s)}"

lemma dep_edges_iff:
  assumes "distinct (ids_of ts)" "s \<in> set ts"
  shows "(st_id s, y) \<in> dep_edges ts \<longleftrightarrow> y \<in> set (st_deps s)"
proof
  have uniq: "t = s" if "t \<in> set ts" "st_id t = st_id s" for t
    using by_id_get [OF assms(1) that(1)] by_id_get [OF assms] that(2) by (metis option.inject)
  assume "(st_id s, y) \<in> dep_edges ts"
  then obtain t where t: "t \<in> set ts" "st_id t = st_id s" "y \<in> set (st_deps t)"
    by (force simp: dep_edges_def)
  with uniq [OF t(1,2)] show "y \<in> set (st_deps s)" by simp
next
  assume "y \<in> set (st_deps s)"
  with assms(2) show "(st_id s, y) \<in> dep_edges ts" unfolding dep_edges_def mem_Collect_eq by blast
qed

lemma reach_closed:
  assumes "(x, y) \<in> E\<^sup>*" "x \<in> A" "\<And>u v. u \<in> A \<Longrightarrow> (u, v) \<in> E \<Longrightarrow> v \<in> A"
  shows "y \<in> A"
  using assms(1,2) by (induction rule: rtrancl_induct) (use assms(3) in auto)

lemma depends_loop_correct:
  assumes d: "distinct (ids_of ts)" and "closed_plan ts"
    and "b \<notin> set seen" "set stack \<union> set seen \<subseteq> set (ids_of ts)"
    and "\<And>x y. x \<in> set seen \<Longrightarrow> (x, y) \<in> dep_edges ts \<Longrightarrow> y \<in> set seen \<union> set stack"
  shows "depends_loop (by_id ts) b seen stack =
           Inr (\<exists>x \<in> set seen \<union> set stack. (x, b) \<in> (dep_edges ts)\<^sup>*)"
  using assms(3-5)
proof (induction "by_id ts" b seen stack rule: depends_loop.induct)
  case (1 b seen stack)
  show ?case
  proof (cases "stack = []")
    case True
    have "(x, b) \<notin> (dep_edges ts)\<^sup>*" if "x \<in> set seen" for x
      using reach_closed [of x b "dep_edges ts" "set seen"] that "1.prems" True by auto
    then show ?thesis by (subst depends_loop.simps) (simp add: True)
  next
    case False
    let ?dep = "List.last stack" and ?rest = "butlast stack"
    have st: "set stack = insert ?dep (set ?rest)"
      using False append_butlast_last_id [OF False] by (metis list.simps(15) rotate1.simps(2) set_rotate1)
    consider "?dep = b" | "?dep \<noteq> b" "?dep \<in> set seen" | "?dep \<noteq> b" "?dep \<notin> set seen" by blast
    then show ?thesis
    proof cases
      case 1
      then have "\<exists>x \<in> set seen \<union> set stack. (x, b) \<in> (dep_edges ts)\<^sup>*" using st by auto
      with 1 show ?thesis by (subst depends_loop.simps) (simp add: False)
    next
      case 2
      then have un: "set seen \<union> set ?rest = set seen \<union> set stack" using st by auto
      have "depends_loop (by_id ts) b seen ?rest = Inr (\<exists>x \<in> set seen \<union> set ?rest. (x, b) \<in> (dep_edges ts)\<^sup>*)"
        using "1.prems" un by (intro "1.hyps"(1) [OF False refl refl 2]) auto
      with 2 False un show ?thesis by (subst depends_loop.simps) (simp add: Let_def)
    next
      case 3
      have "?dep \<in> set (ids_of ts)" using "1.prems"(2) st by auto
      then obtain s where s: "s \<in> set ts" "st_id s = ?dep" by (auto simp: ids_of_iff)
      have ms: "map_of (by_id ts) ?dep = Some s" using by_id_get [OF d s(1)] s(2) by simp
      have ed: "(?dep, y) \<in> dep_edges ts \<longleftrightarrow> y \<in> set (st_deps s)" for y
        using dep_edges_iff [OF d s(1)] s(2) by simp
      have sub: "set (st_deps s) \<subseteq> set (ids_of ts)"
        using closed_planD [OF assms(2) s(1)] by simp
      have "depends_loop (by_id ts) b (?dep # seen) (?rest @ st_deps s) =
          Inr (\<exists>x \<in> set (?dep # seen) \<union> set (?rest @ st_deps s). (x, b) \<in> (dep_edges ts)\<^sup>*)"
      proof (rule "1.hyps"(2) [OF False refl refl 3 ms])
        show "b \<notin> set (?dep # seen)" using 3 "1.prems"(1) by auto
        show "set (?rest @ st_deps s) \<union> set (?dep # seen) \<subseteq> set (ids_of ts)"
          using "1.prems"(2) sub st by auto
        show "y \<in> set (?dep # seen) \<union> set (?rest @ st_deps s)"
          if "x \<in> set (?dep # seen)" "(x, y) \<in> dep_edges ts" for x y
        proof (cases "x = ?dep")
          case True
          with that(2) ed show ?thesis by simp
        next
          case False
          with that "1.prems"(3) [of x y] have "y \<in> set seen \<union> set stack" by simp
          with st show ?thesis by auto
        qed
      qed
      moreover have "(\<exists>x \<in> set (?dep # seen) \<union> set (?rest @ st_deps s). (x, b) \<in> (dep_edges ts)\<^sup>*) \<longleftrightarrow>
          (\<exists>x \<in> set seen \<union> set stack. (x, b) \<in> (dep_edges ts)\<^sup>*)"
      proof -
        have "(?dep, b) \<in> (dep_edges ts)\<^sup>*" if "y \<in> set (st_deps s)" "(y, b) \<in> (dep_edges ts)\<^sup>*" for y
          using that by (meson converse_rtrancl_into_rtrancl ed)
        then show ?thesis by (auto simp: st)
      qed
      ultimately show ?thesis using 3 False ms by (subst depends_loop.simps) (simp add: Let_def)
    qed
  qed
qed

lemma depends_on_correct:
  assumes "distinct (ids_of ts)" "closed_plan ts" "a \<in> set (ids_of ts)"
  shows "depends_on (by_id ts) a b = Inr ((a, b) \<in> (dep_edges ts)\<^sup>+)"
proof -
  obtain s where s: "s \<in> set ts" "st_id s = a" using assms(3) by (auto simp: ids_of_iff)
  have ed: "(a, y) \<in> dep_edges ts \<longleftrightarrow> y \<in> set (st_deps s)" for y
    using dep_edges_iff [OF assms(1) s(1)] s(2) by simp
  have "depends_on (by_id ts) a b = depends_loop (by_id ts) b [] (st_deps s)"
    using by_id_get [OF assms(1) s(1)] s(2) by (simp add: depends_on_def)
  also have "\<dots> = Inr (\<exists>x \<in> set (st_deps s). (x, b) \<in> (dep_edges ts)\<^sup>*)"
    using closed_planD [OF assms(2) s(1)] depends_loop_correct [OF assms(1,2), of b "[]" "st_deps s"] by simp
  also have "(\<exists>x \<in> set (st_deps s). (x, b) \<in> (dep_edges ts)\<^sup>*) \<longleftrightarrow> (a, b) \<in> (dep_edges ts)\<^sup>+"
    by (metis ed tranclD rtrancl_into_trancl2)
  finally show ?thesis .
qed

fun pairs_in_order :: "string list \<Rightarrow> (string \<times> string) list" where
  "pairs_in_order [] = []"
| "pairs_in_order (a # as) = map (Pair a) as @ pairs_in_order as"

text \<open>
  \<open>parallelizable_pairs\<close> returns, in order, exactly the pairs of subtasks neither of which
  depends on the other, directly or through others.
\<close>

theorem parallelizable_pairs_exact:
  assumes "distinct (ids_of ts)" "closed_plan ts"
  shows "parallelizable_pairs ts =
    Inr (filter (\<lambda>(a, b). (a, b) \<notin> (dep_edges ts)\<^sup>+ \<and> (b, a) \<notin> (dep_edges ts)\<^sup>+)
          (pairs_in_order (ids_of ts)))"
proof -
  let ?ok = "\<lambda>(a, b). (a, b) \<notin> (dep_edges ts)\<^sup>+ \<and> (b, a) \<notin> (dep_edges ts)\<^sup>+"
  note dep = depends_on_correct [OF assms]
  have w: "pairs_with (by_id ts) a bs = Inr (filter ?ok (map (Pair a) bs))"
    if "a \<in> set (ids_of ts)" "set bs \<subseteq> set (ids_of ts)" for a bs
    using that(2) by (induction bs) (auto simp: dep that(1))
  have "pairs_from (by_id ts) as = Inr (filter ?ok (pairs_in_order as))" if "set as \<subseteq> set (ids_of ts)" for as
    using that by (induction as) (auto simp: w)
  then show ?thesis by (simp add: parallelizable_pairs_def ids_of_def)
qed

subsection \<open>Concrete plans\<close>

definition sample_task :: "string \<Rightarrow> string list \<Rightarrow> rat option \<Rightarrow> subtask" where
  "sample_task i ds ms =
     \<lparr>st_id = i, st_agent = ''builder'', st_description = [], st_deps = ds, st_expected = [],
      st_hint = [], st_completed = False, st_result = [], st_impact = ''neutral'', st_latency = ms\<rparr>"

definition sample_tasks :: "subtask list" where
  "sample_tasks =
     [sample_task ''a'' [] None, sample_task ''b'' [''a''] None, sample_task ''c'' [''a''] (Some 5),
      sample_task ''d'' [''b'', ''c''] None]"

definition sample_rank :: "string \<Rightarrow> nat" where
  "sample_rank i = (if i = ''a'' then 0 else if i = ''d'' then 2 else 1)"

definition sample_plan :: "subtask list \<Rightarrow> task_plan" where
  "sample_plan ts = \<lparr>tp_session = ''s'', tp_message = [], tp_subtasks = ts, tp_template = []\<rparr>"

lemma sample_tasks_ok:
  "distinct (ids_of sample_tasks)" "ranked sample_rank sample_tasks" "closed_plan sample_tasks"
  "sample_tasks \<noteq> []"
  by (simp_all add: sample_tasks_def ids_of_def sample_task_def ranked_def sample_rank_def closed_plan_def)

lemma sample_plan_tasks: "tp_subtasks (sample_plan ts) = ts"
  by (simp add: sample_plan_def)

lemma longest_path_exact_witness:
  "case longest_path sample_tasks of
     Inl e \<Rightarrow> False
   | Inr (path, len) \<Rightarrow> dep_chain sample_tasks path \<and> chain_weight sample_tasks path = len"
  using longest_path_exact [OF sample_tasks_ok(1,2,4)] by (auto split: sum.splits)

lemma optimize_topological_witness:
  "case optimize sample_tasks of
     Inl e \<Rightarrow> False | Inr os \<Rightarrow> mset os = mset sample_tasks \<and> deps_first {} os"
  by (rule optimize_topological [OF sample_tasks_ok(1,2,3)])

lemma get_levels_layered_witness:
  "case get_levels (sample_plan sample_tasks) of
     Inl e \<Rightarrow> False
   | Inr ls \<Rightarrow> mset (concat ls) = mset sample_tasks \<and> layered {} ls"
  by (rule get_levels_layered [of "sample_plan sample_tasks" sample_rank, unfolded sample_plan_tasks,
        OF sample_tasks_ok(1,2,3)])

text \<open>The subtask \<open>c\<close> is on the critical path, but stays behind \<open>b\<close> in the second level.\<close>

lemma levels_ignore_latency_witness:
  "case get_levels (sample_plan sample_tasks) of
     Inl e \<Rightarrow> False
   | Inr ls \<Rightarrow> list_all (\<lambda>l. l = filter (\<lambda>s. s \<in> set l) sample_tasks) (tl ls)"
  by (rule levels_ignore_latency [of "sample_plan sample_tasks" sample_rank, unfolded sample_plan_tasks,
        OF sample_tasks_ok(1,2,3)])

lemma get_levels_cycle_raises_witness:
  "case get_levels (sample_plan [sample_task ''a'' [''b''] None, sample_task ''b'' [''a''] None]) of
     Inl (MissingKey k) \<Rightarrow> True | _ \<Rightarrow> False"
proof -
  let ?ts = "[sample_task ''a'' [''b''] None, sample_task ''b'' [''a''] None]"
  have d: "distinct (ids_of ?ts)" by (simp add: ids_of_def sample_task_def)
  have t: "task_deps st_deps ?ts ''a'' = [''b'']" "task_deps st_deps ?ts ''b'' = [''a'']"
    by (simp_all add: task_deps_def by_id_def sample_task_def)
  have w: "waits_in ?ts {''a'', ''b''}"
    unfolding waits_in_def using t by (auto simp: ids_of_def sample_task_def)
  show ?thesis
    using get_levels_cycle_raises [of "sample_plan ?ts" "{''a'', ''b''}" "''a''" "''b''"] d w
    by (simp add: sample_plan_def)
qed

lemma parallelizable_pairs_exact_witness:
  "parallelizable_pairs sample_tasks =
    Inr (filter (\<lambda>(a, b). (a, b) \<notin> (dep_edges sample_tasks)\<^sup>+ \<and> (b, a) \<notin> (dep_edges sample_tasks)\<^sup>+)
          (pairs_in_order (ids_of sample_tasks)))"
  by (rule parallelizable_pairs_exact [OF sample_tasks_ok(1,3)])

text \<open>
  With a dependency outside the list, \<open>optimize\<close> can put a subtask before the one it depends on.
\<close>

lemma optimize_outside_order:
  "optimize [sample_task ''b'' [''a''] None, sample_task ''a'' [''x''] None] =
     Inr [sample_task ''b'' [''a''] None, sample_task ''a'' [''x''] None]"
proof (rule optimize_waiting)
  show "ranked (\<lambda>i. if i = ''b'' then 2 else if i = ''a'' then 1 else 0)
      [sample_task ''b'' [''a''] None, sample_task ''a'' [''x''] None]"
    by (simp add: ranked_def sample_task_def)
qed (auto simp: ids_of_def sample_task_def)

end
