(* ===== verification/GraphAlgorithms.thy ===== *)
theory GraphAlgorithms
  imports Complex_Main Prelude
begin

text \<open>
  Graph algorithms of the retrieval layer (harness/memory_rag/graph_algorithms.py): breadth-first
  shortest path, connected components and PageRank. A graph is a dictionary from nodes to lists of
  successors; \<open>nodes\<close> is the set of all nodes in the order in which Python iterates over it, an
  argument where that order matters. Scores are rationals.
\<close>

type_synonym 'n graph = "('n \<times> 'n list) list"

definition succs :: "'n graph \<Rightarrow> 'n \<Rightarrow> 'n list" where
  "succs adj x = dict_get adj x []"

definition graph_nodes :: "'n graph \<Rightarrow> 'n set" where
  "graph_nodes adj = fst ` set adj \<union> \<Union> (set ` snd ` set adj)"

definition edges :: "'n graph \<Rightarrow> ('n \<times> 'n) set" where
  "edges adj = {(x, y). y \<in> set (succs adj x)}"

definition all_succs :: "'n graph \<Rightarrow> 'n set" where
  "all_succs adj = \<Union> (set ` snd ` set adj)"

lemma finite_all_succs [simp]: "finite (all_succs adj)"
  by (simp add: all_succs_def)

lemma succs_subset: "set (succs adj x) \<subseteq> all_succs adj"
proof
  fix y assume y: "y \<in> set (succs adj x)"
  then obtain ys where "map_of adj x = Some ys" "y \<in> set ys"
    by (cases "map_of adj x") (simp_all add: succs_def dict_get_def)
  then show "y \<in> all_succs adj" by (force simp: all_succs_def dest: map_of_SomeD)
qed

lemma edges_iff [simp]: "(x, y) \<in> edges adj \<longleftrightarrow> y \<in> set (succs adj x)"
  by (simp add: edges_def)

subsection \<open>Shortest path\<close>

text \<open>
  One node of the search: its successors in order, stopping at the target. \<open>Inl\<close> is the early
  return of the path, \<open>Inr\<close> the visited nodes and the queue.
\<close>

fun path_scan ::
  "'n \<Rightarrow> 'n list \<Rightarrow> 'n list \<Rightarrow> 'n list \<Rightarrow> ('n \<times> 'n list) list \<Rightarrow> 'n list + 'n list \<times> ('n \<times> 'n list) list" where
  "path_scan target path [] visited queue = Inr (visited, queue)"
| "path_scan target path (x # xs) visited queue =
     (if x = target then Inl (path @ [x])
      else if x \<notin> set visited then path_scan target path xs (x # visited) (queue @ [(x, path @ [x])])
      else path_scan target path xs visited queue)"

lemma path_scan_measure:
  "path_scan target path xs visited queue = Inr (visited', queue') \<Longrightarrow> finite A \<Longrightarrow> set xs \<subseteq> A \<Longrightarrow>
     length queue' + card (A - set visited') = length queue + card (A - set visited)"
proof (induction target path xs visited queue rule: path_scan.induct)
  case (2 target path x xs visited queue)
  have c: "Suc (card (A - set (x # visited))) = card (A - set visited)" if "x \<notin> set visited"
  proof -
    have "A - set visited = insert x (A - set (x # visited))" using that "2.prems"(3) by auto
    moreover have "card (insert x (A - set (x # visited))) = Suc (card (A - set (x # visited)))"
      using "2.prems"(2) by (intro card_insert_disjoint) auto
    ultimately show ?thesis by (simp only:)
  qed
  consider "x = target" | "x \<noteq> target" "x \<in> set visited" | "x \<noteq> target" "x \<notin> set visited" by blast
  then show ?case
  proof cases
    case 3
    with "2.IH"(1) [OF 3] "2.prems" c show ?thesis by simp
  qed (use 2 in auto)
qed simp

function path_search ::
  "'n graph \<Rightarrow> 'n \<Rightarrow> 'n list \<Rightarrow> ('n \<times> 'n list) list \<Rightarrow> 'n list" where
  "path_search adj target visited [] = []"
| "path_search adj target visited ((node, path) # queue) =
     (case path_scan target path (succs adj node) visited queue of
        Inl p \<Rightarrow> p
      | Inr (visited', queue') \<Rightarrow> path_search adj target visited' queue')"
  by pat_completeness auto
termination
proof (relation "measure (\<lambda>(adj, target, visited, queue). length queue + card (all_succs adj - set visited))",
    goal_cases)
  case (2 adj target visited node path queue r visited' queue')
  from 2(1) have "path_scan target path (succs adj node) visited queue = Inr (visited', queue')"
    by (simp add: 2(2))
  from path_scan_measure [OF this finite_all_succs succs_subset] show ?case by simp
qed simp

definition shortest_path :: "'n graph \<Rightarrow> 'n \<Rightarrow> 'n \<Rightarrow> 'n list" where
  "shortest_path adj source target =
     (if source = target then [source] else path_search adj target [source] [(source, [source])])"

text \<open>A path of the graph from \<open>s\<close>, as a list of nodes.\<close>

definition walk_from :: "'n graph \<Rightarrow> 'n \<Rightarrow> 'n list \<Rightarrow> bool" where
  "walk_from adj s p \<longleftrightarrow> p \<noteq> [] \<and> hd p = s \<and> successively (\<lambda>x y. (x, y) \<in> edges adj) p"

lemma walk_from_snoc:
  "walk_from adj s p \<Longrightarrow> (List.last p, x) \<in> edges adj \<Longrightarrow> walk_from adj s (p @ [x])"
  by (auto simp: walk_from_def successively_append_iff)

text \<open>
  The state of the search when the paths at the front of the queue have \<open>k\<close> edges. A visited node
  that has left the queue is finished: its successors are visited. Every node within fewer than
  \<open>k\<close> edges is finished, and a queued path is as short as any.
\<close>

definition near :: "'n graph \<Rightarrow> 'n \<Rightarrow> nat \<Rightarrow> 'n set" where
  "near adj s k = {v. \<exists>j < k. (s, v) \<in> edges adj ^^ j}"

definition search_inv ::
  "'n graph \<Rightarrow> 'n \<Rightarrow> 'n \<Rightarrow> 'n set \<Rightarrow> 'n list \<Rightarrow> ('n \<times> 'n list) list \<Rightarrow> nat \<Rightarrow> bool" where
  "search_inv adj s t fin visited queue k \<longleftrightarrow>
     s \<in> set visited \<and> t \<notin> set visited \<and> fin \<subseteq> set visited \<and>
     set visited \<subseteq> fin \<union> fst ` set queue \<and>
     near adj s k \<subseteq> fin \<and> (\<forall>x \<in> fin. set (succs adj x) \<subseteq> set visited) \<and>
     (\<forall>(v, p) \<in> set queue. walk_from adj s p \<and> List.last p = v \<and> v \<in> set visited \<and>
        length p \<in> {Suc k, Suc (Suc k)} \<and> (\<forall>j < length p - 1. (s, v) \<notin> edges adj ^^ j)) \<and>
     sorted (map (\<lambda>(v, p). length p) queue)"

lemma path_scan_Inl:
  "path_scan t p xs visited queue = Inl q \<Longrightarrow> q = p @ [t] \<and> t \<in> set xs"
  by (induction t p xs visited queue rule: path_scan.induct) (auto split: if_splits)

lemma path_scan_Inr:
  "path_scan t p xs visited queue = Inr (visited', queue') \<Longrightarrow>
     t \<notin> set xs \<and> set visited' = set visited \<union> set xs \<and>
     (\<exists>new. queue' = queue @ new \<and> fst ` set new = set xs - set visited \<and>
            (\<forall>(x, q) \<in> set new. q = p @ [x]))"
proof (induction t p xs visited queue rule: path_scan.induct)
  case (2 t p x xs visited queue)
  consider "x = t" | "x \<noteq> t" "x \<in> set visited" | "x \<noteq> t" "x \<notin> set visited" by blast
  then show ?case
  proof cases
    case 2
    with "2.IH"(2) "2.prems" show ?thesis by auto
  next
    case 3
    with "2.IH"(1) "2.prems" obtain new where
      n: "queue' = (queue @ [(x, p @ [x])]) @ new" "fst ` set new = set xs - set (x # visited)"
        "\<forall>(y, q) \<in> set new. q = p @ [y]" "t \<notin> set xs" "set visited' = set (x # visited) \<union> set xs"
      by auto
    then show ?thesis
      using 3 by (intro conjI exI [of _ "(x, p @ [x]) # new"]) auto
  qed (use 2 in auto)
qed simp

lemma near_step:
  assumes "near adj s k \<subseteq> fin" "\<forall>x \<in> fin. set (succs adj x) \<subseteq> V" "s \<in> V" "(s, v) \<in> edges adj ^^ j" "j \<le> k"
  shows "v \<in> V"
proof (cases j)
  case 0
  then show ?thesis using assms by simp
next
  case (Suc m)
  then obtain u where "(s, u) \<in> edges adj ^^ m" "(u, v) \<in> edges adj" using assms(4) by auto
  moreover from this have "u \<in> near adj s k"
    using assms(5) Suc unfolding near_def by (intro CollectI exI [of _ m]) simp
  then have "u \<in> fin" using assms(1) by blast
  ultimately show ?thesis using assms(2) by auto
qed

lemma search_inv_advance:
  assumes inv: "search_inv adj s t fin visited queue k"
    and later: "\<And>v p. (v, p) \<in> set queue \<Longrightarrow> length p \<noteq> Suc k"
  shows "search_inv adj s t fin visited queue (Suc k)"
proof -
  have q: "length p = Suc (Suc k) \<and> (\<forall>j < Suc k. (s, v) \<notin> edges adj ^^ j)" if "(v, p) \<in> set queue" for v p
    using inv later [OF that] that by (auto simp: search_inv_def)
  have "near adj s (Suc k) \<subseteq> fin"
  proof
    fix v assume "v \<in> near adj s (Suc k)"
    then obtain j where j: "(s, v) \<in> edges adj ^^ j" "j \<le> k" by (auto simp: near_def)
    then have "v \<in> set visited" using near_step [of adj s k fin "set visited" v j] inv by (auto simp: search_inv_def)
    moreover have "v \<notin> fst ` set queue" using q j by (force simp: less_Suc_eq_le)
    ultimately show "v \<in> fin" using inv by (auto simp: search_inv_def)
  qed
  with inv q show ?thesis by (auto simp: search_inv_def)
qed

lemma search_inv_scan:
  assumes inv: "search_inv adj s t fin visited ((v, p) # queue) k" and len: "length p = Suc k"
    and scan: "path_scan t p (succs adj v) visited queue = Inr (visited', queue')"
  shows "search_inv adj s t (insert v fin) visited' queue' k"
proof -
  obtain new where n: "t \<notin> set (succs adj v)" "set visited' = set visited \<union> set (succs adj v)"
    "queue' = queue @ new" "fst ` set new = set (succs adj v) - set visited"
    "\<forall>(x, q) \<in> set new. q = p @ [x]"
    using path_scan_Inr [OF scan] by blast
  have vp: "walk_from adj s p" "List.last p = v" "v \<in> set visited" and sv: "s \<in> set visited"
    and fin: "near adj s k \<subseteq> fin" "\<forall>x \<in> fin. set (succs adj x) \<subseteq> set visited"
    using inv by (auto simp: search_inv_def)
  have new: "walk_from adj s q \<and> List.last q = x \<and> x \<in> set visited' \<and> length q = Suc (Suc k) \<and>
      (\<forall>j < length q - 1. (s, x) \<notin> edges adj ^^ j)" if x: "(x, q) \<in> set new" for x q
  proof -
    have q: "q = p @ [x]" using n(5) x by fast
    have "x \<in> fst ` set new" using x by (rule rev_image_eqI) simp
    then have xs: "x \<in> set (succs adj v)" "x \<notin> set visited" by (simp_all add: n(4))
    have "(s, x) \<notin> edges adj ^^ j" if "j \<le> k" for j
    proof
      assume "(s, x) \<in> edges adj ^^ j"
      from near_step [OF fin sv this that] xs(2) show False by blast
    qed
    then show ?thesis using walk_from_snoc [OF vp(1)] vp(2) xs(1) n(2) len by (auto simp: q less_Suc_eq_le)
  qed
  have old: "walk_from adj s q \<and> List.last q = x \<and> x \<in> set visited \<and> length q \<in> {Suc k, Suc (Suc k)} \<and>
      (\<forall>j < length q - 1. (s, x) \<notin> edges adj ^^ j)" if "(x, q) \<in> set queue" for x q
    using inv that by (auto simp: search_inv_def)
  have "sorted (map (\<lambda>(v, p). length p) queue')"
  proof -
    have "sorted (map (\<lambda>(v, p). length p) queue)" using inv by (simp add: search_inv_def)
    moreover have "map (\<lambda>(v, p). length p) new = replicate (length new) (Suc (Suc k))"
      by (rule replicate_eqI) (auto dest: new)
    moreover have "length q \<le> Suc (Suc k)" if "(x, q) \<in> set queue" for x q using old [OF that] by auto
    ultimately show ?thesis by (auto simp: n(3) sorted_append)
  qed
  moreover have "set visited' \<subseteq> insert v fin \<union> fst ` set queue'"
  proof -
    have "set visited \<subseteq> insert v fin \<union> fst ` set queue" using inv by (simp add: search_inv_def)
    then show ?thesis unfolding n(2,3) set_append image_Un n(4) by blast
  qed
  moreover have "walk_from adj s q \<and> List.last q = x \<and> x \<in> set visited' \<and>
      length q \<in> {Suc k, Suc (Suc k)} \<and> (\<forall>j < length q - 1. (s, x) \<notin> edges adj ^^ j)"
    if "(x, q) \<in> set queue'" for x q
  proof (cases "(x, q) \<in> set queue")
    case True
    from old [OF True] show ?thesis by (simp add: n(2))
  next
    case False
    with that have "(x, q) \<in> set new" by (simp add: n(3))
    from new [OF this] show ?thesis by simp
  qed
  moreover have "t \<notin> set visited'" "fin \<subseteq> set visited" using inv n(1,2) by (auto simp: search_inv_def)
  ultimately show ?thesis
    unfolding search_inv_def using sv vp(3) fin n(2) by blast
qed

lemma path_search_correct:
  assumes "search_inv adj s t fin visited queue k"
  shows "case path_search adj t visited queue of
           [] \<Rightarrow> (s, t) \<notin> (edges adj)\<^sup>*
         | x # xs \<Rightarrow> walk_from adj s (x # xs) \<and> List.last (x # xs) = t \<and>
                    (\<forall>j < length xs. (s, t) \<notin> edges adj ^^ j)"
  using assms
proof (induction adj t visited queue arbitrary: fin k rule: path_search.induct)
  case (1 adj t visited)
  have "(s, y) \<in> (edges adj)\<^sup>* \<Longrightarrow> y \<in> set visited" for y
    by (induction rule: rtrancl_induct) (use 1 in \<open>auto simp: search_inv_def\<close>)
  with 1 show ?case by (auto simp: search_inv_def)
next
  case (2 adj t visited v p queue)
  obtain m where inv: "search_inv adj s t fin visited ((v, p) # queue) m" and len: "length p = Suc m"
  proof (cases "length p = Suc k")
    case True
    with "2.prems" that show thesis by blast
  next
    case False
    then have lp: "length p = Suc (Suc k)" using "2.prems" by (auto simp: search_inv_def)
    have "length q \<noteq> Suc k" if "(u, q) \<in> set ((v, p) # queue)" for u q
      using "2.prems" lp that by (auto simp: search_inv_def)
    then have "search_inv adj s t fin visited ((v, p) # queue) (Suc k)"
      by (rule search_inv_advance [OF "2.prems"])
    with lp that show thesis by blast
  qed
  show ?case
  proof (cases "path_scan t p (succs adj v) visited queue")
    case (Inl q)
    then have q: "q = p @ [t]" "t \<in> set (succs adj v)" using path_scan_Inl [OF Inl] by auto
    have vp: "walk_from adj s p" "List.last p = v" and near: "near adj s m \<subseteq> fin"
        "\<forall>x \<in> fin. set (succs adj x) \<subseteq> set visited" "s \<in> set visited" and t: "t \<notin> set visited"
      using inv by (auto simp: search_inv_def)
    have "(s, t) \<notin> edges adj ^^ j" if "j \<le> m" for j
    proof
      assume "(s, t) \<in> edges adj ^^ j"
      from near_step [OF near this that] t show False by blast
    qed
    moreover have "walk_from adj s q" using walk_from_snoc [OF vp(1)] vp(2) q by simp
    moreover have "path_search adj t visited ((v, p) # queue) = q" using Inl by simp
    ultimately show ?thesis using len by (cases q) (auto simp: q(1) less_Suc_eq_le append_eq_Cons_conv)
  next
    case (Inr r)
    obtain visited' queue' where r: "r = (visited', queue')" by fastforce
    from "2.IH" [OF Inr r [symmetric] search_inv_scan [OF inv len Inr [unfolded r]]] Inr r
    show ?thesis by simp
  qed
qed

text \<open>
  C17: \<open>shortest_path\<close> returns the empty list exactly when the target cannot be reached, and
  otherwise a path of the graph from source to target such that no path has fewer edges.
\<close>

theorem shortest_path_exact:
  "case shortest_path adj s t of
     [] \<Rightarrow> (s, t) \<notin> (edges adj)\<^sup>*
   | x # xs \<Rightarrow> walk_from adj s (x # xs) \<and> List.last (x # xs) = t \<and>
              list_all (\<lambda>j. (s, t) \<notin> edges adj ^^ j) [0..<length xs]"
proof (cases "s = t")
  case True
  then show ?thesis by (simp add: shortest_path_def walk_from_def)
next
  case False
  then have "search_inv adj s t {} [s] [(s, [s])] 0"
    by (auto simp: search_inv_def near_def walk_from_def)
  from path_search_correct [OF this] False show ?thesis
    by (auto simp: shortest_path_def list_all_iff split: list.splits)
qed

subsection \<open>Connected components\<close>

fun bfs_push :: "'n list \<Rightarrow> 'n list \<Rightarrow> 'n list \<Rightarrow> 'n list \<times> 'n list" where
  "bfs_push [] visited queue = (visited, queue)"
| "bfs_push (x # xs) visited queue =
     (if x \<notin> set visited then bfs_push xs (x # visited) (queue @ [x]) else bfs_push xs visited queue)"

lemma bfs_push_spec:
  "bfs_push xs visited queue = (visited', queue') \<Longrightarrow>
     set visited' = set visited \<union> set xs \<and> (\<exists>new. queue' = queue @ new \<and> set new = set xs - set visited)"
proof (induction xs arbitrary: visited queue)
  case (Cons x xs)
  show ?case
  proof (cases "x \<in> set visited")
    case True
    with Cons show ?thesis by auto
  next
    case False
    with Cons.IH [of "x # visited" "queue @ [x]"] Cons.prems obtain new where
      "queue' = queue @ x # new" "set new = set xs - set (x # visited)"
      "set visited' = set (x # visited) \<union> set xs" by auto
    with False show ?thesis by (intro conjI exI [of _ "x # new"]) auto
  qed
qed simp

lemma bfs_push_measure:
  "bfs_push xs visited queue = (visited', queue') \<Longrightarrow> finite A \<Longrightarrow> set xs \<subseteq> A \<Longrightarrow>
     length queue' + card (A - set visited') = length queue + card (A - set visited)"
proof (induction xs arbitrary: visited queue)
  case (Cons x xs)
  have "Suc (card (A - set (x # visited))) = card (A - set visited)" if "x \<notin> set visited"
  proof -
    have "A - set visited = insert x (A - set (x # visited))" using that Cons.prems(3) by auto
    moreover have "card (insert x (A - set (x # visited))) = Suc (card (A - set (x # visited)))"
      using Cons.prems(2) by (intro card_insert_disjoint) auto
    ultimately show ?thesis by (simp only:)
  qed
  with Cons.IH [of "x # visited" "queue @ [x]"] Cons.IH [of visited queue] Cons.prems show ?case
    by (auto split: if_splits)
qed simp

function comp_search :: "'n graph \<Rightarrow> 'n list \<Rightarrow> 'n set \<Rightarrow> 'n list \<Rightarrow> 'n list \<times> 'n set" where
  "comp_search adj visited found [] = (visited, found)"
| "comp_search adj visited found (n # queue) =
     (case bfs_push (succs adj n) visited queue of
        (visited', queue') \<Rightarrow> comp_search adj visited' (insert n found) queue')"
  by pat_completeness auto
termination
proof (relation "measure (\<lambda>(adj, visited, found, queue). length queue + card (all_succs adj - set visited))",
    goal_cases)
  case (2 adj visited found n queue visited' queue')
  from bfs_push_measure [OF 2 [symmetric] finite_all_succs succs_subset] show ?case by simp
qed simp

fun component_loop :: "'n graph \<Rightarrow> 'n list \<Rightarrow> 'n list \<Rightarrow> 'n set list" where
  "component_loop adj [] visited = []"
| "component_loop adj (s # nodes) visited =
     (if s \<in> set visited then component_loop adj nodes visited
      else case comp_search adj (s # visited) {} [s] of
             (visited', found) \<Rightarrow> found # component_loop adj nodes visited')"

definition connected_components :: "'n graph \<Rightarrow> 'n list \<Rightarrow> 'n set list" where
  "connected_components adj nodes = component_loop adj nodes []"

lemma comp_search_spec:
  assumes "comp_search adj visited found queue = (visited', found')"
    and "set visited = V \<union> found \<union> set queue" "(found \<union> set queue) \<inter> V = {}"
    and "\<And>x. x \<in> found \<union> set queue \<Longrightarrow> (s, x) \<in> (edges adj)\<^sup>*"
    and "\<And>x. x \<in> found \<Longrightarrow> set (succs adj x) \<subseteq> set visited"
  shows "set visited' = V \<union> found' \<and> found' \<inter> V = {} \<and> found \<union> set queue \<subseteq> found' \<and>
         (\<forall>x \<in> found'. (s, x) \<in> (edges adj)\<^sup>* \<and> set (succs adj x) \<subseteq> V \<union> found')"
  using assms
proof (induction adj visited found queue rule: comp_search.induct)
  case (1 adj visited found)
  then show ?case by auto
next
  case (2 adj visited found n queue)
  obtain v q where vq: "bfs_push (succs adj n) visited queue = (v, q)" by fastforce
  obtain new where new: "set v = set visited \<union> set (succs adj n)" "q = queue @ new"
      "set new = set (succs adj n) - set visited"
    using bfs_push_spec [OF vq] by auto
  have n: "(s, n) \<in> (edges adj)\<^sup>*" using "2.prems"(4) by simp
  then have "(s, y) \<in> (edges adj)\<^sup>*" if "y \<in> set (succs adj n)" for y
    using that by (meson edges_iff rtrancl.rtrancl_into_rtrancl)
  then have "(s, x) \<in> (edges adj)\<^sup>*" if "x \<in> insert n found \<union> set q" for x
    using that "2.prems"(4) [of x] new by auto
  moreover have "set (succs adj x) \<subseteq> set v" if "x \<in> insert n found" for x
    using that "2.prems"(5) [of x] new(1) by auto
  moreover have "set v = V \<union> insert n found \<union> set q" "(insert n found \<union> set q) \<inter> V = {}"
    using "2.prems"(2,3) new by auto
  moreover have "comp_search adj v (insert n found) q = (visited', found')"
    using "2.prems"(1) vq by simp
  ultimately show ?case using "2.IH" [OF vq [symmetric]] new(2) by auto
qed

lemma comp_search_start:
  assumes "comp_search adj (s # visited) {} [s] = (visited', found)" "s \<notin> set visited"
  shows "set visited' = set visited \<union> found" "found \<inter> set visited = {}" "s \<in> found"
    and "\<And>x. x \<in> found \<Longrightarrow> (s, x) \<in> (edges adj)\<^sup>*"
    and "\<And>x. x \<in> found \<Longrightarrow> set (succs adj x) \<subseteq> set visited \<union> found"
  using comp_search_spec [OF assms(1), of "set visited" s] assms(2) by auto

lemma component_loop_partition:
  "(\<forall>C \<in> set (component_loop adj nodes visited). C \<noteq> {} \<and> C \<inter> set visited = {}) \<and>
   set nodes \<subseteq> set visited \<union> \<Union> (set (component_loop adj nodes visited)) \<and>
   sorted_wrt (\<lambda>C D. C \<inter> D = {}) (component_loop adj nodes visited)"
proof (induction adj nodes visited rule: component_loop.induct)
  case (2 adj s nodes visited)
  show ?case
  proof (cases "s \<in> set visited")
    case True
    with "2.IH"(1) show ?thesis by auto
  next
    case False
    obtain v c where vc: "comp_search adj (s # visited) {} [s] = (v, c)" by fastforce
    note cs = comp_search_start [OF vc False]
    show ?thesis
      using "2.IH"(2) [OF False vc [symmetric]] False vc cs(1-3) by auto
  qed
qed simp

lemma component_loop_symmetric:
  assumes "sym (edges adj)" "\<And>x y. x \<in> set visited \<Longrightarrow> (x, y) \<in> edges adj \<Longrightarrow> y \<in> set visited"
    and "C \<in> set (component_loop adj nodes visited)" "x \<in> C"
  shows "C = {y. (x, y) \<in> (edges adj)\<^sup>*}"
  using assms
proof (induction adj nodes visited rule: component_loop.induct)
  case (2 adj s nodes visited)
  show ?case
  proof (cases "s \<in> set visited")
    case True
    with "2.IH"(1) "2.prems" show ?thesis by auto
  next
    case False
    obtain v c where vc: "comp_search adj (s # visited) {} [s] = (v, c)" by fastforce
    note cs = comp_search_start [OF vc False]
    have opp: "(y, z) \<in> edges adj \<Longrightarrow> (z, y) \<in> edges adj" for y z
      using "2.prems"(1) unfolding sym_def by blast
    have closed: "z \<in> c" if yz: "y \<in> c" "(y, z) \<in> edges adj" for y z
    proof (rule ccontr)
      assume "z \<notin> c"
      then have "z \<in> set visited" using cs(5) [OF yz(1)] yz(2) by auto
      from "2.prems"(2) [OF this opp [OF yz(2)]] cs(2) yz(1) show False by blast
    qed
    have reach: "(y, z) \<in> (edges adj)\<^sup>* \<Longrightarrow> y \<in> c \<Longrightarrow> z \<in> c" for y z
      by (induction rule: rtrancl_induct) (auto intro: closed simp del: edges_iff)
    have rs: "sym ((edges adj)\<^sup>*)" by (rule sym_rtrancl [OF "2.prems"(1)])
    have cls: "c = {z. (y, z) \<in> (edges adj)\<^sup>*}" if "y \<in> c" for y
    proof
      have "(y, s) \<in> (edges adj)\<^sup>*" using symD [OF rs cs(4) [OF that]] .
      then show "c \<subseteq> {z. (y, z) \<in> (edges adj)\<^sup>*}" using cs(4) by (blast intro: rtrancl_trans)
      show "{z. (y, z) \<in> (edges adj)\<^sup>*} \<subseteq> c" using reach that by blast
    qed
    have "\<And>x y. x \<in> set v \<Longrightarrow> (x, y) \<in> edges adj \<Longrightarrow> y \<in> set v"
      using cs(1) closed "2.prems"(2) by blast
    with "2.IH"(2) [OF False vc [symmetric]] "2.prems"(1,3,4) False vc cls show ?thesis by auto
  qed
qed simp

text \<open>
  The components returned are nonempty, pairwise disjoint and cover all nodes, whatever the
  order of the iteration. If every edge is stored in both directions they are the connected
  components: a component holds exactly the nodes connected with any of its nodes.
\<close>

theorem connected_components_partition:
  assumes "set nodes = graph_nodes adj"
  shows "list_all (\<lambda>C. C \<noteq> {}) (connected_components adj nodes) \<and>
         sorted_wrt (\<lambda>C D. C \<inter> D = {}) (connected_components adj nodes) \<and>
         graph_nodes adj \<subseteq> \<Union> (set (connected_components adj nodes)) \<and>
         (if sym (edges adj) then
            list_all (\<lambda>C. if x \<in> C then C = {y. (x, y) \<in> (edges adj)\<^sup>*} else True)
              (connected_components adj nodes)
          else True)"
  using component_loop_partition [of adj nodes "[]"] component_loop_symmetric [of adj "[]" _ nodes x] assms
  by (auto simp: connected_components_def list_all_iff)

lemma connected_components_partition_witness:
  "\<Union> (set (connected_components [(1, [2]), (2, [1]), (3, [])] [1::nat, 2, 3])) \<supseteq> {1, 2, 3}"
  using connected_components_partition [of "[1::nat, 2, 3]" "[(1, [2]), (2, [1]), (3, [])]" 1]
  by (simp add: graph_nodes_def insert_commute)

text \<open>
  With edges stored in one direction only the result depends on the order in which Python
  iterates over a set: the nodes of the graph with the edge from 1 to 2 are one component in one
  order, and two in the other.
\<close>

theorem connected_components_directed:
  "connected_components [(1::nat, [2])] [1, 2] = [{1, 2}] \<and>
   connected_components [(1::nat, [2])] [2, 1] = [{2}, {1}] \<and>
   (1, 2) \<in> edges [(1::nat, [2])]"
  by (auto simp: connected_components_def succs_def dict_get_def)

subsection \<open>PageRank\<close>

definition spread :: "rat \<Rightarrow> 'n list \<Rightarrow> ('n \<times> rat) list \<Rightarrow> ('n \<times> rat) list" where
  "spread amount xs d = fold (\<lambda>x d. AList.update x (dict_get d x 0 + amount) d) xs d"

definition pagerank_step :: "'n graph \<Rightarrow> rat \<Rightarrow> 'n list \<Rightarrow> ('n \<times> rat) list \<Rightarrow> ('n \<times> rat) list" where
  "pagerank_step adj damping nodes rank =
     fold (\<lambda>(node, xs) new. if xs = [] then new
                            else spread (damping * (dict_get rank node 0 / of_nat (length xs))) xs new)
       adj (map (\<lambda>x. (x, (1 - damping) / of_nat (length nodes))) nodes)"

definition pagerank :: "'n graph \<Rightarrow> 'n list \<Rightarrow> rat \<Rightarrow> nat \<Rightarrow> ('n \<times> rat) list" where
  "pagerank adj nodes damping iterations =
     (if nodes = [] then []
      else (pagerank_step adj damping nodes ^^ iterations)
             (map (\<lambda>x. (x, 1 / of_nat (length nodes))) nodes))"

definition score_sum :: "('n \<times> rat) list \<Rightarrow> rat" where
  "score_sum d = sum_list (map snd d)"

lemma total_update: "score_sum (AList.update x (dict_get d x 0 + a) d) = score_sum d + a"
  by (induction d) (auto simp: score_sum_def dict_get_def)

lemma total_spread: "score_sum (spread a xs d) = score_sum d + of_nat (length xs) * a"
  by (induction xs arbitrary: d) (simp_all add: spread_def total_update, simp_all add: algebra_simps)

lemma keys_spread: "set xs \<subseteq> set (map fst d) \<Longrightarrow> map fst (spread a xs d) = map fst d"
proof (induction xs arbitrary: d)
  case (Cons x xs)
  have "map fst (AList.update x (dict_get d x 0 + a) d) = map fst d"
    using Cons.prems by (simp add: dict_keys_update)
  with Cons.IH [of "AList.update x (dict_get d x 0 + a) d"] Cons.prems show ?case
    by (simp add: spread_def dict_dom_update subset_iff)
qed (simp add: spread_def)

lemma pagerank_fold_total:
  assumes "\<And>node xs. (node, xs) \<in> set as \<Longrightarrow> xs \<noteq> []"
  shows "score_sum (fold (\<lambda>(node, xs) new. if xs = [] then new
           else spread (damping * (dict_get rank node 0 / of_nat (length xs))) xs new) as d) =
         score_sum d + damping * sum_list (map (\<lambda>p. dict_get rank (fst p) 0) as)"
  using assms
proof (induction as arbitrary: d)
  case (Cons p as)
  obtain node xs where p: "p = (node, xs)" by (cases p)
  have "xs \<noteq> []" by (rule Cons.prems [of node]) (simp add: p)
  moreover from this have "of_nat (length xs) \<noteq> (0 :: rat)" by simp
  moreover have pr: "ys \<noteq> []" if "(m, ys) \<in> set as" for m ys
    by (rule Cons.prems [of m]) (simp add: that)
  moreover have "\<And>d. score_sum (fold (\<lambda>(node, xs) new. if xs = [] then new
           else spread (damping * (dict_get rank node 0 / of_nat (length xs))) xs new) as d) =
         score_sum d + damping * sum_list (map (\<lambda>p. dict_get rank (fst p) 0) as)"
    by (rule Cons.IH [OF pr])
  ultimately show ?case by (simp add: p total_spread field_simps)
qed simp

lemma pagerank_fold_keys:
  assumes "\<And>node xs. (node, xs) \<in> set as \<Longrightarrow> set xs \<subseteq> set (map fst d)"
  shows "map fst (fold (\<lambda>(node, xs) new. if xs = [] then new
           else spread (damping * (dict_get rank node 0 / of_nat (length xs))) xs new) as d) = map fst d"
  using assms
proof (induction as arbitrary: d)
  case (Cons p as)
  obtain node xs where p: "p = (node, xs)" by (cases p)
  have "set xs \<subseteq> set (map fst d)" by (rule Cons.prems [of node]) (simp add: p)
  then have k: "map fst (spread a xs d) = map fst d" for a by (rule keys_spread)
  let ?d = "if xs = [] then d else spread (damping * (dict_get rank node 0 / of_nat (length xs))) xs d"
  have e: "map fst ?d = map fst d" by (simp add: k)
  have "set ys \<subseteq> set (map fst ?d)" if "(m, ys) \<in> set as" for m ys
    unfolding e by (rule Cons.prems [of m]) (simp add: that)
  from Cons.IH [OF this] show ?case unfolding e by (simp add: p)
qed simp

lemma total_keys: "distinct (map fst d) \<Longrightarrow> score_sum d = (\<Sum>x \<in> set (map fst d). dict_get d x 0)"
proof (induction d)
  case (Cons p d)
  have "(\<Sum>x \<in> fst ` set d. dict_get (p # d) x 0) = (\<Sum>x \<in> fst ` set d. dict_get d x 0)"
    using Cons.prems by (intro sum.cong) (auto simp: dict_get_def rev_image_eqI)
  with Cons show ?case by (simp add: score_sum_def) (simp add: dict_get_def)
qed (simp add: score_sum_def)

text \<open>
  If every node has a successor, the scores of PageRank add up to one after any number of
  iterations.
\<close>

theorem pagerank_total:
  assumes "distinct nodes" "set nodes = graph_nodes adj" "nodes \<noteq> []" "wf_dict adj"
    and "list_all (\<lambda>x. succs adj x \<noteq> []) nodes"
  shows "map fst (pagerank adj nodes damping iterations) = nodes \<and>
         score_sum (pagerank adj nodes damping iterations) = 1"
proof -
  let ?r0 = "map (\<lambda>x. (x, 1 / of_nat (length nodes))) nodes :: (_ \<times> rat) list"
  have n: "of_nat (length nodes) \<noteq> (0 :: rat)" using assms(3) by simp
  have c: "score_sum (map (\<lambda>x. (x, c / of_nat (length nodes))) nodes) = c" for c
    using n by (simp add: score_sum_def comp_def sum_list_triv)
  have ne: "xs \<noteq> []" if "(node, xs) \<in> set adj" for node xs
  proof -
    have "node \<in> set nodes" using that assms(2) by (force simp: graph_nodes_def)
    moreover have "succs adj node = xs"
      using that assms(4) by (simp add: succs_def dict_get_def wf_dict_get)
    ultimately show ?thesis using assms(5) by (auto simp: list_all_iff)
  qed
  have keys: "set (map fst adj) = set nodes"
  proof
    show "set (map fst adj) \<subseteq> set nodes" using assms(2) by (auto simp: graph_nodes_def)
    show "set nodes \<subseteq> set (map fst adj)"
      using assms(5) map_of_eq_None_iff [of adj]
      by (fastforce simp: list_all_iff succs_def dict_get_def split: option.splits)
  qed
  have step: "map fst (pagerank_step adj damping nodes r) = nodes \<and> score_sum (pagerank_step adj damping nodes r) = 1"
    if r: "map fst r = nodes" "score_sum r = 1" for r
  proof
    have sub: "set xs \<subseteq> set nodes" if "(node, xs) \<in> set adj" for node xs
      using that assms(2) by (fastforce simp: graph_nodes_def)
    show "map fst (pagerank_step adj damping nodes r) = nodes"
      using sub by (simp add: pagerank_step_def) (subst pagerank_fold_keys, auto simp: comp_def)
    have "sum_list (map (\<lambda>p. dict_get r (fst p) 0) adj) = (\<Sum>x \<in> set (map fst adj). dict_get r x 0)"
      using assms(4) sum_list_distinct_conv_sum_set [of "map fst adj" "\<lambda>x. dict_get r x 0"]
      by (simp add: wf_dict_def comp_def)
    also have "\<dots> = score_sum r" using total_keys [of r] r assms(1) keys by simp
    finally show "score_sum (pagerank_step adj damping nodes r) = 1"
      by (simp add: pagerank_step_def pagerank_fold_total [OF ne] c r)
  qed
  have "map fst ((pagerank_step adj damping nodes ^^ k) ?r0) = nodes \<and>
      score_sum ((pagerank_step adj damping nodes ^^ k) ?r0) = 1" for k
    by (induction k) (use step c [of 1] in \<open>simp_all add: comp_def\<close>)
  then show ?thesis using assms(3) by (simp add: pagerank_def)
qed

lemma pagerank_total_witness:
  "score_sum (pagerank [(1, [2]), (2, [1, 1])] [1::nat, 2] (85 / 100) 20) = 1"
  using pagerank_total [of "[1::nat, 2]" "[(1, [2]), (2, [1, 1])]"]
  by (simp add: graph_nodes_def wf_dict_def succs_def dict_get_def insert_commute)

end
