(* ===== verification/Resilience.thy ===== *)
theory Resilience
  imports Complex_Main PyText
begin

text \<open>
  Failure handling of the orchestrator: the circuit breaker and the self-healing context of a
  session (harness/orchestrator/self_healing.py), and the three scopes of resilience over
  routing, cooldown per connection and lockout per triple (harness/orchestrator/
  resilience_governance.py). Times in seconds are rationals and clock readings are arguments.
  Doubling a float is exact, so the backoff is too; what is kept of floats is that converting
  an integer from \<open>2 ^ 1024\<close> on raises OverflowError.
\<close>

subsection \<open>Circuit breaker\<close>

datatype cb_state = Shut | Opened | HalfOpen

record healing_breaker =
  hb_threshold :: int
  hb_recovery :: rat
  hb_failures :: int
  hb_state :: cb_state
  hb_last :: rat

definition healing_breaker_new :: healing_breaker where
  "healing_breaker_new = \<lparr>hb_threshold = 3, hb_recovery = 30, hb_failures = 0, hb_state = Shut, hb_last = 0\<rparr>"

definition hb_record_failure :: "healing_breaker \<Rightarrow> rat \<Rightarrow> healing_breaker" where
  "hb_record_failure b now =
     (let b1 = b\<lparr>hb_failures := hb_failures b + 1, hb_last := now\<rparr>
      in if hb_failures b1 \<ge> hb_threshold b1 then b1\<lparr>hb_state := Opened\<rparr> else b1)"

definition hb_record_success :: "healing_breaker \<Rightarrow> healing_breaker" where
  "hb_record_success b =
     (let b1 = b\<lparr>hb_failures := 0\<rparr>
      in case hb_state b of
           HalfOpen \<Rightarrow> b1\<lparr>hb_state := Shut\<rparr>
         | Opened \<Rightarrow> b1\<lparr>hb_state := HalfOpen\<rparr>
         | Shut \<Rightarrow> b1)"

definition hb_is_available :: "healing_breaker \<Rightarrow> rat \<Rightarrow> healing_breaker \<times> bool" where
  "hb_is_available b now =
     (case hb_state b of
        Shut \<Rightarrow> (b, True)
      | Opened \<Rightarrow> if now - hb_last b \<ge> hb_recovery b then (b\<lparr>hb_state := HalfOpen\<rparr>, True) else (b, False)
      | HalfOpen \<Rightarrow> (b, True))"

datatype hb_op = AskHB rat | FailHB rat | SucceedHB

fun hb_run :: "healing_breaker \<Rightarrow> hb_op list \<Rightarrow> healing_breaker \<times> bool list" where
  "hb_run b [] = (b, [])"
| "hb_run b (AskHB now # ops) =
     (let (b1, ok) = hb_is_available b now; (b2, oks) = hb_run b1 ops in (b2, ok # oks))"
| "hb_run b (FailHB now # ops) = hb_run (hb_record_failure b now) ops"
| "hb_run b (SucceedHB # ops) = hb_run (hb_record_success b) ops"

definition hb_ok :: "healing_breaker \<Rightarrow> bool" where
  "hb_ok b \<longleftrightarrow> 0 \<le> hb_failures b \<and>
     (hb_state b = Shut \<longrightarrow> hb_failures b < hb_threshold b) \<and>
     (hb_state b = Opened \<longrightarrow> hb_threshold b \<le> hb_failures b)"

lemma hb_ok_steps:
  assumes "hb_ok b" and "1 \<le> hb_threshold b"
  shows "hb_ok (hb_record_failure b now)" and "hb_ok (hb_record_success b)"
    and "hb_ok (fst (hb_is_available b now))"
  using assms
  by (auto simp: hb_ok_def hb_record_failure_def hb_record_success_def hb_is_available_def Let_def
      split: cb_state.split)

lemma hb_threshold_steps [simp]:
  "hb_threshold (hb_record_failure b now) = hb_threshold b"
  "hb_threshold (hb_record_success b) = hb_threshold b"
  "hb_threshold (fst (hb_is_available b now)) = hb_threshold b"
  "hb_recovery (hb_record_failure b now) = hb_recovery b"
  "hb_recovery (hb_record_success b) = hb_recovery b"
  "hb_recovery (fst (hb_is_available b now)) = hb_recovery b"
  by (auto simp: hb_record_failure_def hb_record_success_def hb_is_available_def Let_def
      split: cb_state.split)

lemma hb_run_ok:
  "hb_ok b \<Longrightarrow> 1 \<le> hb_threshold b \<Longrightarrow> hb_ok (fst (hb_run b ops))"
proof (induction ops arbitrary: b)
  case (Cons op ops)
  then show ?case
    by (cases op) (simp_all add: hb_ok_steps Let_def split_beta)
qed simp

text \<open>
  While the recovery time since the last failure has not passed, an open breaker refuses; once
  it has, the breaker is half-open and lets every caller through until a result is recorded,
  where the class documents a single attempt.
\<close>

lemma hb_half_open_asks: "hb_state b = HalfOpen \<Longrightarrow> hb_run b (map AskHB ts) = (b, map (\<lambda>_. True) ts)"
  by (induction ts) (simp_all add: hb_is_available_def Let_def)

lemma hb_opened_asks:
  assumes "hb_state b = Opened"
  shows "snd (hb_run b (map AskHB ts)) =
           map (\<lambda>_. False) (takeWhile (\<lambda>t. t - hb_last b < hb_recovery b) ts) @
           map (\<lambda>_. True) (dropWhile (\<lambda>t. t - hb_last b < hb_recovery b) ts)"
  using assms
proof (induction ts)
  case (Cons t ts)
  show ?case
  proof (cases "t - hb_last b < hb_recovery b")
    case True
    with Cons show ?thesis by (simp add: hb_is_available_def Let_def split_beta)
  next
    case False
    let ?b = "b\<lparr>hb_state := HalfOpen\<rparr>"
    have "hb_run ?b (map AskHB ts) = (?b, map (\<lambda>_. True) ts)" by (rule hb_half_open_asks) simp
    with False Cons.prems show ?thesis by (simp add: hb_is_available_def not_less Let_def)
  qed
qed simp

theorem breaker_half_open_unlimited:
  assumes "hb_ok b" and "1 \<le> hb_threshold b" and "hb_state (fst (hb_run b ops)) = Opened"
  shows "let b1 = fst (hb_run b ops)
         in hb_threshold b1 \<le> hb_failures b1 \<and>
            snd (hb_run b1 (map AskHB ts)) =
              map (\<lambda>_. False) (takeWhile (\<lambda>t. t - hb_last b1 < hb_recovery b1) ts) @
              map (\<lambda>_. True) (dropWhile (\<lambda>t. t - hb_last b1 < hb_recovery b1) ts)"
  using hb_run_ok [OF assms(1,2), of ops] hb_opened_asks [OF assms(3), of ts] assms(3)
  by (simp add: Let_def) (simp add: hb_ok_def)

theorem breaker_half_open_unlimited_witness:
  "let b1 = fst (hb_run healing_breaker_new [FailHB 1, FailHB 2, FailHB 3])
   in hb_threshold b1 \<le> hb_failures b1 \<and>
      snd (hb_run b1 (map AskHB [10, 33, 33, 34])) =
        map (\<lambda>_. False) (takeWhile (\<lambda>t. t - hb_last b1 < hb_recovery b1) [10, 33, 33, 34]) @
        map (\<lambda>_. True) (dropWhile (\<lambda>t. t - hb_last b1 < hb_recovery b1) [10, 33, 33, 34])"
  by (rule breaker_half_open_unlimited)
    (simp_all add: hb_ok_def healing_breaker_new_def hb_record_failure_def)

subsection \<open>Self-healing context\<close>

datatype healing_issue =
    LevelTimeout int rat rat
  | StallDetected rat rat int int

record healing_context =
  hc_session :: string
  hc_level_start :: rat
  hc_last_progress :: rat
  hc_level :: int
  hc_level_timeout :: rat
  hc_stall_timeout :: rat
  hc_breakers :: "(string \<times> healing_breaker) list"
  hc_warnings :: int
  hc_max_warnings :: int

definition healing_new :: "string \<Rightarrow> rat \<Rightarrow> rat \<Rightarrow> healing_context" where
  "healing_new sid t1 t2 =
     \<lparr>hc_session = sid, hc_level_start = t1, hc_last_progress = t2, hc_level = 0,
      hc_level_timeout = 300, hc_stall_timeout = 120, hc_breakers = [], hc_warnings = 0,
      hc_max_warnings = 3\<rparr>"

text \<open>The breaker of an agent, created on first use; the caller works on the stored object.\<close>

definition hc_breaker :: "healing_context \<Rightarrow> string \<Rightarrow> healing_context \<times> healing_breaker" where
  "hc_breaker c agent =
     (case map_of (hc_breakers c) agent of
        Some b \<Rightarrow> (c, b)
      | None \<Rightarrow> (c\<lparr>hc_breakers := AList.update agent healing_breaker_new (hc_breakers c)\<rparr>,
                healing_breaker_new))"

definition record_progress :: "healing_context \<Rightarrow> rat \<Rightarrow> healing_context" where
  "record_progress c now = c\<lparr>hc_last_progress := now\<rparr>"

definition advance_level :: "healing_context \<Rightarrow> int \<Rightarrow> rat \<Rightarrow> rat \<Rightarrow> healing_context" where
  "advance_level c level t1 t2 =
     record_progress (c\<lparr>hc_level := level, hc_level_start := t1\<rparr>) t2"

definition check_timeout :: "healing_context \<Rightarrow> rat \<Rightarrow> healing_issue option" where
  "check_timeout c now =
     (let elapsed = now - hc_level_start c
      in if elapsed > hc_level_timeout c
         then Some (LevelTimeout (hc_level c) (hc_level_timeout c) elapsed) else None)"

definition check_stalled :: "healing_context \<Rightarrow> rat \<Rightarrow> healing_context \<times> healing_issue option" where
  "check_stalled c now =
     (let elapsed = now - hc_last_progress c
      in if elapsed > hc_stall_timeout c
         then (let c1 = c\<lparr>hc_warnings := hc_warnings c + 1\<rparr>
               in (c1, Some (StallDetected elapsed (hc_stall_timeout c) (hc_warnings c1) (hc_max_warnings c))))
         else (c, None))"

definition is_critical :: "healing_context \<Rightarrow> bool" where
  "is_critical c \<longleftrightarrow> hc_warnings c \<ge> hc_max_warnings c"

datatype healing_op = ProgressHC rat | AdvanceHC int rat rat | StallHC rat

fun healing_run :: "healing_context \<Rightarrow> healing_op list \<Rightarrow> healing_context \<times> healing_issue list" where
  "healing_run c [] = (c, [])"
| "healing_run c (ProgressHC now # ops) = healing_run (record_progress c now) ops"
| "healing_run c (AdvanceHC l t1 t2 # ops) = healing_run (advance_level c l t1 t2) ops"
| "healing_run c (StallHC now # ops) =
     (let (c1, r) = check_stalled c now; (c2, issues) = healing_run c1 ops
      in (c2, (case r of None \<Rightarrow> issues | Some i \<Rightarrow> i # issues)))"

lemma healing_run_warnings:
  "hc_warnings (fst (healing_run c ops)) = hc_warnings c + int (length (snd (healing_run c ops))) \<and>
   hc_max_warnings (fst (healing_run c ops)) = hc_max_warnings c"
  by (induction c ops rule: healing_run.induct)
    (auto simp: record_progress_def advance_level_def check_stalled_def Let_def split_beta
      split: option.split)

text \<open>
  A session is critical exactly when the stalls reported so far reach the limit: progress and
  new levels never take a warning back.
\<close>

theorem healing_critical_exact:
  "is_critical (fst (healing_run (healing_new sid t1 t2) ops)) =
     (3 \<le> length (snd (healing_run (healing_new sid t1 t2) ops)))"
  using healing_run_warnings [of "healing_new sid t1 t2" ops]
  by (auto simp: is_critical_def healing_new_def)


subsection \<open>Cooldown per connection\<close>

record cooldowns =
  cc_base :: rat
  cc_max :: rat
  cc_counts :: "(string \<times> nat) list"
  cc_cooldowns :: "(string \<times> rat) list"
  cc_last :: "(string \<times> rat) list"

datatype resilience_error =
  BadBase rat | MaxBelowBase rat rat | BadThreshold int | OverflowError

definition cooldowns_new :: "rat \<Rightarrow> rat \<Rightarrow> resilience_error + cooldowns" where
  "cooldowns_new base mx =
     (if base \<le> 0 then Inl (BadBase base)
      else if mx < base then Inl (MaxBelowBase mx base)
      else Inr \<lparr>cc_base = base, cc_max = mx, cc_counts = [], cc_cooldowns = [], cc_last = []\<rparr>)"

text \<open>\<open>2 ** (count - 1)\<close> is an integer that the product converts to a float.\<close>

definition cc_record_failure ::
  "cooldowns \<Rightarrow> string \<Rightarrow> rat \<Rightarrow> cooldowns \<times> (resilience_error + unit)" where
  "cc_record_failure c conn now =
     (let count = dict_get (cc_counts c) conn 0 + 1;
          c1 = c\<lparr>cc_counts := AList.update conn count (cc_counts c)\<rparr>
      in if 1024 \<le> count - 1 then (c1, Inl OverflowError)
         else (c1\<lparr>cc_cooldowns := AList.update conn (min (cc_base c * 2 ^ (count - 1)) (cc_max c))
                                   (cc_cooldowns c1),
                  cc_last := AList.update conn now (cc_last c1)\<rparr>, Inr ()))"

definition is_cooling_down :: "cooldowns \<Rightarrow> string \<Rightarrow> rat \<Rightarrow> bool" where
  "is_cooling_down c conn now =
     (case map_of (cc_last c) conn of
        None \<Rightarrow> False
      | Some t \<Rightarrow> now - t < dict_get (cc_cooldowns c) conn 0)"

definition cc_record_success :: "cooldowns \<Rightarrow> string \<Rightarrow> cooldowns" where
  "cc_record_success c conn =
     c\<lparr>cc_counts := AList.delete conn (cc_counts c),
       cc_cooldowns := AList.delete conn (cc_cooldowns c),
       cc_last := AList.delete conn (cc_last c)\<rparr>"

definition remaining_seconds :: "cooldowns \<Rightarrow> string \<Rightarrow> rat \<Rightarrow> rat" where
  "remaining_seconds c conn now =
     (case map_of (cc_last c) conn of
        None \<Rightarrow> 0
      | Some t \<Rightarrow> max (dict_get (cc_cooldowns c) conn 0 - (now - t)) 0)"

text \<open>\<open>round(x, 3)\<close> is the parameter \<open>round3\<close>; a connection without its time is a KeyError.\<close>

fun cooldown_scan ::
  "(rat \<Rightarrow> rat) \<Rightarrow> (string \<times> rat) list \<Rightarrow> rat \<Rightarrow> (string \<times> rat) list \<Rightarrow> (string \<times> rat) list \<Rightarrow>
     (string \<times> rat) list option" where
  "cooldown_scan round3 last_of now [] result = Some result"
| "cooldown_scan round3 last_of now ((conn, cool) # rest) result =
     (case map_of last_of conn of
        None \<Rightarrow> None
      | Some t \<Rightarrow> let remaining = cool - (now - t)
                 in cooldown_scan round3 last_of now rest
                      (if remaining > 0 then AList.update conn (round3 remaining) result else result))"

definition active_cooldowns :: "(rat \<Rightarrow> rat) \<Rightarrow> cooldowns \<Rightarrow> rat \<Rightarrow> (string \<times> rat) list option" where
  "active_cooldowns round3 c now = cooldown_scan round3 (cc_last c) now (cc_cooldowns c) []"

subsection \<open>Lockout per triple\<close>

type_synonym triple = "string \<times> string \<times> string"

record lockouts =
  ml_threshold :: int
  ml_decay :: bool
  ml_failures :: "(triple \<times> nat) list"

definition lockouts_new :: "int \<Rightarrow> bool \<Rightarrow> resilience_error + lockouts" where
  "lockouts_new threshold decay =
     (if threshold < 1 then Inl (BadThreshold threshold)
      else Inr \<lparr>ml_threshold = threshold, ml_decay = decay, ml_failures = []\<rparr>)"

definition ml_record_failure :: "lockouts \<Rightarrow> triple \<Rightarrow> lockouts" where
  "ml_record_failure m k = m\<lparr>ml_failures := dict_add (ml_failures m) k 1\<rparr>"

definition is_locked :: "lockouts \<Rightarrow> triple \<Rightarrow> bool" where
  "is_locked m k \<longleftrightarrow> int (dict_get (ml_failures m) k 0) \<ge> ml_threshold m"

definition ml_record_success :: "lockouts \<Rightarrow> triple \<Rightarrow> lockouts" where
  "ml_record_success m k =
     (if \<not> ml_decay m then m
      else let count = dict_get (ml_failures m) k 0
           in if count = 0 then m
              else if count div 2 = 0 then m\<lparr>ml_failures := AList.delete k (ml_failures m)\<rparr>
              else m\<lparr>ml_failures := AList.update k (count div 2) (ml_failures m)\<rparr>)"

definition active_lockouts :: "lockouts \<Rightarrow> triple list" where
  "active_lockouts m = map fst (filter (\<lambda>(k, n). int n \<ge> ml_threshold m) (ml_failures m))"

subsection \<open>The three scopes together\<close>

record governance =
  rg_cooldown :: cooldowns
  rg_lockout :: lockouts
  rg_breakers :: "(string \<times> healing_breaker) list"

definition governance_new :: governance where
  "governance_new =
     \<lparr>rg_cooldown = \<lparr>cc_base = 5, cc_max = 300, cc_counts = [], cc_cooldowns = [], cc_last = []\<rparr>,
      rg_lockout = \<lparr>ml_threshold = 3, ml_decay = True, ml_failures = []\<rparr>, rg_breakers = []\<rparr>"

definition rg_record_failure ::
  "governance \<Rightarrow> triple \<Rightarrow> rat \<Rightarrow> governance \<times> (resilience_error + unit)" where
  "rg_record_failure g k now =
     (case cc_record_failure (rg_cooldown g) (fst k) now of
        (c, Inl e) \<Rightarrow> (g\<lparr>rg_cooldown := c\<rparr>, Inl e)
      | (c, Inr _) \<Rightarrow>
          (g\<lparr>rg_cooldown := c, rg_lockout := ml_record_failure (rg_lockout g) k\<rparr>, Inr ()))"

definition rg_record_success :: "governance \<Rightarrow> triple \<Rightarrow> governance" where
  "rg_record_success g k =
     g\<lparr>rg_cooldown := cc_record_success (rg_cooldown g) (fst k),
       rg_lockout := ml_record_success (rg_lockout g) k\<rparr>"

definition can_proceed :: "governance \<Rightarrow> triple \<Rightarrow> rat \<Rightarrow> bool" where
  "can_proceed g k now \<longleftrightarrow>
     (if is_cooling_down (rg_cooldown g) (fst k) now then False else \<not> is_locked (rg_lockout g) k)"

definition rg_breaker :: "governance \<Rightarrow> string \<Rightarrow> governance \<times> healing_breaker" where
  "rg_breaker g provider =
     (case map_of (rg_breakers g) provider of
        Some b \<Rightarrow> (g, b)
      | None \<Rightarrow> (g\<lparr>rg_breakers := AList.update provider healing_breaker_new (rg_breakers g)\<rparr>,
                healing_breaker_new))"

record governance_status =
  gs_cooldowns :: "(string \<times> rat) list"
  gs_lockouts :: "triple list"
  gs_breakers :: "(string \<times> cb_state \<times> int) list"

definition get_status :: "(rat \<Rightarrow> rat) \<Rightarrow> governance \<Rightarrow> rat \<Rightarrow> governance_status option" where
  "get_status round3 g now =
     (case active_cooldowns round3 (rg_cooldown g) now of
        None \<Rightarrow> None
      | Some cs \<Rightarrow> Some \<lparr>gs_cooldowns = cs, gs_lockouts = active_lockouts (rg_lockout g),
                       gs_breakers = map (\<lambda>(p, b). (p, hb_state b, hb_failures b)) (rg_breakers g)\<rparr>)"

subsection \<open>What the scopes guarantee\<close>

text \<open>Failures recorded in a row on one connection.\<close>

fun cc_fail_all ::
  "cooldowns \<Rightarrow> string \<Rightarrow> rat list \<Rightarrow> cooldowns \<times> (resilience_error + unit) list" where
  "cc_fail_all c conn [] = (c, [])"
| "cc_fail_all c conn (now # ts) =
     (let (c1, r) = cc_record_failure c conn now; (c2, rs) = cc_fail_all c1 conn ts in (c2, r # rs))"

lemma cc_fail_frame [simp]:
  "cc_base (fst (cc_record_failure c conn now)) = cc_base c"
  "cc_max (fst (cc_record_failure c conn now)) = cc_max c"
  by (simp_all add: cc_record_failure_def Let_def)

lemma cc_fail_all_append:
  "cc_fail_all c conn (ts @ us) =
     (let (c1, rs) = cc_fail_all c conn ts; (c2, rs') = cc_fail_all c1 conn us in (c2, rs @ rs'))"
  by (induction ts arbitrary: c) (simp_all add: Let_def split_beta)

lemma cc_fail_all_state:
  assumes "dict_get (cc_counts c) conn 0 = n" and "n + length ts \<le> 1024"
  shows "dict_get (cc_counts (fst (cc_fail_all c conn ts))) conn 0 = n + length ts \<and>
         snd (cc_fail_all c conn ts) = map (\<lambda>_. Inr ()) ts \<and>
         cc_base (fst (cc_fail_all c conn ts)) = cc_base c \<and>
         cc_max (fst (cc_fail_all c conn ts)) = cc_max c \<and>
         (ts \<noteq> [] \<longrightarrow>
            map_of (cc_cooldowns (fst (cc_fail_all c conn ts))) conn =
              Some (min (cc_base c * 2 ^ (n + length ts - 1)) (cc_max c)) \<and>
            map_of (cc_last (fst (cc_fail_all c conn ts))) conn = Some (List.last ts))"
  using assms(2)
proof (induction ts rule: rev_induct)
  case Nil
  then show ?case using assms(1) by simp
next
  case (snoc t ts)
  then show ?case
    by (simp add: cc_fail_all_append Let_def split_beta) (simp add: cc_record_failure_def Let_def)
qed

lemma cc_overflow:
  assumes "1024 \<le> dict_get (cc_counts c) conn 0"
  shows "snd (cc_fail_all c conn ts) = map (\<lambda>_. Inl OverflowError) ts \<and>
         cc_cooldowns (fst (cc_fail_all c conn ts)) = cc_cooldowns c \<and>
         cc_last (fst (cc_fail_all c conn ts)) = cc_last c"
  using assms
proof (induction ts arbitrary: c)
  case (Cons t ts)
  have "fst (cc_record_failure c conn t) =
      c\<lparr>cc_counts := AList.update conn (dict_get (cc_counts c) conn 0 + 1) (cc_counts c)\<rparr>"
    "snd (cc_record_failure c conn t) = Inl OverflowError"
    using Cons.prems by (simp_all add: cc_record_failure_def Let_def)
  with Cons.IH [of "fst (cc_record_failure c conn t)"] Cons.prems show ?case
    by (simp add: Let_def split_beta)
qed simp

text \<open>
  After \<open>n\<close> failures in a row, up to 1024 of them, a connection cools down for the base time
  doubled \<open>n - 1\<close> times, capped, from the last failure on, and the remaining time reported is
  exactly that; a success ends it.
\<close>

theorem cooldown_backoff_exact:
  assumes "cooldowns_new base mx = Inr c" and "length (ts @ [t]) \<le> 1024"
  shows "let c1 = fst (cc_fail_all c conn (ts @ [t])); cool = min (base * 2 ^ length ts) mx
         in is_cooling_down c1 conn now = (now < t + cool) \<and>
            remaining_seconds c1 conn now = max (t + cool - now) 0 \<and>
            base \<le> cool \<and> cool \<le> mx \<and>
            \<not> is_cooling_down (cc_record_success c1 conn) conn now"
proof -
  have c: "cc_base c = base" "cc_max c = mx" "dict_get (cc_counts c) conn 0 = 0" "0 < base" "base \<le> mx"
    using assms(1) by (auto simp: cooldowns_new_def dict_get_def split: if_splits)
  have "1 \<le> (2 :: rat) ^ length ts" by simp
  with c(4) have "base * 1 \<le> base * 2 ^ length ts" by (intro mult_left_mono) simp_all
  with c cc_fail_all_state [OF c(3), of "ts @ [t]"] assms(2) show ?thesis
    by (auto simp: Let_def is_cooling_down_def remaining_seconds_def cc_record_success_def dict_get_def
        min_def max_def)
qed

theorem cooldown_backoff_exact_witness:
  "let c1 = fst (cc_fail_all (rg_cooldown governance_new) ''m'' ([1, 2] @ [3]));
       cool = min (5 * 2 ^ length [1, 2 :: rat]) 300
   in is_cooling_down c1 ''m'' 20 = (20 < 3 + cool) \<and>
      remaining_seconds c1 ''m'' 20 = max (3 + cool - 20) 0 \<and> 5 \<le> cool \<and> cool \<le> 300 \<and>
      \<not> is_cooling_down (cc_record_success c1 ''m'') ''m'' 20"
  by (rule cooldown_backoff_exact) (simp_all add: cooldowns_new_def governance_new_def)

text \<open>
  From the 1025th failure in a row on, \<open>record_failure\<close> raises OverflowError (the integer
  \<open>2 ** 1024\<close> has no float): the governance no longer counts the failure for the lockout and no
  longer renews the cooldown, so 300 seconds after the 1024th failure the connection is free
  again, however many failures have come since.
\<close>

theorem cooldown_overflow:
  assumes "length (ts @ [t]) = 1024"
  shows "let c = fst (cc_fail_all (rg_cooldown governance_new) conn (ts @ [t]));
             c1 = fst (cc_fail_all c conn us);
             g = governance_new\<lparr>rg_cooldown := c\<rparr>
         in snd (cc_fail_all c conn us) = map (\<lambda>_. Inl OverflowError) us \<and>
            is_cooling_down c1 conn now = (now < t + 300) \<and>
            snd (rg_record_failure g (conn, a, m) u) = Inl OverflowError \<and>
            rg_lockout (fst (rg_record_failure g (conn, a, m) u)) = rg_lockout g"
proof -
  let ?c = "fst (cc_fail_all (rg_cooldown governance_new) conn (ts @ [t]))"
  have n: "dict_get (cc_counts (rg_cooldown governance_new)) conn 0 = 0"
    by (simp add: governance_new_def dict_get_def)
  have s: "dict_get (cc_counts ?c) conn 0 = 1024"
    "map_of (cc_cooldowns ?c) conn = Some (min (5 * 2 ^ 1023) 300)" "map_of (cc_last ?c) conn = Some t"
    using cc_fail_all_state [OF n, of "ts @ [t]"] assms by (simp_all add: governance_new_def)
  have "(300 :: rat) \<le> 5 * 2 ^ 1023" by simp
  then have "min (5 * 2 ^ 1023) 300 = (300 :: rat)" by simp
  with s cc_overflow [of ?c conn us] cc_overflow [of ?c conn "[u]"] show ?thesis
    by (auto simp: Let_def is_cooling_down_def dict_get_def rg_record_failure_def split_beta
        split: sum.split)
qed

theorem cooldown_overflow_witness:
  "let c = fst (cc_fail_all (rg_cooldown governance_new) ''m'' (replicate 1023 0 @ [0]));
       c1 = fst (cc_fail_all c ''m'' [1]);
       g = governance_new\<lparr>rg_cooldown := c\<rparr>
   in snd (cc_fail_all c ''m'' [1]) = map (\<lambda>_. Inl OverflowError) [1 :: rat] \<and>
      is_cooling_down c1 ''m'' 301 = ((301 :: rat) < 0 + 300) \<and>
      snd (rg_record_failure g (''m'', ''a'', ''x'') 1) = Inl OverflowError \<and>
      rg_lockout (fst (rg_record_failure g (''m'', ''a'', ''x'') 1)) = rg_lockout g"
  by (rule cooldown_overflow) simp

text \<open>The lockout seen by one triple: failures count one, a success halves.\<close>

datatype lock_op = FailML triple | SucceedML triple

fun ml_step :: "lockouts \<Rightarrow> lock_op \<Rightarrow> lockouts" where
  "ml_step m (FailML k) = ml_record_failure m k"
| "ml_step m (SucceedML k) = ml_record_success m k"

fun lock_count :: "bool \<Rightarrow> triple \<Rightarrow> nat \<Rightarrow> lock_op list \<Rightarrow> nat" where
  "lock_count decay k n [] = n"
| "lock_count decay k n (FailML j # ops) = lock_count decay k (if j = k then n + 1 else n) ops"
| "lock_count decay k n (SucceedML j # ops) =
     lock_count decay k (if j = k \<and> decay then n div 2 else n) ops"

lemma ml_success_count:
  "dict_get (ml_failures (ml_record_success m j)) k 0 =
     (if j = k \<and> ml_decay m then dict_get (ml_failures m) k 0 div 2 else dict_get (ml_failures m) k 0)"
  by (cases "j = k") (simp_all add: ml_record_success_def Let_def)

lemma ml_step_frame [simp]:
  "ml_threshold (ml_step m op) = ml_threshold m" "ml_decay (ml_step m op) = ml_decay m"
  by (cases op; simp add: ml_record_failure_def ml_record_success_def Let_def)+

lemma ml_steps_count:
  "dict_get (ml_failures (foldl ml_step m ops)) k 0 =
     lock_count (ml_decay m) k (dict_get (ml_failures m) k 0) ops \<and>
   ml_threshold (foldl ml_step m ops) = ml_threshold m"
proof (induction ops arbitrary: m)
  case (Cons op ops)
  show ?case
    using Cons.IH [of "ml_step m op"] ml_step_frame [of m op]
    by (cases op) (simp_all add: ml_record_failure_def ml_success_count dict_get_add)
qed simp

lemma ml_wf_step: "wf_dict (ml_failures m) \<Longrightarrow> wf_dict (ml_failures (ml_step m op))"
  by (cases op) (simp_all add: ml_record_failure_def ml_record_success_def Let_def)

lemma ml_wf_steps: "wf_dict (ml_failures m) \<Longrightarrow> wf_dict (ml_failures (foldl ml_step m ops))"
  by (induction ops arbitrary: m) (simp_all add: ml_wf_step)

lemma active_lockouts_iff:
  assumes "wf_dict (ml_failures m)" and "1 \<le> ml_threshold m"
  shows "k \<in> set (active_lockouts m) \<longleftrightarrow> is_locked m k"
proof -
  have "k \<in> set (active_lockouts m) \<longleftrightarrow>
      (\<exists>n. map_of (ml_failures m) k = Some n \<and> ml_threshold m \<le> int n)"
    using assms(1) by (force simp: active_lockouts_def wf_dict_get [symmetric])
  then show ?thesis using assms(2) by (auto simp: is_locked_def dict_get_def split: option.splits)
qed

text \<open>
  Over any failures and successes a triple is locked exactly when its own failures, halved by
  each of its successes, have reached the threshold; other triples have no influence, and the
  list of active lockouts holds exactly the locked triples.
\<close>

theorem lockout_decay_exact:
  assumes "lockouts_new threshold decay = Inr m"
  shows "is_locked (foldl ml_step m ops) k = (threshold \<le> int (lock_count decay k 0 ops)) \<and>
         (k \<in> set (active_lockouts (foldl ml_step m ops))) = is_locked (foldl ml_step m ops) k"
proof -
  have m: "ml_threshold m = threshold" "ml_decay m = decay" "ml_failures m = []" "1 \<le> threshold"
    using assms by (auto simp: lockouts_new_def split: if_splits)
  with ml_steps_count [of m ops k] ml_wf_steps [of m ops] show ?thesis
    by (simp add: active_lockouts_iff is_locked_def dict_get_def)
qed

theorem lockout_decay_exact_witness:
  "is_locked (foldl ml_step (rg_lockout governance_new)
       [FailML (''r'', ''a'', ''m''), FailML (''r'', ''a'', ''m''), FailML (''r'', ''a'', ''m'')])
     (''r'', ''a'', ''m'') =
     (3 \<le> int (lock_count True (''r'', ''a'', ''m'') 0
       [FailML (''r'', ''a'', ''m''), FailML (''r'', ''a'', ''m''), FailML (''r'', ''a'', ''m'')])) \<and>
   ((''r'', ''a'', ''m'') \<in> set (active_lockouts (foldl ml_step (rg_lockout governance_new)
       [FailML (''r'', ''a'', ''m''), FailML (''r'', ''a'', ''m''), FailML (''r'', ''a'', ''m'')]))) =
   is_locked (foldl ml_step (rg_lockout governance_new)
       [FailML (''r'', ''a'', ''m''), FailML (''r'', ''a'', ''m''), FailML (''r'', ''a'', ''m'')])
     (''r'', ''a'', ''m'')"
  by (rule lockout_decay_exact) (simp add: lockouts_new_def governance_new_def)

text \<open>
  Callers that ask \<open>can_proceed\<close> first: an operation that may proceed reports its result; when
  it is refused the caller either reports a failure or nothing.
\<close>

datatype guarded_call = Guarded (gc_triple: triple) (gc_now: rat) (gc_succeeds: bool) (gc_reports: bool)

definition guarded_step :: "governance \<Rightarrow> guarded_call \<Rightarrow> governance" where
  "guarded_step g call =
     (if can_proceed g (gc_triple call) (gc_now call)
      then (if gc_succeeds call then rg_record_success g (gc_triple call)
            else fst (rg_record_failure g (gc_triple call) (gc_now call)))
      else if gc_reports call then fst (rg_record_failure g (gc_triple call) (gc_now call))
      else g)"

lemma rg_failure_lockout:
  "rg_lockout (fst (rg_record_failure g k now)) = rg_lockout g \<or>
   rg_lockout (fst (rg_record_failure g k now)) = ml_record_failure (rg_lockout g) k"
  by (auto simp: rg_record_failure_def split: prod.split sum.split)

lemma locked_step:
  assumes "is_locked (rg_lockout g) k"
  shows "is_locked (rg_lockout (guarded_step g call)) k"
proof (cases "can_proceed g (gc_triple call) (gc_now call) \<and> gc_succeeds call")
  case True
  then have "gc_triple call \<noteq> k" using assms by (auto simp: can_proceed_def split: if_splits)
  with True assms show ?thesis
    by (simp add: guarded_step_def rg_record_success_def is_locked_def ml_success_count)
      (simp add: ml_record_success_def Let_def)
next
  case False
  then have "rg_lockout (guarded_step g call) = rg_lockout g \<or>
      rg_lockout (guarded_step g call) = ml_record_failure (rg_lockout g) (gc_triple call)"
    using rg_failure_lockout [of g "gc_triple call" "gc_now call"] by (auto simp: guarded_step_def)
  with assms show ?thesis by (auto simp: is_locked_def ml_record_failure_def dict_get_add)
qed

text \<open>
  A lockout has no timer, only a success of the locked triple lowers its count, and no success
  can come: as long as every caller asks \<open>can_proceed\<close> first, a locked triple is refused at every
  later time, whatever is called.
\<close>

theorem lockout_permanent:
  assumes "is_locked (rg_lockout g) k"
  shows "\<not> can_proceed (foldl guarded_step g calls) k now"
proof -
  have "is_locked (rg_lockout (foldl guarded_step g calls)) k"
    using assms by (induction calls arbitrary: g) (simp_all add: locked_step)
  then show ?thesis by (simp add: can_proceed_def)
qed

theorem lockout_permanent_witness:
  "\<not> can_proceed (foldl guarded_step
       (foldl guarded_step governance_new
         [Guarded (''r'', ''a'', ''m'') 0 False False, Guarded (''r'', ''a'', ''m'') 10 False False,
          Guarded (''r'', ''a'', ''m'') 30 False False])
       [Guarded (''r'', ''b'', ''m'') 100 True False]) (''r'', ''a'', ''m'') 1000000"
  by (rule lockout_permanent)
    (simp add: guarded_step_def can_proceed_def governance_new_def is_cooling_down_def is_locked_def
      rg_record_failure_def cc_record_failure_def ml_record_failure_def Let_def dict_get_def dict_add_def)

end
