(* ===== verification/SharedCache.thy ===== *)
theory SharedCache
  imports Complex_Main PyText
begin

text \<open>
  The semantic cache shared by the agents (harness/memory_rag/shared_cache.py): a dictionary of
  entries with a list of keys in order of use, expiry by age and eviction of the least recently
  used entry. The digest of a text, its embedding and the similarity of two embeddings are
  parameters (hashlib and numpy); similarities and times are rationals and clock readings are
  arguments. Each block under the lock is one step.
\<close>

record 'e cache_entry =
  ce_key :: string
  ce_text :: string
  ce_embedding :: 'e
  ce_result :: string
  ce_model :: string
  ce_created :: rat
  ce_ttl :: rat
  ce_hits :: nat
  ce_agent :: string

record 'e shared_cache =
  sc_capacity :: int
  sc_ttl :: rat
  sc_threshold :: rat
  sc_entries :: "(string \<times> 'e cache_entry) list"
  sc_lru :: "string list"
  sc_hits :: nat
  sc_misses :: nat

datatype cache_error = BadCapacity int | BadTtl int | BadSimilarity rat

definition cache_new :: "int \<Rightarrow> int \<Rightarrow> rat \<Rightarrow> cache_error + 'e shared_cache" where
  "cache_new capacity ttl threshold =
     (if capacity < 1 then Inl (BadCapacity capacity)
      else if ttl < 1 then Inl (BadTtl ttl)
      else if \<not> (0 \<le> threshold \<and> threshold \<le> 1) then Inl (BadSimilarity threshold)
      else Inr \<lparr>sc_capacity = capacity, sc_ttl = of_int ttl, sc_threshold = threshold,
                sc_entries = [], sc_lru = [], sc_hits = 0, sc_misses = 0\<rparr>)"

definition cache_expired :: "'e shared_cache \<Rightarrow> rat \<Rightarrow> 'e cache_entry \<Rightarrow> bool" where
  "cache_expired c now e \<longleftrightarrow> now - ce_created e > sc_ttl c"

definition evict_expired :: "'e shared_cache \<Rightarrow> rat \<Rightarrow> 'e shared_cache \<times> nat" where
  "evict_expired c now =
     (let gone = map fst (filter (\<lambda>(k, e). cache_expired c now e) (sc_entries c))
      in (fold (\<lambda>k c. c\<lparr>sc_entries := AList.delete k (sc_entries c), sc_lru := remove1 k (sc_lru c)\<rparr>) gone c,
          length gone))"

definition evict_lru :: "'e shared_cache \<Rightarrow> 'e shared_cache \<times> nat" where
  "evict_lru c =
     (case sc_lru c of
        [] \<Rightarrow> (c, 0)
      | k # ks \<Rightarrow>
          let c1 = c\<lparr>sc_lru := ks\<rparr>
          in if map_of (sc_entries c1) k \<noteq> None
             then (c1\<lparr>sc_entries := AList.delete k (sc_entries c1)\<rparr>, 1) else (c1, 0))"

text \<open>The scan of \<open>get\<close>: the first of the entries with the highest similarity, if high enough.\<close>

fun best_match ::
  "('e \<Rightarrow> rat) \<Rightarrow> rat \<Rightarrow> (string \<times> 'e cache_entry) list \<Rightarrow> (string \<times> string \<times> rat) option \<Rightarrow>
     (string \<times> string \<times> rat) option" where
  "best_match sim threshold [] best = best"
| "best_match sim threshold ((k, e) # rest) best =
     (let s = sim (ce_embedding e)
      in best_match sim threshold rest
           (if s \<ge> threshold then
              (case best of
                 None \<Rightarrow> Some (k, ce_result e, s)
               | Some b \<Rightarrow> if s > snd (snd b) then Some (k, ce_result e, s) else best)
            else best))"

definition cache_get ::
  "('e \<Rightarrow> 'e \<Rightarrow> rat) \<Rightarrow> (string \<Rightarrow> 'e) \<Rightarrow> 'e shared_cache \<Rightarrow> string \<Rightarrow> rat \<Rightarrow>
     'e shared_cache \<times> string option" where
  "cache_get similarity emb c text now =
     (let c1 = fst (evict_expired c now)
      in case best_match (similarity (emb text)) (sc_threshold c1) (sc_entries c1) None of
           Some (k, result, s) \<Rightarrow>
             let entries = (case map_of (sc_entries c1) k of
                              None \<Rightarrow> sc_entries c1
                            | Some e \<Rightarrow> AList.update k (e\<lparr>ce_hits := ce_hits e + 1\<rparr>) (sc_entries c1))
             in (c1\<lparr>sc_hits := sc_hits c1 + 1, sc_entries := entries,
                    sc_lru := (if k \<in> set (sc_lru c1) then remove1 k (sc_lru c1) else sc_lru c1) @ [k]\<rparr>,
                 Some result)
         | None \<Rightarrow> (c1\<lparr>sc_misses := sc_misses c1 + 1\<rparr>, None))"

text \<open>\<open>now\<close> is read by the eviction, \<open>created\<close> for the new entry.\<close>

definition new_entry ::
  "(string \<Rightarrow> 'e) \<Rightarrow> (string \<Rightarrow> string) \<Rightarrow> 'e shared_cache \<Rightarrow> string \<Rightarrow> string \<Rightarrow> string \<Rightarrow> string \<Rightarrow> rat \<Rightarrow>
     'e cache_entry" where
  "new_entry emb digest c text result model agent created =
     \<lparr>ce_key = digest text, ce_text = py_slice_to text 200, ce_embedding = emb text,
      ce_result = result, ce_model = model, ce_created = created, ce_ttl = sc_ttl c,
      ce_hits = 0, ce_agent = agent\<rparr>"

definition cache_set ::
  "(string \<Rightarrow> 'e) \<Rightarrow> (string \<Rightarrow> string) \<Rightarrow> 'e shared_cache \<Rightarrow> string \<Rightarrow> string \<Rightarrow> string \<Rightarrow> string \<Rightarrow>
     rat \<Rightarrow> rat \<Rightarrow> 'e shared_cache \<times> string" where
  "cache_set emb digest c text result model agent now created =
     (let c1 = fst (evict_expired c now); k = digest text;
          e = new_entry emb digest c1 text result model agent created;
          lru = (if map_of (sc_entries c1) k \<noteq> None then remove1 k (sc_lru c1) else sc_lru c1);
          c2 = c1\<lparr>sc_entries := AList.update k e (sc_entries c1), sc_lru := lru @ [k]\<rparr>
      in (if int (length (sc_entries c2)) > sc_capacity c2 then fst (evict_lru c2) else c2, k))"

record cache_stats =
  cs_entries :: nat
  cs_hits :: nat
  cs_misses :: nat
  cs_rate :: rat
  cs_memory :: nat

definition get_stats :: "'e shared_cache \<Rightarrow> cache_stats" where
  "get_stats c =
     (let total = sc_hits c + sc_misses c
      in \<lparr>cs_entries = length (sc_entries c), cs_hits = sc_hits c, cs_misses = sc_misses c,
          cs_rate = (if total > 0 then of_nat (sc_hits c) / of_nat total else 0),
          cs_memory = length (sc_entries c) * (200 + 384 * 4)\<rparr>)"

definition cache_clear :: "'e shared_cache \<Rightarrow> 'e shared_cache \<times> nat" where
  "cache_clear c =
     (c\<lparr>sc_entries := [], sc_lru := [], sc_hits := 0, sc_misses := 0\<rparr>, length (sc_entries c))"

definition cache_size :: "'e shared_cache \<Rightarrow> nat" where
  "cache_size c = length (sc_entries c)"

subsection \<open>Invariant\<close>

definition cache_wf :: "'e shared_cache \<Rightarrow> bool" where
  "cache_wf c \<longleftrightarrow>
     wf_dict (sc_entries c) \<and> distinct (sc_lru c) \<and> set (sc_lru c) = fst ` set (sc_entries c) \<and>
     (\<forall>k e. map_of (sc_entries c) k = Some e \<longrightarrow> ce_key e = k)"

definition cache_ok :: "'e shared_cache \<Rightarrow> bool" where
  "cache_ok c \<longleftrightarrow> cache_wf c \<and> 1 \<le> sc_capacity c \<and> int (length (sc_entries c)) \<le> sc_capacity c"

text \<open>The cache as one list of entries, the least recently used first.\<close>

definition recency :: "'e shared_cache \<Rightarrow> 'e cache_entry list" where
  "recency c = map (\<lambda>k. the (map_of (sc_entries c) k)) (sc_lru c)"

lemma cache_wf_domain: "cache_wf c \<Longrightarrow> k \<in> set (sc_lru c) \<longleftrightarrow> map_of (sc_entries c) k \<noteq> None"
  by (auto simp: cache_wf_def map_of_eq_None_iff)

lemma cache_wf_length: "cache_wf c \<Longrightarrow> length (sc_lru c) = length (sc_entries c)"
  by (metis cache_wf_def distinct_card length_map list.set_map wf_dict_def)

lemma recency_keys: "cache_wf c \<Longrightarrow> map ce_key (recency c) = sc_lru c"
proof -
  assume w: "cache_wf c"
  have "ce_key (the (map_of (sc_entries c) k)) = k" if "k \<in> set (sc_lru c)" for k
    using that w cache_wf_domain [OF w, of k] by (auto simp: cache_wf_def)
  then show ?thesis by (simp add: recency_def map_idI)
qed

lemma recency_set: "cache_wf c \<Longrightarrow> set (recency c) = set (dict_values (sc_entries c))"
  using dict_values_image [of "sc_entries c"]
  by (simp add: recency_def cache_wf_def dict_values_def)

text \<open>Removing keys.\<close>

lemma drop_keys_fold:
  "distinct (sc_lru c) \<Longrightarrow>
     fold (\<lambda>k c. c\<lparr>sc_entries := AList.delete k (sc_entries c), sc_lru := remove1 k (sc_lru c)\<rparr>) ks c =
       c\<lparr>sc_entries := filter (\<lambda>p. fst p \<notin> set ks) (sc_entries c),
         sc_lru := filter (\<lambda>k. k \<notin> set ks) (sc_lru c)\<rparr>"
proof (induction ks arbitrary: c)
  case (Cons k ks)
  have r: "remove1 k (sc_lru c) = filter (\<lambda>j. j \<noteq> k) (sc_lru c)"
    using Cons.prems by (rule remove1_distinct)

  show ?case using Cons.prems Cons.IH [of "c\<lparr>sc_entries := AList.delete k (sc_entries c), sc_lru := remove1 k (sc_lru c)\<rparr>"]
    by (simp add: r dict_delete_filter conj_commute)
qed simp

lemma expired_keys:
  assumes "cache_wf c"
  shows "k \<in> set (map fst (filter (\<lambda>(k, e). cache_expired c now e) (sc_entries c))) \<longleftrightarrow>
         (case map_of (sc_entries c) k of None \<Rightarrow> False | Some e \<Rightarrow> cache_expired c now e)"
proof -
  have "wf_dict (sc_entries c)" using assms by (simp add: cache_wf_def)
  note w = wf_dict_get [OF this]
  show ?thesis by (force simp: w split: option.split)
qed

lemma evict_expired_wf:
  assumes "cache_wf c"
  shows "fst (evict_expired c now) =
           c\<lparr>sc_entries := filter (\<lambda>p. \<not> cache_expired c now (snd p)) (sc_entries c),
             sc_lru := filter (\<lambda>k. \<not> cache_expired c now (the (map_of (sc_entries c) k))) (sc_lru c)\<rparr>"
proof -
  let ?gone = "map fst (filter (\<lambda>(k, e). cache_expired c now e) (sc_entries c))"
  have d: "distinct (sc_lru c)" "wf_dict (sc_entries c)" using assms by (simp_all add: cache_wf_def)
  have "fst p \<notin> set ?gone \<longleftrightarrow> \<not> cache_expired c now (snd p)" if "p \<in> set (sc_entries c)" for p
  proof -
    have "map_of (sc_entries c) (fst p) = Some (snd p)"
      using that wf_dict_get [OF d(2), of "fst p" "snd p"] by simp
    then show ?thesis unfolding expired_keys [OF assms] by simp
  qed
  then have e: "filter (\<lambda>p. fst p \<notin> set ?gone) (sc_entries c) =
      filter (\<lambda>p. \<not> cache_expired c now (snd p)) (sc_entries c)" by (rule filter_cong [OF refl])
  have "k \<notin> set ?gone \<longleftrightarrow> \<not> cache_expired c now (the (map_of (sc_entries c) k))" if "k \<in> set (sc_lru c)" for k
    using that cache_wf_domain [OF assms, of k] unfolding expired_keys [OF assms]
    by (auto split: option.split)
  then have l: "filter (\<lambda>k. k \<notin> set ?gone) (sc_lru c) =
      filter (\<lambda>k. \<not> cache_expired c now (the (map_of (sc_entries c) k))) (sc_lru c)"
    by (rule filter_cong [OF refl])
  show ?thesis by (simp only: evict_expired_def Let_def fst_conv drop_keys_fold [OF d(1)] e l)
qed


lemma evict_expired_recency:
  assumes "cache_wf c"
  shows "recency (fst (evict_expired c now)) = filter (\<lambda>e. \<not> cache_expired c now e) (recency c)"
proof -
  let ?e = "\<lambda>k. the (map_of (sc_entries c) k)"
  have "wf_dict (sc_entries c)" using assms by (simp add: cache_wf_def)
  then have "the (map_of (filter (\<lambda>p. \<not> cache_expired c now (snd p)) (sc_entries c)) k) = ?e k"
    if "k \<in> set (filter (\<lambda>k. \<not> cache_expired c now (?e k)) (sc_lru c))" for k
    using that cache_wf_domain [OF assms, of k] by (auto simp: map_of_filter_wf)
  then show ?thesis
    by (simp add: recency_def evict_expired_wf [OF assms] filter_map comp_def cong: map_cong)
qed

lemma evict_expired_ok:
  assumes "cache_ok c"
  shows "cache_ok (fst (evict_expired c now))"
proof -
  have w: "cache_wf c" and d: "wf_dict (sc_entries c)" using assms by (simp_all add: cache_ok_def cache_wf_def)
  note f = map_of_filter_wf [OF d] and g = wf_dict_filter [OF d]
  let ?c = "fst (evict_expired c now)"
  have dom: "k \<in> set (sc_lru ?c) \<longleftrightarrow> map_of (sc_entries ?c) k \<noteq> None" for k
    using cache_wf_domain [OF w, of k] by (auto simp: evict_expired_wf [OF w] f split: option.split)
  have "cache_wf ?c"
    unfolding cache_wf_def
  proof (intro conjI allI impI)
    show "wf_dict (sc_entries ?c)" "distinct (sc_lru ?c)"
      using w g by (simp_all add: evict_expired_wf [OF w] cache_wf_def)
    show "set (sc_lru ?c) = fst ` set (sc_entries ?c)"
      unfolding dom_map_of_conv_image_fst [symmetric] using dom by (auto simp only: dom_def mem_Collect_eq)
    show "ce_key e = k" if "map_of (sc_entries ?c) k = Some e" for k e
      using that w by (auto simp: evict_expired_wf [OF w] f cache_wf_def split: option.splits if_splits)
  qed
  moreover have "length (sc_entries ?c) \<le> length (sc_entries c)" "sc_capacity ?c = sc_capacity c"
    by (simp_all add: evict_expired_wf [OF w])
  ultimately show ?thesis using assms by (auto simp: cache_ok_def)
qed

lemma evict_expired_frame:
  assumes "cache_wf c"
  shows "sc_capacity (fst (evict_expired c now)) = sc_capacity c"
    "sc_ttl (fst (evict_expired c now)) = sc_ttl c"
    "sc_threshold (fst (evict_expired c now)) = sc_threshold c"
    "sc_hits (fst (evict_expired c now)) = sc_hits c"
    "sc_misses (fst (evict_expired c now)) = sc_misses c"
  by (simp_all add: evict_expired_wf [OF assms])


text \<open>Putting an entry under its key at the end of the order of use.\<close>


lemma touch_wf:
  assumes "cache_wf c" and "ce_key e = k"
  shows "cache_wf (c\<lparr>sc_entries := AList.update k e (sc_entries c), sc_lru := remove1 k (sc_lru c) @ [k],
                     sc_hits := h, sc_misses := m\<rparr>)"
    and "recency (c\<lparr>sc_entries := AList.update k e (sc_entries c), sc_lru := remove1 k (sc_lru c) @ [k],
                     sc_hits := h, sc_misses := m\<rparr>) =
           filter (\<lambda>x. ce_key x \<noteq> k) (recency c) @ [e]"
proof -
  have w: "wf_dict (sc_entries c)" "distinct (sc_lru c)" "set (sc_lru c) = fst ` set (sc_entries c)"
    "\<And>k e. map_of (sc_entries c) k = Some e \<Longrightarrow> ce_key e = k"
    using assms(1) by (simp_all add: cache_wf_def)
  show "cache_wf (c\<lparr>sc_entries := AList.update k e (sc_entries c), sc_lru := remove1 k (sc_lru c) @ [k],
      sc_hits := h, sc_misses := m\<rparr>)"
    using w assms(2) by (auto simp: cache_wf_def dict_dom_update split: if_splits)
  have r: "remove1 k (sc_lru c) = filter (\<lambda>j. j \<noteq> k) (sc_lru c)"
    using w(2) by (rule remove1_distinct)
  have "filter (\<lambda>x. ce_key x \<noteq> k) (recency c) =
      map (\<lambda>k. the (map_of (sc_entries c) k)) (filter (\<lambda>j. j \<noteq> k) (sc_lru c))"
  proof -
    have "ce_key (the (map_of (sc_entries c) j)) = j" if "j \<in> set (sc_lru c)" for j
      using that w(4) cache_wf_domain [OF assms(1), of j] by auto
    then show ?thesis by (simp add: recency_def filter_map comp_def cong: filter_cong)
  qed
  also have "\<dots> = map (\<lambda>j. the (map_of (AList.update k e (sc_entries c)) j)) (filter (\<lambda>j. j \<noteq> k) (sc_lru c))"
    by (rule map_cong [OF refl]) simp
  finally show "recency (c\<lparr>sc_entries := AList.update k e (sc_entries c), sc_lru := remove1 k (sc_lru c) @ [k],
      sc_hits := h, sc_misses := m\<rparr>) = filter (\<lambda>x. ce_key x \<noteq> k) (recency c) @ [e]"
    by (simp add: recency_def r)
qed

lemma recency_length: "cache_wf c \<Longrightarrow> length (recency c) = length (sc_entries c)"
  by (simp add: recency_def cache_wf_length)

lemma evict_lru_wf:
  assumes "cache_wf c"
  shows "cache_wf (fst (evict_lru c))" and "recency (fst (evict_lru c)) = tl (recency c)"
proof -
  have w: "wf_dict (sc_entries c)" "distinct (sc_lru c)" "set (sc_lru c) = fst ` set (sc_entries c)"
    "\<And>k e. map_of (sc_entries c) k = Some e \<Longrightarrow> ce_key e = k"
    using assms by (simp_all add: cache_wf_def)
  show "cache_wf (fst (evict_lru c))"
  proof (cases "sc_lru c")
    case Nil
    then show ?thesis using assms by (simp add: evict_lru_def)
  next
    case (Cons k ks)
    then have "map_of (sc_entries c) k \<noteq> None" using cache_wf_domain [OF assms, of k] by simp
    with Cons w show ?thesis
      by (auto simp: evict_lru_def cache_wf_def Let_def dict_dom_delete split: if_splits)
  qed
  show "recency (fst (evict_lru c)) = tl (recency c)"
  proof (cases "sc_lru c")
    case Nil
    then show ?thesis by (simp add: evict_lru_def recency_def)
  next
    case (Cons k ks)
    then have "map_of (sc_entries c) k \<noteq> None" using cache_wf_domain [OF assms, of k] by simp
    moreover have "k \<notin> set ks" using w(2) Cons by simp
    ultimately show ?thesis using Cons by (auto simp: evict_lru_def Let_def recency_def)
  qed
qed

subsection \<open>What the operations do\<close>

lemma best_match_spec:
  "case best_match sim threshold d best of
     None \<Rightarrow> best = None \<and> (\<forall>p \<in> set d. sim (ce_embedding (snd p)) < threshold)
   | Some (k, r, s) \<Rightarrow>
       (best = Some (k, r, s) \<or>
        (\<exists>e. (k, e) \<in> set d \<and> r = ce_result e \<and> s = sim (ce_embedding e) \<and> threshold \<le> s)) \<and>
       (\<forall>p \<in> set d. threshold \<le> sim (ce_embedding (snd p)) \<longrightarrow> sim (ce_embedding (snd p)) \<le> s) \<and>
       (\<forall>b. best = Some b \<longrightarrow> snd (snd b) \<le> s)"
proof (induction d arbitrary: best)
  case Nil
  then show ?case by (auto split: option.split)
next
  case (Cons p d)
  obtain k e where p: "p = (k, e)" by (cases p)
  let ?s = "sim (ce_embedding e)"
  let ?best = "if ?s \<ge> threshold then
              (case best of
                 None \<Rightarrow> Some (k, ce_result e, ?s)
               | Some b \<Rightarrow> if ?s > snd (snd b) then Some (k, ce_result e, ?s) else best)
            else best"
  have step: "best_match sim threshold (p # d) best = best_match sim threshold d ?best"
    by (simp add: p Let_def)
  show ?case
    unfolding step using Cons.IH [of ?best]
    by (cases "best_match sim threshold d ?best"; cases best)
      (auto simp: p not_le not_less split: if_splits)
qed

lemma cache_touch:
  assumes "cache_wf c" and "ce_key e = k"
    and "c' = c\<lparr>sc_entries := AList.update k e (sc_entries c), sc_lru := remove1 k (sc_lru c) @ [k],
               sc_hits := h, sc_misses := m\<rparr>"
  shows "cache_wf c'" and "recency c' = filter (\<lambda>x. ce_key x \<noteq> k) (recency c) @ [e]"
  using touch_wf [OF assms(1,2)] assms(3) by simp_all

lemma cache_set_spec:
  assumes "cache_ok c"
  shows "cache_ok (fst (cache_set emb digest c text result model agent now created))"
    and "recency (fst (cache_set emb digest c text result model agent now created)) =
           (let e = new_entry emb digest c text result model agent created;
                ys = filter (\<lambda>x. ce_key x \<noteq> ce_key e)
                       (filter (\<lambda>x. \<not> cache_expired c now x) (recency c)) @ [e]
            in if int (length ys) > sc_capacity c then tl ys else ys)"
proof -
  let ?c1 = "fst (evict_expired c now)" and ?k = "digest text"
  let ?e = "new_entry emb digest ?c1 text result model agent created"
  have w: "cache_wf c" using assms by (simp add: cache_ok_def)
  have c1: "cache_ok ?c1" "cache_wf ?c1"
    "recency ?c1 = filter (\<lambda>x. \<not> cache_expired c now x) (recency c)" "sc_capacity ?c1 = sc_capacity c"
    using evict_expired_ok [OF assms, of now] evict_expired_recency [OF w] evict_expired_frame [OF w]
    by (simp_all add: cache_ok_def)
  have e: "?e = new_entry emb digest c text result model agent created"
    by (simp add: new_entry_def evict_expired_frame [OF w])
  have k: "ce_key ?e = ?k" by (simp add: new_entry_def)
  let ?c2 = "?c1\<lparr>sc_entries := AList.update ?k ?e (sc_entries ?c1), sc_lru := remove1 ?k (sc_lru ?c1) @ [?k]\<rparr>"
  have r: "(if map_of (sc_entries ?c1) ?k \<noteq> None then remove1 ?k (sc_lru ?c1) else sc_lru ?c1) =
      remove1 ?k (sc_lru ?c1)"
    using cache_wf_domain [OF c1(2), of ?k] by (simp add: remove1_idem)
  have "?c2 = ?c1\<lparr>sc_entries := AList.update ?k ?e (sc_entries ?c1), sc_lru := remove1 ?k (sc_lru ?c1) @ [?k],
      sc_hits := sc_hits ?c1, sc_misses := sc_misses ?c1\<rparr>" by (cases ?c1) simp
  note t = cache_touch [OF c1(2) k this]
  have set: "fst (cache_set emb digest c text result model agent now created) =
      (if int (length (sc_entries ?c2)) > sc_capacity ?c2 then fst (evict_lru ?c2) else ?c2)"
    by (simp only: cache_set_def Let_def r fst_conv)
  have len: "length (sc_entries ?c2) = length (recency ?c2)" using recency_length [OF t(1)] by simp
  have cap: "sc_capacity (fst (evict_lru ?c2)) = sc_capacity c" "sc_capacity ?c2 = sc_capacity c"
    by (simp_all add: evict_lru_def Let_def c1(4) split: list.split)
  show rec: "recency (fst (cache_set emb digest c text result model agent now created)) =
      (let e = new_entry emb digest c text result model agent created;
           ys = filter (\<lambda>x. ce_key x \<noteq> ce_key e)
                  (filter (\<lambda>x. \<not> cache_expired c now x) (recency c)) @ [e]
       in if int (length ys) > sc_capacity c then tl ys else ys)"
    unfolding set len using evict_lru_wf(2) [OF t(1)] t(2) k cap(2)
    by (simp add: Let_def c1(3) e)
  have "length (sc_entries ?c2) \<le> Suc (length (sc_entries ?c1))"
    by (simp add: length_dict_update)
  moreover have "length (sc_entries (fst (evict_lru ?c2))) = length (sc_entries ?c2) - 1"
    using recency_length [OF evict_lru_wf(1) [OF t(1)]] evict_lru_wf(2) [OF t(1)] len by simp
  ultimately show "cache_ok (fst (cache_set emb digest c text result model agent now created))"
    unfolding set using c1(1,4) t(1) evict_lru_wf(1) [OF t(1)] cap
    by (auto simp: cache_ok_def)
qed

lemma cache_get_hit:
  assumes "cache_ok c" and "snd (cache_get similarity emb c text now) = Some result"
  obtains e where "e \<in> set (recency (fst (evict_expired c now)))"
    "result = ce_result e" "sc_threshold c \<le> similarity (emb text) (ce_embedding e)"
    "\<And>x. x \<in> set (recency (fst (evict_expired c now))) \<Longrightarrow>
       similarity (emb text) (ce_embedding x) \<le> similarity (emb text) (ce_embedding e)"
    "cache_ok (fst (cache_get similarity emb c text now))"
    "recency (fst (cache_get similarity emb c text now)) =
       filter (\<lambda>x. ce_key x \<noteq> ce_key e) (recency (fst (evict_expired c now))) @ [e\<lparr>ce_hits := ce_hits e + 1\<rparr>]"
    "sc_hits (fst (cache_get similarity emb c text now)) = sc_hits c + 1"
    "sc_misses (fst (cache_get similarity emb c text now)) = sc_misses c"
proof -
  let ?c1 = "fst (evict_expired c now)" and ?sim = "similarity (emb text)"
  have w: "cache_wf c" using assms(1) by (simp add: cache_ok_def)
  have c1: "cache_ok ?c1" "cache_wf ?c1" using evict_expired_ok [OF assms(1), of now] by (simp_all add: cache_ok_def)
  have d: "wf_dict (sc_entries ?c1)" using c1(2) by (simp add: cache_wf_def)
  obtain k s where b: "best_match ?sim (sc_threshold ?c1) (sc_entries ?c1) None = Some (k, result, s)"
    using assms(2) by (auto simp: cache_get_def Let_def split: option.splits prod.splits)
  with best_match_spec [where sim = ?sim and threshold = "sc_threshold ?c1" and d = "sc_entries ?c1" and best = None]
  obtain e where e: "(k, e) \<in> set (sc_entries ?c1)" "result = ce_result e" "s = ?sim (ce_embedding e)"
      "sc_threshold ?c1 \<le> s"
    and mx: "\<And>p. p \<in> set (sc_entries ?c1) \<Longrightarrow> sc_threshold ?c1 \<le> ?sim (ce_embedding (snd p)) \<Longrightarrow>
        ?sim (ce_embedding (snd p)) \<le> s" by auto
  have me: "map_of (sc_entries ?c1) k = Some e" using e(1) wf_dict_get [OF d] by simp
  have ck: "ce_key e = k" using me c1(2) by (simp add: cache_wf_def)
  have kl: "k \<in> set (sc_lru ?c1)" using me cache_wf_domain [OF c1(2), of k] by simp
  let ?e = "e\<lparr>ce_hits := ce_hits e + 1\<rparr>"
  have g: "cache_get similarity emb c text now =
      (?c1\<lparr>sc_entries := AList.update k ?e (sc_entries ?c1), sc_lru := remove1 k (sc_lru ?c1) @ [k],
           sc_hits := sc_hits ?c1 + 1, sc_misses := sc_misses ?c1\<rparr>, Some result)"
    by (cases ?c1) (use b me kl in \<open>simp add: cache_get_def Let_def\<close>)
  have "ce_key ?e = k" using ck by simp
  note t = cache_touch [where h = "sc_hits ?c1 + 1" and m = "sc_misses ?c1", OF c1(2) this refl]
  have rs: "set (recency ?c1) = snd ` set (sc_entries ?c1)"
    using recency_set [OF c1(2)] by (simp add: dict_values_def)
  have len: "length (AList.update k ?e (sc_entries ?c1)) = length (sc_entries ?c1)"
    using me by (simp add: length_dict_update)
  show thesis
  proof (rule that)
    show "e \<in> set (recency ?c1)" unfolding rs using e(1) by force
    show "result = ce_result e" by (rule e(2))
    show "sc_threshold c \<le> ?sim (ce_embedding e)"
      using e(3,4) evict_expired_frame [OF w] by simp
    show "?sim (ce_embedding x) \<le> ?sim (ce_embedding e)" if x: "x \<in> set (recency ?c1)" for x
    proof -
      obtain p where "p \<in> set (sc_entries ?c1)" "x = snd p" using x unfolding rs by blast
      with mx e(3,4) show ?thesis by (cases "sc_threshold ?c1 \<le> ?sim (ce_embedding x)") auto
    qed
    show "cache_ok (fst (cache_get similarity emb c text now))"
      using t(1) c1(1) len by (simp add: g cache_ok_def)
    show "recency (fst (cache_get similarity emb c text now)) =
        filter (\<lambda>x. ce_key x \<noteq> ce_key e) (recency ?c1) @ [?e]"
      using t(2) by (simp add: g ck)
    show "sc_hits (fst (cache_get similarity emb c text now)) = sc_hits c + 1"
      "sc_misses (fst (cache_get similarity emb c text now)) = sc_misses c"
      using evict_expired_frame [OF w] by (simp_all add: g)
  qed
qed

lemma cache_get_miss:
  assumes "cache_ok c" and "snd (cache_get similarity emb c text now) = None"
  shows "fst (cache_get similarity emb c text now) =
           (fst (evict_expired c now))\<lparr>sc_misses := sc_misses c + 1\<rparr>"
    and "x \<in> set (recency (fst (evict_expired c now))) \<Longrightarrow>
           similarity (emb text) (ce_embedding x) < sc_threshold c"
proof -
  let ?c1 = "fst (evict_expired c now)"
  have w: "cache_wf c" using assms(1) by (simp add: cache_ok_def)
  have c1: "cache_wf ?c1" using evict_expired_ok [OF assms(1), of now] by (simp add: cache_ok_def)
  have b: "best_match (similarity (emb text)) (sc_threshold ?c1) (sc_entries ?c1) None = None"
    using assms(2) by (auto simp: cache_get_def Let_def split: option.splits prod.splits)
  then show "fst (cache_get similarity emb c text now) = ?c1\<lparr>sc_misses := sc_misses c + 1\<rparr>"
    using evict_expired_frame [OF w] by (simp add: cache_get_def Let_def)
  assume "x \<in> set (recency ?c1)"
  then obtain p where "p \<in> set (sc_entries ?c1)" "x = snd p"
    using recency_set [OF c1] by (auto simp: dict_values_def)
  with b best_match_spec [where sim = "similarity (emb text)" and threshold = "sc_threshold ?c1" and
      d = "sc_entries ?c1" and best = None]
  show "similarity (emb text) (ce_embedding x) < sc_threshold c"
    using evict_expired_frame [OF w] by auto
qed

lemma cache_ok_counters: "cache_ok (c\<lparr>sc_misses := m\<rparr>) = cache_ok c"
  by (simp add: cache_ok_def cache_wf_def)

lemma cache_get_ok: "cache_ok c \<Longrightarrow> cache_ok (fst (cache_get similarity emb c text now))"
proof (cases "snd (cache_get similarity emb c text now)")
  case None
  assume "cache_ok c"
  then show ?thesis using cache_get_miss(1) [OF _ None] evict_expired_ok by (simp add: cache_ok_counters)
next
  case (Some r)
  assume "cache_ok c"
  then show ?thesis using cache_get_hit [OF _ Some] by blast
qed

text \<open>
  \<open>get\<close> first drops the expired entries. Of the others it returns the result of one whose
  similarity reaches the threshold and is the highest, moves that entry to the end of the
  order of use and counts a hit; it answers nothing, and counts a miss, only if no entry left
  reaches the threshold. An expired entry is never served.
\<close>

theorem cache_get_exact:
  assumes "cache_ok c"
  shows "let live = filter (\<lambda>x. \<not> cache_expired c now x) (recency c);
             sim = (\<lambda>x. similarity (emb text) (ce_embedding x))
         in case cache_get similarity emb c text now of
              (c1, None) \<Rightarrow>
                recency c1 = live \<and> list_all (\<lambda>x. sim x < sc_threshold c) live \<and>
                sc_misses c1 = sc_misses c + 1 \<and> sc_hits c1 = sc_hits c
            | (c1, Some r) \<Rightarrow>
                list_ex (\<lambda>e. r = ce_result e \<and> sc_threshold c \<le> sim e \<and>
                             list_all (\<lambda>x. sim x \<le> sim e) live \<and>
                             recency c1 = filter (\<lambda>x. ce_key x \<noteq> ce_key e) live @
                                          [e\<lparr>ce_hits := ce_hits e + 1\<rparr>]) live \<and>
                sc_hits c1 = sc_hits c + 1 \<and> sc_misses c1 = sc_misses c"
proof -
  have w: "cache_wf c" using assms by (simp add: cache_ok_def)
  note live = evict_expired_recency [OF w, of now]
  show ?thesis
  proof (cases "snd (cache_get similarity emb c text now)")
    case None
    note m = cache_get_miss [OF assms None]
    have "recency (fst (cache_get similarity emb c text now)) = recency (fst (evict_expired c now))"
      by (simp add: m(1) recency_def)
    with None m evict_expired_frame [OF w] live show ?thesis
      by (auto simp: Let_def list_all_iff split: prod.split)
  next
    case (Some r)
    from cache_get_hit [OF assms Some] obtain e where e: "e \<in> set (recency (fst (evict_expired c now)))"
      "r = ce_result e" "sc_threshold c \<le> similarity (emb text) (ce_embedding e)"
      "\<And>x. x \<in> set (recency (fst (evict_expired c now))) \<Longrightarrow>
         similarity (emb text) (ce_embedding x) \<le> similarity (emb text) (ce_embedding e)"
      "recency (fst (cache_get similarity emb c text now)) =
         filter (\<lambda>x. ce_key x \<noteq> ce_key e) (recency (fst (evict_expired c now))) @ [e\<lparr>ce_hits := ce_hits e + 1\<rparr>]"
      "sc_hits (fst (cache_get similarity emb c text now)) = sc_hits c + 1"
      "sc_misses (fst (cache_get similarity emb c text now)) = sc_misses c"
      by metis
    let ?live = "filter (\<lambda>x. \<not> cache_expired c now x) (recency c)"
    have "list_ex (\<lambda>e. r = ce_result e \<and> sc_threshold c \<le> similarity (emb text) (ce_embedding e) \<and>
        list_all (\<lambda>x. similarity (emb text) (ce_embedding x) \<le> similarity (emb text) (ce_embedding e)) ?live \<and>
        recency (fst (cache_get similarity emb c text now)) =
          filter (\<lambda>x. ce_key x \<noteq> ce_key e) ?live @ [e\<lparr>ce_hits := ce_hits e + 1\<rparr>]) ?live"
      unfolding list_ex_iff list_all_iff using e(1-5) unfolding live by blast
    with Some e(6,7) show ?thesis by (cases "cache_get similarity emb c text now") (simp add: Let_def)
  qed
qed



text \<open>A history of calls; \<open>gets\<close> counts those of \<open>get\<close> since the last \<open>clear\<close>.\<close>

datatype cache_op = GetOp string rat | SetOp string string string string rat rat | ExpireOp rat | ClearOp

fun cache_step ::
  "('e \<Rightarrow> 'e \<Rightarrow> rat) \<Rightarrow> (string \<Rightarrow> 'e) \<Rightarrow> (string \<Rightarrow> string) \<Rightarrow> 'e shared_cache \<Rightarrow> cache_op \<Rightarrow>
     'e shared_cache" where
  "cache_step similarity emb digest c (GetOp text now) = fst (cache_get similarity emb c text now)"
| "cache_step similarity emb digest c (SetOp text result model agent now created) =
     fst (cache_set emb digest c text result model agent now created)"
| "cache_step similarity emb digest c (ExpireOp now) = fst (evict_expired c now)"
| "cache_step similarity emb digest c ClearOp = fst (cache_clear c)"

fun gets :: "nat \<Rightarrow> cache_op list \<Rightarrow> nat" where
  "gets n [] = n"
| "gets n (GetOp text now # ops) = gets (Suc n) ops"
| "gets n (ClearOp # ops) = gets 0 ops"
| "gets n (_ # ops) = gets n ops"

lemma cache_set_frame:
  assumes "cache_ok c"
  shows "sc_hits (fst (cache_set emb digest c text result model agent now created)) = sc_hits c"
    "sc_misses (fst (cache_set emb digest c text result model agent now created)) = sc_misses c"
    "sc_capacity (fst (cache_set emb digest c text result model agent now created)) = sc_capacity c"
  using assms
  by (auto simp: cache_set_def Let_def evict_lru_def evict_expired_frame cache_ok_def split: list.split)

lemma cache_get_counts:
  assumes "cache_ok c"
  shows "sc_hits (fst (cache_get similarity emb c text now)) +
           sc_misses (fst (cache_get similarity emb c text now)) = Suc (sc_hits c + sc_misses c)"
proof (cases "snd (cache_get similarity emb c text now)")
  case None
  have "cache_wf c" using assms by (simp add: cache_ok_def)
  then show ?thesis using cache_get_miss(1) [OF assms None] evict_expired_frame by simp
next
  case (Some r)
  show ?thesis using cache_get_hit [OF assms Some] by (metis add_Suc add.commute plus_1_eq_Suc)
qed

lemma cache_get_capacity:
  "cache_ok c \<Longrightarrow> sc_capacity (fst (cache_get similarity emb c text now)) = sc_capacity c"
  by (auto simp: cache_get_def Let_def evict_expired_frame cache_ok_def split: option.split)

lemma cache_step_ok:
  assumes "cache_ok c"
  shows "cache_ok (cache_step similarity emb digest c op) \<and>
         sc_capacity (cache_step similarity emb digest c op) = sc_capacity c \<and>
         gets (sc_hits (cache_step similarity emb digest c op) +
               sc_misses (cache_step similarity emb digest c op)) ops =
           gets (sc_hits c + sc_misses c) (op # ops)"
proof (cases op)
  case (GetOp q now)
  then show ?thesis by (simp add: assms cache_get_ok cache_get_counts cache_get_capacity)
next
  case (SetOp q result model agent now created)
  then show ?thesis by (simp add: assms cache_set_spec(1) cache_set_frame)
next
  case (ExpireOp now)
  then show ?thesis using assms evict_expired_ok [OF assms] evict_expired_frame [of c]
    by (simp add: cache_ok_def)
next
  case ClearOp
  then show ?thesis using assms by (simp add: cache_clear_def cache_ok_def cache_wf_def)
qed

lemma cache_steps_ok:
  "cache_ok c \<Longrightarrow>
     cache_ok (foldl (cache_step similarity emb digest) c ops) \<and>
     sc_capacity (foldl (cache_step similarity emb digest) c ops) = sc_capacity c \<and>
     sc_hits (foldl (cache_step similarity emb digest) c ops) +
       sc_misses (foldl (cache_step similarity emb digest) c ops) = gets (sc_hits c + sc_misses c) ops"
proof (induction ops arbitrary: c)
  case (Cons op ops)
  from cache_step_ok [OF Cons.prems, of similarity emb digest op ops] Cons.IH show ?case by simp
qed simp

text \<open>
  Over any history of calls the cache never exceeds its capacity, the order of use lists
  exactly the keys of the dictionary, each once, every entry lies under its own key, and hits
  and misses add up to the lookups since the last \<open>clear\<close>.
\<close>

theorem cache_history_invariant:
  assumes "cache_new capacity ttl threshold = Inr c"
  shows "let c1 = foldl (cache_step similarity emb digest) c ops
         in cache_ok c1 \<and> int (cache_size c1) \<le> capacity \<and>
            cs_hits (get_stats c1) + cs_misses (get_stats c1) = gets 0 ops"
proof -
  have "cache_ok c" "sc_capacity c = capacity" "sc_hits c + sc_misses c = 0"
    using assms by (auto simp: cache_new_def cache_ok_def cache_wf_def split: if_splits)
  with cache_steps_ok [of c similarity emb digest ops] show ?thesis
    by (auto simp: Let_def cache_ok_def cache_size_def get_stats_def)
qed

definition tiny_cache :: "nat shared_cache" where
  "tiny_cache = \<lparr>sc_capacity = 1, sc_ttl = 10, sc_threshold = 1, sc_entries = [], sc_lru = [],
                 sc_hits = 0, sc_misses = 0\<rparr>"

definition same_length :: "nat \<Rightarrow> nat \<Rightarrow> rat" where
  "same_length a b = (if a = b then 1 else 0)"

definition filled_cache :: "nat shared_cache" where
  "filled_cache = fst (cache_set length (\<lambda>t. t) tiny_cache ''ab'' ''r'' ''m'' ''a'' 0 0)"

lemma filled_cache_ok: "cache_ok filled_cache"
  unfolding filled_cache_def
  by (rule cache_set_spec(1)) (simp add: tiny_cache_def cache_ok_def cache_wf_def)

theorem cache_history_invariant_witness:
  "let c1 = foldl (cache_step same_length length (\<lambda>t. t)) tiny_cache
              [SetOp ''ab'' ''r'' ''m'' ''a'' 0 0, SetOp ''abc'' ''s'' ''m'' ''a'' 1 1, GetOp ''ab'' 2]
   in cache_ok c1 \<and> int (cache_size c1) \<le> 1 \<and>
      cs_hits (get_stats c1) + cs_misses (get_stats c1) =
        gets 0 [SetOp ''ab'' ''r'' ''m'' ''a'' 0 0, SetOp ''abc'' ''s'' ''m'' ''a'' 1 1, GetOp ''ab'' 2]"
  by (rule cache_history_invariant [of 1 10 1]) (simp add: cache_new_def tiny_cache_def)


theorem cache_get_exact_witness:
  "let live = filter (\<lambda>x. \<not> cache_expired filled_cache 5 x) (recency filled_cache);
       sim = (\<lambda>x. same_length (length ''xy'') (ce_embedding x))
   in case cache_get same_length length filled_cache ''xy'' 5 of
        (c1, None) \<Rightarrow>
          recency c1 = live \<and> list_all (\<lambda>x. sim x < sc_threshold filled_cache) live \<and>
          sc_misses c1 = sc_misses filled_cache + 1 \<and> sc_hits c1 = sc_hits filled_cache
      | (c1, Some r) \<Rightarrow>
          list_ex (\<lambda>e. r = ce_result e \<and> sc_threshold filled_cache \<le> sim e \<and>
                       list_all (\<lambda>x. sim x \<le> sim e) live \<and>
                       recency c1 = filter (\<lambda>x. ce_key x \<noteq> ce_key e) live @
                                    [e\<lparr>ce_hits := ce_hits e + 1\<rparr>]) live \<and>
          sc_hits c1 = sc_hits filled_cache + 1 \<and> sc_misses c1 = sc_misses filled_cache"
  by (rule cache_get_exact [OF filled_cache_ok])

end
