(* ===== verification/TokenBudget.thy ===== *)
theory TokenBudget
  imports Complex_Main PyText
begin

text \<open>
  Token budgets (harness/memory_rag/token_budget: constants.py, pools.py, manager.py): a pool
  with reservations, the budget of an agent with its pools, confidence gates and penalties, and
  the manager of a session that passes idle budget on. \<open>int(n * fraction)\<close> is the parameter
  \<open>part\<close>; halving and integer quotients are exact, as the floats of the code are below
  \<open>2 ^ 53\<close>. Confidence is a rational.
\<close>

subsection \<open>A pool\<close>

record token_pool =
  tp_name :: string
  tp_allocated :: int
  tp_used :: int
  tp_reserved :: int
  tp_priority :: int

definition pool_remaining :: "token_pool \<Rightarrow> int" where
  "pool_remaining p = max 0 (tp_allocated p - tp_used p - tp_reserved p)"

definition pool_usage :: "token_pool \<Rightarrow> rat" where
  "pool_usage p = (if tp_allocated p = 0 then 0 else of_int (tp_used p) / of_int (tp_allocated p))"

definition can_allocate :: "token_pool \<Rightarrow> int \<Rightarrow> bool" where
  "can_allocate p tokens \<longleftrightarrow> pool_remaining p \<ge> tokens"

definition pool_allocate :: "token_pool \<Rightarrow> int \<Rightarrow> token_pool \<times> int" where
  "pool_allocate p tokens =
     (let actual = min tokens (pool_remaining p)
      in (p\<lparr>tp_reserved := tp_reserved p + actual\<rparr>, actual))"

definition pool_commit :: "token_pool \<Rightarrow> int \<Rightarrow> token_pool" where
  "pool_commit p tokens =
     (let actual = min tokens (tp_reserved p)
      in p\<lparr>tp_used := tp_used p + actual, tp_reserved := tp_reserved p - actual\<rparr>)"

definition pool_release :: "token_pool \<Rightarrow> int \<Rightarrow> token_pool" where
  "pool_release p tokens =
     (let actual = min tokens (tp_reserved p) in p\<lparr>tp_reserved := tp_reserved p - actual\<rparr>)"

definition pool_reset :: "token_pool \<Rightarrow> token_pool" where
  "pool_reset p = p\<lparr>tp_used := 0, tp_reserved := 0\<rparr>"

subsection \<open>The budget of an agent\<close>

definition all_pools :: "string list" where
  "all_pools = [''system'', ''user'', ''rag'', ''skill'', ''tool_output'', ''conversation'']"

definition default_allocation :: "(string \<times> rat) list" where
  "default_allocation =
     [(''system'', 15 / 100), (''user'', 5 / 100), (''rag'', 30 / 100), (''skill'', 15 / 100),
      (''tool_output'', 20 / 100), (''conversation'', 15 / 100)]"

definition confidence_high :: rat where "confidence_high = 90 / 100"
definition confidence_medium :: rat where "confidence_medium = 70 / 100"

definition pool_priority :: "string \<Rightarrow> int" where
  "pool_priority n =
     (if n = ''system'' then 100
      else if n = ''user'' then 75
      else if n = ''tool_output'' \<or> n = ''conversation'' then 25
      else 50)"

record token_budget =
  tb_agent :: string
  tb_total :: int
  tb_priority :: int
  tb_allocation :: "(string \<times> rat) list"
  tb_confidence :: rat
  tb_reserve :: int
  tb_pools :: "(string \<times> token_pool) list"
  tb_session :: "string option"
  tb_failures :: "(string \<times> nat) list"
  tb_max_failures :: int
  tb_disabled :: bool

definition share :: "(rat \<Rightarrow> int \<Rightarrow> int) \<Rightarrow> (string \<times> rat) list \<Rightarrow> int \<Rightarrow> string \<Rightarrow> int" where
  "share part allocation amount n = part (dict_get allocation n 0) amount"

definition budget_new ::
  "(rat \<Rightarrow> int \<Rightarrow> int) \<Rightarrow> string \<Rightarrow> int \<Rightarrow> int \<Rightarrow> int \<Rightarrow> string option \<Rightarrow> token_budget" where
  "budget_new part agent amount priority reserve session =
     \<lparr>tb_agent = agent, tb_total = amount, tb_priority = priority, tb_allocation = default_allocation,
      tb_confidence = 0, tb_reserve = reserve,
      tb_pools = map (\<lambda>n. (n, \<lparr>tp_name = n, tp_allocated = share part default_allocation amount n,
                              tp_used = 0, tp_reserved = 0, tp_priority = pool_priority n\<rparr>)) all_pools,
      tb_session = session, tb_failures = [], tb_max_failures = 3, tb_disabled = False\<rparr>"

definition total_used :: "token_budget \<Rightarrow> int" where
  "total_used b = sum_list (map (tp_used \<circ> snd) (tb_pools b))"

definition total_remaining :: "token_budget \<Rightarrow> int" where
  "total_remaining b = max 0 (tb_total b - total_used b)"

definition budget_usage :: "token_budget \<Rightarrow> rat" where
  "budget_usage b = (if tb_total b = 0 then 0 else of_int (total_used b) / of_int (tb_total b))"

definition can_spend :: "token_budget \<Rightarrow> bool" where
  "can_spend b \<longleftrightarrow>
     (if tb_disabled b then False
      else if tb_confidence b \<ge> confidence_high then False
      else \<not> total_remaining b \<le> tb_reserve b)"

definition set_confidence :: "token_budget \<Rightarrow> rat \<Rightarrow> token_budget" where
  "set_confidence b c = b\<lparr>tb_confidence := max 0 (min 1 c)\<rparr>"

text \<open>\<open>int(n * 0.5)\<close>\<close>

definition half :: "int \<Rightarrow> int" where
  "half n = (if n < 0 then - (- n div 2) else n div 2)"

definition budget_failure :: "(rat \<Rightarrow> int \<Rightarrow> int) \<Rightarrow> token_budget \<Rightarrow> string \<Rightarrow> int \<Rightarrow> token_budget" where
  "budget_failure part b agent tokens_used =
     (let b1 = b\<lparr>tb_failures := dict_add (tb_failures b) agent 1,
                 tb_total := max 0 (tb_total b - half tokens_used)\<rparr>;
          b2 = (if tb_total b1 > 0
                then b1\<lparr>tb_pools := map (\<lambda>(n, p). (n, p\<lparr>tp_allocated :=
                                      share part (tb_allocation b1) (tb_total b1) (tp_name p)\<rparr>))
                                    (tb_pools b1)\<rparr>
                else b1)
      in if int (dict_get (tb_failures b2) agent 0) \<ge> tb_max_failures b2
         then b2\<lparr>tb_disabled := True\<rparr> else b2)"

text \<open>
  The scan of \<open>_redistribute\<close>, over the names of the pools by ascending priority: the pools
  with what has been taken so far.
\<close>

fun redistribute_scan ::
  "int \<Rightarrow> string \<Rightarrow> int \<Rightarrow> string list \<Rightarrow> (string \<times> token_pool) list \<Rightarrow> int \<Rightarrow>
     (string \<times> token_pool) list \<times> int" where
  "redistribute_scan reserve needy deficit [] pools taken = (pools, taken)"
| "redistribute_scan reserve needy deficit (n # ns) pools taken =
     (case map_of pools n of
        None \<Rightarrow> redistribute_scan reserve needy deficit ns pools taken
      | Some p \<Rightarrow>
          if n = needy then redistribute_scan reserve needy deficit ns pools taken
          else if tp_priority p \<ge> pool_priority needy
          then redistribute_scan reserve needy deficit ns pools taken
          else let available = max 0 (pool_remaining p - reserve)
            in if available \<le> 0 then redistribute_scan reserve needy deficit ns pools taken
               else let take = min available (deficit - taken);
                        pools1 = (if take > 0 then AList.update n (p\<lparr>tp_used := tp_used p + take\<rparr>) pools
                                  else pools);
                        taken1 = (if take > 0 then taken + take else taken)
                 in if taken1 \<ge> deficit then (pools1, taken1)
                    else redistribute_scan reserve needy deficit ns pools1 taken1)"

definition redistribute :: "token_budget \<Rightarrow> string \<Rightarrow> int \<Rightarrow> token_budget \<times> int" where
  "redistribute b needy deficit =
     (let order = map fst (sort_key (\<lambda>(n, p). tp_priority p) (tb_pools b));
          (pools, taken) = redistribute_scan (tb_reserve b) needy deficit order (tb_pools b) 0
      in (b\<lparr>tb_pools := pools\<rparr>, taken))"

definition budget_request :: "token_budget \<Rightarrow> string \<Rightarrow> int \<Rightarrow> token_budget \<times> int" where
  "budget_request b n tokens0 =
     (if tb_confidence b \<ge> confidence_high \<and> n \<notin> set [''system'', ''user''] then (b, 0)
      else let tokens = (if tb_confidence b \<ge> confidence_medium then half tokens0 else tokens0)
           in case map_of (tb_pools b) n of
                None \<Rightarrow> (b, 0)
              | Some p \<Rightarrow>
                  let (p1, allocated) = pool_allocate p tokens;
                      b1 = b\<lparr>tb_pools := AList.update n p1 (tb_pools b)\<rparr>
                  in if allocated < tokens
                     then (let (b2, extra) = redistribute b1 n (tokens - allocated) in (b2, allocated + extra))
                     else (b1, allocated))"

definition on_pool :: "(token_pool \<Rightarrow> token_pool) \<Rightarrow> token_budget \<Rightarrow> string \<Rightarrow> token_budget" where
  "on_pool f b n =
     (case map_of (tb_pools b) n of
        None \<Rightarrow> b
      | Some p \<Rightarrow> b\<lparr>tb_pools := AList.update n (f p) (tb_pools b)\<rparr>)"

definition budget_commit :: "token_budget \<Rightarrow> string \<Rightarrow> int \<Rightarrow> token_budget" where
  "budget_commit b n tokens = on_pool (\<lambda>p. pool_commit p tokens) b n"

definition budget_release :: "token_budget \<Rightarrow> string \<Rightarrow> int \<Rightarrow> token_budget" where
  "budget_release b n tokens = on_pool (\<lambda>p. pool_release p tokens) b n"

subsection \<open>The budgets of a session\<close>

record budget_manager =
  bm_session_budget :: int
  bm_default :: int
  bm_reserve :: int
  bm_agents :: "(string \<times> token_budget) list"

definition manager_new :: "int \<Rightarrow> int \<Rightarrow> int \<Rightarrow> budget_manager" where
  "manager_new session default_budget reserve =
     \<lparr>bm_session_budget = session, bm_default = default_budget, bm_reserve = reserve, bm_agents = []\<rparr>"

text \<open>The budget a role has in the configuration file is the parameter \<open>role_budget\<close>.\<close>

definition register_agent ::
  "(rat \<Rightarrow> int \<Rightarrow> int) \<Rightarrow> (string \<Rightarrow> int option) \<Rightarrow> budget_manager \<Rightarrow> string \<Rightarrow> int option \<Rightarrow> int \<Rightarrow>
     string option \<Rightarrow> budget_manager \<times> token_budget" where
  "register_agent part role_budget m agent budget priority session =
     (case map_of (bm_agents m) agent of
        Some b \<Rightarrow> (m, b)
      | None \<Rightarrow>
          let amount = (case budget of
                         Some n \<Rightarrow> if n \<noteq> 0 then n
                                   else (case role_budget agent of Some r \<Rightarrow> r | None \<Rightarrow> bm_default m)
                       | None \<Rightarrow> (case role_budget agent of Some r \<Rightarrow> r | None \<Rightarrow> bm_default m));
              b = budget_new part agent amount priority (bm_reserve m) session
          in (m\<lparr>bm_agents := AList.update agent b (bm_agents m)\<rparr>, b))"

definition get_budget :: "budget_manager \<Rightarrow> string \<Rightarrow> token_budget option" where
  "get_budget m agent = map_of (bm_agents m) agent"

definition get_or_create ::
  "(rat \<Rightarrow> int \<Rightarrow> int) \<Rightarrow> (string \<Rightarrow> int option) \<Rightarrow> budget_manager \<Rightarrow> string \<Rightarrow> int option \<Rightarrow> int \<Rightarrow>
     budget_manager \<times> token_budget" where
  "get_or_create part role_budget m agent budget priority =
     (case get_budget m agent of
        Some b \<Rightarrow> (m, b)
      | None \<Rightarrow> register_agent part role_budget m agent budget priority None)"

text \<open>\<open>int(give * allocated / max(total, 1))\<close>\<close>

definition proportion :: "int \<Rightarrow> int \<Rightarrow> int \<Rightarrow> int" where
  "proportion give allocated amount =
     (let n = give * allocated; d = max amount 1 in if n < 0 then - (- n div d) else n div d)"

definition receive :: "token_budget \<Rightarrow> int \<Rightarrow> token_budget" where
  "receive b give =
     (let b1 = b\<lparr>tb_total := tb_total b + give\<rparr>
      in b1\<lparr>tb_pools := map (\<lambda>(n, p). (n, p\<lparr>tp_allocated := tp_allocated p +
                             proportion give (tp_allocated p) (tb_total b1 - give)\<rparr>)) (tb_pools b1)\<rparr>)"

text \<open>One donor over the recipients: the budgets, what each received, what the donor has left.\<close>

fun give_all ::
  "int \<Rightarrow> string list \<Rightarrow> int \<Rightarrow> (string \<times> token_budget) list \<Rightarrow> (string \<times> int) list \<Rightarrow>
     (string \<times> token_budget) list \<times> (string \<times> int) list \<times> int" where
  "give_all quarter [] left agents given = (agents, given, left)"
| "give_all quarter (r # rs) left agents given =
     (if left \<le> 0 then (agents, given, left)
      else let give = min left quarter;
               agents1 = (case map_of agents r of None \<Rightarrow> agents
                          | Some b \<Rightarrow> AList.update r (receive b give) agents);
               given1 = AList.update r (dict_get given r 0 + give) given
           in give_all quarter rs (left - give) agents1 given1)"

fun donate_all ::
  "int \<Rightarrow> string list \<Rightarrow> (string \<times> int \<times> int) list \<Rightarrow> (string \<times> token_budget) list \<Rightarrow>
     (string \<times> int) list \<Rightarrow> (string \<times> token_budget) list \<times> (string \<times> int) list" where
  "donate_all quarter rs [] agents given = (agents, given)"
| "donate_all quarter rs ((d, left, prio) # ds) agents given =
     (if left \<le> 0 then donate_all quarter rs ds agents given
      else let (agents1, given1, rest) = give_all quarter rs left agents given
           in donate_all quarter rs ds agents1 given1)"

definition idle_donors :: "budget_manager \<Rightarrow> (string \<times> int \<times> int) list" where
  "idle_donors m =
     map (\<lambda>(a, b). (a, total_remaining b - bm_reserve m, tb_priority b))
       (filter (\<lambda>(a, b). \<not> can_spend b \<and> total_remaining b > bm_reserve m) (bm_agents m))"

definition busy_recipients :: "budget_manager \<Rightarrow> (string \<times> int) list" where
  "busy_recipients m =
     map (\<lambda>(a, b). (a, tb_priority b)) (filter (\<lambda>(a, b). can_spend b) (bm_agents m))"

definition redistribute_idle :: "budget_manager \<Rightarrow> budget_manager \<times> (string \<times> int) list" where
  "redistribute_idle m =
     (if idle_donors m = [] \<or> busy_recipients m = [] then (m, [])
      else let donors = sort_key (\<lambda>(a, left, prio). prio) (idle_donors m);
               recipients = map fst (sort_key (\<lambda>(a, prio). - prio) (busy_recipients m));
               (agents, given) = donate_all (bm_default m div 4) recipients donors (bm_agents m) []
           in (m\<lparr>bm_agents := agents\<rparr>, given))"

definition reset_session :: "budget_manager \<Rightarrow> string \<Rightarrow> budget_manager \<times> nat" where
  "reset_session m session =
     (let gone = map fst (filter (\<lambda>(a, b). tb_session b = Some session) (bm_agents m))
      in (m\<lparr>bm_agents := fold AList.delete gone (bm_agents m)\<rparr>, length gone))"

definition session_totals :: "budget_manager \<Rightarrow> string \<Rightarrow> int \<times> int \<times> int" where
  "session_totals m session =
     (let bs = map snd (filter (\<lambda>(a, b). tb_session b = Some session) (bm_agents m));
          amount = sum_list (map tb_total bs); used = sum_list (map total_used bs)
      in (amount, used, amount - used))"

record manager_stats =
  ms_session_budget :: int
  ms_default :: int
  ms_reserve :: int
  ms_agents :: nat
  ms_allocated :: int
  ms_used :: int

definition manager_get_stats :: "budget_manager \<Rightarrow> manager_stats" where
  "manager_get_stats m =
     \<lparr>ms_session_budget = bm_session_budget m, ms_default = bm_default m, ms_reserve = bm_reserve m,
      ms_agents = length (bm_agents m),
      ms_allocated = sum_list (map (tb_total \<circ> snd) (bm_agents m)),
      ms_used = sum_list (map (total_used \<circ> snd) (bm_agents m))\<rparr>"

subsection \<open>Requests\<close>

definition held :: "token_pool \<Rightarrow> int" where
  "held p = tp_used p + tp_reserved p"

definition held_sum :: "(string \<times> token_pool) list \<Rightarrow> int" where
  "held_sum pools = sum_list (map (held \<circ> snd) pools)"

definition pool_ok :: "token_pool \<Rightarrow> bool" where
  "pool_ok p \<longleftrightarrow> 0 \<le> tp_used p \<and> 0 \<le> tp_reserved p"

definition budget_ok :: "token_budget \<Rightarrow> bool" where
  "budget_ok b \<longleftrightarrow> wf_dict (tb_pools b) \<and> list_all (\<lambda>(n, p). pool_ok p) (tb_pools b) \<and> 0 \<le> tb_reserve b"

text \<open>What a request may do to a pool: nothing, or take from one of lower priority.\<close>

definition drawn :: "int \<Rightarrow> string \<Rightarrow> token_pool \<Rightarrow> token_pool \<Rightarrow> bool" where
  "drawn reserve needy p q \<longleftrightarrow>
     q = p \<or>
     (q = p\<lparr>tp_used := tp_used q\<rparr> \<and> tp_used p \<le> tp_used q \<and> tp_priority p < pool_priority needy \<and>
      held q + reserve \<le> tp_allocated p)"

lemma drawn_refl [simp]: "drawn reserve needy p p"
  by (simp add: drawn_def)

lemma drawn_trans: "drawn reserve needy p q \<Longrightarrow> drawn reserve needy q r \<Longrightarrow> drawn reserve needy p r"
  by (cases p; cases q; cases r) (auto simp: drawn_def held_def)

lemma drawn_ok: "drawn reserve needy p q \<Longrightarrow> pool_ok p \<Longrightarrow> pool_ok q"
  by (cases p; cases q) (auto simp: drawn_def pool_ok_def)

definition pools_drawn ::
  "int \<Rightarrow> string \<Rightarrow> (string \<times> token_pool) list \<Rightarrow> (string \<times> token_pool) list \<Rightarrow> bool" where
  "pools_drawn reserve needy ps qs \<longleftrightarrow>
     map fst qs = map fst ps \<and> map_of qs needy = map_of ps needy \<and>
     (\<forall>n p. map_of ps n = Some p \<longrightarrow> (\<exists>q. map_of qs n = Some q \<and> drawn reserve needy p q))"

lemma pools_drawn_refl [simp]: "pools_drawn reserve needy ps ps"
  by (auto simp: pools_drawn_def)

lemma pools_drawn_trans:
  assumes "pools_drawn reserve needy ps qs" and "pools_drawn reserve needy qs rs"
  shows "pools_drawn reserve needy ps rs"
  unfolding pools_drawn_def
proof (intro conjI allI impI)
  show "map fst rs = map fst ps" "map_of rs needy = map_of ps needy"
    using assms by (simp_all add: pools_drawn_def)
  fix n p assume "map_of ps n = Some p"
  then obtain q where "map_of qs n = Some q" "drawn reserve needy p q"
    using assms(1) by (auto simp: pools_drawn_def)
  moreover from this(1) obtain r where "map_of rs n = Some r" "drawn reserve needy q r"
    using assms(2) unfolding pools_drawn_def by blast
  ultimately show "\<exists>q. map_of rs n = Some q \<and> drawn reserve needy p q"
    using drawn_trans by blast
qed

lemma take_drawn:
  assumes "map_of ps n = Some p" and "n \<noteq> needy" and "tp_priority p < pool_priority needy"
    and "0 \<le> reserve" and "0 < t" and "t \<le> pool_remaining p - reserve"
  shows "pools_drawn reserve needy ps (AList.update n (p\<lparr>tp_used := tp_used p + t\<rparr>) ps)"
    and "held_sum (AList.update n (p\<lparr>tp_used := tp_used p + t\<rparr>) ps) = held_sum ps + t"
proof -
  have "pool_remaining p > 0" using assms(4-6) by simp
  then have r: "pool_remaining p = tp_allocated p - tp_used p - tp_reserved p"
    by (simp add: pool_remaining_def)
  have k: "n \<in> fst ` set ps" using assms(1) by (metis map_of_eq_None_iff option.distinct(1))
  have d: "drawn reserve needy p (p\<lparr>tp_used := tp_used p + t\<rparr>)"
    using assms r by (simp add: drawn_def held_def)
  show "pools_drawn reserve needy ps (AList.update n (p\<lparr>tp_used := tp_used p + t\<rparr>) ps)"
    using assms(1,2) d k by (auto simp: pools_drawn_def dict_keys_update)
  show "held_sum (AList.update n (p\<lparr>tp_used := tp_used p + t\<rparr>) ps) = held_sum ps + t"
    using assms(1) by (simp add: held_sum_def sum_dict_update held_def)
qed

lemma redistribute_scan_spec:
  assumes "0 \<le> reserve" and "0 \<le> taken" and "taken < deficit"
  shows "case redistribute_scan reserve needy deficit ns pools taken of
           (pools1, taken1) \<Rightarrow>
             pools_drawn reserve needy pools pools1 \<and> taken \<le> taken1 \<and> taken1 \<le> deficit \<and>
             held_sum pools1 = held_sum pools + (taken1 - taken)"
  using assms
proof (induction ns arbitrary: pools taken)
  case Nil
  then show ?case by simp
next
  case (Cons n ns)
  note IH = Cons.IH [OF assms(1)]
  show ?case
  proof (cases "map_of pools n")
    case None
    then show ?thesis using IH [of taken pools] Cons.prems by simp
  next
    case (Some p)
    show ?thesis
    proof (cases "n = needy \<or> tp_priority p \<ge> pool_priority needy \<or> pool_remaining p - reserve \<le> 0")
      case True
      then show ?thesis using Some IH [of taken pools] Cons.prems by (auto simp: Let_def)
    next
      case False
      let ?t = "min (pool_remaining p - reserve) (deficit - taken)"
      have t: "0 < ?t" "?t \<le> pool_remaining p - reserve" "?t \<le> deficit - taken"
        using False Cons.prems by auto
      let ?pools = "AList.update n (p\<lparr>tp_used := tp_used p + ?t\<rparr>) pools"
      have d: "pools_drawn reserve needy pools ?pools" "held_sum ?pools = held_sum pools + ?t"
        using take_drawn [OF Some _ _ assms(1) t(1,2), of needy] False by auto
      have step: "redistribute_scan reserve needy deficit (n # ns) pools taken =
          (if taken + ?t \<ge> deficit then (?pools, taken + ?t)
           else redistribute_scan reserve needy deficit ns ?pools (taken + ?t))"
        using Some False t(1) by (simp add: Let_def max_def)
      show ?thesis
      proof (cases "taken + ?t \<ge> deficit")
        case True
        with d t show ?thesis unfolding step by simp
      next
        case False
        with IH [of "taken + ?t" ?pools] d t Cons.prems(2) pools_drawn_trans [OF d(1)] show ?thesis
          unfolding step by (auto split: prod.splits)
      qed
    qed
  qed
qed

lemma wf_dict_keys: "map fst d' = map fst d \<Longrightarrow> wf_dict d' = wf_dict d"
  by (simp add: wf_dict_def)

lemma pools_drawn_ok:
  assumes "pools_drawn reserve needy ps qs" and "wf_dict ps" and "list_all (\<lambda>(n, p). pool_ok p) ps"
  shows "wf_dict qs" and "list_all (\<lambda>(n, p). pool_ok p) qs"
proof -
  show w: "wf_dict qs" using assms(1,2) wf_dict_keys by (simp add: pools_drawn_def) blast
  have "pool_ok q" if q: "(n, q) \<in> set qs" for n q
  proof -
    have "fst ` set qs = fst ` set ps" using assms(1) by (metis pools_drawn_def list.set_map)
    then obtain p where p: "(n, p) \<in> set ps" using q by force
    then have "map_of ps n = Some p" using wf_dict_get [OF assms(2)] by simp
    then have "drawn reserve needy p q" using assms(1) q wf_dict_get [OF w] by (fastforce simp: pools_drawn_def)
    with p assms(3) show ?thesis using drawn_ok by (auto simp: list_all_iff)
  qed
  then show "list_all (\<lambda>(n, p). pool_ok p) qs" by (auto simp: list_all_iff)
qed

lemma redistribute_spec:
  assumes "0 \<le> tb_reserve b" and "0 < deficit"
  shows "case redistribute b needy deficit of
           (b1, taken) \<Rightarrow>
             b1 = b\<lparr>tb_pools := tb_pools b1\<rparr> \<and> 0 \<le> taken \<and> taken \<le> deficit \<and>
             pools_drawn (tb_reserve b) needy (tb_pools b) (tb_pools b1) \<and>
             held_sum (tb_pools b1) = held_sum (tb_pools b) + taken"
proof -
  let ?order = "map fst (sort_key (\<lambda>(n, p). tp_priority p) (tb_pools b))"
  show ?thesis
    using redistribute_scan_spec [where needy = needy and ns = ?order and pools = "tb_pools b",
        OF assms(1) order.refl assms(2)]
    by (cases "redistribute_scan (tb_reserve b) needy deficit ?order (tb_pools b) 0")
      (simp add: redistribute_def Let_def)
qed

text \<open>The tokens a request is about, after the gate of medium confidence.\<close>

definition asked_tokens :: "token_budget \<Rightarrow> int \<Rightarrow> int" where
  "asked_tokens b tokens = (if tb_confidence b \<ge> confidence_medium then half tokens else tokens)"

lemma asked_tokens_bounds: "0 \<le> tokens \<Longrightarrow> 0 \<le> asked_tokens b tokens \<and> asked_tokens b tokens \<le> tokens"
  by (auto simp: asked_tokens_def half_def)

definition own_grant :: "token_pool \<Rightarrow> int \<Rightarrow> int" where
  "own_grant p tokens = min tokens (pool_remaining p)"

definition reserve_in :: "token_budget \<Rightarrow> string \<Rightarrow> token_pool \<Rightarrow> int \<Rightarrow> (string \<times> token_pool) list" where
  "reserve_in b n p own = AList.update n (p\<lparr>tp_reserved := tp_reserved p + own\<rparr>) (tb_pools b)"

lemma budget_request_cases:
  assumes ok: "budget_ok b" and t: "0 \<le> tokens"
  obtains (refused) "budget_request b n tokens = (b, 0)"
      "map_of (tb_pools b) n = None \<or> (tb_confidence b \<ge> confidence_high \<and> n \<notin> set [''system'', ''user''])"
  | (granted) p extra qs where "map_of (tb_pools b) n = Some p"
      "budget_request b n tokens =
         (b\<lparr>tb_pools := qs\<rparr>, own_grant p (asked_tokens b tokens) + extra)"
      "pools_drawn (tb_reserve b) n (reserve_in b n p (own_grant p (asked_tokens b tokens))) qs"
      "0 \<le> extra" "own_grant p (asked_tokens b tokens) + extra \<le> asked_tokens b tokens"
      "held_sum qs = held_sum (tb_pools b) + own_grant p (asked_tokens b tokens) + extra"
proof (cases "map_of (tb_pools b) n = None \<or>
    (tb_confidence b \<ge> confidence_high \<and> n \<notin> set [''system'', ''user''])")
  case True
  then show ?thesis by (intro refused) (auto simp: budget_request_def Let_def)
next
  case False
  then obtain p where p: "map_of (tb_pools b) n = Some p" by auto
  let ?t = "asked_tokens b tokens" and ?own = "own_grant p (asked_tokens b tokens)"
  let ?ps = "reserve_in b n p ?own"
  have h: "held_sum ?ps = held_sum (tb_pools b) + ?own"
    using p by (simp add: held_sum_def sum_dict_update held_def reserve_in_def)
  have req: "budget_request b n tokens =
      (if ?own < ?t
       then (case redistribute (b\<lparr>tb_pools := ?ps\<rparr>) n (?t - ?own) of (b2, extra) \<Rightarrow> (b2, ?own + extra))
       else (b\<lparr>tb_pools := ?ps\<rparr>, ?own))"
  proof -
    have ng: "(confidence_high \<le> tb_confidence b \<and> n \<notin> set [''system'', ''user'']) = False"
      using False by blast
    show ?thesis
      unfolding budget_request_def ng if_False
      using p by (simp add: pool_allocate_def Let_def asked_tokens_def own_grant_def reserve_in_def)
  qed
  show ?thesis
  proof (cases "?own < ?t")
    case True
    obtain b2 extra where r: "redistribute (b\<lparr>tb_pools := ?ps\<rparr>) n (?t - ?own) = (b2, extra)" by fastforce
    have "0 \<le> tb_reserve b" using ok by (simp add: budget_ok_def)
    with redistribute_spec [of "b\<lparr>tb_pools := ?ps\<rparr>" "?t - ?own" n] r True
    have r2: "b2 = b\<lparr>tb_pools := tb_pools b2\<rparr>" "0 \<le> extra" "extra \<le> ?t - ?own"
      "pools_drawn (tb_reserve b) n ?ps (tb_pools b2)" "held_sum (tb_pools b2) = held_sum ?ps + extra"
      by simp_all
    have "budget_request b n tokens = (b\<lparr>tb_pools := tb_pools b2\<rparr>, ?own + extra)"
      using req True r r2(1) by simp
    from granted [OF p this r2(4,2)] r2(3,5) h show ?thesis by simp
  next
    case False
    then have "?own = ?t" by (simp add: own_grant_def)
    with granted [OF p, of ?ps 0] req False h show ?thesis by simp
  qed
qed

lemma reserve_in_ok:
  assumes "budget_ok b" and "map_of (tb_pools b) n = Some p" and "0 \<le> own"
  shows "wf_dict (reserve_in b n p own)" and "list_all (\<lambda>(n, p). pool_ok p) (reserve_in b n p own)"
proof -
  have w: "wf_dict (tb_pools b)" "list_all (\<lambda>(n, p). pool_ok p) (tb_pools b)"
    using assms(1) by (simp_all add: budget_ok_def)
  have "pool_ok p" using w assms(2) wf_dict_get [OF w(1), of n p] by (auto simp: list_all_iff)
  then show "wf_dict (reserve_in b n p own)" "list_all (\<lambda>(n, p). pool_ok p) (reserve_in b n p own)"
    using w assms(3) by (auto simp: reserve_in_def list_all_iff set_dict_update pool_ok_def)
qed

lemma budget_request_ok:
  assumes "budget_ok b" and "0 \<le> tokens"
  shows "budget_ok (fst (budget_request b n tokens))"
  using assms
proof (cases rule: budget_request_cases [OF assms, of n, case_names refused granted])
  case refused
  then show ?thesis using assms by simp
next
  case (granted p extra qs)
  have "0 \<le> own_grant p (asked_tokens b tokens)"
    using asked_tokens_bounds [OF assms(2), of b] by (simp add: own_grant_def pool_remaining_def)
  from pools_drawn_ok [OF granted(3) reserve_in_ok [OF assms(1) granted(1) this]] granted(2) assms(1)
  show ?thesis by (simp add: budget_ok_def)
qed

lemma request_effect:
  assumes "budget_ok b" and "0 \<le> tokens"
  shows "case budget_request b n tokens of
           (b1, granted) \<Rightarrow>
             0 \<le> granted \<and> granted \<le> tokens \<and> budget_ok b1 \<and>
             held_sum (tb_pools b1) = held_sum (tb_pools b) + granted \<and>
             list_all (\<lambda>(m, p).
               case map_of (tb_pools b1) m of
                 None \<Rightarrow> False
               | Some q \<Rightarrow>
                   tp_allocated q = tp_allocated p \<and>
                   (held q = held p \<or>
                    (held p < held q \<and> held q \<le> tp_allocated q \<and>
                     (m = n \<or> (tp_priority p < pool_priority n \<and> held q + tb_reserve b \<le> tp_allocated q)))))
               (tb_pools b)"
  using assms
proof (cases rule: budget_request_cases [OF assms, of n, case_names refused granted])
  case refused
  have "wf_dict (tb_pools b)" using assms(1) by (simp add: budget_ok_def)
  then show ?thesis using refused assms by (auto simp: list_all_iff wf_dict_get)
next
  case (granted p extra qs)
  let ?t = "asked_tokens b tokens" and ?own = "own_grant p (asked_tokens b tokens)"
  have own: "0 \<le> ?own" "?own \<le> pool_remaining p"
    using asked_tokens_bounds [OF assms(2), of b] by (simp_all add: own_grant_def pool_remaining_def)
  have w: "wf_dict (tb_pools b)" "0 \<le> tb_reserve b" using assms(1) by (simp_all add: budget_ok_def)
  let ?q = "p\<lparr>tp_reserved := tp_reserved p + ?own\<rparr>"
  have n: "map_of qs n = Some ?q" using granted(3) by (simp add: pools_drawn_def reserve_in_def)
  have own_fits: "held ?q = held p \<or> (held p < held ?q \<and> held ?q \<le> tp_allocated p)"
    using own by (auto simp: held_def pool_remaining_def)
  have others: "case map_of qs m of
      None \<Rightarrow> False
    | Some q \<Rightarrow>
        tp_allocated q = tp_allocated x \<and>
        (held q = held x \<or>
         (held x < held q \<and> held q \<le> tp_allocated q \<and>
          (m = n \<or> (tp_priority x < pool_priority n \<and> held q + tb_reserve b \<le> tp_allocated q))))"
    if x: "map_of (tb_pools b) m = Some x" for m x
  proof (cases "m = n")
    case True
    with x granted(1) n own_fits show ?thesis by simp
  next
    case False
    with x have "map_of (reserve_in b n p ?own) m = Some x" by (simp add: reserve_in_def)
    then obtain q where q: "map_of qs m = Some q" "drawn (tb_reserve b) n x q"
      using granted(3) by (auto simp: pools_drawn_def)
    with w(2) show ?thesis
      by (cases x; cases q) (auto simp: drawn_def held_def)
  qed
  have "0 \<le> ?own + extra" "?own + extra \<le> tokens"
    using own(1) granted(4,5) asked_tokens_bounds [OF assms(2), of b] by simp_all
  with granted(2,6) budget_request_ok [OF assms, of n] others show ?thesis
    by (auto simp: list_all_iff wf_dict_get [OF w(1)])
qed

text \<open>
  A request grants between nothing and what was asked, and exactly what it grants is taken out
  of the pools. The pool asked reserves what it has left, so it never exceeds its allocation;
  any other pool that gives has a lower priority and keeps the minimum reserve.
\<close>

theorem request_conserves:
  assumes "budget_ok b" and "0 \<le> tokens"
  shows "case budget_request b n tokens of
           (b1, granted) \<Rightarrow>
             0 \<le> granted \<and> granted \<le> tokens \<and> budget_ok b1 \<and>
             held_sum (tb_pools b1) = held_sum (tb_pools b) + granted \<and>
             list_all (\<lambda>(m, p).
               case map_of (tb_pools b1) m of
                 None \<Rightarrow> False
               | Some q \<Rightarrow>
                   tp_allocated q = tp_allocated p \<and>
                   (held q = held p \<or>
                    (held p < held q \<and> held q \<le> tp_allocated q \<and>
                     (m = n \<or> (tp_priority p < pool_priority n \<and> held q + tb_reserve b \<le> tp_allocated q)))))
               (tb_pools b)"
  by (rule request_effect [OF assms])

lemma budget_new_ok: "0 \<le> reserve \<Longrightarrow> budget_ok (budget_new part agent n priority reserve session)"
  by (simp add: budget_ok_def budget_new_def wf_dict_def all_pools_def pool_ok_def)

definition floor_part :: "rat \<Rightarrow> int \<Rightarrow> int" where
  "floor_part f n = \<lfloor>f * of_int n\<rfloor>"

definition sample_budget :: token_budget where
  "sample_budget = budget_new floor_part ''guardian'' 4000 50 500 None"

lemma sample_budget_ok: "budget_ok sample_budget"
  unfolding sample_budget_def by (rule budget_new_ok) simp

theorem request_conserves_witness:
  "case budget_request sample_budget ''rag'' 1500 of
     (b1, granted) \<Rightarrow>
       0 \<le> granted \<and> granted \<le> 1500 \<and> budget_ok b1 \<and>
       held_sum (tb_pools b1) = held_sum (tb_pools sample_budget) + granted \<and>
       list_all (\<lambda>(m, p).
         case map_of (tb_pools b1) m of
           None \<Rightarrow> False
         | Some q \<Rightarrow>
             tp_allocated q = tp_allocated p \<and>
             (held q = held p \<or>
              (held p < held q \<and> held q \<le> tp_allocated q \<and>
               (m = ''rag'' \<or> (tp_priority p < pool_priority ''rag'' \<and>
                 held q + tb_reserve sample_budget \<le> tp_allocated q)))))
         (tb_pools sample_budget)"
  by (rule request_conserves [OF sample_budget_ok]) simp

subsection \<open>A history without failures\<close>

datatype budget_op = RequestOp string nat | CommitOp string nat | ReleaseOp string nat | ConfidenceOp rat

fun budget_step :: "token_budget \<Rightarrow> budget_op \<Rightarrow> token_budget" where
  "budget_step b (RequestOp n t) = fst (budget_request b n (int t))"
| "budget_step b (CommitOp n t) = budget_commit b n (int t)"
| "budget_step b (ReleaseOp n t) = budget_release b n (int t)"
| "budget_step b (ConfidenceOp c) = set_confidence b c"

definition allocations :: "token_budget \<Rightarrow> (string \<times> int) list" where
  "allocations b = map (\<lambda>(n, p). (n, tp_allocated p)) (tb_pools b)"

definition fits :: "token_budget \<Rightarrow> bool" where
  "fits b \<longleftrightarrow> budget_ok b \<and> list_all (\<lambda>(n, p). held p \<le> tp_allocated p) (tb_pools b)"

lemma same_shape:
  assumes "map fst ds = map fst d" and "wf_dict d"
    and "\<And>n p. map_of d n = Some p \<Longrightarrow> \<exists>q. map_of ds n = Some q \<and> f q = f p"
  shows "map (\<lambda>(n, p). (n, f p)) ds = map (\<lambda>(n, p). (n, f p)) d"
proof (rule nth_equalityI)
  show "length (map (\<lambda>(n, p). (n, f p)) ds) = length (map (\<lambda>(n, p). (n, f p)) d)"
    using assms(1) by (metis length_map)
  fix i assume "i < length (map (\<lambda>(n, p). (n, f p)) ds)"
  then have i: "i < length ds" "i < length d" using assms(1) by (metis length_map)+
  obtain n q where q: "ds ! i = (n, q)" by fastforce
  obtain m p where p: "d ! i = (m, p)" by fastforce
  have "n = m" using assms(1) i p q by (metis fst_conv nth_map)
  have w: "wf_dict ds" using assms(1,2) by (simp add: wf_dict_def)
  have "map_of ds n = Some q" "map_of d m = Some p"
    using i p q wf_dict_get [OF w] wf_dict_get [OF assms(2)] nth_mem by metis+
  with assms(3) [of m p] \<open>n = m\<close> i p q
  show "map (\<lambda>(n, p). (n, f p)) ds ! i = map (\<lambda>(n, p). (n, f p)) d ! i" by auto
qed

lemma budget_request_keys:
  assumes "budget_ok b" and "0 \<le> tokens"
  shows "map fst (tb_pools (fst (budget_request b n tokens))) = map fst (tb_pools b) \<and>
         tb_total (fst (budget_request b n tokens)) = tb_total b"
  using assms
proof (cases rule: budget_request_cases [OF assms, of n, case_names refused granted])
  case (granted p extra qs)
  have "n \<in> fst ` set (tb_pools b)" using granted(1) by (metis map_of_eq_None_iff option.distinct(1))
  with granted show ?thesis by (simp add: pools_drawn_def reserve_in_def dict_keys_update)
qed simp

lemma fits_request:
  assumes "fits b" and "0 \<le> tokens"
  shows "fits (fst (budget_request b n tokens))"
    and "allocations (fst (budget_request b n tokens)) = allocations b"
proof -
  let ?b = "fst (budget_request b n tokens)"
  have ok: "budget_ok b" and w: "wf_dict (tb_pools b)"
    using assms(1) by (simp_all add: fits_def budget_ok_def)
  have ok1: "budget_ok ?b" by (rule budget_request_ok [OF ok assms(2)])
  then have w1: "wf_dict (tb_pools ?b)" by (simp add: budget_ok_def)
  have e: "\<exists>q. map_of (tb_pools ?b) m = Some q \<and> tp_allocated q = tp_allocated p \<and>
      (held q = held p \<or> held q \<le> tp_allocated q)" if mp: "map_of (tb_pools b) m = Some p" for m p
  proof -
    obtain b1 g where r: "budget_request b n tokens = (b1, g)" by fastforce
    have mem: "(m, p) \<in> set (tb_pools b)" using mp wf_dict_get [OF w] by simp
    from request_effect [OF ok assms(2), of n] show ?thesis
      unfolding r list_all_iff by (auto dest!: bspec [OF _ mem] split: option.splits)
  qed
  then show "allocations ?b = allocations b"
    unfolding allocations_def using budget_request_keys [OF ok assms(2), of n] w
    by (intro same_shape) blast+
  have "held q \<le> tp_allocated q" if q: "map_of (tb_pools ?b) m = Some q" for m q
  proof -
    have "m \<in> fst ` set (tb_pools b)"
      using q budget_request_keys [OF ok assms(2), of n]
      by (metis list.set_map map_of_eq_None_iff option.distinct(1))
    then obtain p where p: "map_of (tb_pools b) m = Some p" by (metis map_of_eq_None_iff not_Some_eq)
    then have "(m, p) \<in> set (tb_pools b)" using wf_dict_get [OF w] by simp
    then have "held p \<le> tp_allocated p"
      using assms(1) by (auto simp: fits_def list_all_iff)
    with e [OF p] q show ?thesis by auto
  qed
  then show "fits ?b" using ok1 by (auto simp: fits_def list_all_iff wf_dict_get [OF w1])
qed

lemma fits_on_pool:
  assumes "fits b" and "\<And>p. pool_ok p \<Longrightarrow> pool_ok (f p) \<and> held (f p) \<le> held p \<and> tp_allocated (f p) = tp_allocated p"
  shows "fits (on_pool f b n)" and "allocations (on_pool f b n) = allocations b"
proof -
  have w: "wf_dict (tb_pools b)" "list_all (\<lambda>(n, p). pool_ok p) (tb_pools b)" "0 \<le> tb_reserve b"
    "list_all (\<lambda>(n, p). held p \<le> tp_allocated p) (tb_pools b)"
    using assms(1) by (simp_all add: fits_def budget_ok_def)
  show "fits (on_pool f b n)"
  proof (cases "map_of (tb_pools b) n")
    case None
    then show ?thesis using assms(1) by (simp add: on_pool_def)
  next
    case (Some p)
    then have "pool_ok p" "held p \<le> tp_allocated p"
      using w wf_dict_get [OF w(1), of n p] by (auto simp: list_all_iff)
    with assms(2) [of p] w Some show ?thesis
      by (auto simp: on_pool_def fits_def budget_ok_def list_all_iff set_dict_update)
  qed
  show "allocations (on_pool f b n) = allocations b"
  proof (cases "map_of (tb_pools b) n")
    case (Some p)
    then have "pool_ok p" using w wf_dict_get [OF w(1), of n p] by (auto simp: list_all_iff)
    have k: "n \<in> fst ` set (tb_pools b)" using Some by (metis map_of_eq_None_iff option.distinct(1))
    show ?thesis unfolding allocations_def
      using Some k assms(2) [OF \<open>pool_ok p\<close>] w(1)
      by (intro same_shape) (auto simp: on_pool_def dict_keys_update)
  qed (simp add: on_pool_def)
qed

lemma fits_step:
  assumes "fits b"
  shows "fits (budget_step b op) \<and> allocations (budget_step b op) = allocations b \<and>
         tb_total (budget_step b op) = tb_total b"
proof (cases op)
  case (RequestOp n t)
  have "budget_ok b" using assms by (simp add: fits_def)
  with RequestOp fits_request [OF assms] budget_request_keys show ?thesis by simp
next
  case (CommitOp n t)
  have "pool_ok p \<Longrightarrow> pool_ok (pool_commit p (int t)) \<and> held (pool_commit p (int t)) \<le> held p \<and>
      tp_allocated (pool_commit p (int t)) = tp_allocated p" for p
    by (simp add: pool_commit_def pool_ok_def held_def Let_def)
  note fits_on_pool [OF assms this, of n]
  moreover have "tb_total (budget_commit b n (int t)) = tb_total b"
    by (simp add: budget_commit_def on_pool_def split: option.split)
  ultimately show ?thesis using CommitOp by (simp add: budget_commit_def)
next
  case (ReleaseOp n t)
  have "pool_ok p \<Longrightarrow> pool_ok (pool_release p (int t)) \<and> held (pool_release p (int t)) \<le> held p \<and>
      tp_allocated (pool_release p (int t)) = tp_allocated p" for p
    by (simp add: pool_release_def pool_ok_def held_def Let_def)
  note fits_on_pool [OF assms this, of n]
  moreover have "tb_total (budget_release b n (int t)) = tb_total b"
    by (simp add: budget_release_def on_pool_def split: option.split)
  ultimately show ?thesis using ReleaseOp by (simp add: budget_release_def)
next
  case (ConfidenceOp c)
  then show ?thesis using assms by (simp add: set_confidence_def fits_def budget_ok_def allocations_def)
qed

lemma fits_steps:
  "fits b \<Longrightarrow> fits (foldl budget_step b ops) \<and> allocations (foldl budget_step b ops) = allocations b \<and>
     tb_total (foldl budget_step b ops) = tb_total b"
proof (induction ops arbitrary: b)
  case (Cons op ops)
  from fits_step [OF Cons.prems, of op] Cons.IH show ?case by simp
qed simp

lemma fits_used: "fits b \<Longrightarrow> total_used b \<le> sum_list (map snd (allocations b))"
proof -
  assume "fits b"
  then have "tp_used p \<le> tp_allocated p" if "(n, p) \<in> set (tb_pools b)" for n p
    using that by (fastforce simp: fits_def budget_ok_def list_all_iff pool_ok_def held_def)
  then show ?thesis
    unfolding total_used_def allocations_def map_map
    by (intro sum_list_mono) auto
qed

text \<open>
  Whatever is requested, committed and released, and however confident the agent becomes, the
  pools of a new budget together never use more than its total, provided their shares are not
  negative and fit in it.
\<close>

theorem budget_never_overspent:
  assumes "0 \<le> reserve" and "list_all (\<lambda>m. 0 \<le> share part default_allocation n m) all_pools"
    and "sum_list (map (share part default_allocation n) all_pools) \<le> n"
  shows "let b = foldl budget_step (budget_new part agent n priority reserve session) ops
         in total_used b \<le> n \<and> tb_total b = n \<and>
            list_all (\<lambda>(m, p). 0 \<le> held p \<and> held p \<le> share part default_allocation n m) (tb_pools b)"
proof -
  let ?start = "budget_new part agent n priority reserve session"
  let ?b = "foldl budget_step ?start ops"
  have "fits ?start"
    using budget_new_ok [OF assms(1)] assms(2)
    by (simp add: fits_def) (simp add: budget_new_def held_def list_all_iff)
  moreover have "tb_total ?start = n" by (simp add: budget_new_def)
  ultimately have f: "fits ?b" "allocations ?b = allocations ?start" "tb_total ?b = n"
    using fits_steps [of ?start ops] by simp_all
  have a: "allocations ?start = map (\<lambda>m. (m, share part default_allocation n m)) all_pools"
    by (simp add: allocations_def budget_new_def)
  have "total_used ?b \<le> n"
    using fits_used [OF f(1)] assms(3) unfolding f(2) a by (simp add: comp_def)
  moreover have "0 \<le> held p \<and> held p \<le> share part default_allocation n m" if mp: "(m, p) \<in> set (tb_pools ?b)" for m p
  proof -
    have "(m, tp_allocated p) \<in> set (allocations ?b)"
      using mp by (force simp: allocations_def)
    then have "tp_allocated p = share part default_allocation n m" unfolding f(2) a by auto
    with mp f(1) show ?thesis by (auto simp: fits_def budget_ok_def list_all_iff pool_ok_def held_def)
  qed
  ultimately show ?thesis using f(3) by (auto simp: Let_def list_all_iff)
qed

theorem budget_never_overspent_witness:
  "let b = foldl budget_step (budget_new floor_part ''guardian'' 4000 50 500 None)
             [RequestOp ''system'' 900, CommitOp ''system'' 900, ConfidenceOp (8 / 10), RequestOp ''rag'' 99]
   in total_used b \<le> 4000 \<and> tb_total b = 4000 \<and>
      list_all (\<lambda>(m, p). 0 \<le> held p \<and> held p \<le> share floor_part default_allocation 4000 m) (tb_pools b)"
  by (rule budget_never_overspent)
    (simp_all add: all_pools_def share_def default_allocation_def dict_get_def floor_part_def)

subsection \<open>Failures and releases\<close>

lemma redistribute_disabled:
  "redistribute (b\<lparr>tb_disabled := d\<rparr>) n k =
     (fst (redistribute b n k)\<lparr>tb_disabled := d\<rparr>, snd (redistribute b n k))"
  by (simp add: redistribute_def Let_def split: prod.split)

lemma budget_request_disabled:
  "budget_request (b\<lparr>tb_disabled := d\<rparr>) n t =
     (fst (budget_request b n t)\<lparr>tb_disabled := d\<rparr>, snd (budget_request b n t))"
proof -
  have r: "redistribute (b\<lparr>tb_disabled := d, tb_pools := ps\<rparr>) n k =
      (fst (redistribute (b\<lparr>tb_pools := ps\<rparr>) n k)\<lparr>tb_disabled := d\<rparr>, snd (redistribute (b\<lparr>tb_pools := ps\<rparr>) n k))"
    for ps k
  proof -
    have "b\<lparr>tb_disabled := d, tb_pools := ps\<rparr> = b\<lparr>tb_pools := ps, tb_disabled := d\<rparr>" by (cases b) simp
    then show ?thesis by (simp only: redistribute_disabled)
  qed
  show ?thesis
    by (simp add: budget_request_def Let_def r split_beta split: option.split prod.split)
qed

lemma budget_failure_fields:
  "tb_failures (budget_failure part b agent t) = dict_add (tb_failures b) agent 1"
  "tb_max_failures (budget_failure part b agent t) = tb_max_failures b"
  "tb_disabled (budget_failure part b agent t) =
     (tb_disabled b \<or> tb_max_failures b \<le> int (dict_get (tb_failures b) agent 0 + 1))"
  "tb_total (budget_failure part b agent t) = max 0 (tb_total b - half t)"
  by (auto simp: budget_failure_def Let_def dict_get_add)

lemma budget_failures_disabled:
  assumes "tb_disabled b = (tb_max_failures b \<le> int (dict_get (tb_failures b) agent 0))"
  shows "tb_disabled (foldl (\<lambda>b t. budget_failure part b agent t) b ts) =
           (tb_max_failures b \<le> int (dict_get (tb_failures b) agent 0 + length ts))"
  using assms
proof (induction ts arbitrary: b)
  case (Cons t ts)
  have "tb_disabled (budget_failure part b agent t) =
      (tb_max_failures (budget_failure part b agent t) \<le>
       int (dict_get (tb_failures (budget_failure part b agent t)) agent 0))"
    using Cons.prems by (auto simp: budget_failure_fields dict_get_add)
  from Cons.IH [OF this] show ?case by (simp add: budget_failure_fields dict_get_add)
qed simp

text \<open>
  From the third failure on a budget is disabled and \<open>can_spend\<close> says no, but \<open>request\<close> looks at
  neither: a disabled budget grants exactly what it would grant otherwise.
\<close>

theorem disabled_still_grants:
  "let b = foldl (\<lambda>b t. budget_failure part b agent t) (budget_new part owner n priority reserve session) ts
   in tb_disabled b = (3 \<le> length ts) \<and>
      (if 3 \<le> length ts then \<not> can_spend b else True) \<and>
      snd (budget_request b pool tokens) = snd (budget_request (b\<lparr>tb_disabled := False\<rparr>) pool tokens)"
proof -
  let ?start = "budget_new part owner n priority reserve session"
  have "tb_disabled ?start = (tb_max_failures ?start \<le> int (dict_get (tb_failures ?start) agent 0))"
    by (simp add: budget_new_def dict_get_def)
  from budget_failures_disabled [OF this, of part ts]
  have "tb_disabled (foldl (\<lambda>b t. budget_failure part b agent t) ?start ts) = (3 \<le> length ts)"
    by (simp add: budget_new_def dict_get_def)
  then show ?thesis by (simp add: Let_def can_spend_def budget_request_disabled)
qed

text \<open>A penalty that takes the whole budget leaves the allocations of the pools as they were.\<close>

lemma penalty_to_zero:
  "tb_total b \<le> half t \<Longrightarrow>
     tb_total (budget_failure part b agent t) = 0 \<and> tb_pools (budget_failure part b agent t) = tb_pools b"
  by (auto simp: budget_failure_def Let_def max_def)

text \<open>
  What a request takes from other pools is booked there as used, not as reserved, so releasing
  a grant does not give it back: after a request whose tokens were not needed at all, the
  tokens taken from the other pools stay lost.
\<close>

theorem release_loses_redistributed:
  assumes "budget_ok b" and "0 \<le> tokens" and "map_of (tb_pools b) n = Some p" and "tp_reserved p = 0"
    and "tb_confidence b < confidence_high \<or> n \<in> set [''system'', ''user'']"
  shows "case budget_request b n tokens of
           (b1, granted) \<Rightarrow>
             held_sum (tb_pools (budget_release b1 n granted)) =
               held_sum (tb_pools b) + (granted - own_grant p (asked_tokens b tokens))"
  using assms(1,2)
proof (cases rule: budget_request_cases [OF assms(1,2), of n, case_names refused granted])
  case refused
  with assms(3,5) show ?thesis by auto
next
  case (granted p' extra qs)
  have p: "p' = p" using granted(1) assms(3) by simp
  let ?own = "own_grant p (asked_tokens b tokens)"
  have own: "0 \<le> ?own"
    using asked_tokens_bounds [OF assms(2), of b] by (simp add: own_grant_def pool_remaining_def)
  have n: "map_of qs n = Some (p\<lparr>tp_reserved := tp_reserved p + ?own\<rparr>)"
    using granted(3) by (simp add: pools_drawn_def reserve_in_def p)
  have "held_sum (tb_pools (budget_release (b\<lparr>tb_pools := qs\<rparr>) n (?own + extra))) = held_sum qs - ?own"
    using n assms(4) own granted(4)
    by (simp add: budget_release_def on_pool_def held_sum_def sum_dict_update pool_release_def held_def)
  then show ?thesis using granted(2,6) by (simp add: p)
qed

theorem release_loses_redistributed_witness:
  "case budget_request sample_budget ''system'' 2000 of
     (b1, granted) \<Rightarrow>
       held_sum (tb_pools (budget_release b1 ''system'' granted)) =
         held_sum (tb_pools sample_budget) +
         (granted - own_grant \<lparr>tp_name = ''system'', tp_allocated = 600, tp_used = 0, tp_reserved = 0,
                               tp_priority = 100\<rparr> (asked_tokens sample_budget 2000))"
  by (rule release_loses_redistributed [OF sample_budget_ok])
    (simp_all add: sample_budget_def budget_new_def all_pools_def share_def default_allocation_def
      dict_get_def floor_part_def pool_priority_def)

subsection \<open>Idle budget\<close>

definition total_budget :: "(string \<times> token_budget) list \<Rightarrow> int" where
  "total_budget agents = sum_list (map (tb_total \<circ> snd) agents)"

lemma receive_fields [simp]:
  "tb_total (receive b give) = tb_total b + give" "tb_disabled (receive b give) = tb_disabled b"
  "tb_confidence (receive b give) = tb_confidence b" "tb_reserve (receive b give) = tb_reserve b"
  "tb_priority (receive b give) = tb_priority b"
  by (simp_all add: receive_def Let_def)

lemma receive_used [simp]: "total_used (receive b give) = total_used b"
  by (simp add: total_used_def receive_def Let_def comp_def case_prod_unfold)

lemma receive_can_spend: "can_spend b \<Longrightarrow> 0 \<le> give \<Longrightarrow> can_spend (receive b give)"
  by (auto simp: can_spend_def total_remaining_def max_def split: if_splits)

lemma give_all_spec:
  assumes "\<And>r. r \<in> set rs \<Longrightarrow> map_of agents r \<noteq> None" and "wf_dict agents" and "1 \<le> quarter"
  shows "case give_all quarter rs left agents given of
           (agents1, given1, rest) \<Rightarrow>
             wf_dict agents1 \<and>
             total_budget agents1 - total_budget agents = sum_list (map snd given1) - sum_list (map snd given) \<and>
             sum_list (map snd given) + (if rs \<noteq> [] \<and> 0 < left then 1 else 0) \<le> sum_list (map snd given1) \<and>
             (\<forall>a. a \<notin> set rs \<longrightarrow> map_of agents1 a = map_of agents a) \<and>
             (\<forall>a b. map_of agents a = Some b \<longrightarrow>
                (\<exists>c. map_of agents1 a = Some c \<and> (can_spend b \<longrightarrow> can_spend c)))"
  using assms
proof (induction rs arbitrary: left agents given)
  case Nil
  then show ?case by auto
next
  case (Cons r rs)
  show ?case
  proof (cases "left \<le> 0")
    case True
    then show ?thesis using Cons.prems by auto
  next
    case False
    obtain b where b: "map_of agents r = Some b" using Cons.prems(1) by auto
    let ?give = "min left quarter"
    let ?agents = "AList.update r (receive b ?give) agents"
    let ?given = "AList.update r (dict_get given r 0 + ?give) given"
    have g: "1 \<le> ?give" using False Cons.prems(3) by simp
    have t: "total_budget ?agents = total_budget agents + ?give"
      using b by (simp add: total_budget_def sum_dict_update)
    have s: "sum_list (map snd ?given) = sum_list (map snd given) + ?give"
      using sum_dict_update [of given r _ "\<lambda>x. x :: int"] sum_dict_fresh [of given r "\<lambda>x. x :: int"]
      by (cases "map_of given r") (simp_all add: dict_get_def comp_def)
    have dom: "\<And>x. x \<in> set rs \<Longrightarrow> map_of ?agents x \<noteq> None" using Cons.prems(1) by auto
    have w: "wf_dict ?agents" using Cons.prems(2) by simp
    have sp: "\<exists>c. map_of ?agents a = Some c \<and> (can_spend x \<longrightarrow> can_spend c)"
      if "map_of agents a = Some x" for a x
      using that b g receive_can_spend [of b ?give] by auto
    obtain agents1 given1 rest where run: "give_all quarter rs (left - ?give) ?agents ?given = (agents1, given1, rest)"
      by (metis prod_cases3)
    from Cons.IH [where left = "left - ?give" and given = ?given, OF dom w Cons.prems(3), unfolded run]
    have ih: "wf_dict agents1"
      "total_budget agents1 - total_budget ?agents = sum_list (map snd given1) - sum_list (map snd ?given)"
      "sum_list (map snd ?given) \<le> sum_list (map snd given1)"
      "\<And>a. a \<notin> set rs \<Longrightarrow> map_of agents1 a = map_of ?agents a"
      "\<And>a x. map_of ?agents a = Some x \<Longrightarrow> \<exists>c. map_of agents1 a = Some c \<and> (can_spend x \<longrightarrow> can_spend c)"
      by (auto split: if_splits)
    have step: "give_all quarter (r # rs) left agents given = (agents1, given1, rest)"
      using False b run by (simp add: Let_def)
    have last_: "\<exists>c. map_of agents1 a = Some c \<and> (can_spend x \<longrightarrow> can_spend c)"
      if "map_of agents a = Some x" for a x
      using sp [OF that] ih(5) by blast
    show ?thesis
      unfolding step using ih(1-4) t s g last_ False by auto
  qed
qed

lemma donate_all_spec:
  assumes "\<And>r. r \<in> set rs \<Longrightarrow> map_of agents r \<noteq> None" and "wf_dict agents" and "1 \<le> quarter"
  shows "case donate_all quarter rs ds agents given of
           (agents1, given1) \<Rightarrow>
             wf_dict agents1 \<and>
             total_budget agents1 - total_budget agents = sum_list (map snd given1) - sum_list (map snd given) \<and>
             sum_list (map snd given) + (if rs \<noteq> [] \<and> (\<exists>d \<in> set ds. 0 < fst (snd d)) then 1 else 0)
               \<le> sum_list (map snd given1) \<and>
             (\<forall>a. a \<notin> set rs \<longrightarrow> map_of agents1 a = map_of agents a) \<and>
             (\<forall>a b. map_of agents a = Some b \<longrightarrow>
                (\<exists>c. map_of agents1 a = Some c \<and> (can_spend b \<longrightarrow> can_spend c)))"
  using assms
proof (induction ds arbitrary: agents given)
  case Nil
  then show ?case by auto
next
  case (Cons d ds)
  obtain i left prio where d: "d = (i, left, prio)" by (metis prod_cases3)
  show ?case
  proof (cases "left \<le> 0")
    case True
    then show ?thesis using Cons.IH [OF Cons.prems, of given] by (simp add: d)
  next
    case False
    obtain agents1 given1 rest where run: "give_all quarter rs left agents given = (agents1, given1, rest)"
      by (metis prod_cases3)
    note g = give_all_spec [where rs = rs and left = left and given = given, OF Cons.prems, unfolded run]
    from g have w: "wf_dict agents1" by simp
    have dom: "map_of agents1 r \<noteq> None" if r: "r \<in> set rs" for r
    proof -
      obtain b where "map_of agents r = Some b" using Cons.prems(1) [OF r] by auto
      with g show ?thesis by fastforce
    qed
    obtain agents2 given2 where run2: "donate_all quarter rs ds agents1 given1 = (agents2, given2)"
      by fastforce
    note ih = Cons.IH [where given = given1, OF dom w Cons.prems(3), unfolded run2]
    have step: "donate_all quarter rs (d # ds) agents given = (agents2, given2)"
      using False run run2 by (simp add: d)
    have "\<exists>c. map_of agents2 a = Some c \<and> (can_spend x \<longrightarrow> can_spend c)" if "map_of agents a = Some x" for a x
    proof -
      from g have "\<exists>c. map_of agents1 a = Some c \<and> (can_spend x \<longrightarrow> can_spend c)"
        using \<open>map_of agents a = Some x\<close> unfolding prod.case by blast
      then obtain c where c: "map_of agents1 a = Some c" "can_spend x \<longrightarrow> can_spend c" by blast
      from ih have "\<exists>c'. map_of agents2 a = Some c' \<and> (can_spend c \<longrightarrow> can_spend c')"
        using c(1) unfolding prod.case by blast
      with c(2) show ?thesis by blast
    qed
    then show ?thesis
      unfolding step using g ih False by (auto split: if_splits)
  qed
qed

lemma redistribute_idle_spec:
  assumes "wf_dict (bm_agents m)" and "4 \<le> bm_default m"
    and "redistribute_idle m = (m1, given)"
  shows "wf_dict (bm_agents m1)" "bm_default m1 = bm_default m" "bm_reserve m1 = bm_reserve m"
    "total_budget (bm_agents m1) = total_budget (bm_agents m) + sum_list (map snd given)"
    "idle_donors m \<noteq> [] \<Longrightarrow> busy_recipients m \<noteq> [] \<Longrightarrow> 1 \<le> sum_list (map snd given)"
    "(a, b) \<in> set (bm_agents m) \<Longrightarrow> \<not> can_spend b \<Longrightarrow> map_of (bm_agents m1) a = Some b"
    "(a, b) \<in> set (bm_agents m) \<Longrightarrow> can_spend b \<Longrightarrow> \<exists>c. map_of (bm_agents m1) a = Some c \<and> can_spend c"
proof -
  let ?donors = "sort_key (\<lambda>(a, left, prio). prio) (idle_donors m)"
  let ?rs = "map fst (sort_key (\<lambda>(a, prio). - prio) (busy_recipients m))"
  note get = wf_dict_get [OF assms(1)]
  have rs: "r \<in> set ?rs \<longleftrightarrow> (\<exists>b. (r, b) \<in> set (bm_agents m) \<and> can_spend b)" for r
    by (force simp: busy_recipients_def)
  have "wf_dict (bm_agents m1) \<and> bm_default m1 = bm_default m \<and> bm_reserve m1 = bm_reserve m \<and>
    total_budget (bm_agents m1) = total_budget (bm_agents m) + sum_list (map snd given) \<and>
    (idle_donors m \<noteq> [] \<and> busy_recipients m \<noteq> [] \<longrightarrow> 1 \<le> sum_list (map snd given)) \<and>
    (\<forall>a. a \<notin> set ?rs \<longrightarrow> map_of (bm_agents m1) a = map_of (bm_agents m) a) \<and>
    (\<forall>a b. map_of (bm_agents m) a = Some b \<longrightarrow>
       (\<exists>c. map_of (bm_agents m1) a = Some c \<and> (can_spend b \<longrightarrow> can_spend c)))"
  proof (cases "idle_donors m = [] \<or> busy_recipients m = []")
    case True
    then show ?thesis using assms by (auto simp: redistribute_idle_def)
  next
    case False
    obtain agents1 where run: "donate_all (bm_default m div 4) ?rs ?donors (bm_agents m) [] = (agents1, given)"
      and m1: "m1 = m\<lparr>bm_agents := agents1\<rparr>"
      using assms(3) False by (auto simp: redistribute_idle_def Let_def split: prod.splits)
    have dom: "map_of (bm_agents m) r \<noteq> None" if "r \<in> set ?rs" for r
      using that unfolding rs by (auto simp: get)
    have q: "1 \<le> bm_default m div 4" using assms(2) by simp
    have "\<exists>d \<in> set ?donors. 0 < fst (snd d)"
    proof -
      obtain d where "d \<in> set (idle_donors m)" using False by (cases "idle_donors m") auto
      then show ?thesis by (auto simp: idle_donors_def)
    qed
    moreover have "?rs \<noteq> []" using False by (metis length_0_conv length_map length_sort)
    ultimately show ?thesis
      using donate_all_spec [where rs = ?rs and given = "[]" and ds = ?donors, OF dom assms(1) q, unfolded run]
      by (auto simp: m1)
  qed
  note all = this
  show "wf_dict (bm_agents m1)" "bm_default m1 = bm_default m" "bm_reserve m1 = bm_reserve m"
    "total_budget (bm_agents m1) = total_budget (bm_agents m) + sum_list (map snd given)"
    "idle_donors m \<noteq> [] \<Longrightarrow> busy_recipients m \<noteq> [] \<Longrightarrow> 1 \<le> sum_list (map snd given)"
    using all by blast+
  assume ab: "(a, b) \<in> set (bm_agents m)"
  show "map_of (bm_agents m1) a = Some b" if "\<not> can_spend b"
  proof -
    have "a \<notin> set ?rs" using ab that unfolding rs by (auto simp: get)
    with all ab show ?thesis by (simp add: get)
  qed
  show "\<exists>c. map_of (bm_agents m1) a = Some c \<and> can_spend c" if "can_spend b"
    using all ab that unfolding get by blast
qed

lemma idle_donors_iff: "idle_donors m \<noteq> [] \<longleftrightarrow>
    (\<exists>(a, b) \<in> set (bm_agents m). \<not> can_spend b \<and> total_remaining b > bm_reserve m)"
  by (auto simp: idle_donors_def filter_empty_conv)

lemma busy_recipients_iff: "busy_recipients m \<noteq> [] \<longleftrightarrow> (\<exists>(a, b) \<in> set (bm_agents m). can_spend b)"
  by (auto simp: busy_recipients_def filter_empty_conv)

text \<open>
  Passing idle budget on mints it: the donors' budgets are not reduced, so the budgets of the
  session together grow by everything the recipients receive, and as long as there is a donor
  and a recipient every further call passes the same idle budget on once more.
\<close>

theorem redistribute_mints:
  assumes "wf_dict (bm_agents m)" and "4 \<le> bm_default m"
    and "idle_donors m \<noteq> []" and "busy_recipients m \<noteq> []"
  shows "(case redistribute_idle m of
            (m1, given) \<Rightarrow>
              total_budget (bm_agents m1) = total_budget (bm_agents m) + sum_list (map snd given) \<and>
              list_all (\<lambda>(a, b). can_spend b \<or> map_of (bm_agents m1) a = Some b) (bm_agents m)) \<and>
         total_budget (bm_agents m) + int k \<le>
           total_budget (bm_agents (((\<lambda>m. fst (redistribute_idle m)) ^^ k) m))"
proof
  show "case redistribute_idle m of
          (m1, given) \<Rightarrow>
            total_budget (bm_agents m1) = total_budget (bm_agents m) + sum_list (map snd given) \<and>
            list_all (\<lambda>(a, b). can_spend b \<or> map_of (bm_agents m1) a = Some b) (bm_agents m)"
    using redistribute_idle_spec(4,6) [OF assms(1,2)]
    by (cases "redistribute_idle m") (auto simp: list_all_iff)
  show "total_budget (bm_agents m) + int k \<le>
      total_budget (bm_agents (((\<lambda>m. fst (redistribute_idle m)) ^^ k) m))"
    using assms
  proof (induction k arbitrary: m)
    case (Suc k)
    obtain m1 given where r: "redistribute_idle m = (m1, given)" by fastforce
    note s = redistribute_idle_spec [OF Suc.prems(1,2) r]
    have w: "(a, b) \<in> set (bm_agents m1) \<longleftrightarrow> map_of (bm_agents m1) a = Some b" for a b
      by (rule wf_dict_get [OF s(1)])
    have "idle_donors m1 \<noteq> []"
      using Suc.prems(3) s(3,6) unfolding idle_donors_iff by (force simp: w)
    moreover have "busy_recipients m1 \<noteq> []"
      using Suc.prems(4) s(7) unfolding busy_recipients_iff by (force simp: w)
    ultimately have "total_budget (bm_agents m1) + int k \<le>
        total_budget (bm_agents (((\<lambda>m. fst (redistribute_idle m)) ^^ k) m1))"
      using Suc.IH [OF s(1)] s(2) Suc.prems(2) by simp
    moreover have "((\<lambda>m. fst (redistribute_idle m)) ^^ Suc k) m =
        ((\<lambda>m. fst (redistribute_idle m)) ^^ k) m1"
      by (simp add: funpow_Suc_right r del: funpow.simps)
    ultimately show ?case using s(4) s(5) [OF Suc.prems(3,4)] by simp
  qed simp
qed

definition sample_manager :: budget_manager where
  "sample_manager =
     \<lparr>bm_session_budget = 16000, bm_default = 4000, bm_reserve = 500,
      bm_agents = [(''a'', set_confidence (budget_new floor_part ''a'' 4000 50 500 None) 1),
                   (''b'', budget_new floor_part ''b'' 4000 50 500 None)]\<rparr>"

theorem redistribute_mints_witness:
  "(case redistribute_idle sample_manager of
      (m1, given) \<Rightarrow>
        total_budget (bm_agents m1) = total_budget (bm_agents sample_manager) + sum_list (map snd given) \<and>
        list_all (\<lambda>(a, b). can_spend b \<or> map_of (bm_agents m1) a = Some b) (bm_agents sample_manager)) \<and>
   total_budget (bm_agents sample_manager) + int 1000 \<le>
     total_budget (bm_agents (((\<lambda>m. fst (redistribute_idle m)) ^^ 1000) sample_manager))"
  by (rule redistribute_mints)
    (simp_all add: sample_manager_def wf_dict_def idle_donors_def busy_recipients_def can_spend_def
      set_confidence_def confidence_high_def total_remaining_def total_used_def budget_new_def all_pools_def)

end
