(* ===== verification/ComplexProblems.thy ===== *)
theory ComplexProblems
  imports PyText Contracts
begin

text \<open>
  The attack on one problem (harness/complex_problems): the ladder of grants and the capped
  budget (budget.py), the ledger of solved problems with its append-only journal
  (progress.py), the integrity check of statements (verifier.py) and the loop that ties them
  together (attack.py). The candidate generator and the verifier are the caller's: they are
  arguments that may raise, and since each is asked once per attempt, their answers depend on
  the attempt.
\<close>

datatype cp_error =
    EmptyLadder | BadRung int | NotIncreasing int int | NegativeAttempt int
  | BadCap int | NegativeCost int | OverGrant int int | BadCostPerAttempt int
  | EmptyProblemId | BadMaxAttempts int | EmptyEvidence | EmptyMarker
  | CorruptLine nat | MalformedLine nat | NotSolved string | RollbackRefused string
  | ClientRaised string

subsection \<open>The ladder and the budget\<close>

type_synonym ladder = "int list"

fun first_drop :: "int list \<Rightarrow> (int \<times> int) option" where
  "first_drop (x # y # ys) = (if y < x then Some (x, y) else first_drop (y # ys))"
| "first_drop _ = None"

definition ladder_new :: "int list \<Rightarrow> cp_error + ladder" where
  "ladder_new rungs =
     (if rungs = [] then Inl EmptyLadder
      else case find (\<lambda>r. r \<le> 0) rungs of
             Some r \<Rightarrow> Inl (BadRung r)
           | None \<Rightarrow> (case first_drop rungs of
                        Some (p, f) \<Rightarrow> Inl (NotIncreasing p f)
                      | None \<Rightarrow> Inr rungs))"

definition allocate :: "ladder \<Rightarrow> int \<Rightarrow> cp_error + int" where
  "allocate rungs attempt =
     (if attempt < 0 then Inl (NegativeAttempt attempt)
      else Inr (rungs ! nat (min attempt (int (length rungs) - 1))))"

record attack_budget =
  ab_ladder :: ladder
  ab_cap :: int
  ab_committed :: int
  ab_limit :: int
  ab_spent :: int

definition budget_new :: "ladder \<Rightarrow> int \<Rightarrow> cp_error + attack_budget" where
  "budget_new l cap =
     (if cap \<le> 0 then Inl (BadCap cap)
      else Inr \<lparr>ab_ladder = l, ab_cap = cap, ab_committed = 0, ab_limit = 0, ab_spent = 0\<rparr>)"

definition default_episode_cap :: int where
  "default_episode_cap = 3000"

definition budget_remaining :: "attack_budget \<Rightarrow> int" where
  "budget_remaining b = ab_limit b - ab_spent b"

definition budget_exhausted :: "attack_budget \<Rightarrow> bool" where
  "budget_exhausted b \<longleftrightarrow> ab_committed b \<ge> ab_cap b \<or> budget_remaining b \<le> 0"

definition start_attempt :: "attack_budget \<Rightarrow> int \<Rightarrow> attack_budget \<times> (cp_error + int)" where
  "start_attempt b attempt =
     (case allocate (ab_ladder b) attempt of
        Inl e \<Rightarrow> (b, Inl e)
      | Inr rung \<Rightarrow>
          let grant = min rung (ab_cap b - ab_committed b)
          in (b\<lparr>ab_committed := ab_committed b + grant, ab_limit := grant, ab_spent := 0\<rparr>, Inr grant))"

definition budget_consume :: "attack_budget \<Rightarrow> int \<Rightarrow> attack_budget \<times> (cp_error + unit)" where
  "budget_consume b cost =
     (if cost < 0 then (b, Inl (NegativeCost cost))
      else let b1 = (if ab_committed b = 0 then fst (start_attempt b 0) else b)
           in if cost > budget_remaining b1 then (b1, Inl (OverGrant cost (budget_remaining b1)))
              else (b1\<lparr>ab_spent := ab_spent b1 + cost\<rparr>, Inr ()))"

subsection \<open>The ledger\<close>

text \<open>
  \<open>pl_path\<close>: a journal path was given. \<open>pl_journal\<close>: the text of the file there, \<open>None\<close> while
  there is no file. \<open>json.loads\<close> is the parameter \<open>loads\<close>, \<open>None\<close> for a decoding error.
\<close>

record ledger =
  pl_path :: bool
  pl_solved :: "(string \<times> string) list"
  pl_journal :: "string option"

text \<open>The characters of a string in \<open>json.dumps(..., ensure_ascii=False)\<close>.\<close>

definition json_char :: "char \<Rightarrow> string" where
  "json_char c =
     (let n = (of_char c :: nat); bs = (char_of (92 :: nat) :: char)
      in if n = 34 \<or> n = 92 then [bs, c]
         else if n = 8 then [bs, CHR ''b'']
         else if n = 9 then [bs, CHR ''t'']
         else if n = 10 then [bs, CHR ''n'']
         else if n = 12 then [bs, CHR ''f'']
         else if n = 13 then [bs, CHR ''r'']
         else if n < 32 then bs # ''u00'' @ [hex_digit (n div 16), hex_digit (n mod 16)]
         else [c])"

definition json_string :: "string \<Rightarrow> string" where
  "json_string s = [char_of (34 :: nat)] @ concat (map json_char s) @ [char_of (34 :: nat)]"

definition record_line :: "string \<Rightarrow> string \<Rightarrow> string" where
  "record_line pid ev =
     ''{'' @ json_string ''evidence'' @ '': '' @ json_string ev @ '', '' @
     json_string ''problem_id'' @ '': '' @ json_string pid @ ''}''"

definition record_doc :: "string \<Rightarrow> string \<Rightarrow> json" where
  "record_doc pid ev = PDict [(''evidence'', PStr ev), (''problem_id'', PStr pid)]"

definition ledger_mark ::
  "ledger \<Rightarrow> string \<Rightarrow> string \<Rightarrow> ledger \<times> (cp_error + bool)" where
  "ledger_mark l pid ev =
     (if pid = [] then (l, Inl EmptyProblemId)
      else if ev = [] then (l, Inl EmptyEvidence)
      else if map_of (pl_solved l) pid \<noteq> None then (l, Inr False)
      else let l1 = l\<lparr>pl_solved := AList.update pid ev (pl_solved l)\<rparr>
           in ((if pl_path l
                then l1\<lparr>pl_journal := Some ((case pl_journal l of None \<Rightarrow> [] | Some t \<Rightarrow> t) @
                                            record_line pid ev @ [char_of (10 :: nat)])\<rparr>
                else l1), Inr True))"

definition is_solved :: "ledger \<Rightarrow> string \<Rightarrow> bool" where
  "is_solved l pid \<longleftrightarrow> map_of (pl_solved l) pid \<noteq> None"

definition ledger_evidence :: "ledger \<Rightarrow> string \<Rightarrow> cp_error + string" where
  "ledger_evidence l pid =
     (case map_of (pl_solved l) pid of None \<Rightarrow> Inl (NotSolved pid) | Some ev \<Rightarrow> Inr ev)"

definition solved_ids :: "ledger \<Rightarrow> string list" where
  "solved_ids l = sort (map fst (pl_solved l))"

definition ledger_len :: "ledger \<Rightarrow> nat" where
  "ledger_len l = length (pl_solved l)"

definition ledger_rollback :: "ledger \<Rightarrow> string \<Rightarrow> ledger \<times> (cp_error + unit)" where
  "ledger_rollback l pid = (l, Inl (RollbackRefused pid))"

definition nonempty_str :: "json option \<Rightarrow> string option" where
  "nonempty_str v = (case v of Some (PStr s) \<Rightarrow> if s = [] then None else Some s | _ \<Rightarrow> None)"

definition parse_line ::
  "(string \<Rightarrow> json option) \<Rightarrow> nat \<Rightarrow> string \<Rightarrow> cp_error + (string \<times> string)" where
  "parse_line loads number line =
     (case loads line of
        None \<Rightarrow> Inl (CorruptLine number)
      | Some rec \<Rightarrow>
          let field = (\<lambda>k. case rec of PDict d \<Rightarrow> map_of d k | _ \<Rightarrow> None)
          in (case nonempty_str (field ''problem_id'') of
                None \<Rightarrow> Inl (MalformedLine number)
              | Some pid \<Rightarrow> (case nonempty_str (field ''evidence'') of
                               None \<Rightarrow> Inl (MalformedLine number)
                             | Some ev \<Rightarrow> Inr (pid, ev))))"

fun load_lines ::
  "(string \<Rightarrow> json option) \<Rightarrow> nat \<Rightarrow> string list \<Rightarrow> (string \<times> string) list \<Rightarrow>
     cp_error + (string \<times> string) list" where
  "load_lines loads number [] d = Inr d"
| "load_lines loads number (line # ls) d =
     (if py_blank line then load_lines loads (Suc number) ls d
      else case parse_line loads number line of
             Inl e \<Rightarrow> Inl e
           | Inr (pid, ev) \<Rightarrow> load_lines loads (Suc number) ls (AList.update pid ev d))"

definition ledger_load ::
  "(string \<Rightarrow> json option) \<Rightarrow> string option \<Rightarrow> cp_error + (string \<times> string) list" where
  "ledger_load loads journal =
     (case journal of None \<Rightarrow> Inr [] | Some text \<Rightarrow> load_lines loads 1 (py_splitlines text) [])"

definition ledger_open ::
  "(string \<Rightarrow> json option) \<Rightarrow> bool \<Rightarrow> string option \<Rightarrow> cp_error + ledger" where
  "ledger_open loads path journal =
     (if \<not> path then Inr \<lparr>pl_path = False, pl_solved = [], pl_journal = journal\<rparr>
      else case ledger_load loads journal of
             Inl e \<Rightarrow> Inl e
           | Inr d \<Rightarrow> Inr \<lparr>pl_path = True, pl_solved = d, pl_journal = journal\<rparr>)"

subsection \<open>Integrity of the statement\<close>

fun integrity_scan ::
  "string \<Rightarrow> string list \<Rightarrow> string list \<Rightarrow> string list \<Rightarrow> cp_error + string list" where
  "integrity_scan statement [] seen missing = Inr missing"
| "integrity_scan statement (m # ms) seen missing =
     (if m = [] then Inl EmptyMarker
      else if m \<in> set seen then integrity_scan statement ms seen missing
      else integrity_scan statement ms (m # seen)
             (if py_contains statement m then missing else missing @ [m]))"

definition check_statement_integrity :: "string \<Rightarrow> string list \<Rightarrow> cp_error + string list" where
  "check_statement_integrity statement markers = integrity_scan statement markers [] []"

subsection \<open>The attack loop\<close>

record attempt_record =
  at_attempt :: int
  at_granted :: int
  at_spent :: int
  at_verified :: bool

record attack_report =
  rp_problem :: string
  rp_solved :: bool
  rp_attempts :: nat
  rp_spent :: int
  rp_evidence :: "string option"
  rp_history :: "attempt_record list"

record attack_loop =
  al_ladder :: ladder
  al_cost :: int
  al_cap :: int

definition attack_loop_new :: "ladder \<Rightarrow> int \<Rightarrow> int \<Rightarrow> cp_error + attack_loop" where
  "attack_loop_new l cost cap =
     (if cost \<le> 0 then Inl (BadCostPerAttempt cost)
      else Inr \<lparr>al_ladder = l, al_cost = cost, al_cap = cap\<rparr>)"

definition attack_result ::
  "string \<Rightarrow> bool \<Rightarrow> attack_budget \<Rightarrow> string option \<Rightarrow> attempt_record list \<Rightarrow> attack_report" where
  "attack_result pid ok b ev hist =
     \<lparr>rp_problem = pid, rp_solved = ok, rp_attempts = length hist, rp_spent = ab_committed b,
      rp_evidence = ev, rp_history = hist\<rparr>"

fun attack_attempts ::
  "(int \<Rightarrow> string \<Rightarrow> cp_error + string) \<Rightarrow> (int \<Rightarrow> string \<Rightarrow> cp_error + bool) \<Rightarrow> int \<Rightarrow> string list \<Rightarrow>
     string \<Rightarrow> ledger \<Rightarrow> attack_budget \<Rightarrow> attempt_record list \<Rightarrow> int list \<Rightarrow>
     ledger \<times> (cp_error + attack_report)" where
  "attack_attempts hook verify cost missing pid l b hist [] =
     (l, Inr (attack_result pid False b None hist))"
| "attack_attempts hook verify cost missing pid l b hist (a # as) =
     (case start_attempt b a of
        (b1, Inl e) \<Rightarrow> (l, Inl e)
      | (b1, Inr granted) \<Rightarrow>
          if granted \<le> 0 then (l, Inr (attack_result pid False b1 None hist))
          else case hook a pid of
                 Inl e \<Rightarrow> (l, Inl e)
               | Inr cand \<Rightarrow> (case verify a cand of
                   Inl e \<Rightarrow> (l, Inl e)
                 | Inr v \<Rightarrow>
                     let ok = (missing = [] \<and> v); spent_now = min cost granted
                     in (case budget_consume b1 spent_now of
                           (b2, Inl e) \<Rightarrow> (l, Inl e)
                         | (b2, Inr _) \<Rightarrow>
                             let hist1 = hist @ [\<lparr>at_attempt = a, at_granted = granted,
                                                  at_spent = spent_now, at_verified = ok\<rparr>]
                             in if ok then
                                  (case ledger_mark l pid cand of
                                     (l1, Inl e) \<Rightarrow> (l1, Inl e)
                                   | (l1, Inr _) \<Rightarrow>
                                       (l1, Inr (attack_result pid True b2 (Some cand) hist1)))
                                else attack_attempts hook verify cost missing pid l b2 hist1 as)))"

definition attack ::
  "attack_loop \<Rightarrow> (int \<Rightarrow> string \<Rightarrow> cp_error + string) \<Rightarrow> (int \<Rightarrow> string \<Rightarrow> cp_error + bool) \<Rightarrow>
     ledger \<Rightarrow> string \<Rightarrow> string \<Rightarrow> string list \<Rightarrow> int \<Rightarrow> ledger \<times> (cp_error + attack_report)" where
  "attack al hook verify l pid statement markers max_attempts =
     (if pid = [] then (l, Inl EmptyProblemId)
      else if max_attempts < 1 then (l, Inl (BadMaxAttempts max_attempts))
      else case map_of (pl_solved l) pid of
             Some ev \<Rightarrow> (l, Inr \<lparr>rp_problem = pid, rp_solved = True, rp_attempts = 0, rp_spent = 0,
                                 rp_evidence = Some ev, rp_history = []\<rparr>)
           | None \<Rightarrow>
               (case check_statement_integrity statement markers of
                  Inl e \<Rightarrow> (l, Inl e)
                | Inr missing \<Rightarrow>
                    (case budget_new (al_ladder al) (al_cap al) of
                       Inl e \<Rightarrow> (l, Inl e)
                     | Inr b \<Rightarrow> attack_attempts hook verify (al_cost al) missing pid l b []
                                  [0..max_attempts - 1])))"


subsection \<open>The ledger keeps the first evidence\<close>

definition ledger_wf :: "ledger \<Rightarrow> bool" where
  "ledger_wf l \<longleftrightarrow> wf_dict (pl_solved l) \<and> list_all (\<lambda>(p, e). p \<noteq> [] \<and> e \<noteq> []) (pl_solved l)"

definition ledger_try :: "ledger \<Rightarrow> string \<Rightarrow> string \<Rightarrow> ledger \<times> bool" where
  "ledger_try l pid ev =
     (case ledger_mark l pid ev of (l1, r) \<Rightarrow> (l1, case r of Inl _ \<Rightarrow> False | Inr b \<Rightarrow> b))"

lemma ledger_mark_solved [simp]:
  "pl_solved (fst (ledger_mark l pid ev)) =
     (if pid = [] \<or> ev = [] \<or> map_of (pl_solved l) pid \<noteq> None then pl_solved l
      else pl_solved l @ [(pid, ev)])"
  by (auto simp: ledger_mark_def Let_def dict_update_fresh)

lemma ledger_wf_mark: "ledger_wf l \<Longrightarrow> ledger_wf (fst (ledger_mark l pid ev))"
  by (auto simp: ledger_wf_def wf_dict_def map_of_eq_None_iff)

interpretation solved: keep_first ledger_wf "\<lambda>p e. p \<noteq> [] \<and> e \<noteq> []"
  "\<lambda>l. map_of (pl_solved l)" ledger_try
proof
  fix l and p e :: string assume "ledger_wf l" and v: "p \<noteq> [] \<and> e \<noteq> []"
  have f: "fst (ledger_try l p e) = fst (ledger_mark l p e)"
    by (simp add: ledger_try_def split: prod.split)
  show "ledger_wf (fst (ledger_try l p e))" using \<open>ledger_wf l\<close> by (simp add: f ledger_wf_mark)
  show "snd (ledger_try l p e) \<longleftrightarrow> map_of (pl_solved l) p = None"
    using v by (auto simp: ledger_try_def ledger_mark_def Let_def)
  show "map_of (pl_solved (fst (ledger_try l p e))) =
          (if map_of (pl_solved l) p = None then (map_of (pl_solved l))(p \<mapsto> e) else map_of (pl_solved l))"
    using v by (auto simp: f map_add_def fun_eq_iff split: option.split)
qed

subsection \<open>The journal\<close>

definition nel :: char where
  "nel = char_of (133 :: nat)"

definition newline :: char where
  "newline = char_of (10 :: nat)"

lemma py_linebreak_nel: "py_linebreak nel" "py_linebreak newline"
  by (simp_all add: py_linebreak_def nel_def newline_def)

lemma hex_digit_no_break: "d < 16 \<Longrightarrow> \<not> py_linebreak (hex_digit d)"
  by (auto simp: hex_digit_def py_linebreak_def)

lemma json_char_no_break:
  assumes "c \<noteq> nel"
  shows "list_all (\<lambda>x. \<not> py_linebreak x) (json_char c)"
proof -
  have n: "(of_char c :: nat) \<noteq> 133" using assms by (metis char_of_char nel_def)
  have h: "(of_char c :: nat) < 32 \<Longrightarrow> \<not> py_linebreak (hex_digit (of_char c div 16))"
    by (rule hex_digit_no_break) simp
  have m: "\<not> py_linebreak (hex_digit (of_char c mod 16))" by (rule hex_digit_no_break) simp
  have "\<not> py_linebreak (char_of (92 :: nat))" "\<not> py_linebreak (CHR ''b'')" "\<not> py_linebreak (CHR ''t'')"
    "\<not> py_linebreak (CHR ''n'')" "\<not> py_linebreak (CHR ''f'')" "\<not> py_linebreak (CHR ''r'')"
    "\<not> py_linebreak (CHR ''u'')" "\<not> py_linebreak (CHR ''0'')"
    by (simp_all add: py_linebreak_def)
  then show ?thesis
    using n h m by (auto simp: json_char_def Let_def) (auto simp: py_linebreak_def)
qed


lemma json_string_no_break:
  assumes "nel \<notin> set s"
  shows "list_all (\<lambda>x. \<not> py_linebreak x) (json_string s)"
proof -
  have "list_all (\<lambda>x. \<not> py_linebreak x) (json_char c)" if "c \<in> set s" for c
    using assms that by (intro json_char_no_break) auto
  moreover have "\<not> py_linebreak (char_of (34 :: nat))" by (simp add: py_linebreak_def)
  ultimately show ?thesis by (auto simp: json_string_def list_all_iff)
qed

lemma literal_no_nel: "nel \<notin> set ''evidence''" "nel \<notin> set ''problem_id''"
  by (simp_all add: nel_def char_of_def)

lemma literal_no_break:
  "list_all (\<lambda>x. \<not> py_linebreak x) ''{''" "list_all (\<lambda>x. \<not> py_linebreak x) '': ''"
  "list_all (\<lambda>x. \<not> py_linebreak x) '', ''" "list_all (\<lambda>x. \<not> py_linebreak x) ''}''"
  by (simp_all add: py_linebreak_def)

lemma record_line_no_break:
  assumes "nel \<notin> set pid" and "nel \<notin> set ev"
  shows "list_all (\<lambda>x. \<not> py_linebreak x) (record_line pid ev)"
  unfolding record_line_def list_all_append
  by (intro conjI literal_no_break json_string_no_break literal_no_nel assms)

lemma splitlines_line:
  assumes "list_all (\<lambda>x. \<not> py_linebreak x) s"
  shows "py_splitlines (s @ newline # rest) = s # py_splitlines rest"
proof -
  have n: "newline \<noteq> char_of (13 :: nat)" by (simp add: newline_def char_of_def)
  have s: "\<And>x. x \<in> set s \<Longrightarrow> \<not> py_linebreak x" using assms by (simp add: list_all_iff)
  have "takeWhile (\<lambda>c. \<not> py_linebreak c) (s @ newline # rest) = s"
    "dropWhile (\<lambda>c. \<not> py_linebreak c) (s @ newline # rest) = newline # rest"
    using s by (simp_all add: takeWhile_append2 dropWhile_append2 py_linebreak_nel)
  then show ?thesis by (subst py_splitlines.simps) (simp add: n)
qed

definition journal_lines :: "(string \<times> string) list \<Rightarrow> string" where
  "journal_lines d = concat (map (\<lambda>(p, e). record_line p e @ [newline]) d)"

lemma splitlines_journal:
  "list_all (\<lambda>(p, e). nel \<notin> set p \<and> nel \<notin> set e) d \<Longrightarrow>
     py_splitlines (journal_lines d) = map (\<lambda>(p, e). record_line p e) d"
proof (induction d)
  case Nil
  then show ?case by (simp add: journal_lines_def py_splitlines.simps)
next
  case (Cons x d)
  then show ?case
    using splitlines_line [OF record_line_no_break, of "fst x" "snd x" "journal_lines d"]
    by (auto simp: journal_lines_def split: prod.splits)
qed

lemma record_line_not_blank [simp]: "\<not> py_blank (record_line p e)"
  by (simp add: record_line_def py_blank_iff py_isspace_def)

lemma parse_record_line:
  "loads (record_line p e) = Some (record_doc p e) \<Longrightarrow> p \<noteq> [] \<Longrightarrow> e \<noteq> [] \<Longrightarrow>
     parse_line loads k (record_line p e) = Inr (p, e)"
  by (simp add: parse_line_def record_doc_def nonempty_str_def)

lemma load_lines_records:
  "list_all (\<lambda>(p, e). p \<noteq> [] \<and> e \<noteq> [] \<and> loads (record_line p e) = Some (record_doc p e)) es \<Longrightarrow>
     load_lines loads k (map (\<lambda>(p, e). record_line p e) es) d =
       Inr (fold (\<lambda>(p, e). AList.update p e) es d)"
  by (induction es arbitrary: k d) (auto simp: parse_record_line)

text \<open>What a session may rely on: the documented inverse of \<open>dumps\<close>, and no \<open>NEL\<close>.\<close>

definition storable :: "(string \<Rightarrow> json option) \<Rightarrow> string \<Rightarrow> string \<Rightarrow> bool" where
  "storable loads p e \<longleftrightarrow>
     nel \<notin> set p \<and> nel \<notin> set e \<and> loads (record_line p e) = Some (record_doc p e)"

definition journaled :: "(string \<Rightarrow> json option) \<Rightarrow> ledger \<Rightarrow> bool" where
  "journaled loads l \<longleftrightarrow>
     ledger_wf l \<and> pl_path l \<and> list_all (\<lambda>(p, e). storable loads p e) (pl_solved l) \<and>
     (case pl_journal l of None \<Rightarrow> pl_solved l = [] | Some t \<Rightarrow> t = journal_lines (pl_solved l))"

lemma journaled_reopen:
  assumes "journaled loads l"
  shows "ledger_open loads True (pl_journal l) = Inr l"
proof (cases "pl_journal l")
  case None
  with assms show ?thesis by (simp add: journaled_def ledger_open_def ledger_load_def)
next
  case (Some t)
  have d: "distinct (map fst (pl_solved l))"
    using assms by (simp add: journaled_def ledger_wf_def wf_dict_def)
  have s: "list_all (\<lambda>(p, e). nel \<notin> set p \<and> nel \<notin> set e) (pl_solved l)"
    "list_all (\<lambda>(p, e). p \<noteq> [] \<and> e \<noteq> [] \<and> loads (record_line p e) = Some (record_doc p e)) (pl_solved l)"
    using assms by (auto simp: journaled_def storable_def ledger_wf_def list_all_iff)
  have "fold (\<lambda>(p, e). AList.update p e) (pl_solved l) [] = pl_solved l"
    using fold_update_fresh [where k = fst and v = snd and es = "pl_solved l" and d = "[]"] d
    by (simp add: case_prod_unfold)
  with assms Some splitlines_journal [OF s(1)] load_lines_records [OF s(2), of 1 "[]"] show ?thesis
    by (simp add: journaled_def ledger_open_def ledger_load_def)
qed

lemma journaled_mark:
  assumes "journaled loads l" and "storable loads pid ev"
  shows "journaled loads (fst (ledger_mark l pid ev))"
proof -
  have "ledger_wf (fst (ledger_mark l pid ev))"
    using assms(1) by (simp add: journaled_def ledger_wf_mark)
  with assms show ?thesis
    by (auto simp: journaled_def ledger_mark_def Let_def dict_update_fresh journal_lines_def newline_def
        split: option.splits)
qed


text \<open>A life of the ledger over several sessions: records and restarts.\<close>

datatype ledger_op = MarkOp string string | Restart

fun ledger_life ::
  "(string \<Rightarrow> json option) \<Rightarrow> ledger \<Rightarrow> ledger_op list \<Rightarrow> cp_error + ledger" where
  "ledger_life loads l [] = Inr l"
| "ledger_life loads l (MarkOp p e # ops) = ledger_life loads (fst (ledger_mark l p e)) ops"
| "ledger_life loads l (Restart # ops) =
     (case ledger_open loads (pl_path l) (pl_journal l) of
        Inl err \<Rightarrow> Inl err
      | Inr l1 \<Rightarrow> ledger_life loads l1 ops)"

definition marks :: "ledger_op list \<Rightarrow> (string \<times> string) list" where
  "marks ops = List.map_filter (\<lambda>x. case x of MarkOp p e \<Rightarrow> if p = [] \<or> e = [] then None else Some (p, e)
                                          | Restart \<Rightarrow> None) ops"

lemma marks_simps [simp]:
  "marks [] = []" "marks (Restart # ops) = marks ops"
  "marks (MarkOp p e # ops) = (if p = [] \<or> e = [] then marks ops else (p, e) # marks ops)"
  by (simp_all add: marks_def List.map_filter_simps)

lemma ledger_mark_invalid: "p = [] \<or> e = [] \<Longrightarrow> fst (ledger_mark l p e) = l"
  by (auto simp: ledger_mark_def)

lemma ledger_life_run:
  assumes "journaled loads l" and "list_all (\<lambda>(p, e). storable loads p e) (marks ops)"
  shows "\<exists>l'. ledger_life loads l ops = Inr l' \<and> journaled loads l' \<and>
           l' = fst (put_run ledger_try l (marks ops))"
  using assms
proof (induction ops arbitrary: l)
  case Nil
  then show ?case by simp
next
  case (Cons op ops)
  show ?case
  proof (cases op)
    case (MarkOp p e)
    have f: "fst (ledger_try l p e) = fst (ledger_mark l p e)"
      by (simp add: ledger_try_def split: prod.split)
    show ?thesis
    proof (cases "p = [] \<or> e = []")
      case True
      with Cons.IH [OF Cons.prems(1)] Cons.prems(2) MarkOp show ?thesis
        by (simp add: ledger_mark_invalid)
    next
      case False
      with Cons.IH [OF journaled_mark [OF Cons.prems(1), of p e]] Cons.prems(2) MarkOp f show ?thesis
        by (simp add: Let_def split_beta)
    qed
  next
    case Restart
    from Cons.prems(1) have "pl_path l" by (simp add: journaled_def)
    with Cons.IH [OF Cons.prems(1)] Cons.prems(2) journaled_reopen [OF Cons.prems(1)] Restart
    show ?thesis by simp
  qed
qed

definition fresh_ledger :: ledger where
  "fresh_ledger = \<lparr>pl_path = True, pl_solved = [], pl_journal = None\<rparr>"

lemma journaled_fresh [simp]: "journaled loads fresh_ledger"
  by (simp add: journaled_def fresh_ledger_def ledger_wf_def)

text \<open>
  Progress is monotone across sessions: over any sequence of records and restarts on a fresh
  journal, each problem keeps the first evidence recorded for it, every restart reads back
  exactly what was there, and nothing raises. The records must be storable: \<open>json.loads\<close>
  inverts \<open>json.dumps\<close> on them, and no identifier or evidence contains U+0085.
\<close>

theorem ledger_life_monotone:
  assumes "list_all (\<lambda>(p, e). storable loads p e) (marks ops)"
  shows "case ledger_life loads fresh_ledger ops of
           Inl _ \<Rightarrow> False
         | Inr l \<Rightarrow> map_of (pl_solved l) = map_of (marks ops) \<and>
                   ledger_open loads True (pl_journal l) = Inr l \<and>
                   (is_solved l p = (p \<in> fst ` set (marks ops)))"
proof -
  obtain l where l: "ledger_life loads fresh_ledger ops = Inr l" "journaled loads l"
      "l = fst (put_run ledger_try fresh_ledger (marks ops))"
    using ledger_life_run [OF journaled_fresh assms] by blast
  have "\<forall>(p, e) \<in> set (marks ops). p \<noteq> [] \<and> e \<noteq> []"
    by (induction ops rule: rev_induct) (auto simp: marks_def List.map_filter_def split: ledger_op.splits)
  moreover have "ledger_wf fresh_ledger" by (simp add: fresh_ledger_def ledger_wf_def)
  ultimately have m: "map_of (pl_solved l) q = map_of (marks ops) q" for q
    using solved.put_run_look [of fresh_ledger "marks ops" q] l(3) by (simp add: fresh_ledger_def)
  have "is_solved l p \<longleftrightarrow> p \<in> fst ` set (marks ops)"
    by (simp add: is_solved_def m map_of_eq_None_iff)
  with l(1,2) m journaled_reopen show ?thesis by (auto simp: fun_eq_iff)
qed

definition two_records :: "string \<Rightarrow> json option" where
  "two_records t =
     (if t = record_line ''p'' ''e'' then Some (record_doc ''p'' ''e'')
      else if t = record_line ''p'' ''f'' then Some (record_doc ''p'' ''f'') else None)"

lemma two_records_storable: "storable two_records ''p'' ''e''" "storable two_records ''p'' ''f''"
proof -
  have "record_line ''p'' ''f'' \<noteq> record_line ''p'' ''e''"
    by (simp add: record_line_def json_string_def json_char_def)
  then show "storable two_records ''p'' ''e''" "storable two_records ''p'' ''f''"
    by (simp_all add: storable_def two_records_def nel_def char_of_def)
qed

theorem ledger_life_monotone_witness:
  "case ledger_life two_records fresh_ledger [MarkOp ''p'' ''e'', Restart, MarkOp ''p'' ''f''] of
     Inl _ \<Rightarrow> False
   | Inr l \<Rightarrow> map_of (pl_solved l) = map_of [(''p'', ''e''), (''p'', ''f'')] \<and>
             ledger_open two_records True (pl_journal l) = Inr l \<and>
             (is_solved l ''p'' = (''p'' \<in> fst ` set [(''p'', ''e''), (''p'', ''f'')]))"
proof -
  have m: "marks [MarkOp ''p'' ''e'', Restart, MarkOp ''p'' ''f''] = [(''p'', ''e''), (''p'', ''f'')]"
    by simp
  have "list_all (\<lambda>(p, e). storable two_records p e) [(''p'', ''e''), (''p'', ''f'')]"
    using two_records_storable by simp
  from ledger_life_monotone [of two_records "[MarkOp ''p'' ''e'', Restart, MarkOp ''p'' ''f'']" "''p''",
      unfolded m, OF this] show ?thesis .
qed

lemma load_lines_typed:
  "wf_dict d \<Longrightarrow> list_all (\<lambda>(p, e). p \<noteq> [] \<and> e \<noteq> []) d \<Longrightarrow> load_lines loads k ls d = Inr d' \<Longrightarrow>
     wf_dict d' \<and> list_all (\<lambda>(p, e). p \<noteq> [] \<and> e \<noteq> []) d'"
proof (induction loads k ls d rule: load_lines.induct)
  case (2 loads k line ls d)
  show ?case
  proof (cases "py_blank line")
    case True
    with 2 show ?thesis by simp
  next
    case False
    with 2(5) obtain p e where pe: "parse_line loads k line = Inr (p, e)"
      by (auto split: sum.splits)
    then have "p \<noteq> []" "e \<noteq> []"
      by (auto simp: parse_line_def nonempty_str_def Let_def split: option.splits pyval.splits if_splits)
    then have "list_all (\<lambda>(p, e). p \<noteq> [] \<and> e \<noteq> []) (AList.update p e d)"
      using 2(3,4) by (auto simp: list_all_iff set_dict_update)
    with 2 False pe show ?thesis by simp
  qed
qed simp

lemma ledger_open_wf: "ledger_open loads path journal = Inr l \<Longrightarrow> ledger_wf l"
  using load_lines_typed [of "[]" loads 1]
  by (auto simp: ledger_open_def ledger_load_def ledger_wf_def split: sum.splits option.splits if_splits)

lemma ledger_wf_marks: "ledger_wf l \<Longrightarrow> ledger_wf (fold (\<lambda>(p, e) l. fst (ledger_mark l p e)) records l)"
  by (induction records arbitrary: l) (auto simp: ledger_wf_mark)

text \<open>
  Whatever text the journal holds and whatever JSON its lines decode to, opening it raises or
  gives a ledger whose entries are non-empty strings under distinct identifiers, and no later
  record changes that. Without a path nothing can raise.
\<close>

theorem ledger_open_typed:
  "case ledger_open loads path journal of
     Inl _ \<Rightarrow> path
   | Inr l \<Rightarrow> ledger_wf (fold (\<lambda>(p, e) l. fst (ledger_mark l p e)) records l)"
proof (cases "ledger_open loads path journal")
  case (Inl e)
  then show ?thesis by (simp add: ledger_open_def split: if_splits)
next
  case (Inr l)
  then show ?thesis by (simp add: ledger_wf_marks ledger_open_wf)
qed

text \<open>
  The journal is read back with \<open>splitlines\<close>, which also breaks lines at U+0085, a character
  \<open>json.dumps\<close> leaves as it is: one accepted proof with that character in it makes the ledger
  unreadable for ever, every solved problem with it.
\<close>

theorem ledger_nel_unreadable:
  assumes "pid \<noteq> []" and "nel \<notin> set e1"
    and "loads (''{'' @ json_string ''evidence'' @ '': '' @ char_of (34 :: nat) # concat (map json_char e1)) = None"
  shows "ledger_mark fresh_ledger pid (e1 @ nel # e2) =
           (\<lparr>pl_path = True, pl_solved = [(pid, e1 @ nel # e2)],
             pl_journal = Some (record_line pid (e1 @ nel # e2) @ [newline])\<rparr>, Inr True) \<and>
         ledger_open loads True (Some (record_line pid (e1 @ nel # e2) @ [newline])) =
           Inl (CorruptLine 1)"
proof
  show "ledger_mark fresh_ledger pid (e1 @ nel # e2) =
          (\<lparr>pl_path = True, pl_solved = [(pid, e1 @ nel # e2)],
            pl_journal = Some (record_line pid (e1 @ nel # e2) @ [newline])\<rparr>, Inr True)"
    using assms(1) by (simp add: ledger_mark_def fresh_ledger_def newline_def)
  let ?s = "''{'' @ json_string ''evidence'' @ '': '' @ char_of (34 :: nat) # concat (map json_char e1)"
  have j: "json_char nel = [nel]" by (simp add: json_char_def nel_def)
  obtain r where r: "record_line pid (e1 @ nel # e2) @ [newline] = ?s @ nel # r"
    by (simp add: record_line_def json_string_def [of "e1 @ nel # e2"] j)
  have "\<And>x. x \<in> set ?s \<Longrightarrow> \<not> py_linebreak x"
    using json_string_no_break [OF assms(2)] json_string_no_break [OF literal_no_nel(1)] literal_no_break
    by (auto simp: list_all_iff json_string_def [of e1])
  then have "takeWhile (\<lambda>c. \<not> py_linebreak c) (?s @ nel # r) = ?s"
    using takeWhile_append2 [of ?s "\<lambda>c. \<not> py_linebreak c" "nel # r"] by (simp add: py_linebreak_nel)
  then obtain ls where "py_splitlines (?s @ nel # r) = ?s # ls"
    by (subst (asm) py_splitlines.simps) auto
  moreover have b: "\<not> py_blank ?s" by (simp add: py_blank_iff py_isspace_def)
  have p: "parse_line loads 1 ?s = Inl (CorruptLine 1)"
    by (simp only: parse_line_def assms(3) option.case)
  have "load_lines loads 1 (?s # ls') [] = Inl (CorruptLine 1)" for ls'
    by (simp only: load_lines.simps b p if_False sum.case)
  ultimately show "ledger_open loads True (Some (record_line pid (e1 @ nel # e2) @ [newline])) =
      Inl (CorruptLine 1)"
    unfolding r by (simp only: ledger_open_def ledger_load_def option.case sum.case) simp
qed

theorem ledger_nel_unreadable_witness:
  "ledger_mark fresh_ledger ''p'' (''a'' @ nel # ''b'') =
     (\<lparr>pl_path = True, pl_solved = [(''p'', ''a'' @ nel # ''b'')],
       pl_journal = Some (record_line ''p'' (''a'' @ nel # ''b'') @ [newline])\<rparr>, Inr True) \<and>
   ledger_open (\<lambda>_. None) True (Some (record_line ''p'' (''a'' @ nel # ''b'') @ [newline])) =
     Inl (CorruptLine 1)"
  by (rule ledger_nel_unreadable) (simp_all add: nel_def char_of_def)


subsection \<open>What an attack does\<close>

text \<open>
  The specification: the rung of attempt \<open>j\<close>, what the attempts before \<open>i\<close> asked for, the
  attempts the cap affords, and the record of one of them.
\<close>

definition rung :: "ladder \<Rightarrow> nat \<Rightarrow> int" where
  "rung l j = l ! min j (length l - 1)"

definition asked :: "ladder \<Rightarrow> nat \<Rightarrow> int" where
  "asked l i = sum_list (map (rung l) [0..<i])"

definition affordable :: "ladder \<Rightarrow> int \<Rightarrow> nat \<Rightarrow> nat list" where
  "affordable l cap n = takeWhile (\<lambda>i. asked l i < cap) [0..<n]"

definition spec_record :: "attack_loop \<Rightarrow> (nat \<Rightarrow> bool) \<Rightarrow> nat \<Rightarrow> attempt_record" where
  "spec_record al ok i =
     (let g = min (rung (al_ladder al) i) (al_cap al - asked (al_ladder al) i)
      in \<lparr>at_attempt = int i, at_granted = g, at_spent = min (al_cost al) g, at_verified = ok i\<rparr>)"

definition spec_report ::
  "attack_loop \<Rightarrow> (nat \<Rightarrow> bool) \<Rightarrow> string \<Rightarrow> nat \<Rightarrow> string option \<Rightarrow> attack_report" where
  "spec_report al ok pid n ev =
     \<lparr>rp_problem = pid, rp_solved = (ev \<noteq> None), rp_attempts = n,
      rp_spent = min (al_cap al) (asked (al_ladder al) n), rp_evidence = ev,
      rp_history = map (spec_record al ok) [0..<n]\<rparr>"

lemma first_drop_None: "first_drop xs = None \<longleftrightarrow> sorted xs"
proof (induction xs rule: first_drop.induct)
  case (1 x y ys)
  then show ?case by (auto intro: order_trans)
qed auto

lemma ladder_new_Inr: "ladder_new rungs = Inr l \<longleftrightarrow>
    l = rungs \<and> rungs \<noteq> [] \<and> (\<forall>r \<in> set rungs. 0 < r) \<and> sorted rungs"
proof -
  have "find (\<lambda>r. r \<le> 0) rungs = None \<longleftrightarrow> (\<forall>r \<in> set rungs. 0 < r)"
    by (auto simp: find_None_iff not_le)
  then show ?thesis
    by (auto simp: ladder_new_def first_drop_None [symmetric] split: option.splits if_splits)
qed

lemma allocate_rung:
  assumes "l \<noteq> []"
  shows "allocate l (int i) = Inr (rung l i)"
proof -
  have "nat (min (int i) (int (length l) - 1)) = min i (length l - 1)"
    using assms by (cases l) (simp_all add: min_def)
  then show ?thesis by (simp add: allocate_def rung_def)
qed

lemma rung_pos:
  assumes "l \<noteq> []" and "\<forall>r \<in> set l. 0 < r"
  shows "0 < rung l i"
proof -
  have "min i (length l - 1) < length l" using assms(1) by (cases l) auto
  with assms(2) show ?thesis unfolding rung_def by (metis nth_mem)
qed

lemma asked_Suc [simp]: "asked l (Suc i) = asked l i + rung l i"
  by (simp add: asked_def)

lemma asked_zero [simp]: "asked l 0 = 0"
  by (simp add: asked_def)

lemma asked_nonneg: "l \<noteq> [] \<Longrightarrow> \<forall>r \<in> set l. 0 < r \<Longrightarrow> 0 \<le> asked l i"
  using rung_pos [of l] by (induction i) (simp_all add: add_nonneg_pos less_imp_le)

text \<open>The budget when attempt \<open>i\<close> is about to start.\<close>

definition budget_at :: "attack_loop \<Rightarrow> attack_budget \<Rightarrow> nat \<Rightarrow> bool" where
  "budget_at al b i \<longleftrightarrow>
     ab_ladder b = al_ladder al \<and> ab_cap b = al_cap al \<and>
     ab_committed b = min (al_cap al) (asked (al_ladder al) i)"

lemma start_attempt_at:
  assumes "budget_at al b i" and "al_ladder al \<noteq> []"
  shows "start_attempt b (int i) =
           (let g = min (rung (al_ladder al) i) (al_cap al - min (al_cap al) (asked (al_ladder al) i))
            in (b\<lparr>ab_committed := ab_committed b + g, ab_limit := g, ab_spent := 0\<rparr>, Inr g))"
  using assms by (simp add: start_attempt_def budget_at_def allocate_rung)

lemma attempt_at:
  assumes b: "budget_at al b i" and l: "al_ladder al \<noteq> []" "\<forall>r \<in> set (al_ladder al). 0 < r"
    and c: "0 < al_cost al" and a: "asked (al_ladder al) i < al_cap al"
  obtains b1 b2 g where "start_attempt b (int i) = (b1, Inr g)" "0 < g"
    "g = at_granted (spec_record al ok i)" "budget_consume b1 (min (al_cost al) g) = (b2, Inr ())"
    "budget_at al b2 (Suc i)"
proof
  let ?g = "min (rung (al_ladder al) i) (al_cap al - asked (al_ladder al) i)"
  let ?b1 = "b\<lparr>ab_committed := ab_committed b + ?g, ab_limit := ?g, ab_spent := 0\<rparr>"
  show "start_attempt b (int i) = (?b1, Inr ?g)"
    using start_attempt_at [OF b l(1)] a by (simp add: Let_def)
  show g: "0 < ?g" using a rung_pos [OF l, of i] by simp
  show "?g = at_granted (spec_record al ok i)" by (simp add: spec_record_def Let_def)
  have "0 \<le> ab_committed b" using b asked_nonneg [OF l, of i] a by (simp add: budget_at_def)
  then have "ab_committed b + ?g \<noteq> 0" using g by linarith
  moreover have "\<not> min (al_cost al) ?g < 0" using g c by linarith
  ultimately show "budget_consume ?b1 (min (al_cost al) ?g) =
      (?b1\<lparr>ab_spent := min (al_cost al) ?g\<rparr>, Inr ())"
    by (simp add: budget_consume_def budget_remaining_def Let_def)
  show "budget_at al (?b1\<lparr>ab_spent := min (al_cost al) ?g\<rparr>) (Suc i)"
    using b a by (simp add: budget_at_def)
qed

lemma attack_attempts_spec:
  assumes l: "al_ladder al \<noteq> []" "\<forall>r \<in> set (al_ladder al). 0 < r" and c: "0 < al_cost al"
    and client: "\<And>i. hook (int i) pid = Inr (cand i)" "\<And>i. verify (int i) (cand i) = Inr (ver i)"
    and pid: "pid \<noteq> []" "map_of (pl_solved led) pid = None"
    and ok: "\<And>i. (missing = [] \<and> ver i) = ok i"
    and b: "budget_at al b i" and i: "i \<le> n"
  shows "attack_attempts hook verify (al_cost al) missing pid led b (map (spec_record al ok) [0..<i])
           (map int [i..<n]) =
         (let tried = takeWhile (\<lambda>i. asked (al_ladder al) i < al_cap al) [i..<n]
          in case find ok tried of
               Some k \<Rightarrow>
                 if cand k = [] then (led, Inl EmptyEvidence)
                 else (fst (ledger_mark led pid (cand k)),
                       Inr (spec_report al ok pid (Suc k) (Some (cand k))))
             | None \<Rightarrow> (led, Inr (spec_report al ok pid (i + length tried) None)))"
  using b i
proof (induction "n - i" arbitrary: i b)
  case 0
  then show ?case
    by (simp add: attack_result_def spec_report_def budget_at_def)
next
  case (Suc d)
  then have "i < n" by simp
  then have up: "[i..<n] = i # [Suc i..<n]" by (rule upt_conv_Cons)
  show ?case
  proof (cases "asked (al_ladder al) i < al_cap al")
    case False
    let ?g = "min (rung (al_ladder al) i) (al_cap al - min (al_cap al) (asked (al_ladder al) i))"
    have "?g = 0" using False rung_pos [OF l, of i] by simp
    with start_attempt_at [OF Suc.prems(1) l(1)] False Suc.prems(1) show ?thesis
      unfolding up by (simp add: Let_def attack_result_def spec_report_def budget_at_def)
  next
    case True
    obtain b1 b2 g where s: "start_attempt b (int i) = (b1, Inr g)" "0 < g"
        "g = at_granted (spec_record al ok i)" "budget_consume b1 (min (al_cost al) g) = (b2, Inr ())"
        "budget_at al b2 (Suc i)"
      using attempt_at [OF Suc.prems(1) l c True] by metis
    have h: "map (spec_record al ok) [0..<i] @
          [\<lparr>at_attempt = int i, at_granted = g, at_spent = min (al_cost al) g, at_verified = ok i\<rparr>] =
        map (spec_record al ok) [0..<Suc i]"
      using s(3) by (simp add: spec_record_def Let_def)
    have m: "cand i \<noteq> [] \<Longrightarrow> snd (ledger_mark led pid (cand i)) = Inr True"
      "cand i = [] \<Longrightarrow> ledger_mark led pid (cand i) = (led, Inl EmptyEvidence)"
      using pid by (simp_all add: ledger_mark_def Let_def)
    have v0: "cand i = [] \<Longrightarrow> verify (int i) [] = Inr (ver i)"
      using client(2) [of i] by simp
    have com: "ab_committed b2 = min (al_cap al) (asked (al_ladder al) (Suc i))"
      using s(5) by (simp add: budget_at_def)
    show ?thesis
    proof (cases "ok i")
      case False
      have "d = n - Suc i" "Suc i \<le> n" using Suc.hyps(2) by simp_all
      with Suc.hyps(1) [of "Suc i" b2, OF _ s(5)] False True show ?thesis
        unfolding up using s h client ok by (simp add: Let_def del: upt_Suc split: option.splits)
    next
      case True
      with \<open>asked (al_ladder al) i < al_cap al\<close> show ?thesis
        unfolding up using s h client ok m com v0
        by (cases "cand i = []"; cases "ledger_mark led pid (cand i)")
          (auto simp: Let_def attack_result_def spec_report_def simp del: upt_Suc asked_Suc)
    qed
  qed
qed


lemma upto_map_int: "[0..int n - 1] = map int [0..<n]"
  by (induction n) (simp_all add: upto_rec2)

lemma attack_run:
  assumes "ladder_new rungs = Inr l" and "attack_loop_new l cost cap = Inr al" and "0 < cap"
    and "pid \<noteq> []" and "1 \<le> mx" and "\<not> is_solved led pid"
    and "check_statement_integrity statement markers = Inr missing"
    and "\<And>i. hook (int i) pid = Inr (cand i)" and "\<And>i. verify (int i) (cand i) = Inr (ver i)"
  shows "attack al hook verify led pid statement markers mx =
         (let ok = (\<lambda>i. missing = [] \<and> ver i); tried = affordable l cap (nat mx)
          in case find ok tried of
               Some k \<Rightarrow>
                 if cand k = [] then (led, Inl EmptyEvidence)
                 else (fst (ledger_mark led pid (cand k)),
                       Inr (spec_report al ok pid (Suc k) (Some (cand k))))
             | None \<Rightarrow> (led, Inr (spec_report al ok pid (length tried) None)))"
proof -
  have l: "l \<noteq> []" "\<forall>r \<in> set l. 0 < r" using assms(1) by (auto simp: ladder_new_Inr)
  have al: "al_ladder al = l" "al_cap al = cap" "0 < al_cost al"
    using assms(2) by (auto simp: attack_loop_new_def split: if_splits)
  have pid: "map_of (pl_solved led) pid = None" using assms(6) by (simp add: is_solved_def)
  let ?b = "\<lparr>ab_ladder = l, ab_cap = cap, ab_committed = 0, ab_limit = 0, ab_spent = 0\<rparr>"
  have b: "budget_at al ?b 0" using assms(3) al by (simp add: budget_at_def)
  have "[0..mx - 1] = map int [0..<nat mx]" using upto_map_int [of "nat mx"] assms(5) by simp
  then have "attack al hook verify led pid statement markers mx =
      attack_attempts hook verify (al_cost al) missing pid led ?b [] (map int [0..<nat mx])"
    using assms(3,4,5,7) pid al by (simp add: attack_def budget_new_def)
  also have "\<dots> = (let tried = takeWhile (\<lambda>i. asked (al_ladder al) i < al_cap al) [0..<nat mx]
      in case find (\<lambda>i. missing = [] \<and> ver i) tried of
           Some k \<Rightarrow>
             if cand k = [] then (led, Inl EmptyEvidence)
             else (fst (ledger_mark led pid (cand k)),
                   Inr (spec_report al (\<lambda>i. missing = [] \<and> ver i) pid (Suc k) (Some (cand k))))
         | None \<Rightarrow> (led, Inr (spec_report al (\<lambda>i. missing = [] \<and> ver i) pid (0 + length tried) None)))"
    using attack_attempts_spec [where ok = "\<lambda>i. missing = [] \<and> ver i" and i = 0 and n = "nat mx"
        and hook = hook and verify = verify and cand = cand and ver = ver and missing = missing and b = ?b,
        OF l [folded al(1)] al(3) assms(8) assms(9) assms(4) pid refl b] by simp
  finally show ?thesis by (simp only: Let_def affordable_def al add_0)
qed

text \<open>
  C6: An attack on an unsolved problem with a client that answers is exactly: the attempts the
  cap affords, in order, each granted its rung or what is left of the cap, until the first
  whose candidate verifies while every marker is in the statement. It spends at most the cap
  and leaves the ledger alone unless it solves; an empty candidate that verifies raises.
\<close>

theorem attack_exact:
  assumes "ladder_new rungs = Inr l" and "attack_loop_new l cost cap = Inr al" and "0 < cap"
    and "pid \<noteq> []" and "1 \<le> mx" and "\<not> is_solved led pid"
    and "check_statement_integrity statement markers = Inr missing"
    and "\<And>i. hook (int i) pid = Inr (cand i)" and "\<And>i. verify (int i) (cand i) = Inr (ver i)"
  shows "attack al hook verify led pid statement markers mx =
         (let ok = (\<lambda>i. missing = [] \<and> ver i); tried = affordable l cap (nat mx)
          in case find ok tried of
               Some k \<Rightarrow>
                 if cand k = [] then (led, Inl EmptyEvidence)
                 else (fst (ledger_mark led pid (cand k)),
                       Inr (spec_report al ok pid (Suc k) (Some (cand k))))
             | None \<Rightarrow> (led, Inr (spec_report al ok pid (length tried) None)))"
  by (rule attack_run [where hook = hook and verify = verify and cand = cand and ver = ver]) (fact assms)+

theorem attack_exact_witness:
  "attack \<lparr>al_ladder = [2, 3], al_cost = 1, al_cap = 4\<rparr> (\<lambda>i _. Inr (if i = 1 then ''proof'' else ''draft''))
     (\<lambda>_ c. Inr (c = ''proof'')) fresh_ledger ''p'' ''lemma x'' [''lemma''] 3 =
   (let ok = (\<lambda>i. [] = ([] :: string list) \<and> i = (1 :: nat)); tried = affordable [2, 3] 4 (nat 3)
    in case find ok tried of
         Some k \<Rightarrow>
           if (if k = 1 then ''proof'' else ''draft'') = [] then (fresh_ledger, Inl EmptyEvidence)
           else (fst (ledger_mark fresh_ledger ''p'' (if k = 1 then ''proof'' else ''draft'')),
                 Inr (spec_report \<lparr>al_ladder = [2, 3], al_cost = 1, al_cap = 4\<rparr> ok ''p'' (Suc k)
                        (Some (if k = 1 then ''proof'' else ''draft''))))
       | None \<Rightarrow> (fresh_ledger, Inr (spec_report \<lparr>al_ladder = [2, 3], al_cost = 1, al_cap = 4\<rparr> ok ''p''
                                    (length tried) None)))"
  by (rule attack_exact [of "[2, 3]" _ 1])
    (simp_all add: ladder_new_def attack_loop_new_def is_solved_def fresh_ledger_def
      check_statement_integrity_def py_contains.simps py_startswith_def)


text \<open>A problem attacked again and again, with the episodes the reports add up to.\<close>

fun attack_again ::
  "attack_loop \<Rightarrow> (int \<Rightarrow> string \<Rightarrow> cp_error + string) \<Rightarrow> (int \<Rightarrow> string \<Rightarrow> cp_error + bool) \<Rightarrow>
     ledger \<Rightarrow> string \<Rightarrow> string \<Rightarrow> string list \<Rightarrow> int \<Rightarrow> nat \<Rightarrow> int" where
  "attack_again al hook verify led pid statement markers mx 0 = 0"
| "attack_again al hook verify led pid statement markers mx (Suc n) =
     (let (led1, r) = attack al hook verify led pid statement markers mx
      in (case r of Inl _ \<Rightarrow> 0 | Inr rep \<Rightarrow> rp_spent rep) +
         attack_again al hook verify led1 pid statement markers mx n)"

lemma asked_affordable:
  assumes "cap \<le> asked l n"
  shows "cap \<le> asked l (length (affordable l cap n))"
proof -
  let ?t = "takeWhile (\<lambda>i. asked l i < cap) [0..<n]"
  show ?thesis
  proof (cases "length ?t < n")
    case True
    with nth_length_takeWhile [of "\<lambda>i. asked l i < cap" "[0..<n]"] show ?thesis
      by (simp add: affordable_def not_less)
  next
    case False
    with length_takeWhile_le [of "\<lambda>i. asked l i < cap" "[0..<n]"] have "length ?t = n" by simp
    with assms show ?thesis by (simp add: affordable_def)
  qed
qed

text \<open>
  The episode cap is documented as a bound per problem, but every call of \<open>attack\<close> makes a new
  budget: as long as no candidate verifies, each further attack on the same problem spends the
  whole cap again.
\<close>

theorem attack_cap_per_call:
  assumes "ladder_new rungs = Inr l" and "attack_loop_new l cost cap = Inr al" and "0 < cap"
    and "pid \<noteq> []" and "1 \<le> mx" and "\<not> is_solved led pid"
    and "check_statement_integrity statement markers = Inr missing"
    and "\<And>i. hook (int i) pid = Inr (cand i)" and "\<And>i. verify (int i) (cand i) = Inr False"
    and "cap \<le> asked l (nat mx)"
  shows "attack_again al hook verify led pid statement markers mx n = int n * cap"
proof -
  have "find (\<lambda>_. False) xs = None" for xs :: "nat list" by (induction xs) auto
  then have "attack al hook verify led pid statement markers mx =
      (led, Inr (spec_report al (\<lambda>_. False) pid (length (affordable l cap (nat mx))) None))"
    using attack_run [where hook = hook and verify = verify and cand = cand and ver = "\<lambda>_. False", OF assms(1-9)]
    by (simp add: Let_def)
  moreover have "al_ladder al = l" "al_cap al = cap"
    using assms(2) by (auto simp: attack_loop_new_def split: if_splits)
  ultimately show ?thesis
    using asked_affordable [OF assms(10)]
    by (induction n) (simp_all add: spec_report_def algebra_simps)
qed

theorem attack_cap_per_call_witness:
  "attack_again \<lparr>al_ladder = [2, 3], al_cost = 1, al_cap = 4\<rparr> (\<lambda>_ _. Inr ''draft'') (\<lambda>_ _. Inr False)
     fresh_ledger ''p'' ''lemma x'' [] 3 10 = 10 * 4"
proof -
  have "attack_again \<lparr>al_ladder = [2, 3], al_cost = 1, al_cap = 4\<rparr> (\<lambda>_ _. Inr ''draft'') (\<lambda>_ _. Inr False)
     fresh_ledger ''p'' ''lemma x'' [] 3 10 = int 10 * 4"
    by (rule attack_cap_per_call [of "[2, 3]" "[2, 3]" 1])
      (simp_all add: ladder_new_def attack_loop_new_def is_solved_def fresh_ledger_def
        check_statement_integrity_def asked_def rung_def eval_nat_numeral)
  then show ?thesis by simp
qed

end
