(* ===== verification/SketchSearch.thy ===== *)
theory SketchSearch
  imports Complex_Main PyText Contracts "HOL-Library.Product_Lexorder"
begin

text \<open>
  The two populations that guide the generation of candidates: the upper-confidence-bound
  choice between families of sketches (harness/complex_problems/p_ucb.py) and the rated store
  of sketches (harness/complex_problems/sketch_store.py). Ratings and scores are rationals;
  the score of a family (a square root and a logarithm) and the expected result of a match (a
  power of ten) are parameters.
\<close>

subsection \<open>Families of sketches\<close>

record ucb =
  uc_arms :: "string list"
  uc_exploration :: rat
  uc_pulls :: "(string \<times> nat) list"
  uc_wins :: "(string \<times> nat) list"

datatype ucb_error = NoArms | DuplicateArm | BadExploration rat | UnknownArm string

definition ucb_new :: "string list \<Rightarrow> rat \<Rightarrow> ucb_error + ucb" where
  "ucb_new arms exploration =
     (if arms = [] then Inl NoArms
      else if card (set arms) \<noteq> length arms then Inl DuplicateArm
      else if exploration \<le> 0 then Inl (BadExploration exploration)
      else Inr \<lparr>uc_arms = arms, uc_exploration = exploration,
                uc_pulls = map (\<lambda>a. (a, 0)) arms, uc_wins = map (\<lambda>a. (a, 0)) arms\<rparr>)"

definition total_pulls :: "ucb \<Rightarrow> nat" where
  "total_pulls u = sum_list (map snd (uc_pulls u))"

text \<open>\<open>score c w p t\<close>: wins \<open>w\<close> of \<open>p\<close> pulls out of \<open>t\<close> in all, with exploration \<open>c\<close>.\<close>

definition arm_score :: "(rat \<Rightarrow> nat \<Rightarrow> nat \<Rightarrow> nat \<Rightarrow> rat) \<Rightarrow> ucb \<Rightarrow> string \<Rightarrow> rat" where
  "arm_score score u a =
     score (uc_exploration u) (dict_get (uc_wins u) a 0) (dict_get (uc_pulls u) a 0) (total_pulls u)"

fun best_arm :: "(string \<Rightarrow> rat) \<Rightarrow> string \<Rightarrow> string list \<Rightarrow> string" where
  "best_arm f b [] = b"
| "best_arm f b (a # as) = best_arm f (if f a > f b then a else b) as"

definition ucb_select :: "(rat \<Rightarrow> nat \<Rightarrow> nat \<Rightarrow> nat \<Rightarrow> rat) \<Rightarrow> ucb \<Rightarrow> string" where
  "ucb_select score u =
     (case find (\<lambda>a. dict_get (uc_pulls u) a 0 = 0) (uc_arms u) of
        Some a \<Rightarrow> a
      | None \<Rightarrow> best_arm (arm_score score u) (hd (uc_arms u)) (tl (uc_arms u)))"

definition ucb_record :: "ucb \<Rightarrow> string \<Rightarrow> bool \<Rightarrow> ucb \<times> (ucb_error + unit)" where
  "ucb_record u a won =
     (if map_of (uc_pulls u) a = None then (u, Inl (UnknownArm a))
      else (let u1 = u\<lparr>uc_pulls := dict_add (uc_pulls u) a 1\<rparr>
            in if won then u1\<lparr>uc_wins := dict_add (uc_wins u) a 1\<rparr> else u1, Inr ()))"

text \<open>Choosing and recording in turn; \<open>results\<close> tells whether each choice won.\<close>

fun ucb_play ::
  "(rat \<Rightarrow> nat \<Rightarrow> nat \<Rightarrow> nat \<Rightarrow> rat) \<Rightarrow> ucb \<Rightarrow> bool list \<Rightarrow> ucb \<times> string list" where
  "ucb_play score u [] = (u, [])"
| "ucb_play score u (won # results) =
     (let a = ucb_select score u; (u1, chosen) = ucb_play score (fst (ucb_record u a won)) results
      in (u1, a # chosen))"

definition ucb_wf :: "ucb \<Rightarrow> bool" where
  "ucb_wf u \<longleftrightarrow>
     uc_arms u \<noteq> [] \<and> distinct (uc_arms u) \<and> map fst (uc_pulls u) = uc_arms u \<and>
     map fst (uc_wins u) = uc_arms u \<and>
     (\<forall>a. dict_get (uc_wins u) a 0 \<le> dict_get (uc_pulls u) a 0)"

lemma dict_keys_add: "k \<in> fst ` set d \<Longrightarrow> map fst (dict_add d k n) = map fst d"
  by (simp add: dict_add_def dict_keys_update)

lemma ucb_new_Inr: "ucb_new arms c = Inr u \<longleftrightarrow>
    arms \<noteq> [] \<and> distinct arms \<and> 0 < c \<and>
    u = \<lparr>uc_arms = arms, uc_exploration = c, uc_pulls = map (\<lambda>a. (a, 0)) arms,
         uc_wins = map (\<lambda>a. (a, 0)) arms\<rparr>"
  by (auto simp: ucb_new_def not_le distinct_card card_distinct)

lemma dict_get_zeros [simp]: "dict_get (map (\<lambda>a. (a, 0 :: nat)) arms) a 0 = 0"
  by (induction arms) (auto simp: dict_get_def)

lemma ucb_wf_new: "ucb_new arms c = Inr u \<Longrightarrow> ucb_wf u"
  by (auto simp: ucb_new_Inr ucb_wf_def comp_def)

lemma best_arm_spec:
  "best_arm f b as \<in> set (b # as) \<and> (\<forall>a \<in> set (b # as). f a \<le> f (best_arm f b as))"
proof (induction as arbitrary: b)
  case (Cons a as)
  show ?case using Cons.IH [of "if f a > f b then a else b"] by (auto split: if_splits)
qed simp

lemma ucb_select_arm: "ucb_wf u \<Longrightarrow> ucb_select score u \<in> set (uc_arms u)"
proof -
  assume w: "ucb_wf u"
  then have "set (hd (uc_arms u) # tl (uc_arms u)) = set (uc_arms u)" by (simp add: ucb_wf_def)
  then have "best_arm f (hd (uc_arms u)) (tl (uc_arms u)) \<in> set (uc_arms u)" for f
    using best_arm_spec by metis
  then show ?thesis by (auto simp: ucb_select_def find_Some_iff split: option.split)
qed

lemma ucb_record_known:
  assumes "ucb_wf u" and "a \<in> set (uc_arms u)"
  shows "ucb_wf (fst (ucb_record u a won))" and "snd (ucb_record u a won) = Inr ()"
    and "uc_arms (fst (ucb_record u a won)) = uc_arms u"
    and "dict_get (uc_pulls (fst (ucb_record u a won))) x 0 =
           dict_get (uc_pulls u) x 0 + (if x = a then 1 else 0)"
    and "total_pulls (fst (ucb_record u a won)) = Suc (total_pulls u)"
proof -
  have k: "a \<in> fst ` set (uc_pulls u)" "a \<in> fst ` set (uc_wins u)"
    using assms by (metis ucb_wf_def set_map)+
  then have m: "map_of (uc_pulls u) a \<noteq> None" by (simp add: map_of_eq_None_iff)
  show "ucb_wf (fst (ucb_record u a won))"
    using assms m k
    by (auto simp: ucb_record_def Let_def ucb_wf_def dict_keys_add dict_get_add le_SucI)
  show "snd (ucb_record u a won) = Inr ()" "uc_arms (fst (ucb_record u a won)) = uc_arms u"
    "dict_get (uc_pulls (fst (ucb_record u a won))) x 0 =
       dict_get (uc_pulls u) x 0 + (if x = a then 1 else 0)"
    "total_pulls (fst (ucb_record u a won)) = Suc (total_pulls u)"
    using m by (auto simp: ucb_record_def Let_def dict_get_add total_pulls_def sum_dict_add)
qed

text \<open>While the first \<open>i\<close> arms have been pulled and no other, the next choice is arm \<open>i\<close>.\<close>

definition covered :: "ucb \<Rightarrow> nat \<Rightarrow> bool" where
  "covered u i \<longleftrightarrow>
     (\<forall>j < length (uc_arms u). (dict_get (uc_pulls u) (uc_arms u ! j) 0 = 0) = (i \<le> j))"

lemma select_covering:
  assumes "covered u i" and "i < length (uc_arms u)"
  shows "ucb_select score u = uc_arms u ! i"
proof -
  have "find (\<lambda>a. dict_get (uc_pulls u) a 0 = 0) (uc_arms u) = Some (uc_arms u ! i)"
    unfolding find_Some_iff
  proof (intro exI [of _ i] conjI allI impI)
    fix j assume "j < i"
    with assms have "j < length (uc_arms u)" "\<not> i \<le> j" by simp_all
    with assms(1) show "dict_get (uc_pulls u) (uc_arms u ! j) 0 \<noteq> 0" by (simp add: covered_def)
  qed (use assms in \<open>simp_all add: covered_def\<close>)
  then show ?thesis by (simp add: ucb_select_def)
qed

lemma record_covering:
  assumes "ucb_wf u" and "covered u i" and "i < length (uc_arms u)"
  shows "covered (fst (ucb_record u (uc_arms u ! i) won)) (Suc i)"
proof -
  have d: "distinct (uc_arms u)" using assms(1) by (simp add: ucb_wf_def)
  have i: "uc_arms u ! i \<in> set (uc_arms u)" using assms(3) by simp
  show ?thesis
    using assms(2,3) d
    by (auto simp: covered_def ucb_record_known [OF assms(1) i] nth_eq_iff_index_eq)
qed

lemma ucb_play_covering:
  assumes "ucb_wf u" and "covered u i" and "i \<le> length (uc_arms u)"
  shows "take (length (uc_arms u) - i) (snd (ucb_play score u results)) =
           take (min (length (uc_arms u) - i) (length results)) (drop i (uc_arms u))"
  using assms
proof (induction results arbitrary: u i)
  case Nil
  then show ?case by simp
next
  case (Cons won results)
  show ?case
  proof (cases "i < length (uc_arms u)")
    case True
    let ?a = "uc_arms u ! i" and ?u = "fst (ucb_record u (uc_arms u ! i) won)"
    have s: "ucb_select score u = ?a" using select_covering [OF Cons.prems(2) True] .
    have a: "?a \<in> set (uc_arms u)" using True by simp
    have "take (length (uc_arms u) - Suc i) (snd (ucb_play score ?u results)) =
        take (min (length (uc_arms u) - Suc i) (length results)) (drop (Suc i) (uc_arms u))"
      using Cons.IH [OF _ record_covering [OF Cons.prems(1,2) True]] True
        ucb_record_known(1,3) [OF Cons.prems(1) a] by simp
    moreover have "drop i (uc_arms u) = ?a # drop (Suc i) (uc_arms u)"
      using True by (rule Cons_nth_drop_Suc [symmetric])
    moreover have "length (uc_arms u) - i = Suc (length (uc_arms u) - Suc i)" using True by simp
    ultimately show ?thesis using s by (simp add: Let_def split_beta)
  next
    case False
    with Cons.prems show ?thesis by simp
  qed
qed

lemma ucb_play_wf:
  assumes "ucb_wf u"
  shows "ucb_wf (fst (ucb_play score u results)) \<and>
         set (snd (ucb_play score u results)) \<subseteq> set (uc_arms u) \<and>
         length (snd (ucb_play score u results)) = length results \<and>
         (\<forall>a. dict_get (uc_pulls (fst (ucb_play score u results))) a 0 =
              dict_get (uc_pulls u) a 0 + count_list (snd (ucb_play score u results)) a)"
  using assms
proof (induction results arbitrary: u)
  case (Cons won results)
  note a = ucb_select_arm [OF Cons.prems, of score]
  from Cons.IH [OF ucb_record_known(1) [OF Cons.prems a, of won]] a
    ucb_record_known(3,4) [OF Cons.prems a, of won]
  show ?case by (auto simp: Let_def split_beta)
qed simp

text \<open>
  Coverage: from a new population the first choices are the families in the order of their
  declaration, each once, whatever the results and the scores; after that only families of the
  population are chosen. The pulls of a family are the times it was chosen, its wins never
  exceed them.
\<close>

theorem ucb_coverage:
  assumes "ucb_new arms c = Inr u"
  shows "case ucb_play score u results of
           (u1, chosen) \<Rightarrow>
             take (length arms) chosen = take (length results) arms \<and>
             length chosen = length results \<and> set chosen \<subseteq> set arms \<and>
             dict_get (uc_pulls u1) a 0 = count_list chosen a \<and>
             dict_get (uc_wins u1) a 0 \<le> dict_get (uc_pulls u1) a 0"
proof -
  have u: "uc_arms u = arms" "\<And>x. dict_get (uc_pulls u) x 0 = 0" using assms by (auto simp: ucb_new_Inr)
  then have "covered u 0" by (simp add: covered_def)
  from ucb_play_covering [OF ucb_wf_new [OF assms] this, of score results] u
  have "take (length arms) (snd (ucb_play score u results)) = take (length results) arms"
    by (simp add: min_def split: if_splits)
  with ucb_play_wf [OF ucb_wf_new [OF assms], of score results] u show ?thesis
    by (auto simp: ucb_wf_def split: prod.split)
qed

theorem ucb_coverage_witness:
  "case ucb_play (\<lambda>c w p t. of_nat w / of_nat p)
          \<lparr>uc_arms = [''a'', ''b''], uc_exploration = 1, uc_pulls = [(''a'', 0), (''b'', 0)],
           uc_wins = [(''a'', 0), (''b'', 0)]\<rparr> [True, False, True] of
     (u1, chosen) \<Rightarrow>
       take (length [''a'', ''b'']) chosen = take (length [True, False, True]) [''a'', ''b''] \<and>
       length chosen = length [True, False, True] \<and> set chosen \<subseteq> set [''a'', ''b''] \<and>
       dict_get (uc_pulls u1) ''a'' 0 = count_list chosen ''a'' \<and>
       dict_get (uc_wins u1) ''a'' 0 \<le> dict_get (uc_pulls u1) ''a'' 0"
  by (rule ucb_coverage [of _ 1]) (simp add: ucb_new_def)

text \<open>Once every family has been tried, the choice is a family of the highest score.\<close>

lemma ucb_select_best:
  assumes "ucb_wf u" and "\<And>a. a \<in> set (uc_arms u) \<Longrightarrow> 0 < dict_get (uc_pulls u) a 0"
    and "a \<in> set (uc_arms u)"
  shows "arm_score score u a \<le> arm_score score u (ucb_select score u)"
proof -
  have n: "find (\<lambda>a. dict_get (uc_pulls u) a 0 = 0) (uc_arms u) = None"
    using assms(2) by (force simp: find_None_iff)
  have "a \<in> set (hd (uc_arms u) # tl (uc_arms u))" using assms(1,3) by (simp add: ucb_wf_def)
  with best_arm_spec show ?thesis unfolding ucb_select_def n by (metis option.case(1))
qed


subsection \<open>Rated sketches\<close>

record sketch =
  sk_id :: string
  sk_program :: string
  sk_rating :: rat

record sketch_store =
  ss_k :: rat
  ss_sketches :: "(string \<times> sketch) list"

datatype store_error = BadKFactor rat | EmptySketchId | SelfPlay string | NoSketch string

definition sketch_new :: "string \<Rightarrow> string \<Rightarrow> sketch" where
  "sketch_new i p = \<lparr>sk_id = i, sk_program = p, sk_rating = 1500\<rparr>"

definition sketches_new :: "rat \<Rightarrow> store_error + sketch_store" where
  "sketches_new k = (if k \<le> 0 then Inl (BadKFactor k) else Inr \<lparr>ss_k = k, ss_sketches = []\<rparr>)"

definition sketch_add :: "sketch_store \<Rightarrow> sketch \<Rightarrow> sketch_store \<times> (store_error + bool)" where
  "sketch_add s x =
     (if sk_id x = [] then (s, Inl EmptySketchId)
      else if map_of (ss_sketches s) (sk_id x) \<noteq> None then (s, Inr False)
      else (s\<lparr>ss_sketches := AList.update (sk_id x) x (ss_sketches s)\<rparr>, Inr True))"

definition sketch_get :: "sketch_store \<Rightarrow> string \<Rightarrow> store_error + sketch" where
  "sketch_get s i = (case map_of (ss_sketches s) i of None \<Rightarrow> Inl (NoSketch i) | Some x \<Rightarrow> Inr x)"

text \<open>\<open>expected l w\<close>: the expected result of a winner rated \<open>w\<close> against a loser rated \<open>l\<close>.\<close>

definition record_result ::
  "(rat \<Rightarrow> rat \<Rightarrow> rat) \<Rightarrow> sketch_store \<Rightarrow> string \<Rightarrow> string \<Rightarrow> sketch_store \<times> (store_error + unit)" where
  "record_result expected s wid lid =
     (if wid = lid then (s, Inl (SelfPlay wid))
      else case sketch_get s wid of
             Inl e \<Rightarrow> (s, Inl e)
           | Inr w \<Rightarrow> (case sketch_get s lid of
               Inl e \<Rightarrow> (s, Inl e)
             | Inr l \<Rightarrow>
                 let delta = ss_k s * (1 - expected (sk_rating l) (sk_rating w))
                 in (s\<lparr>ss_sketches :=
                         AList.update lid (l\<lparr>sk_rating := sk_rating l - delta\<rparr>)
                           (AList.update wid (w\<lparr>sk_rating := sk_rating w + delta\<rparr>) (ss_sketches s))\<rparr>,
                     Inr ())))"

definition store_top :: "sketch_store \<Rightarrow> int \<Rightarrow> sketch list" where
  "store_top s k =
     take (nat (max k 0)) (sort_key (\<lambda>x. (- sk_rating x, sk_id x)) (map snd (ss_sketches s)))"

definition store_len :: "sketch_store \<Rightarrow> nat" where
  "store_len s = length (ss_sketches s)"

definition sketches_wf :: "sketch_store \<Rightarrow> bool" where
  "sketches_wf s \<longleftrightarrow>
     wf_dict (ss_sketches s) \<and> (\<forall>i x. map_of (ss_sketches s) i = Some x \<longrightarrow> sk_id x = i \<and> i \<noteq> [])"

definition rating_sum :: "sketch_store \<Rightarrow> rat" where
  "rating_sum s = sum_list (map (sk_rating \<circ> snd) (ss_sketches s))"

definition add_try :: "sketch_store \<Rightarrow> string \<Rightarrow> sketch \<Rightarrow> sketch_store \<times> bool" where
  "add_try s i x = (case sketch_add s x of (s1, r) \<Rightarrow> (s1, case r of Inl _ \<Rightarrow> False | Inr b \<Rightarrow> b))"

lemma sketches_wf_add: "sketches_wf s \<Longrightarrow> sketches_wf (fst (sketch_add s x))"
  by (auto simp: sketches_wf_def sketch_add_def)

interpretation sketches: keep_first sketches_wf "\<lambda>i x. sk_id x = i \<and> i \<noteq> []"
  "\<lambda>s. map_of (ss_sketches s)" add_try
proof
  fix s i and x :: sketch assume w: "sketches_wf s" and v: "sk_id x = i \<and> i \<noteq> []"
  have f: "fst (add_try s i x) = fst (sketch_add s x)" by (simp add: add_try_def split: prod.split)
  show "sketches_wf (fst (add_try s i x))" using w by (simp add: f sketches_wf_add)
  show "snd (add_try s i x) \<longleftrightarrow> map_of (ss_sketches s) i = None"
    using v by (auto simp: add_try_def sketch_add_def)
  show "map_of (ss_sketches (fst (add_try s i x))) =
          (if map_of (ss_sketches s) i = None then (map_of (ss_sketches s))(i \<mapsto> x)
           else map_of (ss_sketches s))"
    using v by (auto simp: f sketch_add_def)
qed


lemma rating_sum_result: "rating_sum (fst (record_result expected s wid lid)) = rating_sum s"
proof (cases "wid = lid \<or> map_of (ss_sketches s) wid = None \<or> map_of (ss_sketches s) lid = None")
  case True
  then show ?thesis by (auto simp: record_result_def sketch_get_def split: option.split)
next
  case False
  then obtain w l where wl: "map_of (ss_sketches s) wid = Some w" "map_of (ss_sketches s) lid = Some l"
    by auto
  with False show ?thesis
    by (simp add: record_result_def sketch_get_def Let_def rating_sum_def
        sum_dict_update [where x = l] sum_dict_update [OF wl(1)])
qed

lemma sketches_wf_result: "sketches_wf s \<Longrightarrow> sketches_wf (fst (record_result expected s wid lid))"
  by (auto simp: record_result_def sketch_get_def sketches_wf_def Let_def split: option.splits)

datatype store_op = AddOp sketch | ResultOp string string

fun store_run :: "(rat \<Rightarrow> rat \<Rightarrow> rat) \<Rightarrow> sketch_store \<Rightarrow> store_op list \<Rightarrow> sketch_store" where
  "store_run expected s [] = s"
| "store_run expected s (AddOp x # ops) = store_run expected (fst (sketch_add s x)) ops"
| "store_run expected s (ResultOp w l # ops) = store_run expected (fst (record_result expected s w l)) ops"

text \<open>What the sketches accepted by a run brought in.\<close>

fun ratings_added :: "(rat \<Rightarrow> rat \<Rightarrow> rat) \<Rightarrow> sketch_store \<Rightarrow> store_op list \<Rightarrow> rat" where
  "ratings_added expected s [] = 0"
| "ratings_added expected s (AddOp x # ops) =
     (if snd (sketch_add s x) = Inr True then sk_rating x else 0) +
     ratings_added expected (fst (sketch_add s x)) ops"
| "ratings_added expected s (ResultOp w l # ops) =
     ratings_added expected (fst (record_result expected s w l)) ops"

lemma rating_sum_add:
  "rating_sum (fst (sketch_add s x)) =
     rating_sum s + (if snd (sketch_add s x) = Inr True then sk_rating x else 0)"
  by (auto simp: sketch_add_def rating_sum_def sum_dict_fresh)

lemma store_run_sum:
  "rating_sum (store_run expected s ops) = rating_sum s + ratings_added expected s ops"
  by (induction expected s ops rule: store_run.induct) (simp_all add: rating_sum_add rating_sum_result)

lemma store_run_wf: "sketches_wf s \<Longrightarrow> sketches_wf (store_run expected s ops)"
  by (induction expected s ops rule: store_run.induct) (simp_all add: sketches_wf_add sketches_wf_result)

lemma store_top_sorted:
  "sorted (map (\<lambda>x. (- sk_rating x, sk_id x)) (store_top s k))"
  by (simp add: store_top_def take_map [symmetric] sorted_wrt_take)

lemma store_top_rest:
  assumes "x \<in> set (store_top s k)" and "y \<in> set (dict_values (ss_sketches s))"
    and "y \<notin> set (store_top s k)"
  shows "sk_rating y \<le> sk_rating x"
proof -
  let ?ys = "sort_key (\<lambda>x. (- sk_rating x, sk_id x)) (map snd (ss_sketches s))"
  let ?n = "nat (max k 0)"
  have "y \<in> set (drop ?n ?ys)"
  proof -
    have "y \<in> set (take ?n ?ys @ drop ?n ?ys)" using assms(2) by (simp add: dict_values_def)
    with assms(3) show ?thesis unfolding set_append by (simp add: store_top_def)
  qed
  moreover have "sorted (map (\<lambda>x. (- sk_rating x, sk_id x)) (take ?n ?ys @ drop ?n ?ys))"
    unfolding append_take_drop_id by simp
  ultimately have "(- sk_rating x, sk_id x) \<le> (- sk_rating y, sk_id y)"
    using assms(1) unfolding store_top_def map_append sorted_append by simp
  then show ?thesis by auto
qed

text \<open>
  Elo is zero-sum: over any additions and matches the ratings add up to what the accepted
  sketches brought in, every sketch stays under its own identifier, and the top is sorted by
  rating with no better sketch left out.
\<close>

theorem elo_zero_sum:
  "let s = store_run expected \<lparr>ss_k = k, ss_sketches = []\<rparr> ops
   in rating_sum s = ratings_added expected \<lparr>ss_k = k, ss_sketches = []\<rparr> ops \<and>
          sketches_wf s \<and>
          sorted (map (\<lambda>x. (- sk_rating x, sk_id x)) (store_top s n)) \<and>
          list_all (\<lambda>x. list_all (\<lambda>y. y \<in> set (store_top s n) \<or> sk_rating y \<le> sk_rating x)
                          (dict_values (ss_sketches s))) (store_top s n)"
proof -
  let ?s0 = "\<lparr>ss_k = k, ss_sketches = []\<rparr>"
  have "sketches_wf ?s0" by (simp add: sketches_wf_def)
  have "rating_sum ?s0 = 0" by (simp add: rating_sum_def)
  then have r: "rating_sum (store_run expected ?s0 ops) = ratings_added expected ?s0 ops"
    using store_run_sum [of expected ?s0 ops] by simp
  show ?thesis
    using r store_run_wf [OF \<open>sketches_wf ?s0\<close>, of expected ops] store_top_sorted
    by (auto simp: Let_def list_all_iff intro: store_top_rest)
qed

end
