(* ===== verification/BatchExecution.thy ===== *)
theory BatchExecution
  imports Complex_Main PyText Contracts "HOL-Library.Multiset"
begin

text \<open>
  Bounded parallel execution with shedding (harness/orchestrator/bounded_executor.py) and votes
  over several answers (harness/orchestrator/batch_vote.py). The worker threads are a step
  relation over the queue, so every interleaving is covered; how a task ends within its
  deadline is a parameter. Stakes and ratios are rationals.
\<close>

subsection \<open>Admission to the queue\<close>

datatype shed_policy = DropNewest | DropOldest

record 'f work_queue =
  wq_max :: int
  wq_items :: "(nat \<times> 'f) list"

definition wq_put :: "'f work_queue \<Rightarrow> nat \<times> 'f \<Rightarrow> 'f work_queue \<times> bool" where
  "wq_put q x =
     (if int (length (wq_items q)) < wq_max q then (q\<lparr>wq_items := wq_items q @ [x]\<rparr>, True)
      else (q, False))"

definition wq_get :: "'f work_queue \<Rightarrow> 'f work_queue \<times> (nat \<times> 'f) option" where
  "wq_get q = (case wq_items q of [] \<Rightarrow> (q, None) | x # xs \<Rightarrow> (q\<lparr>wq_items := xs\<rparr>, Some x))"

interpretation workq: bounded_fifo wq_items wq_max wq_put wq_get
  by unfold_locales (auto simp: wq_put_def wq_get_def split: list.splits)

record executor =
  be_workers :: int
  be_queue_size :: int
  be_policy :: shed_policy
  be_executed :: nat
  be_shed :: nat
  be_timeouts :: nat

datatype exec_error = BadWorkers int | BadQueueSize int | QueueFull

definition executor_new :: "int \<Rightarrow> int \<Rightarrow> shed_policy \<Rightarrow> exec_error + executor" where
  "executor_new workers queue_size policy =
     (if workers \<le> 0 then Inl (BadWorkers workers)
      else if queue_size \<le> 0 then Inl (BadQueueSize queue_size)
      else Inr \<lparr>be_workers = workers, be_queue_size = queue_size, be_policy = policy,
                be_executed = 0, be_shed = 0, be_timeouts = 0\<rparr>)"

text \<open>The admission loop of \<open>map\<close>: queue, accepted tasks and the number shed.\<close>

fun admit_tasks ::
  "shed_policy \<Rightarrow> (nat \<times> 'f) list \<Rightarrow> 'f work_queue \<Rightarrow> (nat \<times> 'f) list \<Rightarrow> nat \<Rightarrow>
     exec_error + 'f work_queue \<times> (nat \<times> 'f) list \<times> nat" where
  "admit_tasks policy [] pending accepted shed = Inr (pending, accepted, shed)"
| "admit_tasks policy (x # xs) pending accepted shed =
     (case wq_put pending x of
        (pending1, True) \<Rightarrow> admit_tasks policy xs pending1 (accepted @ [x]) shed
      | (_, False) \<Rightarrow>
          if policy = DropOldest \<and> accepted \<noteq> [] then
            (case wq_put (fst (wq_get pending)) x of
               (_, False) \<Rightarrow> Inl QueueFull
             | (pending1, True) \<Rightarrow> admit_tasks policy xs pending1 (tl accepted @ [x]) (shed + 1))
          else admit_tasks policy xs pending accepted (shed + 1))"

subsection \<open>The workers\<close>

text \<open>How a task ends: with a result, with an exception, or after its deadline.\<close>

datatype 'r task_end = Returned 'r | Raised | Late

fun run_with_deadline :: "'r task_end \<Rightarrow> 'r option" where
  "run_with_deadline (Returned r) = Some r"
| "run_with_deadline Raised = None"
| "run_with_deadline Late = None"

record ('f, 'r) pool =
  po_pending :: "(nat \<times> 'f) list"
  po_running :: "(nat \<times> 'f) option list"
  po_outcomes :: "(nat \<times> 'r) list"
  po_timeouts :: nat

definition worker_done :: "(nat \<times> 'f \<Rightarrow> 'r task_end) \<Rightarrow> ('f, 'r) pool \<Rightarrow> nat \<times> 'f \<Rightarrow> ('f, 'r) pool" where
  "worker_done ends p x =
     (case run_with_deadline (ends x) of
        None \<Rightarrow> p\<lparr>po_timeouts := po_timeouts p + 1\<rparr>
      | Some r \<Rightarrow> p\<lparr>po_outcomes := po_outcomes p @ [(fst x, r)]\<rparr>)"

inductive worker_step ::
  "(nat \<times> 'f \<Rightarrow> 'r task_end) \<Rightarrow> ('f, 'r) pool \<Rightarrow> ('f, 'r) pool \<Rightarrow> bool" for ends where
  take: "w < length (po_running p) \<Longrightarrow> po_running p ! w = None \<Longrightarrow> po_pending p = x # xs \<Longrightarrow>
     worker_step ends p (p\<lparr>po_pending := xs, po_running := (po_running p)[w := Some x]\<rparr>)"
| finish: "w < length (po_running p) \<Longrightarrow> po_running p ! w = Some x \<Longrightarrow>
     worker_step ends p (worker_done ends (p\<lparr>po_running := (po_running p)[w := None]\<rparr>) x)"

definition pool_start :: "executor \<Rightarrow> (nat \<times> 'f) list \<Rightarrow> ('f, 'r) pool" where
  "pool_start e accepted =
     \<lparr>po_pending = accepted,
      po_running = replicate (min (nat (be_workers e)) (length accepted)) None,
      po_outcomes = [], po_timeouts = 0\<rparr>"

record 'r batch_outcome =
  bo_results :: "'r list"
  bo_shed :: nat
  bo_timeouts :: nat

text \<open>The end of \<open>map\<close>, once every worker has returned.\<close>

definition collect_batch ::
  "executor \<Rightarrow> nat \<Rightarrow> ('f, 'r) pool \<Rightarrow> executor \<times> 'r batch_outcome" where
  "collect_batch e shed p =
     (let results = map snd (sort_key fst (po_outcomes p))
      in (e\<lparr>be_shed := be_shed e + shed, be_executed := be_executed e + length results,
            be_timeouts := be_timeouts e + po_timeouts p\<rparr>,
          \<lparr>bo_results = results, bo_shed = shed, bo_timeouts = po_timeouts p\<rparr>))"

definition executor_metrics :: "executor \<Rightarrow> nat \<times> nat \<times> nat" where
  "executor_metrics e = (be_executed e, be_shed e, be_timeouts e)"

subsection \<open>What is admitted\<close>

lemma admit_newest:
  assumes "accepted = wq_items pending" and "int (length accepted) \<le> wq_max pending"
  shows "\<exists>q. admit_tasks DropNewest xs pending accepted shed =
           Inr (q, take (nat (wq_max pending)) (accepted @ xs),
                shed + (length accepted + length xs - nat (wq_max pending))) \<and>
           wq_items q = take (nat (wq_max pending)) (accepted @ xs)"
  using assms
proof (induction xs arbitrary: pending accepted shed)
  case Nil
  then show ?case by simp
next
  case (Cons x xs)
  show ?case
  proof (cases "int (length accepted) < wq_max pending")
    case True
    have "nat (wq_max pending) - Suc (length accepted) + 1 = nat (wq_max pending) - length accepted"
      using True by simp
    with Cons.IH [of "accepted @ [x]" "pending\<lparr>wq_items := wq_items pending @ [x]\<rparr>" shed] Cons.prems True
    show ?thesis by (simp add: wq_put_def)
  next
    case False
    then have "nat (wq_max pending) = length accepted" using Cons.prems(2) by simp
    with Cons.IH [OF Cons.prems, of "shed + 1"] Cons.prems False show ?thesis
      by (simp add: wq_put_def)
  qed
qed

lemma admit_oldest:
  assumes "accepted = wq_items pending" and "int (length accepted) \<le> wq_max pending"
    and "1 \<le> wq_max pending"
  shows "\<exists>q. admit_tasks DropOldest xs pending accepted shed =
           Inr (q, last_n (nat (wq_max pending)) (accepted @ xs),
                shed + (length accepted + length xs - nat (wq_max pending))) \<and>
           wq_items q = last_n (nat (wq_max pending)) (accepted @ xs)"
  using assms
proof (induction xs arbitrary: pending accepted shed)
  case Nil
  then show ?case by (simp add: last_n_def)
next
  case (Cons x xs)
  show ?case
  proof (cases "int (length accepted) < wq_max pending")
    case True
    with Cons.IH [of "accepted @ [x]" "pending\<lparr>wq_items := wq_items pending @ [x]\<rparr>" shed] Cons.prems
    show ?thesis by (simp add: wq_put_def)
  next
    case False
    then have n: "nat (wq_max pending) = length accepted" and ne: "accepted \<noteq> []"
      using Cons.prems(2,3) by auto
    then obtain y ys where a: "accepted = y # ys" by (cases accepted) auto
    let ?q = "pending\<lparr>wq_items := ys @ [x]\<rparr>"
    have g: "wq_put (fst (wq_get pending)) x = (?q, True)"
    proof -
      have "wq_items pending = y # ys" using Cons.prems(1) a by simp
      with Cons.prems(1,2) have "wq_items pending = y # ys" "int (length ys) < wq_max pending" by simp_all
      then show ?thesis by (simp add: wq_get_def wq_put_def)
    qed
    let ?m = "Suc (length ys)"
    have m: "nat (wq_max pending) = ?m" "wq_max pending = 1 + int (length ys)"
      using n a Cons.prems(3) False Cons.prems(2) by auto
    have full: "wq_put pending x = (pending, False)"
      using False Cons.prems(1) by (simp add: wq_put_def)
    have l: "last_n ?m ((ys @ [x]) @ xs) = last_n ?m ((y # ys) @ x # xs)"
      by (simp add: last_n_def Suc_diff_le)
    have c: "(shed + 1) + (length (ys @ [x]) + length xs - ?m) =
        shed + (length (y # ys) + length (x # xs) - ?m)" by simp
    have "\<exists>q. admit_tasks DropOldest xs ?q (ys @ [x]) (shed + 1) =
             Inr (q, last_n ?m ((ys @ [x]) @ xs), (shed + 1) + (length (ys @ [x]) + length xs - ?m)) \<and>
           wq_items q = last_n ?m ((ys @ [x]) @ xs)"
      using Cons.IH [of "ys @ [x]" ?q "shed + 1"] m by simp
    moreover have "admit_tasks DropOldest (x # xs) pending accepted shed =
        admit_tasks DropOldest xs ?q (ys @ [x]) (shed + 1)"
      by (simp add: full g a)
    ultimately show ?thesis by (simp only: m(1) l c a)
  qed
qed

definition accepted_tasks :: "executor \<Rightarrow> 'f list \<Rightarrow> (nat \<times> 'f) list" where
  "accepted_tasks e tasks =
     (let xs = enumerate 0 tasks; n = nat (be_queue_size e)
      in case be_policy e of DropNewest \<Rightarrow> take n xs | DropOldest \<Rightarrow> last_n n xs)"

text \<open>
  All tasks of a batch are admitted before any worker starts, so a batch loses exactly what
  exceeds the size of the queue, however many workers there are: the last tasks, or the first
  ones under the other policy. Making room never fails.
\<close>

theorem executor_admission_exact:
  assumes "executor_new workers queue_size policy = Inr e"
  shows "case admit_tasks policy (enumerate 0 tasks) \<lparr>wq_max = queue_size, wq_items = []\<rparr> [] 0 of
           Inl _ \<Rightarrow> False
         | Inr (pending, accepted, shed) \<Rightarrow>
             wq_items pending = accepted \<and> accepted = accepted_tasks e tasks \<and>
             shed = length tasks - nat queue_size \<and>
             length accepted + shed = length tasks"
proof -
  have e: "be_queue_size e = queue_size" "be_policy e = policy" "1 \<le> queue_size"
    using assms by (auto simp: executor_new_def split: if_splits)
  let ?q = "\<lparr>wq_max = queue_size, wq_items = []\<rparr> :: 'a work_queue"
  show ?thesis
  proof (cases policy)
    case DropNewest
    from admit_newest [of "[]" ?q "enumerate 0 tasks" 0] e(3) DropNewest show ?thesis
      by (auto simp: accepted_tasks_def e Let_def)
  next
    case DropOldest
    from admit_oldest [of "[]" ?q "enumerate 0 tasks" 0] e(3) DropOldest show ?thesis
      by (auto simp: accepted_tasks_def e Let_def)
  qed
qed

theorem executor_admission_exact_witness:
  "case admit_tasks DropOldest (enumerate 0 ''abcde'') \<lparr>wq_max = 3, wq_items = []\<rparr> [] 0 of
     Inl _ \<Rightarrow> False
   | Inr (pending, accepted, shed) \<Rightarrow>
       wq_items pending = accepted \<and>
       accepted = accepted_tasks \<lparr>be_workers = 4, be_queue_size = 3, be_policy = DropOldest,
                    be_executed = 0, be_shed = 0, be_timeouts = 0\<rparr> ''abcde'' \<and>
       shed = length ''abcde'' - nat 3 \<and> length accepted + shed = length ''abcde''"
  by (rule executor_admission_exact [of 4]) (simp add: executor_new_def)

subsection \<open>What the workers compute\<close>

text \<open>The tasks that are done are those neither waiting nor running.\<close>

definition running_tasks :: "('f, 'r) pool \<Rightarrow> (nat \<times> 'f) list" where
  "running_tasks p = List.map_filter (\<lambda>x. x) (po_running p)"

definition pool_inv ::
  "(nat \<times> 'f \<Rightarrow> 'r task_end) \<Rightarrow> (nat \<times> 'f) list \<Rightarrow> ('f, 'r) pool \<Rightarrow> (nat \<times> 'f) list \<Rightarrow> bool" where
  "pool_inv ends accepted p fin \<longleftrightarrow>
     mset accepted = mset (po_pending p) + mset (running_tasks p) + mset fin \<and>
     po_outcomes p = List.map_filter (\<lambda>x. map_option (Pair (fst x)) (run_with_deadline (ends x))) fin \<and>
     po_timeouts p = length (filter (\<lambda>x. run_with_deadline (ends x) = None) fin)"

lemma map_filter_update_None:
  "w < length xs \<Longrightarrow> xs ! w = Some x \<Longrightarrow>
     mset (List.map_filter (\<lambda>x. x) xs) = add_mset x (mset (List.map_filter (\<lambda>x. x) (xs[w := None])))"
proof (induction xs arbitrary: w)
  case (Cons y ys)
  then show ?case by (cases w) (auto simp: List.map_filter_simps split: option.split)
qed simp

lemma map_filter_update_Some:
  "w < length xs \<Longrightarrow> xs ! w = None \<Longrightarrow>
     mset (List.map_filter (\<lambda>x. x) (xs[w := Some x])) = add_mset x (mset (List.map_filter (\<lambda>x. x) xs))"
proof (induction xs arbitrary: w)
  case (Cons y ys)
  then show ?case by (cases w) (auto simp: List.map_filter_simps split: option.split)
qed simp

lemma map_filter_append [simp]: "List.map_filter f (xs @ ys) = List.map_filter f xs @ List.map_filter f ys"
  by (induction xs) (simp_all add: List.map_filter_simps split: option.split)

lemma pool_inv_step:
  assumes "worker_step ends p p'" and "pool_inv ends accepted p fin"
  shows "\<exists>fin1. pool_inv ends accepted p' fin1 \<and> length (po_running p') = length (po_running p) \<and>
           2 * length (po_pending p') + length (running_tasks p') <
           2 * length (po_pending p) + length (running_tasks p)"
  using assms
proof (cases rule: worker_step.cases)
  case (take w x xs)
  have m: "mset (running_tasks p') = add_mset x (mset (running_tasks p))"
    using map_filter_update_Some [OF take(2,3)] take(1) by (simp add: running_tasks_def)
  then have "length (running_tasks p') = Suc (length (running_tasks p))"
    by (metis size_add_mset size_mset)
  with assms(2) take m show ?thesis
    by (intro exI [of _ fin]) (simp add: pool_inv_def)
next
  case (finish w x)
  let ?q = "p\<lparr>po_running := (po_running p)[w := None]\<rparr>"
  have r: "running_tasks p' = running_tasks ?q" "po_pending p' = po_pending p"
    "length (po_running p') = length (po_running p)"
    using finish(1) by (simp_all add: worker_done_def running_tasks_def split: option.split)
  have m: "mset (running_tasks p) = add_mset x (mset (running_tasks ?q))"
    using map_filter_update_None [OF finish(2,3)] by (simp add: running_tasks_def)
  then have "length (running_tasks p) = Suc (length (running_tasks p'))"
    unfolding r by (metis size_add_mset size_mset)
  moreover have "pool_inv ends accepted p' (fin @ [x])"
    using assms(2) m r finish(1)
    by (auto simp: pool_inv_def worker_done_def List.map_filter_simps split: option.split)
  ultimately show ?thesis using r by auto
qed

lemma pool_inv_steps:
  assumes "(worker_step ends)\<^sup>*\<^sup>* p p'" and "pool_inv ends accepted p fin"
  shows "\<exists>fin1. pool_inv ends accepted p' fin1 \<and> length (po_running p') = length (po_running p)"
  using assms
proof (induction arbitrary: rule: rtranclp_induct)
  case base
  then show ?case by blast
next
  case (step q r)
  then obtain d where "pool_inv ends accepted q d" "length (po_running q) = length (po_running p)" by blast
  with pool_inv_step [OF step(2)] show ?case by metis
qed

lemma sort_key_unique:
  assumes "mset xs = mset ys" and "distinct (map fst ys)" and "sorted (map fst ys)"
  shows "sort_key fst xs = (ys :: (nat \<times> 'a) list)"
proof (rule properties_for_sort_key)
  show "mset ys = mset xs" by (rule assms(1) [symmetric])
  show "sorted (map fst ys)" by (rule assms(3))
  fix k
  have dx: "distinct (map fst xs)"
    using assms(1,2) by (metis distinct_map mset_eq_imp_distinct_iff mset_eq_setD)
  have e: "filter (\<lambda>y. fst k = fst y) zs = (if k \<in> set zs then [k] else filter (\<lambda>y. fst k = fst y) zs)"
    if "distinct (map fst zs)" for zs :: "(nat \<times> 'a) list"
    using that by (induction zs) (auto simp: filter_empty_conv rev_image_eqI)
  assume "k \<in> set ys"
  moreover have "k \<in> set xs" using \<open>k \<in> set ys\<close> assms(1) by (metis mset_eq_setD)
  ultimately show "filter (\<lambda>y. fst k = fst y) ys = filter (\<lambda>y. fst k = fst y) xs"
    using e [OF dx] e [OF assms(2)] by simp
qed

definition batch_results :: "(nat \<times> 'f \<Rightarrow> 'r task_end) \<Rightarrow> (nat \<times> 'f) list \<Rightarrow> 'r list" where
  "batch_results ends accepted = List.map_filter (\<lambda>x. run_with_deadline (ends x)) accepted"

lemma mset_map_filter: "mset xs = mset ys \<Longrightarrow> mset (List.map_filter f xs) = mset (List.map_filter f ys)"
  by (simp add: List.map_filter_def)

lemma sorted_wrt_fst_filter:
  "sorted_wrt (\<lambda>x y. fst x < fst y) xs \<Longrightarrow>
     sorted_wrt (\<lambda>x y. fst x < fst y) (List.map_filter (\<lambda>x. map_option (Pair (fst x)) (g x)) xs)"
  unfolding List.map_filter_def by (induction xs) auto

lemma sorted_wrt_fst: "sorted_wrt (\<lambda>x y. fst x < (fst y :: nat)) xs \<Longrightarrow>
    distinct (map fst xs) \<and> sorted (map fst xs)"
  by (induction xs) fastforce+

lemma accepted_tasks_ordered: "sorted_wrt (\<lambda>x y. fst x < fst y) (accepted_tasks e tasks)"
proof -
  have "sorted_wrt (\<lambda>x y. fst x < fst y) (enumerate k tasks)" for k
    by (induction tasks arbitrary: k) (auto simp: in_set_enumerate_eq less_eq_Suc_le)
  then show ?thesis
    by (simp add: accepted_tasks_def Let_def last_n_def sorted_wrt_take sorted_wrt_drop split: shed_policy.split)
qed

lemma pool_final:
  assumes inv: "pool_inv ends accepted p fin" and stuck: "\<And>q. \<not> worker_step ends p q"
    and len: "po_running p \<noteq> [] \<or> accepted = []"
  shows "mset accepted = mset fin"
proof -
  have idle: "po_running p ! w = None" if "w < length (po_running p)" for w
    using stuck worker_step.finish [OF that] by (cases "po_running p ! w") blast+
  have "running_tasks p = []"
    using idle by (auto simp: running_tasks_def List.map_filter_def filter_empty_conv in_set_conv_nth)
  moreover have "po_pending p = []"
  proof (rule ccontr)
    assume "po_pending p \<noteq> []"
    then obtain x xs where x: "po_pending p = x # xs" by (cases "po_pending p") auto
    then have "accepted \<noteq> []" using inv by (auto simp: pool_inv_def)
    then have "0 < length (po_running p)" using len by simp
    from worker_step.take [OF this idle [OF this] x] stuck show False by blast
  qed
  ultimately show ?thesis using inv by (simp add: pool_inv_def)
qed

text \<open>
  C7: However the workers interleave, once none can go on the batch has run every admitted task
  exactly once: the results of those that returned in time, in the order of the input, and as
  timeouts those that did not, which includes the tasks that raised. Results, timeouts and shed
  tasks add up to the batch.
\<close>

theorem executor_schedule_independent:
  assumes "executor_new workers queue_size policy = Inr e"
    and "(worker_step ends)\<^sup>*\<^sup>* (pool_start e (accepted_tasks e tasks)) p"
    and "\<And>q. \<not> worker_step ends p q"
  shows "let accepted = accepted_tasks e tasks; shed = length tasks - length accepted;
             out = snd (collect_batch e shed p)
         in bo_results out = batch_results ends accepted \<and>
            bo_timeouts out = length (filter (\<lambda>x. run_with_deadline (ends x) = None) accepted) \<and>
            length (bo_results out) + bo_timeouts out + bo_shed out = length tasks"
proof -
  let ?acc = "accepted_tasks e tasks"
  let ?out = "\<lambda>x. map_option (Pair (fst x)) (run_with_deadline (ends x))"
  have w: "0 < be_workers e" using assms(1) by (auto simp: executor_new_def split: if_splits)
  have "pool_inv ends ?acc (pool_start e ?acc) []"
    by (simp add: pool_inv_def pool_start_def running_tasks_def List.map_filter_def)
  from pool_inv_steps [OF assms(2) this] obtain fin where fin: "pool_inv ends ?acc p fin"
    and len: "length (po_running p) = min (nat (be_workers e)) (length ?acc)"
    by (elim exE conjE) (rule that, assumption, simp only: pool_start_def pool.simps length_replicate)
  have "po_running p \<noteq> [] \<or> ?acc = []"
    using len w by (auto simp: min_def split: if_splits)
  from pool_final [OF fin assms(3) this] have m: "mset ?acc = mset fin" .
  have "mset (po_outcomes p) = mset (List.map_filter ?out ?acc)"
    using fin mset_map_filter [OF m, of ?out] by (simp add: pool_inv_def)
  then have s: "sort_key fst (po_outcomes p) = List.map_filter ?out ?acc"
    by (rule sort_key_unique)
      (simp_all add: sorted_wrt_fst [OF sorted_wrt_fst_filter [OF accepted_tasks_ordered]])
  have r: "map snd (List.map_filter ?out xs) = batch_results ends xs" for xs
    by (induction xs) (auto simp: batch_results_def List.map_filter_simps split: option.split)
  have t: "po_timeouts p = length (filter (\<lambda>x. run_with_deadline (ends x) = None) ?acc)"
  proof -
    have "mset (filter (\<lambda>x. run_with_deadline (ends x) = None) fin) =
        mset (filter (\<lambda>x. run_with_deadline (ends x) = None) ?acc)"
      by (simp only: mset_filter m)
    from mset_eq_length [OF this] fin show ?thesis by (simp only: pool_inv_def)
  qed
  have c: "length (batch_results ends xs) + length (filter (\<lambda>x. run_with_deadline (ends x) = None) xs) =
      length xs" for xs
    by (induction xs) (auto simp: batch_results_def List.map_filter_simps split: option.split)
  have "length ?acc \<le> length tasks"
    by (simp add: accepted_tasks_def Let_def last_n_def split: shed_policy.split)
  with s r t c [of ?acc] show ?thesis by (simp add: Let_def collect_batch_def)
qed

lemma worker_takeI:
  "w < length (po_running p) \<Longrightarrow> po_running p ! w = None \<Longrightarrow> po_pending p = x # xs \<Longrightarrow>
     p' = p\<lparr>po_pending := xs, po_running := (po_running p)[w := Some x]\<rparr> \<Longrightarrow> worker_step ends p p'"
  by (simp add: worker_step.take)

lemma worker_finishI:
  "w < length (po_running p) \<Longrightarrow> po_running p ! w = Some x \<Longrightarrow>
     p' = worker_done ends (p\<lparr>po_running := (po_running p)[w := None]\<rparr>) x \<Longrightarrow> worker_step ends p p'"
  by (simp add: worker_step.finish)

theorem executor_schedule_independent_witness:
  "let ends = (\<lambda>(i, c). if c = CHR ''b'' then Raised else Returned c);
       e = \<lparr>be_workers = 2, be_queue_size = 2, be_policy = DropOldest, be_executed = 0, be_shed = 0,
            be_timeouts = 0\<rparr>;
       out = snd (collect_batch e 1 \<lparr>po_pending = [] :: (nat \<times> char) list, po_running = [None, None],
                    po_outcomes = [(2, CHR ''c'')], po_timeouts = 1\<rparr>)
   in bo_results out = batch_results ends (accepted_tasks e ''abc'') \<and> bo_timeouts out = 1"
proof -
  let ?ends = "\<lambda>(i :: nat, c). if c = CHR ''b'' then Raised else Returned c"
  let ?e = "\<lparr>be_workers = 2, be_queue_size = 2, be_policy = DropOldest, be_executed = 0, be_shed = 0,
             be_timeouts = 0\<rparr>"
  let ?B = "(1 :: nat, CHR ''b'')" and ?C = "(2 :: nat, CHR ''c'')"
  let ?p1 = "\<lparr>po_pending = [?C], po_running = [None, Some ?B], po_outcomes = [], po_timeouts = 0\<rparr>"
  let ?p2 = "\<lparr>po_pending = [], po_running = [Some ?C, Some ?B], po_outcomes = [], po_timeouts = 0\<rparr>"
  let ?p3 = "\<lparr>po_pending = [], po_running = [None, Some ?B], po_outcomes = [?C], po_timeouts = 0\<rparr>"
  let ?p4 = "\<lparr>po_pending = [], po_running = [None, None], po_outcomes = [?C], po_timeouts = 1\<rparr>"
  have acc: "accepted_tasks ?e ''abc'' = [?B, ?C]"
    by (simp add: accepted_tasks_def last_n_def)
  have p0: "pool_start ?e (accepted_tasks ?e ''abc'') =
      \<lparr>po_pending = [?B, ?C], po_running = [None, None], po_outcomes = [], po_timeouts = 0\<rparr>"
    by (simp add: acc pool_start_def numeral_2_eq_2)
  have "worker_step ?ends (pool_start ?e (accepted_tasks ?e ''abc'')) ?p1"
    by (rule worker_takeI [of 1]) (simp_all add: p0)
  moreover have "worker_step ?ends ?p1 ?p2" by (rule worker_takeI [of 0]) simp_all
  moreover have "worker_step ?ends ?p2 ?p3"
    by (rule worker_finishI [of 0 _ ?C]) (simp_all add: worker_done_def)
  moreover have "worker_step ?ends ?p3 ?p4"
    by (rule worker_finishI [of 1 _ ?B]) (simp_all add: worker_done_def)
  ultimately have run: "(worker_step ?ends)\<^sup>*\<^sup>* (pool_start ?e (accepted_tasks ?e ''abc'')) ?p4"
    by (meson converse_rtranclp_into_rtranclp rtranclp.rtrancl_refl)
  have stop: "\<not> worker_step ?ends ?p4 q" for q
    by (auto elim!: worker_step.cases simp: less_Suc_eq numeral_2_eq_2)
  have new: "executor_new 2 2 DropOldest = Inr ?e" by (simp add: executor_new_def)
  from executor_schedule_independent [OF new run stop] show ?thesis
    by (simp add: Let_def acc last_n_def)
qed

lemma batch_terminates:
  assumes "(worker_step ends ^^ n) (pool_start e accepted) p"
  shows "n \<le> 2 * length accepted"
proof -
  have "\<exists>fin. pool_inv ends accepted p fin \<and>
      n + (2 * length (po_pending p) + length (running_tasks p)) \<le> 2 * length accepted"
    using assms
  proof (induction n arbitrary: p)
    case 0
    have "pool_inv ends accepted (pool_start e accepted) []"
      by (simp add: pool_inv_def pool_start_def running_tasks_def List.map_filter_def)
    with 0 show ?case
      by (intro exI [of _ "[]"]) (auto simp: pool_start_def running_tasks_def List.map_filter_def)
  next
    case (Suc n)
    then obtain q where q: "(worker_step ends ^^ n) (pool_start e accepted) q" "worker_step ends q p" by auto
    from Suc.IH [OF q(1)] obtain fin where "pool_inv ends accepted q fin"
      and n: "n + (2 * length (po_pending q) + length (running_tasks q)) \<le> 2 * length accepted" by blast
    from pool_inv_step [OF q(2) this(1)] obtain fin1 where "pool_inv ends accepted p fin1"
      and "2 * length (po_pending p) + length (running_tasks p) <
           2 * length (po_pending q) + length (running_tasks q)" by blast
    with n show ?case by (intro exI [of _ fin1]) linarith
  qed
  then show ?thesis by auto
qed

end
