(* ===== verification/BatchVote.thy ===== *)
theory BatchVote
  imports Complex_Main PyText "HOL-Library.Product_Lexorder" "HOL-Library.Multiset"
begin

text \<open>
  Votes over several answers (harness/orchestrator/batch_vote.py). The provider is a parameter:
  its reply to a prompt and a number of answers may differ from call to call, so it takes the
  number of the call as well. Ratios and stakes are rationals.
\<close>

subsection \<open>Counting votes\<close>

definition vote_counter :: "string list \<Rightarrow> (string \<times> nat) list" where
  "vote_counter votes = foldl (\<lambda>c v. dict_add c v 1) [] votes"

text \<open>\<open>most_common(1)\<close>: the first entry of greatest count.\<close>

fun top_entry :: "(string \<times> nat) \<Rightarrow> (string \<times> nat) list \<Rightarrow> string \<times> nat" where
  "top_entry b [] = b"
| "top_entry b (x # xs) = top_entry (if snd b < snd x then x else b) xs"

definition majority :: "string list \<Rightarrow> rat \<Rightarrow> string option \<times> bool" where
  "majority votes quorum_ratio =
     (if votes = [] then (None, False)
      else let counter = vote_counter votes;
               (top, count) = top_entry (hd counter) (tl counter)
           in if count * 2 \<le> length votes \<and> 1 < length counter then (None, False)
              else let met = quorum_ratio < rat_of_nat count / rat_of_nat (length votes)
                   in (if met then Some top else None, met))"

subsection \<open>The vote\<close>

record vote_result =
  vr_votes :: "string list"
  vr_majority :: "string option"
  vr_quorum_met :: bool
  vr_input_calls :: nat
  vr_input_tokens :: int
  vr_output_tokens :: int
  vr_n_supported :: bool

datatype vote_error = EmptyPrompt | BadCount int | StakesLength nat nat | BadStake rat

type_synonym provider = "nat \<Rightarrow> string \<Rightarrow> int \<Rightarrow> string list"

text \<open>The loop of single calls; the result carries the number of calls made so far.\<close>

function fallback_votes :: "provider \<Rightarrow> string \<Rightarrow> nat \<Rightarrow> nat \<Rightarrow> string list \<Rightarrow> string list \<times> nat" where
  "fallback_votes reply prompt k calls votes =
     (if length votes < k then
        (case reply calls prompt 1 of
           [] \<Rightarrow> (votes, calls + 1)
         | v # _ \<Rightarrow> fallback_votes reply prompt k (calls + 1) (votes @ [v]))
      else (votes, calls))"
  by pat_completeness auto
termination by (relation "measure (\<lambda>(_, _, k, _, votes). k - length votes)") auto

declare fallback_votes.simps [simp del]

text \<open>The vote, with the number of calls it really made.\<close>

definition batch_vote ::
  "provider \<Rightarrow> string \<Rightarrow> int \<Rightarrow> int \<Rightarrow> int \<Rightarrow> rat \<Rightarrow> vote_error + vote_result \<times> nat" where
  "batch_vote reply prompt k input_tokens output_tokens quorum_ratio =
     (if py_blank prompt then Inl EmptyPrompt
      else if k < 1 then Inl (BadCount k)
      else
        let answers = reply 0 prompt k;
            n_supported = k \<le> int (length answers);
            (all_votes, calls) = (if n_supported then (answers, 1)
                                  else fallback_votes reply prompt (nat k) 1 answers);
            votes = take (nat k) all_votes;
            input_calls = (if n_supported then 1 else length votes);
            (top, met) = majority votes quorum_ratio
        in Inr (\<lparr>vr_votes = votes, vr_majority = top, vr_quorum_met = met,
                 vr_input_calls = input_calls,
                 vr_input_tokens = input_tokens * int input_calls,
                 vr_output_tokens = output_tokens * int (length votes),
                 vr_n_supported = n_supported\<rparr>, calls))"

definition estimate_savings :: "int \<Rightarrow> vote_error + rat" where
  "estimate_savings k = (if k < 1 then Inl (BadCount k) else Inr (rat_of_int (k - 1) / rat_of_int k))"

subsection \<open>Votes weighted by stakes\<close>

record stake_result =
  sr_winner :: "string option"
  sr_total :: rat
  sr_weights :: "(string \<times> rat) list"

definition stake_weights :: "string list \<Rightarrow> rat list \<Rightarrow> (string \<times> rat) list" where
  "stake_weights votes stakes =
     foldl (\<lambda>w (v, s). AList.update v (dict_get w v 0 + s) w) [] (zip votes stakes)"

definition stake_weighted_vote :: "string list \<Rightarrow> rat list \<Rightarrow> vote_error + stake_result" where
  "stake_weighted_vote votes stakes =
     (if length votes \<noteq> length stakes then Inl (StakesLength (length votes) (length stakes))
      else case find (\<lambda>s. \<not> (0 \<le> s \<and> s \<le> 1)) stakes of
        Some s \<Rightarrow> Inl (BadStake s)
      | None \<Rightarrow>
          let weights = stake_weights votes stakes;
              ranked = sort_key (\<lambda>(v, s). (- s, v)) weights
          in if weights = [] then Inr \<lparr>sr_winner = None, sr_total = 0, sr_weights = []\<rparr>
             else let tie = 1 < length ranked \<and> snd (ranked ! 0) = snd (ranked ! 1)
                  in Inr \<lparr>sr_winner = (if tie then None else Some (fst (ranked ! 0))),
                          sr_total = sum_list stakes, sr_weights = weights\<rparr>)"

subsection \<open>The winner of a count\<close>

lemma vote_counter_snoc: "vote_counter (vs @ [v]) = dict_add (vote_counter vs) v 1"
  by (simp add: vote_counter_def)

lemma vote_counter_wf: "wf_dict (vote_counter vs)"
  by (induction vs rule: rev_induct) (simp_all add: vote_counter_snoc vote_counter_def [of "[]"])

lemma vote_counter_get: "dict_get (vote_counter vs) v 0 = count_list vs v"
  by (induction vs rule: rev_induct)
    (simp_all add: vote_counter_snoc dict_get_add vote_counter_def [of "[]"] dict_get_def [of "[]"])

lemma vote_counter_keys: "fst ` set (vote_counter vs) = set vs"
  by (induction vs rule: rev_induct)
    (simp_all add: vote_counter_snoc dict_add_def dict_dom_update vote_counter_def [of "[]"])

lemma vote_counter_sum: "sum_list (map snd (vote_counter vs)) = length vs"
  by (induction vs rule: rev_induct) (simp_all add: vote_counter_snoc sum_dict_add vote_counter_def [of "[]"])

lemma vote_counter_entry: "(v, n) \<in> set (vote_counter vs) \<Longrightarrow> n = count_list vs v"
  using wf_dict_get [OF vote_counter_wf] vote_counter_get [of vs v] by (auto simp: dict_get_def)

lemma top_entry_in: "top_entry b xs \<in> insert b (set xs)"
  by (induction b xs rule: top_entry.induct) auto

lemma top_entry_max: "x \<in> insert b (set xs) \<Longrightarrow> snd x \<le> snd (top_entry b xs)"
proof (induction b xs arbitrary: x rule: top_entry.induct)
  case (2 b y xs)
  show ?case
  proof (cases "x \<in> set xs")
    case True
    then show ?thesis using 2 by simp
  next
    case False
    then have "x = b \<or> x = y" using 2(2) by auto
    moreover have "snd (if snd b < snd y then y else b) \<le> snd (top_entry b (y # xs))"
      using 2(1) by simp
    ultimately show ?thesis by (auto split: if_splits)
  qed
qed simp

lemma top_of_counter:
  assumes "votes \<noteq> []"
  obtains t where "top_entry (hd (vote_counter votes)) (tl (vote_counter votes)) = (t, count_list votes t)"
    and "t \<in> set votes" and "\<And>v. count_list votes v \<le> count_list votes t"
proof -
  let ?c = "vote_counter votes"
  obtain t n where t: "top_entry (hd ?c) (tl ?c) = (t, n)" by (cases "top_entry (hd ?c) (tl ?c)")
  have "?c \<noteq> []" using assms vote_counter_keys [of votes] by (metis image_empty set_empty)
  then have s: "insert (hd ?c) (set (tl ?c)) = set ?c" by (cases ?c) simp_all
  have m: "(t, n) \<in> set ?c" using top_entry_in [of "hd ?c" "tl ?c"] by (simp only: t s)
  then have n: "n = count_list votes t" by (rule vote_counter_entry)
  have "t \<in> set votes" using m vote_counter_keys [of votes] by (metis fst_conv imageI)
  moreover have "count_list votes v \<le> count_list votes t" for v
  proof (cases "v \<in> set votes")
    case True
    then obtain k where "(v, k) \<in> set ?c" using vote_counter_keys [of votes] by (metis imageE prod.collapse)
    with top_entry_max [of "(v, k)" "hd ?c" "tl ?c"] s t n vote_counter_entry [of v k votes] show ?thesis
      by simp
  next
    case False
    then show ?thesis by (simp add: count_notin)
  qed
  ultimately show thesis using that t n by simp
qed

lemma count_list_two: "v \<noteq> w \<Longrightarrow> count_list xs v + count_list xs w \<le> length xs"
  by (induction xs) auto

lemma one_entry_counts_all:
  assumes "length (vote_counter votes) \<le> 1" and "t \<in> set votes"
  shows "count_list votes t = length votes"
proof -
  obtain n where n: "(t, n) \<in> set (vote_counter votes)"
    using assms(2) vote_counter_keys [of votes] by (metis imageE prod.collapse)
  then have "vote_counter votes = [(t, n)]"
    using assms(1) by (cases "vote_counter votes") auto
  with vote_counter_sum [of votes] vote_counter_entry [OF n] show ?thesis by simp
qed

text \<open>
  A vote has a winner exactly when one answer was given by more than half of the voters and by
  more than the ratio asked for. A ratio below one half therefore changes nothing: the most
  frequent answer, when it has no absolute majority, counts as a tie.
\<close>

theorem majority_exact:
  "majority votes quorum_ratio =
     (case find (\<lambda>v. length votes < 2 * count_list votes v) votes of
        None \<Rightarrow> (None, False)
      | Some v \<Rightarrow>
          if quorum_ratio < rat_of_nat (count_list votes v) / rat_of_nat (length votes) then (Some v, True)
          else (None, False))"
proof (cases "votes = []")
  case True
  then show ?thesis by (simp add: majority_def)
next
  case False
  then obtain t where t: "top_entry (hd (vote_counter votes)) (tl (vote_counter votes)) = (t, count_list votes t)"
    and ts: "t \<in> set votes" and mx: "\<And>v. count_list votes v \<le> count_list votes t"
    using top_of_counter by blast
  let ?maj = "\<lambda>v. length votes < 2 * count_list votes v"
  show ?thesis
  proof (cases "?maj t")
    case True
    then have "find ?maj votes \<noteq> None" using ts by (auto simp: find_None_iff)
    then obtain v where v: "find ?maj votes = Some v" by blast
    then have "?maj v" by (auto simp: find_Some_iff)
    with count_list_two [of v t votes] True have "v = t" by fastforce
    with True v False show ?thesis by (simp add: majority_def t Let_def)
  next
    case small: False
    then have "\<not> ?maj v" for v using mx [of v] by linarith
    then have "find ?maj votes = None" by (simp add: find_None_iff)
    moreover have "1 < length (vote_counter votes)"
      using one_entry_counts_all [OF _ ts] small False by (cases "1 < length (vote_counter votes)") auto
    ultimately show ?thesis using small False by (simp add: majority_def t Let_def)
  qed
qed

subsection \<open>What a vote costs\<close>

lemma fallback_all:
  assumes "\<And>i. n \<le> i \<Longrightarrow> reply i prompt 1 \<noteq> []"
  shows "\<exists>ws. fallback_votes reply prompt k n votes = (votes @ ws, n + (k - length votes)) \<and>
           length ws = k - length votes"
  using assms
proof (induction reply prompt k n votes rule: fallback_votes.induct)
  case (1 reply prompt k n votes)
  show ?case
  proof (cases "length votes < k")
    case True
    obtain v vs where v: "reply n prompt 1 = v # vs" using 1(2) [of n] by (cases "reply n prompt 1") auto
    from 1(1) [OF True v] 1(2) obtain ws where
      "fallback_votes reply prompt k (n + 1) (votes @ [v]) = (votes @ [v] @ ws, n + 1 + (k - Suc (length votes)))"
      "length ws = k - Suc (length votes)" by auto
    with True v show ?thesis
      by (intro exI [of _ "v # ws"]) (simp add: fallback_votes.simps [of _ _ k n] Suc_diff_Suc)
  next
    case False
    then show ?thesis by (simp add: fallback_votes.simps [of _ _ k n])
  qed
qed

text \<open>
  With a provider that always answers a single call, a vote returns exactly the answers asked
  for. It makes one call and one more for each answer the first reply lacked, yet it reports one
  call per answer: the bill is right only when the first reply was complete or held exactly one.
\<close>

theorem batch_vote_bill:
  assumes "\<not> py_blank prompt" and "1 \<le> k" and "\<And>i. 0 < i \<Longrightarrow> reply i prompt 1 \<noteq> []"
  shows "case batch_vote reply prompt k input_tokens output_tokens quorum_ratio of
           Inl _ \<Rightarrow> False
         | Inr (r, calls) \<Rightarrow>
             let m = length (reply 0 prompt k) in
               length (vr_votes r) = nat k \<and>
               take m (vr_votes r) = take (nat k) (reply 0 prompt k) \<and>
               calls = 1 + (nat k - m) \<and>
               vr_input_calls r = (if nat k \<le> m then 1 else nat k) \<and>
               (vr_input_calls r = calls \<longleftrightarrow> nat k \<le> m \<or> m = 1) \<and>
               vr_input_tokens r = input_tokens * int (vr_input_calls r) \<and>
               vr_output_tokens r = output_tokens * k"
proof -
  let ?a = "reply 0 prompt k"
  obtain ws where ws: "fallback_votes reply prompt (nat k) 1 ?a = (?a @ ws, 1 + (nat k - length ?a))"
    "length ws = nat k - length ?a"
    using fallback_all [of 1 reply prompt "nat k" ?a] assms(3) by auto
  show ?thesis
  proof (cases "k \<le> int (length ?a)")
    case True
    then have "nat k \<le> length ?a" by simp
    with True assms(1,2) show ?thesis
      by (simp add: batch_vote_def Let_def split_beta min_def)
  next
    case False
    then have "length ?a < nat k" by simp
    with False assms(1,2) ws show ?thesis
      by (auto simp: batch_vote_def Let_def split_beta min_def)
  qed
qed

theorem batch_vote_bill_witness:
  "case batch_vote (\<lambda>i _ n. if i = 0 then [''a'', ''b''] else [''a'']) ''q'' 4 100 10 (1/2) of
     Inl _ \<Rightarrow> False
   | Inr (r, calls) \<Rightarrow> calls = 3 \<and> vr_input_calls r = 4 \<and> vr_input_tokens r = 400"
  using batch_vote_bill [of "''q''" 4 "\<lambda>i _ n. if i = 0 then [''a'', ''b''] else [''a'']" 100 10 "1/2"]
  by (auto simp: py_blank_iff py_isspace_def split: sum.splits prod.splits)

subsection \<open>The winner by stakes\<close>

text \<open>The stake put on an answer.\<close>

definition stake_on :: "string list \<Rightarrow> rat list \<Rightarrow> string \<Rightarrow> rat" where
  "stake_on votes stakes v = sum_list (map snd (filter (\<lambda>p. fst p = v) (zip votes stakes)))"

lemma stake_fold:
  assumes "wf_dict w"
  shows "let w1 = foldl (\<lambda>w (v, s). AList.update v (dict_get w v 0 + s) w) w ps
         in wf_dict w1 \<and> fst ` set w1 = fst ` set w \<union> fst ` set ps \<and>
            dict_get w1 v 0 = dict_get w v (0 :: rat) + sum_list (map snd (filter (\<lambda>p. fst p = v) ps))"
  using assms
proof (induction ps arbitrary: w)
  case (Cons p ps)
  obtain a b where p: "p = (a, b)" by (cases p)
  from Cons.IH [of "AList.update a (dict_get w a 0 + b) w"] Cons.prems show ?case
    by (auto simp: p Let_def dict_dom_update)
qed simp

lemma stake_weights_spec:
  assumes "length votes = length stakes"
  shows "wf_dict (stake_weights votes stakes)" "fst ` set (stake_weights votes stakes) = set votes"
    "(v, s) \<in> set (stake_weights votes stakes) \<longleftrightarrow> v \<in> set votes \<and> s = stake_on votes stakes v"
proof -
  have z: "fst ` set (zip votes stakes) = set votes"
    using assms by (metis list.set_map map_fst_zip)
  show w: "wf_dict (stake_weights votes stakes)" and k: "fst ` set (stake_weights votes stakes) = set votes"
    using stake_fold [of "[]" "zip votes stakes"] by (simp_all add: stake_weights_def Let_def z)
  have g: "dict_get (stake_weights votes stakes) v 0 = stake_on votes stakes v"
    using stake_fold [of "[]" "zip votes stakes" v]
    by (simp add: stake_weights_def stake_on_def Let_def dict_get_def [of "[]"])
  show "(v, s) \<in> set (stake_weights votes stakes) \<longleftrightarrow> v \<in> set votes \<and> s = stake_on votes stakes v"
  proof
    assume "(v, s) \<in> set (stake_weights votes stakes)"
    then show "v \<in> set votes \<and> s = stake_on votes stakes v"
      using g k wf_dict_get [OF w, of v s] by (force simp: dict_get_def)
  next
    assume r: "v \<in> set votes \<and> s = stake_on votes stakes v"
    then obtain s1 where "(v, s1) \<in> set (stake_weights votes stakes)" using k by fastforce
    with r g wf_dict_get [OF w, of v s1] show "(v, s) \<in> set (stake_weights votes stakes)"
      by (simp add: dict_get_def)
  qed
qed

lemma ranked_first:
  fixes ws :: "(string \<times> rat) list"
  defines "rs \<equiv> sort_key (\<lambda>(v, s). (- s, v)) ws"
  assumes "i < j" and "j < length rs"
  shows "snd (rs ! j) \<le> snd (rs ! i)"
proof -
  have "sorted (map (\<lambda>(v, s). (- s, v)) rs)" unfolding rs_def by (rule sorted_sort_key)
  from sorted_nth_mono [OF this, of i j] assms(2,3) show ?thesis
    by (auto simp: split_beta less_eq_prod_def)
qed

text \<open>
  With stakes that fit the votes, an answer wins exactly when the stake on it is greater than on
  every other answer given; the stakes are all counted.
\<close>

theorem stake_vote_winner:
  assumes "length votes = length stakes" and "list_all (\<lambda>s. 0 \<le> s \<and> s \<le> 1) stakes"
  shows "case stake_weighted_vote votes stakes of
           Inl _ \<Rightarrow> False
         | Inr r \<Rightarrow>
             (sr_winner r = Some v \<longleftrightarrow>
                v \<in> set votes \<and> (\<forall>w. w \<in> set votes \<and> w \<noteq> v \<longrightarrow> stake_on votes stakes w < stake_on votes stakes v)) \<and>
             sr_total r = sum_list stakes"
proof -
  let ?w = "stake_weights votes stakes"
  let ?r = "sort_key (\<lambda>(v, s). (- s, v)) ?w"
  note sw = stake_weights_spec [OF assms(1)]
  have ok: "find (\<lambda>s. \<not> (0 \<le> s \<and> s \<le> 1)) stakes = None"
    using assms(2) by (auto simp: find_None_iff list_all_iff)
  have in_r: "(a, s) \<in> set ?r \<longleftrightarrow> a \<in> set votes \<and> s = stake_on votes stakes a" for a s
    using sw(3) by simp
  have dr: "distinct (map fst ?r)"
  proof -
    have "mset (map fst ?r) = mset (map fst ?w)" by simp
    then show ?thesis using sw(1) mset_eq_imp_distinct_iff unfolding wf_dict_def by blast
  qed
  show ?thesis
  proof (cases "?w = []")
    case True
    then have "votes = []" using sw(2) by simp
    with True ok assms(1) show ?thesis by (simp add: stake_weighted_vote_def Let_def)
  next
    case False
    then have ne: "0 < length ?r" by simp
    obtain t s where ts: "?r ! 0 = (t, s)" by (cases "?r ! 0")
    then have "(t, s) \<in> set ?r" using ne by (metis nth_mem)
    then have t: "t \<in> set votes" "s = stake_on votes stakes t" using in_r by blast+
    have best: "stake_on votes stakes a \<le> s" if "a \<in> set votes" for a
    proof -
      from that have "(a, stake_on votes stakes a) \<in> set ?r" using in_r by blast
      then obtain j where j: "j < length ?r" "?r ! j = (a, stake_on votes stakes a)"
        by (metis in_set_conv_nth)
      then show ?thesis using ranked_first [of 0 j ?w] ts by (cases "j = 0") auto
    qed
    have tie: "1 < length ?r \<and> snd (?r ! 0) = snd (?r ! 1) \<longleftrightarrow>
        (\<exists>a. a \<in> set votes \<and> a \<noteq> t \<and> stake_on votes stakes a = s)" (is "?L \<longleftrightarrow> ?R")
    proof
      assume l: ?L
      obtain a s1 where a: "?r ! 1 = (a, s1)" by (cases "?r ! 1")
      with l have "(a, s1) \<in> set ?r" by (metis nth_mem)
      moreover have "a \<noteq> t" using False dr l a ts nth_eq_iff_index_eq [OF dr, of 0 1] by (auto simp: nth_map)
      ultimately show ?R using in_r l a ts by auto
    next
      assume ?R
      then obtain a where a: "a \<in> set votes" "a \<noteq> t" "stake_on votes stakes a = s" by blast
      then obtain j where j: "j < length ?r" "?r ! j = (a, s)" using in_r by (metis in_set_conv_nth)
      with a(2) ts have "1 \<le> j" by (cases j) auto
      with j ranked_first [of 1 j ?w] ranked_first [of 0 1 ?w] ts show ?L by (cases "j = 1") auto
    qed
    have eq: "stake_weighted_vote votes stakes =
        Inr \<lparr>sr_winner = (if 1 < length ?r \<and> snd (?r ! 0) = snd (?r ! 1) then None else Some t),
             sr_total = sum_list stakes, sr_weights = ?w\<rparr>"
      using False ok assms(1) by (simp add: stake_weighted_vote_def Let_def ts)
    have "(if \<exists>a. a \<in> set votes \<and> a \<noteq> t \<and> stake_on votes stakes a = s then None else Some t) = Some v \<longleftrightarrow>
        v \<in> set votes \<and> (\<forall>w. w \<in> set votes \<and> w \<noteq> v \<longrightarrow> stake_on votes stakes w < stake_on votes stakes v)"
      (is "_ \<longleftrightarrow> ?top")
    proof
      assume "(if \<exists>a. a \<in> set votes \<and> a \<noteq> t \<and> stake_on votes stakes a = s then None else Some t) = Some v"
      then have "v = t" "\<And>a. a \<in> set votes \<Longrightarrow> a \<noteq> t \<Longrightarrow> stake_on votes stakes a \<noteq> s"
        by (auto split: if_splits)
      then show ?top using t best by (auto simp: less_le)
    next
      assume top: ?top
      then have "v = t" using best [of v] t by (metis not_less)
      with top t show "(if \<exists>a. a \<in> set votes \<and> a \<noteq> t \<and> stake_on votes stakes a = s then None else Some t) = Some v"
        by auto
    qed
    then show ?thesis by (simp only: eq tie sum.case stake_result.simps)
  qed
qed

theorem stake_vote_winner_witness:
  "case stake_weighted_vote [''a'', ''b'', ''b''] [9 / 10, 1 / 2, 3 / 10] of
     Inl _ \<Rightarrow> False
   | Inr r \<Rightarrow> sr_winner r = Some ''a'' \<and> sr_total r = 17 / 10"
  using stake_vote_winner [of "[''a'', ''b'', ''b'']" "[9 / 10, 1 / 2, 3 / 10]" "''a''"]
  by (auto simp: stake_on_def split: sum.splits)

end
