(* ===== verification/RollingRank.thy ===== *)
theory RollingRank
  imports Complex_Main Prelude
begin

unbundle bit_operations_syntax

text \<open>
  The rolling rank of the alpha miner (alpha_mining/rolling_rank.py): a Fenwick tree of counts and
  the midrank of the last value of a sliding window. A series holds rationals, None standing for a
  value that is not finite; a result None stands for NaN.
\<close>

subsection \<open>The lowest set bit\<close>

abbreviation low_bit :: "int \<Rightarrow> int" where
  "low_bit i \<equiv> i AND - i"

lemma low_bit_double: "low_bit (2 * i) = 2 * low_bit i"
  using push_bit_and [of 1 i "- i"] by (simp add: push_bit_eq_mult mult.commute)

lemma low_bit_odd: "low_bit (2 * i + 1) = 1"
proof -
  have "(- (2 * i + 1)) div 2 = NOT i" by (simp add: not_int_def)
  then show ?thesis by (subst and_int_rec) (simp add: bit.conj_cancel_right)
qed

lemma low_bit_power:
  assumes "0 < i"
  obtains a q where "i = 2 ^ a * (2 * q + 1)" and "low_bit i = 2 ^ a"
  using assms
proof (induction "nat i" arbitrary: i thesis rule: less_induct)
  case less
  show ?case
  proof (cases "even i")
    case True
    then obtain j where j: "i = 2 * j" by blast
    with less.prems(2) have "nat j < nat i" "0 < j" by auto
    then obtain a q where "j = 2 ^ a * (2 * q + 1)" "low_bit j = 2 ^ a"
      using less.hyps [of j] by blast
    then show ?thesis using j by (intro less.prems(1) [of "Suc a" q]) (simp_all add: low_bit_double)
  next
    case False
    then obtain q where "i = 2 * q + 1" by (metis oddE)
    with low_bit_odd [of q] show ?thesis by (intro less.prems(1) [of 0 q]) (simp_all only: power_0 mult_1)
  qed
qed

lemma low_bit_bounds:
  assumes "0 < i" shows "0 < low_bit i \<and> low_bit i \<le> i"
proof -
  obtain a q where a: "i = 2 ^ a * (2 * q + 1)" and l: "low_bit i = 2 ^ a"
    using assms by (rule low_bit_power)
  have "2 ^ a dvd i" unfolding a by (rule dvd_triv_left)
  from zdvd_imp_le [OF this assms] show ?thesis unfolding l by simp
qed

text \<open>
  Node \<open>j\<close> of the tree covers the positions \<open>j - low_bit j < i \<le> j\<close>. Above \<open>i\<close>, the nodes that
  cover \<open>i\<close> are those that cover \<open>i + low_bit i\<close>: the walk of an update meets them all.
\<close>

definition covers :: "int \<Rightarrow> int \<Rightarrow> bool" where
  "covers j i \<longleftrightarrow> j - low_bit j < i \<and> i \<le> j"

lemma covers_self: "0 < i \<Longrightarrow> covers i i"
  using low_bit_bounds [of i] by (simp add: covers_def)

lemma dvd_strictly_between:
  assumes "(d :: int) dvd m" and "d dvd n" and "m < n" and "0 < d" shows "m + d \<le> n"
  using assms by (metis add.commute add_le_cancel_left diff_add_cancel dvd_diff zdvd_imp_le zless_iff_Suc_zadd diff_gt_0_iff_gt le_diff_eq)

lemma covers_next:
  assumes i: "0 < i" and ij: "i < j"
  shows "covers j i \<longleftrightarrow> covers j (i + low_bit i)"
proof -
  obtain a q where a: "i = 2 ^ a * (2 * q + 1)" "low_bit i = 2 ^ a" using i by (rule low_bit_power)
  obtain b r where b: "j = 2 ^ b * (2 * r + 1)" "low_bit j = 2 ^ b" using i ij by (metis low_bit_power order_less_trans)
  have ni: "\<not> 2 ^ k dvd i" if "a < k" for k
  proof
    assume "2 ^ k dvd i"
    moreover have "(2 :: int) ^ Suc a dvd 2 ^ k" using that by (intro le_imp_power_dvd) simp
    ultimately have "2 ^ a * 2 dvd 2 ^ a * (2 * q + 1)" using a(1) by (metis dvd_trans power_Suc2)
    then show False by simp
  qed
  have nj: "\<not> 2 ^ k dvd j" if "b < k" for k
  proof
    assume "2 ^ k dvd j"
    moreover have "(2 :: int) ^ Suc b dvd 2 ^ k" using that by (intro le_imp_power_dvd) simp
    ultimately have "2 ^ b * 2 dvd 2 ^ b * (2 * r + 1)" using b(1) by (metis dvd_trans power_Suc2)
    then show False by simp
  qed
  have jb: "2 ^ b dvd j" "2 ^ Suc b dvd j - low_bit j"
    using b by (auto simp: algebra_simps)
  have ia: "2 ^ a dvd i" "2 ^ Suc a dvd i + low_bit i"
    using a by (auto simp: algebra_simps)
  show ?thesis
  proof
    assume c: "covers j i"
    have "\<not> 2 ^ b dvd i"
    proof
      assume "2 ^ b dvd i"
      from dvd_strictly_between [OF this jb(1) ij] c b(2) show False by (simp add: covers_def)
    qed
    then have "a < b" using ia(1) by (metis dvd_trans le_imp_power_dvd not_less)
    then have "2 ^ a dvd j" using jb(1) by (meson dvd_trans le_imp_power_dvd less_imp_le)
    from dvd_strictly_between [OF ia(1) this ij] have "i + low_bit i \<le> j" by (simp add: a(2))
    moreover have "j - low_bit j < i + low_bit i"
      using c low_bit_bounds [OF i] unfolding covers_def by linarith
    ultimately show "covers j (i + low_bit i)" by (simp add: covers_def)
  next
    assume c: "covers j (i + low_bit i)"
    show "covers j i"
    proof (rule ccontr)
      assume "\<not> covers j i"
      then have le: "i \<le> j - low_bit j" using ij by (simp add: covers_def)
      show False
      proof (cases "a \<le> b")
        case True
        then have "2 ^ a dvd j - low_bit j"
          using jb(2) by (meson dvd_trans le_SucI le_imp_power_dvd)
        moreover have "i \<noteq> j - low_bit j" using ni [of "Suc b"] jb(2) True by auto
        ultimately have "i + 2 ^ a \<le> j - low_bit j" using dvd_strictly_between [OF ia(1)] le by simp
        with c a(2) show False by (simp add: covers_def)
      next
        case False
        then have d: "2 ^ b dvd i + low_bit i" "2 ^ b dvd j - low_bit j"
          using ia(2) jb(2) by (meson dvd_trans le_imp_power_dvd le_SucI nat_le_linear)+
        have "j - low_bit j + 2 ^ b \<le> i + low_bit i"
          using dvd_strictly_between [OF d(2,1)] c by (simp add: covers_def)
        then have "j = i + low_bit i" using c b(2) by (simp add: covers_def)
        with ia(2) nj [of "Suc a"] False show False by simp
      qed
    qed
  qed
qed

subsection \<open>The tree\<close>

record fenwick =
  fw_size :: int
  fw_tree :: "int list"

definition fenwick_new :: "int \<Rightarrow> fenwick" where
  "fenwick_new n = \<lparr>fw_size = n, fw_tree = replicate (nat (n + 1)) 0\<rparr>"

function fenwick_add :: "fenwick \<Rightarrow> int \<Rightarrow> int \<Rightarrow> fenwick" where
  "fenwick_add f index delta =
     (if 0 < index \<and> index \<le> fw_size f then
        fenwick_add (f\<lparr>fw_tree := (fw_tree f)[nat index := fw_tree f ! nat index + delta]\<rparr>)
          (index + low_bit index) delta
      else f)"
  by pat_completeness auto
termination
  by (relation "measure (\<lambda>(f, index, _). nat (fw_size f + 1 - index))")
    (auto simp: low_bit_bounds)

text \<open>A position beyond the tree raises \<open>IndexError\<close>, here None.\<close>

function fenwick_prefix :: "fenwick \<Rightarrow> int \<Rightarrow> int \<Rightarrow> int option" where
  "fenwick_prefix f index acc =
     (if 0 < index then
        if nat index < length (fw_tree f)
        then fenwick_prefix f (index - low_bit index) (acc + fw_tree f ! nat index)
        else None
      else Some acc)"
  by pat_completeness auto
termination
  by (relation "measure (\<lambda>(_, index, _). nat index)") (auto simp: low_bit_bounds)

declare fenwick_add.simps [simp del] fenwick_prefix.simps [simp del]

text \<open>The tree holds, in node \<open>j\<close>, the sum of the counts it covers.\<close>

definition fenwick_rep :: "fenwick \<Rightarrow> (int \<Rightarrow> int) \<Rightarrow> bool" where
  "fenwick_rep f a \<longleftrightarrow>
     0 \<le> fw_size f \<and> length (fw_tree f) = nat (fw_size f + 1) \<and>
     (\<forall>j. 0 < j \<and> j \<le> fw_size f \<longrightarrow> fw_tree f ! nat j = sum a {j - low_bit j<..j})"

lemma fenwick_rep_new: "0 \<le> n \<Longrightarrow> fenwick_rep (fenwick_new n) (\<lambda>_. 0)"
  by (auto simp: fenwick_rep_def fenwick_new_def)

lemma fenwick_add_tree:
  assumes "0 < i" and "length (fw_tree f) = nat (fw_size f + 1)"
  shows "fw_size (fenwick_add f i d) = fw_size f \<and>
     length (fw_tree (fenwick_add f i d)) = length (fw_tree f) \<and>
     (\<forall>j. 0 < j \<and> j \<le> fw_size f \<longrightarrow>
        fw_tree (fenwick_add f i d) ! nat j = fw_tree f ! nat j + (if covers j i then d else 0))"
  using assms
proof (induction f i d rule: fenwick_add.induct)
  case (1 f i d)
  show ?case
  proof (cases "i \<le> fw_size f")
    case True
    let ?f = "f\<lparr>fw_tree := (fw_tree f)[nat i := fw_tree f ! nat i + d]\<rparr>"
    let ?i = "i + low_bit i"
    have pos: "0 < ?i" using 1(2) low_bit_bounds by fastforce
    have step: "fenwick_add f i d = fenwick_add ?f ?i d"
      using True 1(2) by (simp add: fenwick_add.simps [of f])
    have IH: "fw_size (fenwick_add ?f ?i d) = fw_size f"
      "length (fw_tree (fenwick_add ?f ?i d)) = length (fw_tree f)"
      "\<And>j. 0 < j \<Longrightarrow> j \<le> fw_size f \<Longrightarrow>
        fw_tree (fenwick_add ?f ?i d) ! nat j = fw_tree ?f ! nat j + (if covers j ?i then d else 0)"
      using 1(1) True 1(2,3) pos by auto
    have "fw_tree ?f ! nat j + (if covers j ?i then d else 0) =
        fw_tree f ! nat j + (if covers j i then d else 0)" if j: "0 < j" "j \<le> fw_size f" for j
    proof (cases "j = i")
      case True
      moreover have "\<not> covers i ?i" using low_bit_bounds [OF 1(2)] by (simp add: covers_def)
      ultimately show ?thesis using covers_self [OF 1(2)] j 1(3) by (simp add: nat_less_iff)
    next
      case False
      then have same: "fw_tree ?f ! nat j = fw_tree f ! nat j" using j 1(2) by simp
      show ?thesis
      proof (cases "i < j")
        case True
        from covers_next [OF 1(2) this] same show ?thesis by simp
      next
        case smaller: False
        then have "\<not> covers j i" "\<not> covers j ?i"
          using False low_bit_bounds [OF 1(2)] by (auto simp: covers_def)
        with same show ?thesis by simp
      qed
    qed
    with IH step show ?thesis by simp
  next
    case False
    then have "\<not> covers j i" if "j \<le> fw_size f" for j using that by (auto simp: covers_def)
    with False show ?thesis by (simp add: fenwick_add.simps [of f])
  qed
qed

lemma fenwick_rep_add:
  assumes "fenwick_rep f a" and "0 < i"
  shows "fenwick_rep (fenwick_add f i d) (a(i := a i + d)) \<and> fw_size (fenwick_add f i d) = fw_size f"
proof -
  define b where "b = a(i := a i + d)"
  have s: "sum b {k<..j} = sum a {k<..j} + (if k < i \<and> i \<le> j then d else 0)" for j k
  proof -
    have "sum b {k<..j} = sum (\<lambda>x. a x + (if x = i then d else 0)) {k<..j}"
      by (intro sum.cong) (auto simp: b_def)
    then show ?thesis by (simp add: sum.distrib sum.delta)
  qed
  from assms fenwick_add_tree [of i f d] show ?thesis
    unfolding b_def [symmetric] by (auto simp: fenwick_rep_def s covers_def)
qed

lemma fenwick_rep_prefix:
  assumes "fenwick_rep f a" and "i \<le> fw_size f"
  shows "fenwick_prefix f i acc = Some (acc + sum a {0<..i})"
  using assms
proof (induction f i acc rule: fenwick_prefix.induct)
  case (1 f i acc)
  show ?case
  proof (cases "0 < i")
    case True
    note lb = low_bit_bounds [OF True]
    have len: "nat i < length (fw_tree f)" using 1(2,3) True by (simp add: fenwick_rep_def)
    have "{0<..i} = {0<..i - low_bit i} \<union> {i - low_bit i<..i}" using lb by auto
    then have "sum a {0<..i} = sum a {0<..i - low_bit i} + sum a {i - low_bit i<..i}"
      by (simp add: sum.union_disjoint ivl_disj_int)
    moreover have "fw_tree f ! nat i = sum a {i - low_bit i<..i}"
      using 1(2,3) True by (simp add: fenwick_rep_def)
    moreover have "fenwick_prefix f i acc =
        fenwick_prefix f (i - low_bit i) (acc + fw_tree f ! nat i)"
      using True len by (simp add: fenwick_prefix.simps [of f i])
    ultimately show ?thesis using 1(1) [OF True len 1(2)] 1(3) lb by simp
  next
    case False
    then show ?thesis by (simp add: fenwick_prefix.simps [of f i])
  qed
qed

text \<open>
  A tree that has taken any updates answers every prefix up to its size with the sum of the
  updates it covers; positions outside are ignored by an update and raise in a query.
\<close>

theorem fenwick_prefix_exact:
  assumes "0 \<le> n"
  shows "fenwick_prefix (foldl (\<lambda>f (j, d). fenwick_add f j d) (fenwick_new n) updates) i 0 =
           (if i \<le> n then Some (sum_list (map snd (filter (\<lambda>(j, d). 0 < j \<and> j \<le> i) updates))) else None)"
proof -
  let ?a = "\<lambda>us k. sum_list (map snd (filter (\<lambda>(j, d). j = k) us)) :: int"
  have rep: "fenwick_rep (foldl (\<lambda>f (j, d). fenwick_add f j d) (fenwick_new n) updates)
        (\<lambda>k. if 0 < k then ?a updates k else 0) \<and>
      fw_size (foldl (\<lambda>f (j, d). fenwick_add f j d) (fenwick_new n) updates) = n"
  proof (induction updates rule: rev_induct)
    case Nil
    have "(\<lambda>k :: int. if 0 < k then ?a [] k else 0) = (\<lambda>_. 0)" by (simp add: fun_eq_iff)
    then show ?case using fenwick_rep_new [OF assms] by (simp only: foldl.simps) (simp add: fenwick_new_def)
  next
    case (snoc u us)
    obtain j d where u: "u = (j, d)" by (cases u)
    let ?f = "foldl (\<lambda>f (j, d). fenwick_add f j d) (fenwick_new n) us"
    show ?case
    proof (cases "0 < j")
      case True
      have "(\<lambda>k. if 0 < k then ?a us k else 0)(j := (if 0 < j then ?a us j else 0) + d) =
          (\<lambda>k. if 0 < k then ?a (us @ [u]) k else 0)"
        using True u by (auto simp: fun_eq_iff)
      with fenwick_rep_add [OF conjunct1 [OF snoc.IH] True, of d] snoc.IH show ?thesis by (simp add: u)
    next
      case False
      then have "fenwick_add ?f j d = ?f" by (simp add: fenwick_add.simps [of ?f])
      moreover have "(\<lambda>k. if 0 < k then ?a us k else 0) = (\<lambda>k. if 0 < k then ?a (us @ [u]) k else 0)"
        using False u by (auto simp: fun_eq_iff)
      ultimately show ?thesis using snoc.IH by (simp add: u)
    qed
  qed
  show ?thesis
  proof (cases "i \<le> n")
    case True
    have "sum (\<lambda>k. if 0 < k then ?a us k else 0) {0<..i} =
        sum_list (map snd (filter (\<lambda>(j, d). 0 < j \<and> j \<le> i) us))" for us :: "(int \<times> int) list"
    proof (induction us)
      case (Cons u us)
      obtain j d where u: "u = (j, d)" by (cases u)
      have "sum (\<lambda>k. if 0 < k then ?a (u # us) k else 0) {0<..i} =
          sum (\<lambda>k. (if k = j then d else 0) + (if 0 < k then ?a us k else 0)) {0<..i}"
        by (intro sum.cong) (auto simp: u)
      with Cons.IH show ?case by (simp add: u sum.distrib)
    qed simp
    with fenwick_rep_prefix [OF conjunct1 [OF rep], of i 0] rep True show ?thesis by simp
  next
    case False
    with rep assms show ?thesis
      by (simp add: fenwick_prefix.simps fenwick_rep_def)
  qed
qed

theorem fenwick_prefix_exact_witness:
  "fenwick_prefix (foldl (\<lambda>f (j, d). fenwick_add f j d) (fenwick_new 6) [(3, 2), (5, 1), (0, 9), (3, - 1)]) 4 0
     = Some 1"
  using fenwick_prefix_exact [of 6 "[(3, 2), (5, 1), (0, 9), (3, - 1)]" 4] by simp

subsection \<open>The rolling rank\<close>

definition finite_values :: "rat option list \<Rightarrow> rat list" where
  "finite_values series = List.map_filter (\<lambda>x. x) series"

text \<open>The compressed rank of a value: its position among the distinct values, from one.\<close>

definition value_ranks :: "rat list \<Rightarrow> (rat \<times> int) list" where
  "value_ranks vals = (let unique = sort (remdups vals) in zip unique (map int [1..<length unique + 1]))"

record rank_state =
  rs_tree :: fenwick
  rs_in_window :: int
  rs_out :: "rat option list"

definition count_value :: "(rat \<times> int) list \<Rightarrow> rat option \<Rightarrow> int \<Rightarrow> rank_state \<Rightarrow> rank_state" where
  "count_value ranks x delta s =
     (case x of None \<Rightarrow> s
      | Some v \<Rightarrow> s\<lparr>rs_tree := fenwick_add (rs_tree s) (dict_get ranks v 0) delta,
                    rs_in_window := rs_in_window s + delta\<rparr>)"

definition rank_step ::
  "rat option list \<Rightarrow> int \<Rightarrow> (rat \<times> int) list \<Rightarrow> nat \<Rightarrow> rank_state \<Rightarrow> rank_state option" where
  "rank_step series window ranks t s =
     (let current = series ! t;
          s1 = count_value ranks current 1 s;
          expired = int t - window;
          s2 = (if 0 \<le> expired then count_value ranks (series ! nat expired) (- 1) s1 else s1)
      in if int t < window - 1 \<or> current = None \<or> rs_in_window s2 < 2 then Some s2
         else let rank = dict_get ranks (the current) 0
              in case fenwick_prefix (rs_tree s2) (rank - 1) 0 of
                   None \<Rightarrow> None
                 | Some below \<Rightarrow>
                     (case fenwick_prefix (rs_tree s2) rank 0 of
                        None \<Rightarrow> None
                      | Some up_to \<Rightarrow>
                          let equal = up_to - below
                          in Some (s2\<lparr>rs_out := (rs_out s2)[t :=
                               Some ((of_int below + (of_int equal - 1) / 2) /
                                     of_int (rs_in_window s2 - 1))]\<rparr>)))"

fun rank_loop ::
  "rat option list \<Rightarrow> int \<Rightarrow> (rat \<times> int) list \<Rightarrow> nat list \<Rightarrow> rank_state \<Rightarrow> rank_state option" where
  "rank_loop series window ranks [] s = Some s"
| "rank_loop series window ranks (t # ts) s =
     (case rank_step series window ranks t s of
        None \<Rightarrow> None | Some s1 \<Rightarrow> rank_loop series window ranks ts s1)"

definition rank_column :: "rat option list \<Rightarrow> int \<Rightarrow> rat option list option" where
  "rank_column series window =
     (let vals = finite_values series; out = replicate (length series) None; ranks = value_ranks vals
      in if length vals < 2 then Some out
         else map_option rs_out (rank_loop series window ranks [0..<length series]
                \<lparr>rs_tree = fenwick_new (int (length ranks)), rs_in_window = 0, rs_out = out\<rparr>))"

text \<open>A panel is the list of its columns, each of \<open>rows\<close> values.\<close>

definition ts_rank :: "nat \<Rightarrow> rat option list list \<Rightarrow> int \<Rightarrow> rat option list list option" where
  "ts_rank rows columns window =
     (if window \<le> 1 \<or> int rows < window then Some (map (\<lambda>_. replicate rows None) columns)
      else those (map (\<lambda>c. rank_column c window) columns))"

subsection \<open>The rank is the midrank of the window\<close>

definition window_values :: "rat option list \<Rightarrow> nat \<Rightarrow> nat \<Rightarrow> rat list" where
  "window_values series w t = finite_values (drop (t - w) (take t series))"

definition midrank :: "rat \<Rightarrow> rat list \<Rightarrow> rat" where
  "midrank v vals =
     (of_nat (length (filter (\<lambda>x. x < v) vals)) + (of_nat (length (filter (\<lambda>x. x = v) vals)) - 1) / 2) /
     (of_nat (length vals) - 1)"

definition rank_at :: "rat option list \<Rightarrow> nat \<Rightarrow> nat \<Rightarrow> rat option" where
  "rank_at series w t =
     (case series ! t of
        None \<Rightarrow> None
      | Some v \<Rightarrow>
          let vals = window_values series w (t + 1)
          in if t + 1 < w \<or> length vals < 2 then None else Some (midrank v vals))"

lemma value_ranks_nth:
  assumes "i < length (sort (remdups vals))"
  shows "dict_get (value_ranks vals) (sort (remdups vals) ! i) 0 = int i + 1"
proof -
  let ?u = "sort (remdups vals)"
  have "map_of (zip ?u (map int [1..<length ?u + 1])) (?u ! i) = Some (map int [1..<length ?u + 1] ! i)"
    using assms by (intro map_of_zip_nth) simp_all
  moreover have "map int [1..<length ?u + 1] ! i = int i + 1"
    using assms by (simp del: upt_Suc)
  ultimately show ?thesis by (simp add: value_ranks_def dict_get_def Let_def del: upt_Suc)
qed

lemma value_rank_bounds:
  assumes "v \<in> set vals"
  shows "0 < dict_get (value_ranks vals) v 0 \<and> dict_get (value_ranks vals) v 0 \<le> int (length (value_ranks vals))"
proof -
  let ?u = "sort (remdups vals)"
  obtain i where i: "i < length ?u" "?u ! i = v"
    using assms by (metis in_set_conv_nth set_remdups set_sort)
  from value_ranks_nth [OF i(1)] i show ?thesis by (simp add: value_ranks_def)
qed

lemma value_rank_less:
  assumes "v \<in> set vals" and "w \<in> set vals"
  shows "dict_get (value_ranks vals) v 0 < dict_get (value_ranks vals) w 0 \<longleftrightarrow> v < w"
proof -
  let ?u = "sort (remdups vals)"
  have s: "sorted_wrt (<) ?u" by (simp add: strict_sorted_iff)
  obtain i j where i: "i < length ?u" "?u ! i = v" and j: "j < length ?u" "?u ! j = w"
    using assms by (metis in_set_conv_nth set_remdups set_sort)
  have "i < j \<longleftrightarrow> v < w"
    using sorted_wrt_nth_less [OF s, of i j] sorted_wrt_nth_less [OF s, of j i] i j
    by (metis linorder_neqE_nat order.asym order.irrefl)
  with value_ranks_nth [OF i(1)] value_ranks_nth [OF j(1)] i j show ?thesis by auto
qed

text \<open>The tree and the counter describe the values of a window.\<close>

definition window_counts :: "rat list \<Rightarrow> rat list \<Rightarrow> int \<Rightarrow> int" where
  "window_counts vals W = (\<lambda>k. int (length (filter (\<lambda>x. dict_get (value_ranks vals) x 0 = k) W)))"

lemma window_counts_enter:
  "(window_counts vals W)(dict_get (value_ranks vals) v 0 :=
     window_counts vals W (dict_get (value_ranks vals) v 0) + 1) = window_counts vals (W @ [v])"
  by (auto simp: window_counts_def fun_eq_iff)

lemma window_counts_leave:
  "(window_counts vals (v # W))(dict_get (value_ranks vals) v 0 :=
     window_counts vals (v # W) (dict_get (value_ranks vals) v 0) + - 1) = window_counts vals W"
  by (auto simp: window_counts_def fun_eq_iff)

definition rank_inv :: "rat list \<Rightarrow> rat list \<Rightarrow> rank_state \<Rightarrow> bool" where
  "rank_inv vals W s \<longleftrightarrow>
     set W \<subseteq> set vals \<and> fenwick_rep (rs_tree s) (window_counts vals W) \<and>
     fw_size (rs_tree s) = int (length (value_ranks vals)) \<and> rs_in_window s = int (length W)"

lemma count_value_enter:
  assumes "rank_inv vals W s" and "set (finite_values [x]) \<subseteq> set vals"
  shows "rank_inv vals (W @ finite_values [x]) (count_value (value_ranks vals) x 1 s) \<and>
         rs_out (count_value (value_ranks vals) x 1 s) = rs_out s"
proof (cases x)
  case None
  with assms show ?thesis by (simp add: count_value_def finite_values_def List.map_filter_simps)
next
  case (Some v)
  let ?r = "dict_get (value_ranks vals) v 0"
  have v: "v \<in> set vals" using assms(2) Some by (simp add: finite_values_def List.map_filter_simps)
  from fenwick_rep_add [of "rs_tree s" "window_counts vals W" ?r 1] value_rank_bounds [OF v] assms(1) v Some
  show ?thesis
    by (simp add: rank_inv_def count_value_def finite_values_def List.map_filter_simps window_counts_enter)
qed

lemma count_value_leave:
  assumes "rank_inv vals (finite_values [x] @ W) s"
  shows "rank_inv vals W (count_value (value_ranks vals) x (- 1) s) \<and>
         rs_out (count_value (value_ranks vals) x (- 1) s) = rs_out s"
proof (cases x)
  case None
  with assms show ?thesis by (simp add: count_value_def finite_values_def List.map_filter_simps)
next
  case (Some v)
  let ?r = "dict_get (value_ranks vals) v 0"
  have f: "finite_values [x] @ W = v # W" using Some by (simp add: finite_values_def List.map_filter_simps)
  have inv: "rank_inv vals (v # W) s" using assms by (simp only: f)
  then have v: "v \<in> set vals" by (simp add: rank_inv_def)
  from fenwick_rep_add [of "rs_tree s" "window_counts vals (v # W)" ?r "- 1"] value_rank_bounds [OF v] inv Some
  show ?thesis
    unfolding window_counts_leave by (simp add: rank_inv_def count_value_def)
qed

lemma sum_filter_counts:
  "sum (\<lambda>k :: int. int (length (filter (\<lambda>x. r x = k) W))) {0<..m} = int (length (filter (\<lambda>x. 0 < r x \<and> r x \<le> m) W))"
proof (induction W)
  case (Cons y W)
  have "sum (\<lambda>k. int (length (filter (\<lambda>x. r x = k) (y # W)))) {0<..m} =
      sum (\<lambda>k. (if k = r y then 1 else 0) + int (length (filter (\<lambda>x. r x = k) W))) {0<..m}"
    by (intro sum.cong) auto
  with Cons.IH show ?case by (simp add: sum.distrib)
qed simp

lemma rank_inv_prefix:
  assumes "rank_inv vals W s" and "v \<in> set vals"
  shows "fenwick_prefix (rs_tree s) (dict_get (value_ranks vals) v 0 - 1) 0 =
           Some (int (length (filter (\<lambda>x. x < v) W)))"
    and "fenwick_prefix (rs_tree s) (dict_get (value_ranks vals) v 0) 0 =
           Some (int (length (filter (\<lambda>x. x \<le> v) W)))"
proof -
  let ?r = "\<lambda>x. dict_get (value_ranks vals) x 0"
  note b = value_rank_bounds [OF assms(2)]
  have sub: "x \<in> set vals" if "x \<in> set W" for x using assms(1) that by (auto simp: rank_inv_def)
  have p: "fenwick_prefix (rs_tree s) m 0 = Some (int (length (filter (\<lambda>x. 0 < ?r x \<and> ?r x \<le> m) W)))"
    if "m \<le> int (length (value_ranks vals))" for m
    using fenwick_rep_prefix [of "rs_tree s" "window_counts vals W" m 0] assms(1) that
      sum_filter_counts [of ?r W m]
    by (simp add: rank_inv_def window_counts_def)
  have "filter (\<lambda>x. 0 < ?r x \<and> ?r x \<le> ?r v - 1) W = filter (\<lambda>x. x < v) W"
  proof (rule filter_cong [OF refl])
    fix x assume "x \<in> set W"
    with value_rank_less [OF sub assms(2)] value_rank_bounds [OF sub]
    show "(0 < ?r x \<and> ?r x \<le> ?r v - 1) \<longleftrightarrow> x < v" by auto
  qed
  with p [of "?r v - 1"] b show "fenwick_prefix (rs_tree s) (?r v - 1) 0 = Some (int (length (filter (\<lambda>x. x < v) W)))"
    by simp
  have "filter (\<lambda>x. 0 < ?r x \<and> ?r x \<le> ?r v) W = filter (\<lambda>x. x \<le> v) W"
  proof (rule filter_cong [OF refl])
    fix x assume "x \<in> set W"
    with value_rank_less [OF assms(2) sub] value_rank_bounds [OF sub]
    show "(0 < ?r x \<and> ?r x \<le> ?r v) \<longleftrightarrow> x \<le> v" by (auto simp: not_less [symmetric])
  qed
  with p [of "?r v"] b show "fenwick_prefix (rs_tree s) (?r v) 0 = Some (int (length (filter (\<lambda>x. x \<le> v) W)))"
    by simp
qed

lemma finite_values_append: "finite_values (xs @ ys) = finite_values xs @ finite_values ys"
  by (induction xs) (auto simp: finite_values_def List.map_filter_simps split: option.split)

lemma set_finite_values: "set (finite_values xs) = {v. Some v \<in> set xs}"
  by (induction xs) (auto simp: finite_values_def List.map_filter_simps split: option.split)

lemma window_values_next:
  assumes "t < length series" and "0 < w"
  shows "finite_values (drop (t - w) (take t series)) @ finite_values [series ! t] =
    (if w \<le> t then finite_values [series ! (t - w)] else []) @ window_values series w (t + 1)"
proof -
  note fa = finite_values_append
  have t: "take (t + 1) series = take t series @ [series ! t]"
    using assms(1) by (simp add: take_Suc_conv_app_nth)
  show ?thesis
  proof (cases "w \<le> t")
    case True
    then have l: "t - w < length (take (t + 1) series)" using assms by simp
    have "drop (t - w) (take t series @ [series ! t]) =
        [series ! (t - w)] @ drop (t + 1 - w) (take (t + 1) series)"
      using Cons_nth_drop_Suc [OF l] True assms by (simp add: t [symmetric] Suc_diff_le)
    moreover have "drop (t - w) (take t series @ [series ! t]) = drop (t - w) (take t series) @ [series ! t]"
      using assms by simp
    ultimately have "finite_values (drop (t - w) (take t series) @ [series ! t]) =
        finite_values ([series ! (t - w)] @ drop (t + 1 - w) (take (t + 1) series))" by simp
    then show ?thesis by (simp only: fa window_values_def if_P [OF True])
  next
    case False
    then show ?thesis using t by (simp add: fa [symmetric] window_values_def)
  qed
qed

lemma rank_step_exact:
  assumes t: "t < length series" and w: "1 < w" and vals: "vals = finite_values series"
    and inv: "rank_inv vals (window_values series w t) s"
  shows "\<exists>s'. rank_step series (int w) (value_ranks vals) t s = Some s' \<and>
           rank_inv vals (window_values series w (t + 1)) s' \<and>
           rs_out s' = (case rank_at series w t of None \<Rightarrow> rs_out s | Some r \<Rightarrow> (rs_out s)[t := Some r])"
proof -
  let ?V = "value_ranks vals" and ?W = "window_values series w (t + 1)"
  define s1 where "s1 = count_value ?V (series ! t) 1 s"
  define s2 where "s2 = (if 0 \<le> int t - int w then count_value ?V (series ! nat (int t - int w)) (- 1) s1 else s1)"
  have "set (finite_values [series ! t]) \<subseteq> set vals"
    using t by (auto simp: vals set_finite_values)
  from count_value_enter [OF inv this]
  have s1: "rank_inv vals ((if w \<le> t then finite_values [series ! (t - w)] else []) @ ?W) s1"
    "rs_out s1 = rs_out s"
    using window_values_next [OF t, of w] w by (simp_all add: window_values_def s1_def)
  have s2: "rank_inv vals ?W s2" "rs_out s2 = rs_out s"
  proof -
    have "nat (int t - int w) = t - w" by simp
    then show "rank_inv vals ?W s2" "rs_out s2 = rs_out s"
      using s1 count_value_leave [of vals "series ! (t - w)" ?W s1]
      by (cases "w \<le> t"; simp add: s2_def)+
  qed
  have n: "rs_in_window s2 = int (length ?W)" using s2(1) by (simp only: rank_inv_def)
  have step: "rank_step series (int w) ?V t s =
      (if int t < int w - 1 \<or> series ! t = None \<or> int (length ?W) < 2 then Some s2
       else let rank = dict_get ?V (the (series ! t)) 0
            in case fenwick_prefix (rs_tree s2) (rank - 1) 0 of
                 None \<Rightarrow> None
               | Some below \<Rightarrow>
                   (case fenwick_prefix (rs_tree s2) rank 0 of
                      None \<Rightarrow> None
                    | Some up_to \<Rightarrow>
                        let equal = up_to - below
                        in Some (s2\<lparr>rs_out := (rs_out s2)[t :=
                             Some ((of_int below + (of_int equal - 1) / 2) /
                                   of_int (int (length ?W) - 1))]\<rparr>)))"
    unfolding rank_step_def Let_def s1_def [symmetric] s2_def [symmetric] n by (rule refl)
  show ?thesis
  proof (cases "int t < int w - 1 \<or> series ! t = None \<or> int (length ?W) < 2")
    case True
    then have "rank_at series w t = None"
      by (auto simp: rank_at_def Let_def split: option.split)
    with True s2 show ?thesis by (simp only: step if_True) simp
  next
    case False
    then obtain v where v: "series ! t = Some v" by auto
    then have vin: "v \<in> set vals" using t by (auto simp: vals set_finite_values) (metis nth_mem)
    have le: "length (filter (\<lambda>x. x \<le> v) xs) =
        length (filter (\<lambda>x. x < v) xs) + length (filter (\<lambda>x. x = v) xs)" for xs
      by (induction xs) auto
    have at: "rank_at series w t = Some (midrank v ?W)"
      using False v by (auto simp: rank_at_def)
    have mid: "(of_int (int (length (filter (\<lambda>x. x < v) ?W))) +
          (of_int (int (length (filter (\<lambda>x. x \<le> v) ?W)) - int (length (filter (\<lambda>x. x < v) ?W))) - 1) / 2) /
        of_int (int (length ?W) - 1) = midrank v ?W"
      by (simp add: midrank_def le)
    have "rank_step series (int w) ?V t s = Some (s2\<lparr>rs_out := (rs_out s2)[t := Some (midrank v ?W)]\<rparr>)"
      unfolding step using False
      by (simp only: if_False Let_def v option.sel rank_inv_prefix [OF s2(1) vin] option.case mid)
    moreover have "rank_inv vals ?W (s2\<lparr>rs_out := (rs_out s2)[t := Some (midrank v ?W)]\<rparr>)"
      using s2(1) by (cases s2) (simp add: rank_inv_def)
    ultimately show ?thesis using at s2(2) by simp
  qed
qed

lemma rank_loop_exact:
  assumes w: "1 < w" and vals: "vals = finite_values series"
  shows "t \<le> length series \<Longrightarrow> rank_inv vals (window_values series w t) s \<Longrightarrow>
    rs_out s = map (rank_at series w) [0..<t] @ replicate (length series - t) None \<Longrightarrow>
    \<exists>s'. rank_loop series (int w) (value_ranks vals) [t..<length series] s = Some s' \<and>
         rs_out s' = map (rank_at series w) [0..<length series]"
proof (induction "length series - t" arbitrary: t s)
  case 0
  then show ?case by simp
next
  case (Suc k)
  then have t: "t < length series" by simp
  from rank_step_exact [OF t w vals Suc.prems(2)] obtain s1 where
    s1: "rank_step series (int w) (value_ranks vals) t s = Some s1"
    "rank_inv vals (window_values series w (t + 1)) s1"
    "rs_out s1 = (case rank_at series w t of None \<Rightarrow> rs_out s | Some r \<Rightarrow> (rs_out s)[t := Some r])" by blast
  obtain j where j: "length series - t = Suc j" "length series - Suc t = j" using t by (metis Suc_diff_Suc)
  have "rs_out s1 = map (rank_at series w) [0..<Suc t] @ replicate (length series - Suc t) None"
    using s1(3) Suc.prems(3) j by (auto simp: list_update_append split: option.split)
  moreover have "k = length series - Suc t" using Suc.hyps(2) by simp
  ultimately have "\<exists>s'. rank_loop series (int w) (value_ranks vals) [Suc t..<length series] s1 = Some s' \<and>
      rs_out s' = map (rank_at series w) [0..<length series]"
    using Suc.hyps(1) [of "Suc t" s1] t s1(2) by simp
  with s1(1) show ?case using t by (simp add: upt_conv_Cons)
qed

lemma rank_column_exact:
  assumes "1 < w"
  shows "rank_column series (int w) = Some (map (rank_at series w) [0..<length series])"
proof -
  let ?vals = "finite_values series"
  have short: "length (window_values series w t) \<le> length ?vals" for t
  proof -
    have "finite_values ys = finite_values (take k ys) @ finite_values (drop k ys)" for ys k
      using finite_values_append [of "take k ys" "drop k ys"] by (simp only: append_take_drop_id)
    then have "length (finite_values (drop k ys)) \<le> length (finite_values ys)"
      "length (finite_values (take k ys)) \<le> length (finite_values ys)" for ys k
      by (metis le_add2 length_append, metis le_add1 length_append)
    then show ?thesis unfolding window_values_def by (meson le_trans)
  qed
  show ?thesis
  proof (cases "length ?vals < 2")
    case True
    then have "rank_at series w t = None" for t
      using short [of "t + 1"] by (auto simp: rank_at_def Let_def split: option.split)
    then have "map (rank_at series w) [0..<length series] = replicate (length series) None"
      by (intro nth_equalityI) simp_all
    with True show ?thesis by (simp add: rank_column_def Let_def)
  next
    case False
    let ?s = "\<lparr>rs_tree = fenwick_new (int (length (value_ranks ?vals))), rs_in_window = 0,
               rs_out = replicate (length series) None\<rparr>"
    have "rank_inv ?vals (window_values series w 0) ?s"
      using fenwick_rep_new [of "int (length (value_ranks ?vals))"]
      by (simp add: rank_inv_def window_values_def finite_values_def List.map_filter_simps
          window_counts_def fenwick_new_def)
    from rank_loop_exact [OF assms refl _ this] False show ?thesis
      by (auto simp: rank_column_def Let_def)
  qed
qed

lemma midrank_bounds:
  assumes "v \<in> set W" and "2 \<le> length W"
  shows "0 \<le> midrank v W \<and> midrank v W \<le> 1"
proof -
  have c: "length (filter (\<lambda>x. x < v) W) + length (filter (\<lambda>x. x = v) W) \<le> length W"
    by (induction W) auto
  have e: "1 \<le> length (filter (\<lambda>x. x = v) W)"
    using assms(1) by (induction W) auto
  have "(of_nat (length (filter (\<lambda>x. x < v) W)) :: rat) + of_nat (length (filter (\<lambda>x. x = v) W)) \<le> of_nat (length W)"
    using c by (metis of_nat_add of_nat_mono)
  moreover have "(1 :: rat) \<le> of_nat (length (filter (\<lambda>x. x = v) W))"
    using e by (metis of_nat_1 of_nat_mono)
  moreover have "(2 :: rat) \<le> of_nat (length W)" using assms(2) by (metis of_nat_mono of_nat_numeral)
  ultimately show ?thesis by (simp add: midrank_def field_simps)
qed

lemma ts_rank_midranks:
  assumes "list_all (\<lambda>c. length c = rows) columns"
  shows "ts_rank rows columns window =
    Some (map (\<lambda>c. map (\<lambda>t. if window \<le> 1 \<or> int rows < window then None
                            else rank_at c (nat window) t) [0..<rows]) columns)"
proof (cases "window \<le> 1 \<or> int rows < window")
  case True
  then show ?thesis by (auto simp: ts_rank_def map_replicate_const)
next
  case False
  then obtain w where w: "window = int w" "1 < w" by (metis less_le_not_le nat_0_le nat_eq_iff2 not_le of_nat_1 of_nat_less_iff order_trans zero_le_one)
  have "those (map (\<lambda>c. rank_column c window) cs) = Some (map (\<lambda>c. map (rank_at c w) [0..<rows]) cs)"
    if "list_all (\<lambda>c. length c = rows) cs" for cs
    using that by (induction cs) (simp_all add: w(1) rank_column_exact [OF w(2)])
  from this [OF assms] False w show ?thesis by (simp add: ts_rank_def)
qed

text \<open>
  C8: The rolling rank of a panel never raises and gives, for each column and row, the midrank of the
  value among the finite values of its window, or NaN where the window is not full, the value is
  not finite or has no other value to be ranked with.
\<close>

theorem ts_rank_exact:
  assumes "list_all (\<lambda>c. length c = rows) columns"
  shows "ts_rank rows columns window =
    Some (map (\<lambda>c. map (\<lambda>t. if window \<le> 1 \<or> int rows < window then None
                            else rank_at c (nat window) t) [0..<rows]) columns)"
  by (rule ts_rank_midranks [OF assms])

theorem ts_rank_exact_witness:
  "ts_rank 4 [[Some 3, Some 1, None, Some 1]] 3 = Some [[None, None, None, Some (1 / 2)]]"
proof -
  have "[0..<4] = [0, 1, 2, 3 :: nat]" by (simp add: upt_rec)
  then show ?thesis
    using ts_rank_exact [of 4 "[[Some 3, Some 1, None, Some 1]]" 3]
    by (simp add: rank_at_def window_values_def finite_values_def List.map_filter_simps midrank_def)
qed

end
