(* ===== verification/WriteActor.thy ===== *)
theory WriteActor
  imports Prelude Contracts
begin

text \<open>
  The single-writer actor (memory_rag/write_actor.py): callers put work in a bounded queue, one
  thread runs it against the store. Callers, the thread and the closing are a labelled step
  relation, so that every interleaving is covered; what a piece of work does to the store is a
  parameter. The test of the closed flag and the enqueueing are separate steps, as in the code.
\<close>

subsection \<open>State and operations\<close>

text \<open>Where a caller of \<open>submit\<close> is; a result is what the work returned or raised.\<close>

datatype 'r caller =
    NotCalled | Checked | Waiting | Got 'r | ActorClosed | Backpressure | GaveUp

text \<open>A queue item is the number of a caller, or None, the sentinel.\<close>

record ('s, 'r) actor =
  wa_queue :: "nat option list"
  wa_size :: int
  wa_closed :: bool
  wa_closing :: bool
  wa_alive :: bool
  wa_busy :: "nat option"
  wa_store :: 's
  wa_futures :: "nat \<rightharpoonup> 'r"
  wa_callers :: "'r caller list"

datatype actor_error = BadQueueSize int

definition actor_new :: "'s \<Rightarrow> int \<Rightarrow> nat \<Rightarrow> actor_error + ('s, 'r) actor" where
  "actor_new store queue_size n =
     (if queue_size \<le> 0 then Inl (BadQueueSize queue_size)
      else Inr \<lparr>wa_queue = [], wa_size = queue_size, wa_closed = False, wa_closing = False,
                wa_alive = True, wa_busy = None, wa_store = store, wa_futures = Map.empty,
                wa_callers = replicate n NotCalled\<rparr>)"

definition actor_put :: "('s, 'r) actor \<Rightarrow> nat option \<Rightarrow> ('s, 'r) actor \<times> bool" where
  "actor_put a x =
     (if int (length (wa_queue a)) < wa_size a then (a\<lparr>wa_queue := wa_queue a @ [x]\<rparr>, True)
      else (a, False))"

definition actor_get :: "('s, 'r) actor \<Rightarrow> ('s, 'r) actor \<times> nat option option" where
  "actor_get a = (case wa_queue a of [] \<Rightarrow> (a, None) | x # xs \<Rightarrow> (a\<lparr>wa_queue := xs\<rparr>, Some x))"

interpretation writeq: bounded_fifo wa_queue wa_size actor_put actor_get
  by unfold_locales (auto simp: actor_put_def actor_get_def split: list.splits)

definition caller_is :: "('s, 'r) actor \<Rightarrow> nat \<Rightarrow> 'r caller \<Rightarrow> bool" where
  "caller_is a i c \<longleftrightarrow> i < length (wa_callers a) \<and> wa_callers a ! i = c"

definition set_caller :: "nat \<Rightarrow> 'r caller \<Rightarrow> ('s, 'r) actor \<Rightarrow> ('s, 'r) actor" where
  "set_caller i c a = a\<lparr>wa_callers := (wa_callers a)[i := c]\<rparr>"

text \<open>\<open>submit\<close>: the test of the flag, then the enqueueing, then the wait for the future.\<close>

definition submit_check :: "nat \<Rightarrow> ('s, 'r) actor \<Rightarrow> ('s, 'r) actor" where
  "submit_check i a = set_caller i (if wa_closed a then ActorClosed else Checked) a"

definition submit_enqueue :: "nat \<Rightarrow> ('s, 'r) actor \<Rightarrow> ('s, 'r) actor \<times> bool" where
  "submit_enqueue i a =
     (case actor_put a (Some i) of
        (a1, True) \<Rightarrow> (set_caller i Waiting a1, True)
      | (a1, False) \<Rightarrow> (set_caller i Backpressure a1, False))"

text \<open>One turn of the thread: it takes an item, and stops at the sentinel.\<close>

definition writer_take :: "('s, 'r) actor \<Rightarrow> ('s, 'r) actor" where
  "writer_take a =
     (case actor_get a of
        (_, None) \<Rightarrow> a
      | (a1, Some None) \<Rightarrow> a1\<lparr>wa_alive := False\<rparr>
      | (a1, Some (Some i)) \<Rightarrow> a1\<lparr>wa_busy := Some i\<rparr>)"

definition writer_execute :: "(nat \<Rightarrow> 's \<Rightarrow> 's \<times> 'r) \<Rightarrow> nat \<Rightarrow> ('s, 'r) actor \<Rightarrow> ('s, 'r) actor" where
  "writer_execute work i a =
     (let (store, r) = work i (wa_store a)
      in a\<lparr>wa_store := store, wa_futures := (wa_futures a)(i \<mapsto> r), wa_busy := None\<rparr>)"

text \<open>\<open>close\<close>: the flag, then the sentinel, unless the queue stays full until the timeout.\<close>

definition close_flag :: "('s, 'r) actor \<Rightarrow> ('s, 'r) actor" where
  "close_flag a = (if wa_closed a then a else a\<lparr>wa_closed := True, wa_closing := True\<rparr>)"

definition close_sentinel :: "('s, 'r) actor \<Rightarrow> ('s, 'r) actor \<times> bool" where
  "close_sentinel a = (let (a1, ok) = actor_put a None in (a1\<lparr>wa_closing := False\<rparr>, ok))"

subsection \<open>Every interleaving\<close>

datatype actor_event = Accepted nat | Executed nat | Sentinel | Internal

inductive actor_step ::
  "(nat \<Rightarrow> 's \<Rightarrow> 's \<times> 'r) \<Rightarrow> ('s, 'r) actor \<Rightarrow> actor_event \<Rightarrow> ('s, 'r) actor \<Rightarrow> bool" for work where
  check: "caller_is a i NotCalled \<Longrightarrow> actor_step work a Internal (submit_check i a)"
| enqueue: "caller_is a i Checked \<Longrightarrow> submit_enqueue i a = (a1, ok) \<Longrightarrow>
     actor_step work a (if ok then Accepted i else Internal) a1"
| receive: "caller_is a i Waiting \<Longrightarrow> wa_futures a i = Some r \<Longrightarrow>
     actor_step work a Internal (set_caller i (Got r) a)"
| timeout: "caller_is a i Waiting \<Longrightarrow> wa_futures a i = None \<Longrightarrow>
     actor_step work a Internal (set_caller i GaveUp a)"
| take: "wa_alive a \<Longrightarrow> wa_busy a = None \<Longrightarrow> wa_queue a \<noteq> [] \<Longrightarrow>
     actor_step work a Internal (writer_take a)"
| execute: "wa_busy a = Some i \<Longrightarrow> actor_step work a (Executed i) (writer_execute work i a)"
| close: "actor_step work a Internal (close_flag a)"
| sentinel: "wa_closing a \<Longrightarrow> close_sentinel a = (a1, ok) \<Longrightarrow>
     actor_step work a (if ok then Sentinel else Internal) a1"

inductive actor_run ::
  "(nat \<Rightarrow> 's \<Rightarrow> 's \<times> 'r) \<Rightarrow> ('s, 'r) actor \<Rightarrow> actor_event list \<Rightarrow> ('s, 'r) actor \<Rightarrow> bool" for work where
  stop: "actor_run work a [] a"
| step: "actor_run work a evs b \<Longrightarrow> actor_step work b ev c \<Longrightarrow> actor_run work a (evs @ [ev]) c"

definition accepted_of :: "actor_event list \<Rightarrow> nat list" where
  "accepted_of evs = List.map_filter (\<lambda>ev. case ev of Accepted i \<Rightarrow> Some i | _ \<Rightarrow> None) evs"

definition executed_of :: "actor_event list \<Rightarrow> nat list" where
  "executed_of evs = List.map_filter (\<lambda>ev. case ev of Executed i \<Rightarrow> Some i | _ \<Rightarrow> None) evs"

text \<open>The reference: the work done one piece after the other on the store alone.\<close>

fun run_serially :: "(nat \<Rightarrow> 's \<Rightarrow> 's \<times> 'r) \<Rightarrow> nat list \<Rightarrow> 's \<Rightarrow> 's" where
  "run_serially work [] s = s"
| "run_serially work (i # js) s = run_serially work js (fst (work i s))"

subsection \<open>The store is written serially\<close>

lemma accepted_of_snoc: "accepted_of (evs @ [ev]) = accepted_of evs @ (case ev of Accepted i \<Rightarrow> [i] | _ \<Rightarrow> [])"
  by (induction evs) (auto simp: accepted_of_def List.map_filter_simps split: actor_event.split option.split)

lemma executed_of_snoc: "executed_of (evs @ [ev]) = executed_of evs @ (case ev of Executed i \<Rightarrow> [i] | _ \<Rightarrow> [])"
  by (induction evs) (auto simp: executed_of_def List.map_filter_simps split: actor_event.split option.split)

lemmas event_snoc = accepted_of_snoc executed_of_snoc

lemma run_serially_append: "run_serially work (is1 @ is2) s = run_serially work is2 (run_serially work is1 s)"
  by (induction is1 arbitrary: s) simp_all

definition queued :: "nat option list \<Rightarrow> nat list" where
  "queued xs = List.map_filter (\<lambda>x. x) xs"

lemma queued_simps [simp]:
  "queued [] = []" "queued (None # xs) = queued xs" "queued (Some i # xs) = i # queued xs"
  "queued (xs @ ys) = queued xs @ queued ys"
proof -
  show "queued (xs @ ys) = queued xs @ queued ys"
    by (induction xs) (simp_all add: queued_def List.map_filter_simps split: option.split)
qed (simp_all add: queued_def List.map_filter_simps)

definition in_hand :: "('s, 'r) actor \<Rightarrow> nat list" where
  "in_hand a = (case wa_busy a of None \<Rightarrow> [] | Some i \<Rightarrow> [i])"

text \<open>What was accepted is what was executed, what is in hand and what is queued, in that order.\<close>

definition serial_inv :: "(nat \<Rightarrow> 's \<Rightarrow> 's \<times> 'r) \<Rightarrow> 's \<Rightarrow> actor_event list \<Rightarrow> ('s, 'r) actor \<Rightarrow> bool" where
  "serial_inv work s0 evs a \<longleftrightarrow>
     accepted_of evs = executed_of evs @ in_hand a @ queued (wa_queue a) \<and>
     wa_store a = run_serially work (executed_of evs) s0 \<and>
     writeq.within_capacity a"

definition futures_inv :: "(nat \<Rightarrow> 's \<Rightarrow> 's \<times> 'r) \<Rightarrow> 's \<Rightarrow> actor_event list \<Rightarrow> ('s, 'r) actor \<Rightarrow> bool" where
  "futures_inv work s0 evs a \<longleftrightarrow>
     (\<forall>i r. wa_futures a i = Some r \<longrightarrow>
        (\<exists>pre post. executed_of evs = pre @ i # post \<and> r = snd (work i (run_serially work pre s0)))) \<and>
     (\<forall>i r. caller_is a i (Got r) \<longrightarrow> wa_futures a i = Some r)"

definition callers_inv :: "actor_event list \<Rightarrow> ('s, 'r) actor \<Rightarrow> bool" where
  "callers_inv evs a \<longleftrightarrow>
     distinct (accepted_of evs) \<and>
     (\<forall>i \<in> set (accepted_of evs).
        i < length (wa_callers a) \<and> \<not> caller_is a i NotCalled \<and> \<not> caller_is a i Checked)"

lemma set_caller_sel [simp]:
  "wa_queue (set_caller i c a) = wa_queue a" "wa_size (set_caller i c a) = wa_size a"
  "wa_closed (set_caller i c a) = wa_closed a" "wa_closing (set_caller i c a) = wa_closing a"
  "wa_alive (set_caller i c a) = wa_alive a" "wa_busy (set_caller i c a) = wa_busy a"
  "wa_store (set_caller i c a) = wa_store a" "wa_futures (set_caller i c a) = wa_futures a"
  "wa_callers (set_caller i c a) = (wa_callers a)[i := c]"
  by (simp_all add: set_caller_def)

lemma set_caller_inv [simp]:
  "in_hand (set_caller i c a) = in_hand a"
  "writeq.within_capacity (set_caller i c a) = writeq.within_capacity a"
  by (simp_all add: in_hand_def writeq.within_capacity_def)

lemma caller_is_set:
  "caller_is (set_caller i c a) j d \<longleftrightarrow> (if j = i \<and> i < length (wa_callers a) then c = d else caller_is a j d)"
  by (auto simp: caller_is_def set_caller_def nth_list_update)

lemma actor_put_sel:
  "wa_size (fst (actor_put a x)) = wa_size a" "wa_closed (fst (actor_put a x)) = wa_closed a"
  "wa_closing (fst (actor_put a x)) = wa_closing a" "wa_alive (fst (actor_put a x)) = wa_alive a"
  "wa_busy (fst (actor_put a x)) = wa_busy a" "wa_store (fst (actor_put a x)) = wa_store a"
  "wa_futures (fst (actor_put a x)) = wa_futures a" "wa_callers (fst (actor_put a x)) = wa_callers a"
  by (simp_all add: actor_put_def)

lemma submit_enqueue_eq:
  "submit_enqueue i a = (let (a1, ok) = actor_put a (Some i)
     in (set_caller i (if ok then Waiting else Backpressure) a1, ok))"
  by (auto simp: submit_enqueue_def split: prod.split bool.split)

lemma serial_inv_step:
  assumes "actor_step work a ev b" and "serial_inv work s0 evs a"
  shows "serial_inv work s0 (evs @ [ev]) b"
  using assms
proof (cases rule: actor_step.cases)
  case (enqueue i ok)
  obtain a1 where p: "actor_put a (Some i) = (a1, ok)" and b: "b = set_caller i (if ok then Waiting else Backpressure) a1"
    using enqueue(3) by (auto simp: submit_enqueue_eq split: prod.splits)
  from writeq.fifo_put_cases [of a "Some i"] writeq.put_within [of a "Some i"] assms(2)
    actor_put_sel [of a "Some i"] enqueue(1) show ?thesis
    by (auto simp: serial_inv_def p b event_snoc in_hand_def)
next
  case take
  then obtain x xs where q: "wa_queue a = x # xs" by (cases "wa_queue a") auto
  with take assms(2) show ?thesis
    by (cases x)
      (auto simp: serial_inv_def event_snoc writer_take_def actor_get_def in_hand_def writeq.within_capacity_def)
next
  case (execute i)
  with assms(2) show ?thesis
    by (auto simp: serial_inv_def event_snoc writer_execute_def in_hand_def run_serially_append
        writeq.within_capacity_def split: prod.split)
next
  case (sentinel ok)
  obtain a1 where p: "actor_put a None = (a1, ok)" and b: "b = a1\<lparr>wa_closing := False\<rparr>"
    using sentinel(3) by (auto simp: close_sentinel_def split: prod.splits)
  from writeq.fifo_put_cases [of a None] writeq.put_within [of a None] assms(2)
    actor_put_sel [of a None] sentinel(1) show ?thesis
    by (auto simp: serial_inv_def p b event_snoc in_hand_def writeq.within_capacity_def)
qed (auto simp: serial_inv_def event_snoc submit_check_def close_flag_def in_hand_def writeq.within_capacity_def)

lemma futures_inv_mono:
  assumes "futures_inv work s0 evs a" and "wa_futures b = wa_futures a"
    and "\<And>i r. caller_is b i (Got r) \<Longrightarrow> caller_is a i (Got r) \<or> wa_futures a i = Some r"
  shows "futures_inv work s0 (evs @ [ev]) b"
  using assms unfolding futures_inv_def executed_of_snoc
  by (metis append.assoc append_Cons)

lemma caller_is_put: "caller_is (fst (actor_put a x)) i c = caller_is a i c"
  by (simp add: caller_is_def actor_put_sel)

lemma futures_inv_step:
  assumes "actor_step work a ev b" and "serial_inv work s0 evs a" and "futures_inv work s0 evs a"
    and "callers_inv evs a"
  shows "futures_inv work s0 (evs @ [ev]) b"
  using assms(1)
proof (cases rule: actor_step.cases)
  case (check i)
  then show ?thesis
    by (intro futures_inv_mono [OF assms(3)]) (auto simp: submit_check_def caller_is_set split: if_splits)
next
  case (enqueue i ok)
  obtain a1 where p: "actor_put a (Some i) = (a1, ok)" and b: "b = set_caller i (if ok then Waiting else Backpressure) a1"
    using enqueue(3) by (auto simp: submit_enqueue_eq split: prod.splits)
  have a1: "a1 = fst (actor_put a (Some i))" using p by simp
  show ?thesis
    by (intro futures_inv_mono [OF assms(3)])
      (auto simp: b a1 actor_put_sel caller_is_set caller_is_put split: if_splits)
next
  case (receive i r)
  then show ?thesis by (intro futures_inv_mono [OF assms(3)]) (auto simp: caller_is_set split: if_splits)
next
  case (timeout i)
  then show ?thesis by (intro futures_inv_mono [OF assms(3)]) (auto simp: caller_is_set split: if_splits)
next
  case take
  then show ?thesis
    by (intro futures_inv_mono [OF assms(3)])
      (auto simp: writer_take_def actor_get_def caller_is_def split: list.splits option.splits)
next
  case close
  then show ?thesis by (intro futures_inv_mono [OF assms(3)]) (auto simp: close_flag_def caller_is_def split: if_splits)
next
  case (sentinel ok)
  then show ?thesis
    by (intro futures_inv_mono [OF assms(3)])
      (auto simp: close_sentinel_def actor_put_def caller_is_def split: if_splits)
next
  case (execute i)
  obtain s1 r where w: "work i (wa_store a) = (s1, r)" by (cases "work i (wa_store a)")
  have st: "wa_store a = run_serially work (executed_of evs) s0" using assms(2) by (simp add: serial_inv_def)
  have "i \<in> set (accepted_of evs)" and "i \<notin> set (executed_of evs)"
    using assms(2,4) execute(3) by (auto simp: serial_inv_def in_hand_def callers_inv_def)
  then have fresh: "wa_futures a i = None"
    using assms(3) unfolding futures_inv_def by (metis in_set_conv_decomp not_Some_eq)
  have b: "b = a\<lparr>wa_store := s1, wa_futures := (wa_futures a)(i \<mapsto> r), wa_busy := None\<rparr>"
    using execute w by (simp add: writer_execute_def)
  have "executed_of (evs @ [ev]) = executed_of evs @ i # []" using execute by (simp add: event_snoc)
  moreover have "\<exists>pre post. executed_of evs @ [i] = pre @ j # post \<and> q = snd (work j (run_serially work pre s0))"
    if "wa_futures a j = Some q" for j q
  proof -
    obtain pre post where "executed_of evs = pre @ j # post" "q = snd (work j (run_serially work pre s0))"
      using assms(3) \<open>wa_futures a j = Some q\<close> unfolding futures_inv_def by blast
    then show ?thesis by (intro exI [of _ pre] exI [of _ "post @ [i]"]) simp
  qed
  moreover have "caller_is b j (Got q) \<Longrightarrow> wa_futures b j = Some q" for j q
    using assms(3) fresh by (auto simp: futures_inv_def b caller_is_def)
  moreover have "\<exists>pre post. executed_of evs @ [i] = pre @ i # post \<and> r = snd (work i (run_serially work pre s0))"
    using w st by (intro exI [of _ "executed_of evs"] exI [of _ "[]"]) simp
  ultimately show ?thesis unfolding futures_inv_def b by (simp split: if_splits)
qed

lemma callers_inv_mono:
  assumes "callers_inv evs a" and "wa_callers b = wa_callers a" and "accepted_of (evs @ [ev]) = accepted_of evs"
  shows "callers_inv (evs @ [ev]) b"
  using assms by (simp add: callers_inv_def caller_is_def)

lemma callers_inv_step:
  assumes "actor_step work a ev b" and "callers_inv evs a"
  shows "callers_inv (evs @ [ev]) b"
  using assms(1)
proof (cases rule: actor_step.cases)
  case (enqueue i ok)
  obtain a1 where p: "actor_put a (Some i) = (a1, ok)" and b: "b = set_caller i (if ok then Waiting else Backpressure) a1"
    using enqueue(3) by (auto simp: submit_enqueue_eq split: prod.splits)
  have a1: "a1 = fst (actor_put a (Some i))" using p by simp
  have "i < length (wa_callers a)" using enqueue(2) by (simp add: caller_is_def)
  moreover have "i \<notin> set (accepted_of evs)" using assms(2) enqueue(2) by (auto simp: callers_inv_def)
  ultimately show ?thesis using assms(2) enqueue(1)
    by (auto simp: callers_inv_def event_snoc b a1 caller_is_set caller_is_put actor_put_sel)
next
  case (check i)
  with assms(2) show ?thesis
    by (auto simp: callers_inv_def event_snoc submit_check_def caller_is_set split: if_splits)
next
  case (receive i r)
  with assms(2) show ?thesis by (auto simp: callers_inv_def event_snoc caller_is_set)
next
  case (timeout i)
  with assms(2) show ?thesis by (auto simp: callers_inv_def event_snoc caller_is_set)
next
  case take
  then show ?thesis
    by (intro callers_inv_mono [OF assms(2)])
      (auto simp: event_snoc writer_take_def actor_get_def split: list.splits option.splits)
next
  case (execute i)
  then show ?thesis
    by (intro callers_inv_mono [OF assms(2)]) (auto simp: event_snoc writer_execute_def split: prod.splits)
next
  case close
  then show ?thesis by (intro callers_inv_mono [OF assms(2)]) (auto simp: event_snoc close_flag_def)
next
  case (sentinel ok)
  then show ?thesis
    by (intro callers_inv_mono [OF assms(2)])
      (auto simp: event_snoc close_sentinel_def actor_put_def split: if_splits)
qed

lemma actor_run_inv:
  assumes "actor_run work a evs b" and "actor_new s0 queue_size n = Inr a"
  shows "serial_inv work s0 evs b \<and> futures_inv work s0 evs b \<and> callers_inv evs b \<and> wa_size b = queue_size"
  using assms
proof (induction rule: actor_run.induct)
  case (stop a)
  then have "a = \<lparr>wa_queue = [], wa_size = queue_size, wa_closed = False, wa_closing = False,
      wa_alive = True, wa_busy = None, wa_store = s0, wa_futures = Map.empty,
      wa_callers = replicate n NotCalled\<rparr>" and "0 < queue_size"
    by (auto simp: actor_new_def split: if_splits)
  then show ?case
    by (auto simp: serial_inv_def futures_inv_def callers_inv_def accepted_of_def executed_of_def
        List.map_filter_simps in_hand_def writeq.within_capacity_def caller_is_def)
next
  case (step a evs b ev c)
  have "wa_size c = wa_size b"
    using step(2) by (cases rule: actor_step.cases)
      (auto simp: submit_check_def submit_enqueue_eq writer_take_def writer_execute_def close_flag_def
        close_sentinel_def actor_put_def actor_get_def split: prod.splits if_splits list.splits option.splits)
  with step serial_inv_step [OF step(2)] futures_inv_step [OF step(2)] callers_inv_step [OF step(2)]
  show ?case by simp
qed

text \<open>
  However callers, writer and closing interleave, the store is the result of running the executed
  work one piece after the other, in the order in which it was accepted and never twice, and the
  result a caller receives is that of its own piece at its place; the queue never exceeds its
  size. A caller that gave up waiting still has its work done.
\<close>

theorem actor_serial:
  assumes "actor_new s0 queue_size n = Inr a" and "actor_run work a evs b"
  shows "distinct (accepted_of evs) \<and> (\<exists>rest. accepted_of evs = executed_of evs @ rest) \<and>
    wa_store b = run_serially work (executed_of evs) s0 \<and> int (length (wa_queue b)) \<le> queue_size \<and>
    (\<forall>i r. caller_is b i (Got r) \<longrightarrow>
       (\<exists>pre post. executed_of evs = pre @ i # post \<and> r = snd (work i (run_serially work pre s0))))"
  using actor_run_inv [OF assms(2,1)]
  by (auto simp: serial_inv_def callers_inv_def futures_inv_def writeq.within_capacity_def)

subsection \<open>Closing\<close>

text \<open>A sentinel is queued, or the thread has met it, only after closing has put it there.\<close>

definition closing_inv :: "('s, 'r) actor \<Rightarrow> bool" where
  "closing_inv a \<longleftrightarrow>
     (wa_closing a \<longrightarrow> wa_closed a) \<and> (None \<in> set (wa_queue a) \<or> \<not> wa_alive a \<longrightarrow> wa_closed a \<and> \<not> wa_closing a)"

lemma closing_inv_step:
  assumes "actor_step work a ev b" and "closing_inv a" shows "closing_inv b"
  using assms
  by (cases rule: actor_step.cases)
    (auto simp: closing_inv_def submit_check_def submit_enqueue_eq writer_take_def writer_execute_def
      close_flag_def close_sentinel_def actor_put_def actor_get_def
      split: prod.splits if_splits list.splits option.splits)

lemma closing_inv_run:
  assumes "actor_run work a evs b" and "actor_new s0 queue_size n = Inr a" shows "closing_inv b"
  using assms
  by (induction rule: actor_run.induct)
    (auto simp: actor_new_def closing_inv_def split: if_splits dest: closing_inv_step)

lemma actor_run_append:
  assumes "actor_run work b evs2 c" and "actor_run work a evs1 b" shows "actor_run work a (evs1 @ evs2) c"
  using assms
  by (induction rule: actor_run.induct) (auto simp: append_assoc [symmetric] intro: actor_run.step simp del: append_assoc)

text \<open>What is in front of the first sentinel is done before the thread stops, and nothing else.\<close>

definition drain_inv :: "nat list \<Rightarrow> actor_event list \<Rightarrow> ('s, 'r) actor \<Rightarrow> bool" where
  "drain_inv due evs a \<longleftrightarrow>
     (if wa_alive a then None \<in> set (wa_queue a) \<and>
        executed_of evs @ in_hand a @ queued (takeWhile (\<lambda>x. x \<noteq> None) (wa_queue a)) = due
      else executed_of evs = due \<and> wa_busy a = None)"

lemma drain_inv_mono:
  assumes "drain_inv due evs a" and "wa_queue b = wa_queue a @ zs" and "wa_alive b = wa_alive a"
    and "wa_busy b = wa_busy a" and "executed_of (evs @ [ev]) = executed_of evs"
  shows "drain_inv due (evs @ [ev]) b"
  using assms by (auto simp: drain_inv_def in_hand_def split: if_splits)

lemma drain_inv_step:
  assumes "actor_step work a ev b" and "drain_inv due evs a"
  shows "drain_inv due (evs @ [ev]) b"
  using assms(1)
proof (cases rule: actor_step.cases)
  case (enqueue i ok)
  then show ?thesis
    by (intro drain_inv_mono [OF assms(2), of _ "if ok then [Some i] else []"])
      (auto simp: event_snoc submit_enqueue_eq actor_put_def split: prod.splits if_splits)
next
  case (sentinel ok)
  then show ?thesis
    by (intro drain_inv_mono [OF assms(2), of _ "if ok then [None] else []"])
      (auto simp: event_snoc close_sentinel_def actor_put_def split: prod.splits if_splits)
next
  case take
  then obtain x xs where q: "wa_queue a = x # xs" by (cases "wa_queue a") auto
  with take assms(2) show ?thesis
    by (cases x) (auto simp: drain_inv_def event_snoc writer_take_def actor_get_def in_hand_def)
next
  case (execute i)
  with assms(2) show ?thesis
    by (auto simp: drain_inv_def event_snoc writer_execute_def in_hand_def split: prod.splits if_splits)
qed (auto simp: event_snoc submit_check_def close_flag_def intro!: drain_inv_mono [OF assms(2), of _ "[]"])

lemma drain_inv_run:
  assumes "actor_run work a evs b" and "drain_inv due evs0 a" shows "drain_inv due (evs0 @ evs) b"
  using assms
  by (induction rule: actor_run.induct) (auto simp: append_assoc [symmetric] simp del: append_assoc dest: drain_inv_step)

lemma executed_of_append: "executed_of (xs @ ys) = executed_of xs @ executed_of ys"
  by (induction ys rule: rev_induct) (simp_all add: executed_of_def List.map_filter_def)

text \<open>
  Once the sentinel is queued, the thread stops only after it has done exactly the work accepted
  before the sentinel. Work accepted afterwards, by a caller that had tested the closed flag
  before it was set, is never done, and its caller waits until it gives up.
\<close>

theorem actor_close_drains:
  assumes "actor_new s0 queue_size n = Inr a" and "actor_run work a evs1 b"
    and "actor_step work b Sentinel c" and "actor_run work c evs2 d" and "\<not> wa_alive d"
  shows "executed_of evs1 @ executed_of evs2 = accepted_of evs1"
proof -
  obtain a1 where s: "wa_closing b" "actor_put b None = (a1, True)" "c = a1\<lparr>wa_closing := False\<rparr>"
    using assms(3) by (cases rule: actor_step.cases) (auto simp: close_sentinel_def split: prod.splits if_splits)
  have "None \<notin> set (wa_queue b)" "wa_alive b"
    using closing_inv_run [OF assms(2,1)] s(1) by (auto simp: closing_inv_def)
  moreover have "accepted_of evs1 = executed_of evs1 @ in_hand b @ queued (wa_queue b)"
    using actor_run_inv [OF assms(2,1)] by (simp add: serial_inv_def)
  moreover have "takeWhile (\<lambda>x. x \<noteq> None) (wa_queue b) = wa_queue b"
    unfolding takeWhile_eq_all_conv using \<open>None \<notin> set (wa_queue b)\<close> by (intro ballI notI) simp
  moreover have "wa_queue c = wa_queue b @ [None]" "wa_busy c = wa_busy b" "wa_alive c = wa_alive b"
    using s(2,3) by (auto simp: actor_put_def split: if_splits)
  ultimately have "drain_inv (accepted_of evs1) evs1 c"
    by (simp add: drain_inv_def in_hand_def del: not_None_eq)
  from drain_inv_run [OF assms(4) this] assms(5) show ?thesis
    by (simp add: drain_inv_def executed_of_append)
qed

text \<open>
  When the queue stays full, closing gives up without a sentinel; the log says that the thread is
  cut, but from then on no step ever stops it.
\<close>

lemma actor_close_full_alive:
  assumes "actor_run work a evs b" and "wa_closed a" and "\<not> wa_closing a" and "wa_alive a"
    and "None \<notin> set (wa_queue a)"
  shows "wa_alive b"
proof -
  have "wa_closed b \<and> \<not> wa_closing b \<and> wa_alive b \<and> None \<notin> set (wa_queue b)"
    using assms
  proof (induction rule: actor_run.induct)
    case (step a evs b ev c)
    from step.hyps(2) step.IH [OF step.prems] show ?case
      by (cases rule: actor_step.cases)
        (auto simp: submit_check_def submit_enqueue_eq writer_take_def writer_execute_def
          close_flag_def actor_put_def actor_get_def
          split: prod.splits if_splits list.splits option.splits)
  qed simp
  then show ?thesis by simp
qed

subsection \<open>A run\<close>

text \<open>
  Two callers; the second tests the flag before closing sets it and enqueues after the sentinel.
\<close>

definition demo_work :: "nat \<Rightarrow> nat list \<Rightarrow> nat list \<times> nat" where
  "demo_work i s = (s @ [i], length s)"

definition demo_actor :: "nat option list \<Rightarrow> bool \<Rightarrow> bool \<Rightarrow> bool \<Rightarrow> nat option \<Rightarrow> nat list \<Rightarrow> (nat \<rightharpoonup> nat) \<Rightarrow>
    nat caller list \<Rightarrow> (nat list, nat) actor" where
  "demo_actor q closed closing alive busy s fut cs =
     \<lparr>wa_queue = q, wa_size = 4, wa_closed = closed, wa_closing = closing, wa_alive = alive,
      wa_busy = busy, wa_store = s, wa_futures = fut, wa_callers = cs\<rparr>"

lemmas demo_simps = demo_actor_def demo_work_def caller_is_def set_caller_def submit_check_def
  submit_enqueue_def actor_put_def actor_get_def writer_take_def writer_execute_def close_flag_def
  close_sentinel_def

lemma actor_stepI:
  "caller_is a i NotCalled \<Longrightarrow> b = submit_check i a \<Longrightarrow> actor_step work a Internal b"
  "caller_is a i Checked \<Longrightarrow> submit_enqueue i a = (b, True) \<Longrightarrow> actor_step work a (Accepted i) b"
  "wa_alive a \<Longrightarrow> wa_busy a = None \<Longrightarrow> wa_queue a \<noteq> [] \<Longrightarrow> b = writer_take a \<Longrightarrow>
     actor_step work a Internal b"
  "wa_busy a = Some i \<Longrightarrow> b = writer_execute work i a \<Longrightarrow> actor_step work a (Executed i) b"
  "b = close_flag a \<Longrightarrow> actor_step work a Internal b"
  "wa_closing a \<Longrightarrow> close_sentinel a = (b, True) \<Longrightarrow> actor_step work a Sentinel b"
  "caller_is a i Waiting \<Longrightarrow> wa_futures a i = Some r \<Longrightarrow> b = set_caller i (Got r) a \<Longrightarrow>
     actor_step work a Internal b"
  using actor_step.intros(2) [where ok = True] actor_step.sentinel [where ok = True]
  by (auto intro: actor_step.intros(1,3-7))

lemma demo_run_before:
  "actor_run demo_work (demo_actor [] False False True None [] Map.empty [NotCalled, NotCalled])
     [Internal, Accepted 0, Internal, Internal]
     (demo_actor [Some 0] True True True None [] Map.empty [Waiting, Checked])"
proof -
  let ?w = demo_work
  let ?a = "\<lambda>q c cs. demo_actor q c c True None [] Map.empty cs"
  have "actor_step ?w (?a [] False [NotCalled, NotCalled]) Internal (?a [] False [Checked, NotCalled])"
    by (rule actor_stepI(1) [of _ 0]) (simp_all add: demo_simps)
  moreover have "actor_step ?w (?a [] False [Checked, NotCalled]) (Accepted 0) (?a [Some 0] False [Waiting, NotCalled])"
    by (rule actor_stepI(2)) (simp_all add: demo_simps)
  moreover have "actor_step ?w (?a [Some 0] False [Waiting, NotCalled]) Internal (?a [Some 0] False [Waiting, Checked])"
    by (rule actor_stepI(1) [of _ 1]) (simp_all add: demo_simps)
  moreover have "actor_step ?w (?a [Some 0] False [Waiting, Checked]) Internal (?a [Some 0] True [Waiting, Checked])"
    by (rule actor_stepI(5)) (simp add: demo_simps)
  ultimately show ?thesis
    using actor_run.step [OF actor_run.step [OF actor_run.step [OF actor_run.step [OF actor_run.stop]]]]
    by (metis append.simps(1,2))
qed

lemma demo_run_after:
  "actor_run demo_work (demo_actor [Some 0, None] True False True None [] Map.empty [Waiting, Checked])
     [Accepted 1, Internal, Executed 0, Internal, Internal]
     (demo_actor [Some 1] True False False None [0] [0 \<mapsto> 0] [Got 0, Waiting])"
proof -
  let ?w = demo_work
  let ?a = "\<lambda>q b s f al cs. demo_actor q True False al b s f cs"
  have "actor_step ?w (?a [Some 0, None] None [] Map.empty True [Waiting, Checked]) (Accepted 1)
      (?a [Some 0, None, Some 1] None [] Map.empty True [Waiting, Waiting])"
    by (rule actor_stepI(2)) (simp_all add: demo_simps)
  moreover have "actor_step ?w (?a [Some 0, None, Some 1] None [] Map.empty True [Waiting, Waiting]) Internal
      (?a [None, Some 1] (Some 0) [] Map.empty True [Waiting, Waiting])"
    by (rule actor_stepI(3)) (simp_all add: demo_simps)
  moreover have "actor_step ?w (?a [None, Some 1] (Some 0) [] Map.empty True [Waiting, Waiting]) (Executed 0)
      (?a [None, Some 1] None [0] [0 \<mapsto> 0] True [Waiting, Waiting])"
    by (rule actor_stepI(4)) (simp_all add: demo_simps)
  moreover have "actor_step ?w (?a [None, Some 1] None [0] [0 \<mapsto> 0] True [Waiting, Waiting]) Internal
      (?a [None, Some 1] None [0] [0 \<mapsto> 0] True [Got 0, Waiting])"
    by (rule actor_stepI(7) [of _ 0 0]) (simp_all add: demo_simps)
  moreover have "actor_step ?w (?a [None, Some 1] None [0] [0 \<mapsto> 0] True [Got 0, Waiting]) Internal
      (?a [Some 1] None [0] [0 \<mapsto> 0] False [Got 0, Waiting])"
    by (rule actor_stepI(3)) (simp_all add: demo_simps)
  ultimately show ?thesis
    using actor_run.step [OF actor_run.step [OF actor_run.step [OF actor_run.step [OF actor_run.step [OF actor_run.stop]]]]]
    by (metis append.simps(1,2))
qed

lemma demo_sentinel:
  "actor_step demo_work (demo_actor [Some 0] True True True None [] Map.empty [Waiting, Checked]) Sentinel
     (demo_actor [Some 0, None] True False True None [] Map.empty [Waiting, Checked])"
  by (rule actor_stepI(6)) (simp_all add: demo_simps)

lemma demo_new:
  "actor_new [] 4 2 = Inr (demo_actor [] False False True None [] Map.empty [NotCalled, NotCalled])"
  by (simp add: actor_new_def demo_actor_def numeral_2_eq_2)

theorem actor_serial_witness:
  "wa_store (demo_actor [Some 0] True True True None [] Map.empty [Waiting, Checked]) = run_serially demo_work [] [] \<and>
   distinct (accepted_of [Internal, Accepted 0, Internal, Internal])"
  using actor_serial [OF demo_new demo_run_before] by (simp add: executed_of_def List.map_filter_simps)

theorem actor_close_drains_witness:
  "executed_of [Accepted 1, Internal, Executed 0, Internal, Internal] = [0] \<and>
   accepted_of [Accepted 1, Internal, Executed 0, Internal, Internal] = [1]"
  using actor_close_drains [OF demo_new demo_run_before demo_sentinel demo_run_after]
  by (simp add: executed_of_def accepted_of_def List.map_filter_simps demo_actor_def)

end
