(* ===== verification/WriteBatcher.thy ===== *)
theory WriteBatcher
  imports PyText
begin

text \<open>
  The write batcher (memory_rag/write_actor.py): inserts into one collection are gathered and sent
  to the store as one. Each operation runs under the lock, so a history is a sequence of them. The
  store, of type \<open>Any\<close> in the code, is a parameter nothing is assumed about; rows that do not have one
  width make \<open>np.vstack\<close> raise.
\<close>

subsection \<open>State and operations\<close>

text \<open>A request has at least one row; no texts are the empty list.\<close>

record ('v, 'm) request =
  rq_rows :: "'v list list"
  rq_meta :: "'m list"
  rq_texts :: "string list"
  rq_future :: nat

record ('s, 'v, 'm, 'e) batcher =
  wb_store :: 's
  wb_max_batch :: int
  wb_pending :: "(string \<times> ('v, 'm) request list) list"
  wb_futures :: "(nat \<times> ('e + string list)) list"

datatype batch_error = BadMaxBatch int | ShapeMismatch

type_synonym ('s, 'v, 'm, 'e) inserter =
  "'s \<Rightarrow> string \<Rightarrow> 'v list list \<Rightarrow> 'm list \<Rightarrow> string list \<Rightarrow> 's \<times> ('e + string list)"

definition batcher_new :: "'s \<Rightarrow> int \<Rightarrow> batch_error + ('s, 'v, 'm, 'e) batcher" where
  "batcher_new store max_batch =
     (if max_batch < 2 then Inl (BadMaxBatch max_batch)
      else Inr \<lparr>wb_store = store, wb_max_batch = max_batch, wb_pending = [], wb_futures = []\<rparr>)"

definition batcher_pending :: "('s, 'v, 'm, 'e) batcher \<Rightarrow> nat" where
  "batcher_pending b = sum_list (map length (dict_values (wb_pending b)))"

text \<open>The texts of one request, padded to its rows once any request of the batch has texts.\<close>

definition row_texts :: "bool \<Rightarrow> ('v, 'm) request \<Rightarrow> string list" where
  "row_texts has_texts r =
     (if has_texts then map (\<lambda>i. if i < length (rq_texts r) then rq_texts r ! i else []) [0..<length (rq_meta r)]
      else [])"

definition has_texts :: "('v, 'm) request list \<Rightarrow> bool" where
  "has_texts batch \<longleftrightarrow> list_ex (\<lambda>r. rq_texts r \<noteq> []) batch"

definition same_width :: "'v list list \<Rightarrow> bool" where
  "same_width rows \<longleftrightarrow> list_all (\<lambda>row. length row = length (hd rows)) rows"

definition combine_batch ::
  "('v, 'm) request list \<Rightarrow> ('v list list \<times> nat list \<times> 'm list \<times> string list) option" where
  "combine_batch batch =
     (let rows = concat (map rq_rows batch)
      in if same_width rows
         then Some (rows, map (\<lambda>r. length (rq_rows r)) batch, concat (map rq_meta batch),
                    concat (map (row_texts (has_texts batch)) batch))
         else None)"

text \<open>The ids are dealt out by offset.\<close>

fun distribute ::
  "nat \<Rightarrow> ('v, 'm) request list \<Rightarrow> nat list \<Rightarrow> string list \<Rightarrow> (nat \<times> ('e + string list)) list \<Rightarrow>
     (nat \<times> ('e + string list)) list" where
  "distribute offset (r # rs) (c # cs) ids futures =
     distribute (offset + c) rs cs ids (AList.update (rq_future r) (Inr (take c (drop offset ids))) futures)"
| "distribute offset _ _ ids futures = futures"

fun fail_all :: "'e \<Rightarrow> ('v, 'm) request list \<Rightarrow> (nat \<times> ('e + string list)) list \<Rightarrow> (nat \<times> ('e + string list)) list" where
  "fail_all e [] futures = futures"
| "fail_all e (r # rs) futures = fail_all e rs (AList.update (rq_future r) (Inl e) futures)"

definition flush_locked ::
  "('s, 'v, 'm, 'e) inserter \<Rightarrow> string \<Rightarrow> ('s, 'v, 'm, 'e) batcher \<Rightarrow>
     ('s, 'v, 'm, 'e) batcher \<times> (batch_error + nat)" where
  "flush_locked insert_rows coll b =
     (let batch = dict_get (wb_pending b) coll []; b1 = b\<lparr>wb_pending := AList.delete coll (wb_pending b)\<rparr>
      in if batch = [] then (b1, Inr 0)
         else case combine_batch batch of
           None \<Rightarrow> (b1, Inl ShapeMismatch)
         | Some (rows, counts, meta, texts) \<Rightarrow>
             (case insert_rows (wb_store b) coll rows meta texts of
                (store, Inl e) \<Rightarrow>
                  (b1\<lparr>wb_store := store, wb_futures := fail_all e batch (wb_futures b)\<rparr>, Inr 0)
              | (store, Inr ids) \<Rightarrow>
                  (b1\<lparr>wb_store := store, wb_futures := distribute 0 batch counts ids (wb_futures b)\<rparr>,
                   Inr (length batch))))"

definition batcher_add ::
  "('s, 'v, 'm, 'e) inserter \<Rightarrow> string \<Rightarrow> ('v, 'm) request \<Rightarrow> ('s, 'v, 'm, 'e) batcher \<Rightarrow>
     ('s, 'v, 'm, 'e) batcher \<times> (batch_error + nat)" where
  "batcher_add insert_rows coll r b =
     (let bucket = dict_get (wb_pending b) coll [] @ [r];
          b1 = b\<lparr>wb_pending := AList.update coll bucket (wb_pending b)\<rparr>
      in if wb_max_batch b \<le> int (length bucket) then flush_locked insert_rows coll b1 else (b1, Inr 0))"

text \<open>After \<open>max_delay\<close>: force the flush unless the future is done by then.\<close>

definition wait_or_flush ::
  "('s, 'v, 'm, 'e) inserter \<Rightarrow> nat \<Rightarrow> string \<Rightarrow> ('s, 'v, 'm, 'e) batcher \<Rightarrow>
     ('s, 'v, 'm, 'e) batcher \<times> (batch_error + nat)" where
  "wait_or_flush insert_rows future coll b =
     (if map_of (wb_futures b) future \<noteq> None then (b, Inr 0) else flush_locked insert_rows coll b)"

fun flush_colls ::
  "('s, 'v, 'm, 'e) inserter \<Rightarrow> string list \<Rightarrow> nat \<Rightarrow> ('s, 'v, 'm, 'e) batcher \<Rightarrow>
     ('s, 'v, 'm, 'e) batcher \<times> (batch_error + nat)" where
  "flush_colls insert_rows [] n b = (b, Inr n)"
| "flush_colls insert_rows (c # cs) n b =
     (case flush_locked insert_rows c b of
        (b1, Inl e) \<Rightarrow> (b1, Inl e)
      | (b1, Inr k) \<Rightarrow> flush_colls insert_rows cs (n + k) b1)"

definition batcher_flush ::
  "('s, 'v, 'm, 'e) inserter \<Rightarrow> ('s, 'v, 'm, 'e) batcher \<Rightarrow>
     ('s, 'v, 'm, 'e) batcher \<times> (batch_error + nat)" where
  "batcher_flush insert_rows b = flush_colls insert_rows (map fst (wb_pending b)) 0 b"

subsection \<open>What a flush answers\<close>

lemma distribute_other:
  "f \<notin> rq_future ` set rs \<Longrightarrow> map_of (distribute k rs cs ids fs) f = map_of fs f"
  by (induction k rs cs ids fs rule: distribute.induct) auto

lemma distribute_nth:
  assumes "distinct (map rq_future rs)" and "k < length rs"
  shows "map_of (distribute offset rs (map (\<lambda>r. length (rq_rows r)) rs) ids fs) (rq_future (rs ! k)) =
    Some (Inr (take (length (rq_rows (rs ! k))) (drop (offset + length (concat (map rq_rows (take k rs)))) ids)))"
  using assms
proof (induction rs arbitrary: offset fs k)
  case (Cons r rs)
  show ?case
  proof (cases k)
    case 0
    have "rq_future r \<notin> rq_future ` set rs" using Cons.prems(1) by simp
    then show ?thesis by (simp add: 0 distribute_other)
  next
    case (Suc j)
    with Cons show ?thesis by (simp add: add.assoc)
  qed
qed simp

lemma fail_all_lookup: "map_of (fail_all e rs fs) f = (if f \<in> rq_future ` set rs then Some (Inl e) else map_of fs f)"
  by (induction rs arbitrary: fs) auto

text \<open>
  C14: Flushing a collection, whatever the store does: a batch whose rows have one width takes exactly one
  call of the store, with all rows and metadata in order and the texts padded to the rows as soon as one
  request has some. The batch is taken out of the pending requests. When the store answers with ids, every
  request gets the ids at the positions of its own rows; when it raises, every request of the batch gets the
  exception; other requests are not touched. When the rows have several widths the call raises, and no
  request of the batch is ever answered.
\<close>

theorem flush_answers_exact:
  assumes "dict_get (wb_pending b) coll [] = batch" and "batch \<noteq> []" and "distinct (map rq_future batch)"
    and "insert_rows (wb_store b) coll (concat (map rq_rows batch)) (concat (map rq_meta batch))
           (concat (map (row_texts (has_texts batch)) batch)) = (store, res)"
  shows "case flush_locked insert_rows coll b of (b1, r) \<Rightarrow>
    wb_pending b1 = AList.delete coll (wb_pending b) \<and> wb_max_batch b1 = wb_max_batch b \<and>
    (\<forall>f. if f \<in> rq_future ` set batch then True else map_of (wb_futures b1) f = map_of (wb_futures b) f) \<and>
    (if same_width (concat (map rq_rows batch)) then
       r = Inr (case res of Inl e \<Rightarrow> 0 | Inr ids \<Rightarrow> length batch) \<and> wb_store b1 = store \<and>
       list_all (\<lambda>k. map_of (wb_futures b1) (rq_future (batch ! k)) = Some (case res of
           Inl e \<Rightarrow> Inl e
         | Inr ids \<Rightarrow> Inr (take (length (rq_rows (batch ! k)))
             (drop (length (concat (map rq_rows (take k batch)))) ids)))) [0..<length batch]
     else r = Inl ShapeMismatch \<and> wb_store b1 = wb_store b \<and> wb_futures b1 = wb_futures b)"
proof (cases "same_width (concat (map rq_rows batch))")
  case False
  then show ?thesis using assms(1,2) by (simp add: flush_locked_def combine_batch_def Let_def)
next
  case True
  show ?thesis
  proof (cases res)
    case (Inl e)
    then show ?thesis
      using assms True by (simp add: flush_locked_def combine_batch_def Let_def fail_all_lookup list_all_iff)
  next
    case (Inr ids)
    then have run: "flush_locked insert_rows coll b =
        (b\<lparr>wb_pending := AList.delete coll (wb_pending b), wb_store := store,
           wb_futures := distribute 0 batch (map (\<lambda>r. length (rq_rows r)) batch) ids (wb_futures b)\<rparr>, Inr (length batch))"
      using assms True by (simp add: flush_locked_def combine_batch_def Let_def)
    with True Inr show ?thesis
      by (simp add: run list_all_iff distribute_nth [OF assms(3)] distribute_other)
  qed
qed

definition demo_insert :: "nat \<Rightarrow> string \<Rightarrow> nat list list \<Rightarrow> nat list \<Rightarrow> string list \<Rightarrow> nat \<times> string list" where
  "demo_insert s c rows meta texts = (s + length rows, map (\<lambda>i. str_of_nat (s + i)) [0..<length rows])"

theorem flush_answers_exact_witness:
  "let r1 = \<lparr>rq_rows = [[1, 2], [3, 4 :: nat]], rq_meta = [7, 8 :: nat], rq_texts = [], rq_future = 0\<rparr>;
       r2 = \<lparr>rq_rows = [[5, 6]], rq_meta = [9], rq_texts = [''x''], rq_future = 1\<rparr>;
       b = \<lparr>wb_store = 4, wb_max_batch = 3, wb_pending = [(''c'', [r1, r2])], wb_futures = [] :: (nat \<times> (unit + string list)) list\<rparr>;
       b1 = fst (flush_locked (\<lambda>s c r m t. let (s1, ids) = demo_insert s c r m t in (s1, Inr ids)) ''c'' b)
   in map_of (wb_futures b1) 0 = Some (Inr [str_of_nat 4, str_of_nat 5]) \<and>
      map_of (wb_futures b1) 1 = Some (Inr [str_of_nat 6])"
proof -
  let ?r1 = "\<lparr>rq_rows = [[1, 2], [3, 4 :: nat]], rq_meta = [7, 8 :: nat], rq_texts = [], rq_future = 0\<rparr>"
  let ?r2 = "\<lparr>rq_rows = [[5, 6]], rq_meta = [9 :: nat], rq_texts = [''x''], rq_future = 1\<rparr>"
  let ?b = "\<lparr>wb_store = 4, wb_max_batch = 3, wb_pending = [(''c'', [?r1, ?r2])],
             wb_futures = [] :: (nat \<times> (unit + string list)) list\<rparr>"
  have "dict_get (wb_pending ?b) ''c'' [] = [?r1, ?r2]" by (simp add: dict_get_def)
  from flush_answers_exact [OF this, where insert_rows = "\<lambda>s c r m t. let (s1, ids) = demo_insert s c r m t in (s1, Inr ids)"]
  show ?thesis by (auto simp: same_width_def Let_def demo_insert_def upt_rec split_beta)
qed

subsection \<open>No request is lost\<close>

lemma distribute_dom:
  "length cs = length rs \<Longrightarrow> dom (map_of (distribute k rs cs ids f)) = dom (map_of f) \<union> rq_future ` set rs"
proof (induction rs arbitrary: k cs f)
  case (Cons r rs)
  then obtain c cs1 where cs: "cs = c # cs1" by (cases cs) auto
  have "dom (map_of (AList.update (rq_future r) (Inr (take c (drop k ids))) f)) = insert (rq_future r) (dom (map_of f))"
    by (simp only: map_of_dict_update dom_fun_upd) simp
  with Cons.IH [of cs1 "k + c"] Cons.prems cs show ?case by auto
qed simp

lemma fail_all_dom: "dom (map_of (fail_all e rs f)) = dom (map_of f) \<union> rq_future ` set rs"
  by (induction rs arbitrary: f) auto

lemma flush_locked_effect:
  assumes "same_width (concat (map rq_rows (dict_get (wb_pending b) coll [])))"
  shows "\<exists>n. snd (flush_locked ins coll b) = Inr n"
    and "wb_pending (fst (flush_locked ins coll b)) = AList.delete coll (wb_pending b)"
    and "wb_max_batch (fst (flush_locked ins coll b)) = wb_max_batch b"
    and "dom (map_of (wb_futures (fst (flush_locked ins coll b)))) =
         dom (map_of (wb_futures b)) \<union> rq_future ` set (dict_get (wb_pending b) coll [])"
  using assms
  by (auto simp: flush_locked_def combine_batch_def Let_def distribute_dom fail_all_dom
      split: prod.splits sum.splits if_splits)

text \<open>
  Rows of one width per collection. Then every request is in exactly one place: waiting in the
  bucket of its collection or answered.
\<close>

definition batch_inv :: "(string \<Rightarrow> nat) \<Rightarrow> (string \<times> ('v, 'm) request) list \<Rightarrow> ('s, 'v, 'm, 'e) batcher \<Rightarrow> bool" where
  "batch_inv width added b \<longleftrightarrow>
     2 \<le> wb_max_batch b \<and> wf_dict (wb_pending b) \<and>
     dom (map_of (wb_futures b)) \<subseteq> rq_future ` snd ` set added \<and>
     distinct (map (\<lambda>p. rq_future (snd p)) added) \<and>
     (\<forall>c r. (c, r) \<in> set added \<longrightarrow> list_all (\<lambda>row. length row = width c) (rq_rows r)) \<and>
     (\<forall>c bucket. (c, bucket) \<in> set (wb_pending b) \<longrightarrow> bucket \<noteq> [] \<and> int (length bucket) < wb_max_batch b) \<and>
     (\<forall>c r. r \<in> set (dict_get (wb_pending b) c []) \<longrightarrow> (c, r) \<in> set added \<and> map_of (wb_futures b) (rq_future r) = None) \<and>
     (\<forall>c r. (c, r) \<in> set added \<longrightarrow> r \<in> set (dict_get (wb_pending b) c []) \<or> map_of (wb_futures b) (rq_future r) \<noteq> None)"

lemma same_widthI: "list_all (\<lambda>row. length row = w) rows \<Longrightarrow> same_width rows"
  by (cases rows) (auto simp: same_width_def list_all_iff)

lemma batch_inv_width:
  assumes "batch_inv width added b"
  shows "same_width (concat (map rq_rows (dict_get (wb_pending b) c [])))"
  by (rule same_widthI [of "width c"]) (use assms in \<open>force simp: batch_inv_def list_all_iff\<close>)

lemma batch_inv_flush:
  assumes inv: "batch_inv width added b"
  shows "batch_inv width added (fst (flush_locked ins coll b)) \<and> (\<exists>n. snd (flush_locked ins coll b) = Inr n)"
proof -
  let ?b = "fst (flush_locked ins coll b)"
  note eff = flush_locked_effect [OF batch_inv_width [OF inv, of coll], of ins]
  have get: "dict_get (wb_pending ?b) c [] = (if c = coll then [] else dict_get (wb_pending b) c [])" for c
    by (simp add: eff(2))
  have fut: "map_of (wb_futures ?b) f = None \<longleftrightarrow> map_of (wb_futures b) f = None \<and> f \<notin> rq_future ` set (dict_get (wb_pending b) coll [])" for f
    using eff(4) by (metis UnE UnI1 UnI2 domIff)
  have uniq: "p = q" if "p \<in> set added" "q \<in> set added" "rq_future (snd p) = rq_future (snd q)" for p q
    using inv that unfolding batch_inv_def distinct_map by (metis inj_onD)
  have other: "rq_future r \<notin> rq_future ` set (dict_get (wb_pending b) coll [])"
    if "r \<in> set (dict_get (wb_pending b) c [])" "c \<noteq> coll" for c r
  proof
    assume "rq_future r \<in> rq_future ` set (dict_get (wb_pending b) coll [])"
    then obtain q where q: "q \<in> set (dict_get (wb_pending b) coll [])" "rq_future r = rq_future q" by auto
    have "(c, r) \<in> set added" "(coll, q) \<in> set added" using inv that(1) q(1) unfolding batch_inv_def by blast+
    from uniq [OF this] q(2) that(2) show False by simp
  qed
  have "(c, bucket) \<in> set (wb_pending ?b) \<Longrightarrow> (c, bucket) \<in> set (wb_pending b)" for c bucket
    by (auto simp: eff(2) dict_delete_filter)
  moreover have "dom (map_of (wb_futures ?b)) \<subseteq> rq_future ` snd ` set added"
  proof -
    have "rq_future r \<in> rq_future ` snd ` set added" if "r \<in> set (dict_get (wb_pending b) coll [])" for r
    proof -
      have "(coll, r) \<in> set added" using inv that unfolding batch_inv_def by blast
      then have "snd (coll, r) \<in> snd ` set added" by (rule imageI)
      then show ?thesis by simp
    qed
    moreover have "dom (map_of (wb_futures b)) \<subseteq> rq_future ` snd ` set added"
      using inv unfolding batch_inv_def by blast
    ultimately show ?thesis unfolding eff(4) by blast
  qed
  moreover have "(c, r) \<in> set added \<and> map_of (wb_futures ?b) (rq_future r) = None"
    if "r \<in> set (dict_get (wb_pending ?b) c [])" for c r
  proof -
    have old: "c \<noteq> coll" "r \<in> set (dict_get (wb_pending b) c [])"
      using that get [of c] by (auto split: if_splits)
    with inv have "(c, r) \<in> set added" "map_of (wb_futures b) (rq_future r) = None"
      unfolding batch_inv_def by blast+
    with other [OF old(2,1)] show ?thesis unfolding fut by blast
  qed
  moreover have "r \<in> set (dict_get (wb_pending ?b) c []) \<or> map_of (wb_futures ?b) (rq_future r) \<noteq> None"
    if "(c, r) \<in> set added" for c r
  proof (cases "map_of (wb_futures b) (rq_future r) = None")
    case True
    with inv that have r: "r \<in> set (dict_get (wb_pending b) c [])" unfolding batch_inv_def by blast
    show ?thesis
    proof (cases "c = coll")
      case True
      with r have "rq_future r \<in> rq_future ` set (dict_get (wb_pending b) coll [])" by simp
      then show ?thesis unfolding fut by blast
    next
      case False
      with r show ?thesis by (simp add: get)
    qed
  next
    case False
    then show ?thesis unfolding fut by blast
  qed
  moreover have "wf_dict (wb_pending ?b)" "wb_max_batch ?b = wb_max_batch b"
  proof -
    have "wf_dict (wb_pending b)" using inv unfolding batch_inv_def by blast
    then show "wf_dict (wb_pending ?b)" "wb_max_batch ?b = wb_max_batch b"
      by (simp_all only: eff(2,3) wf_dict_delete)
  qed
  moreover have "(c, bucket) \<in> set (wb_pending b) \<Longrightarrow> bucket \<noteq> [] \<and> int (length bucket) < wb_max_batch b"
    for c bucket using inv unfolding batch_inv_def by blast
  moreover have "2 \<le> wb_max_batch b" "distinct (map (\<lambda>p. rq_future (snd p)) added)"
    "\<forall>c r. (c, r) \<in> set added \<longrightarrow> list_all (\<lambda>row. length row = width c) (rq_rows r)"
    using inv unfolding batch_inv_def by blast+
  ultimately have "batch_inv width added ?b"
    unfolding batch_inv_def by (intro conjI allI impI; simp only:) blast+
  then show ?thesis using eff(1) by blast
qed

datatype ('v, 'm) batch_op = Submit string "('v, 'm) request" | Force nat string | FlushAll

text \<open>A history of calls, with the requests submitted and whether every call returned.\<close>

fun batch_run ::
  "('s, 'v, 'm, 'e) inserter \<Rightarrow> ('v, 'm) batch_op list \<Rightarrow> ('s, 'v, 'm, 'e) batcher \<Rightarrow>
     ('s, 'v, 'm, 'e) batcher \<times> bool" where
  "batch_run ins [] b = (b, True)"
| "batch_run ins (x # xs) b =
     (let (b1, r) = (case x of Submit c q \<Rightarrow> batcher_add ins c q b
                      | Force f c \<Rightarrow> wait_or_flush ins f c b
                      | FlushAll \<Rightarrow> batcher_flush ins b);
          (b2, ok) = batch_run ins xs b1
      in (b2, (\<exists>n. r = Inr n) \<and> ok))"

definition submitted :: "('v, 'm) batch_op list \<Rightarrow> (string \<times> ('v, 'm) request) list" where
  "submitted ops = List.map_filter (\<lambda>x. case x of Submit c q \<Rightarrow> Some (c, q) | _ \<Rightarrow> None) ops"

lemma batch_inv_flush_colls:
  "batch_inv width added b \<Longrightarrow>
     batch_inv width added (fst (flush_colls ins cs n b)) \<and> (\<exists>m. snd (flush_colls ins cs n b) = Inr m)"
proof (induction cs arbitrary: b n)
  case (Cons c cs)
  obtain b1 k where f: "flush_locked ins c b = (b1, Inr k)" and i: "batch_inv width added b1"
    using batch_inv_flush [OF Cons.prems, of ins c] by (metis prod.collapse)
  from Cons.IH [OF i, of "n + k"] show ?case by (simp add: f)
qed simp

lemma batch_inv_add:
  assumes inv: "batch_inv width added b"
    and fresh: "rq_future r \<notin> rq_future ` snd ` set added"
    and w: "list_all (\<lambda>row. length row = width coll) (rq_rows r)"
  shows "batch_inv width (added @ [(coll, r)]) (fst (batcher_add ins coll r b)) \<and>
         (\<exists>n. snd (batcher_add ins coll r b) = Inr n)"
proof -
  have new: "rq_future r \<notin> rq_future ` snd ` set added" "map_of (wb_futures b) (rq_future r) = None"
    using inv fresh unfolding batch_inv_def by blast+
  let ?bucket = "dict_get (wb_pending b) coll [] @ [r]"
  let ?b = "b\<lparr>wb_pending := AList.update coll ?bucket (wb_pending b)\<rparr>"
  let ?big = "b\<lparr>wb_pending := AList.update coll ?bucket (wb_pending b), wb_max_batch := int (length ?bucket) + 1 + wb_max_batch b\<rparr>"
  have base: "batch_inv width (added @ [(coll, r)]) (?b\<lparr>wb_max_batch := m\<rparr>)"
    if "2 \<le> m" "wb_max_batch b \<le> m" "int (length ?bucket) < m" for m
  proof -
    have "(c, bucket) \<in> set (AList.update coll ?bucket (wb_pending b)) \<Longrightarrow>
        bucket \<noteq> [] \<and> int (length bucket) < m" for c bucket
    proof -
      assume "(c, bucket) \<in> set (AList.update coll ?bucket (wb_pending b))"
      moreover have "wf_dict (wb_pending b)" using inv by (simp add: batch_inv_def)
      ultimately have "c = coll \<and> bucket = ?bucket \<or> (c, bucket) \<in> set (wb_pending b)"
        using set_dict_update [of "wb_pending b" coll ?bucket] by auto
      moreover have "bucket \<noteq> [] \<and> int (length bucket) < wb_max_batch b" if "(c, bucket) \<in> set (wb_pending b)"
        using inv that by (simp add: batch_inv_def)
      ultimately show "bucket \<noteq> [] \<and> int (length bucket) < m"
        using \<open>wb_max_batch b \<le> m\<close> \<open>int (length ?bucket) < m\<close> by fastforce
    qed
    with inv new w that show ?thesis
      unfolding batch_inv_def by (auto simp: image_iff)
  qed
  show ?thesis
  proof (cases "wb_max_batch b \<le> int (length ?bucket)")
    case False
    with base [of "wb_max_batch b"] inv show ?thesis
      by (simp add: batcher_add_def Let_def batch_inv_def)
  next
    case True
    define m where "m = int (length ?bucket) + 1"
    have inv_m: "batch_inv width (added @ [(coll, r)]) (?b\<lparr>wb_max_batch := m\<rparr>)"
      using base [of m] True inv by (simp add: m_def batch_inv_def)
    have same: "flush_locked ins coll (?b\<lparr>wb_max_batch := m\<rparr>) =
        (let (b1, res) = flush_locked ins coll ?b in (b1\<lparr>wb_max_batch := m\<rparr>, res))"
      by (auto simp: flush_locked_def Let_def split: option.splits prod.splits sum.splits)
    obtain b1 n where f: "flush_locked ins coll ?b = (b1, Inr n)"
      and i1: "batch_inv width (added @ [(coll, r)]) (b1\<lparr>wb_max_batch := m\<rparr>)"
      using batch_inv_flush [OF inv_m, of ins coll] same
      by (cases "flush_locked ins coll ?b") auto
    have sw: "same_width (concat (map rq_rows (dict_get (wb_pending ?b) coll [])))"
      using batch_inv_width [OF inv_m, of coll] by simp
    have p: "wb_pending b1 = AList.delete coll (wb_pending ?b)" "wb_max_batch b1 = wb_max_batch b"
      using flush_locked_effect(2,3) [OF sw, of ins] f by simp_all
    have "(c, bucket) \<in> set (wb_pending b1) \<Longrightarrow> bucket \<noteq> [] \<and> int (length bucket) < wb_max_batch b1" for c bucket
      using inv set_dict_update [of "wb_pending b" coll ?bucket] p
      by (auto simp: batch_inv_def dict_delete_filter)
    with i1 inv p(2) have "batch_inv width (added @ [(coll, r)]) b1"
      unfolding batch_inv_def by simp
    with True f show ?thesis by (simp add: batcher_add_def Let_def)
  qed
qed

lemma batch_run_inv:
  assumes "batch_inv width added b"
    and "distinct (map (\<lambda>p. rq_future (snd p)) (added @ submitted ops))"
    and "\<forall>c r. (c, r) \<in> set (submitted ops) \<longrightarrow> list_all (\<lambda>row. length row = width c) (rq_rows r)"
  shows "batch_inv width (added @ submitted ops) (fst (batch_run ins ops b)) \<and> snd (batch_run ins ops b)"
  using assms
proof (induction ops arbitrary: added b)
  case Nil
  then show ?case by (simp add: submitted_def List.map_filter_simps)
next
  case (Cons x xs)
  let ?new = "case x of Submit c q \<Rightarrow> [(c, q)] | _ \<Rightarrow> []"
  have sub: "submitted (x # xs) = ?new @ submitted xs"
    by (simp add: submitted_def List.map_filter_simps split: batch_op.split)
  obtain b1 n where step: "(case x of Submit c q \<Rightarrow> batcher_add ins c q b
        | Force f c \<Rightarrow> wait_or_flush ins f c b | FlushAll \<Rightarrow> batcher_flush ins b) = (b1, Inr n)"
    and i1: "batch_inv width (added @ ?new) b1"
  proof (cases x)
    case (Submit c q)
    have "rq_future q \<notin> rq_future ` snd ` set added"
      using Cons.prems(2) Submit sub by (auto simp: image_image)
    from batch_inv_add [OF Cons.prems(1) this, of c ins] Cons.prems(3) sub Submit
    show thesis using that [of "fst (batcher_add ins c q b)" "projr (snd (batcher_add ins c q b))"]
      by (auto simp: prod_eq_iff)
  next
    case (Force f c)
    with batch_inv_flush [OF Cons.prems(1), of ins c] Cons.prems(1) show thesis
      by (intro that [of "fst (wait_or_flush ins f c b)" "projr (snd (wait_or_flush ins f c b))"])
        (auto simp: wait_or_flush_def prod_eq_iff)
  next
    case FlushAll
    with batch_inv_flush_colls [OF Cons.prems(1), of ins "map fst (wb_pending b)" 0] show thesis
      using that [of "fst (batcher_flush ins b)" "projr (snd (batcher_flush ins b))"]
      by (auto simp: batcher_flush_def prod_eq_iff)
  qed
  from Cons.IH [OF i1] Cons.prems(2,3) sub step show ?case by (simp add: Let_def split_beta)
qed

lemma flush_locked_max: "wb_max_batch (fst (flush_locked ins c b)) = wb_max_batch b"
  by (simp add: flush_locked_def Let_def split: option.split prod.split sum.split)

lemma flush_colls_max: "wb_max_batch (fst (flush_colls ins cs n b)) = wb_max_batch b"
  by (induction cs arbitrary: n b)
    (auto split: prod.split sum.split simp: flush_locked_max dest: arg_cong [of _ _ "\<lambda>x. wb_max_batch (fst x)"])

lemma batch_run_max: "wb_max_batch (fst (batch_run ins ops b)) = wb_max_batch b"
  by (induction ops arbitrary: b)
    (simp_all add: Let_def split_beta batcher_add_def wait_or_flush_def batcher_flush_def
      flush_locked_max flush_colls_max split: batch_op.split)

text \<open>
  As long as the rows of a collection have one width, no call raises and no request is lost,
  whatever calls follow each other: at any time a request waits in the bucket of its collection
  or has its answer, never both, and no bucket is empty or has reached the size of a batch.
\<close>

theorem batcher_no_loss:
  assumes "batcher_new store max_batch = Inr b0"
    and "distinct (map (\<lambda>p. rq_future (snd p)) (submitted ops))"
    and "\<forall>c r. (c, r) \<in> set (submitted ops) \<longrightarrow> list_all (\<lambda>row. length row = width c) (rq_rows r)"
  shows "case batch_run ins ops b0 of (b, returned) \<Rightarrow>
           returned \<and>
           (\<forall>c r. (c, r) \<in> set (submitted ops) \<longrightarrow>
              (r \<in> set (dict_get (wb_pending b) c []) \<longleftrightarrow> map_of (wb_futures b) (rq_future r) = None)) \<and>
           (\<forall>c bucket. (c, bucket) \<in> set (wb_pending b) \<longrightarrow>
              0 < length bucket \<and> int (length bucket) < max_batch)"
proof -
  have b0: "b0 = \<lparr>wb_store = store, wb_max_batch = max_batch, wb_pending = [], wb_futures = []\<rparr>" "2 \<le> max_batch"
    using assms(1) by (auto simp: batcher_new_def split: if_splits)
  have "batch_inv width [] b0" by (simp add: b0 batch_inv_def dict_get_def)
  from batch_run_inv [OF this, of ops ins] assms(2,3)
  have "batch_inv width (submitted ops) (fst (batch_run ins ops b0))" "snd (batch_run ins ops b0)" by simp_all
  moreover have "wb_max_batch (fst (batch_run ins ops b0)) = max_batch"
    by (simp add: batch_run_max b0)
  ultimately show ?thesis unfolding batch_inv_def split_beta by (metis length_greater_0_conv)
qed

theorem batcher_no_loss_witness:
  "let r = (\<lambda>n f. \<lparr>rq_rows = [[n :: nat]], rq_meta = [n], rq_texts = [], rq_future = f\<rparr>);
       b = fst (batch_run (\<lambda>s c r m t. let (s1, ids) = demo_insert s c r m t in (s1, Inr ids :: unit + string list))
                  [Submit ''c'' (r 1 0), Submit ''d'' (r 2 1), Submit ''c'' (r 3 2)]
                  \<lparr>wb_store = 0, wb_max_batch = 2, wb_pending = [], wb_futures = []\<rparr>)
   in map_of (wb_futures b) 0 \<noteq> None \<and> map_of (wb_futures b) 1 = None"
proof -
  let ?r = "\<lambda>n f. \<lparr>rq_rows = [[n :: nat]], rq_meta = [n], rq_texts = [], rq_future = f\<rparr>"
  let ?ins = "\<lambda>s c r m t. let (s1, ids) = demo_insert s c r m t in (s1, Inr ids :: unit + string list)"
  let ?ops = "[Submit ''c'' (?r 1 0), Submit ''d'' (?r 2 1), Submit ''c'' (?r 3 2)]"
  let ?b0 = "\<lparr>wb_store = 0, wb_max_batch = 2, wb_pending = [], wb_futures = []\<rparr>"
  have new: "batcher_new 0 2 = Inr ?b0" by (simp add: batcher_new_def)
  have sub: "submitted ?ops = [(''c'', ?r 1 0), (''d'', ?r 2 1), (''c'', ?r 3 2)]"
    by (simp add: submitted_def List.map_filter_simps)
  have d: "distinct (map (\<lambda>p. rq_future (snd p)) (submitted ?ops))" unfolding sub by simp
  have w: "\<forall>c r. (c, r) \<in> set (submitted ?ops) \<longrightarrow> list_all (\<lambda>row. length row = (\<lambda>_. 1) c) (rq_rows r)"
    unfolding sub by auto
  have run: "wb_pending (fst (batch_run ?ins ?ops ?b0)) = [(''d'', [?r 2 1])]"
    by (simp add: batcher_add_def flush_locked_def combine_batch_def same_width_def dict_get_def Let_def
        demo_insert_def)
  show ?thesis
    using batcher_no_loss [OF new d w, of ?ins] run unfolding split_beta sub Let_def
    by (auto simp: dict_get_def)
qed

text \<open>
  When rows of two widths meet in a batch, the exception escapes to the caller that completed it:
  the batch is gone from the pending requests, and none of its futures ever gets an answer.
\<close>

theorem batch_lost_on_mixed_width:
  assumes "dict_get (wb_pending b) coll [] = batch" and "batch \<noteq> []"
    and "\<not> same_width (concat (map rq_rows batch))"
  shows "flush_locked ins coll b = (b\<lparr>wb_pending := AList.delete coll (wb_pending b)\<rparr>, Inl ShapeMismatch)"
  using assms by (simp add: flush_locked_def combine_batch_def Let_def)

end
