(* ===== verification/ShapleyFlow.thy ===== *)
theory ShapleyFlow
  imports Complex_Main PyText "HOL-Library.Multiset"
begin

text \<open>
  Token budgets by Shapley values (memory_rag/shapley_flow): the value of a set of sections, the
  exact and the sampled Shapley values, and the allocation by largest remainder. Scores are
  rationals; the exponential weight of a position, the rounded text scores, the shuffled orders
  and the elapsed times are parameters.
\<close>

subsection \<open>Sections and their value\<close>

record features =
  ft_name :: string
  ft_tokens :: nat
  ft_density :: rat
  ft_keywords :: rat

definition tech_keywords :: "string list" where
  "tech_keywords =
     [''implement'', ''function'', ''class'', ''def'', ''import'', ''algorithm'', ''api'', ''endpoint'',
      ''database'', ''query'', ''test'', ''async'', ''await'', ''error'', ''exception'', ''optimize'',
      ''refactor'', ''deploy'', ''config'']"

text \<open>The sections are a dict, listed as pairs; \<open>round(x, 4)\<close> is the parameter \<open>round4\<close>.\<close>

definition section_features :: "(rat \<Rightarrow> rat) \<Rightarrow> rat \<Rightarrow> string \<times> string \<Rightarrow> features" where
  "section_features round4 density sec =
     (let words = py_split (py_lower (snd sec));
          n = rat_of_nat (max (length words) 1);
          unique_ratio = rat_of_nat (card (set words)) / n;
          matches = rat_of_nat (length (filter (\<lambda>w. w \<in> set tech_keywords) words))
      in \<lparr>ft_name = fst sec, ft_tokens = max 1 (length (snd sec) div 4),
          ft_density = round4 (min (density + unique_ratio * (1 / 2)) 1),
          ft_keywords = round4 (min (matches / n * 5) 1)\<rparr>)"

definition extract_features :: "(rat \<Rightarrow> rat) \<Rightarrow> rat \<Rightarrow> (string \<times> string) list \<Rightarrow> features list" where
  "extract_features round4 density sections = map (section_features round4 density) sections"

definition set_value :: "(nat \<Rightarrow> rat) \<Rightarrow> features list \<Rightarrow> nat set \<Rightarrow> rat" where
  "set_value position fs S =
     (if S = {} then 0
      else
        let m = rat_of_nat (card S);
            total_tokens = sum (\<lambda>i. ft_tokens (fs ! i)) S;
            max_tokens = sum_list (map ft_tokens fs);
            token_score = rat_of_nat total_tokens / rat_of_nat (max max_tokens 1);
            avg_density = sum (\<lambda>i. ft_density (fs ! i)) S / m;
            position_premium = sum position S / m;
            avg_keyword = sum (\<lambda>i. ft_keywords (fs ! i)) S / m;
            short = rat_of_nat (card {i \<in> S. ft_tokens (fs ! i) < 50});
            length_penalty = 1 - short / m * (1 / 2);
            v = 30 / 100 * token_score + 25 / 100 * avg_density + 20 / 100 * position_premium
              + 15 / 100 * avg_keyword + 10 / 100 * length_penalty
        in min (max v 0) 1)"

subsection \<open>Exact values\<close>

text \<open>\<open>itertools.combinations\<close>: the sublists of a given length, in lexicographic order.\<close>

fun combinations :: "nat \<Rightarrow> 'a list \<Rightarrow> 'a list list" where
  "combinations 0 xs = [[]]"
| "combinations (Suc r) [] = []"
| "combinations (Suc r) (x # xs) = map ((#) x) (combinations r xs) @ combinations (Suc r) xs"

definition shapley_weight :: "nat \<Rightarrow> nat \<Rightarrow> rat" where
  "shapley_weight n r = rat_of_nat (fact r) * rat_of_nat (fact (n - r - 1)) / rat_of_nat (fact n)"

definition shapley_of :: "(nat set \<Rightarrow> rat) \<Rightarrow> nat \<Rightarrow> nat \<Rightarrow> rat" where
  "shapley_of v n i =
     (let others = filter (\<lambda>j. j \<noteq> i) [0..<n]
      in sum_list (map (\<lambda>r. sum_list (map (\<lambda>subset. (v (set subset \<union> {i}) - v (set subset)) * shapley_weight n r)
                                         (combinations r others))) [0..<n]))"

datatype shapley_error =
    BadThreshold int | FewPermutations int | BadDensity rat | NoSections | BudgetTooSmall int | TooSlow nat
  | UnknownSection string

text \<open>The loop over the sections; \<open>elapsed i\<close> is the time read after section \<open>i\<close>.\<close>

fun exact_loop ::
  "(nat set \<Rightarrow> rat) \<Rightarrow> (nat \<Rightarrow> rat) \<Rightarrow> features list \<Rightarrow> nat list \<Rightarrow> (string \<times> rat) list \<Rightarrow>
     shapley_error + (string \<times> rat) list" where
  "exact_loop v elapsed fs [] vals = Inr vals"
| "exact_loop v elapsed fs (i # rest) vals =
     (let vals1 = AList.update (ft_name (fs ! i)) (shapley_of v (length fs) i) vals
      in if 30 < elapsed i then Inl (TooSlow (length fs)) else exact_loop v elapsed fs rest vals1)"

definition zero_values :: "features list \<Rightarrow> (string \<times> rat) list" where
  "zero_values fs = foldl (\<lambda>d f. AList.update (ft_name f) 0 d) [] fs"

definition compute_exact ::
  "(nat set \<Rightarrow> rat) \<Rightarrow> (nat \<Rightarrow> rat) \<Rightarrow> features list \<Rightarrow> shapley_error + (string \<times> rat) list" where
  "compute_exact v elapsed fs = exact_loop v elapsed fs [0..<length fs] (zero_values fs)"

subsection \<open>Sampled values\<close>

text \<open>One shuffled order: the marginal contribution of each section as it comes in.\<close>

fun sample_order ::
  "(nat set \<Rightarrow> rat) \<Rightarrow> features list \<Rightarrow> nat list \<Rightarrow> nat set \<Rightarrow> rat \<Rightarrow> (string \<times> rat) list \<Rightarrow> (string \<times> rat) list" where
  "sample_order v fs [] S current acc = acc"
| "sample_order v fs (i # rest) S current acc =
     (let new = v (insert i S); name = ft_name (fs ! i)
      in sample_order v fs rest (insert i S) new
           (AList.update name (dict_get acc name 0 + (new - current)) acc))"

definition compute_approximate ::
  "(nat set \<Rightarrow> rat) \<Rightarrow> features list \<Rightarrow> nat list list \<Rightarrow> (string \<times> rat) list" where
  "compute_approximate v fs orders =
     map (\<lambda>(name, x). (name, x / rat_of_nat (length orders)))
       (foldl (\<lambda>acc order. sample_order v fs order {} 0 acc) (zero_values fs) orders)"

subsection \<open>Allocation\<close>

record allocation =
  al_section :: string
  al_value :: rat
  al_budget :: int
  al_original :: nat

text \<open>\<open>int\<close> of a float truncates towards zero.\<close>

definition truncate_rat :: "rat \<Rightarrow> int" where
  "truncate_rat x = (if 0 \<le> x then \<lfloor>x\<rfloor> else \<lceil>x\<rceil>)"

definition add_one :: "(string \<times> int) list \<Rightarrow> features \<Rightarrow> (string \<times> int) list" where
  "add_one base f = AList.update (ft_name f) (dict_get base (ft_name f) 0 + 1) base"

definition hamilton_allocation ::
  "features list \<Rightarrow> (string \<times> rat) list \<Rightarrow> (string \<times> rat) list \<Rightarrow> int \<Rightarrow> allocation list" where
  "hamilton_allocation fs vals raw total_budget =
     (let base = foldl (\<lambda>d f. AList.update (ft_name f) (truncate_rat (dict_get raw (ft_name f) 0)) d) [] fs;
          rest = (\<lambda>f. dict_get raw (ft_name f) 0 - of_int (truncate_rat (dict_get raw (ft_name f) 0)));
          allocated = sum_list (map (\<lambda>f. truncate_rat (dict_get raw (ft_name f) 0)) fs);
          remaining = total_budget - allocated;
          winners = (if 0 < remaining
                     then take (nat (min remaining (int (length fs)))) (sort_key (\<lambda>f. - rest f) fs) else []);
          base1 = foldl add_one base winners
      in map (\<lambda>f. \<lparr>al_section = ft_name f, al_value = dict_get vals (ft_name f) 0,
                   al_budget = dict_get base1 (ft_name f) 0, al_original = ft_tokens f\<rparr>) fs)"

record last_allocation =
  la_sections :: nat
  la_budget :: int
  la_exact :: bool
  la_allocations :: "allocation list"

record shapley_flow =
  sf_threshold :: int
  sf_permutations :: int
  sf_density :: rat
  sf_allocations :: nat
  sf_sections :: nat
  sf_last :: "last_allocation option"

definition shapley_flow_new :: "int \<Rightarrow> int \<Rightarrow> rat \<Rightarrow> shapley_error + shapley_flow" where
  "shapley_flow_new threshold permutations density =
     (if threshold < 2 then Inl (BadThreshold threshold)
      else if permutations < 100 then Inl (FewPermutations permutations)
      else if \<not> (0 \<le> density \<and> density \<le> 1) then Inl (BadDensity density)
      else Inr \<lparr>sf_threshold = threshold, sf_permutations = permutations, sf_density = density,
                sf_allocations = 0, sf_sections = 0, sf_last = None\<rparr>)"

definition split_budget :: "features list \<Rightarrow> (string \<times> rat) list \<Rightarrow> int \<Rightarrow> allocation list" where
  "split_budget fs vals total_budget =
     (let total_value = sum_list (map snd vals); n = int (length fs)
      in if total_value \<le> 0
         then map (\<lambda>f. \<lparr>al_section = ft_name f, al_value = 1 / of_int (max n 1),
                        al_budget = total_budget div max n 1, al_original = ft_tokens f\<rparr>) fs
         else hamilton_allocation fs vals
                (map (\<lambda>f. (ft_name f, dict_get vals (ft_name f) 0 / total_value * of_int total_budget)) fs)
                total_budget)"

text \<open>The values of the sections, exact up to the threshold and sampled above it.\<close>

definition compute_values ::
  "(nat set \<Rightarrow> rat) \<Rightarrow> (nat \<Rightarrow> rat) \<Rightarrow> nat list list \<Rightarrow> shapley_flow \<Rightarrow> features list \<Rightarrow>
     shapley_error + (string \<times> rat) list" where
  "compute_values v elapsed orders sf fs =
     (if int (length fs) \<le> sf_threshold sf then compute_exact v elapsed fs
      else Inr (compute_approximate v fs orders))"

definition allocate_features ::
  "(rat \<Rightarrow> rat) \<Rightarrow> (nat set \<Rightarrow> rat) \<Rightarrow> (nat \<Rightarrow> rat) \<Rightarrow> nat list list \<Rightarrow> shapley_flow \<Rightarrow> features list \<Rightarrow> int \<Rightarrow>
     shapley_flow \<times> (shapley_error + allocation list)" where
  "allocate_features round4 v elapsed orders sf fs total_budget =
     (case compute_values v elapsed orders sf fs of
        Inl e \<Rightarrow> (sf, Inl e)
      | Inr vals \<Rightarrow>
          let allocations = sort_key (\<lambda>a. - al_value a) (split_budget fs vals total_budget)
          in (sf\<lparr>sf_allocations := sf_allocations sf + 1, sf_sections := sf_sections sf + length fs,
                 sf_last := Some \<lparr>la_sections = length fs, la_budget = total_budget,
                   la_exact = (int (length fs) \<le> sf_threshold sf),
                   la_allocations = map (\<lambda>a. a\<lparr>al_value := round4 (al_value a)\<rparr>) allocations\<rparr>\<rparr>,
              Inr allocations))"

definition allocate_sections ::
  "(rat \<Rightarrow> rat) \<Rightarrow> (nat \<Rightarrow> rat) \<Rightarrow> (nat \<Rightarrow> rat) \<Rightarrow> nat list list \<Rightarrow> shapley_flow \<Rightarrow> (string \<times> string) list \<Rightarrow>
     int \<Rightarrow> shapley_flow \<times> (shapley_error + allocation list)" where
  "allocate_sections round4 position elapsed orders sf sections total_budget =
     (if sections = [] then (sf, Inl NoSections)
      else if total_budget < 64 then (sf, Inl (BudgetTooSmall total_budget))
      else let fs = extract_features round4 (sf_density sf) sections
           in allocate_features round4 (set_value position fs) elapsed orders sf fs total_budget)"

definition section_value ::
  "(rat \<Rightarrow> rat) \<Rightarrow> (nat \<Rightarrow> rat) \<Rightarrow> (nat \<Rightarrow> rat) \<Rightarrow> nat list list \<Rightarrow> shapley_flow \<Rightarrow> string \<Rightarrow>
     (string \<times> string) list \<Rightarrow> shapley_error + rat" where
  "section_value round4 position elapsed orders sf name sections =
     (if map_of sections name = None then Inl (UnknownSection name)
      else let fs = extract_features round4 (sf_density sf) sections
           in case compute_values (set_value position fs) elapsed orders sf fs of
                Inl e \<Rightarrow> Inl e
              | Inr vals \<Rightarrow> Inr (dict_get vals name 0))"

subsection \<open>The exact values share out the whole value\<close>

lemma sum_combinations:
  "distinct xs \<Longrightarrow> sum_list (map (\<lambda>s. f (set s)) (combinations r xs)) =
     sum f {S. S \<subseteq> set xs \<and> card S = r}"
proof (induction r xs arbitrary: f rule: combinations.induct)
  case (1 xs)
  have "{S. S \<subseteq> set xs \<and> card S = 0} = {{}}" by (auto simp: card_eq_0_iff dest: finite_subset)
  then show ?case by (simp del: card_0_eq)
next
  case (2 r)
  have "{S :: 'a set. S \<subseteq> set [] \<and> card S = Suc r} = {}" by auto
  then show ?case by (simp only: combinations.simps list.map sum_list.Nil sum.empty)
next
  case (3 r x xs)
  let ?A = "{S. S \<subseteq> set xs \<and> card S = r}" and ?B = "{S. S \<subseteq> set xs \<and> card S = Suc r}"
  have x: "x \<notin> set xs" and d: "distinct xs" using 3(3) by auto
  have fin: "finite ?A" "finite ?B" by simp_all
  have split: "{S. S \<subseteq> set (x # xs) \<and> card S = Suc r} = insert x ` ?A \<union> ?B"
  proof (intro set_eqI iffI)
    fix S assume S: "S \<in> {S. S \<subseteq> set (x # xs) \<and> card S = Suc r}"
    then have "finite S" by (auto intro: finite_subset)
    show "S \<in> insert x ` ?A \<union> ?B"
    proof (cases "x \<in> S")
      case True
      then have "S = insert x (S - {x})" "S - {x} \<in> ?A" using S \<open>finite S\<close> by (auto simp: card_Diff_singleton)
      then show ?thesis by blast
    next
      case False
      then show ?thesis using S by auto
    qed
  next
    fix S assume "S \<in> insert x ` ?A \<union> ?B"
    moreover have "card (insert x T) = Suc r" if "T \<in> ?A" for T
      using that x by (subst card_insert_disjoint) (auto intro: finite_subset)
    ultimately show "S \<in> {S. S \<subseteq> set (x # xs) \<and> card S = Suc r}" by auto
  qed
  have inj: "inj_on (insert x) ?A" using x by (auto simp: inj_on_def)
  have "sum f {S. S \<subseteq> set (x # xs) \<and> card S = Suc r} = sum f (insert x ` ?A) + sum f ?B"
    unfolding split using x fin by (intro sum.union_disjoint) auto
  also have "sum f (insert x ` ?A) = sum (\<lambda>S. f (insert x S)) ?A"
    using inj by (simp add: sum.reindex)
  finally show ?case
    using 3(1) [OF d, of "\<lambda>S. f (insert x S)"] 3(2) [OF d, of f] by (simp add: comp_def)
qed

lemma shapley_of_sum:
  assumes "i < n"
  shows "shapley_of v n i =
    sum (\<lambda>S. (v (insert i S) - v S) * shapley_weight n (card S)) (Pow ({..<n} - {i}))"
proof -
  let ?o = "filter (\<lambda>j. j \<noteq> i) [0..<n]" and ?A = "{..<n} - {i}"
  let ?g = "\<lambda>S. (v (insert i S) - v S) * shapley_weight n (card S)"
  have o: "distinct ?o" "set ?o = ?A" by auto
  have "sum_list (map (\<lambda>s. (v (set s \<union> {i}) - v (set s)) * shapley_weight n r) (combinations r ?o)) =
      sum ?g {S. S \<subseteq> ?A \<and> card S = r}" for r
  proof -
    have "sum_list (map (\<lambda>s. (v (set s \<union> {i}) - v (set s)) * shapley_weight n r) (combinations r ?o)) =
        sum (\<lambda>S. (v (S \<union> {i}) - v S) * shapley_weight n r) {S. S \<subseteq> set ?o \<and> card S = r}"
      using sum_combinations [OF o(1), of "\<lambda>S. (v (S \<union> {i}) - v S) * shapley_weight n r" r] by simp
    also have "\<dots> = sum ?g {S. S \<subseteq> ?A \<and> card S = r}"
      unfolding o(2) by (rule sum.cong) auto
    finally show ?thesis .
  qed
  then have "shapley_of v n i = (\<Sum>r<n. sum ?g {S. S \<subseteq> ?A \<and> card S = r})"
    by (simp add: shapley_of_def Let_def interv_sum_list_conv_sum_set_nat atLeast0LessThan)
  also have "\<dots> = sum ?g (\<Union>r\<in>{..<n}. {S. S \<subseteq> ?A \<and> card S = r})"
    by (rule sum.UNION_disjoint [symmetric]) auto
  also have "(\<Union>r\<in>{..<n}. {S. S \<subseteq> ?A \<and> card S = r}) = Pow ?A"
  proof -
    have "card S < n" if "S \<subseteq> ?A" for S
      using card_mono [OF _ that] assms by (simp add: card_Diff_singleton)
    then show ?thesis by auto
  qed
  finally show ?thesis .
qed

lemma shapley_weight_in:
  assumes "0 < t" and "t \<le> n"
  shows "rat_of_nat t * shapley_weight n (t - 1) = rat_of_nat (fact t) * rat_of_nat (fact (n - t)) / rat_of_nat (fact n)"
  using assms by (cases t) (simp_all add: shapley_weight_def algebra_simps)

lemma shapley_weight_out:
  assumes "s < n"
  shows "rat_of_nat (n - s) * shapley_weight n s = rat_of_nat (fact s) * rat_of_nat (fact (n - s)) / rat_of_nat (fact n)"
proof -
  obtain k where "n - s = Suc k" using assms by (metis Suc_diff_Suc)
  then show ?thesis by (simp add: shapley_weight_def algebra_simps)
qed

lemma shapley_sum:
  assumes "0 < n"
  shows "(\<Sum>i<n. shapley_of v n i) = v {..<n} - v {}"
proof -
  let ?N = "{..<n}" and ?w = "shapley_weight n"
  let ?c = "\<lambda>T. rat_of_nat (fact (card T)) * rat_of_nat (fact (n - card T)) / rat_of_nat (fact n)"
  have "(\<Sum>i<n. shapley_of v n i) =
      (\<Sum>i\<in>?N. \<Sum>S\<in>Pow (?N - {i}). ?w (card S) * v (insert i S)) -
      (\<Sum>i\<in>?N. \<Sum>S\<in>Pow (?N - {i}). ?w (card S) * v S)"
    by (simp add: shapley_of_sum sum_subtractf algebra_simps)
  also have "(\<Sum>i\<in>?N. \<Sum>S\<in>Pow (?N - {i}). ?w (card S) * v (insert i S)) =
      (\<Sum>T\<in>Pow ?N. \<Sum>i\<in>T. ?w (card T - 1) * v T)"
  proof -
    have "(\<Sum>i\<in>?N. \<Sum>S\<in>Pow (?N - {i}). ?w (card S) * v (insert i S)) =
        sum (\<lambda>(i, S). ?w (card S) * v (insert i S)) (Sigma ?N (\<lambda>i. Pow (?N - {i})))"
      by (rule sum.Sigma) auto
    also have "\<dots> = sum (\<lambda>(T, i). ?w (card T - 1) * v T) (Sigma (Pow ?N) (\<lambda>T. T))"
      by (rule sum.reindex_bij_witness [where i = "\<lambda>(T, i). (i, T - {i})" and j = "\<lambda>(i, S). (insert i S, i)"])
        (auto simp: insert_absorb card_insert_if finite_subset)
    also have "\<dots> = (\<Sum>T\<in>Pow ?N. \<Sum>i\<in>T. ?w (card T - 1) * v T)"
      by (rule sum.Sigma [symmetric]) (auto intro: finite_subset)
    finally show ?thesis .
  qed
  also have "(\<Sum>i\<in>?N. \<Sum>S\<in>Pow (?N - {i}). ?w (card S) * v S) =
      (\<Sum>S\<in>Pow ?N. \<Sum>i\<in>?N - S. ?w (card S) * v S)"
  proof -
    have "(\<Sum>i\<in>?N. \<Sum>S\<in>Pow (?N - {i}). ?w (card S) * v S) =
        sum (\<lambda>(i, S). ?w (card S) * v S) (Sigma ?N (\<lambda>i. Pow (?N - {i})))"
      by (rule sum.Sigma) auto
    also have "\<dots> = sum (\<lambda>(S, i). ?w (card S) * v S) (Sigma (Pow ?N) (\<lambda>S. ?N - S))"
      by (rule sum.reindex_bij_witness [where i = "\<lambda>(S, i). (i, S)" and j = "\<lambda>(i, S). (S, i)"]) auto
    also have "\<dots> = (\<Sum>S\<in>Pow ?N. \<Sum>i\<in>?N - S. ?w (card S) * v S)"
      by (rule sum.Sigma [symmetric]) auto
    finally show ?thesis .
  qed
  also have "(\<Sum>T\<in>Pow ?N. \<Sum>i\<in>T. ?w (card T - 1) * v T) - (\<Sum>S\<in>Pow ?N. \<Sum>i\<in>?N - S. ?w (card S) * v S) =
      (\<Sum>T\<in>Pow ?N. (if T = {} then 0 else ?c T * v T) - (if T = ?N then 0 else ?c T * v T))"
  proof -
    have "(\<Sum>i\<in>T. ?w (card T - 1) * v T) = (if T = {} then 0 else ?c T * v T)" if "T \<in> Pow ?N" for T
    proof (cases "T = {}")
      case False
      have f: "finite T" using that by (auto intro: finite_subset)
      have "card T \<le> n" using card_mono [of ?N T] that by simp
      with shapley_weight_in [of "card T" n] False f show ?thesis by (simp add: card_gt_0_iff mult.assoc [symmetric])
    qed simp
    moreover have "(\<Sum>i\<in>?N - S. ?w (card S) * v S) = (if S = ?N then 0 else ?c S * v S)" if "S \<in> Pow ?N" for S
    proof (cases "S = ?N")
      case False
      then have "card S < n" using that psubset_card_mono [of ?N S] by auto
      moreover have "card (?N - S) = n - card S" using that by (subst card_Diff_subset) (auto intro: finite_subset)
      ultimately show ?thesis using shapley_weight_out [of "card S" n] False by (simp add: mult.assoc [symmetric])
    qed simp
    ultimately show ?thesis by (simp add: sum_subtractf)
  qed
  also have "\<dots> = (\<Sum>T\<in>Pow ?N. (if T = ?N then v T else 0) - (if T = {} then v T else 0))"
    using assms by (intro sum.cong) auto
  also have "\<dots> = v ?N - v {}" by (simp add: sum_subtractf sum.delta)
  finally show ?thesis .
qed

lemma dict_values_get: "distinct (map fst d) \<Longrightarrow> map snd d = map (\<lambda>k. dict_get d k w) (map fst d)"
  by (induction d) (auto simp: dict_get_def rev_image_eqI split: option.split)

lemma values_by_name:
  assumes "map fst vals = map ft_name fs" and "distinct (map ft_name fs)"
  shows "map snd vals = map (\<lambda>f. dict_get vals (ft_name f) 0) fs"
proof -
  have "map snd vals = map (\<lambda>k. dict_get vals k 0) (map fst vals)"
    using dict_values_get [of vals 0] assms by simp
  then show ?thesis by (simp add: assms(1) comp_def)
qed

lemma keys_update: "k \<in> set (map fst d) \<Longrightarrow> map fst (AList.update k x d) = map fst d"
  by (simp add: dict_keys_update)

lemma zero_values_eq:
  assumes "distinct (map ft_name fs)"
  shows "map fst (zero_values fs) = map ft_name fs" "dict_get (zero_values fs) k 0 = (0 :: rat)"
proof -
  have "distinct (map ft_name fs) \<Longrightarrow> zero_values fs = map (\<lambda>f. (ft_name f, 0)) fs" for fs
  proof (induction fs rule: rev_induct)
    case (snoc f fs)
    then have "map_of (map (\<lambda>f. (ft_name f, 0 :: rat)) fs) (ft_name f) = None"
      by (auto simp: map_of_eq_None_iff)
    with snoc show ?case by (simp add: zero_values_def dict_update_fresh)
  qed (simp add: zero_values_def)
  note z = this [OF assms]
  show "map fst (zero_values fs) = map ft_name fs" by (simp add: z comp_def)
  show "dict_get (zero_values fs) k 0 = (0 :: rat)"
    unfolding z by (induction fs) (auto simp: dict_get_def split: option.split)
qed

lemma exact_loop_values:
  assumes "exact_loop v elapsed fs is0 vals = Inr vals1" and "distinct is0"
    and "distinct (map ft_name fs)" and "set is0 \<subseteq> {..<length fs}" and "map fst vals = map ft_name fs"
  shows "map fst vals1 = map ft_name fs \<and>
    (\<forall>i < length fs. dict_get vals1 (ft_name (fs ! i)) 0 =
       (if i \<in> set is0 then shapley_of v (length fs) i else dict_get vals (ft_name (fs ! i)) 0))"
  using assms
proof (induction v elapsed fs is0 vals rule: exact_loop.induct)
  case (2 v elapsed fs i rest vals)
  let ?vals = "AList.update (ft_name (fs ! i)) (shapley_of v (length fs) i) vals"
  have i: "i < length fs" "i \<notin> set rest" using 2 by auto
  have run: "exact_loop v elapsed fs rest ?vals = Inr vals1" "\<not> 30 < elapsed i"
    using 2(2) by (auto simp: Let_def split: if_splits)
  have keys: "map fst ?vals = map ft_name fs"
    using 2(6) i(1) by (subst keys_update) auto
  have "ft_name (fs ! j) = ft_name (fs ! i) \<longleftrightarrow> j = i" if "j < length fs" for j
    using 2(4) i(1) that nth_eq_iff_index_eq [of "map ft_name fs" j i] by simp
  with 2(1) [OF refl run(2) run(1)] keys 2(3,4,5) i show ?case by auto
qed simp

lemma sum_by_index: "sum_list (map f fs) = (\<Sum>i<length fs. f (fs ! i))"
  by (simp add: sum_list_sum_nth atLeast0LessThan)

lemma exact_values:
  assumes "fs \<noteq> []" and "distinct (map ft_name fs)" and "compute_exact v elapsed fs = Inr vals"
  shows "map fst vals = map ft_name fs"
    and "\<And>i. i < length fs \<Longrightarrow> dict_get vals (ft_name (fs ! i)) 0 = shapley_of v (length fs) i"
    and "sum_list (map snd vals) = v {..<length fs} - v {}"
proof -
  show vals: "map fst vals = map ft_name fs"
    "\<And>i. i < length fs \<Longrightarrow> dict_get vals (ft_name (fs ! i)) 0 = shapley_of v (length fs) i"
    using exact_loop_values [of v elapsed fs "[0..<length fs]" "zero_values fs" vals] assms zero_values_eq [OF assms(2)]
    by (auto simp: compute_exact_def lessThan_atLeast0)
  have "sum_list (map snd vals) = sum_list (map (\<lambda>f. dict_get vals (ft_name f) 0) fs)"
    using values_by_name [OF vals(1) assms(2)] by (rule arg_cong)
  also have "\<dots> = (\<Sum>i<length fs. shapley_of v (length fs) i)"
    unfolding sum_by_index by (rule sum.cong) (auto simp: vals(2))
  also have "\<dots> = v {..<length fs} - v {}"
    using assms(1) by (intro shapley_sum) simp
  finally show "sum_list (map snd vals) = v {..<length fs} - v {}" .
qed

text \<open>
  C13: When the exact computation returns, it has one value per section, each the Shapley value of its
  section, and together they share out exactly what all sections are worth.
\<close>

theorem shapley_exact_efficient:
  assumes "fs \<noteq> []" and "distinct (map ft_name fs)" and "compute_exact v elapsed fs = Inr vals"
  shows "map fst vals = map ft_name fs \<and>
    list_all (\<lambda>i. dict_get vals (ft_name (fs ! i)) 0 = shapley_of v (length fs) i) [0..<length fs] \<and>
    sum_list (map snd vals) = v {..<length fs} - v {}"
  using exact_values [OF assms] by (simp add: list_all_iff)

theorem shapley_exact_efficient_witness:
  "let fs = [\<lparr>ft_name = ''a'', ft_tokens = 60, ft_density = 1, ft_keywords = 0\<rparr>,
             \<lparr>ft_name = ''b'', ft_tokens = 40, ft_density = 1 / 2, ft_keywords = 1\<rparr>]
   in sum_list (map snd (projr (compute_exact (set_value (\<lambda>_. 1) fs) (\<lambda>_. 0) fs))) = 67 / 80"
proof -
  let ?fs = "[\<lparr>ft_name = ''a'', ft_tokens = 60, ft_density = 1, ft_keywords = 0\<rparr>,
             \<lparr>ft_name = ''b'', ft_tokens = 40, ft_density = 1 / 2, ft_keywords = 1\<rparr>]"
  have all: "{..<2 :: nat} = {0, 1}" by auto
  have short: "{i \<in> {0, 1 :: nat}. ft_tokens (?fs ! i) < 50} = {1}" by auto
  have "\<exists>vals. compute_exact (set_value (\<lambda>_. 1) ?fs) (\<lambda>_. 0) ?fs = Inr vals"
    by (simp add: compute_exact_def upt_rec)
  then obtain vals where vals: "compute_exact (set_value (\<lambda>_. 1) ?fs) (\<lambda>_. 0) ?fs = Inr vals" by blast
  have "sum_list (map snd vals) = set_value (\<lambda>_. 1) ?fs {0, 1} - set_value (\<lambda>_. 1) ?fs {}"
    using shapley_exact_efficient [OF _ _ vals] by (simp add: all [simplified] lessThan_Suc insert_commute)
  also have "\<dots> = 67 / 80" unfolding set_value_def Let_def short by simp
  finally show ?thesis by (simp add: vals)
qed


subsection \<open>The sampled values share it out too\<close>

lemma sum_dict_increase:
  "wf_dict d \<Longrightarrow> k \<in> fst ` set d \<Longrightarrow>
     sum_list (map snd (AList.update k (dict_get d k 0 + x) d)) = sum_list (map snd d) + (x :: rat)"
  by (induction d) (auto simp: wf_dict_def dict_get_def)

lemma sample_order_sum:
  "wf_dict acc \<Longrightarrow> (\<And>i. i \<in> set order \<Longrightarrow> ft_name (fs ! i) \<in> fst ` set acc) \<Longrightarrow>
   wf_dict (sample_order v fs order S current acc) \<and>
   map fst (sample_order v fs order S current acc) = map fst acc \<and>
   sum_list (map snd (sample_order v fs order S current acc)) =
     sum_list (map snd acc) + (if order = [] then 0 else v (S \<union> set order) - current)"
proof (induction v fs order S current acc rule: sample_order.induct)
  case (2 v fs i rest S current acc)
  let ?name = "ft_name (fs ! i)" and ?new = "v (insert i S)"
  let ?acc = "AList.update ?name (dict_get acc ?name 0 + (?new - current)) acc"
  have name: "?name \<in> fst ` set acc" using 2(3) by simp
  have acc: "wf_dict ?acc" "map fst ?acc = map fst acc"
    "sum_list (map snd ?acc) = sum_list (map snd acc) + (?new - current)"
    using 2(2) name by (simp, simp add: keys_update, intro sum_dict_increase)
  have "fst ` set ?acc = fst ` set acc" using name by (simp add: dict_dom_update insert_absorb)
  with 2(1) [OF refl refl acc(1)] 2(3) acc show ?case
    by (auto simp: Let_def insert_commute)
qed simp

lemma sampled_values:
  assumes "distinct (map ft_name fs)" and "fs \<noteq> []" and "orders \<noteq> []"
    and "list_all (\<lambda>order. set order = {..<length fs}) orders"
  shows "map fst (compute_approximate v fs orders) = map ft_name fs \<and>
    sum_list (map snd (compute_approximate v fs orders)) = v {..<length fs}"
proof -
  let ?run = "foldl (\<lambda>acc order. sample_order v fs order {} 0 acc)"
  have run: "wf_dict (?run acc os) \<and> map fst (?run acc os) = map fst acc \<and>
      sum_list (map snd (?run acc os)) = sum_list (map snd acc) + rat_of_nat (length os) * v {..<length fs}"
    if "list_all (\<lambda>order. set order = {..<length fs}) os" "wf_dict acc" "map fst acc = map ft_name fs" for acc os
    using that
  proof (induction os arbitrary: acc)
    case (Cons order os)
    have "fst ` set acc = ft_name ` set fs" using Cons(4) by (metis list.set_map)
    then have "ft_name (fs ! i) \<in> fst ` set acc" if "i \<in> set order" for i
      using that Cons(2) by auto
    then have "wf_dict (sample_order v fs order {} 0 acc) \<and>
        map fst (sample_order v fs order {} 0 acc) = map fst acc \<and>
        sum_list (map snd (sample_order v fs order {} 0 acc)) = sum_list (map snd acc) + v {..<length fs}"
      using sample_order_sum [of acc order fs v "{}" 0] Cons(2,3) assms(2) by auto
    with Cons(1) [of "sample_order v fs order {} 0 acc"] Cons(2,4) show ?case by (simp add: algebra_simps)
  qed simp
  have zero: "wf_dict (zero_values fs)" "map fst (zero_values fs) = map ft_name fs"
    using zero_values_eq(1) [OF assms(1)] assms(1) by (simp_all add: wf_dict_def)
  have zsum: "sum_list (map snd (zero_values fs)) = 0"
    using dict_values_get [of "zero_values fs" 0] zero zero_values_eq(2) [OF assms(1)]
    by (simp add: wf_dict_def comp_def)
  have "sum_list (map (\<lambda>p. snd p / c) d) = sum_list (map snd d) / (c :: rat)" for d :: "(string \<times> rat) list" and c
    by (induction d) (auto simp: add_divide_distrib)
  then show ?thesis
    using run [OF assms(4) zero] zero zsum assms(3)
    by (simp add: compute_approximate_def case_prod_unfold comp_def)
qed

text \<open>
  Whatever orders are drawn, the averaged values of the sections sum to what all sections are
  worth, so the estimate is efficient at every sample size.
\<close>

theorem shapley_sampled_efficient:
  assumes "distinct (map ft_name fs)" and "fs \<noteq> []" and "orders \<noteq> []"
    and "list_all (\<lambda>order. set order = {..<length fs}) orders"
  shows "map fst (compute_approximate v fs orders) = map ft_name fs \<and>
    sum_list (map snd (compute_approximate v fs orders)) = v {..<length fs}"
  by (rule sampled_values [OF assms])

theorem shapley_sampled_efficient_witness:
  "let fs = [\<lparr>ft_name = ''a'', ft_tokens = 60, ft_density = 1, ft_keywords = 0\<rparr>,
             \<lparr>ft_name = ''b'', ft_tokens = 40, ft_density = 1 / 2, ft_keywords = 1\<rparr>];
       v = (\<lambda>S. if S = {} then 0 else 1)
   in sum_list (map snd (compute_approximate v fs [[0, 1], [1, 0], [0, 1]])) = 1"
proof -
  have all: "{..<2 :: nat} = {0, 1}" by auto
  show ?thesis
    using shapley_sampled_efficient [of "[\<lparr>ft_name = ''a'', ft_tokens = 60, ft_density = 1, ft_keywords = 0\<rparr>,
      \<lparr>ft_name = ''b'', ft_tokens = 40, ft_density = 1 / 2, ft_keywords = 1\<rparr>]" "[[0, 1], [1, 0], [0, 1]]"
      "\<lambda>S. if S = {} then 0 else 1"] by (simp add: all insert_commute numeral_2_eq_2 [symmetric] lessThan_Suc)
qed


subsection \<open>Largest remainder\<close>

lemma foldl_update_get:
  "distinct (map n fs) \<Longrightarrow> f \<in> set fs \<Longrightarrow>
     dict_get (foldl (\<lambda>d f. AList.update (n f) (g f) d) d0 fs) (n f) w = g f"
proof (induction fs rule: rev_induct)
  case (snoc x fs)
  then show ?case by (cases "f = x") (auto simp: image_iff)
qed simp

lemma foldl_add_one:
  "distinct (map ft_name ws) \<Longrightarrow>
     dict_get (foldl add_one d ws) k 0 = dict_get d k 0 + (if k \<in> ft_name ` set ws then 1 else 0)"
proof (induction ws rule: rev_induct)
  case (snoc w ws)
  then have "ft_name w \<notin> ft_name ` set ws" by simp
  with snoc show ?case by (auto simp: add_one_def)
qed simp

lemma count_winners:
  assumes "distinct (map ft_name fs)" and "set ws \<subseteq> set fs" and "distinct (map ft_name ws)"
  shows "sum_list (map (\<lambda>f. if ft_name f \<in> ft_name ` set ws then 1 else 0) fs) = int (length ws)"
proof -
  have "inj_on ft_name (set fs)" using assms(1) by (simp add: distinct_map)
  then have mem: "ft_name f \<in> ft_name ` set ws \<longleftrightarrow> f \<in> set ws" if "f \<in> set fs" for f
    using that assms(2) by (auto dest: inj_onD)
  have d: "distinct fs" "distinct ws" using assms(1,3) by (simp_all add: distinct_map)
  have "sum_list (map (\<lambda>f. if ft_name f \<in> ft_name ` set ws then 1 else 0) fs) =
      sum_list (map (\<lambda>f. if f \<in> set ws then 1 else 0 :: int) fs)"
    using mem by (intro arg_cong [where f = sum_list] map_cong) auto
  also have "\<dots> = (\<Sum>f\<in>set fs. if f \<in> set ws then 1 else 0)" using d(1) by (simp add: sum_list_distinct_conv_sum_set)
  also have "\<dots> = int (card (set fs \<inter> set ws))" by (simp flip: sum.inter_restrict)
  also have "set fs \<inter> set ws = set ws" using assms(2) by blast
  finally show ?thesis using d(2) by (simp add: distinct_card)
qed

lemma of_int_sum_map: "of_int (sum_list (map f xs)) = sum_list (map (\<lambda>x. rat_of_int (f x)) xs)"
  by (induction xs) auto

lemma sum_remainders:
  "0 \<le> sum_list (map (\<lambda>x. g x - rat_of_int \<lfloor>g x\<rfloor>) xs) \<and>
   sum_list (map (\<lambda>x. g x - rat_of_int \<lfloor>g x\<rfloor>) xs) \<le> rat_of_nat (length xs)"
proof (induction xs)
  case (Cons x xs)
  have "0 \<le> g x - rat_of_int \<lfloor>g x\<rfloor>" "g x - rat_of_int \<lfloor>g x\<rfloor> \<le> 1"
    using floor_correct [of "g x"] by linarith+
  with Cons show ?case by simp
qed simp

text \<open>
  Shares that are not negative and add up to the total are rounded so that they still add up to
  it, each to one of its two neighbouring integers.
\<close>

lemma hamilton_allocation_exact:
  assumes "distinct (map ft_name fs)" and "list_all (\<lambda>f. 0 \<le> dict_get raw (ft_name f) 0) fs"
    and "sum_list (map (\<lambda>f. dict_get raw (ft_name f) 0) fs) = of_int budget"
  shows "map al_section (hamilton_allocation fs vals raw budget) = map ft_name fs \<and>
    sum_list (map al_budget (hamilton_allocation fs vals raw budget)) = budget \<and>
    list_all (\<lambda>a. al_budget a = \<lfloor>dict_get raw (al_section a) 0\<rfloor> \<or>
                   al_budget a = \<lfloor>dict_get raw (al_section a) 0\<rfloor> + 1)
      (hamilton_allocation fs vals raw budget)"
proof -
  let ?raw = "\<lambda>f. dict_get raw (ft_name f) 0"
  let ?fl = "\<lambda>f. truncate_rat (?raw f)"
  let ?rem = "budget - sum_list (map ?fl fs)"
  let ?sorted = "sort_key (\<lambda>f. - (?raw f - of_int (?fl f))) fs"
  let ?ws = "if 0 < ?rem then take (nat (min ?rem (int (length fs)))) ?sorted else []"
  let ?base = "foldl (\<lambda>d f. AList.update (ft_name f) (?fl f) d) [] fs"
  have ham: "hamilton_allocation fs vals raw budget =
      map (\<lambda>f. \<lparr>al_section = ft_name f, al_value = dict_get vals (ft_name f) 0,
                al_budget = dict_get (foldl add_one ?base ?ws) (ft_name f) 0, al_original = ft_tokens f\<rparr>) fs"
    by (simp only: hamilton_allocation_def Let_def)
  have fl: "?fl f = \<lfloor>?raw f\<rfloor>" if "f \<in> set fs" for f
    using that assms(2) by (auto simp: truncate_rat_def list_all_iff)
  have "distinct (map ft_name ?sorted)"
    using assms(1) by (simp add: distinct_map)
  then have ws: "distinct (map ft_name ?ws)" "set ?ws \<subseteq> set fs"
    by (auto simp: take_map [symmetric] dest: in_set_takeD)
  have share: "dict_get (foldl add_one ?base ?ws) (ft_name f) 0 =
      ?fl f + (if ft_name f \<in> ft_name ` set ?ws then 1 else 0)" if "f \<in> set fs" for f
    using foldl_add_one [OF ws(1), of ?base "ft_name f"] foldl_update_get [OF assms(1) that, of ?fl "[]" 0] by simp
  have rem: "of_int ?rem = sum_list (map (\<lambda>f. ?raw f - of_int \<lfloor>?raw f\<rfloor>) fs)"
  proof -
    have "map (\<lambda>f. rat_of_int (?fl f)) fs = map (\<lambda>f. rat_of_int \<lfloor>?raw f\<rfloor>) fs" using fl by simp
    then have "sum_list (map (\<lambda>f. rat_of_int (?fl f)) fs) = sum_list (map (\<lambda>f. rat_of_int \<lfloor>?raw f\<rfloor>) fs)"
      by (rule arg_cong)
    then show ?thesis by (simp add: assms(3) [symmetric] sum_list_subtractf of_int_sum_map)
  qed
  have "0 \<le> rat_of_int ?rem" "rat_of_int ?rem \<le> rat_of_int (int (length fs))"
    using sum_remainders [of ?raw fs] unfolding rem by simp_all
  then have bnd: "0 \<le> ?rem" "?rem \<le> int (length fs)"
    unfolding of_int_0_le_iff of_int_le_iff by - assumption+
  then have len: "int (length ?ws) = ?rem" by auto
  have "sum_list (map (\<lambda>f. dict_get (foldl add_one ?base ?ws) (ft_name f) 0) fs) =
      sum_list (map (\<lambda>f. ?fl f + (if ft_name f \<in> ft_name ` set ?ws then 1 else 0)) fs)"
    using share by (intro arg_cong [where f = sum_list] map_cong) auto
  also have "\<dots> = sum_list (map ?fl fs) + int (length ?ws)"
    unfolding sum_list_addf count_winners [OF assms(1) ws(2,1)] ..
  also have "\<dots> = budget" unfolding len by simp
  finally have "sum_list (map al_budget (hamilton_allocation fs vals raw budget)) = budget"
    unfolding ham by (simp add: comp_def)
  moreover have "map al_section (hamilton_allocation fs vals raw budget) = map ft_name fs"
    unfolding ham by simp
  moreover have "list_all (\<lambda>a. al_budget a = \<lfloor>dict_get raw (al_section a) 0\<rfloor> \<or>
      al_budget a = \<lfloor>dict_get raw (al_section a) 0\<rfloor> + 1) (hamilton_allocation fs vals raw budget)"
    unfolding ham using share fl by (simp add: list_all_iff)
  ultimately show ?thesis by blast
qed


subsection \<open>The whole allocation\<close>

lemma exact_loop_returns:
  "(\<And>i. i \<in> set is0 \<Longrightarrow> elapsed i \<le> 30) \<Longrightarrow> \<exists>vals1. exact_loop v elapsed fs is0 vals = Inr vals1"
proof (induction v elapsed fs is0 vals rule: exact_loop.induct)
  case (2 v elapsed fs i rest vals)
  then have "\<not> 30 < elapsed i" by force
  with 2 show ?case by simp
qed simp

lemma shapley_nonneg:
  assumes "i < n" and "\<And>S T. S \<subseteq> T \<Longrightarrow> T \<subseteq> {..<n} \<Longrightarrow> v S \<le> v T"
  shows "0 \<le> shapley_of v n i"
  unfolding shapley_of_sum [OF assms(1)]
proof (rule sum_nonneg)
  fix S assume "S \<in> Pow ({..<n} - {i})"
  then have "v S \<le> v (insert i S)" using assms by (intro assms(2)) auto
  then show "0 \<le> (v (insert i S) - v S) * shapley_weight n (card S)"
    by (simp add: shapley_weight_def)
qed

lemma sample_order_nonneg:
  "(\<And>S T. S \<subseteq> T \<Longrightarrow> T \<subseteq> {..<n} \<Longrightarrow> v S \<le> v T) \<Longrightarrow> S \<union> set order \<subseteq> {..<n} \<Longrightarrow> current = v S \<Longrightarrow>
   (\<And>k. 0 \<le> dict_get acc k 0) \<Longrightarrow> 0 \<le> dict_get (sample_order v fs order S current acc) k 0"
proof (induction v fs order S current acc rule: sample_order.induct)
  case (2 v fs i rest S current acc)
  have "v S \<le> v (insert i S)" using 2(3) by (intro 2(2)) auto
  then have acc: "0 \<le> dict_get (AList.update (ft_name (fs ! i)) (dict_get acc (ft_name (fs ! i)) 0 +
      (v (insert i S) - current)) acc) j 0" for j
    using 2(4) 2(5) [of "ft_name (fs ! i)"] 2(5) [of j] by (simp add: add_nonneg_nonneg)
  show ?case
    unfolding sample_order.simps Let_def
    by (rule 2(1) [OF refl refl 2(2)]) (use 2(3) acc in auto)
qed simp

lemma compute_approximate_nonneg:
  assumes "\<And>S T. S \<subseteq> T \<Longrightarrow> T \<subseteq> {..<length fs} \<Longrightarrow> v S \<le> v T" and "v {} = 0"
    and "list_all (\<lambda>order. set order = {..<length fs}) orders" and "distinct (map ft_name fs)"
  shows "0 \<le> dict_get (compute_approximate v fs orders) k 0"
proof -
  let ?run = "foldl (\<lambda>acc order. sample_order v fs order {} 0 acc)"
  have run: "0 \<le> dict_get (?run acc os) k 0"
    if "list_all (\<lambda>order. set order = {..<length fs}) os" "\<And>k. 0 \<le> dict_get acc k 0" for acc os k
    using that
  proof (induction os arbitrary: acc)
    case (Cons order os)
    show ?case
      unfolding foldl.simps
      by (rule Cons(1)) (use Cons(2,3) assms(1,2) in \<open>auto intro!: sample_order_nonneg [of "length fs"]\<close>)
  qed simp
  have "dict_get (map (\<lambda>(k, x). (k, x / c)) d) k 0 = dict_get d k 0 / (c :: rat)" for d :: "(string \<times> rat) list" and c
    by (induction d) (auto simp: dict_get_def split: option.split)
  then show ?thesis
    unfolding compute_approximate_def
    using run [OF assms(3), of "zero_values fs" k] zero_values_eq(2) [OF assms(4)] by simp
qed



lemma dict_get_map:
  "distinct (map n fs) \<Longrightarrow> f \<in> set fs \<Longrightarrow> dict_get (map (\<lambda>f. (n f, g f)) fs) (n f) w = g f"
  by (induction fs) (auto simp: dict_get_def rev_image_eqI)

text \<open>Values that are not negative split the budget exactly, into budgets that are not negative.\<close>

lemma split_budget_exact:
  assumes "distinct (map ft_name fs)" and "map fst vals = map ft_name fs"
    and "\<And>f. f \<in> set fs \<Longrightarrow> 0 \<le> dict_get vals (ft_name f) 0" and "0 < sum_list (map snd vals)" and "0 \<le> budget"
  shows "map al_section (split_budget fs vals budget) = map ft_name fs \<and>
    sum_list (map al_budget (split_budget fs vals budget)) = budget \<and>
    list_all (\<lambda>a. 0 \<le> al_budget a) (split_budget fs vals budget)"
proof -
  let ?t = "sum_list (map snd vals)"
  let ?share = "\<lambda>f. dict_get vals (ft_name f) 0 / ?t * rat_of_int budget"
  define raw where "raw = map (\<lambda>f. (ft_name f, ?share f)) fs"
  have get: "dict_get raw (ft_name f) 0 = ?share f" if "f \<in> set fs" for f
    unfolding raw_def by (rule dict_get_map [OF assms(1) that])
  have "map snd vals = map (\<lambda>f. dict_get vals (ft_name f) 0) fs"
    by (rule values_by_name [OF assms(2,1)])
  then have t: "sum_list (map (\<lambda>f. dict_get vals (ft_name f) 0) fs) = ?t" by simp
  have pos: "0 \<le> dict_get raw (ft_name f) 0" if "f \<in> set fs" for f
    unfolding get [OF that] using that assms(3-5) by simp
  have "map (\<lambda>f. dict_get raw (ft_name f) 0) fs = map ?share fs"
    by (rule map_cong [OF refl get])
  then have "sum_list (map (\<lambda>f. dict_get raw (ft_name f) 0) fs) = sum_list (map ?share fs)"
    by (rule arg_cong)
  also have "\<dots> = sum_list (map (\<lambda>f. dict_get vals (ft_name f) 0) fs) / ?t * rat_of_int budget"
    by (simp add: sum_list_mult_const [symmetric] divide_inverse)
  also have "\<dots> = rat_of_int budget" using assms(4) unfolding t by simp
  finally have "sum_list (map (\<lambda>f. dict_get raw (ft_name f) 0) fs) = of_int budget" .
  moreover have "list_all (\<lambda>f. 0 \<le> dict_get raw (ft_name f) 0) fs" using pos by (simp add: list_all_iff)
  ultimately have ham: "map al_section (hamilton_allocation fs vals raw budget) = map ft_name fs"
    "sum_list (map al_budget (hamilton_allocation fs vals raw budget)) = budget"
    "list_all (\<lambda>a. al_budget a = \<lfloor>dict_get raw (al_section a) 0\<rfloor> \<or>
                   al_budget a = \<lfloor>dict_get raw (al_section a) 0\<rfloor> + 1) (hamilton_allocation fs vals raw budget)"
    using hamilton_allocation_exact [OF assms(1), of raw budget vals] by simp_all
  have "0 \<le> al_budget a" if "a \<in> set (hamilton_allocation fs vals raw budget)" for a
  proof -
    have "al_section a \<in> ft_name ` set fs"
      using that ham(1) by (metis image_eqI list.set_map)
    then have "0 \<le> \<lfloor>dict_get raw (al_section a) 0\<rfloor>" using pos by auto
    then show ?thesis using ham(3) that by (auto simp: list_all_iff)
  qed
  moreover have "split_budget fs vals budget = hamilton_allocation fs vals raw budget"
    using assms(4) by (simp add: split_budget_def Let_def raw_def)
  ultimately show ?thesis using ham(1,2) by (simp add: list_all_iff)
qed


definition monotone_value :: "(nat set \<Rightarrow> rat) \<Rightarrow> nat \<Rightarrow> bool" where
  "monotone_value v n = (\<forall>S T. S \<subseteq> T \<and> T \<subseteq> {..<n} \<longrightarrow> v S \<le> v T)"

lemma compute_values_monotone:
  assumes "distinct (map ft_name fs)" and "fs \<noteq> []" and "\<And>i. elapsed i \<le> 30" and "orders \<noteq> []"
    and "list_all (\<lambda>order. set order = {..<length fs}) orders" and "v {} = 0"
    and "monotone_value v (length fs)"
  obtains vals where "compute_values v elapsed orders sf fs = Inr vals"
    and "map fst vals = map ft_name fs" and "sum_list (map snd vals) = v {..<length fs}"
    and "\<And>f. f \<in> set fs \<Longrightarrow> 0 \<le> dict_get vals (ft_name f) 0"
proof (cases "int (length fs) \<le> sf_threshold sf")
  case True
  obtain vals where vals: "compute_exact v elapsed fs = Inr vals"
    using exact_loop_returns [of _ elapsed v fs "zero_values fs"] assms(3) unfolding compute_exact_def by blast
  note eff = exact_values [OF assms(2,1) vals]
  have "0 \<le> dict_get vals (ft_name f) 0" if f: "f \<in> set fs" for f
  proof -
    obtain i where i: "i < length fs" "f = fs ! i" using f by (auto simp: in_set_conv_nth)
    have "0 \<le> shapley_of v (length fs) i" using assms(7) by (intro shapley_nonneg [OF i(1)]) (auto simp: monotone_value_def)
    then show ?thesis using eff(2) [OF i(1)] i(2) by simp
  qed
  with that [of vals] True vals eff assms(6) show ?thesis by (simp add: compute_values_def)
next
  case False
  have "0 \<le> dict_get (compute_approximate v fs orders) k 0" for k
    using assms(1,5,6,7) by (intro compute_approximate_nonneg) (auto simp: monotone_value_def)
  with that [of "compute_approximate v fs orders"] False sampled_values [OF assms(1,2,4,5)]
  show ?thesis by (simp add: compute_values_def)
qed

lemma sum_list_sort_key: "sum_list (map f (sort_key g xs)) = (sum_list (map f xs) :: int)"
  using sum_mset_sum_list [of "map f (sort_key g xs)"] sum_mset_sum_list [of "map f xs"] by simp

text \<open>
  When adding a section never lowers the value and all sections together are worth something, the
  allocation returns, in either mode: one entry per section in descending value, budgets that are
  not negative and add up to the total.
\<close>

theorem monotone_allocation_exact:
  assumes "distinct (map ft_name fs)" and "fs \<noteq> []" and "0 \<le> budget" and "\<And>i. elapsed i \<le> 30"
    and "orders \<noteq> []" and "list_all (\<lambda>order. set order = {..<length fs}) orders"
    and "v {} = 0" and "0 < v {..<length fs}" and "monotone_value v (length fs)"
  shows "case snd (allocate_features round4 v elapsed orders sf fs budget) of
      Inl e \<Rightarrow> False
    | Inr allocations \<Rightarrow>
        mset (map al_section allocations) = mset (map ft_name fs) \<and>
        sum_list (map al_budget allocations) = budget \<and>
        list_all (\<lambda>a. 0 \<le> al_budget a) allocations \<and>
        sorted (map (\<lambda>a. - al_value a) allocations)"
proof -
  obtain vals where vals: "compute_values v elapsed orders sf fs = Inr vals" "map fst vals = map ft_name fs"
    "sum_list (map snd vals) = v {..<length fs}" "\<And>f. f \<in> set fs \<Longrightarrow> 0 \<le> dict_get vals (ft_name f) 0"
    by (rule compute_values_monotone [where sf = sf and elapsed = elapsed, OF assms(1,2,4,5,6,7,9)]) (rule that)
  have pos: "0 < sum_list (map snd vals)" using assms(8) unfolding vals(3) .
  have "map al_section (split_budget fs vals budget) = map ft_name fs"
    "sum_list (map al_budget (split_budget fs vals budget)) = budget"
    "list_all (\<lambda>a. 0 \<le> al_budget a) (split_budget fs vals budget)"
    using split_budget_exact [OF assms(1) vals(2,4) pos assms(3)] by blast+
  moreover from this(1) have section_msets: "image_mset al_section (mset (split_budget fs vals budget)) = image_mset ft_name (mset fs)"
    by (metis mset_map)
  ultimately have alloc: "case Inr (sort_key (\<lambda>a. - al_value a) (split_budget fs vals budget)) :: shapley_error + allocation list of
      Inl e \<Rightarrow> False
    | Inr allocations \<Rightarrow> mset (map al_section allocations) = mset (map ft_name fs) \<and>
        sum_list (map al_budget allocations) = budget \<and> list_all (\<lambda>a. 0 \<le> al_budget a) allocations \<and>
        sorted (map (\<lambda>a. - al_value a) allocations)"
    using section_msets by (simp add: sum_list_sort_key list_all_iff)
  have run: "snd (allocate_features round4 v elapsed orders sf fs budget) =
      Inr (sort_key (\<lambda>a. - al_value a) (split_budget fs vals budget))"
    by (simp add: allocate_features_def Let_def vals(1))
  show ?thesis unfolding run by (rule alloc)
qed

lemma sum_case_mono:
  "(case x of Inl e \<Rightarrow> False | Inr a \<Rightarrow> P a \<and> Q a \<and> R a) \<Longrightarrow> (case x of Inl e \<Rightarrow> False | Inr a \<Rightarrow> Q a)"
  by (simp split: sum.splits)

theorem monotone_allocation_exact_witness:
  "let fs = [\<lparr>ft_name = ''a'', ft_tokens = 60, ft_density = 1, ft_keywords = 0\<rparr>,
             \<lparr>ft_name = ''b'', ft_tokens = 40, ft_density = 1 / 2, ft_keywords = 1\<rparr>];
       sf = \<lparr>sf_threshold = 10, sf_permutations = 1000, sf_density = 1 / 2, sf_allocations = 0,
             sf_sections = 0, sf_last = None\<rparr>
   in case snd (allocate_features id (\<lambda>S. if S = {} then 0 else 1) (\<lambda>_. 0) [[0, 1]] sf fs 101) of
        Inl e \<Rightarrow> False
      | Inr allocations \<Rightarrow> sum_list (map al_budget allocations) = 101"
proof -
  have all: "{..<2 :: nat} = {0, 1}" by auto
  have mono: "monotone_value (\<lambda>S. if S = {} then 0 else 1) n" for n
    by (auto simp: monotone_value_def)
  show ?thesis
    unfolding Let_def
    by (rule sum_case_mono [OF monotone_allocation_exact])
      (auto simp: mono all numeral_2_eq_2 [symmetric])
qed


text \<open>
  The value the code uses averages densities, positions and keywords, so a section can lower it.
  Its Shapley value is then negative, its budget is a negative number of tokens, and another
  section is given more than the total.
\<close>

lemma negative_budget:
  "let fs = [\<lparr>ft_name = ''a'', ft_tokens = 400, ft_density = 1, ft_keywords = 1\<rparr>,
             \<lparr>ft_name = ''b'', ft_tokens = Suc 0, ft_density = 0, ft_keywords = 0\<rparr>];
       sf = \<lparr>sf_threshold = 10, sf_permutations = 1000, sf_density = 0, sf_allocations = 0,
             sf_sections = 0, sf_last = None\<rparr>
   in map_sum id (map al_budget)
        (snd (allocate_features id (set_value (\<lambda>i. if i = 0 then 1 else 3 / 4) fs) (\<lambda>_. 0) [] sf fs 1000))
      = Inr [1032, - 32]"
proof -
  let ?fs = "[\<lparr>ft_name = ''a'', ft_tokens = 400, ft_density = 1, ft_keywords = 1\<rparr>,
              \<lparr>ft_name = ''b'', ft_tokens = Suc 0, ft_density = 0, ft_keywords = 0\<rparr>]"
  define v where "v = set_value (\<lambda>i. if i = 0 then 1 else 3 / 4) ?fs"
  have v: "v {} = 0" "v {0} = 4007 / 4010" "v {Suc 0} = 161 / 802" "v {0, Suc 0} = 3 / 4" "v {Suc 0, 0} = 3 / 4"
    unfolding v_def by (simp_all add: set_value_def Let_def Collect_conv_if conj_disj_distribR Collect_disj_eq)
  have round: "\<lfloor>1241900 / 1203 :: rat\<rfloor> = 1032" "\<lceil>- (38900 / 1203) :: rat\<rceil> = - 32"
    by (simp_all add: floor_eq_iff ceiling_eq_iff)
  have two: "[0..<2] = [0, Suc 0]" by (simp add: upt_rec)
  have "shapley_of v 2 0 = 12419 / 16040" "shapley_of v 2 1 = - 389 / 16040"
    by (simp_all add: shapley_of_def two shapley_weight_def v)
  then have vals: "compute_exact v (\<lambda>_. 0) ?fs = Inr [(''a'', 12419 / 16040), (''b'', - 389 / 16040)]"
    by (simp add: compute_exact_def zero_values_def two numeral_2_eq_2 [symmetric])
  have "map al_budget (sort_key (\<lambda>a. - al_value a) (split_budget ?fs [(''a'', 12419 / 16040), (''b'', - 389 / 16040)] 1000)) = [1032, - 32]"
    by (simp add: split_budget_def hamilton_allocation_def truncate_rat_def dict_get_def Let_def round)
  then show ?thesis
    by (simp add: allocate_features_def compute_values_def Let_def vals [unfolded v_def])
qed

end
