(* ===== verification/FactorDsl.thy ===== *)
theory FactorDsl
  imports Complex_Main PyText "HOL-Library.Multiset"
begin

text \<open>
  The expression language of the alpha miner (alpha_mining/factor_dsl.py): expressions, their
  validation, the JSON form a model proposes them in, the formula and the abstract gene of an
  expression, and the structural gates: similarity by subtrees and forbidden motifs.
\<close>

subsection \<open>Expressions\<close>

datatype field_name = FieldOpen | FieldHigh | FieldLow | FieldClose | FieldVolume | FieldReturns

datatype op_name =
    OpRank | OpTsRank | OpTsMean | OpTsStd | OpTsMax | OpTsMin | OpDelta | OpZscore | OpScale
  | OpSign | OpAbs | OpLog | OpAdd | OpSub | OpMul | OpDiv | OpTsCorr

fun field_value :: "field_name \<Rightarrow> string" where
  "field_value FieldOpen = ''open''"
| "field_value FieldHigh = ''high''"
| "field_value FieldLow = ''low''"
| "field_value FieldClose = ''close''"
| "field_value FieldVolume = ''volume''"
| "field_value FieldReturns = ''returns''"

fun op_value :: "op_name \<Rightarrow> string" where
  "op_value OpRank = ''rank''"
| "op_value OpTsRank = ''ts_rank''"
| "op_value OpTsMean = ''ts_mean''"
| "op_value OpTsStd = ''ts_std''"
| "op_value OpTsMax = ''ts_max''"
| "op_value OpTsMin = ''ts_min''"
| "op_value OpDelta = ''delta''"
| "op_value OpZscore = ''zscore''"
| "op_value OpScale = ''scale''"
| "op_value OpSign = ''sign''"
| "op_value OpAbs = ''abs''"
| "op_value OpLog = ''log''"
| "op_value OpAdd = ''add''"
| "op_value OpSub = ''sub''"
| "op_value OpMul = ''mul''"
| "op_value OpDiv = ''div''"
| "op_value OpTsCorr = ''ts_corr''"

definition all_fields :: "field_name list" where
  "all_fields = [FieldOpen, FieldHigh, FieldLow, FieldClose, FieldVolume, FieldReturns]"

definition all_ops :: "op_name list" where
  "all_ops =
     [OpRank, OpTsRank, OpTsMean, OpTsStd, OpTsMax, OpTsMin, OpDelta,
      OpZscore, OpScale, OpSign, OpAbs, OpLog, OpAdd, OpSub,
      OpMul, OpDiv, OpTsCorr]"

definition arity :: "op_name \<Rightarrow> nat" where
  "arity p = (if p \<in> set [OpAdd, OpSub, OpMul, OpDiv, OpTsCorr] then 2 else 1)"

definition windowed :: "op_name \<Rightarrow> bool" where
  "windowed p \<longleftrightarrow> p \<in> set [OpTsRank, OpTsMean, OpTsStd, OpTsMax, OpTsMin, OpDelta, OpZscore, OpTsCorr]"

datatype expr =
  Expr (ex_op: "op_name option") (ex_field: "field_name option") (ex_window: "int option")
    (ex_children: "expr list")

definition leaf :: "field_name \<Rightarrow> expr" where
  "leaf f = Expr None (Some f) None []"

text \<open>Every error is a ValueError except the last, a TypeError.\<close>

datatype dsl_error =
    InvalidLeaf | WrongArity op_name nat | WindowRange op_name "int option" | WindowNotAllowed op_name
  | TooManyNodes nat | NotMapping | UnknownField string | UnknownOperator string | ChildrenNotList
  | WindowNotInteger string | WindowNotNumber

fun complexity :: "expr \<Rightarrow> nat" where
  "complexity (Expr p f w cs) = 1 + sum_list (map complexity cs)"

text \<open>\<open>None\<close>: the expression is valid; otherwise the error raised.\<close>

fun validate_expr :: "int option \<Rightarrow> expr \<Rightarrow> dsl_error option"
  and validate_all :: "int option \<Rightarrow> expr list \<Rightarrow> dsl_error option" where
  "validate_expr max_nodes (Expr None f w cs) =
     (if f = None \<or> cs \<noteq> [] \<or> w \<noteq> None then Some InvalidLeaf else None)"
| "validate_expr max_nodes (Expr (Some p) f w cs) =
     (if length cs \<noteq> arity p then Some (WrongArity p (length cs))
      else if windowed p \<and> \<not> (2 \<le> (case w of None \<Rightarrow> 0 | Some i \<Rightarrow> i) \<and> (case w of None \<Rightarrow> 0 | Some i \<Rightarrow> i) \<le> 250)
        then Some (WindowRange p w)
      else if \<not> windowed p \<and> w \<noteq> None then Some (WindowNotAllowed p)
      else case validate_all max_nodes cs of
        Some e \<Rightarrow> Some e
      | None \<Rightarrow> (case max_nodes of
          None \<Rightarrow> None
        | Some m \<Rightarrow> if m < int (complexity (Expr (Some p) f w cs))
                    then Some (TooManyNodes (complexity (Expr (Some p) f w cs))) else None))"
| "validate_all max_nodes [] = None"
| "validate_all max_nodes (c # cs) =
     (case validate_expr max_nodes c of Some e \<Rightarrow> Some e | None \<Rightarrow> validate_all max_nodes cs)"

text \<open>\<open>Expr.apply\<close>\<close>

definition apply_expr :: "op_name \<Rightarrow> expr list \<Rightarrow> int option \<Rightarrow> dsl_error + expr" where
  "apply_expr p cs w =
     (case validate_expr None (Expr (Some p) None w cs) of
        Some e \<Rightarrow> Inl e | None \<Rightarrow> Inr (Expr (Some p) None w cs))"

subsection \<open>Texts of an expression\<close>

text \<open>\<open>None\<close>: a leaf without a field, where the attribute is missing.\<close>

fun to_formula :: "expr \<Rightarrow> string option" where
  "to_formula (Expr None f w cs) = map_option field_value f"
| "to_formula (Expr (Some p) f w cs) =
     map_option (\<lambda>parts.
       let inner = py_join '', '' parts;
           inner = (case w of None \<Rightarrow> inner | Some i \<Rightarrow> inner @ '', '' @ str_of_int i)
       in op_value p @ ''('' @ inner @ '')'') (those (map to_formula cs))"

fun abstract_gene :: "expr \<Rightarrow> string option" where
  "abstract_gene (Expr None f w cs) = map_option field_value f"
| "abstract_gene (Expr (Some p) f w cs) =
     map_option (\<lambda>parts.
       let inner = py_join '', '' parts;
           inner = (if windowed p then inner @ '', t'' else inner)
       in op_value p @ ''('' @ inner @ '')'') (those (map abstract_gene cs))"

subsection \<open>The JSON form\<close>

fun to_dict :: "expr \<Rightarrow> json option" where
  "to_dict (Expr None f w cs) = map_option (\<lambda>f. PDict [(''field'', PStr (field_value f))]) f"
| "to_dict (Expr (Some p) f w cs) =
     map_option (\<lambda>ds. PDict ([(''op'', PStr (op_value p)), (''children'', PList ds)] @
         (case w of None \<Rightarrow> [] | Some i \<Rightarrow> [(''window'', PInt i)])))
       (those (map to_dict cs))"

text \<open>\<open>Field(s)\<close> and \<open>Operator(s)\<close> look the value up.\<close>

definition field_of :: "string \<Rightarrow> field_name option" where
  "field_of s = find (\<lambda>f. field_value f = s) all_fields"

definition op_of :: "string \<Rightarrow> op_name option" where
  "op_of s = find (\<lambda>p. op_value p = s) all_ops"

text \<open>\<open>int(window)\<close>\<close>

fun window_of :: "json \<Rightarrow> dsl_error + int option" where
  "window_of PNone = Inr None"
| "window_of (PBool b) = Inr (Some (if b then 1 else 0))"
| "window_of (PInt i) = Inr (Some i)"
| "window_of (PStr s) = (case py_int s of None \<Rightarrow> Inl (WindowNotInteger s) | Some i \<Rightarrow> Inr (Some i))"
| "window_of _ = Inl WindowNotNumber"

lemma size_map_of: "map_of d k = Some v \<Longrightarrow> size v < Suc (size_list (size_prod (\<lambda>_. 0) size) d)"
  by (induction d) (auto split: if_splits)

function parse_expr :: "json \<Rightarrow> dsl_error + expr" and parse_all :: "json list \<Rightarrow> dsl_error + expr list" where
  "parse_expr data =
     (case data of
        PDict d \<Rightarrow>
          (case map_of d ''field'' of
             Some v \<Rightarrow> (case field_of (py_str v) of
                 None \<Rightarrow> Inl (UnknownField (py_str v)) | Some f \<Rightarrow> Inr (leaf f))
           | None \<Rightarrow>
               (case op_of (py_str (dict_get d ''op'' (PStr []))) of
                  None \<Rightarrow> Inl (UnknownOperator (py_str (dict_get d ''op'' PNone)))
                | Some p \<Rightarrow>
                    (case map_of d ''children'' of
                       None \<Rightarrow> (case window_of (dict_get d ''window'' PNone) of
                           Inl e \<Rightarrow> Inl e | Inr w \<Rightarrow> apply_expr p [] w)
                     | Some (PList raw_children) \<Rightarrow>
                         (case parse_all raw_children of
                            Inl e \<Rightarrow> Inl e
                          | Inr cs \<Rightarrow> (case window_of (dict_get d ''window'' PNone) of
                              Inl e \<Rightarrow> Inl e | Inr w \<Rightarrow> apply_expr p cs w))
                     | Some _ \<Rightarrow> Inl ChildrenNotList)))
      | _ \<Rightarrow> Inl NotMapping)"
| "parse_all [] = Inr []"
| "parse_all (x # xs) =
     (case parse_expr x of Inl e \<Rightarrow> Inl e
      | Inr c \<Rightarrow> (case parse_all xs of Inl e \<Rightarrow> Inl e | Inr cs \<Rightarrow> Inr (c # cs)))"
  by pat_completeness auto
termination
  by (relation "measure (\<lambda>s. case s of Inl v \<Rightarrow> 2 * size v | Inr vs \<Rightarrow> Suc (2 * size_list size vs))")
    (auto dest: size_map_of)

declare parse_expr.simps [simp del]

subsection \<open>Structural gates\<close>

lemma complexity_children: "complexity e = Suc (sum_list (map complexity (ex_children e)))"
  by (cases e) simp

lemma sum_butlast: "xs \<noteq> [] \<Longrightarrow> sum_list (map f xs) = sum_list (map f (butlast xs)) + (f (last xs) :: nat)"
  by (induction xs rule: rev_induct) auto

text \<open>\<open>Counter\<close> of the genes of all subtrees; the top of the stack is its last element.\<close>

function genes_loop :: "expr list \<Rightarrow> (string \<times> nat) list \<Rightarrow> (string \<times> nat) list option" where
  "genes_loop stack genes =
     (if stack = [] then Some genes
      else let node = last stack
           in case abstract_gene node of
                None \<Rightarrow> None
              | Some g \<Rightarrow> genes_loop (butlast stack @ ex_children node) (dict_add genes g 1))"
  by pat_completeness auto

termination
  by (relation "measure (\<lambda>(stack, _). sum_list (map complexity stack))")
    (auto simp: sum_butlast complexity_children)

definition subtree_genes :: "expr \<Rightarrow> (string \<times> nat) list option" where
  "subtree_genes e = genes_loop [e] []"

text \<open>\<open>sum((a & b).values())\<close> and \<open>sum((a | b).values())\<close>\<close>

definition counter_meet :: "(string \<times> nat) list \<Rightarrow> (string \<times> nat) list \<Rightarrow> nat" where
  "counter_meet a b = sum_list (map (\<lambda>(k, n). min n (dict_get b k 0)) a)"

definition counter_join :: "(string \<times> nat) list \<Rightarrow> (string \<times> nat) list \<Rightarrow> nat" where
  "counter_join a b =
     sum_list (map (\<lambda>(k, n). max n (dict_get b k 0)) a) +
     sum_list (map snd (filter (\<lambda>(k, n). map_of a k = None) b))"

definition subtree_similarity :: "expr \<Rightarrow> expr \<Rightarrow> rat option" where
  "subtree_similarity a b =
     (case (subtree_genes a, subtree_genes b) of
        (Some ga, Some gb) \<Rightarrow>
          let union = counter_join ga gb
          in Some (if union = 0 then 1 else rat_of_nat (counter_meet ga gb) / rat_of_nat union)
      | _ \<Rightarrow> None)"

definition gene_counts :: "expr list \<Rightarrow> (string \<times> nat) list option" where
  "gene_counts corpus = map_option (foldl (\<lambda>c g. dict_add c g 1) []) (those (map abstract_gene corpus))"

definition forbidden_genes :: "expr list \<Rightarrow> int \<Rightarrow> string set option" where
  "forbidden_genes corpus top_k =
     map_option (\<lambda>counts. set (map fst (take (nat top_k) (sort_key (\<lambda>(g, n). - int n) counts))))
       (gene_counts corpus)"

function fsa_loop :: "string set \<Rightarrow> expr list \<Rightarrow> bool option" where
  "fsa_loop forbidden stack =
     (if stack = [] then Some False
      else let node = last stack
           in case abstract_gene node of
                None \<Rightarrow> None
              | Some g \<Rightarrow> if g \<in> forbidden then Some True
                          else fsa_loop forbidden (butlast stack @ ex_children node))"
  by pat_completeness auto
termination
  by (relation "measure (\<lambda>(_, stack). sum_list (map complexity stack))")
    (auto simp: sum_butlast complexity_children)

definition violates_fsa :: "expr \<Rightarrow> string set \<Rightarrow> bool option" where
  "violates_fsa e forbidden = (if forbidden = {} then Some False else fsa_loop forbidden [e])"

declare genes_loop.simps [simp del] fsa_loop.simps [simp del]


subsection \<open>What the constructors build\<close>

text \<open>An expression made by \<open>Expr.leaf\<close> and \<open>Expr.apply\<close>.\<close>

inductive built :: "expr \<Rightarrow> bool" where
  built_leaf: "built (leaf f)"
| built_apply: "(\<And>c. c \<in> set cs \<Longrightarrow> built c) \<Longrightarrow> apply_expr p cs w = Inr e \<Longrightarrow> built e"

definition window_ok :: "op_name \<Rightarrow> int option \<Rightarrow> bool" where
  "window_ok p w = (case w of None \<Rightarrow> \<not> windowed p | Some i \<Rightarrow> windowed p \<and> 2 \<le> i \<and> i \<le> 250)"

lemma validate_all_None: "validate_all m cs = None \<longleftrightarrow> (\<forall>c \<in> set cs. validate_expr m c = None)"
  by (induction cs) (auto split: option.splits)

lemma validate_node:
  "validate_expr None (Expr (Some p) f w cs) = None \<longleftrightarrow>
     length cs = arity p \<and> window_ok p w \<and> (\<forall>c \<in> set cs. validate_expr None c = None)"
  unfolding validate_all_None [symmetric]
  by (auto simp: window_ok_def split: option.splits if_splits)

declare validate_expr.simps(2) [simp del]

lemma apply_expr_Inr:
  "apply_expr p cs w = Inr e \<longleftrightarrow>
     e = Expr (Some p) None w cs \<and> length cs = arity p \<and> window_ok p w \<and>
     (\<forall>c \<in> set cs. validate_expr None c = None)"
  unfolding apply_expr_def using validate_node [of p None w cs] by (auto split: option.splits)

lemma built_induct [consumes 1, case_names leaf node]:
  assumes "built e" and "\<And>f. P (leaf f)"
    and "\<And>p w cs. length cs = arity p \<Longrightarrow> window_ok p w \<Longrightarrow> (\<And>c. c \<in> set cs \<Longrightarrow> built c) \<Longrightarrow>
      (\<And>c. c \<in> set cs \<Longrightarrow> P c) \<Longrightarrow> P (Expr (Some p) None w cs)"
  shows "P e"
  using assms(1) by induction (auto simp: apply_expr_Inr intro: assms(2,3))

lemma built_valid: "built e \<Longrightarrow> validate_expr None e = None"
proof (induction rule: built.induct)
  case (built_leaf f)
  then show ?case by (simp add: leaf_def)
next
  case (built_apply cs p w e)
  then show ?case by (simp add: apply_expr_Inr validate_node)
qed

lemma built_node:
  "built (Expr (Some p) None w cs) \<longleftrightarrow> length cs = arity p \<and> window_ok p w \<and> (\<forall>c \<in> set cs. built c)"
proof
  assume "built (Expr (Some p) None w cs)"
  then show "length cs = arity p \<and> window_ok p w \<and> (\<forall>c \<in> set cs. built c)"
    by (cases rule: built.cases) (auto simp: leaf_def apply_expr_Inr)
next
  assume "length cs = arity p \<and> window_ok p w \<and> (\<forall>c \<in> set cs. built c)"
  then show "built (Expr (Some p) None w cs)"
    by (intro built_apply [of cs p w "Expr (Some p) None w cs"]) (simp_all add: apply_expr_Inr built_valid)
qed

lemma built_cases:
  assumes "built e"
  obtains (leaf) f where "e = leaf f"
  | (node) p w cs where "e = Expr (Some p) None w cs" and "length cs = arity p" and "window_ok p w"
      and "\<forall>c \<in> set cs. built c"
  using assms by (cases rule: built.cases) (auto simp: apply_expr_Inr)

lemma arity_pos: "0 < arity p"
  by (simp add: arity_def)

lemma complexity_child: "c \<in> set cs \<Longrightarrow> complexity c \<le> sum_list (map complexity cs)"
  by (simp add: member_le_sum_list)

text \<open>
  Validation with a limit accepts an expression of the constructors exactly when it is a leaf or
  has at most that many nodes.
\<close>

lemma validate_limit:
  assumes "built e"
  shows "validate_expr (Some m) e = None \<longleftrightarrow> ex_op e = None \<or> int (complexity e) \<le> m"
  using assms
proof (induction rule: built_induct)
  case (leaf f)
  then show ?case by (simp add: leaf_def)
next
  case (node p w cs)
  let ?e = "Expr (Some p) None w cs"
  have "\<not> (windowed p \<and> \<not> (2 \<le> (case w of None \<Rightarrow> 0 | Some i \<Rightarrow> i) \<and> (case w of None \<Rightarrow> 0 | Some i \<Rightarrow> i) \<le> 250))"
    "\<not> (\<not> windowed p \<and> w \<noteq> None)"
    using node(2) by (auto simp: window_ok_def split: option.splits)
  then have "validate_expr (Some m) ?e = None \<longleftrightarrow> validate_all (Some m) cs = None \<and> int (complexity ?e) \<le> m"
    using node(1) by (auto simp: validate_expr.simps split: option.splits)
  moreover have "validate_all (Some m) cs = None" if "int (complexity ?e) \<le> m"
    unfolding validate_all_None
  proof
    fix c assume c: "c \<in> set cs"
    from complexity_child [OF this] that show "validate_expr (Some m) c = None" by (simp add: node(4) [OF c])
  qed
  ultimately show ?case by auto
qed

subsection \<open>The JSON form is read back\<close>

lemma field_of_value [simp]: "field_of (field_value f) = Some f"
  by (cases f) (simp_all add: field_of_def all_fields_def)

lemma op_of_value [simp]: "op_of (op_value p) = Some p"
  by (cases p) (simp_all add: op_of_def all_ops_def)

lemma field_value_eq [simp]: "field_value f = field_value g \<longleftrightarrow> f = g"
  by (metis field_of_value option.inject)

lemma op_value_eq [simp]: "op_value p = op_value q \<longleftrightarrow> p = q"
  by (metis op_of_value option.inject)

lemma those_map_Some: "(\<And>x. x \<in> set xs \<Longrightarrow> f x = Some (g x)) \<Longrightarrow> those (map f xs) = Some (map g xs)"
  by (induction xs) auto

lemma parse_all_map:
  "(\<And>x. x \<in> set xs \<Longrightarrow> parse_expr (f x) = Inr x) \<Longrightarrow> parse_all (map f xs) = Inr xs"
  by (induction xs) auto

lemma built_json:
  assumes "built e"
  shows "to_dict e \<noteq> None \<and> parse_expr (the (to_dict e)) = Inr e"
  using assms
proof (induction rule: built_induct)
  case (leaf f)
  then show ?case by (simp add: leaf_def parse_expr.simps)
next
  case (node p w cs)
  have "those (map to_dict cs) = Some (map (\<lambda>c. the (to_dict c)) cs)"
    using node(4) by (intro those_map_Some) auto
  moreover have "parse_all (map (\<lambda>c. the (to_dict c)) cs) = Inr cs"
    using node(4) by (intro parse_all_map) auto
  moreover have "apply_expr p cs w = Inr (Expr (Some p) None w cs)"
    using node(1,2,3) by (auto simp: apply_expr_Inr intro: built_valid)
  ultimately show ?case
    by (cases w) (simp_all add: parse_expr.simps dict_get_def)
qed

text \<open>C11: An expression of the constructors is read back from its JSON form.\<close>

theorem expr_json_roundtrip:
  assumes "built e"
  shows "case to_dict e of None \<Rightarrow> False | Some d \<Rightarrow> parse_expr d = Inr e"
  using built_json [OF assms] by (auto split: option.splits)


theorem expr_json_roundtrip_witness:
  "let e = Expr (Some OpTsMean) None (Some 20) [leaf FieldClose]
   in case to_dict e of None \<Rightarrow> False | Some d \<Rightarrow> parse_expr d = Inr e"
proof -
  have "built (Expr (Some OpTsMean) None (Some 20) [leaf FieldClose])"
    by (simp add: built_node arity_def window_ok_def windowed_def built_leaf)
  then show ?thesis using expr_json_roundtrip [of "Expr (Some OpTsMean) None (Some 20) [leaf FieldClose]"] by simp
qed

subsection \<open>Nothing invalid gets in\<close>

lemma parse_expr_dict:
  assumes "parse_expr data = Inr e" obtains d where "data = PDict d"
  using assms by (subst (asm) parse_expr.simps) (cases data; simp)

lemma parse_built:
  shows parse_expr_built: "parse_expr d = Inr e \<Longrightarrow> built e"
    and parse_all_built: "parse_all ds = Inr es \<Longrightarrow> \<forall>e \<in> set es. built e"
proof (induction d and ds arbitrary: e and es rule: parse_expr_parse_all.induct)
  case (1 data)
  obtain d where d: "data = PDict d" using 1(2) by (rule parse_expr_dict)
  have run: "parse_expr (PDict d) = Inr e" using 1(2) unfolding d .
  show ?case
  proof (cases "map_of d ''field''")
    case (Some v)
    then show ?thesis using run
      by (subst (asm) parse_expr.simps) (auto intro: built_leaf split: option.splits)
  next
    case None
    obtain p where p: "op_of (py_str (dict_get d ''op'' (PStr []))) = Some p"
      using run None by (subst (asm) parse_expr.simps) (auto split: option.splits)
    show ?thesis
    proof (cases "map_of d ''children''")
      case children: None
      have "\<exists>w. apply_expr p [] w = Inr e"
        using run by (subst (asm) parse_expr.simps) (simp add: None p children split: sum.splits, rule exI)
      then obtain w where "apply_expr p [] w = Inr e" ..
      then show ?thesis by (rule built_apply [of "[]" p w, rotated]) simp_all
    next
      case (Some raw)
      then obtain cs where cs: "raw = PList cs"
        using run None p by (subst (asm) parse_expr.simps) (cases raw; simp)
      have "\<exists>es w. parse_all cs = Inr es \<and> apply_expr p es w = Inr e"
        using run by (subst (asm) parse_expr.simps) (simp add: None p Some cs split: sum.splits, intro exI)
      then obtain es w where es: "parse_all cs = Inr es" "apply_expr p es w = Inr e" by (elim exE conjE)
      have "\<forall>c \<in> set es. built c" using 1(1) [OF d None p Some cs es(1)] .
      with es(2) show ?thesis by (blast intro: built_apply)
    qed
  qed
qed (auto split: sum.splits)

text \<open>
  C12: Whatever the document, parsing it gives an expression of the constructors, which validation
  accepts, or an error.
\<close>

theorem parse_expr_sandbox:
  "case parse_expr d of Inl err \<Rightarrow> True | Inr e \<Rightarrow> built e \<and> validate_expr None e = None"
  using parse_expr_built [of d] built_valid by (auto split: sum.splits)

text \<open>
  The error is not always the ValueError the callers expect: a list as window is a TypeError.
\<close>

lemma hostile_window:
  "parse_expr (PDict [(''op'', PStr ''rank''), (''children'', PList [PDict [(''field'', PStr ''close'')]]),
                      (''window'', PList [])]) = Inl WindowNotNumber"
proof -
  have "op_of ''rank'' = Some OpRank" "field_of ''close'' = Some FieldClose"
    using op_of_value [of OpRank] field_of_value [of FieldClose] by simp_all
  then show ?thesis by (simp add: parse_expr.simps dict_get_def)
qed


subsection \<open>Formulas and genes can be read back\<close>

text \<open>Both texts of an expression, by what they print for a window.\<close>

fun render :: "(int option \<Rightarrow> string) \<Rightarrow> expr \<Rightarrow> string" where
  "render P (Expr None f w cs) = field_value (the f)"
| "render P (Expr (Some p) f w cs) =
     op_value p @ ''('' @ py_join '', '' (map (render P) cs) @ (if windowed p then '', '' @ P w else []) @ '')''"

fun map_windows :: "(int option \<Rightarrow> int option) \<Rightarrow> expr \<Rightarrow> expr" where
  "map_windows Q (Expr p f w cs) = Expr p f (if p = None then w else Q w) (map (map_windows Q) cs)"

definition name_char :: "char \<Rightarrow> bool" where
  "name_char c \<longleftrightarrow> c \<notin> set ''(),''"

definition closing :: "string \<Rightarrow> bool" where
  "closing s \<longleftrightarrow> (case s of [] \<Rightarrow> True | c # r \<Rightarrow> c = CHR '','' \<or> c = CHR '')'')"

lemma names: "list_all name_char (field_value f)" "list_all name_char (op_value p)"
  by (cases f; simp add: name_char_def) (cases p; simp add: name_char_def)

lemma takeWhile_all: "list_all P xs \<Longrightarrow> takeWhile P (xs @ ys) = xs @ takeWhile P ys"
  by (induction xs) auto

lemma dropWhile_all: "list_all P xs \<Longrightarrow> dropWhile P (xs @ ys) = dropWhile P ys"
  by (induction xs) auto

lemma name_split:
  assumes "list_all P x" and "list_all P y" and "x @ s = y @ t"
    and "takeWhile P s = []" and "takeWhile P t = []"
  shows "x = y \<and> s = t"
proof -
  have "x = y" using takeWhile_all [OF assms(1), of s] takeWhile_all [OF assms(2), of t] assms(3-5) by simp
  with assms(3) show ?thesis by simp
qed

lemma closing_stops: "closing s \<Longrightarrow> takeWhile name_char s = []"
  by (cases s) (auto simp: closing_def name_char_def)

lemma built_decode:
  assumes "built e"
    and P: "\<And>w. list_all (\<lambda>c. c \<noteq> CHR '')'') (P w)"
    and Q: "\<And>p w u. window_ok p w \<Longrightarrow> window_ok p u \<Longrightarrow> windowed p \<Longrightarrow> P w = P u \<Longrightarrow> Q w = Q u"
      "Q None = None"
  shows "built e' \<Longrightarrow> render P e @ s = render P e' @ s' \<Longrightarrow> closing s \<Longrightarrow> closing s' \<Longrightarrow>
    map_windows Q e = map_windows Q e' \<and> s = s'"
  using assms(1)
proof (induction arbitrary: e' s s' rule: built_induct)
  case (leaf f)
  show ?case
  proof (cases rule: built_cases [OF leaf(1)])
    case (1 g)
    then show ?thesis using leaf(2) name_split [OF names(1) [of f] names(1) [of g], of s s'] leaf(3,4)
      by (simp add: leaf_def closing_stops)
  next
    case (2 q u ds)
    then have "field_value f @ s = op_value q @ ''('' @ py_join '', '' (map (render P) ds) @
        (if windowed q then '', '' @ P u else []) @ '')'' @ s'"
      using leaf(2) by (simp add: leaf_def)
    from name_split [OF names(1) names(2) this] leaf(3)
    show ?thesis by (auto simp: closing_stops name_char_def closing_def)
  qed
next
  case (node p w cs)
  let ?t = "\<lambda>p w s. (if windowed p then '', '' @ P w else []) @ '')'' @ (s :: string)"
  let ?j = "\<lambda>cs. py_join '', '' (map (render P) cs)"
  have t: "closing (?t p w s)" for p w s by (simp add: closing_def)
  have lists: "map (map_windows Q) xs = map (map_windows Q) ys \<and> z = z'"
    if "length xs = length ys" "\<forall>c \<in> set xs. c \<in> set cs" "\<forall>c \<in> set ys. built c" "closing z" "closing z'"
      "?j xs @ z = ?j ys @ z'" for xs ys z z'
    using that
  proof (induction xs ys arbitrary: z z' rule: list_induct2)
    case (Cons x xs y ys)
    have xy: "x \<in> set cs" "built y" using Cons.prems by auto
    show ?case
    proof (cases xs)
      case Nil
      then show ?thesis using Cons node(4) [OF xy] by simp
    next
      case (Cons x1 xs1)
      then obtain y1 ys1 where ys: "ys = y1 # ys1" using Cons.hyps by (cases ys) auto
      have "render P x @ '', '' @ ?j xs @ z = render P y @ '', '' @ ?j ys @ z'"
        using Cons.prems(5) Cons ys by simp
      from node(4) [OF xy this] have "map_windows Q x = map_windows Q y" "?j xs @ z = ?j ys @ z'"
        by (simp_all add: closing_def)
      with Cons.IH Cons.prems show ?thesis by simp
    qed
  qed simp
  show ?case
  proof (cases rule: built_cases [OF node(5)])
    case (1 g)
    then have "op_value p @ ''('' @ ?j cs @ ?t p w s = field_value g @ s'"
      using node(6) by (simp add: leaf_def)
    from name_split [OF names(2) names(1) this] node(8)
    show ?thesis by (auto simp: closing_stops name_char_def closing_def)
  next
    case (2 q u ds)
    then have "op_value p @ ''('' @ ?j cs @ ?t p w s = op_value q @ ''('' @ ?j ds @ ?t q u s'"
      using node(6) by simp
    from name_split [OF names(2) names(2) this]
    have pq: "p = q" "?j cs @ ?t p w s = ?j ds @ ?t q u s'" by (auto simp: name_char_def)
    have ch: "map (map_windows Q) cs = map (map_windows Q) ds" "?t p w s = ?t q u s'"
      using lists [of cs ds "?t p w s" "?t q u s'"] pq 2(2,4) node(1) t by auto
    show ?thesis
    proof (cases "windowed p")
      case True
      then have "P w @ '')'' @ s = P u @ '')'' @ s'" using ch(2) pq(1) by simp
      from name_split [OF P P this] have "P w = P u" "s = s'" by auto
      moreover have "Q w = Q u" using Q(1) [OF node(2), of u] 2(3) pq(1) True \<open>P w = P u\<close> by simp
      ultimately show ?thesis using 2(1) pq(1) ch(1) by simp
    next
      case False
      then have "w = None" "u = None" using node(2) 2(3) pq(1) by (auto simp: window_ok_def split: option.splits)
      then show ?thesis using False 2(1) pq(1) ch by simp
    qed
  qed
qed


definition window_text :: "int option \<Rightarrow> string" where
  "window_text w = (case w of None \<Rightarrow> [] | Some i \<Rightarrow> str_of_int i)"

lemma window_text_simps [simp]: "window_text None = []" "window_text (Some i) = str_of_int i"
  by (simp_all add: window_text_def)

definition gene :: "expr \<Rightarrow> string" where
  "gene = render (\<lambda>_. ''t'')"

definition strip_windows :: "expr \<Rightarrow> expr" where
  "strip_windows = map_windows (\<lambda>_. None)"

lemma built_gene: "built e \<Longrightarrow> abstract_gene e = Some (gene e)"
proof (induction rule: built_induct)
  case (node p w cs)
  then have "those (map abstract_gene cs) = Some (map gene cs)" by (intro those_map_Some) auto
  then show ?case by (simp add: gene_def Let_def)
qed (simp add: leaf_def gene_def)

lemma built_formula: "built e \<Longrightarrow> to_formula e = Some (render window_text e)"
proof (induction rule: built_induct)
  case (node p w cs)
  then have "those (map to_formula cs) = Some (map (render window_text) cs)" by (intro those_map_Some) auto
  then show ?case using node(2) by (cases w) (simp_all add: Let_def window_ok_def)
qed (simp add: leaf_def)

lemma map_windows_id: "map_windows (\<lambda>w. w) e = e"
  by (induction e) (simp add: map_idI)

lemma digits_no_paren: "list_all (\<lambda>c. c \<noteq> CHR '')'') (str_of_nat n)"
proof (induction n rule: str_of_nat.induct)
  case (1 n)
  have "digit_char k \<noteq> CHR '')''" for k
  proof
    assume "digit_char k = CHR '')''"
    then have "(of_char (digit_char k) :: nat) = 41" by simp
    then show False by (simp add: digit_char_def)
  qed
  with 1 show ?case by (subst str_of_nat.simps) auto
qed

lemma window_text_inj: "0 \<le> i \<Longrightarrow> 0 \<le> j \<Longrightarrow> window_text (Some i) = window_text (Some j) \<longleftrightarrow> i = j"
  by (auto simp: window_text_def str_of_int_def str_of_nat_inj)

text \<open>Two expressions of the constructors have the same formula only when they are equal.\<close>

theorem to_formula_unique:
  assumes "built a" and "built b"
  shows "to_formula a = to_formula b \<longleftrightarrow> a = b"
proof
  assume eq: "to_formula a = to_formula b"
  have "list_all (\<lambda>c. c \<noteq> CHR '')'') (window_text w)" for w
    using digits_no_paren by (cases w) (auto simp: window_text_def str_of_int_def)
  moreover have "w = u" if "window_ok p w" "window_ok p u" "windowed p" "window_text w = window_text u" for p w u
    using that window_text_inj by (auto simp: window_ok_def split: option.splits)
  ultimately have "map_windows (\<lambda>w. w) a = map_windows (\<lambda>w. w) b"
    using built_decode [OF assms(1) _ _ _ assms(2), of window_text "\<lambda>w. w" "[]" "[]"] eq assms
    by (simp add: built_formula closing_def)
  then show "a = b" by (simp add: map_windows_id)
qed simp

lemma gene_strip: "gene (strip_windows e) = gene e"
proof (induction e)
  case (Expr p f w cs)
  then show ?case by (cases p) (auto simp: gene_def strip_windows_def comp_def cong: map_cong)
qed

lemma gene_eq:
  assumes "built a" and "built b"
  shows "gene a = gene b \<longleftrightarrow> strip_windows a = strip_windows b"
proof
  assume "gene a = gene b"
  then show "strip_windows a = strip_windows b"
    using built_decode [OF assms(1) _ _ _ assms(2), of "\<lambda>_. ''t''" "\<lambda>_. None" "[]" "[]"]
    by (simp add: gene_def strip_windows_def closing_def)
next
  show "strip_windows a = strip_windows b \<Longrightarrow> gene a = gene b" using gene_strip by metis
qed

theorem to_formula_unique_witness:
  "to_formula (Expr (Some OpDelta) None (Some 5) [leaf FieldClose]) \<noteq>
   to_formula (Expr (Some OpDelta) None (Some 6) [leaf FieldClose])"
proof -
  have "built (Expr (Some OpDelta) None (Some 5) [leaf FieldClose])"
    "built (Expr (Some OpDelta) None (Some 6) [leaf FieldClose])"
    by (simp_all add: built_node arity_def window_ok_def windowed_def built_leaf)
  from to_formula_unique [OF this] show ?thesis by simp
qed

subsection \<open>Similarity\<close>

fun subtrees :: "expr \<Rightarrow> expr list" where
  "subtrees (Expr p f w cs) = Expr p f w cs # concat (map subtrees cs)"

definition dict_mset :: "('a \<times> nat) list \<Rightarrow> 'a multiset" where
  "dict_mset d = sum_list (map (\<lambda>(k, n). replicate_mset n k) d)"

lemma dict_mset_simps [simp]:
  "dict_mset [] = {#}" "dict_mset (p # d) = replicate_mset (snd p) (fst p) + dict_mset d"
  by (simp_all add: dict_mset_def case_prod_unfold)

lemma size_dict_mset: "size (dict_mset d) = sum_list (map snd d)"
  by (induction d) auto

lemma count_dict_mset: "wf_dict d \<Longrightarrow> count (dict_mset d) k = dict_get d k 0"
proof (induction d)
  case (Cons p d)
  then have "wf_dict d" "fst p \<notin> fst ` set d" by (auto simp: wf_dict_def)
  then have "map_of d (fst p) = None" by (simp add: map_of_eq_None_iff)
  with Cons \<open>wf_dict d\<close> show ?case by (cases p) (auto simp: dict_get_def)
qed (simp add: dict_get_def)

lemma counter_meet_size:
  assumes "wf_dict a" and "wf_dict b"
  shows "counter_meet a b = size (dict_mset a \<inter># dict_mset b)"
proof -
  let ?m = "map (\<lambda>(k, n). (k, min n (dict_get b k 0))) a"
  have m: "wf_dict ?m" using assms(1) by (simp add: wf_dict_def comp_def case_prod_unfold)
  have "dict_get ?m k 0 = min (dict_get a k 0) (dict_get b k 0)" for k
    by (simp add: dict_get_def map_of_map_values split: option.split)
  then have "dict_mset ?m = dict_mset a \<inter># dict_mset b"
    by (intro multiset_eqI) (simp add: count_dict_mset m assms)
  from arg_cong [OF this, of size] show ?thesis
    by (simp add: size_dict_mset counter_meet_def comp_def case_prod_unfold)
qed

lemma counter_join_size:
  assumes "wf_dict a" and "wf_dict b"
  shows "counter_join a b = size (dict_mset a \<union># dict_mset b)"
proof -
  let ?m = "map (\<lambda>(k, n). (k, max n (dict_get b k 0))) a @ filter (\<lambda>(k, n). map_of a k = None) b"
  let ?f = "filter (\<lambda>(k, n). map_of a k = None) b"
  have "wf_dict ?f" using assms(2) by (rule wf_dict_filter)
  moreover have "fst ` set a \<inter> fst ` set ?f = {}" by (auto simp: map_of_eq_None_iff image_iff)
  ultimately have m: "wf_dict ?m"
    using assms(1) by (simp add: wf_dict_def comp_def image_image case_prod_unfold)
  have f: "map_of ?f k = (if map_of a k = None then map_of b k else None)" for k
    by (induction b) auto
  have "dict_get ?m k 0 = max (dict_get a k 0) (dict_get b k 0)" for k
    by (simp add: dict_get_def map_of_map_values map_add_def f split: option.split)
  then have "dict_mset ?m = dict_mset a \<union># dict_mset b"
    by (intro multiset_eqI) (simp add: count_dict_mset m assms)
  from arg_cong [OF this, of size] show ?thesis
    by (simp add: size_dict_mset counter_join_def comp_def case_prod_unfold)
qed


lemma dict_mset_add: "wf_dict d \<Longrightarrow> dict_mset (dict_add d k (Suc 0)) = add_mset k (dict_mset d)"
  by (intro multiset_eqI) (auto simp: count_dict_mset dict_get_add)

lemma built_child: "built e \<Longrightarrow> c \<in> set (ex_children e) \<Longrightarrow> built c"
  by (erule built_cases) (auto simp: leaf_def)

lemma subtrees_unfold: "subtrees e = e # concat (map subtrees (ex_children e))"
  by (cases e) simp

lemma stack_last: "xs \<noteq> [] \<Longrightarrow> mset xs = add_mset (last xs) (mset (butlast xs))"
  by (cases xs rule: rev_cases) auto

text \<open>The loop over the stack counts the gene of every subtree once.\<close>

lemma genes_loop_counts:
  "\<forall>e \<in> set stack. built e \<Longrightarrow> wf_dict genes \<Longrightarrow>
     \<exists>d. genes_loop stack genes = Some d \<and> wf_dict d \<and>
         dict_mset d = dict_mset genes + mset (map gene (concat (map subtrees stack)))"
proof (induction stack genes rule: genes_loop.induct)
  case (1 stack genes)
  show ?case
  proof (cases "stack = []")
    case True
    then show ?thesis using 1(3) by (subst genes_loop.simps) simp
  next
    case False
    let ?node = "last stack"
    let ?rest = "butlast stack @ ex_children ?node"
    have node: "built ?node" using 1(2) False by simp
    then have b: "built ?node" "\<forall>e \<in> set ?rest. built e"
      using 1(2) built_child [OF node] by (auto dest: in_set_butlastD)
    have run: "genes_loop stack genes = genes_loop ?rest (dict_add genes (gene ?node) 1)"
      using False by (subst genes_loop.simps) (simp add: built_gene [OF b(1)] Let_def)
    have parts: "mset (map gene (concat (map subtrees stack))) =
        mset (map gene (concat (map subtrees (butlast stack)))) + mset (map gene (subtrees ?node))"
      using False by (cases stack rule: rev_cases) simp_all
    obtain d where "genes_loop ?rest (dict_add genes (gene ?node) 1) = Some d" "wf_dict d"
      "dict_mset d = dict_mset (dict_add genes (gene ?node) 1) + mset (map gene (concat (map subtrees ?rest)))"
      using 1(1) [OF False refl built_gene [OF b(1)] b(2)] 1(3) by auto
    then show ?thesis
      using 1(3) parts by (intro exI [of _ d]) (simp add: run subtrees_unfold [of ?node] dict_mset_add)
  qed
qed

lemma built_subtree_genes:
  assumes "built e"
  obtains d where "subtree_genes e = Some d" and "wf_dict d" and "dict_mset d = mset (map gene (subtrees e))"
  using genes_loop_counts [of "[e]" "[]"] assms by (auto simp: subtree_genes_def)

lemma similarity_multisets:
  assumes "built a" and "built b"
  shows "subtree_similarity a b =
    Some (rat_of_nat (size (mset (map gene (subtrees a)) \<inter># mset (map gene (subtrees b)))) /
          rat_of_nat (size (mset (map gene (subtrees a)) \<union># mset (map gene (subtrees b)))))"
proof -
  obtain d where d: "subtree_genes a = Some d" "wf_dict d" "dict_mset d = mset (map gene (subtrees a))"
    using built_subtree_genes [OF assms(1)] .
  obtain d' where d': "subtree_genes b = Some d'" "wf_dict d'" "dict_mset d' = mset (map gene (subtrees b))"
    using built_subtree_genes [OF assms(2)] .
  have "mset (map gene (subtrees a)) \<union># mset (map gene (subtrees b)) \<noteq> {#}"
    by (simp add: subtrees_unfold [of a])
  then show ?thesis
    unfolding subtree_similarity_def d(1) d'(1)
    by (simp add: Let_def counter_meet_size [OF d(2) d'(2)] counter_join_size [OF d(2) d'(2)] d(3) d'(3))
qed

lemma length_py_join: "x \<in> set xs \<Longrightarrow> length x \<le> length (py_join sep xs)"
  by (induction sep xs rule: py_join.induct) auto

lemma gene_subtree_shorter:
  "built e \<Longrightarrow> s \<in> set (subtrees e) \<Longrightarrow> length (gene s) \<le> length (gene e)"
proof (induction arbitrary: s rule: built_induct)
  case (node p w cs)
  show ?case
  proof (cases "s = Expr (Some p) None w cs")
    case False
    then obtain c where c: "c \<in> set cs" "s \<in> set (subtrees c)" using node(5) by auto
    have "length (gene s) \<le> length (gene c)" by (rule node(4) [OF c])
    also have "length (gene c) \<le> length (py_join '', '' (map gene cs))"
      using c(1) by (intro length_py_join) simp
    finally show ?thesis by (simp add: gene_def)
  qed simp
qed (simp add: leaf_def)

lemma proper_subtree_shorter:
  assumes "built e" and "s \<in> set (subtrees e)" and "s \<noteq> e"
  shows "length (gene s) < length (gene e)"
  using assms(1)
proof (cases rule: built_cases)
  case (leaf f)
  then show ?thesis using assms(2,3) by (simp add: leaf_def)
next
  case (node p w cs)
  then obtain c where c: "c \<in> set cs" "s \<in> set (subtrees c)" using assms(2,3) by auto
  have "length (gene s) \<le> length (gene c)" using gene_subtree_shorter [of c] node(4) c by blast
  also have "length (gene c) \<le> length (py_join '', '' (map gene cs))"
    using c(1) by (intro length_py_join) simp
  finally show ?thesis by (simp add: node(1) gene_def)
qed

lemma same_genes:
  assumes "built a" and "built b" and "mset (map gene (subtrees a)) = mset (map gene (subtrees b))"
  shows "gene a = gene b"
proof -
  have "gene ` set (subtrees a) = gene ` set (subtrees b)"
    using arg_cong [OF assms(3), of set_mset] by simp
  moreover have "gene a \<in> gene ` set (subtrees a)" "gene b \<in> gene ` set (subtrees b)"
    by (simp_all add: subtrees_unfold [of a] subtrees_unfold [of b])
  ultimately obtain s t where s: "s \<in> set (subtrees b)" "gene a = gene s" and t: "t \<in> set (subtrees a)" "gene b = gene t"
    by blast
  have "s = b"
  proof (rule ccontr)
    assume "s \<noteq> b"
    with proper_subtree_shorter [OF assms(2) s(1)] s(2) have "length (gene a) < length (gene b)" by simp
    with gene_subtree_shorter [OF assms(1) t(1)] t(2) show False by simp
  qed
  with s(2) show ?thesis by simp
qed

lemma genes_strip: "map gene (subtrees (strip_windows e)) = map gene (subtrees e)"
proof (induction e)
  case (Expr p f w cs)
  have "map gene (concat (map (\<lambda>c. subtrees (strip_windows c)) cs)) = map gene (concat (map subtrees cs))"
    using Expr by (induction cs) auto
  then show ?case
    using gene_strip [of "Expr p f w cs"] by (simp add: strip_windows_def comp_def)
qed

text \<open>
  The similarity of two expressions of the constructors lies between 0 and 1, does not depend on
  their order, and is 1 exactly when they differ at most in their windows.
\<close>

theorem similarity_exact:
  assumes "built a" and "built b"
  shows "subtree_similarity a b = subtree_similarity b a \<and>
    (case subtree_similarity a b of
       None \<Rightarrow> False
     | Some x \<Rightarrow> 0 \<le> x \<and> x \<le> 1 \<and> (x = 1 \<longleftrightarrow> strip_windows a = strip_windows b))"
proof -
  let ?A = "mset (map gene (subtrees a))" and ?B = "mset (map gene (subtrees b))"
  have sub: "?A \<inter># ?B \<subseteq># ?A \<union># ?B" by (rule mset_subset_eqI) simp
  have le: "size (?A \<inter># ?B) \<le> size (?A \<union># ?B)" using sub by (rule size_mset_mono)
  have "gene a \<in># ?A \<union># ?B" by (simp add: subtrees_unfold [of a])
  then have pos: "0 < size (?A \<union># ?B)" by (auto simp: size_eq_0_iff_empty zero_less_iff_neq_zero)
  have "size (?A \<inter># ?B) = size (?A \<union># ?B) \<longleftrightarrow> ?A = ?B"
  proof
    assume "size (?A \<inter># ?B) = size (?A \<union># ?B)"
    then have eq: "?A \<inter># ?B = ?A \<union># ?B" using sub by (metis mset_subset_size nat_neq_iff subset_mset.le_imp_less_or_eq)
    show "?A = ?B"
    proof (rule multiset_eqI)
      fix x from arg_cong [OF eq, of "\<lambda>M. count M x"] show "count ?A x = count ?B x" by simp
    qed
  qed simp
  also have "\<dots> \<longleftrightarrow> gene a = gene b"
  proof
    assume "?A = ?B" then show "gene a = gene b" by (rule same_genes [OF assms])
  next
    assume "gene a = gene b"
    then have "strip_windows a = strip_windows b" using gene_eq [OF assms] by simp
    moreover have "map gene (subtrees (strip_windows e)) = map gene (subtrees e)" for e
      by (rule genes_strip)
    ultimately show "?A = ?B" by metis
  qed
  also have "\<dots> \<longleftrightarrow> strip_windows a = strip_windows b" by (rule gene_eq [OF assms])
  finally have one: "size (?A \<inter># ?B) = size (?A \<union># ?B) \<longleftrightarrow> strip_windows a = strip_windows b" .
  have "0 \<le> rat_of_nat m / rat_of_nat n \<and> rat_of_nat m / rat_of_nat n \<le> 1 \<and>
      (rat_of_nat m / rat_of_nat n = 1 \<longleftrightarrow> m = n)" if "m \<le> n" "0 < n" for m n :: nat
    using that by (auto simp: divide_le_eq_1)
  note ratio = this [OF le pos, unfolded one]
  show ?thesis
  proof (rule conjI)
    show "subtree_similarity a b = subtree_similarity b a"
      unfolding similarity_multisets [OF assms] similarity_multisets [OF assms(2,1)]
      by (metis subset_mset.inf_commute subset_mset.sup_commute)
    show "case subtree_similarity a b of None \<Rightarrow> False
      | Some x \<Rightarrow> 0 \<le> x \<and> x \<le> 1 \<and> (x = 1 \<longleftrightarrow> strip_windows a = strip_windows b)"
      unfolding similarity_multisets [OF assms] option.case by (rule ratio)
  qed
qed

theorem similarity_exact_witness:
  "subtree_similarity (Expr (Some OpDelta) None (Some 5) [leaf FieldClose])
     (Expr (Some OpDelta) None (Some 6) [leaf FieldClose]) = Some 1"
proof -
  let ?a = "Expr (Some OpDelta) None (Some 5) [leaf FieldClose]"
  let ?b = "Expr (Some OpDelta) None (Some 6) [leaf FieldClose]"
  have "built ?a" "built ?b"
    by (simp_all add: built_node arity_def window_ok_def windowed_def built_leaf)
  note s = similarity_exact [OF this]
  have "strip_windows ?a = strip_windows ?b" by (simp add: strip_windows_def)
  with s show ?thesis by (cases "subtree_similarity ?a ?b") simp_all
qed


subsection \<open>Forbidden motifs\<close>

lemma fsa_loop_exact:
  "\<forall>e \<in> set stack. built e \<Longrightarrow>
     fsa_loop forbidden stack = Some (\<exists>s \<in> set (concat (map subtrees stack)). gene s \<in> forbidden)"
proof (induction forbidden stack rule: fsa_loop.induct)
  case (1 forbidden stack)
  show ?case
  proof (cases "stack = []")
    case False
    let ?node = "last stack"
    let ?rest = "butlast stack @ ex_children ?node"
    have node: "built ?node" using 1(2) False by simp
    then have rest: "\<forall>e \<in> set ?rest. built e"
      using 1(2) built_child [OF node] by (auto dest: in_set_butlastD)
    have parts: "set (concat (map subtrees stack)) = insert ?node (set (concat (map subtrees ?rest)))"
      using False subtrees_unfold [of ?node] by (cases stack rule: rev_cases) (auto simp: Un_commute)
    show ?thesis
    proof (cases "gene ?node \<in> forbidden")
      case True
      then show ?thesis using False parts by (subst fsa_loop.simps) (simp add: built_gene [OF node] Let_def)
    next
      case no: False
      with 1(1) [OF False refl built_gene [OF node] no rest]
      have "fsa_loop forbidden ?rest = Some (\<exists>s \<in> set (concat (map subtrees ?rest)). gene s \<in> forbidden)" by simp
      then show ?thesis
        using False no unfolding parts by (subst fsa_loop.simps) (simp add: built_gene [OF node] Let_def)
    qed
  qed (subst fsa_loop.simps, simp)
qed

text \<open>The counts of the genes of a corpus.\<close>

lemma gene_counts_built:
  assumes "\<forall>e \<in> set corpus. built e"
  obtains d where "gene_counts corpus = Some d" and "wf_dict d"
    and "dict_mset d = mset (map gene corpus)"
proof -
  have genes: "those (map abstract_gene corpus) = Some (map gene corpus)"
    using assms built_gene by (intro those_map_Some) auto
  have "wf_dict (foldl (\<lambda>c g. dict_add c g 1) d gs) \<and>
      dict_mset (foldl (\<lambda>c g. dict_add c g 1) d gs) = dict_mset d + mset gs"
    if "wf_dict d" for d :: "(string \<times> nat) list" and gs
    using that by (induction gs arbitrary: d) (auto simp: dict_mset_add)
  from this [of "[]" "map gene corpus"] that [of "foldl (\<lambda>c g. dict_add c g 1) [] (map gene corpus)"] genes
  show ?thesis by (simp add: gene_counts_def)
qed

lemma sort_key_split:
  assumes "x \<in> set (take n (sort_key f xs))" and "y \<in> set (drop n (sort_key f xs))"
  shows "f x \<le> f y"
proof -
  have "sorted (map f (take n (sort_key f xs) @ drop n (sort_key f xs)))" by simp
  then have "sorted (map f (take n (sort_key f xs)) @ map f (drop n (sort_key f xs)))"
    by (simp only: map_append)
  with assms show ?thesis unfolding sorted_append by auto
qed

lemma set_update_pairs: "set (AList.update k v d) \<subseteq> insert (k, v) (set d)"
  by (induction d) auto

text \<open>
  The forbidden genes are genes of the corpus, as many as asked for or all of them, and none that
  is left out is more frequent than one that is forbidden.
\<close>

lemma forbidden_genes_top:
  assumes "\<forall>e \<in> set corpus. built e"
  shows "\<exists>F. forbidden_genes corpus k = Some F \<and> F \<subseteq> gene ` set corpus \<and>
    card F = min (nat k) (card (gene ` set corpus)) \<and>
    (\<forall>g \<in> F. \<forall>h \<in> gene ` set corpus - F.
       count (mset (map gene corpus)) h \<le> count (mset (map gene corpus)) g)"
proof -
  obtain d where d: "gene_counts corpus = Some d" "wf_dict d" "dict_mset d = mset (map gene corpus)"
    using gene_counts_built [OF assms] .
  let ?s = "sort_key (\<lambda>(g, n). - int n) d"
  let ?F = "set (map fst (take (nat k) ?s))"
  have pos: "\<forall>(g, n) \<in> set c. 0 < n \<Longrightarrow> \<forall>(g, n) \<in> set (foldl (\<lambda>c g. dict_add c g 1) c gs). 0 < n"
    for c :: "(string \<times> nat) list" and gs
  proof (induction gs arbitrary: c)
    case (Cons g gs)
    have "\<forall>(h, n) \<in> set (AList.update g (dict_get c g 0 + 1) c). 0 < n"
      using Cons(2) set_update_pairs [of g "dict_get c g 0 + 1" c] by fastforce
    with Cons(1) show ?case by (simp add: dict_add_def)
  qed simp
  have "\<forall>(g, n) \<in> set d. 0 < n"
    using d(1) pos [of "[]"] by (auto simp: gene_counts_def)
  then have keys: "fst ` set d = gene ` set corpus"
  proof -
    have "set_mset (dict_mset d) = fst ` set d" if "\<forall>(g, n) \<in> set d. 0 < n" for d :: "(string \<times> nat) list"
      using that by (induction d) auto
    then show ?thesis using \<open>\<forall>(g, n) \<in> set d. 0 < n\<close> d(3) by (metis set_image_mset set_mset_mset mset_map)
  qed
  have cnt: "count (mset (map gene corpus)) g = n" if "(g, n) \<in> set d" for g n
    using that d(2) unfolding d(3) [symmetric] by (simp add: count_dict_mset dict_get_def wf_dict_get)
  have dist: "distinct (map fst ?s)"
    using d(2) by (metis mset_map mset_sort mset_eq_imp_distinct_iff wf_dict_def)
  have sub: "?F \<subseteq> gene ` set corpus" unfolding keys [symmetric] by (force dest: in_set_takeD)
  have "card ?F = length (map fst (take (nat k) ?s))"
    using dist by (intro distinct_card) (simp add: take_map [symmetric] distinct_take)
  also have "\<dots> = min (length d) (nat k)" by simp
  also have "length d = card (gene ` set corpus)"
    using d(2) keys by (metis distinct_card length_map set_map wf_dict_def)
  finally have card: "card ?F = min (nat k) (card (gene ` set corpus))" by (simp add: min.commute)
  have "count (mset (map gene corpus)) h \<le> count (mset (map gene corpus)) g"
    if g: "g \<in> ?F" and h: "h \<in> gene ` set corpus - ?F" for g h
  proof -
    obtain n where n: "(g, n) \<in> set (take (nat k) ?s)" using g by auto
    obtain m where m: "(h, m) \<in> set ?s" using h keys by force
    have "(h, m) \<notin> set (take (nat k) ?s)" using h by force
    moreover have "set ?s = set (take (nat k) ?s) \<union> set (drop (nat k) ?s)"
      by (metis append_take_drop_id set_append)
    ultimately have "(h, m) \<in> set (drop (nat k) ?s)" using m by blast
    from sort_key_split [OF n this] have "m \<le> n" by simp
    moreover have "(g, n) \<in> set d" "(h, m) \<in> set d" using n m by (auto dest: in_set_takeD)
    ultimately show ?thesis using cnt [of g n] cnt [of h m] by simp
  qed
  then show ?thesis
    using sub card d(1) by (intro exI [of _ ?F]) (simp add: forbidden_genes_def)
qed

lemma built_subtree: "built e \<Longrightarrow> s \<in> set (subtrees e) \<Longrightarrow> built s"
proof (induction arbitrary: s rule: built_induct)
  case (node p w cs)
  then show ?case by (auto simp: built_node)
qed (simp add: leaf_def built_leaf [unfolded leaf_def])

lemma violates_fsa_exact:
  assumes "built e"
  shows "violates_fsa e forbidden = Some (list_ex (\<lambda>s. gene s \<in> forbidden) (subtrees e))"
  using fsa_loop_exact [of "[e]" forbidden] assms by (auto simp: violates_fsa_def list_ex_iff)

text \<open>
  The forbidden set has as many genes as asked for, or all genes of the corpus, and none that is
  left out is more frequent. A candidate is rejected exactly when one of its subtrees is, up to
  windows, an expression of the corpus whose gene is forbidden.
\<close>

theorem forbidden_motifs_exact:
  assumes "list_all built corpus" and "built e"
  shows "case forbidden_genes corpus k of
      None \<Rightarrow> False
    | Some F \<Rightarrow>
        card F = min (nat k) (card (gene ` set corpus)) \<and>
        list_all (\<lambda>c. gene c \<in> F \<or> list_all (\<lambda>d. gene d \<notin> F \<or>
            count_list (map gene corpus) (gene c) \<le> count_list (map gene corpus) (gene d)) corpus) corpus \<and>
        violates_fsa e F = Some (list_ex (\<lambda>s. list_ex (\<lambda>c. gene c \<in> F \<and> strip_windows s = strip_windows c) corpus)
          (subtrees e))"
proof -
  have corpus: "\<forall>c \<in> set corpus. built c" using assms(1) by (simp add: list_all_iff)
  obtain F where F: "forbidden_genes corpus k = Some F" "F \<subseteq> gene ` set corpus"
    "card F = min (nat k) (card (gene ` set corpus))"
    "\<forall>g \<in> F. \<forall>h \<in> gene ` set corpus - F. count (mset (map gene corpus)) h \<le> count (mset (map gene corpus)) g"
    using forbidden_genes_top [OF corpus, of k] by blast
  have "(\<exists>s \<in> set (subtrees e). gene s \<in> F) \<longleftrightarrow>
      (\<exists>s \<in> set (subtrees e). \<exists>c \<in> set corpus. gene c \<in> F \<and> strip_windows s = strip_windows c)"
  proof
    assume "\<exists>s \<in> set (subtrees e). gene s \<in> F"
    then obtain s where s: "s \<in> set (subtrees e)" "gene s \<in> F" by blast
    then obtain c where c: "c \<in> set corpus" "gene s = gene c" using F(2) by blast
    then have "strip_windows s = strip_windows c"
      using gene_eq [of s c] built_subtree [OF assms(2) s(1)] corpus by blast
    with s c show "\<exists>s \<in> set (subtrees e). \<exists>c \<in> set corpus. gene c \<in> F \<and> strip_windows s = strip_windows c"
      by auto
  next
    assume "\<exists>s \<in> set (subtrees e). \<exists>c \<in> set corpus. gene c \<in> F \<and> strip_windows s = strip_windows c"
    then show "\<exists>s \<in> set (subtrees e). gene s \<in> F" using gene_strip by metis
  qed
  moreover have "\<forall>c \<in> set corpus. gene c \<in> F \<or> (\<forall>d \<in> set corpus. gene d \<notin> F \<or>
      count_list (map gene corpus) (gene c) \<le> count_list (map gene corpus) (gene d))"
    using F(4) unfolding count_mset by blast
  ultimately show ?thesis
    using F(1,3) violates_fsa_exact [OF assms(2), of F] by (simp add: list_all_iff list_ex_iff)
qed


theorem forbidden_motifs_exact_witness:
  "let corpus = [Expr (Some OpRank) None None [leaf FieldClose], leaf FieldOpen, leaf FieldOpen];
       e = Expr (Some OpAbs) None None [leaf FieldOpen]
   in case forbidden_genes corpus 1 of None \<Rightarrow> False | Some F \<Rightarrow> card F = 1"
proof -
  let ?corpus = "[Expr (Some OpRank) None None [leaf FieldClose], leaf FieldOpen, leaf FieldOpen]"
  let ?e = "Expr (Some OpAbs) None None [leaf FieldOpen]"
  have b: "list_all built ?corpus" "built ?e"
    by (simp_all add: built_node arity_def window_ok_def windowed_def built_leaf)
  have "card (gene ` set ?corpus) = 2"
    by (simp add: gene_def leaf_def windowed_def)
  then show ?thesis
    using forbidden_motifs_exact [OF b, of 1] by (cases "forbidden_genes ?corpus 1") (simp_all add: Let_def)
qed

end
