(* ===== verification/FactorEval.thy ===== *)
theory FactorEval
  imports FactorDsl RollingRank
begin

text \<open>
  Evaluation of a factor expression over a panel (alpha_mining/factor_dsl.py, evaluate) and the
  rolling correlation (alpha_mining/rolling_rank.py, ts_corr). A matrix is the list of its columns,
  one rational per row, None standing for NaN; wsum and products are exact, \<open>np.sqrt\<close> and
  \<open>np.log1p\<close> are parameters. The reference semantics gives each cell directly from the cells it
  depends on.
\<close>

type_synonym series = "rat option list"
type_synonym matrix = "series list"

subsection \<open>Operators on columns and rows\<close>

fun lift1 :: "(rat \<Rightarrow> rat) \<Rightarrow> rat option \<Rightarrow> rat option" where
  "lift1 f None = None"
| "lift1 f (Some x) = Some (f x)"

fun lift2 :: "(rat \<Rightarrow> rat \<Rightarrow> rat) \<Rightarrow> rat option \<Rightarrow> rat option \<Rightarrow> rat option" where
  "lift2 f (Some x) (Some y) = Some (f x y)"
| "lift2 f _ _ = None"

fun div_cell :: "rat option \<Rightarrow> rat option \<Rightarrow> rat option" where
  "div_cell (Some x) (Some y) = (if y = 0 then None else Some (x / y))"
| "div_cell _ _ = None"

definition np_sign :: "rat \<Rightarrow> rat" where
  "np_sign x = (if x < 0 then - 1 else if x = 0 then 0 else 1)"

definition log_cell :: "(rat \<Rightarrow> rat) \<Rightarrow> rat \<Rightarrow> rat" where
  "log_cell log1p x = np_sign x * log1p (abs x)"

text \<open>A reduction of a window: NaN as soon as the window holds one.\<close>

definition reduce_window :: "(rat list \<Rightarrow> rat) \<Rightarrow> rat option list \<Rightarrow> rat option" where
  "reduce_window fn ws = map_option fn (those ws)"

definition mean_of :: "rat list \<Rightarrow> rat" where
  "mean_of xs = sum_list xs / rat_of_nat (length xs)"

definition std_of :: "(rat \<Rightarrow> rat) \<Rightarrow> rat list \<Rightarrow> rat" where
  "std_of rt xs = rt (mean_of (map (\<lambda>x. (x - mean_of xs) * (x - mean_of xs)) xs))"

fun max_of :: "rat list \<Rightarrow> rat" where
  "max_of [] = 0" | "max_of [x] = x" | "max_of (x # y # xs) = max_of (max x y # xs)"

fun min_of :: "rat list \<Rightarrow> rat" where
  "min_of [] = 0" | "min_of [x] = x" | "min_of (x # y # xs) = min_of (min x y # xs)"

definition rolling :: "(rat list \<Rightarrow> rat) \<Rightarrow> nat \<Rightarrow> series \<Rightarrow> series" where
  "rolling fn w col =
     (if w \<le> length col
      then replicate (w - 1) None @ map (\<lambda>i. reduce_window fn (take w (drop i col))) [0..<length col + 1 - w]
      else replicate (length col) None)"

definition delta_op :: "nat \<Rightarrow> series \<Rightarrow> series" where
  "delta_op w col =
     (if w < length col
      then replicate w None @ map2 (lift2 (-)) (drop w col) (take (length col - w) col)
      else replicate (length col) None)"

definition eps :: rat where
  "eps = 1 / 1000000000000"

definition zscore_op :: "(rat \<Rightarrow> rat) \<Rightarrow> nat \<Rightarrow> series \<Rightarrow> series" where
  "zscore_op rt w col =
     (let mean = rolling mean_of w col; std = rolling (std_of rt) w col;
          safe = map (\<lambda>s. case s of None \<Rightarrow> None | Some x \<Rightarrow> Some (if x < eps then 1 else x)) std;
          vals = map2 (lift2 (/)) (map2 (lift2 (-)) col mean) safe
      in map2 (\<lambda>s v. case s of Some x \<Rightarrow> if x < eps then Some 0 else v | None \<Rightarrow> v) std vals)"

text \<open>\<open>np.argsort(values, kind="stable")\<close> and the rank of each position in that order.\<close>

definition argsort :: "rat list \<Rightarrow> nat list" where
  "argsort vals = sort_key (\<lambda>i. vals ! i) [0..<length vals]"

definition cs_rank_row :: "rat option list \<Rightarrow> rat option list" where
  "cs_rank_row row =
     (let vals = finite_values row; count = length vals; order = argsort vals;
          ranks = foldl (\<lambda>r (k, i). r[i := rat_of_nat k]) (replicate count 0) (zip [0..<count] order)
      in if count < 2 then replicate (length row) None
         else map (\<lambda>j. case row ! j of
                  None \<Rightarrow> None
                | Some v \<Rightarrow> Some (ranks ! length (finite_values (take j row)) / rat_of_nat (count - 1)))
              [0..<length row])"

definition scale_row :: "rat option list \<Rightarrow> rat option list" where
  "scale_row row =
     (case those row of
        None \<Rightarrow> replicate (length row) None
      | Some xs \<Rightarrow>
          let t = sum_list (map abs xs)
          in if abs t < eps then replicate (length row) None else map (\<lambda>x. Some (x / t)) xs)"

definition row_of :: "matrix \<Rightarrow> nat \<Rightarrow> rat option list" where
  "row_of m t = map (\<lambda>c. c ! t) m"

definition by_rows :: "(rat option list \<Rightarrow> rat option list) \<Rightarrow> nat \<Rightarrow> matrix \<Rightarrow> matrix" where
  "by_rows f rows m =
     (let out = map (\<lambda>t. f (row_of m t)) [0..<rows]
      in map (\<lambda>j. map (\<lambda>r. r ! j) out) [0..<length m])"

subsection \<open>Rolling correlation\<close>

fun cumsum :: "rat \<Rightarrow> rat list \<Rightarrow> rat list" where
  "cumsum acc [] = []"
| "cumsum acc (x # xs) = (acc + x) # cumsum (acc + x) xs"

definition prefix_ends :: "rat list \<Rightarrow> rat list" where
  "prefix_ends xs = 0 # cumsum 0 xs"

definition window_sums :: "nat \<Rightarrow> rat list \<Rightarrow> rat list" where
  "window_sums w xs = (let ends = prefix_ends xs in map2 (-) (drop w ends) (take (length ends - w) ends))"

definition masked :: "(rat \<Rightarrow> rat \<Rightarrow> rat) \<Rightarrow> rat option \<Rightarrow> rat option \<Rightarrow> rat" where
  "masked f x y = (case (x, y) of (Some a, Some b) \<Rightarrow> f a b | _ \<Rightarrow> 0)"

definition corr_cell :: "(rat \<Rightarrow> rat) \<Rightarrow> rat \<Rightarrow> rat \<Rightarrow> rat \<Rightarrow> rat \<Rightarrow> rat \<Rightarrow> rat \<Rightarrow> rat option" where
  "corr_cell rt n sum_a sum_b sum_ab sum_aa sum_bb =
     (let cov = sum_ab * n - sum_a * sum_b;
          var_a = sum_aa * n - sum_a * sum_a;
          var_b = sum_bb * n - sum_b * sum_b;
          denom = rt (max var_a 0 * max var_b 0);
          corr = cov / (if 0 < denom then denom else 1)
      in if 2 \<le> n \<and> 0 < denom then Some corr else None)"

definition corr_column :: "(rat \<Rightarrow> rat) \<Rightarrow> nat \<Rightarrow> series \<Rightarrow> series \<Rightarrow> series" where
  "corr_column rt w a b =
     (let wsum = (\<lambda>f. window_sums w (map2 (masked f) a b));
          n = wsum (\<lambda>_ _. 1); sum_a = wsum (\<lambda>x _. x); sum_b = wsum (\<lambda>_ y. y);
          sum_ab = wsum (*); sum_aa = wsum (\<lambda>x _. x * x); sum_bb = wsum (\<lambda>_ y. y * y)
      in replicate (w - 1) None @
         map (\<lambda>i. corr_cell rt (n ! i) (sum_a ! i) (sum_b ! i) (sum_ab ! i) (sum_aa ! i) (sum_bb ! i))
           [0..<length n])"

definition ts_corr :: "(rat \<Rightarrow> rat) \<Rightarrow> nat \<Rightarrow> matrix \<Rightarrow> matrix \<Rightarrow> int \<Rightarrow> matrix option" where
  "ts_corr rt rows a b window =
     (if length a \<noteq> length b then None
      else if window \<le> 1 \<or> int rows < window then Some (map (\<lambda>_. replicate rows None) a)
      else Some (map2 (corr_column rt (nat window)) a b))"

subsection \<open>The evaluator\<close>

datatype eval_error = MissingField "field_name option" | BadShapes | BadTree

definition apply_op ::
  "(rat \<Rightarrow> rat) \<Rightarrow> (rat \<Rightarrow> rat) \<Rightarrow> nat \<Rightarrow> op_name \<Rightarrow> matrix list \<Rightarrow> int option \<Rightarrow> eval_error + matrix" where
  "apply_op rt log1p rows p args window =
     (let w = (case window of None \<Rightarrow> 0 | Some i \<Rightarrow> i); x = args ! 0; y = args ! 1
      in case p of
        OpRank \<Rightarrow> Inr (by_rows cs_rank_row rows x)
      | OpTsRank \<Rightarrow> (case ts_rank rows x w of None \<Rightarrow> Inl BadTree | Some m \<Rightarrow> Inr m)
      | OpTsMean \<Rightarrow> Inr (map (rolling mean_of (nat w)) x)
      | OpTsStd \<Rightarrow> Inr (map (rolling (std_of rt) (nat w)) x)
      | OpTsMax \<Rightarrow> Inr (map (rolling max_of (nat w)) x)
      | OpTsMin \<Rightarrow> Inr (map (rolling min_of (nat w)) x)
      | OpDelta \<Rightarrow> Inr (map (delta_op (nat w)) x)
      | OpZscore \<Rightarrow> Inr (map (zscore_op rt (nat w)) x)
      | OpScale \<Rightarrow> Inr (by_rows scale_row rows x)
      | OpSign \<Rightarrow> Inr (map (map (lift1 np_sign)) x)
      | OpAbs \<Rightarrow> Inr (map (map (lift1 abs)) x)
      | OpLog \<Rightarrow> Inr (map (map (lift1 (log_cell log1p))) x)
      | OpAdd \<Rightarrow> Inr (map2 (map2 (lift2 (+))) x y)
      | OpSub \<Rightarrow> Inr (map2 (map2 (lift2 (-))) x y)
      | OpMul \<Rightarrow> Inr (map2 (map2 (lift2 (*))) x y)
      | OpDiv \<Rightarrow> Inr (map2 (map2 div_cell) x y)
      | OpTsCorr \<Rightarrow> (case ts_corr rt rows x y w of None \<Rightarrow> Inl BadShapes | Some m \<Rightarrow> Inr m))"

fun collect :: "('e + 'a) list \<Rightarrow> 'e + 'a list" where
  "collect [] = Inr []"
| "collect (x # xs) = (case x of Inl e \<Rightarrow> Inl e
     | Inr a \<Rightarrow> (case collect xs of Inl e \<Rightarrow> Inl e | Inr as \<Rightarrow> Inr (a # as)))"

fun evaluate ::
  "(rat \<Rightarrow> rat) \<Rightarrow> (rat \<Rightarrow> rat) \<Rightarrow> nat \<Rightarrow> (field_name \<times> matrix) list \<Rightarrow> expr \<Rightarrow> eval_error + matrix" where
  "evaluate rt log1p rows panel (Expr None f w cs) =
     (case f of
        None \<Rightarrow> Inl (MissingField None)
      | Some g \<Rightarrow> (case map_of panel g of None \<Rightarrow> Inl (MissingField (Some g)) | Some m \<Rightarrow> Inr m))"
| "evaluate rt log1p rows panel (Expr (Some p) f w cs) =
     (case collect (map (evaluate rt log1p rows panel) cs) of
        Inl e \<Rightarrow> Inl e
      | Inr args \<Rightarrow> apply_op rt log1p rows p args w)"


subsection \<open>Reference semantics\<close>

definition window_of_cells :: "(nat \<Rightarrow> 'a) \<Rightarrow> nat \<Rightarrow> nat \<Rightarrow> 'a list" where
  "window_of_cells x w t = map x [Suc t - w..<Suc t]"

definition full_window :: "(rat list \<Rightarrow> rat) \<Rightarrow> nat \<Rightarrow> (nat \<Rightarrow> rat option) \<Rightarrow> nat \<Rightarrow> rat option" where
  "full_window fn w x t = (if Suc t < w then None else reduce_window fn (window_of_cells x w t))"

definition cell_rank :: "nat \<Rightarrow> (nat \<Rightarrow> rat option) \<Rightarrow> nat \<Rightarrow> rat option" where
  "cell_rank columns x j =
     (let vals = finite_values (map x [0..<columns])
      in case x j of
           None \<Rightarrow> None
         | Some v \<Rightarrow>
             if length vals < 2 then None
             else Some (rat_of_nat (length (filter (\<lambda>u. u < v) vals) +
                                    length (filter (\<lambda>u. u = v) (finite_values (map x [0..<j])))) /
                        rat_of_nat (length vals - 1)))"

definition complete_pairs :: "(rat option \<times> rat option) list \<Rightarrow> (rat \<times> rat) list" where
  "complete_pairs ps = List.map_filter (\<lambda>(x, y). case (x, y) of (Some a, Some b) \<Rightarrow> Some (a, b) | _ \<Rightarrow> None) ps"

definition pearson :: "(rat \<Rightarrow> rat) \<Rightarrow> (rat \<times> rat) list \<Rightarrow> rat option" where
  "pearson rt ps =
     corr_cell rt (rat_of_nat (length ps)) (sum_list (map fst ps)) (sum_list (map snd ps))
       (sum_list (map (\<lambda>(x, y). x * y) ps)) (sum_list (map (\<lambda>(x, y). x * x) ps))
       (sum_list (map (\<lambda>(x, y). y * y) ps))"

definition cell ::
  "(rat \<Rightarrow> rat) \<Rightarrow> (rat \<Rightarrow> rat) \<Rightarrow> nat \<Rightarrow> op_name \<Rightarrow> nat \<Rightarrow>
     (nat \<Rightarrow> nat \<Rightarrow> rat option) \<Rightarrow> (nat \<Rightarrow> nat \<Rightarrow> rat option) \<Rightarrow> nat \<Rightarrow> nat \<Rightarrow> rat option" where
  "cell rt log1p columns p w x y j t =
     (case p of
        OpRank \<Rightarrow> cell_rank columns (\<lambda>k. x k t) j
      | OpTsRank \<Rightarrow> rank_at (map (x j) [0..<Suc t]) w t
      | OpTsMean \<Rightarrow> full_window mean_of w (x j) t
      | OpTsStd \<Rightarrow> full_window (std_of rt) w (x j) t
      | OpTsMax \<Rightarrow> full_window max_of w (x j) t
      | OpTsMin \<Rightarrow> full_window min_of w (x j) t
      | OpDelta \<Rightarrow> (if t < w then None else lift2 (-) (x j t) (x j (t - w)))
      | OpZscore \<Rightarrow>
          (case full_window (std_of rt) w (x j) t of
             None \<Rightarrow> None
           | Some s \<Rightarrow> if s < eps then Some 0
                       else lift2 (/) (lift2 (-) (x j t) (full_window mean_of w (x j) t)) (Some s))
      | OpScale \<Rightarrow>
          (case those (map (\<lambda>k. x k t) [0..<columns]) of
             None \<Rightarrow> None
           | Some vs \<Rightarrow> let s = sum_list (map abs vs)
                         in if abs s < eps then None else lift1 (\<lambda>v. v / s) (x j t))
      | OpSign \<Rightarrow> lift1 np_sign (x j t)
      | OpAbs \<Rightarrow> lift1 abs (x j t)
      | OpLog \<Rightarrow> lift1 (log_cell log1p) (x j t)
      | OpAdd \<Rightarrow> lift2 (+) (x j t) (y j t)
      | OpSub \<Rightarrow> lift2 (-) (x j t) (y j t)
      | OpMul \<Rightarrow> lift2 (*) (x j t) (y j t)
      | OpDiv \<Rightarrow> div_cell (x j t) (y j t)
      | OpTsCorr \<Rightarrow>
          (if Suc t < w then None
           else pearson rt (complete_pairs (window_of_cells (\<lambda>i. (x j i, y j i)) w t))))"

fun denote ::
  "(rat \<Rightarrow> rat) \<Rightarrow> (rat \<Rightarrow> rat) \<Rightarrow> nat \<Rightarrow> (field_name \<Rightarrow> nat \<Rightarrow> nat \<Rightarrow> rat option) \<Rightarrow> expr \<Rightarrow>
     nat \<Rightarrow> nat \<Rightarrow> rat option" where
  "denote rt log1p columns panel (Expr None f w cs) = panel (the f)"
| "denote rt log1p columns panel (Expr (Some p) f w cs) =
     cell rt log1p columns p (nat (case w of None \<Rightarrow> 0 | Some i \<Rightarrow> i))
       (map (denote rt log1p columns panel) cs ! 0) (map (denote rt log1p columns panel) cs ! 1)"

subsection \<open>Matrices by their cells\<close>

definition tabulate :: "nat \<Rightarrow> nat \<Rightarrow> (nat \<Rightarrow> nat \<Rightarrow> rat option) \<Rightarrow> matrix" where
  "tabulate rows columns x = map (\<lambda>j. map (x j) [0..<rows]) [0..<columns]"

definition shaped :: "nat \<Rightarrow> nat \<Rightarrow> matrix \<Rightarrow> bool" where
  "shaped rows columns m \<longleftrightarrow> length m = columns \<and> list_all (\<lambda>c. length c = rows) m"

lemma shaped_tabulate [simp]: "shaped rows columns (tabulate rows columns x)"
  by (simp add: shaped_def tabulate_def list_all_iff)

lemma tabulate_nth: "shaped rows columns m \<Longrightarrow> m = tabulate rows columns (\<lambda>j t. m ! j ! t)"
  by (rule nth_equalityI)
    (auto simp: shaped_def tabulate_def list_all_length intro!: nth_equalityI)

lemma map2_upt: "map2 f (map x [a..<b]) (map y [a..<b]) = map (\<lambda>i. f (x i) (y i)) [a..<b]"
  by (simp add: zip_map_map zip_same_conv_map comp_def)

lemma map_columns: "(\<And>j. f (map (x j) [0..<rows]) = map (y j) [0..<rows]) \<Longrightarrow>
    map f (tabulate rows columns x) = tabulate rows columns y"
  by (simp add: tabulate_def)

lemma map2_columns: "(\<And>j. f (map (x j) [0..<rows]) (map (y j) [0..<rows]) = map (z j) [0..<rows]) \<Longrightarrow>
    map2 f (tabulate rows columns x) (tabulate rows columns y) = tabulate rows columns z"
  by (simp add: tabulate_def map2_upt)

lemma rolling_cells:
  assumes "0 < w"
  shows "rolling fn w (map x [0..<rows]) = map (full_window fn w x) [0..<rows]"
proof (cases "w \<le> rows")
  case True
  show ?thesis
  proof (rule nth_equalityI)
    show "length (rolling fn w (map x [0..<rows])) = length (map (full_window fn w x) [0..<rows])"
      using True assms by (simp add: rolling_def)
    fix t assume "t < length (rolling fn w (map x [0..<rows]))"
    then have t: "t < rows" using True assms by (simp add: rolling_def)
    show "rolling fn w (map x [0..<rows]) ! t = map (full_window fn w x) [0..<rows] ! t"
    proof (cases "Suc t < w")
      case short: True
      then have "t < w - 1" by simp
      with short show ?thesis using True t by (simp add: rolling_def full_window_def nth_append)
    next
      case False
      have "take w (drop (t - (w - 1)) [0..<rows]) = [Suc t - w..<Suc t]"
        using False t assms by simp
      moreover have "\<not> t < w - 1" using False by simp
      ultimately show ?thesis using False True t assms
        by (simp add: rolling_def full_window_def nth_append window_of_cells_def take_map drop_map)
    qed
  qed
next
  case False
  then show ?thesis
    by (auto simp: rolling_def full_window_def map_replicate_const intro!: nth_equalityI)
qed

lemma delta_cells:
  "delta_op w (map x [0..<rows]) = map (\<lambda>t. if t < w then None else lift2 (-) (x t) (x (t - w))) [0..<rows]"
  by (cases "w < rows") (auto simp: delta_op_def nth_append intro!: nth_equalityI)

lemma zscore_cells:
  assumes "0 < w"
  shows "zscore_op rt w (map x [0..<rows]) =
    map (\<lambda>t. case full_window (std_of rt) w x t of
               None \<Rightarrow> None
             | Some s \<Rightarrow> if s < eps then Some 0
                         else lift2 (/) (lift2 (-) (x t) (full_window mean_of w x t)) (Some s)) [0..<rows]"
proof -
  have "lift2 (/) v None = None" for v by (cases v) simp_all
  then show ?thesis
    unfolding zscore_op_def Let_def rolling_cells [OF assms] map_map map2_upt comp_def
    by (auto split: option.split)
qed


lemma tabulate_cong:
  "(\<And>j t. j < columns \<Longrightarrow> t < rows \<Longrightarrow> x j t = y j t) \<Longrightarrow> tabulate rows columns x = tabulate rows columns y"
  by (simp add: tabulate_def)

lemma by_rows_cells:
  "by_rows f rows (tabulate rows columns x) =
     tabulate rows columns (\<lambda>j t. f (map (\<lambda>k. x k t) [0..<columns]) ! j)"
  by (simp add: by_rows_def Let_def tabulate_def row_of_def comp_def)

lemma those_Some: "those xs = Some ys \<longleftrightarrow> xs = map Some ys"
  by (induction xs arbitrary: ys) (auto split: option.splits)

lemma those_None: "those xs = None \<longleftrightarrow> None \<in> set xs"
  by (induction xs) (auto split: option.splits)

lemma scale_cells:
  assumes "j < n"
  shows "scale_row (map x [0..<n]) ! j =
    (case those (map x [0..<n]) of
       None \<Rightarrow> None
     | Some vs \<Rightarrow> let s = sum_list (map abs vs) in if abs s < eps then None else lift1 (\<lambda>v. v / s) (x j))"
proof (cases "those (map x [0..<n])")
  case None
  then show ?thesis using assms by (simp add: scale_row_def)
next
  case (Some vs)
  then have vs: "map x [0..<n] = map Some vs" by (simp add: those_Some)
  then have len: "length vs = n" by (metis length_map length_upt minus_nat.diff_0)
  have "x j = Some (vs ! j)" using arg_cong [OF vs, of "\<lambda>l. l ! j"] assms len by simp
  then show ?thesis using Some assms len by (simp add: scale_row_def Let_def)
qed

text \<open>The position of an index in the stable order: the smaller values, and the equal ones before it.\<close>

lemma argsort_props: "distinct (argsort vals)" "set (argsort vals) = {..<length vals}"
  by (auto simp: argsort_def)

lemma argsort_position:
  assumes "k < length vals"
  shows "argsort vals ! k < length vals \<and>
    k = length (filter (\<lambda>u. u < vals ! (argsort vals ! k)) vals) +
        length (filter (\<lambda>u. u = vals ! (argsort vals ! k)) (take (argsort vals ! k) vals))"
proof -
  let ?o = "argsort vals" and ?f = "\<lambda>i. vals ! i"
  let ?i = "?o ! k"
  have len: "length ?o = length vals" by (simp add: argsort_def)
  have i: "?i < length vals" using argsort_props(2) [of vals] assms len nth_mem [of k ?o] by auto
  have split: "?o = take k ?o @ ?i # drop (Suc k) ?o" using assms len by (simp add: id_take_nth_drop)
  have sorted: "sorted (map ?f ?o)" by (simp add: argsort_def)
  then have before: "\<forall>p \<in> set (take k ?o). ?f p \<le> ?f ?i" and after: "\<forall>p \<in> set (drop (Suc k) ?o). ?f ?i \<le> ?f p"
    by (subst (asm) split, auto simp: sorted_append)+
  have count: "length (filter P (map ?f ?o)) = length (filter P vals)" for P
  proof -
    have "mset (map ?f ?o) = mset (map ?f [0..<length vals])" by (simp add: argsort_def)
    then have "mset (map ?f ?o) = mset vals" by (simp add: map_nth)
    then show ?thesis by (metis mset_filter size_mset)
  qed
  have less: "length (filter (\<lambda>p. ?f p < ?f ?i) (take k ?o)) = length (filter (\<lambda>u. u < ?f ?i) vals)"
  proof -
    have "filter (\<lambda>p. ?f p < ?f ?i) ?o = filter (\<lambda>p. ?f p < ?f ?i) (take k ?o)"
      by (subst split) (use after in \<open>auto simp: filter_empty_conv\<close>)
    then show ?thesis using count [of "\<lambda>u. u < ?f ?i"] by (simp add: filter_map comp_def)
  qed
  have equal: "length (filter (\<lambda>p. ?f p = ?f ?i) (take k ?o)) = length (filter (\<lambda>u. u = ?f ?i) (take ?i vals))"
  proof -
    let ?E = "filter (\<lambda>p. ?f p = ?f ?i)"
    have "?E ?o = ?E [0..<length vals]" by (simp add: argsort_def sort_key_stable)
    moreover have "[0..<length vals] = [0..<?i] @ ?i # [Suc ?i..<length vals]"
      using i by (metis less_imp_le_nat upt_add_eq_append upt_conv_Cons le_add_diff_inverse zero_le)
    ultimately have "?E (take k ?o) @ ?i # ?E (drop (Suc k) ?o) = ?E [0..<?i] @ ?i # ?E [Suc ?i..<length vals]"
      by (subst (asm) (1) split) simp
    then have "?E [0..<?i] @ ?i # ?E [Suc ?i..<length vals] = ?E (take k ?o) @ ?i # ?E (drop (Suc k) ?o)" by simp
    then have "?E (take k ?o) = ?E [0..<?i]"
      by (subst (asm) append_Cons_eq_iff) auto
    moreover have "take ?i vals = map ?f [0..<?i]" using i by (intro nth_equalityI) auto
    ultimately show ?thesis by (simp add: filter_map comp_def)
  qed
  have "k = length (take k ?o)" using assms len by simp
  also have "\<dots> = length (filter (\<lambda>p. ?f p < ?f ?i) (take k ?o)) + length (filter (\<lambda>p. \<not> ?f p < ?f ?i) (take k ?o))"
    by (simp add: sum_length_filter_compl)
  also have "filter (\<lambda>p. \<not> ?f p < ?f ?i) (take k ?o) = filter (\<lambda>p. ?f p = ?f ?i) (take k ?o)"
    using before by (intro filter_cong) auto
  finally show ?thesis using i less equal by simp
qed

lemma enumerate_ranks:
  assumes "distinct order" and "\<forall>i \<in> set order. i < n" and "length order = n"
  shows "k < n \<Longrightarrow> foldl (\<lambda>r (k, i). r[i := rat_of_nat k]) (replicate n 0) (zip [0..<n] order) ! (order ! k) = rat_of_nat k"
proof -
  have "length (foldl (\<lambda>r (k, i). r[i := rat_of_nat k]) r (zip [a..<a + length xs] xs)) = length r \<and>
      (\<forall>k < length xs. foldl (\<lambda>r (k, i). r[i := rat_of_nat k]) r (zip [a..<a + length xs] xs) ! (xs ! k) = rat_of_nat (a + k))"
    if "distinct xs" "\<forall>i \<in> set xs. i < length r" for xs r a
    using that
  proof (induction xs rule: rev_induct)
    case (snoc x xs)
    then show ?case by (auto simp: nth_append less_Suc_eq nth_eq_iff_index_eq in_set_conv_nth)
  qed simp
  from this [of order "replicate n 0" 0] assms show "k < n \<Longrightarrow> ?thesis" by simp
qed


lemma rank_cells:
  assumes "j < n"
  shows "cs_rank_row (map x [0..<n]) ! j = cell_rank n x j"
proof -
  let ?row = "map x [0..<n]"
  let ?vals = "finite_values ?row"
  show ?thesis
  proof (cases "x j")
    case None
    then show ?thesis using assms by (simp add: cs_rank_row_def cell_rank_def Let_def)
  next
    case (Some v)
    show ?thesis
    proof (cases "length ?vals < 2")
      case True
      then show ?thesis using assms Some by (simp add: cs_rank_row_def cell_rank_def Let_def)
    next
      case False
      let ?before = "finite_values (map x [0..<j])"
      let ?i = "length ?before"
      have take: "take j ?row = map x [0..<j]" using assms by (simp add: take_map)
      have "?row = map x [0..<j] @ x j # map x [Suc j..<n]"
        using assms by (metis append_Cons append_Nil list.simps(9) map_append upt_add_eq_append upt_conv_Cons
            le_add_diff_inverse less_imp_le_nat zero_le)
      then have vals: "?vals = ?before @ v # finite_values (map x [Suc j..<n])"
        by (simp add: finite_values_append Some) (simp add: finite_values_def List.map_filter_simps)
      have i: "?i < length ?vals" "?vals ! ?i = v" "take ?i ?vals = ?before"
        unfolding vals by (simp_all add: nth_append)
      obtain k where k: "k < length ?vals" "argsort ?vals ! k = ?i"
        using argsort_props(2) [of ?vals] i(1) by (metis in_set_conv_nth length_map length_sort length_upt lessThan_iff argsort_def minus_nat.diff_0)
      have "foldl (\<lambda>r (k, i). r[i := rat_of_nat k]) (replicate (length ?vals) 0)
          (zip [0..<length ?vals] (argsort ?vals)) ! ?i = rat_of_nat k"
        unfolding k(2) [symmetric]
        by (rule enumerate_ranks [OF _ _ _ k(1)]) (use argsort_props [of ?vals] in \<open>auto simp: argsort_def\<close>)
      moreover have "k = length (filter (\<lambda>u. u < v) ?vals) + length (filter (\<lambda>u. u = v) ?before)"
        using argsort_position [OF k(1)] unfolding k(2) i(2,3) by simp
      ultimately show ?thesis
        using assms Some False by (simp add: cs_rank_row_def cell_rank_def Let_def take)
    qed
  qed
qed

lemma rank_at_take: "t < length col \<Longrightarrow> rank_at (take (Suc t) col) w t = rank_at col w t"
  by (simp add: rank_at_def window_values_def split: option.split)

lemma ts_rank_cells:
  assumes "2 \<le> w"
  shows "ts_rank rows (tabulate rows columns x) (int w) =
    Some (tabulate rows columns (\<lambda>j t. rank_at (map (x j) [0..<Suc t]) w t))"
proof -
  have "(if int w \<le> 1 \<or> int rows < int w then None else rank_at (map (x j) [0..<rows]) w t) =
      rank_at (map (x j) [0..<Suc t]) w t" if "t < rows" for j t
  proof -
    have "take (Suc t) (map (x j) [0..<rows]) = map (x j) [0..<Suc t]"
      using that by (simp add: take_map take_upt del: upt_Suc)
    then have "rank_at (map (x j) [0..<Suc t]) w t = rank_at (map (x j) [0..<rows]) w t"
      using rank_at_take [of t "map (x j) [0..<rows]" w] that by simp
    moreover have "rank_at (map (x j) [0..<rows]) w t = None" if "rows < w"
      using that \<open>t < rows\<close> by (simp add: rank_at_def Let_def split: option.split)
    ultimately show ?thesis using assms by auto
  qed
  then show ?thesis
    unfolding ts_rank_midranks [OF shaped_tabulate [unfolded shaped_def, THEN conjunct2]]
    by (auto simp: tabulate_def)
qed

subsection \<open>The rolling correlation is that of the complete pairs\<close>

lemma prefix_ends_nth: "k \<le> length xs \<Longrightarrow> prefix_ends xs ! k = sum_list (take k xs)"
proof -
  have "k < length xs \<Longrightarrow> cumsum acc xs ! k = acc + sum_list (take (Suc k) xs)" for acc k
    by (induction xs arbitrary: acc k) (auto simp: nth_Cons' take_Cons' gr0_conv_Suc)
  then show "k \<le> length xs \<Longrightarrow> prefix_ends xs ! k = sum_list (take k xs)"
    by (cases k) (simp_all add: prefix_ends_def)
qed

lemma length_prefix_ends [simp]: "length (prefix_ends xs) = Suc (length xs)"
proof -
  have "length (cumsum acc xs) = length xs" for acc by (induction xs arbitrary: acc) auto
  then show ?thesis by (simp add: prefix_ends_def)
qed

lemma window_sums_nth:
  assumes "i + w \<le> length xs"
  shows "window_sums w xs ! i = sum_list (take w (drop i xs))"
proof -
  have "take (i + w) xs = take i xs @ take w (drop i xs)" by (simp add: take_add)
  then show ?thesis
    using assms by (simp add: window_sums_def Let_def prefix_ends_nth add.commute)
qed

lemma length_window_sums [simp]: "length (window_sums w xs) = Suc (length xs) - w"
  by (simp add: window_sums_def Let_def)

lemma masked_sum:
  "sum_list (map (\<lambda>(x, y). masked f x y) ps) = sum_list (map (\<lambda>(x, y). f x y) (complete_pairs ps))"
  by (induction ps) (auto simp: complete_pairs_def masked_def List.map_filter_simps split: option.splits)

lemma corr_cells:
  assumes "2 \<le> w" and "w \<le> rows"
  shows "corr_column rt w (map x [0..<rows]) (map y [0..<rows]) =
    map (\<lambda>t. if Suc t < w then None
             else pearson rt (complete_pairs (window_of_cells (\<lambda>i. (x i, y i)) w t))) [0..<rows]"
proof -
  let ?wsum = "\<lambda>f. window_sums w (map2 (masked f) (map x [0..<rows]) (map y [0..<rows]))"
  have sums: "?wsum f ! (Suc t - w) =
      sum_list (map (\<lambda>(x, y). f x y) (complete_pairs (window_of_cells (\<lambda>i. (x i, y i)) w t)))"
    if "t < rows" "\<not> Suc t < w" for f t
  proof -
    have "?wsum f ! (Suc t - w) = sum_list (take w (drop (Suc t - w) (map (\<lambda>i. masked f (x i) (y i)) [0..<rows])))"
      using that assms by (simp add: map2_upt window_sums_nth)
    also have "take w (drop (Suc t - w) (map (\<lambda>i. masked f (x i) (y i)) [0..<rows])) =
        map (\<lambda>(x, y). masked f x y) (window_of_cells (\<lambda>i. (x i, y i)) w t)"
      using that assms by (simp add: take_map drop_map window_of_cells_def comp_def)
    finally show ?thesis by (simp only: masked_sum)
  qed
  have len: "length (?wsum f) = Suc rows - w" for f by simp
  have pr: "(\<lambda>(x :: rat, y :: rat). x) = fst" "(\<lambda>(x :: rat, y :: rat). y) = snd"
    "(\<lambda>(x :: rat, y :: rat). 1 :: rat) = (\<lambda>_. 1)" by auto
  show ?thesis
  proof (rule nth_equalityI)
    show "length (corr_column rt w (map x [0..<rows]) (map y [0..<rows])) =
        length (map (\<lambda>t. if Suc t < w then None
             else pearson rt (complete_pairs (window_of_cells (\<lambda>i. (x i, y i)) w t))) [0..<rows])"
      using assms by (simp add: corr_column_def Let_def)
    fix t assume "t < length (corr_column rt w (map x [0..<rows]) (map y [0..<rows]))"
    then have t: "t < rows" using assms by (simp add: corr_column_def Let_def)
    show "corr_column rt w (map x [0..<rows]) (map y [0..<rows]) ! t =
        map (\<lambda>t. if Suc t < w then None
             else pearson rt (complete_pairs (window_of_cells (\<lambda>i. (x i, y i)) w t))) [0..<rows] ! t"
    proof (cases "Suc t < w")
      case True
      then have "t < w - 1" by simp
      with True t show ?thesis by (simp add: corr_column_def Let_def nth_append)
    next
      case False
      then have "\<not> t < w - 1" "t - (w - 1) = Suc t - w" using assms(1) by auto
      then show ?thesis
        using False t assms
        by (simp add: corr_column_def Let_def nth_append len sums pearson_def pr sum_list_triv)
    qed
  qed
qed


subsection \<open>The evaluator computes the reference semantics\<close>

lemma map2_apply_columns:
  "map2 (map2 f) (tabulate rows columns x) (tabulate rows columns y) =
     tabulate rows columns (\<lambda>j t. f (x j t) (y j t))"
  by (rule map2_columns) (simp add: map2_upt)

lemma apply_op_cells:
  assumes "window_ok p w" and "args ! 0 = tabulate rows columns x"
    and "arity p = 2 \<Longrightarrow> args ! 1 = tabulate rows columns y"
  shows "apply_op rt log1p rows p args w =
    Inr (tabulate rows columns (cell rt log1p columns p (nat (case w of None \<Rightarrow> 0 | Some i \<Rightarrow> i)) x y))"
proof -
  have two: "\<exists>n. w = Some (int n) \<and> 2 \<le> n" if "windowed p"
    using that assms(1) by (auto simp: window_ok_def intro!: exI [of _ "nat (the w)"] split: option.splits)
  have corr: "ts_corr rt rows (tabulate rows columns x) (tabulate rows columns y) (int n) =
      Some (tabulate rows columns (\<lambda>j t. if Suc t < n then None
             else pearson rt (complete_pairs (window_of_cells (\<lambda>i. (x j i, y j i)) n t))))" if "2 \<le> n" for n
  proof (cases "rows < n")
    case True
    then have "map (\<lambda>_. replicate rows None) (tabulate rows columns x) = tabulate rows columns (\<lambda>j t. if Suc t < n then None
             else pearson rt (complete_pairs (window_of_cells (\<lambda>i. (x j i, y j i)) n t)))"
      by (auto simp: tabulate_def map_replicate_const intro!: nth_equalityI)
    then show ?thesis using True by (simp add: ts_corr_def tabulate_def)
  next
    case False
    then show ?thesis
      using that map2_columns [where f = "corr_column rt n" and rows = rows and x = x and y = y, OF corr_cells [OF that]]
      by (simp add: ts_corr_def) (simp add: tabulate_def)
  qed
  show ?thesis
  proof (cases p)
    case OpRank
    then show ?thesis
      using assms(2) rank_cells by (auto simp: apply_op_def cell_def [abs_def] by_rows_cells intro!: tabulate_cong)
  next
    case OpTsRank
    then obtain n where "w = Some (int n)" "2 \<le> n" using two by (auto simp: windowed_def)
    then show ?thesis using OpTsRank assms(2) by (simp add: apply_op_def cell_def [abs_def] ts_rank_cells)
  next
    case OpTsMean
    then obtain n where "w = Some (int n)" "2 \<le> n" using two by (auto simp: windowed_def)
    then show ?thesis using OpTsMean assms(2)
      by (simp add: apply_op_def cell_def [abs_def]) (rule map_columns, simp add: rolling_cells)
  next
    case OpTsStd
    then obtain n where "w = Some (int n)" "2 \<le> n" using two by (auto simp: windowed_def)
    then show ?thesis using OpTsStd assms(2)
      by (simp add: apply_op_def cell_def [abs_def]) (rule map_columns, simp add: rolling_cells)
  next
    case OpTsMax
    then obtain n where "w = Some (int n)" "2 \<le> n" using two by (auto simp: windowed_def)
    then show ?thesis using OpTsMax assms(2)
      by (simp add: apply_op_def cell_def [abs_def]) (rule map_columns, simp add: rolling_cells)
  next
    case OpTsMin
    then obtain n where "w = Some (int n)" "2 \<le> n" using two by (auto simp: windowed_def)
    then show ?thesis using OpTsMin assms(2)
      by (simp add: apply_op_def cell_def [abs_def]) (rule map_columns, simp add: rolling_cells)
  next
    case OpDelta
    then obtain n where "w = Some (int n)" "2 \<le> n" using two by (auto simp: windowed_def)
    then show ?thesis using OpDelta assms(2)
      by (simp add: apply_op_def cell_def [abs_def]) (rule map_columns, simp add: delta_cells)
  next
    case OpZscore
    then obtain n where "w = Some (int n)" "2 \<le> n" using two by (auto simp: windowed_def)
    then show ?thesis using OpZscore assms(2)
      by (simp add: apply_op_def cell_def [abs_def]) (rule map_columns, simp add: zscore_cells)
  next
    case OpScale
    then show ?thesis
      using assms(2) scale_cells by (auto simp: apply_op_def cell_def [abs_def] by_rows_cells intro!: tabulate_cong)
  next
    case OpTsCorr
    then obtain n where "w = Some (int n)" "2 \<le> n" using two by (auto simp: windowed_def)
    then show ?thesis using OpTsCorr assms(2,3) corr by (simp add: apply_op_def cell_def [abs_def] arity_def)
  qed (use assms(2,3) in \<open>simp_all add: apply_op_def cell_def [abs_def] arity_def map2_apply_columns,
        simp_all add: tabulate_def comp_def\<close>)
qed

text \<open>The fields of the leaves, from left to right, and the first one the panel lacks.\<close>

fun leaf_fields :: "expr \<Rightarrow> field_name list" where
  "leaf_fields (Expr None f w cs) = [the f]"
| "leaf_fields (Expr (Some p) f w cs) = concat (map leaf_fields cs)"

definition panel_cells :: "(field_name \<times> matrix) list \<Rightarrow> field_name \<Rightarrow> nat \<Rightarrow> nat \<Rightarrow> rat option" where
  "panel_cells panel f j t = the (map_of panel f) ! j ! t"

definition panel_ok :: "nat \<Rightarrow> nat \<Rightarrow> (field_name \<times> matrix) list \<Rightarrow> bool" where
  "panel_ok rows columns panel \<longleftrightarrow> list_all (\<lambda>(f, m). shaped rows columns m) panel"

definition reference ::
  "(rat \<Rightarrow> rat) \<Rightarrow> (rat \<Rightarrow> rat) \<Rightarrow> nat \<Rightarrow> nat \<Rightarrow> (field_name \<times> matrix) list \<Rightarrow> expr \<Rightarrow> eval_error + matrix" where
  "reference rt log1p rows columns panel e =
     (case find (\<lambda>f. map_of panel f = None) (leaf_fields e) of
        Some f \<Rightarrow> Inl (MissingField (Some f))
      | None \<Rightarrow> Inr (tabulate rows columns (denote rt log1p columns (panel_cells panel) e)))"

lemma find_append: "find P (xs @ ys) = (case find P xs of None \<Rightarrow> find P ys | Some x \<Rightarrow> Some x)"
  by (induction xs) auto

lemma arity_cases:
  assumes "length cs = arity p"
  obtains (one) a where "cs = [a]" and "arity p = 1" | (two) a b where "cs = [a, b]" and "arity p = 2"
  using assms by (cases "arity p = 2") (auto simp: arity_def length_Suc_conv numeral_2_eq_2 split: if_splits)

lemma evaluate_reference:
  assumes "panel_ok rows columns panel" and "built e"
  shows "evaluate rt log1p rows panel e = reference rt log1p rows columns panel e"
  using assms(2)
proof (induction rule: built_induct)
  case (leaf f)
  show ?case
  proof (cases "map_of panel f")
    case None
    then show ?thesis by (simp add: leaf_def reference_def)
  next
    case (Some m)
    then have "shaped rows columns m"
      using assms(1) map_of_SomeD [OF Some] by (auto simp: panel_ok_def list_all_iff)
    from tabulate_nth [OF this] Some show ?thesis
      by (simp add: leaf_def reference_def panel_cells_def fun_eq_iff)
  qed
next
  case (node p w cs)
  let ?d = "denote rt log1p columns (panel_cells panel)"
  show ?case
  proof (cases rule: arity_cases [OF node(1)])
    case (1 a)
    then have "evaluate rt log1p rows panel a = reference rt log1p rows columns panel a" using node(4) by simp
    then show ?thesis
      using apply_op_cells [OF node(2), of "[tabulate rows columns (?d a)]" rows columns "?d a" "[?d a] ! 1"] 1
      by (simp add: reference_def split: option.split)
  next
    case (2 a b)
    then have "evaluate rt log1p rows panel a = reference rt log1p rows columns panel a"
      "evaluate rt log1p rows panel b = reference rt log1p rows columns panel b" using node(4) by simp_all
    then show ?thesis
      using apply_op_cells [OF node(2), of "[tabulate rows columns (?d a), tabulate rows columns (?d b)]"
          rows columns "?d a" "?d b"] 2
      by (simp add: reference_def find_append split: option.split)
  qed
qed


text \<open>
  C10: Over any panel of one shape, evaluating an expression of the constructors gives the matrix of its
  reference semantics, or names the first leaf, from the left, whose field the panel lacks; nothing
  else fails.
\<close>

theorem evaluate_exact:
  assumes "panel_ok rows columns panel" and "built e"
  shows "evaluate rt log1p rows panel e =
    (case find (\<lambda>f. map_of panel f = None) (leaf_fields e) of
       Some f \<Rightarrow> Inl (MissingField (Some f))
     | None \<Rightarrow> Inr (tabulate rows columns (denote rt log1p columns (panel_cells panel) e)))"
  using evaluate_reference [OF assms] by (simp only: reference_def)

theorem evaluate_exact_witness:
  "let panel = [(FieldClose, [[Some 1, Some 3, None]])]
   in evaluate id id 3 panel (Expr (Some OpAdd) None None [leaf FieldClose, leaf FieldOpen]) =
        Inl (MissingField (Some FieldOpen)) \<and>
      panel_ok 3 1 panel"
proof -
  let ?panel = "[(FieldClose, [[Some 1, Some 3, None]])]"
  let ?e = "Expr (Some OpAdd) None None [leaf FieldClose, leaf FieldOpen]"
  have ok: "panel_ok 3 1 ?panel" "built ?e"
    by (simp_all add: panel_ok_def shaped_def built_node arity_def window_ok_def windowed_def built_leaf)
  with evaluate_exact [OF this, of id id] show ?thesis by (simp add: leaf_def Let_def)
qed

subsection \<open>No look-ahead\<close>

lemma cell_causal:
  assumes "\<And>k s. k < columns \<Longrightarrow> s \<le> t \<Longrightarrow> x k s = x' k s"
    and "\<And>k s. k < columns \<Longrightarrow> s \<le> t \<Longrightarrow> arity p = 2 \<Longrightarrow> y k s = y' k s" and "j < columns"
  shows "cell rt log1p columns p w x y j t = cell rt log1p columns p w x' y' j t"
proof -
  have win: "window_of_cells (x j) w t = window_of_cells (x' j) w t"
    using assms(1) [OF assms(3)] by (simp add: window_of_cells_def del: upt_Suc)
  have full: "full_window fn w (x j) t = full_window fn w (x' j) t" for fn
    by (simp add: full_window_def win)
  have row: "map (\<lambda>k. x k t) [0..<n] = map (\<lambda>k. x' k t) [0..<n]" if "n \<le> columns" for n
    using assms(1) that by simp
  have past: "map (x j) [0..<Suc t] = map (x' j) [0..<Suc t]"
    using assms(1) [OF assms(3)] by (simp add: less_Suc_eq_le del: upt_Suc)
  have here: "x j t = x' j t" "x j (t - w) = x' j (t - w)" using assms(1,3) by simp_all
  have there: "y j t = y' j t" if "arity p = 2" using assms(2,3) that by simp
  have pairs: "window_of_cells (\<lambda>i. (x j i, y j i)) w t = window_of_cells (\<lambda>i. (x' j i, y' j i)) w t"
    if "arity p = 2"
    using assms that by (simp add: window_of_cells_def del: upt_Suc)
  have rank: "cell_rank columns (\<lambda>k. x k t) j = cell_rank columns (\<lambda>k. x' k t) j"
    unfolding cell_rank_def row [OF order_refl] row [OF less_imp_le [OF assms(3)]] here(1) ..
  show ?thesis
    by (cases p) (simp_all only: cell_def op_name.case full past here rank row [OF order_refl] there pairs arity_def
      list.set insert_iff simp_thms if_True)
qed

lemma denote_causal:
  assumes "built e" and "\<And>f k s. k < columns \<Longrightarrow> s \<le> t \<Longrightarrow> panel f k s = panel' f k s"
  shows "s \<le> t \<Longrightarrow> j < columns \<Longrightarrow>
    denote rt log1p columns panel e j s = denote rt log1p columns panel' e j s"
  using assms(1)
proof (induction arbitrary: j s rule: built_induct)
  case (leaf f)
  then show ?case using assms(2) by (simp add: leaf_def)
next
  case (node p w cs)
  show ?case
  proof (cases rule: arity_cases [OF node(1)])
    case (1 a)
    then show ?thesis using node(4,5,6) by (auto intro!: cell_causal)
  next
    case (2 a b)
    then show ?thesis using node(4,5,6) by (auto intro!: cell_causal)
  qed
qed

lemma denote_fields:
  assumes "built e"
  shows "(\<And>f. f \<in> set (leaf_fields e) \<Longrightarrow> panel f = panel' f) \<Longrightarrow>
    denote rt log1p columns panel e = denote rt log1p columns panel' e"
  using assms
proof (induction rule: built_induct)
  case (node p w cs)
  have "denote rt log1p columns panel c = denote rt log1p columns panel' c" if "c \<in> set cs" for c
    using that node(5) by (intro node(4)) auto
  then have "map (denote rt log1p columns panel) cs = map (denote rt log1p columns panel') cs" by simp
  then show ?case by (simp only: denote.simps)
qed (simp add: leaf_def)

definition panel_until :: "nat \<Rightarrow> (field_name \<times> matrix) list \<Rightarrow> (field_name \<times> matrix) list" where
  "panel_until n panel = map (\<lambda>(f, m). (f, map (take n) m)) panel"

text \<open>
  C9: No factor looks ahead: evaluating on the first rows of the panel gives the first rows of the
  evaluation on the whole panel, for every expression.
\<close>

theorem evaluate_no_lookahead:
  assumes "panel_ok rows columns panel" and "built e" and "n \<le> rows"
  shows "evaluate rt log1p n (panel_until n panel) e =
    map_sum id (map (take n)) (evaluate rt log1p rows panel e)"
proof -
  have ok: "panel_ok n columns (panel_until n panel)"
    using assms(1,3) by (auto simp: panel_ok_def panel_until_def shaped_def list_all_iff split: prod.splits)
  have map_of: "map_of (panel_until n panel) f = map_option (map (take n)) (map_of panel f)" for f
    unfolding panel_until_def by (induction panel) auto
  have "denote rt log1p columns (panel_cells (panel_until n panel)) e j t = denote rt log1p columns (panel_cells panel) e j t"
    if none: "find (\<lambda>f. map_of panel f = None) (leaf_fields e) = None" and j: "j < columns" and t: "t < n" for j t
  proof -
    let ?P = "\<lambda>panel f k s. if map_of panel f = None then None else panel_cells panel f k s"
    have agree: "denote rt log1p columns (panel_cells q) e = denote rt log1p columns (?P q) e"
      if "find (\<lambda>f. map_of q f = None) (leaf_fields e) = None" for q
      by (rule denote_fields [OF assms(2)]) (use that in \<open>auto simp: find_None_iff\<close>)
    have "?P (panel_until n panel) f k s = ?P panel f k s" if "k < columns" "s \<le> t" for f k s
    proof (cases "map_of panel f")
      case (Some m)
      then have "shaped rows columns m"
        using assms(1) map_of_SomeD [OF Some] by (auto simp: panel_ok_def list_all_iff)
      then show ?thesis using Some that t assms(3) by (simp add: map_of panel_cells_def shaped_def)
    qed (simp add: map_of)
    then have "denote rt log1p columns (?P (panel_until n panel)) e j t = denote rt log1p columns (?P panel) e j t"
      by (intro denote_causal [OF assms(2) _ order_refl j])
    then show ?thesis using agree [of panel] agree [of "panel_until n panel"] none by (simp add: map_of)
  qed
  moreover have "map (take n) (tabulate rows columns x) = tabulate n columns x" for x
    using assms(3) by (simp add: tabulate_def comp_def take_map)
  ultimately show ?thesis
    unfolding evaluate_reference [OF ok assms(2)] evaluate_reference [OF assms(1,2)] reference_def
    by (auto simp: map_of intro: tabulate_cong split: option.split)
qed

theorem evaluate_no_lookahead_witness:
  "let panel = [(FieldClose, [[Some 1, Some 3, None, Some 5]])];
       e = Expr (Some OpTsMean) None (Some 2) [leaf FieldClose]
   in evaluate id id 2 (panel_until 2 panel) e = Inr [[None, Some 2]] \<and>
      map_sum id (map (take 2)) (evaluate id id 4 panel e) = Inr [[None, Some 2]]"
proof -
  let ?panel = "[(FieldClose, [[Some 1, Some 3, None, Some 5]])]"
  let ?e = "Expr (Some OpTsMean) None (Some 2) [leaf FieldClose]"
  have ok: "panel_ok 4 1 ?panel" "built ?e"
    by (simp_all add: panel_ok_def shaped_def built_node arity_def window_ok_def windowed_def built_leaf)
  have "evaluate id id 2 (panel_until 2 ?panel) ?e = Inr [[None, Some 2]]"
    by (simp add: panel_until_def leaf_def apply_op_def rolling_def reduce_window_def mean_of_def upt_rec)
  with evaluate_no_lookahead [OF ok, of 2 id id] show ?thesis by (simp add: Let_def)
qed


subsection \<open>Bounds\<close>

lemma cauchy_schwarz_list:
  fixes ps :: "(rat \<times> rat) list"
  shows "(\<Sum>(u, v)\<leftarrow>ps. u * v) * (\<Sum>(u, v)\<leftarrow>ps. u * v) \<le> (\<Sum>(u, v)\<leftarrow>ps. u * u) * (\<Sum>(u, v)\<leftarrow>ps. v * v)"
proof (induction ps)
  case (Cons p ps)
  obtain u v where p: "p = (u, v)" by (cases p)
  let ?S = "\<Sum>(u, v)\<leftarrow>ps. u * v" and ?U = "\<Sum>(u, v)\<leftarrow>ps. u * u" and ?V = "\<Sum>(u, v)\<leftarrow>ps. v * v"
  have nonneg: "0 \<le> ?U" "0 \<le> ?V" by (auto intro!: sum_list_nonneg)
  have "2 * ?S * u * v \<le> ?U * (v * v) + ?V * (u * u)"
  proof (rule power2_le_imp_le)
    have "(2 * ?S * u * v)\<^sup>2 = 4 * (?S * ?S) * ((u * u) * (v * v))" by (simp add: power2_eq_square)
    also have "\<dots> \<le> 4 * (?U * ?V) * ((u * u) * (v * v))"
      using Cons by (intro mult_right_mono mult_left_mono) auto
    also have "\<dots> \<le> (?U * (v * v) + ?V * (u * u))\<^sup>2"
      using sum_squares_bound [of "?U * (v * v)" "?V * (u * u)"] by (simp add: power2_eq_square algebra_simps)
    finally show "(2 * ?S * u * v)\<^sup>2 \<le> (?U * (v * v) + ?V * (u * u))\<^sup>2" .
    show "0 \<le> ?U * (v * v) + ?V * (u * u)" using nonneg by simp
  qed
  then show ?case using Cons by (simp add: p algebra_simps)
qed simp

text \<open>The covariance of the pairs of a window is at most the geometric mean of their variances.\<close>

lemma covariance_bound:
  fixes ps :: "(rat \<times> rat) list"
  defines "n \<equiv> rat_of_nat (length ps)"
  defines "cov \<equiv> (\<Sum>(x, y)\<leftarrow>ps. x * y) * n - sum_list (map fst ps) * sum_list (map snd ps)"
  defines "var_a \<equiv> (\<Sum>(x, y)\<leftarrow>ps. x * x) * n - sum_list (map fst ps) * sum_list (map fst ps)"
  defines "var_b \<equiv> (\<Sum>(x, y)\<leftarrow>ps. y * y) * n - sum_list (map snd ps) * sum_list (map snd ps)"
  assumes "ps \<noteq> []"
  shows "cov * cov \<le> var_a * var_b \<and> 0 \<le> var_a \<and> 0 \<le> var_b"
proof -
  let ?A = "sum_list (map fst ps)" and ?B = "sum_list (map snd ps)"
  have n: "0 < n" using assms(5) by (simp add: n_def)
  let ?qs = "map (\<lambda>(x, y). (n * x - ?A, n * y - ?B)) ps"
  have shifted: "(\<Sum>(x, y)\<leftarrow>ps. (n * x - a) * (n * y - b)) =
      n * n * (\<Sum>(x, y)\<leftarrow>ps. x * y) - n * b * ?A - n * a * ?B + n * a * b" for a b
  proof -
    have "(\<Sum>(x, y)\<leftarrow>qs. (n * x - a) * (n * y - b)) =
        n * n * (\<Sum>(x, y)\<leftarrow>qs. x * y) - n * b * sum_list (map fst qs) - n * a * sum_list (map snd qs) +
        rat_of_nat (length qs) * a * b" for qs :: "(rat \<times> rat) list"
      by (induction qs) (auto simp: algebra_simps)
    from this [of ps] show ?thesis by (simp add: n_def)
  qed
  have shifted_l: "(\<Sum>(x, y)\<leftarrow>ps. (n * x - a) * (n * x - a)) = n * n * (\<Sum>(x, y)\<leftarrow>ps. x * x) - 2 * n * a * ?A + n * a * a" for a
  proof -
    have "(\<Sum>(x, y)\<leftarrow>qs. (n * x - a) * (n * x - a)) =
        n * n * (\<Sum>(x, y)\<leftarrow>qs. x * x) - 2 * n * a * sum_list (map fst qs) + rat_of_nat (length qs) * a * a"
      for qs :: "(rat \<times> rat) list"
      by (induction qs) (auto simp: algebra_simps)
    from this [of ps] show ?thesis by (simp add: n_def)
  qed
  have shifted_r: "(\<Sum>(x, y)\<leftarrow>ps. (n * y - a) * (n * y - a)) = n * n * (\<Sum>(x, y)\<leftarrow>ps. y * y) - 2 * n * a * ?B + n * a * a" for a
  proof -
    have "(\<Sum>(x, y)\<leftarrow>qs. (n * y - a) * (n * y - a)) =
        n * n * (\<Sum>(x, y)\<leftarrow>qs. y * y) - 2 * n * a * sum_list (map snd qs) + rat_of_nat (length qs) * a * a"
      for qs :: "(rat \<times> rat) list"
      by (induction qs) (auto simp: algebra_simps)
    from this [of ps] show ?thesis by (simp add: n_def)
  qed
  have qs: "(\<Sum>(u, v)\<leftarrow>?qs. u * v) = n * cov" "(\<Sum>(u, v)\<leftarrow>?qs. u * u) = n * var_a" "(\<Sum>(u, v)\<leftarrow>?qs. v * v) = n * var_b"
    using shifted [of ?A ?B] shifted_l [of ?A] shifted_r [of ?B]
    by (simp_all add: comp_def case_prod_unfold cov_def var_a_def var_b_def algebra_simps)
  have "0 \<le> (\<Sum>(u, v)\<leftarrow>?qs. u * u)" "0 \<le> (\<Sum>(u, v)\<leftarrow>?qs. v * v)" by (auto intro!: sum_list_nonneg)
  then have "0 \<le> n * var_a" "0 \<le> n * var_b" unfolding qs by - assumption+
  moreover have "n * n * (cov * cov) \<le> n * n * (var_a * var_b)"
    using cauchy_schwarz_list [of ?qs] unfolding qs by (simp add: algebra_simps)
  ultimately show ?thesis using n by (simp add: zero_le_mult_iff mult_le_cancel_left)
qed

text \<open>
  Where a correlation is defined it lies between -1 and 1, provided the square root is not rounded
  down: the covariance can never exceed the product of the deviations.
\<close>

theorem rolling_correlation_bounds:
  assumes "\<And>v. 0 \<le> v \<Longrightarrow> v \<le> rt v * rt v" and "2 \<le> w" and "w \<le> rows"
  shows "list_all (\<lambda>c. case c of None \<Rightarrow> True | Some r \<Rightarrow> - 1 \<le> r \<and> r \<le> 1)
    (corr_column rt w (map x [0..<rows]) (map y [0..<rows]))"
proof -
  have "- 1 \<le> r \<and> r \<le> 1" if some: "pearson rt ps = Some r" for ps r
  proof -
    let ?n = "rat_of_nat (length ps)"
    let ?cov = "(\<Sum>(x, y)\<leftarrow>ps. x * y) * ?n - sum_list (map fst ps) * sum_list (map snd ps)"
    let ?va = "(\<Sum>(x, y)\<leftarrow>ps. x * x) * ?n - sum_list (map fst ps) * sum_list (map fst ps)"
    let ?vb = "(\<Sum>(x, y)\<leftarrow>ps. y * y) * ?n - sum_list (map snd ps) * sum_list (map snd ps)"
    let ?d = "rt (max ?va 0 * max ?vb 0)"
    have r: "r = ?cov / ?d" "0 < ?d" "2 \<le> ?n"
      using some by (auto simp: pearson_def corr_cell_def Let_def split: if_splits)
    then have ps: "ps \<noteq> []" by auto
    from covariance_bound [OF this] have cb: "?cov * ?cov \<le> ?va * ?vb" "0 \<le> ?va" "0 \<le> ?vb" by simp_all
    have "?cov * ?cov \<le> ?d * ?d"
      using assms(1) [of "max ?va 0 * max ?vb 0"] cb by (simp add: max_absorb1)
    then have "abs ?cov \<le> abs ?d" by (simp add: abs_le_square_iff power2_eq_square)
    then have "abs ?cov \<le> ?d" using r(2) by simp
    then show ?thesis using r(1,2) by (simp add: abs_le_iff divide_le_eq le_divide_eq)
  qed
  then show ?thesis
    unfolding corr_cells [OF assms(2,3)] by (auto simp: list_all_iff split: option.split)
qed

theorem rolling_correlation_bounds_witness:
  "list_all (\<lambda>c. case c of None \<Rightarrow> True | Some r \<Rightarrow> - 1 \<le> r \<and> r \<le> (1 :: rat))
    (corr_column (\<lambda>v. v + 1) 2 (map (\<lambda>t. Some (rat_of_nat t)) [0..<3]) (map (\<lambda>t. Some (rat_of_nat (t * t))) [0..<3]))"
proof (rule rolling_correlation_bounds)
  fix v :: rat assume "0 \<le> v"
  then have "0 \<le> v * v" by simp
  moreover have "(v + 1) * (v + 1) = v * v + 2 * v + 1" by (simp add: algebra_simps)
  ultimately show "v \<le> (v + 1) * (v + 1)" using \<open>0 \<le> v\<close> by linarith
qed simp_all

end
