(* ===== verification/HeapQueue.thy ===== *)
theory HeapQueue
  imports Main "HOL-Library.Multiset"
begin

text \<open>
  The module \<open>heapq\<close> of the standard library as CPython implements it: a list whose entry \<open>k\<close> has
  the children \<open>2 * k + 1\<close> and \<open>2 * k + 2\<close>. The comparison \<open>lt\<close> answers None where
  Python raises \<open>TypeError\<close>; the list is then left as the exchanges made so far have it. The locale
  \<open>heap_order\<close> states what the entries must promise (the comparison, where it answers, is that of a
  key), and what follows: no entry is lost by a push, and without an error the first entry is a least one.
\<close>

subsection \<open>Pushing and popping\<close>

definition swap_at :: "'a list \<Rightarrow> nat \<Rightarrow> nat \<Rightarrow> 'a list" where
  "swap_at xs i j = xs[i := xs ! j, j := xs ! i]"

text \<open>\<open>siftdown(heap, 0, pos)\<close>: the entry moves towards the root. The flag says that it returned.\<close>

function siftdown :: "('a \<Rightarrow> 'a \<Rightarrow> bool option) \<Rightarrow> 'a list \<Rightarrow> nat \<Rightarrow> 'a list \<times> bool" where
  "siftdown lt xs pos =
     (if pos = 0 then (xs, True)
      else case lt (xs ! pos) (xs ! ((pos - 1) div 2)) of
        None \<Rightarrow> (xs, False)
      | Some False \<Rightarrow> (xs, True)
      | Some True \<Rightarrow> siftdown lt (swap_at xs pos ((pos - 1) div 2)) ((pos - 1) div 2))"
  by pat_completeness auto
termination by (relation "measure (\<lambda>(lt, xs, pos). pos)") auto

declare siftdown.simps [simp del]

text \<open>\<open>siftup(heap, pos)\<close>: the smaller child moves up until \<open>pos\<close> has none.\<close>

function siftup :: "('a \<Rightarrow> 'a \<Rightarrow> bool option) \<Rightarrow> 'a list \<Rightarrow> nat \<Rightarrow> 'a list \<times> bool" where
  "siftup lt xs pos =
     (if pos < length xs div 2 then
        (if 2 * pos + 2 < length xs then
           (case lt (xs ! (2 * pos + 1)) (xs ! (2 * pos + 2)) of
              None \<Rightarrow> (xs, False)
            | Some True \<Rightarrow> siftup lt (swap_at xs pos (2 * pos + 1)) (2 * pos + 1)
            | Some False \<Rightarrow> siftup lt (swap_at xs pos (2 * pos + 2)) (2 * pos + 2))
         else siftup lt (swap_at xs pos (2 * pos + 1)) (2 * pos + 1))
      else siftdown lt xs pos)"
  by pat_completeness auto
termination by (relation "measure (\<lambda>(lt, xs, pos). length xs - pos)") (auto simp: swap_at_def)

declare siftup.simps [simp del]

definition heap_push :: "('a \<Rightarrow> 'a \<Rightarrow> bool option) \<Rightarrow> 'a \<Rightarrow> 'a list \<Rightarrow> 'a list \<times> bool" where
  "heap_push lt e xs = siftdown lt (xs @ [e]) (length xs)"

text \<open>The entry popped, with the list that is left; None when a comparison raised: the entry is lost.\<close>

definition heap_pop :: "('a \<Rightarrow> 'a \<Rightarrow> bool option) \<Rightarrow> 'a list \<Rightarrow> 'a list \<times> 'a option" where
  "heap_pop lt xs =
     (let rest = butlast xs
      in if rest = [] then ([], Some (hd xs))
         else case siftup lt (rest[0 := List.last xs]) 0 of
                (ys, returned) \<Rightarrow> (ys, if returned then Some (hd xs) else None))"

subsection \<open>No entry is lost by the exchanges\<close>

lemma mset_swap_at [simp]: "i < length xs \<Longrightarrow> j < length xs \<Longrightarrow> mset (swap_at xs i j) = mset xs"
  by (simp add: swap_at_def mset_swap)

lemma length_swap_at [simp]: "length (swap_at xs i j) = length xs"
  by (simp add: swap_at_def)

lemma nth_swap_at:
  "i < length xs \<Longrightarrow> j < length xs \<Longrightarrow> swap_at xs i j ! k = (if k = j then xs ! i else if k = i then xs ! j else xs ! k)"
  by (simp add: swap_at_def nth_list_update)

lemma siftdown_mset: "siftdown lt xs pos = (ys, b) \<Longrightarrow> pos < length xs \<Longrightarrow> mset ys = mset xs"
proof (induction lt xs pos arbitrary: ys b rule: siftdown.induct)
  case (1 lt xs pos)
  show ?case
  proof (cases "pos \<noteq> 0 \<and> lt (xs ! pos) (xs ! ((pos - 1) div 2)) = Some True")
    case True
    then have run: "siftdown lt (swap_at xs pos ((pos - 1) div 2)) ((pos - 1) div 2) = (ys, b)"
      using 1(2) by (simp add: siftdown.simps [of lt xs pos])
    have "(pos - 1) div 2 < length xs" using 1(3) by simp
    with 1(1) [OF _ _ _ run] True 1(3) show ?thesis by simp
  next
    case False
    then show ?thesis using 1(2) by (auto simp: siftdown.simps [of lt xs pos] split: option.splits bool.splits if_splits)
  qed
qed

lemma siftup_mset: "siftup lt xs pos = (ys, b) \<Longrightarrow> pos < length xs \<Longrightarrow> mset ys = mset xs"
proof (induction lt xs pos arbitrary: ys b rule: siftup.induct)
  case (1 lt xs pos)
  show ?case
  proof (cases "pos < length xs div 2")
    case False
    then show ?thesis using 1(4,5) by (auto simp: siftup.simps [of lt xs pos] dest: siftdown_mset)
  next
    case inner: True
    then have left: "2 * pos + 1 < length xs" by linarith
    show ?thesis
    proof (cases "2 * pos + 2 < length xs")
      case two: True
      show ?thesis
      proof (cases "lt (xs ! (2 * pos + 1)) (xs ! (2 * pos + 2))")
        case None
        then show ?thesis using 1(4) inner two by (simp add: siftup.simps [of lt xs pos])
      next
        case (Some c)
        then show ?thesis
          using 1(4,5) 1(1) [OF inner two Some, of ys b] 1(2) [OF inner two Some, of ys b] inner two left
          by (cases c) (simp_all add: siftup.simps [of lt xs pos])
      qed
    next
      case one: False
      then show ?thesis
        using 1(4,5) 1(3) [OF inner one, of ys b] inner left by (simp add: siftup.simps [of lt xs pos])
    qed
  qed
qed

lemma heap_push_mset: "heap_push lt e xs = (ys, b) \<Longrightarrow> mset ys = add_mset e (mset xs)"
  using siftdown_mset [of lt "xs @ [e]" "length xs"] by (simp add: heap_push_def)

lemma mset_pop_start:
  assumes "butlast xs \<noteq> []"
  shows "add_mset (hd xs) (mset ((butlast xs)[0 := List.last xs])) = mset xs"
proof -
  obtain x y zs where "xs = x # y # zs" using assms by (cases xs; cases "tl xs") auto
  then have "butlast xs = x # butlast (y # zs)" "List.last xs = List.last (y # zs)" by simp_all
  moreover have "mset (y # zs) = add_mset (List.last (y # zs)) (mset (butlast (y # zs)))"
    by (metis append_butlast_last_id list.distinct(1) mset.simps mset_append add_mset_add_single)
  ultimately show ?thesis using \<open>xs = x # y # zs\<close> by simp
qed

lemma heap_pop_mset: "heap_pop lt xs = (ys, r) \<Longrightarrow> xs \<noteq> [] \<Longrightarrow> add_mset (hd xs) (mset ys) = mset xs"
proof (cases "butlast xs = []")
  case True
  assume "heap_pop lt xs = (ys, r)" "xs \<noteq> []"
  with True show ?thesis by (cases xs) (auto simp: heap_pop_def split: if_splits)
next
  case False
  assume "heap_pop lt xs = (ys, r)"
  with False obtain b where "siftup lt ((butlast xs)[0 := List.last xs]) 0 = (ys, b)"
    by (auto simp: heap_pop_def Let_def split: prod.splits)
  moreover have "0 < length ((butlast xs)[0 := List.last xs])" using False by (simp only: length_list_update length_greater_0_conv simp_thms)
  ultimately have "mset ys = mset ((butlast xs)[0 := List.last xs])" by (rule siftup_mset)
  with mset_pop_start [OF False] show ?thesis by simp
qed

lemma heap_pop_result: "heap_pop lt xs = (ys, Some e) \<Longrightarrow> e = hd xs"
  by (auto simp: heap_pop_def Let_def split: if_splits prod.splits)

lemma heap_pop_length: "heap_pop lt xs = (ys, r) \<Longrightarrow> xs \<noteq> [] \<Longrightarrow> length xs = Suc (length ys)"
  by (drule (1) heap_pop_mset) (metis mset.simps(2) mset_eq_length length_Cons)

subsection \<open>The order\<close>

definition heap_list :: "('a \<Rightarrow> 'k::linorder) \<Rightarrow> 'a list \<Rightarrow> bool" where
  "heap_list key xs \<longleftrightarrow> list_all (\<lambda>i. key (xs ! ((i - 1) div 2)) \<le> key (xs ! i)) [1..<length xs]"

lemma heap_list_iff: "heap_list key xs \<longleftrightarrow> (\<forall>i. 0 < i \<longrightarrow> i < length xs \<longrightarrow> key (xs ! ((i - 1) div 2)) \<le> key (xs ! i))"
  by (auto simp: heap_list_def list_all_iff)

text \<open>
  A heap but for the entry at \<open>pos\<close>: every other entry is not below its parent, and the children of
  \<open>pos\<close> are not below the parent of \<open>pos\<close>.
\<close>

definition heap_but :: "('a \<Rightarrow> 'k::linorder) \<Rightarrow> nat \<Rightarrow> 'a list \<Rightarrow> bool" where
  "heap_but key pos xs \<longleftrightarrow>
     (\<forall>i. 0 < i \<longrightarrow> i < length xs \<longrightarrow> i \<noteq> pos \<longrightarrow> (i - 1) div 2 \<noteq> pos \<longrightarrow> key (xs ! ((i - 1) div 2)) \<le> key (xs ! i)) \<and>
     (\<forall>i. 0 < i \<longrightarrow> i < length xs \<longrightarrow> (i - 1) div 2 = pos \<longrightarrow> 0 < pos \<longrightarrow> key (xs ! ((pos - 1) div 2)) \<le> key (xs ! i))"

lemma heap_listD: "heap_list key xs \<Longrightarrow> 0 < i \<Longrightarrow> i < length xs \<Longrightarrow> key (xs ! ((i - 1) div 2)) \<le> key (xs ! i)"
  by (simp add: heap_list_iff)

lemma heap_butD:
  assumes "heap_but key pos xs" and "0 < i" and "i < length xs"
  shows "i \<noteq> pos \<Longrightarrow> (i - 1) div 2 \<noteq> pos \<Longrightarrow> key (xs ! ((i - 1) div 2)) \<le> key (xs ! i)"
    and "(i - 1) div 2 = pos \<Longrightarrow> 0 < pos \<Longrightarrow> key (xs ! ((pos - 1) div 2)) \<le> key (xs ! i)"
  using assms unfolding heap_but_def by blast+

lemma heap_list_first: "heap_list key xs \<Longrightarrow> i < length xs \<Longrightarrow> key (xs ! 0) \<le> key (xs ! i)"
proof (induction i rule: less_induct)
  case (less i)
  show ?case
  proof (cases "i = 0")
    case False
    then have p: "(i - 1) div 2 < i" by linarith
    with less have "key (xs ! 0) \<le> key (xs ! ((i - 1) div 2))" by simp
    also have "\<dots> \<le> key (xs ! i)" using False less.prems by (intro heap_listD) simp_all
    finally show ?thesis .
  qed simp
qed

lemma heap_list_append:
  assumes "heap_list key xs"
  shows "heap_but key (length xs) (xs @ [e])"
  unfolding heap_but_def
proof (intro conjI allI impI)
  fix i
  assume i: "0 < i" "i < length (xs @ [e])" "i \<noteq> length xs"
  then have "i < length xs" "(i - 1) div 2 < length xs" by simp_all
  then show "key ((xs @ [e]) ! ((i - 1) div 2)) \<le> key ((xs @ [e]) ! i)"
    using heap_listD [OF assms i(1)] by (simp add: nth_append)
next
  fix i
  assume "0 < i" "i < length (xs @ [e])" "(i - 1) div 2 = length xs"
  then have False by simp
  then show "key ((xs @ [e]) ! ((length xs - 1) div 2)) \<le> key ((xs @ [e]) ! i)" ..
qed

locale heap_order =
  fixes lt :: "'a \<Rightarrow> 'a \<Rightarrow> bool option"
    and key :: "'a \<Rightarrow> 'k::linorder"
  assumes lt_key: "lt a b = Some r \<Longrightarrow> r = (key a < key b)"
begin

lemma siftdown_heap:
  "siftdown lt xs pos = (ys, True) \<Longrightarrow> pos < length xs \<Longrightarrow> heap_but key pos xs \<Longrightarrow>
     (\<And>i. 0 < i \<Longrightarrow> i < length xs \<Longrightarrow> (i - 1) div 2 = pos \<Longrightarrow> key (xs ! pos) \<le> key (xs ! i)) \<Longrightarrow> heap_list key ys"
proof (induction pos arbitrary: xs rule: less_induct)
  case (less pos)
  define p where "p = (pos - 1) div 2"
  note but = heap_butD [OF less.prems(3), folded p_def]
  show ?case
  proof (cases "pos = 0 \<or> lt (xs ! pos) (xs ! p) = Some False")
    case True
    then have "ys = xs" using less.prems(1) by (auto simp: p_def siftdown.simps [of lt xs pos] split: if_splits)
    moreover have "pos = 0 \<or> key (xs ! p) \<le> key (xs ! pos)" using True lt_key by fastforce
    ultimately show ?thesis unfolding heap_list_iff
    proof (intro allI impI)
      fix i
      assume *: "ys = xs" "pos = 0 \<or> key (xs ! p) \<le> key (xs ! pos)" "0 < i" "i < length ys"
      then show "key (ys ! ((i - 1) div 2)) \<le> key (ys ! i)"
        using but(1) [of i] less.prems(4) [of i] by (cases "i = pos"; cases "(i - 1) div 2 = pos") (simp_all add: p_def)
    qed
  next
    case False
    then have up: "0 < pos" "lt (xs ! pos) (xs ! p) = Some True"
      using less.prems(1) by (auto simp: p_def siftdown.simps [of lt xs pos] split: option.splits bool.splits)
    then have run: "siftdown lt (swap_at xs pos p) p = (ys, True)"
      using less.prems(1) by (simp add: p_def siftdown.simps [of lt xs pos])
    have below: "key (xs ! pos) < key (xs ! p)" using lt_key [OF up(2)] by simp
    have p: "p < pos" "p < length xs" using up(1) less.prems(2) unfolding p_def by linarith+
    note nth = nth_swap_at [OF less.prems(2) p(2)]
    have parents: "0 < i \<Longrightarrow> (i - 1) div 2 < i" for i :: nat by linarith
    have child: "key (xs ! p) \<le> key (xs ! i)" if "0 < i" "i < length xs" "(i - 1) div 2 = pos" for i
      using but(2) [OF that up(1)] .
    have sib: "key (xs ! p) \<le> key (xs ! i)" if "0 < i" "i < length xs" "(i - 1) div 2 = p" "i \<noteq> pos" for i
      using but(1) [OF that(1,2,4)] that(3) p(1) by simp
    have "heap_but key p (swap_at xs pos p)"
      unfolding heap_but_def length_swap_at
    proof (intro conjI allI impI)
      fix i
      assume i: "0 < i" "i < length xs" "i \<noteq> p" "(i - 1) div 2 \<noteq> p"
      then have "i \<noteq> pos" by (auto simp: p_def)
      with i child [OF i(1,2)] but(1) [OF i(1,2)] p(1)
      show "key (swap_at xs pos p ! ((i - 1) div 2)) \<le> key (swap_at xs pos p ! i)" by (auto simp: nth)
    next
      fix i
      assume i: "0 < i" "i < length xs" "(i - 1) div 2 = p" "0 < p"
      have pp: "(p - 1) div 2 \<noteq> pos" "(p - 1) div 2 \<noteq> p" using parents [OF i(4)] p(1) by linarith+
      have top: "key (xs ! ((p - 1) div 2)) \<le> key (xs ! p)"
        by (rule but(1) [OF i(4) p(2)]) (use p(1) pp in auto)
      have "i \<noteq> p" using parents [OF i(1)] i(3) by linarith
      with top sib [OF i(1-3)] pp
      show "key (swap_at xs pos p ! ((p - 1) div 2)) \<le> key (swap_at xs pos p ! i)"
        by (auto simp: nth intro: order_trans)
    qed
    moreover have "key (swap_at xs pos p ! p) \<le> key (swap_at xs pos p ! i)"
      if i: "0 < i" "i < length (swap_at xs pos p)" "(i - 1) div 2 = p" for i
    proof -
      have "i \<noteq> p" using parents [OF i(1)] i(3) by linarith
      then show ?thesis using sib [of i] i below by (cases "i = pos") (auto simp: nth)
    qed
    ultimately show ?thesis using less.IH [OF p(1) run] p(2) by simp
  qed
qed

text \<open>Moving the smaller child up.\<close>

lemma heap_but_swap:
  assumes but: "heap_but key pos xs" and c: "(c - 1) div 2 = pos" "0 < c" "c < length xs"
    and least: "\<And>i. 0 < i \<Longrightarrow> i < length xs \<Longrightarrow> (i - 1) div 2 = pos \<Longrightarrow> key (xs ! c) \<le> key (xs ! i)"
  shows "heap_but key c (swap_at xs pos c)"
proof -
  note but = heap_butD [OF but]
  have pos: "pos < c" "pos < length xs" using c by linarith+
  note nth = nth_swap_at [OF pos(2) c(3)]
  show ?thesis
    unfolding heap_but_def length_swap_at
  proof (intro conjI allI impI)
    fix i
    assume i: "0 < i" "i < length xs" "i \<noteq> c" "(i - 1) div 2 \<noteq> c"
    show "key (swap_at xs pos c ! ((i - 1) div 2)) \<le> key (swap_at xs pos c ! i)"
    proof (cases "i = pos")
      case True
      then have "(i - 1) div 2 \<noteq> pos" using i(1) by linarith
      with True i but(2) [OF c(2,3,1)] show ?thesis by (simp add: nth)
    next
      case False
      with i least [OF i(1,2)] but(1) [OF i(1,2)] show ?thesis by (auto simp: nth)
    qed
  next
    fix i
    assume i: "0 < i" "i < length xs" "(i - 1) div 2 = c"
    then have "i \<noteq> c" "i \<noteq> pos" using pos(1) by linarith+
    then show "key (swap_at xs pos c ! ((c - 1) div 2)) \<le> key (swap_at xs pos c ! i)"
      using but(1) [OF i(1,2)] i(3) c(1) pos(1) by (simp add: nth)
  qed
qed

lemma siftup_heap:
  "siftup lt xs pos = (ys, True) \<Longrightarrow> pos < length xs \<Longrightarrow> heap_but key pos xs \<Longrightarrow> heap_list key ys"
proof (induction "length xs - pos" arbitrary: xs pos rule: less_induct)
  case less
  have kids: "i = 2 * pos + 1 \<or> i = 2 * pos + 2" if "0 < i" "(i - 1) div 2 = pos" for i using that by linarith
  have step: "heap_list key ys"
    if run: "siftup lt (swap_at xs pos c) c = (ys, True)" and c: "(c - 1) div 2 = pos" "0 < c" "c < length xs"
      and least: "\<And>i. 0 < i \<Longrightarrow> i < length xs \<Longrightarrow> (i - 1) div 2 = pos \<Longrightarrow> key (xs ! c) \<le> key (xs ! i)" for c
  proof -
    have "length (swap_at xs pos c) - c < length xs - pos" using c by simp
    from less.hyps [OF this run] c(3) heap_but_swap [OF less.prems(3) c least] show ?thesis by simp
  qed
  show ?case
  proof (cases "pos < length xs div 2")
    case False
    then have "siftdown lt xs pos = (ys, True)" using less.prems(1) by (simp add: siftup.simps [of lt xs pos])
    then show ?thesis
    proof (rule siftdown_heap [OF _ less.prems(2,3)])
      fix i
      assume "0 < i" "i < length xs" "(i - 1) div 2 = pos"
      with False kids [of i] have False by linarith
      then show "key (xs ! pos) \<le> key (xs ! i)" ..
    qed
  next
    case inner: True
    then have left: "2 * pos + 1 < length xs" by linarith
    show ?thesis
    proof (cases "2 * pos + 2 < length xs")
      case two: True
      then obtain r where r: "lt (xs ! (2 * pos + 1)) (xs ! (2 * pos + 2)) = Some r"
        using less.prems(1) inner by (auto simp: siftup.simps [of lt xs pos] split: option.splits)
      define c where "c = (if r then 2 * pos + 1 else 2 * pos + 2)"
      have run: "siftup lt (swap_at xs pos c) c = (ys, True)"
        using less.prems(1) inner two r by (cases r) (simp_all add: c_def siftup.simps [of lt xs pos])
      have least: "key (xs ! c) \<le> key (xs ! i)" if i: "0 < i" "(i - 1) div 2 = pos" for i
        using kids [OF i] lt_key [OF r] by (cases r) (auto simp: c_def)
      have c: "(c - 1) div 2 = pos" "0 < c" "c < length xs" using two left by (cases r; simp add: c_def)+
      show ?thesis by (rule step [OF run c]) (rule least)
    next
      case one: False
      then have run: "siftup lt (swap_at xs pos (2 * pos + 1)) (2 * pos + 1) = (ys, True)"
        using less.prems(1) inner by (simp add: siftup.simps [of lt xs pos])
      have c: "(2 * pos + 1 - 1) div 2 = pos" "0 < 2 * pos + 1" by simp_all
      have only: "i = 2 * pos + 1" if "0 < i" "i < length xs" "(i - 1) div 2 = pos" for i
        using kids [OF that(1,3)] one that(2) by linarith
      show ?thesis by (rule step [OF run c left]) (use only in force)
    qed
  qed
qed

lemma heap_push_heap:
  assumes "heap_push lt e xs = (ys, True)" and "heap_list key xs"
  shows "heap_list key ys"
  using assms(1) unfolding heap_push_def
  by (rule siftdown_heap) (use heap_list_append [OF assms(2)] in auto)

lemma heap_pop_heap:
  assumes "heap_pop lt xs = (ys, Some e)" and "heap_list key xs"
  shows "heap_list key ys"
proof (cases "butlast xs = []")
  case True
  then show ?thesis using assms(1) by (simp add: heap_pop_def heap_list_def)
next
  case False
  let ?zs = "(butlast xs)[0 := List.last xs]"
  have run: "siftup lt ?zs 0 = (ys, True)"
    using assms(1) False by (auto simp: heap_pop_def Let_def split: prod.splits if_splits)
  have "heap_but key 0 ?zs"
    unfolding heap_but_def using heap_listD [OF assms(2)] by (auto simp: nth_butlast nth_list_update)
  moreover have "0 < length ?zs" using False by (simp only: length_list_update length_greater_0_conv simp_thms)
  ultimately show ?thesis using siftup_heap [OF run] by blast
qed

lemma heap_pop_least:
  assumes "heap_list key xs" and "e \<in> set xs"
  shows "key (hd xs) \<le> key e"
proof -
  obtain i where "i < length xs" "xs ! i = e" using assms(2) by (auto simp: in_set_conv_nth)
  moreover from this have "hd xs = xs ! 0" by (simp add: hd_conv_nth flip: length_greater_0_conv)
  ultimately show ?thesis using heap_list_first [OF assms(1)] by metis
qed

end

end
