(* ===== verification/MarsScheduler.thy ===== *)
theory MarsScheduler
  imports Complex_Main Prelude HeapQueue "HOL-Library.Product_Lexorder"
begin

text \<open>
  The task scheduler (orchestrator/mars_scheduler, orchestrator/mars_scheduler_types.py): agents with
  skills and a load, a priority queue of waiting tasks, learned values. Scores, costs and times are
  rationals; \<open>math.exp\<close>, the random draws and the clock are parameters: one reading when a task is
  scheduled, one for each task a dispatch takes from the queue. The queue is the list \<open>heapq\<close> works
  on (theory HeapQueue). Its entries are tuples ending in the task, which has no order: two entries
  of equal priority and time with different tasks cannot be compared, and the \<open>TypeError\<close> is the
  error \<open>Unorderable\<close>, with what the interrupted operation had changed by then.
\<close>

subsection \<open>Agents and tasks\<close>

record agent_profile =
  ap_skills :: "(string \<times> rat) list"
  ap_total :: nat
  ap_successes :: nat
  ap_failures :: nat
  ap_latency :: rat
  ap_cost :: rat
  ap_load :: nat
  ap_max :: nat
  ap_last :: rat
  ap_enabled :: bool

record task_spec =
  ts_id :: string
  ts_type :: string
  ts_value :: rat
  ts_skills :: "(string \<times> rat) list"
  ts_duration :: rat
  ts_max_cost :: rat
  ts_priority :: int
  ts_deadline :: "rat option"
  ts_description :: string
  ts_context :: "(string \<times> nat) list"

text \<open>Values of the context are only compared: equal numbers stand for equal Python values.\<close>

record assignment =
  as_task :: string
  as_agent :: string
  as_match :: rat
  as_success :: rat
  as_cost :: rat
  as_latency :: rat

subsection \<open>Scores\<close>

definition skill_sums :: "agent_profile \<Rightarrow> (string \<times> rat) list \<Rightarrow> rat \<times> rat" where
  "skill_sums p needed =
     foldl (\<lambda>(weighted, weights) (skill, required).
       let level = dict_get (ap_skills p) skill 0;
           m = (if required \<le> level then 1 else level / max required (1 / 100))
       in (weighted + required * m, weights + required)) (0, 0) needed"

definition base_match :: "agent_profile \<Rightarrow> task_spec \<Rightarrow> rat" where
  "base_match p t = (fst (skill_sums p (ts_skills t)) / snd (skill_sums p (ts_skills t)))"

definition match_score :: "agent_profile \<Rightarrow> task_spec \<Rightarrow> rat" where
  "match_score p t =
     (if ts_skills t = [] then 1 / 2
      else if snd (skill_sums p (ts_skills t)) \<le> 0 then 1 / 2
      else let base = base_match p t;
               base = (if 0 < ap_max p
                       then base * (1 - 2 / 10 * (rat_of_nat (ap_load p) / rat_of_nat (ap_max p))) else base)
           in min (max base 0) 1)"

definition net_benefit :: "rat \<Rightarrow> rat \<Rightarrow> task_spec \<Rightarrow> rat" where
  "net_benefit score q t =
     (let success_prob = 6 / 10 * score + 4 / 10 * q;
          norm_value = min (ts_value t / 100) 1;
          cost_penalty = 1 - min (ts_max_cost t / 5000) 1;
          latency_penalty = 1 - min (ts_duration t / 300) 1
      in 40 / 100 * success_prob + 25 / 100 * norm_value + 15 / 100 * cost_penalty + 20 / 100 * latency_penalty)"

definition estimate_outcomes :: "agent_profile \<Rightarrow> task_spec \<Rightarrow> rat \<Rightarrow> rat \<times> rat \<times> rat" where
  "estimate_outcomes p t score =
     (let n = rat_of_nat (max (ap_total p) 1);
          expected_success = 7 / 10 * score + 3 / 10 * (rat_of_nat (ap_successes p) / n);
          avg_cost = (if ap_total p = 0 then ts_max_cost t * (1 / 2) else ap_cost p / n);
          expected_cost = min avg_cost (ts_max_cost t * (3 / 2));
          expected_latency = (if ap_total p = 0 then ts_duration t else ap_latency p / n)
      in (expected_success, expected_cost, expected_latency))"

type_synonym q_table = "((string \<times> string) \<times> rat) list"

definition get_q_value :: "q_table \<Rightarrow> string \<Rightarrow> string \<Rightarrow> rat" where
  "get_q_value q agent key = dict_get q (agent, key) (1 / 2)"

definition get_max_q :: "q_table \<Rightarrow> string \<Rightarrow> rat" where
  "get_max_q q agent =
     (let vals = map snd (filter (\<lambda>((a, _), _). a = agent) q)
      in case vals of [] \<Rightarrow> 1 / 2 | v # vs \<Rightarrow> foldl max v vs)"

definition q_reward :: "(rat \<Rightarrow> rat) \<Rightarrow> bool \<Rightarrow> rat \<Rightarrow> rat \<Rightarrow> rat" where
  "q_reward expo ok latency cost =
     1 / 2 * (if ok then 1 else 0) + 1 / 4 * expo (- latency / 10) + 1 / 4 * expo (- cost / 500)"

text \<open>A deadline of 0 counts as none.\<close>

definition has_deadline :: "task_spec \<Rightarrow> bool" where
  "has_deadline t = (case ts_deadline t of None \<Rightarrow> False | Some d \<Rightarrow> d \<noteq> 0)"

definition effective_priority :: "rat \<Rightarrow> task_spec \<Rightarrow> rat" where
  "effective_priority now t =
     (let base = rat_of_int (ts_priority t) + 1
      in if has_deadline t \<and> 0 < the (ts_deadline t) - now
         then base + max (1 / 10) (1 / (the (ts_deadline t) - now)) * 10 else base)"

subsection \<open>The scheduler\<close>

type_synonym queue_entry = "(rat \<times> rat) \<times> task_spec"

record outcome_entry =
  oe_task :: string
  oe_agent :: string
  oe_success :: bool
  oe_latency :: rat
  oe_cost :: rat
  oe_reward :: rat
  oe_q :: rat

record mars =
  ms_rate :: rat
  ms_discount :: rat
  ms_exploration :: rat
  ms_decay :: rat
  ms_max_queue :: int
  ms_threshold :: rat
  ms_agents :: "(string \<times> agent_profile) list"
  ms_queue :: "queue_entry list"
  ms_running :: "(string \<times> (string \<times> rat)) list"
  ms_specs :: "(string \<times> task_spec) list"
  ms_history :: "outcome_entry list"
  ms_q :: q_table
  ms_scheduled :: nat
  ms_completed :: nat
  ms_failures :: nat
  ms_last_warn :: rat
  ms_steps :: nat
  ms_drained :: "(string \<times> string) list"

datatype mars_error =
    OutOfRange string | QueueTooSmall int | EmptyAgent | BadMaxLoad int | BadSkill string
  | EmptyTask | NegativeValue | NoAgents | NegativeLatency | NegativeCost | NotRunning string
  | WrongAgent string string | UnknownAgent string | Unorderable

definition mars_new :: "rat \<Rightarrow> rat \<Rightarrow> rat \<Rightarrow> rat \<Rightarrow> int \<Rightarrow> rat \<Rightarrow> rat \<Rightarrow> mars_error + mars" where
  "mars_new rate discount exploration decay max_queue threshold aging =
     (if \<not> (0 \<le> rate \<and> rate \<le> 1) then Inl (OutOfRange ''learning_rate'')
      else if \<not> (0 \<le> discount \<and> discount \<le> 1) then Inl (OutOfRange ''discount_factor'')
      else if \<not> (0 \<le> exploration \<and> exploration \<le> 1) then Inl (OutOfRange ''exploration_rate'')
      else if \<not> (0 \<le> decay \<and> decay \<le> 1) then Inl (OutOfRange ''exploration_decay'')
      else if max_queue < 10 then Inl (QueueTooSmall max_queue)
      else if threshold < 0 then Inl (OutOfRange ''min_match_threshold'')
      else if aging < 1 then Inl (OutOfRange ''aging_factor'')
      else Inr \<lparr>ms_rate = rate, ms_discount = discount, ms_exploration = exploration, ms_decay = decay,
                ms_max_queue = max_queue, ms_threshold = threshold, ms_agents = [], ms_queue = [],
                ms_running = [], ms_specs = [], ms_history = [], ms_q = [], ms_scheduled = 0,
                ms_completed = 0, ms_failures = 0, ms_last_warn = 0, ms_steps = 0, ms_drained = []\<rparr>)"

definition register_agent ::
  "mars \<Rightarrow> string \<Rightarrow> (string \<times> rat) list \<Rightarrow> int \<Rightarrow> mars \<times> (mars_error + unit)" where
  "register_agent s agent skills max_load =
     (if py_blank agent then (s, Inl EmptyAgent)
      else if max_load < 1 then (s, Inl (BadMaxLoad max_load))
      else case find (\<lambda>(_, x). \<not> (0 \<le> x \<and> x \<le> 1)) skills of
        Some (name, _) \<Rightarrow> (s, Inl (BadSkill name))
      | None \<Rightarrow>
          (s\<lparr>ms_agents := AList.update agent
              \<lparr>ap_skills = skills, ap_total = 0, ap_successes = 0, ap_failures = 0, ap_latency = 0,
               ap_cost = 0, ap_load = 0, ap_max = nat max_load, ap_last = 0, ap_enabled = True\<rparr>
              (ms_agents s)\<rparr>, Inr ()))"

definition enable_agent :: "mars \<Rightarrow> string \<Rightarrow> bool \<Rightarrow> mars \<times> bool" where
  "enable_agent s agent enabled =
     (case map_of (ms_agents s) agent of
        None \<Rightarrow> (s, False)
      | Some p \<Rightarrow> (s\<lparr>ms_agents := AList.update agent (p\<lparr>ap_enabled := enabled\<rparr>) (ms_agents s)\<rparr>, True))"

definition eligible :: "rat \<Rightarrow> task_spec \<Rightarrow> agent_profile \<Rightarrow> bool" where
  "eligible threshold t p \<longleftrightarrow> ap_enabled p \<and> ap_load p < ap_max p \<and> \<not> match_score p t < threshold"

text \<open>Exploration: \<open>draws a\<close> are the uniform draw and the noise for agent \<open>a\<close>.\<close>

definition benefit_of :: "(string \<Rightarrow> rat \<times> rat) \<Rightarrow> mars \<Rightarrow> task_spec \<Rightarrow> string \<Rightarrow> agent_profile \<Rightarrow> rat" where
  "benefit_of draws s t agent p =
     (let q = get_q_value (ms_q s) agent (ts_type t);
          q = (if fst (draws agent) < ms_exploration s then q + snd (draws agent) else q)
      in net_benefit (match_score p t) q t)"

fun best_agent ::
  "(string \<Rightarrow> rat \<times> rat) \<Rightarrow> mars \<Rightarrow> task_spec \<Rightarrow> (string \<times> agent_profile) list \<Rightarrow>
     (assignment \<times> rat) option \<Rightarrow> (assignment \<times> rat) option" where
  "best_agent draws s t [] best = best"
| "best_agent draws s t ((agent, p) # rest) best =
     (if \<not> eligible (ms_threshold s) t p then best_agent draws s t rest best
      else let b = benefit_of draws s t agent p
           in if (case best of None \<Rightarrow> True | Some (_, score) \<Rightarrow> score < b)
              then (case estimate_outcomes p t (match_score p t) of (es, ec, el) \<Rightarrow>
                best_agent draws s t rest
                  (Some (\<lparr>as_task = ts_id t, as_agent = agent, as_match = match_score p t,
                          as_success = es, as_cost = ec, as_latency = el\<rparr>, b)))
              else best_agent draws s t rest best)"

text \<open>The updates made when a task is given to an agent.\<close>

definition assign_to :: "rat \<Rightarrow> task_spec \<Rightarrow> string \<Rightarrow> mars \<Rightarrow> mars" where
  "assign_to now t agent s =
     (case map_of (ms_agents s) agent of
        None \<Rightarrow> s
      | Some p \<Rightarrow>
          s\<lparr>ms_agents := AList.update agent
              (p\<lparr>ap_load := ap_load p + 1, ap_total := ap_total p + 1, ap_last := now\<rparr>) (ms_agents s),
            ms_running := AList.update (ts_id t) (agent, now) (ms_running s),
            ms_specs := AList.update (ts_id t) t (ms_specs s),
            ms_scheduled := ms_scheduled s + 1\<rparr>)"

text \<open>
  Comparing two entries: the first difference of priority or time decides; tasks are equal field by
  field, the order of the keys of a dictionary left aside.
\<close>

definition same_task :: "task_spec \<Rightarrow> task_spec \<Rightarrow> bool" where
  "same_task t u \<longleftrightarrow>
     t\<lparr>ts_skills := [], ts_context := []\<rparr> = u\<lparr>ts_skills := [], ts_context := []\<rparr> \<and>
     set (ts_skills t) = set (ts_skills u) \<and> set (ts_context t) = set (ts_context u)"

definition entry_less :: "queue_entry \<Rightarrow> queue_entry \<Rightarrow> bool option" where
  "entry_less a b =
     (if fst a \<noteq> fst b then Some (fst a < fst b)
      else if same_task (snd a) (snd b) then Some False else None)"

interpretation task_heap: heap_order entry_less fst
  by unfold_locales (auto simp: entry_less_def split: if_splits)

definition heappush :: "queue_entry \<Rightarrow> queue_entry list \<Rightarrow> queue_entry list \<times> bool" where
  "heappush e q = heap_push entry_less e q"

definition heappop :: "queue_entry list \<Rightarrow> queue_entry list \<times> queue_entry option" where
  "heappop q = heap_pop entry_less q"

lemma heappop_shorter: "q \<noteq> [] \<Longrightarrow> (r, e) = heappop q \<Longrightarrow> length r < length q"
  using heap_pop_length [of entry_less q r e] by (simp add: heappop_def)

text \<open>The limit is at least 10, so the queue is not empty when an entry is dropped. False is the error.\<close>

function trim_queue :: "int \<Rightarrow> queue_entry list \<Rightarrow> queue_entry list \<times> bool" where
  "trim_queue limit q =
     (if int (length q) \<le> limit \<or> q = [] then (q, True)
      else case heappop q of (r, e) \<Rightarrow> if e = None then (r, False) else trim_queue limit r)"
  by pat_completeness auto
termination by (relation "measure (\<lambda>(limit, q). length q)") (auto dest: heappop_shorter)

declare trim_queue.simps [simp del]

definition enqueue :: "rat \<Rightarrow> task_spec \<Rightarrow> mars \<Rightarrow> mars \<times> bool" where
  "enqueue now t s =
     (case heappush ((- effective_priority now t, now), t) (ms_queue s) of (q, pushed) \<Rightarrow>
        if \<not> pushed then (s\<lparr>ms_queue := q\<rparr>, False)
        else case trim_queue (ms_max_queue s) q of (r, trimmed) \<Rightarrow> (s\<lparr>ms_queue := r\<rparr>, trimmed))"

definition decay_exploration :: "mars \<Rightarrow> mars" where
  "decay_exploration s = s\<lparr>ms_exploration := ms_exploration s * ms_decay s, ms_steps := ms_steps s + 1\<rparr>"

definition schedule_task ::
  "(string \<Rightarrow> rat \<times> rat) \<Rightarrow> rat \<Rightarrow> mars \<Rightarrow> task_spec \<Rightarrow> mars \<times> (mars_error + assignment option)" where
  "schedule_task draws now s t =
     (if py_blank (ts_id t) then (s, Inl EmptyTask)
      else if ts_value t < 0 then (s, Inl NegativeValue)
      else if ms_agents s = [] then (s, Inl NoAgents)
      else if map_of (ms_running s) (ts_id t) \<noteq> None then (s, Inr None)
      else case best_agent draws s t (ms_agents s) None of
        Some (a, _) \<Rightarrow> (decay_exploration (assign_to now t (as_agent a) s), Inr (Some a))
      | None \<Rightarrow>
          (case enqueue now t s of (s1, queued) \<Rightarrow>
             if queued then (decay_exploration s1, Inr None) else (s1, Inl Unorderable)))"

text \<open>
  Dispatching takes the tasks from the queue one by one; \<open>clock i\<close> is the time at the \<open>i\<close>-th. When a
  comparison fails, the task at hand and those put aside so far are lost.
\<close>

function dispatch_loop ::
  "(nat \<Rightarrow> rat) \<Rightarrow> nat \<Rightarrow> queue_entry list \<Rightarrow> queue_entry list \<Rightarrow> mars \<Rightarrow> nat \<Rightarrow> mars \<times> nat option" where
  "dispatch_loop clock i queue remaining s n =
     (if queue = [] then (s\<lparr>ms_queue := remaining\<rparr>, Some n)
      else case heappop queue of (rest, popped) \<Rightarrow>
        case popped of
          None \<Rightarrow> (s\<lparr>ms_queue := rest\<rparr>, None)
        | Some e \<Rightarrow>
            let t = snd e; now = clock i
            in if has_deadline t \<and> the (ts_deadline t) < now then dispatch_loop clock (i + 1) rest remaining s n
               else case find (\<lambda>(_, p). eligible (ms_threshold s) t p) (ms_agents s) of
                 Some x \<Rightarrow> dispatch_loop clock (i + 1) rest remaining (assign_to now t (fst x) s) (n + 1)
               | None \<Rightarrow>
                   (case heappush ((- effective_priority now t, now), t) remaining of (kept, pushed) \<Rightarrow>
                      if pushed then dispatch_loop clock (i + 1) rest kept s n
                      else (s\<lparr>ms_queue := rest\<rparr>, None)))"
  by pat_completeness auto
termination
  by (relation "measure (\<lambda>(clock, i, queue, remaining, s, n). length queue)") (auto dest: heappop_shorter)

declare dispatch_loop.simps [simp del]

definition total_load :: "mars \<Rightarrow> nat" where
  "total_load s = sum_list (map (ap_load \<circ> snd) (ms_agents s))"

definition total_capacity :: "mars \<Rightarrow> nat" where
  "total_capacity s = sum_list (map (ap_max \<circ> snd) (ms_agents s))"

definition warn_congestion :: "rat \<Rightarrow> mars \<Rightarrow> mars" where
  "warn_congestion now s =
     (if 0 < total_capacity s \<and> 8 / 10 < rat_of_nat (total_load s) / rat_of_nat (total_capacity s)
         \<and> 30 < now - ms_last_warn s
      then s\<lparr>ms_last_warn := now\<rparr> else s)"

definition dispatch_queued :: "(nat \<Rightarrow> rat) \<Rightarrow> mars \<Rightarrow> mars \<times> (mars_error + nat)" where
  "dispatch_queued clock s =
     (case dispatch_loop clock 0 (ms_queue s) [] s 0 of (s1, r) \<Rightarrow>
        case r of
          None \<Rightarrow> (s1, Inl Unorderable)
        | Some n \<Rightarrow> (warn_congestion (clock (length (ms_queue s))) s1, Inr n))"

text \<open>What a recorded outcome changes before the queue is dispatched.\<close>

definition settle_outcome :: "(rat \<Rightarrow> rat) \<Rightarrow> mars \<Rightarrow> string \<Rightarrow> string \<Rightarrow> agent_profile \<Rightarrow> bool \<Rightarrow> rat \<Rightarrow> rat \<Rightarrow> mars" where
  "settle_outcome expo s task agent p ok latency cost =
     (let p1 = p\<lparr>ap_load := ap_load p - 1, ap_successes := ap_successes p + (if ok then 1 else 0),
                 ap_failures := ap_failures p + (if ok then 0 else 1),
                 ap_latency := ap_latency p + latency, ap_cost := ap_cost p + cost\<rparr>;
          reward = q_reward expo ok latency cost;
          current_q = get_q_value (ms_q s) agent task;
          updated_q = current_q + ms_rate s * (reward + ms_discount s * get_max_q (ms_q s) agent - current_q);
          history = ms_history s @ [\<lparr>oe_task = task, oe_agent = agent, oe_success = ok, oe_latency = latency,
                      oe_cost = cost, oe_reward = reward, oe_q = updated_q\<rparr>];
          max_history = max 500 (length (ms_agents s) * 100)
      in s\<lparr>ms_agents := AList.update agent p1 (ms_agents s),
           ms_q := AList.update (agent, task) updated_q (ms_q s),
           ms_running := AList.delete task (ms_running s),
           ms_specs := AList.delete task (ms_specs s),
           ms_history := last_n max_history history,
           ms_completed := ms_completed s + (if ok then 1 else 0),
           ms_failures := ms_failures s + (if ok then 0 else 1),
           ms_drained := ms_drained s @ (if ok then [] else [(task, agent)])\<rparr>)"

definition record_outcome ::
  "(rat \<Rightarrow> rat) \<Rightarrow> (nat \<Rightarrow> rat) \<Rightarrow> mars \<Rightarrow> string \<Rightarrow> string \<Rightarrow> bool \<Rightarrow> rat \<Rightarrow> rat \<Rightarrow> mars \<times> (mars_error + unit)" where
  "record_outcome expo clock s task agent ok latency cost =
     (if latency < 0 then (s, Inl NegativeLatency)
      else if cost < 0 then (s, Inl NegativeCost)
      else case map_of (ms_running s) task of
        None \<Rightarrow> (s, Inl (NotRunning task))
      | Some (expected, _) \<Rightarrow>
          if agent \<noteq> expected then (s, Inl (WrongAgent agent expected))
          else case map_of (ms_agents s) agent of
            None \<Rightarrow> (s, Inl (UnknownAgent agent))
          | Some p \<Rightarrow>
              (case dispatch_queued clock (settle_outcome expo s task agent p ok latency cost) of
                 (s1, Inl e) \<Rightarrow> (s1, Inl e) | (s1, Inr _) \<Rightarrow> (s1, Inr ())))"

definition estimate_wait :: "mars \<Rightarrow> rat option" where
  "estimate_wait s =
     (let slots = sum_list (map (\<lambda>(_, p). ap_max p - ap_load p) (ms_agents s))
      in if ms_queue s = [] then Some 0
         else if slots = 0 then None
         else Some (rat_of_nat (length (ms_queue s)) * 30 / rat_of_nat slots))"

definition is_congested :: "mars \<Rightarrow> bool" where
  "is_congested s \<longleftrightarrow>
     total_capacity s = 0 \<or> 8 / 10 < rat_of_nat (total_load s) / rat_of_nat (total_capacity s)"

definition completed_history :: "mars \<Rightarrow> int \<Rightarrow> outcome_entry list" where
  "completed_history s limit = py_slice_from (ms_history s) (- limit)"


subsection \<open>Loads and counters over a history\<close>

datatype mars_op =
    Register string "(string \<times> rat) list" int
  | Enable string bool
  | Schedule "string \<Rightarrow> rat \<times> rat" rat task_spec
  | Outcome "nat \<Rightarrow> rat" string string bool rat rat
  | Dispatch "nat \<Rightarrow> rat"

fun mars_exec :: "(rat \<Rightarrow> rat) \<Rightarrow> mars_op \<Rightarrow> mars \<Rightarrow> mars" where
  "mars_exec expo (Register a skills m) s = fst (register_agent s a skills m)"
| "mars_exec expo (Enable a b) s = fst (enable_agent s a b)"
| "mars_exec expo (Schedule draws now t) s = fst (schedule_task draws now s t)"
| "mars_exec expo (Outcome clock t a ok latency cost) s = fst (record_outcome expo clock s t a ok latency cost)"
| "mars_exec expo (Dispatch clock) s = fst (dispatch_queued clock s)"

fun mars_run :: "(rat \<Rightarrow> rat) \<Rightarrow> mars \<Rightarrow> mars_op list \<Rightarrow> mars" where
  "mars_run expo s [] = s"
| "mars_run expo s (p # ps) = mars_run expo (mars_exec expo p s) ps"

text \<open>Histories in which no call raised \<open>TypeError\<close>.\<close>

fun unorderable :: "(rat \<Rightarrow> rat) \<Rightarrow> mars_op \<Rightarrow> mars \<Rightarrow> bool" where
  "unorderable expo (Schedule draws now t) s = (snd (schedule_task draws now s t) = Inl Unorderable)"
| "unorderable expo (Outcome clock t a ok latency cost) s =
     (snd (record_outcome expo clock s t a ok latency cost) = Inl Unorderable)"
| "unorderable expo (Dispatch clock) s = (snd (dispatch_queued clock s) = Inl Unorderable)"
| "unorderable expo p s = False"

fun ordered_run :: "(rat \<Rightarrow> rat) \<Rightarrow> mars \<Rightarrow> mars_op list \<Rightarrow> bool" where
  "ordered_run expo s [] = True"
| "ordered_run expo s (p # ps) = (\<not> unorderable expo p s \<and> ordered_run expo (mars_exec expo p s) ps)"

definition running_on :: "mars \<Rightarrow> string \<Rightarrow> nat" where
  "running_on s a = length (filter (\<lambda>(_, b, _). b = a) (ms_running s))"

text \<open>
  What a careful caller does: no task is submitted under an identifier that is waiting, and no
  agent with running tasks is registered again.
\<close>

fun careful :: "mars \<Rightarrow> mars_op \<Rightarrow> bool" where
  "careful s (Register a skills m) = (running_on s a = 0)"
| "careful s (Schedule draws now t) = (ts_id t \<notin> ts_id ` snd ` set (ms_queue s))"
| "careful s p = True"

fun careful_run :: "(rat \<Rightarrow> rat) \<Rightarrow> mars \<Rightarrow> mars_op list \<Rightarrow> bool" where
  "careful_run expo s [] = True"
| "careful_run expo s (p # ps) = (careful s p \<and> careful_run expo (mars_exec expo p s) ps)"

definition loads_ok :: "mars \<Rightarrow> bool" where
  "loads_ok s \<longleftrightarrow> wf_dict (ms_agents s) \<and> wf_dict (ms_running s) \<and>
     (\<forall>(a, p) \<in> set (ms_agents s). ap_load p = running_on s a \<and> ap_load p \<le> ap_max p) \<and>
     (\<forall>(t, a, now) \<in> set (ms_running s). a \<in> fst ` set (ms_agents s)) \<and>
     ms_scheduled s = length (ms_running s) + ms_completed s + ms_failures s"

definition waiting_ok :: "queue_entry list \<Rightarrow> mars \<Rightarrow> bool" where
  "waiting_ok q s \<longleftrightarrow> distinct (map (ts_id \<circ> snd) q) \<and>
     ts_id ` snd ` set q \<inter> fst ` set (ms_running s) = {}"

definition mars_ok :: "mars \<Rightarrow> bool" where
  "mars_ok s \<longleftrightarrow> loads_ok s \<and> waiting_ok (ms_queue s) s \<and>
     length (ms_history s) \<le> max 500 (length (ms_agents s) * 100)"

definition queue_ok :: "mars \<Rightarrow> bool" where
  "queue_ok s \<longleftrightarrow> heap_list fst (ms_queue s) \<and> int (length (ms_queue s)) \<le> ms_max_queue s"

lemma loads_okD:
  assumes "loads_ok s" and "map_of (ms_agents s) a = Some p"
  shows "ap_load p = running_on s a" and "ap_load p \<le> ap_max p"
  using assms map_of_SomeD [OF assms(2)] by (auto simp: loads_ok_def)

lemma loads_ok_queue [simp]: "loads_ok (s\<lparr>ms_queue := q\<rparr>) = loads_ok s"
  by (simp add: loads_ok_def running_on_def)

lemma waiting_ok_queue [simp]: "waiting_ok q (s\<lparr>ms_queue := r\<rparr>) = waiting_ok q s"
  by (simp add: waiting_ok_def)

lemma waiting_ok_subset:
  assumes "waiting_ok q s" and "set r \<subseteq> set q" and "distinct (map (ts_id \<circ> snd) r)"
  shows "waiting_ok r s"
proof -
  have "ts_id ` snd ` set r \<subseteq> ts_id ` snd ` set q" using assms(2) by (intro image_mono)
  then show ?thesis using assms(1,3) unfolding waiting_ok_def by blast
qed

lemma running_on_simps [simp]:
  "running_on (s\<lparr>ms_queue := q\<rparr>) = running_on s" "running_on (s\<lparr>ms_agents := d\<rparr>) = running_on s"
  by (simp_all add: running_on_def fun_eq_iff)

lemma in_update: "wf_dict d \<Longrightarrow> (a, p) \<in> set (AList.update k v d) \<longleftrightarrow> (if a = k then p = v else (a, p) \<in> set d)"
  by (auto simp: wf_dict_get [symmetric] wf_dict_get [OF wf_dict_update])

text \<open>Giving a task that does not run yet to an agent with room.\<close>

lemma assign_to_eq:
  assumes "map_of (ms_agents s) a = Some p"
  shows "assign_to now t a s =
    s\<lparr>ms_agents := AList.update a (p\<lparr>ap_load := ap_load p + 1, ap_total := ap_total p + 1, ap_last := now\<rparr>) (ms_agents s),
      ms_running := AList.update (ts_id t) (a, now) (ms_running s),
      ms_specs := AList.update (ts_id t) t (ms_specs s), ms_scheduled := ms_scheduled s + 1\<rparr>"
  using assms by (simp add: assign_to_def)

lemma assign_to_loads:
  assumes ok: "loads_ok s" and a: "map_of (ms_agents s) a = Some p" and room: "ap_load p < ap_max p"
    and fresh: "map_of (ms_running s) (ts_id t) = None"
  shows "loads_ok (assign_to now t a s)"
proof -
  let ?s = "assign_to now t a s"
  have run: "ms_running ?s = ms_running s @ [(ts_id t, a, now)]"
    using fresh by (simp add: assign_to_eq [OF a] dict_update_fresh)
  have on: "running_on ?s b = running_on s b + (if b = a then 1 else 0)" for b
    by (simp add: running_on_def run)
  have agents: "(b, q) \<in> set (ms_agents ?s) \<longleftrightarrow>
      (if b = a then q = p\<lparr>ap_load := ap_load p + 1, ap_total := ap_total p + 1, ap_last := now\<rparr>
       else (b, q) \<in> set (ms_agents s))" for b q
    using ok by (simp add: assign_to_eq [OF a] in_update loads_ok_def)
  have keys: "fst ` set (ms_agents ?s) = fst ` set (ms_agents s)"
    using a by (auto simp: assign_to_eq [OF a] dict_dom_update dest: map_of_SomeD intro: rev_image_eqI)
  have "wf_dict (ms_running ?s)" "wf_dict (ms_agents ?s)"
    using ok by (simp_all add: assign_to_eq [OF a] loads_ok_def)
  moreover have "a \<in> fst ` set (ms_agents s)" using map_of_SomeD [OF a] by force
  moreover have each: "\<And>b q. (b, q) \<in> set (ms_agents s) \<Longrightarrow> ap_load q = running_on s b \<and> ap_load q \<le> ap_max q"
    and running: "\<And>t b x. (t, b, x) \<in> set (ms_running s) \<Longrightarrow> b \<in> fst ` set (ms_agents s)"
    using ok by (auto simp: loads_ok_def)
  moreover have "ms_scheduled ?s = length (ms_running ?s) + ms_completed ?s + ms_failures ?s"
    using ok run by (simp add: assign_to_eq [OF a] loads_ok_def)
  ultimately show ?thesis
    unfolding loads_ok_def keys
    using each running loads_okD [OF ok a] room by (auto simp: agents on run split: if_splits)
qed

lemma assign_to_frame:
  assumes "map_of (ms_agents s) a = Some p"
  shows "fst ` set (ms_running (assign_to now t a s)) = insert (ts_id t) (fst ` set (ms_running s))"
    and "ms_queue (assign_to now t a s) = ms_queue s" and "ms_max_queue (assign_to now t a s) = ms_max_queue s"
    and "ms_history (assign_to now t a s) = ms_history s" and "ms_threshold (assign_to now t a s) = ms_threshold s"
    and "map fst (ms_agents (assign_to now t a s)) = map fst (ms_agents s)" and "ms_q (assign_to now t a s) = ms_q s"
  using assms by (auto simp: assign_to_eq [OF assms] dict_dom_update dict_keys_update dest: map_of_SomeD intro: rev_image_eqI)

lemma find_agent:
  assumes "wf_dict d" and "find (\<lambda>(_, p). P p) d = Some (a, p)"
  shows "map_of d a = Some p" and "P p"
proof -
  from assms(2) have "(a, p) \<in> set d" "P p" by (auto simp: find_Some_iff) (metis nth_mem)
  then show "map_of d a = Some p" "P p" using assms(1) by (simp_all add: wf_dict_get)
qed

lemma heappush_props:
  assumes "heappush e q = (r, b)"
  shows "mset r = add_mset e (mset q)" "set r = insert e (set q)" "length r = Suc (length q)"
    "distinct (map f r) \<longleftrightarrow> f e \<notin> f ` set q \<and> distinct (map f q)"
    "b \<Longrightarrow> heap_list fst q \<Longrightarrow> heap_list fst r"
proof -
  show m: "mset r = add_mset e (mset q)" using heap_push_mset assms by (simp add: heappush_def)
  then have "mset r = mset (e # q)" by simp
  then show "set r = insert e (set q)" "length r = Suc (length q)"
    by (metis list.simps(15) set_mset_mset, metis length_Cons mset_eq_length)
  have "mset (map f r) = mset (f e # map f q)" by (simp add: m)
  then show "distinct (map f r) \<longleftrightarrow> f e \<notin> f ` set q \<and> distinct (map f q)"
    by (metis distinct.simps(2) list.set_map mset_eq_imp_distinct_iff)
  show "b \<Longrightarrow> heap_list fst q \<Longrightarrow> heap_list fst r"
    using task_heap.heap_push_heap assms by (cases b) (simp_all add: heappush_def)
qed

lemma heappop_props:
  assumes "heappop q = (r, x)" and "q \<noteq> []"
  shows "add_mset (hd q) (mset r) = mset q" "set q = insert (hd q) (set r)" "length q = Suc (length r)"
    "distinct (map f q) \<longleftrightarrow> f (hd q) \<notin> f ` set r \<and> distinct (map f r)"
    "x = Some e \<Longrightarrow> e = hd q" "x = Some e \<Longrightarrow> heap_list fst q \<Longrightarrow> heap_list fst r"
proof -
  show m: "add_mset (hd q) (mset r) = mset q" using heap_pop_mset assms by (simp add: heappop_def)
  then have n: "mset (hd q # r) = mset q" by simp
  then show "set q = insert (hd q) (set r)" "length q = Suc (length r)"
    by (metis list.simps(15) set_mset_mset, metis length_Cons mset_eq_length)
  have "mset (f (hd q) # map f r) = mset (map f q)" using n by (simp flip: image_mset_add_mset)
  then show "distinct (map f q) \<longleftrightarrow> f (hd q) \<notin> f ` set r \<and> distinct (map f r)"
    by (metis distinct.simps(2) list.set_map mset_eq_imp_distinct_iff)
  show "x = Some e \<Longrightarrow> e = hd q" using heap_pop_result assms(1) by (simp add: heappop_def)
  show "x = Some e \<Longrightarrow> heap_list fst q \<Longrightarrow> heap_list fst r"
    using task_heap.heap_pop_heap assms(1) by (simp add: heappop_def)
qed

lemma mars_okD:
  assumes "mars_ok s"
  shows "loads_ok s" "waiting_ok (ms_queue s) s" "length (ms_history s) \<le> max 500 (length (ms_agents s) * 100)"
  using assms by (simp_all add: mars_ok_def)

definition same_setting :: "mars \<Rightarrow> mars \<Rightarrow> bool" where
  "same_setting s s1 \<longleftrightarrow> ms_max_queue s1 = ms_max_queue s \<and> ms_history s1 = ms_history s \<and>
     ms_threshold s1 = ms_threshold s \<and> map fst (ms_agents s1) = map fst (ms_agents s) \<and> ms_q s1 = ms_q s"

text \<open>
  What every step of a dispatch keeps holds when it ends, whether it returns or raises: a step drops
  the first task, starts it, or puts it aside.
\<close>

lemma dispatch_loop_invariant:
  assumes start: "I queue remaining s"
    and lost: "\<And>q rest x w s. I q w s \<Longrightarrow> q \<noteq> [] \<Longrightarrow> heappop q = (rest, x) \<Longrightarrow> I rest w s"
    and starts: "\<And>q rest e w s a p now. I q w s \<Longrightarrow> q \<noteq> [] \<Longrightarrow> heappop q = (rest, Some e) \<Longrightarrow>
      find (\<lambda>(_, p). eligible (ms_threshold s) (snd e) p) (ms_agents s) = Some (a, p) \<Longrightarrow>
      I rest w (assign_to now (snd e) a s)"
    and waits: "\<And>q rest e w v k s. I q w s \<Longrightarrow> q \<noteq> [] \<Longrightarrow> heappop q = (rest, Some e) \<Longrightarrow>
      find (\<lambda>(_, p). eligible (ms_threshold s) (snd e) p) (ms_agents s) = None \<Longrightarrow>
      heappush (k, snd e) w = (v, True) \<Longrightarrow> I rest v s"
    and run: "dispatch_loop clock i queue remaining s n = (s1, m)"
  shows "\<exists>q w s2. I q w s2 \<and> (if m = None then s1 = s2\<lparr>ms_queue := q\<rparr> else s1 = s2\<lparr>ms_queue := w\<rparr>)"
  using start run
proof (induction clock i queue remaining s n rule: dispatch_loop.induct)
  case (1 clock i q w s n)
  note inv = 1(4) and run = 1(5) [unfolded dispatch_loop.simps [of clock i q w s n]]
  show ?case
  proof (cases "q = []")
    case True
    then show ?thesis using inv run by auto
  next
    case False
    obtain rest x where pop: "heappop q = (rest, x)" by (cases "heappop q")
    note inv' = lost [OF inv False pop]
    show ?thesis
    proof (cases x)
      case None
      then show ?thesis using run inv' False pop by auto
    next
      case (Some e)
      let ?found = "find (\<lambda>(_, p). eligible (ms_threshold s) (snd e) p) (ms_agents s)"
      note IH = 1(1-3) [OF False pop [symmetric] Some refl refl]
      show ?thesis
      proof (cases "has_deadline (snd e) \<and> the (ts_deadline (snd e)) < clock i")
        case True
        then show ?thesis using IH(1) [OF True inv'] run False pop Some by simp
      next
        case alive: False
        show ?thesis
        proof (cases ?found)
          case None
          obtain v b where push: "heappush ((- effective_priority (clock i) (snd e), clock i), snd e) w = (v, b)"
            by (cases "heappush ((- effective_priority (clock i) (snd e), clock i), snd e) w")
          show ?thesis
          proof (cases b)
            case True
            from waits [OF inv False pop [unfolded Some] None] push True have "I rest v s" by simp
            from IH(2) [OF alive None push [symmetric] True this] run False pop Some alive None push True
            show ?thesis by (simp add: Let_def)
          next
            case fail: False
            then have "m = None" "s1 = s\<lparr>ms_queue := rest\<rparr>"
              using run False pop Some alive None push by (simp_all add: Let_def)
            with inv' show ?thesis by auto
          qed
        next
          case found: (Some y)
          obtain a p where y: "y = (a, p)" by (cases y)
          from starts [OF inv False pop [unfolded Some] found [unfolded y], of "clock i"]
          have "I rest w (assign_to (clock i) (snd e) (fst y) s)" by (simp add: y)
          from IH(3) [OF alive found this] run False pop Some alive found
          show ?thesis by (simp add: Let_def)
        qed
      qed
    qed
  qed
qed

lemma dispatch_loop_ok:
  assumes "loads_ok s" and "waiting_ok queue s" and "dispatch_loop clock i queue [] s n = (s1, m)"
  shows "loads_ok s1 \<and> waiting_ok (ms_queue s1) s1 \<and> same_setting s s1"
proof -
  let ?I = "\<lambda>q w u. loads_ok u \<and> waiting_ok (q @ w) u \<and> same_setting s u"
  have lost: "?I rest w u" if "?I q w u" "q \<noteq> []" "heappop q = (rest, x)" for q w u rest x
    using that(1) heappop_props(2,4) [OF that(3,2)] by (auto simp: waiting_ok_def)
  have starts: "?I rest w (assign_to now (snd e) a u)"
    if "?I q w u" "q \<noteq> []" "heappop q = (rest, Some e)"
      "find (\<lambda>(_, p). eligible (ms_threshold u) (snd e) p) (ms_agents u) = Some (a, p)" for q w u rest e a p now
  proof -
    have "wf_dict (ms_agents u)" using that(1) by (simp add: loads_ok_def)
    from find_agent [OF this that(4)] have a: "map_of (ms_agents u) a = Some p" "ap_load p < ap_max p"
      by (auto simp: eligible_def)
    have e: "e = hd q" by (rule heappop_props(5) [OF that(3,2) refl])
    note pop = heappop_props(2) [OF that(3,2)] heappop_props(4) [OF that(3,2), of "ts_id \<circ> snd"]
    have fresh: "map_of (ms_running u) (ts_id (snd e)) = None"
      using that(1) pop by (auto simp: waiting_ok_def map_of_eq_None_iff e)
    have "waiting_ok (rest @ w) (assign_to now (snd e) a u)"
      using that(1) pop by (auto simp: waiting_ok_def assign_to_frame(1) [OF a(1)] e)
    then show ?thesis
      using that(1) assign_to_loads [OF _ a fresh] by (simp add: same_setting_def assign_to_frame [OF a(1)])
  qed
  have waits: "?I rest v u"
    if "?I q w u" "q \<noteq> []" "heappop q = (rest, Some e)" "heappush (k, snd e) w = (v, True)" for q w v u rest e k
  proof -
    have e: "e = hd q" by (rule heappop_props(5) [OF that(3,2) refl])
    note pop = heappop_props(2) [OF that(3,2)] heappop_props(4) [OF that(3,2), of "ts_id \<circ> snd"]
    note push = heappush_props(2) [OF that(4)] heappush_props(4) [OF that(4), of "ts_id \<circ> snd"]
    show ?thesis using that(1) pop push by (auto simp: waiting_ok_def e)
  qed
  have "?I queue [] s" using assms by (simp add: same_setting_def)
  then have "\<exists>q w s2. ?I q w s2 \<and> (if m = None then s1 = s2\<lparr>ms_queue := q\<rparr> else s1 = s2\<lparr>ms_queue := w\<rparr>)"
  proof (rule dispatch_loop_invariant [where I = ?I, OF _ _ _ _ assms(3)])
    show "?I rest w u" if "?I q w u" "q \<noteq> []" "heappop q = (rest, x)" for q rest x w u by (rule lost [OF that])
  qed (rule starts, assumption+, rule waits, assumption+)
  then obtain q w s2 where *: "?I q w s2" "if m = None then s1 = s2\<lparr>ms_queue := q\<rparr> else s1 = s2\<lparr>ms_queue := w\<rparr>"
    by blast
  have "distinct (map (ts_id \<circ> snd) q)" "distinct (map (ts_id \<circ> snd) w)" using *(1) by (simp_all add: waiting_ok_def)
  then have "waiting_ok q s2" "waiting_ok w s2" using *(1) waiting_ok_subset [of "q @ w" s2] by simp_all
  with * show ?thesis by (cases m) (auto simp: same_setting_def)
qed

lemma dispatch_loop_queue:
  assumes "dispatch_loop clock i queue [] s n = (s1, m)"
  shows "length (ms_queue s1) \<le> length queue \<and> (m \<noteq> None \<longrightarrow> heap_list fst (ms_queue s1))"
proof -
  let ?I = "\<lambda>q w u. length q + length w \<le> length queue \<and> heap_list fst w"
  have "?I queue [] s" by (simp add: heap_list_def)
  from dispatch_loop_invariant [of ?I, OF this _ _ _ assms] show ?thesis
    by (fastforce dest: heappop_props(3) heappush_props(3,5) split: if_splits)
qed

lemma warn_congestion_ok [simp]:
  "mars_ok (warn_congestion now s) = mars_ok s" "ms_queue (warn_congestion now s) = ms_queue s"
  "ms_max_queue (warn_congestion now s) = ms_max_queue s" "ms_q (warn_congestion now s) = ms_q s"
  "ms_agents (warn_congestion now s) = ms_agents s" "ms_threshold (warn_congestion now s) = ms_threshold s"
  by (simp_all add: warn_congestion_def mars_ok_def loads_ok_def waiting_ok_def running_on_def)

lemma dispatch_queued_ok:
  assumes "mars_ok s"
  shows "mars_ok (fst (dispatch_queued clock s))"
proof -
  obtain s1 m where run: "dispatch_loop clock 0 (ms_queue s) [] s 0 = (s1, m)"
    by (cases "dispatch_loop clock 0 (ms_queue s) [] s 0")
  note ok = mars_okD [OF assms]
  from dispatch_loop_ok [OF ok(1,2) run]
  have loop: "loads_ok s1" "waiting_ok (ms_queue s1) s1" "same_setting s s1" by simp_all
  have "length (ms_agents s1) = length (ms_agents s)" using loop(3) by (metis length_map same_setting_def)
  then have "mars_ok s1" using loop ok by (simp add: mars_ok_def same_setting_def)
  then show ?thesis by (simp add: dispatch_queued_def run split: option.split)
qed

lemma trim_queue_props:
  "trim_queue limit q = (r, b) \<Longrightarrow> set r \<subseteq> set q \<and> (distinct (map f q) \<longrightarrow> distinct (map f r)) \<and>
     (b \<longrightarrow> 0 \<le> limit \<longrightarrow> int (length r) \<le> limit) \<and> (b \<longrightarrow> heap_list fst q \<longrightarrow> heap_list fst r)"
proof (induction limit q rule: trim_queue.induct)
  case (1 limit q)
  note run = 1(2) [unfolded trim_queue.simps [of limit q]]
  show ?case
  proof (cases "int (length q) \<le> limit \<or> q = []")
    case True
    then show ?thesis using run by auto
  next
    case False
    then have q: "q \<noteq> []" by simp
    obtain r' e where pop: "heappop q = (r', e)" by (cases "heappop q")
    note props = heappop_props(2) [OF pop q] heappop_props(4) [OF pop q, of f]
    show ?thesis
    proof (cases e)
      case None
      then show ?thesis using run False pop props by auto
    next
      case (Some x)
      then have run': "trim_queue limit r' = (r, b)" using run False pop by auto
      from 1(1) [OF False pop [symmetric] _ run'] Some props heappop_props(6) [OF pop q, of x] show ?thesis by auto
    qed
  qed
qed

lemma enqueue_frame:
  assumes "enqueue now t s = (s1, b)"
  shows "s1 = s\<lparr>ms_queue := ms_queue s1\<rparr>"
  using assms by (auto simp: enqueue_def split: prod.splits if_splits)

lemma enqueue_ok:
  assumes ok: "mars_ok s" and new: "ts_id t \<notin> ts_id ` snd ` set (ms_queue s)" "map_of (ms_running s) (ts_id t) = None"
    and run: "enqueue now t s = (s1, b)"
  shows "mars_ok s1"
proof -
  let ?e = "((- effective_priority now t, now), t)"
  obtain q c where push: "heappush ?e (ms_queue s) = (q, c)" by (cases "heappush ?e (ms_queue s)")
  note push' = heappush_props(2) [OF push] heappush_props(4) [OF push, of "ts_id \<circ> snd"]
  note old = mars_okD [OF ok]
  have q: "waiting_ok q s"
    using old(2) new push' by (auto simp: waiting_ok_def map_of_eq_None_iff image_image)
  have "set (ms_queue s1) \<subseteq> set q \<and> distinct (map (ts_id \<circ> snd) (ms_queue s1))"
    using run push q trim_queue_props [of "ms_max_queue s" q _ _ "ts_id \<circ> snd"]
    by (auto simp: enqueue_def waiting_ok_def split: prod.splits if_splits)
  then have "waiting_ok (ms_queue s1) s" using waiting_ok_subset [OF q] by blast
  then have "mars_ok (s\<lparr>ms_queue := ms_queue s1\<rparr>)" using old by (simp add: mars_ok_def)
  then show ?thesis using enqueue_frame [OF run] by simp
qed

lemma enqueue_queue_ok:
  assumes "queue_ok s" and "enqueue now t s = (s1, True)"
  shows "queue_ok s1"
  using assms enqueue_frame [OF assms(2)]
  by (auto simp: queue_ok_def enqueue_def split: prod.splits if_splits
      dest!: trim_queue_props [where f = id] heappush_props(5))

lemma best_agent_found:
  "best_agent draws s t agents best = Some (a, b) \<Longrightarrow> best = Some (a, b) \<or>
     (\<exists>p. (as_agent a, p) \<in> set agents \<and> eligible (ms_threshold s) t p \<and> b = benefit_of draws s t (as_agent a) p \<and>
          as_task a = ts_id t \<and> as_match a = match_score p t)"
proof (induction agents arbitrary: best)
  case (Cons x agents)
  obtain agent p where x: "x = (agent, p)" by (cases x)
  show ?case
    using Cons.prems unfolding x by (auto simp: Let_def split: if_splits prod.splits dest!: Cons.IH)
qed simp

lemma decay_exploration_ok [simp]:
  "mars_ok (decay_exploration s) = mars_ok s" "queue_ok (decay_exploration s) = queue_ok s"
  "ms_q (decay_exploration s) = ms_q s" "ms_max_queue (decay_exploration s) = ms_max_queue s"
  "ms_agents (decay_exploration s) = ms_agents s" "ms_running (decay_exploration s) = ms_running s"
  "ms_queue (decay_exploration s) = ms_queue s"
  by (simp_all add: decay_exploration_def mars_ok_def queue_ok_def loads_ok_def waiting_ok_def running_on_def)

lemma schedule_task_ok:
  assumes "mars_ok s" and "ts_id t \<notin> ts_id ` snd ` set (ms_queue s)"
  shows "mars_ok (fst (schedule_task draws now s t))"
proof (cases "map_of (ms_running s) (ts_id t)")
  case fresh: None
  note ok = mars_okD [OF assms(1)]
  show ?thesis
  proof (cases "best_agent draws s t (ms_agents s) None")
    case None
    then show ?thesis
      using assms(1) enqueue_ok [OF assms fresh]
      by (auto simp: schedule_task_def fresh split: prod.split)
  next
    case (Some x)
    obtain a b where x: "x = (a, b)" by (cases x)
    from best_agent_found [OF Some [unfolded x]] obtain p
      where p: "(as_agent a, p) \<in> set (ms_agents s)" "eligible (ms_threshold s) t p" by blast
    have m: "map_of (ms_agents s) (as_agent a) = Some p" "ap_load p < ap_max p"
      using p ok(1) by (simp_all add: wf_dict_get loads_ok_def eligible_def)
    have "length (ms_agents (assign_to now t (as_agent a) s)) = length (ms_agents s)"
      using assign_to_frame(6) [OF m(1)] by (metis length_map)
    moreover have "waiting_ok (ms_queue s) (assign_to now t (as_agent a) s)"
      using ok(2) assms(2) by (auto simp: waiting_ok_def assign_to_frame(1) [OF m(1)])
    ultimately have "mars_ok (assign_to now t (as_agent a) s)"
      using ok assign_to_loads [OF ok(1) m fresh] by (simp add: mars_ok_def assign_to_frame [OF m(1)])
    then show ?thesis using assms(1) Some fresh by (simp add: schedule_task_def x)
  qed
qed (use assms(1) in \<open>simp add: schedule_task_def\<close>)

lemma assign_to_queue [simp]:
  "ms_queue (assign_to now t a s) = ms_queue s" "ms_max_queue (assign_to now t a s) = ms_max_queue s"
  "ms_q (assign_to now t a s) = ms_q s" "queue_ok (assign_to now t a s) = queue_ok s"
  by (auto simp: assign_to_def queue_ok_def split: option.split)

lemma schedule_task_queue_ok:
  assumes "queue_ok s" and "snd (schedule_task draws now s t) \<noteq> Inl Unorderable"
  shows "queue_ok (fst (schedule_task draws now s t))"
  using assms enqueue_queue_ok [OF assms(1), of now t]
  by (auto simp: schedule_task_def split: prod.splits option.splits if_splits)

lemma dispatch_queued_queue_ok:
  assumes "queue_ok s" and "snd (dispatch_queued clock s) \<noteq> Inl Unorderable"
  shows "queue_ok (fst (dispatch_queued clock s)) \<and> ms_max_queue (fst (dispatch_queued clock s)) = ms_max_queue s"
proof -
  obtain s1 m where run: "dispatch_loop clock 0 (ms_queue s) [] s 0 = (s1, m)"
    by (cases "dispatch_loop clock 0 (ms_queue s) [] s 0")
  let ?I = "\<lambda>q w u. ms_max_queue u = ms_max_queue s"
  have "ms_max_queue s1 = ms_max_queue s"
    using dispatch_loop_invariant [of ?I, OF refl _ _ _ run] by (auto split: if_splits)
  with assms dispatch_loop_queue [OF run] show ?thesis
    by (auto simp: dispatch_queued_def run queue_ok_def split: option.splits)
qed

lemma length_filter_delete:
  assumes "wf_dict d" and "map_of d k = Some v"
  shows "length (filter P d) = length (filter P (AList.delete k d)) + (if P (k, v) then 1 else 0)"
  using assms
proof (induction d)
  case (Cons x d)
  obtain j u where x: "x = (j, u)" by (cases x)
  have d: "wf_dict d" "map_of d j = None" using Cons(2) by (auto simp: wf_dict_def x map_of_eq_None_iff)
  show ?case
  proof (cases "j = k")
    case True
    then show ?thesis using Cons(3) d(2) x by (simp add: dict_delete_absent)
  next
    case False
    then show ?thesis using Cons(1) [OF d(1)] Cons(3) x by auto
  qed
qed simp

lemma settle_outcome_ok:
  assumes ok: "mars_ok s" and run: "map_of (ms_running s) task = Some (agent, start)"
    and p: "map_of (ms_agents s) agent = Some p"
  shows "mars_ok (settle_outcome expo s task agent p success latency cost)"
proof -
  let ?s = "settle_outcome expo s task agent p success latency cost"
  note s = mars_okD [OF ok]
  have wf: "wf_dict (ms_agents s)" "wf_dict (ms_running s)" using s(1) by (simp_all add: loads_ok_def)
  have on: "running_on s b = running_on ?s b + (if b = agent then 1 else 0)" for b
    using length_filter_delete [OF wf(2) run] by (simp add: running_on_def settle_outcome_def Let_def)
  have agents: "(b, q) \<in> set (ms_agents ?s) \<Longrightarrow>
      (if b = agent then ap_load q = ap_load p - 1 \<and> ap_max q = ap_max p else (b, q) \<in> set (ms_agents s))" for b q
    using wf(1) by (auto simp: settle_outcome_def Let_def in_update)
  have each: "\<And>b q. (b, q) \<in> set (ms_agents s) \<Longrightarrow> ap_load q = running_on s b \<and> ap_load q \<le> ap_max q"
    and running: "\<And>t b x. (t, b, x) \<in> set (ms_running s) \<Longrightarrow> b \<in> fst ` set (ms_agents s)"
    using s(1) by (auto simp: loads_ok_def)
  have keys: "map fst (ms_agents ?s) = map fst (ms_agents s)"
    using map_of_SomeD [OF p] by (simp add: settle_outcome_def Let_def dict_keys_update rev_image_eqI)
  then have key_set: "fst ` set (ms_agents ?s) = fst ` set (ms_agents s)" by (metis list.set_map)
  have sub: "set (ms_running ?s) \<subseteq> set (ms_running s)"
    by (auto simp: settle_outcome_def Let_def dict_delete_filter)
  have "ap_load q = running_on ?s b \<and> ap_load q \<le> ap_max q" if "(b, q) \<in> set (ms_agents ?s)" for b q
    using agents [OF that] each [of b q] on [of b] loads_okD [OF s(1) p] by (auto split: if_splits)
  moreover have "ms_scheduled ?s = length (ms_running ?s) + ms_completed ?s + ms_failures ?s"
    using length_filter_delete [OF wf(2) run, of "\<lambda>_. True"] s(1)
    by (simp add: settle_outcome_def Let_def loads_ok_def)
  moreover have "wf_dict (ms_agents ?s)" "wf_dict (ms_running ?s)"
    using wf by (simp_all add: settle_outcome_def Let_def)
  ultimately have "loads_ok ?s"
    unfolding loads_ok_def key_set using running sub by blast
  moreover have "waiting_ok (ms_queue s) ?s"
    using s(2) image_mono [OF sub, of fst] unfolding waiting_ok_def by blast
  moreover have "length (ms_agents ?s) = length (ms_agents s)" using keys by (metis length_map)
  ultimately show ?thesis
    using s by (simp add: mars_ok_def) (simp add: settle_outcome_def Let_def)
qed

lemma record_outcome_ok:
  assumes "mars_ok s"
  shows "mars_ok (fst (record_outcome expo clock s task agent ok latency cost))"
  using assms settle_outcome_ok [OF assms] dispatch_queued_ok
  by (auto simp: record_outcome_def split: option.split prod.split sum.split) (metis fst_conv)+

lemma register_agent_ok:
  assumes "mars_ok s" and "running_on s agent = 0"
  shows "mars_ok (fst (register_agent s agent skills m))"
proof -
  note ok = mars_okD [OF assms(1)]
  have len: "length (ms_history s) \<le> max 500 (length (AList.update agent q (ms_agents s)) * 100)" for q
  proof -
    have "length (ms_agents s) \<le> length (AList.update agent q (ms_agents s))" by (simp add: length_dict_update)
    with ok(3) show ?thesis by linarith
  qed
  show ?thesis
    using assms ok len
    by (auto simp: register_agent_def mars_ok_def loads_ok_def in_update dict_dom_update running_on_def waiting_ok_def
        split: option.split if_splits)
qed

lemma enable_agent_ok:
  assumes "mars_ok s"
  shows "mars_ok (fst (enable_agent s agent b))"
proof (cases "map_of (ms_agents s) agent")
  case (Some p)
  note ok = mars_okD [OF assms]
  have "length (AList.update agent q (ms_agents s)) = length (ms_agents s)" for q
    using Some by (simp add: length_dict_update)
  then show ?thesis
    using assms ok loads_okD [OF ok(1) Some] Some
    by (auto simp: enable_agent_def mars_ok_def loads_ok_def in_update dict_dom_update running_on_def waiting_ok_def
        split: if_splits)
qed (use assms in \<open>simp add: enable_agent_def\<close>)

lemma mars_exec_ok: "mars_ok s \<Longrightarrow> careful s p \<Longrightarrow> mars_ok (mars_exec expo p s)"
  by (cases p) (simp_all add: register_agent_ok enable_agent_ok schedule_task_ok record_outcome_ok dispatch_queued_ok)

lemma mars_run_ok: "mars_ok s \<Longrightarrow> careful_run expo s ps \<Longrightarrow> mars_ok (mars_run expo s ps)"
  by (induction ps arbitrary: s) (simp_all add: mars_exec_ok)

lemma mars_new_ok: "mars_new rate discount exploration decay max_queue threshold aging = Inr s \<Longrightarrow> mars_ok s"
  by (auto simp: mars_new_def mars_ok_def loads_ok_def waiting_ok_def split: if_splits)


lemma settle_outcome_queue [simp]:
  "ms_queue (settle_outcome expo s task agent p ok latency cost) = ms_queue s"
  "ms_max_queue (settle_outcome expo s task agent p ok latency cost) = ms_max_queue s"
  by (simp_all add: settle_outcome_def Let_def)

lemma record_outcome_queue_ok:
  assumes "queue_ok s" and "snd (record_outcome expo clock s task agent ok latency cost) \<noteq> Inl Unorderable"
  shows "queue_ok (fst (record_outcome expo clock s task agent ok latency cost))"
proof -
  have "queue_ok (settle_outcome expo s task agent p ok latency cost)" for p
    using assms(1) by (simp add: queue_ok_def)
  note settled = this
  have "queue_ok u" if "dispatch_queued clock (settle_outcome expo s task agent p ok latency cost) = (u, x)"
    and "x \<noteq> Inl Unorderable" for p u x
    using dispatch_queued_queue_ok [OF settled, of clock p] that by simp
  with assms show ?thesis
    by (auto simp: record_outcome_def split: option.splits if_splits prod.splits sum.splits)
qed

lemma same_queue_ok [simp]:
  "queue_ok (fst (register_agent s agent skills m)) = queue_ok s" "queue_ok (fst (enable_agent s agent b)) = queue_ok s"
  by (simp_all add: queue_ok_def register_agent_def enable_agent_def split: option.split prod.split)

lemma mars_exec_queue_ok: "queue_ok s \<Longrightarrow> \<not> unorderable expo p s \<Longrightarrow> queue_ok (mars_exec expo p s)"
  by (cases p)
    (simp_all add: schedule_task_queue_ok record_outcome_queue_ok dispatch_queued_queue_ok same_queue_ok)

lemma mars_run_queue_ok: "queue_ok s \<Longrightarrow> ordered_run expo s ps \<Longrightarrow> queue_ok (mars_run expo s ps)"
  by (induction ps arbitrary: s) (simp_all add: mars_exec_queue_ok)

lemma dispatch_loop_keeps:
  assumes "dispatch_loop clock i queue [] s n = (s1, m)"
  shows "ms_max_queue s1 = ms_max_queue s \<and> ms_q s1 = ms_q s"
proof -
  let ?I = "\<lambda>q w u. ms_max_queue u = ms_max_queue s \<and> ms_q u = ms_q s"
  have "\<exists>q w s2. ?I q w s2 \<and> (if m = None then s1 = s2\<lparr>ms_queue := q\<rparr> else s1 = s2\<lparr>ms_queue := w\<rparr>)"
    by (rule dispatch_loop_invariant [where I = ?I, OF _ _ _ _ assms]) simp_all
  then show ?thesis by (auto split: if_splits)
qed

lemma dispatch_queued_keeps [simp]:
  "ms_max_queue (fst (dispatch_queued clock s)) = ms_max_queue s" "ms_q (fst (dispatch_queued clock s)) = ms_q s"
  using dispatch_loop_keeps [of clock 0 "ms_queue s" s 0]
  by (auto simp: dispatch_queued_def split: prod.split option.split)

lemma enqueue_keeps [simp]:
  "ms_max_queue (fst (enqueue now t s)) = ms_max_queue s" "ms_q (fst (enqueue now t s)) = ms_q s"
  "ms_agents (fst (enqueue now t s)) = ms_agents s" "ms_running (fst (enqueue now t s)) = ms_running s"
  by (auto simp: enqueue_def split: prod.split)

lemma schedule_task_keeps [simp]:
  "ms_max_queue (fst (schedule_task draws now s t)) = ms_max_queue s" "ms_q (fst (schedule_task draws now s t)) = ms_q s"
  using enqueue_keeps [of now t s] by (auto simp: schedule_task_def split: option.split prod.split simp del: enqueue_keeps)

lemma record_outcome_dispatch:
  "fst (record_outcome expo clock s task agent ok latency cost) =
     (case map_of (ms_running s) task of
        None \<Rightarrow> s
      | Some (expected, _) \<Rightarrow>
          (case map_of (ms_agents s) agent of
             None \<Rightarrow> s
           | Some p \<Rightarrow>
               if 0 \<le> latency \<and> 0 \<le> cost \<and> agent = expected
               then fst (dispatch_queued clock (settle_outcome expo s task agent p ok latency cost)) else s))"
  by (auto simp: record_outcome_def split: option.split prod.split sum.split)

lemma mars_run_max_queue: "ms_max_queue (mars_run expo s ps) = ms_max_queue s"
proof -
  have "ms_max_queue (mars_exec expo p s) = ms_max_queue s" for p s
    by (cases p) (auto simp: register_agent_def enable_agent_def record_outcome_dispatch split: option.split)
  then show ?thesis by (induction ps arbitrary: s) simp_all
qed

text \<open>
  C20: Over any history of a careful caller, from a new scheduler, calls that raise \<open>TypeError\<close> on two
  entries that cannot be compared included: the load of every agent is the number of its running tasks and
  within its capacity, every task given out either runs or has been counted as completed or failed, no task
  runs twice, and the history of outcomes is bounded. As long as no call raised \<open>TypeError\<close>, the queue
  is within its limit and a heap, so that the first entry is a least one.
\<close>

theorem mars_load_exact:
  assumes "mars_new rate discount exploration decay max_queue threshold aging = Inr s0"
    and "careful_run expo s0 ops" and "s = mars_run expo s0 ops"
  shows "list_all (\<lambda>(a, p). ap_load p = running_on s a \<and> ap_load p \<le> ap_max p) (ms_agents s) \<and>
    ms_scheduled s = length (ms_running s) + ms_completed s + ms_failures s \<and>
    distinct (map fst (ms_running s)) \<and>
    length (ms_history s) \<le> max 500 (length (ms_agents s) * 100) \<and>
    (if ordered_run expo s0 ops
     then int (length (ms_queue s)) \<le> max_queue \<and> heap_list fst (ms_queue s) \<and>
       list_all (\<lambda>e. fst (hd (ms_queue s)) \<le> fst e) (ms_queue s)
     else True)"
proof -
  have ok: "mars_ok s" unfolding assms(3) by (rule mars_run_ok [OF mars_new_ok [OF assms(1)] assms(2)])
  have new: "ms_max_queue s0 = max_queue" "queue_ok s0"
    using assms(1) by (auto simp: mars_new_def queue_ok_def heap_list_def split: if_splits)
  have "queue_ok s \<and> ms_max_queue s = max_queue" if "ordered_run expo s0 ops"
    unfolding assms(3) using mars_run_queue_ok [OF new(2) that] mars_run_max_queue new(1) by simp
  moreover have "list_all (\<lambda>e. fst (hd (ms_queue s)) \<le> fst e) (ms_queue s)" if "queue_ok s"
    using that task_heap.heap_pop_least by (auto simp: queue_ok_def list_all_iff)
  ultimately show ?thesis
    using ok by (auto simp: mars_ok_def loads_ok_def queue_ok_def list_all_iff wf_dict_def)
qed

definition demo_task :: "string \<Rightarrow> task_spec" where
  "demo_task name =
     \<lparr>ts_id = name, ts_type = ''test'', ts_value = 1, ts_skills = [], ts_duration = 60, ts_max_cost = 1000,
      ts_priority = 0, ts_deadline = None, ts_description = [], ts_context = []\<rparr>"

lemmas demo_simps = py_blank_iff py_isspace_def eligible_def match_score_def benefit_of_def estimate_outcomes_def
  register_agent_def schedule_task_def demo_task_def Let_def

theorem mars_load_exact_witness:
  "let s = mars_run (\<lambda>_. 1) (projr (mars_new 0 0 0 1 10 0 1))
             [Register ''a'' [] 1, Schedule (\<lambda>_. (0, 0)) 5 (demo_task ''t1''), Schedule (\<lambda>_. (0, 0)) 6 (demo_task ''t2'')]
   in running_on s ''a'' = 1 \<and> int (length (ms_queue s)) \<le> 10 \<and> map (ts_id \<circ> snd) (ms_queue s) = [''t2'']"
proof -
  let ?ops = "[Register ''a'' [] 1, Schedule (\<lambda>_. (0, 0)) 5 (demo_task ''t1''), Schedule (\<lambda>_. (0, 0)) 6 (demo_task ''t2'')]"
  obtain s0 where s0: "mars_new 0 0 0 1 10 0 1 = Inr s0" by (simp add: mars_new_def)
  have facts: "careful_run (\<lambda>_. 1) (projr (mars_new 0 0 0 1 10 0 1)) ?ops"
    "ordered_run (\<lambda>_. 1) (projr (mars_new 0 0 0 1 10 0 1)) ?ops"
    "running_on (mars_run (\<lambda>_. 1) (projr (mars_new 0 0 0 1 10 0 1)) ?ops) ''a'' = 1"
    "map (ts_id \<circ> snd) (ms_queue (mars_run (\<lambda>_. 1) (projr (mars_new 0 0 0 1 10 0 1)) ?ops)) = [''t2'']"
    by code_simp+
  from mars_load_exact [OF s0 facts(1) [unfolded s0 sum.sel] refl] facts show ?thesis by (simp add: s0 Let_def)
qed


subsection \<open>Dispatching leaves no startable task waiting\<close>

lemma match_score_antimono:
  assumes "ap_skills q = ap_skills p" and "ap_max q = ap_max p" and "ap_load p \<le> ap_load q" and "ap_load q \<le> ap_max q"
  shows "match_score q t \<le> match_score p t"
proof (cases "ap_max p = 0")
  case True
  then have "ap_load q = ap_load p" using assms by simp
  then show ?thesis using assms by (simp add: match_score_def base_match_def skill_sums_def Let_def)
next
  case False
  let ?b = "base_match p t"
  let ?f = "\<lambda>x. 1 - 2 / 10 * (rat_of_nat (ap_load x) / rat_of_nat (ap_max p))"
  have sums: "skill_sums q = skill_sums p" by (simp add: skill_sums_def assms(1) fun_eq_iff)
  have m: "0 < rat_of_nat (ap_max p)" using False by simp
  have load: "rat_of_nat (ap_load p) \<le> rat_of_nat (ap_load q)" "rat_of_nat (ap_load q) \<le> rat_of_nat (ap_max p)"
    using assms by simp_all
  then have r: "rat_of_nat (ap_load p) / rat_of_nat (ap_max p) \<le> rat_of_nat (ap_load q) / rat_of_nat (ap_max p)"
    "rat_of_nat (ap_load q) / rat_of_nat (ap_max p) \<le> 1" "0 \<le> rat_of_nat (ap_load q) / rat_of_nat (ap_max p)"
    using m by (simp_all add: divide_right_mono)
  then have f: "?f q \<le> ?f p" "0 \<le> ?f q" by linarith+
  have "min (max (?b * ?f q) 0) 1 \<le> min (max (?b * ?f p) 0) 1"
  proof (cases "0 \<le> ?b")
    case True
    then have "?b * ?f q \<le> ?b * ?f p" using f(1) by (rule mult_left_mono [rotated])
    then show ?thesis by linarith
  next
    case neg: False
    then have "?b * ?f q \<le> 0" using f(2) by (intro mult_nonpos_nonneg) simp_all
    then show ?thesis by simp
  qed
  then show ?thesis using False by (simp add: match_score_def sums assms(2) base_match_def Let_def)
qed

definition within_capacity :: "mars \<Rightarrow> bool" where
  "within_capacity s \<longleftrightarrow> wf_dict (ms_agents s) \<and> (\<forall>(a, p) \<in> set (ms_agents s). ap_load p \<le> ap_max p)"

definition startable :: "mars \<Rightarrow> task_spec \<Rightarrow> bool" where
  "startable s t \<longleftrightarrow> list_ex (\<lambda>(a, p). eligible (ms_threshold s) t p) (ms_agents s)"

lemma startable_iff: "startable s t \<longleftrightarrow> (\<exists>a p. (a, p) \<in> set (ms_agents s) \<and> eligible (ms_threshold s) t p)"
  by (auto simp: startable_def list_ex_iff)

lemma startable_queue [simp]: "startable (s\<lparr>ms_queue := q\<rparr>) = startable s"
  by (simp add: startable_def fun_eq_iff)

lemma assign_to_startable:
  assumes cap: "within_capacity s" and a: "map_of (ms_agents s) a = Some p" "ap_load p < ap_max p"
  shows "within_capacity (assign_to now t a s) \<and> (startable (assign_to now t a s) u \<longrightarrow> startable s u)"
proof -
  let ?q = "p\<lparr>ap_load := ap_load p + 1, ap_total := ap_total p + 1, ap_last := now\<rparr>"
  have agents: "(b, q) \<in> set (ms_agents (assign_to now t a s)) \<longleftrightarrow> (if b = a then q = ?q else (b, q) \<in> set (ms_agents s))"
    for b q using cap by (simp add: assign_to_eq [OF a(1)] in_update within_capacity_def)
  have "eligible th u ?q \<Longrightarrow> eligible th u p" for th
    using match_score_antimono [of ?q p u] a(2) by (auto simp: eligible_def)
  moreover have "ms_threshold (assign_to now t a s) = ms_threshold s" "wf_dict (ms_agents (assign_to now t a s))"
    using cap by (simp_all add: assign_to_eq [OF a(1)] within_capacity_def)
  ultimately show ?thesis
    using cap a map_of_SomeD [OF a(1)]
    by (auto simp: within_capacity_def startable_iff agents split: if_splits)
qed

lemma dispatch_loop_conserving:
  assumes cap: "within_capacity s" and run: "dispatch_loop clock i queue [] s n = (s1, Some m)"
  shows "\<forall>e \<in> set (ms_queue s1). \<not> startable s1 (snd e)"
proof -
  let ?I = "\<lambda>q w u. within_capacity u \<and> (\<forall>e \<in> set w. \<not> startable u (snd e))"
  have "\<exists>q w s2. ?I q w s2 \<and> (if Some m = None then s1 = s2\<lparr>ms_queue := q\<rparr> else s1 = s2\<lparr>ms_queue := w\<rparr>)"
  proof (rule dispatch_loop_invariant [where I = ?I, OF _ _ _ _ run])
    show "?I queue [] s" using cap by simp
  next
    show "?I rest w (assign_to now (snd e) a u)"
      if "?I q w u" "find (\<lambda>(_, p). eligible (ms_threshold u) (snd e) p) (ms_agents u) = Some (a, p)"
      for q rest w e a p now u
    proof -
      have "wf_dict (ms_agents u)" using that(1) by (simp add: within_capacity_def)
      from find_agent [OF this that(2)] have "map_of (ms_agents u) a = Some p" "ap_load p < ap_max p"
        by (auto simp: eligible_def)
      with that(1) assign_to_startable show ?thesis by blast
    qed
  next
    show "?I rest v u"
      if "?I q w u" "find (\<lambda>(_, p). eligible (ms_threshold u) (snd e) p) (ms_agents u) = None"
        "heappush (k, snd e) w = (v, True)" for q rest w v u e k
      using that heappush_props(2) [OF that(3)] by (auto simp: startable_def find_None_iff list_ex_iff)
  qed
  then obtain w s2 where "?I [] w s2" "s1 = s2\<lparr>ms_queue := w\<rparr>" by auto
  then show ?thesis by simp
qed

text \<open>
  After a dispatch that returns no waiting task could start: no agent is enabled, has room and matches
  it well enough. In particular no order of the queue can leave an agent idle that a later task fits.
\<close>

theorem dispatch_work_conserving:
  assumes "wf_dict (ms_agents s)" and "list_all (\<lambda>(a, p). ap_load p \<le> ap_max p) (ms_agents s)"
    and "dispatch_queued clock s = (s1, Inr n)"
  shows "list_all (\<lambda>e. \<not> list_ex (\<lambda>(a, p). eligible (ms_threshold s1) (snd e) p) (ms_agents s1)) (ms_queue s1)"
proof -
  obtain s2 m where run: "dispatch_loop clock 0 (ms_queue s) [] s 0 = (s2, m)"
    by (cases "dispatch_loop clock 0 (ms_queue s) [] s 0")
  with assms(3) have m: "m = Some n" "s1 = warn_congestion (clock (length (ms_queue s))) s2"
    by (auto simp: dispatch_queued_def split: option.splits)
  have "within_capacity s" using assms(1,2) by (simp add: within_capacity_def list_all_iff)
  from dispatch_loop_conserving [OF this run [unfolded m(1)]] show ?thesis
    by (simp add: m(2) startable_def list_all_iff)
qed

theorem dispatch_work_conserving_witness:
  "let s = fst (enqueue 1 (demo_task ''t1'') (projr (mars_new 0 0 0 1 10 0 1)));
       s1 = fst (dispatch_queued (\<lambda>_. 2) s)
   in ms_queue s1 \<noteq> [] \<and>
      list_all (\<lambda>e. \<not> list_ex (\<lambda>(a, p). eligible (ms_threshold s1) (snd e) p) (ms_agents s1)) (ms_queue s1)"
proof -
  let ?s = "fst (enqueue 1 (demo_task ''t1'') (projr (mars_new 0 0 0 1 10 0 1)))"
  have "ms_agents ?s = []" by (simp add: mars_new_def)
  moreover have "dispatch_queued (\<lambda>_. 2) ?s = (fst (dispatch_queued (\<lambda>_. 2) ?s), Inr 0)" "ms_queue (fst (dispatch_queued (\<lambda>_. 2) ?s)) \<noteq> []"
    by code_simp+
  ultimately show ?thesis using dispatch_work_conserving [of ?s] by (simp add: Let_def)
qed

subsection \<open>The choice of the agent\<close>

lemma best_agent_max:
  "best_agent draws s t agents best = r \<Longrightarrow>
     (r = None \<longleftrightarrow> best = None \<and> (\<forall>(a, p) \<in> set agents. \<not> eligible (ms_threshold s) t p)) \<and>
     (\<forall>x b. r = Some (x, b) \<longrightarrow>
        (\<forall>y c. best = Some (y, c) \<longrightarrow> c \<le> b) \<and>
        (\<forall>(a, p) \<in> set agents. eligible (ms_threshold s) t p \<longrightarrow> benefit_of draws s t a p \<le> b))"
proof (induction agents arbitrary: best)
  case Nil
  then show ?case by auto
next
  case (Cons x agents)
  obtain agent p where x: "x = (agent, p)" by (cases x)
  show ?case
  proof (cases "eligible (ms_threshold s) t p")
    case False
    with Cons.prems have "best_agent draws s t agents best = r" by (simp add: x)
    from Cons.IH [OF this] False show ?thesis by (auto simp: x)
  next
    case True
    let ?b = "benefit_of draws s t agent p"
    obtain es ec el where est: "estimate_outcomes p t (match_score p t) = (es, ec, el)" by (cases "estimate_outcomes p t (match_score p t)")
    let ?new = "Some (\<lparr>as_task = ts_id t, as_agent = agent, as_match = match_score p t,
                          as_success = es, as_cost = ec, as_latency = el\<rparr>, ?b)"
    show ?thesis
    proof (cases "case best of None \<Rightarrow> True | Some (_, score) \<Rightarrow> score < ?b")
      case better: True
      with Cons.prems True est have "best_agent draws s t agents ?new = r" by (simp add: x Let_def)
      from Cons.IH [OF this] True better show ?thesis
        by (cases best) (auto simp: x intro: order_trans less_imp_le)
    next
      case worse: False
      with Cons.prems True have run: "best_agent draws s t agents best = r" by (simp add: x Let_def)
      obtain y c where best: "best = Some (y, c)" "?b \<le> c" using worse by (cases best) auto
      from Cons.IH [OF run] True best show ?thesis by (auto simp: x intro: order_trans)
    qed
  qed
qed

text \<open>
  A valid task that does not run yet goes to the eligible agent of greatest expected benefit, whose
  load grows by one; with no eligible agent it waits, unless its entry cannot be compared with one it meets.
\<close>

theorem schedule_exact:
  assumes "wf_dict (ms_agents s)" and "\<not> py_blank (ts_id t)" and "0 \<le> ts_value t" and "ms_agents s \<noteq> []"
    and "map_of (ms_running s) (ts_id t) = None"
  shows "case schedule_task draws now s t of
      (s1, Inl e) \<Rightarrow> e = Unorderable \<and>
        list_all (\<lambda>(a, p). \<not> eligible (ms_threshold s) t p) (ms_agents s) \<and> (s1, False) = enqueue now t s
    | (s1, Inr None) \<Rightarrow>
        list_all (\<lambda>(a, p). \<not> eligible (ms_threshold s) t p) (ms_agents s) \<and>
        (\<exists>s2. enqueue now t s = (s2, True) \<and> ms_queue s1 = ms_queue s2) \<and>
        ms_running s1 = ms_running s \<and> ms_agents s1 = ms_agents s
    | (s1, Inr (Some x)) \<Rightarrow>
        (case map_of (ms_agents s) (as_agent x) of
           None \<Rightarrow> False
         | Some p \<Rightarrow> eligible (ms_threshold s) t p \<and>
             list_all (\<lambda>(a, q). if eligible (ms_threshold s) t q
                               then benefit_of draws s t a q \<le> benefit_of draws s t (as_agent x) p else True) (ms_agents s) \<and>
             map_option ap_load (map_of (ms_agents s1) (as_agent x)) = Some (ap_load p + 1)) \<and>
        map_of (ms_running s1) (ts_id t) = Some (as_agent x, now) \<and> ms_queue s1 = ms_queue s"
proof (cases "best_agent draws s t (ms_agents s) None")
  case None
  from best_agent_max [OF this] have "\<forall>(a, p) \<in> set (ms_agents s). \<not> eligible (ms_threshold s) t p" by simp
  then show ?thesis
    using assms None enqueue_keeps [of now t s]
    by (cases "enqueue now t s") (auto simp: schedule_task_def list_all_iff simp del: enqueue_keeps)
next
  case (Some r)
  obtain x b where r: "r = (x, b)" by (cases r)
  from best_agent_found [OF Some [unfolded r]] obtain p where
    p: "(as_agent x, p) \<in> set (ms_agents s)" "eligible (ms_threshold s) t p" "b = benefit_of draws s t (as_agent x) p"
    by blast
  then have m: "map_of (ms_agents s) (as_agent x) = Some p" using assms(1) by (simp add: wf_dict_get)
  from best_agent_max [OF Some [unfolded r]]
  have "\<forall>(a, q) \<in> set (ms_agents s). eligible (ms_threshold s) t q \<longrightarrow> benefit_of draws s t a q \<le> b" by blast
  then show ?thesis
    using assms Some r m p by (auto simp: schedule_task_def decay_exploration_def assign_to_eq [OF m] list_all_iff)
qed

theorem schedule_exact_witness:
  "let t = demo_task ''t1''; s = fst (register_agent (projr (mars_new 0 0 0 1 10 0 1)) ''a'' [] 1)
   in map_of (ms_running (fst (schedule_task (\<lambda>_. (1, 0)) 5 s t))) ''t1'' = Some (''a'', 5)"
proof -
  let ?t = "demo_task ''t1''"
  let ?s = "fst (register_agent (projr (mars_new 0 0 0 1 10 0 1)) ''a'' [] 1)"
  let ?p = "\<lparr>ap_skills = [], ap_total = 0, ap_successes = 0, ap_failures = 0, ap_latency = 0,
             ap_cost = 0, ap_load = 0, ap_max = 1, ap_last = 0, ap_enabled = True\<rparr>"
  have s: "ms_agents ?s = [(''a'', ?p)]" "ms_running ?s = []" "ms_threshold ?s = 0"
    by (simp_all add: register_agent_def mars_new_def py_blank_iff py_isspace_def)
  have el: "eligible 0 ?t ?p" by (simp add: eligible_def match_score_def demo_task_def)
  have "wf_dict (ms_agents ?s)" "\<not> py_blank (ts_id ?t)" "0 \<le> ts_value ?t" "ms_agents ?s \<noteq> []"
    "map_of (ms_running ?s) (ts_id ?t) = None"
    by (simp_all add: s wf_dict_def py_blank_iff py_isspace_def demo_task_def)
  from schedule_exact [OF this, where draws = "\<lambda>_. (1, 0)" and now = 5] el show ?thesis
    by (auto simp: s Let_def demo_task_def split: prod.splits sum.splits option.splits if_splits)
qed


subsection \<open>What is learned is not used\<close>

text \<open>Outcomes are learned under the identifier of the task, the choice looks them up by its type.\<close>

definition outcome_tasks :: "mars_op list \<Rightarrow> string set" where
  "outcome_tasks ops = {t. \<exists>clock a ok latency cost. Outcome clock t a ok latency cost \<in> set ops}"

lemma same_q [simp]:
  "ms_q (fst (register_agent s agent skills m)) = ms_q s" "ms_q (fst (enable_agent s agent b)) = ms_q s"
  by (simp_all add: register_agent_def enable_agent_def split: option.split prod.split)

lemma mars_exec_q:
  "get_q_value (ms_q (mars_exec expo p s)) a key \<noteq> get_q_value (ms_q s) a key \<Longrightarrow> key \<in> outcome_tasks [p]"
proof (cases p)
  case (Outcome clock t b ok latency cost)
  assume "get_q_value (ms_q (mars_exec expo p s)) a key \<noteq> get_q_value (ms_q s) a key"
  then have "key = t"
    by (auto simp: Outcome record_outcome_dispatch settle_outcome_def Let_def get_q_value_def split: option.splits if_splits)
  then show ?thesis by (auto simp: outcome_tasks_def Outcome)
qed simp_all

lemma mars_run_q: "key \<notin> outcome_tasks ops \<Longrightarrow> get_q_value (ms_q (mars_run expo s ops)) a key = get_q_value (ms_q s) a key"
proof (induction ops arbitrary: s)
  case (Cons p ops)
  then have "key \<notin> outcome_tasks ops" "key \<notin> outcome_tasks [p]" by (auto simp: outcome_tasks_def)
  with Cons mars_exec_q [of expo p s a key] show ?case by auto
qed simp

lemma best_agent_q:
  assumes "\<And>a. get_q_value (ms_q s) a (ts_type t) = get_q_value q a (ts_type t)"
  shows "best_agent draws s t agents best = best_agent draws (s\<lparr>ms_q := q\<rparr>) t agents best"
proof (induction agents arbitrary: best)
  case (Cons x agents)
  have "benefit_of draws s t a p = benefit_of draws (s\<lparr>ms_q := q\<rparr>) t a p" for a p
    by (simp add: benefit_of_def assms)
  with Cons show ?case by (cases x) (simp add: Let_def split: prod.split)
qed simp

text \<open>
  Whatever was recorded, if no recorded task had the type of the new one as its identifier, the new
  task is scheduled exactly as with an empty table of learned values.
\<close>

theorem learning_not_used:
  assumes "mars_new rate discount exploration decay max_queue threshold aging = Inr s0"
    and "ts_type t \<notin> outcome_tasks ops" and "s = mars_run expo s0 ops"
  shows "snd (schedule_task draws now s t) = snd (schedule_task draws now (s\<lparr>ms_q := []\<rparr>) t)"
proof -
  have "ms_q s0 = []" using assms(1) by (auto simp: mars_new_def split: if_splits)
  then have "get_q_value (ms_q s) a (ts_type t) = get_q_value [] a (ts_type t)" for a
    unfolding assms(3) mars_run_q [OF assms(2)] by simp
  note same = best_agent_q [OF this]
  have "snd (enqueue now t (s\<lparr>ms_q := []\<rparr>)) = snd (enqueue now t s)" by (simp add: enqueue_def split: prod.split)
  then show ?thesis by (auto simp: schedule_task_def same split: option.split prod.split)
qed

theorem learning_not_used_witness:
  "let t = demo_task ''t2'';
       s = mars_run (\<lambda>_. 1) (projr (mars_new 1 0 0 1 10 0 1))
             [Register ''a'' [] 2, Schedule (\<lambda>_. (1, 0)) 5 (demo_task ''t1''), Outcome (\<lambda>_. 9) ''t1'' ''a'' False 1 1]
   in snd (schedule_task (\<lambda>_. (1, 0)) 9 s t) = snd (schedule_task (\<lambda>_. (1, 0)) 9 (s\<lparr>ms_q := []\<rparr>) t)"
proof -
  let ?ops = "[Register ''a'' [] 2, Schedule (\<lambda>_. (1, 0)) 5 (demo_task ''t1''), Outcome (\<lambda>_. 9) ''t1'' ''a'' False 1 1]"
  obtain s0 where s0: "mars_new 1 0 0 1 10 0 1 = Inr s0" by (simp add: mars_new_def)
  have "ts_type (demo_task ''t2'') \<notin> outcome_tasks ?ops" by (simp add: outcome_tasks_def demo_task_def)
  from learning_not_used [OF s0 this refl] show ?thesis by (simp only: s0 sum.sel Let_def)
qed

subsection \<open>A full queue, a doubled task, a busy agent registered again, two tasks that tie\<close>

text \<open>
  A full queue gives up the task at its front: none of those kept had a higher priority at the time
  it was queued.
\<close>

lemma trim_queue_pop:
  assumes "int (length q) = limit + 1" and "0 \<le> limit"
  shows "trim_queue limit q = (case heappop q of (r, x) \<Rightarrow> (r, x \<noteq> None))"
proof -
  have q: "q \<noteq> []" using assms by auto
  obtain r x where pop: "heappop q = (r, x)" by (cases "heappop q")
  have "int (length r) \<le> limit" using heappop_props(3) [OF pop q] assms(1) by simp
  then show ?thesis using assms(1) q pop by (simp add: trim_queue.simps [of limit q] trim_queue.simps [of limit r])
qed

theorem full_queue_drops_most_urgent:
  assumes "heap_list fst (ms_queue s)" and "int (length (ms_queue s)) = ms_max_queue s"
    and "e = ((- effective_priority now t, now), t)" and "enqueue now t s = (s1, True)"
  shows "\<exists>dropped. add_mset dropped (mset (ms_queue s1)) = add_mset e (mset (ms_queue s)) \<and>
    list_all (\<lambda>kept. - fst (fst kept) \<le> - fst (fst dropped)) (ms_queue s1)"
proof -
  obtain q b where push: "heappush e (ms_queue s) = (q, b)" by (cases "heappush e (ms_queue s)")
  with assms(3,4) have b: "b" by (auto simp: enqueue_def split: prod.splits if_splits)
  note push' = heappush_props(1-3) [OF push] heappush_props(5) [OF push b assms(1)]
  obtain r x where pop: "heappop q = (r, x)" by (cases "heappop q")
  have q: "q \<noteq> []" using push'(3) by auto
  have "trim_queue (ms_max_queue s) q = (r, x \<noteq> None)"
    using trim_queue_pop [of q "ms_max_queue s"] push'(3) assms(2) pop by simp
  then have s1: "ms_queue s1 = r" using assms(3,4) push b by (auto simp: enqueue_def)
  have "fst (hd q) \<le> fst k" if "k \<in> set r" for k
    using task_heap.heap_pop_least [OF push'(4)] heappop_props(2) [OF pop q] that by simp
  then have "fst (fst (hd q)) \<le> fst (fst k)" if "k \<in> set r" for k using that by (fastforce simp: less_eq_prod_def)
  moreover have "add_mset (hd q) (mset r) = add_mset e (mset (ms_queue s))"
    using heappop_props(1) [OF pop q] push'(1) by simp
  ultimately show ?thesis unfolding s1 by (intro exI [of _ "hd q"]) (simp add: list_all_iff)
qed

theorem full_queue_drops_most_urgent_witness:
  "let t = (demo_task ''t1'')\<lparr>ts_priority := 7\<rparr>;
       s = (projr (mars_new 0 0 0 1 10 0 1))\<lparr>ms_queue := replicate 10 ((- 1, 0), demo_task ''t0'')\<rparr>;
       s1 = fst (enqueue 5 t s)
   in \<exists>dropped. add_mset dropped (mset (ms_queue s1)) = add_mset ((- 8, 5), t) (mset (ms_queue s)) \<and>
        list_all (\<lambda>kept. - fst (fst kept) \<le> - fst (fst dropped)) (ms_queue s1)"
proof -
  let ?t = "(demo_task ''t1'')\<lparr>ts_priority := 7\<rparr>"
  let ?s = "(projr (mars_new 0 0 0 1 10 0 1))\<lparr>ms_queue := replicate 10 ((- 1, 0), demo_task ''t0'')\<rparr>"
  have "heap_list fst (ms_queue ?s)" "int (length (ms_queue ?s)) = ms_max_queue ?s"
    "((- 8, 5), ?t) = ((- effective_priority 5 ?t, 5 :: rat), ?t)" "enqueue 5 ?t ?s = (fst (enqueue 5 ?t ?s), True)"
    by code_simp+
  from full_queue_drops_most_urgent [OF this] show ?thesis by (simp only: Let_def)
qed

text \<open>
  A task that waits twice is started twice: once its outcome is recorded nothing runs any more, yet
  the agent keeps a load of one for ever.
\<close>

lemma doubled_task_leaks_load:
  "let s = mars_run (\<lambda>_. 1) (projr (mars_new 0 0 0 1 10 0 1))
             [Register ''a'' [] 2, Enable ''a'' False, Schedule (\<lambda>_. (1, 0)) 1 (demo_task ''t1''),
              Schedule (\<lambda>_. (1, 0)) 2 (demo_task ''t1''), Enable ''a'' True, Dispatch (\<lambda>_. 3),
              Outcome (\<lambda>_. 4) ''t1'' ''a'' True 1 1]
   in ms_running s = [] \<and> ms_queue s = [] \<and> map (ap_load \<circ> snd) (ms_agents s) = [1]"
  by code_simp

text \<open>Registering an agent again forgets its running tasks, so it is given more than its capacity.\<close>

lemma registered_again_overloaded:
  "let s = mars_run (\<lambda>_. 1) (projr (mars_new 0 0 0 1 10 0 1))
             [Register ''a'' [] 1, Schedule (\<lambda>_. (1, 0)) 1 (demo_task ''t1''), Register ''a'' [] 1,
              Schedule (\<lambda>_. (1, 0)) 2 (demo_task ''t2'')]
   in running_on s ''a'' = 2 \<and> map (ap_max \<circ> snd) (ms_agents s) = [1]"
  by code_simp

text \<open>
  Two tasks of the same priority queued at the same reading of the clock: the second call raises though its
  task is queued, and a dispatch at one reading of the clock loses both.
\<close>

lemma tied_tasks_lost:
  "let ops = [Register ''a'' [] 1, Enable ''a'' False, Schedule (\<lambda>_. (1, 0)) 1 (demo_task ''t1'')];
       s = mars_run (\<lambda>_. 1) (projr (mars_new 0 0 0 1 10 0 1)) ops;
       r = schedule_task (\<lambda>_. (1, 0)) 1 s (demo_task ''t2'');
       d = dispatch_queued (\<lambda>_. 2) (fst r)
   in snd r = Inl Unorderable \<and> map (ts_id \<circ> snd) (ms_queue (fst r)) = [''t1'', ''t2''] \<and>
      snd d = Inl Unorderable \<and> ms_queue (fst d) = [] \<and> ms_running (fst d) = []"
  by code_simp

end
