(* ===== verification/EditDistance.thy ===== *)
theory EditDistance
  imports PyText
begin

text \<open>
  The edit distance of the fuzzy text search (\<open>memory_rag/ruscadb_store.py\<close>,
  \<open>RuscaDBStore._edit_distance\<close>): the two-row dynamic program, and its equivalence with the
  least number of single-character edits that turn one string into the other.
\<close>

subsection \<open>The two-row program\<close>

text \<open>One pass of the inner loop: \<open>cur\<close> starts as \<open>[i]\<close> and grows with \<open>b\<close>.\<close>

definition edit_cell :: "char \<Rightarrow> nat list \<Rightarrow> nat list \<Rightarrow> nat \<times> char \<Rightarrow> nat list" where
  "edit_cell ca prev cur = (\<lambda>(j, cb).
     let cost = (if ca = cb then 0 else 1)
     in cur @ [min (min (prev ! j + 1) (cur ! (j - 1) + 1)) (prev ! (j - 1) + cost)])"

definition edit_row :: "string \<Rightarrow> nat list \<Rightarrow> nat \<times> char \<Rightarrow> nat list" where
  "edit_row b prev = (\<lambda>(i, ca). foldl (edit_cell ca prev) [i] (enumerate 1 b))"

definition edit_distance :: "string \<Rightarrow> string \<Rightarrow> nat" where
  "edit_distance a b =
     (if a = b then 0
      else if a = [] then length b
      else if b = [] then length a
      else List.last (foldl (edit_row b) [0..<length b + 1] (enumerate 1 a)))"

subsection \<open>Single edits\<close>

text \<open>A character replaced, removed or inserted anywhere in a string.\<close>

definition one_edit :: "(string \<times> string) set" where
  "one_edit =
     {(u @ c # v, u @ d # v) | u v c d. True} \<union> {(u @ c # v, u @ v) | u v c. True} \<union>
     {(u @ v, u @ d # v) | u v d. True}"

text \<open>Alignments: both strings read from the left, \<open>n\<close> counting what is not kept.\<close>

inductive edits :: "nat \<Rightarrow> string \<Rightarrow> string \<Rightarrow> bool" where
  stop: "edits 0 [] []"
| keep: "edits n a b \<Longrightarrow> edits n (c # a) (c # b)"
| subst: "edits n a b \<Longrightarrow> edits (Suc n) (c # a) (d # b)"
| del: "edits n a b \<Longrightarrow> edits (Suc n) (c # a) b"
| ins: "edits n a b \<Longrightarrow> edits (Suc n) a (d # b)"

inductive_cases edits_NilE: "edits n [] b"
inductive_cases edits_ConsE: "edits n (c # a) b"

lemma edits_refl: "edits 0 a a"
  by (induction a) (auto intro: edits.intros)

lemma edits_append: "edits m a b \<Longrightarrow> edits n c d \<Longrightarrow> edits (m + n) (a @ c) (b @ d)"
  by (induction rule: edits.induct) (auto intro: edits.intros)

lemma edits_split:
  "edits n (a @ c) e \<Longrightarrow> \<exists>k m b d. n = k + m \<and> e = b @ d \<and> edits k a b \<and> edits m c d"
proof (induction n "a @ c" e arbitrary: a rule: edits.induct)
  case stop
  then show ?case by (auto intro: edits.stop)
next
  case (keep n x b z)
  show ?case
  proof (cases a)
    case Nil
    with keep show ?thesis by (metis add_0 append_Nil edits.stop edits.keep)
  next
    case (Cons y a')
    with keep.hyps have y: "y = z" "x = a' @ c" by auto
    with keep.hyps(2) obtain k m b1 d where
      "n = k + m" "b = b1 @ d" "edits k a' b1" "edits m c d" by blast
    with Cons y show ?thesis by (metis append_Cons edits.keep)
  qed
next
  case (subst n x b z w)
  show ?case
  proof (cases a)
    case Nil
    with subst show ?thesis by (metis add_0 append_Nil edits.stop edits.subst)
  next
    case (Cons y a')
    with subst.hyps have y: "y = z" "x = a' @ c" by auto
    with subst.hyps(2) obtain k m b1 d where
      "n = k + m" "b = b1 @ d" "edits k a' b1" "edits m c d" by blast
    with Cons y show ?thesis by (metis append_Cons add_Suc edits.subst)
  qed
next
  case (del n x b z)
  show ?case
  proof (cases a)
    case Nil
    with del show ?thesis by (metis add_0 append_Nil edits.stop edits.del)
  next
    case (Cons y a')
    with del.hyps have y: "y = z" "x = a' @ c" by auto
    with del.hyps(2) obtain k m b1 d where
      "n = k + m" "b = b1 @ d" "edits k a' b1" "edits m c d" by blast
    with Cons y show ?thesis by (metis add_Suc edits.del)
  qed
next
  case (ins n b z)
  then obtain k m b1 d where "n = k + m" "b = b1 @ d" "edits k a b1" "edits m c d" by blast
  then show ?case by (metis append_Cons add_Suc edits.ins)
qed

lemma edits_tail: "edits m (d # v) c \<Longrightarrow> \<exists>k \<le> Suc m. edits k v c"
proof (induction m "d # v" c rule: edits.induct)
  case (keep n b) then show ?case by (meson edits.ins order_refl)
next
  case (subst n b e) then show ?case by (meson edits.ins le_SucI order_refl)
next
  case (del n b) then show ?case by (meson le_SucI order_refl)
next
  case (ins n b e) then show ?case by (meson Suc_le_mono edits.ins)
qed

lemma edits_head: "edits m (d # v) c \<Longrightarrow> \<exists>k \<le> Suc m. edits k (e # v) c"
proof (induction m "d # v" c rule: edits.induct)
  case (keep n b) then show ?case by (meson edits.subst order_refl)
next
  case (subst n b f) then show ?case by (meson edits.subst le_SucI order_refl)
next
  case (del n b) then show ?case by (meson edits.del le_SucI order_refl)
next
  case (ins n b f) then show ?case by (meson Suc_le_mono edits.ins)
qed

lemma one_edit_cases:
  assumes "(a, b) \<in> one_edit"
  obtains u v x y where "a = u @ x" "b = u @ y"
    "(\<exists>c d. x = c # v \<and> y = d # v) \<or> (\<exists>c. x = c # v \<and> y = v) \<or> (\<exists>d. x = v \<and> y = d # v)"
  using assms by (auto simp: one_edit_def) blast+

lemma edits_one_edit:
  assumes "(a, b) \<in> one_edit" and "edits m b c"
  shows "\<exists>k \<le> Suc m. edits k a c"
proof -
  from assms(1) obtain u v x y where ab: "a = u @ x" "b = u @ y"
    and xy: "(\<exists>c d. x = c # v \<and> y = d # v) \<or> (\<exists>c. x = c # v \<and> y = v) \<or> (\<exists>d. x = v \<and> y = d # v)"
    by (rule one_edit_cases)
  from assms(2) ab(2) obtain k n c1 c2
    where c: "m = k + n" "c = c1 @ c2" "edits k u c1" and y: "edits n y c2"
    using edits_split by blast
  have "\<exists>i \<le> Suc n. edits i x c2"
    using xy y by (auto intro: edits_head edits_tail edits.del)
  then obtain i where "i \<le> Suc n" "edits i x c2" by blast
  with c ab(1) have "edits (k + i) a c" "k + i \<le> Suc m" by (auto intro: edits_append)
  then show ?thesis by blast
qed

lemma edits_of_path: "(a, b) \<in> one_edit ^^ n \<Longrightarrow> \<exists>m \<le> n. edits m a b"
proof (induction n arbitrary: a)
  case 0
  then show ?case by (auto intro: edits_refl)
next
  case (Suc n)
  then obtain c where c: "(a, c) \<in> one_edit" "(c, b) \<in> one_edit ^^ n" by (blast elim: relpow_Suc_E2)
  from Suc.IH [OF c(2)] obtain m where m: "m \<le> n" "edits m c b" by blast
  from edits_one_edit [OF c(1) m(2)] m(1) show ?case by (meson Suc_le_mono le_trans)
qed

lemma one_edit_Cons: "(a, b) \<in> one_edit \<Longrightarrow> (c # a, c # b) \<in> one_edit"
proof -
  assume "(a, b) \<in> one_edit"
  then obtain u v x y where "a = u @ x" "b = u @ y"
    and "(\<exists>c d. x = c # v \<and> y = d # v) \<or> (\<exists>c. x = c # v \<and> y = v) \<or> (\<exists>d. x = v \<and> y = d # v)"
    by (rule one_edit_cases)
  then have "c # a = (c # u) @ x" "c # b = (c # u) @ y"
    and "(\<exists>c d. x = c # v \<and> y = d # v) \<or> (\<exists>c. x = c # v \<and> y = v) \<or> (\<exists>d. x = v \<and> y = d # v)"
    by simp_all
  then show ?thesis unfolding one_edit_def by blast
qed

lemma path_Cons: "(a, b) \<in> one_edit ^^ n \<Longrightarrow> (c # a, c # b) \<in> one_edit ^^ n"
  by (induction n arbitrary: b) (auto intro: one_edit_Cons)

lemma one_edit_heads:
  "(c # a, d # a) \<in> one_edit" "(c # a, a) \<in> one_edit" "(a, d # a) \<in> one_edit"
proof -
  have "([] @ c # a, [] @ d # a) \<in> one_edit" "([] @ c # a, [] @ a) \<in> one_edit"
    "([] @ a, [] @ d # a) \<in> one_edit"
    unfolding one_edit_def by blast+
  then show "(c # a, d # a) \<in> one_edit" "(c # a, a) \<in> one_edit" "(a, d # a) \<in> one_edit"
    by simp_all
qed

lemma path_of_edits: "edits n a b \<Longrightarrow> (a, b) \<in> one_edit ^^ n"
proof (induction rule: edits.induct)
  case (keep n a b c) then show ?case by (intro path_Cons)
next
  case (subst n a b c d)
  then show ?case by (meson one_edit_heads(1) path_Cons relpow_Suc_I2)
next
  case (del n a b c)
  then show ?case by (meson one_edit_heads(2) relpow_Suc_I2)
next
  case (ins n a b d)
  then show ?case by (meson one_edit_heads(3) path_Cons relpow_Suc_I2)
qed simp

subsection \<open>The least number of edits\<close>

definition least_edits :: "string \<Rightarrow> string \<Rightarrow> nat \<Rightarrow> bool" where
  "least_edits a b m \<longleftrightarrow> edits m a b \<and> (\<forall>n. edits n a b \<longrightarrow> m \<le> n)"

lemma least_editsI: "edits m a b \<Longrightarrow> (\<And>n. edits n a b \<Longrightarrow> m \<le> n) \<Longrightarrow> least_edits a b m"
  by (simp add: least_edits_def)

lemma least_edits_le: "least_edits a b m \<Longrightarrow> edits n a b \<Longrightarrow> m \<le> n"
  by (simp add: least_edits_def)

lemma least_edits_path:
  assumes "least_edits a b m"
  shows "(LEAST n. (a, b) \<in> one_edit ^^ n) = m"
proof (rule Least_equality)
  show "(a, b) \<in> one_edit ^^ m" using assms path_of_edits by (simp add: least_edits_def)
  show "m \<le> n" if "(a, b) \<in> one_edit ^^ n" for n
    using edits_of_path [OF that] assms by (auto simp: least_edits_def intro: le_trans)
qed

lemma edits_length: "edits n a b \<Longrightarrow> length b \<le> length a + n \<and> length a \<le> length b + n"
  by (induction rule: edits.induct) auto

lemma edits_Nil: "edits (length b) [] b"
  by (induction b) (auto intro: edits.intros)

lemma edits_Nil2: "edits (length a) a []"
  by (induction a) (auto intro: edits.intros)

lemma least_edits_Nil: "least_edits [] b (length b)"
  by (rule least_editsI) (use edits_Nil edits_length in fastforce)+

lemma least_edits_Nil2: "least_edits a [] (length a)"
  by (rule least_editsI) (use edits_Nil2 edits_length in fastforce)+

lemma edits_rev: "edits n a b \<Longrightarrow> edits n (rev a) (rev b)"
proof (induction rule: edits.induct)
  case (keep n a b c)
  from edits_append [OF this(2) edits.keep [OF edits.stop]] show ?case by simp
next
  case (subst n a b c d)
  from edits_append [OF this(2) edits.subst [OF edits.stop]] show ?case by simp
next
  case (del n a b c)
  from edits_append [OF this(2) edits.del [OF edits.stop]] show ?case by simp
next
  case (ins n a b d)
  from edits_append [OF this(2) edits.ins [OF edits.stop]] show ?case by simp
qed (simp add: edits.stop)

lemma edits_snoc_cases:
  assumes "edits n (a @ [c]) (b @ [d])"
  obtains "c = d" "edits n a b" | k where "n = Suc k" "edits k a b"
    | k where "n = Suc k" "edits k a (b @ [d])" | k where "n = Suc k" "edits k (a @ [c]) b"
proof -
  have r: "edits n (c # rev a) (d # rev b)" using edits_rev [OF assms] by simp
  have un: "edits k (rev a') (rev b') \<longleftrightarrow> edits k a' b'" for k and a' b' :: string
    using edits_rev [of k "rev a'" "rev b'"] edits_rev [of k a' b'] by auto
  from r have "(c = d \<and> edits n (rev a) (rev b)) \<or>
    (\<exists>k. n = Suc k \<and> (edits k (rev a) (rev b) \<or> edits k (rev a) (rev (b @ [d])) \<or>
      edits k (rev (a @ [c])) (rev b)))"
    by (cases rule: edits_ConsE) auto
  then have "(c = d \<and> edits n a b) \<or>
    (\<exists>k. n = Suc k \<and> (edits k a b \<or> edits k a (b @ [d]) \<or> edits k (a @ [c]) b))"
    unfolding un .
  then show thesis using that by blast
qed

lemma least_edits_snoc:
  assumes up: "least_edits a (b @ [d]) x" and left: "least_edits (a @ [c]) b y"
    and diag: "least_edits a b z"
  shows "least_edits (a @ [c]) (b @ [d]) (min (min (x + 1) (y + 1)) (z + (if c = d then 0 else 1)))"
    (is "least_edits _ _ ?m")
proof (rule least_editsI)
  have "edits (Suc 0) [c] []" "edits (Suc 0) [] [d]" "edits (if c = d then 0 else 1) [c] [d]"
    by (auto intro: edits.intros)
  then have "edits (x + 1) (a @ [c]) (b @ [d])" "edits (y + 1) (a @ [c]) (b @ [d])"
    "edits (z + (if c = d then 0 else 1)) (a @ [c]) (b @ [d])"
    using assms edits_append [of x a "b @ [d]" "Suc 0" "[c]" "[]"]
      edits_append [of y "a @ [c]" b "Suc 0" "[]" "[d]"] edits_append [of z a b _ "[c]" "[d]"]
    unfolding least_edits_def by auto
  then show "edits ?m (a @ [c]) (b @ [d])" by (simp add: min_def)
next
  fix n
  assume "edits n (a @ [c]) (b @ [d])"
  then show "?m \<le> n"
    by (cases rule: edits_snoc_cases) (use assms in \<open>auto dest: least_edits_le\<close>)
qed

subsection \<open>The rows\<close>

definition row_ok :: "string \<Rightarrow> string \<Rightarrow> nat list \<Rightarrow> bool" where
  "row_ok a b r \<longleftrightarrow>
     length r = length b + 1 \<and> (\<forall>j \<le> length b. least_edits a (take j b) (r ! j))"

lemma row_ok_first: "row_ok [] b [0..<length b + 1]"
proof -
  have "least_edits [] (take j b) ([0..<length b + 1] ! j)" if "j \<le> length b" for j
    using least_edits_Nil [of "take j b"] that by (simp del: upt_Suc)
  then show ?thesis by (simp add: row_ok_def del: upt_Suc)
qed

lemma enumerate_snoc: "enumerate n (xs @ [x]) = enumerate n xs @ [(n + length xs, x)]"
  by (simp add: enumerate_append_eq)

lemma row_ok_cells:
  assumes prev: "row_ok a b prev" and k: "k \<le> length b"
  shows "row_ok (a @ [c]) (take k b) (foldl (edit_cell c prev) [length a + 1] (enumerate 1 (take k b)))"
  using k
proof (induction k)
  case 0
  show ?case using least_edits_Nil2 [of "a @ [c]"] by (simp add: row_ok_def)
next
  case (Suc k)
  let ?r = "foldl (edit_cell c prev) [length a + 1] (enumerate 1 (take k b))"
  have k: "k < length b" using Suc.prems by simp
  then have t: "take (Suc k) b = take k b @ [b ! k]" by (simp add: take_Suc_conv_app_nth)
  have IH: "row_ok (a @ [c]) (take k b) ?r" using Suc by simp
  then have len: "length ?r = Suc k" using k by (simp add: row_ok_def)
  have "least_edits (a @ [c]) (take k b @ [b ! k])
    (min (min (prev ! Suc k + 1) (?r ! k + 1)) (prev ! k + (if c = b ! k then 0 else 1)))"
  proof (rule least_edits_snoc)
    show "least_edits a (take k b @ [b ! k]) (prev ! Suc k)" "least_edits a (take k b) (prev ! k)"
      using prev k unfolding row_ok_def t [symmetric] by simp_all
    show "least_edits (a @ [c]) (take k b) (?r ! k)" using IH k by (simp add: row_ok_def min_def)
  qed
  moreover have "foldl (edit_cell c prev) [length a + 1] (enumerate 1 (take (Suc k) b)) =
    ?r @ [min (min (prev ! Suc k + 1) (?r ! k + 1)) (prev ! k + (if c = b ! k then 0 else 1))]"
    using k by (simp add: t enumerate_snoc edit_cell_def Let_def min_def)
  ultimately show ?case
    using IH len k by (auto simp: row_ok_def t nth_append le_Suc_eq take_Cons' min_def)
qed

lemma row_ok_row: "row_ok a b prev \<Longrightarrow> row_ok (a @ [c]) b (edit_row b prev (length a + 1, c))"
  using row_ok_cells [of a b prev "length b" c] by (simp add: edit_row_def)

lemma row_ok_rows: "row_ok a b (foldl (edit_row b) [0..<length b + 1] (enumerate 1 a))"
proof (induction a rule: rev_induct)
  case Nil
  show ?case using row_ok_first [of b] by (simp del: upt_Suc)
next
  case (snoc c a)
  from row_ok_row [OF this, of c] show ?case by (simp add: enumerate_snoc del: upt_Suc)
qed

lemma edit_distance_least: "least_edits a b (edit_distance a b)"
proof -
  have "least_edits a a 0" by (rule least_editsI) (simp_all add: edits_refl)
  moreover have "least_edits a b (List.last (foldl (edit_row b) [0..<length b + 1] (enumerate 1 a)))"
  proof -
    let ?r = "foldl (edit_row b) [0..<length b + 1] (enumerate 1 a)"
    have "length ?r = length b + 1" "least_edits a (take (length b) b) (?r ! length b)"
      using row_ok_rows [of a b] unfolding row_ok_def by blast+
    moreover from this(1) have "List.last ?r = ?r ! length b" by (subst last_conv_nth) auto
    ultimately show ?thesis by simp
  qed
  ultimately show ?thesis
    using least_edits_Nil [of b] least_edits_Nil2 [of a]
    by (auto simp: edit_distance_def simp del: upt_Suc)
qed

lemma edit_distance_le_iff: "edit_distance a b \<le> n \<longleftrightarrow> (\<exists>m \<le> n. (a, b) \<in> one_edit ^^ m)"
proof
  assume "edit_distance a b \<le> n"
  then show "\<exists>m \<le> n. (a, b) \<in> one_edit ^^ m"
    using edit_distance_least path_of_edits by (meson least_edits_def)
next
  assume "\<exists>m \<le> n. (a, b) \<in> one_edit ^^ m"
  then show "edit_distance a b \<le> n"
    by (meson edit_distance_least edits_of_path le_trans least_edits_le)
qed

text \<open>C34: The two-row program computes the least number of single-character edits.\<close>

theorem edit_distance_exact:
  "edit_distance a b = (LEAST n. (a, b) \<in> one_edit ^^ n)"
  by (rule least_edits_path [OF edit_distance_least, symmetric])

end
