(* ===== verification/GovernedMemory.thy ===== *)
theory GovernedMemory
  imports EditDistance Complex_Main "HOL-Library.Multiset"
begin

text \<open>
  Governed retrieval of the memory store (\<open>memory_rag/ruscadb_store.py\<close>): the rows of the
  engine normalised to items, filters, trust and recency weights, dense search, full-text
  search, their reciprocal rank fusion and the fuzzy and phrase modes.

  The engine is a closed library: what it answers to a statement, and the two library readers
  the store relies on (\<open>json.loads\<close>, \<open>datetime.fromisoformat\<close>), are the fields of \<open>library\<close>. A value of
  the store is a Python value of the prelude, a float being \<open>PObj\<close> of a real number (printed as
  \<open><object>\<close>: identifiers and trust tiers, the only values printed here, are \<open>Text\<close> columns). The
  decay uses the real exponential and logarithm, not their roundings.
\<close>

type_synonym mem_value = "real pyval"
type_synonym mem_dict = "(string \<times> mem_value) list"

record 'v library =
  lib_execute :: "string \<Rightarrow> mem_value list option"
  lib_get_record :: "string \<Rightarrow> string \<Rightarrow> mem_dict option"
  lib_bq :: "string \<Rightarrow> 'v \<Rightarrow> int \<Rightarrow> int \<Rightarrow> (string \<times> real) list option"
  lib_quantized :: "string \<Rightarrow> 'v \<Rightarrow> int \<Rightarrow> (string \<times> real) list option"
  lib_filtered :: "string \<Rightarrow> 'v \<Rightarrow> string set \<Rightarrow> int \<Rightarrow> (string \<times> real) list option"
  lib_vector :: "'v \<Rightarrow> string"
  lib_loads :: "string \<Rightarrow> mem_value option"
  lib_iso :: "string \<Rightarrow> real option"

text \<open>
  What a query raises: an identifier that is refused (\<open>ValueError\<close>), metadata that does not
  take a column (\<open>TypeError\<close>), a text that is not a string (\<open>AttributeError\<close>). \<open>lib_execute\<close> gives \<open>None\<close> when the engine raises \<open>RuscadbError\<close>,
  which every query catches.
\<close>

datatype mem_error = BadIdent string | BadMetadata | BadText

subsection \<open>Python values of the store\<close>

fun mem_truthy :: "mem_value \<Rightarrow> bool" where
  "mem_truthy (PObj x) = (x \<noteq> 0)"
| "mem_truthy v = py_truthy v"

text \<open>\<open>a or b\<close>\<close>

definition mem_or :: "mem_value \<Rightarrow> mem_value \<Rightarrow> mem_value" where
  "mem_or a b = (if mem_truthy a then a else b)"

text \<open>\<open>==\<close>: numbers by value whatever their type, dictionaries whatever their order.\<close>

fun mem_number :: "mem_value \<Rightarrow> real option" where
  "mem_number (PBool b) = Some (if b then 1 else 0)"
| "mem_number (PInt i) = Some (of_int i)"
| "mem_number (PObj x) = Some x"
| "mem_number _ = None"

fun mem_eq :: "mem_value \<Rightarrow> mem_value \<Rightarrow> bool" where
  "mem_eq PNone w = (case w of PNone \<Rightarrow> True | _ \<Rightarrow> False)"
| "mem_eq (PStr s) w = (case w of PStr t \<Rightarrow> s = t | _ \<Rightarrow> False)"
| "mem_eq (PList xs) w =
     (case w of PList ys \<Rightarrow> list_all2 (\<lambda>x y. mem_eq x y) xs ys | _ \<Rightarrow> False)"
| "mem_eq (PDict d) w =
     (case w of
        PDict e \<Rightarrow> length d = length e \<and>
          list_all (\<lambda>(k, v). case map_of e k of None \<Rightarrow> False | Some u \<Rightarrow> mem_eq v u) d
      | _ \<Rightarrow> False)"
| "mem_eq v w = (mem_number v = mem_number w)"

definition mem_get :: "mem_dict \<Rightarrow> string \<Rightarrow> mem_value" where
  "mem_get d k = dict_get d k PNone"

subsection \<open>Statements\<close>

definition quote_char :: char where
  "quote_char = char_of (39 :: nat)"

definition ident_start :: "char \<Rightarrow> bool" where
  "ident_start c \<longleftrightarrow>
     (let n = of_char c :: nat in (65 \<le> n \<and> n \<le> 90) \<or> (97 \<le> n \<and> n \<le> 122) \<or> n = 95)"

definition ident_char :: "char \<Rightarrow> bool" where
  "ident_char c \<longleftrightarrow> ident_start c \<or> is_digit c"

text \<open>
  \<open>re.match('^[A-Za-z_][A-Za-z0-9_]*$', name)\<close>: the dollar sign also matches before a line
  feed that ends the text.
\<close>

definition safe_ident :: "string \<Rightarrow> bool" where
  "safe_ident name \<longleftrightarrow>
     (case name of
        [] \<Rightarrow> False
      | c # cs \<Rightarrow>
          ident_start c \<and>
          (let r = dropWhile ident_char cs in r = [] \<or> r = [char_of (10 :: nat)]))"

definition escape_literal :: "string \<Rightarrow> string" where
  "escape_literal s = concat (map (\<lambda>c. if c = quote_char then [c, c] else [c]) s)"

definition literal :: "string \<Rightarrow> string" where
  "literal s = [quote_char] @ escape_literal s @ [quote_char]"

subsection \<open>Poisoning markers and trust\<close>

definition injection_markers :: "string list" where
  "injection_markers =
     [''ignore previous instructions'', ''ignore all previous'', ''system prompt'',
      ''you are now'', ''disregard the above'', ''override safety'', ''<script'', ''javascript:'']"

definition looks_like_injection :: "string \<Rightarrow> bool" where
  "looks_like_injection text =
     (let low = py_lower text in list_ex (\<lambda>m. py_contains low m) injection_markers)"

definition trust_tier_weights :: "(string \<times> real) list" where
  "trust_tier_weights =
     [(''verified'', 1), (''user_stated'', 1), (''derived'', 85 / 100), (''agent'', 7 / 10),
      (''external'', 1 / 2), (''quarantined'', 0)]"

subsection \<open>Items\<close>

text \<open>
  An item of a result: its keys from the row, then the keys the retrieval adds, absent until it
  has added them.
\<close>

record mem_item =
  mi_id :: mem_value
  mi_text :: mem_value
  mi_metadata :: mem_value
  mi_created :: mem_value
  mi_raw :: mem_value
  mi_score :: "real option"
  mi_tier :: "string option"
  mi_weight :: "real option"
  mi_recency :: "real option"
  mi_ranks :: "(string \<times> nat) list"
  mi_distance :: "real option"
  mi_oversample :: "int option"

definition new_item :: "mem_value \<Rightarrow> mem_value \<Rightarrow> mem_value \<Rightarrow> mem_value \<Rightarrow> mem_value \<Rightarrow> mem_item" where
  "new_item i t m c r =
     \<lparr>mi_id = i, mi_text = t, mi_metadata = m, mi_created = c, mi_raw = r, mi_score = None,
      mi_tier = None, mi_weight = None, mi_recency = None, mi_ranks = [], mi_distance = None,
      mi_oversample = None\<rparr>"

definition meta_dict :: "mem_item \<Rightarrow> mem_dict" where
  "meta_dict i = (case mi_metadata i of PDict d \<Rightarrow> d | _ \<Rightarrow> [])"

definition unwrap_scalar :: "mem_value \<Rightarrow> mem_value" where
  "unwrap_scalar v =
     (case v of
        PDict [(k, w)] \<Rightarrow>
          if k \<in> set [''Text'', ''Int'', ''UInt'', ''Float'', ''Bool'', ''Null'', ''TimestampMillis'']
          then w else v
      | _ \<Rightarrow> v)"

definition governance_columns :: "string list" where
  "governance_columns =
     [''source'', ''trust_tier'', ''session_id'', ''derived_from'', ''write_gate_verdict'']"

text \<open>\<open>if isinstance(value, str) and value and column not in meta: meta[column] = value\<close>\<close>

definition add_column :: "mem_dict \<Rightarrow> string \<Rightarrow> mem_value \<Rightarrow> mem_value option" where
  "add_column row column meta =
     (case unwrap_scalar (mem_get row column) of
        PStr (c # cs) \<Rightarrow>
          (case meta of
             PDict d \<Rightarrow>
               Some (if map_of d column = None then PDict (d @ [(column, PStr (c # cs))]) else meta)
           | PStr s \<Rightarrow> if py_contains s column then Some meta else None
           | PList vs \<Rightarrow> if list_ex (mem_eq (PStr column)) vs then Some meta else None
           | _ \<Rightarrow> None)
      | _ \<Rightarrow> Some meta)"

fun add_columns :: "mem_dict \<Rightarrow> string list \<Rightarrow> mem_value \<Rightarrow> mem_value option" where
  "add_columns row [] meta = Some meta"
| "add_columns row (c # cs) meta = Option.bind (add_column row c meta) (add_columns row cs)"

definition read_metadata :: "'v library \<Rightarrow> mem_dict \<Rightarrow> mem_value" where
  "read_metadata L row =
     (case unwrap_scalar (mem_get row ''metadata'') of
        PStr s \<Rightarrow> (case lib_loads L s of None \<Rightarrow> PDict [(''raw'', PStr s)] | Some v \<Rightarrow> v)
      | PDict d \<Rightarrow> PDict d
      | v \<Rightarrow> PDict [(''value'', v)])"

definition parse_row :: "'v library \<Rightarrow> mem_dict \<Rightarrow> mem_item option" where
  "parse_row L row =
     map_option
       (\<lambda>meta. new_item (unwrap_scalar (mem_get row ''id''))
                 (mem_or (unwrap_scalar (mem_get row ''text'')) (PStr []))
                 meta (unwrap_scalar (mem_get row ''created_at'')) (PDict row))
       (add_columns row governance_columns (read_metadata L row))"

fun parse_rows :: "'v library \<Rightarrow> mem_value list \<Rightarrow> mem_item list option" where
  "parse_rows L [] = Some []"
| "parse_rows L (PDict row # rows) =
     Option.bind (parse_row L row) (\<lambda>i. map_option (Cons i) (parse_rows L rows))"
| "parse_rows L (_ # rows) = parse_rows L rows"

subsection \<open>Filters\<close>

definition item_get :: "mem_item \<Rightarrow> string \<Rightarrow> mem_value" where
  "item_get i k =
     (if k = ''id'' then mi_id i else if k = ''text'' then mi_text i
      else if k = ''metadata'' then mi_metadata i else if k = ''created_at'' then mi_created i
      else if k = ''raw'' then mi_raw i else PNone)"

definition matches_filters :: "mem_item \<Rightarrow> mem_dict \<Rightarrow> bool" where
  "matches_filters i filters =
     list_all (\<lambda>(k, v). mem_eq (item_get i k) v \<or> mem_eq (mem_get (meta_dict i) k) v) filters"

subsection \<open>Trust and recency\<close>

record retrieval_options =
  ro_allow_quarantined :: bool
  ro_min_trust :: real
  ro_half_life :: "real option"
  ro_include_evicted :: bool

definition default_options :: retrieval_options where
  "default_options = \<lparr>ro_allow_quarantined = False, ro_min_trust = 0, ro_half_life = None,
     ro_include_evicted = False\<rparr>"

definition age_days :: "'v library \<Rightarrow> mem_value \<Rightarrow> real \<Rightarrow> real option" where
  "age_days L stamp reference =
     (case stamp of
        PStr (c # cs) \<Rightarrow>
          map_option (\<lambda>moment. max ((reference - moment) / 86400) 0) (lib_iso L (c # cs))
      | _ \<Rightarrow> None)"

definition decay_rate :: "real option \<Rightarrow> real" where
  "decay_rate half_life =
     (case half_life of None \<Rightarrow> 0 | Some h \<Rightarrow> if 0 < h then ln 2 / h else 0)"

definition trust_tier :: "mem_item \<Rightarrow> string" where
  "trust_tier i = py_str (mem_or (mem_get (meta_dict i) ''trust_tier'') (PStr ''user_stated''))"

definition trust_weight :: "string \<Rightarrow> real" where
  "trust_weight tier =
     (case map_of trust_tier_weights tier of
        None \<Rightarrow> the (map_of trust_tier_weights ''external'')
      | Some w \<Rightarrow> w)"

text \<open>The time stamp that counts; a result never carries \<open>last_accessed\<close> outside its metadata.\<close>

definition item_stamp :: "mem_item \<Rightarrow> mem_value" where
  "item_stamp i =
     mem_or (mem_get (meta_dict i) ''last_accessed'')
       (mem_or PNone (mem_or (mi_created i) (mem_get (meta_dict i) ''created_at'')))"

declare decay_rate_def [code del]

definition recency_weight :: "'v library \<Rightarrow> real \<Rightarrow> real option \<Rightarrow> mem_item \<Rightarrow> real" where
  "recency_weight L now half_life i =
     (if 0 < decay_rate half_life
      then (case age_days L (item_stamp i) now of
              None \<Rightarrow> 1
            | Some age \<Rightarrow> exp (- decay_rate half_life * age))
      else 1)"

text \<open>Without a half-life nothing has to be computed with the logarithm.\<close>

definition decayed :: "'v library \<Rightarrow> real \<Rightarrow> real \<Rightarrow> mem_item \<Rightarrow> real" where
  "decayed L now h i = recency_weight L now (Some h) i"

declare decayed_def [code del]

lemma recency_weight_code [code]:
  "recency_weight L now hl i = (case hl of None \<Rightarrow> 1 | Some h \<Rightarrow> decayed L now h i)"
  by (simp add: recency_weight_def decay_rate_def decayed_def split: option.split)

definition served :: "retrieval_options \<Rightarrow> mem_item \<Rightarrow> bool" where
  "served opts i \<longleftrightarrow>
     \<not> (mem_truthy (mem_get (meta_dict i) ''evicted'') \<and> \<not> ro_include_evicted opts) \<and>
     \<not> (trust_tier i = ''quarantined'' \<and> \<not> ro_allow_quarantined opts) \<and>
     \<not> trust_weight (trust_tier i) < ro_min_trust opts"

definition item_score :: "mem_item \<Rightarrow> real" where
  "item_score i = (case mi_score i of None \<Rightarrow> 0 | Some s \<Rightarrow> s)"

definition weigh :: "'v library \<Rightarrow> real \<Rightarrow> retrieval_options \<Rightarrow> mem_item \<Rightarrow> mem_item" where
  "weigh L now opts i =
     (let w = trust_weight (trust_tier i); r = recency_weight L now (ro_half_life opts) i
      in i\<lparr>mi_tier := Some (trust_tier i), mi_weight := Some w, mi_recency := Some r,
           mi_score := Some (item_score i * w * r)\<rparr>)"

definition apply_trust_and_recency ::
  "'v library \<Rightarrow> real \<Rightarrow> retrieval_options \<Rightarrow> mem_item list \<Rightarrow> int \<Rightarrow> mem_item list" where
  "apply_trust_and_recency L now opts items top_k =
     py_slice_to
       (sort_key (\<lambda>i. - item_score i) (map (weigh L now opts) (filter (served opts) items)))
       top_k"

subsection \<open>The store's queries\<close>

text \<open>\<open>HeatPolicy\<close> (\<open>memory_rag/memory_heat.py\<close>)\<close>

record heat_policy =
  hp_stm_max_age_hours :: real
  hp_mtm_max_age_days :: real
  hp_half_life_days :: real
  hp_evict_after_days :: real
  hp_min_heat :: real
  hp_per_collection :: "(string \<times> real) list"

definition half_life_for :: "heat_policy \<Rightarrow> string \<Rightarrow> real" where
  "half_life_for p collection = dict_get (hp_per_collection p) collection (hp_half_life_days p)"

record mem_store =
  st_text_columns :: "(string \<times> string) list"
  st_heat_policy :: "heat_policy option"
  st_caps :: "string list"

definition retrieval_options_for ::
  "mem_store \<Rightarrow> retrieval_options \<Rightarrow> string \<Rightarrow> retrieval_options" where
  "retrieval_options_for st opts collection =
     (case (ro_half_life opts, st_heat_policy st) of
        (None, Some p) \<Rightarrow> opts\<lparr>ro_half_life := Some (half_life_for p collection)\<rparr>
      | _ \<Rightarrow> opts)"

definition text_column :: "'v library \<Rightarrow> mem_store \<Rightarrow> string \<Rightarrow> mem_error + string \<times> mem_store" where
  "text_column L st collection =
     (case map_of (st_text_columns st) collection of
        Some column \<Rightarrow> Inr (column, st)
      | None \<Rightarrow>
          if \<not> safe_ident collection then Inl (BadIdent collection)
          else
            let column =
                  (if lib_execute L (''SELECT text FROM '' @ collection @ '' LIMIT 1'') = None
                   then ''metadata'' else ''text'')
            in Inr (column, st\<lparr>st_text_columns := AList.update collection column (st_text_columns st)\<rparr>))"

text \<open>\<open>for rank, item in enumerate(out): item["score"] = 1.0 / (rank + 1)\<close>\<close>

definition rank_scores :: "mem_item list \<Rightarrow> mem_item list" where
  "rank_scores out = map (\<lambda>(rank, i). i\<lparr>mi_score := Some (1 / real (rank + 1))\<rparr>) (enumerate 0 out)"

definition knn_statement :: "'v library \<Rightarrow> string \<Rightarrow> 'v \<Rightarrow> int \<Rightarrow> string" where
  "knn_statement L collection qv top_k =
     ''SELECT * FROM '' @ collection @ '' KNN embedding <|'' @ str_of_int top_k @ ''|> '' @
     lib_vector L qv"

definition match_statement :: "string \<Rightarrow> string \<Rightarrow> string \<Rightarrow> string" where
  "match_statement collection column query =
     ''SELECT * FROM '' @ collection @ '' WHERE MATCH('' @ column @ '', '' @ literal query @ '')''"

definition search :: "'v library \<Rightarrow> real \<Rightarrow> mem_store \<Rightarrow> string \<Rightarrow> 'v \<Rightarrow> int \<Rightarrow>
    retrieval_options \<Rightarrow> mem_dict \<Rightarrow> mem_error + mem_item list" where
  "search L now st collection qv top_k opts filters =
     (if \<not> safe_ident collection then Inl (BadIdent collection)
      else case lib_execute L (knn_statement L collection qv top_k) of
        None \<Rightarrow> Inr []
      | Some rows \<Rightarrow>
          (case parse_rows L rows of
             None \<Rightarrow> Inl BadMetadata
           | Some out \<Rightarrow>
               Inr (apply_trust_and_recency L now (retrieval_options_for st opts collection)
                      (rank_scores (filter (\<lambda>i. matches_filters i filters) out)) top_k)))"

definition full_text_search :: "'v library \<Rightarrow> real \<Rightarrow> mem_store \<Rightarrow> string \<Rightarrow> string \<Rightarrow> int \<Rightarrow>
    retrieval_options \<Rightarrow> mem_dict \<Rightarrow> mem_error + mem_item list \<times> mem_store" where
  "full_text_search L now st collection query top_k opts filters =
     (if py_blank query then Inr ([], st)
      else case text_column L st collection of
        Inl e \<Rightarrow> Inl e
      | Inr (column, st1) \<Rightarrow>
          if \<not> safe_ident collection then Inl (BadIdent collection)
          else case lib_execute L (match_statement collection column query) of
            None \<Rightarrow> Inr ([], st1)
          | Some rows \<Rightarrow>
              (case parse_rows L rows of
                 None \<Rightarrow> Inl BadMetadata
               | Some out \<Rightarrow>
                   Inr (apply_trust_and_recency L now (retrieval_options_for st1 opts collection)
                          (rank_scores (filter (\<lambda>i. matches_filters i filters) out)) top_k, st1)))"

subsection \<open>Reciprocal rank fusion\<close>

definition rrf_k :: nat where
  "rrf_k = 60"

definition item_key :: "mem_item \<Rightarrow> string" where
  "item_key i = py_str (mi_id i)"

definition fuse_item :: "string \<Rightarrow> (string \<times> mem_item) list \<Rightarrow> nat \<times> mem_item \<Rightarrow> (string \<times> mem_item) list" where
  "fuse_item source fused = (\<lambda>(rank, i).
     let key = item_key i;
         e = (case map_of fused key of None \<Rightarrow> i\<lparr>mi_score := Some 0\<rparr> | Some e \<Rightarrow> e)
     in AList.update key
          (e\<lparr>mi_ranks := AList.update source rank (mi_ranks e),
             mi_score := Some (item_score e + 1 / real (rrf_k + rank + 1))\<rparr>) fused)"

definition fuse :: "string \<Rightarrow> mem_item list \<Rightarrow> (string \<times> mem_item) list \<Rightarrow> (string \<times> mem_item) list" where
  "fuse source items fused = foldl (fuse_item source) fused (enumerate 0 items)"

definition fusion :: "mem_item list \<Rightarrow> mem_item list \<Rightarrow> mem_item list" where
  "fusion dense sparse =
     sort_key (\<lambda>i. - item_score i) (dict_values (fuse ''sparse'' sparse (fuse ''dense'' dense [])))"

definition hybrid_search :: "'v library \<Rightarrow> real \<Rightarrow> mem_store \<Rightarrow> string \<Rightarrow> 'v \<Rightarrow> string \<Rightarrow> int \<Rightarrow>
    retrieval_options \<Rightarrow> mem_dict \<Rightarrow> mem_error + mem_item list \<times> mem_store" where
  "hybrid_search L now st collection qv query top_k opts filters =
     (let options = retrieval_options_for st opts collection
      in case search L now st collection qv (top_k * 2) options filters of
           Inl e \<Rightarrow> Inl e
         | Inr dense \<Rightarrow>
             (case (if query = [] then Inr ([], st)
                    else full_text_search L now st collection query (top_k * 2) options filters) of
                Inl e \<Rightarrow> Inl e
              | Inr (sparse, st1) \<Rightarrow>
                  Inr (apply_trust_and_recency L now options (fusion dense sparse) top_k, st1)))"

subsection \<open>Fuzzy and phrase modes\<close>

definition text_of :: "mem_item \<Rightarrow> string option" where
  "text_of i = (case mi_text i of PStr s \<Rightarrow> Some s | v \<Rightarrow> if mem_truthy v then None else Some [])"

definition fuzzy_hit :: "string \<Rightarrow> mem_item \<Rightarrow> bool" where
  "fuzzy_hit query i =
     (case text_of i of
        None \<Rightarrow> False
      | Some text \<Rightarrow>
          list_ex (\<lambda>qt. list_ex (\<lambda>wt. edit_distance qt wt \<le> 2) (py_split (py_lower text)))
            (py_split (py_lower query)))"

definition fts_search_mode :: "'v library \<Rightarrow> real \<Rightarrow> mem_store \<Rightarrow> string \<Rightarrow> string \<Rightarrow> string \<Rightarrow> int \<Rightarrow>
    mem_error + mem_item list \<times> mem_store" where
  "fts_search_mode L now st collection query mode top_k =
     (if mode = ''phrase'' then
        (if \<not> safe_ident collection then Inl (BadIdent collection)
         else case text_column L st collection of
           Inl e \<Rightarrow> Inl e
         | Inr (column, st1) \<Rightarrow>
             (case lib_execute L (match_statement collection column
                     ([char_of (34 :: nat)] @ query @ [char_of (34 :: nat)])) of
                None \<Rightarrow> Inr ([], st1)
              | Some rows \<Rightarrow>
                  (case parse_rows L rows of
                     None \<Rightarrow> Inl BadMetadata
                   | Some out \<Rightarrow> Inr (py_slice_to (rank_scores out) top_k, st1))))
      else if mode = ''fuzzy'' then
        (if \<not> safe_ident collection then Inl (BadIdent collection)
         else case lib_execute L (''SELECT * FROM '' @ collection) of
           None \<Rightarrow> Inr ([], st)
         | Some rows \<Rightarrow>
             (case parse_rows L rows of
                None \<Rightarrow> Inl BadMetadata
              | Some out \<Rightarrow>
                  if list_ex (\<lambda>i. text_of i = None) out then Inl BadText
                  else Inr (py_slice_to (rank_scores (filter (fuzzy_hit query) out)) top_k, st)))
      else full_text_search L now st collection query top_k default_options [])"

subsection \<open>Statements are not broken by their literals\<close>

text \<open>A reader of a quoted literal after its opening quote: two quotes stand for one.\<close>

fun read_literal :: "string \<Rightarrow> (string \<times> string) option" where
  "read_literal [] = None"
| "read_literal (c # cs) =
     (if c = quote_char
      then (case cs of
              [] \<Rightarrow> Some ([], [])
            | d # ds \<Rightarrow>
                if d = quote_char then map_option (\<lambda>(v, r). (c # v, r)) (read_literal ds)
                else Some ([], cs))
      else map_option (\<lambda>(v, r). (c # v, r)) (read_literal cs))"

lemma read_escaped:
  "(case rest of [] \<Rightarrow> True | d # ds \<Rightarrow> d \<noteq> quote_char) \<Longrightarrow>
     read_literal (escape_literal s @ quote_char # rest) = Some (s, rest)"
  by (induction s) (auto simp: escape_literal_def split: list.splits)

subsection \<open>What the retrieval keeps of an item\<close>

lemma keeps_weigh [simp]:
  "meta_dict (weigh L now opts i) = meta_dict i" "trust_tier (weigh L now opts i) = trust_tier i"
  "item_get (weigh L now opts i) = item_get i" "item_key (weigh L now opts i) = item_key i"
  "served o' (weigh L now opts i) = served o' i"
  by (simp_all add: fun_eq_iff weigh_def Let_def meta_dict_def trust_tier_def item_get_def item_key_def served_def)

lemma keeps_score [simp]:
  "meta_dict (i\<lparr>mi_score := x\<rparr>) = meta_dict i" "trust_tier (i\<lparr>mi_score := x\<rparr>) = trust_tier i"
  "item_get (i\<lparr>mi_score := x\<rparr>) = item_get i" "item_key (i\<lparr>mi_score := x\<rparr>) = item_key i"
  "served o' (i\<lparr>mi_score := x\<rparr>) = served o' i"
  by (simp_all add: fun_eq_iff meta_dict_def trust_tier_def item_get_def item_key_def served_def)

lemma keeps_ranks [simp]:
  "meta_dict (i\<lparr>mi_ranks := x\<rparr>) = meta_dict i" "trust_tier (i\<lparr>mi_ranks := x\<rparr>) = trust_tier i"
  "item_get (i\<lparr>mi_ranks := x\<rparr>) = item_get i" "item_key (i\<lparr>mi_ranks := x\<rparr>) = item_key i"
  "served o' (i\<lparr>mi_ranks := x\<rparr>) = served o' i"
  by (simp_all add: fun_eq_iff meta_dict_def trust_tier_def item_get_def item_key_def served_def)

lemma matches_keeps [simp]:
  "matches_filters (weigh L now opts i) fs = matches_filters i fs"
  "matches_filters (i\<lparr>mi_score := x\<rparr>) fs = matches_filters i fs"
  "matches_filters (i\<lparr>mi_ranks := y\<rparr>) fs = matches_filters i fs"
  by (simp_all add: matches_filters_def)

lemma slice_is_take: "\<exists>n. py_slice_to xs k = take n xs"
  by (auto simp: py_slice_to_def)

text \<open>Sorted by falling score.\<close>

definition best_first :: "mem_item list \<Rightarrow> bool" where
  "best_first xs = sorted_wrt (\<lambda>i j. item_score j \<le> item_score i) xs"

lemma best_first_Nil [simp]: "best_first []"
  by (simp add: best_first_def)

lemma best_first_sort: "best_first (sort_key (\<lambda>i. - item_score i) xs)"
  using sorted_sort_key [of "\<lambda>i. - item_score i" xs]
  by (simp add: best_first_def sorted_map)

lemma best_first_take: "best_first xs \<Longrightarrow> best_first (take n xs)"
  unfolding best_first_def by (rule sorted_wrt_take)

lemma best_first_split:
  assumes "best_first xs" "i \<in> set (take n xs)" "j \<in> set (drop n xs)"
  shows "item_score j \<le> item_score i"
proof -
  have "best_first (take n xs @ drop n xs)" using assms(1) by simp
  then show ?thesis using assms(2,3) unfolding best_first_def sorted_wrt_append by blast
qed

text \<open>The documented weight: a half for every half-life of age.\<close>

lemma exp_decay: "0 < h \<Longrightarrow> exp (- (ln 2 / h) * a) = (1 / 2) powr (a / h)" for a h :: real
  by (simp add: powr_def ln_div)

lemma recency_half:
  "recency_weight L now hl i =
     (case hl of
        None \<Rightarrow> 1
      | Some h \<Rightarrow>
          (if h \<le> 0 then 1
           else case age_days L (item_stamp i) now of None \<Rightarrow> 1 | Some a \<Rightarrow> (1 / 2) powr (a / h)))"
proof (cases hl)
  case (Some h)
  show ?thesis
  proof (cases "0 < h")
    case True
    then have "0 < ln 2 / h" by simp
    with True Some show ?thesis
      using exp_decay [OF True]
      by (simp add: recency_weight_def decay_rate_def split: option.split)
  qed (simp add: Some recency_weight_def decay_rate_def)
qed (simp add: recency_weight_def decay_rate_def)

lemma apply_trust_split:
  obtains rest where
    "apply_trust_and_recency L now opts items k @ rest =
       sort_key (\<lambda>i. - item_score i) (map (weigh L now opts) (filter (served opts) items))"
    "0 \<le> k \<longrightarrow> length (apply_trust_and_recency L now opts items k) =
       min (nat k) (length (filter (served opts) items))"
proof -
  let ?s = "sort_key (\<lambda>i. - item_score i) (map (weigh L now opts) (filter (served opts) items))"
  define n where "n = (if 0 \<le> k then nat k else length ?s - nat (- k))"
  have e: "apply_trust_and_recency L now opts items k = take n ?s"
    by (simp add: apply_trust_and_recency_def py_slice_to_def n_def)
  show thesis
    by (rule that [of "drop n ?s"]) (unfold e, simp_all add: n_def min.commute)
qed

lemma best_first_apply: "best_first (apply_trust_and_recency L now opts items k)"
proof -
  obtain rest where "apply_trust_and_recency L now opts items k @ rest =
      sort_key (\<lambda>i. - item_score i) (map (weigh L now opts) (filter (served opts) items))"
    by (rule apply_trust_split)
  then have "best_first (apply_trust_and_recency L now opts items k @ rest)"
    by (simp add: best_first_sort)
  then show ?thesis by (simp add: best_first_def sorted_wrt_append)
qed

lemma apply_trust_set:
  "i \<in> set (apply_trust_and_recency L now opts items k) \<Longrightarrow>
     \<exists>j \<in> set items. served opts j \<and> i = weigh L now opts j"
  unfolding apply_trust_and_recency_def py_slice_to_def
  by (auto dest!: in_set_takeD split: if_splits)

subsection \<open>Fusion\<close>

text \<open>The reciprocal rank score of a key over one ranked list.\<close>

definition rrf_from :: "nat \<Rightarrow> string \<Rightarrow> mem_item list \<Rightarrow> real" where
  "rrf_from n key items =
     (\<Sum>(rank, i) \<leftarrow> enumerate n items. if item_key i = key then 1 / (60 + real rank + 1) else 0)"

definition rrf :: "string \<Rightarrow> mem_item list \<Rightarrow> real" where
  "rrf key items = rrf_from 0 key items"

definition same_item :: "mem_item \<Rightarrow> mem_item \<Rightarrow> bool" where
  "same_item i j \<longleftrightarrow>
     mi_id i = mi_id j \<and> mi_text i = mi_text j \<and> mi_metadata i = mi_metadata j \<and>
     mi_created i = mi_created j \<and> mi_raw i = mi_raw j"

lemma same_item_keeps:
  assumes "same_item i j"
  shows "item_key i = item_key j" "served o' i = served o' j"
    "matches_filters i fs = matches_filters j fs"
proof -
  have "meta_dict i = meta_dict j" "item_get i = item_get j" and k: "item_key i = item_key j"
    using assms by (simp_all add: fun_eq_iff same_item_def item_key_def meta_dict_def item_get_def)
  then show "served o' i = served o' j" "matches_filters i fs = matches_filters j fs"
    by (simp_all add: served_def trust_tier_def matches_filters_def)
  show "item_key i = item_key j" by (rule k)
qed

lemma same_item_refl: "same_item i i"
  by (simp add: same_item_def)

definition fused_score :: "(string \<times> mem_item) list \<Rightarrow> string \<Rightarrow> real" where
  "fused_score d key = (case map_of d key of None \<Rightarrow> 0 | Some e \<Rightarrow> item_score e)"

definition fused_ok :: "mem_item set \<Rightarrow> (string \<times> mem_item) list \<Rightarrow> bool" where
  "fused_ok S d \<longleftrightarrow>
     wf_dict d \<and> (\<forall>(k, e) \<in> set d. item_key e = k \<and> (\<exists>i \<in> S. same_item e i))"

lemma fused_okD:
  "fused_ok S d \<Longrightarrow> map_of d k = Some e \<Longrightarrow> item_key e = k \<and> (\<exists>i \<in> S. same_item e i)"
  unfolding fused_ok_def by (blast dest: map_of_SomeD)

lemma item_score_set [simp]: "item_score (i\<lparr>mi_score := Some x\<rparr>) = x"
  by (simp add: item_score_def)

lemma fuse_item_score:
  "fused_score (fuse_item src d (r, i)) key =
     fused_score d key + (if item_key i = key then 1 / (60 + real r + 1) else 0)"
  by (auto simp: fuse_item_def Let_def fused_score_def rrf_k_def add_ac split: option.split)

lemma fuse_item_dom: "fst ` set (fuse_item src d (r, i)) = insert (item_key i) (fst ` set d)"
  by (simp add: fuse_item_def Let_def dict_dom_update)

lemma fuse_item_ok:
  assumes "fused_ok S d" "i \<in> S"
  shows "fused_ok S (fuse_item src d (r, i))"
proof -
  define e where "e = (case map_of d (item_key i) of None \<Rightarrow> i\<lparr>mi_score := Some 0\<rparr> | Some e \<Rightarrow> e)"
  have e: "item_key e = item_key i \<and> (\<exists>j \<in> S. same_item e j)"
    using fused_okD [OF assms(1)] assms(2)
    by (auto simp: e_def same_item_def split: option.split)
  have "fuse_item src d (r, i) = AList.update (item_key i)
      (e\<lparr>mi_ranks := AList.update src r (mi_ranks e),
         mi_score := Some (item_score e + 1 / real (rrf_k + r + 1))\<rparr>) d"
    by (simp add: fuse_item_def Let_def e_def)
  moreover have "wf_dict d" using assms(1) by (simp add: fused_ok_def)
  ultimately show ?thesis
    using assms(1) e by (auto simp: fused_ok_def set_dict_update same_item_def)
qed

lemma fuse_from:
  assumes "fused_ok S d" "set items \<subseteq> S"
  shows "fused_ok S (foldl (fuse_item src) d (enumerate n items)) \<and>
    fst ` set (foldl (fuse_item src) d (enumerate n items)) = fst ` set d \<union> item_key ` set items \<and>
    (\<forall>key. fused_score (foldl (fuse_item src) d (enumerate n items)) key =
       fused_score d key + rrf_from n key items)"
  using assms
proof (induction items arbitrary: d n)
  case Nil
  then show ?case by (simp add: rrf_from_def)
next
  case (Cons i items)
  then have "fused_ok S (fuse_item src d (n, i))" by (simp add: fuse_item_ok)
  from Cons.IH [OF this, of "Suc n"] Cons.prems show ?case
    by (simp add: fuse_item_dom fuse_item_score rrf_from_def)
qed

lemma fusion_ok:
  defines "d \<equiv> \<lambda>dense sparse. fuse ''sparse'' sparse (fuse ''dense'' dense [])"
  shows "fused_ok (set dense \<union> set sparse) (d dense sparse)"
    and "fst ` set (d dense sparse) = item_key ` (set dense \<union> set sparse)"
    and "fused_score (d dense sparse) key = rrf key dense + rrf key sparse"
proof -
  let ?S = "set dense \<union> set sparse"
  have "fused_ok ?S []" by (simp add: fused_ok_def)
  from fuse_from [OF this, of dense "''dense''" 0]
  have 1: "fused_ok ?S (fuse ''dense'' dense [])"
    "fst ` set (fuse ''dense'' dense []) = item_key ` set dense"
    "fused_score (fuse ''dense'' dense []) k = rrf k dense" for k
    by (auto simp: fuse_def fused_score_def rrf_def)
  from fuse_from [OF 1(1), of sparse "''sparse''" 0] 1(2,3)
  show "fused_ok ?S (d dense sparse)" "fst ` set (d dense sparse) = item_key ` ?S"
    "fused_score (d dense sparse) key = rrf key dense + rrf key sparse"
    by (auto simp: fuse_def d_def rrf_def)
qed

lemma fused_ok_keys: "fused_ok S d \<Longrightarrow> map item_key (dict_values d) = map fst d"
  by (auto simp: fused_ok_def dict_values_def)

lemma fusion_keys:
  "distinct (map item_key (fusion dense sparse))"
  "item_key ` set (fusion dense sparse) = item_key ` (set dense \<union> set sparse)"
proof -
  let ?d = "fuse ''sparse'' sparse (fuse ''dense'' dense [])"
  have k: "map item_key (dict_values ?d) = map fst ?d" by (rule fused_ok_keys [OF fusion_ok(1)])
  moreover have "distinct (map fst ?d)"
    using fusion_ok(1) [of dense sparse] by (simp add: fused_ok_def wf_dict_def)
  ultimately have "distinct (map item_key (dict_values ?d))" by simp
  then show "distinct (map item_key (fusion dense sparse))"
    by (simp add: fusion_def distinct_map)
  have "item_key ` set (dict_values ?d) = fst ` set ?d"
    using arg_cong [OF k, of set] by simp
  then show "item_key ` set (fusion dense sparse) = item_key ` (set dense \<union> set sparse)"
    using fusion_ok(2) [of sparse dense] by (simp add: fusion_def)
qed

lemma fusion_item:
  assumes "i \<in> set (fusion dense sparse)"
  shows "item_score i = rrf (item_key i) dense + rrf (item_key i) sparse"
    and "\<exists>j \<in> set dense \<union> set sparse. same_item i j"
proof -
  let ?d = "fuse ''sparse'' sparse (fuse ''dense'' dense [])"
  have wf: "fused_ok (set dense \<union> set sparse) ?d" by (rule fusion_ok(1))
  from assms obtain k where "(k, i) \<in> set ?d" by (auto simp: fusion_def dict_values_def)
  then have "map_of ?d k = Some i" using wf by (auto simp: fused_ok_def wf_dict_get)
  with fused_okD [OF wf this] fusion_ok(3) [of sparse dense k]
  show "item_score i = rrf (item_key i) dense + rrf (item_key i) sparse"
    and "\<exists>j \<in> set dense \<union> set sparse. same_item i j"
    by (auto simp: fused_score_def)
qed

subsection \<open>Properties\<close>

text \<open>
  The fusion holds one item for every identifier of the two lists, with the fields of an item of
  one of them, scored by the sum of 1 / (60 + rank) over both lists (ranks from 1), best first.
\<close>

theorem fusion_exact:
  "distinct (map item_key (fusion dense sparse)) \<and>
   set (map item_key (fusion dense sparse)) = set (map item_key (dense @ sparse)) \<and>
   list_all (\<lambda>i. item_score i = rrf (item_key i) dense + rrf (item_key i) sparse \<and>
     list_ex (same_item i) (dense @ sparse)) (fusion dense sparse) \<and>
   best_first (fusion dense sparse)"
proof -
  have "list_ex (same_item i) (dense @ sparse)" if "i \<in> set (fusion dense sparse)" for i
    using fusion_item(2) [OF that] by (auto simp: list_ex_iff)
  moreover have "best_first (fusion dense sparse)" by (simp add: fusion_def best_first_sort)
  ultimately show ?thesis
    using fusion_keys [of dense sparse] fusion_item(1) by (auto simp: list_all_iff)
qed

text \<open>
  C33: What is served is the prefix of length k of the admissible results, sorted by the documented
  score: the score of the engine times the trust weight times a half for every half-life of age.
\<close>

theorem retrieval_exact:
  "\<exists>rest. best_first (apply_trust_and_recency L now opts items k @ rest) \<and>
     mset (apply_trust_and_recency L now opts items k @ rest) =
       mset (map (weigh L now opts) (filter (served opts) items)) \<and>
     (if 0 \<le> k then length (apply_trust_and_recency L now opts items k) =
        min (nat k) (length (filter (served opts) items)) else True) \<and>
     list_all (\<lambda>i. item_score (weigh L now opts i) =
       item_score i * trust_weight (trust_tier i) *
       (case ro_half_life opts of
          None \<Rightarrow> 1
        | Some h \<Rightarrow>
            (if h \<le> 0 then 1
             else case age_days L (item_stamp i) now of
                    None \<Rightarrow> 1 | Some a \<Rightarrow> (1 / 2) powr (a / h)))) items"
proof -
  obtain rest where r: "apply_trust_and_recency L now opts items k @ rest =
      sort_key (\<lambda>i. - item_score i) (map (weigh L now opts) (filter (served opts) items))"
    and n: "0 \<le> k \<longrightarrow> length (apply_trust_and_recency L now opts items k) =
       min (nat k) (length (filter (served opts) items))"
    by (rule apply_trust_split)
  have w: "item_score (weigh L now opts i) =
      item_score i * trust_weight (trust_tier i) * recency_weight L now (ro_half_life opts) i" for i
    by (simp add: weigh_def Let_def item_score_def)
  show ?thesis
    by (rule exI [of _ rest]) (use r n in \<open>simp add: best_first_sort w recency_half list_all_iff\<close>)
qed

text \<open>What a result must satisfy under the options and filters of its query.\<close>

definition admissible :: "retrieval_options \<Rightarrow> mem_dict \<Rightarrow> mem_item \<Rightarrow> bool" where
  "admissible opts fs i \<longleftrightarrow>
     (trust_tier i = ''quarantined'' \<longrightarrow> ro_allow_quarantined opts) \<and>
     (mem_truthy (mem_get (meta_dict i) ''evicted'') \<longrightarrow> ro_include_evicted opts) \<and>
     ro_min_trust opts \<le> trust_weight (trust_tier i) \<and> matches_filters i fs"

lemma served_options [simp]: "served (retrieval_options_for st opts c) i = served opts i"
  by (simp add: retrieval_options_for_def served_def split: option.split)

lemma admissible_iff: "admissible opts fs i \<longleftrightarrow> served opts i \<and> matches_filters i fs"
  by (auto simp: admissible_def served_def)

lemma admissible_same: "same_item i j \<Longrightarrow> admissible opts fs i = admissible opts fs j"
  using same_item_keeps by (simp add: admissible_iff)

lemma rank_scores_from: "i \<in> set (rank_scores xs) \<Longrightarrow> \<exists>j \<in> set xs. \<exists>x. i = j\<lparr>mi_score := x\<rparr>"
  by (force simp: rank_scores_def set_zip enumerate_eq_zip in_set_zip)

lemma apply_admissible:
  assumes "\<And>i. i \<in> set items \<Longrightarrow> matches_filters i fs"
    and "i \<in> set (apply_trust_and_recency L now (retrieval_options_for st opts c) items k)"
  shows "admissible opts fs i"
  using apply_trust_set [OF assms(2)] assms(1) by (auto simp: admissible_iff)

lemma ranked_matches: "i \<in> set (rank_scores (filter (\<lambda>i. matches_filters i fs) xs)) \<Longrightarrow> matches_filters i fs"
  by (auto dest!: rank_scores_from)

lemma search_admissible:
  "case search L now st c qv k opts fs of
     Inl _ \<Rightarrow> True | Inr out \<Rightarrow> list_all (admissible opts fs) out \<and> best_first out"
  by (auto simp: search_def list_all_iff best_first_apply
      intro: apply_admissible [OF ranked_matches] split: option.split)

lemma full_text_admissible:
  "case full_text_search L now st c query k opts fs of
     Inl _ \<Rightarrow> True | Inr (out, _) \<Rightarrow> list_all (admissible opts fs) out \<and> best_first out"
  by (auto simp: full_text_search_def list_all_iff best_first_apply
      intro: apply_admissible [OF ranked_matches] split: option.split sum.split)

lemma admissible_options [simp]:
  "admissible (retrieval_options_for st opts c) fs i = admissible opts fs i"
  by (simp add: admissible_iff)

lemma hybrid_admissible:
  "case hybrid_search L now st c qv q k opts fs of
     Inl _ \<Rightarrow> True
   | Inr (out, _) \<Rightarrow> list_all (admissible opts fs) out \<and> best_first out"
proof -
  let ?o = "retrieval_options_for st opts c"
  have "list_all (admissible opts fs) (apply_trust_and_recency L now ?o (fusion dense sparse) k)"
    if "list_all (admissible ?o fs) dense" "list_all (admissible ?o fs) sparse" for dense sparse
  proof -
    have m: "matches_filters i fs" if "i \<in> set (fusion dense sparse)" for i
      using fusion_item(2) [OF that] \<open>list_all (admissible ?o fs) dense\<close>
        \<open>list_all (admissible ?o fs) sparse\<close>
      by (auto simp: list_all_iff admissible_iff same_item_keeps(3))
    show ?thesis
      unfolding list_all_iff by (intro ballI) (rule apply_admissible [OF m])
  qed
  then show ?thesis
    using search_admissible [where L = L and now = now and st = st and c = c and qv = qv
        and k = "k * 2" and opts = ?o and fs = fs]
      full_text_admissible [where L = L and now = now and st = st and c = c and query = q
        and k = "k * 2" and opts = ?o and fs = fs]
    by (auto simp: hybrid_search_def Let_def best_first_apply split: sum.splits if_splits)
qed

text \<open>
  C31: Dense, full-text and hybrid search serve nothing that is quarantined, evicted, below the
  asked-for trust or outside the filters unless the options say so, and serve it best first.
\<close>

theorem queries_governed:
  "(case search L now st c qv k opts fs of
      Inl _ \<Rightarrow> True | Inr out \<Rightarrow> list_all (admissible opts fs) out \<and> best_first out) \<and>
   (case full_text_search L now st c q k opts fs of
      Inl _ \<Rightarrow> True | Inr (out, _) \<Rightarrow> list_all (admissible opts fs) out \<and> best_first out) \<and>
   (case hybrid_search L now st c qv q k opts fs of
      Inl _ \<Rightarrow> True | Inr (out, _) \<Rightarrow> list_all (admissible opts fs) out \<and> best_first out)"
  by (intro conjI search_admissible full_text_admissible hybrid_admissible)

lemma length_rank_scores [simp]: "length (rank_scores xs) = length xs"
  by (simp add: rank_scores_def)

lemma fuzzy_hit_iff:
  "fuzzy_hit query i =
     (\<exists>text. text_of i = Some text \<and>
        (\<exists>qt \<in> set (py_split (py_lower query)). \<exists>wt \<in> set (py_split (py_lower text)).
           \<exists>m \<le> 2. (qt, wt) \<in> one_edit ^^ m))"
  by (simp add: fuzzy_hit_def list_ex_iff edit_distance_le_iff split: option.split)

text \<open>
  The fuzzy mode serves every row that has a word within two edits of a word of the query,
  whatever its trust tier: it neither excludes the quarantined nor weighs anything.
\<close>

theorem fuzzy_mode_exact:
  assumes "safe_ident c" and "lib_execute L (''SELECT * FROM '' @ c) = Some rows"
    and "parse_rows L rows = Some out" and "list_all (\<lambda>i. text_of i \<noteq> None) out"
    and "int (length out) \<le> k"
  shows "fts_search_mode L now st c query ''fuzzy'' k =
    Inr (rank_scores (filter
      (\<lambda>i. \<exists>text. text_of i = Some text \<and>
        (\<exists>qt \<in> set (py_split (py_lower query)). \<exists>wt \<in> set (py_split (py_lower text)).
           \<exists>m \<le> 2. (qt, wt) \<in> one_edit ^^ m)) out), st)"
proof -
  have "length (rank_scores (filter (fuzzy_hit query) out)) \<le> nat k"
    using assms(5) by (simp add: le_nat_iff) (meson length_filter_le of_nat_mono order_trans)
  moreover have "0 \<le> k" using assms(5) by linarith
  moreover have "\<not> list_ex (\<lambda>i. text_of i = None) out"
    using assms(4) by (auto simp: list_all_iff list_ex_iff)
  ultimately show ?thesis
    using assms(1-3) by (simp add: fts_search_mode_def py_slice_to_def fuzzy_hit_iff [symmetric])
qed

definition poisoned_rows :: "mem_value list" where
  "poisoned_rows =
     [PDict [(''id'', PStr ''m1''), (''text'', PStr ''do it''),
             (''metadata'', PDict [(''trust_tier'', PStr ''quarantined'')]),
             (''created_at'', PStr ''2026-01-01'')]]"

definition poisoned_library :: "unit library" where
  "poisoned_library =
     \<lparr>lib_execute = (\<lambda>_. Some poisoned_rows), lib_get_record = (\<lambda>_ _. None),
      lib_bq = (\<lambda>_ _ _ _. None), lib_quantized = (\<lambda>_ _ _. None), lib_filtered = (\<lambda>_ _ _ _. None),
      lib_vector = (\<lambda>_. ''[]''), lib_loads = (\<lambda>_. None), lib_iso = (\<lambda>_. None)\<rparr>"

definition empty_store :: mem_store where
  "empty_store = \<lparr>st_text_columns = [], st_heat_policy = None, st_caps = []\<rparr>"

text \<open>A quarantined row that the default search hides is served by the fuzzy mode.\<close>

theorem fuzzy_mode_exact_witness:
  "(case full_text_search poisoned_library 0 empty_store ''m'' ''to'' 5 default_options [] of
      Inl _ \<Rightarrow> False | Inr (out, _) \<Rightarrow> out = []) \<and>
   (case fts_search_mode poisoned_library 0 empty_store ''m'' ''to'' ''fuzzy'' 5 of
      Inl _ \<Rightarrow> False | Inr (out, _) \<Rightarrow> map trust_tier out = [''quarantined''])"
proof -
  define out where "out = the (parse_rows poisoned_library poisoned_rows)"
  have "safe_ident ''m''" by code_simp
  moreover have "lib_execute poisoned_library (''SELECT * FROM '' @ ''m'') = Some poisoned_rows"
    by (simp add: poisoned_library_def)
  moreover have "parse_rows poisoned_library poisoned_rows = Some out"
    unfolding out_def by code_simp
  moreover have "list_all (\<lambda>i. text_of i \<noteq> None) out" "int (length out) \<le> 5"
    unfolding out_def by code_simp+
  ultimately have "fts_search_mode poisoned_library 0 empty_store ''m'' ''to'' ''fuzzy'' 5 =
      Inr (rank_scores (filter (\<lambda>i. fuzzy_hit ''to'' i) out), empty_store)"
    unfolding fuzzy_hit_iff by (rule fuzzy_mode_exact)
  moreover have "map trust_tier (rank_scores (filter (\<lambda>i. fuzzy_hit ''to'' i) out)) = [''quarantined'']"
    unfolding out_def by code_simp
  moreover have "case full_text_search poisoned_library 0 empty_store ''m'' ''to'' 5 default_options [] of
      Inl _ \<Rightarrow> False | Inr (out, _) \<Rightarrow> out = []"
    by code_simp
  ultimately show ?thesis by simp
qed

end
