(* ===== verification/OversampleTuner.thy ===== *)
theory OversampleTuner
  imports GovernedMemory
begin

text \<open>
  The control loop of the binary search's oversampling (\<open>memory_rag/binary_tuning.py\<close>): a
  smoothed recall per collection and a factor moved up and down inside its bounds. Numbers are
  exact rationals. What the store answers for a persisted factor is an argument; what the
  tuner persists is recorded.
\<close>

record tuner =
  tn_target :: rat
  tn_min :: int
  tn_max :: int
  tn_alpha :: rat
  tn_up :: rat
  tn_down :: rat
  tn_margin :: rat
  tn_store :: bool
  tn_values :: "(string \<times> int) list"
  tn_recall :: "(string \<times> rat) list"
  tn_samples :: "(string \<times> nat) list"
  tn_loaded :: "string list"
  tn_persisted :: "(string \<times> int) list"

definition tuner_new :: "rat \<Rightarrow> int \<Rightarrow> int \<Rightarrow> rat \<Rightarrow> rat \<Rightarrow> rat \<Rightarrow> rat \<Rightarrow> bool \<Rightarrow> tuner" where
  "tuner_new target mn mx alpha up down margin store =
     \<lparr>tn_target = target, tn_min = mn, tn_max = mx, tn_alpha = alpha, tn_up = up, tn_down = down,
      tn_margin = margin, tn_store = store, tn_values = [], tn_recall = [], tn_samples = [],
      tn_loaded = [], tn_persisted = []\<rparr>"

text \<open>The defaults of the constructor.\<close>

definition tuner_default :: "bool \<Rightarrow> tuner" where
  "tuner_default = tuner_new (9 / 10) 1 8 (3 / 10) (5 / 4) (4 / 5) (1 / 20)"

definition clamp :: "tuner \<Rightarrow> int \<Rightarrow> int" where
  "clamp t v = max (tn_min t) (min (tn_max t) v)"

text \<open>\<open>int(x)\<close> of a float: towards zero\<close>

definition py_trunc :: "real \<Rightarrow> int" where
  "py_trunc x = (if 0 \<le> x then \<lfloor>x\<rfloor> else \<lceil>x\<rceil>)"

text \<open>
  \<open>stored\<close> is what \<open>semantic_cache_get\<close> returns, \<open>None\<close> when it raises; a truth value is an \<open>int\<close>.
\<close>

definition tuner_load :: "mem_value option \<Rightarrow> string \<Rightarrow> tuner \<Rightarrow> tuner" where
  "tuner_load stored c t =
     (if c \<in> set (tn_loaded t) \<or> \<not> tn_store t then t
      else
        let t1 = t\<lparr>tn_loaded := c # tn_loaded t\<rparr>;
            put = (\<lambda>v. t1\<lparr>tn_values := AList.update c (clamp t v) (tn_values t1)\<rparr>)
        in case stored of
             Some (PInt i) \<Rightarrow> put i
           | Some (PBool b) \<Rightarrow> put (if b then 1 else 0)
           | Some (PObj x) \<Rightarrow> put (py_trunc x)
           | _ \<Rightarrow> t1)"

definition value_for :: "mem_value option \<Rightarrow> string \<Rightarrow> tuner \<Rightarrow> int \<times> tuner" where
  "value_for stored c t =
     (let t1 = tuner_load stored c t in (dict_get (tn_values t1) c (tn_min t1), t1))"

definition smoothed :: "tuner \<Rightarrow> string \<Rightarrow> rat \<Rightarrow> rat" where
  "smoothed t c recall =
     (case map_of (tn_recall t) c of
        None \<Rightarrow> recall
      | Some previous \<Rightarrow> tn_alpha t * recall + (1 - tn_alpha t) * previous)"

definition adjusted :: "tuner \<Rightarrow> int \<Rightarrow> rat \<Rightarrow> int" where
  "adjusted t current s =
     (if s < tn_target t then
        clamp t (max (current + 1) \<lceil>of_int current * tn_up t\<rceil>)
      else if tn_target t + tn_margin t < s then
        clamp t (min (current - 1) \<lfloor>of_int current * tn_down t\<rfloor>)
      else current)"

definition observe :: "mem_value option \<Rightarrow> string \<Rightarrow> rat \<Rightarrow> tuner \<Rightarrow> int \<times> tuner" where
  "observe stored c recall t =
     (let r = max 0 (min 1 recall);
          (current, t1) = value_for stored c t;
          s = smoothed t1 c r;
          updated = adjusted t1 current s
      in (updated,
          t1\<lparr>tn_recall := AList.update c s (tn_recall t1),
             tn_samples := dict_add (tn_samples t1) c 1,
             tn_values := AList.update c updated (tn_values t1),
             tn_persisted :=
               (if tn_store t1 then tn_persisted t1 @ [(c, updated)] else tn_persisted t1)\<rparr>))"

subsection \<open>Bounds\<close>

text \<open>The settings that no operation changes.\<close>

definition same_settings :: "tuner \<Rightarrow> tuner \<Rightarrow> bool" where
  "same_settings t u \<longleftrightarrow>
     tn_target u = tn_target t \<and> tn_min u = tn_min t \<and> tn_max u = tn_max t \<and>
     tn_alpha u = tn_alpha t \<and> tn_up u = tn_up t \<and> tn_down u = tn_down t \<and>
     tn_margin u = tn_margin t"

definition in_bounds :: "tuner \<Rightarrow> bool" where
  "in_bounds t \<longleftrightarrow>
     list_all (\<lambda>(c, v). tn_min t \<le> v \<and> v \<le> max (tn_min t) (tn_max t)) (tn_values t) \<and>
     list_all (\<lambda>(c, r). 0 \<le> r \<and> r \<le> 1) (tn_recall t)"

lemma clamp_bounds: "tn_min t \<le> clamp t v" "clamp t v \<le> max (tn_min t) (tn_max t)"
  by (auto simp: clamp_def)

lemma list_all_update:
  "list_all P d \<Longrightarrow> P (k, v) \<Longrightarrow> list_all P (AList.update k v d)"
  by (induction d) auto

lemma in_bounds_get:
  "in_bounds t \<Longrightarrow> tn_min t \<le> dict_get (tn_values t) c (tn_min t) \<and>
     dict_get (tn_values t) c (tn_min t) \<le> max (tn_min t) (tn_max t)"
  by (auto simp: in_bounds_def dict_get_def list_all_iff split: option.split dest!: map_of_SomeD)

lemma load_settings: "same_settings t (tuner_load stored c t)" "tn_recall (tuner_load stored c t) = tn_recall t"
  by (auto simp: same_settings_def tuner_load_def Let_def split: option.split pyval.split)

lemma load_bounds: "in_bounds t \<Longrightarrow> in_bounds (tuner_load stored c t)"
  using clamp_bounds [of t]
  by (auto simp: in_bounds_def tuner_load_def Let_def split: option.split pyval.split
      intro!: list_all_update)

lemma smoothed_bounds:
  assumes "in_bounds t" "0 \<le> tn_alpha t" "tn_alpha t \<le> 1" "0 \<le> r" "r \<le> 1"
  shows "0 \<le> smoothed t c r \<and> smoothed t c r \<le> 1"
proof (cases "map_of (tn_recall t) c")
  case None
  with assms show ?thesis by (simp add: smoothed_def)
next
  case (Some p)
  then have "0 \<le> p" "p \<le> 1" using assms(1) by (auto simp: in_bounds_def list_all_iff dest!: map_of_SomeD)
  with assms have "tn_alpha t * r + (1 - tn_alpha t) * p \<le> tn_alpha t * 1 + (1 - tn_alpha t) * 1"
    by (intro add_mono mult_left_mono) auto
  with Some assms \<open>0 \<le> p\<close> show ?thesis by (simp add: smoothed_def)
qed

lemma adjusted_bounds:
  "tn_min t \<le> v \<Longrightarrow> v \<le> max (tn_min t) (tn_max t) \<Longrightarrow>
     tn_min t \<le> adjusted t v s \<and> adjusted t v s \<le> max (tn_min t) (tn_max t)"
  using clamp_bounds by (simp add: adjusted_def)

lemma observe_parts:
  "same_settings t (snd (observe stored c r t))"
  "tn_values (snd (observe stored c r t)) =
     AList.update c (fst (observe stored c r t)) (tn_values (tuner_load stored c t))"
  "tn_recall (snd (observe stored c r t)) =
     AList.update c (smoothed (tuner_load stored c t) c (max 0 (min 1 r))) (tn_recall t)"
  "fst (observe stored c r t) =
     adjusted (tuner_load stored c t)
       (dict_get (tn_values (tuner_load stored c t)) c (tn_min (tuner_load stored c t)))
       (smoothed (tuner_load stored c t) c (max 0 (min 1 r)))"
  "tn_loaded (snd (observe stored c r t)) = tn_loaded (tuner_load stored c t)"
  "tn_store (snd (observe stored c r t)) = tn_store (tuner_load stored c t)"
  using load_settings(1) [of t stored c] load_settings(2) [of stored c t]
  by (simp_all add: observe_def value_for_def Let_def same_settings_def)

lemma observe_bounds:
  assumes "in_bounds t" "0 \<le> tn_alpha t" "tn_alpha t \<le> 1"
  shows "in_bounds (snd (observe stored c r t))"
proof -
  let ?u = "tuner_load stored c t"
  have u: "in_bounds ?u" "same_settings t ?u" by (rule load_bounds [OF assms(1)]) (rule load_settings)
  then have "0 \<le> smoothed ?u c (max 0 (min 1 r)) \<and> smoothed ?u c (max 0 (min 1 r)) \<le> 1"
    using assms by (intro smoothed_bounds) (auto simp: same_settings_def)
  moreover have "tn_min ?u \<le> fst (observe stored c r t) \<and>
      fst (observe stored c r t) \<le> max (tn_min ?u) (tn_max ?u)"
    unfolding observe_parts(4) using in_bounds_get [OF u(1)] by (intro adjusted_bounds) auto
  ultimately show ?thesis
    using u observe_parts(1) [of t stored c r]
    unfolding in_bounds_def observe_parts same_settings_def
    by (auto intro!: list_all_update simp: load_settings)
qed

subsection \<open>Runs\<close>

text \<open>A run: for each query the stored answer, the collection and the measured recall.\<close>

fun tune :: "(mem_value option \<times> string \<times> rat) list \<Rightarrow> tuner \<Rightarrow> tuner" where
  "tune [] t = t"
| "tune ((stored, c, r) # obs) t = tune obs (snd (observe stored c r t))"

lemma tune_bounds:
  "in_bounds t \<Longrightarrow> 0 \<le> tn_alpha t \<Longrightarrow> tn_alpha t \<le> 1 \<Longrightarrow>
     in_bounds (tune obs t) \<and> same_settings t (tune obs t)"
proof (induction obs arbitrary: t)
  case Nil
  then show ?case by (simp add: same_settings_def)
next
  case (Cons o1 obs)
  obtain stored c r where o1: "o1 = (stored, c, r)" by (cases o1)
  have s: "same_settings t (snd (observe stored c r t))" by (rule observe_parts(1))
  have "in_bounds (snd (observe stored c r t))" using Cons.prems by (rule observe_bounds)
  from Cons.IH [OF this] Cons.prems s show ?case by (simp add: o1 same_settings_def)
qed

lemma adjusted_up:
  "s < tn_target t \<Longrightarrow> tn_min t \<le> v \<Longrightarrow> v \<le> tn_max t \<Longrightarrow> min (tn_max t) (v + 1) \<le> adjusted t v s"
  by (auto simp: adjusted_def clamp_def)

lemma adjusted_down:
  "tn_target t \<le> s \<Longrightarrow> tn_target t + tn_margin t < s \<Longrightarrow> tn_min t \<le> v \<Longrightarrow>
     adjusted t v s \<le> max (tn_min t) (v - 1)"
  by (auto simp: adjusted_def clamp_def)

lemma value_for_bounds:
  assumes "in_bounds t" and "tn_min t \<le> tn_max t"
  shows "tn_min t \<le> fst (value_for stored c t) \<and> fst (value_for stored c t) \<le> tn_max t"
  using in_bounds_get [where t = "tuner_load stored c t" and c = c, OF load_bounds [OF assms(1)]]
    load_settings(1) [of t stored c] assms(2)
  by (simp add: value_for_def Let_def same_settings_def)

text \<open>Where a run of low recalls has brought the factor of one collection.\<close>

definition climbed :: "string \<Rightarrow> nat \<Rightarrow> tuner \<Rightarrow> bool" where
  "climbed c n t \<longleftrightarrow>
     in_bounds t \<and> 0 \<le> tn_alpha t \<and> tn_alpha t \<le> 1 \<and> tn_min t \<le> tn_max t \<and>
     (case map_of (tn_recall t) c of None \<Rightarrow> True | Some p \<Rightarrow> p < tn_target t) \<and>
     (0 < n \<longrightarrow> (tn_store t \<longrightarrow> c \<in> set (tn_loaded t)) \<and>
        min (tn_max t) (tn_min t + int n) \<le> dict_get (tn_values t) c (tn_min t))"

lemma load_loaded: "tn_store t \<longrightarrow> c \<in> set (tn_loaded t) \<Longrightarrow> tuner_load stored c t = t"
  by (auto simp: tuner_load_def)

lemma load_loads: "tn_store (tuner_load stored c t) \<longrightarrow> c \<in> set (tn_loaded (tuner_load stored c t))"
  by (auto simp: tuner_load_def Let_def split: option.split pyval.split)

lemma smoothed_below:
  assumes "case map_of (tn_recall t) c of None \<Rightarrow> True | Some p \<Rightarrow> p < tn_target t"
    and "r < tn_target t" "0 \<le> tn_alpha t" "tn_alpha t \<le> 1"
  shows "smoothed t c r < tn_target t"
proof (cases "map_of (tn_recall t) c")
  case (Some p)
  with assms(1) have "p < tn_target t" by simp
  show ?thesis
  proof (cases "tn_alpha t = 1")
    case False
    then have "(1 - tn_alpha t) * p < (1 - tn_alpha t) * tn_target t"
      using \<open>p < tn_target t\<close> assms(4) by simp
    moreover have "tn_alpha t * r \<le> tn_alpha t * tn_target t"
      using assms(2,3) by (simp add: mult_left_mono)
    ultimately show ?thesis by (simp add: smoothed_def Some left_diff_distrib)
  qed (simp add: smoothed_def Some assms(2))
qed (simp add: smoothed_def assms(2))

lemma climbed_step:
  assumes "climbed c n t" and r: "max 0 (min 1 r) < tn_target t"
  shows "climbed c (Suc n) (snd (observe stored c r t))"
proof -
  let ?u = "tuner_load stored c t" and ?o = "snd (observe stored c r t)"
  let ?v = "dict_get (tn_values ?u) c (tn_min ?u)"
  have t: "in_bounds t" "0 \<le> tn_alpha t" "tn_alpha t \<le> 1" "tn_min t \<le> tn_max t"
    "case map_of (tn_recall t) c of None \<Rightarrow> True | Some p \<Rightarrow> p < tn_target t"
    using assms(1) by (simp_all add: climbed_def)
  have u: "same_settings t ?u" "tn_recall ?u = tn_recall t" by (rule load_settings)+
  have o: "same_settings t ?o" by (rule observe_parts)
  have bounds: "tn_min t \<le> ?v" "?v \<le> tn_max t"
    using value_for_bounds [OF t(1,4), of stored c] by (simp_all add: value_for_def Let_def)
  have v: "min (tn_max t) (tn_min t + int n) \<le> ?v"
  proof (cases "n = 0")
    case False
    then have "tn_store t \<longrightarrow> c \<in> set (tn_loaded t)"
      and "min (tn_max t) (tn_min t + int n) \<le> dict_get (tn_values t) c (tn_min t)"
      using assms(1) by (simp_all add: climbed_def)
    then show ?thesis by (simp add: load_loaded)
  qed (use bounds in simp)
  have s: "smoothed ?u c (max 0 (min 1 r)) < tn_target ?u"
    using t u r by (intro smoothed_below) (auto simp: same_settings_def split: option.splits)
  have "min (tn_max ?u) (?v + 1) \<le> fst (observe stored c r t)"
    unfolding observe_parts(4)
    using bounds u by (intro adjusted_up [OF s]) (simp_all add: same_settings_def)
  then have "min (tn_max t) (tn_min t + int (Suc n)) \<le> fst (observe stored c r t)"
    using v u by (simp add: same_settings_def min_def split: if_splits)
  moreover have "in_bounds ?o" by (rule observe_bounds [OF t(1-3)])
  ultimately show ?thesis
    using t o s u load_loads [of stored c t]
    by (simp add: climbed_def same_settings_def observe_parts)
qed

lemma climbed_run:
  "climbed c n t \<Longrightarrow> list_all (\<lambda>(_, c', r). c' = c \<and> max 0 (min 1 r) < tn_target t) obs \<Longrightarrow>
     climbed c (n + length obs) (tune obs t)"
proof (induction obs arbitrary: n t)
  case (Cons o1 obs)
  obtain stored r where o1: "o1 = (stored, c, r)" "max 0 (min 1 r) < tn_target t"
    using Cons.prems(2) by (cases o1) auto
  have "climbed c (Suc n) (snd (observe stored c r t))"
    by (rule climbed_step [OF Cons.prems(1) o1(2)])
  moreover have "list_all (\<lambda>(_, c', r'). c' = c \<and> max 0 (min 1 r') < tn_target (snd (observe stored c r t))) obs"
    using Cons.prems(2) observe_parts(1) [of t stored c r]
    by (auto simp: o1(1) same_settings_def list_all_iff)
  ultimately have "climbed c (Suc n + length obs) (tune obs (snd (observe stored c r t)))"
    by (rule Cons.IH)
  then show ?case by (simp add: o1(1))
qed simp

lemma new_in_bounds: "in_bounds (tuner_new tg mn mx a up down m s)"
  by (simp add: in_bounds_def tuner_new_def)

text \<open>
  Whatever is measured and whatever the store answers, the factor stays between its bounds and
  the smoothed recalls stay between 0 and 1.
\<close>

theorem tuner_bounded:
  assumes "0 \<le> a" and "a \<le> 1" and "mn \<le> mx"
  shows "mn \<le> fst (value_for stored c (tune obs (tuner_new tg mn mx a up down m s))) \<and>
    fst (value_for stored c (tune obs (tuner_new tg mn mx a up down m s))) \<le> mx \<and>
    list_all (\<lambda>(_, r). 0 \<le> r \<and> r \<le> 1) (tn_recall (tune obs (tuner_new tg mn mx a up down m s)))"
proof -
  let ?t = "tuner_new tg mn mx a up down m s"
  have "0 \<le> tn_alpha ?t" "tn_alpha ?t \<le> 1" using assms by (simp_all add: tuner_new_def)
  from tune_bounds [OF new_in_bounds this] have b: "in_bounds (tune obs ?t)"
    and "same_settings ?t (tune obs ?t)" by blast+
  then have "tn_min (tune obs ?t) = mn" "tn_max (tune obs ?t) = mx"
    by (simp_all add: same_settings_def tuner_new_def)
  with value_for_bounds [OF b] assms(3) b show ?thesis by (simp add: in_bounds_def)
qed

theorem tuner_bounded_witness:
  "1 \<le> fst (value_for None ''m'' (tune [(Some (PInt 99), ''m'', 1 / 2), (None, ''m'', 1 / 3)] (tuner_default True))) \<and>
   fst (value_for None ''m'' (tune [(Some (PInt 99), ''m'', 1 / 2), (None, ''m'', 1 / 3)] (tuner_default True))) \<le> 8"
  using tuner_bounded [of "3 / 10" 1 8 None "''m''" "[(Some (PInt 99), ''m'', 1 / 2), (None, ''m'', 1 / 3)]"
      "9 / 10" "5 / 4" "4 / 5" "1 / 20" True]
  by (simp add: tuner_default_def)

text \<open>
  C37: While the recall of a collection stays below the target its factor climbs: after as many
  observations as there are steps between the bounds it is the largest.
\<close>

theorem tuner_climbs:
  assumes "0 \<le> a" and "a \<le> 1" and "mn \<le> mx" and "obs \<noteq> []" and "mx - mn \<le> int (length obs)"
    and "list_all (\<lambda>(_, c', r). c' = c \<and> max 0 (min 1 r) < tg) obs"
  shows "fst (value_for stored c (tune obs (tuner_new tg mn mx a up down m s))) = mx"
proof -
  let ?t = "tuner_new tg mn mx a up down m s"
  have "climbed c 0 ?t"
    using assms new_in_bounds [of tg mn mx a up down m s] by (simp add: climbed_def) (simp add: tuner_new_def)
  moreover have "tn_target ?t = tg" by (simp add: tuner_new_def)
  ultimately have cl: "climbed c (length obs) (tune obs ?t)"
    using climbed_run [of c 0 ?t obs] assms(6) by simp
  have st: "same_settings ?t (tune obs ?t)"
    using tune_bounds [OF new_in_bounds, of tg mn mx a up down m s obs] assms(1,2)
    by (simp add: tuner_new_def)
  then have m: "tn_min (tune obs ?t) = mn" "tn_max (tune obs ?t) = mx"
    by (simp_all add: same_settings_def tuner_new_def)
  have "tuner_load stored c (tune obs ?t) = tune obs ?t"
    using cl assms(4) by (intro load_loaded) (simp add: climbed_def)
  moreover have "mx \<le> dict_get (tn_values (tune obs ?t)) c mn"
    using cl assms(4,5) m by (simp add: climbed_def)
  moreover have "in_bounds (tune obs ?t)" using cl by (simp add: climbed_def)
  ultimately show ?thesis
    using in_bounds_get [of "tune obs ?t" c] m assms(3) by (simp add: value_for_def)
qed

theorem tuner_climbs_witness:
  "fst (value_for None ''m'' (tune (replicate 7 (None, ''m'', 1 / 2)) (tuner_default False))) = 8"
  using tuner_climbs [of "3 / 10" 1 8 "replicate 7 (None, ''m'', 1 / 2)" "''m''" "9 / 10" None "5 / 4" "4 / 5" "1 / 20" False]
  by (simp add: tuner_default_def list_all_iff)

end
