(* ===== verification/MemoryTraversal.thy ===== *)
theory MemoryTraversal
  imports OversampleTuner
begin

text \<open>
  Record access of the memory store (\<open>memory_rag/ruscadb_store.py\<close>): the breadth-first walk over
  the typed edges of a record, and the binary, quantized and restricted vector searches, whose
  hits are resolved to records. A record is what the engine answers to \<open>get_record\<close>; its
  \<open>scalars\<close> and \<open>edges\<close> are objects.
\<close>

subsection \<open>Records\<close>

definition as_dict :: "mem_value \<Rightarrow> mem_dict" where
  "as_dict v = (case v of PDict d \<Rightarrow> d | _ \<Rightarrow> [])"

definition get_record :: "'v library \<Rightarrow> mem_store \<Rightarrow> string \<Rightarrow> string \<Rightarrow> mem_dict option" where
  "get_record L st collection rid =
     (if ''ruscadb_get_record'' \<in> set (st_caps st) then lib_get_record L collection rid else None)"

definition record_metadata :: "'v library \<Rightarrow> mem_dict \<Rightarrow> mem_value" where
  "record_metadata L r =
     (case unwrap_scalar (mem_get (as_dict (mem_get r ''scalars'')) ''metadata'') of
        PStr s \<Rightarrow> (case lib_loads L s of None \<Rightarrow> PDict [(''raw'', PStr s)] | Some v \<Rightarrow> v)
      | PDict d \<Rightarrow> PDict d
      | _ \<Rightarrow> PDict [])"

definition record_to_item :: "'v library \<Rightarrow> mem_dict \<Rightarrow> mem_item" where
  "record_to_item L r =
     (let scalars = as_dict (mem_get r ''scalars'')
      in new_item (unwrap_scalar (mem_get scalars ''id''))
           (mem_or (unwrap_scalar (mem_get scalars ''text'')) (PStr []))
           (record_metadata L r) PNone (PDict r))"

definition first_rid :: "mem_value list \<Rightarrow> string option" where
  "first_rid rows =
     (case filter mem_truthy (map (\<lambda>row. unwrap_scalar (mem_get (as_dict row) ''rid'')) rows) of
        [] \<Rightarrow> None
      | rid # _ \<Rightarrow> Some (py_str rid))"

definition find_rid :: "'v library \<Rightarrow> string \<Rightarrow> string \<Rightarrow> string option" where
  "find_rid L collection logical_id =
     Option.bind
       (lib_execute L
          (''SELECT rid FROM _rid_map WHERE id = '' @ literal logical_id @
           '' AND collection = '' @ literal collection @ '' LIMIT 1''))
       first_rid"

text \<open>\<open>if record\<close>: the engine's empty object counts as no record.\<close>

definition present :: "mem_dict option \<Rightarrow> mem_dict option" where
  "present r = (case r of Some (p # d) \<Rightarrow> Some (p # d) | _ \<Rightarrow> None)"

definition resolve_hit_record :: "'v library \<Rightarrow> mem_store \<Rightarrow> string \<Rightarrow> string \<Rightarrow> mem_dict option" where
  "resolve_hit_record L st collection rid =
     (if rid = [] then None
      else case present (get_record L st collection rid) of
        Some r \<Rightarrow> Some r
      | None \<Rightarrow>
          (case find_rid L collection rid of
             None \<Rightarrow> None
           | Some resolved \<Rightarrow>
               if resolved = [] then None else present (get_record L st collection resolved)))"

subsection \<open>Breadth-first traversal\<close>

definition edge_target :: "mem_value \<Rightarrow> string option" where
  "edge_target e = (case mem_get (as_dict e) ''node'' of PStr t \<Rightarrow> Some t | _ \<Rightarrow> None)"

definition edge_targets :: "mem_dict \<Rightarrow> string list" where
  "edge_targets r =
     (case mem_get (as_dict (mem_get r ''edges'')) ''out'' of
        PList es \<Rightarrow> List.map_filter edge_target es
      | _ \<Rightarrow> [])"

definition visit :: "'v library \<Rightarrow> (string \<Rightarrow> mem_dict option) \<Rightarrow>
    string list \<times> mem_item list \<times> string list \<Rightarrow> string \<Rightarrow>
    string list \<times> mem_item list \<times> string list" where
  "visit L get = (\<lambda>(visited, out, next_frontier) rid.
     if rid \<in> set visited then (visited, out, next_frontier)
     else let visited = rid # visited
          in case present (get rid) of
               None \<Rightarrow> (visited, out, next_frontier)
             | Some r \<Rightarrow>
                 (visited, out @ [record_to_item L r],
                  next_frontier @ filter (\<lambda>t. t \<notin> set visited) (edge_targets r)))"

fun traverse_levels :: "'v library \<Rightarrow> (string \<Rightarrow> mem_dict option) \<Rightarrow> nat \<Rightarrow>
    string list \<Rightarrow> string list \<Rightarrow> mem_item list \<Rightarrow> mem_item list" where
  "traverse_levels L get 0 frontier visited out = out"
| "traverse_levels L get (Suc d) frontier visited out =
     (case foldl (visit L get) (visited, out, []) frontier of
        (visited, out, next_frontier) \<Rightarrow>
          if next_frontier = [] then out
          else traverse_levels L get d next_frontier visited out)"

definition traverse_from :: "'v library \<Rightarrow> (string \<Rightarrow> mem_dict option) \<Rightarrow> string \<Rightarrow> nat \<Rightarrow> mem_item list" where
  "traverse_from L get start depth = traverse_levels L get depth [start] [] []"

definition graph_traverse :: "'v library \<Rightarrow> real \<Rightarrow> mem_store \<Rightarrow> string \<Rightarrow> int \<Rightarrow> string option \<Rightarrow>
    retrieval_options \<Rightarrow> mem_error + mem_item list" where
  "graph_traverse L now st collection depth0 start opts =
     (let depth = max 1 depth0;
          options = retrieval_options_for st opts collection;
          rank = (\<lambda>nodes. Inr (apply_trust_and_recency L now options (rank_scores nodes)
                                 (int (length nodes))))
      in case start of
           Some (c # cs) \<Rightarrow> rank (traverse_from L (get_record L st collection) (c # cs) (nat depth))
         | _ \<Rightarrow>
             if \<not> safe_ident collection then Inl (BadIdent collection)
             else case lib_execute L
                 (''SELECT * FROM '' @ collection @ '' TRAVERSE edges DEPTH '' @ str_of_int depth) of
               None \<Rightarrow> Inr []
             | Some rows \<Rightarrow>
                 (case parse_rows L rows of None \<Rightarrow> Inl BadMetadata | Some nodes \<Rightarrow> rank nodes))"

subsection \<open>Vector searches that resolve hits\<close>

fun binary_items :: "'v library \<Rightarrow> mem_store \<Rightarrow> string \<Rightarrow> int \<Rightarrow> (string \<times> real) list \<Rightarrow> mem_item list" where
  "binary_items L st collection factor [] = []"
| "binary_items L st collection factor ((rid, distance) # hits) =
     (case resolve_hit_record L st collection rid of
        None \<Rightarrow> binary_items L st collection factor hits
      | Some r \<Rightarrow>
          (record_to_item L r)
            \<lparr>mi_distance := Some distance, mi_oversample := Some factor,
             mi_score := Some (1 / (1 + max distance 0))\<rparr>
          # binary_items L st collection factor hits)"

text \<open>
  \<open>search_binary\<close> with the tuner \<open>t\<close>: \<open>stored\<close> is the persisted factor, \<open>sample\<close> the draw that
  decides whether this query measures its recall.
\<close>

definition calibrate_oversample :: "'v library \<Rightarrow> real \<Rightarrow> mem_store \<Rightarrow> mem_value option \<Rightarrow> string \<Rightarrow>
    'v \<Rightarrow> int \<Rightarrow> mem_item list \<Rightarrow> tuner \<Rightarrow> mem_error + tuner" where
  "calibrate_oversample L now st stored collection query top_k items t =
     (case search L now st collection query top_k default_options [] of
        Inl e \<Rightarrow> Inl e
      | Inr exact \<Rightarrow>
          if exact = [] then Inr t
          else
            let exact_ids = remdups (map item_key exact);
                binary_ids = set (map item_key items);
                recall = of_nat (length (filter (\<lambda>k. k \<in> binary_ids) exact_ids)) /
                         of_nat (max (length exact_ids) 1)
            in Inr (snd (observe stored collection recall t)))"

definition search_binary :: "'v library \<Rightarrow> real \<Rightarrow> mem_store \<Rightarrow> mem_value option \<Rightarrow> bool \<Rightarrow> string \<Rightarrow>
    'v \<Rightarrow> int \<Rightarrow> int option \<Rightarrow> retrieval_options \<Rightarrow> mem_dict \<Rightarrow> tuner \<Rightarrow>
    mem_error + mem_item list \<times> tuner" where
  "search_binary L now st stored sample collection qv top_k oversample opts filters t =
     (let options = retrieval_options_for st opts collection;
          exact = (\<lambda>t. map_sum id (\<lambda>out. (out, t)) (search L now st collection qv top_k opts filters))
      in if ''ruscadb_search_bq'' \<notin> set (st_caps st) then exact t
         else
           case (case oversample of Some f \<Rightarrow> (f, t) | None \<Rightarrow> value_for stored collection t) of
             (factor, t1) \<Rightarrow>
               (case lib_bq L collection qv top_k (max factor 1) of
                  None \<Rightarrow> exact t1
                | Some hits \<Rightarrow>
                    let items = binary_items L st collection factor hits
                    in case (if sample
                             then calibrate_oversample L now st stored collection qv top_k items t1
                             else Inr t1) of
                         Inl e \<Rightarrow> Inl e
                       | Inr t2 \<Rightarrow> Inr (apply_trust_and_recency L now options items top_k, t2)))"

definition search_quantized :: "'v library \<Rightarrow> real \<Rightarrow> mem_store \<Rightarrow> mem_value option \<Rightarrow> bool \<Rightarrow> string \<Rightarrow>
    'v \<Rightarrow> int \<Rightarrow> tuner \<Rightarrow> mem_error + mem_item list \<times> tuner" where
  "search_quantized L now st stored sample collection qv top_k t =
     (let binary = search_binary L now st stored sample collection qv top_k None default_options [] t
      in if ''ruscadb_search_quantized'' \<notin> set (st_caps st) then binary
         else case lib_quantized L collection qv top_k of
           None \<Rightarrow> binary
         | Some hits \<Rightarrow> Inr (binary_items L st collection 1 hits, t))"

definition search_filtered :: "'v library \<Rightarrow> real \<Rightarrow> mem_store \<Rightarrow> string \<Rightarrow> 'v \<Rightarrow> string list \<Rightarrow> int \<Rightarrow>
    mem_error + mem_item list" where
  "search_filtered L now st collection qv allowed_ids top_k =
     (let allowed = set allowed_ids;
          exact = map_sum id
            (\<lambda>out. py_slice_to (filter (\<lambda>i. item_key i \<in> allowed) out) top_k)
            (search L now st collection qv (max top_k (int (card allowed))) default_options [])
      in if allowed_ids = [] then Inr []
         else if ''ruscadb_search_filtered'' \<notin> set (st_caps st) then exact
         else case lib_filtered L collection qv
             ((\<lambda>i. case find_rid L collection i of Some (c # cs) \<Rightarrow> c # cs | _ \<Rightarrow> i) ` allowed) top_k of
           None \<Rightarrow> exact
         | Some hits \<Rightarrow> Inr (binary_items L st collection 1 hits))"

definition search_adaptive :: "'v library \<Rightarrow> real \<Rightarrow> mem_store \<Rightarrow> mem_value option \<Rightarrow> bool \<Rightarrow> string \<Rightarrow>
    'v \<Rightarrow> int \<Rightarrow> string \<Rightarrow> string list option \<Rightarrow> int option \<Rightarrow> tuner \<Rightarrow>
    mem_error + mem_item list \<times> tuner" where
  "search_adaptive L now st stored sample collection qv top_k strategy allowed_ids oversample t =
     (let ids = (case allowed_ids of None \<Rightarrow> [] | Some ids \<Rightarrow> ids);
          selected = (if ids \<noteq> [] then ''filtered'' else strategy);
          keep = map_sum id (\<lambda>out. (out, t))
      in if selected = ''filtered'' then keep (search_filtered L now st collection qv ids top_k)
         else if selected = ''binary''
           then search_binary L now st stored sample collection qv top_k oversample default_options [] t
         else if selected = ''quantized''
           then search_quantized L now st stored sample collection qv top_k t
         else keep (search L now st collection qv top_k default_options []))"

subsection \<open>What a traversal reaches\<close>

definition edge :: "(string \<Rightarrow> mem_dict option) \<Rightarrow> string \<Rightarrow> string \<Rightarrow> bool" where
  "edge get x y \<longleftrightarrow> (\<exists>r. present (get x) = Some r \<and> y \<in> set (edge_targets r))"

text \<open>The nodes at the end of a walk of \<open>n\<close> edges.\<close>

primrec hops :: "(string \<Rightarrow> mem_dict option) \<Rightarrow> string \<Rightarrow> nat \<Rightarrow> string set" where
  "hops get start 0 = {start}"
| "hops get start (Suc n) = {y. \<exists>x \<in> hops get start n. edge get x y}"

definition reached :: "(string \<Rightarrow> mem_dict option) \<Rightarrow> string \<Rightarrow> nat \<Rightarrow> string set" where
  "reached get start n = {x. \<exists>k < n. x \<in> hops get start k}"

lemma reached_Suc: "reached get start (Suc n) = reached get start n \<union> hops get start n"
  by (auto simp: reached_def less_Suc_eq)

lemma edge_reached:
  "x \<in> reached get start n \<Longrightarrow> edge get x y \<Longrightarrow> y \<in> reached get start (Suc n)"
proof -
  assume "x \<in> reached get start n" "edge get x y"
  then obtain k where "k < n" "y \<in> hops get start (Suc k)" by (auto simp: reached_def)
  then show ?thesis unfolding reached_def by (metis (mono_tags) Suc_less_eq mem_Collect_eq)
qed

text \<open>The items of a walk are the records of the nodes it has visited, each once.\<close>

definition items_of :: "'v library \<Rightarrow> (string \<Rightarrow> mem_dict option) \<Rightarrow> string set \<Rightarrow> mem_item list \<Rightarrow> bool" where
  "items_of L get V out \<longleftrightarrow>
     (\<exists>rids. distinct rids \<and> set rids = {x \<in> V. present (get x) \<noteq> None} \<and>
        out = map (\<lambda>x. record_to_item L (the (present (get x)))) rids)"

lemma items_of_snoc:
  assumes "items_of L get V out" "x \<notin> V" "present (get x) = Some r"
  shows "items_of L get (insert x V) (out @ [record_to_item L r])"
proof -
  obtain rids where "distinct rids" "set rids = {x \<in> V. present (get x) \<noteq> None}"
    "out = map (\<lambda>x. record_to_item L (the (present (get x)))) rids"
    using assms(1) by (auto simp: items_of_def)
  then show ?thesis
    unfolding items_of_def using assms(2,3) by (intro exI [of _ "rids @ [x]"]) auto
qed

lemma items_of_skip:
  "items_of L get V out \<Longrightarrow> present (get x) = None \<Longrightarrow> items_of L get (insert x V) out"
  unfolding items_of_def by (elim exE) (rule exI, auto)

lemma visits:
  assumes "foldl (visit L get) (vis, out, nxt) F = (vis', out', nxt')"
    and "items_of L get (set vis) out"
  shows "set vis' = set vis \<union> set F \<and> items_of L get (set vis') out' \<and> set nxt \<subseteq> set nxt' \<and>
    (\<forall>y \<in> set nxt'. y \<in> set nxt \<or> (\<exists>x \<in> set F. edge get x y)) \<and>
    (\<forall>x \<in> set F - set vis. \<forall>y. edge get x y \<longrightarrow> y \<in> set vis' \<union> set nxt')"
  using assms
proof (induction F arbitrary: vis out nxt)
  case Nil
  then show ?case by simp
next
  case (Cons x F)
  show ?case
  proof (cases "x \<in> set vis")
    case True
    then have "foldl (visit L get) (vis, out, nxt) F = (vis', out', nxt')"
      using Cons.prems(1) by (simp add: visit_def)
    note IH = Cons.IH [OF this Cons.prems(2)]
    have eq: "set vis \<union> set (x # F) = set vis \<union> set F" "set (x # F) - set vis = set F - set vis"
      using True by auto
    show ?thesis unfolding eq using IH by (intro conjI) (blast, blast, blast, simp, blast, blast)
  next
    case new: False
    show ?thesis
    proof (cases "present (get x)")
      case None
      then have "foldl (visit L get) (x # vis, out, nxt) F = (vis', out', nxt')"
        using Cons.prems(1) new by (simp add: visit_def)
      moreover have "items_of L get (set (x # vis)) out"
        using items_of_skip [OF Cons.prems(2) None] by simp
      ultimately have IH: "set vis' = set (x # vis) \<union> set F \<and> items_of L get (set vis') out' \<and>
          set nxt \<subseteq> set nxt' \<and>
          (\<forall>y \<in> set nxt'. y \<in> set nxt \<or> (\<exists>x \<in> set F. edge get x y)) \<and>
          (\<forall>z \<in> set F - set (x # vis). \<forall>y. edge get z y \<longrightarrow> y \<in> set vis' \<union> set nxt')"
        by (rule Cons.IH)
      have no: "\<not> edge get x y" for y using None by (simp add: edge_def)
      have "y \<in> set vis' \<union> set nxt'" if "z \<in> set (x # F) - set vis" "edge get z y" for z y
      proof -
        have "z \<noteq> x" using no that(2) by blast
        with that(1) have "z \<in> set F - set (x # vis)" by simp
        with IH that(2) show ?thesis by blast
      qed
      moreover have "set vis' = set vis \<union> set (x # F)" using IH by simp
      ultimately show ?thesis using IH by (intro conjI) (blast, blast, blast, simp, blast, blast)
    next
      case (Some r)
      let ?n = "nxt @ filter (\<lambda>t. t \<notin> set (x # vis)) (edge_targets r)"
      have "foldl (visit L get) (x # vis, out @ [record_to_item L r], ?n) F = (vis', out', nxt')"
        using Cons.prems(1) new Some by (simp add: visit_def)
      moreover have "items_of L get (set (x # vis)) (out @ [record_to_item L r])"
        using items_of_snoc [OF Cons.prems(2) new Some] by simp
      ultimately have IH: "set vis' = set (x # vis) \<union> set F \<and> items_of L get (set vis') out' \<and>
          set ?n \<subseteq> set nxt' \<and>
          (\<forall>y \<in> set nxt'. y \<in> set ?n \<or> (\<exists>x \<in> set F. edge get x y)) \<and>
          (\<forall>z \<in> set F - set (x # vis). \<forall>y. edge get z y \<longrightarrow> y \<in> set vis' \<union> set nxt')"
        by (rule Cons.IH)
      have e: "edge get x y \<longleftrightarrow> y \<in> set (edge_targets r)" for y using Some by (simp add: edge_def)
      have "y \<in> set vis' \<union> set nxt'" if "z \<in> set (x # F) - set vis" "edge get z y" for z y
      proof (cases "z = x")
        case True
        with IH that(2) e show ?thesis by auto
      next
        case False
        with that(1) have "z \<in> set F - set (x # vis)" by simp
        with IH that(2) show ?thesis by blast
      qed
      moreover have "y \<in> set nxt \<or> (\<exists>z \<in> set (x # F). edge get z y)" if "y \<in> set nxt'" for y
        using IH that e by auto
      moreover have "set vis' = set vis \<union> set (x # F)" "set nxt \<subseteq> set nxt'" using IH by auto
      ultimately show ?thesis using IH by blast
    qed
  qed
qed

lemma reached_closed:
  assumes "hops get start n \<subseteq> reached get start n" and "n \<le> m"
  shows "reached get start m = reached get start n"
  using assms(2)
proof (induction m rule: dec_induct)
  case (step m)
  have "hops get start k \<subseteq> reached get start n" if "n \<le> k" "k \<le> m" for k
    using that
  proof (induction k rule: dec_induct)
    case (step k)
    then have "hops get start k \<subseteq> reached get start n" by simp
    then have "hops get start (Suc k) \<subseteq> reached get start (Suc n)"
      by (auto intro: edge_reached)
    then show ?case using assms(1) by (auto simp: reached_Suc)
  qed (rule assms(1))
  with step show ?case by (auto simp: reached_Suc)
qed simp

lemma traverse_levels_ok:
  assumes "items_of L get (set vis) out" and "set vis = reached get start n"
    and "set F \<subseteq> hops get start n" and "hops get start n \<subseteq> set vis \<union> set F"
  shows "items_of L get (reached get start (n + d)) (traverse_levels L get d F vis out)"
  using assms
proof (induction d arbitrary: F vis out n)
  case 0
  then show ?case by simp
next
  case (Suc d)
  obtain vis' out' nxt' where f: "foldl (visit L get) (vis, out, []) F = (vis', out', nxt')"
    by (metis prod_cases3)
  note v = visits [OF f Suc.prems(1)]
  have vis': "set vis' = reached get start (Suc n)"
    using v Suc.prems(2-4) by (auto simp: reached_Suc)
  have nxt: "set nxt' \<subseteq> hops get start (Suc n)"
    using v Suc.prems(3) by fastforce
  have all: "hops get start (Suc n) \<subseteq> set vis' \<union> set nxt'"
  proof
    fix y
    assume "y \<in> hops get start (Suc n)"
    then obtain x where x: "x \<in> hops get start n" "edge get x y" by auto
    show "y \<in> set vis' \<union> set nxt'"
    proof (cases "x \<in> set vis")
      case True
      with x(2) Suc.prems(2) vis' show ?thesis by (auto dest: edge_reached)
    next
      case False
      with x Suc.prems(4) v show ?thesis by blast
    qed
  qed
  show ?case
  proof (cases "nxt' = []")
    case True
    then have "hops get start (Suc n) \<subseteq> reached get start (Suc n)" using all vis' by simp
    then have "reached get start (n + Suc d) = set vis'"
      using reached_closed [of get start "Suc n" "n + Suc d"] vis' by simp
    moreover have "items_of L get (set vis') out'" using v by blast
    ultimately show ?thesis using True by (simp add: f)
  next
    case False
    have "items_of L get (reached get start (Suc n + d)) (traverse_levels L get d nxt' vis' out')"
      using v vis' nxt all by (intro Suc.IH) auto
    with False show ?thesis by (simp add: f)
  qed
qed

text \<open>
  C35: A traversal of depth d returns the record of every node that a walk of fewer than d edges
  reaches, each once, cycles and missing records included.
\<close>

theorem traverse_exact:
  "\<exists>rids. distinct rids \<and>
     set rids = {x. (\<exists>n < depth. x \<in> hops get start n) \<and> present (get x) \<noteq> None} \<and>
     traverse_from L get start depth = map (\<lambda>x. record_to_item L (the (present (get x)))) rids"
proof -
  have "items_of L get (reached get start (0 + depth)) (traverse_from L get start depth)"
    unfolding traverse_from_def
    by (rule traverse_levels_ok) (auto simp: items_of_def reached_def)
  then show ?thesis by (auto simp: items_of_def reached_def)
qed

subsection \<open>Governance of the resolved searches\<close>

lemma binary_admissible:
  assumes "''ruscadb_search_bq'' \<in> set (st_caps st)"
    and "lib_bq L collection qv top_k (max f 1) = Some hits"
    and "search_binary L now st stored sample collection qv top_k (Some f) opts fs t = Inr (out, t')"
  shows "list_all (admissible opts []) out"
proof -
  have "out = apply_trust_and_recency L now (retrieval_options_for st opts collection)
      (binary_items L st collection f hits) top_k"
    using assms by (auto simp: search_binary_def Let_def split: sum.splits if_splits)
  then show ?thesis
    by (auto simp: list_all_iff matches_filters_def intro!: apply_admissible)
qed

text \<open>A record that carries the tier and session given, and an engine whose searches all hit it.\<close>

definition tiered_record :: "string \<Rightarrow> string \<Rightarrow> mem_dict" where
  "tiered_record tier session =
     [(''scalars'',
       PDict [(''id'', PStr ''m1''), (''text'', PStr ''t''),
              (''metadata'', PDict [(''trust_tier'', PStr tier), (''session_id'', PStr session)])])]"

definition hit_library :: "string \<Rightarrow> string \<Rightarrow> unit library" where
  "hit_library tier session =
     \<lparr>lib_execute = (\<lambda>_. None), lib_get_record = (\<lambda>_ _. Some (tiered_record tier session)),
      lib_bq = (\<lambda>_ _ _ _. Some [(''R1'', 0)]), lib_quantized = (\<lambda>_ _ _. Some [(''R1'', 0)]),
      lib_filtered = (\<lambda>_ _ _ _. Some [(''R1'', 0)]), lib_vector = (\<lambda>_. ''[]''),
      lib_loads = (\<lambda>_. None), lib_iso = (\<lambda>_. None)\<rparr>"

definition full_store :: mem_store where
  "full_store =
     \<lparr>st_text_columns = [], st_heat_policy = None,
      st_caps = [''ruscadb_get_record'', ''ruscadb_search_bq'', ''ruscadb_search_quantized'',
                 ''ruscadb_search_filtered'']\<rparr>"

text \<open>
  The same quarantined hit is hidden by the binary search and served by the quantized and the
  restricted search; and the binary search serves a hit that the filters of the query exclude.
\<close>

theorem native_searches_ungoverned:
  "(case search_binary (hit_library ''quarantined'' ''s1'') 0 full_store None False ''m'' () 5 (Some 1)
           default_options [] (tuner_default False) of
      Inl _ \<Rightarrow> False | Inr (out, _) \<Rightarrow> out = []) \<and>
   (case search_quantized (hit_library ''quarantined'' ''s1'') 0 full_store None False ''m'' () 5
           (tuner_default False) of
      Inl _ \<Rightarrow> False | Inr (out, _) \<Rightarrow> map trust_tier out = [''quarantined'']) \<and>
   (case search_filtered (hit_library ''quarantined'' ''s1'') 0 full_store ''m'' () [''m1''] 5 of
      Inl _ \<Rightarrow> False | Inr out \<Rightarrow> map trust_tier out = [''quarantined'']) \<and>
   (case search_binary (hit_library ''verified'' ''s1'') 0 full_store None False ''m'' () 5 (Some 1)
           default_options [(''session_id'', PStr ''s2'')] (tuner_default False) of
      Inl _ \<Rightarrow> False
    | Inr (out, _) \<Rightarrow> map (\<lambda>i. matches_filters i [(''session_id'', PStr ''s2'')]) out = [False])"
  by (intro conjI) code_simp+

end
