(* ===== verification/PyNumeric.thy ===== *)
theory PyNumeric
  imports Complex_Main "HOL-Library.Multiset"
begin

text \<open>
  Numbers and random draws as the standard library of Python has them: \<open>round\<close> to decimals and
  \<open>int\<close> of a float, over exact rationals; a generator \<open>random.Random\<close> as a supply of natural numbers
  and of rationals from which choosing, sampling and shuffling draw.
\<close>

subsection \<open>Rounding\<close>

text \<open>\<open>round(x, k)\<close>, a tie going to the even neighbour\<close>

definition py_round :: "nat \<Rightarrow> rat \<Rightarrow> rat" where
  "py_round k x =
     (let y = x * 10 ^ k; f = \<lfloor>y\<rfloor>; d = y - of_int f
      in of_int (if d < 1 / 2 then f else if 1 / 2 < d then f + 1 else if even f then f else f + 1) / 10 ^ k)"

definition trunc_int :: "rat \<Rightarrow> int" where
  "trunc_int x = (if 0 \<le> x then \<lfloor>x\<rfloor> else \<lceil>x\<rceil>)"

lemma py_round_near: "x - 1 / 10 ^ k \<le> py_round k x" "py_round k x \<le> x + 1 / 10 ^ k"
proof -
  define y where "y = x * 10 ^ k"
  define f where "f = (of_int \<lfloor>y\<rfloor> :: rat)"
  have f: "f \<le> y" "y < f + 1" unfolding f_def by linarith+
  have x: "x = y / 10 ^ k" by (simp add: y_def)
  have r: "py_round k x = f / 10 ^ k \<or> py_round k x = (f + 1) / 10 ^ k"
    unfolding py_round_def y_def [symmetric] Let_def f_def by simp
  have "(y - 1) / 10 ^ k \<le> py_round k x" "py_round k x \<le> (y + 1) / 10 ^ k"
    using r f by (auto intro!: divide_right_mono)
  then show "x - 1 / 10 ^ k \<le> py_round k x" "py_round k x \<le> x + 1 / 10 ^ k"
    unfolding x by (simp_all add: diff_divide_distrib add_divide_distrib)
qed

lemma py_round_exact: "x * 10 ^ k = of_int n \<Longrightarrow> py_round k x = x"
  by (simp add: py_round_def Let_def field_simps)

lemma py_round_mono_int:
  fixes n :: int
  assumes "of_int n \<le> x * 10 ^ k"
  shows "of_int n / 10 ^ k \<le> py_round k x"
proof -
  have "n \<le> \<lfloor>x * 10 ^ k\<rfloor>" using assms by (simp add: le_floor_iff)
  then show ?thesis by (auto simp: py_round_def Let_def intro!: divide_right_mono)
qed

lemma py_round_le_int:
  fixes n :: int
  assumes "x * 10 ^ k \<le> of_int n"
  shows "py_round k x \<le> of_int n / 10 ^ k"
proof (cases "x * 10 ^ k = of_int n")
  case True
  then show ?thesis by (simp add: py_round_def Let_def)
next
  case False
  then have "\<lfloor>x * 10 ^ k\<rfloor> + 1 \<le> n" using assms by linarith
  then show ?thesis by (auto simp: py_round_def Let_def intro!: divide_right_mono)
qed

subsection \<open>Random draws\<close>

record rng =
  rg_nat :: "nat \<Rightarrow> nat"
  rg_rat :: "nat \<Rightarrow> rat"
  rg_pos :: nat

definition randbelow :: "nat \<Rightarrow> rng \<Rightarrow> nat \<times> rng" where
  "randbelow n r = (rg_nat r (rg_pos r) mod n, r\<lparr>rg_pos := rg_pos r + 1\<rparr>)"

definition random_unit :: "rng \<Rightarrow> rat \<times> rng" where
  "random_unit r = (rg_rat r (rg_pos r), r\<lparr>rg_pos := rg_pos r + 1\<rparr>)"

definition choice :: "'a list \<Rightarrow> rng \<Rightarrow> 'a \<times> rng" where
  "choice xs r = (case randbelow (length xs) r of (i, r) \<Rightarrow> (xs ! i, r))"

text \<open>\<open>rng.shuffle(xs)\<close>: for every index from the last down to 1 a swap with one not above it\<close>

fun shuffle_from :: "nat \<Rightarrow> 'a list \<Rightarrow> rng \<Rightarrow> 'a list \<times> rng" where
  "shuffle_from 0 xs r = (xs, r)"
| "shuffle_from (Suc i) xs r =
     (case randbelow (i + 2) r of
        (j, r) \<Rightarrow> shuffle_from i (xs[Suc i := xs ! j, j := xs ! Suc i]) r)"

definition shuffle_list :: "'a list \<Rightarrow> rng \<Rightarrow> 'a list \<times> rng" where
  "shuffle_list xs r = shuffle_from (length xs - 1) xs r"

text \<open>\<open>rng.sample(population, k)\<close> of a small population: draws from a pool that shrinks\<close>

fun sample_pool :: "nat \<Rightarrow> nat \<Rightarrow> 'a list \<Rightarrow> rng \<Rightarrow> 'a list \<times> rng" where
  "sample_pool 0 n pool r = ([], r)"
| "sample_pool (Suc k) n pool r =
     (case randbelow n r of
        (j, r) \<Rightarrow>
          (case sample_pool k (n - 1) (pool[j := pool ! (n - 1)]) r of
             (xs, r) \<Rightarrow> (pool ! j # xs, r)))"

subsection \<open>Facts on draws\<close>

lemma shuffle_from_mset:
  "i < length xs \<Longrightarrow> shuffle_from i xs r = (ys, r') \<Longrightarrow> mset ys = mset xs"
proof (induction i arbitrary: xs r)
  case (Suc i)
  obtain j r1 where j: "randbelow (i + 2) r = (j, r1)" by (cases "randbelow (i + 2) r")
  then have "j < i + 2" by (auto simp: randbelow_def)
  then have "mset (xs[Suc i := xs ! j, j := xs ! Suc i]) = mset xs"
    using Suc.prems(1) by (intro mset_swap) auto
  then show ?case
    using Suc.IH [of "xs[Suc i := xs ! j, j := xs ! Suc i]" r1] Suc.prems j by simp
qed simp

lemma shuffle_list_mset: "shuffle_list xs r = (ys, r') \<Longrightarrow> mset ys = mset xs"
  using shuffle_from_mset [of "length xs - 1" xs r ys r']
  by (cases xs) (auto simp: shuffle_list_def)

lemma choice_in: "xs \<noteq> [] \<Longrightarrow> choice xs r = (x, r') \<Longrightarrow> x \<in> set xs"
  by (auto simp: choice_def randbelow_def split: prod.splits)

lemma sample_pool_length: "sample_pool k n pool r = (xs, r') \<Longrightarrow> length xs = k"
  by (induction k n pool r arbitrary: xs r' rule: sample_pool.induct) (auto split: prod.splits)

lemma sample_pool_subset:
  "k \<le> n \<Longrightarrow> n \<le> length pool \<Longrightarrow> sample_pool k n pool r = (xs, r') \<Longrightarrow> set xs \<subseteq> set pool"
proof (induction k n pool r arbitrary: xs r' rule: sample_pool.induct)
  case (2 k n pool r)
  obtain j r1 where j: "randbelow n r = (j, r1)" by (cases "randbelow n r")
  obtain ys r2 where ys: "sample_pool k (n - 1) (pool[j := pool ! (n - 1)]) r1 = (ys, r2)"
    by (cases "sample_pool k (n - 1) (pool[j := pool ! (n - 1)]) r1")
  have "j < n" using j 2(2) by (auto simp: randbelow_def)
  have "set ys \<subseteq> set (pool[j := pool ! (n - 1)])"
    using 2(1) [OF j [symmetric], of ys r2] 2(2,3) ys by simp
  also have "\<dots> \<subseteq> set pool"
    using set_update_subset_insert [of pool j "pool ! (n - 1)"] 2(2,3) by fastforce
  finally show ?case using 2(2-4) j ys \<open>j < n\<close> by auto
qed simp

end
