(* ===== verification/RoutingMutation.thy ===== *)
theory RoutingMutation
  imports Complex_Main PyText PyNumeric
begin

text \<open>
  Quality-diversity search over routings (\<open>orchestrator/routing_mutation.py\<close>): genomes, their
  distance, mutation of one or two genes, the safety gate and the archive that keeps the best
  variant of every niche.

  Floats are exact rationals and the random generator is a supply of draws. The names of the agent
  files on disk are an argument.
\<close>

subsection \<open>Genomes\<close>

definition topologies :: "string list" where
  "topologies = [''sequential'', ''fanout'', ''debate'']"

definition cost_buckets :: "string list" where
  "cost_buckets = [''low'', ''mid'', ''high'']"

definition depth_buckets :: "string list" where
  "depth_buckets = [''shallow'', ''deep'']"

definition topology_depth :: "(string \<times> string) list" where
  "topology_depth = [(''sequential'', ''shallow''), (''fanout'', ''shallow''), (''debate'', ''deep'')]"

definition persona_pool :: "string list" where
  "persona_pool =
     [''pragmatic_engineer'', ''rigorous_scientist'', ''adversarial_reviewer'',
      ''creative_explorer'', ''risk_averse_guardian'', ''efficiency_optimizer'']"

definition gene_kinds :: "string list" where
  "gene_kinds = [''skills'', ''agents'', ''temperature'', ''persona'', ''topology'', ''budget_tokens'']"

definition temperature_steps :: "rat list" where
  "temperature_steps = [- 1 / 5, - 1 / 10, 1 / 10, 1 / 5]"

definition forbidden_markers :: "string list" where
  "forbidden_markers =
     [''rm -rf'', ''drop table'', ''truncate table'', ''delete_all'', ''force push'', ''force-push'',
      ''--no-verify'', ''secret'', ''api_key'', ''apikey'', ''password'', ''private_key'', ''credential'',
      ''exfiltrat'', ''disable_safety'', ''disable-safety'']"

record genome =
  gn_skills :: "string list"
  gn_agents :: "string list"
  gn_temperature :: rat
  gn_persona :: string
  gn_topology :: string
  gn_budget :: int

datatype routing_error =
    BadTopology string
  | BadTemperature rat
  | BadBudget int
  | BadCostBucket string
  | BadDepthBucket string
  | NegativePenalty rat rat

definition check_genome :: "genome \<Rightarrow> routing_error + genome" where
  "check_genome g =
     (if gn_topology g \<notin> set topologies then Inl (BadTopology (gn_topology g))
      else if \<not> (0 \<le> gn_temperature g \<and> gn_temperature g \<le> 2) then Inl (BadTemperature (gn_temperature g))
      else if gn_budget g \<le> 0 then Inl (BadBudget (gn_budget g))
      else Inr g)"

subsection \<open>Distance\<close>

definition jaccard :: "string list \<Rightarrow> string list \<Rightarrow> rat" where
  "jaccard left right =
     (let union = remdups (left @ right);
          common = filter (\<lambda>x. x \<in> set left \<and> x \<in> set right) union
      in if union = [] then 1 else of_nat (length common) / of_nat (length union))"

definition genome_distance :: "genome \<Rightarrow> genome \<Rightarrow> rat" where
  "genome_distance l r =
     (let skill_d = 1 - jaccard (gn_skills l) (gn_skills r);
          agent_d = 1 - jaccard (gn_agents l) (gn_agents r);
          temp_d = min 1 (\<bar>gn_temperature l - gn_temperature r\<bar> / 2);
          persona_d = (if gn_persona l = gn_persona r then 0 else 1);
          topology_d = (if gn_topology l = gn_topology r then 0 else 1)
      in 35 / 100 * skill_d + 35 / 100 * agent_d + 10 / 100 * temp_d + 10 / 100 * persona_d +
         10 / 100 * topology_d)"

subsection \<open>Niches\<close>

definition cost_bucket_for :: "int \<Rightarrow> string" where
  "cost_bucket_for tokens =
     (if tokens \<le> 8000 then ''low'' else if tokens \<le> 32000 then ''mid'' else ''high'')"

definition depth_bucket_for :: "string \<Rightarrow> string" where
  "depth_bucket_for topology = dict_get topology_depth topology ''shallow''"

text \<open>\<open>mapping.setdefault(skill, domain)\<close> over \<open>DOMAIN_SKILLS\<close>\<close>

definition build_skill_domains :: "(string \<times> string list) list \<Rightarrow> (string \<times> string) list" where
  "build_skill_domains domain_skills =
     foldl (\<lambda>m (domain, skills).
       foldl (\<lambda>m skill. if map_of m skill = None then AList.update skill domain m else m) m skills)
     [] domain_skills"

definition dominant_skill_family :: "(string \<times> string) list \<Rightarrow> genome \<Rightarrow> string" where
  "dominant_skill_family skill_domain g =
     (case gn_skills g of
        [] \<Rightarrow> ''general''
      | s # _ \<Rightarrow> dict_get skill_domain s ''general'')"

definition behavior_descriptor ::
  "(string \<times> string) list \<Rightarrow> genome \<Rightarrow> string \<Rightarrow> string \<Rightarrow> routing_error + string" where
  "behavior_descriptor skill_domain g cost depth =
     (if cost \<notin> set cost_buckets then Inl (BadCostBucket cost)
      else if depth \<notin> set depth_buckets then Inl (BadDepthBucket depth)
      else Inr (''cost='' @ cost @ ''|depth='' @ depth @ ''|family='' @
                dominant_skill_family skill_domain g @ ''|topology='' @ gn_topology g))"

subsection \<open>The archive\<close>

record scored_genome =
  sg_genome :: genome
  sg_fitness :: rat
  sg_descriptor :: string
  sg_novelty :: rat

type_synonym qd_archive = "(string \<times> scored_genome) list"

definition archive_add :: "scored_genome \<Rightarrow> qd_archive \<Rightarrow> bool \<times> qd_archive" where
  "archive_add s a =
     (case map_of a (sg_descriptor s) of
        Some e \<Rightarrow>
          if sg_fitness s \<le> sg_fitness e then (False, a)
          else (True, AList.update (sg_descriptor s) s a)
      | None \<Rightarrow> (True, AList.update (sg_descriptor s) s a))"

definition archive_niches :: "qd_archive \<Rightarrow> string list" where
  "archive_niches a = sort (map fst a)"

definition archive_novelty :: "genome \<Rightarrow> qd_archive \<Rightarrow> rat" where
  "archive_novelty g a =
     (if a = [] then 0
      else sum_list (map (\<lambda>s. genome_distance g (sg_genome s)) (dict_values a)) /
             of_nat (length (dict_values a)))"

subsection \<open>Neighbours and the allowlist\<close>

definition add_neighbors :: "string \<Rightarrow> string list \<Rightarrow> (string \<times> string list) list \<Rightarrow> (string \<times> string list) list" where
  "add_neighbors name xs m = AList.update name (remdups (dict_get m name [] @ xs)) m"

definition build_semantic_neighbors ::
  "(string \<times> string list) list \<Rightarrow> (string \<times> string list) list \<Rightarrow> (string \<times> string list) list" where
  "build_semantic_neighbors domain_skills agent_keywords =
     (let n1 = foldl (\<lambda>m (_, skills).
            foldl (\<lambda>m skill. add_neighbors skill (filter (\<lambda>s. s \<noteq> skill) skills) m) m skills)
            [] domain_skills;
          n2 = foldl (\<lambda>m (agent, keywords).
            add_neighbors agent
              (map fst (filter (\<lambda>(other, kws). other \<noteq> agent \<and> (\<exists>k \<in> set keywords. k \<in> set kws))
                 agent_keywords)) m)
            n1 agent_keywords
      in map (\<lambda>(name, vals). (name, sort vals)) (sort_key fst n2))"

record allowlist =
  al_skills :: "string list"
  al_agents :: "string list"
  al_markers :: "string list"

text \<open>\<open>agent_names\<close> are the agent files found on disk.\<close>

definition default_allowlist :: "(string \<times> string) list \<Rightarrow> (string \<times> string list) list \<Rightarrow>
    (string \<times> string list) list \<Rightarrow> string list \<Rightarrow> allowlist" where
  "default_allowlist skill_to_agent domain_skills agent_keywords agent_names =
     \<lparr>al_skills = map fst skill_to_agent @ map fst (build_skill_domains domain_skills),
      al_agents = map fst agent_keywords @ agent_names, al_markers = forbidden_markers\<rparr>"

definition tuple_repr :: "string list \<Rightarrow> string" where
  "tuple_repr xs =
     ''('' @ py_join '', '' (map repr_str xs) @ (if length xs = 1 then '','' else []) @ '')''"

definition first_allowlist_violation :: "genome \<Rightarrow> allowlist \<Rightarrow> string option" where
  "first_allowlist_violation g al =
     (let unknown_skills = filter (\<lambda>s. s \<notin> set (al_skills al)) (gn_skills g);
          unknown_agents = filter (\<lambda>a. a \<notin> set (al_agents al)) (gn_agents g)
      in if unknown_skills \<noteq> [] then
           Some (''WHAT: skills fuera de allowlist '' @ tuple_repr unknown_skills @
             ''. WHY: mutar hacia capacidades desconocidas saltaria los gates. '' @
             ''WHERE: routing_mutation.is_safe'')
         else if unknown_agents \<noteq> [] then
           Some (''WHAT: agentes fuera de allowlist '' @ tuple_repr unknown_agents @
             ''. WHY: el routing solo admite agentes registrados/reversibles. '' @
             ''WHERE: routing_mutation.is_safe'')
         else None)"

definition haystack :: "genome \<Rightarrow> string" where
  "haystack g = py_lower (py_join '' '' (gn_skills g @ gn_agents g @ [gn_persona g, gn_topology g]))"

definition first_forbidden_marker :: "genome \<Rightarrow> string list \<Rightarrow> string option" where
  "first_forbidden_marker g markers =
     List.find (\<lambda>m. py_contains (haystack g) m) (sort (remdups markers))"

definition is_safe :: "genome \<Rightarrow> allowlist \<Rightarrow> bool \<times> string" where
  "is_safe g al =
     (case first_allowlist_violation g al of
        Some violation \<Rightarrow> (False, violation)
      | None \<Rightarrow>
          (case first_forbidden_marker g (al_markers al) of
             Some m \<Rightarrow>
               (False, ''WHAT: token prohibido '' @ repr_str m @ '' en el genoma. '' @
                 ''WHY: acciones irreversibles o acceso a secretos violan SEG/SBX. '' @
                 ''WHERE: routing_mutation.is_safe'')
           | None \<Rightarrow> (True, ''OK: genoma seguro (allowlist + reversible, sin secretos)'')))"


subsection \<open>The registries\<close>

definition domain_skills :: "(string \<times> string list) list" where
  "domain_skills = [
     (''web'', [''frontend-uiux'', ''security-audit'', ''rust-lang'']),
     (''api'', [''architecture'', ''rust-lang'', ''security-audit'', ''data-science'']),
     (''data'', [''data-science'', ''alpha-research'', ''architecture'']),
     (''frontend'', [''frontend-uiux'', ''security-audit'']),
     (''backend'', [''rust-lang'', ''architecture'', ''data-science'', ''security-audit'']),
     (''mobile'', [''frontend-uiux'', ''security-audit'']),
     (''security'', [''security-audit'', ''architecture'', ''mcp-security'']),
     (''architecture'', [''architecture'', ''rust-lang'']),
     (''trading'', [''quant-trading'', ''alpha-research'', ''risk-execution'',
      ''alpha-mining'']),
     (''research'', [''alpha-research'', ''science-doc'', ''data-science'']),
     (''legal'', [''legal-doc'', ''legal-forensics'', ''legal-evidence-audit'',
      ''legal-procedure-co'', ''legal-drafting-co'', ''legal-jurisprudence-co'',
      ''science-doc'']),
     (''health'', [''healthtech'', ''data-science'', ''security-audit'']),
     (''retail'', [''pos-retail'', ''frontend-uiux'', ''security-audit'']),
     (''devops'', [''rust-lang'', ''security-audit'', ''devops-infra'', ''swarm-release-ops'']),
     (''quality'', [''agent-rigor'', ''atdd-spec'', ''security-audit'']),
     (''general'', [''architecture'', ''security-audit'', ''data-science'', ''rust-lang'']),
     (''meta'', [''evolve'', ''skill-engineering'', ''frontier-engineering'']),
     (''academic'', [''math-doc'', ''science-doc'']),
     (''finance'', [''hedgefund'']),
     (''business'', [''business-strategy'']),
     (''management'', [''project-management'']),
     (''communication'', [''communication'']),
     (''design'', [''creative-design'', ''diagram-design'']),
     (''psychology'', [''psychology'']),
     (''education'', [''education'', ''cert-master'']),
     (''ethics'', [''ethics'']),
     (''economics'', [''behavioral-economics'']),
     (''linguistics'', [''linguistics'']),
     (''sociology'', [''sociology'']),
     (''sustainability'', [''sustainability'']),
     (''science'', [''physical-sciences'']),
     (''risk-intelligence'', [''risk-intelligence'']),
     (''ads'', [''ads-optimizer'']),
     (''orchestration'', [''process-over-tools'']),
     (''reverse-engineering'', [''reverse-engineering'']),
     (''codebase-comprehension'', [''codebase-comprehension'']),
     (''architecture-review'', [''architecture-review'']),
     (''tooling'', [''mcp-toolkit''])]"

definition skill_to_agent :: "(string \<times> string) list" where
  "skill_to_agent = [
     (''alpha-research'', ''scientist''), (''evolve'', ''evolve''), (''healthtech'',
      ''builder''), (''hedgefund'', ''scientist''), (''legal-doc'', ''scientist''),
      (''legal-forensics'', ''security-engineer''), (''legal-evidence-audit'', ''guardian''),
      (''legal-procedure-co'', ''scientist''), (''legal-drafting-co'', ''scientist''),
      (''legal-jurisprudence-co'', ''scientist''), (''math-doc'', ''scientist''),
      (''pos-retail'', ''builder''), (''quant-trading'', ''scientist''), (''risk-execution'',
      ''guardian''), (''science-doc'', ''scientist''), (''frontend-uiux'', ''builder''),
      (''rust-lang'', ''builder''), (''architecture'', ''scientist''), (''data-science'',
      ''scientist''), (''security-audit'', ''guardian''), (''agent-rigor'', ''guardian''),
      (''atdd-spec'', ''builder''), (''behavioral-economics'', ''scientist''),
      (''business-strategy'', ''scientist''), (''communication'', ''builder''),
      (''creative-design'', ''builder''), (''devops-infra'', ''builder''), (''diagram-design'',
      ''builder''), (''education'', ''scientist''), (''ethics'', ''guardian''),
      (''linguistics'', ''scientist''), (''physical-sciences'', ''scientist''),
      (''process-over-tools'', ''coordinator''), (''project-management'', ''builder''),
      (''psychology'', ''scientist''), (''risk-intelligence'', ''scientist''), (''sociology'',
      ''scientist''), (''sustainability'', ''scientist''), (''swarm-release-ops'', ''builder''),
      (''skill-engineering'', ''evolve-engineer''), (''reverse-engineering'',
      ''security-engineer''), (''cert-master'', ''scientist''), (''codebase-comprehension'',
      ''architect''), (''architecture-review'', ''architect''), (''ads-optimizer'',
      ''product-manager''), (''mcp-toolkit'', ''platform-engineer''), (''mcp-security'',
      ''security-engineer''), (''alpha-mining'', ''alpha-miner''), (''frontier-engineering'',
      ''coordinator'')]"

definition agent_keywords :: "(string \<times> string list) list" where
  "agent_keywords = [
     (''builder'', [''implement'', ''implementa'', ''implementar'', ''build'', ''code'',
      ''api'', ''endpoint'', ''rust'', ''go'', ''python'', ''typescript'', ''javascript'',
      ''web'', ''mobile'', ''frontend'', ''backend'', ''database'', ''sql'', ''query'',
      ''migracion'', ''deploy'', ''docker'', ''algoritmo'', ''modulo'', ''funcion'', ''clase'',
      ''refactor'', ''fix'', ''bug'', ''crea'', ''crear'', ''desarrolla'', ''desarrollar'',
      ''construye'', ''construir'']),
     (''scientist'', [''research'', ''investigar'', ''investiga'', ''study'', ''analyze'',
      ''analysis'', ''architecture'', ''design'', ''pattern'', ''paper'', ''algoritmo'', ''ml'',
      ''ai'', ''machine learning'', ''experiment'', ''hypothesis'', ''comparar'', ''compara'',
      ''evaluar'', ''evalua'', ''proponer'', ''propone'', ''recomendar'', ''recomienda'',
      ''investigacion'', ''analisis'', ''analiza'', ''analizar'', ''estudia'', ''estudiar'',
      ''disena'', ''disenar'']),
     (''guardian'', [''test'', ''tests'', ''testing'', ''coverage'', ''cobertura'', ''pruebas'',
      ''prueba'', ''security'', ''seguridad'', ''audit'', ''audita'', ''auditoria'',
      ''vulnerabilidad'', ''quality'', ''calidad'', ''review'', ''revisa'', ''revisar'',
      ''revision'', ''validate'', ''valida'', ''validacion'', ''verifica'', ''verificacion'',
      ''document'', ''documenta'', ''documentar'', ''documentacion'', ''docs'', ''readme'']),
     (''evolve'', [''evolve'', ''evoluciona'', ''improve'', ''optimize'', ''optimiza'',
      ''optimizar'', ''mejora'', ''mejorar'', ''skill'', ''cognition'', ''learn'', ''aprender'',
      ''auto-mejora'', ''self-improve'', ''evolution''])]"

subsection \<open>Mutation\<close>

type_synonym neighbor_map = "(string \<times> string list) list"

definition mutation_count :: "rng \<Rightarrow> nat \<times> rng" where
  "mutation_count r = (case random_unit r of (u, r) \<Rightarrow> (if u < 35 / 100 then 2 else 1, r))"

definition pick_neighbor :: "string \<Rightarrow> string list \<Rightarrow> rng \<Rightarrow> string \<times> rng" where
  "pick_neighbor v candidates r =
     (let options = filter (\<lambda>c. c \<noteq> v) candidates
      in if options = [] then (v, r) else choice options r)"

definition reorder_if_needed :: "string list \<Rightarrow> rng \<Rightarrow> string list \<times> rng" where
  "reorder_if_needed vs r =
     (if length vs < 2 then (vs, r)
      else (case random_unit r of (u, r) \<Rightarrow> if 25 / 100 \<le> u then (vs, r) else shuffle_list vs r))"

definition mutate_sequence :: "neighbor_map \<Rightarrow> string list \<Rightarrow> rng \<Rightarrow> string list \<times> rng" where
  "mutate_sequence nb vs r =
     (if vs = [] then (vs, r)
      else (case randbelow (length vs) r of
          (i, r) \<Rightarrow>
            (case pick_neighbor (vs ! i) (dict_get nb (vs ! i) []) r of
               (v, r) \<Rightarrow> reorder_if_needed (vs[i := v]) r)))"

fun first_step :: "rat \<Rightarrow> rat list \<Rightarrow> rat" where
  "first_step t [] = t"
| "first_step t (d # ds) =
     (let c = min 2 (max 0 (py_round 4 (t + d))) in if c \<noteq> t then c else first_step t ds)"

definition jitter_temperature :: "rat \<Rightarrow> rng \<Rightarrow> rat \<times> rng" where
  "jitter_temperature t r = (case shuffle_list temperature_steps r of (steps, r) \<Rightarrow> (first_step t steps, r))"

definition jitter_budget :: "int \<Rightarrow> rng \<Rightarrow> int \<times> rng" where
  "jitter_budget b r =
     (case random_unit r of
        (u, r) \<Rightarrow>
          let delta = - (1 / 4) + (1 / 4 - - (1 / 4)) * u;
              c = min 200000 (max 1 (trunc_int (of_int b * (1 + delta))))
          in (if c = b then if b < 200000 then b + 1 else b - 1 else c, r))"

definition mutate_persona :: "string \<Rightarrow> rng \<Rightarrow> string \<times> rng" where
  "mutate_persona p r =
     (let options = filter (\<lambda>x. x \<noteq> p) persona_pool in if options = [] then (p, r) else choice options r)"

definition mutate_topology :: "string \<Rightarrow> rng \<Rightarrow> string \<times> rng" where
  "mutate_topology t r =
     (let options = filter (\<lambda>x. x \<noteq> t) topologies in if options = [] then (t, r) else choice options r)"

text \<open>\<open>replace\<close> builds a new genome, whose constructor checks it again.\<close>

definition apply_gene_mutation ::
  "neighbor_map \<Rightarrow> genome \<Rightarrow> string \<Rightarrow> rng \<Rightarrow> (routing_error + genome) \<times> rng" where
  "apply_gene_mutation nb g kind r =
     (if kind = ''skills'' then
        (case mutate_sequence nb (gn_skills g) r of (x, r) \<Rightarrow> (check_genome (g\<lparr>gn_skills := x\<rparr>), r))
      else if kind = ''agents'' then
        (case mutate_sequence nb (gn_agents g) r of (x, r) \<Rightarrow> (check_genome (g\<lparr>gn_agents := x\<rparr>), r))
      else if kind = ''temperature'' then
        (case jitter_temperature (gn_temperature g) r of (x, r) \<Rightarrow> (check_genome (g\<lparr>gn_temperature := x\<rparr>), r))
      else if kind = ''persona'' then
        (case mutate_persona (gn_persona g) r of (x, r) \<Rightarrow> (check_genome (g\<lparr>gn_persona := x\<rparr>), r))
      else if kind = ''topology'' then
        (case mutate_topology (gn_topology g) r of (x, r) \<Rightarrow> (check_genome (g\<lparr>gn_topology := x\<rparr>), r))
      else
        (case jitter_budget (gn_budget g) r of (x, r) \<Rightarrow> (check_genome (g\<lparr>gn_budget := x\<rparr>), r)))"

fun apply_kinds ::
  "neighbor_map \<Rightarrow> genome \<Rightarrow> string list \<Rightarrow> rng \<Rightarrow> (routing_error + genome) \<times> rng" where
  "apply_kinds nb g [] r = (Inr g, r)"
| "apply_kinds nb g (k # ks) r =
     (case apply_gene_mutation nb g k r of
        (Inl e, r) \<Rightarrow> (Inl e, r)
      | (Inr g', r) \<Rightarrow> apply_kinds nb g' ks r)"

definition mutate :: "neighbor_map \<Rightarrow> genome \<Rightarrow> rng \<Rightarrow> (routing_error + genome) \<times> rng" where
  "mutate nb g r =
     (case mutation_count r of
        (num, r) \<Rightarrow>
          (case sample_pool num 6 gene_kinds r of
             (kinds, r) \<Rightarrow>
               (case apply_kinds nb g kinds r of
                  (Inl e, r) \<Rightarrow> (Inl e, r)
                | (Inr m, r) \<Rightarrow>
                    if m = g then apply_gene_mutation nb g ''temperature'' r else (Inr m, r))))"

subsection \<open>Evaluation\<close>

record eval_context =
  ec_allowlist :: allowlist
  ec_cost :: string
  ec_depth :: string
  ec_baseline :: rat
  ec_known :: "string list"
  ec_observed :: "string list"
  ec_lambda :: rat
  ec_mu :: rat
  ec_nu :: rat

record archive_decision =
  ad_accepted :: bool
  ad_reason :: string
  ad_scored :: "scored_genome option"

definition equivalent_reason :: string where
  "equivalent_reason =
     ''DESCARTADA: variante equivalente; no mejora el baseline, no cubre un '' @
     ''nicho nuevo ni expone un fallo (analogia mutation testing).''"

definition archived_reason :: string where
  "archived_reason = ''ARCHIVADA: variante sana (nueva, mejor o senal de fallo).''"

definition composite_fitness ::
  "rat \<Rightarrow> rat \<Rightarrow> rat \<Rightarrow> rat \<Rightarrow> eval_context \<Rightarrow> routing_error + rat" where
  "composite_fitness quality cost latency novelty c =
     (if cost < 0 \<or> latency < 0 then Inl (NegativePenalty cost latency)
      else Inr (quality - ec_lambda c * cost - ec_mu c * latency + ec_nu c * novelty))"

definition is_healthy_variant :: "qd_archive \<Rightarrow> scored_genome \<Rightarrow> eval_context \<Rightarrow> bool" where
  "is_healthy_variant a s c =
     (case map_of a (sg_descriptor s) of
        None \<Rightarrow> True
      | Some e \<Rightarrow>
          if sg_fitness e < sg_fitness s then True
          else if ec_baseline c < sg_fitness s then True
          else list_ex (\<lambda>f. f \<notin> set (ec_known c)) (ec_observed c))"

definition evaluate_and_archive ::
  "(string \<times> string) list \<Rightarrow> genome \<Rightarrow> rat \<Rightarrow> rat \<Rightarrow> rat \<Rightarrow> eval_context \<Rightarrow> qd_archive \<Rightarrow>
   (routing_error + archive_decision) \<times> qd_archive" where
  "evaluate_and_archive sd g quality cost latency c a =
     (case is_safe g (ec_allowlist c) of
        (safe, reason) \<Rightarrow>
          if \<not> safe then (Inr \<lparr>ad_accepted = False, ad_reason = reason, ad_scored = None\<rparr>, a)
          else (case behavior_descriptor sd g (ec_cost c) (ec_depth c) of
              Inl e \<Rightarrow> (Inl e, a)
            | Inr d \<Rightarrow>
                let novelty = archive_novelty g a
                in (case composite_fitness quality cost latency novelty c of
                      Inl e \<Rightarrow> (Inl e, a)
                    | Inr fitness \<Rightarrow>
                        let s = \<lparr>sg_genome = g, sg_fitness = fitness, sg_descriptor = d, sg_novelty = novelty\<rparr>
                        in if \<not> is_healthy_variant a s c then
                             (Inr \<lparr>ad_accepted = False, ad_reason = equivalent_reason, ad_scored = Some s\<rparr>, a)
                           else
                             (Inr \<lparr>ad_accepted = True, ad_reason = archived_reason, ad_scored = Some s\<rparr>,
                              snd (archive_add s a)))))"

subsection \<open>Distance is a pseudometric\<close>

lemma steinhaus:
  fixes a b c x y z :: rat
  assumes nn: "0 \<le> a" "0 \<le> b" "0 \<le> c" "0 \<le> x" "0 \<le> y" "0 \<le> z"
    and xy: "z \<le> x + y" and ab: "b \<le> a + x" and bc: "b \<le> c + y"
  shows "z / (a + c + z) \<le> x / (a + b + x) + y / (b + c + y)"
proof (cases "x + y = 0")
  case True
  then have "x = 0" "y = 0" "z = 0" using nn xy by auto
  then show ?thesis by simp
next
  case False
  then have pos: "0 < x + y" using nn by auto
  let ?d = "a + c + (x + y)"
  have dpos: "0 < ?d" using nn pos by auto
  have "z / (a + c + z) \<le> (x + y) / ?d"
  proof (cases "z = 0")
    case True
    then show ?thesis using dpos pos by simp
  next
    case False
    then have "0 < a + c + z" using nn by auto
    moreover have "(a + c) * z \<le> (a + c) * (x + y)" using nn xy by (intro mult_left_mono) auto
    ultimately show ?thesis using dpos by (simp add: divide_le_eq pos_le_divide_eq field_simps)
  qed
  also have "\<dots> = x / ?d + y / ?d" by (simp add: add_divide_distrib)
  also have "x / ?d \<le> x / (a + b + x)"
  proof (cases "x = 0")
    case False
    then have "0 < a + b + x" using nn by auto
    moreover have "a + b + x \<le> ?d" using bc by simp
    ultimately show ?thesis using nn dpos by (intro divide_left_mono) auto
  qed simp
  also have "y / ?d \<le> y / (b + c + y)"
  proof (cases "y = 0")
    case False
    then have "0 < b + c + y" using nn by auto
    moreover have "b + c + y \<le> ?d" using ab by simp
    ultimately show ?thesis using nn dpos by (intro divide_left_mono) auto
  qed simp
  finally show ?thesis by simp
qed

definition sym_diff :: "string list \<Rightarrow> string list \<Rightarrow> string set" where
  "sym_diff l r = (set l - set r) \<union> (set r - set l)"

lemma card_sym_diff_triangle:
  "card (sym_diff l r) \<le> card (sym_diff l m) + card (sym_diff m r)"
proof -
  have "card (sym_diff l r) \<le> card (sym_diff l m \<union> sym_diff m r)"
    by (rule card_mono) (auto simp: sym_diff_def)
  also have "\<dots> \<le> card (sym_diff l m) + card (sym_diff m r)" by (rule card_Un_le)
  finally show ?thesis .
qed

lemma card_le_sym_diff: "card (set r) \<le> card (set l) + card (sym_diff l r)"
proof -
  have "card (set r) \<le> card (set l \<union> sym_diff l r)"
    by (rule card_mono) (auto simp: sym_diff_def)
  also have "\<dots> \<le> card (set l) + card (sym_diff l r)" by (rule card_Un_le)
  finally show ?thesis .
qed

lemma sym_diff_commute: "sym_diff l r = sym_diff r l"
  by (auto simp: sym_diff_def)

lemma card_union_sym_diff:
  "card (set l) + card (set r) + card (sym_diff l r) = 2 * card (set l \<union> set r)"
proof -
  have u: "set l \<union> set r = sym_diff l r \<union> (set l \<inter> set r)" by (auto simp: sym_diff_def)
  have "card (set l \<union> set r) = card (sym_diff l r) + card (set l \<inter> set r)"
    unfolding u by (rule card_Un_disjoint) (auto simp: sym_diff_def)
  moreover have "card (set l) + card (set r) = card (set l \<union> set r) + card (set l \<inter> set r)"
    by (rule card_Un_Int) auto
  ultimately show ?thesis by simp
qed

lemma jaccard_alt:
  "jaccard l r = (if set l \<union> set r = {} then 1 else of_nat (card (set l \<inter> set r)) / of_nat (card (set l \<union> set r)))"
proof -
  have "length (filter (\<lambda>x. x \<in> set l \<and> x \<in> set r) (remdups (l @ r))) = card (set l \<inter> set r)"
    by (subst distinct_card [symmetric]) (auto intro: arg_cong [of _ _ card])
  moreover have "length (remdups (l @ r)) = card (set l \<union> set r)"
    by (metis length_remdups_card_conv set_append)
  ultimately show ?thesis by (auto simp: jaccard_def Let_def)
qed

lemma jaccard_distance:
  "1 - jaccard l r =
     2 * (of_nat (card (sym_diff l r)) /
       (of_nat (card (set l)) + of_nat (card (set r)) + of_nat (card (sym_diff l r))))"
proof (cases "set l \<union> set r = {}")
  case True
  then show ?thesis by (auto simp: jaccard_alt sym_diff_def)
next
  case False
  let ?u = "card (set l \<union> set r)" and ?i = "card (set l \<inter> set r)" and ?d = "card (sym_diff l r)"
  have pos: "0 < ?u" using False by (simp only: card_gt_0_iff) simp
  have "set l \<union> set r = sym_diff l r \<union> (set l \<inter> set r)" by (auto simp: sym_diff_def)
  then have "?u = card (sym_diff l r \<union> (set l \<inter> set r))" by simp
  also have "\<dots> = ?d + ?i"
    by (rule card_Un_disjoint) (auto simp: sym_diff_def)
  finally have u: "?u = ?d + ?i" .
  have "1 - jaccard l r = 1 - of_nat ?i / of_nat ?u" using False by (auto simp: jaccard_alt)
  also have "\<dots> = (of_nat ?u - of_nat ?i) / of_nat ?u" using False by (auto simp: diff_divide_distrib)
  also have "\<dots> = of_nat ?d / of_nat ?u" by (simp add: u)
  finally have j: "1 - jaccard l r = of_nat ?d / of_nat ?u" .
  have "of_nat (card (set l)) + of_nat (card (set r)) + of_nat ?d = (2 * of_nat ?u :: rat)"
    using card_union_sym_diff [of l r] by (metis of_nat_add of_nat_mult of_nat_numeral)
  then show ?thesis by (simp add: j)
qed

lemma jaccard_triangle: "1 - jaccard l r \<le> (1 - jaccard l m) + (1 - jaccard m r)"
  using steinhaus [of "of_nat (card (set l))" "of_nat (card (set m))" "of_nat (card (set r))"
      "of_nat (card (sym_diff l m))" "of_nat (card (sym_diff m r))" "of_nat (card (sym_diff l r))"]
    card_sym_diff_triangle [of l r m] card_le_sym_diff [of m l] card_le_sym_diff [of m r]
  unfolding jaccard_distance
  by (simp flip: of_nat_add add: sym_diff_commute [of r m] distrib_left [symmetric])

lemma jaccard_bounds: "0 \<le> jaccard l r" "jaccard l r \<le> 1"
proof -
  have "card (set l \<inter> set r) \<le> card (set l \<union> set r)" by (rule card_mono) auto
  then show "0 \<le> jaccard l r" "jaccard l r \<le> 1"
    by (auto simp: jaccard_alt divide_le_eq_1 of_nat_le_iff)
qed

lemma jaccard_commute: "jaccard l r = jaccard r l"
  by (simp add: jaccard_alt Un_commute Int_commute)

lemma jaccard_refl: "jaccard l l = 1"
  by (simp add: jaccard_alt)

lemma capped_triangle:
  fixes s t u :: rat
  shows "min 1 (\<bar>s - u\<bar> / 2) \<le> min 1 (\<bar>s - t\<bar> / 2) + min 1 (\<bar>t - u\<bar> / 2)"
  by (auto simp: min_def field_simps)

definition differ :: "'a \<Rightarrow> 'a \<Rightarrow> rat" where
  "differ x y = (if x = y then 0 else 1)"

lemma differ_facts:
  "differ x x = 0" "differ x y = differ y x" "0 \<le> differ x y" "differ x y \<le> 1"
  "differ x z \<le> differ x y + differ y z"
  by (auto simp: differ_def)

lemma genome_distance_alt:
  "genome_distance l r =
     35 / 100 * (1 - jaccard (gn_skills l) (gn_skills r)) +
     35 / 100 * (1 - jaccard (gn_agents l) (gn_agents r)) +
     10 / 100 * min 1 (\<bar>gn_temperature l - gn_temperature r\<bar> / 2) +
     10 / 100 * differ (gn_persona l) (gn_persona r) +
     10 / 100 * differ (gn_topology l) (gn_topology r)"
  by (simp add: genome_distance_def differ_def Let_def)

lemma weighted_mono:
  fixes a b c d e :: rat
  assumes "a \<le> a'" "b \<le> b'" "c \<le> c'" "d \<le> d'" "e \<le> e'"
  shows "35 / 100 * a + 35 / 100 * b + 10 / 100 * c + 10 / 100 * d + 10 / 100 * e \<le>
         35 / 100 * a' + 35 / 100 * b' + 10 / 100 * c' + 10 / 100 * d' + 10 / 100 * e'"
  using assms by (intro add_mono mult_left_mono) auto

lemma weighted_add:
  fixes a b c d e :: rat
  shows "35 / 100 * (a + a') + 35 / 100 * (b + b') + 10 / 100 * (c + c') + 10 / 100 * (d + d') +
           10 / 100 * (e + e') =
         (35 / 100 * a + 35 / 100 * b + 10 / 100 * c + 10 / 100 * d + 10 / 100 * e) +
         (35 / 100 * a' + 35 / 100 * b' + 10 / 100 * c' + 10 / 100 * d' + 10 / 100 * e')"
  by (simp add: field_simps)

lemma genome_distance_bounds: "0 \<le> genome_distance g h" "genome_distance g h \<le> 1"
proof -
  have b: "0 \<le> 1 - jaccard l r" "1 - jaccard l r \<le> 1" for l r
    using jaccard_bounds [of l r] by auto
  have t: "0 \<le> min 1 (\<bar>gn_temperature g - gn_temperature h\<bar> / 2)"
    "min 1 (\<bar>gn_temperature g - gn_temperature h\<bar> / 2) \<le> 1" by auto
  have "35 / 100 * 0 + 35 / 100 * 0 + 10 / 100 * 0 + 10 / 100 * 0 + 10 / 100 * 0 \<le> genome_distance g h"
    unfolding genome_distance_alt by (intro weighted_mono b t differ_facts)
  then show "0 \<le> genome_distance g h" by simp
  have "genome_distance g h \<le> 35 / 100 * 1 + 35 / 100 * 1 + 10 / 100 * 1 + 10 / 100 * 1 + 10 / 100 * 1"
    unfolding genome_distance_alt by (intro weighted_mono b t differ_facts)
  then show "genome_distance g h \<le> 1" by simp
qed

lemma genome_distance_triangle: "genome_distance g k \<le> genome_distance g h + genome_distance h k"
  unfolding genome_distance_alt weighted_add [symmetric]
  by (intro weighted_mono jaccard_triangle capped_triangle differ_facts(5))

lemma genome_distance_commute: "genome_distance h g = genome_distance g h"
  unfolding genome_distance_alt
  by (simp add: jaccard_commute abs_minus_commute differ_facts(2) del: min_less_iff_conj)

lemma genome_distance_refl: "genome_distance g g = 0"
  by (simp add: genome_distance_alt jaccard_refl differ_facts(1))

text \<open>
  C30: The distance of genomes is a pseudometric with values from 0 to 1: symmetric, 0 between a genome
  and itself, and subject to the triangle inequality.
\<close>

theorem genome_distance_metric:
  "genome_distance g g = 0 \<and> 0 \<le> genome_distance g h \<and> genome_distance g h \<le> 1 \<and>
   genome_distance h g = genome_distance g h \<and>
   genome_distance g k \<le> genome_distance g h + genome_distance h k"
  using genome_distance_refl genome_distance_bounds genome_distance_commute genome_distance_triangle
  by metis

lemma average_bounds:
  fixes f :: "'a \<Rightarrow> rat"
  assumes "\<And>x. x \<in> set xs \<Longrightarrow> 0 \<le> f x \<and> f x \<le> 1"
  shows "0 \<le> sum_list (map f xs)" "sum_list (map f xs) \<le> of_nat (length xs)"
  using assms by (induction xs) (fastforce simp: add_mono)+

lemma archive_novelty_bounds: "0 \<le> archive_novelty g a \<and> archive_novelty g a \<le> 1"
proof -
  have d: "0 \<le> genome_distance g (sg_genome s) \<and> genome_distance g (sg_genome s) \<le> 1" for s
    by (simp add: genome_distance_bounds)
  note avg = average_bounds [of "dict_values a" "\<lambda>s. genome_distance g (sg_genome s)", OF d]
  show ?thesis
    using avg by (auto simp: archive_novelty_def divide_le_eq_1 dict_values_def)
qed

subsection \<open>Genes stay in their range\<close>

lemma first_step_range: "0 \<le> t \<Longrightarrow> t \<le> 2 \<Longrightarrow> 0 \<le> first_step t ds \<and> first_step t ds \<le> 2"
  by (induction t ds rule: first_step.induct) (auto simp: Let_def)

lemma first_step_moves:
  "d \<in> set ds \<Longrightarrow> min 2 (max 0 (py_round 4 (t + d))) \<noteq> t \<Longrightarrow> first_step t ds \<noteq> t"
  by (induction t ds rule: first_step.induct) (auto simp: Let_def)

lemma jitter_temperature_ok:
  assumes "jitter_temperature t r = (t', r')" "0 \<le> t" "t \<le> 2"
  shows "t' \<noteq> t \<and> 0 \<le> t' \<and> t' \<le> 2"
proof -
  obtain ds where ds: "shuffle_list temperature_steps r = (ds, r')" "t' = first_step t ds"
    using assms(1) by (auto simp: jitter_temperature_def split: prod.splits)
  then have "set ds = set temperature_steps" by (metis shuffle_list_mset set_mset_mset)
  then have mem: "1 / 10 \<in> set ds" "- 1 / 10 \<in> set ds" by (auto simp: temperature_steps_def)
  have "t' \<noteq> t"
  proof (cases "t < 2")
    case True
    then have "min 2 (max 0 (py_round 4 (t + 1 / 10))) \<noteq> t"
      using py_round_near(1) [of "t + 1 / 10" 4] assms(2) by (auto simp: min_def max_def)
    then show ?thesis using first_step_moves [OF mem(1)] ds(2) by simp
  next
    case False
    then have "min 2 (max 0 (py_round 4 (t + - 1 / 10))) \<noteq> t"
      using py_round_near(2) [of 4 "t + - 1 / 10"] assms(3) by (auto simp: min_def max_def)
    then show ?thesis using first_step_moves [OF mem(2)] ds(2) by simp
  qed
  then show ?thesis using first_step_range assms(2,3) ds(2) by simp
qed

lemma jitter_budget_ok:
  "jitter_budget b r = (b', r') \<Longrightarrow> b' \<noteq> b \<and> 1 \<le> b' \<and> b' \<le> 200000"
  by (auto simp: jitter_budget_def Let_def min_def max_def split: prod.splits if_splits)

lemma mutate_topology_ok:
  assumes "mutate_topology t r = (t', r')" "t \<in> set topologies"
  shows "t' \<noteq> t \<and> t' \<in> set topologies"
proof -
  have "filter (\<lambda>x. x \<noteq> t) topologies \<noteq> []" by (auto simp: topologies_def)
  then have "t' \<in> set (filter (\<lambda>x. x \<noteq> t) topologies)"
    using assms(1) choice_in [of "filter (\<lambda>x. x \<noteq> t) topologies" r t' r']
    by (simp add: mutate_topology_def)
  then show ?thesis by simp
qed

lemma mutate_persona_ok:
  assumes "mutate_persona t r = (t', r')"
  shows "t' \<noteq> t \<and> t' \<in> set persona_pool"
proof -
  have "filter (\<lambda>x. x \<noteq> t) persona_pool \<noteq> []" by (auto simp: persona_pool_def)
  then have "t' \<in> set (filter (\<lambda>x. x \<noteq> t) persona_pool)"
    using assms choice_in [of "filter (\<lambda>x. x \<noteq> t) persona_pool" r t' r']
    by (simp add: mutate_persona_def)
  then show ?thesis by simp
qed

subsection \<open>A mutant is a valid genome that differs\<close>

definition genes_changed :: "genome \<Rightarrow> genome \<Rightarrow> nat" where
  "genes_changed g m =
     length (filter id [gn_skills m \<noteq> gn_skills g, gn_agents m \<noteq> gn_agents g,
       gn_temperature m \<noteq> gn_temperature g, gn_persona m \<noteq> gn_persona g,
       gn_topology m \<noteq> gn_topology g, gn_budget m \<noteq> gn_budget g])"

definition valid_genome :: "genome \<Rightarrow> bool" where
  "valid_genome g \<longleftrightarrow> check_genome g = Inr g"

lemma valid_genome_iff:
  "valid_genome g \<longleftrightarrow> gn_topology g \<in> set topologies \<and> 0 \<le> gn_temperature g \<and> gn_temperature g \<le> 2 \<and>
     0 < gn_budget g"
  by (auto simp: valid_genome_def check_genome_def)

lemma length_filter_id: "length (filter id bs) = sum_list (map of_bool bs)"
  by (induction bs) auto

lemma genes_changed_alt:
  "genes_changed g m =
     of_bool (gn_skills m \<noteq> gn_skills g) + (of_bool (gn_agents m \<noteq> gn_agents g) +
     (of_bool (gn_temperature m \<noteq> gn_temperature g) + (of_bool (gn_persona m \<noteq> gn_persona g) +
     (of_bool (gn_topology m \<noteq> gn_topology g) + of_bool (gn_budget m \<noteq> gn_budget g)))))"
  by (simp only: genes_changed_def length_filter_id list.map sum_list.Cons sum_list.Nil add_0_right)

lemma genes_changed_zero: "genes_changed g m = 0 \<longleftrightarrow> m = g"
  by (cases g; cases m) (simp add: genes_changed_alt)

lemma of_bool_triangle: "(of_bool (k \<noteq> g) :: nat) \<le> of_bool (m \<noteq> g) + of_bool (k \<noteq> m)"
  by auto

lemma six_mono:
  fixes a1 :: nat
  assumes "a1 \<le> b1 + c1" "a2 \<le> b2 + c2" "a3 \<le> b3 + c3" "a4 \<le> b4 + c4" "a5 \<le> b5 + c5" "a6 \<le> b6 + c6"
  shows "a1 + (a2 + (a3 + (a4 + (a5 + a6)))) \<le>
    (b1 + (b2 + (b3 + (b4 + (b5 + b6))))) + (c1 + (c2 + (c3 + (c4 + (c5 + c6)))))"
  using assms by linarith

lemma genes_changed_triangle: "genes_changed g k \<le> genes_changed g m + genes_changed m k"
  unfolding genes_changed_alt by (rule six_mono) (rule of_bool_triangle)+

definition closed_nb :: "neighbor_map \<Rightarrow> (string \<Rightarrow> bool) \<Rightarrow> bool" where
  "closed_nb nb P \<longleftrightarrow> (\<forall>v w. P v \<longrightarrow> w \<in> set (dict_get nb v []) \<longrightarrow> P w)"

lemma mutate_sequence_sound:
  assumes "mutate_sequence nb vs r = (ws, r')"
    and "closed_nb nb P"
  shows "length ws = length vs \<and> (list_all P vs \<longrightarrow> list_all P ws)"
proof (cases "vs = []")
  case True
  then show ?thesis using assms(1) by (simp add: mutate_sequence_def)
next
  case False
  obtain i r1 where i: "randbelow (length vs) r = (i, r1)" by (cases "randbelow (length vs) r")
  obtain v r2 where v: "pick_neighbor (vs ! i) (dict_get nb (vs ! i) []) r1 = (v, r2)"
    by (cases "pick_neighbor (vs ! i) (dict_get nb (vs ! i) []) r1")
  have re: "reorder_if_needed (vs[i := v]) r2 = (ws, r')"
    using assms(1) False i v by (simp add: mutate_sequence_def)
  have len: "i < length vs" using i False by (auto simp: randbelow_def)
  have mws: "mset ws = mset (vs[i := v])"
    using re shuffle_list_mset
    by (auto simp: reorder_if_needed_def split: if_splits prod.splits)
  have vin: "v = vs ! i \<or> v \<in> set (dict_get nb (vs ! i) [])"
    using v choice_in [of "filter (\<lambda>c. c \<noteq> vs ! i) (dict_get nb (vs ! i) [])" r1 v r2]
    by (auto simp: pick_neighbor_def Let_def split: if_splits)
  have "list_all P ws" if "list_all P vs"
  proof -
    have "P (vs ! i)" using that len by (simp add: list_all_length)
    then have "P v" using vin assms(2) unfolding closed_nb_def by blast
    then have "list_all P (vs[i := v])"
      using that set_update_subset_insert [of vs i v] by (auto simp: list_all_iff)
    moreover have "set ws = set (vs[i := v])" using mws by (rule mset_eq_setD)
    ultimately show ?thesis by (simp add: list_all_iff)
  qed
  moreover have "length ws = length vs" using mset_eq_length [OF mws] by simp
  ultimately show ?thesis by blast
qed

definition mutant_ok :: "(string \<Rightarrow> bool) \<Rightarrow> (string \<Rightarrow> bool) \<Rightarrow> genome \<Rightarrow> genome \<Rightarrow> bool" where
  "mutant_ok P Q g m \<longleftrightarrow>
     valid_genome m \<and> length (gn_skills m) = length (gn_skills g) \<and>
     length (gn_agents m) = length (gn_agents g) \<and>
     (list_all P (gn_skills g) \<longrightarrow> list_all P (gn_skills m)) \<and>
     (list_all Q (gn_agents g) \<longrightarrow> list_all Q (gn_agents m))"

lemma mutant_ok_trans: "mutant_ok P Q g m \<Longrightarrow> mutant_ok P Q m k \<Longrightarrow> mutant_ok P Q g k"
  by (simp add: mutant_ok_def)

lemma temperature_changes: "t \<noteq> gn_temperature g \<Longrightarrow> g\<lparr>gn_temperature := t\<rparr> \<noteq> (g :: genome)"
  by (cases g) simp

lemma one_of_five:
  "(k = a \<Longrightarrow> T) \<Longrightarrow> (k = b \<Longrightarrow> T) \<Longrightarrow> (k = c \<Longrightarrow> T) \<Longrightarrow> (k = d \<Longrightarrow> T) \<Longrightarrow> (k = e \<Longrightarrow> T) \<Longrightarrow>
   (k \<notin> {a, b, c, d, e} \<Longrightarrow> T) \<Longrightarrow> T"
  by blast

lemma apply_gene_mutation_sound:
  assumes "valid_genome g"
    and P: "closed_nb nb P" and Q: "closed_nb nb Q"
  obtains m r' where "apply_gene_mutation nb g k r = (Inr m, r')" "mutant_ok P Q g m"
    "genes_changed g m \<le> 1" "k = ''temperature'' \<Longrightarrow> m \<noteq> g"
proof -
  note v = assms(1) [unfolded valid_genome_iff]
  have c: "check_genome m = Inr m" if "valid_genome m" for m using that by (simp add: valid_genome_def)
  note d = genes_changed_alt mutant_ok_def valid_genome_iff
  consider "k = ''skills''" | "k = ''agents''" | "k = ''temperature''" | "k = ''persona''"
    | "k = ''topology''" | "k \<notin> {''skills'', ''agents'', ''temperature'', ''persona'', ''topology''}"
    by (rule one_of_five [of k "''skills''" _ "''agents''" "''temperature''" "''persona''" "''topology''"])
  then show thesis
  proof cases
    case 1
    obtain ws r' where w: "mutate_sequence nb (gn_skills g) r = (ws, r')"
      by (cases "mutate_sequence nb (gn_skills g) r")
    show thesis
      using v that [of "g\<lparr>gn_skills := ws\<rparr>" r'] mutate_sequence_sound [OF w P] w 1
      by (auto simp: apply_gene_mutation_def c d)
  next
    case 2
    obtain ws r' where w: "mutate_sequence nb (gn_agents g) r = (ws, r')"
      by (cases "mutate_sequence nb (gn_agents g) r")
    show thesis
      using v that [of "g\<lparr>gn_agents := ws\<rparr>" r'] mutate_sequence_sound [OF w Q] w 2
      by (auto simp: apply_gene_mutation_def c d)
  next
    case 3
    obtain t r' where w: "jitter_temperature (gn_temperature g) r = (t, r')"
      by (cases "jitter_temperature (gn_temperature g) r")
    show thesis
      using v that [of "g\<lparr>gn_temperature := t\<rparr>" r'] jitter_temperature_ok [OF w] w 3
        temperature_changes [of t g]
      by (auto simp: apply_gene_mutation_def c d)
  next
    case 4
    obtain t r' where w: "mutate_persona (gn_persona g) r = (t, r')"
      by (cases "mutate_persona (gn_persona g) r")
    show thesis
      using v that [of "g\<lparr>gn_persona := t\<rparr>" r'] w 4
      by (auto simp: apply_gene_mutation_def c d)
  next
    case 5
    obtain t r' where w: "mutate_topology (gn_topology g) r = (t, r')"
      by (cases "mutate_topology (gn_topology g) r")
    show thesis
      using v that [of "g\<lparr>gn_topology := t\<rparr>" r'] mutate_topology_ok [OF w] w 5
      by (auto simp: apply_gene_mutation_def c d)
  next
    case 6
    obtain t r' where w: "jitter_budget (gn_budget g) r = (t, r')"
      by (cases "jitter_budget (gn_budget g) r")
    show thesis
      using v that [of "g\<lparr>gn_budget := t\<rparr>" r'] jitter_budget_ok [OF w] w 6
      by (auto simp: apply_gene_mutation_def c d)
  qed
qed

lemma apply_kinds_sound:
  assumes "valid_genome g"
    and P: "closed_nb nb P" and Q: "closed_nb nb Q"
  shows "\<exists>m r'. apply_kinds nb g ks r = (Inr m, r') \<and> mutant_ok P Q g m \<and> genes_changed g m \<le> length ks"
  using assms(1)
proof (induction ks arbitrary: g r)
  case Nil
  then show ?case by (simp add: mutant_ok_def genes_changed_alt)
next
  case (Cons k ks)
  obtain m r1 where m: "apply_gene_mutation nb g k r = (Inr m, r1)" "mutant_ok P Q g m" "genes_changed g m \<le> 1"
    using apply_gene_mutation_sound [OF Cons.prems P Q] by metis
  then have "valid_genome m" by (simp add: mutant_ok_def)
  then obtain n r2 where n: "apply_kinds nb m ks r1 = (Inr n, r2)" "mutant_ok P Q m n" "genes_changed m n \<le> length ks"
    using Cons.IH by blast
  show ?case
    using m n mutant_ok_trans [OF m(2) n(2)] genes_changed_triangle [of g n m] by simp
qed

lemma mutate_sound_for:
  assumes "valid_genome g"
    and P: "closed_nb nb P" and Q: "closed_nb nb Q"
  shows "\<exists>m r'. mutate nb g r = (Inr m, r') \<and> mutant_ok P Q g m \<and> m \<noteq> g \<and> genes_changed g m \<le> 2"
proof -
  obtain n r1 where n: "mutation_count r = (n, r1)" by (cases "mutation_count r")
  then have "n \<le> 2" by (auto simp: mutation_count_def split: prod.splits if_splits)
  obtain ks r2 where ks: "sample_pool n 6 gene_kinds r1 = (ks, r2)" by (cases "sample_pool n 6 gene_kinds r1")
  then have "length ks \<le> 2" using sample_pool_length [OF ks] \<open>n \<le> 2\<close> by simp
  obtain m r3 where m: "apply_kinds nb g ks r2 = (Inr m, r3)" "mutant_ok P Q g m" "genes_changed g m \<le> length ks"
    using apply_kinds_sound [OF assms] by blast
  obtain t r4 where t: "apply_gene_mutation nb g ''temperature'' r3 = (Inr t, r4)" "mutant_ok P Q g t"
      "genes_changed g t \<le> 1" "t \<noteq> g"
    using apply_gene_mutation_sound [OF assms] by metis
  show ?thesis
    using n ks m t \<open>length ks \<le> 2\<close> by (auto simp: mutate_def)
qed

text \<open>
  C28: Whatever the generator draws, a mutant of a valid genome is a valid genome that differs from it in
  one or two genes and has as many skills and agents.
\<close>

theorem mutate_sound:
  assumes "valid_genome g"
  shows "case mutate nb g r of
      (Inl _, _) \<Rightarrow> False
    | (Inr m, _) \<Rightarrow> valid_genome m \<and> genes_changed g m \<in> {1, 2} \<and>
        length (gn_skills m) = length (gn_skills g) \<and> length (gn_agents m) = length (gn_agents g)"
proof -
  obtain m r' where m: "mutate nb g r = (Inr m, r')" "mutant_ok (\<lambda>_. True) (\<lambda>_. True) g m" "m \<noteq> g"
      "genes_changed g m \<le> 2"
    using mutate_sound_for [OF assms, of nb "\<lambda>_. True" "\<lambda>_. True" r]
    by (auto simp: closed_nb_def)
  then have "genes_changed g m \<noteq> 0" by (simp add: genes_changed_zero)
  then show ?thesis using m by (auto simp: mutant_ok_def)
qed


theorem mutate_sound_witness:
  "let g = \<lparr>gn_skills = [''evolve''], gn_agents = [''evolve''], gn_temperature = 2, gn_persona = [],
       gn_topology = ''debate'', gn_budget = 200000\<rparr>
   in case mutate [] g \<lparr>rg_nat = id, rg_rat = (\<lambda>_. 1 / 2), rg_pos = 0\<rparr> of
      (Inl _, _) \<Rightarrow> False
    | (Inr m, _) \<Rightarrow> valid_genome m \<and> genes_changed g m \<in> {1, 2} \<and>
        length (gn_skills m) = length (gn_skills g) \<and> length (gn_agents m) = length (gn_agents g)"
  unfolding Let_def
  by (rule mutate_sound) (simp add: valid_genome_iff topologies_def)

subsection \<open>Neighbours\<close>

lemma add_neighbors_get:
  "set (dict_get (add_neighbors n xs m) k []) = (if k = n then set (dict_get m n []) \<union> set xs else set (dict_get m k []))"
  by (simp add: add_neighbors_def)

lemma distinct_add_neighbors:
  "distinct (map fst m) \<Longrightarrow> distinct (map fst (add_neighbors n xs m))"
  by (simp add: add_neighbors_def distinct_update)

lemma foldl_add_neighbors_get:
  "set (dict_get (foldl (\<lambda>m x. add_neighbors (f x) (g x) m) m xs) k []) =
     set (dict_get m k []) \<union> (\<Union>x \<in> {x \<in> set xs. f x = k}. set (g x))"
  by (induction xs arbitrary: m) (auto simp: add_neighbors_get split: if_splits)

lemma distinct_foldl_add_neighbors:
  "distinct (map fst m) \<Longrightarrow> distinct (map fst (foldl (\<lambda>m x. add_neighbors (f x) (g x) m) m xs))"
  by (induction xs arbitrary: m) (auto simp: distinct_add_neighbors)

definition add_group :: "neighbor_map \<Rightarrow> string \<times> string list \<Rightarrow> neighbor_map" where
  "add_group m p = foldl (\<lambda>m s. add_neighbors s (filter (\<lambda>x. x \<noteq> s) (snd p)) m) m (snd p)"

definition skill_neighbors :: "(string \<times> string list) list \<Rightarrow> neighbor_map" where
  "skill_neighbors ds = foldl add_group [] ds"

definition related_agents :: "(string \<times> string list) list \<Rightarrow> string \<times> string list \<Rightarrow> string list" where
  "related_agents ak p =
     map fst (filter (\<lambda>(other, kws). other \<noteq> fst p \<and> (\<exists>k \<in> set (snd p). k \<in> set kws)) ak)"

lemma related_agents_set:
  "a \<in> set (related_agents ak p) \<longleftrightarrow> (\<exists>kws. (a, kws) \<in> set ak \<and> a \<noteq> fst p \<and> set (snd p) \<inter> set kws \<noteq> {})"
  by (auto simp: related_agents_def) force

definition all_neighbors :: "(string \<times> string list) list \<Rightarrow> (string \<times> string list) list \<Rightarrow> neighbor_map" where
  "all_neighbors ds ak = foldl (\<lambda>m p. add_neighbors (fst p) (related_agents ak p) m) (skill_neighbors ds) ak"

lemma build_semantic_neighbors_alt:
  "build_semantic_neighbors ds ak = map (\<lambda>(n, v). (n, sort v)) (sort_key fst (all_neighbors ds ak))"
proof -
  have g: "(\<lambda>m (_, skills). foldl (\<lambda>m skill. add_neighbors skill (filter (\<lambda>s. s \<noteq> skill) skills) m) m skills) = add_group"
    by (auto simp: fun_eq_iff add_group_def)
  have r: "(\<lambda>m (agent, keywords). add_neighbors agent
      (map fst (filter (\<lambda>(other, kws). other \<noteq> agent \<and> (\<exists>k \<in> set keywords. k \<in> set kws)) ak)) m) =
      (\<lambda>m p. add_neighbors (fst p) (related_agents ak p) m)"
    by (auto simp: fun_eq_iff related_agents_def)
  show ?thesis
    unfolding build_semantic_neighbors_def Let_def g r
    by (simp add: all_neighbors_def skill_neighbors_def)
qed

lemma add_group_get:
  "distinct (map fst m) \<Longrightarrow> distinct (map fst (add_group m p))"
  "set (dict_get (add_group m p) k []) =
     set (dict_get m k []) \<union> {s. k \<in> set (snd p) \<and> s \<in> set (snd p) \<and> s \<noteq> k}"
  unfolding add_group_def
  by (auto simp: distinct_foldl_add_neighbors foldl_add_neighbors_get)

lemma skill_neighbors_get:
  "distinct (map fst (skill_neighbors ds))"
  "set (dict_get (skill_neighbors ds) k []) =
     {s. \<exists>d skills. (d, skills) \<in> set ds \<and> k \<in> set skills \<and> s \<in> set skills \<and> s \<noteq> k}"
proof -
  have "distinct (map fst m) \<Longrightarrow> distinct (map fst (foldl add_group m ds))" for m
    by (induction ds arbitrary: m) (auto simp: add_group_get(1))
  then show "distinct (map fst (skill_neighbors ds))" by (simp add: skill_neighbors_def)
  have "set (dict_get (foldl add_group m ds) k []) = set (dict_get m k []) \<union>
     {s. \<exists>p \<in> set ds. k \<in> set (snd p) \<and> s \<in> set (snd p) \<and> s \<noteq> k}" for m
    by (induction ds arbitrary: m) (auto simp: add_group_get(2))
  from this [of "[]"] show "set (dict_get (skill_neighbors ds) k []) =
     {s. \<exists>d skills. (d, skills) \<in> set ds \<and> k \<in> set skills \<and> s \<in> set skills \<and> s \<noteq> k}"
    by (fastforce simp: skill_neighbors_def dict_get_def)
qed

lemma sorted_values_get:
  fixes m :: neighbor_map
  assumes "distinct (map fst m)"
  shows "set (dict_get (map (\<lambda>(n, v). (n, sort v)) (sort_key fst m)) k []) = set (dict_get m k [])"
proof -
  have "map_of (sort_key fst m) = map_of m"
  proof (rule map_of_inject_set [THEN iffD2])
    show "distinct (map fst (sort_key fst m))"
      using assms distinct_map [of fst m] distinct_map [of fst "sort_key fst m"] by simp
  qed (use assms in auto)
  moreover have "map_of (map (\<lambda>(n, v). (n, sort v)) xs) k = map_option sort (map_of xs k)" for xs :: "(string \<times> string list) list"
    by (induction xs) auto
  ultimately show ?thesis by (simp add: dict_get_def split: option.split)
qed

text \<open>The neighbours of a name, as a set\<close>

theorem build_semantic_neighbors_exact:
  "set (dict_get (build_semantic_neighbors ds ak) k []) =
     {s. \<exists>d skills. (d, skills) \<in> set ds \<and> k \<in> set skills \<and> s \<in> set skills \<and> s \<noteq> k} \<union>
     {a. \<exists>kws kwa. (k, kws) \<in> set ak \<and> (a, kwa) \<in> set ak \<and> a \<noteq> k \<and> set kws \<inter> set kwa \<noteq> {}}"
proof -
  have "distinct (map fst (all_neighbors ds ak))"
    unfolding all_neighbors_def by (intro distinct_foldl_add_neighbors skill_neighbors_get)
  then have "set (dict_get (build_semantic_neighbors ds ak) k []) = set (dict_get (all_neighbors ds ak) k [])"
    by (simp only: build_semantic_neighbors_alt sorted_values_get)
  also have "\<dots> = {s. \<exists>d skills. (d, skills) \<in> set ds \<and> k \<in> set skills \<and> s \<in> set skills \<and> s \<noteq> k} \<union>
      (\<Union>p \<in> {p \<in> set ak. fst p = k}. set (related_agents ak p))"
    by (simp only: all_neighbors_def foldl_add_neighbors_get skill_neighbors_get)
  also have "(\<Union>p \<in> {p \<in> set ak. fst p = k}. set (related_agents ak p)) =
     {a. \<exists>kws kwa. (k, kws) \<in> set ak \<and> (a, kwa) \<in> set ak \<and> a \<noteq> k \<and> set kws \<inter> set kwa \<noteq> {}}"
    unfolding set_eq_iff UN_iff related_agents_set by (auto; metis)
  finally show ?thesis .
qed

subsection \<open>The registered skills and agents\<close>

lemma build_skill_domains_first:
  "map_of (build_skill_domains ds) s = map_option fst (List.find (\<lambda>p. s \<in> set (snd p)) ds)"
proof -
  have inner: "map_of (foldl (\<lambda>m skill. if map_of m skill = None then AList.update skill d m else m) m skills) s =
      (case map_of m s of None \<Rightarrow> if s \<in> set skills then Some d else None | Some x \<Rightarrow> Some x)"
    for m :: "(string \<times> string) list" and d skills
    by (induction skills arbitrary: m) (auto simp: update_conv split: option.split)
  have "map_of (foldl (\<lambda>m (d, skills). foldl (\<lambda>m skill. if map_of m skill = None then AList.update skill d m else m) m skills) m ds) s =
      (case map_of m s of None \<Rightarrow> map_option fst (List.find (\<lambda>p. s \<in> set (snd p)) ds) | Some x \<Rightarrow> Some x)"
    for m :: "(string \<times> string) list"
    by (induction ds arbitrary: m) (auto simp: inner split: option.split)
  from this [of "[]"] show ?thesis by (simp add: build_skill_domains_def)
qed

lemma find_none_iff: "List.find P xs = None \<longleftrightarrow> list_all (\<lambda>x. \<not> P x) xs"
  by (induction xs) auto

definition in_domains :: "string \<Rightarrow> bool" where
  "in_domains s \<longleftrightarrow> list_ex (\<lambda>p. s \<in> set (snd p)) domain_skills"

lemma in_domains_iff: "in_domains s \<longleftrightarrow> s \<in> set (map fst (build_skill_domains domain_skills))"
proof -
  have "in_domains s \<longleftrightarrow> map_of (build_skill_domains domain_skills) s \<noteq> None"
    by (auto simp: build_skill_domains_first find_none_iff in_domains_def list_ex_iff list_all_iff)
  then show ?thesis by (simp add: map_of_eq_None_iff)
qed

lemma agent_overlaps:
  "list_all (\<lambda>(k, kws). list_all (\<lambda>(a, kwa).
     a = k \<or> list_all (\<lambda>w. w \<notin> set kwa) kws \<or>
     (k = ''builder'' \<and> a = ''scientist'') \<or> (k = ''scientist'' \<and> a = ''builder'')) agent_keywords) agent_keywords"
  by code_simp

lemma agents_not_skills:
  "list_all (\<lambda>a. \<not> in_domains a \<and> a \<notin> set (map fst skill_to_agent)) [''builder'', ''scientist'', ''guardian'']"
  by code_simp

lemma registered_neighbors:
  assumes "w \<in> set (dict_get (build_semantic_neighbors domain_skills agent_keywords) v [])"
  shows "in_domains v \<and> in_domains w \<or> v = ''builder'' \<and> w = ''scientist'' \<or> v = ''scientist'' \<and> w = ''builder''"
proof -
  consider d sk where "(d, sk) \<in> set domain_skills" "v \<in> set sk" "w \<in> set sk"
    | kws kwa where "(v, kws) \<in> set agent_keywords" "(w, kwa) \<in> set agent_keywords" "w \<noteq> v" "set kws \<inter> set kwa \<noteq> {}"
    using assms unfolding build_semantic_neighbors_exact by blast
  then show ?thesis
  proof cases
    case 1
    then have "in_domains v" "in_domains w" by (force simp: in_domains_def list_ex_iff)+
    then show ?thesis by blast
  next
    case 2
    then show ?thesis using agent_overlaps by (fastforce simp: list_all_iff)
  qed
qed

definition registered :: "string list \<Rightarrow> allowlist" where
  "registered names = default_allowlist skill_to_agent domain_skills agent_keywords names"

lemma registered_skills: "s \<in> set (al_skills (registered names)) \<longleftrightarrow> s \<in> set (map fst skill_to_agent) \<or> in_domains s"
  by (simp add: registered_def default_allowlist_def in_domains_iff)

lemma registered_agents:
  "a \<in> set (al_agents (registered names)) \<longleftrightarrow>
     a \<in> {''builder'', ''scientist'', ''guardian'', ''evolve''} \<or> a \<in> set names"
  by (auto simp: registered_def default_allowlist_def agent_keywords_def)

lemma allowlist_ok_iff:
  "first_allowlist_violation g al = None \<longleftrightarrow>
     list_all (\<lambda>s. s \<in> set (al_skills al)) (gn_skills g) \<and> list_all (\<lambda>a. a \<in> set (al_agents al)) (gn_agents g)"
  by (auto simp: first_allowlist_violation_def Let_def list_all_iff filter_empty_conv)

definition names_disjoint :: "string list \<Rightarrow> bool" where
  "names_disjoint names \<longleftrightarrow> list_all (\<lambda>n. n = ''evolve'' \<or> \<not> in_domains n) names"

lemma skills_closed:
  "closed_nb (build_semantic_neighbors domain_skills agent_keywords) (\<lambda>s. s \<in> set (al_skills (registered names)))"
proof -
  have "w \<in> set (al_skills (registered names))"
    if v: "v \<in> set (al_skills (registered names))"
      and w: "w \<in> set (dict_get (build_semantic_neighbors domain_skills agent_keywords) v [])" for v w
  proof -
    have "v \<noteq> ''builder''" "v \<noteq> ''scientist''"
      using v agents_not_skills unfolding registered_skills by auto
    then show ?thesis using registered_neighbors [OF w] by (simp add: registered_skills)
  qed
  then show ?thesis unfolding closed_nb_def by blast
qed

lemma agents_closed:
  assumes "names_disjoint names"
  shows "closed_nb (build_semantic_neighbors domain_skills agent_keywords)
    (\<lambda>a. a \<in> set (al_agents (registered names)) \<and> a \<noteq> ''evolve'')"
proof -
  have "w \<in> set (al_agents (registered names)) \<and> w \<noteq> ''evolve''"
    if v: "v \<in> set (al_agents (registered names))" "v \<noteq> ''evolve''"
      and w: "w \<in> set (dict_get (build_semantic_neighbors domain_skills agent_keywords) v [])" for v w
  proof -
    have "\<not> in_domains v"
      using v assms agents_not_skills
      by (auto simp: registered_agents names_disjoint_def list_all_iff)
    then have "w = ''scientist'' \<or> w = ''builder''" using registered_neighbors [OF w] by blast
    then show ?thesis by (auto simp: registered_agents)
  qed
  then show ?thesis unfolding closed_nb_def by blast
qed

text \<open>
  With the registries of the repository, a mutant of a genome of registered skills and agents, none
  of them the agent \<open>evolve\<close>, again has registered skills and agents.
\<close>

theorem mutate_keeps_allowlist:
  assumes "valid_genome g" "names_disjoint names" "''evolve'' \<notin> set (gn_agents g)"
    and "first_allowlist_violation g (registered names) = None"
  shows "case mutate (build_semantic_neighbors domain_skills agent_keywords) g r of
      (Inl _, _) \<Rightarrow> False
    | (Inr m, _) \<Rightarrow> first_allowlist_violation m (registered names) = None \<and> ''evolve'' \<notin> set (gn_agents m)"
proof -
  let ?P = "\<lambda>s. s \<in> set (al_skills (registered names))"
  let ?Q = "\<lambda>a. a \<in> set (al_agents (registered names)) \<and> a \<noteq> ''evolve''"
  obtain m r' where m: "mutate (build_semantic_neighbors domain_skills agent_keywords) g r = (Inr m, r')"
      "mutant_ok ?P ?Q g m"
    using mutate_sound_for [OF assms(1) skills_closed agents_closed [OF assms(2)], of r] by blast
  have "list_all ?P (gn_skills g)" "list_all ?Q (gn_agents g)"
    using assms(3,4) by (auto simp: allowlist_ok_iff list_all_iff)
  then have "list_all ?P (gn_skills m)" "list_all ?Q (gn_agents m)"
    using m(2) unfolding mutant_ok_def by blast+
  then show ?thesis using m(1) by (auto simp: allowlist_ok_iff list_all_iff)
qed

theorem mutate_keeps_allowlist_witness:
  "let g = \<lparr>gn_skills = [''rust-lang'', ''evolve''], gn_agents = [''builder''], gn_temperature = 1, gn_persona = [],
       gn_topology = ''fanout'', gn_budget = 4000\<rparr>
   in case mutate (build_semantic_neighbors domain_skills agent_keywords) g
        \<lparr>rg_nat = id, rg_rat = (\<lambda>_. 1 / 2), rg_pos = 0\<rparr> of
      (Inl _, _) \<Rightarrow> False
    | (Inr m, _) \<Rightarrow> first_allowlist_violation m (registered [''architect'', ''evolve'']) = None \<and> ''evolve'' \<notin> set (gn_agents m)"
proof -
  let ?g = "\<lparr>gn_skills = [''rust-lang'', ''evolve''], gn_agents = [''builder''], gn_temperature = 1, gn_persona = [],
       gn_topology = ''fanout'', gn_budget = 4000\<rparr>"
  have v: "valid_genome ?g" by (simp add: valid_genome_iff topologies_def)
  have d: "names_disjoint [''architect'', ''evolve'']" by code_simp
  have e: "''evolve'' \<notin> set (gn_agents ?g)" by simp
  have a: "first_allowlist_violation ?g (registered [''architect'', ''evolve'']) = None" by code_simp
  show ?thesis unfolding Let_def by (rule mutate_keeps_allowlist [OF v d e a])
qed

lemma evolve_groups:
  "list_all (\<lambda>p. ''evolve'' \<notin> set (snd p) \<or> snd p = [''evolve'', ''skill-engineering'', ''frontier-engineering'']) domain_skills"
  by code_simp

lemma evolve_neighbors:
  "w \<in> set (dict_get (build_semantic_neighbors domain_skills agent_keywords) ''evolve'' []) \<Longrightarrow>
     w = ''skill-engineering'' \<or> w = ''frontier-engineering''"
  "''skill-engineering'' \<in> set (dict_get (build_semantic_neighbors domain_skills agent_keywords) ''evolve'' [])"
proof -
  assume a: "w \<in> set (dict_get (build_semantic_neighbors domain_skills agent_keywords) ''evolve'' [])"
  then consider d sk where "(d, sk) \<in> set domain_skills" "''evolve'' \<in> set sk" "w \<in> set sk" "w \<noteq> ''evolve''"
    | kws kwa where "(''evolve'', kws) \<in> set agent_keywords" "(w, kwa) \<in> set agent_keywords" "w \<noteq> ''evolve''"
        "set kws \<inter> set kwa \<noteq> {}"
    unfolding build_semantic_neighbors_exact by blast
  then show "w = ''skill-engineering'' \<or> w = ''frontier-engineering''"
  proof cases
    case 1
    then have "sk = [''evolve'', ''skill-engineering'', ''frontier-engineering'']"
      using evolve_groups by (fastforce simp: list_all_iff)
    then show ?thesis using 1 by simp
  next
    case 2
    then show ?thesis using agent_overlaps by (fastforce simp: list_all_iff)
  qed
next
  have "(''meta'', [''evolve'', ''skill-engineering'', ''frontier-engineering'']) \<in> set domain_skills"
    by (simp add: domain_skills_def)
  then show "''skill-engineering'' \<in> set (dict_get (build_semantic_neighbors domain_skills agent_keywords) ''evolve'' [])"
    unfolding build_semantic_neighbors_exact by force
qed

lemma mutate_sequence_single:
  assumes "u \<in> set (dict_get nb v [])" "u \<noteq> v"
  shows "\<exists>w r'. mutate_sequence nb [v] r = ([w], r') \<and> w \<in> set (dict_get nb v []) \<and> w \<noteq> v"
proof -
  let ?o = "filter (\<lambda>c. c \<noteq> v) (dict_get nb v [])"
  have ne: "?o \<noteq> []" using assms by (auto simp: filter_empty_conv)
  obtain r1 where i: "randbelow (Suc 0) r = (0, r1)" by (simp add: randbelow_def)
  obtain w r2 where w: "choice ?o r1 = (w, r2)" by (cases "choice ?o r1")
  then have "w \<in> set ?o" using choice_in [OF ne] by blast
  moreover have "mutate_sequence nb [v] r = ([w], r2)"
    using i w ne by (simp add: mutate_sequence_def pick_neighbor_def Let_def reorder_if_needed_def del: filter.simps)
  ultimately show ?thesis by auto
qed

text \<open>
  The agent \<open>evolve\<close> is also the name of a skill: its only neighbours are skills, so that every
  mutation of the agents of a genome with that agent names an agent that is not registered, and the
  safety gate rejects it.
\<close>

theorem evolve_agent_mutant_unregistered:
  assumes "valid_genome g" "gn_agents g = [''evolve'']"
    and "list_all (\<lambda>n. n \<noteq> ''skill-engineering'' \<and> n \<noteq> ''frontier-engineering'') names"
  shows "case apply_gene_mutation (build_semantic_neighbors domain_skills agent_keywords) g ''agents'' r of
      (Inl _, _) \<Rightarrow> False
    | (Inr m, _) \<Rightarrow> first_allowlist_violation m (registered names) \<noteq> None"
proof -
  let ?nb = "build_semantic_neighbors domain_skills agent_keywords"
  obtain w r1 where w: "mutate_sequence ?nb [''evolve''] r = ([w], r1)"
      "w \<in> set (dict_get ?nb ''evolve'' [])" "w \<noteq> ''evolve''"
    using mutate_sequence_single [of "''skill-engineering''" ?nb "''evolve''" r] evolve_neighbors by auto
  have "w \<notin> set (al_agents (registered names))"
    using evolve_neighbors(1) w(2) assms(3) by (auto simp: registered_agents list_all_iff)
  then show ?thesis
    using assms(1,2) w(1)
    by (auto simp: apply_gene_mutation_def check_genome_def valid_genome_iff allowlist_ok_iff)
qed

theorem evolve_agent_mutant_unregistered_witness:
  "let g = \<lparr>gn_skills = [''evolve''], gn_agents = [''evolve''], gn_temperature = 1, gn_persona = [],
       gn_topology = ''fanout'', gn_budget = 4000\<rparr>
   in case apply_gene_mutation (build_semantic_neighbors domain_skills agent_keywords) g ''agents''
        \<lparr>rg_nat = id, rg_rat = (\<lambda>_. 1 / 2), rg_pos = 0\<rparr> of
      (Inl _, _) \<Rightarrow> False
    | (Inr m, _) \<Rightarrow> first_allowlist_violation m (registered [''architect'', ''evolve'']) \<noteq> None"
  unfolding Let_def
  by (rule evolve_agent_mutant_unregistered) (simp_all add: valid_genome_iff topologies_def)

subsection \<open>The archive keeps the first best of every niche\<close>

definition archive_of :: "scored_genome list \<Rightarrow> qd_archive" where
  "archive_of ss = foldl (\<lambda>a s. snd (archive_add s a)) [] ss"

definition first_best :: "scored_genome list \<Rightarrow> scored_genome option" where
  "first_best ss = List.find (\<lambda>s. list_all (\<lambda>t. sg_fitness t \<le> sg_fitness s) ss) ss"

definition niche :: "string \<Rightarrow> scored_genome list \<Rightarrow> scored_genome list" where
  "niche d ss = filter (\<lambda>s. sg_descriptor s = d) ss"

lemma archive_of_snoc: "archive_of (ss @ [s]) = snd (archive_add s (archive_of ss))"
  by (simp add: archive_of_def)

lemma first_best_SomeD:
  "first_best ss = Some e \<Longrightarrow> e \<in> set ss \<and> list_all (\<lambda>t. sg_fitness t \<le> sg_fitness e) ss"
  unfolding first_best_def find_Some_iff by (metis nth_mem)

lemma find_in_append: "List.find P (xs @ ys) = (case List.find P xs of None \<Rightarrow> List.find P ys | Some x \<Rightarrow> Some x)"
  by (induction xs) auto

lemma find_cong_on: "(\<And>x. x \<in> set xs \<Longrightarrow> P x = Q x) \<Longrightarrow> List.find P xs = List.find Q xs"
  by (induction xs) auto

lemma first_best_snoc:
  "first_best (ss @ [s]) =
     (case first_best ss of None \<Rightarrow> Some s | Some e \<Rightarrow> if sg_fitness s \<le> sg_fitness e then Some e else Some s)"
proof (cases "first_best ss")
  case None
  have "ss = []"
  proof (rule ccontr)
    assume "ss \<noteq> []"
    then have "Max (sg_fitness ` set ss) \<in> sg_fitness ` set ss" by (intro Max_in) auto
    then obtain m where "m \<in> set ss" "Max (sg_fitness ` set ss) = sg_fitness m" by auto
    then have m: "m \<in> set ss" "\<forall>t \<in> set ss. sg_fitness t \<le> sg_fitness m"
      by (auto simp flip: \<open>Max (sg_fitness ` set ss) = sg_fitness m\<close>)
    with None show False by (auto simp: first_best_def find_none_iff list_all_iff)
  qed
  then show ?thesis by (simp add: first_best_def)
next
  case (Some e)
  note e = first_best_SomeD [OF Some]
  show ?thesis
  proof (cases "sg_fitness s \<le> sg_fitness e")
    case True
    have "List.find (\<lambda>x. list_all (\<lambda>t. sg_fitness t \<le> sg_fitness x) (ss @ [s])) ss = first_best ss"
      unfolding first_best_def using True e
      by (intro find_cong_on) (auto simp: list_all_iff intro: order_trans)
    then show ?thesis using Some True by (simp add: first_best_def find_in_append)
  next
    case False
    have "List.find (\<lambda>x. list_all (\<lambda>t. sg_fitness t \<le> sg_fitness x) (ss @ [s])) ss = None"
      using False e by (auto simp: find_none_iff list_all_iff intro: order_trans)
    moreover have "list_all (\<lambda>t. sg_fitness t \<le> sg_fitness s) (ss @ [s])"
      using False e by (auto simp: list_all_iff)
    ultimately show ?thesis using Some False by (simp add: first_best_def find_in_append)
  qed
qed

text \<open>
  C29: Whatever is added to the archive, each niche holds the first of its variants of greatest fitness.
\<close>

theorem archive_keeps_first_best:
  "map_of (archive_of ss) d = first_best (niche d ss)"
proof (induction ss rule: rev_induct)
  case Nil
  then show ?case by (simp add: archive_of_def niche_def first_best_def)
next
  case (snoc s ss)
  show ?case
  proof (cases "sg_descriptor s = d")
    case True
    then have "niche d (ss @ [s]) = niche d ss @ [s]" by (simp add: niche_def)
    then show ?thesis
      using True snoc
      by (auto simp: archive_of_snoc first_best_snoc archive_add_def update_conv split: option.split)
  next
    case False
    then have "niche d (ss @ [s]) = niche d ss" by (simp add: niche_def)
    then show ?thesis
      using False snoc by (auto simp: archive_of_snoc archive_add_def update_conv split: option.split)
  qed
qed

subsection \<open>Evaluation, exactly\<close>

definition improves :: "qd_archive \<Rightarrow> scored_genome \<Rightarrow> bool" where
  "improves a s \<longleftrightarrow>
     (case map_of a (sg_descriptor s) of None \<Rightarrow> True | Some e \<Rightarrow> sg_fitness e < sg_fitness s)"

definition signals :: "eval_context \<Rightarrow> scored_genome \<Rightarrow> bool" where
  "signals c s \<longleftrightarrow> ec_baseline c < sg_fitness s \<or> \<not> set (ec_observed c) \<subseteq> set (ec_known c)"

lemma archive_add_improves:
  "archive_add s a = (improves a s, if improves a s then AList.update (sg_descriptor s) s a else a)"
  by (auto simp: archive_add_def improves_def split: option.split)

lemma is_healthy_iff: "is_healthy_variant a s c \<longleftrightarrow> improves a s \<or> signals c s"
  by (auto simp: is_healthy_variant_def improves_def signals_def list_ex_iff split: option.split)

text \<open>
  What an evaluation decides and what it does to the archive. An unsafe genome leaves it as it is. A
  safe one is stored just when its niche is empty or it beats the elite of the niche; but it is reported
  as archived also when it only beats the baseline or shows a new failure, and then it is not stored.
\<close>

theorem evaluate_and_archive_exact:
  "case evaluate_and_archive sd g quality cost latency c a of
     (Inl _, a') \<Rightarrow>
       a' = a \<and> fst (is_safe g (ec_allowlist c)) \<and>
       \<not> (0 \<le> cost \<and> 0 \<le> latency \<and> ec_cost c \<in> set cost_buckets \<and> ec_depth c \<in> set depth_buckets)
   | (Inr d, a') \<Rightarrow>
       (case ad_scored d of
          None \<Rightarrow> \<not> fst (is_safe g (ec_allowlist c)) \<and> \<not> ad_accepted d \<and> a' = a
        | Some s \<Rightarrow>
            fst (is_safe g (ec_allowlist c)) \<and> sg_genome s = g \<and>
            behavior_descriptor sd g (ec_cost c) (ec_depth c) = Inr (sg_descriptor s) \<and>
            sg_fitness s = quality - ec_lambda c * cost - ec_mu c * latency + ec_nu c * archive_novelty g a \<and>
            ad_accepted d = (improves a s \<or> signals c s) \<and>
            a' = (if improves a s then AList.update (sg_descriptor s) s a else a))"
proof -
  obtain safe reason where s: "is_safe g (ec_allowlist c) = (safe, reason)" by (cases "is_safe g (ec_allowlist c)")
  show ?thesis
    by (auto simp: evaluate_and_archive_def s Let_def is_healthy_iff archive_add_improves composite_fitness_def
        behavior_descriptor_def split: sum.split)
qed

type_synonym evaluation = "genome \<times> rat \<times> rat \<times> rat \<times> eval_context"

definition archive_history :: "(string \<times> string) list \<Rightarrow> evaluation list \<Rightarrow> qd_archive" where
  "archive_history sd es = foldl (\<lambda>a (g, q, co, la, c). snd (evaluate_and_archive sd g q co la c a)) [] es"

definition admitted :: "(string \<times> string) list \<Rightarrow> evaluation list \<Rightarrow> string \<Rightarrow> genome \<Rightarrow> bool" where
  "admitted sd es d g =
     list_ex (\<lambda>(h, _, _, _, c). h = g \<and> fst (is_safe g (ec_allowlist c)) \<and>
       behavior_descriptor sd g (ec_cost c) (ec_depth c) = Inr d) es"

lemma archive_history_snoc:
  "archive_history sd (es @ [(g, q, co, la, c)]) = snd (evaluate_and_archive sd g q co la c (archive_history sd es))"
  by (simp add: archive_history_def)

lemma step_cases: "x = a \<or> x = u s \<and> P s \<Longrightarrow> x = a \<or> (\<exists>s. x = u s \<and> P s)"
  by blast

lemma evaluate_step:
  "snd (evaluate_and_archive sd g quality cost latency c a) = a \<or>
   (\<exists>s. snd (evaluate_and_archive sd g quality cost latency c a) = AList.update (sg_descriptor s) s a \<and>
      sg_genome s = g \<and> fst (is_safe g (ec_allowlist c)) \<and>
      behavior_descriptor sd g (ec_cost c) (ec_depth c) = Inr (sg_descriptor s))"
proof -
  obtain safe reason where s: "is_safe g (ec_allowlist c) = (safe, reason)" by (cases "is_safe g (ec_allowlist c)")
  show ?thesis
  proof (cases "behavior_descriptor sd g (ec_cost c) (ec_depth c)")
    case (Inr d)
    note d = Inr
    show ?thesis
    proof (cases "composite_fitness quality cost latency (archive_novelty g a) c")
      case (Inr f)
      show ?thesis
        by (rule step_cases [where s = "\<lparr>sg_genome = g, sg_fitness = f, sg_descriptor = d,
                sg_novelty = archive_novelty g a\<rparr>"])
          (auto simp: evaluate_and_archive_def s Let_def d Inr archive_add_improves)
    qed (simp add: evaluate_and_archive_def s Let_def d)
  qed (simp add: evaluate_and_archive_def s)
qed

lemma set_alist_update: "set (AList.update k v xs) \<subseteq> insert (k, v) (set xs)"
  by (induction xs) auto

lemma admitted_mono: "admitted sd es d g \<Longrightarrow> admitted sd (es @ [e]) d g"
  by (auto simp: admitted_def)

text \<open>
  Over any evaluations, every variant in the archive passed the safety gate and stands in the niche of
  its descriptor.
\<close>

theorem archive_admits_safe_only:
  "list_all (\<lambda>(d, s). sg_descriptor s = d \<and> admitted sd es d (sg_genome s)) (archive_history sd es)"
proof (induction es rule: rev_induct)
  case Nil
  then show ?case by (simp add: archive_history_def)
next
  case (snoc e es)
  obtain g q co la c where e: "e = (g, q, co, la, c)" by (cases e)
  have old: "list_all (\<lambda>(d, s). sg_descriptor s = d \<and> admitted sd (es @ [e]) d (sg_genome s)) (archive_history sd es)"
    using snoc by (auto simp: list_all_iff admitted_mono)
  show ?case
    using evaluate_step [of sd g q co la c "archive_history sd es"]
  proof (elim disjE exE conjE)
    assume "snd (evaluate_and_archive sd g q co la c (archive_history sd es)) = archive_history sd es"
    then show ?thesis using old by (simp add: e archive_history_snoc)
  next
    fix s
    assume 2: "snd (evaluate_and_archive sd g q co la c (archive_history sd es)) =
        AList.update (sg_descriptor s) s (archive_history sd es)"
      "sg_genome s = g" "fst (is_safe g (ec_allowlist c))"
      "behavior_descriptor sd g (ec_cost c) (ec_depth c) = Inr (sg_descriptor s)"
    have "admitted sd (es @ [e]) (sg_descriptor s) (sg_genome s)"
      using 2 by (auto simp: admitted_def e)
    then show ?thesis
      using old set_alist_update [of "sg_descriptor s" s "archive_history sd es"]
      unfolding e archive_history_snoc 2(1) list_all_iff by fastforce
  qed
qed

end
