(* ===== verification/ThoughtPlanner.thy ===== *)
theory ThoughtPlanner
  imports PyText PyNumeric
begin

text \<open>
  The graph-of-thought planner (\<open>orchestrator/thought_graph.py\<close>, \<open>orchestrator/got_planner.py\<close>): the
  graph and its navigation, planning with its five strategies, evaluation, pruning, consolidation
  and the pipeline of the executor.

  Identifiers are hashes of the clock and of random bits: the stream of them is an argument, and the
  state counts how many were drawn. Python iterates a set of strings in an order of its own, which
  is an argument too. Scores are exact rationals.
\<close>

subsection \<open>The graph\<close>

datatype meta_value = MetaText string | MetaScore rat

record thought =
  th_id :: string
  th_content :: string
  th_parent :: "string option"
  th_score :: rat
  th_depth :: nat
  th_meta :: "(string \<times> meta_value) list"

record thought_graph =
  gr_thoughts :: "(string \<times> thought) list"
  gr_edges :: "(string \<times> string list) list"
  gr_root :: string

datatype graph_error = DuplicateThought string

definition empty_graph :: "string \<Rightarrow> thought_graph" where
  "empty_graph i = \<lparr>gr_thoughts = [], gr_edges = [], gr_root = i\<rparr>"

definition add_edge :: "string \<Rightarrow> string \<Rightarrow> (string \<times> string list) list \<Rightarrow> (string \<times> string list) list" where
  "add_edge p c es = AList.update p (dict_get es p [] @ [c]) es"

definition add_thought :: "thought \<Rightarrow> thought_graph \<Rightarrow> graph_error + thought_graph" where
  "add_thought t g =
     (if map_of (gr_thoughts g) (th_id t) \<noteq> None then Inl (DuplicateThought (th_id t))
      else Inr (g\<lparr>gr_thoughts := AList.update (th_id t) t (gr_thoughts g),
             gr_edges := (case th_parent t of
                 None \<Rightarrow> gr_edges g
               | Some p \<Rightarrow> if p = [] then gr_edges g else add_edge p (th_id t) (gr_edges g))\<rparr>))"

definition get_children :: "thought_graph \<Rightarrow> string \<Rightarrow> thought list" where
  "get_children g i =
     sort_key (\<lambda>t. - th_score t) (List.map_filter (map_of (gr_thoughts g)) (dict_get (gr_edges g) i []))"

definition get_parent :: "thought_graph \<Rightarrow> string \<Rightarrow> thought option" where
  "get_parent g i =
     (case map_of (gr_thoughts g) i of
        None \<Rightarrow> None
      | Some t \<Rightarrow> (case th_parent t of None \<Rightarrow> None | Some p \<Rightarrow> map_of (gr_thoughts g) p))"

text \<open>\<open>while current is not None and current in self.thoughts\<close>, which never ends on a cycle\<close>

partial_function (option) climb :: "thought_graph \<Rightarrow> string option \<Rightarrow> thought list \<Rightarrow> thought list option" where
  "climb g current path =
     (case current of
        None \<Rightarrow> Some path
      | Some i \<Rightarrow>
          (case map_of (gr_thoughts g) i of
             None \<Rightarrow> Some path
           | Some t \<Rightarrow> climb g (th_parent t) (path @ [t])))"

definition get_path_to_root :: "thought_graph \<Rightarrow> string \<Rightarrow> thought list option" where
  "get_path_to_root g i = map_option rev (climb g (Some i) [])"

text \<open>\<open>arrange\<close> is the order in which a set of strings is iterated.\<close>

definition get_leaves :: "(string list \<Rightarrow> string list) \<Rightarrow> thought_graph \<Rightarrow> thought list" where
  "get_leaves arrange g =
     sort_key (\<lambda>t. - th_score t)
       (List.map_filter (map_of (gr_thoughts g))
         (arrange (filter (\<lambda>i. i \<notin> set (map fst (gr_edges g))) (map fst (gr_thoughts g)))))"

definition max_depth :: "thought_graph \<Rightarrow> nat" where
  "max_depth g = (if gr_thoughts g = [] then 0 else Max (set (map th_depth (dict_values (gr_thoughts g)))))"

definition node_count :: "thought_graph \<Rightarrow> nat" where
  "node_count g = length (gr_thoughts g)"

subsection \<open>Planning\<close>

datatype expand_strategy = BFS | DFS | BEAM | RANDOM | BEST_FIRST

datatype consolidate_method = BEST_PATH | WEIGHTED_FUSION | MAJORITY_ENSEMBLE | MERGE_AND_REFINE

record planner =
  pl_max_nodes :: int
  pl_plans :: nat
  pl_nodes :: nat
  pl_pruned :: nat

record id_supply =
  su_ids :: "nat \<Rightarrow> string"
  su_next :: nat
  su_rng :: rng

definition make_id :: "id_supply \<Rightarrow> string \<times> id_supply" where
  "make_id s = (su_ids s (su_next s), s\<lparr>su_next := su_next s + 1\<rparr>)"

definition perspectives :: "string list" where
  "perspectives = [''analisis detallado'', ''enfoque alternativo'', ''consideracion de bordes'']"

definition evaluate_synthetic :: "nat \<Rightarrow> nat \<Rightarrow> rat" where
  "evaluate_synthetic depth index =
     (let base = max (1 / 10) (1 - of_nat depth * (15 / 100));
          bonus = max 0 (1 - of_nat index * (2 / 10))
      in py_round 4 ((base + bonus) / 2))"

definition node_score :: "thought_graph \<Rightarrow> string \<Rightarrow> rat" where
  "node_score g i = (case map_of (gr_thoughts g) i of Some t \<Rightarrow> th_score t | None \<Rightarrow> 0)"

text \<open>\<open>max(frontier, key=...)\<close>: the first of those with the greatest score\<close>

fun best_of :: "(string \<Rightarrow> rat) \<Rightarrow> string \<Rightarrow> string list \<Rightarrow> string" where
  "best_of f b [] = b"
| "best_of f b (x # xs) = best_of f (if f b < f x then x else b) xs"

definition select_frontier ::
  "thought_graph \<Rightarrow> string list \<Rightarrow> expand_strategy \<Rightarrow> nat \<Rightarrow> id_supply \<Rightarrow> string list \<times> id_supply" where
  "select_frontier g frontier strategy branches s =
     (case strategy of
        BFS \<Rightarrow> (take branches frontier, s)
      | DFS \<Rightarrow> (last_n 1 frontier, s)
      | BEAM \<Rightarrow> (take branches (sort_key (\<lambda>i. - node_score g i) frontier), s)
      | BEST_FIRST \<Rightarrow>
          (case frontier of
             [] \<Rightarrow> ([], s)
           | x # xs \<Rightarrow> let b = best_of (node_score g) x xs in (if b = [] then [] else [b], s))
      | RANDOM \<Rightarrow>
          if frontier = [] then ([], s)
          else (case sample_pool (min branches (length frontier)) (length frontier) frontier (su_rng s) of
                  (xs, r) \<Rightarrow> (xs, s\<lparr>su_rng := r\<rparr>)))"

definition child_content :: "nat \<Rightarrow> thought \<Rightarrow> nat \<Rightarrow> string" where
  "child_content depth parent i =
     perspectives ! i @ '': '' @ take 60 (th_content parent) @ '' -> paso '' @ str_of_nat depth @ ''.'' @
     str_of_nat i"

fun make_children :: "thought \<Rightarrow> string \<Rightarrow> nat \<Rightarrow> nat list \<Rightarrow> id_supply \<Rightarrow> thought list \<times> id_supply" where
  "make_children parent node_id depth [] s = ([], s)"
| "make_children parent node_id depth (i # rest) s =
     (case make_id s of
        (new_id, s) \<Rightarrow>
          let child = \<lparr>th_id = new_id, th_content = child_content depth parent i, th_parent = Some node_id,
                th_score = evaluate_synthetic depth i, th_depth = depth,
                th_meta = [(''strategy'', MetaText (perspectives ! i)),
                           (''parent_score'', MetaScore (th_score parent))]\<rparr>
          in (case make_children parent node_id depth rest s of
                (children, s) \<Rightarrow> (child # children, s)))"

definition expand_node :: "thought_graph \<Rightarrow> string \<Rightarrow> nat \<Rightarrow> nat \<Rightarrow> id_supply \<Rightarrow> thought list \<times> id_supply" where
  "expand_node g node_id branches depth s =
     (case map_of (gr_thoughts g) node_id of
        None \<Rightarrow> ([], s)
      | Some parent \<Rightarrow> make_children parent node_id depth [0..<min branches (length perspectives)] s)"

definition attach :: "string \<Rightarrow> thought list \<Rightarrow> thought_graph \<Rightarrow> thought_graph" where
  "attach node_id children g =
     foldl (\<lambda>g c. g\<lparr>gr_thoughts := AList.update (th_id c) c (gr_thoughts g),
       gr_edges := add_edge node_id (th_id c) (gr_edges g)\<rparr>) g children"

fun expand_selected ::
  "int \<Rightarrow> nat \<Rightarrow> nat \<Rightarrow> string list \<Rightarrow> thought_graph \<Rightarrow> string list \<Rightarrow> id_supply \<Rightarrow>
   thought_graph \<times> string list \<times> id_supply" where
  "expand_selected max_nodes branches depth [] g next_frontier s = (g, next_frontier, s)"
| "expand_selected max_nodes branches depth (node_id # rest) g next_frontier s =
     (if max_nodes \<le> int (node_count g) then (g, next_frontier, s)
      else (case expand_node g node_id branches depth s of
              (children, s) \<Rightarrow>
                expand_selected max_nodes branches depth rest (attach node_id children g)
                  (next_frontier @ map th_id children) s))"

text \<open>the loop over the depths, with how many are left\<close>

fun plan_levels ::
  "int \<Rightarrow> nat \<Rightarrow> expand_strategy \<Rightarrow> nat \<Rightarrow> nat \<Rightarrow> thought_graph \<Rightarrow> string list \<Rightarrow> id_supply \<Rightarrow>
   thought_graph \<times> id_supply" where
  "plan_levels max_nodes branches strategy 0 depth g frontier s = (g, s)"
| "plan_levels max_nodes branches strategy (Suc left) depth g frontier s =
     (if max_nodes \<le> int (node_count g) then (g, s)
      else (case select_frontier g frontier strategy branches s of
              (selected, s) \<Rightarrow>
                (case expand_selected max_nodes branches depth selected g [] s of
                   (g, next_frontier, s) \<Rightarrow>
                     if next_frontier = [] then (g, s)
                     else plan_levels max_nodes branches strategy left (depth + 1) g next_frontier s)))"

definition root_thought :: "string \<Rightarrow> string \<Rightarrow> thought" where
  "root_thought i task =
     \<lparr>th_id = i, th_content = ''Analizar: '' @ take 100 task, th_parent = None, th_score = 1, th_depth = 0,
      th_meta = []\<rparr>"

definition clamp_branches :: "int \<Rightarrow> nat" where
  "clamp_branches max_branches = nat (max 1 (min max_branches 5))"

definition plan ::
  "string \<Rightarrow> int \<Rightarrow> int \<Rightarrow> expand_strategy \<Rightarrow> planner \<Rightarrow> id_supply \<Rightarrow> thought_graph \<times> planner \<times> id_supply" where
  "plan task max_branches depths strategy p s =
     (case make_id s of
        (i, s) \<Rightarrow>
          (case plan_levels (pl_max_nodes p) (clamp_branches max_branches) strategy (nat depths) 1
                  \<lparr>gr_thoughts = [(i, root_thought i task)], gr_edges = [], gr_root = i\<rparr> [i] s of
             (g, s) \<Rightarrow> (g, p\<lparr>pl_plans := pl_plans p + 1, pl_nodes := pl_nodes p + node_count g\<rparr>, s)))"

subsection \<open>Evaluation, pruning, consolidation\<close>

definition evaluate :: "thought \<Rightarrow> thought_graph option \<Rightarrow> rat" where
  "evaluate t g =
     (let coherence = 35 / 100 * min 1 (of_nat (length (th_content t)) / 200);
          relevance = 35 / 100 * (1 / 2 + 1 / 2 * th_score t);
          depth_score = 15 / 100 * min 1 (of_nat (th_depth t + 1) / 10);
          novelty = (case (g, th_parent t) of
              (Some g, Some p) \<Rightarrow>
                if p = [] then 15 / 100 * (1 / 2)
                else 15 / 100 * min 1 (of_nat (length (filter (\<lambda>n. th_parent n = Some p)
                       (dict_values (gr_thoughts g)))) / 5)
            | _ \<Rightarrow> 15 / 100 * (1 / 2))
      in py_round 4 (coherence + relevance + depth_score + novelty))"

definition keep_ids :: "thought_graph \<Rightarrow> rat \<Rightarrow> string list" where
  "keep_ids g threshold =
     map fst (filter (\<lambda>(i, t). threshold \<le> th_score t \<or> i = gr_root g) (gr_thoughts g))"

definition keep_node :: "thought_graph \<Rightarrow> string list \<Rightarrow> thought_graph \<Rightarrow> string \<Rightarrow> thought_graph" where
  "keep_node g kept h i =
     (case map_of (gr_thoughts g) i of
        None \<Rightarrow> h
      | Some t \<Rightarrow>
          h\<lparr>gr_thoughts := AList.update i t (gr_thoughts h),
            gr_edges := (case map_of (gr_edges g) i of
                None \<Rightarrow> gr_edges h
              | Some cs \<Rightarrow> AList.update i (filter (\<lambda>c. c \<in> set kept) cs) (gr_edges h))\<rparr>)"

definition prune ::
  "(string list \<Rightarrow> string list) \<Rightarrow> thought_graph \<Rightarrow> rat \<Rightarrow> planner \<Rightarrow> thought_graph \<times> planner" where
  "prune arrange g threshold p =
     (let kept = keep_ids g threshold
      in (foldl (keep_node g kept) (empty_graph (gr_root g)) (arrange kept),
          p\<lparr>pl_pruned := pl_pruned p + (node_count g - length kept)\<rparr>))"

definition backtrack :: "thought_graph \<Rightarrow> string \<Rightarrow> thought option" where
  "backtrack g i =
     (case map_of (gr_thoughts g) i of
        None \<Rightarrow> None
      | Some t \<Rightarrow>
          (case th_parent t of
             None \<Rightarrow> Some t
           | Some p \<Rightarrow> (if p = [] then Some t
                       else case map_of (gr_thoughts g) p of None \<Rightarrow> Some t | Some u \<Rightarrow> Some u)))"

definition find_leaves :: "thought_graph \<Rightarrow> string list" where
  "find_leaves g =
     filter (\<lambda>i. i \<notin> set (concat (dict_values (gr_edges g)))) (map fst (gr_thoughts g))"

text \<open>\<open>while current:\<close>, which the empty identifier ends too\<close>

partial_function (option) climb_truthy ::
  "thought_graph \<Rightarrow> string option \<Rightarrow> thought list \<Rightarrow> thought list option" where
  "climb_truthy g current path =
     (case current of
        None \<Rightarrow> Some path
      | Some i \<Rightarrow>
          if i = [] then Some path
          else (case map_of (gr_thoughts g) i of
                  None \<Rightarrow> Some path
                | Some t \<Rightarrow> climb_truthy g (th_parent t) (path @ [t])))"

definition path_score :: "thought list \<Rightarrow> rat" where
  "path_score path = (if path = [] then 0 else sum_list (map th_score path) / of_nat (length path))"

fun leaf_paths :: "thought_graph \<Rightarrow> string list \<Rightarrow> (rat \<times> thought list) list option" where
  "leaf_paths g [] = Some []"
| "leaf_paths g (i # rest) =
     (case climb_truthy g (Some i) [] of
        None \<Rightarrow> None
      | Some path \<Rightarrow> map_option (Cons (path_score (rev path), rev path)) (leaf_paths g rest))"

definition top_k_paths :: "thought_graph \<Rightarrow> nat \<Rightarrow> thought list list option" where
  "top_k_paths g k =
     map_option (\<lambda>paths. map snd (take k (sort_key (\<lambda>x. - fst x) paths))) (leaf_paths g (find_leaves g))"

definition get_best_path :: "thought_graph \<Rightarrow> thought list option" where
  "get_best_path g =
     map_option (\<lambda>paths. case paths of [] \<Rightarrow> [] | path # _ \<Rightarrow> path) (top_k_paths g 1)"

definition join_best :: "string \<Rightarrow> thought list list \<Rightarrow> string" where
  "join_best separator paths =
     (case paths of
        [] \<Rightarrow> []
      | best # _ \<Rightarrow> py_join separator (map (\<lambda>t. take 60 (th_content t)) (take 3 best)))"

definition weighted_fusion :: "thought list list \<Rightarrow> string" where
  "weighted_fusion = join_best '' | ''"

definition majority_ensemble :: "thought list list \<Rightarrow> string" where
  "majority_ensemble = join_best '' [ENSEMBLE] ''"

definition merge_and_refine :: "thought list list \<Rightarrow> string" where
  "merge_and_refine = join_best '' [REFINED] ''"

definition consolidate :: "thought_graph \<Rightarrow> consolidate_method \<Rightarrow> string option" where
  "consolidate g mode =
     (case get_best_path g of
        None \<Rightarrow> None
      | Some best \<Rightarrow>
          if best = [] then Some ''No se encontro una solucion.''
          else if mode = BEST_PATH then
            Some (py_join '' -> '' (map (\<lambda>t. take 80 (th_content t)) best))
          else (case top_k_paths g 3 of
              None \<Rightarrow> None
            | Some paths \<Rightarrow>
                Some (case mode of
                    WEIGHTED_FUSION \<Rightarrow> weighted_fusion paths
                  | MAJORITY_ENSEMBLE \<Rightarrow> majority_ensemble paths
                  | MERGE_AND_REFINE \<Rightarrow> merge_and_refine paths
                  | BEST_PATH \<Rightarrow> py_join '' -> '' (map (\<lambda>t. take 80 (th_content t)) best))))"

definition execute ::
  "(string list \<Rightarrow> string list) \<Rightarrow> string \<Rightarrow> int \<Rightarrow> int \<Rightarrow> rat \<Rightarrow> planner \<Rightarrow> id_supply \<Rightarrow>
   string option \<times> planner \<times> id_supply" where
  "execute arrange task max_branches depths prune_threshold p s =
     (case plan task max_branches depths BFS p s of
        (g, p, s) \<Rightarrow>
          (case prune arrange g prune_threshold p of
             (pruned, p) \<Rightarrow> (consolidate pruned BEST_PATH, p, s)))"

text \<open>\<open>solution.split(" ")\<close>, every part followed by a blank\<close>

definition execute_stream ::
  "string \<Rightarrow> int \<Rightarrow> int \<Rightarrow> planner \<Rightarrow> id_supply \<Rightarrow> string list option \<times> planner \<times> id_supply" where
  "execute_stream task max_branches depths p s =
     (case plan task max_branches depths BFS p s of
        (g, p, s) \<Rightarrow>
          (map_option (\<lambda>solution. map (\<lambda>chunk. chunk @ '' '') (split_on (CHR '' '') solution))
             (consolidate g BEST_PATH), p, s))"

subsection \<open>A plan is a tree\<close>

definition good_node :: "thought_graph \<Rightarrow> thought \<Rightarrow> bool" where
  "good_node g t \<longleftrightarrow>
     (case th_parent t of
        None \<Rightarrow> th_id t = gr_root g \<and> th_depth t = 0 \<and> th_score t = 1
      | Some p \<Rightarrow>
          th_id t \<noteq> gr_root g \<and> p \<noteq> [] \<and> 7 / 20 \<le> th_score t \<and> th_score t \<le> 37 / 40 \<and>
          (case map_of (gr_thoughts g) p of None \<Rightarrow> False | Some q \<Rightarrow> th_depth t = th_depth q + 1))"

definition children_of :: "thought_graph \<Rightarrow> string \<Rightarrow> string list" where
  "children_of g p = map th_id (filter (\<lambda>t. th_parent t = Some p) (dict_values (gr_thoughts g)))"

definition thought_tree :: "thought_graph \<Rightarrow> bool" where
  "thought_tree g \<longleftrightarrow>
     wf_dict (gr_thoughts g) \<and>
     (case map_of (gr_thoughts g) (gr_root g) of None \<Rightarrow> False | Some r \<Rightarrow> th_parent r = None) \<and>
     (\<forall>(i, t) \<in> set (gr_thoughts g). i \<noteq> [] \<and> th_id t = i \<and> good_node g t) \<and>
     (\<forall>p. map_of (gr_edges g) p = (if children_of g p = [] then None else Some (children_of g p)))"

definition supply_ok :: "id_supply \<Rightarrow> bool" where
  "supply_ok s \<longleftrightarrow> inj (su_ids s) \<and> (\<forall>n. su_ids s n \<noteq> [])"

definition drawn :: "thought_graph \<Rightarrow> id_supply \<Rightarrow> bool" where
  "drawn g s \<longleftrightarrow> (\<forall>i \<in> set (map fst (gr_thoughts g)). \<exists>n < su_next s. i = su_ids s n)"

definition at_depth :: "thought_graph \<Rightarrow> nat \<Rightarrow> string \<Rightarrow> bool" where
  "at_depth g d i \<longleftrightarrow> (\<exists>t. map_of (gr_thoughts g) i = Some t \<and> th_depth t = d)"

definition attach_one :: "string \<Rightarrow> thought \<Rightarrow> thought_graph \<Rightarrow> thought_graph" where
  "attach_one node_id c g =
     g\<lparr>gr_thoughts := AList.update (th_id c) c (gr_thoughts g), gr_edges := add_edge node_id (th_id c) (gr_edges g)\<rparr>"

lemma attach_alt: "attach node_id cs g = foldl (\<lambda>g c. attach_one node_id c g) g cs"
  by (simp add: attach_def attach_one_def)

lemma attach_one_sel [simp]:
  "gr_root (attach_one i c g) = gr_root g"
  "map_of (gr_thoughts (attach_one i c g)) = (map_of (gr_thoughts g))(th_id c \<mapsto> c)"
  by (simp_all add: attach_one_def)

lemma tree_edges: "thought_tree g \<Longrightarrow> dict_get (gr_edges g) p [] = children_of g p"
  by (simp add: thought_tree_def dict_get_def)

lemma attach_one_tree:
  assumes t: "thought_tree g" and fresh: "map_of (gr_thoughts g) (th_id c) = None"
    and c: "th_parent c = Some i" "th_id c \<noteq> []" "7 / 20 \<le> th_score c" "th_score c \<le> 37 / 40"
    and i: "at_depth g d i" "th_depth c = d + 1"
  shows "thought_tree (attach_one i c g)"
proof -
  let ?h = "attach_one i c g"
  note T = t [unfolded thought_tree_def]
  have th: "gr_thoughts ?h = gr_thoughts g @ [(th_id c, c)]"
    using fresh by (simp add: attach_one_def dict_update_fresh)
  have ch: "children_of ?h p = (if p = i then children_of g p @ [th_id c] else children_of g p)" for p
    using c(1) by (auto simp: children_of_def th dict_values_def)
  have ge: "gr_edges ?h = AList.update i (children_of g i @ [th_id c]) (gr_edges g)"
    using tree_edges [OF t, of i] by (simp add: attach_one_def add_edge_def)
  have rootin: "map_of (gr_thoughts g) (gr_root g) \<noteq> None" using T by (auto split: option.splits)
  then have rc: "th_id c \<noteq> gr_root g" using fresh by auto
  have old: "good_node ?h u" if "good_node g u" for u
    using that fresh by (auto simp: good_node_def split: option.splits)
  obtain q where q: "map_of (gr_thoughts g) i = Some q" "th_depth q = d" using i(1) by (auto simp: at_depth_def)
  then have iin: "i \<noteq> []" "i \<noteq> th_id c" using T fresh map_of_SomeD by fastforce+
  have new: "good_node ?h c" using c i(2) q iin rc by (simp add: good_node_def)
  have "wf_dict (gr_thoughts ?h)" using T by (simp add: attach_one_def)
  moreover have "case map_of (gr_thoughts ?h) (gr_root ?h) of None \<Rightarrow> False | Some r \<Rightarrow> th_parent r = None"
    using T rc by auto
  moreover have "\<forall>(j, u) \<in> set (gr_thoughts ?h). j \<noteq> [] \<and> th_id u = j \<and> good_node ?h u"
    using T old new c(2) by (auto simp: th)
  moreover have "map_of (gr_edges ?h) p = (if children_of ?h p = [] then None else Some (children_of ?h p))" for p
    using T unfolding ge ch by simp
  ultimately show ?thesis unfolding thought_tree_def by blast
qed

lemma attach_one_at: "map_of (gr_thoughts g) (th_id c) = None \<Longrightarrow> at_depth g d j \<Longrightarrow> at_depth (attach_one i c g) d j"
  by (auto simp: at_depth_def)

lemma attach_one_new: "at_depth (attach_one i c g) (th_depth c) (th_id c)"
  by (simp add: at_depth_def)

lemma attach_one_count: "node_count (attach_one i c g) \<le> node_count g + 1"
  by (simp add: node_count_def attach_one_def length_dict_update)

lemma synthetic_bounds:
  assumes "1 \<le> depth" "i \<le> 2"
  shows "7 / 20 \<le> evaluate_synthetic depth i" "evaluate_synthetic depth i \<le> 37 / 40"
proof -
  define b :: rat where "b = max (1 / 10) (1 - of_nat depth * (15 / 100))"
  define c :: rat where "c = max 0 (1 - of_nat i * (2 / 10))"
  have "1 \<le> (of_nat depth :: rat)" "(of_nat i :: rat) \<le> 2"
    using assms of_nat_mono [OF assms(1), where 'a = rat] of_nat_mono [OF assms(2), where 'a = rat] by simp_all
  then have "1 / 10 \<le> b" "b \<le> 17 / 20" "3 / 5 \<le> c" "c \<le> 1"
    by (simp_all add: b_def c_def max_def)
  then have x: "of_int 3500 \<le> (b + c) / 2 * 10 ^ 4" "(b + c) / 2 * 10 ^ 4 \<le> of_int 9250" by simp_all
  have e: "evaluate_synthetic depth i = py_round 4 ((b + c) / 2)"
    by (simp add: evaluate_synthetic_def Let_def b_def c_def)
  show "7 / 20 \<le> evaluate_synthetic depth i" using py_round_mono_int [OF x(1)] unfolding e by simp
  show "evaluate_synthetic depth i \<le> 37 / 40" using py_round_le_int [OF x(2)] unfolding e by simp
qed

lemma make_children_facts:
  assumes "make_children q i d js s = (cs, s')" "1 \<le> d" "\<forall>j \<in> set js. j \<le> 2"
  shows "s' = s\<lparr>su_next := su_next s + length js\<rparr> \<and>
    map th_id cs = map (su_ids s) [su_next s..<su_next s + length js] \<and>
    (\<forall>c \<in> set cs. th_parent c = Some i \<and> th_depth c = d \<and> 7 / 20 \<le> th_score c \<and> th_score c \<le> 37 / 40)"
  using assms
proof (induction js arbitrary: cs s)
  case (Cons j js)
  obtain ds where r: "make_children q i d js (s\<lparr>su_next := su_next s + 1\<rparr>) = (ds, s')"
    and cs: "cs = \<lparr>th_id = su_ids s (su_next s), th_content = child_content d q j, th_parent = Some i,
                th_score = evaluate_synthetic d j, th_depth = d,
                th_meta = [(''strategy'', MetaText (perspectives ! j)),
                           (''parent_score'', MetaScore (th_score q))]\<rparr> # ds"
    using Cons.prems(1) by (auto simp: make_id_def Let_def split: prod.splits)
  have "[su_next s..<su_next s + length (j # js)] = su_next s # [Suc (su_next s)..<Suc (su_next s) + length js]"
    by (subst upt_rec) simp
  then show ?case
    using Cons.IH [OF r Cons.prems(2)] Cons.prems(3) synthetic_bounds [OF Cons.prems(2), of j]
    by (auto simp: cs)
qed simp

subsection \<open>Planning keeps the tree\<close>

text \<open>everything known in the middle of a plan: \<open>n\<close> nodes at most, none deeper than \<open>m\<close>\<close>

definition growing :: "int \<Rightarrow> nat \<Rightarrow> thought_graph \<Rightarrow> id_supply \<Rightarrow> bool" where
  "growing n m g s \<longleftrightarrow>
     thought_tree g \<and> supply_ok s \<and> drawn g s \<and> int (node_count g) \<le> n \<and>
     (\<forall>t \<in> set (dict_values (gr_thoughts g)). th_depth t \<le> m)"

lemma attach_tree:
  assumes "thought_tree g" "at_depth g d i"
    and "distinct (map th_id cs)" "\<forall>c \<in> set cs. map_of (gr_thoughts g) (th_id c) = None \<and> th_id c \<noteq> []"
    and "\<forall>c \<in> set cs. th_parent c = Some i \<and> th_depth c = d + 1 \<and> 7 / 20 \<le> th_score c \<and> th_score c \<le> 37 / 40"
  shows "thought_tree (attach i cs g) \<and> gr_root (attach i cs g) = gr_root g \<and>
    set (map fst (gr_thoughts (attach i cs g))) = set (map fst (gr_thoughts g)) \<union> set (map th_id cs) \<and>
    set (dict_values (gr_thoughts (attach i cs g))) = set (dict_values (gr_thoughts g)) \<union> set cs \<and>
    node_count (attach i cs g) = node_count g + length cs \<and>
    (\<forall>e j. at_depth g e j \<longrightarrow> at_depth (attach i cs g) e j) \<and>
    map_of (gr_thoughts g) \<subseteq>\<^sub>m map_of (gr_thoughts (attach i cs g)) \<and>
    (\<forall>c \<in> set cs. at_depth (attach i cs g) (d + 1) (th_id c))"
  using assms
proof (induction cs arbitrary: g)
  case Nil
  then show ?case by (simp add: attach_alt)
next
  case (Cons c cs)
  let ?h = "attach_one i c g"
  have fresh: "map_of (gr_thoughts g) (th_id c) = None" using Cons.prems(4) by simp
  have h: "thought_tree ?h" using attach_one_tree [of g c i d] Cons.prems by simp
  have le: "map_of (gr_thoughts g) \<subseteq>\<^sub>m map_of (gr_thoughts ?h)" using fresh by (auto simp: map_le_def dom_def)
  have at: "at_depth ?h d i" using attach_one_at [OF fresh] Cons.prems(2) by blast
  have th: "gr_thoughts ?h = gr_thoughts g @ [(th_id c, c)]"
    using fresh by (simp add: attach_one_def dict_update_fresh)
  have step: "attach i (c # cs) g = attach i cs ?h" by (simp add: attach_alt)
  have notin: "\<forall>b \<in> set cs. th_id b \<noteq> th_id c" using Cons.prems(3) by (simp add: image_iff) metis
  have ps: "distinct (map th_id cs)" "\<forall>b \<in> set cs. map_of (gr_thoughts ?h) (th_id b) = None \<and> th_id b \<noteq> []"
    "\<forall>c \<in> set cs. th_parent c = Some i \<and> th_depth c = d + 1 \<and> 7 / 20 \<le> th_score c \<and> th_score c \<le> 37 / 40"
    using Cons.prems(3-5) notin by simp_all
  note IH = Cons.IH [OF h at ps]
  have "at_depth (attach i cs ?h) (d + 1) (th_id c)"
    using IH attach_one_new [of i c g] Cons.prems(5) by simp
  then show ?case
    using IH attach_one_at [OF fresh] map_le_trans [OF le] unfolding step
    by (auto simp: th dict_values_def node_count_def)
qed

lemma upt_images: "set (map f [n..<n + k]) = f ` {n..<n + k}"
  by simp

lemma expand_attach:
  assumes g: "growing n m g s" and i: "at_depth g d i" "Suc d \<le> m"
    and e: "expand_node g i branches (Suc d) s = (cs, s')"
    and room: "int (node_count g) + 3 \<le> n"
  shows "growing n m (attach i cs g) s' \<and> gr_root (attach i cs g) = gr_root g \<and>
    (\<forall>e j. at_depth g e j \<longrightarrow> at_depth (attach i cs g) e j) \<and>
    map_of (gr_thoughts g) \<subseteq>\<^sub>m map_of (gr_thoughts (attach i cs g)) \<and>
    (\<forall>c \<in> set cs. at_depth (attach i cs g) (Suc d) (th_id c))"
proof -
  note G = g [unfolded growing_def]
  obtain q where q: "map_of (gr_thoughts g) i = Some q" using i(1) by (auto simp: at_depth_def)
  let ?js = "[0..<min branches (length perspectives)]"
  have mk: "make_children q i (Suc d) ?js s = (cs, s')" using e q by (simp add: expand_node_def)
  have len3: "length ?js \<le> 3" "\<forall>j \<in> set ?js. j \<le> 2" by (auto simp: perspectives_def)
  have F: "s' = s\<lparr>su_next := su_next s + length ?js\<rparr>"
      "map th_id cs = map (su_ids s) [su_next s..<su_next s + length ?js]"
      "\<forall>c \<in> set cs. th_parent c = Some i \<and> th_depth c = Suc d \<and> 7 / 20 \<le> th_score c \<and> th_score c \<le> 37 / 40"
    using make_children_facts [OF mk _ len3(2)] by auto
  have lcs: "length cs = length ?js" using arg_cong [OF F(2), of length] by simp
  have inj: "inj (su_ids s)" using G by (simp add: supply_ok_def)
  have new: "\<exists>k. su_next s \<le> k \<and> k < su_next s + length ?js \<and> th_id c = su_ids s k" if "c \<in> set cs" for c
  proof -
    have "th_id c \<in> set (map th_id cs)" using that by simp
    then show ?thesis unfolding F(2) by auto
  qed
  have fresh: "\<forall>c \<in> set cs. map_of (gr_thoughts g) (th_id c) = None \<and> th_id c \<noteq> []"
  proof
    fix c assume "c \<in> set cs"
    then obtain k where k: "su_next s \<le> k" "th_id c = su_ids s k" using new by blast
    have "su_ids s k \<notin> set (map fst (gr_thoughts g))"
    proof
      assume "su_ids s k \<in> set (map fst (gr_thoughts g))"
      then obtain l where "l < su_next s" "su_ids s k = su_ids s l" using G by (auto simp: drawn_def)
      then show False using k(1) injD [OF inj] by fastforce
    qed
    then show "map_of (gr_thoughts g) (th_id c) = None \<and> th_id c \<noteq> []"
      using G k by (simp add: supply_ok_def map_of_eq_None_iff)
  qed
  have dist: "distinct (map th_id cs)" unfolding F(2) using inj by (simp add: distinct_map inj_on_def inj_def)
  have tree: "thought_tree g" using G by blast
  note A = attach_tree [OF tree i(1) dist fresh, unfolded Suc_eq_plus1 [symmetric], OF F(3)]
  have "supply_ok s'" using G by (simp add: F(1) supply_ok_def)
  moreover have "drawn (attach i cs g) s'"
    unfolding drawn_def
  proof
    fix j assume "j \<in> set (map fst (gr_thoughts (attach i cs g)))"
    then consider "j \<in> set (map fst (gr_thoughts g))" | c where "c \<in> set cs" "j = th_id c" using A by auto
    then show "\<exists>n < su_next s'. j = su_ids s' n"
    proof cases
      case 1
      then obtain n where "n < su_next s" "j = su_ids s n" using G by (auto simp: drawn_def)
      then show ?thesis by (intro exI [of _ n]) (simp add: F(1))
    next
      case 2
      then show ?thesis using new [OF 2(1)] by (auto simp: F(1))
    qed
  qed
  moreover have "int (node_count (attach i cs g)) \<le> n" using A room lcs len3(1) by simp
  moreover have "\<forall>t \<in> set (dict_values (gr_thoughts (attach i cs g))). th_depth t \<le> m"
    using A G F(3) i(2) by auto
  ultimately show ?thesis using A unfolding growing_def by blast
qed

lemma best_of_in: "best_of f b xs \<in> set (b # xs)"
  by (induction f b xs rule: best_of.induct) auto

lemma select_frontier_facts:
  assumes "select_frontier g frontier strategy branches s = (sel, s')"
  shows "set sel \<subseteq> set frontier \<and> su_ids s' = su_ids s \<and> su_next s' = su_next s"
proof (cases strategy)
  case RANDOM
  show ?thesis
  proof (cases "frontier = []")
    case True
    then show ?thesis using assms RANDOM by (simp add: select_frontier_def)
  next
    case False
    obtain xs r where xs: "sample_pool (min branches (length frontier)) (length frontier) frontier (su_rng s) = (xs, r)"
      by (cases "sample_pool (min branches (length frontier)) (length frontier) frontier (su_rng s)")
    have "set xs \<subseteq> set frontier" by (rule sample_pool_subset [OF _ _ xs]) auto
    then show ?thesis using assms RANDOM False xs by (auto simp: select_frontier_def)
  qed
next
  case BEST_FIRST
  then show ?thesis
    using assms best_of_in [of "node_score g" "hd frontier" "tl frontier"]
    by (cases frontier) (auto simp: select_frontier_def Let_def split: if_splits)
qed (use assms in \<open>auto simp: select_frontier_def last_n_def dest!: in_set_takeD in_set_dropD\<close>)

lemma growing_supply:
  "growing n m g s \<Longrightarrow> su_ids s' = su_ids s \<Longrightarrow> su_next s' = su_next s \<Longrightarrow> growing n m g s'"
  by (simp add: growing_def supply_ok_def drawn_def)

lemma expand_selected_growing:
  assumes "growing n m g s" "\<forall>i \<in> set sel. at_depth g d i" "Suc d \<le> m" "\<forall>j \<in> set nf. at_depth g (Suc d) j"
    and "max_nodes + 2 \<le> n" "expand_selected max_nodes branches (Suc d) sel g nf s = (g', nf', s')"
  shows "growing n m g' s' \<and> gr_root g' = gr_root g \<and> map_of (gr_thoughts g) \<subseteq>\<^sub>m map_of (gr_thoughts g') \<and>
    (\<forall>j \<in> set nf'. at_depth g' (Suc d) j)"
  using assms
proof (induction sel arbitrary: g nf s)
  case (Cons i sel)
  show ?case
  proof (cases "max_nodes \<le> int (node_count g)")
    case True
    then show ?thesis using Cons.prems by simp
  next
    case False
    obtain cs s1 where e: "expand_node g i branches (Suc d) s = (cs, s1)" by (cases "expand_node g i branches (Suc d) s")
    have i: "at_depth g d i" using Cons.prems(2) by simp
    have room: "int (node_count g) + 3 \<le> n" using False Cons.prems(5) by linarith
    note A = expand_attach [OF Cons.prems(1) i Cons.prems(3) e room]
    have "growing n m (attach i cs g) s1" "\<forall>j \<in> set sel. at_depth (attach i cs g) d j"
      "\<forall>j \<in> set (nf @ map th_id cs). at_depth (attach i cs g) (Suc d) j"
      using A Cons.prems(2,4) by auto
    then show ?thesis
      using Cons.IH [of "attach i cs g" s1 "nf @ map th_id cs"] Cons.prems(3,5,6) A False e
      by (auto intro: map_le_trans)
  qed
qed simp

lemma plan_levels_growing:
  assumes "growing n m g s" "\<forall>i \<in> set frontier. at_depth g d i" "d + left \<le> m" "max_nodes + 2 \<le> n"
    and "plan_levels max_nodes branches strategy left (Suc d) g frontier s = (g', s')"
  shows "growing n m g' s' \<and> gr_root g' = gr_root g \<and> map_of (gr_thoughts g) \<subseteq>\<^sub>m map_of (gr_thoughts g')"
  using assms
proof (induction left arbitrary: d g frontier s)
  case (Suc left)
  show ?case
  proof (cases "max_nodes \<le> int (node_count g)")
    case True
    then show ?thesis using Suc.prems by simp
  next
    case False
    obtain sel s1 where sel: "select_frontier g frontier strategy branches s = (sel, s1)"
      by (cases "select_frontier g frontier strategy branches s")
    obtain g1 nf s2 where e: "expand_selected max_nodes branches (Suc d) sel g [] s1 = (g1, nf, s2)"
      by (cases "expand_selected max_nodes branches (Suc d) sel g [] s1") auto
    note F = select_frontier_facts [OF sel]
    have "growing n m g s1" using growing_supply [OF Suc.prems(1)] F by blast
    moreover have "\<forall>i \<in> set sel. at_depth g d i" using F Suc.prems(2) by blast
    ultimately have E: "growing n m g1 s2 \<and> gr_root g1 = gr_root g \<and>
        map_of (gr_thoughts g) \<subseteq>\<^sub>m map_of (gr_thoughts g1) \<and> (\<forall>j \<in> set nf. at_depth g1 (Suc d) j)"
      using expand_selected_growing [OF _ _ _ _ Suc.prems(4) e] Suc.prems(3) by auto
    show ?thesis
      using Suc.IH [of g1 s2 nf "Suc d"] E Suc.prems(3,4,5) False sel e
      by (auto split: if_splits intro: map_le_trans)
  qed
qed simp

lemma root_growing:
  assumes "supply_ok s" "1 \<le> n"
  shows "growing n m \<lparr>gr_thoughts = [(su_ids s (su_next s), root_thought (su_ids s (su_next s)) task)], gr_edges = [],
      gr_root = su_ids s (su_next s)\<rparr> (s\<lparr>su_next := su_next s + 1\<rparr>)"
  using assms
  by (auto simp: growing_def thought_tree_def supply_ok_def drawn_def node_count_def dict_values_def
      children_of_def root_thought_def good_node_def wf_dict_def)

lemma plan_growing:
  assumes "supply_ok s" "plan task max_branches depths strategy p s = (g, p', s')"
  shows "growing (max 1 (pl_max_nodes p + 2)) (nat depths) g s' \<and>
    map_of (gr_thoughts g) (gr_root g) = Some (root_thought (su_ids s (su_next s)) task)"
proof -
  let ?i = "su_ids s (su_next s)"
  let ?g = "\<lparr>gr_thoughts = [(?i, root_thought ?i task)], gr_edges = [], gr_root = ?i\<rparr>"
  obtain s1 where l: "plan_levels (pl_max_nodes p) (clamp_branches max_branches) strategy (nat depths) (Suc 0) ?g [?i]
      (s\<lparr>su_next := su_next s + 1\<rparr>) = (g, s1)" "s' = s1"
    using assms(2) by (auto simp: plan_def make_id_def split: prod.splits)
  have "\<forall>j \<in> set [?i]. at_depth ?g 0 j" by (simp add: at_depth_def root_thought_def)
  then show ?thesis
    using plan_levels_growing [where n = "max 1 (pl_max_nodes p + 2)" and m = "nat depths",
        OF root_growing [OF assms(1)] _ _ _ l(1)] l(2)
    by (auto simp: map_le_def)
qed

text \<open>
  C25: Whatever the strategy and the draws, a plan is a tree: its root has no parent and depth 0, every
  other thought is one deeper than its parent and stands among its edges, in order of creation, under
  its own identifier. The limit of nodes is exceeded by at most two, because it is looked at before a node
  is expanded and not before a child is added; no thought is deeper than asked, and the statistics count it.
\<close>

theorem plan_builds_tree:
  assumes "supply_ok s"
  shows "case plan task max_branches depths strategy p s of
     (g, p', s') \<Rightarrow>
       thought_tree g \<and> int (node_count g) \<le> max 1 (pl_max_nodes p + 2) \<and> int (max_depth g) \<le> max 0 depths \<and>
       p' = p\<lparr>pl_plans := pl_plans p + 1, pl_nodes := pl_nodes p + node_count g\<rparr>"
proof -
  obtain g p' s' where pl: "plan task max_branches depths strategy p s = (g, p', s')"
    by (cases "plan task max_branches depths strategy p s") auto
  note G = plan_growing [OF assms pl, unfolded growing_def]
  have "max_depth g \<le> nat depths" using G by (auto simp: max_depth_def dict_values_def)
  moreover have "p' = p\<lparr>pl_plans := pl_plans p + 1, pl_nodes := pl_nodes p + node_count g\<rparr>"
    using pl by (auto simp: plan_def split: prod.splits)
  ultimately show ?thesis using G pl by auto
qed

theorem plan_builds_tree_witness:
  "let s = \<lparr>su_ids = (\<lambda>n. replicate (Suc n) (CHR ''x'')), su_next = 0, su_rng = \<lparr>rg_nat = id, rg_rat = (\<lambda>_. 0), rg_pos = 0\<rparr>\<rparr>;
       p = \<lparr>pl_max_nodes = 5, pl_plans = 0, pl_nodes = 0, pl_pruned = 0\<rparr>
   in case plan ''t'' 3 4 RANDOM p s of
     (g, p', s') \<Rightarrow>
       thought_tree g \<and> int (node_count g) \<le> max 1 (pl_max_nodes p + 2) \<and> int (max_depth g) \<le> max 0 4 \<and>
       p' = p\<lparr>pl_plans := pl_plans p + 1, pl_nodes := pl_nodes p + node_count g\<rparr>"
  unfolding Let_def
  by (rule plan_builds_tree) (auto simp: supply_ok_def inj_def dest: arg_cong [of _ _ length])

text \<open>A limit of five nodes and three branches give a plan of seven nodes.\<close>

lemma limit_exceeded:
  "let s = \<lparr>su_ids = (\<lambda>n. replicate (Suc n) (CHR ''x'')), su_next = 0, su_rng = \<lparr>rg_nat = id, rg_rat = (\<lambda>_. 0), rg_pos = 0\<rparr>\<rparr>;
       p = \<lparr>pl_max_nodes = 5, pl_plans = 0, pl_nodes = 0, pl_pruned = 0\<rparr>
   in node_count (fst (plan ''t'' 3 3 BFS p s)) = 7"
  by code_simp


subsection \<open>The way to the root\<close>

lemma tree_node:
  assumes "thought_tree g" "map_of (gr_thoughts g) i = Some t"
  shows "i \<noteq> [] \<and> th_id t = i \<and> good_node g t"
  using assms map_of_SomeD [OF assms(2)] by (auto simp: thought_tree_def)

lemma climb_tree:
  assumes "thought_tree g" "map_of (gr_thoughts g) i = Some t" "th_depth t = d"
  shows "\<exists>path. (\<forall>acc. climb g (Some i) acc = Some (acc @ path)) \<and> length path = d + 1 \<and> hd path = t \<and>
    th_id (last path) = gr_root g \<and> successively (\<lambda>a b. th_parent a = Some (th_id b)) path"
  using assms(2,3)
proof (induction d arbitrary: i t)
  case 0
  note N = tree_node [OF assms(1) 0(1)]
  then have "th_parent t = None" "i = gr_root g"
    using 0(2) by (auto simp: good_node_def split: option.splits)
  moreover have "climb g (Some i) acc = Some (acc @ [t])" for acc
    using 0(1) \<open>th_parent t = None\<close> by (simp add: climb.simps)
  ultimately show ?case using N by (intro exI [of _ "[t]"]) auto
next
  case (Suc d)
  note N = tree_node [OF assms(1) Suc.prems(1)]
  obtain p q where p: "th_parent t = Some p" "map_of (gr_thoughts g) p = Some q" "th_depth q = d"
    using N Suc.prems(2) by (auto simp: good_node_def split: option.splits)
  obtain path where path: "\<forall>acc. climb g (Some p) acc = Some (acc @ path)" "length path = d + 1" "hd path = q"
      "th_id (last path) = gr_root g" "successively (\<lambda>a b. th_parent a = Some (th_id b)) path"
    using Suc.IH [OF p(2,3)] by blast
  have "climb g (Some i) acc = Some (acc @ t # path)" for acc
    using Suc.prems(1) p(1) path(1) by (subst climb.simps) simp
  moreover have "path \<noteq> []" using path(2) by auto
  moreover have "th_id q = p" using tree_node [OF assms(1) p(2)] by blast
  ultimately show ?case
    using path p(1) by (intro exI [of _ "t # path"]) (auto simp: successively_Cons)
qed

text \<open>
  C27: On a plan the way from a thought to the root ends: it has one node per depth, starts at the root,
  ends in the thought, and each node is the parent of the next.
\<close>

theorem plan_path_to_root:
  assumes "supply_ok s"
  shows "case plan task max_branches depths strategy p s of
     (g, _, _) \<Rightarrow> list_all (\<lambda>(i, t).
       case get_path_to_root g i of
         None \<Rightarrow> False
       | Some path \<Rightarrow>
           length path = th_depth t + 1 \<and> last path = t \<and> th_id (hd path) = gr_root g \<and>
           successively (\<lambda>a b. th_parent b = Some (th_id a)) path) (gr_thoughts g)"
proof -
  obtain g p' s' where pl: "plan task max_branches depths strategy p s = (g, p', s')"
    by (cases "plan task max_branches depths strategy p s") auto
  have T: "thought_tree g" using plan_growing [OF assms pl] by (simp add: growing_def)
  have "case get_path_to_root g i of
         None \<Rightarrow> False
       | Some path \<Rightarrow>
           length path = th_depth t + 1 \<and> last path = t \<and> th_id (hd path) = gr_root g \<and>
           successively (\<lambda>a b. th_parent b = Some (th_id a)) path" if "(i, t) \<in> set (gr_thoughts g)" for i t
  proof -
    have "map_of (gr_thoughts g) i = Some t" using T that by (simp add: thought_tree_def wf_dict_get)
    then obtain path where path: "climb g (Some i) [] = Some path" "length path = th_depth t + 1" "hd path = t"
        "th_id (last path) = gr_root g" "successively (\<lambda>a b. th_parent a = Some (th_id b)) path"
      using climb_tree [OF T _ refl] by fastforce
    moreover have "path \<noteq> []" using path(2) by auto
    ultimately show ?thesis
      by (simp add: get_path_to_root_def hd_rev last_rev)
  qed
  then show ?thesis by (auto simp: pl list_all_iff)
qed

theorem plan_path_to_root_witness:
  "let s = \<lparr>su_ids = (\<lambda>n. replicate (Suc n) (CHR ''x'')), su_next = 0, su_rng = \<lparr>rg_nat = id, rg_rat = (\<lambda>_. 0), rg_pos = 0\<rparr>\<rparr>;
       p = \<lparr>pl_max_nodes = 20, pl_plans = 0, pl_nodes = 0, pl_pruned = 0\<rparr>
   in case plan ''t'' 3 2 BEAM p s of
     (g, _, _) \<Rightarrow> list_all (\<lambda>(i, t).
       case get_path_to_root g i of
         None \<Rightarrow> False
       | Some path \<Rightarrow>
           length path = th_depth t + 1 \<and> last path = t \<and> th_id (hd path) = gr_root g \<and>
           successively (\<lambda>a b. th_parent b = Some (th_id a)) path) (gr_thoughts g)"
  unfolding Let_def
  by (rule plan_path_to_root) (auto simp: supply_ok_def inj_def dest: arg_cong [of _ _ length])

lemma climb_cycle:
  assumes "map_of (gr_thoughts g) a = Some t" "th_parent t = Some a"
  shows "climb g (Some a) path = None"
proof -
  have no: "\<not> (h = g \<and> c = Some a)" if "climb h c acc = Some y" for h c acc y
    by (rule climb.raw_induct [where P = "\<lambda>h c acc y. \<not> (h = g \<and> c = Some a)", OF _ that])
      (use assms in \<open>auto split: option.splits; blast\<close>)
  then show ?thesis by (cases "climb g (Some a) path") auto
qed

text \<open>
  \<open>add_thought\<close> lets a thought in that is its own parent, and from then on the search for the way to
  the root does not return.
\<close>

theorem own_parent_never_ends:
  assumes "th_parent t = Some (th_id t)"
  shows "case add_thought t g of Inl _ \<Rightarrow> map_of (gr_thoughts g) (th_id t) \<noteq> None | Inr h \<Rightarrow> get_path_to_root h (th_id t) = None"
  using climb_cycle [of "g\<lparr>gr_thoughts := AList.update (th_id t) t (gr_thoughts g),
             gr_edges := (case th_parent t of
                 None \<Rightarrow> gr_edges g
               | Some p \<Rightarrow> if p = [] then gr_edges g else add_edge p (th_id t) (gr_edges g))\<rparr>" "th_id t" t] assms
  by (simp add: add_thought_def get_path_to_root_def)

theorem own_parent_never_ends_witness:
  "let t = \<lparr>th_id = ''a'', th_content = [], th_parent = Some ''a'', th_score = 0, th_depth = 0, th_meta = []\<rparr>
   in case add_thought t (empty_graph []) of
        Inl _ \<Rightarrow> map_of (gr_thoughts (empty_graph [])) (th_id t) \<noteq> None
      | Inr h \<Rightarrow> get_path_to_root h (th_id t) = None"
  unfolding Let_def by (rule own_parent_never_ends) simp

subsection \<open>The root always wins\<close>

definition root_wins :: "thought_graph \<Rightarrow> thought \<Rightarrow> bool" where
  "root_wins h r \<longleftrightarrow>
     map_of (gr_thoughts h) (gr_root h) = Some r \<and> gr_root h \<in> set (find_leaves h) \<and> th_score r = 1 \<and>
     (\<forall>i \<in> set (find_leaves h). i \<noteq> [] \<and>
        (case map_of (gr_thoughts h) i of
           None \<Rightarrow> False
         | Some t \<Rightarrow>
             (case th_parent t of None \<Rightarrow> True | Some p \<Rightarrow> map_of (gr_thoughts h) p = None) \<and>
             (i = gr_root h \<or> th_score t < 1)))"

definition leaf_entry :: "thought_graph \<Rightarrow> string \<Rightarrow> rat \<times> thought list" where
  "leaf_entry h i = (case map_of (gr_thoughts h) i of None \<Rightarrow> (0, []) | Some t \<Rightarrow> (th_score t, [t]))"

lemma leaf_paths_single:
  assumes "\<forall>i \<in> set is. i \<noteq> [] \<and>
        (case map_of (gr_thoughts h) i of
           None \<Rightarrow> False
         | Some t \<Rightarrow> (case th_parent t of None \<Rightarrow> True | Some p \<Rightarrow> map_of (gr_thoughts h) p = None))"
  shows "leaf_paths h is = Some (map (leaf_entry h) is)"
  using assms
proof (induction "is")
  case (Cons i "is")
  obtain t where t: "map_of (gr_thoughts h) i = Some t" "i \<noteq> []"
      "case th_parent t of None \<Rightarrow> True | Some p \<Rightarrow> map_of (gr_thoughts h) p = None"
    using Cons.prems by (auto split: option.splits)
  have "climb_truthy h (Some i) [] = climb_truthy h (th_parent t) [t]"
    using t(1,2) by (subst climb_truthy.simps) simp
  also have "\<dots> = Some [t]"
    using t(3) by (subst climb_truthy.simps) (simp split: option.splits)
  finally have "climb_truthy h (Some i) [] = Some [t]" .
  then show ?case using Cons t(1) by (simp add: leaf_entry_def path_score_def)
qed simp

lemma hd_sort_key_least:
  assumes "xs \<noteq> []"
  shows "hd (sort_key f xs) \<in> set xs \<and> (\<forall>y \<in> set xs. f (hd (sort_key f xs)) \<le> f y)"
proof -
  obtain z zs where z: "sort_key f xs = z # zs" using assms by (metis neq_Nil_conv set_empty set_sort)
  have s: "set xs = set (z # zs)" by (metis z set_sort)
  have "sorted (map f (z # zs))" unfolding z [symmetric] by simp
  then show ?thesis by (auto simp: s z)
qed

lemma root_wins_top:
  assumes "root_wins h r" "1 \<le> k"
  shows "\<exists>rest. top_k_paths h k = Some ([r] # rest)"
proof -
  note W = assms(1) [unfolded root_wins_def]
  let ?ps = "map (leaf_entry h) (find_leaves h)"
  let ?f = "\<lambda>x :: rat \<times> thought list. - fst x"
  have lp: "leaf_paths h (find_leaves h) = Some ?ps"
    by (rule leaf_paths_single) (use W in \<open>auto split: option.splits\<close>)
  have rin: "(1, [r]) \<in> set ?ps"
    using W by (auto simp: leaf_entry_def image_iff intro!: bexI [of _ "gr_root h"])
  then have ne: "?ps \<noteq> []" by auto
  note H = hd_sort_key_least [OF ne, of ?f]
  then obtain i where i: "i \<in> set (find_leaves h)" "hd (sort_key ?f ?ps) = leaf_entry h i" by auto
  have "?f (hd (sort_key ?f ?ps)) \<le> ?f (1, [r])" using H rin by blast
  then have "1 \<le> fst (leaf_entry h i)" by (simp add: i(2))
  moreover obtain t where t: "map_of (gr_thoughts h) i = Some t" "i = gr_root h \<or> th_score t < 1"
  proof -
    have "case map_of (gr_thoughts h) i of None \<Rightarrow> False | Some t \<Rightarrow> i = gr_root h \<or> th_score t < 1"
      using W i(1) by (auto split: option.splits)
    then show thesis using that by (auto split: option.splits)
  qed
  ultimately have "i = gr_root h" by (auto simp: leaf_entry_def)
  then have "leaf_entry h i = (1, [r])" using W by (simp add: leaf_entry_def)
  then have "hd (sort_key ?f ?ps) = (1, [r])" using i(2) by simp
  moreover have "sort_key ?f ?ps \<noteq> []" using ne by (metis set_empty set_sort)
  ultimately obtain rest where "sort_key ?f ?ps = (1, [r]) # rest" by (cases "sort_key ?f ?ps") auto
  then show ?thesis using assms(2) lp by (cases k) (auto simp: top_k_paths_def)
qed

lemma root_wins_consolidate:
  assumes "root_wins h r"
  shows "consolidate h mode =
    Some (if mode = BEST_PATH then take 80 (th_content r) else take 60 (th_content r))"
proof -
  obtain rest1 rest3 where k: "top_k_paths h 1 = Some ([r] # rest1)" "top_k_paths h 3 = Some ([r] # rest3)"
    using root_wins_top [OF assms, of 1] root_wins_top [OF assms, of 3] by auto
  have b: "get_best_path h = Some [r]" by (simp add: get_best_path_def k del: One_nat_def)
  show ?thesis
    by (cases mode) (simp_all add: consolidate_def b k weighted_fusion_def
        majority_ensemble_def merge_and_refine_def join_best_def)
qed

lemma tree_root_no_child:
  assumes "thought_tree g"
  shows "gr_root g \<notin> set (children_of g p)"
proof
  assume "gr_root g \<in> set (children_of g p)"
  then obtain i t where "(i, t) \<in> set (gr_thoughts g)" "th_parent t = Some p" "th_id t = gr_root g"
    by (auto simp: children_of_def dict_values_def)
  then show False using assms by (auto simp: thought_tree_def good_node_def)
qed

text \<open>a part of a tree that has its root: kept nodes, and the kept children of each\<close>

definition part_of :: "thought_graph \<Rightarrow> thought_graph \<Rightarrow> bool" where
  "part_of h g \<longleftrightarrow>
     gr_root h = gr_root g \<and> map_of (gr_thoughts h) \<subseteq>\<^sub>m map_of (gr_thoughts g) \<and>
     map_of (gr_thoughts h) (gr_root g) \<noteq> None \<and> wf_dict (gr_edges h) \<and>
     (\<forall>p. map_of (gr_edges h) p =
        (if map_of (gr_thoughts h) p = None then None
         else map_option (filter (\<lambda>c. map_of (gr_thoughts h) c \<noteq> None)) (map_of (gr_edges g) p)))"

lemma find_leaves_iff:
  "wf_dict (gr_edges h) \<Longrightarrow>
   i \<in> set (find_leaves h) \<longleftrightarrow>
     map_of (gr_thoughts h) i \<noteq> None \<and> (\<forall>p cs. map_of (gr_edges h) p = Some cs \<longrightarrow> i \<notin> set cs)"
  by (auto simp: find_leaves_def dict_values_def map_of_eq_None_iff wf_dict_get [symmetric])

lemma part_root_wins:
  assumes g: "thought_tree g" and h: "part_of h g" and r: "map_of (gr_thoughts g) (gr_root g) = Some r"
  shows "root_wins h r"
proof -
  note H = h [unfolded part_of_def]
  have le: "map_of (gr_thoughts g) i = Some t" if "map_of (gr_thoughts h) i = Some t" for i t
    using H that by (metis domI map_le_def)
  have edges: "map_of (gr_edges g) p = (if children_of g p = [] then None else Some (children_of g p))" for p
    using g by (simp add: thought_tree_def)
  have rin: "map_of (gr_thoughts h) (gr_root h) = Some r" using H r le by fastforce
  have "th_parent r = None" using g r by (simp add: thought_tree_def)
  then have score: "th_score r = 1" using tree_node [OF g r] by (simp add: good_node_def)
  have rleaf: "gr_root h \<in> set (find_leaves h)"
    using rin H tree_root_no_child [OF g] by (auto simp: find_leaves_iff edges split: if_splits)
  have "i \<noteq> [] \<and> (case map_of (gr_thoughts h) i of
           None \<Rightarrow> False
         | Some t \<Rightarrow>
             (case th_parent t of None \<Rightarrow> True | Some p \<Rightarrow> map_of (gr_thoughts h) p = None) \<and>
             (i = gr_root h \<or> th_score t < 1))" if leaf: "i \<in> set (find_leaves h)" for i
  proof -
    obtain t where t: "map_of (gr_thoughts h) i = Some t" using leaf H by (auto simp: find_leaves_iff)
    note N = tree_node [OF g le [OF t]]
    show ?thesis
    proof (cases "th_parent t")
      case None
      then show ?thesis using N t H by (auto simp: good_node_def)
    next
      case (Some p)
      have "i \<in> set (children_of g p)"
        using N Some map_of_SomeD [OF le [OF t]] by (force simp: children_of_def dict_values_def)
      then have ne: "children_of g p \<noteq> []"
          "i \<in> set (filter (\<lambda>c. map_of (gr_thoughts h) c \<noteq> None) (children_of g p))"
        using t by auto
      have "map_of (gr_thoughts h) p = None"
      proof (rule ccontr)
        assume "map_of (gr_thoughts h) p \<noteq> None"
        then have "map_of (gr_edges h) p = Some (filter (\<lambda>c. map_of (gr_thoughts h) c \<noteq> None) (children_of g p))"
          using H ne(1) by (simp add: edges)
        then show False using leaf ne(2) find_leaves_iff [of h i] H by blast
      qed
      then show ?thesis using N t Some by (auto simp: good_node_def)
    qed
  qed
  then show ?thesis using rin rleaf score unfolding root_wins_def by blast
qed

definition set_order :: "(string list \<Rightarrow> string list) \<Rightarrow> bool" where
  "set_order arrange \<longleftrightarrow> (\<forall>xs. mset (arrange xs) = mset xs)"

lemma keep_nodes:
  assumes "\<forall>i \<in> set is. map_of (gr_thoughts g) i \<noteq> None" "wf_dict (gr_edges h)"
  shows "gr_root (foldl (keep_node g kept) h is) = gr_root h \<and>
    wf_dict (gr_edges (foldl (keep_node g kept) h is)) \<and>
    map_of (gr_thoughts (foldl (keep_node g kept) h is)) =
      (\<lambda>i. if i \<in> set is then map_of (gr_thoughts g) i else map_of (gr_thoughts h) i) \<and>
    map_of (gr_edges (foldl (keep_node g kept) h is)) =
      (\<lambda>i. if i \<in> set is \<and> map_of (gr_edges g) i \<noteq> None
           then map_option (filter (\<lambda>c. c \<in> set kept)) (map_of (gr_edges g) i) else map_of (gr_edges h) i)"
  using assms
proof (induction "is" arbitrary: h)
  case (Cons i "is")
  obtain t where t: "map_of (gr_thoughts g) i = Some t" using Cons.prems(1) by auto
  have w: "wf_dict (gr_edges (keep_node g kept h i))"
    using Cons.prems(2) by (auto simp: keep_node_def t split: option.split)
  show ?case
    using Cons.IH [OF _ w] Cons.prems(1)
    by (auto simp: keep_node_def t fun_eq_iff split: option.splits)
qed simp

lemma prune_part:
  assumes g: "thought_tree g" and a: "set_order arrange"
  shows "part_of (fst (prune arrange g threshold p)) g"
proof -
  let ?k = "keep_ids g threshold"
  have sk: "set (arrange ?k) = set ?k" using a by (metis mset_eq_setD set_order_def)
  have sub: "\<forall>i \<in> set (arrange ?k). map_of (gr_thoughts g) i \<noteq> None"
    unfolding sk by (auto simp: keep_ids_def map_of_eq_None_iff rev_image_eqI)
  have "map_of (gr_thoughts g) (gr_root g) \<noteq> None" using g by (auto simp: thought_tree_def split: option.splits)
  then obtain r where "(gr_root g, r) \<in> set (gr_thoughts g)" by (auto dest: map_of_SomeD)
  then have rin: "gr_root g \<in> set ?k" by (force simp: keep_ids_def)
  note F = keep_nodes [OF sub, of "empty_graph (gr_root g)" ?k, unfolded sk]
  have e: "wf_dict (gr_edges (empty_graph (gr_root g)))" by (simp add: empty_graph_def)
  define h where "h = foldl (keep_node g ?k) (empty_graph (gr_root g)) (arrange ?k)"
  have emp: "map_of (gr_thoughts (empty_graph (gr_root g))) i = None" "map_of (gr_edges (empty_graph (gr_root g))) i = None"
      "gr_root (empty_graph (gr_root g)) = gr_root g" for i
    by (simp_all add: empty_graph_def)
  have th: "map_of (gr_thoughts h) i = (if i \<in> set ?k then map_of (gr_thoughts g) i else None)" for i
    using F [OF e] by (simp add: h_def emp)
  have ink: "map_of (gr_thoughts h) i \<noteq> None \<longleftrightarrow> i \<in> set ?k" for i using th [of i] sub sk by auto
  have inn: "map_of (gr_thoughts h) i = None \<longleftrightarrow> i \<notin> set ?k" for i using ink [of i] by blast
  have ed: "map_of (gr_edges h) i =
      (if i \<in> set ?k then map_option (filter (\<lambda>c. c \<in> set ?k)) (map_of (gr_edges g) i) else None)" for i
    using F [OF e] by (auto simp: h_def emp)
  have "gr_root h = gr_root g" "wf_dict (gr_edges h)" using F [OF e] by (simp_all add: h_def emp)
  moreover have "map_of (gr_thoughts h) \<subseteq>\<^sub>m map_of (gr_thoughts g)"
    by (auto simp: map_le_def th split: if_splits)
  moreover have "map_of (gr_thoughts h) (gr_root g) \<noteq> None" using ink rin by blast
  moreover have "map_of (gr_edges h) p =
        (if map_of (gr_thoughts h) p = None then None
         else map_option (filter (\<lambda>c. map_of (gr_thoughts h) c \<noteq> None)) (map_of (gr_edges g) p))" for p
    by (simp add: ed inn)
  ultimately have "part_of h g" unfolding part_of_def by blast
  then show ?thesis by (simp add: prune_def Let_def h_def)
qed

lemma tree_part:
  assumes "thought_tree g" "wf_dict (gr_edges g)"
  shows "part_of g g"
proof -
  have "c \<in> set (children_of g p) \<Longrightarrow> map_of (gr_thoughts g) c \<noteq> None" for p c
    using assms(1) by (auto simp: children_of_def dict_values_def thought_tree_def map_of_eq_None_iff rev_image_eqI)
  then have own: "filter (\<lambda>c. map_of (gr_thoughts g) c \<noteq> None) (children_of g p) = children_of g p" for p
    by (auto intro: filter_True)
  have par: "map_of (gr_thoughts g) p \<noteq> None" if "children_of g p \<noteq> []" for p
  proof -
    obtain t where "t \<in> set (dict_values (gr_thoughts g))" "th_parent t = Some p"
      using \<open>children_of g p \<noteq> []\<close> by (auto simp: children_of_def filter_empty_conv)
    then obtain i where "(i, t) \<in> set (gr_thoughts g)" "th_parent t = Some p" by (auto simp: dict_values_def)
    then have "good_node g t" "th_parent t = Some p" using assms(1) by (auto simp: thought_tree_def)
    then show ?thesis by (auto simp: good_node_def split: option.splits)
  qed
  have edges: "map_of (gr_edges g) p = (if children_of g p = [] then None else Some (children_of g p))" for p
    using assms(1) by (simp add: thought_tree_def)
  have "map_of (gr_edges g) p =
        (if map_of (gr_thoughts g) p = None then None
         else map_option (filter (\<lambda>c. map_of (gr_thoughts g) c \<noteq> None)) (map_of (gr_edges g) p))" for p
    using par [of p] own [of p] by (auto simp: edges)
  moreover have "map_of (gr_thoughts g) (gr_root g) \<noteq> None"
    using assms(1) by (auto simp: thought_tree_def split: option.splits)
  ultimately show ?thesis
    using assms(2) unfolding part_of_def by auto
qed

lemma plan_edges_wf:
  assumes "plan task max_branches depths strategy p s = (g, p', s')"
  shows "wf_dict (gr_edges g)"
proof -
  have a: "wf_dict (gr_edges g) \<Longrightarrow> wf_dict (gr_edges (attach i cs g))" for i cs g
    by (induction cs arbitrary: g) (auto simp: attach_def add_edge_def)
  have e: "wf_dict (gr_edges g) \<Longrightarrow> wf_dict (gr_edges (fst (expand_selected m b d sel g nf s)))" for m b d sel g nf s
    by (induction m b d sel g nf s rule: expand_selected.induct) (auto simp: a split: prod.splits)
  have l: "wf_dict (gr_edges g) \<Longrightarrow> wf_dict (gr_edges (fst (plan_levels m b st n d g f s)))" for m b st n d g f s
  proof (induction m b st n d g f s rule: plan_levels.induct)
    case (2 m b st n d g f s)
    obtain sel s1 where sel: "select_frontier g f st b s = (sel, s1)" by (cases "select_frontier g f st b s")
    obtain h nf s2 where h: "expand_selected m b d sel g [] s1 = (h, nf, s2)"
      by (cases "expand_selected m b d sel g [] s1") auto
    have "wf_dict (gr_edges h)" using e [OF 2(2), of m b d sel "[]" s1] h by simp
    then show ?case using 2(1) [OF _ sel [symmetric] h [symmetric] refl] 2(2) sel h by auto
  qed simp
  obtain s1 where "plan_levels (pl_max_nodes p) (clamp_branches max_branches) strategy (nat depths) 1
      \<lparr>gr_thoughts = [(su_ids s (su_next s), root_thought (su_ids s (su_next s)) task)], gr_edges = [],
        gr_root = su_ids s (su_next s)\<rparr> [su_ids s (su_next s)] (s\<lparr>su_next := su_next s + 1\<rparr>) = (g, s1)"
    using assms by (auto simp: plan_def make_id_def split: prod.splits)
  then show ?thesis
    using l [of "\<lparr>gr_thoughts = [(su_ids s (su_next s), root_thought (su_ids s (su_next s)) task)], gr_edges = [],
        gr_root = su_ids s (su_next s)\<rparr>"] by (metis fst_conv thought_graph.select_convs(2) wf_dict_Nil)
qed

text \<open>
  C26: Whatever is asked and however the graph is explored and pruned, the executor answers with the
  first characters of the task itself: what it takes for leaves are the thoughts that are no child of
  another, so that the best path is always the root alone.
\<close>

theorem executor_ignores_exploration:
  assumes "supply_ok s" "set_order arrange"
  shows "fst (execute arrange task max_branches depths threshold p s) =
      Some (take 80 (''Analizar: '' @ take 100 task)) \<and>
    fst (execute_stream task max_branches depths p s) =
      Some (map (\<lambda>chunk. chunk @ '' '') (split_on (CHR '' '') (take 80 (''Analizar: '' @ take 100 task))))"
proof -
  obtain g p' s' where pl: "plan task max_branches depths BFS p s = (g, p', s')"
    by (cases "plan task max_branches depths BFS p s") auto
  let ?r = "root_thought (su_ids s (su_next s)) task"
  have T: "thought_tree g" and r: "map_of (gr_thoughts g) (gr_root g) = Some ?r"
    using plan_growing [OF assms(1) pl] by (simp_all add: growing_def)
  have c: "th_content ?r = ''Analizar: '' @ take 100 task" by (simp add: root_thought_def)
  obtain h p'' where h: "prune arrange g threshold p' = (h, p'')" by (cases "prune arrange g threshold p'")
  have "part_of h g" using prune_part [OF T assms(2), of threshold p'] h by simp
  note H = root_wins_consolidate [OF part_root_wins [OF T this r], of BEST_PATH]
  note G = root_wins_consolidate [OF part_root_wins [OF T tree_part [OF T plan_edges_wf [OF pl]] r], of BEST_PATH]
  show ?thesis using H G c by (simp add: execute_def execute_stream_def pl h)
qed

theorem executor_ignores_exploration_witness:
  "let s = \<lparr>su_ids = (\<lambda>n. replicate (Suc n) (CHR ''x'')), su_next = 0, su_rng = \<lparr>rg_nat = id, rg_rat = (\<lambda>_. 0), rg_pos = 0\<rparr>\<rparr>;
       p = \<lparr>pl_max_nodes = 200, pl_plans = 0, pl_nodes = 0, pl_pruned = 0\<rparr>
   in fst (execute rev ''a b'' 2 3 (3 / 10) p s) = Some (take 80 (''Analizar: '' @ take 100 ''a b'')) \<and>
    fst (execute_stream ''a b'' 2 3 p s) =
      Some (map (\<lambda>chunk. chunk @ '' '') (split_on (CHR '' '') (take 80 (''Analizar: '' @ take 100 ''a b''))))"
  unfolding Let_def
  by (rule executor_ignores_exploration) (auto simp: supply_ok_def set_order_def inj_def dest: arg_cong [of _ _ length])

subsection \<open>Leaves, and the marks of the evaluation\<close>

lemma set_map_filter: "set (List.map_filter f xs) = {y. \<exists>x \<in> set xs. f x = Some y}"
  by (induction xs) (auto simp: List.map_filter_simps split: option.splits)

text \<open>The leaves of the graph are its childless thoughts; those of the planner are its root alone.\<close>

lemma leaves_of_plan:
  assumes "thought_tree g" "wf_dict (gr_edges g)" "set_order arrange"
  shows "set (get_leaves arrange g) = {t \<in> set (dict_values (gr_thoughts g)). children_of g (th_id t) = []}"
    and "set (find_leaves g) = {gr_root g}"
proof -
  have w: "wf_dict (gr_thoughts g)" using assms(1) by (simp add: thought_tree_def)
  have keys: "i \<in> set (map fst (gr_edges g)) \<longleftrightarrow> children_of g i \<noteq> []" for i
  proof -
    have "i \<in> set (map fst (gr_edges g)) \<longleftrightarrow> map_of (gr_edges g) i \<noteq> None" by (simp add: map_of_eq_None_iff)
    then show ?thesis using assms(1) by (simp add: thought_tree_def)
  qed
  have "set (arrange xs) = set xs" for xs using assms(3) by (metis mset_eq_setD set_order_def)
  then have "set (get_leaves arrange g) =
      {t. \<exists>i \<in> set (map fst (gr_thoughts g)). children_of g i = [] \<and> map_of (gr_thoughts g) i = Some t}"
    unfolding get_leaves_def by (auto simp: set_map_filter keys simp del: set_map)
  also have "\<dots> = {t \<in> set (dict_values (gr_thoughts g)). children_of g (th_id t) = []}"
  proof -
    have "(\<exists>i \<in> set (map fst (gr_thoughts g)). children_of g i = [] \<and> map_of (gr_thoughts g) i = Some t) \<longleftrightarrow>
        t \<in> set (dict_values (gr_thoughts g)) \<and> children_of g (th_id t) = []" for t
    proof
      assume "\<exists>i \<in> set (map fst (gr_thoughts g)). children_of g i = [] \<and> map_of (gr_thoughts g) i = Some t"
      then obtain i where "children_of g i = []" "map_of (gr_thoughts g) i = Some t" by blast
      then show "t \<in> set (dict_values (gr_thoughts g)) \<and> children_of g (th_id t) = []"
        using tree_node [OF assms(1)] dict_values_iff [OF w] by metis
    next
      assume t: "t \<in> set (dict_values (gr_thoughts g)) \<and> children_of g (th_id t) = []"
      then obtain i where i: "map_of (gr_thoughts g) i = Some t" using dict_values_iff [OF w] by blast
      moreover have "th_id t = i" using tree_node [OF assms(1) i] by blast
      moreover have "i \<in> set (map fst (gr_thoughts g))" using map_of_SomeD [OF i] by force
      ultimately show "\<exists>i \<in> set (map fst (gr_thoughts g)). children_of g i = [] \<and> map_of (gr_thoughts g) i = Some t"
        using t by metis
    qed
    then show ?thesis by blast
  qed
  finally show "set (get_leaves arrange g) = {t \<in> set (dict_values (gr_thoughts g)). children_of g (th_id t) = []}" .
  obtain r where r: "map_of (gr_thoughts g) (gr_root g) = Some r"
    using assms(1) by (auto simp: thought_tree_def split: option.splits)
  note W = part_root_wins [OF assms(1) tree_part [OF assms(1,2)] r, unfolded root_wins_def]
  have only: "i = gr_root g" if i: "i \<in> set (find_leaves g)" for i
  proof -
    have c: "case map_of (gr_thoughts g) i of None \<Rightarrow> False
        | Some t \<Rightarrow> (case th_parent t of None \<Rightarrow> True | Some p \<Rightarrow> map_of (gr_thoughts g) p = None) \<and>
            (i = gr_root g \<or> th_score t < 1)"
      using W i by blast
    obtain t where t: "map_of (gr_thoughts g) i = Some t" "case th_parent t of None \<Rightarrow> True | Some p \<Rightarrow> map_of (gr_thoughts g) p = None"
      using c by (cases "map_of (gr_thoughts g) i") auto
    show ?thesis
    proof (cases "th_parent t")
      case None
      then show ?thesis using tree_node [OF assms(1) t(1)] by (auto simp: good_node_def)
    next
      case (Some p)
      then show ?thesis using tree_node [OF assms(1) t(1)] t(2) by (simp add: good_node_def)
    qed
  qed
  have "gr_root g \<in> set (find_leaves g)" by (rule W [THEN conjunct2, THEN conjunct1])
  then have "{gr_root g} \<subseteq> set (find_leaves g)" by (rule insert_subsetI) (rule empty_subsetI)
  moreover have "set (find_leaves g) \<subseteq> {gr_root g}" by (rule subsetI) (drule only, erule ssubst, rule singletonI)
  ultimately show "set (find_leaves g) = {gr_root g}" by (rule subset_antisym [rotated])
qed

lemma evaluate_bounds:
  assumes "0 \<le> th_score t" "th_score t \<le> 1"
  shows "0 \<le> evaluate t g \<and> evaluate t g \<le> 1"
proof -
  define n where "n = (case (g, th_parent t) of
              (Some g, Some p) \<Rightarrow>
                if p = [] then 15 / 100 * (1 / 2)
                else 15 / 100 * min 1 (of_nat (length (filter (\<lambda>n. th_parent n = Some p)
                       (dict_values (gr_thoughts g)))) / 5)
            | _ \<Rightarrow> 15 / 100 * (1 / 2 :: rat))"
  have n: "0 \<le> n" "n \<le> 15 / 100" unfolding n_def by (auto split: option.split)
  define c where "c = min 1 (of_nat (length (th_content t)) / 200 :: rat)"
  define d where "d = min 1 (of_nat (th_depth t + 1) / 10 :: rat)"
  have cd: "0 \<le> c" "c \<le> 1" "0 \<le> d" "d \<le> 1" by (auto simp: c_def d_def)
  have e: "evaluate t g = py_round 4 (35 / 100 * c + 35 / 100 * (1 / 2 + 1 / 2 * th_score t) + 15 / 100 * d + n)"
    by (simp add: evaluate_def Let_def c_def d_def n_def)
  have "of_int 0 \<le> (35 / 100 * c + 35 / 100 * (1 / 2 + 1 / 2 * th_score t) + 15 / 100 * d + n) * 10 ^ 4"
    "(35 / 100 * c + 35 / 100 * (1 / 2 + 1 / 2 * th_score t) + 15 / 100 * d + n) * 10 ^ 4 \<le> of_int 10000"
    using n cd assms by (simp_all add: field_simps)
  from py_round_mono_int [OF this(1)] py_round_le_int [OF this(2)] show ?thesis unfolding e by simp
qed

end
