(* ===== verification/AccessGovernance.thy ===== *)
theory AccessGovernance
  imports PyText
begin

text \<open>
  Users, roles and permissions with execution hooks (\<open>orchestrator/multi_user_governance\<close>): role
  inheritance, the users as objects that the dictionary of names refers to, the check of a permission
  with every hook it calls, and the audit log.

  A hook is an identifier; an environment says what it does. It may return, raise, and change
  anything it can reach: the governance itself and a world of its own. The clock is a stream of
  readings.
\<close>

subsection \<open>Roles\<close>

datatype role = ADMIN | EDITOR | VIEWER | AUDITOR

definition roles :: "role list" where
  "roles = [ADMIN, EDITOR, VIEWER, AUDITOR]"

lemma set_roles: "set roles = UNIV"
proof -
  have "r \<in> set roles" for r by (cases r) (simp_all add: roles_def)
  then show ?thesis by blast
qed

instantiation role :: finite
begin

instance
proof
  have "finite (set roles)" by simp
  then show "finite (UNIV :: role set)" unfolding set_roles .
qed

end

fun role_value :: "role \<Rightarrow> string" where
  "role_value ADMIN = ''admin''"
| "role_value EDITOR = ''editor''"
| "role_value VIEWER = ''viewer''"
| "role_value AUDITOR = ''auditor''"

definition role_permissions :: "(role \<times> string list) list" where
  "role_permissions =
     [(ADMIN, [''create_agent'', ''delete_agent'', ''modify_agent'', ''execute_agent'', ''view_logs'',
        ''manage_users'', ''audit_agent'']),
      (EDITOR, [''create_agent'', ''modify_agent'', ''execute_agent'', ''view_logs'']),
      (VIEWER, [''execute_agent'', ''view_logs'']),
      (AUDITOR, [''view_logs'', ''audit_agent''])]"

definition role_hierarchy :: "(role \<times> role option) list" where
  "role_hierarchy = [(ADMIN, Some EDITOR), (EDITOR, Some VIEWER), (VIEWER, None), (AUDITOR, None)]"

lemma card_unvisited:
  fixes r :: role
  shows "r \<notin> V \<Longrightarrow> card (UNIV - insert r V) < card (UNIV - V)"
  by (rule psubset_card_mono) auto

text \<open>the loop over the ancestors, ended by a role without a parent or one already visited\<close>

function collect_permissions ::
  "(role \<times> string list) list \<Rightarrow> (role \<times> role option) list \<Rightarrow> role option \<Rightarrow> role list \<Rightarrow> string list \<Rightarrow> string list" where
  "collect_permissions perms hier current visited acc =
     (case current of
        None \<Rightarrow> acc
      | Some r \<Rightarrow>
          if r \<in> set visited then acc
          else collect_permissions perms hier (dict_get hier r None) (r # visited) (acc @ dict_get perms r []))"
  by pat_completeness auto
termination
  by (relation "measure (\<lambda>(perms, hier, current, visited, acc). card (UNIV - set visited))")
    (auto simp del: card_Diff_insert intro: card_unvisited)

declare collect_permissions.simps [simp del]

text \<open>\<open>for p in permissions: if p not in seen: ...\<close>\<close>

fun keep_unseen :: "string list \<Rightarrow> string list \<Rightarrow> string list" where
  "keep_unseen [] acc = acc"
| "keep_unseen (p # ps) acc = keep_unseen ps (if p \<in> set acc then acc else acc @ [p])"

definition resolve_with :: "(role \<times> string list) list \<Rightarrow> (role \<times> role option) list \<Rightarrow> role \<Rightarrow> string list" where
  "resolve_with perms hier r = keep_unseen (collect_permissions perms hier (Some r) [] []) []"

definition resolve_role_permissions :: "role \<Rightarrow> string list" where
  "resolve_role_permissions = resolve_with role_permissions role_hierarchy"

subsection \<open>State\<close>

type_synonym ctx = "unit payload"

record user =
  us_name :: string
  us_role :: role
  us_permissions :: "string list"
  us_enabled :: bool
  us_metadata :: "unit payload"

record audit_entry =
  ae_time :: int
  ae_user :: string
  ae_action :: string
  ae_detail :: string

record hooks =
  hk_pre :: "nat option"
  hk_post :: "nat option"
  hk_deny :: "nat option"

definition no_hooks :: hooks where
  "no_hooks = \<lparr>hk_pre = None, hk_post = None, hk_deny = None\<rparr>"

text \<open>\<open>gv_heap\<close> holds the user objects, \<open>gv_users\<close> the address of the object of each name.\<close>

record 'w governance =
  gv_heap :: "user list"
  gv_users :: "(string \<times> nat) list"
  gv_log :: "audit_entry list"
  gv_hooks :: hooks
  gv_clock :: "nat \<Rightarrow> int"
  gv_ticks :: nat
  gv_world :: 'w

datatype gov_error = UserExists string | UserUnknown string

datatype pre_result = PreFalse | PreTrue | PreNone | PreRaises string

record 'w hook_env =
  he_pre :: "nat \<Rightarrow> string \<Rightarrow> string \<Rightarrow> ctx \<Rightarrow> 'w governance \<Rightarrow> pre_result \<times> 'w governance"
  he_post :: "nat \<Rightarrow> string \<Rightarrow> string \<Rightarrow> ctx \<Rightarrow> bool \<Rightarrow> 'w governance \<Rightarrow> 'w governance"
  he_deny :: "nat \<Rightarrow> string \<Rightarrow> string \<Rightarrow> ctx \<Rightarrow> string option \<Rightarrow> 'w governance \<Rightarrow> 'w governance"

definition init_governance :: "hooks option \<Rightarrow> (nat \<Rightarrow> int) \<Rightarrow> 'w \<Rightarrow> 'w governance" where
  "init_governance h clock w =
     \<lparr>gv_heap = [], gv_users = [], gv_log = [], gv_hooks = (case h of None \<Rightarrow> no_hooks | Some h \<Rightarrow> h),
      gv_clock = clock, gv_ticks = 0, gv_world = w\<rparr>"

definition find_user :: "string \<Rightarrow> 'w governance \<Rightarrow> nat option" where
  "find_user name g = map_of (gv_users g) name"

definition the_user :: "nat \<Rightarrow> 'w governance \<Rightarrow> user" where
  "the_user a g = gv_heap g ! a"

definition audit_with_user :: "string \<Rightarrow> string \<Rightarrow> string \<Rightarrow> 'w governance \<Rightarrow> 'w governance" where
  "audit_with_user name action detail g =
     g\<lparr>gv_log := gv_log g @ [\<lparr>ae_time = gv_clock g (gv_ticks g), ae_user = name, ae_action = action,
         ae_detail = detail\<rparr>],
       gv_ticks := gv_ticks g + 1\<rparr>"

definition audit :: "string \<Rightarrow> string \<Rightarrow> 'w governance \<Rightarrow> 'w governance" where
  "audit = audit_with_user ''system''"

definition quoted :: "string \<Rightarrow> string" where
  "quoted name = [CHR 0x27] @ name @ [CHR 0x27]"

subsection \<open>Users\<close>

definition add_user ::
  "string \<Rightarrow> role \<Rightarrow> bool \<Rightarrow> unit payload option \<Rightarrow> 'w governance \<Rightarrow> (gov_error + nat) \<times> 'w governance" where
  "add_user name r enabled metadata g =
     (if find_user name g \<noteq> None then (Inl (UserExists name), g)
      else
        let a = length (gv_heap g);
            u = \<lparr>us_name = name, us_role = r, us_permissions = resolve_role_permissions r,
                 us_enabled = enabled, us_metadata = (case metadata of None \<Rightarrow> [] | Some m \<Rightarrow> m)\<rparr>
        in (Inr a,
            audit ''ADD_USER'' (''Usuario '' @ quoted name @ '' rol='' @ role_value r)
              (g\<lparr>gv_heap := gv_heap g @ [u], gv_users := AList.update name a (gv_users g)\<rparr>)))"

definition remove_user :: "string \<Rightarrow> 'w governance \<Rightarrow> (gov_error + unit) \<times> 'w governance" where
  "remove_user name g =
     (if find_user name g = None then (Inl (UserUnknown name), g)
      else
        (Inr (), audit ''REMOVE_USER'' (''Usuario '' @ quoted name @ '' eliminado'')
           (g\<lparr>gv_users := AList.delete name (gv_users g)\<rparr>)))"

definition update_user_role :: "string \<Rightarrow> role \<Rightarrow> 'w governance \<Rightarrow> (gov_error + nat) \<times> 'w governance" where
  "update_user_role name r g =
     (case find_user name g of
        None \<Rightarrow> (Inl (UserUnknown name), g)
      | Some a \<Rightarrow>
          let u = the_user a g
          in (Inr a,
              audit ''UPDATE_ROLE''
                (''Usuario '' @ quoted name @ '' rol='' @ role_value (us_role u) @ '' -> '' @ role_value r)
                (g\<lparr>gv_heap := (gv_heap g)[a := u\<lparr>us_role := r, us_permissions := resolve_role_permissions r\<rparr>]\<rparr>)))"

definition set_user_enabled :: "string \<Rightarrow> bool \<Rightarrow> 'w governance \<Rightarrow> (gov_error + unit) \<times> 'w governance" where
  "set_user_enabled name enabled g =
     (case find_user name g of
        None \<Rightarrow> (Inl (UserUnknown name), g)
      | Some a \<Rightarrow>
          (Inr (),
           audit ''SET_ENABLED''
             (''Usuario '' @ quoted name @ '' '' @ (if enabled then ''habilitado'' else ''deshabilitado''))
             (g\<lparr>gv_heap := (gv_heap g)[a := (the_user a g)\<lparr>us_enabled := enabled\<rparr>]\<rparr>)))"

definition has_user :: "string \<Rightarrow> 'w governance \<Rightarrow> bool" where
  "has_user name g \<longleftrightarrow> find_user name g \<noteq> None"

definition get_user_permissions :: "string \<Rightarrow> 'w governance \<Rightarrow> string list" where
  "get_user_permissions name g =
     (case find_user name g of None \<Rightarrow> [] | Some a \<Rightarrow> us_permissions (the_user a g))"

definition get_users_by_role :: "role \<Rightarrow> 'w governance \<Rightarrow> nat list" where
  "get_users_by_role r g = filter (\<lambda>a. us_role (the_user a g) = r) (dict_values (gv_users g))"

record gov_summary =
  gs_users :: nat
  gs_by_role :: "(string \<times> nat) list"
  gs_permissions :: nat
  gs_entries :: nat
  gs_configured :: "bool \<times> bool \<times> bool"

definition get_summary :: "'w governance \<Rightarrow> gov_summary" where
  "get_summary g =
     \<lparr>gs_users = length (gv_users g),
      gs_by_role = foldl (\<lambda>d a. dict_add d (role_value (us_role (the_user a g))) 1) [] (dict_values (gv_users g)),
      gs_permissions = sum_list (map (\<lambda>a. length (us_permissions (the_user a g))) (dict_values (gv_users g))),
      gs_entries = length (gv_log g),
      gs_configured = (hk_pre (gv_hooks g) \<noteq> None, hk_post (gv_hooks g) \<noteq> None, hk_deny (gv_hooks g) \<noteq> None)\<rparr>"

subsection \<open>The check of a permission\<close>

definition invoke_on_deny ::
  "'w hook_env \<Rightarrow> string \<Rightarrow> string \<Rightarrow> ctx \<Rightarrow> string option \<Rightarrow> 'w governance \<Rightarrow> 'w governance" where
  "invoke_on_deny e name perm c reason g =
     (case hk_deny (gv_hooks g) of None \<Rightarrow> g | Some h \<Rightarrow> he_deny e h name perm c reason g)"

definition invoke_post_exec ::
  "'w hook_env \<Rightarrow> string \<Rightarrow> string \<Rightarrow> ctx \<Rightarrow> bool \<Rightarrow> 'w governance \<Rightarrow> 'w governance" where
  "invoke_post_exec e name perm c granted g =
     (case hk_post (gv_hooks g) of None \<Rightarrow> g | Some h \<Rightarrow> he_post e h name perm c granted g)"

definition deny ::
  "'w hook_env \<Rightarrow> string \<Rightarrow> string \<Rightarrow> ctx \<Rightarrow> string \<Rightarrow> string \<Rightarrow> 'w governance \<Rightarrow> 'w governance" where
  "deny e name perm c detail reason g =
     invoke_post_exec e name perm c False
       (invoke_on_deny e name perm c (Some reason) (audit ''DENIED'' detail g))"

text \<open>Steps 4 and 5, with the object of the user fetched before the hook ran\<close>

definition check_listed ::
  "'w hook_env \<Rightarrow> string \<Rightarrow> string \<Rightarrow> ctx \<Rightarrow> nat \<Rightarrow> 'w governance \<Rightarrow> bool \<times> 'w governance" where
  "check_listed e name perm c a g =
     (let listed = us_permissions (the_user a g)
      in if perm \<in> set listed then
           (True, invoke_post_exec e name perm c True
              (audit ''GRANTED'' (''Usuario '' @ quoted name @ '' permiso='' @ perm @ '' concedido'') g))
         else
           (False, deny e name perm c
              (''Usuario '' @ quoted name @ '' permiso='' @ perm @ '' denegado (tiene: '' @
               py_repr (PList (map PStr listed) :: json) @ '')'')
              ''permiso no asignado'' g))"

definition check_permission ::
  "'w hook_env \<Rightarrow> string \<Rightarrow> string \<Rightarrow> ctx option \<Rightarrow> 'w governance \<Rightarrow> bool \<times> 'w governance" where
  "check_permission e name perm ctx g =
     (let c = (case ctx of None \<Rightarrow> [] | Some c \<Rightarrow> c)
      in case find_user name g of
           None \<Rightarrow>
             (False, deny e name perm c (''Usuario '' @ quoted name @ '' no existe (permiso='' @ perm @ '')'')
                ''usuario no existe'' g)
         | Some a \<Rightarrow>
             if \<not> us_enabled (the_user a g) then
               (False, deny e name perm c (''Usuario '' @ quoted name @ '' deshabilitado (permiso='' @ perm @ '')'')
                  ''usuario deshabilitado'' g)
             else
               (case hk_pre (gv_hooks g) of
                  None \<Rightarrow> check_listed e name perm c a g
                | Some h \<Rightarrow>
                    (case he_pre e h name perm c g of
                       (PreRaises msg, g) \<Rightarrow>
                         (False, invoke_post_exec e name perm c False
                            (audit ''HOOK_ERROR''
                               (''pre_exec hook error para '' @ quoted name @ '': '' @ msg) g))
                     | (PreFalse, g) \<Rightarrow>
                         (False, deny e name perm c
                            (''Usuario '' @ quoted name @ '' bloqueado por pre_exec (permiso='' @ perm @ '')'')
                            ''bloqueado por pre_exec hook'' g)
                     | (PreTrue, g) \<Rightarrow> check_listed e name perm c a g
                     | (PreNone, g) \<Rightarrow> check_listed e name perm c a g)))"

text \<open>The block of the caller runs with the answer, whatever it is.\<close>

definition with_permission ::
  "'w hook_env \<Rightarrow> string \<Rightarrow> string \<Rightarrow> ctx option \<Rightarrow> (bool \<Rightarrow> 'w governance \<Rightarrow> 'a \<times> 'w governance) \<Rightarrow>
   'w governance \<Rightarrow> 'a \<times> 'w governance" where
  "with_permission e name perm ctx block g =
     (case check_permission e name perm ctx g of (granted, g) \<Rightarrow> block granted g)"

definition set_hooks :: "hooks \<Rightarrow> 'w governance \<Rightarrow> 'w governance" where
  "set_hooks h g = g\<lparr>gv_hooks := h\<rparr>"

subsection \<open>The audit log\<close>

definition get_audit_log_since :: "int \<Rightarrow> 'w governance \<Rightarrow> audit_entry list" where
  "get_audit_log_since since g = filter (\<lambda>x. since \<le> ae_time x) (gv_log g)"

definition clear_audit_log :: "'w governance \<Rightarrow> 'w governance" where
  "clear_audit_log g = g\<lparr>gv_log := []\<rparr>"

definition count_audit_entries :: "'w governance \<Rightarrow> nat" where
  "count_audit_entries g = length (gv_log g)"

definition get_audit_summary :: "'w governance \<Rightarrow> (string \<times> nat) list" where
  "get_audit_summary g = foldl (\<lambda>d x. dict_add d (ae_action x) 1) [] (gv_log g)"

subsection \<open>Inheritance\<close>

definition parent_of :: "(role \<times> role option) list \<Rightarrow> (role \<times> role) set" where
  "parent_of hier = {(r, p). dict_get hier r None = Some p}"

lemma keep_unseen_set: "set (keep_unseen ps acc) = set acc \<union> set ps"
  by (induction ps acc rule: keep_unseen.induct) auto

lemma keep_unseen_distinct: "distinct acc \<Longrightarrow> distinct (keep_unseen ps acc)"
  by (induction ps acc rule: keep_unseen.induct) auto

lemma collect_permissions_visits:
  assumes "\<forall>v p. v \<in> set visited \<longrightarrow> (v, p) \<in> parent_of hier \<longrightarrow> p \<in> set visited \<or> current = Some p"
    and "\<forall>v \<in> set visited. set (dict_get perms v []) \<subseteq> set acc"
  shows "\<exists>W. set visited \<subseteq> W \<and> (\<forall>r. current = Some r \<longrightarrow> r \<in> W) \<and>
    (\<forall>v p. v \<in> W \<longrightarrow> (v, p) \<in> parent_of hier \<longrightarrow> p \<in> W) \<and>
    (\<forall>x \<in> W. x \<in> set visited \<or> (\<exists>r. current = Some r \<and> (r, x) \<in> (parent_of hier)\<^sup>*)) \<and>
    set (collect_permissions perms hier current visited acc) = set acc \<union> (\<Union>x \<in> W. set (dict_get perms x []))"
  using assms
proof (induction perms hier current visited acc rule: collect_permissions.induct)
  case (1 perms hier current visited acc)
  show ?case
  proof (cases current)
    case None
    then show ?thesis
      using 1(2,3) by (intro exI [of _ "set visited"]) (auto simp: collect_permissions.simps)
  next
    case (Some r)
    show ?thesis
    proof (cases "r \<in> set visited")
      case True
      then show ?thesis
        using 1(2,3) Some by (intro exI [of _ "set visited"]) (auto simp: collect_permissions.simps)
    next
      case False
      have closed: "\<forall>v p. v \<in> set (r # visited) \<longrightarrow> (v, p) \<in> parent_of hier \<longrightarrow>
          p \<in> set (r # visited) \<or> dict_get hier r None = Some p"
        using 1(2) Some by (auto simp: parent_of_def)
      have held: "\<forall>v \<in> set (r # visited). set (dict_get perms v []) \<subseteq> set (acc @ dict_get perms r [])"
        using 1(3) by auto
      have step: "collect_permissions perms hier current visited acc =
          collect_permissions perms hier (dict_get hier r None) (r # visited) (acc @ dict_get perms r [])"
        using Some False by (subst collect_permissions.simps) simp
      obtain W where W: "set (r # visited) \<subseteq> W"
          "\<forall>v p. v \<in> W \<longrightarrow> (v, p) \<in> parent_of hier \<longrightarrow> p \<in> W"
          "\<forall>x \<in> W. x \<in> set (r # visited) \<or> (\<exists>q. dict_get hier r None = Some q \<and> (q, x) \<in> (parent_of hier)\<^sup>*)"
          "set (collect_permissions perms hier (dict_get hier r None) (r # visited) (acc @ dict_get perms r [])) =
            set (acc @ dict_get perms r []) \<union> (\<Union>x \<in> W. set (dict_get perms x []))"
        using 1(1) [OF Some False closed held] by (elim exE conjE) (rule that; assumption)
      have "x \<in> set visited \<or> (r, x) \<in> (parent_of hier)\<^sup>*" if xW: "x \<in> W" for x
      proof -
        consider "x = r" | "x \<in> set visited" | q where "dict_get hier r None = Some q" "(q, x) \<in> (parent_of hier)\<^sup>*"
          using W(3) xW by auto
        then show ?thesis
        proof cases
          case 3
          then have "(r, q) \<in> parent_of hier" by (simp add: parent_of_def)
          then have "(r, x) \<in> (parent_of hier)\<^sup>*" using 3(2) by (rule converse_rtrancl_into_rtrancl)
          then show ?thesis by (rule disjI2)
        qed auto
      qed
      moreover have "set (collect_permissions perms hier current visited acc) =
          set acc \<union> (\<Union>x \<in> W. set (dict_get perms x []))"
        unfolding step W(4) using W(1) by auto
      moreover have "set visited \<subseteq> W" "\<forall>q. current = Some q \<longrightarrow> q \<in> W" using W(1) Some by auto
      moreover have "\<forall>x \<in> W. x \<in> set visited \<or> (\<exists>q. current = Some q \<and> (q, x) \<in> (parent_of hier)\<^sup>*)"
        using calculation(1) Some by simp
      ultimately show ?thesis using W(2) by (intro exI [of _ W]) (rule conjI, assumption)+
    qed
  qed
qed

text \<open>
  C22: Whatever the tables, a role has, each once, the permissions of itself and of every role it
  inherits from, however indirectly; a cyclic hierarchy ends too.
\<close>

theorem resolve_with_exact:
  "distinct (resolve_with perms hier r) \<and>
   set (resolve_with perms hier r) = (\<Union>x \<in> (parent_of hier)\<^sup>* `` {r}. set (dict_get perms x []))"
proof -
  obtain W where W: "r \<in> W" "\<forall>v p. v \<in> W \<longrightarrow> (v, p) \<in> parent_of hier \<longrightarrow> p \<in> W"
      "\<forall>x \<in> W. (r, x) \<in> (parent_of hier)\<^sup>*"
      "set (collect_permissions perms hier (Some r) [] []) = (\<Union>x \<in> W. set (dict_get perms x []))"
    using collect_permissions_visits [of "[]" hier "Some r" perms "[]"] by auto
  have "x \<in> W" if "(r, x) \<in> (parent_of hier)\<^sup>*" for x
    using that W(1) by (induction rule: rtrancl_induct) (use W(2) in blast)+
  then have "W = (parent_of hier)\<^sup>* `` {r}" using W(3) by auto
  then show ?thesis
    using W(4) by (simp add: resolve_with_def keep_unseen_set keep_unseen_distinct)
qed

text \<open>The roles of the code\<close>

lemma role_ladder:
  "list_all (\<lambda>p. p \<in> set (resolve_role_permissions EDITOR)) (resolve_role_permissions VIEWER)"
  "list_all (\<lambda>p. p \<in> set (resolve_role_permissions ADMIN)) (resolve_role_permissions EDITOR)"
  "list_all (\<lambda>p. p \<in> set (resolve_role_permissions ADMIN)) (resolve_role_permissions AUDITOR)"
  "list_all (\<lambda>p. p \<notin> set (resolve_role_permissions AUDITOR)) [''execute_agent'', ''manage_users'']"
  by code_simp+

subsection \<open>Histories, against a directory of roles\<close>

datatype gov_op =
    GAdd string role bool "unit payload option"
  | GRemove string
  | GRole string role
  | GEnable string bool
  | GCheck string string "ctx option"
  | GHooks hooks
  | GClear

datatype gov_outcome = Done | Refused | Answer bool

definition outcome_of :: "(gov_error + 'a) \<times> 'w governance \<Rightarrow> gov_outcome \<times> 'w governance" where
  "outcome_of r = (case r of (Inl _, g) \<Rightarrow> (Refused, g) | (Inr _, g) \<Rightarrow> (Done, g))"

fun gov_exec :: "'w hook_env \<Rightarrow> gov_op \<Rightarrow> 'w governance \<Rightarrow> gov_outcome \<times> 'w governance" where
  "gov_exec e (GAdd n r en m) g = outcome_of (add_user n r en m g)"
| "gov_exec e (GRemove n) g = outcome_of (remove_user n g)"
| "gov_exec e (GRole n r) g = outcome_of (update_user_role n r g)"
| "gov_exec e (GEnable n en) g = outcome_of (set_user_enabled n en g)"
| "gov_exec e (GCheck n p c) g = (case check_permission e n p c g of (b, g) \<Rightarrow> (Answer b, g))"
| "gov_exec e (GHooks h) g = (Done, set_hooks h g)"
| "gov_exec e GClear g = (Done, clear_audit_log g)"

fun gov_run :: "'w hook_env \<Rightarrow> gov_op list \<Rightarrow> 'w governance \<Rightarrow> gov_outcome list \<times> 'w governance" where
  "gov_run e [] g = ([], g)"
| "gov_run e (op # ops) g =
     (case gov_exec e op g of (out, g) \<Rightarrow> (case gov_run e ops g of (outs, g) \<Rightarrow> (out # outs, g)))"

text \<open>The specification: roles by name, the hooks, and the actions of the log.\<close>

record directory =
  di_users :: "string \<Rightarrow> (role \<times> bool) option"
  di_hooks :: hooks
  di_log :: "string list"

text \<open>what the pre hook answers\<close>

type_synonym answers = "nat \<Rightarrow> string \<Rightarrow> string \<Rightarrow> ctx \<Rightarrow> pre_result"

definition verdict :: "answers \<Rightarrow> string \<Rightarrow> string \<Rightarrow> ctx option \<Rightarrow> directory \<Rightarrow> string" where
  "verdict ans n p c d =
     (case di_users d n of
        None \<Rightarrow> ''DENIED''
      | Some (r, enabled) \<Rightarrow>
          let listed = (if p \<in> set (resolve_role_permissions r) then ''GRANTED'' else ''DENIED'')
          in if \<not> enabled then ''DENIED''
             else (case hk_pre (di_hooks d) of
                 None \<Rightarrow> listed
               | Some h \<Rightarrow>
                   (case ans h n p (case c of None \<Rightarrow> [] | Some c \<Rightarrow> c) of
                      PreRaises _ \<Rightarrow> ''HOOK_ERROR''
                    | PreFalse \<Rightarrow> ''DENIED''
                    | _ \<Rightarrow> listed)))"

fun dir_exec :: "answers \<Rightarrow> gov_op \<Rightarrow> directory \<Rightarrow> gov_outcome \<times> directory" where
  "dir_exec ans (GAdd n r en m) d =
     (if di_users d n \<noteq> None then (Refused, d)
      else (Done, d\<lparr>di_users := (di_users d)(n \<mapsto> (r, en)), di_log := di_log d @ [''ADD_USER'']\<rparr>))"
| "dir_exec ans (GRemove n) d =
     (if di_users d n = None then (Refused, d)
      else (Done, d\<lparr>di_users := (di_users d)(n := None), di_log := di_log d @ [''REMOVE_USER'']\<rparr>))"
| "dir_exec ans (GRole n r) d =
     (case di_users d n of
        None \<Rightarrow> (Refused, d)
      | Some (_, en) \<Rightarrow> (Done, d\<lparr>di_users := (di_users d)(n \<mapsto> (r, en)), di_log := di_log d @ [''UPDATE_ROLE'']\<rparr>))"
| "dir_exec ans (GEnable n en) d =
     (case di_users d n of
        None \<Rightarrow> (Refused, d)
      | Some (r, _) \<Rightarrow> (Done, d\<lparr>di_users := (di_users d)(n \<mapsto> (r, en)), di_log := di_log d @ [''SET_ENABLED'']\<rparr>))"
| "dir_exec ans (GCheck n p c) d =
     (let v = verdict ans n p c d in (Answer (v = ''GRANTED''), d\<lparr>di_log := di_log d @ [v]\<rparr>))"
| "dir_exec ans (GHooks h) d = (Done, d\<lparr>di_hooks := h\<rparr>)"
| "dir_exec ans GClear d = (Done, d\<lparr>di_log := []\<rparr>)"

fun dir_run :: "answers \<Rightarrow> gov_op list \<Rightarrow> directory \<Rightarrow> gov_outcome list \<times> directory" where
  "dir_run ans [] d = ([], d)"
| "dir_run ans (op # ops) d =
     (case dir_exec ans op d of (out, d) \<Rightarrow> (case dir_run ans ops d of (outs, d) \<Rightarrow> (out # outs, d)))"

definition directory_of :: "'w governance \<Rightarrow> directory" where
  "directory_of g =
     \<lparr>di_users = (\<lambda>n. map_option (\<lambda>a. (us_role (the_user a g), us_enabled (the_user a g))) (find_user n g)),
      di_hooks = gv_hooks g, di_log = map ae_action (gv_log g)\<rparr>"

text \<open>hooks that watch: they answer, and change only the world around the governance\<close>

definition same_governance :: "'w governance \<Rightarrow> 'w governance \<Rightarrow> bool" where
  "same_governance g h \<longleftrightarrow>
     gv_heap h = gv_heap g \<and> gv_users h = gv_users g \<and> gv_log h = gv_log g \<and> gv_hooks h = gv_hooks g"

definition watching :: "'w hook_env \<Rightarrow> answers \<Rightarrow> bool" where
  "watching e ans \<longleftrightarrow>
     (\<forall>h n p c g. fst (he_pre e h n p c g) = ans h n p c \<and> same_governance g (snd (he_pre e h n p c g))) \<and>
     (\<forall>h n p c b g. same_governance g (he_post e h n p c b g)) \<and>
     (\<forall>h n p c r g. same_governance g (he_deny e h n p c r g))"

definition users_ok :: "'w governance \<Rightarrow> bool" where
  "users_ok g \<longleftrightarrow>
     (\<forall>n a. find_user n g = Some a \<longrightarrow> a < length (gv_heap g)) \<and>
     (\<forall>m n a. find_user m g = Some a \<longrightarrow> find_user n g = Some a \<longrightarrow> m = n) \<and>
     (\<forall>u \<in> set (gv_heap g). us_permissions u = resolve_role_permissions (us_role u))"

lemma directory_same: "same_governance g h \<Longrightarrow> directory_of h = directory_of g \<and> (users_ok h \<longleftrightarrow> users_ok g)"
  by (simp add: same_governance_def directory_of_def users_ok_def find_user_def the_user_def)

lemma directory_audit:
  "directory_of (audit action detail g) = (directory_of g)\<lparr>di_log := di_log (directory_of g) @ [action]\<rparr>"
  "users_ok (audit action detail g) \<longleftrightarrow> users_ok g"
  by (simp_all add: directory_of_def users_ok_def find_user_def the_user_def audit_def audit_with_user_def)

lemma invoke_same:
  assumes "watching e ans"
  shows "same_governance g (invoke_on_deny e n p c r g)" "same_governance g (invoke_post_exec e n p c b g)"
  using assms by (auto simp: watching_def invoke_on_deny_def invoke_post_exec_def same_governance_def split: option.split)

lemma same_trans: "same_governance g h \<Longrightarrow> same_governance h k \<Longrightarrow> same_governance g k"
  by (simp add: same_governance_def)

lemma deny_directory:
  assumes "watching e ans"
  shows "directory_of (deny e n p c detail r g) = (directory_of g)\<lparr>di_log := di_log (directory_of g) @ [''DENIED'']\<rparr> \<and>
    (users_ok (deny e n p c detail r g) \<longleftrightarrow> users_ok g)"
  using directory_same [OF same_trans [OF invoke_same [OF assms]]] unfolding deny_def
  by (simp add: directory_audit)

lemma users_okD:
  assumes "users_ok g" "find_user n g = Some a"
  shows "a < length (gv_heap g)" "us_permissions (the_user a g) = resolve_role_permissions (us_role (the_user a g))"
    "find_user m g = Some a \<Longrightarrow> m = n"
  using assms by (auto simp: users_ok_def the_user_def)

lemma add_user_refines:
  assumes "users_ok g" "find_user n g = None"
  shows "users_ok (snd (add_user n r en m g)) \<and>
    directory_of (snd (add_user n r en m g)) =
      (directory_of g)\<lparr>di_users := (di_users (directory_of g))(n \<mapsto> (r, en)),
        di_log := di_log (directory_of g) @ [''ADD_USER'']\<rparr>"
proof -
  define h where "h = g\<lparr>gv_heap := gv_heap g @ [\<lparr>us_name = n, us_role = r, us_permissions = resolve_role_permissions r,
                 us_enabled = en, us_metadata = (case m of None \<Rightarrow> [] | Some m \<Rightarrow> m)\<rparr>],
       gv_users := AList.update n (length (gv_heap g)) (gv_users g)\<rparr>"
  have f: "find_user k h = (if k = n then Some (length (gv_heap g)) else find_user k g)" for k
    by (simp add: h_def find_user_def)
  have old: "a < length (gv_heap g)" if "find_user k g = Some a" for k a using users_okD(1) [OF assms(1) that] .
  have u: "the_user a h = the_user a g" if "a < length (gv_heap g)" for a
    using that by (simp add: the_user_def h_def nth_append)
  have new: "the_user (length (gv_heap g)) h = \<lparr>us_name = n, us_role = r, us_permissions = resolve_role_permissions r,
                 us_enabled = en, us_metadata = (case m of None \<Rightarrow> [] | Some m \<Rightarrow> m)\<rparr>"
    by (simp add: the_user_def h_def)
  have fields: "gv_heap h = gv_heap g @ [the_user (length (gv_heap g)) h]" "gv_hooks h = gv_hooks g" "gv_log h = gv_log g"
    unfolding new by (simp_all add: h_def)
  have "\<forall>u \<in> set (gv_heap h). us_permissions u = resolve_role_permissions (us_role u)"
    unfolding fields(1) new using assms(1) by (auto simp: users_ok_def)
  moreover have "a < length (gv_heap h)" if "find_user k h = Some a" for k a
    using that old unfolding fields(1) by (auto simp: f less_Suc_eq split: if_splits)
  moreover have "k = j" if "find_user k h = Some a" "find_user j h = Some a" for k j a
    using that old users_okD(3) [OF assms(1)] by (auto simp: f split: if_splits)
  ultimately have "users_ok h" unfolding users_ok_def by blast
  moreover have "directory_of h = (directory_of g)\<lparr>di_users := (di_users (directory_of g))(n \<mapsto> (r, en))\<rparr>"
    using old by (auto simp: directory_of_def f new fun_eq_iff u fields(2,3) map_option_case split: option.split)
  moreover have "snd (add_user n r en m g) = audit ''ADD_USER'' (''Usuario '' @ quoted n @ '' rol='' @ role_value r) h"
    using assms(2) by (simp add: add_user_def Let_def h_def)
  ultimately show ?thesis by (simp add: directory_audit)
qed

lemma remove_user_refines:
  assumes "users_ok g" "find_user n g = Some a"
  shows "users_ok (snd (remove_user n g)) \<and>
    directory_of (snd (remove_user n g)) =
      (directory_of g)\<lparr>di_users := (di_users (directory_of g))(n := None),
        di_log := di_log (directory_of g) @ [''REMOVE_USER'']\<rparr>"
proof -
  define h where "h = g\<lparr>gv_users := AList.delete n (gv_users g)\<rparr>"
  have f: "find_user k h = (if k = n then None else find_user k g)" for k
    by (simp add: h_def find_user_def)
  have fields: "gv_heap h = gv_heap g" "gv_hooks h = gv_hooks g" "gv_log h = gv_log g"
    by (simp_all add: h_def)
  have "users_ok h" using assms(1) by (auto simp: users_ok_def f fields split: if_splits)
  moreover have "directory_of h = (directory_of g)\<lparr>di_users := (di_users (directory_of g))(n := None)\<rparr>"
    by (auto simp: directory_of_def f fun_eq_iff fields the_user_def)
  moreover have "snd (remove_user n g) = audit ''REMOVE_USER'' (''Usuario '' @ quoted n @ '' eliminado'') h"
    using assms(2) by (simp add: remove_user_def h_def)
  ultimately show ?thesis by (simp add: directory_audit)
qed

lemma replace_user:
  assumes "users_ok g" "find_user n g = Some a"
    and u: "us_permissions u = resolve_role_permissions (us_role u)"
  shows "users_ok (g\<lparr>gv_heap := (gv_heap g)[a := u]\<rparr>) \<and>
    directory_of (g\<lparr>gv_heap := (gv_heap g)[a := u]\<rparr>) =
      (directory_of g)\<lparr>di_users := (di_users (directory_of g))(n \<mapsto> (us_role u, us_enabled u))\<rparr>"
proof -
  let ?h = "g\<lparr>gv_heap := (gv_heap g)[a := u]\<rparr>"
  have f: "find_user k ?h = find_user k g" for k by (simp add: find_user_def)
  have a: "a < length (gv_heap g)" by (rule users_okD(1) [OF assms(1,2)])
  have t: "the_user b ?h = (if b = a then u else the_user b g)" for b
    using a by (simp add: the_user_def)
  have "\<forall>x \<in> set (gv_heap ?h). us_permissions x = resolve_role_permissions (us_role x)"
  proof
    fix x assume "x \<in> set (gv_heap ?h)"
    then have "x = u \<or> x \<in> set (gv_heap g)" using set_update_subset_insert [of "gv_heap g" a u] by auto
    then show "us_permissions x = resolve_role_permissions (us_role x)"
      using u assms(1) unfolding users_ok_def by blast
  qed
  then have "users_ok ?h" using assms(1) by (simp add: users_ok_def f)
  moreover have "directory_of ?h = (directory_of g)\<lparr>di_users := (di_users (directory_of g))(n \<mapsto> (us_role u, us_enabled u))\<rparr>"
  proof -
    have "map_option (\<lambda>b. (us_role (the_user b ?h), us_enabled (the_user b ?h))) (find_user k g) =
        (if k = n then Some (us_role u, us_enabled u)
         else map_option (\<lambda>b. (us_role (the_user b g), us_enabled (the_user b g))) (find_user k g))" for k
    proof (cases "find_user k g")
      case None
      then show ?thesis using assms(2) by auto
    next
      case (Some b)
      then have "b = a \<longleftrightarrow> k = n" using users_okD(3) [OF assms(1,2), of k] assms(2) by auto
      then show ?thesis by (simp add: Some t)
    qed
    then show ?thesis by (simp add: directory_of_def f fun_eq_iff)
  qed
  ultimately show ?thesis by blast
qed

lemma check_listed_refines:
  assumes "watching e ans"
  shows "fst (check_listed e n p c a g) = (p \<in> set (us_permissions (the_user a g))) \<and>
    directory_of (snd (check_listed e n p c a g)) = (directory_of g)\<lparr>di_log := di_log (directory_of g) @
      [if p \<in> set (us_permissions (the_user a g)) then ''GRANTED'' else ''DENIED'']\<rparr> \<and>
    (users_ok (snd (check_listed e n p c a g)) \<longleftrightarrow> users_ok g)"
  using directory_same [OF invoke_same(2) [OF assms]] deny_directory [OF assms]
  by (simp add: check_listed_def Let_def directory_audit)

lemma check_refines:
  assumes w: "watching e ans" and ok: "users_ok g" and ck: "check_permission e n p c g = (b, g')"
  shows "users_ok g' \<and> b = (verdict ans n p c (directory_of g) = ''GRANTED'') \<and>
    directory_of g' = (directory_of g)\<lparr>di_log := di_log (directory_of g) @ [verdict ans n p c (directory_of g)]\<rparr>"
proof (cases "find_user n g")
  case None
  then show ?thesis
    using ck deny_directory [OF w] ok by (auto simp: check_permission_def verdict_def directory_of_def)
next
  case (Some a)
  let ?u = "the_user a g"
  have di: "di_users (directory_of g) n = Some (us_role ?u, us_enabled ?u)" "di_hooks (directory_of g) = gv_hooks g"
    using Some by (simp_all add: directory_of_def)
  have perms: "us_permissions ?u = resolve_role_permissions (us_role ?u)" by (rule users_okD(2) [OF ok Some])
  show ?thesis
  proof (cases "us_enabled ?u")
    case False
    then show ?thesis
      using ck deny_directory [OF w] ok Some di by (auto simp: check_permission_def verdict_def)
  next
    case True
    show ?thesis
    proof (cases "hk_pre (gv_hooks g)")
      case None
      then have "check_permission e n p c g = check_listed e n p (case c of None \<Rightarrow> [] | Some c \<Rightarrow> c) a g"
        using Some True by (simp add: check_permission_def)
      then show ?thesis
        using ck check_listed_refines [OF w, of n p _ a g] ok di True None perms
        by (auto simp: verdict_def prod_eq_iff)
    next
      case (Some h)
      obtain r k where k: "he_pre e h n p (case c of None \<Rightarrow> [] | Some c \<Rightarrow> c) g = (r, k)"
        by (cases "he_pre e h n p (case c of None \<Rightarrow> [] | Some c \<Rightarrow> c) g")
      have r: "ans h n p (case c of None \<Rightarrow> [] | Some c \<Rightarrow> c) = r" and same: "same_governance g k"
        using w k unfolding watching_def by (metis fst_conv, metis snd_conv)
      have tk: "the_user a k = ?u" using same by (simp add: the_user_def same_governance_def)
      note dk = directory_same [OF same]
      let ?c = "case c of None \<Rightarrow> [] | Some c \<Rightarrow> c"
      have v: "verdict ans n p c (directory_of g) = (case r of
            PreRaises _ \<Rightarrow> ''HOOK_ERROR'' | PreFalse \<Rightarrow> ''DENIED''
          | _ \<Rightarrow> if p \<in> set (us_permissions ?u) then ''GRANTED'' else ''DENIED'')"
        using r di True Some perms by (simp add: verdict_def Let_def)
      have ck': "check_permission e n p c g = (case r of
            PreRaises msg \<Rightarrow> (False, invoke_post_exec e n p ?c False
                (audit ''HOOK_ERROR'' (''pre_exec hook error para '' @ quoted n @ '': '' @ msg) k))
          | PreFalse \<Rightarrow> (False, deny e n p ?c
                (''Usuario '' @ quoted n @ '' bloqueado por pre_exec (permiso='' @ p @ '')'') ''bloqueado por pre_exec hook'' k)
          | _ \<Rightarrow> check_listed e n p ?c a k)"
        using Some \<open>find_user n g = Some a\<close> True k
        by (simp add: check_permission_def del: append.simps split: pre_result.split)
      have g': "b = fst (check_permission e n p c g)" "g' = snd (check_permission e n p c g)" using ck by simp_all
      show ?thesis
      proof (cases r)
        case (PreRaises msg)
        then show ?thesis
          using directory_same [OF invoke_same(2) [OF w]] dk ok unfolding g' ck' v
          by (simp add: directory_audit del: append.simps)
      next
        case PreFalse
        then show ?thesis
          using deny_directory [OF w] dk ok unfolding g' ck' v by (simp del: append.simps)
      next
        case PreTrue
        then show ?thesis
          using check_listed_refines [OF w, of n p ?c a k] dk ok unfolding g' ck' v by (simp add: tk)
      next
        case PreNone
        then show ?thesis
          using check_listed_refines [OF w, of n p ?c a k] dk ok unfolding g' ck' v by (simp add: tk)
      qed
    qed
  qed
qed

lemma directory_users:
  "di_users (directory_of g) n = (case find_user n g of None \<Rightarrow> None
     | Some a \<Rightarrow> Some (us_role (the_user a g), us_enabled (the_user a g)))"
  by (simp add: directory_of_def map_option_case)

lemma gov_exec_refines:
  assumes "watching e ans" "users_ok g" "gov_exec e op g = (out, g')"
  shows "users_ok g' \<and> dir_exec ans op (directory_of g) = (out, directory_of g')"
proof -
  show ?thesis
  proof (cases op)
    case (GAdd n r en m)
    show ?thesis
    proof (cases "find_user n g")
      case None
      then show ?thesis
        using add_user_refines [OF assms(2) None, of r en m] assms(3) GAdd
        by (auto simp: outcome_of_def add_user_def directory_users Let_def)
    next
      case (Some a)
      then have "add_user n r en m g = (Inl (UserExists n), g)" by (simp add: add_user_def)
      moreover have "\<exists>x. di_users (directory_of g) n = Some x" using Some by (simp add: directory_users)
      ultimately show ?thesis using assms(2,3) GAdd by (auto simp: outcome_of_def)
    qed
  next
    case (GRemove n)
    show ?thesis
    proof (cases "find_user n g")
      case None
      then show ?thesis using assms(2,3) GRemove by (auto simp: outcome_of_def remove_user_def directory_users)
    next
      case (Some a)
      then show ?thesis
        using remove_user_refines [OF assms(2) Some] assms(3) GRemove
        by (auto simp: outcome_of_def remove_user_def directory_users)
    qed
  next
    case (GRole n r)
    show ?thesis
    proof (cases "find_user n g")
      case None
      then show ?thesis using assms(2,3) GRole by (auto simp: outcome_of_def update_user_role_def directory_users)
    next
      case (Some a)
      then show ?thesis
        using replace_user [OF assms(2) Some, of "(the_user a g)\<lparr>us_role := r, us_permissions := resolve_role_permissions r\<rparr>"]
          assms(3) GRole
        by (auto simp: outcome_of_def update_user_role_def directory_users Let_def directory_audit)
    qed
  next
    case (GEnable n en)
    show ?thesis
    proof (cases "find_user n g")
      case None
      then show ?thesis using assms(2,3) GEnable by (auto simp: outcome_of_def set_user_enabled_def directory_users)
    next
      case (Some a)
      then show ?thesis
        using replace_user [OF assms(2) Some, of "(the_user a g)\<lparr>us_enabled := en\<rparr>"] assms(3) GEnable
          users_okD(2) [OF assms(2) Some]
        by (auto simp: outcome_of_def set_user_enabled_def directory_users Let_def directory_audit)
    qed
  next
    case (GCheck n p c)
    then obtain b where "check_permission e n p c g = (b, g')" "out = Answer b"
      using assms(3) by (auto split: prod.splits)
    then show ?thesis using check_refines [OF assms(1,2)] GCheck by (simp add: Let_def)
  next
    case (GHooks h)
    then show ?thesis
      using assms(2,3) by (auto simp: set_hooks_def directory_of_def users_ok_def find_user_def the_user_def)
  next
    case GClear
    then show ?thesis
      using assms(2,3) by (auto simp: clear_audit_log_def directory_of_def users_ok_def find_user_def the_user_def)
  qed
qed

lemma gov_run_refines:
  assumes "watching e ans" "users_ok g"
  shows "dir_run ans ops (directory_of g) = (fst (gov_run e ops g), directory_of (snd (gov_run e ops g)))"
  using assms(2)
proof (induction ops arbitrary: g)
  case (Cons op ops)
  obtain out h where h: "gov_exec e op g = (out, h)" by (cases "gov_exec e op g")
  note E = gov_exec_refines [OF assms(1) Cons.prems h]
  then show ?case using Cons.IH [of h] h by (simp add: case_prod_beta)
qed simp

text \<open>
  C21: Over any history of calls, with hooks that answer and do not change the governance, the system is
  a map from names to a role and a switch: every call succeeds, fails or answers as the map says, a
  check granting what the role of an enabled user allows unless the hook objects, and the log has one
  entry for every successful change and every check, with the action the specification names.
\<close>

theorem governance_refines_directory:
  assumes "watching e ans"
  shows "dir_run ans ops \<lparr>di_users = (\<lambda>_. None), di_hooks = (case hs of None \<Rightarrow> no_hooks | Some h \<Rightarrow> h), di_log = []\<rparr> =
    (fst (gov_run e ops (init_governance hs clock w)), directory_of (snd (gov_run e ops (init_governance hs clock w))))"
proof -
  have "users_ok (init_governance hs clock w)" by (simp add: users_ok_def init_governance_def find_user_def)
  moreover have "directory_of (init_governance hs clock w) =
      \<lparr>di_users = (\<lambda>_. None), di_hooks = (case hs of None \<Rightarrow> no_hooks | Some h \<Rightarrow> h), di_log = []\<rparr>"
    by (simp add: directory_of_def init_governance_def find_user_def)
  ultimately show ?thesis using gov_run_refines [OF assms, of "init_governance hs clock w" ops] by simp
qed

theorem governance_refines_directory_witness:
  "let ans = (\<lambda>h n p c. if n = ''eve'' then PreFalse else PreNone);
       e = \<lparr>he_pre = (\<lambda>h n p c g. (ans h n p c, g\<lparr>gv_world := gv_world g + (1::nat)\<rparr>)), he_post = (\<lambda>h n p c b g. g),
            he_deny = (\<lambda>h n p c r g. g)\<rparr>;
       ops = [GAdd ''ana'' EDITOR True None, GAdd ''eve'' ADMIN True None, GCheck ''ana'' ''modify_agent'' None,
              GCheck ''eve'' ''modify_agent'' None, GRole ''ana'' VIEWER, GCheck ''ana'' ''modify_agent'' None];
       hs = Some \<lparr>hk_pre = Some 0, hk_post = None, hk_deny = None\<rparr>
   in dir_run ans ops \<lparr>di_users = (\<lambda>_. None), di_hooks = (case hs of None \<Rightarrow> no_hooks | Some h \<Rightarrow> h), di_log = []\<rparr> =
      (fst (gov_run e ops (init_governance hs (\<lambda>_. 0) 0)), directory_of (snd (gov_run e ops (init_governance hs (\<lambda>_. 0) 0))))"
  unfolding Let_def
  by (rule governance_refines_directory) (simp add: watching_def same_governance_def)

text \<open>
  With any hooks, even those that change the governance: a permission is granted just when the user
  existed and was enabled before the hook ran, the hook neither refused nor failed, and the object the
  user had before it lists the permission after it.
\<close>

theorem check_permission_exact:
  "fst (check_permission e n p c g) \<longleftrightarrow>
     (case find_user n g of
        None \<Rightarrow> False
      | Some a \<Rightarrow>
          us_enabled (the_user a g) \<and>
          (case hk_pre (gv_hooks g) of
             None \<Rightarrow> p \<in> set (us_permissions (the_user a g))
           | Some h \<Rightarrow>
               (case he_pre e h n p (case c of None \<Rightarrow> [] | Some c \<Rightarrow> c) g of
                  (r, g') \<Rightarrow> (r = PreTrue \<or> r = PreNone) \<and> p \<in> set (us_permissions (the_user a g')))))"
  by (auto simp: check_permission_def check_listed_def Let_def split: option.split prod.split pre_result.split)

text \<open>a hook that disables the user in the middle of the check does not stop it\<close>

lemma revoked_during_check:
  assumes "find_user n g = Some a" "us_enabled (the_user a g)" "a < length (gv_heap g)"
    and "p \<in> set (us_permissions (the_user a g))" "gv_hooks g = \<lparr>hk_pre = Some h, hk_post = None, hk_deny = None\<rparr>"
    and "\<And>c. he_pre e h n p c g = (PreNone, snd (set_user_enabled n False g))"
  shows "fst (check_permission e n p c g) \<and> \<not> us_enabled (the_user a (snd (check_permission e n p c g)))"
  using assms
  by (simp add: check_permission_def check_listed_def Let_def set_user_enabled_def the_user_def audit_def
      audit_with_user_def invoke_post_exec_def)

text \<open>an error of the pre hook denies without a word to the hook of denials\<close>

lemma hook_error_silent:
  assumes "find_user n g = Some a" "us_enabled (the_user a g)" "hk_pre (gv_hooks g) = Some h"
    and "\<And>c. fst (he_pre e h n p c g) = PreRaises msg"
  shows "check_permission (e\<lparr>he_deny := f\<rparr>) n p c g = check_permission e n p c g"
proof -
  obtain k where "he_pre e h n p (case c of None \<Rightarrow> [] | Some c \<Rightarrow> c) g = (PreRaises msg, k)"
    using assms(4) by (metis prod.collapse)
  then show ?thesis using assms(1-3) by (simp add: check_permission_def invoke_post_exec_def split: option.split)
qed

end
