(* ===== verification/JobScheduler.thy ===== *)
theory JobScheduler
  imports PyText
begin

text \<open>
  The job schedulers (\<open>scheduler/models.py\<close>, \<open>job_store.py\<close>, \<open>simple.py\<close>, \<open>lance.py\<close>): jobs and their
  file, the cron scheduler with its run of due jobs, and the scheduler on top of the \<open>schedule\<close>
  library.

  A JSON file holds a document whose fields may have any JSON type, a YAML file holds a text. The packages
  \<open>yaml\<close>, \<open>croniter\<close> and \<open>schedule\<close>, the text of a time, the clock and the commands are arguments.
\<close>

subsection \<open>Jobs\<close>

record job =
  jb_name :: json
  jb_cron :: json
  jb_task :: json
  jb_runs :: json
  jb_created :: json
  jb_trigger :: json
  jb_value :: json
  jb_command :: json
  jb_retries :: json
  jb_enabled :: json
  jb_last :: json
  jb_next :: json

text \<open>a moment with and one without a time zone; only moments of a kind can be compared\<close>

datatype moment = Aware int | Naive int

datatype cron_result = CronNext int | CronInvalid | CronCrash string

record sched_env =
  se_iso :: "int \<Rightarrow> string"
  se_parse :: "json \<Rightarrow> moment option"
  se_croniter :: "(json \<Rightarrow> int \<Rightarrow> cron_result) option"
  se_dump :: "json \<Rightarrow> string"
  se_load :: "string \<Rightarrow> json option"

text \<open>\<open>se_dump\<close> and \<open>se_load\<close> are \<open>yaml.dump\<close> and \<open>yaml.safe_load\<close>, None when it raises.\<close>

text \<open>\<open>__post_init__\<close>\<close>

definition new_job :: "sched_env \<Rightarrow> int \<Rightarrow> job \<Rightarrow> job" where
  "new_job e now j = (if py_truthy (jb_created j) then j else j\<lparr>jb_created := PStr (se_iso e now)\<rparr>)"

definition blank_job :: job where
  "blank_job = \<lparr>jb_name = PStr [], jb_cron = PStr [], jb_task = PStr [], jb_runs = PInt 0, jb_created = PStr [],
     jb_trigger = PStr [], jb_value = PStr [], jb_command = PStr [], jb_retries = PInt 5,
     jb_enabled = PBool True, jb_last = PStr [], jb_next = PStr []\<rparr>"

definition job_fields :: "job \<Rightarrow> json_object" where
  "job_fields j =
     [(''name'', jb_name j), (''cron_expr'', jb_cron j), (''task_description'', jb_task j),
      (''run_count'', jb_runs j), (''created_at'', jb_created j), (''trigger'', jb_trigger j),
      (''trigger_value'', jb_value j), (''command'', jb_command j), (''max_retries'', jb_retries j),
      (''enabled'', jb_enabled j), (''last_run'', jb_last j), (''next_run'', jb_next j)]"

text \<open>\<open>v in ("", [], {}, 0, None)\<close>; \<open>False == 0\<close>\<close>

definition is_blank :: "json \<Rightarrow> bool" where
  "is_blank v \<longleftrightarrow> v \<in> {PStr [], PList [], PDict [], PInt 0, PBool False, PNone}"

definition job_to_dict :: "job \<Rightarrow> json_object" where
  "job_to_dict j = filter (\<lambda>(k, v). k \<in> {''name'', ''enabled''} \<or> \<not> is_blank v) (job_fields j)"

definition job_from_dict :: "sched_env \<Rightarrow> int \<Rightarrow> json_object \<Rightarrow> job" where
  "job_from_dict e now d = new_job e now
     \<lparr>jb_name = dict_get d ''name'' (PStr []), jb_cron = dict_get d ''cron_expr'' (PStr []),
      jb_task = dict_get d ''task_description'' (PStr []), jb_runs = dict_get d ''run_count'' (PInt 0),
      jb_created = dict_get d ''created_at'' (PStr []), jb_trigger = dict_get d ''trigger'' (PStr []),
      jb_value = dict_get d ''trigger_value'' (PStr []), jb_command = dict_get d ''command'' (PStr []),
      jb_retries = dict_get d ''max_retries'' (PInt 5), jb_enabled = dict_get d ''enabled'' (PBool True),
      jb_last = dict_get d ''last_run'' (PStr []), jb_next = dict_get d ''next_run'' (PStr [])\<rparr>"

subsection \<open>The file\<close>

text \<open>A key of a dictionary: \<open>True == 1\<close>, and lists and dictionaries cannot be keys.\<close>

fun dict_key :: "json \<Rightarrow> json option" where
  "dict_key (PList _) = None"
| "dict_key (PDict _) = None"
| "dict_key (PBool b) = Some (PInt (if b then 1 else 0))"
| "dict_key v = Some v"

type_synonym job_map = "(json \<times> job) list"

datatype job_file = NoJobsFile | Unreadable | JobsDoc json | JobsText string

record sched_disk =
  sd_file :: job_file
  sd_writable :: bool

datatype file_format = JsonFormat | YamlFormat

text \<open>The format is that of the path, so a file is read in the format it was written in.\<close>

definition read_file :: "sched_env \<Rightarrow> file_format \<Rightarrow> job_file \<Rightarrow> json option" where
  "read_file e f file =
     (case (f, file) of
        (JsonFormat, JobsDoc d) \<Rightarrow> Some d
      | (YamlFormat, JobsText t) \<Rightarrow> map_option (\<lambda>d. if py_truthy d then d else PDict []) (se_load e t)
      | _ \<Rightarrow> None)"

definition file_of :: "sched_env \<Rightarrow> file_format \<Rightarrow> json \<Rightarrow> job_file" where
  "file_of e f d = (case f of JsonFormat \<Rightarrow> JobsDoc d | YamlFormat \<Rightarrow> JobsText (se_dump e d))"

definition write_file :: "sched_env \<Rightarrow> file_format \<Rightarrow> json \<Rightarrow> sched_disk \<Rightarrow> sched_disk" where
  "write_file e f d disk = (if sd_writable disk then disk\<lparr>sd_file := file_of e f d\<rparr> else disk)"

definition ensure_jobs_file :: "sched_env \<Rightarrow> file_format \<Rightarrow> json \<Rightarrow> sched_disk \<Rightarrow> sched_disk" where
  "ensure_jobs_file e f blank_doc disk = (if sd_file disk = NoJobsFile then write_file e f blank_doc disk else disk)"

text \<open>an exception ends the loading, and what was loaded stays\<close>

fun load_list :: "sched_env \<Rightarrow> int \<Rightarrow> json list \<Rightarrow> job_map \<Rightarrow> job_map" where
  "load_list e now [] jobs = jobs"
| "load_list e now (item # items) jobs =
     (case item of
        PDict d \<Rightarrow>
          let j = job_from_dict e now d
          in (case dict_key (jb_name j) of
                None \<Rightarrow> jobs
              | Some k \<Rightarrow> load_list e now items (AList.update k j jobs))
      | _ \<Rightarrow> jobs)"

fun load_named :: "sched_env \<Rightarrow> int \<Rightarrow> json_object \<Rightarrow> job_map \<Rightarrow> job_map" where
  "load_named e now [] jobs = jobs"
| "load_named e now ((name, item) # items) jobs =
     (case item of
        PDict d \<Rightarrow>
          load_named e now items
            (AList.update (PStr name) (job_from_dict e now (AList.update ''name'' (PStr name) d)) jobs)
      | _ \<Rightarrow> load_named e now items jobs)"

subsection \<open>The cron scheduler\<close>

record simple_scheduler =
  ss_jobs :: job_map
  ss_disk :: sched_disk
  ss_format :: file_format
  ss_running :: bool

definition simple_serialize :: "job_map \<Rightarrow> json" where
  "simple_serialize jobs = PList (map (\<lambda>(_, j). PDict (job_to_dict j)) jobs)"

definition simple_deserialize :: "sched_env \<Rightarrow> int \<Rightarrow> json \<Rightarrow> job_map \<Rightarrow> job_map" where
  "simple_deserialize e now data jobs =
     (case data of
        PList items \<Rightarrow> load_list e now items jobs
      | PDict items \<Rightarrow> load_named e now items jobs
      | _ \<Rightarrow> jobs)"

definition simple_open :: "sched_env \<Rightarrow> int \<Rightarrow> file_format \<Rightarrow> sched_disk \<Rightarrow> simple_scheduler" where
  "simple_open e now f disk =
     (let fresh = \<lparr>ss_jobs = [], ss_disk = disk, ss_format = f, ss_running = False\<rparr>
      in if sd_file disk = NoJobsFile then fresh\<lparr>ss_disk := ensure_jobs_file e f (PList []) disk\<rparr>
         else case read_file e f (sd_file disk) of
           None \<Rightarrow> fresh
         | Some d \<Rightarrow> fresh\<lparr>ss_jobs := simple_deserialize e now (if d = PNone then PList [] else d) []\<rparr>)"

definition simple_save :: "sched_env \<Rightarrow> simple_scheduler \<Rightarrow> simple_scheduler" where
  "simple_save e s =
     s\<lparr>ss_disk := write_file e (ss_format s) (simple_serialize (ss_jobs s))
        (ensure_jobs_file e (ss_format s) (PList []) (ss_disk s))\<rparr>"

datatype sched_error = JobExists string | BadTrigger string | SchedCrash string

definition compute_next_run :: "sched_env \<Rightarrow> int \<Rightarrow> json \<Rightarrow> sched_error + string" where
  "compute_next_run e now cron =
     (case se_croniter e of
        None \<Rightarrow> Inr []
      | Some next \<Rightarrow>
          (case next cron now of
             CronNext t \<Rightarrow> Inr (se_iso e t)
           | CronInvalid \<Rightarrow> Inr []
           | CronCrash msg \<Rightarrow> Inl (SchedCrash msg)))"

definition simple_add_job ::
  "sched_env \<Rightarrow> int \<Rightarrow> string \<Rightarrow> string \<Rightarrow> string \<Rightarrow> simple_scheduler \<Rightarrow> (sched_error + job) \<times> simple_scheduler" where
  "simple_add_job e now name cron task s =
     (if map_of (ss_jobs s) (PStr name) \<noteq> None then (Inl (JobExists name), s)
      else (case compute_next_run e now (PStr cron) of
              Inl err \<Rightarrow> (Inl err, s)
            | Inr next \<Rightarrow>
                let j = new_job e now (blank_job\<lparr>jb_name := PStr name, jb_cron := PStr cron, jb_task := PStr task,
                      jb_next := PStr next\<rparr>)
                in (Inr j, simple_save e (s\<lparr>ss_jobs := AList.update (PStr name) j (ss_jobs s)\<rparr>))))"

definition simple_remove_job :: "sched_env \<Rightarrow> string \<Rightarrow> simple_scheduler \<Rightarrow> bool \<times> simple_scheduler" where
  "simple_remove_job e name s =
     (if map_of (ss_jobs s) (PStr name) = None then (False, s)
      else (True, simple_save e (s\<lparr>ss_jobs := AList.delete (PStr name) (ss_jobs s)\<rparr>)))"

text \<open>\<open>job.run_count += 1\<close>\<close>

definition increment :: "json \<Rightarrow> json option" where
  "increment v =
     (case v of PInt n \<Rightarrow> Some (PInt (n + 1)) | PBool b \<Rightarrow> Some (PInt (if b then 2 else 1)) | _ \<Rightarrow> None)"

datatype due = NotDue | Due | Incomparable

definition is_due :: "sched_env \<Rightarrow> int \<Rightarrow> job \<Rightarrow> due" where
  "is_due e now j =
     (if \<not> py_truthy (jb_enabled j) then NotDue
      else if \<not> py_truthy (jb_next j) then NotDue
      else (case se_parse e (jb_next j) of
              None \<Rightarrow> NotDue
            | Some (Naive _) \<Rightarrow> Incomparable
            | Some (Aware t) \<Rightarrow> if t \<le> now then Due else NotDue))"

definition put_job :: "json \<Rightarrow> job \<Rightarrow> simple_scheduler \<Rightarrow> simple_scheduler" where
  "put_job k j s = s\<lparr>ss_jobs := AList.update k j (ss_jobs s)\<rparr>"

text \<open>The jobs of the snapshot one after the other; an error leaves the function at once.\<close>

fun run_each ::
  "sched_env \<Rightarrow> int \<Rightarrow> (json \<times> job) list \<Rightarrow> json list \<Rightarrow> simple_scheduler \<Rightarrow>
   (sched_error + json list) \<times> simple_scheduler" where
  "run_each e now [] executed s = (Inr executed, s)"
| "run_each e now ((k, j) # rest) executed s =
     (case is_due e now j of
        NotDue \<Rightarrow> run_each e now rest executed s
      | Incomparable \<Rightarrow> (Inl (SchedCrash ''can't compare offset-naive and offset-aware datetimes''), s)
      | Due \<Rightarrow>
          (case increment (jb_runs j) of
             None \<Rightarrow> (Inl (SchedCrash ''run_count''), s)
           | Some n \<Rightarrow>
               let j1 = j\<lparr>jb_runs := n, jb_last := PStr (se_iso e now)\<rparr>
               in (case compute_next_run e now (jb_cron j) of
                     Inl err \<Rightarrow> (Inl err, put_job k j1 s)
                   | Inr next \<Rightarrow>
                       run_each e now rest (executed @ [jb_name j]) (put_job k (j1\<lparr>jb_next := PStr next\<rparr>) s))))"

definition run_due :: "sched_env \<Rightarrow> int \<Rightarrow> simple_scheduler \<Rightarrow> (sched_error + json list) \<times> simple_scheduler" where
  "run_due e now s =
     (case run_each e now (ss_jobs s) [] s of
        (Inl err, s) \<Rightarrow> (Inl err, s)
      | (Inr executed, s) \<Rightarrow> (Inr executed, if executed = [] then s else simple_save e s))"

text \<open>the loop over its clock readings, until \<open>stop\<close> or an error, which stops it too\<close>

fun run_loop :: "sched_env \<Rightarrow> (int \<times> bool) list \<Rightarrow> simple_scheduler \<Rightarrow> simple_scheduler" where
  "run_loop e [] s = s"
| "run_loop e ((now, stopped) # rest) s =
     (if \<not> ss_running s then s
      else (case run_due e now s of
              (Inl _, s) \<Rightarrow> s\<lparr>ss_running := False\<rparr>
            | (Inr _, s) \<Rightarrow> run_loop e rest (if stopped then s\<lparr>ss_running := False\<rparr> else s)))"

subsection \<open>The scheduler on the schedule library\<close>

datatype frequency = EveryMinutes int | EveryHours int | EverySeconds int | DailyAt string

datatype callback = ExecuteJob json | ExecuteJobOnce json

text \<open>\<open>sl_at_ok\<close> says which times \<open>at\<close> accepts and \<open>sl_every_ok\<close> which amounts \<open>every\<close> does; a command
  either runs and yields a code and its error text, or cannot be run.\<close>

datatype command_result = Exit int string | CommandError string

record lance_env =
  le_sched :: sched_env
  le_at_ok :: "string \<Rightarrow> bool"
  le_every_ok :: "frequency \<Rightarrow> bool"
  le_run :: "json \<Rightarrow> command_result"

record run_record =
  rr_job :: json
  rr_trigger :: json
  rr_status :: string
  rr_error :: string
  rr_time :: string

record lance_scheduler =
  ls_jobs :: job_map
  ls_disk :: sched_disk
  ls_format :: file_format
  ls_running :: bool
  ls_registry :: "(frequency \<times> callback) list"
  ls_log :: "run_record list"

definition lance_serialize :: "job_map \<Rightarrow> json" where
  "lance_serialize jobs = PDict [(''jobs'', PList (map (\<lambda>(_, j). PDict (job_to_dict j)) jobs))]"

definition lance_deserialize :: "sched_env \<Rightarrow> int \<Rightarrow> json \<Rightarrow> job_map \<Rightarrow> job_map" where
  "lance_deserialize e now data jobs =
     (case data of
        PDict d \<Rightarrow> (case py_iter (dict_get d ''jobs'' (PList [])) of None \<Rightarrow> jobs | Some items \<Rightarrow> load_list e now items jobs)
      | _ \<Rightarrow> jobs)"

definition lance_open :: "lance_env \<Rightarrow> int \<Rightarrow> file_format \<Rightarrow> sched_disk \<Rightarrow> lance_scheduler" where
  "lance_open e now f disk =
     (let fresh = \<lparr>ls_jobs = [], ls_disk = disk, ls_format = f, ls_running = False, ls_registry = [], ls_log = []\<rparr>
      in if sd_file disk = NoJobsFile
         then fresh\<lparr>ls_disk := ensure_jobs_file (le_sched e) f (PDict [(''jobs'', PList [])]) disk\<rparr>
         else case read_file (le_sched e) f (sd_file disk) of
           None \<Rightarrow> fresh
         | Some d \<Rightarrow>
             fresh\<lparr>ls_jobs := lance_deserialize (le_sched e) now (if d = PNone then PDict [(''jobs'', PList [])] else d) []\<rparr>)"

definition lance_save :: "lance_env \<Rightarrow> lance_scheduler \<Rightarrow> lance_scheduler" where
  "lance_save e s =
     s\<lparr>ls_disk := write_file (le_sched e) (ls_format s) (lance_serialize (ls_jobs s))
        (ensure_jobs_file (le_sched e) (ls_format s) (PDict [(''jobs'', PList [])]) (ls_disk s))\<rparr>"

definition lance_add_job ::
  "lance_env \<Rightarrow> int \<Rightarrow> string \<Rightarrow> string \<Rightarrow> string \<Rightarrow> string \<Rightarrow> int \<Rightarrow> lance_scheduler \<Rightarrow>
   (sched_error + job) \<times> lance_scheduler" where
  "lance_add_job e now name trigger val command retries s =
     (let trigger = py_lower trigger
      in if trigger \<notin> {''cron'', ''interval'', ''once''} then (Inl (BadTrigger trigger), s)
         else
           let j = new_job (le_sched e) now (blank_job\<lparr>jb_name := PStr name, jb_trigger := PStr trigger,
                 jb_value := PStr val, jb_command := PStr command, jb_retries := PInt retries\<rparr>)
           in (Inr j, lance_save e (s\<lparr>ls_jobs := AList.update (PStr name) j (ls_jobs s)\<rparr>)))"

definition lance_remove_job :: "lance_env \<Rightarrow> string \<Rightarrow> lance_scheduler \<Rightarrow> bool \<times> lance_scheduler" where
  "lance_remove_job e name s =
     (if map_of (ls_jobs s) (PStr name) \<noteq> None
      then (True, lance_save e (s\<lparr>ls_jobs := AList.delete (PStr name) (ls_jobs s)\<rparr>))
      else (False, s))"

text \<open>How a job is registered; an error of the library, or a value that is no string, registers nothing.\<close>

definition registration :: "lance_env \<Rightarrow> job \<Rightarrow> (frequency \<times> callback) option" where
  "registration e j =
     (let run = ExecuteJob (jb_name j);
          accept = (\<lambda>f. if le_every_ok e f then Some (f, run) else None)
      in if \<not> py_truthy (jb_enabled j) then None
         else if jb_trigger j = PStr ''interval'' then
           (case jb_value j of
              PStr v \<Rightarrow>
                (case py_split v of
                   [amount, unit] \<Rightarrow>
                     (case py_int amount of
                        None \<Rightarrow> None
                      | Some n \<Rightarrow>
                          let u = py_lower unit
                          in if u \<in> {''minutes'', ''minute'', ''min''} then accept (EveryMinutes n)
                             else if u \<in> {''hours'', ''hour''} then accept (EveryHours n)
                             else if u \<in> {''seconds'', ''second'', ''sec''} then accept (EverySeconds n)
                             else None)
                 | _ \<Rightarrow> None)
            | _ \<Rightarrow> None)
         else if jb_trigger j = PStr ''once'' then
           (if le_at_ok e ''00:00'' then Some (DailyAt ''00:00'', ExecuteJobOnce (jb_name j)) else None)
         else if jb_trigger j = PStr ''cron'' then
           (case jb_value j of
              PStr v \<Rightarrow>
                (case py_split (py_strip v) of
                   minute # hour # _ # _ # weekday # _ \<Rightarrow>
                     if minute = ''*'' \<and> hour = ''*'' \<and> weekday = ''*'' then accept (EveryMinutes 1)
                     else if minute = ''0'' \<and> hour \<noteq> ''*'' then
                       (if le_at_ok e (hour @ '':00'') then Some (DailyAt (hour @ '':00''), run) else None)
                     else accept (EveryMinutes 5)
                 | _ \<Rightarrow> None)
            | _ \<Rightarrow> None)
         else None)"

definition run_scheduler :: "lance_env \<Rightarrow> lance_scheduler \<Rightarrow> lance_scheduler" where
  "run_scheduler e s =
     (if ls_running s then s
      else s\<lparr>ls_running := True,
             ls_registry := ls_registry s @ List.map_filter (\<lambda>(_, j). registration e j) (ls_jobs s)\<rparr>)"

definition lance_stop :: "lance_scheduler \<Rightarrow> lance_scheduler" where
  "lance_stop s = s\<lparr>ls_running := False\<rparr>"

definition find_job :: "json \<Rightarrow> job_map \<Rightarrow> job option" where
  "find_job name jobs = (case dict_key name of None \<Rightarrow> None | Some k \<Rightarrow> map_of jobs k)"

definition change_job :: "json \<Rightarrow> (job \<Rightarrow> job) \<Rightarrow> job_map \<Rightarrow> job_map" where
  "change_job name f jobs =
     (case dict_key name of
        None \<Rightarrow> jobs
      | Some k \<Rightarrow> (case map_of jobs k of None \<Rightarrow> jobs | Some j \<Rightarrow> AList.update k (f j) jobs))"

definition run_outcome :: "command_result \<Rightarrow> string \<times> string" where
  "run_outcome r =
     (case r of
        Exit code err \<Rightarrow>
          if code = 0 then (''success'', [])
          else (''failed'', if err = [] then ''exit code != 0'' else last_n 500 err)
      | CommandError msg \<Rightarrow> (''failed'', msg))"

definition execute_job :: "lance_env \<Rightarrow> int \<Rightarrow> json \<Rightarrow> lance_scheduler \<Rightarrow> lance_scheduler" where
  "execute_job e now name s =
     (case find_job name (ls_jobs s) of
        None \<Rightarrow> s
      | Some j \<Rightarrow>
          (case run_outcome (le_run e (jb_command j)) of
             (status, err) \<Rightarrow>
               let stamp = se_iso (le_sched e) now
               in s\<lparr>ls_jobs := change_job name (\<lambda>j. j\<lparr>jb_last := PStr stamp\<rparr>) (ls_jobs s),
                    ls_log := ls_log s @
                      [\<lparr>rr_job = name, rr_trigger = jb_trigger j, rr_status = status,
                        rr_error = take 500 err, rr_time = stamp\<rparr>]\<rparr>))"

definition execute_job_once :: "lance_env \<Rightarrow> int \<Rightarrow> json \<Rightarrow> lance_scheduler \<Rightarrow> lance_scheduler" where
  "execute_job_once e now name s =
     (let s = execute_job e now name s
      in case find_job name (ls_jobs s) of
           None \<Rightarrow> s
         | Some _ \<Rightarrow> lance_save e (s\<lparr>ls_jobs := change_job name (\<lambda>j. j\<lparr>jb_enabled := PBool False\<rparr>) (ls_jobs s)\<rparr>))"

text \<open>the library fires an entry of its registry\<close>

definition fire :: "lance_env \<Rightarrow> int \<Rightarrow> callback \<Rightarrow> lance_scheduler \<Rightarrow> lance_scheduler" where
  "fire e now c s =
     (case c of ExecuteJob name \<Rightarrow> execute_job e now name s | ExecuteJobOnce name \<Rightarrow> execute_job_once e now name s)"

subsection \<open>A job on disk\<close>

lemma is_blank_truthy: "is_blank v \<longleftrightarrow> \<not> py_truthy v"
  by (cases v) (auto simp: is_blank_def)

definition or_default :: "json \<Rightarrow> json \<Rightarrow> json" where
  "or_default d v = (if py_truthy v then v else d)"

text \<open>a job comes back from its dictionary with every empty field at its default\<close>

definition job_reloaded :: "job \<Rightarrow> job" where
  "job_reloaded j =
     \<lparr>jb_name = jb_name j, jb_cron = or_default (PStr []) (jb_cron j), jb_task = or_default (PStr []) (jb_task j),
      jb_runs = or_default (PInt 0) (jb_runs j), jb_created = or_default (PStr []) (jb_created j),
      jb_trigger = or_default (PStr []) (jb_trigger j), jb_value = or_default (PStr []) (jb_value j),
      jb_command = or_default (PStr []) (jb_command j), jb_retries = or_default (PInt 5) (jb_retries j),
      jb_enabled = jb_enabled j, jb_last = or_default (PStr []) (jb_last j),
      jb_next = or_default (PStr []) (jb_next j)\<rparr>"

lemma dict_get_filter_hit:
  assumes "distinct (map fst kvs)" "(k, v) \<in> set kvs"
  shows "dict_get (filter P kvs) k d = (if P (k, v) then v else d)"
  using assms
proof -
  have "map_of (filter P kvs) k = (if P (k, v) then Some v else None)"
  proof (cases "P (k, v)")
    case True
    then show ?thesis using assms by (simp add: distinct_map_filter)
  next
    case False
    have "w = v" if "(k, w) \<in> set kvs" for w
      using assms that by (meson eq_key_imp_eq_value)
    then show ?thesis using False by (auto simp: map_of_eq_None_iff)
  qed
  then show ?thesis by (simp add: dict_get_def)
qed

lemma job_fields_distinct: "distinct (map fst (job_fields j))"
  by (simp add: job_fields_def)

lemma job_to_dict_get:
  assumes "(k, v) \<in> set (job_fields j)"
  shows "dict_get (job_to_dict j) k d = (if k \<in> {''name'', ''enabled''} then v else or_default d v)"
  using dict_get_filter_hit [OF job_fields_distinct assms, of "\<lambda>(k, v). k \<in> {''name'', ''enabled''} \<or> \<not> is_blank v"]
  by (auto simp: job_to_dict_def is_blank_truthy or_default_def)

lemma job_reload_exact: "job_from_dict e now (job_to_dict j) = new_job e now (job_reloaded j)"
proof -
  have "dict_get (job_to_dict j) ''name'' (PStr []) = jb_name j"
    "dict_get (job_to_dict j) ''cron_expr'' (PStr []) = or_default (PStr []) (jb_cron j)"
    "dict_get (job_to_dict j) ''task_description'' (PStr []) = or_default (PStr []) (jb_task j)"
    "dict_get (job_to_dict j) ''run_count'' (PInt 0) = or_default (PInt 0) (jb_runs j)"
    "dict_get (job_to_dict j) ''created_at'' (PStr []) = or_default (PStr []) (jb_created j)"
    "dict_get (job_to_dict j) ''trigger'' (PStr []) = or_default (PStr []) (jb_trigger j)"
    "dict_get (job_to_dict j) ''trigger_value'' (PStr []) = or_default (PStr []) (jb_value j)"
    "dict_get (job_to_dict j) ''command'' (PStr []) = or_default (PStr []) (jb_command j)"
    "dict_get (job_to_dict j) ''max_retries'' (PInt 5) = or_default (PInt 5) (jb_retries j)"
    "dict_get (job_to_dict j) ''enabled'' (PBool True) = jb_enabled j"
    "dict_get (job_to_dict j) ''last_run'' (PStr []) = or_default (PStr []) (jb_last j)"
    "dict_get (job_to_dict j) ''next_run'' (PStr []) = or_default (PStr []) (jb_next j)"
    by (subst job_to_dict_get, (simp add: job_fields_def; fail), simp)+
  then show ?thesis by (simp add: job_from_dict_def job_reloaded_def)
qed

text \<open>so a job that allows no retry allows five after a restart\<close>

lemma no_retries_become_five:
  "jb_retries (job_from_dict e now (job_to_dict (j\<lparr>jb_retries := PInt 0\<rparr>))) = PInt 5"
  by (simp add: job_reload_exact new_job_def job_reloaded_def or_default_def)

text \<open>a job the cron scheduler makes\<close>

definition plain_job :: "sched_env \<Rightarrow> json \<times> job \<Rightarrow> bool" where
  "plain_job e = (\<lambda>(k, j).
     (case k of PStr name \<Rightarrow> jb_name j = PStr name | _ \<Rightarrow> False) \<and>
     (case jb_cron j of PStr _ \<Rightarrow> True | _ \<Rightarrow> False) \<and> (case jb_task j of PStr _ \<Rightarrow> True | _ \<Rightarrow> False) \<and>
     (case jb_runs j of PInt n \<Rightarrow> n \<ge> 0 | _ \<Rightarrow> False) \<and>
     (case jb_created j of PStr t \<Rightarrow> t \<noteq> [] | _ \<Rightarrow> False) \<and>
     jb_trigger j = PStr [] \<and> jb_value j = PStr [] \<and> jb_command j = PStr [] \<and> jb_retries j = PInt 5 \<and>
     jb_enabled j = PBool True \<and> (case jb_last j of PStr _ \<Rightarrow> True | _ \<Rightarrow> False) \<and>
     (jb_next j = PStr [] \<or> (\<exists>t. jb_next j = PStr (se_iso e t))))"

lemma plain_job_reload:
  assumes "plain_job e (k, j)"
  shows "job_from_dict e now (job_to_dict j) = j"
proof -
  have texts: "or_default (PStr []) v = v" if "case v of PStr _ \<Rightarrow> True | _ \<Rightarrow> False" for v
    using that by (cases v) (auto simp: or_default_def)
  have runs: "or_default (PInt 0) (jb_runs j) = jb_runs j"
    using assms by (cases "jb_runs j") (simp_all add: plain_job_def or_default_def)
  have created: "py_truthy (jb_created j)"
    using assms by (cases "jb_created j") (simp_all add: plain_job_def)
  have next_run: "or_default (PStr []) (jb_next j) = jb_next j"
    using assms by (auto simp: plain_job_def or_default_def)
  have "job_reloaded j = j"
    using assms by (simp add: plain_job_def job_reloaded_def texts runs next_run) (simp add: created or_default_def)
  moreover note created
  ultimately show ?thesis by (simp add: job_reload_exact new_job_def)
qed

lemma load_plain:
  assumes "list_all (plain_job e) rest" "distinct (map fst (jobs @ rest))"
  shows "load_list e now (map (\<lambda>(_, j). PDict (job_to_dict j)) rest) jobs = jobs @ rest"
  using assms
proof (induction rest arbitrary: jobs)
  case Nil
  then show ?case by simp
next
  case (Cons kj rest)
  obtain k j where kj: "kj = (k, j)" by (cases kj)
  have plain: "plain_job e (k, j)" using Cons.prems kj by simp
  then have key: "dict_key (jb_name j) = Some k" by (auto simp: plain_job_def split: pyval.splits)
  have "AList.update k j jobs = jobs @ [(k, j)]"
    using Cons.prems kj by (intro dict_update_fresh) (auto simp: map_of_eq_None_iff)
  then show ?case
    using Cons.IH [of "jobs @ [(k, j)]"] Cons.prems kj key
    by (simp add: plain_job_reload [OF plain] Let_def)
qed

subsection \<open>A history of the cron scheduler\<close>

text \<open>What the packages promise: a time prints as a text that is not empty and reads back as the same
  aware moment, and \<open>croniter\<close> raises nothing but the errors for a bad expression and answers with a
  later time.\<close>

definition lawful_env :: "sched_env \<Rightarrow> bool" where
  "lawful_env e \<longleftrightarrow>
     (\<forall>t. se_iso e t \<noteq> [] \<and> se_parse e (PStr (se_iso e t)) = Some (Aware t)) \<and>
     (case se_croniter e of
        None \<Rightarrow> True
      | Some next \<Rightarrow>
          (\<forall>cron t. case next cron t of CronCrash _ \<Rightarrow> False | CronInvalid \<Rightarrow> True | CronNext t' \<Rightarrow> t < t'))"

definition next_text :: "sched_env \<Rightarrow> int \<Rightarrow> json \<Rightarrow> string" where
  "next_text e now cron =
     (case se_croniter e of
        None \<Rightarrow> []
      | Some next \<Rightarrow> (case next cron now of CronNext t \<Rightarrow> se_iso e t | _ \<Rightarrow> []))"

lemma compute_next_run_lawful: "lawful_env e \<Longrightarrow> compute_next_run e now cron = Inr (next_text e now cron)"
  by (cases "se_croniter e") (auto simp: lawful_env_def compute_next_run_def next_text_def split: cron_result.splits)

lemma next_text_cases: "next_text e now cron = [] \<or> (\<exists>t. next_text e now cron = se_iso e t)"
  by (auto simp: next_text_def split: option.splits cron_result.splits)

datatype sched_op = AddCron string string string | RemoveCron string | RunDue

definition sched_step :: "sched_env \<Rightarrow> int \<times> sched_op \<Rightarrow> simple_scheduler \<Rightarrow> simple_scheduler" where
  "sched_step e = (\<lambda>(now, opn) s.
     (case opn of
        AddCron name cron task \<Rightarrow> snd (simple_add_job e now name cron task s)
      | RemoveCron name \<Rightarrow> snd (simple_remove_job e name s)
      | RunDue \<Rightarrow> snd (run_due e now s)))"

definition fresh_scheduler :: "sched_env \<Rightarrow> file_format \<Rightarrow> simple_scheduler" where
  "fresh_scheduler e f = simple_open e 0 f \<lparr>sd_file = NoJobsFile, sd_writable = True\<rparr>"

definition sched_inv :: "sched_env \<Rightarrow> simple_scheduler \<Rightarrow> bool" where
  "sched_inv e s \<longleftrightarrow>
     list_all (plain_job e) (ss_jobs s) \<and> distinct (map fst (ss_jobs s)) \<and>
     ss_disk s = \<lparr>sd_file = file_of e (ss_format s) (simple_serialize (ss_jobs s)), sd_writable = True\<rparr>"

text \<open>a job is due when it is enabled and its next run, an aware moment, is not in the future\<close>

definition due_now :: "sched_env \<Rightarrow> int \<Rightarrow> job \<Rightarrow> bool" where
  "due_now e now j \<longleftrightarrow> py_truthy (jb_enabled j) \<and> py_truthy (jb_next j) \<and>
     (case se_parse e (jb_next j) of Some (Aware t) \<Rightarrow> t \<le> now | _ \<Rightarrow> False)"

lemma is_due_now: "due_now e now j \<longleftrightarrow> is_due e now j = Due"
  by (auto simp: is_due_def due_now_def split: option.splits moment.splits)

text \<open>a job after a run at \<open>now\<close>\<close>

definition advance :: "sched_env \<Rightarrow> int \<Rightarrow> json \<times> job \<Rightarrow> json \<times> job" where
  "advance e now = (\<lambda>(k, j).
     if due_now e now j
     then (k, j\<lparr>jb_runs := (case increment (jb_runs j) of None \<Rightarrow> jb_runs j | Some n \<Rightarrow> n),
                jb_last := PStr (se_iso e now), jb_next := PStr (next_text e now (jb_cron j))\<rparr>)
     else (k, j))"

definition due_names :: "sched_env \<Rightarrow> int \<Rightarrow> job_map \<Rightarrow> json list" where
  "due_names e now jobs = map (\<lambda>(_, j). jb_name j) (filter (\<lambda>(_, j). due_now e now j) jobs)"

lemma plain_comparable:
  assumes "lawful_env e" "plain_job e (k, j)"
  shows "is_due e now j \<noteq> Incomparable"
  using assms by (auto simp: plain_job_def is_due_def lawful_env_def split: if_splits)

lemma plain_increment:
  assumes "plain_job e (k, j)"
  obtains n where "jb_runs j = PInt n" "increment (jb_runs j) = Some (PInt (n + 1))" "n \<ge> 0"
  using assms by (cases "jb_runs j") (auto simp: plain_job_def increment_def)

lemma fst_advance [simp]: "fst (advance e now kj) = fst kj"
  by (simp add: advance_def split: prod.splits)

lemma map_fst_advance [simp]: "map fst (map (advance e now) jobs) = map fst jobs"
  by simp

lemma plain_advance:
  assumes "plain_job e kj"
  shows "plain_job e (advance e now kj)"
proof -
  obtain k j where kj: "kj = (k, j)" by (cases kj)
  obtain n where n: "increment (jb_runs j) = Some (PInt (n + 1))" "n \<ge> 0"
    using plain_increment assms kj by metis
  show ?thesis
    using assms n next_text_cases [of e now "jb_cron j"] unfolding kj
    by (auto simp: advance_def plain_job_def split: pyval.splits)
qed

lemma update_present:
  assumes "distinct (map fst (pre @ (k, v) # rest))"
  shows "AList.update k w (pre @ (k, v) # rest) = pre @ (k, w) # rest"
  using assms by (induction pre) auto

lemma run_each_plain:
  assumes "lawful_env e" "list_all (plain_job e) rest" "distinct (map fst (pre @ rest))"
    "ss_jobs s = pre @ rest"
  shows "run_each e now rest ex s =
    (Inr (ex @ due_names e now rest), s\<lparr>ss_jobs := pre @ map (advance e now) rest\<rparr>)"
  using assms
proof (induction rest arbitrary: pre ex s)
  case Nil
  then show ?case by (simp add: due_names_def)
next
  case (Cons kj rest)
  obtain k j where kj: "kj = (k, j)" by (cases kj)
  have plain: "plain_job e (k, j)" using Cons.prems(2) kj by simp
  show ?case
  proof (cases "is_due e now j = Due")
    case False
    then have "is_due e now j = NotDue"
      using plain_comparable [OF Cons.prems(1) plain] by (cases "is_due e now j") auto
    then show ?thesis
      using Cons.IH [of "pre @ [kj]" s ex] Cons.prems kj by (simp add: advance_def due_names_def is_due_now)
  next
    case True
    obtain n where n: "increment (jb_runs j) = Some (PInt (n + 1))" using plain_increment [OF plain] .
    have "AList.update k (snd (advance e now kj)) (pre @ kj # rest) = pre @ advance e now kj # rest"
      using Cons.prems(3) kj by (simp add: update_present True advance_def is_due_now)
    then show ?thesis
      using Cons.IH [of "pre @ [advance e now kj]" "s\<lparr>ss_jobs := pre @ advance e now kj # rest\<rparr>" "ex @ [jb_name j]"]
        Cons.prems kj True n
      by (simp add: compute_next_run_lawful put_job_def advance_def due_names_def is_due_now Let_def)
  qed
qed

lemma no_due_advance: "due_names e now jobs = [] \<Longrightarrow> map (advance e now) jobs = jobs"
  by (induction jobs) (auto simp: due_names_def advance_def split: if_splits)

text \<open>the scheduler with other jobs, saved\<close>

definition with_jobs :: "sched_env \<Rightarrow> job_map \<Rightarrow> simple_scheduler \<Rightarrow> simple_scheduler" where
  "with_jobs e jobs s = s\<lparr>ss_jobs := jobs,
     ss_disk := \<lparr>sd_file = file_of e (ss_format s) (simple_serialize jobs), sd_writable = True\<rparr>\<rparr>"

lemma save_inv:
  assumes "sched_inv e s"
  shows "simple_save e (s\<lparr>ss_jobs := jobs\<rparr>) = with_jobs e jobs s"
  using assms by (simp add: sched_inv_def simple_save_def with_jobs_def ensure_jobs_file_def write_file_def file_of_def split: file_format.split)

lemma with_same_jobs:
  assumes "sched_inv e s"
  shows "with_jobs e (ss_jobs s) s = s"
  using assms by (simp add: sched_inv_def with_jobs_def)

lemma inv_with_jobs:
  "sched_inv e (with_jobs e jobs s) \<longleftrightarrow> list_all (plain_job e) jobs \<and> distinct (map fst jobs)"
  by (auto simp: sched_inv_def with_jobs_def)

lemma run_due_inv:
  assumes "lawful_env e" "sched_inv e s"
  shows "run_due e now s =
    (Inr (due_names e now (ss_jobs s)), with_jobs e (map (advance e now) (ss_jobs s)) s)"
proof -
  have "run_each e now (ss_jobs s) [] s =
      (Inr ([] @ due_names e now (ss_jobs s)), s\<lparr>ss_jobs := [] @ map (advance e now) (ss_jobs s)\<rparr>)"
    using assms by (intro run_each_plain) (auto simp: sched_inv_def)
  then show ?thesis
    using no_due_advance [of e now "ss_jobs s"] with_same_jobs [OF assms(2)]
    by (simp add: run_due_def save_inv [OF assms(2)])
qed

definition cron_job :: "sched_env \<Rightarrow> int \<Rightarrow> string \<Rightarrow> string \<Rightarrow> string \<Rightarrow> job" where
  "cron_job e now name cron task =
     new_job e now (blank_job\<lparr>jb_name := PStr name, jb_cron := PStr cron, jb_task := PStr task,
       jb_next := PStr (next_text e now (PStr cron))\<rparr>)"

lemma add_inv:
  assumes "lawful_env e" "sched_inv e s"
  shows "simple_add_job e now name cron task s =
    (case map_of (ss_jobs s) (PStr name) of
       Some _ \<Rightarrow> (Inl (JobExists name), s)
     | None \<Rightarrow> (Inr (cron_job e now name cron task),
                with_jobs e (ss_jobs s @ [(PStr name, cron_job e now name cron task)]) s))"
  by (auto simp: simple_add_job_def compute_next_run_lawful [OF assms(1)] save_inv [OF assms(2)] Let_def
      dict_update_fresh cron_job_def split: option.splits)

lemma plain_cron_job:
  assumes "lawful_env e"
  shows "plain_job e (PStr name, cron_job e now name cron task)"
  using assms next_text_cases [of e now "PStr cron"]
  by (auto simp: plain_job_def cron_job_def new_job_def blank_job_def lawful_env_def)

lemma remove_inv:
  assumes "sched_inv e s"
  shows "simple_remove_job e name s =
    (map_of (ss_jobs s) (PStr name) \<noteq> None, with_jobs e (AList.delete (PStr name) (ss_jobs s)) s)"
  using with_same_jobs [OF assms]
  by (auto simp: simple_remove_job_def save_inv [OF assms] dict_delete_absent)

lemma sched_step_inv:
  assumes "lawful_env e" "sched_inv e s"
  shows "sched_inv e (sched_step e ev s)"
proof -
  obtain now opn where ev: "ev = (now, opn)" by (cases ev)
  have inv: "list_all (plain_job e) (ss_jobs s)" "distinct (map fst (ss_jobs s))"
    using assms(2) by (simp_all add: sched_inv_def)
  show ?thesis
  proof (cases opn)
    case (AddCron name cron task)
    then show ?thesis
      using assms inv ev plain_cron_job [OF assms(1)]
      by (auto simp: sched_step_def add_inv [OF assms] inv_with_jobs map_of_eq_None_iff split: option.splits)
  next
    case (RemoveCron name)
    then show ?thesis
      using inv ev
      by (auto simp: sched_step_def remove_inv [OF assms(2)] inv_with_jobs distinct_delete dict_delete_filter
          list_all_iff distinct_map_filter)
  next
    case RunDue
    then show ?thesis
      using inv ev
      by (auto simp: sched_step_def run_due_inv [OF assms] inv_with_jobs list_all_iff plain_advance
          simp del: map_map)
  qed
qed

lemma fresh_inv: "sched_inv e (fresh_scheduler e f)"
  by (simp add: sched_inv_def fresh_scheduler_def simple_open_def ensure_jobs_file_def write_file_def
      simple_serialize_def Let_def)

lemma history_inv: "lawful_env e \<Longrightarrow> sched_inv e (fold (sched_step e) h (fresh_scheduler e f))"
  by (induction h rule: rev_induct) (simp_all add: fresh_inv sched_step_inv)

lemma step_keeps:
  assumes "lawful_env e" "sched_inv e s"
  shows "ss_format (sched_step e ev s) = ss_format s" "ss_running (sched_step e ev s) = ss_running s"
  using assms
  by (cases ev; simp add: sched_step_def run_due_inv remove_inv add_inv with_jobs_def
      split: sched_op.splits option.splits; fail)+

lemma history_format:
  assumes "lawful_env e"
  shows "ss_format (fold (sched_step e) h (fresh_scheduler e f)) = f \<and>
    \<not> ss_running (fold (sched_step e) h (fresh_scheduler e f))"
proof (induction h rule: rev_induct)
  case Nil
  then show ?case by (simp add: fresh_scheduler_def simple_open_def Let_def)
next
  case (snoc ev h)
  then show ?case by (simp add: step_keeps [OF assms history_inv [OF assms]])
qed

text \<open>What was written can be read: the JSON file always, the YAML file when PyYAML reads back what it wrote.\<close>

definition written_back :: "sched_env \<Rightarrow> file_format \<Rightarrow> json \<Rightarrow> bool" where
  "written_back e f d \<longleftrightarrow> f = JsonFormat \<or> se_load e (se_dump e d) = Some d"

lemma reopen_inv:
  assumes "sched_inv e s" "\<not> ss_running s" "written_back e (ss_format s) (simple_serialize (ss_jobs s))"
  shows "simple_open e now (ss_format s) (ss_disk s) = s"
proof -
  have "load_list e now (map (\<lambda>(_, j). PDict (job_to_dict j)) (ss_jobs s)) [] = ss_jobs s"
    using load_plain [of e "ss_jobs s" "[]" now] assms(1) by (simp add: sched_inv_def)
  then have "simple_deserialize e now (simple_serialize (ss_jobs s)) [] = ss_jobs s"
    by (simp add: simple_deserialize_def simple_serialize_def)
  moreover have "read_file e (ss_format s) (file_of e (ss_format s) (simple_serialize (ss_jobs s))) =
      Some (if py_truthy (simple_serialize (ss_jobs s)) then simple_serialize (ss_jobs s)
            else if ss_format s = YamlFormat then PDict [] else PList [])"
    using assms(3)
    by (cases "ss_format s"; cases "ss_jobs s")
      (auto simp: read_file_def file_of_def written_back_def simple_serialize_def)
  ultimately show ?thesis
    using assms(1,2)
    by (cases "ss_format s"; cases "ss_jobs s")
      (auto simp: simple_open_def sched_inv_def file_of_def simple_deserialize_def simple_serialize_def Let_def)
qed

lemma restart_with_yaml:
  assumes "lawful_env e" and "s = fold (sched_step e) h (fresh_scheduler e f)"
    and "written_back e f (simple_serialize (ss_jobs s))"
  shows "simple_open e now f (ss_disk s) = s"
  using reopen_inv [OF history_inv [OF assms(1)], of h f now] history_format [OF assms(1), of h f] assms(2,3) by simp

text \<open>C23: Reopening the JSON file gives the scheduler back, whatever was added, removed and run.\<close>

theorem restart_keeps_schedule:
  assumes "lawful_env e"
  shows "case fold (sched_step e) h (fresh_scheduler e JsonFormat) of s \<Rightarrow>
    simple_open e now JsonFormat (ss_disk s) = s"
  using restart_with_yaml [OF assms refl, of JsonFormat h now] by (simp add: written_back_def)

lemma next_text_not_due:
  assumes "lawful_env e"
  shows "is_due e now (j\<lparr>jb_next := PStr (next_text e now cron)\<rparr>) = NotDue"
  using assms
  by (auto simp: is_due_def lawful_env_def next_text_def split: option.splits cron_result.splits moment.splits)
    (metis cron_result.simps(8) not_less)

lemma not_due_after:
  assumes "lawful_env e"
  shows "due_names e now (map (advance e now) jobs) = []"
proof -
  have "is_due e now (snd (advance e now kj)) \<noteq> Due" for kj
    using next_text_not_due [OF assms] by (auto simp: advance_def is_due_now split: prod.splits)
  then show ?thesis
    by (auto simp: due_names_def filter_empty_conv is_due_now split: prod.splits) (metis prod.collapse snd_conv)
qed

text \<open>C24: A run executes exactly the jobs due, in the order of the table, counts, stamps and schedules each once
  more, leaves the others alone, and saves; a second run at the same time has nothing to do.\<close>

theorem run_due_exact:
  assumes "lawful_env e"
  shows "case fold (sched_step e) h (fresh_scheduler e f) of s \<Rightarrow>
    (case run_due e now s of
       (r, s1) \<Rightarrow>
         r = Inr (due_names e now (ss_jobs s)) \<and> ss_jobs s1 = map (advance e now) (ss_jobs s) \<and>
         sd_file (ss_disk s1) = file_of e f (simple_serialize (ss_jobs s1)) \<and> run_due e now s1 = (Inr [], s1))"
proof -
  let ?s = "fold (sched_step e) h (fresh_scheduler e f)"
  have inv: "sched_inv e ?s" by (rule history_inv [OF assms])
  have "list_all (plain_job e) (ss_jobs ?s)" "distinct (map fst (ss_jobs ?s))"
    using inv by (simp_all add: sched_inv_def)
  then have inv1: "sched_inv e (with_jobs e (map (advance e now) (ss_jobs ?s)) ?s)"
    by (auto simp: inv_with_jobs list_all_iff plain_advance simp del: map_map)
  define jobs where "jobs = map (advance e now) (ss_jobs ?s)"
  have none: "due_names e now jobs = []" unfolding jobs_def by (rule not_due_after [OF assms])
  have "ss_jobs (with_jobs e jobs ?s) = jobs" by (simp add: with_jobs_def)
  then have "run_due e now (with_jobs e jobs ?s) = (Inr [], with_jobs e jobs ?s)"
    using run_due_inv [OF assms inv1 [folded jobs_def], of now] with_same_jobs [OF inv1 [folded jobs_def]] none
    by (simp add: no_due_advance)
  then show ?thesis
    using history_format [OF assms, of h f]
    by (simp add: run_due_inv [OF assms inv] flip: jobs_def) (simp add: with_jobs_def)
qed

subsection \<open>One-shot jobs of the scheduler on the schedule library\<close>

lemma find_after_execute:
  "find_job k (ls_jobs (execute_job e now name s)) = None \<longleftrightarrow> find_job k (ls_jobs s) = None"
  by (auto simp: find_job_def execute_job_def change_job_def Let_def split: option.splits prod.splits)

lemma execute_job_logs:
  assumes "find_job name (ls_jobs s) \<noteq> None"
  shows "length (ls_log (execute_job e now name s)) = Suc (length (ls_log s))"
  using assms by (auto simp: execute_job_def Let_def split: prod.splits)

lemma fire_once:
  assumes "find_job name (ls_jobs s) \<noteq> None"
  shows "length (ls_log (fire e now (ExecuteJobOnce name) s)) = Suc (length (ls_log s))"
    "map_option jb_enabled (find_job name (ls_jobs (fire e now (ExecuteJobOnce name) s))) = Some (PBool False)"
    "ls_registry (fire e now c s) = ls_registry s"
proof -
  have found: "find_job name (ls_jobs (execute_job e now name s)) \<noteq> None"
    using assms by (simp add: find_after_execute)
  then show "length (ls_log (fire e now (ExecuteJobOnce name) s)) = Suc (length (ls_log s))"
    using execute_job_logs [OF assms, of e now]
    by (auto simp: fire_def execute_job_once_def lance_save_def Let_def)
  show "map_option jb_enabled (find_job name (ls_jobs (fire e now (ExecuteJobOnce name) s))) = Some (PBool False)"
    using found
    by (auto simp: fire_def execute_job_once_def lance_save_def Let_def find_job_def change_job_def
        split: option.splits)
  show "ls_registry (fire e now c s) = ls_registry s"
    by (auto simp: fire_def execute_job_once_def execute_job_def lance_save_def Let_def
        split: callback.splits option.splits prod.splits)
qed

lemma fires_once:
  assumes "find_job name (ls_jobs s) \<noteq> None"
  shows "case fold (\<lambda>t. fire e t (ExecuteJobOnce name)) ts s of s' \<Rightarrow>
    length (ls_log s') = length ts + length (ls_log s) \<and> ls_registry s' = ls_registry s \<and>
    find_job name (ls_jobs s') \<noteq> None"
  using assms
proof (induction ts arbitrary: s)
  case Nil
  then show ?case by simp
next
  case (Cons t ts)
  then have "find_job name (ls_jobs (fire e t (ExecuteJobOnce name) s)) \<noteq> None"
    using fire_once(2) [of name s e t] by auto
  then show ?case using Cons.IH fire_once(1,3) [OF Cons.prems, of e t] by simp
qed

lemma lower_once: "py_lower ''once'' = ''once''"
  by code_simp

definition started_once ::
  "lance_env \<Rightarrow> int \<Rightarrow> file_format \<Rightarrow> string \<Rightarrow> string \<Rightarrow> string \<Rightarrow> int \<Rightarrow> lance_scheduler" where
  "started_once e now f name val command retries =
     run_scheduler e (snd (lance_add_job e now name ''once'' val command retries
       (lance_open e now f \<lparr>sd_file = NoJobsFile, sd_writable = True\<rparr>)))"

lemma started_once_eq:
  assumes "le_at_ok e ''00:00''"
  shows "ls_registry (started_once e now f name val command retries) =
      [(DailyAt ''00:00'', ExecuteJobOnce (PStr name))]"
    "ls_log (started_once e now f name val command retries) = []"
    "find_job (PStr name) (ls_jobs (started_once e now f name val command retries)) \<noteq> None"
  using assms
  by (simp_all add: started_once_def run_scheduler_def lance_add_job_def lance_open_def Let_def lower_once
      lance_save_def registration_def new_job_def blank_job_def find_job_def map_filter_simps)

text \<open>whatever time a one-shot job names, it is entered for midnight, and every midnight it runs again\<close>

theorem one_shot_never_cancelled:
  assumes "le_at_ok e ''00:00''"
  shows "case fold (\<lambda>t. fire e t (ExecuteJobOnce (PStr name))) ts (started_once e now f name val command retries) of s \<Rightarrow>
    ls_registry s = [(DailyAt ''00:00'', ExecuteJobOnce (PStr name))] \<and> length (ls_log s) = length ts"
  using fires_once [OF started_once_eq(3) [OF assms, of name now f val command retries], of e ts]
    started_once_eq(1,2) [OF assms]
  by simp

text \<open>a job added to a running scheduler is not entered, and a scheduler started again enters all of them twice\<close>

lemma added_after_start:
  "ls_registry (snd (lance_add_job e now name trigger val command retries s)) = ls_registry s"
  by (simp add: lance_add_job_def lance_save_def Let_def)

lemma restarted_twice_registered:
  assumes "\<not> ls_running s"
  shows "ls_registry (run_scheduler e (lance_stop (run_scheduler e s))) =
    ls_registry s @ List.map_filter (\<lambda>(_, j). registration e j) (ls_jobs s)
      @ List.map_filter (\<lambda>(_, j). registration e j) (ls_jobs s)"
  using assms by (simp add: run_scheduler_def lance_stop_def)

text \<open>the day of the week of a cron expression plays no part\<close>

lemma weekday_ignored:
  assumes "jb_trigger j = PStr ''cron''"
    "jb_value j = PStr v" "py_split (py_strip v) = ''0'' # hour # d # m # w # rest" "hour \<noteq> ''*''"
    "py_truthy (jb_enabled j)" "le_at_ok e (hour @ '':00'')"
  shows "registration e j = Some (DailyAt (hour @ '':00''), ExecuteJob (jb_name j))"
  using assms by (simp add: registration_def)

text \<open>a concrete calendar: times in unary, every expression one later\<close>

definition unary_env :: sched_env where
  "unary_env = \<lparr>se_iso = (\<lambda>t. (if t < 0 then CHR ''-'' else CHR ''+'') # replicate (nat \<bar>t\<bar>) CHR ''1''),
     se_parse = (\<lambda>v. case v of
        PStr (c # cs) \<Rightarrow> Some (Aware (if c = CHR ''-'' then - int (length cs) else int (length cs)))
      | _ \<Rightarrow> None),
     se_croniter = Some (\<lambda>cron t. if cron = PStr ''bad'' then CronInvalid else CronNext (t + 1)),
     se_dump = (\<lambda>d. case d of PList items \<Rightarrow> replicate (length items) CHR ''-'' | _ \<Rightarrow> []), se_load = (\<lambda>_. None)\<rparr>"

lemma lawful_unary: "lawful_env unary_env"
  by (auto simp: lawful_env_def unary_env_def)

text \<open>witnesses\<close>

theorem restart_keeps_schedule_witness:
  "case fold (sched_step unary_env) [(1, AddCron ''a'' ''x'' ''t''), (2, AddCron ''b'' ''bad'' ''t''), (3, RunDue)]
      (fresh_scheduler unary_env JsonFormat) of s \<Rightarrow> simple_open unary_env 9 JsonFormat (ss_disk s) = s"
  by (rule restart_keeps_schedule [OF lawful_unary])

theorem run_due_exact_witness:
  "case fold (sched_step unary_env) [(1, AddCron ''a'' ''x'' ''t''), (2, AddCron ''b'' ''bad'' ''t'')]
      (fresh_scheduler unary_env YamlFormat) of s \<Rightarrow>
    (case run_due unary_env 3 s of
       (r, s1) \<Rightarrow>
         r = Inr (due_names unary_env 3 (ss_jobs s)) \<and> ss_jobs s1 = map (advance unary_env 3) (ss_jobs s) \<and>
         sd_file (ss_disk s1) = file_of unary_env YamlFormat (simple_serialize (ss_jobs s1)) \<and> run_due unary_env 3 s1 = (Inr [], s1))"
  by (rule run_due_exact [OF lawful_unary])

definition open_env :: lance_env where
  "open_env = \<lparr>le_sched = unary_env, le_at_ok = (\<lambda>_. True), le_every_ok = (\<lambda>_. True),
     le_run = (\<lambda>_. Exit 0 [])\<rparr>"

theorem one_shot_never_cancelled_witness:
  "case fold (\<lambda>t. fire open_env t (ExecuteJobOnce (PStr ''j''))) [24, 48]
      (started_once open_env 1 YamlFormat ''j'' ''2030-01-01T09:00:00'' ''true'' 5) of s \<Rightarrow>
    ls_registry s = [(DailyAt ''00:00'', ExecuteJobOnce (PStr ''j''))] \<and> length (ls_log s) = length [24::int, 48]"
  by (rule one_shot_never_cancelled) (simp add: open_env_def)

lemma bad_cron_never_runs:
  "due_names unary_env 100 (ss_jobs (fold (sched_step unary_env)
     [(1, AddCron ''a'' ''x'' ''t''), (2, AddCron ''b'' ''bad'' ''t'')] (fresh_scheduler unary_env JsonFormat))) =
   [PStr ''a'']"
  by code_simp

end
