(* ===== verification/KeywordMatch.thy ===== *)
theory KeywordMatch
  imports PyText
begin

text \<open>
  Matching of keywords as whole words (\<open>orchestrator/keyword_match.py\<close>) and the removal of injected
  lines from a task (\<open>orchestrator/prompt_sanitizer.py\<close>), over a small engine for the regular
  expressions they use. The engine also serves the detection of closed tasks.
\<close>

subsection \<open>Regular expressions\<close>

text \<open>\<open>\w\<close> for the characters below code point 256\<close>

definition word_char :: "char \<Rightarrow> bool" where
  "word_char c \<longleftrightarrow>
     (let n = of_char c :: nat
      in (48 \<le> n \<and> n \<le> 57) \<or> (65 \<le> n \<and> n \<le> 90) \<or> n = 95 \<or> (97 \<le> n \<and> n \<le> 122) \<or>
         n \<in> {170, 178, 179, 181, 185, 186, 188, 189, 190} \<or>
         (192 \<le> n \<and> n \<le> 255 \<and> n \<noteq> 215 \<and> n \<noteq> 247))"

text \<open>A cursor is the rest of the text, with whether a word character comes just before it; an expression
  yields every cursor it can move on to.\<close>

type_synonym cursor = "bool \<times> string"
type_synonym regex = "cursor \<Rightarrow> cursor list"

definition rx_lit :: "string \<Rightarrow> regex" where
  "rx_lit w = (\<lambda>(b, s). if w = [] then [(b, s)]
     else if py_startswith s w then [(word_char (last w), drop (length w) s)] else [])"

fun rx_many :: "(char \<Rightarrow> bool) \<Rightarrow> regex" where
  "rx_many P (b, []) = [(b, [])]"
| "rx_many P (b, c # cs) = (if P c then rx_many P (word_char c, cs) else []) @ [(b, c # cs)]"

fun rx_some :: "(char \<Rightarrow> bool) \<Rightarrow> regex" where
  "rx_some P (b, []) = []"
| "rx_some P (b, c # cs) = (if P c then rx_many P (word_char c, cs) else [])"

definition rx_optional :: "regex \<Rightarrow> regex" where
  "rx_optional m x = m x @ [x]"

definition rx_alt :: "regex list \<Rightarrow> regex" where
  "rx_alt ms x = concat (map (\<lambda>m. m x) ms)"

fun rx_seq :: "regex list \<Rightarrow> regex" where
  "rx_seq [] x = [x]"
| "rx_seq (m # ms) x = concat (map (rx_seq ms) (m x))"

definition starts_word :: "string \<Rightarrow> bool" where
  "starts_word s \<longleftrightarrow> (case s of [] \<Rightarrow> False | c # _ \<Rightarrow> word_char c)"

text \<open>\<open>\b\<close>, \<open>(?<!\w)\<close>, \<open>(?!\w)\<close>\<close>

definition rx_boundary :: regex where
  "rx_boundary = (\<lambda>(b, s). if b \<noteq> starts_word s then [(b, s)] else [])"

definition rx_no_word_before :: regex where
  "rx_no_word_before = (\<lambda>(b, s). if b then [] else [(b, s)])"

definition rx_no_word_after :: regex where
  "rx_no_word_after = (\<lambda>(b, s). if starts_word s then [] else [(b, s)])"

definition rx_match :: "regex \<Rightarrow> string \<Rightarrow> bool" where
  "rx_match m s \<longleftrightarrow> m (False, s) \<noteq> []"

fun rx_search_from :: "regex \<Rightarrow> bool \<Rightarrow> string \<Rightarrow> bool" where
  "rx_search_from m b [] \<longleftrightarrow> m (b, []) \<noteq> []"
| "rx_search_from m b (c # cs) \<longleftrightarrow> m (b, c # cs) \<noteq> [] \<or> rx_search_from m (word_char c) cs"

definition rx_search :: "regex \<Rightarrow> string \<Rightarrow> bool" where
  "rx_search m s = rx_search_from m False s"

subsection \<open>Normalization\<close>

text \<open>What \<open>NFKD\<close> leaves of a character once the marks are dropped. The micro sign and the three
  fractions, whose decomposition has characters beyond code point 255, are kept.\<close>

definition base_chars :: "(nat \<times> nat) list" where
  "base_chars =
     [(160, 32), (168, 32), (170, 97), (175, 32), (178, 50), (179, 51), (180, 32), (184, 32), (185, 49), (186, 111),
      (192, 65), (193, 65), (194, 65), (195, 65), (196, 65), (197, 65), (199, 67), (200, 69), (201, 69), (202, 69),
      (203, 69), (204, 73), (205, 73), (206, 73), (207, 73), (209, 78), (210, 79), (211, 79), (212, 79), (213, 79),
      (214, 79), (217, 85), (218, 85), (219, 85), (220, 85), (221, 89), (224, 97), (225, 97), (226, 97), (227, 97),
      (228, 97), (229, 97), (231, 99), (232, 101), (233, 101), (234, 101), (235, 101), (236, 105), (237, 105),
      (238, 105), (239, 105), (241, 110), (242, 111), (243, 111), (244, 111), (245, 111), (246, 111), (249, 117),
      (250, 117), (251, 117), (252, 117), (253, 121), (255, 121)]"

definition base_char :: "char \<Rightarrow> char" where
  "base_char c =
     (let n = of_char c :: nat
      in if n < 160 then c else case map_of base_chars n of None \<Rightarrow> c | Some m \<Rightarrow> char_of m)"

text \<open>every run of such characters becomes one blank\<close>

function squeeze :: "(char \<Rightarrow> bool) \<Rightarrow> string \<Rightarrow> string" where
  "squeeze P [] = []"
| "squeeze P (c # cs) = (if P c then CHR '' '' # squeeze P (dropWhile P cs) else c # squeeze P cs)"
  by pat_completeness auto
termination by (relation "measure (length \<circ> snd)") (auto simp: length_dropWhile_le less_Suc_eq_le)

definition separator :: "char \<Rightarrow> bool" where
  "separator c \<longleftrightarrow> c = CHR ''-'' \<or> c = CHR ''_''"

definition normalize :: "string \<Rightarrow> string" where
  "normalize text = (if text = [] then []
     else py_strip (squeeze py_isspace (squeeze separator (py_lower (map base_char text)))))"

subsection \<open>Keywords\<close>

definition whole_word :: "string \<Rightarrow> regex" where
  "whole_word w = rx_seq [rx_no_word_before, rx_lit w, rx_no_word_after]"

definition contains_word :: "string \<Rightarrow> string \<Rightarrow> bool" where
  "contains_word text keyword =
     (let kw = normalize keyword
      in if kw = [] then False
         else let t = normalize text in if t = [] then False else rx_search (whole_word kw) t)"

definition match_keywords :: "string \<Rightarrow> string list \<Rightarrow> string list" where
  "match_keywords text keywords = filter (contains_word text) keywords"

definition score_keywords :: "string \<Rightarrow> string list \<Rightarrow> nat" where
  "score_keywords text keywords = length (match_keywords text keywords)"

subsection \<open>Injected lines\<close>

text \<open>The expressions ignore case, so they are matched against the line in lower case.\<close>

definition role_line :: regex where
  "role_line = rx_seq [rx_many py_isspace, rx_alt (map rx_lit [''system'', ''assistant'', ''developer'', ''tool'']),
     rx_many py_isspace, rx_lit '':'']"

definition blanks :: regex where
  "blanks = rx_some py_isspace"

definition override_phrase :: regex where
  "override_phrase = rx_alt
     [rx_seq [rx_lit ''ignore'', blanks, rx_optional (rx_seq [rx_lit ''all'', blanks]),
        rx_alt [rx_lit ''previous'', rx_lit ''above''], blanks, rx_lit ''instructions''],
      rx_seq [rx_lit ''ignora'', blanks, rx_optional (rx_seq [rx_lit ''todas'', blanks]),
        rx_optional (rx_seq [rx_lit ''las'', blanks]), rx_lit ''instrucciones'', blanks,
        rx_alt [rx_lit ''anteriores'', rx_lit ''previas'']],
      rx_seq [rx_lit ''desestima'', blanks, rx_optional (rx_seq [rx_lit ''las'', blanks]), rx_lit ''instrucciones''],
      rx_seq [rx_lit ''override'', blanks, rx_optional (rx_seq [rx_lit ''the'', blanks]),
        rx_alt [rx_lit ''instructions'', rx_lit ''system'']],
      rx_seq [rx_lit ''do'', blanks, rx_lit ''not'', blanks, rx_lit ''follow'']]"

definition injected :: "string \<Rightarrow> bool" where
  "injected line \<longleftrightarrow> rx_match role_line (py_lower line) \<or> rx_search override_phrase (py_lower line)"

definition line_feed :: string where
  "line_feed = [char_of (10 :: nat)]"

definition sanitize_task :: "string \<Rightarrow> string" where
  "sanitize_task text = (if text = [] then []
     else py_strip (py_join line_feed (filter (\<lambda>line. \<not> injected line) (py_splitlines text))))"

definition has_injection :: "string \<Rightarrow> bool" where
  "has_injection text = (if text = [] then False else sanitize_task text \<noteq> py_strip text)"

subsection \<open>Whole words\<close>

definition word_before :: "string \<Rightarrow> bool" where
  "word_before u \<longleftrightarrow> (if u = [] then False else word_char (last u))"

lemma rx_search_whole_word:
  assumes "w \<noteq> []"
  shows "rx_search_from (whole_word w) b s \<longleftrightarrow>
    (\<exists>u v. s = u @ w @ v \<and> \<not> (if u = [] then b else word_char (last u)) \<and> \<not> starts_word v)"
proof -
  have here: "whole_word w (b, s) \<noteq> [] \<longleftrightarrow> \<not> b \<and> (\<exists>v. s = w @ v \<and> \<not> starts_word v)" for b s
    using assms
    by (auto simp: whole_word_def rx_no_word_before_def rx_lit_def rx_no_word_after_def py_startswith_def
        split: if_splits) (metis append_take_drop_id append_eq_conv_conj)+
  show ?thesis
  proof (induction s arbitrary: b)
    case Nil
    then show ?case using here [of b "[]"] assms by auto
  next
    case (Cons c s)
    have "(\<exists>u v. c # s = u @ w @ v \<and> \<not> (if u = [] then b else word_char (last u)) \<and> \<not> starts_word v) \<longleftrightarrow>
        (\<not> b \<and> (\<exists>v. c # s = w @ v \<and> \<not> starts_word v)) \<or>
        (\<exists>u v. s = u @ w @ v \<and> \<not> (if u = [] then word_char c else word_char (last u)) \<and> \<not> starts_word v)"
      (is "?l \<longleftrightarrow> ?r")
    proof
      assume ?l
      then obtain u v where uv: "c # s = u @ w @ v" "\<not> (if u = [] then b else word_char (last u))" "\<not> starts_word v"
        by blast
      show ?r
      proof (cases u)
        case Nil
        then show ?thesis using uv by auto
      next
        case (Cons d u')
        then show ?thesis using uv by (intro disjI2 exI [of _ u'] exI [of _ v]) (auto split: if_splits)
      qed
    next
      assume ?r
      then show ?l
      proof (elim disjE conjE exE)
        fix v assume "\<not> b" "c # s = w @ v" "\<not> starts_word v"
        then show ?l by (intro exI [of _ "[]"] exI [of _ v]) auto
      next
        fix u v assume "s = u @ w @ v" "\<not> (if u = [] then word_char c else word_char (last u))" "\<not> starts_word v"
        then show ?l by (intro exI [of _ "c # u"] exI [of _ v]) auto
      qed
    qed
    then show ?case by (simp add: Cons.IH here)
  qed
qed

text \<open>A keyword is in a text when its normal form stands in the text's between characters that belong to no word.\<close>

theorem contains_word_exact:
  "contains_word text keyword \<longleftrightarrow>
     normalize keyword \<noteq> [] \<and>
     (\<exists>u v. normalize text = u @ normalize keyword @ v \<and> \<not> word_before u \<and> \<not> starts_word v)"
  using rx_search_whole_word [of "normalize keyword" False "normalize text"]
  by (cases "normalize keyword = []")
    (auto simp: contains_word_def rx_search_def Let_def word_before_def split: if_splits)

lemma keyword_examples:
  "contains_word ''Crea una API rest'' ''api''"
  by code_simp

subsection \<open>No injected line is left\<close>

text \<open>An expression without look-around matches in any surroundings.\<close>

definition extends :: "regex \<Rightarrow> bool" where
  "extends m \<longleftrightarrow> (\<forall>b s b' r b0 v. (b', r) \<in> set (m (b, s)) \<longrightarrow> (\<exists>b''. (b'', r @ v) \<in> set (m (b0, s @ v))))"

lemma extendsD: "extends m \<Longrightarrow> (b', r) \<in> set (m (b, s)) \<Longrightarrow> \<exists>b''. (b'', r @ v) \<in> set (m (b0, s @ v))"
  unfolding extends_def by blast

lemma extendsI:
  assumes "\<And>b s b' r b0 v. (b', r) \<in> set (m (b, s)) \<Longrightarrow> \<exists>b''. (b'', r @ v) \<in> set (m (b0, s @ v))"
  shows "extends m"
  using assms unfolding extends_def by blast

lemma extends_lit: "extends (rx_lit w)"
proof (rule extendsI)
  fix b s b' r b0 v
  assume m: "(b', r) \<in> set (rx_lit w (b, s))"
  show "\<exists>b''. (b'', r @ v) \<in> set (rx_lit w (b0, s @ v))"
  proof (cases "w = []")
    case True
    then show ?thesis using m by (simp add: rx_lit_def)
  next
    case False
    then have w: "take (length w) s = w" "r = drop (length w) s"
      using m by (simp_all add: rx_lit_def py_startswith_def split: if_splits)
    then have "length w \<le> length s" by (metis length_take min.cobounded2 min.absorb_iff2)
    then show ?thesis using False w by (simp add: rx_lit_def py_startswith_def)
  qed
qed

lemma rx_many_self: "(b, s) \<in> set (rx_many P (b, s))"
  by (cases s) auto

lemma extends_many: "extends (rx_many P)"
proof (rule extendsI)
  fix b s b' r b0 v
  show "(b', r) \<in> set (rx_many P (b, s)) \<Longrightarrow> \<exists>b''. (b'', r @ v) \<in> set (rx_many P (b0, s @ v))"
  proof (induction s arbitrary: b b0)
    case Nil
    then show ?case using rx_many_self [of b0 v P] by auto
  next
    case (Cons c s)
    show ?case
    proof (cases "P c \<and> (b', r) \<in> set (rx_many P (word_char c, s))")
      case True
      then obtain b'' where "(b'', r @ v) \<in> set (rx_many P (word_char c, s @ v))" using Cons.IH by blast
      then show ?thesis using True by auto
    next
      case False
      then have "r = c # s" using Cons.prems by (auto split: if_splits)
      then show ?thesis by auto
    qed
  qed
qed

lemma extends_some: "extends (rx_some P)"
proof (rule extendsI)
  fix b s b' r b0 v
  assume "(b', r) \<in> set (rx_some P (b, s))"
  then show "\<exists>b''. (b'', r @ v) \<in> set (rx_some P (b0, s @ v))"
    using extendsD [OF extends_many, of b' r P] by (cases s) (auto split: if_splits)
qed

lemma extends_optional: "extends m \<Longrightarrow> extends (rx_optional m)"
  by (rule extendsI) (auto simp: rx_optional_def dest: extendsD)

lemma extends_alt: "list_all extends ms \<Longrightarrow> extends (rx_alt ms)"
  by (rule extendsI) (fastforce simp: rx_alt_def list_all_iff dest: extendsD)

lemma extends_seq: "list_all extends ms \<Longrightarrow> extends (rx_seq ms)"
proof (induction ms)
  case Nil
  show ?case by (rule extendsI) auto
next
  case (Cons m ms)
  show ?case
  proof (rule extendsI)
    fix b s b' r b0 v
    assume "(b', r) \<in> set (rx_seq (m # ms) (b, s))"
    then obtain b1 r1 where 1: "(b1, r1) \<in> set (m (b, s))" "(b', r) \<in> set (rx_seq ms (b1, r1))" by auto
    have m: "extends m" and ms: "extends (rx_seq ms)" using Cons by auto
    obtain b2 where 2: "(b2, r1 @ v) \<in> set (m (b0, s @ v))" using extendsD [OF m 1(1)] by blast
    obtain b3 where "(b3, r @ v) \<in> set (rx_seq ms (b2, r1 @ v))" using extendsD [OF ms 1(2)] by blast
    with 2 show "\<exists>b''. (b'', r @ v) \<in> set (rx_seq (m # ms) (b0, s @ v))" by auto
  qed
qed

lemmas extends_rules = extends_lit extends_many extends_some extends_optional extends_alt extends_seq

lemma extends_override: "extends override_phrase"
  unfolding override_phrase_def blanks_def by (intro extends_rules) (simp add: extends_rules)

lemma extends_not_Nil:
  assumes "extends m" "m (b, s) \<noteq> []"
  shows "m (b0, s @ v) \<noteq> []"
proof -
  obtain b' r where "(b', r) \<in> set (m (b, s))" using assms(2) by (metis list.set_intros(1) neq_Nil_conv surj_pair)
  then obtain b'' where "(b'', r @ v) \<in> set (m (b0, s @ v))" using extendsD [OF assms(1)] by blast
  then show ?thesis by auto
qed

lemma extends_search:
  assumes "extends m"
  shows "rx_search_from m b s \<Longrightarrow> rx_search_from m b0 (s @ v)"
proof (induction s arbitrary: b b0)
  case Nil
  then have "m (b0, [] @ v) \<noteq> []" using extends_not_Nil [OF assms] by fastforce
  then show ?case by (cases v) auto
next
  case (Cons c s)
  then show ?case using extends_not_Nil [OF assms, of b "c # s" b0 v] by auto
qed

lemma search_later: "extends m \<Longrightarrow> rx_search_from m b s \<Longrightarrow> rx_search_from m b0 (u @ s)"
proof (induction u arbitrary: b0)
  case Nil
  then show ?case using extends_search [of m b s b0 "[]"] by simp
qed auto

lemma rx_many_skip:
  "\<forall>c \<in> set u. P c \<Longrightarrow> (b', r) \<in> set (rx_many P (b, s)) \<Longrightarrow> \<exists>b''. (b'', r) \<in> set (rx_many P (b0, u @ s))"
proof (induction u arbitrary: b0)
  case Nil
  then show ?case using extendsD [OF extends_many, of b' r P b s "[]" b0] by auto
qed auto

lemma role_line_later:
  assumes "rx_match role_line s" "\<forall>c \<in> set u. py_isspace c"
  shows "rx_match role_line (u @ s @ v)"
proof -
  define rest where "rest = rx_seq [rx_alt (map rx_lit [''system'', ''assistant'', ''developer'', ''tool'']),
     rx_many py_isspace, rx_lit '':'']"
  have role: "role_line x = concat (map rest (rx_many py_isspace x))" for x
    by (simp add: role_line_def rest_def)
  have ext: "extends rest" unfolding rest_def by (intro extends_rules) (simp add: extends_rules)
  obtain b1 r1 where 1: "(b1, r1) \<in> set (rx_many py_isspace (False, s))" "rest (b1, r1) \<noteq> []"
    using assms(1) by (auto simp: rx_match_def role)
  obtain b2 where "(b2, r1 @ v) \<in> set (rx_many py_isspace (False, s @ v))"
    using extendsD [OF extends_many 1(1)] by blast
  then obtain b3 where "(b3, r1 @ v) \<in> set (rx_many py_isspace (False, u @ s @ v))"
    using rx_many_skip [OF assms(2)] by blast
  moreover have "rest (b3, r1 @ v) \<noteq> []" using extends_not_Nil [OF ext 1(2)] .
  ultimately show ?thesis by (force simp: rx_match_def role)
qed

lemma py_isspace_lower: "py_isspace c \<Longrightarrow> lower_char c = c"
  by (auto simp: py_isspace_def lower_char_def Let_def)

lemma injected_within:
  assumes "injected l" "\<forall>c \<in> set u. py_isspace c"
  shows "injected (u @ l @ v)"
proof -
  have u: "py_lower u = u" using assms(2) by (simp add: py_lower_def py_isspace_lower map_idI)
  have low: "py_lower (u @ l @ v) = u @ py_lower l @ py_lower v" using u by (simp add: py_lower_def)
  have "rx_search_from override_phrase False (u @ py_lower l @ py_lower v)"
    if "rx_search_from override_phrase False (py_lower l)"
    using search_later [OF extends_override extends_search [OF extends_override that, of False]] .
  then show ?thesis
    using assms role_line_later [of "py_lower l" u "py_lower v"]
    unfolding injected_def low rx_search_def by blast
qed

lemma not_injected_Nil: "\<not> injected []"
  by code_simp

subsection \<open>Lines\<close>

definition line_of :: "string \<Rightarrow> string \<Rightarrow> bool" where
  "line_of l s \<longleftrightarrow> (\<exists>p q. s = p @ l @ q \<and> (p \<noteq> [] \<longrightarrow> py_linebreak (last p)) \<and> (q \<noteq> [] \<longrightarrow> py_linebreak (hd q))) \<and>
     (\<forall>c \<in> set l. \<not> py_linebreak c)"

lemma line_ofI:
  "s = p @ l @ q \<Longrightarrow> (p \<noteq> [] \<Longrightarrow> py_linebreak (last p)) \<Longrightarrow> (q \<noteq> [] \<Longrightarrow> py_linebreak (hd q)) \<Longrightarrow>
    (\<And>c. c \<in> set l \<Longrightarrow> \<not> py_linebreak c) \<Longrightarrow> line_of l s"
  unfolding line_of_def by blast

lemma line_of_after:
  assumes "line_of l s" "py_linebreak c"
  shows "line_of l (p @ c # s)"
proof -
  obtain p' q where "s = p' @ l @ q" "p' \<noteq> [] \<longrightarrow> py_linebreak (last p')" "q \<noteq> [] \<longrightarrow> py_linebreak (hd q)"
    and l: "\<forall>c \<in> set l. \<not> py_linebreak c"
    using assms(1) unfolding line_of_def by blast
  then show ?thesis using assms(2) by (intro line_ofI [of _ "p @ c # p'" l q]) auto
qed

lemma splitlines_line_of: "l \<in> set (py_splitlines s) \<Longrightarrow> line_of l s"
proof (induction s rule: py_splitlines.induct)
  case (1 s)
  define t where "t = takeWhile (\<lambda>c. \<not> py_linebreak c) s"
  have t: "\<forall>c \<in> set t. \<not> py_linebreak c" using set_takeWhileD t_def by metis
  have ne: "s \<noteq> []" using "1.prems" by (auto simp: py_splitlines.simps)
  show ?case
  proof (cases "dropWhile (\<lambda>c. \<not> py_linebreak c) s")
    case Nil
    have "py_splitlines s = [t]"
      by (subst py_splitlines.simps) (simp only: ne Nil t_def if_False list.case)
    then have "l = t" using "1.prems" by simp
    moreover have "s = t" using takeWhile_dropWhile_id [of "\<lambda>c. \<not> py_linebreak c" s] unfolding Nil t_def by (simp only: append_Nil2)
    ultimately show ?thesis using t by (intro line_ofI [of _ "[]" l "[]"]) simp_all
  next
    case (Cons c r)
    have s: "s = t @ c # r" using Cons by (metis t_def takeWhile_dropWhile_id)
    have c: "py_linebreak c" using Cons by (metis dropWhile_eq_Cons_conv)
    let ?r = "if c = char_of (13 :: nat) \<and> r \<noteq> [] \<and> hd r = char_of (10 :: nat) then tl r else r"
    have "l = t \<or> l \<in> set (py_splitlines ?r)"
      using "1.prems" ne Cons by (simp add: py_splitlines.simps [of s] t_def split: if_splits)
    then show ?thesis
    proof
      assume "l = t"
      then show ?thesis using t s c by (intro line_ofI [of _ "[]" l "c # r"]) auto
    next
      assume "l \<in> set (py_splitlines ?r)"
      then have l: "line_of l ?r" using "1.IH" [OF ne Cons] by simp
      show ?thesis
      proof (cases "c = char_of (13 :: nat) \<and> r \<noteq> [] \<and> hd r = char_of (10 :: nat)")
        case True
        then have r: "r = char_of (10 :: nat) # tl r" by (metis list.collapse)
        have "py_linebreak (char_of (10 :: nat))" by (simp add: py_linebreak_def)
        then have "line_of l ((t @ [c]) @ char_of (10 :: nat) # tl r)" using l True by (intro line_of_after) simp_all
        then show ?thesis using s r by simp
      next
        case False
        then have "line_of l r" using l by (simp only: if_False)
        then show ?thesis using c line_of_after [of l r c t] by (simp only: s)
      qed
    qed
  qed
qed

lemma line_of_splitlines: "line_of l s \<Longrightarrow> l \<noteq> [] \<Longrightarrow> l \<in> set (py_splitlines s)"
proof (induction s rule: py_splitlines.induct)
  case (1 s)
  obtain p q where pq: "s = p @ l @ q" "p \<noteq> [] \<longrightarrow> py_linebreak (last p)" "q \<noteq> [] \<longrightarrow> py_linebreak (hd q)"
    and l: "\<forall>c \<in> set l. \<not> py_linebreak c"
    using "1.prems"(1) unfolding line_of_def by blast
  have ne: "s \<noteq> []" using pq(1) "1.prems"(2) by auto
  show ?case
  proof (cases "p = []")
    case True
    have "takeWhile (\<lambda>c. \<not> py_linebreak c) s = l"
      using pq(1,3) l True by (cases q) (auto simp: takeWhile_append takeWhile_eq_all_conv)
    then show ?thesis using ne by (simp add: py_splitlines.simps [of s])
  next
    case False
    define t where "t = takeWhile (\<lambda>c. \<not> py_linebreak c) p"
    have ex: "\<exists>c \<in> set p. py_linebreak c" using pq(2) False last_in_set by blast
    obtain c p' where p: "p = t @ c # p'" "py_linebreak c" "\<forall>c \<in> set t. \<not> py_linebreak c"
      using ex unfolding t_def by (metis (mono_tags, lifting) dropWhile_eq_Cons_conv dropWhile_eq_Nil_conv
          neq_Nil_conv set_takeWhileD takeWhile_dropWhile_id)
    let ?r = "p' @ l @ q"
    have drop: "dropWhile (\<lambda>c. \<not> py_linebreak c) s = c # ?r"
      using p pq(1) by (simp add: dropWhile_append dropWhile_eq_Nil_conv [THEN iffD2])
    have p'_last: "p' \<noteq> [] \<Longrightarrow> py_linebreak (last p')" using pq(2) p(1) by simp
    let ?n = "if c = char_of (13 :: nat) \<and> ?r \<noteq> [] \<and> hd ?r = char_of (10 :: nat) then tl ?r else ?r"
    have "line_of l ?n"
    proof (cases "c = char_of (13 :: nat) \<and> ?r \<noteq> [] \<and> hd ?r = char_of (10 :: nat)")
      case True
      have "p' \<noteq> []"
      proof
        assume "p' = []"
        then have "hd l = char_of (10 :: nat)" using True "1.prems"(2) by simp
        moreover have "py_linebreak (char_of (10 :: nat))" by (simp add: py_linebreak_def)
        ultimately show False using l "1.prems"(2) hd_in_set by metis
      qed
      then have "tl ?r = tl p' @ l @ q" "tl p' \<noteq> [] \<Longrightarrow> py_linebreak (last (tl p'))"
        using p'_last by (simp_all add: last_tl)
      then show ?thesis using True pq(3) l by (simp add: line_ofI [of _ "tl p'" l q])
    next
      case False
      have "line_of l ?r" using p'_last pq(3) l by (intro line_ofI [of _ p' l q]) auto
      then show ?thesis using False by (simp only: if_False simp_thms)
    qed
    then have "l \<in> set (py_splitlines ?n)" using "1.IH" [OF ne drop] "1.prems"(2) by blast
    then show ?thesis using ne drop by (simp add: py_splitlines.simps [of s])
  qed
qed

lemma splitlines_one:
  assumes "\<forall>c \<in> set k. \<not> py_linebreak c"
  shows "py_splitlines k = (if k = [] then [] else [k])"
    "py_splitlines (k @ char_of (10 :: nat) # rest) = k # py_splitlines rest"
proof -
  have lf: "py_linebreak (char_of (10 :: nat))" by (simp add: py_linebreak_def)
  have "takeWhile (\<lambda>c. \<not> py_linebreak c) k = k" "dropWhile (\<lambda>c. \<not> py_linebreak c) k = []"
    using assms by (simp_all add: takeWhile_eq_all_conv)
  then show "py_splitlines k = (if k = [] then [] else [k])"
    by (subst py_splitlines.simps) (simp del: dropWhile_eq_Nil_conv)
  have "takeWhile (\<lambda>c. \<not> py_linebreak c) (k @ char_of (10 :: nat) # rest) = k"
    "dropWhile (\<lambda>c. \<not> py_linebreak c) (k @ char_of (10 :: nat) # rest) = char_of (10 :: nat) # rest"
    using assms lf by (simp_all add: takeWhile_append2 dropWhile_append2)
  moreover have "(char_of (10 :: nat) :: char) \<noteq> char_of (13 :: nat)" by (simp add: char_of_def)
  ultimately show "py_splitlines (k @ char_of (10 :: nat) # rest) = k # py_splitlines rest"
    by (subst py_splitlines.simps) simp
qed

lemma splitlines_join:
  "list_all (\<lambda>k. \<forall>c \<in> set k. \<not> py_linebreak c) ks \<Longrightarrow> set (py_splitlines (py_join line_feed ks)) \<subseteq> set ks"
proof (induction line_feed ks rule: py_join.induct)
  case 1
  then show ?case by (simp add: py_splitlines.simps)
next
  case (2 k)
  then show ?case by (simp add: splitlines_one)
next
  case (3 s t ss)
  then have "py_splitlines (py_join line_feed (s # t # ss)) = s # py_splitlines (py_join line_feed (t # ss))"
    using splitlines_one(2) [of s "py_join line_feed (t # ss)"] by (simp add: line_feed_def)
  then show ?case using 3 by auto
qed

lemma py_strip_parts: "\<exists>a b. s = a @ py_strip s @ b \<and> (\<forall>c \<in> set a. py_isspace c) \<and> (\<forall>c \<in> set b. py_isspace c)"
proof -
  define t where "t = dropWhile py_isspace s"
  have "s = takeWhile py_isspace s @ t" by (simp add: t_def)
  moreover have "rev t = takeWhile py_isspace (rev t) @ dropWhile py_isspace (rev t)" by simp
  then have "t = rev (dropWhile py_isspace (rev t)) @ rev (takeWhile py_isspace (rev t))"
    by (metis rev_append rev_rev_ident)
  then have "t = py_strip s @ rev (takeWhile py_isspace (rev t))" by (simp add: py_strip_def py_lstrip_def t_def)
  ultimately have "s = takeWhile py_isspace s @ py_strip s @ rev (takeWhile py_isspace (rev t))" by simp
  then show ?thesis by (metis set_takeWhileD set_rev)
qed

text \<open>No line of a sanitized task claims a role or overrides instructions.\<close>

theorem sanitized_has_no_injection: "list_all (\<lambda>line. \<not> injected line) (py_splitlines (sanitize_task text))"
proof (cases "text = []")
  case True
  then show ?thesis by (simp add: sanitize_task_def py_splitlines.simps)
next
  case False
  define ks where "ks = filter (\<lambda>line. \<not> injected line) (py_splitlines text)"
  have ks: "list_all (\<lambda>k. \<forall>c \<in> set k. \<not> py_linebreak c) ks"
    using splitlines_line_of by (fastforce simp: ks_def list_all_iff line_of_def)
  define J where "J = py_join line_feed ks"
  have T: "sanitize_task text = py_strip J" using False by (simp add: sanitize_task_def J_def ks_def)
  obtain a b where J: "J = a @ py_strip J @ b" "\<forall>c \<in> set a. py_isspace c" "\<forall>c \<in> set b. py_isspace c"
    using py_strip_parts by blast
  have "\<not> injected l" if mem: "l \<in> set (py_splitlines (py_strip J))" for l
  proof (cases "l = []")
    case True
    then show ?thesis by (simp add: not_injected_Nil)
  next
    case False
    obtain p q where pq: "py_strip J = p @ l @ q" "p \<noteq> [] \<longrightarrow> py_linebreak (last p)" "q \<noteq> [] \<longrightarrow> py_linebreak (hd q)"
      and l: "\<forall>c \<in> set l. \<not> py_linebreak c"
      using splitlines_line_of [OF mem] unfolding line_of_def by blast
    obtain a1 u where a: "a @ p = a1 @ u" "\<forall>c \<in> set u. py_isspace c \<and> \<not> py_linebreak c" "a1 \<noteq> [] \<longrightarrow> py_linebreak (last a1)"
    proof (cases "p = []")
      case True
      define w where "w = takeWhile (\<lambda>c. \<not> py_linebreak c) (rev a)"
      have "rev a = w @ dropWhile (\<lambda>c. \<not> py_linebreak c) (rev a)" by (simp add: w_def)
      then have 1: "a = rev (dropWhile (\<lambda>c. \<not> py_linebreak c) (rev a)) @ rev w" by (metis rev_append rev_rev_ident)
      have 2: "\<forall>c \<in> set (rev w). py_isspace c \<and> \<not> py_linebreak c"
        using J(2) set_takeWhileD unfolding w_def by fastforce
      have 3: "rev (dropWhile (\<lambda>c. \<not> py_linebreak c) (rev a)) \<noteq> [] \<longrightarrow>
          py_linebreak (last (rev (dropWhile (\<lambda>c. \<not> py_linebreak c) (rev a))))"
        by (simp add: last_rev) (metis (mono_tags, lifting) hd_dropWhile dropWhile_eq_Nil_conv set_rev)
      show ?thesis using that [of "rev (dropWhile (\<lambda>c. \<not> py_linebreak c) (rev a))" "rev w"] 1 2 3 True by simp
    next
      case False
      then show ?thesis using that [of "a @ p" "[]"] pq(2) by simp
    qed
    obtain b1 v where b: "q @ b = v @ b1" "\<forall>c \<in> set v. \<not> py_linebreak c" "b1 \<noteq> [] \<longrightarrow> py_linebreak (hd b1)"
    proof (cases "q = []")
      case True
      have "dropWhile (\<lambda>c. \<not> py_linebreak c) b \<noteq> [] \<longrightarrow> py_linebreak (hd (dropWhile (\<lambda>c. \<not> py_linebreak c) b))"
        using hd_dropWhile [of "\<lambda>c. \<not> py_linebreak c" b] by auto
      then show ?thesis
        using that [of "takeWhile (\<lambda>c. \<not> py_linebreak c) b" "dropWhile (\<lambda>c. \<not> py_linebreak c) b"] True set_takeWhileD
        by fastforce
    next
      case False
      then show ?thesis using that [of "[]" "q @ b"] pq(3) by simp
    qed
    have "J = a1 @ (u @ l @ v) @ b1" using J(1) pq(1) a(1) b(1) by (metis append.assoc)
    then have "line_of (u @ l @ v) J" using a(2,3) b(2,3) l by (intro line_ofI [of _ a1 "u @ l @ v" b1]) auto
    then have "u @ l @ v \<in> set (py_splitlines J)" using False by (intro line_of_splitlines) auto
    then have "u @ l @ v \<in> set ks" using splitlines_join [OF ks] unfolding J_def by blast
    then have "\<not> injected (u @ l @ v)" by (simp add: ks_def)
    then show ?thesis using injected_within [of l u v] a(2) by blast
  qed
  then show ?thesis by (simp add: T list_all_iff)
qed

end
