(* ===== verification/AgentSelection.thy ===== *)
theory AgentSelection
  imports KeywordMatch RoutingMutation
begin

text \<open>
  Choosing the agents of a task (\<open>orchestrator/agent_selector.py\<close>), from the keywords it has, the
  evidence of past runs (\<open>orchestrator/competence_model.py\<close>) and with a trace of every decision
  (\<open>orchestrator/decision_trace.py\<close>). Floating-point numbers are exact rationals; the hash that names a
  task, identifiers, the clock and the draws of the beta distribution are arguments.
\<close>

subsection \<open>Evidence\<close>

type_synonym posterior = "rat \<times> rat"

definition prior :: posterior where
  "prior = (1, 1)"

definition posterior_mean :: "posterior \<Rightarrow> rat" where
  "posterior_mean = (\<lambda>(a, b). let total = a + b in if 0 < total then a / total else 0)"

definition observations :: "posterior \<Rightarrow> rat" where
  "observations = (\<lambda>(a, b). max 0 (a + b - 2))"

definition evidence_weight :: "rat \<Rightarrow> posterior \<Rightarrow> rat" where
  "evidence_weight smoothing p =
     (let n = observations p in if n \<le> 0 then 0 else n / (n + smoothing))"

record competence =
  cm_agents :: "string list"
  cm_skills :: "string list"
  cm_every :: int
  cm_posterior :: "((string \<times> string) \<times> posterior) list"
  cm_since :: int
  cm_snapshots :: "rat list"

datatype competence_error = UnknownPair string string | UnknownSkill string | BadK int | NoAgents

definition new_competence :: "string list \<Rightarrow> string list \<Rightarrow> int \<Rightarrow> competence" where
  "new_competence agents skills every =
     \<lparr>cm_agents = agents, cm_skills = skills, cm_every = every,
      cm_posterior = fold (\<lambda>p. AList.update p prior) (List.product agents skills) [],
      cm_since = 0, cm_snapshots = []\<rparr>"

definition require_pair :: "string \<Rightarrow> string \<Rightarrow> competence \<Rightarrow> competence_error + posterior" where
  "require_pair agent skill c =
     (case map_of (cm_posterior c) (agent, skill) of None \<Rightarrow> Inl (UnknownPair agent skill) | Some p \<Rightarrow> Inr p)"

definition update_competence ::
  "string \<Rightarrow> string \<Rightarrow> bool \<Rightarrow> competence \<Rightarrow> (competence_error + unit) \<times> competence" where
  "update_competence agent skill success c =
     (case require_pair agent skill c of
        Inl e \<Rightarrow> (Inl e, c)
      | Inr (a, b) \<Rightarrow>
          let p = (if success then (a + 1, b) else (a, b + 1));
              c = c\<lparr>cm_posterior := AList.update (agent, skill) p (cm_posterior c), cm_since := cm_since c + 1\<rparr>
          in (Inr (),
              if cm_every c \<le> cm_since c
              then c\<lparr>cm_since := 0, cm_snapshots := cm_snapshots c @ [fst p / (fst p + snd p)]\<rparr>
              else c))"

text \<open>the first agent whose draw less its cost is the best, above \<open>-1.0e18\<close>\<close>

fun best_sample ::
  "(rat \<Rightarrow> rat \<Rightarrow> nat \<Rightarrow> rat) \<Rightarrow> rat \<Rightarrow> (string \<times> rat) list \<Rightarrow> competence \<Rightarrow> string \<Rightarrow> string list \<Rightarrow> nat \<Rightarrow>
   string \<Rightarrow> rat \<Rightarrow> string" where
  "best_sample beta w costs c skill [] n best_agent best = best_agent"
| "best_sample beta w costs c skill (a # as) n best_agent best =
     (let p = dict_get (cm_posterior c) (a, skill) prior;
          score = beta (fst p) (snd p) n - w * dict_get costs a 0
      in if best < score then best_sample beta w costs c skill as (Suc n) a score
         else best_sample beta w costs c skill as (Suc n) best_agent best)"

definition select_competent ::
  "(rat \<Rightarrow> rat \<Rightarrow> nat \<Rightarrow> rat) \<Rightarrow> string \<Rightarrow> rat \<Rightarrow> (string \<times> rat) list \<Rightarrow> competence \<Rightarrow> competence_error + string" where
  "select_competent beta skill w costs c =
     (if skill \<notin> set (cm_skills c) then Inl (UnknownSkill skill)
      else (case cm_agents c of
              [] \<Rightarrow> Inl NoAgents
            | a # _ \<Rightarrow> Inr (best_sample beta w costs c skill (cm_agents c) 0 a (- (10 ^ 18)))))"

definition imp_at_k :: "(competence \<Rightarrow> rat) \<Rightarrow> int \<Rightarrow> competence \<Rightarrow> competence_error + rat" where
  "imp_at_k metric k c =
     (if k < 1 then Inl (BadK k)
      else if length (cm_snapshots c) < 2 then Inr 0
      else Inr ((metric c - hd (cm_snapshots c)) / of_int (max k 1)))"

subsection \<open>The trace\<close>

record decision =
  de_strategy :: string
  de_agent :: string
  de_provider :: string
  de_latency :: rat
  de_score :: rat
  de_time :: int
  de_task :: string

record decision_trace =
  dt_max :: int
  dt_records :: "(string \<times> decision) list"
  dt_order :: "string list"

definition new_trace :: "int \<Rightarrow> decision_trace option" where
  "new_trace m = (if m < 1 then None else Some \<lparr>dt_max = m, dt_records = [], dt_order = []\<rparr>)"

definition time_of :: "decision_trace \<Rightarrow> string \<Rightarrow> int" where
  "time_of t i = (case map_of (dt_records t) i of None \<Rightarrow> 0 | Some d \<Rightarrow> de_time d)"

fun first_min :: "('a \<Rightarrow> int) \<Rightarrow> 'a \<Rightarrow> 'a list \<Rightarrow> 'a" where
  "first_min f x [] = x"
| "first_min f x (y # ys) = (if f y < f x then first_min f y ys else first_min f x ys)"

definition evict_oldest :: "decision_trace \<Rightarrow> decision_trace" where
  "evict_oldest t =
     (case dt_order t of
        [] \<Rightarrow> t
      | i # is \<Rightarrow>
          let oldest = first_min (time_of t) i is
          in t\<lparr>dt_records := AList.delete oldest (dt_records t), dt_order := remove1 oldest (dt_order t)\<rparr>)"

definition record_decision :: "string \<Rightarrow> decision \<Rightarrow> decision_trace \<Rightarrow> decision_trace" where
  "record_decision i d t =
     (let t = t\<lparr>dt_records := AList.update i d (dt_records t), dt_order := dt_order t @ [i]\<rparr>
      in if dt_max t < int (length (dt_records t)) then evict_oldest t else t)"

definition trace_decisions :: "decision_trace \<Rightarrow> decision list" where
  "trace_decisions t = map (\<lambda>i. the (map_of (dt_records t) i)) (dt_order t)"

definition get_trace :: "string \<Rightarrow> decision_trace \<Rightarrow> decision list" where
  "get_trace task t = filter (\<lambda>d. de_task d = task) (trace_decisions t)"

definition last_decision :: "decision_trace \<Rightarrow> decision option" where
  "last_decision t = (if dt_order t = [] then None else map_of (dt_records t) (last (dt_order t)))"

definition clear_trace :: "decision_trace \<Rightarrow> decision_trace" where
  "clear_trace t = t\<lparr>dt_records := [], dt_order := []\<rparr>"

subsection \<open>The selector\<close>

datatype activation = Minimal | Paired | Standard | Swarm | Full

definition simple_indicators :: "string list" where
  "simple_indicators = [''simple'', ''basico'', ''rapido'', ''quick'', ''rapida'', ''solo una consulta'',
     ''duda rapida'', ''pregunta simple'', ''pequeno cambio'', ''minor fix'']"

definition complex_indicators :: "string list" where
  "complex_indicators = [''complejo'', ''grande'', ''multi-modulo'', ''multiples archivos'', ''arquitectura'',
     ''sistema completo'', ''full stack'', ''produccion'', ''enterprise'', ''escalable'', ''swarm'',
     ''todos los agentes'', ''full team'']"

record selector =
  as_level :: activation
  as_competence :: "competence option"
  as_trace :: decision_trace

definition detect_level :: "string \<Rightarrow> activation" where
  "detect_level message =
     (if list_ex (contains_word message) complex_indicators then Swarm
      else if list_ex (contains_word message) simple_indicators then Minimal
      else
        let tech_verbs = sum_list (map (\<lambda>(_, keywords). score_keywords message keywords) agent_keywords)
        in if 5 \<le> tech_verbs then Swarm else if 3 \<le> tech_verbs then Standard
           else if 1 \<le> tech_verbs then Paired else Minimal)"

definition first_word :: "string \<Rightarrow> string" where
  "first_word message = (if py_strip message = [] then [] else hd (py_split (py_lower (py_strip message))))"

definition agent_score :: "string \<Rightarrow> string list \<Rightarrow> rat" where
  "agent_score message keywords =
     (let score = of_nat (score_keywords message keywords);
          normalized = min (score / of_nat (max 1 (length keywords)) * 2) 1
      in if first_word message \<noteq> [] \<and> first_word message \<in> set keywords then min (normalized + 1 / 2) 1
         else normalized)"

definition score_agents :: "string \<Rightarrow> (string \<times> rat) list" where
  "score_agents message = map (\<lambda>(agent, keywords). (agent, agent_score message keywords)) agent_keywords"

definition rerank :: "competence option \<Rightarrow> string \<Rightarrow> (string \<times> rat) list \<Rightarrow> (string \<times> rat) list" where
  "rerank model skill scores =
     (case model of
        None \<Rightarrow> scores
      | Some c \<Rightarrow>
          map (\<lambda>(agent, s).
            (case require_pair agent skill c of
               Inl _ \<Rightarrow> (agent, s)
             | Inr p \<Rightarrow>
                 if observations p < 1 then (agent, s)
                 else (agent, min 1 (s + posterior_mean p * 1 * evidence_weight 10 p)))) scores)"

definition positive_names :: "(string \<times> rat) list \<Rightarrow> string list" where
  "positive_names ranked = map fst (filter (\<lambda>(_, s). 0 < s) ranked)"

definition select_by_level :: "(string \<times> rat) list \<Rightarrow> activation \<Rightarrow> string list" where
  "select_by_level scores level =
     (let ranked = sort_key (\<lambda>(_, s). - s) scores
      in case level of
           Minimal \<Rightarrow> (case ranked of [] \<Rightarrow> [''builder''] | (a, _) # _ \<Rightarrow> [a])
         | Paired \<Rightarrow>
             let sel = take 2 (positive_names ranked) in if length sel < 1 then [''builder''] else sel
         | Standard \<Rightarrow>
             let sel = take 3 (positive_names ranked)
             in if length sel < 2
                then let sel = (if ''guardian'' \<in> set sel then sel else sel @ [''guardian''])
                     in if ''builder'' \<in> set sel then sel else sel @ [''builder'']
                else sel
         | Swarm \<Rightarrow>
             [''builder'', ''scientist'', ''guardian''] @
             (if 3 / 10 < dict_get scores ''evolve'' 0 then [''evolve''] else [])
         | Full \<Rightarrow> [''builder'', ''scientist'', ''guardian'', ''evolve''])"

text \<open>\<open>id\<close>, \<open>now\<close>: the identifier and the time of the record\<close>

record select_env =
  sl_sha1 :: "string \<Rightarrow> string"
  sl_id :: string
  sl_now :: int

definition selection_record :: "select_env \<Rightarrow> string \<Rightarrow> string list \<Rightarrow> (string \<times> rat) list \<Rightarrow> decision" where
  "selection_record e sanitized sel scores =
     \<lparr>de_strategy = ''agent_selector'', de_agent = (case sel of [] \<Rightarrow> ''abstain'' | a # _ \<Rightarrow> a), de_provider = [],
      de_latency = 0, de_score = (case map snd scores of [] \<Rightarrow> 0 | s # ss \<Rightarrow> fold max ss s),
      de_time = sl_now e, de_task = take 12 (sl_sha1 e sanitized)\<rparr>"

definition record_selection ::
  "select_env \<Rightarrow> string \<Rightarrow> string list \<Rightarrow> (string \<times> rat) list \<Rightarrow> selector \<Rightarrow> selector" where
  "record_selection e sanitized sel scores s =
     s\<lparr>as_trace := record_decision (sl_id e) (selection_record e sanitized sel scores) (as_trace s)\<rparr>"

definition select_agents ::
  "select_env \<Rightarrow> string \<Rightarrow> string \<Rightarrow> bool \<Rightarrow> selector \<Rightarrow> string list \<times> selector" where
  "select_agents e message skill abstain s =
     (if message = [] then ([''builder''], s)
      else
        let sanitized = sanitize_task message
        in if sanitized = [] then
             let agents = (if abstain then [] else [''builder''])
             in (agents, record_selection e sanitized agents [] s)
           else
             let level = detect_level sanitized;
                 scores = rerank (as_competence s) skill (score_agents sanitized);
                 agents = (if abstain \<and> list_all (\<lambda>(_, x). x \<le> 0) scores then []
                           else select_by_level scores level)
             in (agents, record_selection e sanitized agents scores s))"

definition estimate_tokens_saved :: "select_env \<Rightarrow> string \<Rightarrow> selector \<Rightarrow> (int \<times> int \<times> int \<times> int) \<times> selector" where
  "estimate_tokens_saved e message s =
     (case select_agents e message ''general'' True s of
        (sel, s) \<Rightarrow>
          let n = int (length sel)
          in ((n, 3 - n, 3 * 500 - n * 500, n * 500), s))"

subsection \<open>Evidence adds up\<close>

lemma require_pair_new:
  "require_pair agent skill (new_competence agents skills every) =
    (if agent \<in> set agents \<and> skill \<in> set skills then Inr prior else Inl (UnknownPair agent skill))"
proof -
  have "map_of (fold (\<lambda>p. AList.update p v) ps d) k = (if k \<in> set ps then Some v else map_of d k)"
    for ps :: "(string \<times> string) list" and v :: posterior and d k
    by (induction ps arbitrary: d) auto
  then show ?thesis by (simp add: require_pair_def new_competence_def)
qed

type_synonym trial = "(string \<times> string) \<times> bool"

definition run_trials :: "trial list \<Rightarrow> competence \<Rightarrow> competence" where
  "run_trials h c = fold (\<lambda>((a, s), ok) c. snd (update_competence a s ok c)) h c"

definition known :: "string list \<Rightarrow> string list \<Rightarrow> string \<times> string \<Rightarrow> bool" where
  "known agents skills = (\<lambda>(a, s). a \<in> set agents \<and> s \<in> set skills)"

definition trials_of :: "string \<times> string \<Rightarrow> bool \<Rightarrow> trial list \<Rightarrow> rat" where
  "trials_of p ok h = of_nat (length (filter (\<lambda>t. t = (p, ok)) h))"

lemma update_competence_keeps:
  "cm_agents (snd (update_competence a s ok c)) = cm_agents c"
  "cm_skills (snd (update_competence a s ok c)) = cm_skills c"
  "cm_every (snd (update_competence a s ok c)) = cm_every c"
  by (auto simp: update_competence_def Let_def split: sum.splits)

lemma require_pair_update:
  "require_pair a' s' (snd (update_competence a s ok c)) =
    (case require_pair a' s' c of
       Inl e \<Rightarrow> Inl e
     | Inr (x, y) \<Rightarrow>
         Inr (if (a, s) = (a', s') then if ok then (x + 1, y) else (x, y + 1) else (x, y)))"
  by (auto simp: update_competence_def require_pair_def Let_def split: sum.splits option.splits)

lemma trials_snoc: "trials_of p ok (h @ [t]) = trials_of p ok h + (if t = (p, ok) then 1 else 0)"
  by (simp add: trials_of_def)

text \<open>What is known of an agent at a skill after any history is the number of its successes and of its failures,
  each one above the prior; a pair outside the model is refused and changes nothing.\<close>

theorem posterior_counts_trials:
  "require_pair agent skill (run_trials h (new_competence agents skills every)) =
    (if known agents skills (agent, skill)
     then Inr (1 + trials_of (agent, skill) True h, 1 + trials_of (agent, skill) False h)
     else Inl (UnknownPair agent skill))"
proof (induction h rule: rev_induct)
  case Nil
  show ?case by (simp add: run_trials_def require_pair_new known_def trials_of_def prior_def)
next
  case (snoc t h)
  obtain a s ok where t: "t = ((a, s), ok)" by (metis prod.exhaust)
  have "run_trials (h @ [t]) c = snd (update_competence a s ok (run_trials h c))" for c
    by (simp add: run_trials_def t)
  then show ?case by (simp add: require_pair_update snoc.IH trials_snoc t)
qed

lemma trials_nonneg [simp]: "0 \<le> trials_of p ok h"
  by (simp add: trials_of_def)

lemma observations_count:
  "observations (1 + trials_of p True h, 1 + trials_of p False h) = trials_of p True h + trials_of p False h"
  by (simp add: observations_def)

lemma posterior_mean_range: "0 \<le> a \<Longrightarrow> 0 \<le> b \<Longrightarrow> 0 \<le> posterior_mean (a, b) \<and> posterior_mean (a, b) \<le> 1"
  by (auto simp: posterior_mean_def Let_def divide_le_eq_1)

lemma evidence_weight_range: "0 \<le> k \<Longrightarrow> 0 \<le> evidence_weight k p \<and> evidence_weight k p \<le> 1"
  by (auto simp: evidence_weight_def Let_def divide_le_eq_1)

text \<open>Without a trial the ranking by keywords stands, and evidence only ever raises a score, to one at most.\<close>

lemma rerank_no_trials:
  "rerank (Some (new_competence agents skills every)) skill scores = scores"
  by (induction scores) (auto simp: rerank_def require_pair_new prior_def observations_def split: sum.splits)

definition raised :: "(string \<times> rat) list \<Rightarrow> (string \<times> rat) list \<Rightarrow> bool" where
  "raised = list_all2 (\<lambda>(a, s) (b, t). b = a \<and> s \<le> t \<and> t \<le> 1)"

lemma rerank_raises:
  assumes "list_all (\<lambda>(_, s). s \<le> 1) scores"
  shows "raised scores (rerank (Some (run_trials h (new_competence agents skills every))) skill scores)"
proof -
  have "0 \<le> posterior_mean (1 + trials_of p True h, 1 + trials_of p False h) *
      evidence_weight 10 (1 + trials_of p True h, 1 + trials_of p False h)" for p
    by (intro mult_nonneg_nonneg) (simp_all add: posterior_mean_range evidence_weight_range)
  then show ?thesis
    using assms
    by (induction scores)
      (auto simp: raised_def rerank_def posterior_counts_trials split: sum.splits if_splits)
qed

subsection \<open>The trace keeps the latest\<close>

lemma first_min_sorted:
  "sorted (map f (x # ys)) \<Longrightarrow> first_min f x ys = x"
  by (induction ys) auto

lemma trace_step:
  assumes sync: "map fst (dt_records t) = dt_order t" "distinct (dt_order t)"
    and fresh: "i \<notin> set (dt_order t)" and times: "sorted (map (\<lambda>(_, d). de_time d) (dt_records t @ [(i, d)]))"
    and room: "1 \<le> dt_max t" "int (length (dt_records t)) \<le> dt_max t"
  shows "record_decision i d t =
    t\<lparr>dt_records := push_bounded (nat (dt_max t)) (dt_records t) (i, d),
      dt_order := push_bounded (nat (dt_max t)) (dt_order t) i\<rparr>"
proof -
  let ?t = "t\<lparr>dt_records := dt_records t @ [(i, d)], dt_order := dt_order t @ [i]\<rparr>"
  have len: "length (dt_order t) = length (dt_records t)" using sync(1) by (metis length_map)
  have upd: "AList.update i d (dt_records t) = dt_records t @ [(i, d)]"
    using fresh sync(1) by (intro dict_update_fresh) (auto simp: map_of_eq_None_iff simp flip: set_map)
  show ?thesis
  proof (cases "dt_max t < int (length (dt_records t)) + 1")
    case False
    then show ?thesis
      using len by (auto simp: record_decision_def upd push_bounded_def Let_def nat_less_iff)
  next
    case True
    obtain j0 e0 rs where rs: "dt_records t @ [(i, d)] = (j0, e0) # rs"
      by (cases "dt_records t") auto
    have order: "dt_order t @ [i] = j0 # map fst rs"
      using sync(1) rs by (metis fst_conv list.simps(9) map_append list.map(1))
    have dist: "distinct (map fst ((j0, e0) # rs))"
      using sync fresh rs order by (metis distinct.simps(2) distinct1_rotate fst_conv list.simps(9) order rotate1.simps(2))
    have time: "time_of ?t j = (case map_of ((j0, e0) # rs) j of None \<Rightarrow> 0 | Some d \<Rightarrow> de_time d)" for j
      by (simp add: time_of_def rs)
    have times: "map (time_of ?t) (map fst ((j0, e0) # rs)) = map (\<lambda>(_, d). de_time d) ((j0, e0) # rs)"
      using dist unfolding time
      by (auto simp: comp_def intro!: map_cong split: option.splits dest: eq_key_imp_eq_value)
    have "sorted (map (time_of ?t) (map fst ((j0, e0) # rs)))" unfolding times using assms(4) rs by simp
    then have "first_min (time_of ?t) j0 (map fst rs) = j0"
      by (intro first_min_sorted) (simp only: list.map fst_conv)
    then have "evict_oldest ?t = t\<lparr>dt_records := rs, dt_order := map fst rs\<rparr>"
      using dist order rs by (simp add: evict_oldest_def dict_delete_absent map_of_eq_None_iff Let_def)
    then show ?thesis
      using True len rs order room by (auto simp: record_decision_def upd push_bounded_def Let_def nat_less_iff)
  qed
qed

definition record_all :: "(string \<times> decision) list \<Rightarrow> decision_trace \<Rightarrow> decision_trace" where
  "record_all h t = fold (\<lambda>(i, d). record_decision i d) h t"

lemma last_n_sorted: "sorted xs \<Longrightarrow> sorted (last_n n xs)"
  by (simp add: last_n_def sorted_wrt_drop)

lemma record_all_latest:
  assumes "1 \<le> m" "distinct (map fst h)" "sorted (map (\<lambda>(_, d). de_time d) h)"
  shows "record_all h \<lparr>dt_max = m, dt_records = [], dt_order = []\<rparr> =
    \<lparr>dt_max = m, dt_records = last_n (nat m) h, dt_order = last_n (nat m) (map fst h)\<rparr>"
  using assms(2,3)
proof (induction h rule: rev_induct)
  case Nil
  show ?case by (simp add: record_all_def last_n_def)
next
  case (snoc x h)
  obtain i d where x: "x = (i, d)" by (cases x)
  let ?t = "\<lparr>dt_max = m, dt_records = last_n (nat m) h, dt_order = last_n (nat m) (map fst h)\<rparr>"
  have IH: "record_all h \<lparr>dt_max = m, dt_records = [], dt_order = []\<rparr> = ?t"
    using snoc by (simp add: sorted_append)
  have "sorted (map (\<lambda>(_, d). de_time d) (last_n (nat m) h @ [(i, d)]))"
  proof -
    have "sorted (drop (length h - nat m) (map (\<lambda>(_, d). de_time d) h))"
      using snoc.prems(2) by (simp add: sorted_append sorted_wrt_drop)
    then show ?thesis
      using snoc.prems(2) x by (auto simp: sorted_append last_n_def drop_map dest!: in_set_dropD)
  qed
  moreover have "i \<notin> set (last_n (nat m) (map fst h))"
    using snoc.prems(1) x by (auto simp: last_n_def dest: in_set_dropD)
  ultimately have "record_decision i d ?t = ?t\<lparr>dt_records := push_bounded (nat m) (last_n (nat m) h) (i, d),
      dt_order := push_bounded (nat m) (last_n (nat m) (map fst h)) i\<rparr>"
    using assms(1) snoc.prems(1)
    by (subst trace_step) (auto simp: last_n_def simp flip: drop_map)
  then show ?case
    using IH by (simp add: record_all_def x push_bounded_last_n)
qed

lemma map_the_map_of: "distinct (map fst d) \<Longrightarrow> map (\<lambda>i. the (map_of d i)) (map fst d) = map snd d"
  unfolding map_map by (auto intro!: map_cong simp: map_of_is_SomeI)

definition ex_decision :: "int \<Rightarrow> decision" where
  "ex_decision t = \<lparr>de_strategy = [], de_agent = [], de_provider = [], de_latency = 0, de_score = 0,
     de_time = t, de_task = []\<rparr>"

text \<open>With fresh identifiers and a clock that does not run backwards, the trace holds the latest decisions, as
  many as its capacity, in the order they were made.\<close>

theorem trace_keeps_latest:
  assumes "distinct (map fst h)" "sorted (map (\<lambda>(_, d). de_time d) h)"
  shows "case new_trace m of
      None \<Rightarrow> m < 1
    | Some t \<Rightarrow>
        trace_decisions (record_all h t) = last_n (nat m) (map snd h) \<and>
        last_decision (record_all h t) = (if h = [] then None else Some (snd (last h)))"
proof (cases "m < 1")
  case True
  then show ?thesis by (simp add: new_trace_def)
next
  case False
  have d: "distinct (map fst (last_n (nat m) h))" using assms(1) by (simp add: last_n_def drop_map [symmetric])
  have o: "last_n (nat m) (map fst h) = map fst (last_n (nat m) h)" "last_n (nat m) (map snd h) = map snd (last_n (nat m) h)"
    by (simp_all add: last_n_def drop_map)
  have "0 < nat m" using False by simp
  then have ne: "h \<noteq> [] \<Longrightarrow> last_n (nat m) h \<noteq> []" by (simp add: last_n_def not_le diff_less)
  have "h \<noteq> [] \<Longrightarrow> map_of (last_n (nat m) h) (last (map fst (last_n (nat m) h))) = Some (snd (last h))"
  proof -
    assume h: "h \<noteq> []"
    have "last (last_n (nat m) h) = last h" using False h by (simp add: last_n_def last_drop)
    moreover have "last (last_n (nat m) h) \<in> set (last_n (nat m) h)" using ne [OF h] by simp
    ultimately show ?thesis using d ne [OF h] by (metis last_map map_of_is_SomeI prod.collapse)
  qed
  then show ?thesis
    using False record_all_latest [of m h] assms map_the_map_of [OF d] ne
    by (auto simp: new_trace_def trace_decisions_def last_decision_def o simp del: map_map) (simp add: last_n_def)
qed

theorem trace_keeps_latest_witness:
  "case new_trace 1 of
      None \<Rightarrow> (1 :: int) < 1
    | Some t \<Rightarrow>
        trace_decisions (record_all [(''a'', ex_decision 3), (''b'', ex_decision 3)] t) =
          last_n (nat 1) (map snd [(''a'', ex_decision 3), (''b'', ex_decision 3)]) \<and>
        last_decision (record_all [(''a'', ex_decision 3), (''b'', ex_decision 3)] t) =
          (if [(''a'', ex_decision 3), (''b'', ex_decision 3)] = [] then None
           else Some (snd (last [(''a'', ex_decision 3), (''b'', ex_decision 3)])))"
  by (rule trace_keeps_latest) (simp_all add: ex_decision_def)

subsection \<open>Selections\<close>

lemma agents_known: "map fst agent_keywords = [''builder'', ''scientist'', ''guardian'', ''evolve'']"
  by (simp add: agent_keywords_def)

lemma score_agents_names: "map fst (score_agents m) = map fst agent_keywords"
  by (simp add: score_agents_def comp_def split_def)

lemma rerank_names: "map fst (rerank model skill scores) = map fst scores"
  by (auto simp: rerank_def comp_def split: option.splits sum.splits intro!: map_cong)

definition selection_scores :: "selector \<Rightarrow> string \<Rightarrow> string \<Rightarrow> (string \<times> rat) list" where
  "selection_scores s message skill = rerank (as_competence s) skill (score_agents (sanitize_task message))"

definition no_signal :: "selector \<Rightarrow> string \<Rightarrow> string \<Rightarrow> bool" where
  "no_signal s message skill \<longleftrightarrow>
     (if sanitize_task message = [] then True else list_all (\<lambda>(_, x). x \<le> 0) (selection_scores s message skill))"

lemma selection_names: "map fst (selection_scores s m skill) = [''builder'', ''scientist'', ''guardian'', ''evolve'']"
  by (simp add: selection_scores_def rerank_names score_agents_names agents_known)

lemma detect_level_not_full: "detect_level m \<noteq> Full"
  by (simp add: detect_level_def Let_def)

definition ranking :: "(string \<times> rat) list \<Rightarrow> (string \<times> rat) list" where
  "ranking scores = sort_key (\<lambda>(_, s). - s) scores"

lemma ranking_first:
  assumes "ranking scores = (a, x) # rest" "(b, y) \<in> set scores"
  shows "y \<le> x"
proof -
  have "sorted (map (\<lambda>(_, s). - s) (ranking scores))" by (simp add: ranking_def)
  moreover have "(b, y) \<in> set (ranking scores)" using assms(2) by (simp add: ranking_def)
  ultimately show ?thesis using assms(1) by auto
qed

lemma positive_names_hd:
  assumes "ranking scores = (a, x) # rest" "(b, y) \<in> set scores" "0 < y"
  shows "0 < x" "positive_names (ranking scores) = a # positive_names rest"
  using ranking_first [OF assms(1,2)] assms by (simp_all add: positive_names_def)

lemma ranking_props:
  "set (map fst (ranking scores)) = set (map fst scores)" "distinct (map fst scores) \<Longrightarrow> distinct (map fst (ranking scores))"
  unfolding ranking_def
  by (simp_all add: distinct_map)

lemma ranking_Cons:
  assumes "scores \<noteq> []"
  obtains a x rest where "ranking scores = (a, x) # rest"
proof -
  have "ranking scores \<noteq> []" using assms by (metis ranking_def set_empty set_sort)
  then show ?thesis using that by (cases "ranking scores") auto
qed

lemma set_take_positive: "set (take n (positive_names r)) \<subseteq> set (map fst r)"
  by (auto simp: positive_names_def dest!: in_set_takeD)

lemma distinct_take_positive: "distinct (map fst r) \<Longrightarrow> distinct (take n (positive_names r))"
  by (simp add: positive_names_def distinct_map_filter)

lemma select_by_level_members:
  assumes names: "map fst scores = [''builder'', ''scientist'', ''guardian'', ''evolve'']"
  shows "distinct (select_by_level scores level) \<and>
    set (select_by_level scores level) \<subseteq> {''builder'', ''scientist'', ''guardian'', ''evolve''} \<and>
    length (select_by_level scores level) \<le> 4 \<and> select_by_level scores level \<noteq> []"
proof -
  have ne: "scores \<noteq> []" using names by auto
  obtain a x rest where r: "ranking scores = (a, x) # rest" using ranking_Cons [OF ne] .
  have set: "set (map fst (ranking scores)) = {''builder'', ''scientist'', ''guardian'', ''evolve''}"
    unfolding ranking_props(1) names by simp
  have dist: "distinct (map fst (ranking scores))" by (rule ranking_props(2)) (simp add: names)
  have take: "set (take n (positive_names (ranking scores))) \<subseteq> {''builder'', ''scientist'', ''guardian'', ''evolve''}"
    "distinct (take n (positive_names (ranking scores)))" "length (take n (positive_names (ranking scores))) \<le> n" for n
    using set_take_positive [of n "ranking scores"] distinct_take_positive [OF dist, of n] set by auto
  have a: "a \<in> {''builder'', ''scientist'', ''guardian'', ''evolve''}" using set r by auto
  show ?thesis
  proof (cases level)
    case Minimal
    then show ?thesis using a r by (simp add: select_by_level_def ranking_def)
  next
    case Paired
    then show ?thesis
      using take [of 2] by (auto simp: select_by_level_def Let_def simp flip: ranking_def)
  next
    case Standard
    then show ?thesis
      using take [of 3] by (auto simp: select_by_level_def Let_def simp flip: ranking_def)
  next
    case Swarm
    then show ?thesis by (simp add: select_by_level_def)
  next
    case Full
    then show ?thesis by (simp add: select_by_level_def)
  qed
qed

lemma select_by_level_lead:
  assumes "distinct (map fst scores)" "(b, y) \<in> set scores" "0 < y" "level \<noteq> Swarm" "level \<noteq> Full"
  shows "\<forall>(c, z) \<in> set scores. z \<le> dict_get scores (hd (select_by_level scores level)) 0"
proof -
  have "scores \<noteq> []" using assms(2) by auto
  then obtain a x rest where r: "ranking scores = (a, x) # rest" using ranking_Cons by blast
  have p: "positive_names (ranking scores) = a # positive_names rest"
    using positive_names_hd [OF r assms(2,3)] by blast
  have "hd (select_by_level scores level) = a"
    using assms(4,5) p r by (cases level) (auto simp: select_by_level_def Let_def simp flip: ranking_def)
  moreover have "(a, x) \<in> set scores" using r by (metis list.set_intros(1) ranking_def set_sort)
  then have "dict_get scores a 0 = x" using assms(1) by (simp add: dict_get_def)
  ultimately show ?thesis using ranking_first [OF r] by auto
qed

text \<open>
  A selection names known agents, each once, and at most four. It is empty exactly when abstaining is allowed
  and no agent has a score above zero. Unless the task counts as complex, the lead has the best score.
\<close>

theorem selection_sound:
  "case select_agents e message skill abstain s of
     (agents, s') \<Rightarrow>
       distinct agents \<and> set agents \<subseteq> set (map fst agent_keywords) \<and> length agents \<le> 4 \<and>
       (agents = [] \<longleftrightarrow> message \<noteq> [] \<and> abstain \<and> no_signal s message skill) \<and>
       (if message = [] then True else if no_signal s message skill then True
        else if detect_level (sanitize_task message) = Swarm then hd agents = ''builder''
        else list_all (\<lambda>(_, x). x \<le> dict_get (selection_scores s message skill) (hd agents) 0)
               (selection_scores s message skill))"
proof (cases "message = [] \<or> sanitize_task message = []")
  case True
  then show ?thesis by (auto simp: select_agents_def no_signal_def agents_known Let_def)
next
  case False
  define scores where "scores = selection_scores s message skill"
  have sel: "select_agents e message skill abstain s =
    (if abstain \<and> list_all (\<lambda>(_, x). x \<le> 0) scores then [] else select_by_level scores (detect_level (sanitize_task message)),
     record_selection e (sanitize_task message)
      (if abstain \<and> list_all (\<lambda>(_, x). x \<le> 0) scores then [] else select_by_level scores (detect_level (sanitize_task message)))
      scores s)"
    using False by (simp add: select_agents_def scores_def selection_scores_def Let_def)
  have quiet: "no_signal s message skill \<longleftrightarrow> list_all (\<lambda>(_, x). x \<le> 0) scores"
    using False by (simp add: no_signal_def scores_def)
  have names: "map fst scores = [''builder'', ''scientist'', ''guardian'', ''evolve'']"
    by (simp only: scores_def selection_names)
  note members = select_by_level_members [OF names, of "detect_level (sanitize_task message)"]
  have lead: "if detect_level (sanitize_task message) = Swarm
      then hd (select_by_level scores (detect_level (sanitize_task message))) = ''builder''
      else list_all (\<lambda>(_, x). x \<le> dict_get scores (hd (select_by_level scores (detect_level (sanitize_task message)))) 0) scores"
    if loud: "\<not> list_all (\<lambda>(_, x). x \<le> 0) scores"
  proof -
    obtain b y where "(b, y) \<in> set scores" "0 < y" using loud by (auto simp: list_all_iff not_le)
    moreover have "distinct (map fst scores)" unfolding names by simp
    ultimately have "detect_level (sanitize_task message) \<noteq> Swarm \<Longrightarrow>
        \<forall>(c, z) \<in> set scores. z \<le> dict_get scores (hd (select_by_level scores (detect_level (sanitize_task message)))) 0"
      using select_by_level_lead detect_level_not_full by blast
    then show ?thesis by (auto simp: select_by_level_def list_all_iff)
  qed
  show ?thesis
    using False members lead unfolding sel quiet agents_known scores_def [symmetric] by auto
qed

end
