(* ===== verification/SkillBundle.thy ===== *)
theory SkillBundle
  imports KeywordMatch RoutingMutation
begin

text \<open>
  Composing agents from skills (\<open>orchestrator/skill_bundler.py\<close>, with the scores of skill bodies in
  \<open>orchestrator/hidden_body.py\<close>): the domain of a task, the skills of a domain for a task without
  near-duplicates, and the agents that carry them. The registry is the document read from its file; which
  skill files exist and what they hold are arguments. Scores are exact rationals.
\<close>

subsection \<open>Names\<close>

definition name_tokens :: "string \<Rightarrow> string set" where
  "name_tokens name = set (py_split (normalize name))"

definition token_jaccard :: "string set \<Rightarrow> string set \<Rightarrow> rat" where
  "token_jaccard l r =
     (if l = {} \<and> r = {} then 1 else of_nat (card (l \<inter> r)) / of_nat (card (l \<union> r)))"

fun keep_distinct :: "string list \<Rightarrow> string list \<Rightarrow> string list" where
  "keep_distinct [] kept = kept"
| "keep_distinct (n # ns) kept =
     (if list_ex (\<lambda>k. 9 / 10 \<le> token_jaccard (name_tokens n) (name_tokens k)) kept
      then keep_distinct ns kept else keep_distinct ns (kept @ [n]))"

definition deduplicate :: "string list \<Rightarrow> string list" where
  "deduplicate names = keep_distinct names []"

subsection \<open>Keywords of domains\<close>

definition domain_keywords :: "(string \<times> string list) list" where
  "domain_keywords = [
     (''web'', [''pagina web'', ''sitio web'', ''website'', ''http server'']),
     (''api'', [''api'', ''endpoint'', ''graphql'', ''grpc'', ''microservice'']),
     (''data'', [''data'', ''datos'', ''analisis'', ''pandas'', ''sklearn'', ''numpy'', ''analytics'',
       ''machine learning'', ''deep learning'']),
     (''frontend'', [''frontend'', ''react'', ''vue'', ''svelte'', ''angular'', ''landing page'',
       ''componente ui'']),
     (''backend'', [''backend'', ''server'', ''database'', ''servicio backend'']),
     (''mobile'', [''mobile'', ''app ios'', ''app android'', ''react native'', ''flutter'']),
     (''security'', [''security'', ''seguridad'', ''owasp'', ''autenticacion'', ''harden'']),
     (''architecture'', [''arquitectura'', ''ddd'', ''domain driven'', ''clean architecture'', ''hexagonal'']),
     (''trading'', [''trading'', ''quant'', ''estrategia trading'', ''mercado financiero'']),
     (''research'', [''research'', ''investigacion'', ''paper'', ''estudio academico'']),
     (''legal'', [''legal'', ''juridico'', ''contrato'', ''norma legal'', ''regulacion'',
       ''jurisprudencia'', ''linea jurisprudencial'', ''precedente judicial'', ''demanda judicial'',
       ''contestacion de demanda'', ''tutela'', ''material probatorio'', ''prueba judicial'',
       ''cadena de custodia'', ''forense documental'', ''termino procesal'', ''debido proceso'',
       ''competencia judicial'', ''recurso de apelacion'', ''radicado'']),
     (''health'', [''health-record'', ''salud'', ''hospital'', ''paciente'', ''hipaa'']),
     (''retail'', [''retail'', ''punto de venta'', ''pos'', ''tienda'', ''inventario'', ''facturacion'']),
     (''devops'', [''devops'', ''ci/cd'', ''deploy'', ''kubernetes'', ''docker'', ''infraestructura'']),
     (''quality'', [''quality gate'', ''mutation testing'', ''code review'', '' QA '', '' TDD '',
       ''cobertura'']),
     (''meta'', [''evolve'', ''evoluciona'', ''auto-mejora'', ''auto mejora'', ''self-improve'',
       ''cognition'', ''meta-aprendizaje'', ''skill'', ''frontmatter'', ''progressive disclosure'',
       ''drift'', ''lifecycle'', ''ciclo frontera'', ''frontera'', ''estado del arte'', ''sota'',
       ''paper trail'']),
     (''academic'', [''matematicas'', ''math'', ''latex'', ''teorema'', ''theorem'', ''demostracion'',
       ''ecuacion'', ''equation'', ''estadistica'', ''algebra'', ''calculo'']),
     (''finance'', [''hedge fund'', ''fondo'', ''capital'', ''mandato'', ''stop-loss'',
       ''asignacion de capital'', ''institucional'', ''riesgo-reward'']),
     (''business'', [''dofa'', ''swot'', ''porter'', ''canvas'', ''plan de negocio'',
       ''modelo de negocio'', ''posicionamiento'', ''roi'', ''kpi'', ''okr'']),
     (''management'', [''scrum'', ''kanban'', ''planificacion'', ''seguimiento'', ''estimaciones'',
       ''stakeholders'', ''gestion de proyecto'', ''sprint'']),
     (''communication'', [''escritura ejecutiva'', ''storytelling'', ''negociacion'', ''presentaciones'',
       ''liderazgo'', ''comunicacion persuasiva'']),
     (''design'', [''design thinking'', ''ideacion'', ''prototipado'', ''branding'', ''brainstorming'',
       ''identidad visual'', ''diagrama'', ''flowchart'', ''mermaid'', ''drawio'', ''svg'', ''swimlane'',
       ''timeline'', ''org chart'', ''state machine'']),
     (''psychology'', [''psicologia'', ''cognitiva'', ''organizacional'', ''comportamiento'', ''motivacion'']),
     (''education'', [''educativo'', ''pedagogia'', ''andragogia'', ''bloom'', ''microlearning'',
       ''instruccional'', ''formacion'', ''ensenanza'']),
     (''ethics'', [''etica'', ''alineamiento'', ''valores'', ''filosofia'', ''sesgo'', ''marcos eticos'']),
     (''economics'', [''teoria de juegos'', ''sesgos cognitivos'', ''heuristicas'', ''incentivos'',
       ''nudges'', ''economia conductual'']),
     (''linguistics'', [''linguistica'', ''semiotica'', ''pragmatica'', ''analisis del discurso'',
       ''lenguaje natural'', ''nlp'']),
     (''sociology'', [''sociologia'', ''antropologia'', ''redes sociales'', ''cultura digital'',
       ''grupos sociales'']),
     (''sustainability'', [''sostenibilidad'', ''esg'', ''impacto ambiental'', ''economia circular'',
       ''cambio climatico'']),
     (''science'', [''fisica'', ''quimica'', ''biologia'', ''metodo cientifico'', ''ciencias naturales'',
       ''diseno experimental'']),
     (''risk-intelligence'', [''riesgos emergentes'', ''cro forum'', ''geopolitico'', ''climatico'',
       ''escenarios de riesgo'']),
     (''ads'', [''meta ads'', ''google ads'', ''campana publicitaria'', ''publicidad'', ''conversion'',
       ''targeting'', ''bidding'']),
     (''orchestration'', [''adopcion de herramienta'', ''adoptar herramienta'',
       ''proceso sobre herramienta'', ''medicion y escalado'', ''evaluar herramienta'']),
     (''reverse-engineering'', [''ingenieria inversa'', ''reverse engineering'', ''decompile'', ''ghidra'',
       ''hopper'', ''asar'', ''xrefs'']),
     (''codebase-comprehension'', [''codebase'', ''onboarding'', ''repo map'', ''call graph'', ''ctags'',
       ''hotspots'', ''blast radius'']),
     (''architecture-review'', [''conformance'', ''conformance check'', ''violaciones de capas'',
       ''ciclos de imports'', ''fitness functions'', ''archguard'', ''deuda arquitectonica'']),
     (''tooling'', [''mcp'', ''herramienta'', ''herramientas'', ''browser'', ''scrape'', ''scraping'',
       ''catalogo'', ''tool selection'', ''integracion de api''])]"

definition test_keywords :: "string list" where
  "test_keywords = [''test'', ''testing'', ''tests'']"

definition doc_keywords :: "string list" where
  "doc_keywords = [''doc'', ''docs'', ''documentacion'']"

definition doc_skills :: "string list" where
  "doc_skills = [''science-doc'', ''legal-doc'']"

definition language_triggers :: "(string \<times> string list) list" where
  "language_triggers = [(''rust-lang'', [''rust'', ''cargo'', ''crate'', ''tokio'', ''borrow''])]"

subsection \<open>The registry\<close>

text \<open>\<open>sf_path\<close> gives the path of a skill's file when it exists, \<open>sf_body\<close> what is read from a path.\<close>

record skill_files =
  sf_path :: "string \<Rightarrow> string option"
  sf_body :: "string \<Rightarrow> string"

type_synonym bundler = "json_object list"

definition entry_name :: "json_object \<Rightarrow> string" where
  "entry_name s = py_str (dict_get s ''name'' (PStr []))"

definition resolve_path :: "skill_files \<Rightarrow> json_object \<Rightarrow> json_object" where
  "resolve_path f s =
     (if py_truthy (dict_get s ''path'' PNone) then s
      else (case sf_path f (entry_name s) of None \<Rightarrow> s | Some p \<Rightarrow> AList.update ''path'' (PStr p) s))"

text \<open>\<open>None\<close> for a file that is not there; anything but a list of mappings ends in an empty registry\<close>

fun mappings :: "json list \<Rightarrow> json_object list option" where
  "mappings [] = Some []"
| "mappings (PDict d # vs) = map_option ((#) d) (mappings vs)"
| "mappings (_ # vs) = None"

definition load_registry :: "skill_files \<Rightarrow> json option \<Rightarrow> bundler" where
  "load_registry f doc =
     (case doc of
        Some (PDict d) \<Rightarrow>
          (case dict_get d ''skills'' (PList []) of
             PList vs \<Rightarrow> (case mappings vs of None \<Rightarrow> [] | Some ss \<Rightarrow> map (resolve_path f) ss)
           | _ \<Rightarrow> [])
      | _ \<Rightarrow> [])"

subsection \<open>The domain of a task\<close>

definition domain_scores :: "string \<Rightarrow> (string \<times> rat) list" where
  "domain_scores task =
     (let safe = sanitize_task task
      in List.map_filter (\<lambda>(domain, keywords).
           let matched = match_keywords safe keywords
           in if matched = [] then None else Some (domain, of_nat (sum_list (map length matched)) / 10))
         domain_keywords)"

fun first_max :: "string \<times> rat \<Rightarrow> (string \<times> rat) list \<Rightarrow> string" where
  "first_max (d, x) [] = d"
| "first_max (d, x) ((d', y) # rest) = (if x < y then first_max (d', y) rest else first_max (d, x) rest)"

definition detect_domain :: "string \<Rightarrow> string" where
  "detect_domain task = (case domain_scores task of [] \<Rightarrow> ''general'' | s # ss \<Rightarrow> first_max s ss)"

definition skill_paths :: "bundler \<Rightarrow> (string \<times> string) list" where
  "skill_paths b = fold (\<lambda>s d. if py_truthy (dict_get s ''path'' PNone)
     then AList.update (entry_name s) (py_str (dict_get s ''path'' (PStr []))) d else d) b []"

text \<open>\<open>re.findall(r"\w+", text)\<close>\<close>

function words_of :: "string \<Rightarrow> string list" where
  "words_of s =
     (let t = dropWhile (\<lambda>c. \<not> word_char c) s
      in if t = [] then [] else takeWhile word_char t # words_of (dropWhile word_char t))"
  by pat_completeness auto
termination
proof (relation "measure length")
  fix s x
  assume x: "x = dropWhile (\<lambda>c. \<not> word_char c) s" and ne: "x \<noteq> []"
  then have "word_char (hd x)" using hd_dropWhile [of "\<lambda>c. \<not> word_char c" s] by simp
  with ne have "length (dropWhile word_char x) < length x" by (simp add: length_dropWhile_less)
  also have "length x \<le> length s" by (simp add: x length_dropWhile_le)
  finally show "(dropWhile word_char x, s) \<in> measure length" by simp
qed simp

declare words_of.simps [simp del]

definition tokenize :: "string \<Rightarrow> string set" where
  "tokenize text = set (words_of (normalize text))"

definition body_score :: "string \<Rightarrow> string set \<Rightarrow> rat" where
  "body_score body task_words =
     (let words = task_words - {[]}
      in if words = {} \<or> body = [] then 0
         else let tokens = tokenize body
              in if tokens = {} then 0 else of_nat (card (words \<inter> tokens)) / of_nat (card words))"

definition domain_body_score :: "skill_files \<Rightarrow> bundler \<Rightarrow> string \<Rightarrow> string \<Rightarrow> rat" where
  "domain_body_score f b domain task =
     (let skills = dict_get domain_skills domain []
      in if skills = [] then 0
         else
           let paths = skill_paths b; task_words = tokenize task;
               read = (\<lambda>name. case dict_get paths name [] of [] \<Rightarrow> [] | p \<Rightarrow> sf_body f p)
           in sum_list (map (\<lambda>name. body_score (read name) task_words) skills) / of_nat (length skills))"

definition resolve_ambiguous :: "skill_files \<Rightarrow> bundler \<Rightarrow> string \<Rightarrow> string \<Rightarrow> string" where
  "resolve_ambiguous f b domain task =
     (case sort_key (\<lambda>(_, x). - x) (domain_scores task) of
        (d1, x1) # (d2, x2) # _ \<Rightarrow>
          if x1 \<le> 0 \<or> x2 < x1 * (8 / 10) then domain
          else if domain \<noteq> d1 \<and> domain \<noteq> d2 then domain
          else if domain_body_score f b d1 task < domain_body_score f b d2 task then d2
          else domain
      | _ \<Rightarrow> domain)"

subsection \<open>The skills of a task\<close>

definition add_skill :: "string \<Rightarrow> string list \<Rightarrow> string list" where
  "add_skill s ss = (if s \<in> set ss then ss else ss @ [s])"

text \<open>an empty task counts as none\<close>

definition select_skills :: "skill_files \<Rightarrow> bundler \<Rightarrow> string \<Rightarrow> string \<Rightarrow> string list" where
  "select_skills f b domain task =
     (if map_of domain_skills domain = None then []
      else
        let domain = (if task = [] then domain else resolve_ambiguous f b domain task);
            skills = dict_get domain_skills domain []
        in if skills = [] then []
           else if task = [] then deduplicate skills
           else
             let skills = filter (\<lambda>s. case map_of language_triggers s of
                   None \<Rightarrow> True | Some ws \<Rightarrow> match_keywords task ws \<noteq> []) skills;
                 skills = (if match_keywords task test_keywords \<noteq> [] then add_skill ''security-audit'' skills else skills);
                 skills = (if match_keywords task doc_keywords \<noteq> [] then fold add_skill doc_skills skills else skills)
             in deduplicate skills)"

definition skill_for_agent :: "bundler \<Rightarrow> string \<Rightarrow> string option" where
  "skill_for_agent b agent = (if agent \<in> set (map entry_name b) then Some agent else None)"

definition list_skills :: "bundler \<Rightarrow> string list" where
  "list_skills b = deduplicate (map entry_name b)"

definition list_domains :: "string list" where
  "list_domains = map fst domain_skills"

definition get_skill_description :: "bundler \<Rightarrow> string \<Rightarrow> json" where
  "get_skill_description b name =
     (case List.find (\<lambda>s. dict_get s ''name'' PNone = PStr name) b of
        None \<Rightarrow> PStr [] | Some s \<Rightarrow> dict_get s ''description'' (PStr []))"

subsection \<open>Composition\<close>

record agent_config =
  ag_name :: string
  ag_lead :: string
  ag_skills :: "string list"
  ag_domain :: string

definition default_agents :: "string list" where
  "default_agents = [''builder'', ''scientist'', ''guardian'', ''evolve'']"

definition generic_skills :: "(string \<times> string list) list" where
  "generic_skills = [(''builder'', [''rust-lang'']), (''scientist'', [''architecture'']),
     (''guardian'', [''security-audit'']), (''evolve'', [])]"

definition assign_skill :: "string \<Rightarrow> (string \<times> string list) list \<Rightarrow> (string \<times> string list) list" where
  "assign_skill skill bundles =
     (case map_of skill_to_agent skill of
        None \<Rightarrow> bundles
      | Some agent \<Rightarrow>
          (case map_of bundles agent of
             None \<Rightarrow> bundles
           | Some ss \<Rightarrow> AList.update agent (ss @ [skill]) bundles))"

definition agent_config_of :: "string \<Rightarrow> string \<times> string list \<Rightarrow> agent_config" where
  "agent_config_of domain = (\<lambda>(agent, skills).
     let skills = (if skills = [] then dict_get generic_skills agent [] else skills)
     in \<lparr>ag_name = agent, ag_lead = (case skills of [] \<Rightarrow> [] | s # _ \<Rightarrow> s), ag_skills = skills, ag_domain = domain\<rparr>)"

definition compose :: "skill_files \<Rightarrow> bundler \<Rightarrow> string \<Rightarrow> string list \<Rightarrow> agent_config list" where
  "compose f b task available =
     (let domain = detect_domain task;
          selected = select_skills f b domain task;
          bundles = fold assign_skill selected (fold (\<lambda>a. AList.update a []) available [])
      in map (agent_config_of domain) bundles)"

subsection \<open>No near-duplicates\<close>

definition near_duplicate :: "string \<Rightarrow> string \<Rightarrow> bool" where
  "near_duplicate a b \<longleftrightarrow> 9 / 10 \<le> token_jaccard (name_tokens a) (name_tokens b)"

lemma token_jaccard_self: "finite l \<Longrightarrow> token_jaccard l l = 1"
  by (simp add: token_jaccard_def)

lemma near_duplicate_refl: "near_duplicate a a"
  by (simp add: near_duplicate_def token_jaccard_self name_tokens_def)

lemma near_duplicate_sym: "near_duplicate a b \<longleftrightarrow> near_duplicate b a"
  by (auto simp: near_duplicate_def token_jaccard_def Int_commute Un_commute)

text \<open>a list without near-duplicates, and what the first of each group leaves of a list\<close>

definition separated :: "string list \<Rightarrow> bool" where
  "separated ns \<longleftrightarrow> sorted_wrt (\<lambda>a b. \<not> near_duplicate a b) ns"

lemma separated_snoc:
  "separated (ns @ [n]) \<longleftrightarrow> separated ns \<and> (\<forall>k \<in> set ns. \<not> near_duplicate k n)"
  by (auto simp: separated_def sorted_wrt_append)

lemma keep_distinct_separated: "separated kept \<Longrightarrow> separated (keep_distinct ns kept)"
proof (induction ns kept rule: keep_distinct.induct)
  case (2 n ns kept)
  have "separated (kept @ [n])" if "\<not> list_ex (\<lambda>k. 9 / 10 \<le> token_jaccard (name_tokens n) (name_tokens k)) kept"
  proof -
    have "\<not> near_duplicate k n" if "k \<in> set kept" for k
      using that \<open>\<not> list_ex _ kept\<close> unfolding near_duplicate_sym [of k n]
      by (auto simp: near_duplicate_def list_ex_iff)
    then show ?thesis using 2 by (simp add: separated_snoc)
  qed
  then show ?case using 2 by (simp del: list_ex_iff)
qed simp

lemma set_keep_distinct: "set (keep_distinct ns kept) \<subseteq> set kept \<union> set ns" "set kept \<subseteq> set (keep_distinct ns kept)"
  by (induction ns kept rule: keep_distinct.induct) (simp_all, fastforce+)

lemma keep_distinct_covers: "n \<in> set ns \<Longrightarrow> \<exists>k \<in> set (keep_distinct ns kept). near_duplicate n k"
proof (induction ns kept rule: keep_distinct.induct)
  case (2 m ns kept)
  show ?case
  proof (cases "n = m")
    case False
    then show ?thesis using 2 by (simp split: if_splits)
  next
    case True
    show ?thesis
    proof (cases "list_ex (\<lambda>k. 9 / 10 \<le> token_jaccard (name_tokens m) (name_tokens k)) kept")
      case dup: True
      then obtain k where "k \<in> set kept" "near_duplicate m k" by (auto simp: list_ex_iff near_duplicate_def)
      then show ?thesis using dup True set_keep_distinct(2) [of kept ns] by auto
    next
      case False
      have "m \<in> set (keep_distinct ns (kept @ [m]))" using set_keep_distinct(2) [of "kept @ [m]" ns] by simp
      then show ?thesis using False True near_duplicate_refl by auto
    qed
  qed
qed simp

lemma deduplicate_props:
  "separated (deduplicate ns)" "set (deduplicate ns) \<subseteq> set ns"
  "n \<in> set ns \<Longrightarrow> \<exists>k \<in> set (deduplicate ns). near_duplicate n k"
  using keep_distinct_separated [of "[]" ns] set_keep_distinct(1) [of ns "[]"] keep_distinct_covers [of n ns "[]"]
  by (auto simp: deduplicate_def separated_def)

lemma separated_distinct: "separated ns \<Longrightarrow> distinct ns"
  unfolding separated_def by (induction ns) (auto simp: near_duplicate_refl)

subsection \<open>What is selected\<close>

lemma domain_skills_assigned: "list_all (\<lambda>(_, ss). list_all (\<lambda>s. map_of skill_to_agent s \<noteq> None) ss \<and> ss \<noteq> []) domain_skills"
  by code_simp

lemma extra_skills_assigned: "list_all (\<lambda>s. map_of skill_to_agent s \<noteq> None) (''security-audit'' # doc_skills)"
  by code_simp

lemma set_add_skill: "set (fold add_skill xs ss) = set xs \<union> set ss"
  by (induction xs arbitrary: ss) (auto simp: add_skill_def)

definition has_agent :: "string \<Rightarrow> bool" where
  "has_agent s \<longleftrightarrow> map_of skill_to_agent s \<noteq> None"

lemma domain_skill_has_agent: "s \<in> set (dict_get domain_skills d []) \<Longrightarrow> has_agent s"
proof -
  assume "s \<in> set (dict_get domain_skills d [])"
  then obtain ss where "map_of domain_skills d = Some ss" "s \<in> set ss"
    by (cases "map_of domain_skills d") (auto simp: dict_get_def)
  then show ?thesis using domain_skills_assigned by (fastforce simp: list_all_iff has_agent_def dest: map_of_SomeD)
qed


lemma in_map_filter: "y \<in> set (List.map_filter g xs) \<longleftrightarrow> (\<exists>x \<in> set xs. g x = Some y)"
  by (induction xs) (auto simp: map_filter_simps split: option.splits)

lemma resolve_ambiguous_known:
  assumes "map_of domain_skills domain \<noteq> None"
  shows "map_of domain_skills (resolve_ambiguous f b domain task) \<noteq> None"
proof -
  have known: "list_all (\<lambda>(d, _). map_of domain_skills d \<noteq> None) domain_keywords" by code_simp
  have scored: "d \<in> fst ` set domain_keywords" if "(d, x) \<in> set (domain_scores task)" for d x
    using that by (force simp: domain_scores_def Let_def in_map_filter split: if_splits prod.splits)
  have known': "map_of domain_skills d \<noteq> None" if "(d, x) \<in> set (domain_scores task)" for d x
    using scored [OF that] known by (fastforce simp: list_all_iff)
  define r where "r = sort_key (\<lambda>(_, x). - x) (domain_scores task)"
  have r: "map_of domain_skills d \<noteq> None" if "(d, x) \<in> set r" for d x
    using that known' by (simp add: r_def)
  show ?thesis
  proof (cases r)
    case Nil
    then show ?thesis using assms by (simp add: resolve_ambiguous_def flip: r_def)
  next
    case (Cons p1 r1)
    show ?thesis
    proof (cases r1)
      case Nil
      then show ?thesis using assms Cons by (cases p1) (simp add: resolve_ambiguous_def flip: r_def)
    next
      case (Cons p2 r2)
      obtain d2 x2 where p2: "p2 = (d2, x2)" by (cases p2)
      have "map_of domain_skills d2 \<noteq> None" using r [of d2 x2] Cons p2 \<open>r = p1 # r1\<close> by simp
      then show ?thesis
        using assms Cons p2 \<open>r = p1 # r1\<close> by (cases p1) (auto simp: resolve_ambiguous_def simp flip: r_def)
    qed
  qed
qed

lemma plain_skill_in_domain:
  "list_all (\<lambda>(_, ss). list_ex (\<lambda>s. map_of language_triggers s = None) ss) domain_skills"
  by code_simp

definition base_skills :: "string \<Rightarrow> string list \<Rightarrow> string list" where
  "base_skills task ss =
     (let skills = filter (\<lambda>s. case map_of language_triggers s of
            None \<Rightarrow> True | Some ws \<Rightarrow> match_keywords task ws \<noteq> []) ss;
          skills = (if match_keywords task test_keywords \<noteq> [] then add_skill ''security-audit'' skills else skills)
      in if match_keywords task doc_keywords \<noteq> [] then fold add_skill doc_skills skills else skills)"

lemma base_skills_rust:
  "''rust-lang'' \<in> set (base_skills task ss) \<Longrightarrow> list_ex (contains_word task) (dict_get language_triggers ''rust-lang'' [])"
  by (auto simp: base_skills_def Let_def set_add_skill add_skill_def doc_skills_def language_triggers_def
      match_keywords_def filter_empty_conv dict_get_def split: if_splits)

lemma base_skills_agents: "\<forall>s \<in> set ss. has_agent s \<Longrightarrow> s \<in> set (base_skills task ss) \<Longrightarrow> has_agent s"
  using extra_skills_assigned
  by (auto simp: base_skills_def Let_def set_add_skill add_skill_def has_agent_def list_all_iff split: if_splits)

lemma base_skills_ne: "list_ex (\<lambda>s. map_of language_triggers s = None) ss \<Longrightarrow> base_skills task ss \<noteq> []"
proof
  assume ex: "list_ex (\<lambda>s. map_of language_triggers s = None) ss" and nil: "base_skills task ss = []"
  from ex obtain s where "s \<in> set ss" "map_of language_triggers s = None" by (auto simp: list_ex_iff)
  then have "s \<in> set (base_skills task ss)"
    by (auto simp: base_skills_def Let_def set_add_skill add_skill_def)
  then show False using nil by simp
qed

lemma select_skills_base:
  assumes "task \<noteq> []"
  shows "select_skills f b domain task = (case map_of domain_skills domain of
     None \<Rightarrow> []
   | Some _ \<Rightarrow> deduplicate (base_skills task (dict_get domain_skills (resolve_ambiguous f b domain task) [])))"
proof (cases "map_of domain_skills domain")
  case None
  then show ?thesis by (simp add: select_skills_def)
next
  case (Some ss0)
  obtain ss1 where ss1: "map_of domain_skills (resolve_ambiguous f b domain task) = Some ss1"
    using resolve_ambiguous_known [of domain f b task] Some by auto
  have "ss1 \<noteq> []" using map_of_SomeD [OF ss1] plain_skill_in_domain by (fastforce simp: list_all_iff)
  then have ne: "dict_get domain_skills (resolve_ambiguous f b domain task) [] \<noteq> []" by (simp add: dict_get_def ss1)
  show ?thesis
    unfolding select_skills_def Let_def base_skills_def using assms Some ne
    by (simp only: option.case option.distinct if_False simp_thms)
qed

text \<open>
  For a task, no two selected skills are near-duplicates, each has an agent, there are none exactly when the
  domain is unknown, and the skill of a language is there only when the task names the language.
\<close>

theorem select_skills_sound:
  assumes "task \<noteq> []"
  shows "separated (select_skills f b domain task) \<and> list_all has_agent (select_skills f b domain task) \<and>
    (select_skills f b domain task = [] \<longleftrightarrow> domain \<notin> set list_domains) \<and>
    (if ''rust-lang'' \<in> set (select_skills f b domain task)
     then list_ex (contains_word task) (dict_get language_triggers ''rust-lang'' []) else True)"
proof (cases "map_of domain_skills domain")
  case None
  then have "select_skills f b domain task = []" by (simp add: select_skills_base [OF assms])
  moreover have "domain \<notin> set list_domains" using None by (simp add: list_domains_def map_of_eq_None_iff)
  ultimately show ?thesis by (simp add: separated_def)
next
  case (Some ss0)
  define ss where "ss = dict_get domain_skills (resolve_ambiguous f b domain task) []"
  have sel: "select_skills f b domain task = deduplicate (base_skills task ss)"
    using Some by (simp add: select_skills_base [OF assms] ss_def)
  obtain ss1 where "map_of domain_skills (resolve_ambiguous f b domain task) = Some ss1"
    using resolve_ambiguous_known [of domain f b task] Some by auto
  then have "(resolve_ambiguous f b domain task, ss) \<in> set domain_skills"
    by (auto simp: ss_def dict_get_def dest: map_of_SomeD)
  then have "base_skills task ss \<noteq> []"
    using plain_skill_in_domain base_skills_ne by (fastforce simp: list_all_iff)
  then obtain s where "s \<in> set (base_skills task ss)" by (cases "base_skills task ss") auto
  then have "deduplicate (base_skills task ss) \<noteq> []" using deduplicate_props(3) by fastforce
  moreover have "domain \<in> set list_domains" using Some by (force simp: list_domains_def dest: map_of_SomeD)
  moreover have "list_all has_agent (deduplicate (base_skills task ss))"
    using deduplicate_props(2) base_skills_agents [of ss _ task] domain_skill_has_agent
    unfolding list_all_iff ss_def by blast
  moreover have "''rust-lang'' \<in> set (deduplicate (base_skills task ss)) \<Longrightarrow>
      list_ex (contains_word task) (dict_get language_triggers ''rust-lang'' [])"
    using deduplicate_props(2) base_skills_rust by blast
  ultimately show ?thesis using deduplicate_props(1) unfolding sel by simp
qed

subsection \<open>Composed agents\<close>

lemma fresh_bundles:
  "set as \<inter> fst ` set d = {} \<Longrightarrow> distinct as \<Longrightarrow>
    fold (\<lambda>a. AList.update a v) as d = d @ map (\<lambda>a. (a, v)) as"
proof (induction as arbitrary: d)
  case Nil
  then show ?case by simp
next
  case (Cons a as)
  have "AList.update a v d = d @ [(a, v)]"
    using Cons.prems by (intro dict_update_fresh) (auto simp: map_of_eq_None_iff)
  then show ?case using Cons.IH [of "d @ [(a, v)]"] Cons.prems by auto
qed

lemma assign_skill_keys: "map fst (assign_skill s d) = map fst d"
  by (auto simp: assign_skill_def dict_keys_update split: option.splits dest: map_of_SomeD intro: rev_image_eqI)

lemma assign_skills_keys: "map fst (fold assign_skill ss d) = map fst d"
  by (induction ss arbitrary: d) (simp_all add: assign_skill_keys)

lemma assign_skills_get:
  "map_of (fold assign_skill ss d) a = map_option (\<lambda>us. us @ filter (\<lambda>s. map_of skill_to_agent s = Some a) ss) (map_of d a)"
proof (induction ss arbitrary: d)
  case Nil
  show ?case by (simp add: option.map_ident)
next
  case (Cons s ss)
  show ?case
    by (simp add: Cons.IH) (auto simp: assign_skill_def split: option.splits)
qed

lemma alist_by_keys: "distinct (map fst d) \<Longrightarrow> d = map (\<lambda>a. (a, the (map_of d a))) (map fst d)"
  by (auto simp: comp_def intro!: sym [OF map_idI] map_of_is_SomeI [THEN arg_cong [of _ _ the], symmetric])

text \<open>
  Every available agent is configured once, in order, with exactly the selected skills that are its own, or
  with its generic skills when it has none of them.
\<close>

theorem compose_exact:
  assumes "distinct available"
  shows "compose f b task available =
    map (\<lambda>a. agent_config_of (detect_domain task)
          (a, filter (\<lambda>s. map_of skill_to_agent s = Some a) (select_skills f b (detect_domain task) task))) available"
proof -
  let ?sel = "select_skills f b (detect_domain task) task"
  let ?d = "map (\<lambda>a. (a, [] :: string list)) available"
  have start: "fold (\<lambda>a. AList.update a []) available [] = ?d" using fresh_bundles [of available "[]"] assms by simp
  have keys: "map fst (fold assign_skill ?sel ?d) = available" by (simp add: assign_skills_keys comp_def)
  have "map_of ?d a = Some []" if "a \<in> set available" for a using that by (induction available) auto
  then have get: "the (map_of (fold assign_skill ?sel ?d) a) = filter (\<lambda>s. map_of skill_to_agent s = Some a) ?sel"
    if "a \<in> set available" for a
    using that by (simp add: assign_skills_get)
  have "fold assign_skill ?sel ?d = map (\<lambda>a. (a, the (map_of (fold assign_skill ?sel ?d) a))) available"
    using alist_by_keys [of "fold assign_skill ?sel ?d"] assms keys by simp
  also have "\<dots> = map (\<lambda>a. (a, filter (\<lambda>s. map_of skill_to_agent s = Some a) ?sel)) available"
    using get by (auto intro!: map_cong)
  finally show ?thesis by (simp add: compose_def start comp_def Let_def)
qed

text \<open>Instances.\<close>

definition no_files :: skill_files where
  "no_files = \<lparr>sf_path = (\<lambda>_. None), sf_body = (\<lambda>_. [])\<rparr>"

theorem select_skills_sound_witness:
  "separated (select_skills no_files [] ''api'' ''docs'') \<and> list_all has_agent (select_skills no_files [] ''api'' ''docs'') \<and>
    (select_skills no_files [] ''api'' ''docs'' = [] \<longleftrightarrow> ''api'' \<notin> set list_domains) \<and>
    (if ''rust-lang'' \<in> set (select_skills no_files [] ''api'' ''docs'')
     then list_ex (contains_word ''docs'') (dict_get language_triggers ''rust-lang'' []) else True)"
  by (rule select_skills_sound) simp

theorem compose_exact_witness:
  "compose no_files [] ''docs'' default_agents =
    map (\<lambda>a. agent_config_of (detect_domain ''docs'')
          (a, filter (\<lambda>s. map_of skill_to_agent s = Some a) (select_skills no_files [] (detect_domain ''docs'') ''docs'')))
      default_agents"
  by (rule compose_exact) (simp add: default_agents_def)

text \<open>what an agent outside the default ones should carry is carried by none\<close>

lemma lost_skills:
  "list_all (\<lambda>s. case map_of skill_to_agent s of None \<Rightarrow> False | Some a \<Rightarrow> a \<notin> set default_agents)
     [''mcp-toolkit'', ''mcp-security'', ''alpha-mining'', ''reverse-engineering'', ''legal-forensics'',
      ''ads-optimizer'', ''codebase-comprehension'', ''architecture-review'', ''skill-engineering'',
      ''frontier-engineering'', ''process-over-tools'']"
  by code_simp

end
