(* ===== verification/Spec2Isabelle.thy ===== *)
theory Spec2Isabelle
  imports KernelBus FederationBus DurableRun WriteAheadLog IdempotencyGuard DeltaChannel Hooks
    ZeroTrust EventBus RequestGovernor SessionAffinity PlanOrder GraphAlgorithms Resilience
    SharedCache TokenBudget ComplexProblems SketchSearch BatchExecution BatchVote
    RollingRank WriteActor WriteBatcher ShapleyFlow FactorDsl FactorEval MarsScheduler
    EditDistance GovernedMemory OversampleTuner MemoryTraversal MemoryWrites
    RoutingMutation ThoughtPlanner AccessGovernance
    JobScheduler AgentSelection SkillBundle
begin

text \<open>
  SWARMIND is a harness that coordinates language-model agents: a small deterministic kernel
  moves messages, an orchestrator plans and runs tasks over it durably, a federation layer
  delegates tasks between projects, a router decides which model serves a request, and hooks,
  policies and tokens guard what agents may do. The development models the parts of
  \<open>src/harness\<close> that carry this logic and proves what they promise; where the code breaks a
  promise, the theorem states what it does instead.

  How the parts interact. Submitting to the kernel puts an envelope in the bounded mailbox and an
  entry in the event log; the loop takes envelopes out and runs their handlers, which may submit
  again. The kernel bus is a publish and subscribe layer over that loop, and the request tracker
  correlates replies over a bus. The federation bus checks the governance policy, the agent card of
  the target and the state of the task, runs the remote process, moves the task through its life
  cycle, stores it in the task store and appends to the audit log. Durable runs, the write-ahead
  log, the idempotency guard and the delta channel each make a piece of work survive a crash. The
  planner splits a plan into levels, ordered by the critical path. The model manager asks the
  request governor (circuit breaker, budget, slot) before each local inference, and the session
  affinity keeps a conversation on one model tier. Routing asks the resilience governance whether a
  resource may be tried; agents share answers through the semantic cache and draw tokens from
  budgets the session manager redistributes. The attack loop draws episodes from a capped budget,
  asks a generator and a verifier, and records solved problems in a journalled ledger. Batches run on
  a bounded executor, and several answers to one question are put to a vote. A task is cleaned of
  injected lines and matched against keywords to choose its agents and the skills they carry.

  Conventions. A Python string is a list of characters, a character a code point below 256. A
  \<open>dict\<close> is an association list in insertion order, \<open>d[k] = v\<close> being \<open>AList.update\<close>. Integers are
  \<open>int\<close> or \<open>nat\<close>, unbounded as in Python. Times, latencies and scores, which are floats in the
  code, are exact: integers or rationals. Operations that raise return the state together with a
  sum, the error on the left, so what a failing call has already changed is visible. Clock
  readings, fresh identifiers, hash functions, callbacks and the remote process are arguments.
  Objects that are shared and mutated live in an explicit heap (WriteAheadLog). An operation
  protected by a lock is one atomic step.

  Theories and what they model (paths under \<open>src/harness\<close>):

  \<^item> Prelude, PyText, PyNumeric, Contracts: dictionaries, slices and bounded histories; JSON values,
    their text, splitting and joining of strings; rounding and random draws; the interfaces \<open>bounded_fifo\<close>, \<open>sequenced_log\<close> and
    \<open>keep_first\<close>, each interpreted on the model's own operations (mailbox, work queue, write queue, event log, task store, hook
    registry, idempotency guard, event answers, solved problems, sketches) so that the facts proved once apply to each.
  \<^item> Mailbox (\<open>kernel/envelope.py\<close>, \<open>kernel/mailbox.py\<close>), EventLog (\<open>kernel/event_log.py\<close>),
    KernelLoop (\<open>kernel/loop.py\<close>): capacity, order and numbering over any run whose handlers are
    themselves kernel calls; a bounded run returns; what a failing append leaves behind.
  \<^item> KernelBus (\<open>orchestrator/agent_bus/kernel_bus.py\<close>, \<open>orchestrator/request_tracker.py\<close>): draining,
    the state of the bus once its log is full, replies consumed once.
  \<^item> TaskProtocol (\<open>federation/task_protocol.py\<close>), FederationBus (\<open>federation/federation_bus.py\<close>,
    \<open>federation/agent_card.py\<close>): the task life cycle as a step relation with reachability, the store
    as a refinement of keep-first, round trips of tasks and cards, denial without effect, what is
    recorded of a permitted task.
  \<^item> DurableRun (\<open>orchestrator/durable_run.py\<close>), WriteAheadLog (\<open>orchestrator/write_ahead_log.py\<close>),
    IdempotencyGuard (\<open>orchestrator/idempotency_guard.py\<close>), DeltaChannel
    (\<open>orchestrator/delta_channel.py\<close>): invariants over histories in which a crash, that is a fresh
    instance over the same files, may come between any two operations.
  \<^item> Hooks (\<open>hooks/hook_registry.py\<close>, \<open>hooks/hook_manager.py\<close>), EventBus
    (\<open>orchestrator/event_bus.py\<close>): registries with their indexes, delivery in priority order, bounded
    histories, fail-fast execution.
  \<^item> ZeroTrust (\<open>security/zero_trust.py\<close>): tokens from creation to their end, policies.
  \<^item> RequestGovernor (\<open>model_router/request_governor.py\<close>, \<open>model_router/llama_swap_manager.py\<close>):
    the breaker as a refinement of one small machine per model, exact admission, every path of
    \<open>warm\<close>, and a step relation of concurrent callers with the exclusion of the slot. SessionAffinity
    (\<open>model_router/session_affinity.py\<close>): stickiness over any sequence of calls.
  \<^item> TaskPlan, PlanOrder (\<open>orchestrator/task_planner/models.py\<close>, \<open>orchestrator/latency_aware.py\<close>):
    Kahn's algorithm with any arrangement of the ready nodes, the critical path as the heaviest
    chain, the levels of a plan, the transitive dependencies.
  \<^item> HeapQueue (\<open>heapq\<close> of the standard library): its lists under a comparison that may raise, in the
    locale \<open>heap_order\<close>. MarsScheduler (\<open>orchestrator/mars_scheduler\<close>, \<open>mars_scheduler_types.py\<close>)
    interprets it on its queue entries: loads and counters over any history of a careful caller,
    the choice of an agent, dispatching that leaves no startable task waiting, and what the code gets
    wrong: learned values, the overfull queue, repeated tasks, tasks that cannot be compared.
  \<^item> RoutingMutation (\<open>orchestrator/routing_mutation.py\<close>): the distance of routings as a metric, what
    any mutation keeps and changes under every outcome of the draws, and the archive of the best
    variant of each niche.
  \<^item> KeywordMatch (\<open>orchestrator/keyword_match.py\<close>, \<open>prompt_sanitizer.py\<close>): whole words as splits of the
    normalized text, and sanitized tasks without injected lines. AgentSelection
    (\<open>agent_selector.py\<close>, \<open>competence_model.py\<close>, \<open>decision_trace.py\<close>): selections of known agents with
    the best lead, evidence as a count of trials, the trace as the latest decisions. SkillBundle
    (\<open>skill_bundler.py\<close>, \<open>hidden_body.py\<close>): the skills of a domain without near-duplicates and the agents
    composed from them.
  \<^item> ThoughtPlanner (\<open>orchestrator/got_planner.py\<close>, \<open>orchestrator/thought_graph.py\<close>): plans as trees for
    every strategy, at most two nodes over their limit, the way to the root as a partial function that returns on plans, and why the
    executor answers with the task itself.
  \<^item> AccessGovernance (\<open>orchestrator/multi_user_governance\<close>): inheritance of roles as a closure, users as
    objects in a heap, checks with hooks that may do anything, and the whole as a refinement of a
    directory of roles with an audit trail.
  \<^item> JobScheduler (\<open>scheduler\<close>): jobs and their JSON or YAML file, the cron scheduler over any history with its
    exact runs and, on a JSON file, its restart, and the scheduler on the schedule library, whose one-shot jobs never end.
  \<^item> GovernedMemory, MemoryTraversal and MemoryWrites (\<open>memory_rag/ruscadb_store.py\<close>,
    \<open>memory_guard.py\<close>, \<open>memory_reconciliation.py\<close>, \<open>memory_heat.py\<close>): what the queries serve and in
    which order, rank fusion, the reach of a traversal, the tags that keep poisoned rows out of
    the governed searches, reconciliation and eviction, and the search modes that skip the governance.
  \<^item> EditDistance (\<open>RuscaDBStore._edit_distance\<close>): the two-row program is the edit distance.
  \<^item> OversampleTuner (\<open>memory_rag/binary_tuning.py\<close>): bounds of the control loop and its climb.
  \<^item> GraphAlgorithms (\<open>memory_rag/graph_algorithms.py\<close>): breadth-first search, components, PageRank.
  \<^item> Resilience (\<open>orchestrator/self_healing.py\<close>, \<open>orchestrator/resilience_governance.py\<close>): the
    session breaker, cooldowns with exact backoff up to the overflow of the code, lockouts as a count
    per triple, and what guarded callers can and cannot undo.
  \<^item> SharedCache (\<open>memory_rag/shared_cache.py\<close>): the dictionary and the key list refine one list of
    entries in order of use; exact lookup; the invariant over any history.
  \<^item> TokenBudget (\<open>memory_rag/token_budget\<close>): conservation of tokens by a request, bounds over a
    history without failures, penalties, and the redistribution of a session.
  \<^item> ComplexProblems (\<open>complex_problems/budget.py\<close>, \<open>attack.py\<close>, \<open>progress.py\<close>, \<open>verifier.py\<close>): the
    attack as exactly its affordable attempts; the ledger over records and restarts, its journal as
    text. SketchSearch (\<open>p_ucb.py\<close>, \<open>sketch_store.py\<close>): coverage of the families, zero-sum ratings.
  \<^item> BatchExecution (\<open>orchestrator/bounded_executor.py\<close>): what is admitted and shed, and the outcome of
    a batch under every interleaving of the workers. BatchVote (\<open>orchestrator/batch_vote.py\<close>): the
    winner of a vote as the absolute majority, the winner by stakes, what a vote costs.
  \<^item> RollingRank (\<open>alpha_mining/rolling_rank.py\<close>): the Fenwick tree from the arithmetic of the lowest
    set bit up to the rolling midrank, equal to its definition on each window.
  \<^item> FactorDsl, FactorEval (\<open>alpha_mining/factor_dsl.py\<close>, \<open>ts_corr\<close> of \<open>rolling_rank.py\<close>): what the
    constructors build is what parsing lets in and JSON gives back; formulas and genes can be decoded;
    similarity and forbidden motifs over the multiset of subtrees; evaluation equals a reference
    semantics per cell, from which it follows that no factor looks ahead.
  \<^item> WriteActor, WriteBatcher (\<open>memory_rag/write_actor.py\<close>): a labelled step relation of callers,
    writer thread and closing, with the store as a serial execution; what a flush answers to
    each request whatever the store does, and no request lost over any history.
  \<^item> ShapleyFlow (\<open>memory_rag/shapley_flow\<close>): token budgets of prompt sections; exact and sampled
    Shapley values share out the whole value, and largest remainders split the budget exactly.

  Loops and fuel. \<open>run_loop\<close> of the kernel may run for ever when handlers keep submitting, so it is a
  \<open>partial_function (option)\<close>; that it returns under a message limit is a theorem. The retries of the
  write-ahead log recurse on the number of attempts left. Following the parents of the critical
  path has as fuel one more than the number of subtasks, and \<open>walk_chain\<close> shows that it suffices.
  Every other loop is a recursion with a measure.

  Not modelled: what a component only prints or logs; the regular-expression scanners of the hooks, embeddings,
  storage engines, subprocesses and model clients, whose behaviour is that of external libraries;
  heuristics that only weigh floating-point scores; asynchronous variants of modelled operations.
\<close>

end
